(* ===== verification/Prelude_Base.thy ===== *)
theory Prelude_Base
  imports Main "HOL-Library.Word"
begin

text \<open>
  Shared material of the development: the machine integer types of the 32-bit target, the
  collections of simplification facts the component theories extend, and generic lemmas on
  lists, bytes and words used by several components.
\<close>

unbundle bit_operations_syntax

section \<open>Machine integers of the Cortex-M33 target\<close>

type_synonym u8 = "8 word"
type_synonym u16 = "16 word"
type_synonym u32 = "32 word"

text \<open>The named collections: state updates of a component, and the facts that bound word values.\<close>

named_theorems state_simps "equations that compute the state after an operation"
named_theorems word_bounds "bounds and conversions of machine integers"

section \<open>Lists\<close>

lemma list_update_same_iff:
  assumes "i < length xs"
  shows "xs[i := v] = xs \<longleftrightarrow> xs ! i = v"
  using assms by (metis list_update_id list_update_same_conv)

lemma takeWhile_True [simp]: "takeWhile (\<lambda>x. True) xs = xs"
  by (simp add: takeWhile_eq_all_conv)

lemma sorted_wrt_takeWhile_dropWhile:
  fixes key :: "'a \<Rightarrow> 'k::linorder"
  assumes "sorted (map key xs)"
  shows "\<forall>x \<in> set (dropWhile (\<lambda>x. key x \<le> v) xs). v < key x"
  using assms by (induction xs) (auto simp: not_le intro: less_le_trans)

section \<open>Words\<close>

lemma unat_add_small [word_bounds]:
  fixes a b :: "'a::len word"
  assumes "unat a + unat b < 2 ^ LENGTH('a)"
  shows "unat (a + b) = unat a + unat b"
  using assms by (simp add: unat_word_ariths)

lemma unat_sub_small [word_bounds]:
  fixes a b :: "'a::len word"
  assumes "b \<le> a"
  shows "unat (a - b) = unat a - unat b"
  using assms by (simp add: unat_sub)

lemma unat_bound: "unat (x :: 'a::len word) < 2 ^ LENGTH('a)"
  by (rule unsigned_less)

lemma word_max_top:
  fixes a :: "'a::len word"
  shows "a \<le> - 1"
  by (rule word_n1_ge)

text \<open>Two words are equal when their bits are, checked bit by bit at a fixed width.\<close>

lemma word_eq_bitsI:
  fixes a b :: "'a::len word"
  assumes "list_all (\<lambda>i. bit a i = bit b i) [0..<LENGTH('a)]"
  shows "a = b"
  using assms by (intro bit_word_eqI) (auto simp: list_all_iff)

text \<open>The bit positions of the three widths, spelled out for such checks.\<close>

lemma bit_positions:
  "[0..<8] = [0, 1, 2, 3, 4, 5, 6, 7]"
  "[0..<16] =
     [0, 1, 2, 3, 4, 5, 6, 7, 8, 9, 10, 11, 12, 13, 14, 15]"
  "[0..<32] =
     [0, 1, 2, 3, 4, 5, 6, 7, 8, 9, 10, 11, 12, 13, 14, 15, 16, 17, 18, 19, 20, 21, 22, 23,
     24, 25, 26, 27, 28, 29, 30, 31]"
  by (simp_all add: upt_rec numeral_eq_Suc)

end
