(* ===== verification/App_Dhcp.thy ===== *)
theory App_Dhcp
  imports Prelude_Base
begin

text \<open>
  The address server of the access point (\<^verbatim>\<open>applications/lwip/AppDhcpService.cpp\<close>): the search for an option, the
  handling of discoveries and requests, the replies and where they are sent. A received message is a function from
  offsets to bytes, so a read behind its end has a value; the received length is kept beside it. A handler gives the
  new state and the message sent, if any, or how it fails: the search for a free address may not end, and a
  client identifier may be longer than the array it is copied to. Printing and the socket calls other than sending are left out.
\<close>

section \<open>Messages and state\<close>

record DhcpAddress_t =
  ipAddress :: u32
  hardwareAddress :: "u8 list"
  hardwareAddressSize :: nat

record AppDhcpService =
  addressInfos :: "DhcpAddress_t list"
  hostIpAddress :: u32
  hostName :: "u8 list"
  lastOfferIpAddress :: u32
  minimumIpAddress :: u32
  maximumIpAddress :: u32
  subNetworkMask :: u32

abbreviation MIN_IP :: u32 where "MIN_IP \<equiv> 15"
abbreviation MAX_IP :: u32 where "MAX_IP \<equiv> 20"
abbreviation MAX_ADDRESS_INFO :: nat where "MAX_ADDRESS_INFO \<equiv> 5"
abbreviation ADDRESS_BROADCAST :: u32 where "ADDRESS_BROADCAST \<equiv> 0xFFFFFFFF"
abbreviation ADDRESS_LOOPBACK :: u32 where "ADDRESS_LOOPBACK \<equiv> 0x7F000001"
abbreviation DHCP_MESSAGE_SIZE :: nat where "DHCP_MESSAGE_SIZE \<equiv> 236"

text \<open>\<open>EMW-HotSpot\<close>.\<close>

definition EMW_HotSpot :: "u8 list" where
  "EMW_HotSpot = [69, 77, 87, 45, 72, 111, 116, 83, 112, 111, 116]"

text \<open>The arguments are the address and the mask of the interface in host order.\<close>

definition AppDhcpService_init :: "u32 \<Rightarrow> u32 \<Rightarrow> AppDhcpService" where
  "AppDhcpService_init host netmask =
    \<lparr>addressInfos = [], hostIpAddress = host, hostName = EMW_HotSpot, lastOfferIpAddress = 0,
     minimumIpAddress = host OR MIN_IP, maximumIpAddress = host OR MAX_IP, subNetworkMask = netmask\<rparr>"

datatype DhcpMessageTypes = eTYPE_DISCOVER | eTYPE_OFFER | eTYPE_REQUEST | eTYPE_DECLINE | eTYPE_ACK | eTYPE_NAK
  | eTYPE_RELEASE | eTYPE_INFORM

fun code_of :: "DhcpMessageTypes \<Rightarrow> u8" where
  "code_of eTYPE_DISCOVER = 1" | "code_of eTYPE_OFFER = 2" | "code_of eTYPE_REQUEST = 3" | "code_of eTYPE_DECLINE = 4"
| "code_of eTYPE_ACK = 5" | "code_of eTYPE_NAK = 6" | "code_of eTYPE_RELEASE = 7" | "code_of eTYPE_INFORM = 8"

text \<open>The values between \<^verbatim>\<open>eTYPE_FIRST_VALUE\<close> and \<^verbatim>\<open>eTYPE_LAST_VALUE\<close>.\<close>

definition type_of :: "u8 \<Rightarrow> DhcpMessageTypes option" where
  "type_of c = (if c = 1 then Some eTYPE_DISCOVER else if c = 2 then Some eTYPE_OFFER else if c = 3 then Some eTYPE_REQUEST
    else if c = 4 then Some eTYPE_DECLINE else if c = 5 then Some eTYPE_ACK else if c = 6 then Some eTYPE_NAK
    else if c = 7 then Some eTYPE_RELEASE else if c = 8 then Some eTYPE_INFORM else None)"

record DhcpMessage_t =
  op_code :: u8
  htype :: u8
  hlen :: u8
  hops :: u8
  xid :: "u8 list"
  secs :: "u8 list"
  m_flags :: "u8 list"
  ciaddr :: "u8 list"
  yiaddr :: "u8 list"
  siaddr :: "u8 list"
  giaddr :: "u8 list"
  chaddr :: "u8 list"
  sname :: "u8 list"
  m_file :: "u8 list"

type_synonym memory = "nat \<Rightarrow> u8"

definition bytes_at :: "memory \<Rightarrow> nat \<Rightarrow> nat \<Rightarrow> u8 list" where
  "bytes_at u a n = map (\<lambda>i. u (a + i)) [0..<n]"

definition message_at :: "memory \<Rightarrow> DhcpMessage_t" where
  "message_at u = \<lparr>op_code = u 0, htype = u 1, hlen = u 2, hops = u 3, xid = bytes_at u 4 4, secs = bytes_at u 8 2,
     m_flags = bytes_at u 10 2, ciaddr = bytes_at u 12 4, yiaddr = bytes_at u 16 4, siaddr = bytes_at u 20 4,
     giaddr = bytes_at u 24 4, chaddr = bytes_at u 28 16, sname = bytes_at u 44 64, m_file = bytes_at u 108 128\<rparr>"

definition message_bytes :: "DhcpMessage_t \<Rightarrow> u8 list" where
  "message_bytes m = [op_code m, htype m, hlen m, hops m] @ xid m @ secs m @ m_flags m @ ciaddr m @ yiaddr m @ siaddr m @
     giaddr m @ chaddr m @ sname m @ m_file m"

definition zero_message :: DhcpMessage_t where
  "zero_message = \<lparr>op_code = 0, htype = 0, hlen = 0, hops = 0, xid = replicate 4 0, secs = replicate 2 0,
     m_flags = replicate 2 0, ciaddr = replicate 4 0, yiaddr = replicate 4 0, siaddr = replicate 4 0,
     giaddr = replicate 4 0, chaddr = replicate 16 0, sname = replicate 64 0, m_file = replicate 128 0\<rparr>"

definition MakeU32 :: "u8 \<Rightarrow> u8 \<Rightarrow> u8 \<Rightarrow> u8 \<Rightarrow> u32" where
  "MakeU32 a b c d = push_bit 24 (ucast a) OR push_bit 16 (ucast b) OR push_bit 8 (ucast c) OR ucast d"

definition address_of :: "u8 list \<Rightarrow> u32" where
  "address_of bs = MakeU32 (bs ! 0) (bs ! 1) (bs ! 2) (bs ! 3)"

definition address_octets :: "u32 \<Rightarrow> u8 list" where
  "address_octets a = [ucast (drop_bit 24 (a AND 0xFF000000)), ucast (drop_bit 16 (a AND 0x00FF0000)),
     ucast (drop_bit 8 (a AND 0x0000FF00)), ucast (a AND 0x000000FF)]"

section \<open>Options\<close>

abbreviation ePAD :: u8 where "ePAD \<equiv> 0"
abbreviation eSUBNETMASK :: u8 where "eSUBNETMASK \<equiv> 1"
abbreviation eROUTER :: u8 where "eROUTER \<equiv> 3"
abbreviation eHOSTNAME :: u8 where "eHOSTNAME \<equiv> 12"
abbreviation eREQUESTEDIPADDRESS :: u8 where "eREQUESTEDIPADDRESS \<equiv> 50"
abbreviation eIPADDRESSLEASETIME :: u8 where "eIPADDRESSLEASETIME \<equiv> 51"
abbreviation eDHCPMESSAGETYPE :: u8 where "eDHCPMESSAGETYPE \<equiv> 53"
abbreviation eSERVERIDENTIFIER :: u8 where "eSERVERIDENTIFIER \<equiv> 54"
abbreviation eCLIENTIDENTIFIER :: u8 where "eCLIENTIDENTIFIER \<equiv> 61"
abbreviation eEND :: u8 where "eEND \<equiv> 255"

text \<open>The loop of \<^verbatim>\<open>findOption\<close> from the offset \<open>cur\<close>: where the data of the option is, and its length.\<close>

function find_from :: "u8 \<Rightarrow> memory \<Rightarrow> nat \<Rightarrow> nat \<Rightarrow> (nat \<times> nat) option" where
  "find_from option u optionsLength cur =
    (if cur < optionsLength then
       (if u cur = ePAD then find_from option u optionsLength (cur + 1)
        else if u cur = eEND then None
        else if cur + 1 < optionsLength then
          (let len = unat (u (cur + 1)) in
           if option = u cur then Some (cur + 2, len) else find_from option u optionsLength (cur + 2 + len))
        else None)
     else None)"
  by pat_completeness auto
termination
  by (relation "measure (\<lambda>(option, u, n, cur). n - cur)") auto

definition findOption :: "u8 \<Rightarrow> memory \<Rightarrow> nat \<Rightarrow> (nat \<times> nat) option" where
  "findOption option u optionsLength = find_from option u optionsLength 0"

definition getMessageType :: "memory \<Rightarrow> nat \<Rightarrow> DhcpMessageTypes option" where
  "getMessageType u optionsLength =
    (case findOption eDHCPMESSAGETYPE u optionsLength of
       Some (p, len) \<Rightarrow> if len = 1 then type_of (u p) else None
     | None \<Rightarrow> None)"

record DhcpOption_t =
  magic :: "u8 list"
  messageType :: "u8 list"
  leaseTime :: "u8 list"
  o_subNetworkMask :: "u8 list"
  serverIdentifier :: "u8 list"
  router :: "u8 list"
  o_end :: u8

definition zero_option :: DhcpOption_t where
  "zero_option = \<lparr>magic = replicate 4 0, messageType = replicate 3 0, leaseTime = replicate 6 0,
     o_subNetworkMask = replicate 6 0, serverIdentifier = replicate 6 0, router = replicate 6 0, o_end = 0\<rparr>"

definition option_bytes :: "DhcpOption_t \<Rightarrow> u8 list" where
  "option_bytes r = magic r @ messageType r @ leaseTime r @ o_subNetworkMask r @ serverIdentifier r @ router r @ [o_end r]"

definition MAGIC_COOKIE :: "u8 list" where "MAGIC_COOKIE = [99, 130, 83, 99]"

definition setReplyOptions :: "AppDhcpService \<Rightarrow> DhcpMessageTypes \<Rightarrow> DhcpOption_t \<Rightarrow> DhcpOption_t" where
  "setReplyOptions s type r =
    (let r = r\<lparr>magic := MAGIC_COOKIE, messageType := [eDHCPMESSAGETYPE, 1, code_of type]\<rparr>;
         r = (if type \<noteq> eTYPE_NAK then
                r\<lparr>leaseTime := [eIPADDRESSLEASETIME, 4] @ address_octets 3600,
                  o_subNetworkMask := [eSUBNETMASK, 4] @ address_octets (subNetworkMask s)\<rparr>
              else r)
     in r\<lparr>serverIdentifier := [eSERVERIDENTIFIER, 4] @ address_octets (hostIpAddress s),
          router := [eROUTER, 4] @ address_octets (hostIpAddress s), o_end := eEND\<rparr>)"

section \<open>The table of addresses\<close>

definition CheckIpAddress :: "u32 \<Rightarrow> DhcpAddress_t \<Rightarrow> bool" where
  "CheckIpAddress address info \<longleftrightarrow> address = ipAddress info"

definition CheckHardwareAddress :: "u8 list \<Rightarrow> DhcpAddress_t \<Rightarrow> bool" where
  "CheckHardwareAddress client info \<longleftrightarrow>
     hardwareAddressSize info \<noteq> 0 \<and> length client = hardwareAddressSize info \<and> client = take (length client) (hardwareAddress info)"

fun findIndex :: "(DhcpAddress_t \<Rightarrow> bool) \<Rightarrow> DhcpAddress_t list \<Rightarrow> nat option" where
  "findIndex f [] = None"
| "findIndex f (i # is') = (if f i then Some 0 else map_option Suc (findIndex f is'))"

definition storeInfo :: "DhcpAddress_t \<Rightarrow> AppDhcpService \<Rightarrow> AppDhcpService option" where
  "storeInfo info s =
    (if length (addressInfos s) < MAX_ADDRESS_INFO then Some (s\<lparr>addressInfos := addressInfos s @ [info]\<rparr>) else None)"

section \<open>Discoveries and requests\<close>

datatype fault = Hangs | Overflows

text \<open>The search for a free address. It ends with whether the address is free.\<close>

partial_function (option) offer_loop :: "AppDhcpService \<Rightarrow> u32 \<Rightarrow> bool \<Rightarrow> u32 \<Rightarrow> bool \<Rightarrow> (u32 \<times> bool) option" where
  "offer_loop s reference offered_initial new_offer_addr valid =
    (if \<not> valid \<and> \<not> (offered_initial \<and> reference = new_offer_addr) then
       (if maximumIpAddress s < new_offer_addr then
          (let new_offer_addr = minimumIpAddress s;
               valid = (findIndex (CheckIpAddress new_offer_addr) (addressInfos s) = None)
           in if valid then offer_loop s reference True new_offer_addr True
              else offer_loop s reference True (new_offer_addr + 1) False)
        else offer_loop s reference offered_initial new_offer_addr valid)
     else Some (new_offer_addr, valid))"

text \<open>The state, the reply with its type, and whether it is to be sent.\<close>

definition handleDiscoverMessage ::
  "bool \<Rightarrow> u32 \<Rightarrow> u8 list \<Rightarrow> DhcpMessage_t \<Rightarrow> AppDhcpService \<Rightarrow> fault + (AppDhcpService \<times> DhcpMessage_t \<times> bool)" where
  "handleDiscoverMessage seen offerAddress clientHardwareAddress reply s =
    (let s = s\<lparr>lastOfferIpAddress := maximumIpAddress s\<rparr>;
         new_offer_addr = (if seen then offerAddress else lastOfferIpAddress s + 1)
     in (case offer_loop s new_offer_addr False new_offer_addr seen of
           None \<Rightarrow> Inl Hangs
         | Some (new_offer_addr, valid) \<Rightarrow>
             (if valid then
                (let s = s\<lparr>lastOfferIpAddress := new_offer_addr\<rparr> in
                 if length clientHardwareAddress > 16 then Inl Overflows
                 else
                   (let info = \<lparr>ipAddress = new_offer_addr,
                          hardwareAddress = clientHardwareAddress @ drop (length clientHardwareAddress) (replicate 16 0),
                          hardwareAddressSize = length clientHardwareAddress\<rparr>;
                        reply' = reply\<lparr>yiaddr := address_octets new_offer_addr\<rparr>
                    in if seen then Inr (s, reply', True)
                       else (case storeInfo info s of Some s \<Rightarrow> Inr (s, reply', True) | None \<Rightarrow> Inr (s, reply, False))))
              else Inr (s, reply, False))))"

definition handleRequestMessage ::
  "u32 \<Rightarrow> u32 \<Rightarrow> bool \<Rightarrow> u32 \<Rightarrow> bool \<Rightarrow> u32 \<Rightarrow> DhcpMessage_t \<Rightarrow> AppDhcpService \<Rightarrow> DhcpMessage_t \<times> DhcpMessageTypes" where
  "handleRequestMessage clientIpAddress requestedIpAddress reqServerIdFound reqServer seen offerAddress reply s =
    (let type =
       (if reqServerIdFound \<and> hostIpAddress s = reqServer then (if seen then eTYPE_ACK else eTYPE_NAK)
        else if (requestedIpAddress \<noteq> ADDRESS_BROADCAST \<or> clientIpAddress \<noteq> 0) \<and>
                seen \<and> (offerAddress = requestedIpAddress \<or> offerAddress = clientIpAddress) then eTYPE_ACK
        else eTYPE_NAK)
     in if type = eTYPE_ACK
        then (reply\<lparr>ciaddr := address_octets offerAddress, yiaddr := address_octets offerAddress\<rparr>, type)
        else (reply, type))"

section \<open>Replies\<close>

definition BROADCAST_FLAG :: u8 where "BROADCAST_FLAG = 0x80"

text \<open>The address a reply goes to.\<close>

definition reply_address :: "DhcpMessageTypes \<Rightarrow> u32 \<Rightarrow> u32 \<Rightarrow> u32 \<Rightarrow> u8 list \<Rightarrow> u32" where
  "reply_address type gatewayIpAddress clientIpAddress yourIpAddress requestedFlag =
    (if gatewayIpAddress = 0 then
       (if type = eTYPE_OFFER \<or> type = eTYPE_ACK then
          (if clientIpAddress = 0 then
             (if BROADCAST_FLAG AND requestedFlag ! 0 \<noteq> 0 then ADDRESS_BROADCAST
              else if yourIpAddress = 0 then ADDRESS_BROADCAST else yourIpAddress)
           else clientIpAddress)
        else if type = eTYPE_NAK then ADDRESS_BROADCAST
        else ADDRESS_LOOPBACK)
     else gatewayIpAddress)"

definition sendReply :: "u8 list \<Rightarrow> DhcpMessageTypes \<Rightarrow> u32 \<Rightarrow> u32 \<Rightarrow> u32 \<Rightarrow> u8 list \<Rightarrow> u32 \<times> u8 list" where
  "sendReply replyBuffer type gatewayIpAddress clientIpAddress yourIpAddress requestedFlag =
    (let peer_addr = reply_address type gatewayIpAddress clientIpAddress yourIpAddress requestedFlag;
         replyBuffer = (if gatewayIpAddress = 0 then replyBuffer else replyBuffer[10 := replyBuffer ! 10 OR BROADCAST_FLAG])
     in (peer_addr, replyBuffer))"

section \<open>A received message\<close>

text \<open>\<^verbatim>\<open>strncpy\<close> and \<^verbatim>\<open>strncmp\<close>: copying stops at the zero and pads.\<close>

fun strncpy :: "memory \<Rightarrow> nat \<Rightarrow> nat \<Rightarrow> u8 list" where
  "strncpy u p 0 = []"
| "strncpy u p (Suc n) = (if u p = 0 then replicate (Suc n) 0 else u p # strncpy u (p + 1) n)"

fun strncmp_eq :: "u8 list \<Rightarrow> u8 list \<Rightarrow> nat \<Rightarrow> bool" where
  "strncmp_eq (a # as) (b # bs) (Suc n) \<longleftrightarrow> a = b \<and> (a = 0 \<or> strncmp_eq as bs n)"
| "strncmp_eq as bs n \<longleftrightarrow> True"

definition host_name_of :: "memory \<Rightarrow> nat \<Rightarrow> u8 list" where
  "host_name_of u optionsLength =
    (case findOption eHOSTNAME u optionsLength of
       None \<Rightarrow> replicate 64 0
     | Some (p, len) \<Rightarrow>
         (let host_name = strncpy u p 63 @ [0] in if len < 63 then host_name[len := 0] else host_name))"

definition client_address_of :: "memory \<Rightarrow> nat \<Rightarrow> DhcpMessage_t \<Rightarrow> u8 list" where
  "client_address_of u optionsLength request =
    (case findOption eCLIENTIDENTIFIER u optionsLength of
       Some (p, len) \<Rightarrow> bytes_at u p len
     | None \<Rightarrow> chaddr request)"

definition address_option :: "u8 \<Rightarrow> u32 \<Rightarrow> memory \<Rightarrow> nat \<Rightarrow> u32" where
  "address_option option dflt u optionsLength =
    (case findOption option u optionsLength of
       Some (p, len) \<Rightarrow> if len = 4 then address_of (bytes_at u p 4) else dflt
     | None \<Rightarrow> dflt)"

text \<open>The reply before its type is known.\<close>

definition reply_header :: "AppDhcpService \<Rightarrow> DhcpMessage_t \<Rightarrow> DhcpMessage_t" where
  "reply_header s request = zero_message\<lparr>op_code := 2, htype := htype request, hlen := hlen request, xid := xid request,
     m_flags := m_flags request, giaddr := giaddr request, chaddr := chaddr request,
     sname := (let nm = take 63 (hostName s) in nm @ replicate (64 - length nm) 0)\<rparr>"

definition processRequest :: "memory \<Rightarrow> nat \<Rightarrow> AppDhcpService \<Rightarrow> fault + (AppDhcpService \<times> (u32 \<times> u8 list) option)" where
  "processRequest u n s =
    (let request = message_at u; opts = (\<lambda>i. u (240 + i)); m = n - 240 in
     if 240 \<le> n \<and> op_code request = 1 \<and> bytes_at u 236 4 = MAGIC_COOKIE then
       (case getMessageType opts m of
          None \<Rightarrow> Inr (s, None)
        | Some type \<Rightarrow>
            (if strncmp_eq (host_name_of opts m) (hostName s) (length (hostName s)) then Inr (s, None)
             else
               (let client = client_address_of opts m request;
                    (seen, offer_addr) = (case findIndex (CheckHardwareAddress client) (addressInfos s) of
                        Some i \<Rightarrow> (True, ipAddress (addressInfos s ! i)) | None \<Rightarrow> (False, ADDRESS_BROADCAST));
                    reply = reply_header s request;
                    reply_to = (\<lambda>s reply type. Some (sendReply (message_bytes reply @ option_bytes (setReplyOptions s type zero_option)) type
                        (address_of (giaddr request)) (address_of (ciaddr request)) (address_of (yiaddr request)) (m_flags request)))
                in if type = eTYPE_DISCOVER then
                     (case handleDiscoverMessage seen offer_addr client reply s of
                        Inl e \<Rightarrow> Inl e
                      | Inr (s, reply, True) \<Rightarrow> Inr (s, reply_to s reply eTYPE_OFFER)
                      | Inr (s, reply, False) \<Rightarrow> Inr (s, None))
                   else if type = eTYPE_REQUEST then
                     (let requested = address_option eREQUESTEDIPADDRESS ADDRESS_BROADCAST opts m;
                          server_found = (findOption eSERVERIDENTIFIER opts m \<noteq> None);
                          req_server = address_option eSERVERIDENTIFIER 0 opts m;
                          (reply, reply_type) = handleRequestMessage (address_of (ciaddr request)) requested server_found
                            req_server seen offer_addr reply s
                      in Inr (s, reply_to s reply reply_type))
                   else Inr (s, None))))
     else Inr (s, None))"

section \<open>The search for a free address\<close>

lemma offer_loop_valid: "offer_loop s reference oi new True = Some (new, True)"
  by (subst offer_loop.simps) simp

definition stuck :: "AppDhcpService \<Rightarrow> u32 \<Rightarrow> u32 \<Rightarrow> bool \<Rightarrow> bool" where
  "stuck s reference new_offer_addr valid \<longleftrightarrow> findIndex (CheckIpAddress (minimumIpAddress s)) (addressInfos s) \<noteq> None \<and>
     reference \<noteq> minimumIpAddress s + 1 \<and> new_offer_addr = minimumIpAddress s + 1 \<and> \<not> valid"

lemma offer_loop_stuck:
  assumes "offer_loop s reference oi nw v = Some y"
  shows "\<not> stuck s reference nw v"
proof (rule offer_loop.raw_induct [where P = "\<lambda>s reference oi nw v y. \<not> stuck s reference nw v", OF _ assms])
  fix f s re oi nw v y
  assume IH: "\<And>s re oi nw v y. f s re oi nw v = Some y \<Longrightarrow> \<not> stuck s re nw v"
    and body: "(if \<not> v \<and> \<not> (oi \<and> re = nw) then
        if maximumIpAddress s < nw then
          let nw = minimumIpAddress s; v = findIndex (CheckIpAddress nw) (addressInfos s) = None
          in if v then f s re True nw True else f s re True (nw + 1) False
        else f s re oi nw v
      else Some (nw, v)) = Some y"
  show "\<not> stuck s re nw v"
  proof
    assume a: "stuck s re nw v"
    then have "f s re True (minimumIpAddress s + 1) False = Some y \<or> f s re oi nw v = Some y"
      using body by (auto simp: Let_def stuck_def split: if_splits)
    moreover have "stuck s re (minimumIpAddress s + 1) False" using a by (simp add: stuck_def)
    ultimately show False using IH [of s re True "minimumIpAddress s + 1" False y] IH [of s re oi nw v y] a by blast
  qed
qed

lemma word_less_Suc: "m \<noteq> - 1 \<Longrightarrow> (m :: u32) < m + 1"
proof -
  assume "m \<noteq> - 1"
  then have "unat m \<noteq> unat (- 1 :: u32)" by (simp add: word_unat_eq_iff)
  moreover have "unat (- 1 :: u32) = 4294967295" by (simp add: unsigned_minus_1_eq_mask mask_eq_exp_minus_1)
  ultimately have "unat m + unat (1 :: u32) < 2 ^ 32" using unat_bound [of m] by simp
  then show ?thesis using unat_add_small [of m 1] by (simp add: word_less_nat_alt)
qed

lemma offer_new:
  assumes m: "maximumIpAddress s \<noteq> - 1"
  shows "offer_loop s (maximumIpAddress s + 1) False (maximumIpAddress s + 1) False =
    (if findIndex (CheckIpAddress (minimumIpAddress s)) (addressInfos s) = None then Some (minimumIpAddress s, True)
     else if minimumIpAddress s = maximumIpAddress s then Some (minimumIpAddress s + 1, False) else None)"
proof -
  let ?taken = "findIndex (CheckIpAddress (minimumIpAddress s)) (addressInfos s) \<noteq> None"
  have "offer_loop s (maximumIpAddress s + 1) True (minimumIpAddress s + 1) False = None"
    if ?taken "minimumIpAddress s \<noteq> maximumIpAddress s"
  proof (rule ccontr)
    assume "offer_loop s (maximumIpAddress s + 1) True (minimumIpAddress s + 1) False \<noteq> None"
    then show False using offer_loop_stuck that by (fastforce simp: stuck_def)
  qed
  moreover have "offer_loop s (minimumIpAddress s + 1) True (minimumIpAddress s + 1) False = Some (minimumIpAddress s + 1, False)"
    by (subst offer_loop.simps) simp
  ultimately show ?thesis
    using word_less_Suc [OF m] by (subst offer_loop.simps) (auto simp: Let_def offer_loop_valid)
qed

section \<open>Memory and messages\<close>

definition mem_of :: "u8 list \<Rightarrow> memory" where
  "mem_of bs = (\<lambda>i. if i < length bs then bs ! i else 0)"

lemma length_bytes_at [simp]: "length (bytes_at u a n) = n"
  by (simp add: bytes_at_def)

lemma bytes_at_mem_of: "a + n \<le> length bs \<Longrightarrow> bytes_at (mem_of bs) a n = take n (drop a bs)"
  by (rule nth_equalityI) (simp_all add: bytes_at_def mem_of_def)

lemma bytes_at_offset: "bytes_at (\<lambda>i. u (k + i)) a n = bytes_at u (k + a) n"
  by (simp add: bytes_at_def add.assoc)

lemma bytes_at_nth: "i < n \<Longrightarrow> bytes_at u a n ! i = u (a + i)"
  by (simp add: bytes_at_def)

definition sized_message :: "DhcpMessage_t \<Rightarrow> bool" where
  "sized_message m \<longleftrightarrow> length (xid m) = 4 \<and> length (secs m) = 2 \<and> length (m_flags m) = 2 \<and> length (ciaddr m) = 4 \<and>
     length (yiaddr m) = 4 \<and> length (siaddr m) = 4 \<and> length (giaddr m) = 4 \<and> length (chaddr m) = 16 \<and>
     length (sname m) = 64 \<and> length (m_file m) = 128"

lemma sized_message_at: "sized_message (message_at u)"
  by (simp add: sized_message_def message_at_def)

lemma length_message_bytes: "sized_message m \<Longrightarrow> length (message_bytes m) = 236"
  by (simp add: sized_message_def message_bytes_def)

lemma message_roundtrip:
  assumes "sized_message m"
  shows "message_at (mem_of (message_bytes m @ rest)) = m"
proof -
  define bs where "bs = message_bytes m"
  have l: "length bs = 236" using length_message_bytes [OF assms] by (simp add: bs_def)
  have b: "bytes_at (mem_of (bs @ rest)) a n = take n (drop a bs)" if "a + n \<le> 236" for a n
    using that l by (simp add: bytes_at_mem_of)
  have n: "mem_of (bs @ rest) i = bs ! i" if "i < 236" for i
    using that l by (simp add: mem_of_def nth_append)
  have parts: "bs ! 0 = op_code m" "bs ! Suc 0 = htype m" "bs ! 2 = hlen m" "bs ! 3 = hops m" "take 4 (drop 4 bs) = xid m"
    "take 2 (drop 8 bs) = secs m" "take 2 (drop 10 bs) = m_flags m" "take 4 (drop 12 bs) = ciaddr m" "take 4 (drop 16 bs) = yiaddr m"
    "take 4 (drop 20 bs) = siaddr m" "take 4 (drop 24 bs) = giaddr m" "take 16 (drop 28 bs) = chaddr m"
    "take 64 (drop 44 bs) = sname m" "take 128 (drop 108 bs) = m_file m"
    using assms by (simp_all add: bs_def message_bytes_def sized_message_def)
  show ?thesis unfolding bs_def [symmetric]
    by (rule DhcpMessage_t.equality) (simp_all add: message_at_def b n parts)
qed

lemma message_flags_update:
  assumes "sized_message m"
  shows "(message_bytes m)[10 := x] = message_bytes (m\<lparr>m_flags := (m_flags m)[0 := x]\<rparr>)"
  using assms by (simp add: message_bytes_def sized_message_def list_update_append)

section \<open>The list of options\<close>

datatype option_item = Pad | Opt u8 "u8 list"

fun enc :: "option_item list \<Rightarrow> u8 list" where
  "enc [] = []"
| "enc (Pad # is') = ePAD # enc is'"
| "enc (Opt c v # is') = c # word_of_nat (length v) # v @ enc is'"

fun ok_item :: "option_item \<Rightarrow> bool" where
  "ok_item Pad \<longleftrightarrow> True"
| "ok_item (Opt c v) \<longleftrightarrow> c \<noteq> ePAD \<and> c \<noteq> eEND \<and> length v < 256"

fun option_value :: "u8 \<Rightarrow> option_item list \<Rightarrow> u8 list option" where
  "option_value c [] = None"
| "option_value c (Pad # is') = option_value c is'"
| "option_value c (Opt d v # is') = (if c = d then Some v else option_value c is')"

declare find_from.simps [simp del]

lemma bytes_at_Cons: "bytes_at u a (Suc n) = u a # bytes_at u (a + 1) n"
  by (rule nth_equalityI) (auto simp: bytes_at_def nth_Cons' simp del: upt_Suc)

lemma bytes_at_append: "bytes_at u a (n + k) = bytes_at u a n @ bytes_at u (a + n) k"
  by (induction n arbitrary: a) (simp_all add: bytes_at_Cons bytes_at_def [of u _ 0] add.assoc)

lemma find_from_encoded:
  assumes "bytes_at u cur (length (enc is')) = enc is'" and "list_all ok_item is'" and "cur + length (enc is') \<le> n"
  shows "case option_value c is' of
      None \<Rightarrow> find_from c u n cur = find_from c u n (cur + length (enc is'))
    | Some v \<Rightarrow> \<exists>p. find_from c u n cur = Some (p, length v) \<and> bytes_at u p (length v) = v \<and> p + length v \<le> n"
  using assms
proof (induction is' arbitrary: cur)
  case (Cons i is')
  show ?case
  proof (cases i)
    case Pad
    then have "u cur = ePAD" "bytes_at u (cur + 1) (length (enc is')) = enc is'" "cur < n"
      using Cons.prems by (simp_all add: bytes_at_Cons)
    moreover have "cur + 1 + length (enc is') \<le> n" using Cons.prems Pad by simp
    ultimately show ?thesis using Cons.IH [of "cur + 1"] Cons.prems Pad find_from.simps [of c u n cur]
      by (simp split: option.splits)
  next
    case (Opt d v)
    have e: "bytes_at u cur (Suc (Suc (length v + length (enc is')))) = d # word_of_nat (length v) # v @ enc is'"
      using Cons.prems Opt by simp
    then have u: "u cur = d" "u (cur + 1) = word_of_nat (length v)" "bytes_at u (cur + 2) (length v) = v"
      "bytes_at u (cur + 2 + length v) (length (enc is')) = enc is'"
      by (simp_all add: bytes_at_Cons bytes_at_append)
    have d: "d \<noteq> ePAD" "d \<noteq> eEND" "unat (word_of_nat (length v) :: u8) = length v"
      using Cons.prems Opt by (simp_all add: unat_of_nat)
    have n: "cur + 1 < n" "cur + 2 + length v + length (enc is') \<le> n" using Cons.prems Opt by simp_all
    have f: "find_from c u n cur = (if c = d then Some (cur + 2, length v) else find_from c u n (cur + 2 + length v))"
      using u d n by (subst find_from.simps) (simp add: Let_def)
    show ?thesis
    proof (cases "c = d")
      case True
      then show ?thesis using f u n Opt by simp
    next
      case False
      then show ?thesis using f Cons.IH [OF u(4)] n Cons.prems Opt
        by (simp add: add.assoc split: option.splits)
    qed
  qed
qed simp

text \<open>
  Looking up an option of a received message finds what the message says. In any well-formed list of options, with padding
  anywhere and the end marker or the end of the message behind it, the search gives the first
  option of that code, its data and length inside the message, and nothing when there is none. It always ends.
\<close>
theorem findOption_finds:
  assumes enc: "bytes_at u 0 (length (enc is')) = enc is'" and ok: "list_all ok_item is'" and len: "length (enc is') \<le> n"
    and stop: "n = length (enc is') \<or> u (length (enc is')) = eEND"
  shows "case option_value c is' of
      None \<Rightarrow> findOption c u n = None
    | Some v \<Rightarrow> \<exists>p. findOption c u n = Some (p, length v) \<and> bytes_at u p (length v) = v \<and> p + length v \<le> n"
proof -
  have "find_from c u n (length (enc is')) = None" using stop by (subst find_from.simps) auto
  then show ?thesis using find_from_encoded [OF enc ok, of n c] len by (simp add: findOption_def split: option.splits)
qed

theorem findOption_finds_witness:
  "\<exists>p. findOption 54 (mem_of (enc [Pad, Opt 53 [3], Pad, Opt 54 [192, 168, 8, 1]] @ [255, 0, 0])) 12 = Some (p, 4) \<and>
     bytes_at (mem_of (enc [Pad, Opt 53 [3], Pad, Opt 54 [192, 168, 8, 1]] @ [255, 0, 0])) p 4 = [192, 168, 8, 1]"
  (is "\<exists>p. findOption 54 ?u 12 = _ \<and> _")
proof -
  let ?is = "[Pad, Opt 53 [3], Pad, Opt 54 [192, 168, 8, 1]]"
  have a: "bytes_at ?u 0 (length (enc ?is)) = enc ?is" by (subst bytes_at_mem_of) simp_all
  have b: "list_all ok_item ?is" by simp
  have c: "length (enc ?is) \<le> 12" by simp
  have d: "?u (length (enc ?is)) = eEND" by (simp add: mem_of_def)
  have v: "option_value 54 ?is = Some [192, 168, 8, 1]" by simp
  have l: "length [192, 168, 8, 1 :: u8] = 4" by simp
  from findOption_finds [OF a b c disjI2 [OF d], of 54] show ?thesis unfolding v option.case l by blast
qed

section \<open>What a reply says\<close>

lemma address_roundtrip [simp]: "address_of (address_octets a) = a"
  by (rule word_eq_bitsI)
    (simp add: address_of_def address_octets_def MakeU32_def bit_positions bit_or_iff bit_and_iff bit_push_bit_iff bit_ucast_iff bit_drop_bit_eq bit_numeral_rec
      del: upt_rec_numeral)

lemma length_address_octets [simp]: "length (address_octets a) = 4"
  by (simp add: address_octets_def)

definition reply_items :: "AppDhcpService \<Rightarrow> DhcpMessageTypes \<Rightarrow> option_item list" where
  "reply_items s type = Opt eDHCPMESSAGETYPE [code_of type] #
     (if type = eTYPE_NAK then replicate 12 Pad
      else [Opt eIPADDRESSLEASETIME (address_octets 3600), Opt eSUBNETMASK (address_octets (subNetworkMask s))]) @
     [Opt eSERVERIDENTIFIER (address_octets (hostIpAddress s)), Opt eROUTER (address_octets (hostIpAddress s))]"

lemma zeros: "replicate 6 (0 :: u8) = [0, 0, 0, 0, 0, 0]" "replicate 12 Pad = [Pad, Pad, Pad, Pad, Pad, Pad, Pad, Pad, Pad, Pad, Pad, Pad]"
  by (simp_all add: numeral_eq_Suc)

lemma option_bytes_items: "option_bytes (setReplyOptions s type zero_option) = MAGIC_COOKIE @ enc (reply_items s type) @ [eEND]"
  by (simp add: option_bytes_def setReplyOptions_def zero_option_def reply_items_def Let_def MAGIC_COOKIE_def zeros)

lemma reply_items_ok: "list_all ok_item (reply_items s type)" "length (enc (reply_items s type)) = 27"
  by (simp_all add: reply_items_def zeros)

lemma type_of_code [simp]: "type_of (code_of type) = Some type"
  by (cases type) (simp_all add: type_of_def)

definition options_of :: "memory \<Rightarrow> memory" where
  "options_of u = (\<lambda>i. u (240 + i))"

lemma reply_options:
  fixes s :: AppDhcpService and type :: DhcpMessageTypes
  assumes "length bs = 236"
  defines "u \<equiv> options_of (mem_of (bs @ option_bytes (setReplyOptions s type zero_option)))"
  shows "getMessageType u 28 = Some type" and "address_option eSERVERIDENTIFIER dflt u 28 = hostIpAddress s"
proof -
  have "bytes_at u 0 27 = enc (reply_items s type)"
    unfolding u_def options_of_def bytes_at_offset
    using assms(1) reply_items_ok(2) [of s type] by (subst bytes_at_mem_of) (simp_all add: option_bytes_items MAGIC_COOKIE_def)
  moreover have "u 27 = eEND"
    using assms(1) reply_items_ok(2) [of s type] by (simp add: u_def options_of_def mem_of_def option_bytes_items MAGIC_COOKIE_def nth_append)
  ultimately have f: "case option_value c (reply_items s type) of
      None \<Rightarrow> findOption c u 28 = None
    | Some v \<Rightarrow> \<exists>p. findOption c u 28 = Some (p, length v) \<and> bytes_at u p (length v) = v" for c
    using find_from_encoded [of u 0 "reply_items s type" 28 c] reply_items_ok [of s type] find_from.simps [of c u 28 27]
    by (auto simp: findOption_def split: option.splits)
  show "getMessageType u 28 = Some type"
    using f [of eDHCPMESSAGETYPE] by (auto simp: reply_items_def getMessageType_def bytes_at_Cons)
  show "address_option eSERVERIDENTIFIER dflt u 28 = hostIpAddress s"
    using f [of eSERVERIDENTIFIER] by (auto simp: reply_items_def address_option_def zeros split: if_splits)
qed

lemma reply_message:
  fixes s :: AppDhcpService and type :: DhcpMessageTypes
  assumes m: "sized_message m"
  defines "bs \<equiv> message_bytes m @ option_bytes (setReplyOptions s type zero_option)"
  obtains f where "length f = 2" and "snd (sendReply bs type g c y fl) = message_bytes (m\<lparr>m_flags := f\<rparr>) @ option_bytes (setReplyOptions s type zero_option)"
proof (cases "g = 0")
  case True
  have "m\<lparr>m_flags := m_flags m\<rparr> = m" by simp
  then show thesis using that [of "m_flags m"] m True by (simp add: sendReply_def sized_message_def bs_def)
next
  case False
  then show thesis
    using that [of "(m_flags m)[0 := bs ! 10 OR BROADCAST_FLAG]"] m length_message_bytes [OF m] message_flags_update [OF m]
    by (simp add: sendReply_def sized_message_def bs_def list_update_append)
qed

text \<open>A message the server sends, as its receiver reads it.\<close>

definition says :: "u8 list \<Rightarrow> DhcpMessageTypes \<Rightarrow> AppDhcpService \<Rightarrow> DhcpMessage_t \<Rightarrow> bool" where
  "says bs type s m \<longleftrightarrow> length bs = 268 \<and> bytes_at (mem_of bs) 236 4 = MAGIC_COOKIE \<and>
     getMessageType (options_of (mem_of bs)) 28 = Some type \<and>
     address_option eSERVERIDENTIFIER 0 (options_of (mem_of bs)) 28 = hostIpAddress s \<and>
     (\<exists>f. message_at (mem_of bs) = m\<lparr>m_flags := f\<rparr>)"

lemma reply_says:
  assumes "sized_message m"
  shows "says (snd (sendReply (message_bytes m @ option_bytes (setReplyOptions s type zero_option)) type g c y fl)) type s m"
proof -
  obtain f where f: "length f = 2" "snd (sendReply (message_bytes m @ option_bytes (setReplyOptions s type zero_option)) type g c y fl) =
      message_bytes (m\<lparr>m_flags := f\<rparr>) @ option_bytes (setReplyOptions s type zero_option)" (is "?bs = _")
    using reply_message [OF assms] by metis
  have m: "sized_message (m\<lparr>m_flags := f\<rparr>)" using assms f(1) by (simp add: sized_message_def)
  have l: "length (option_bytes (setReplyOptions s type zero_option)) = 32"
    using reply_items_ok(2) [of s type] by (simp add: option_bytes_items MAGIC_COOKIE_def)
  have "bytes_at (mem_of ?bs) 236 4 = MAGIC_COOKIE"
    unfolding f(2) using length_message_bytes [OF m] l by (subst bytes_at_mem_of) (simp_all add: option_bytes_items MAGIC_COOKIE_def)
  then show ?thesis
    using reply_options [OF length_message_bytes [OF m], where s = s and type = type] message_roundtrip [OF m] length_message_bytes [OF m] l
    unfolding says_def f(2) by auto
qed

lemma sized_header: "sized_message (reply_header s (message_at u))" if "length (hostName s) \<le> 63"
  using that by (simp add: sized_message_def reply_header_def zero_message_def message_at_def Let_def)

section \<open>The one lease\<close>

text \<open>The table holds at most one client, at the least address of the range.\<close>

definition one_lease :: "AppDhcpService \<Rightarrow> bool" where
  "one_lease s \<longleftrightarrow> length (hostName s) \<le> 63 \<and> maximumIpAddress s \<noteq> - 1 \<and>
     (addressInfos s = [] \<or>
      (\<exists>i. addressInfos s = [i] \<and> ipAddress i = minimumIpAddress s \<and> hardwareAddressSize i \<le> 16 \<and> length (hardwareAddress i) = 16))"

definition lessee :: "AppDhcpService \<Rightarrow> u8 list option" where
  "lessee s = (case addressInfos s of [] \<Rightarrow> None | i # _ \<Rightarrow> Some (take (hardwareAddressSize i) (hardwareAddress i)))"

definition lookup :: "u8 list \<Rightarrow> AppDhcpService \<Rightarrow> bool \<times> u32" where
  "lookup client s = (case findIndex (CheckHardwareAddress client) (addressInfos s) of
     Some i \<Rightarrow> (True, ipAddress (addressInfos s ! i)) | None \<Rightarrow> (False, ADDRESS_BROADCAST))"

definition new_info :: "u32 \<Rightarrow> u8 list \<Rightarrow> DhcpAddress_t" where
  "new_info a client = \<lparr>ipAddress = a, hardwareAddress = client @ drop (length client) (replicate 16 0), hardwareAddressSize = length client\<rparr>"

lemma lookup_one:
  assumes "one_lease s"
  shows "lookup client s = (if client \<noteq> [] \<and> lessee s = Some client then (True, minimumIpAddress s) else (False, ADDRESS_BROADCAST))"
proof (cases "addressInfos s")
  case (Cons i is')
  then have i: "addressInfos s = [i]" "ipAddress i = minimumIpAddress s" "hardwareAddressSize i \<le> 16" "length (hardwareAddress i) = 16"
    using assms by (auto simp: one_lease_def)
  have "CheckHardwareAddress client i \<longleftrightarrow> client \<noteq> [] \<and> take (hardwareAddressSize i) (hardwareAddress i) = client"
    using i(3,4) by (auto simp: CheckHardwareAddress_def)
  then show ?thesis using i by (simp add: lookup_def lessee_def)
qed (simp add: lookup_def lessee_def)

lemma discover_cases:
  assumes one: "one_lease s" and l: "lookup client s = (seen, a)"
  shows "handleDiscoverMessage seen a client reply s =
    (if seen then Inr (s\<lparr>lastOfferIpAddress := minimumIpAddress s\<rparr>, reply\<lparr>yiaddr := address_octets (minimumIpAddress s)\<rparr>, True)
     else if addressInfos s = [] then
       (if length client > 16 then Inl Overflows
        else Inr (s\<lparr>lastOfferIpAddress := minimumIpAddress s, addressInfos := [new_info (minimumIpAddress s) client]\<rparr>,
          reply\<lparr>yiaddr := address_octets (minimumIpAddress s)\<rparr>, True))
     else if minimumIpAddress s = maximumIpAddress s then Inr (s\<lparr>lastOfferIpAddress := maximumIpAddress s\<rparr>, reply, False)
     else Inl Hangs)"
proof (cases seen)
  case True
  then have a: "a = minimumIpAddress s" "lessee s = Some client" using l lookup_one [OF one, of client] by (auto split: if_splits)
  then have "length client \<le> 16" using one by (auto simp: lessee_def one_lease_def)
  then show ?thesis using True a by (simp add: handleDiscoverMessage_def Let_def offer_loop_valid)
next
  case False
  have m: "maximumIpAddress (s\<lparr>lastOfferIpAddress := maximumIpAddress s\<rparr>) \<noteq> - 1" using one by (simp add: one_lease_def)
  note new = offer_new [OF m]
  show ?thesis
  proof (cases "addressInfos s = []")
    case True
    then show ?thesis using False new by (simp add: handleDiscoverMessage_def Let_def storeInfo_def new_info_def)
  next
    case False
    then obtain i where "addressInfos s = [i]" "ipAddress i = minimumIpAddress s" using one by (auto simp: one_lease_def)
    then show ?thesis using \<open>\<not> seen\<close> new by (simp add: handleDiscoverMessage_def Let_def CheckIpAddress_def)
  qed
qed

text \<open>The requests the server looks at, and the client a message comes from.\<close>

definition heeded :: "memory \<Rightarrow> nat \<Rightarrow> AppDhcpService \<Rightarrow> DhcpMessageTypes \<Rightarrow> bool" where
  "heeded u n s type \<longleftrightarrow> 240 \<le> n \<and> op_code (message_at u) = 1 \<and> bytes_at u 236 4 = MAGIC_COOKIE \<and>
     getMessageType (options_of u) (n - 240) = Some type \<and>
     \<not> strncmp_eq (host_name_of (options_of u) (n - 240)) (hostName s) (length (hostName s))"

definition client_of :: "memory \<Rightarrow> nat \<Rightarrow> u8 list" where
  "client_of u n = client_address_of (options_of u) (n - 240) (message_at u)"

definition reply_to :: "memory \<Rightarrow> AppDhcpService \<Rightarrow> DhcpMessage_t \<Rightarrow> DhcpMessageTypes \<Rightarrow> u32 \<times> u8 list" where
  "reply_to u s reply type = sendReply (message_bytes reply @ option_bytes (setReplyOptions s type zero_option)) type
     (address_of (giaddr (message_at u))) (address_of (ciaddr (message_at u))) (address_of (yiaddr (message_at u))) (m_flags (message_at u))"

lemma process_ignored: "\<nexists>type. heeded u n s type \<Longrightarrow> processRequest u n s = Inr (s, None)"
  by (auto simp: processRequest_def heeded_def options_of_def Let_def split: option.split)

lemma process_heeded:
  assumes "heeded u n s type"
  shows "processRequest u n s =
    (let (seen, a) = lookup (client_of u n) s; reply = reply_header s (message_at u) in
     if type = eTYPE_DISCOVER then
       (case handleDiscoverMessage seen a (client_of u n) reply s of
          Inl e \<Rightarrow> Inl e
        | Inr (s, reply, True) \<Rightarrow> Inr (s, Some (reply_to u s reply eTYPE_OFFER))
        | Inr (s, reply, False) \<Rightarrow> Inr (s, None))
     else if type = eTYPE_REQUEST then
       (let (reply, reply_type) = handleRequestMessage (address_of (ciaddr (message_at u)))
            (address_option eREQUESTEDIPADDRESS ADDRESS_BROADCAST (options_of u) (n - 240))
            (findOption eSERVERIDENTIFIER (options_of u) (n - 240) \<noteq> None)
            (address_option eSERVERIDENTIFIER 0 (options_of u) (n - 240)) seen a reply s
        in Inr (s, Some (reply_to u s reply reply_type)))
     else Inr (s, None))"
  using assms
  by (cases "findIndex (CheckHardwareAddress (client_of u n)) (addressInfos s)")
    (simp_all add: processRequest_def heeded_def lookup_def client_of_def reply_to_def options_of_def Let_def split_beta
      split: sum.split bool.split)

definition same_service :: "AppDhcpService \<Rightarrow> AppDhcpService \<Rightarrow> bool" where
  "same_service s' s \<longleftrightarrow> hostIpAddress s' = hostIpAddress s \<and> hostName s' = hostName s \<and> minimumIpAddress s' = minimumIpAddress s \<and>
     maximumIpAddress s' = maximumIpAddress s \<and> subNetworkMask s' = subNetworkMask s"

text \<open>What a reply may be: an offer or an acknowledgement of the one address to the client that has it, or a refusal.\<close>

definition fair_reply :: "AppDhcpService \<Rightarrow> memory \<Rightarrow> nat \<Rightarrow> (u32 \<times> u8 list) option \<Rightarrow> bool" where
  "fair_reply s u n r \<longleftrightarrow> (case r of None \<Rightarrow> True
     | Some (peer, bs) \<Rightarrow> \<exists>type m. says bs type s m \<and> type \<in> {eTYPE_OFFER, eTYPE_ACK, eTYPE_NAK} \<and> op_code m = 2 \<and>
         xid m = xid (message_at u) \<and> chaddr m = chaddr (message_at u) \<and>
         (type \<noteq> eTYPE_NAK \<longrightarrow> yiaddr m = address_octets (minimumIpAddress s) \<and> lessee s = Some (client_of u n)))"

lemma reply_to_says:
  "sized_message m \<Longrightarrow> says (snd (reply_to u s m type)) type s m"
  by (simp add: reply_to_def reply_says)

lemma reply_header_fields [simp]:
  "op_code (reply_header s q) = 2" "xid (reply_header s q) = xid q" "chaddr (reply_header s q) = chaddr q"
  by (simp_all add: reply_header_def zero_message_def)

lemma sized_updates:
  "sized_message m \<Longrightarrow> sized_message (m\<lparr>yiaddr := address_octets a\<rparr>)"
  "sized_message m \<Longrightarrow> sized_message (m\<lparr>ciaddr := address_octets a, yiaddr := address_octets b\<rparr>)"
  by (simp_all add: sized_message_def)

lemma fair_replyI:
  assumes "sized_message m" and "type \<in> {eTYPE_OFFER, eTYPE_ACK, eTYPE_NAK}" and "op_code m = 2" "xid m = xid (message_at u)"
    "chaddr m = chaddr (message_at u)"
    and "type \<noteq> eTYPE_NAK \<Longrightarrow> yiaddr m = address_octets (minimumIpAddress s) \<and> lessee s = Some (client_of u n)"
    and "hostIpAddress s' = hostIpAddress s" "subNetworkMask s' = subNetworkMask s"
  shows "fair_reply s u n (Some (reply_to u s' m type))"
proof -
  obtain peer bs where r: "reply_to u s' m type = (peer, bs)" by fastforce
  have "says bs type s' m" using reply_to_says [OF assms(1), of u s' type] r by simp
  then have "says bs type s m" using assms(7) by (simp add: says_def)
  then show ?thesis using assms(2-6) r by (auto simp: fair_reply_def)
qed

lemma request_reply:
  assumes "handleRequestMessage c r f sv seen a m s = (m', type)" and "sized_message m"
  shows "sized_message m' \<and> type \<in> {eTYPE_ACK, eTYPE_NAK} \<and> op_code m' = op_code m \<and> xid m' = xid m \<and> chaddr m' = chaddr m \<and>
    (type \<noteq> eTYPE_NAK \<longrightarrow> seen \<and> yiaddr m' = address_octets a)"
  using assms sized_updates(2) [OF assms(2)]
  by (auto simp: handleRequestMessage_def Let_def split: if_splits)

lemma one_lease_last: "one_lease (s\<lparr>lastOfferIpAddress := x\<rparr>) = one_lease s" "lessee (s\<lparr>lastOfferIpAddress := x\<rparr>) = lessee s"
  by (simp_all add: one_lease_def lessee_def)

lemma process_step:
  assumes one: "one_lease s" and p: "processRequest u n s = Inr (s', r)"
  shows "one_lease s' \<and> same_service s' s \<and> (addressInfos s \<noteq> [] \<longrightarrow> addressInfos s' = addressInfos s) \<and> fair_reply s' u n r"
proof (cases "\<exists>type. heeded u n s type")
  case False
  then show ?thesis using p process_ignored [of u n s] one by (auto simp: same_service_def fair_reply_def)
next
  case True
  then obtain type where h: "heeded u n s type" by blast
  obtain seen a where l: "lookup (client_of u n) s = (seen, a)" by fastforce
  note lo = lookup_one [OF one, of "client_of u n", unfolded l]
  have nm: "length (hostName s) \<le> 63" using one by (simp add: one_lease_def)
  note sized = sized_header [OF nm, of u]
  note q = process_heeded [OF h, unfolded l]
  show ?thesis
  proof (cases "type = eTYPE_DISCOVER")
    case True
    note d = discover_cases [OF one l, of "reply_header s (message_at u)"]
    show ?thesis using p q True d lo one nm sized sized_updates(1) [OF sized]
      by (auto simp: same_service_def one_lease_last fair_reply_def [of _ _ _ None] one_lease_def new_info_def lessee_def
        intro!: fair_replyI split: if_splits)
  next
    case nd: False
    show ?thesis
    proof (cases "type = eTYPE_REQUEST")
      case True
      obtain m' type' where m': "handleRequestMessage (address_of (ciaddr (message_at u)))
            (address_option eREQUESTEDIPADDRESS ADDRESS_BROADCAST (options_of u) (n - 240))
            (findOption eSERVERIDENTIFIER (options_of u) (n - 240) \<noteq> None)
            (address_option eSERVERIDENTIFIER 0 (options_of u) (n - 240)) seen a (reply_header s (message_at u)) s = (m', type')" by fastforce
      note rr = request_reply [OF m' sized]
      show ?thesis using p q True nd m' rr lo one
        by (auto simp: same_service_def intro!: fair_replyI split: if_splits)
    next
      case False
      then show ?thesis using p q nd one by (auto simp: same_service_def fair_reply_def)
    qed
  qed
qed

text \<open>A run of the service over the messages it receives.\<close>

fun serve_all :: "(memory \<times> nat) list \<Rightarrow> AppDhcpService \<Rightarrow> fault + (AppDhcpService \<times> (u32 \<times> u8 list) option list)" where
  "serve_all [] s = Inr (s, [])"
| "serve_all ((u, n) # qs) s =
     (case processRequest u n s of
        Inl e \<Rightarrow> Inl e
      | Inr (s, r) \<Rightarrow> (case serve_all qs s of Inl e \<Rightarrow> Inl e | Inr (s, rs) \<Rightarrow> Inr (s, r # rs)))"

lemma serve_all_fair:
  assumes "one_lease s" and "serve_all qs s = Inr (s', rs)"
  shows "one_lease s' \<and> same_service s' s \<and> length rs = length qs \<and> (addressInfos s \<noteq> [] \<longrightarrow> addressInfos s' = addressInfos s) \<and>
    (\<forall>((u, n), r) \<in> set (zip qs rs). fair_reply s' u n r)"
  using assms
proof (induction qs arbitrary: s s' rs)
  case Nil
  then show ?case by (auto simp: same_service_def)
next
  case (Cons q qs)
  obtain u n where q: "q = (u, n)" by fastforce
  obtain s1 r where p: "processRequest u n s = Inr (s1, r)" using Cons.prems(2) q by (auto split: sum.splits)
  then obtain rs1 where rs: "serve_all qs s1 = Inr (s', rs1)" "rs = r # rs1" using Cons.prems(2) q by (auto split: sum.splits)
  note st = process_step [OF Cons.prems(1) p]
  note IH = Cons.IH [OF _ rs(1)]
  have "fair_reply s' u n r"
  proof -
    have k: "lessee s1 \<noteq> None \<longrightarrow> lessee s' = lessee s1" "minimumIpAddress s' = minimumIpAddress s1" "hostIpAddress s' = hostIpAddress s1"
      using st IH by (auto simp: same_service_def lessee_def)
    show ?thesis using st k by (fastforce simp: fair_reply_def says_def split: option.splits)
  qed
  then show ?case using st IH rs(2) q by (auto simp: same_service_def)
qed

lemma init_one_lease: "host OR MAX_IP \<noteq> - 1 \<Longrightarrow> one_lease (AppDhcpService_init host netmask)"
  by (simp add: one_lease_def AppDhcpService_init_def EMW_HotSpot_def)

text \<open>An identifier that is longer than the array for hardware addresses is copied into it all the same.\<close>

lemma long_identifier_overflows:
  assumes "one_lease s" and "addressInfos s = []" and "heeded u n s eTYPE_DISCOVER" and "16 < length (client_of u n)"
  shows "processRequest u n s = Inl Overflows"
proof -
  have l: "lookup (client_of u n) s = (False, ADDRESS_BROADCAST)" using lookup_one [OF assms(1)] assms(2) by (simp add: lessee_def)
  show ?thesis using process_heeded [OF assms(3)] l discover_cases [OF assms(1) l] assms(2,4) by simp
qed

text \<open>A message as a client writes it.\<close>

definition client_message :: "DhcpMessage_t \<Rightarrow> option_item list \<Rightarrow> u8 list" where
  "client_message m is' = message_bytes m @ MAGIC_COOKIE @ enc is' @ [eEND]"

lemma client_message_options:
  assumes m: "sized_message m" and ok: "list_all ok_item is'"
  defines "u \<equiv> mem_of (client_message m is')"
  shows "length (client_message m is') = 241 + length (enc is')" and "message_at u = m" and "bytes_at u 236 4 = MAGIC_COOKIE"
    and "case option_value c is' of
        None \<Rightarrow> findOption c (options_of u) (length (enc is') + 1) = None
      | Some v \<Rightarrow> \<exists>p. findOption c (options_of u) (length (enc is') + 1) = Some (p, length v) \<and> bytes_at (options_of u) p (length v) = v"
proof -
  note l = length_message_bytes [OF m]
  show len: "length (client_message m is') = 241 + length (enc is')" using l by (simp add: client_message_def MAGIC_COOKIE_def)
  show "message_at u = m" unfolding u_def client_message_def by (rule message_roundtrip [OF m])
  show "bytes_at u 236 4 = MAGIC_COOKIE"
    unfolding u_def using l len by (subst bytes_at_mem_of) (simp_all add: client_message_def MAGIC_COOKIE_def)
  have "bytes_at (options_of u) 0 (length (enc is')) = enc is'"
    unfolding u_def options_of_def bytes_at_offset using l len
    by (subst bytes_at_mem_of) (simp_all add: client_message_def MAGIC_COOKIE_def)
  moreover have "options_of u (length (enc is')) = eEND"
    using l len by (simp add: u_def options_of_def mem_of_def client_message_def MAGIC_COOKIE_def nth_append)
  ultimately show "case option_value c is' of
        None \<Rightarrow> findOption c (options_of u) (length (enc is') + 1) = None
      | Some v \<Rightarrow> \<exists>p. findOption c (options_of u) (length (enc is') + 1) = Some (p, length v) \<and> bytes_at (options_of u) p (length v) = v"
    using find_from_encoded [of "options_of u" 0 is' "length (enc is') + 1" c] ok
      find_from.simps [of c "options_of u" "length (enc is') + 1" "length (enc is')"]
    by (auto simp: findOption_def split: option.splits)
qed

text \<open>A client that says what it wants and names neither itself nor its identifier.\<close>

definition plain_client :: "DhcpMessage_t \<Rightarrow> option_item list \<Rightarrow> DhcpMessageTypes \<Rightarrow> bool" where
  "plain_client m is' type \<longleftrightarrow> sized_message m \<and> op_code m = 1 \<and> list_all ok_item is' \<and>
     option_value eDHCPMESSAGETYPE is' = Some [code_of type] \<and> option_value eHOSTNAME is' = None \<and> option_value eCLIENTIDENTIFIER is' = None"

lemma plain_client_heeded:
  assumes pc: "plain_client m is' type" and nm: "hostName s = EMW_HotSpot"
  defines "bs \<equiv> client_message m is'"
  shows "heeded (mem_of bs) (length bs) s type" and "client_of (mem_of bs) (length bs) = chaddr m" and "message_at (mem_of bs) = m"
    and "\<And>v c. option_value c is' = Some v \<Longrightarrow> length v = 4 \<Longrightarrow>
      address_option c d (options_of (mem_of bs)) (length bs - 240) = address_of v \<and>
      findOption c (options_of (mem_of bs)) (length bs - 240) \<noteq> None"
proof -
  have m: "sized_message m" and ok: "list_all ok_item is'" using pc by (simp_all add: plain_client_def)
  note f = client_message_options [OF m ok, folded bs_def]
  have n: "length bs - 240 = length (enc is') + 1" using f(1) by simp
  show "message_at (mem_of bs) = m" by (rule f(2))
  have h: "host_name_of (options_of (mem_of bs)) (length bs - 240) = replicate 64 0"
    using f(4) [of eHOSTNAME] pc by (simp add: n host_name_of_def plain_client_def)
  have t: "getMessageType (options_of (mem_of bs)) (length bs - 240) = Some type"
    using f(4) [of eDHCPMESSAGETYPE] pc by (auto simp: n getMessageType_def plain_client_def bytes_at_Cons)
  have "replicate 64 0 = (0 :: u8) # replicate 63 0" by (simp add: numeral_eq_Suc)
  then have "\<not> strncmp_eq (replicate 64 0) EMW_HotSpot (length EMW_HotSpot)" by (simp add: EMW_HotSpot_def)
  then show "heeded (mem_of bs) (length bs) s type"
    using f(1-3) t h pc nm by (simp add: heeded_def plain_client_def)
  show "client_of (mem_of bs) (length bs) = chaddr m"
    using f(2) f(4) [of eCLIENTIDENTIFIER] pc by (simp add: n client_of_def client_address_of_def plain_client_def)
  show "address_option c d (options_of (mem_of bs)) (length bs - 240) = address_of v \<and>
      findOption c (options_of (mem_of bs)) (length bs - 240) \<noteq> None"
    if "option_value c is' = Some v" "length v = 4" for v c
    using f(4) [of c] that by (auto simp: n address_option_def)
qed

lemma handshake:
  assumes one: "host OR MAX_IP \<noteq> - 1"
    and d: "plain_client m is' eTYPE_DISCOVER" and r: "plain_client m' is'' eTYPE_REQUEST" and same: "chaddr m' = chaddr m"
    and sv: "option_value eSERVERIDENTIFIER is'' = Some (address_octets host)"
  shows "\<exists>s p1 bs1 m1 p2 bs2 m2.
    serve_all [(mem_of (client_message m is'), length (client_message m is')),
               (mem_of (client_message m' is''), length (client_message m' is''))] (AppDhcpService_init host netmask) =
      Inr (s, [Some (p1, bs1), Some (p2, bs2)]) \<and> lessee s = Some (chaddr m) \<and> hostName s = EMW_HotSpot \<and>
    says bs1 eTYPE_OFFER s m1 \<and> xid m1 = xid m \<and> yiaddr m1 = address_octets (host OR MIN_IP) \<and>
    says bs2 eTYPE_ACK s m2 \<and> xid m2 = xid m' \<and> yiaddr m2 = address_octets (host OR MIN_IP)"
proof -
  let ?s = "AppDhcpService_init host netmask"
  let ?u = "mem_of (client_message m is')" and ?n = "length (client_message m is')"
  let ?v = "mem_of (client_message m' is'')" and ?k = "length (client_message m' is'')"
  let ?a = "host OR MIN_IP" and ?hw = "chaddr m"
  define s1 where "s1 = ?s\<lparr>lastOfferIpAddress := ?a, addressInfos := [new_info ?a ?hw]\<rparr>"
  define m1 where "m1 = reply_header ?s m\<lparr>yiaddr := address_octets ?a\<rparr>"
  define m2 where "m2 = reply_header s1 m'\<lparr>ciaddr := address_octets ?a, yiaddr := address_octets ?a\<rparr>"
  have ini: "addressInfos ?s = []" "minimumIpAddress ?s = ?a" "hostName ?s = EMW_HotSpot" "hostIpAddress ?s = host"
    by (simp_all add: AppDhcpService_init_def)
  have hw: "length ?hw = 16" "?hw \<noteq> []" using d by (auto simp: plain_client_def sized_message_def)
  have o0: "one_lease ?s" by (rule init_one_lease [OF one])
  note c1 = plain_client_heeded [OF d ini(3)]
  have s1: "hostName s1 = EMW_HotSpot" "hostIpAddress s1 = host" "minimumIpAddress s1 = ?a" "lessee s1 = Some ?hw" "one_lease s1"
    using o0 hw ini by (simp_all add: s1_def lessee_def new_info_def one_lease_def)
  note c2 = plain_client_heeded [OF r s1(1)]
  have l0: "lookup ?hw ?s = (False, ADDRESS_BROADCAST)" using lookup_one [OF o0] ini(1) by (simp add: lessee_def)
  have "handleDiscoverMessage False ADDRESS_BROADCAST ?hw (reply_header ?s m) ?s = Inr (s1, m1, True)"
    using discover_cases [OF o0 l0, of "reply_header ?s m"] ini hw by (simp add: s1_def m1_def)
  then have p1: "processRequest ?u ?n ?s = Inr (s1, Some (reply_to ?u s1 m1 eTYPE_OFFER))"
    using process_heeded [OF c1(1)] c1(2,3) l0 by simp
  have l1: "lookup ?hw s1 = (True, ?a)" using lookup_one [OF s1(5)] s1(3,4) hw(2) by simp
  have sid: "address_option eSERVERIDENTIFIER 0 (options_of ?v) (?k - 240) = host" "findOption eSERVERIDENTIFIER (options_of ?v) (?k - 240) \<noteq> None"
    using c2(4) [OF sv, of 0] by simp_all
  have p2: "processRequest ?v ?k s1 = Inr (s1, Some (reply_to ?v s1 m2 eTYPE_ACK))"
    using process_heeded [OF c2(1)] c2(2,3) l1 sid s1(2) same by (simp add: handleRequestMessage_def m2_def)
  have sz: "sized_message m1" "sized_message m2"
    using sized_header [of ?s ?u] sized_header [of s1 ?v] c1(3) c2(3) ini(3) s1(1) sized_updates
    by (simp_all add: m1_def m2_def EMW_HotSpot_def)
  obtain p1 bs1 p2 bs2 where rs: "reply_to ?u s1 m1 eTYPE_OFFER = (p1, bs1)" "reply_to ?v s1 m2 eTYPE_ACK = (p2, bs2)" by fastforce
  have sv: "serve_all [(?u, ?n), (?v, ?k)] ?s = Inr (s1, [Some (p1, bs1), Some (p2, bs2)])"
    using p1 p2 rs by simp
  have "says bs1 eTYPE_OFFER s1 m1" "says bs2 eTYPE_ACK s1 m2"
    using reply_to_says [OF sz(1), of ?u s1 eTYPE_OFFER] reply_to_says [OF sz(2), of ?v s1 eTYPE_ACK] rs by simp_all
  moreover have "xid m1 = xid m" "yiaddr m1 = address_octets ?a" "xid m2 = xid m'" "yiaddr m2 = address_octets ?a"
    by (simp_all add: m1_def m2_def)
  ultimately show ?thesis using sv s1(1,4) by blast
qed

text \<open>
  C25: The first client is served. To its discovery the server answers with an offer of the least address of the
  range, and to its request with this server's identifier with an acknowledgement of that address; both replies carry the transaction of the message they answer,
  and from then on the address is the client's.
\<close>
theorem dhcp_first_client_served:
  assumes one: "host OR MAX_IP \<noteq> - 1"
    and d: "plain_client m is' eTYPE_DISCOVER" and r: "plain_client m' is'' eTYPE_REQUEST" and same: "chaddr m' = chaddr m"
    and sv: "option_value eSERVERIDENTIFIER is'' = Some (address_octets host)"
  shows "\<exists>s p1 bs1 m1 p2 bs2 m2.
    serve_all [(mem_of (client_message m is'), length (client_message m is')),
               (mem_of (client_message m' is''), length (client_message m' is''))] (AppDhcpService_init host netmask) =
      Inr (s, [Some (p1, bs1), Some (p2, bs2)]) \<and> lessee s = Some (chaddr m) \<and>
    says bs1 eTYPE_OFFER s m1 \<and> xid m1 = xid m \<and> yiaddr m1 = address_octets (host OR MIN_IP) \<and>
    says bs2 eTYPE_ACK s m2 \<and> xid m2 = xid m' \<and> yiaddr m2 = address_octets (host OR MIN_IP)"
  using handshake [OF one d r same sv, of netmask] by blast

text \<open>A client with the hardware address \<open>hw\<close>.\<close>

definition client_header :: "u8 list \<Rightarrow> u8 list \<Rightarrow> DhcpMessage_t" where
  "client_header x hw = zero_message\<lparr>op_code := 1, htype := 1, hlen := 6, xid := x, chaddr := hw @ replicate 10 0\<rparr>"

definition discover_items :: "option_item list" where
  "discover_items = [Opt eDHCPMESSAGETYPE [1]]"

definition request_items :: "option_item list" where
  "request_items = [Opt eDHCPMESSAGETYPE [3], Opt eSERVERIDENTIFIER [192, 168, 8, 1]]"

lemma plain_samples:
  assumes "length x = 4" and "length hw = 6"
  shows "plain_client (client_header x hw) discover_items eTYPE_DISCOVER" "plain_client (client_header x hw) request_items eTYPE_REQUEST"
  using assms by (simp_all add: plain_client_def client_header_def zero_message_def sized_message_def discover_items_def request_items_def)

lemma host_8_1: "address_octets 0xC0A80801 = [192, 168, 8, 1]"
  by (simp add: address_octets_def)

lemma range_8_1: "0xC0A80801 OR MAX_IP \<noteq> (- 1 :: u32)" "0xC0A80801 OR MIN_IP \<noteq> (0xC0A80801 OR MAX_IP :: u32)" "0xC0A80801 OR MIN_IP = (0xC0A8080F :: u32)"
  by simp_all

definition discover_from :: "u8 \<Rightarrow> memory \<times> nat" where
  "discover_from c = (let bs = client_message (client_header [1, 2, 3, c] [2, 0, 0, 0, 0, c]) discover_items in (mem_of bs, length bs))"

definition request_from :: "u8 \<Rightarrow> memory \<times> nat" where
  "request_from c = (let bs = client_message (client_header [1, 2, 4, c] [2, 0, 0, 0, 0, c]) request_items in (mem_of bs, length bs))"

theorem dhcp_first_client_served_witness:
  "\<exists>s p1 bs1 m1 r2. serve_all [discover_from 1, request_from 1] (AppDhcpService_init 0xC0A80801 0xFFFFFF00) =
     Inr (s, [Some (p1, bs1), r2]) \<and> says bs1 eTYPE_OFFER s m1 \<and> yiaddr m1 = [192, 168, 8, 15] \<and>
     lessee s = Some ([2, 0, 0, 0, 0, 1] @ replicate 10 0)"
proof -
  let ?m = "client_header [1, 2, 3, 1] [2, 0, 0, 0, 0, 1]" and ?m' = "client_header [1, 2, 4, 1] [2, 0, 0, 0, 0, 1]"
  have d: "plain_client ?m discover_items eTYPE_DISCOVER" and r: "plain_client ?m' request_items eTYPE_REQUEST"
    by (rule plain_samples; simp)+
  have h: "chaddr ?m = [2, 0, 0, 0, 0, 1] @ replicate 10 0" "chaddr ?m' = chaddr ?m" by (simp_all add: client_header_def)
  have sv: "option_value eSERVERIDENTIFIER request_items = Some (address_octets 0xC0A80801)" by (simp add: request_items_def host_8_1)
  have a: "address_octets (0xC0A80801 OR MIN_IP) = [192, 168, 8, 15]" by (simp add: address_octets_def)
  show ?thesis
    using dhcp_first_client_served [OF range_8_1(1) d r h(2) sv, of "0xFFFFFF00"]
    unfolding a h(1) discover_from_def request_from_def Let_def by blast
qed

text \<open>
  C6: Over every run of the service from its start, whatever messages come, each reply is a well-formed message with the transaction and
  hardware address of the message it answers and the server's identifier. An offer or an acknowledgement always carries the
  least address of the range, and always goes to one and the same client: no address is ever given to two clients.
\<close>
theorem dhcp_replies_fair:
  assumes "serve_all qs (AppDhcpService_init host netmask) = Inr (s, rs)" and "host OR MAX_IP \<noteq> - 1"
  shows "length rs = length qs \<and> length (addressInfos s) \<le> 1 \<and> (\<forall>((u, n), r) \<in> set (zip qs rs). fair_reply s u n r)"
  using serve_all_fair [OF init_one_lease [OF assms(2)] assms(1)] by (auto simp: one_lease_def)

lemma first_run:
  "\<exists>s rs. serve_all [discover_from 1, request_from 1] (AppDhcpService_init 0xC0A80801 0xFFFFFF00) = Inr (s, rs) \<and>
     lessee s = Some ([2, 0, 0, 0, 0, 1] @ replicate 10 0) \<and> hostName s = EMW_HotSpot"
proof -
  let ?m = "client_header [1, 2, 3, 1] [2, 0, 0, 0, 0, 1]" and ?m' = "client_header [1, 2, 4, 1] [2, 0, 0, 0, 0, 1]"
  have d: "plain_client ?m discover_items eTYPE_DISCOVER" and r: "plain_client ?m' request_items eTYPE_REQUEST"
    by (rule plain_samples; simp)+
  have h: "chaddr ?m = [2, 0, 0, 0, 0, 1] @ replicate 10 0" "chaddr ?m' = chaddr ?m" by (simp_all add: client_header_def)
  have sv: "option_value eSERVERIDENTIFIER request_items = Some (address_octets 0xC0A80801)" by (simp add: request_items_def host_8_1)
  show ?thesis
    using handshake [OF range_8_1(1) d r h(2) sv, of "0xFFFFFF00"] unfolding h(1) discover_from_def request_from_def Let_def by blast
qed

theorem dhcp_replies_fair_witness:
  "\<exists>s rs. serve_all [discover_from 1, request_from 1] (AppDhcpService_init 0xC0A80801 0xFFFFFF00) = Inr (s, rs) \<and>
     length (addressInfos s) \<le> 1 \<and> fair_reply s (fst (discover_from 1)) (snd (discover_from 1)) (hd rs)"
proof -
  obtain s rs where s: "serve_all [discover_from 1, request_from 1] (AppDhcpService_init 0xC0A80801 0xFFFFFF00) = Inr (s, rs)"
    using first_run by blast
  obtain u n where d: "discover_from 1 = (u, n)" by fastforce
  have f: "length rs = 2" "length (addressInfos s) \<le> 1"
    "\<forall>((u, n), r) \<in> set (zip [discover_from 1, request_from 1] rs). fair_reply s u n r"
    using dhcp_replies_fair [OF s range_8_1(1)] by simp_all
  then obtain r r' where "rs = [r, r']" by (auto simp: numeral_eq_Suc length_Suc_conv)
  then show ?thesis using s f d by auto
qed

text \<open>
  C14: The second client stops the service. Once an address has been given out, a discovery from any client that does not
  hold it makes the search for a free address run forever, as long as the range has more than one address:
  the search only ever tries the least address.
\<close>
theorem dhcp_second_client_hangs:
  assumes "serve_all qs (AppDhcpService_init host netmask) = Inr (s, rs)" and "host OR MAX_IP \<noteq> - 1" and "host OR MIN_IP \<noteq> host OR MAX_IP"
    and "addressInfos s \<noteq> []" and "heeded u n s eTYPE_DISCOVER" and "lessee s \<noteq> Some (client_of u n)"
  shows "serve_all (qs @ (u, n) # later) (AppDhcpService_init host netmask) = Inl Hangs"
proof -
  note f = serve_all_fair [OF init_one_lease [OF assms(2)] assms(1)]
  then have one: "one_lease s" and ne: "minimumIpAddress s \<noteq> maximumIpAddress s"
    using assms(3) by (auto simp: same_service_def AppDhcpService_init_def)
  obtain seen a where l: "lookup (client_of u n) s = (seen, a)" by fastforce
  then have "\<not> seen" using lookup_one [OF one, of "client_of u n"] assms(6) by (auto split: if_splits)
  then have h: "processRequest u n s = Inl Hangs"
    using process_heeded [OF assms(5)] l discover_cases [OF one l] ne assms(4) by simp
  have "serve_all (qs @ (u, n) # later) s0 = Inl Hangs" if "serve_all qs s0 = Inr (s, rs)" for s0 rs
    using that h by (induction qs s0 arbitrary: rs rule: serve_all.induct) (auto split: sum.splits)
  then show ?thesis using assms(1) .
qed

theorem dhcp_second_client_hangs_witness:
  "serve_all [discover_from 1, request_from 1, discover_from 2] (AppDhcpService_init 0xC0A80801 0xFFFFFF00) = Inl Hangs"
proof -
  let ?m = "client_header [1, 2, 3, 2] [2, 0, 0, 0, 0, 2]"
  obtain s rs where s: "serve_all [discover_from 1, request_from 1] (AppDhcpService_init 0xC0A80801 0xFFFFFF00) = Inr (s, rs)"
    "lessee s = Some ([2, 0, 0, 0, 0, 1] @ replicate 10 0)" "hostName s = EMW_HotSpot"
    using first_run by blast
  have d: "plain_client ?m discover_items eTYPE_DISCOVER" by (rule plain_samples; simp)
  obtain u n where un: "discover_from 2 = (u, n)" by fastforce
  have h: "heeded u n s eTYPE_DISCOVER" "client_of u n = chaddr ?m"
    using plain_client_heeded(1,2) [OF d s(3)] un by (auto simp: discover_from_def Let_def)
  have ne: "lessee s \<noteq> Some (client_of u n)" using s(2) h(2) by (simp add: client_header_def)
  have "addressInfos s \<noteq> []" using s(2) by (auto simp: lessee_def)
  from dhcp_second_client_hangs [OF s(1) range_8_1(1,2) this h(1) ne, of "[]"] show ?thesis using un by simp
qed

end
