(* ===== verification/Core_Console.thy ===== *)
theory Core_Console
  imports Prelude_Base
begin

text \<open>
  The command console (\<^verbatim>\<open>core/src/Console.cpp\<close>): decoding the keys, editing the line, completing and
  finding commands, splitting the line into arguments, the history. Lines are arrays of 80 bytes with a zero at
  the end of the text, as in the code. Printing is left out; the commands are their names. An entry of the history is the text it points to.
\<close>

section \<open>Strings in arrays\<close>

abbreviation MAX_INPUT_LINE :: nat where "MAX_INPUT_LINE \<equiv> 80"
abbreviation MAX_ARGS :: nat where "MAX_ARGS \<equiv> 10"
abbreviation HISTORY_SIZE :: nat where "HISTORY_SIZE \<equiv> 5"

definition c_str :: "u8 list \<Rightarrow> u8 list" where
  "c_str s = takeWhile (\<lambda>c. c \<noteq> 0) s"

definition str_at :: "u8 list \<Rightarrow> nat \<Rightarrow> u8 list" where
  "str_at s p = c_str (drop p s)"

text \<open>\<^verbatim>\<open>strncpy(s, t, n)\<close> for the text \<open>t\<close>: at most \<open>n\<close> bytes, the rest of them zero.\<close>

definition copy_str :: "u8 list \<Rightarrow> u8 list \<Rightarrow> nat \<Rightarrow> u8 list" where
  "copy_str s t n = take n (t @ replicate n 0) @ drop n s"

section \<open>Keys\<close>

definition KEY_UP :: u8 where "KEY_UP = 128"
definition KEY_DOWN :: u8 where "KEY_DOWN = 129"
definition KEY_LEFT :: u8 where "KEY_LEFT = 130"
definition KEY_RIGHT :: u8 where "KEY_RIGHT = 131"
definition KEY_BACKSPACE :: u8 where "KEY_BACKSPACE = 8"
definition KEY_DELETE_MODE :: u8 where "KEY_DELETE_MODE = 127"
definition KEY_INSERT_MODE :: u8 where "KEY_INSERT_MODE = 126"
definition KEY_ESC :: u8 where "KEY_ESC = 0x1B"
definition TAB :: u8 where "TAB = 9"
definition NL :: u8 where "NL = 10"
definition CR :: u8 where "CR = 13"

lemmas key_defs = KEY_UP_def KEY_DOWN_def KEY_LEFT_def KEY_RIGHT_def KEY_BACKSPACE_def KEY_DELETE_MODE_def KEY_INSERT_MODE_def
  KEY_ESC_def TAB_def NL_def CR_def

text \<open>The bytes of the serial line; zero stands for a read that found none.\<close>

fun getUserInputChar :: "u8 list \<Rightarrow> u8 \<times> u8 list" where
  "getUserInputChar [] = (0, [])"
| "getUserInputChar (c # cs) = (c, cs)"

definition getUserInputCharWithFiltering :: "u8 list \<Rightarrow> u8 \<times> u8 list" where
  "getUserInputCharWithFiltering input =
    (let (one_char, input) = getUserInputChar input in
     if one_char = KEY_ESC then
       (let (c1, input) = getUserInputChar input; (c2, input) = getUserInputChar input in
        if c1 = 91 \<and> c2 = 50 then (let (_, input) = getUserInputChar input in (KEY_INSERT_MODE, input))
        else if c1 = 79 \<and> c2 = 83 then (45, input)
        else if c1 = 79 \<and> c2 = 82 then (42, input)
        else if c1 = 79 \<and> c2 = 81 then (47, input)
        else if c1 = 91 \<and> c2 = 65 then (KEY_UP, input)
        else if c1 = 91 \<and> c2 = 66 then (KEY_DOWN, input)
        else if c1 = 91 \<and> c2 = 67 then (KEY_RIGHT, input)
        else if c1 = 91 \<and> c2 = 68 then (KEY_LEFT, input)
        else (one_char, input))
     else (one_char, input))"

section \<open>The console\<close>

record console =
  cmds :: "u8 list list"
  history :: "u8 list option list"
  historyCount :: nat
  insertMode :: bool
  quitFlag :: bool

definition resetInternals :: "console \<Rightarrow> console" where
  "resetInternals k = k\<lparr>quitFlag := False, insertMode := True, history := replicate HISTORY_SIZE None, historyCount := 0\<rparr>"

text \<open>The matches in their order; \<open>None\<close> when the array of ten is written past its end.\<close>

fun match_loop :: "u8 list \<Rightarrow> u8 list list \<Rightarrow> u8 list list \<Rightarrow> u8 list list option" where
  "match_loop name [] matches = Some matches"
| "match_loop name (c # cs) matches =
     (if take (length name) c = name then
        (if length c = length name then Some [c]
         else if length matches \<ge> 10 then None else match_loop name cs (matches @ [c]))
      else match_loop name cs matches)"

definition listMatchingCommands :: "u8 list \<Rightarrow> console \<Rightarrow> u8 list list option" where
  "listMatchingCommands name k = (if name = [] then Some [] else match_loop name (cmds k) [])"

definition matchCommand :: "u8 list \<Rightarrow> console \<Rightarrow> u8 list option option" where
  "matchCommand name k =
    (case listMatchingCommands name k of None \<Rightarrow> None | Some ms \<Rightarrow> Some (if length ms = 1 then Some (hd ms) else None))"

section \<open>The history\<close>

text \<open>The loop over the entries from \<open>i\<close>: the found or the free entry and those before it are shifted.\<close>

fun history_loop :: "u8 list \<Rightarrow> u8 list option list \<Rightarrow> nat \<Rightarrow> nat \<Rightarrow> (u8 list option list \<times> bool) option" where
  "history_loop cmd h i 0 = None"
| "history_loop cmd h i (Suc fuel) =
     (if h ! i = Some cmd then Some (h ! i # take i h @ drop (i + 1) h, False)
      else if h ! i = None then Some (Some cmd # take i h @ drop (i + 1) h, True)
      else history_loop cmd h (i + 1) fuel)"

definition addInHistory :: "u8 list \<Rightarrow> console \<Rightarrow> console" where
  "addInHistory cmd k =
    (let k = (if historyCount k = 0 then k\<lparr>history := replicate HISTORY_SIZE None\<rparr> else k) in
     (case history_loop cmd (history k) 0 HISTORY_SIZE of
        Some (h, new) \<Rightarrow>
          (let k = k\<lparr>history := h\<rparr> in
           if new \<and> historyCount k < HISTORY_SIZE - 1 then k\<lparr>historyCount := historyCount k + 1\<rparr> else k)
      | None \<Rightarrow> k\<lparr>history := Some cmd # take (HISTORY_SIZE - 1) (history k)\<rparr>))"

definition freeHistory :: "console \<Rightarrow> console" where
  "freeHistory k = k\<lparr>history := replicate HISTORY_SIZE None, historyCount := 0\<rparr>"

section \<open>Editing a line\<close>

record line =
  s_cmd :: "u8 list"
  len :: nat
  cursor_x :: nat
  history_count :: int

definition recall :: "console \<Rightarrow> line \<Rightarrow> line" where
  "recall k l =
    (case history k ! nat (history_count l) of
       None \<Rightarrow> l
     | Some h \<Rightarrow> l\<lparr>s_cmd := (copy_str (s_cmd l) h (MAX_INPUT_LINE - 1))[MAX_INPUT_LINE - 1 := 0], len := length h, cursor_x := length h\<rparr>)"

text \<open>Shifting right from the cursor, the last position first.\<close>

fun shift_right :: "u8 list \<Rightarrow> nat \<Rightarrow> nat \<Rightarrow> u8 list" where
  "shift_right s cursor 0 = s"
| "shift_right s cursor (Suc n) =
     (let j = cursor + n in shift_right (if j + 1 < MAX_INPUT_LINE then s[j + 1 := s ! j] else s) cursor n)"

definition put_char :: "bool \<Rightarrow> u8 \<Rightarrow> line \<Rightarrow> line" where
  "put_char insert_mode ch l =
    (if insert_mode \<and> cursor_x l \<noteq> len l then
       l\<lparr>s_cmd := (shift_right (s_cmd l) (cursor_x l) (len l + 1 - cursor_x l))[cursor_x l := ch], cursor_x := cursor_x l + 1, len := len l + 1\<rparr>
     else
       (let l = l\<lparr>s_cmd := (s_cmd l)[cursor_x l := ch], cursor_x := cursor_x l + 1\<rparr>
        in if cursor_x l > len l then l\<lparr>len := cursor_x l\<rparr> else l))"

definition back_space :: "line \<Rightarrow> line" where
  "back_space l =
    (if 0 < cursor_x l then
       (let moved = take (1 + len l - cursor_x l) (drop (cursor_x l) (s_cmd l));
            s = take (cursor_x l - 1) (s_cmd l) @ moved @ drop (cursor_x l - 1 + length moved) (s_cmd l)
        in l\<lparr>s_cmd := s[len l := 0], cursor_x := cursor_x l - 1, len := len l - 1\<rparr>)
     else l)"

text \<open>\<open>None\<close> as in the matching of commands.\<close>

definition complete :: "console \<Rightarrow> line \<Rightarrow> line option" where
  "complete k l =
    (let l = l\<lparr>s_cmd := (s_cmd l)[len l := 0]\<rparr> in
     (case listMatchingCommands (c_str (s_cmd l)) k of
        None \<Rightarrow> None
      | Some ms \<Rightarrow>
          Some (if length ms = 1 then
             (let s = (copy_str (s_cmd l) (hd ms) (MAX_INPUT_LINE - 1))[MAX_INPUT_LINE - 1 := 0]; n = length (c_str s)
              in l\<lparr>s_cmd := s, len := n, cursor_x := n\<rparr>)
           else if 1 < length ms then l\<lparr>len := length (c_str (s_cmd l)), cursor_x := length (c_str (s_cmd l))\<rparr>
           else l)))"

text \<open>The reaction to one key that is not zero.\<close>

definition edit :: "u8 \<Rightarrow> console \<times> line \<Rightarrow> (console \<times> line) option" where
  "edit ch kl =
    (case kl of (k, l) \<Rightarrow>
     if ch = KEY_INSERT_MODE then Some (k\<lparr>insertMode := \<not> insertMode k\<rparr>, l)
     else if ch = KEY_UP then
       (let l = (if history_count l < int HISTORY_SIZE - 1 then l\<lparr>history_count := history_count l + 1\<rparr> else l) in Some (k, recall k l))
     else if ch = KEY_DOWN then
       (let l = (if history_count l > 0 then l\<lparr>history_count := history_count l - 1\<rparr> else l);
            l = (if history_count l < 0 then l\<lparr>history_count := 0\<rparr> else l) in Some (k, recall k l))
     else if ch = KEY_LEFT then Some (k, if cursor_x l > 0 then l\<lparr>cursor_x := cursor_x l - 1\<rparr> else l)
     else if ch = KEY_RIGHT then Some (k, if cursor_x l < len l then l\<lparr>cursor_x := cursor_x l + 1\<rparr> else l)
     else if ch = KEY_BACKSPACE then Some (k, back_space l)
     else if ch = TAB then map_option (\<lambda>l. (k, l)) (complete k l)
     else if ch \<noteq> NL \<and> ch \<noteq> CR then Some (k, put_char (insertMode k) ch l)
     else Some (k, l))"

text \<open>
  The loop of \<^verbatim>\<open>getUserInputString\<close> over the keys. The result has the rest of the input; \<open>None\<close> when the input ends
  before the line does (the code goes on waiting) or the matching of commands failed.
\<close>

fun edit_loop :: "nat \<Rightarrow> u8 list \<Rightarrow> console \<times> line \<Rightarrow> (console \<times> line \<times> u8 list) option" where
  "edit_loop 0 input kl = None"
| "edit_loop (Suc fuel) input kl =
     (if input = [] then None
      else
        (let (ch, input) = getUserInputCharWithFiltering input in
         if ch = 0 then edit_loop fuel input kl
         else
           (let ch = (if ch = KEY_DELETE_MODE then KEY_BACKSPACE else ch) in
            (case edit ch kl of
               None \<Rightarrow> None
             | Some (k, l) \<Rightarrow>
                 (if len l = MAX_INPUT_LINE then Some (k, l\<lparr>len := MAX_INPUT_LINE - 1\<rparr>, input)
                  else if ch \<noteq> NL \<and> ch \<noteq> CR then edit_loop fuel input (k, l)
                  else Some (k, l, input))))))"

definition getUserInputString :: "u8 list \<Rightarrow> console \<Rightarrow> u8 list \<Rightarrow> (console \<times> u8 list \<times> u8 list) option" where
  "getUserInputString input k s =
    (case edit_loop (length input) input (k, \<lparr>s_cmd = s[0 := 0], len = 0, cursor_x = 0, history_count = - 1\<rparr>) of
       None \<Rightarrow> None
     | Some (k, l, input) \<Rightarrow> Some (k, (s_cmd l)[len l := 0], input))"

section \<open>Running commands\<close>

definition delimiters :: "u8 list" where "delimiters = [32, 10, 9]"

text \<open>A token and the position after it; the byte that ends it becomes zero.\<close>

definition tokenize :: "u8 list \<Rightarrow> nat \<Rightarrow> u8 list \<times> nat option \<times> nat" where
  "tokenize s context =
    (let context = context + length (takeWhile (\<lambda>c. c \<in> set delimiters) (str_at s context)) in
     if s ! context = 0 then (s, None, context)
     else
       (let token_begin = context; context = context + length (takeWhile (\<lambda>c. c \<notin> set delimiters) (str_at s context))
        in if s ! context \<noteq> 0 then (s[context := 0], Some token_begin, context + 1) else (s, Some token_begin, context)))"

text \<open>The loop that collects the arguments: the array so far, the number of arguments.\<close>

fun args_loop :: "nat \<Rightarrow> u8 list \<Rightarrow> nat option list \<Rightarrow> nat \<Rightarrow> nat \<Rightarrow> u8 list \<times> nat option list \<times> nat" where
  "args_loop 0 s args i context = (s, args, i)"
| "args_loop (Suc fuel) s args i context =
     (if args ! i \<noteq> None then
        (let i = i + 1; (s, token, context) = tokenize s context; args = args[i := token]
         in if i = MAX_ARGS - 1 then (s, args, i) else args_loop fuel s args i context)
      else (s, args, i))"

fun is_digit :: "u8 \<Rightarrow> bool" where "is_digit c \<longleftrightarrow> 48 \<le> c \<and> c \<le> 57"

definition atoi :: "u8 list \<Rightarrow> int" where
  "atoi t =
    (let t = dropWhile (\<lambda>c. c \<in> set [32, 9, 10, 11, 12, 13]) t;
         (neg, t) = (case t of c # cs \<Rightarrow> if c = 45 then (True, cs) else if c = 43 then (False, cs) else (False, t) | [] \<Rightarrow> (False, t));
         n = foldl (\<lambda>n c. 10 * n + (int (unat c) - 48)) 0 (takeWhile is_digit t)
     in if neg then - n else n)"

definition quit_text :: "u8 list" where "quit_text = [113, 117, 105, 116]"

definition getCommand :: "u8 list \<Rightarrow> console \<Rightarrow> u8 list \<Rightarrow> (console \<times> u8 list \<times> u8 list) option" where
  "getCommand input k s =
    (case getUserInputString input k s of
       None \<Rightarrow> None
     | Some (k, s, input) \<Rightarrow>
         (if s ! 0 = 33 then
            (let number = atoi (str_at s 1) in
             if number \<ge> 0 \<and> number < int (historyCount k) then
               (case history k ! nat number of Some h \<Rightarrow> Some (k, copy_str s h (MAX_INPUT_LINE - 1), input) | None \<Rightarrow> None)
             else Some (k, s[0 := 0], input))
          else Some (if c_str s = quit_text then k\<lparr>quitFlag := True\<rparr> else k, s, input)))"

text \<open>One round of the loop of \<^verbatim>\<open>run\<close>: the command that is executed, with its arguments.\<close>

definition run_command :: "u8 list \<Rightarrow> console \<Rightarrow> (console \<times> (u8 list \<times> u8 list list) option) option" where
  "run_command sc k =
    (if sc ! 0 \<noteq> 0 then
       (let s_cmd_copy = c_str sc; (s, token, context) = tokenize sc 0; args = (replicate MAX_ARGS None)[0 := token]
        in (case token of
              None \<Rightarrow> Some (k, None)
            | Some p \<Rightarrow>
                (case matchCommand (str_at s p) k of
                   None \<Rightarrow> None
                 | Some None \<Rightarrow> Some (k, None)
                 | Some (Some cmd) \<Rightarrow>
                     (let (s, args, i) = args_loop MAX_ARGS s args 0 context
                      in Some (addInHistory s_cmd_copy k, Some (cmd, map (\<lambda>a. str_at s (the a)) (take i args)))))))
     else Some (k, None))"

definition run_round :: "u8 list \<Rightarrow> console \<Rightarrow> (console \<times> (u8 list \<times> u8 list list) option \<times> u8 list) option" where
  "run_round input k =
    (case getCommand input k (replicate MAX_INPUT_LINE 0) of
       None \<Rightarrow> None
     | Some (k, s, input) \<Rightarrow> (case run_command s k of None \<Rightarrow> None | Some (k, x) \<Rightarrow> Some (k, x, input)))"

text \<open>
  The loop of \<^verbatim>\<open>run\<close> up to \<open>quit\<close>: the commands executed. Each round uses up some input, so the fuel given is enough.
\<close>

fun run_rounds :: "nat \<Rightarrow> u8 list \<Rightarrow> console \<Rightarrow> (console \<times> (u8 list \<times> u8 list list) list) option" where
  "run_rounds 0 input k = None"
| "run_rounds (Suc fuel) input k =
     (case run_round input k of
        None \<Rightarrow> None
      | Some (k, x, input) \<Rightarrow>
          (let xs = (case x of None \<Rightarrow> [] | Some c \<Rightarrow> [c]) in
           if quitFlag k then Some (freeHistory (k\<lparr>quitFlag := False\<rparr>), xs)
           else (case run_rounds fuel input k of None \<Rightarrow> None | Some (k, ys) \<Rightarrow> Some (k, xs @ ys))))"

definition console_run :: "u8 list \<Rightarrow> console \<Rightarrow> (console \<times> (u8 list \<times> u8 list list) list) option" where
  "console_run input k = run_rounds (length input) input (resetInternals k)"

section \<open>The line as a text with a cursor\<close>

text \<open>The text before and after the cursor.\<close>

definition line_is :: "line \<Rightarrow> u8 list \<Rightarrow> u8 list \<Rightarrow> bool" where
  "line_is l b a \<longleftrightarrow> s_cmd l = b @ a @ replicate (MAX_INPUT_LINE - length b - length a) 0 \<and> cursor_x l = length b \<and>
     len l = length b + length a \<and> 0 \<notin> set b \<and> 0 \<notin> set a \<and> length b + length a \<le> MAX_INPUT_LINE"

definition good_text :: "u8 list \<Rightarrow> bool" where
  "good_text t \<longleftrightarrow> 0 \<notin> set t \<and> length t < MAX_INPUT_LINE"

definition console_ok :: "console \<Rightarrow> bool" where
  "console_ok k \<longleftrightarrow> length (history k) = HISTORY_SIZE \<and> (\<forall>h. Some h \<in> set (history k) \<longrightarrow> good_text h) \<and> (\<forall>c \<in> set (cmds k). good_text c)"

lemma c_str_text: "0 \<notin> set t \<Longrightarrow> c_str (t @ replicate n 0) = t"
  by (cases n) (auto simp: c_str_def takeWhile_tail intro: takeWhile_eq_all_conv [THEN iffD2])

lemma copy_str_text:
  assumes "length s = 80" and "length t \<le> 79"
  shows "(copy_str s t 79)[79 := 0] = t @ replicate (80 - length t) 0"
proof -
  let ?h = "take 79 (t @ replicate 79 (0 :: u8))"
  have h: "?h = t @ replicate (79 - length t) 0" "length ?h = 79" using assms(2) by (simp_all add: min_def)
  have "length (drop 79 s) = Suc 0" using assms(1) by simp
  then obtain x where x: "drop 79 s = [x]" by (cases "drop 79 s") (simp_all only: length_0_conv list.size nat.inject nat.distinct add_Suc_right add_0_right)
  have "(copy_str s t 79)[79 := 0] = ?h @ [0]"
    unfolding copy_str_def x list_update_append h(2) by simp
  also have "\<dots> = t @ replicate (Suc (79 - length t)) 0"
    unfolding h(1) append_assoc replicate_append_same by simp
  finally show ?thesis using assms(2) by (simp add: Suc_diff_le [symmetric] del: replicate_Suc)
qed

lemma shift_right_nth:
  assumes "length s = 80" and "cur + n \<le> 80"
  shows "length (shift_right s cur n) = 80 \<and>
    (\<forall>p < 80. shift_right s cur n ! p = (if cur < p \<and> p \<le> cur + n then s ! (p - 1) else s ! p))"
  using assms
proof (induction n arbitrary: s)
  case (Suc n)
  define s' where "s' = (if cur + n + 1 < 80 then s[cur + n + 1 := s ! (cur + n)] else s)"
  have l: "length s' = 80" using Suc.prems by (simp add: s'_def)
  have e: "shift_right s cur (Suc n) = shift_right s' cur n" by (simp add: s'_def Let_def)
  have i: "length (shift_right s' cur n) = 80"
    "\<And>p. p < 80 \<Longrightarrow> shift_right s' cur n ! p = (if cur < p \<and> p \<le> cur + n then s' ! (p - 1) else s' ! p)"
    using Suc.IH [OF l] Suc.prems by simp_all
  have "shift_right s' cur n ! p = (if cur < p \<and> p \<le> cur + Suc n then s ! (p - 1) else s ! p)" if p: "p < 80" for p
  proof (cases "p = cur + n + 1")
    case True
    then show ?thesis using i(2) [OF p] p Suc.prems by (simp add: s'_def)
  next
    case False
    then show ?thesis using i(2) [OF p] p Suc.prems by (auto simp: s'_def)
  qed
  then show ?case unfolding e using i(1) by simp
qed auto

lemma put_char_is:
  assumes l: "line_is l b a" and room: "length b + length a < 80" and c: "c \<noteq> 0"
  shows "line_is (put_char ins c l) (b @ [c]) (if ins then a else tl a)"
proof (cases "ins \<and> a \<noteq> []")
  case True
  let ?s = "s_cmd l" and ?z = "80 - length b - length a"
  have s: "?s = b @ a @ replicate ?z 0" "cursor_x l = length b" "len l = length b + length a" using l by (simp_all add: line_is_def)
  have n: "length ?s = 80" using s room by simp
  let ?r = "shift_right ?s (length b) (Suc (length a))"
  have r: "length ?r = 80" "\<And>p. p < 80 \<Longrightarrow> ?r ! p = (if length b < p \<and> p \<le> length b + Suc (length a) then ?s ! (p - 1) else ?s ! p)"
    using shift_right_nth [OF n, of "length b" "Suc (length a)"] room by simp_all
  have "?r[length b := c] = (b @ [c]) @ a @ replicate (80 - length (b @ [c]) - length a) 0"
  proof (rule nth_equalityI)
    show "length (?r[length b := c]) = length ((b @ [c]) @ a @ replicate (80 - length (b @ [c]) - length a) 0)" using r(1) room by simp
    fix p assume "p < length (?r[length b := c])"
    then have p: "p < 80" using r(1) by simp
    show "?r[length b := c] ! p = ((b @ [c]) @ a @ replicate (80 - length (b @ [c]) - length a) 0) ! p"
      using r(2) [OF p] r(1) p room s(1) by (auto simp: nth_list_update nth_append nth_Cons')
  qed
  then show ?thesis using True s l c room by (simp add: put_char_def line_is_def)
next
  case False
  show ?thesis
  proof (cases a)
    case Nil
    have "replicate (80 - length b) 0 = (0 :: u8) # replicate (79 - length b) 0"
      using room Nil by (simp add: Suc_diff_le replicate_Suc [symmetric] del: replicate_Suc)
    then show ?thesis using l Nil c room by (auto simp: put_char_def line_is_def Let_def list_update_append)
  next
    case (Cons x a')
    then show ?thesis using False l c room by (auto simp: put_char_def line_is_def Let_def list_update_append)
  qed
qed

lemma line_is_end:
  assumes "line_is l b a" and "length b + length a < 80"
  shows "(s_cmd l)[len l := 0] = s_cmd l" and "c_str (s_cmd l) = b @ a"
proof -
  have "s_cmd l = (b @ a) @ 0 # replicate (79 - length b - length a) 0" "len l = length (b @ a)"
    using assms by (simp_all add: line_is_def replicate_Suc [symmetric] Suc_diff_le del: replicate_Suc)
  then show "(s_cmd l)[len l := 0] = s_cmd l" by (metis list_update_length)
  have "s_cmd l = (b @ a) @ replicate (80 - length b - length a) 0" "0 \<notin> set (b @ a)" using assms by (simp_all add: line_is_def)
  then show "c_str (s_cmd l) = b @ a" by (metis c_str_text)
qed

lemma back_space_is:
  assumes l: "line_is l b a" and room: "length b + length a < 80"
  shows "line_is (back_space l) (butlast b) a"
proof (cases b rule: rev_cases)
  case Nil
  then show ?thesis using l by (simp add: back_space_def line_is_def)
next
  case (snoc b' x)
  let ?z = "79 - length b' - length a"
  obtain m where m: "?z = Suc m" using room snoc by (cases ?z) auto
  have s: "s_cmd l = b' @ x # a @ replicate ?z 0" "cursor_x l = Suc (length b')" "len l = Suc (length b') + length a"
    using l snoc by (simp_all add: line_is_def)
  have "take (1 + len l - cursor_x l) (drop (cursor_x l) (s_cmd l)) = a @ [0]" unfolding s m by simp
  moreover have "take (cursor_x l - 1) (s_cmd l) = b'" "drop (cursor_x l - 1 + length (a @ [0])) (s_cmd l) = replicate ?z 0"
    unfolding s by simp_all
  ultimately have "s_cmd (back_space l) = (b' @ a @ [0] @ replicate ?z 0)[len l := 0]"
    using s by (simp add: back_space_def Let_def)
  also have "\<dots> = b' @ a @ replicate (Suc ?z) 0" unfolding s m by (simp add: list_update_append)
  finally have t: "s_cmd (back_space l) = b' @ a @ replicate (Suc ?z) 0" .
  have "Suc ?z = 80 - length b' - length a" using room snoc by simp
  then show ?thesis using t l snoc room s by (auto simp: line_is_def back_space_def simp del: replicate_Suc)
qed

lemma recall_is:
  assumes "line_is l b a" and "good_text h"
  shows "line_is (l\<lparr>s_cmd := (copy_str (s_cmd l) h 79)[79 := 0], len := length h, cursor_x := length h\<rparr>) h []"
  using assms by (auto simp: line_is_def good_text_def copy_str_text)

lemma line_is_move:
  "line_is l (b @ [x]) a \<Longrightarrow> line_is (l\<lparr>cursor_x := length b\<rparr>) b (x # a)"
  "line_is l b (x # a) \<Longrightarrow> line_is (l\<lparr>cursor_x := Suc (length b)\<rparr>) (b @ [x]) a"
  "line_is l b a \<Longrightarrow> line_is (l\<lparr>history_count := n\<rparr>) b a"
  "line_is l b a \<Longrightarrow> line_is (l\<lparr>len := length b + length a, cursor_x := length b + length a\<rparr>) (b @ a) []"
  by (auto simp: line_is_def)

text \<open>The editor on texts: insert mode, place in the history, the text before and after the cursor.\<close>

type_synonym edited = "bool \<times> int \<times> u8 list \<times> u8 list"

definition recalled :: "console \<Rightarrow> bool \<Rightarrow> int \<Rightarrow> u8 list \<times> u8 list \<Rightarrow> edited" where
  "recalled k ins n ba = (case history k ! nat n of None \<Rightarrow> (ins, n, ba) | Some h \<Rightarrow> (ins, n, h, []))"

definition type_key :: "console \<Rightarrow> u8 \<Rightarrow> edited \<Rightarrow> edited option" where
  "type_key k ch t =
    (case t of (ins, n, b, a) \<Rightarrow>
       if ch = KEY_INSERT_MODE then Some (\<not> ins, n, b, a)
       else if ch = KEY_UP then Some (recalled k ins (min 4 (n + 1)) (b, a))
       else if ch = KEY_DOWN then Some (recalled k ins (max 0 (n - 1)) (b, a))
       else if ch = KEY_LEFT then Some (if b = [] then t else (ins, n, butlast b, last b # a))
       else if ch = KEY_RIGHT then Some (case a of [] \<Rightarrow> t | x # a' \<Rightarrow> (ins, n, b @ [x], a'))
       else if ch = KEY_BACKSPACE then Some (ins, n, butlast b, a)
       else if ch = TAB then
         map_option (\<lambda>ms. case ms of [] \<Rightarrow> t | [c] \<Rightarrow> (ins, n, c, []) | _ \<Rightarrow> (ins, n, b @ a, [])) (listMatchingCommands (b @ a) k)
       else if ch = NL \<or> ch = CR then Some t
       else Some (ins, n, b @ [ch], if ins then a else tl a))"

definition shows_text :: "console \<Rightarrow> console \<times> line \<Rightarrow> edited \<Rightarrow> bool" where
  "shows_text k kl t \<longleftrightarrow> (case (kl, t) of ((k', l), (ins, n, b, a)) \<Rightarrow>
     k' = k\<lparr>insertMode := ins\<rparr> \<and> line_is l b a \<and> history_count l = n \<and> - 1 \<le> n \<and> n < 5)"

lemma match_loop_in: "match_loop nm cs ms = Some r \<Longrightarrow> set r \<subseteq> set cs \<union> set ms"
proof (induction nm cs ms rule: match_loop.induct)
  case (2 nm c cs ms)
  then show ?case by (cases "take (length nm) c = nm"; cases "length c = length nm"; cases "length ms \<ge> 10") auto
qed simp

lemma matching_good:
  assumes "console_ok k" and "listMatchingCommands nm k = Some ms" and "c \<in> set ms"
  shows "good_text c"
proof -
  have "nm \<noteq> []" using assms(2,3) by (auto simp: listMatchingCommands_def)
  then have "match_loop nm (cmds k) [] = Some ms" using assms(2) by (simp add: listMatchingCommands_def)
  from match_loop_in [OF this] have "c \<in> set (cmds k)" using assms(3) by auto
  then show ?thesis using assms(1) by (simp add: console_ok_def)
qed

lemma recall_shows:
  assumes ok: "console_ok k" and l: "line_is l b a" and n: "history_count l = n" "0 \<le> n" "n < 5"
  shows "shows_text k (k\<lparr>insertMode := ins\<rparr>, recall (k\<lparr>insertMode := ins\<rparr>) l) (recalled k ins n (b, a))"
proof (cases "history k ! nat n")
  case None
  then show ?thesis using l n by (simp add: shows_text_def recalled_def recall_def)
next
  case (Some h)
  have "nat n < length (history k)" using ok n by (simp add: console_ok_def nat_less_iff)
  from nth_mem [OF this] have "Some h \<in> set (history k)" using Some by simp
  then have "good_text h" using ok by (simp add: console_ok_def)
  from recall_is [OF l this] show ?thesis using Some n by (simp add: shows_text_def recalled_def recall_def)
qed


lemma complete_shows:
  assumes ok: "console_ok k" and l: "line_is l b a" and room: "length b + length a < 80"
    and that: "- 1 \<le> history_count l" "history_count l < 5"
  shows "rel_option (shows_text k) (map_option (Pair (k\<lparr>insertMode := ins\<rparr>)) (complete (k\<lparr>insertMode := ins\<rparr>) l))
    (map_option (\<lambda>ms. case ms of [] \<Rightarrow> (ins, history_count l, b, a) | [c] \<Rightarrow> (ins, history_count l, c, [])
       | _ \<Rightarrow> (ins, history_count l, b @ a, [])) (listMatchingCommands (b @ a) k))"
proof -
  note e = line_is_end [OF l room]
  have lm: "listMatchingCommands (b @ a) (k\<lparr>insertMode := ins\<rparr>) = listMatchingCommands (b @ a) k"
    by (simp add: listMatchingCommands_def)
  have l0: "l\<lparr>s_cmd := s_cmd l\<rparr> = l" by simp
  show ?thesis
  proof (cases "listMatchingCommands (b @ a) k")
    case None
    then show ?thesis by (simp add: complete_def e lm Let_def)
  next
    case (Some ms)
    consider "ms = []" | c where "ms = [c]" | c d ms' where "ms = c # d # ms'" by (cases ms rule: remdups_adj.cases) auto
    then show ?thesis
    proof cases
      case 1
      then show ?thesis using Some that l by (simp add: complete_def e lm Let_def shows_text_def)
    next
      case 2
      have g: "good_text c" using matching_good [OF ok Some] 2 by simp
      from recall_is [OF l g] have r: "line_is (l\<lparr>s_cmd := (copy_str (s_cmd l) c 79)[79 := 0], len := length c, cursor_x := length c\<rparr>) c []" .
      then have "c_str ((copy_str (s_cmd l) c 79)[79 := 0]) = c"
        using line_is_end(2) [OF r] g by (simp add: good_text_def)
      then show ?thesis using Some 2 that r by (simp add: complete_def e lm Let_def shows_text_def)
    next
      case 3
      then show ?thesis using Some that line_is_move(4) [OF l] by (simp add: complete_def e lm Let_def shows_text_def)
    qed
  qed
qed

lemma edit_shows:
  assumes ok: "console_ok k" and t: "shows_text k kl t" and room: "length (fst (snd (snd t))) + length (snd (snd (snd t))) < 80"
    and ch: "ch \<noteq> 0"
  shows "rel_option (shows_text k) (edit ch kl) (type_key k ch t)"
proof -
  obtain k' l where kl: "kl = (k', l)" by fastforce
  obtain ins n b a where t': "t = (ins, n, b, a)" by (cases t) auto
  have k': "k' = k\<lparr>insertMode := ins\<rparr>" and l: "line_is l b a" and n: "history_count l = n" "- 1 \<le> n" "n < 5"
    using t by (simp_all add: shows_text_def kl t')
  have r: "length b + length a < 80" using room by (simp add: t')
  consider "ch = KEY_INSERT_MODE" | "ch = KEY_UP" | "ch = KEY_DOWN" | "ch = KEY_LEFT" | "ch = KEY_RIGHT" | "ch = KEY_BACKSPACE" | "ch = TAB"
    | "ch = NL \<or> ch = CR" | "ch \<notin> {KEY_INSERT_MODE, KEY_UP, KEY_DOWN, KEY_LEFT, KEY_RIGHT, KEY_BACKSPACE, TAB, NL, CR}" by auto
  then show ?thesis
  proof cases
    case 1
    then show ?thesis using l n by (simp add: edit_def type_key_def kl t' k' shows_text_def)
  next
    case 2
    define l' where "l' = (if history_count l < int HISTORY_SIZE - 1 then l\<lparr>history_count := history_count l + 1\<rparr> else l)"
    have "line_is l' b a" "history_count l' = min 4 (n + 1)" using l n by (auto simp: l'_def line_is_move(3))
    moreover have "0 \<le> min 4 (n + 1)" "min 4 (n + 1) < 5" using n by auto
    moreover have "edit ch kl = Some (k', recall k' l')" "type_key k ch t = Some (recalled k ins (min 4 (n + 1)) (b, a))"
      using 2 by (simp_all add: edit_def type_key_def kl t' key_defs l'_def)
    ultimately show ?thesis using recall_shows [OF ok, of l' b a "min 4 (n + 1)" ins] by (simp add: k')
  next
    case 3
    define l1 where "l1 = (if history_count l > 0 then l\<lparr>history_count := history_count l - 1\<rparr> else l)"
    define l' where "l' = (if history_count l1 < 0 then l1\<lparr>history_count := 0\<rparr> else l1)"
    have "line_is l' b a" "history_count l' = max 0 (n - 1)" using l n by (auto simp: l'_def l1_def line_is_move(3))
    moreover have "0 \<le> max 0 (n - 1)" "max 0 (n - 1) < 5" using n by auto
    moreover have "edit ch kl = Some (k', recall k' l')" "type_key k ch t = Some (recalled k ins (max 0 (n - 1)) (b, a))"
      using 3 by (simp_all add: edit_def type_key_def kl t' key_defs l'_def l1_def)
    ultimately show ?thesis using recall_shows [OF ok, of l' b a "max 0 (n - 1)" ins] by (simp add: k')
  next
    case 4
    then show ?thesis using l n line_is_move(1) [of l "butlast b" "last b" a]
      by (cases "b = []") (auto simp: edit_def type_key_def kl t' k' shows_text_def key_defs line_is_def)
  next
    case 5
    then show ?thesis using l n line_is_move(2) [of l b "hd a" "tl a"]
      by (cases a) (auto simp: edit_def type_key_def kl t' k' shows_text_def key_defs line_is_def)
  next
    case 6
    then show ?thesis using l n back_space_is [OF l r] by (simp add: edit_def type_key_def kl t' k' shows_text_def key_defs back_space_def)
  next
    case 7
    have "edit ch kl = map_option (Pair k') (complete k' l)" unfolding kl edit_def 7 by (simp add: key_defs)
    moreover have "type_key k ch t = map_option (\<lambda>ms. case ms of [] \<Rightarrow> (ins, n, b, a) | [c] \<Rightarrow> (ins, n, c, [])
       | _ \<Rightarrow> (ins, n, b @ a, [])) (listMatchingCommands (b @ a) k)"
      unfolding t' type_key_def 7 by (simp add: key_defs)
    ultimately show ?thesis using complete_shows [OF ok l r, of ins] n unfolding k' by simp
  next
    case 8
    then have "edit ch kl = Some (k', l)" "type_key k ch t = Some t" by (auto simp: edit_def type_key_def kl t' key_defs)
    then show ?thesis using t by (simp add: kl)
  next
    case 9
    then have "edit ch kl = Some (k', put_char (insertMode k') ch l)" "type_key k ch t = Some (ins, n, b @ [ch], if ins then a else tl a)"
      by (simp_all add: edit_def type_key_def kl t')
    moreover have "history_count (put_char ins ch l) = n" using n(1) by (simp add: put_char_def Let_def)
    ultimately show ?thesis using put_char_is [OF l r ch, of ins] n by (simp add: shows_text_def k')
  qed
qed


subsection \<open>A whole line\<close>

lemma filtering_shorter:
  "input \<noteq> [] \<Longrightarrow> length (snd (getUserInputCharWithFiltering input)) < length input"
proof -
  have g: "length (snd (getUserInputChar i)) \<le> length i" for i by (cases i) auto
  assume "input \<noteq> []"
  then obtain c cs where i: "input = c # cs" by (cases input) auto
  note g1 = g [of cs] and g2 = g [of "snd (getUserInputChar cs)"] and g3 = g [of "snd (getUserInputChar (snd (getUserInputChar cs)))"]
  show ?thesis using g1 g2 g3 by (simp add: i getUserInputCharWithFiltering_def split_beta Let_def)
qed

text \<open>The keys of an input, each with what follows it.\<close>

function keys_of :: "u8 list \<Rightarrow> (u8 \<times> u8 list) list" where
  "keys_of input = (if input = [] then [] else
     getUserInputCharWithFiltering input # keys_of (snd (getUserInputCharWithFiltering input)))"
  by pat_completeness auto
termination
  by (relation "measure length") (auto simp: filtering_shorter)

declare keys_of.simps [simp del]

lemma keys_of_Nil [simp]: "keys_of [] = []"
  by (simp add: keys_of.simps)

text \<open>The editor on texts reads keys up to the end of the line or up to 80 characters, of which it keeps 79.\<close>

fun type_keys :: "console \<Rightarrow> edited \<Rightarrow> (u8 \<times> u8 list) list \<Rightarrow> (bool \<times> u8 list \<times> u8 list) option" where
  "type_keys k t [] = None"
| "type_keys k t ((ch, rest) # ks) =
    (if ch = 0 then type_keys k t ks
     else
       (case type_key k (if ch = KEY_DELETE_MODE then KEY_BACKSPACE else ch) t of
          None \<Rightarrow> None
        | Some (ins, n, b, a) \<Rightarrow>
            if length (b @ a) = 80 then Some (ins, take 79 (b @ a), rest)
            else if ch = NL \<or> ch = CR then Some (ins, b @ a, rest)
            else type_keys k (ins, n, b, a) ks))"

definition line_read :: "console \<Rightarrow> (console \<times> line \<times> u8 list) \<Rightarrow> (bool \<times> u8 list \<times> u8 list) \<Rightarrow> bool" where
  "line_read k x y \<longleftrightarrow> (case (x, y) of ((k', l, rest), (ins, t, rest')) \<Rightarrow>
     k' = k\<lparr>insertMode := ins\<rparr> \<and> (s_cmd l)[len l := 0] = t @ replicate (80 - length t) 0 \<and> rest' = rest \<and> good_text t)"

lemma line_read_end:
  assumes t: "shows_text k (k', l) (ins, n, b, a)"
  shows "line_read k (k', if len l = 80 then l\<lparr>len := 79\<rparr> else l, rest) (ins, take 79 (b @ a), rest)"
proof -
  have l: "line_is l b a" and k': "k' = k\<lparr>insertMode := ins\<rparr>" using t by (simp_all add: shows_text_def)
  have le: "length (b @ a) \<le> 80" "len l = length (b @ a)" "0 \<notin> set (b @ a)" using l by (simp_all add: line_is_def)
  have g: "good_text (take 79 (b @ a))" using le(3) set_take_subset [of 79 "b @ a"] by (auto simp: good_text_def)
  have "(s_cmd l)[min 79 (len l) := 0] = take 79 (b @ a) @ replicate (80 - length (take 79 (b @ a))) 0"
  proof (cases "length (b @ a) = 80")
    case True
    have s: "s_cmd l = b @ a" using l True by (simp add: line_is_def)
    have "(b @ a)[79 := 0] = take 79 (b @ a) @ 0 # drop (Suc 79) (b @ a)" by (rule upd_conv_take_nth_drop) (use True in simp)
    moreover have "drop (Suc 79) (b @ a) = []" "length (take 79 (b @ a)) = 79" using True by simp_all
    ultimately show ?thesis using le(2) True s by (simp only: min_def) simp
  next
    case False
    have e: "(s_cmd l)[len l := 0] = s_cmd l" by (rule line_is_end(1) [OF l]) (use False le in simp)
    have m: "min 79 (len l) = len l" "take 79 (b @ a) = b @ a" using le False by simp_all
    show ?thesis unfolding m e using l by (simp add: line_is_def)
  qed
  moreover have "min 79 (len l) = (if len l = 80 then 79 else len l)" using le(1,2) by simp
  moreover define t' where "t' = take 79 (b @ a)"
  ultimately show ?thesis using g k' by (cases "len l = 80") (simp_all add: line_read_def)
qed

lemma edit_loop_shows:
  assumes ok: "console_ok k"
  shows "shows_text k kl t \<Longrightarrow> length (fst (snd (snd t))) + length (snd (snd (snd t))) < 80 \<Longrightarrow> length input \<le> fuel \<Longrightarrow>
    rel_option (line_read k) (edit_loop fuel input kl) (type_keys k t (keys_of input))"
proof (induction fuel arbitrary: input kl t)
  case 0
  then show ?case by simp
next
  case (Suc fuel)
  show ?case
  proof (cases "input = []")
    case True
    then show ?thesis by simp
  next
    case False
    obtain ch rest where f: "getUserInputCharWithFiltering input = (ch, rest)" by fastforce
    have "length rest < length input" using filtering_shorter [OF False] f by simp
    then have le: "length rest \<le> fuel" using Suc.prems(3) by simp
    have ks: "keys_of input = (ch, rest) # keys_of rest" using False f by (simp add: keys_of.simps [of input])
    define c where "c = (if ch = KEY_DELETE_MODE then KEY_BACKSPACE else ch)"
    have nl: "c = NL \<or> c = CR \<longleftrightarrow> ch = NL \<or> ch = CR" by (simp add: c_def key_defs)
    show ?thesis
    proof (cases "ch = 0")
      case True
      then show ?thesis using Suc.IH [OF Suc.prems(1,2) le] False f ks by simp
    next
      case ch: False
      have c0: "c \<noteq> 0" using ch by (simp add: c_def key_defs)
      have e: "edit_loop (Suc fuel) input kl = (case edit c kl of None \<Rightarrow> None | Some (k, l) \<Rightarrow>
          if len l = 80 then Some (k, l\<lparr>len := 79\<rparr>, rest) else if c \<noteq> NL \<and> c \<noteq> CR then edit_loop fuel rest (k, l) else Some (k, l, rest))"
        using False f ch by (simp add: c_def Let_def split: option.split)
      have r: "rel_option (shows_text k) (edit c kl) (type_key k c t)" by (rule edit_shows [OF ok Suc.prems(1,2) c0])
      show ?thesis
      proof (cases "type_key k c t")
        case None
        then show ?thesis using r e ks ch by (simp add: c_def [symmetric])
      next
        case (Some t')
        then obtain k' l' where kl': "edit c kl = Some (k', l')" and sh: "shows_text k (k', l') t'"
          using r by (auto simp: option_rel_Some2)
        obtain ins n b a where t': "t' = (ins, n, b, a)" by (cases t') auto
        have l: "len l' = length (b @ a)" "length (b @ a) \<le> 80" using sh by (simp_all add: shows_text_def t' line_is_def)
        note end_read = line_read_end [OF sh [unfolded t'], of rest]
        show ?thesis
        proof (cases "length (b @ a) = 80")
          case True
          then show ?thesis using end_read e kl' l ks ch Some t' by (simp add: c_def [symmetric])
        next
          case short: False
          then have tk: "take 79 (b @ a) = b @ a" using l by simp
          show ?thesis
          proof (cases "ch = NL \<or> ch = CR")
            case True
            then have "c = NL \<or> c = CR" using nl by simp
            then show ?thesis using end_read [unfolded tk] True e kl' l ks ch Some t' short by (auto simp add: c_def [symmetric])
          next
            case False
            then have "\<not> (c = NL \<or> c = CR)" using nl by simp
            moreover have "length (fst (snd (snd t'))) + length (snd (snd (snd t'))) < 80" using short l by (simp add: t')
            ultimately show ?thesis using Suc.IH [OF sh _ le] False e kl' l ks ch Some t' short by (simp add: c_def [symmetric])
          qed
        qed
      qed
    qed
  qed
qed

lemma line_read_whole:
  assumes ok: "console_ok k"
  shows "getUserInputString input k (replicate 80 0) =
    map_option (\<lambda>(ins, t, rest). (k\<lparr>insertMode := ins\<rparr>, t @ replicate (80 - length t) 0, rest))
      (type_keys k (insertMode k, - 1, [], []) (keys_of input))"
    and "type_keys k (insertMode k, - 1, [], []) (keys_of input) = Some (ins, t, rest) \<Longrightarrow> good_text t"
proof -
  let ?l = "\<lparr>s_cmd = (replicate 80 0)[0 := 0], len = 0, cursor_x = 0, history_count = - 1\<rparr>"
  have "(replicate 80 0)[0 := 0] = (replicate 80 0 :: u8 list)" by (rule nth_equalityI) (auto simp: nth_list_update)
  then have "shows_text k (k, ?l) (insertMode k, - 1, [], [])" by (simp add: shows_text_def line_is_def)
  from edit_loop_shows [OF ok this, of input "length input"]
  have r: "rel_option (line_read k) (edit_loop (length input) input (k, ?l)) (type_keys k (insertMode k, - 1, [], []) (keys_of input))"
    by simp
  show "getUserInputString input k (replicate 80 0) =
    map_option (\<lambda>(ins, t, rest). (k\<lparr>insertMode := ins\<rparr>, t @ replicate (80 - length t) 0, rest))
      (type_keys k (insertMode k, - 1, [], []) (keys_of input))"
    using r unfolding getUserInputString_def
    by (cases "type_keys k (insertMode k, - 1, [], []) (keys_of input)") (auto simp: option_rel_Some2 line_read_def)
  show "type_keys k (insertMode k, - 1, [], []) (keys_of input) = Some (ins, t, rest) \<Longrightarrow> good_text t"
    using r by (auto simp: option_rel_Some2 line_read_def)
qed

section \<open>Words\<close>

abbreviation delim :: "u8 \<Rightarrow> bool" where "delim c \<equiv> c \<in> set delimiters"

text \<open>The words of a text, without reference to an array.\<close>

function words_of :: "u8 list \<Rightarrow> u8 list list" where
  "words_of t = (let t = dropWhile delim t in
     if t = [] then [] else takeWhile (\<lambda>c. \<not> delim c) t # words_of (dropWhile (\<lambda>c. \<not> delim c) t))"
  by pat_completeness auto
termination
proof (relation "measure length")
  fix t t' :: "u8 list"
  assume t': "t' = dropWhile delim t" "t' \<noteq> []"
  then have "\<not> delim (hd t')" using hd_dropWhile by blast
  then have "length (dropWhile (\<lambda>c. \<not> delim c) t') < length t'" using t'(2) by (cases t') (auto simp: length_dropWhile_le less_Suc_eq_le)
  also have "\<dots> \<le> length t" unfolding t'(1) by (rule length_dropWhile_le)
  finally show "(dropWhile (\<lambda>c. \<not> delim c) t', t) \<in> measure length" by simp
qed simp

declare words_of.simps [simp del]

lemma words_of_tl: "delim c \<Longrightarrow> words_of (c # t) = words_of t"
  by (subst (1 2) words_of.simps) simp

text \<open>A text inside an array, with its zero.\<close>

definition text_at :: "u8 list \<Rightarrow> nat \<Rightarrow> u8 list \<Rightarrow> bool" where
  "text_at s p u \<longleftrightarrow> 0 \<notin> set u \<and> (\<exists>z. drop p s = u @ 0 # z)"

lemma text_at_str: "text_at s p u \<Longrightarrow> str_at s p = u"
  by (auto simp: text_at_def str_at_def c_str_def takeWhile_tail)

lemma text_at_bound: "text_at s p u \<Longrightarrow> p + length u < length s"
proof -
  assume "text_at s p u"
  then obtain z where "drop p s = u @ 0 # z" by (auto simp: text_at_def)
  then have "length s - p = length u + Suc (length z)" by (metis length_drop length_append length_Cons)
  then show ?thesis by simp
qed

lemma text_at_nth: "text_at s p u \<Longrightarrow> s ! p = (u @ [0]) ! 0"
proof -
  assume t: "text_at s p u"
  then obtain z where "drop p s = u @ 0 # z" by (auto simp: text_at_def)
  moreover have "s ! p = drop p s ! 0" using text_at_bound [OF t] by simp
  ultimately show ?thesis by (cases u) auto
qed

lemma text_at_later: "text_at s p (u @ v) \<Longrightarrow> text_at s (p + length u) v"
  by (auto simp: text_at_def add.commute [of p] simp flip: drop_drop)

lemma text_at_update: "text_at s p u \<Longrightarrow> p + length u < q \<Longrightarrow> text_at (s[q := x]) p u"
  by (auto simp: text_at_def drop_update_swap list_update_append nth_Cons' split: nat.split)

lemma text_at_cut:
  assumes "text_at s p (u @ c # v)"
  shows "text_at (s[p + length u := 0]) p u" and "text_at (s[p + length u := 0]) (Suc (p + length u)) v"
proof -
  obtain z where z: "drop p s = u @ c # v @ 0 # z" "0 \<notin> set u" "0 \<notin> set v" using assms by (auto simp: text_at_def)
  have d: "drop p (s[p + length u := 0]) = u @ 0 # v @ 0 # z" using z(1) by (simp add: drop_update_swap list_update_append)
  then show "text_at (s[p + length u := 0]) p u" using z by (simp add: text_at_def)
  have "drop (Suc (p + length u)) (s[p + length u := 0]) = drop (Suc (length u)) (drop p (s[p + length u := 0]))"
    by (simp add: drop_drop add.commute)
  then show "text_at (s[p + length u := 0]) (Suc (p + length u)) v" unfolding d using z by (auto simp: text_at_def)
qed

lemma tokenize_none:
  assumes "text_at s p u" and "words_of u = []"
  shows "\<exists>c. tokenize s p = (s, None, c)"
proof -
  have "dropWhile delim u = []" using assms(2) by (simp add: words_of.simps [of u] Let_def split: if_splits)
  then have tw: "takeWhile delim u = u" using takeWhile_dropWhile_id [of delim u] by simp
  have "s ! (p + length (takeWhile delim (str_at s p))) = 0"
    unfolding text_at_str [OF assms(1)] tw using text_at_nth [OF text_at_later [of s p u "[]"]] assms(1) by simp
  then show ?thesis by (simp add: tokenize_def Let_def)
qed

lemma tokenize_some:
  assumes t: "text_at s p u" and w: "words_of u = w # ws"
  shows "\<exists>s' q c u'. tokenize s p = (s', Some q, c) \<and> text_at s' q w \<and> q + length w \<le> c \<and> text_at s' c u' \<and> words_of u' = ws \<and>
    p \<le> c \<and> (\<forall>q' u''. text_at s q' u'' \<and> q' + length u'' \<le> p \<longrightarrow> text_at s' q' u'')"
proof -
  define v where "v = dropWhile delim u"
  define r where "r = dropWhile (\<lambda>c. \<not> delim c) v"
  have v: "v \<noteq> []" "w = takeWhile (\<lambda>c. \<not> delim c) v" "ws = words_of r"
    using w by (simp_all add: words_of.simps [of u] v_def r_def Let_def split: if_splits)
  have u: "u = takeWhile delim u @ v" and wr: "v = w @ r" unfolding v_def r_def v(2) by simp_all
  define q where "q = p + length (takeWhile delim u)"
  have tv: "text_at s q v" unfolding q_def by (rule text_at_later) (use t u in simp)
  have nz: "s ! q \<noteq> 0" using text_at_nth [OF tv] v(1) tv by (cases v) (auto simp: text_at_def)
  have "\<not> delim (hd v)" using v(1) hd_dropWhile unfolding v_def by blast
  then have w0: "w \<noteq> []" using v(1,2) by (cases v) auto
  have tr: "text_at s (q + length w) r" by (rule text_at_later) (use tv wr in simp)
  define c where "c = q + length w"
  have e: "tokenize s p = (if s ! c \<noteq> 0 then (s[c := 0], Some q, c + 1) else (s, Some q, c))"
    using nz by (simp add: tokenize_def Let_def text_at_str [OF t] text_at_str [OF tv] q_def [symmetric] c_def v(2))
  show ?thesis
  proof (cases r)
    case Nil
    then have "s ! c = 0" using text_at_nth [OF tr] by (simp add: c_def)
    moreover have "text_at s q w" using tv wr Nil by simp
    ultimately show ?thesis using e tr v(3) by (auto simp: c_def q_def)
  next
    case (Cons d r')
    have d: "delim d" using hd_dropWhile [of "\<lambda>c. \<not> delim c" v] Cons by (simp add: r_def [symmetric])
    have "d \<noteq> 0" using tr Cons by (auto simp: text_at_def)
    then have "s ! c \<noteq> 0" using text_at_nth [OF tr] Cons by (simp add: c_def)
    moreover have "text_at s q (w @ d # r')" using tv wr Cons by simp
    note text_at_cut [OF this]
    moreover have "words_of r' = ws" using v(3) Cons words_of_tl [OF d] by simp
    moreover have "text_at (s[c := 0]) q' u''" if "text_at s q' u''" "q' + length u'' \<le> p" for q' u''
    proof (rule text_at_update [OF that(1)])
      have "0 < length w" using w0 by simp
      then show "q' + length u'' < c" unfolding c_def q_def using that(2) by linarith
    qed
    moreover have "p \<le> c" by (simp add: c_def q_def)
    ultimately show ?thesis using e by (auto simp: c_def)
  qed
qed

lemma args_loop_words:
  assumes "length args = MAX_ARGS" and "i < 9" and "list_all2 (\<lambda>a w. \<exists>q. a = Some q \<and> text_at s q w \<and> q + length w \<le> c) (take (Suc i) args) done"
    and "text_at s c u" and "words_of u = ws" and "9 - i \<le> fuel"
  shows "\<exists>s' args' n. args_loop (Suc fuel) s args i c = (s', args', n) \<and> map (\<lambda>a. str_at s' (the a)) (take n args') = take 9 (done @ ws)"
  using assms
proof (induction fuel arbitrary: s args i c u ws "done")
  case (Suc fuel)
  let ?R = "\<lambda>s c a w. \<exists>q. a = Some q \<and> text_at s q w \<and> q + length w \<le> c"
  note pr = Suc.prems
  have ld: "length done = Suc i" using list_all2_lengthD [OF pr(3)] pr(1,2) by simp
  have str: "map (\<lambda>a. str_at s (the a)) as = d" if "list_all2 (?R s c) as d" for s c as d
    using that by (induction rule: list_all2_induct) (auto simp: text_at_str)
  have "?R s c (take (Suc i) args ! i) (done ! i)" using list_all2_nthD2 [OF pr(3), of i] ld by simp
  then have cur: "args ! i \<noteq> None" by auto
  show ?case
  proof (cases ws)
    case Nil
    then obtain c' where t: "tokenize s c = (s, None, c')" using tokenize_none pr(4,5) by metis
    have m: "map (\<lambda>a. str_at s (the a)) (take (Suc i) (args[Suc i := None])) = done" using str [OF pr(3)] by simp
    have "args_loop (Suc (Suc fuel)) s args i c = (s, args[Suc i := None], Suc i)"
      using cur t pr(1,2) by (simp add: Let_def)
    then show ?thesis using m Nil ld pr(2) by simp
  next
    case (Cons w ws')
    then obtain s' q c' u' where t: "tokenize s c = (s', Some q, c')" and n: "text_at s' q w" "q + length w \<le> c'" "text_at s' c' u'" "words_of u' = ws'"
      and k: "\<forall>q' u''. text_at s q' u'' \<and> q' + length u'' \<le> c \<longrightarrow> text_at s' q' u''" and cc: "c \<le> c'"
      using tokenize_some [OF pr(4), of w ws'] pr(5) by auto
    have old: "list_all2 (?R s' c') (take (Suc i) args) done"
      using pr(3) by (rule list_all2_mono) (use k cc in fastforce)
    show ?thesis
    proof (cases "Suc i = 9")
      case True
      have "args_loop (Suc (Suc fuel)) s args i c = (s', args[Suc i := Some q], Suc i)" using cur t True by (simp add: Let_def)
      moreover have "map (\<lambda>a. str_at s' (the a)) (take (Suc i) (args[Suc i := Some q])) = take 9 (done @ ws)"
        using str [OF old] ld True by simp
      ultimately show ?thesis by blast
    next
      case False
      have "take (Suc (Suc i)) (args[Suc i := Some q]) = take (Suc i) args @ [Some q]"
        using pr(1,2) by (simp add: take_Suc_conv_app_nth)
      then have la: "list_all2 (?R s' c') (take (Suc (Suc i)) (args[Suc i := Some q])) (done @ [w])"
        using old n(1,2) by (simp add: list_all2_appendI)
      have "length (args[Suc i := Some q]) = 10" "Suc i < 9" "9 - Suc i \<le> fuel" using pr(1,2,6) False by simp_all
      from Suc.IH [OF this(1,2) la n(3,4) this(3)] obtain s2 args2 n2 where
        "args_loop (Suc fuel) s' (args[Suc i := Some q]) (Suc i) c' = (s2, args2, n2)"
        "map (\<lambda>a. str_at s2 (the a)) (take n2 args2) = take 9 ((done @ [w]) @ ws')" by blast
      moreover have "args_loop (Suc (Suc fuel)) s args i c = args_loop (Suc fuel) s' (args[Suc i := Some q]) (Suc i) c'"
        using cur t False by (subst args_loop.simps) (simp add: Let_def del: args_loop.simps)
      ultimately show ?thesis unfolding Cons append_assoc append_Cons append_Nil by metis
    qed
  qed
qed simp

section \<open>The history\<close>

text \<open>The history shows the list of the latest commands.\<close>

definition shows_history :: "console \<Rightarrow> u8 list list \<Rightarrow> bool" where
  "shows_history k l \<longleftrightarrow> history k = map Some l @ replicate (5 - length l) None \<and> historyCount k = min 4 (length l) \<and> length l \<le> 5 \<and> distinct l"

lemma remove1_nth: "i < length l \<Longrightarrow> c \<notin> set (take i l) \<Longrightarrow> l ! i = c \<Longrightarrow> remove1 c l = take i l @ drop (Suc i) l"
  by (subst id_take_nth_drop [of i l]) (simp_all add: remove1_append)

lemma history_loop_finds:
  assumes "i + n = 5" and "i \<le> length l" and "c \<notin> set (take i l)" and "length l \<le> 5"
  shows "history_loop c (map Some l @ replicate (5 - length l) None) i n =
    (if c \<in> set l then Some (map Some (c # remove1 c l) @ replicate (5 - length l) None, False)
     else if length l < 5 then Some (map Some (c # l) @ replicate (4 - length l) None, True) else None)"
  using assms
proof (induction n arbitrary: i)
  case 0
  then show ?case by auto
next
  case (Suc n)
  let ?h = "map Some l @ replicate (5 - length l) None"
  show ?case
  proof (cases "i = length l")
    case True
    then have "c \<notin> set l" "length l < 5" "replicate (5 - length l) (None :: u8 list option) = None # replicate (4 - length l) None"
      using Suc.prems by (simp_all add: Suc_diff_le [symmetric] replicate_Suc [symmetric] del: replicate_Suc)
    then show ?thesis using True by (simp add: nth_append)
  next
    case False
    then have i: "i < length l" using Suc.prems(2) by simp
    have h: "?h ! i = Some (l ! i)" using i by (simp add: nth_append)
    show ?thesis
    proof (cases "l ! i = c")
      case True
      have "c \<in> set l" using True i by auto
      moreover have "?h ! i # take i ?h @ drop (i + 1) ?h = map Some (c # remove1 c l) @ replicate (5 - length l) None"
        using i h True remove1_nth [OF i Suc.prems(3) True] by (simp add: take_map drop_map)
      ultimately show ?thesis using h True by simp
    next
      case other: False
      have "c \<notin> set (take (Suc i) l)" using other Suc.prems(3) i by (simp add: take_Suc_conv_app_nth)
      from Suc.IH [OF _ _ this] show ?thesis using Suc.prems i h other by simp
    qed
  qed
qed

lemma addInHistory_shows:
  assumes "shows_history k l"
  shows "shows_history (addInHistory c k) (take 5 (c # remove1 c l))"
proof -
  have l: "length l \<le> 5" "distinct l" and h: "history k = map Some l @ replicate (5 - length l) None" and n: "historyCount k = min 4 (length l)"
    using assms by (simp_all add: shows_history_def)
  define k' where "k' = (if historyCount k = 0 then k\<lparr>history := replicate HISTORY_SIZE None\<rparr> else k)"
  have k': "history k' = map Some l @ replicate (5 - length l) None" "historyCount k' = min 4 (length l)"
    using h n by (cases l; simp add: k'_def)+
  have e: "history_loop c (history k') 0 HISTORY_SIZE = (if c \<in> set l then Some (map Some (c # remove1 c l) @ replicate (5 - length l) None, False)
     else if length l < 5 then Some (map Some (c # l) @ replicate (4 - length l) None, True) else None)"
    unfolding k' by (rule history_loop_finds) (use l in simp_all)
  consider "c \<in> set l" | "c \<notin> set l" "length l < 5" | "c \<notin> set l" "length l = 5" using l by linarith
  then show ?thesis
  proof cases
    case 1
    have "length (remove1 c l) = length l - 1" "l \<noteq> []" using 1 by (auto simp: length_remove1)
    then have "length (c # remove1 c l) = length l" by (cases l) simp_all
    moreover have "addInHistory c k = k'\<lparr>history := map Some (c # remove1 c l) @ replicate (5 - length l) None\<rparr>"
      using e 1 unfolding addInHistory_def k'_def [symmetric] Let_def by simp
    ultimately show ?thesis using l k' 1 by (simp add: shows_history_def distinct_remove1)
  next
    case 2
    have "addInHistory c k = (if length l < 4 then k'\<lparr>history := map Some (c # l) @ replicate (4 - length l) None, historyCount := length l + 1\<rparr>
        else k'\<lparr>history := map Some (c # l) @ replicate (4 - length l) None\<rparr>)"
      using e 2 k' unfolding addInHistory_def k'_def [symmetric] Let_def by simp
    then show ?thesis using l k' 2 by (simp add: shows_history_def remove1_idem)
  next
    case 3
    have "addInHistory c k = k'\<lparr>history := Some c # take 4 (history k')\<rparr>"
      using e 3 unfolding addInHistory_def k'_def [symmetric] Let_def by simp
    moreover have "set (take 4 l) \<subseteq> set l" by (rule set_take_subset)
    ultimately show ?thesis using l k' 3 by (auto simp: shows_history_def remove1_idem take_map)
  qed
qed

lemma take_remove1: "distinct l \<Longrightarrow> take (Suc n) (c # remove1 c (take (Suc n) l)) = take (Suc n) (c # remove1 c l)"
proof (induction n arbitrary: l)
  case 0
  show ?case by simp
next
  case (Suc n)
  show ?case
  proof (cases l)
    case (Cons x xs)
    show ?thesis
    proof (cases "x = c")
      case True
      then show ?thesis using Cons by simp
    next
      case False
      have "take n (remove1 c (take (Suc n) xs)) = take n (remove1 c xs)" using Suc.IH [of xs] Suc.prems Cons by simp
      then show ?thesis using False Cons by simp
    qed
  qed simp
qed

lemma remdups_snoc: "remdups (cs @ [c]) = filter (\<lambda>x. x \<noteq> c) (remdups cs) @ [c]"
  by (induction cs) auto

lemma rev_remdups_snoc: "rev (remdups (cs @ [c])) = c # remove1 c (rev (remdups cs))"
proof -
  have "remove1 c (rev (remdups cs)) = filter (\<lambda>x. x \<noteq> c) (rev (remdups cs))"
    by (simp add: distinct_remove1_removeAll removeAll_filter_not_eq eq_commute)
  then show ?thesis by (simp add: remdups_snoc rev_filter)
qed

lemma history_after:
  "shows_history (fold addInHistory cs (resetInternals k)) (take 5 (rev (remdups cs)))"
proof (induction cs rule: rev_induct)
  case Nil
  then show ?case by (simp add: shows_history_def resetInternals_def)
next
  case (snoc c cs)
  have "take 5 (c # remove1 c (take 5 (rev (remdups cs)))) = take 5 (rev (remdups (cs @ [c])))"
    using take_remove1 [of "rev (remdups cs)" 4 c] by (simp add: rev_remdups_snoc)
  then show ?case using addInHistory_shows [OF snoc.IH, of c] by simp
qed

section \<open>The console at work\<close>

text \<open>A text without control characters and without the bytes that stand for keys.\<close>

definition plain_line :: "u8 list \<Rightarrow> bool" where
  "plain_line t \<longleftrightarrow> length t \<le> 79 \<and> (\<forall>c \<in> set t. c \<notin> set [0, 8, 9, 10, 13, 0x1B, 126, 127, 128, 129, 130, 131])"

lemma type_plain:
  assumes "plain_line t" and "length b + length t \<le> 79"
  shows "type_keys k (ins, n, b, []) (keys_of (t @ CR # rest)) = Some (ins, b @ t, rest)"
  using assms
proof (induction t arbitrary: b)
  case Nil
  have "getUserInputCharWithFiltering (CR # rest) = (CR, rest)" by (simp add: getUserInputCharWithFiltering_def key_defs)
  then show ?case using Nil by (simp add: keys_of.simps [of "CR # rest"]) (simp add: type_key_def key_defs)
next
  case (Cons c t)
  have c: "c \<notin> set [0, 8, 9, 10, 13, 0x1B, 126, 127, 128, 129, 130, 131]" "plain_line t"
    using Cons.prems(1) by (simp_all add: plain_line_def)
  have "getUserInputCharWithFiltering (c # t @ CR # rest) = (c, t @ CR # rest)"
    using c(1) by (simp add: getUserInputCharWithFiltering_def key_defs)
  moreover have "type_key k c (ins, n, b, []) = Some (ins, n, b @ [c], [])"
    using c(1) by (simp add: type_key_def key_defs)
  ultimately show ?case using Cons.IH [OF c(2), of "b @ [c]"] Cons.prems(2) c(1)
    by (simp add: keys_of.simps [of "c # t @ CR # rest"]) (simp add: key_defs)
qed

lemma plain_text_at:
  assumes "plain_line t"
  shows "text_at (t @ replicate (80 - length t) 0) 0 t"
proof -
  have "80 - length t = Suc (79 - length t)" using assms unfolding plain_line_def by arith
  moreover have "0 \<notin> set t" using assms by (auto simp: plain_line_def)
  ultimately show ?thesis by (simp add: text_at_def)
qed

lemma run_command_words:
  assumes t: "text_at s 0 t"
  shows "run_command s k = (case words_of t of [] \<Rightarrow> Some (k, None) | w # ws \<Rightarrow>
    (case matchCommand w k of None \<Rightarrow> None | Some None \<Rightarrow> Some (k, None)
     | Some (Some cmd) \<Rightarrow> Some (addInHistory t k, Some (cmd, take 9 (w # ws)))))"
proof -
  have s0: "s ! 0 = (t @ [0]) ! 0" and ct: "c_str s = t" using text_at_nth [OF t] text_at_str [OF t] by (simp_all add: str_at_def)
  show ?thesis
  proof (cases "words_of t")
    case Nil
    obtain c where "tokenize s 0 = (s, None, c)" using tokenize_none [OF t Nil] by blast
    then show ?thesis using Nil by (simp add: run_command_def)
  next
    case (Cons w ws)
    then have "t \<noteq> []" by (auto simp: words_of.simps [of t])
    then have s1: "s ! 0 \<noteq> 0" using s0 t by (cases t) (auto simp: text_at_def)
    obtain s' q c u' where k: "tokenize s 0 = (s', Some q, c)" and q: "text_at s' q w" "q + length w \<le> c" "text_at s' c u'" "words_of u' = ws"
      using tokenize_some [OF t Cons] by blast
    let ?a = "(replicate MAX_ARGS None)[0 := Some q]"
    have ten: "MAX_ARGS = Suc 9" by simp
    have "?a = Some q # replicate 9 None" unfolding ten replicate_Suc list_update_code ..
    then have "length ?a = MAX_ARGS" "0 < (9 :: nat)" "list_all2 (\<lambda>a w. \<exists>q. a = Some q \<and> text_at s' q w \<and> q + length w \<le> c) (take (Suc 0) ?a) [w]"
      "9 - 0 \<le> (9 :: nat)" using q by simp_all
    from args_loop_words [OF this(1-3) q(3,4) this(4)] obtain s2 args n where
      a: "args_loop (Suc 9) s' ?a 0 c = (s2, args, n)" "map (\<lambda>a. str_at s2 (the a)) (take n args) = take 9 (w # ws)" by auto
    show ?thesis using s1 k a unfolding run_command_def Let_def ct ten
      by (simp add: text_at_str [OF q(1)] Cons split: option.split del: args_loop.simps)
  qed
qed

lemma run_round_plain:
  assumes ok: "console_ok k" and t: "plain_line t" and bang: "t = [] \<or> hd t \<noteq> 33"
  shows "run_round (t @ CR # rest) k =
    (let k' = (if t = quit_text then k\<lparr>quitFlag := True\<rparr> else k) in
     case words_of t of
       [] \<Rightarrow> Some (k', None, rest)
     | w # ws \<Rightarrow>
         (case matchCommand w k of
            None \<Rightarrow> None
          | Some None \<Rightarrow> Some (k', None, rest)
          | Some (Some cmd) \<Rightarrow> Some (addInHistory t k', Some (cmd, take 9 (w # ws)), rest)))"
proof -
  let ?s = "t @ replicate (80 - length t) 0"
  define k' where "k' = (if t = quit_text then k\<lparr>quitFlag := True\<rparr> else k)"
  have ta: "text_at ?s 0 t" by (rule plain_text_at [OF t])
  have "length t \<le> 79" using t by (simp add: plain_line_def)
  then have "type_keys k (insertMode k, - 1, [], []) (keys_of (t @ CR # rest)) = Some (insertMode k, t, rest)"
    using type_plain [OF t, of "[]"] by simp
  then have g: "getUserInputString (t @ CR # rest) k (replicate MAX_INPUT_LINE 0) = Some (k, ?s, rest)"
    using line_read_whole(1) [OF ok, of "t @ CR # rest"] by simp
  have b: "?s ! 0 \<noteq> 33" using text_at_nth [OF ta] bang by (cases t) auto
  have c: "c_str ?s = t" using text_at_str [OF ta] by (simp add: str_at_def)
  have "getCommand (t @ CR # rest) k (replicate MAX_INPUT_LINE 0) = Some (k', ?s, rest)"
    unfolding getCommand_def g using b c by (simp add: k'_def)
  moreover have "matchCommand w k' = matchCommand w k" for w
    by (simp add: k'_def matchCommand_def listMatchingCommands_def)
  ultimately show ?thesis unfolding k'_def [symmetric] Let_def
    by (simp add: run_round_def run_command_words [OF ta] split: list.split option.split)
qed

lemma match_loop_filter:
  "length ms + length (filter (\<lambda>c. take (length nm) c = nm) cs) \<le> 10 \<Longrightarrow>
   match_loop nm cs ms = Some (if nm \<in> set cs then [nm] else ms @ filter (\<lambda>c. take (length nm) c = nm) cs)"
proof (induction cs arbitrary: ms)
  case (Cons c cs)
  show ?case
  proof (cases "take (length nm) c = nm")
    case True
    show ?thesis
    proof (cases "length c = length nm")
      case True
      then show ?thesis using \<open>take (length nm) c = nm\<close> by simp
    next
      case False
      then have "c \<noteq> nm" by auto
      then show ?thesis using Cons.IH [of "ms @ [c]"] Cons.prems True False by auto
    qed
  next
    case False
    then have "c \<noteq> nm" by auto
    then show ?thesis using Cons.IH [of ms] Cons.prems False by auto
  qed
qed simp

lemma console_ok_reset: "\<forall>c \<in> set (cmds k). good_text c \<Longrightarrow> console_ok (resetInternals k)"
  by (auto simp: console_ok_def resetInternals_def)

text \<open>The commands of the application on lwIP: \<open>echo\<close>, \<open>http\<close>, \<open>iperf\<close>, \<open>ping\<close>, \<open>scan\<close>, \<open>stats\<close>.\<close>

definition sample_console :: console where
  "sample_console = resetInternals \<lparr>cmds = [[101, 99, 104, 111], [104, 116, 116, 112], [105, 112, 101, 114, 102], [112, 105, 110, 103],
     [115, 99, 97, 110], [115, 116, 97, 116, 115]], history = [], historyCount = 0, insertMode = False, quitFlag = False\<rparr>"

lemma sample_console_ok: "console_ok sample_console"
  unfolding sample_console_def by (rule console_ok_reset) (simp add: good_text_def)

lemma history_loop_keeps:
  "history_loop c h i n = Some (h', new) \<Longrightarrow> i + n = length h \<Longrightarrow> length h' = length h \<and> set h' \<subseteq> insert (Some c) (set h)"
proof (induction n arbitrary: i)
  case (Suc n)
  have i: "i < length h" using Suc.prems(2) by simp
  have s: "set (take i h) \<subseteq> set h" "set (drop (i + 1) h) \<subseteq> set h" by (rule set_take_subset, rule set_drop_subset)
  show ?case
  proof (cases "h ! i = Some c \<or> h ! i = None")
    case True
    then have "h' = Some c # take i h @ drop (i + 1) h" using Suc.prems(1) by auto
    then show ?thesis using i s by auto
  next
    case False
    then have "history_loop c h (i + 1) n = Some (h', new)" "i + 1 + n = length h" using Suc.prems by auto
    then show ?thesis by (rule Suc.IH)
  qed
qed simp

lemma addInHistory_ok:
  assumes ok: "console_ok k" and c: "good_text c"
  shows "console_ok (addInHistory c k)"
proof -
  define k' where "k' = (if historyCount k = 0 then k\<lparr>history := replicate HISTORY_SIZE None\<rparr> else k)"
  have k': "console_ok k'" using ok by (auto simp: k'_def console_ok_def)
  have keep: "console_ok (k'\<lparr>history := h\<rparr>) \<and> console_ok (k'\<lparr>history := h, historyCount := n\<rparr>)"
    if "length h = HISTORY_SIZE" "set h \<subseteq> insert (Some c) (set (history k'))" for h n
    using that k' c by (auto simp: console_ok_def)
  show ?thesis
  proof (cases "history_loop c (history k') 0 HISTORY_SIZE")
    case None
    have "set (take (HISTORY_SIZE - 1) (history k')) \<subseteq> set (history k')" by (rule set_take_subset)
    then have "console_ok (k'\<lparr>history := Some c # take (HISTORY_SIZE - 1) (history k')\<rparr>)"
      using keep [of "Some c # take (HISTORY_SIZE - 1) (history k')"] k' by (auto simp: console_ok_def)
    then show ?thesis using None by (simp add: addInHistory_def k'_def [symmetric] Let_def)
  next
    case (Some r)
    then obtain h new where r: "history_loop c (history k') 0 HISTORY_SIZE = Some (h, new)" by (cases r) auto
    have "length h = HISTORY_SIZE" "set h \<subseteq> insert (Some c) (set (history k'))"
      using history_loop_keeps [OF r] k' by (simp_all add: console_ok_def)
    then show ?thesis using keep r by (simp add: addInHistory_def k'_def [symmetric] Let_def)
  qed
qed

lemma addInHistory_fields:
  "cmds (addInHistory c k) = cmds k" "insertMode (addInHistory c k) = insertMode k" "quitFlag (addInHistory c k) = quitFlag k"
  by (simp_all add: addInHistory_def Let_def split: option.split)

subsection \<open>A whole session\<close>

definition named :: "u8 list list \<Rightarrow> u8 list \<Rightarrow> u8 list option" where
  "named cs nm = (if nm \<in> set cs then Some nm else (case filter (\<lambda>c. take (length nm) c = nm) cs of [c] \<Rightarrow> Some c | _ \<Rightarrow> None))"

definition line_calls :: "u8 list list \<Rightarrow> u8 list \<Rightarrow> (u8 list \<times> u8 list list) list" where
  "line_calls cs t = (case words_of t of [] \<Rightarrow> [] | w # ws \<Rightarrow> (case named cs w of Some cmd \<Rightarrow> [(cmd, take 9 (w # ws))] | None \<Rightarrow> []))"

lemma matchCommand_named:
  assumes "nm \<noteq> []" and "length (filter (\<lambda>c. take (length nm) c = nm) (cmds k)) \<le> 10"
  shows "matchCommand nm k = Some (named (cmds k) nm)"
  using match_loop_filter [of "[]" nm "cmds k"] assms
  by (auto simp: matchCommand_def listMatchingCommands_def named_def split: list.split)

lemma words_of_nonempty: "words_of t = w # ws \<Longrightarrow> w \<noteq> []"
proof -
  assume "words_of t = w # ws"
  then have "dropWhile delim t \<noteq> []" "w = takeWhile (\<lambda>c. \<not> delim c) (dropWhile delim t)"
    by (simp_all add: words_of.simps [of t] Let_def split: if_splits)
  moreover have "\<not> delim (hd (dropWhile delim t))" by (rule hd_dropWhile) (rule calculation(1))
  ultimately show "w \<noteq> []" by (cases "dropWhile delim t") auto
qed

lemma round_calls:
  assumes ok: "console_ok k" and few: "length (cmds k) \<le> 10" and t: "plain_line t" "t = [] \<or> hd t \<noteq> 33"
  shows "\<exists>k' x. run_round (t @ CR # rest) k = Some (k', x, rest) \<and> (case x of None \<Rightarrow> [] | Some c \<Rightarrow> [c]) = line_calls (cmds k) t \<and>
    console_ok k' \<and> cmds k' = cmds k \<and> insertMode k' = insertMode k \<and> quitFlag k' = (quitFlag k \<or> t = quit_text)"
proof -
  have g: "good_text t" using t(1) by (auto simp: plain_line_def good_text_def)
  define k1 where "k1 = (if t = quit_text then k\<lparr>quitFlag := True\<rparr> else k)"
  have k1: "console_ok k1" "cmds k1 = cmds k" "insertMode k1 = insertMode k" "quitFlag k1 = (quitFlag k \<or> t = quit_text)"
    using ok by (auto simp: k1_def console_ok_def)
  note r = run_round_plain [OF ok t, of rest, folded k1_def, unfolded Let_def]
  show ?thesis
  proof (cases "words_of t")
    case Nil
    then show ?thesis using r k1 by (simp add: line_calls_def)
  next
    case (Cons w ws)
    have "length (filter (\<lambda>c. take (length w) c = w) (cmds k)) \<le> 10" using few length_filter_le order.trans by blast
    note m = matchCommand_named [OF words_of_nonempty [OF Cons] this]
    show ?thesis
    proof (cases "named (cmds k) w")
      case None
      then show ?thesis using r k1 m Cons by (simp add: line_calls_def)
    next
      case (Some cmd)
      then show ?thesis using r k1 m Cons addInHistory_ok [OF k1(1) g] by (simp add: line_calls_def addInHistory_fields)
    qed
  qed
qed

lemma run_rounds_calls:
  assumes "console_ok k" and "length (cmds k) \<le> 10" and "\<not> quitFlag k" and "insertMode k"
    and "\<forall>t \<in> set ts. plain_line t \<and> (t = [] \<or> hd t \<noteq> 33) \<and> t \<noteq> quit_text" and "length ts < n"
  shows "run_rounds n (concat (map (\<lambda>t. t @ [CR]) ts) @ quit_text @ CR # rest) k =
    Some (resetInternals k, concat (map (line_calls (cmds k)) (ts @ [quit_text])))"
  using assms
proof (induction ts arbitrary: k n)
  case Nil
  then obtain m where m: "n = Suc m" by (cases n) auto
  have "plain_line quit_text" "quit_text = [] \<or> hd quit_text \<noteq> 33" by (simp_all add: quit_text_def plain_line_def)
  from round_calls [OF Nil.prems(1,2) this, of rest] obtain k' x where
    r: "run_round (quit_text @ CR # rest) k = Some (k', x, rest)" "(case x of None \<Rightarrow> [] | Some c \<Rightarrow> [c]) = line_calls (cmds k) quit_text"
    and k': "cmds k' = cmds k" "insertMode k' = insertMode k" "quitFlag k'" by auto
  have "freeHistory (k'\<lparr>quitFlag := False\<rparr>) = resetInternals k"
    using k' Nil.prems(4) by (simp add: freeHistory_def resetInternals_def)
  then show ?case using r k' m by simp
next
  case (Cons t ts)
  then obtain m where m: "n = Suc m" by (cases n) auto
  have t: "plain_line t" "t = [] \<or> hd t \<noteq> 33" "t \<noteq> quit_text" using Cons.prems(5) by auto
  let ?rest = "concat (map (\<lambda>t. t @ [CR]) ts) @ quit_text @ CR # rest"
  from round_calls [OF Cons.prems(1,2) t(1,2), of ?rest] obtain k' x where
    r: "run_round (t @ CR # ?rest) k = Some (k', x, ?rest)" "(case x of None \<Rightarrow> [] | Some c \<Rightarrow> [c]) = line_calls (cmds k) t"
    and k': "console_ok k'" "cmds k' = cmds k" "insertMode k' = insertMode k" "\<not> quitFlag k'" using t(3) Cons.prems(3) by auto
  have "resetInternals k' = resetInternals k" using k' by (simp add: resetInternals_def)
  moreover have "run_rounds m ?rest k' = Some (resetInternals k', concat (map (line_calls (cmds k')) (ts @ [quit_text])))"
    using Cons.prems k' m by (intro Cons.IH) auto
  ultimately show ?case using r k' m by simp
qed

section \<open>Properties\<close>

text \<open>
  C22: Reading a line is editing a text with a cursor. Whatever keys are typed, the array of 80 bytes that the code shifts, copies and
  terminates holds just the text that an editor with a text before and a text after the cursor gives (insertion and overwriting, the arrow keys,
  backspace, completion, recall of the history), followed by zeros; the text has at most 79 characters and no zero. The
  reading ends with the line or with the eightieth character, which is dropped.
\<close>
theorem console_line_edited:
  assumes "console_ok k"
  shows "getUserInputString input k (replicate 80 0) =
      map_option (\<lambda>(ins, t, rest). (k\<lparr>insertMode := ins\<rparr>, t @ replicate (80 - length t) 0, rest))
        (type_keys k (insertMode k, - 1, [], []) (keys_of input))
    \<and> (\<forall>ins t rest. type_keys k (insertMode k, - 1, [], []) (keys_of input) = Some (ins, t, rest) \<longrightarrow> good_text t)"
  using line_read_whole [OF assms] by blast

text \<open>Typed: \<open>c\<close>, \<open>n\<close>, arrow left, \<open>a\<close>, arrow left, arrow left, \<open>s\<close>, return.\<close>

lemma console_line_edited_witness:
  "getUserInputString [99, 110, 0x1B, 91, 68, 97, 0x1B, 91, 68, 0x1B, 91, 68, 115, 13, 7] sample_console (replicate 80 0) =
     Some (sample_console, [115, 99, 97, 110] @ replicate 76 0, [7])"
proof -
  have "type_keys sample_console (True, - 1, [], []) (keys_of [99, 110, 0x1B, 91, 68, 97, 0x1B, 91, 68, 0x1B, 91, 68, 115, 13, 7]) =
      Some (True, [115, 99, 97, 110], [7])"
    by (simp add: keys_of.simps getUserInputCharWithFiltering_def type_key_def key_defs Let_def)
  moreover have "insertMode sample_console" by (simp add: sample_console_def resetInternals_def)
  ultimately show ?thesis
    using console_line_edited [OF sample_console_ok, of "[99, 110, 0x1B, 91, 68, 97, 0x1B, 91, 68, 0x1B, 91, 68, 115, 13, 7]"] by simp
qed

text \<open>
  C17: A session runs what is typed. For all lines of ordinary characters, ended by \<open>quit\<close>, the console executes, in
  order, the command that the first word of each line names, with the words of the line, at most nine, as its arguments; blank lines
  and unknown commands are skipped. In the end the history is freed and the console is as at its start.
\<close>
theorem console_session:
  assumes "\<forall>c \<in> set (cmds k). good_text c" and "length (cmds k) \<le> 10"
    and "\<forall>t \<in> set ts. plain_line t \<and> (t = [] \<or> hd t \<noteq> 33) \<and> t \<noteq> quit_text"
  shows "console_run (concat (map (\<lambda>t. t @ [CR]) ts) @ quit_text @ [CR]) k =
    Some (resetInternals k, concat (map (line_calls (cmds k)) (ts @ [quit_text])))"
proof -
  have "length ts \<le> length (concat (map (\<lambda>t. t @ [CR]) ts))" by (induction ts) auto
  then have "length ts < length (concat (map (\<lambda>t. t @ [CR]) ts) @ quit_text @ [CR])" by simp
  from run_rounds_calls [OF console_ok_reset [OF assms(1)] _ _ _ assms(3) this, of "[]"] show ?thesis
    unfolding console_run_def using assms(2) by (simp add: resetInternals_def)
qed

text \<open>The lines \<open>pi 4 x\<close>, with two spaces, \<open>s\<close> and \<open>scan\<close>.\<close>

lemma console_session_witness:
  "console_run [112, 105, 32, 32, 52, 32, 120, 13, 115, 13, 115, 99, 97, 110, 13, 113, 117, 105, 116, 13] sample_console =
     Some (sample_console, [([112, 105, 110, 103], [[112, 105], [52], [120]]), ([115, 99, 97, 110], [[115, 99, 97, 110]])])"
proof -
  let ?ts = "[[112, 105, 32, 32, 52, 32, 120], [115], [115, 99, 97, 110]]"
  have w: "words_of [112, 105, 32, 32, 52, 32, 120] = [[112, 105], [52], [120]]" "words_of [115] = [[115]]"
    "words_of [115, 99, 97, 110] = [[115, 99, 97, 110]]" "words_of quit_text = [quit_text]"
    by (simp_all add: words_of.simps delimiters_def quit_text_def Let_def)
  have "\<forall>c \<in> set (cmds sample_console). good_text c" using sample_console_ok by (simp add: console_ok_def)
  moreover have "length (cmds sample_console) \<le> 10" by (simp add: sample_console_def resetInternals_def)
  moreover have "\<forall>t \<in> set ?ts. plain_line t \<and> (t = [] \<or> hd t \<noteq> 33) \<and> t \<noteq> quit_text" by (simp add: plain_line_def quit_text_def)
  ultimately have "console_run (concat (map (\<lambda>t. t @ [CR]) ?ts) @ quit_text @ [CR]) sample_console =
    Some (resetInternals sample_console, concat (map (line_calls (cmds sample_console)) (?ts @ [quit_text])))" by (rule console_session)
  moreover have "resetInternals sample_console = sample_console" by (simp add: sample_console_def resetInternals_def)
  ultimately show ?thesis using w by (simp add: line_calls_def named_def sample_console_def resetInternals_def quit_text_def CR_def)
qed

text \<open>
  A name selects the command of that name, else the only command that begins with it, else none: as long as
  at most ten commands begin with the name, which is the size of the array of matches, the search finds what this says.
\<close>
theorem console_matches_names:
  assumes "nm \<noteq> []" and "length (filter (\<lambda>c. take (length nm) c = nm) (cmds k)) \<le> 10"
  shows "matchCommand nm k =
    Some (if nm \<in> set (cmds k) then Some nm
          else (case filter (\<lambda>c. take (length nm) c = nm) (cmds k) of [c] \<Rightarrow> Some c | _ \<Rightarrow> None))"
  using matchCommand_named [OF assms] by (simp add: named_def)

lemma console_matches_names_witness:
  "matchCommand [115] sample_console = Some None \<and> matchCommand [115, 99] sample_console = Some (Some [115, 99, 97, 110])"
  using console_matches_names [of "[115]" sample_console] console_matches_names [of "[115, 99]" sample_console]
  by (simp add: sample_console_def resetInternals_def)

lemma match_array_overrun:
  "matchCommand [97] (sample_console\<lparr>cmds := map (\<lambda>i. [97, word_of_nat i]) [1..<12]\<rparr>) = None"
  by (simp add: matchCommand_def listMatchingCommands_def upt_rec)

text \<open>
  After any commands the history holds the latest five different ones, the last first, whether a command is new, repeated at once or
  taken up again from further back; the count, which says how many can be listed and recalled by number, stops at four.
\<close>
theorem console_history_latest:
  "let h = take 5 (rev (remdups cs)); k' = fold addInHistory cs (resetInternals k) in
   history k' = map Some h @ replicate (5 - length h) None \<and> historyCount k' = min 4 (length h)"
  using history_after [of cs k] by (simp add: shows_history_def Let_def)

end
