(* ===== verification/Lib_Lock.thy ===== *)
theory Lib_Lock
  imports Prelude_Base
begin

text \<open>
  The locks of the C library and of the static initialisation of the C++ run time
  (\<^verbatim>\<open>lib/stm32_lock.h\<close>, \<^verbatim>\<open>lib/newlib_lock_glue.c\<close>). Taking a lock saves the interrupt mask register
  and raises it, giving it unwind restores the saved value; a lock has room for two levels. A lock that is
  misused stops the system: \<open>None\<close> is the endless loop of \<^verbatim>\<open>ErrorHandler\<close> with interrupts disabled.
\<close>

section \<open>The locks\<close>

record LockingData_t =
  basepri :: "u32 list"
  nesting_level :: u8

definition configMAX_SYSCALL_INTERRUPT_PRIORITY :: u32 where
  "configMAX_SYSCALL_INTERRUPT_PRIORITY = 0x20"

definition stm32_lock_init :: "LockingData_t \<Rightarrow> LockingData_t" where
  "stm32_lock_init l = l\<lparr>basepri := map (\<lambda>_. 0) (basepri l), nesting_level := 0\<rparr>"

text \<open>A lock and the register before and after.\<close>

definition stm32_lock_acquire :: "LockingData_t \<Rightarrow> u32 \<Rightarrow> (LockingData_t \<times> u32) option" where
  "stm32_lock_acquire l reg =
    (if nesting_level l \<ge> 2 then None
     else Some (l\<lparr>basepri := (basepri l)[unat (nesting_level l) := reg], nesting_level := nesting_level l + 1\<rparr>,
                configMAX_SYSCALL_INTERRUPT_PRIORITY))"

definition stm32_lock_release :: "LockingData_t \<Rightarrow> u32 \<Rightarrow> (LockingData_t \<times> u32) option" where
  "stm32_lock_release l reg =
    (let l = l\<lparr>nesting_level := nesting_level l - 1\<rparr> in
     if nesting_level l \<ge> 2 then None else Some (l, basepri l ! unat (nesting_level l)))"

section \<open>The state\<close>

record CxaGuardObject_t =
  initialized :: u8
  acquired :: u8

datatype lock_errno = EINVAL_lock

text \<open>Locks and guards by their address, zero being the null pointer.\<close>

record lock_state =
  BASEPRI :: u32
  lock_at :: "u32 \<Rightarrow> LockingData_t"
  guard_mutex :: LockingData_t
  guard_at :: "u32 \<Rightarrow> CxaGuardObject_t"
  lock_errno :: "lock_errno option"

section \<open>The lock functions of the library\<close>

text \<open>\<open>storage\<close> is what \<^verbatim>\<open>malloc\<close> returns, \<open>lock\<close> is where the lock's address is to be stored.\<close>

definition retarget_lock_init_recursive :: "u32 \<Rightarrow> u32 \<Rightarrow> lock_state \<Rightarrow> (lock_state \<times> u32 option) option" where
  "retarget_lock_init_recursive storage lock s =
    (if lock = 0 then Some (s\<lparr>lock_errno := Some EINVAL_lock\<rparr>, None)
     else if storage \<noteq> 0
     then Some (s\<lparr>lock_at := (lock_at s)(storage := stm32_lock_init (lock_at s storage))\<rparr>, Some storage)
     else None)"

definition retarget_lock_init :: "u32 \<Rightarrow> u32 \<Rightarrow> lock_state \<Rightarrow> (lock_state \<times> u32 option) option" where
  "retarget_lock_init storage lock s = retarget_lock_init_recursive storage lock s"

definition retarget_lock_acquire :: "u32 \<Rightarrow> lock_state \<Rightarrow> lock_state option" where
  "retarget_lock_acquire lock s =
    (if lock = 0 then None
     else map_option (\<lambda>(l, reg). s\<lparr>lock_at := (lock_at s)(lock := l), BASEPRI := reg\<rparr>)
            (stm32_lock_acquire (lock_at s lock) (BASEPRI s)))"

definition retarget_lock_release :: "u32 \<Rightarrow> lock_state \<Rightarrow> lock_state option" where
  "retarget_lock_release lock s =
    (if lock = 0 then None
     else map_option (\<lambda>(l, reg). s\<lparr>lock_at := (lock_at s)(lock := l), BASEPRI := reg\<rparr>)
            (stm32_lock_release (lock_at s lock) (BASEPRI s)))"

definition retarget_lock_try_acquire :: "u32 \<Rightarrow> lock_state \<Rightarrow> (lock_state \<times> int) option" where
  "retarget_lock_try_acquire lock s = map_option (\<lambda>s. (s, 0)) (retarget_lock_acquire lock s)"

section \<open>The guards of static initialisation\<close>

definition cxa_guard_acquire :: "u32 \<Rightarrow> lock_state \<Rightarrow> (lock_state \<times> int) option" where
  "cxa_guard_acquire g s =
    (if g = 0 then None
     else if initialized (guard_at s g) = 0 then
       (case stm32_lock_acquire (guard_mutex s) (BASEPRI s) of
          None \<Rightarrow> None
        | Some (m, reg) \<Rightarrow>
            (let s = s\<lparr>guard_mutex := m, BASEPRI := reg\<rparr> in
             if initialized (guard_at s g) = 0 then
               (if acquired (guard_at s g) \<noteq> 0 then None
                else Some (s\<lparr>guard_at := (guard_at s)(g := (guard_at s g)\<lparr>acquired := 1\<rparr>)\<rparr>, 1))
             else map_option (\<lambda>(m, reg). (s\<lparr>guard_mutex := m, BASEPRI := reg\<rparr>, 0))
                    (stm32_lock_release (guard_mutex s) (BASEPRI s))))
     else Some (s, 0))"

definition cxa_guard_abort :: "u32 \<Rightarrow> lock_state \<Rightarrow> lock_state option" where
  "cxa_guard_abort g s =
    (if g = 0 then None
     else if acquired (guard_at s g) \<noteq> 0 then
       (let s = s\<lparr>guard_at := (guard_at s)(g := (guard_at s g)\<lparr>acquired := 0\<rparr>)\<rparr> in
        map_option (\<lambda>(m, reg). s\<lparr>guard_mutex := m, BASEPRI := reg\<rparr>) (stm32_lock_release (guard_mutex s) (BASEPRI s)))
     else None)"

definition cxa_guard_release :: "u32 \<Rightarrow> lock_state \<Rightarrow> lock_state option" where
  "cxa_guard_release g s =
    (if g = 0 then None
     else cxa_guard_abort g (s\<lparr>guard_at := (guard_at s)(g := (guard_at s g)\<lparr>initialized := 1\<rparr>)\<rparr>))"

section \<open>Acquiring and releasing\<close>

definition lock_wf :: "LockingData_t \<Rightarrow> bool" where
  "lock_wf l \<longleftrightarrow> length (basepri l) = 2 \<and> unat (nesting_level l) \<le> 2"

text \<open>The same lock, up to the slots above its level.\<close>

definition same_lock :: "LockingData_t \<Rightarrow> LockingData_t \<Rightarrow> bool" where
  "same_lock l m \<longleftrightarrow> nesting_level l = nesting_level m \<and> length (basepri l) = length (basepri m) \<and>
     take (unat (nesting_level m)) (basepri l) = take (unat (nesting_level m)) (basepri m)"

lemma same_lock_refl [simp]: "same_lock l l"
  by (simp add: same_lock_def)

lemma same_lock_trans: "same_lock l m \<Longrightarrow> same_lock m k \<Longrightarrow> same_lock l k"
  by (simp add: same_lock_def)

lemma same_lock_wf: "same_lock l m \<Longrightarrow> lock_wf m \<Longrightarrow> lock_wf l"
  by (simp add: same_lock_def lock_wf_def)

lemma level_less_2: "(n :: u8) \<ge> 2 \<longleftrightarrow> unat n \<ge> 2"
  by (simp add: word_le_nat_alt)

lemma acquire_full: "unat (nesting_level l) \<ge> 2 \<Longrightarrow> stm32_lock_acquire l reg = None"
  by (simp add: stm32_lock_acquire_def level_less_2)

lemma acquire_then_release:
  assumes wf: "lock_wf l" and lt: "unat (nesting_level l) < 2"
  shows "\<exists>l1. stm32_lock_acquire l reg = Some (l1, configMAX_SYSCALL_INTERRUPT_PRIORITY) \<and> lock_wf l1 \<and>
    unat (nesting_level l1) = unat (nesting_level l) + 1 \<and>
    (\<forall>l2 r. same_lock l2 l1 \<longrightarrow> (\<exists>l3. stm32_lock_release l2 r = Some (l3, reg) \<and> same_lock l3 l))"
proof -
  let ?n = "nesting_level l"
  define l1 where "l1 = l\<lparr>basepri := (basepri l)[unat ?n := reg], nesting_level := ?n + 1\<rparr>"
  have u: "unat (?n + 1) = unat ?n + 1" using lt by (subst unat_add_small) simp_all
  have a: "stm32_lock_acquire l reg = Some (l1, configMAX_SYSCALL_INTERRUPT_PRIORITY)"
    using lt by (simp add: stm32_lock_acquire_def level_less_2 l1_def)
  have "\<exists>l3. stm32_lock_release l2 r = Some (l3, reg) \<and> same_lock l3 l" if same: "same_lock l2 l1" for l2 r
  proof -
    have s: "nesting_level l2 = ?n + 1" "length (basepri l2) = 2"
      "take (unat ?n + 1) (basepri l2) = take (unat ?n + 1) ((basepri l)[unat ?n := reg])"
      using same wf u by (simp_all add: same_lock_def l1_def lock_wf_def)
    have "basepri l2 ! unat ?n = take (unat ?n + 1) (basepri l2) ! unat ?n" by simp
    also have "\<dots> = take (unat ?n + 1) ((basepri l)[unat ?n := reg]) ! unat ?n" by (simp only: s(3))
    also have "\<dots> = reg" using lt wf by (simp add: lock_wf_def)
    finally have slot: "basepri l2 ! unat ?n = reg" .
    have "take (unat ?n) (basepri l2) = take (unat ?n) (take (unat ?n + 1) (basepri l2))" by simp
    then have tk: "take (unat ?n) (basepri l2) = take (unat ?n) (basepri l)" unfolding s(3) by simp
    show ?thesis
      using lt s slot tk wf
      by (simp add: stm32_lock_release_def Let_def level_less_2 same_lock_def lock_wf_def)
  qed
  then show ?thesis using a u wf lt by (simp add: lock_wf_def l1_def)
qed

section \<open>Nested critical sections\<close>

text \<open>A program as the nesting of its critical sections.\<close>

datatype crit = Idle_crit | Then_crit crit crit | Within u32 crit

primrec run_crit :: "crit \<Rightarrow> lock_state \<Rightarrow> lock_state option" where
  "run_crit Idle_crit s = Some s"
| "run_crit (Then_crit c d) s = (case run_crit c s of None \<Rightarrow> None | Some s \<Rightarrow> run_crit d s)"
| "run_crit (Within l c) s =
     (case retarget_lock_acquire l s of
        None \<Rightarrow> None
      | Some s \<Rightarrow> (case run_crit c s of None \<Rightarrow> None | Some s \<Rightarrow> retarget_lock_release l s))"

text \<open>No lock is taken a third time while it is held twice.\<close>

primrec crit_fits :: "crit \<Rightarrow> (u32 \<Rightarrow> nat) \<Rightarrow> bool" where
  "crit_fits Idle_crit d \<longleftrightarrow> True"
| "crit_fits (Then_crit c e) d \<longleftrightarrow> crit_fits c d \<and> crit_fits e d"
| "crit_fits (Within l c) d \<longleftrightarrow> l \<noteq> 0 \<and> d l < 2 \<and> crit_fits c (d(l := d l + 1))"

abbreviation levels :: "lock_state \<Rightarrow> u32 \<Rightarrow> nat" where
  "levels s \<equiv> \<lambda>l. unat (nesting_level (lock_at s l))"

definition same_locks :: "lock_state \<Rightarrow> lock_state \<Rightarrow> bool" where
  "same_locks s t \<longleftrightarrow> BASEPRI s = BASEPRI t \<and> (\<forall>l. same_lock (lock_at s l) (lock_at t l))"

lemma same_locks_levels: "same_locks s t \<Longrightarrow> levels s = levels t"
  by (simp add: same_locks_def same_lock_def)

lemma run_crit_fits:
  assumes "\<And>l. lock_wf (lock_at s l)"
  shows "if crit_fits c (levels s) then \<exists>s'. run_crit c s = Some s' \<and> same_locks s' s else run_crit c s = None"
  using assms
proof (induction c arbitrary: s)
  case Idle_crit
  then show ?case by (simp add: same_locks_def)
next
  case (Then_crit c e)
  show ?case
  proof (cases "crit_fits c (levels s)")
    case True
    then obtain s1 where s1: "run_crit c s = Some s1" "same_locks s1 s" using Then_crit.IH(1) [OF Then_crit.prems] by auto
    have wf: "lock_wf (lock_at s1 l)" for l
      using s1(2) same_lock_wf Then_crit.prems unfolding same_locks_def by blast
    have tr: "same_locks t s" if "same_locks t s1" for t
      using that s1(2) same_lock_trans unfolding same_locks_def by metis
    show ?thesis
      using Then_crit.IH(2) [OF wf] s1 tr True same_locks_levels [OF s1(2)] by (auto split: if_splits)
  next
    case False
    then show ?thesis using Then_crit.IH(1) [OF Then_crit.prems] by simp
  qed
next
  case (Within l c)
  show ?case
  proof (cases "l \<noteq> 0 \<and> levels s l < 2")
    case True
    obtain l1 where l1: "stm32_lock_acquire (lock_at s l) (BASEPRI s) = Some (l1, configMAX_SYSCALL_INTERRUPT_PRIORITY)"
      "lock_wf l1" "unat (nesting_level l1) = levels s l + 1"
      and unwind: "\<And>l2 r. same_lock l2 l1 \<Longrightarrow>
        \<exists>l3. stm32_lock_release l2 r = Some (l3, BASEPRI s) \<and> same_lock l3 (lock_at s l)"
      using acquire_then_release [OF Within.prems, of l "BASEPRI s"] True by blast
    define s1 where "s1 = s\<lparr>lock_at := (lock_at s)(l := l1), BASEPRI := configMAX_SYSCALL_INTERRUPT_PRIORITY\<rparr>"
    have a: "retarget_lock_acquire l s = Some s1"
      using True l1(1) by (simp add: retarget_lock_acquire_def s1_def)
    have wf: "lock_wf (lock_at s1 k)" for k using Within.prems l1(2) by (simp add: s1_def)
    have lv: "levels s1 = (levels s)(l := levels s l + 1)" using l1(3) by (auto simp: s1_def)
    show ?thesis
    proof (cases "crit_fits c (levels s1)")
      case fits: True
      then obtain s2 where s2: "run_crit c s1 = Some s2" "same_locks s2 s1" using Within.IH [OF wf] by auto
      have "same_lock (lock_at s2 l) (lock_at s1 l)" using s2(2) by (simp add: same_locks_def)
      then have "same_lock (lock_at s2 l) l1" by (simp add: s1_def)
      then obtain l3 where l3: "stm32_lock_release (lock_at s2 l) (BASEPRI s2) = Some (l3, BASEPRI s)"
        "same_lock l3 (lock_at s l)" using unwind by blast
      have "same_lock (lock_at s2 k) (lock_at s k)" if "k \<noteq> l" for k
      proof -
        have "same_lock (lock_at s2 k) (lock_at s1 k)" using s2(2) by (simp add: same_locks_def)
        then show ?thesis using that by (simp add: s1_def)
      qed
      then have "same_locks (s2\<lparr>lock_at := (lock_at s2)(l := l3), BASEPRI := BASEPRI s\<rparr>) s"
        using l3(2) by (simp add: same_locks_def)
      then show ?thesis using a s2(1) l3(1) True fits lv by (simp add: retarget_lock_release_def)
    next
      case False
      then show ?thesis using Within.IH [OF wf] a lv by (simp add: True)
    qed
  next
    case False
    then show ?thesis by (auto simp: retarget_lock_acquire_def acquire_full)
  qed
qed

section \<open>Static initialisation\<close>

text \<open>An access to a static object, whose construction may access others.\<close>

datatype static = No_access | Then_access static static | Access u32 static

text \<open>The state after the accesses and the guards of the objects constructed, in order.\<close>

primrec run_static :: "static \<Rightarrow> lock_state \<Rightarrow> (lock_state \<times> u32 list) option" where
  "run_static No_access s = Some (s, [])"
| "run_static (Then_access c d) s =
     (case run_static c s of
        None \<Rightarrow> None
      | Some (s, xs) \<Rightarrow> map_option (\<lambda>(s, ys). (s, xs @ ys)) (run_static d s))"
| "run_static (Access g c) s =
     (case cxa_guard_acquire g s of
        None \<Rightarrow> None
      | Some (s, r) \<Rightarrow>
          if r = 0 then Some (s, [])
          else (case run_static c s of
                  None \<Rightarrow> None
                | Some (s, xs) \<Rightarrow> map_option (\<lambda>s. (s, xs @ [g])) (cxa_guard_release g s)))"

text \<open>Two levels of construction at most, and no object needed by its own construction.\<close>

primrec static_fits :: "static \<Rightarrow> u32 set \<Rightarrow> bool" where
  "static_fits No_access G \<longleftrightarrow> True"
| "static_fits (Then_access c d) G \<longleftrightarrow> static_fits c G \<and> static_fits d G"
| "static_fits (Access g c) G \<longleftrightarrow> g \<noteq> 0 \<and> g \<notin> G \<and> card G < 2 \<and> static_fits c (insert g G)"

primrec guards_of :: "static \<Rightarrow> u32 set" where
  "guards_of No_access = {}"
| "guards_of (Then_access c d) = guards_of c \<union> guards_of d"
| "guards_of (Access g c) = {g}"

definition inited :: "lock_state \<Rightarrow> u32 set" where
  "inited s = {g. initialized (guard_at s g) \<noteq> 0}"

definition static_inv :: "u32 set \<Rightarrow> lock_state \<Rightarrow> bool" where
  "static_inv G s \<longleftrightarrow> finite G \<and> lock_wf (guard_mutex s) \<and> unat (nesting_level (guard_mutex s)) = card G \<and>
     {g. acquired (guard_at s g) \<noteq> 0} = G \<and> G \<inter> inited s = {}"

lemma run_static_once:
  assumes "static_inv G s" and "static_fits c G"
  shows "\<exists>s' xs. run_static c s = Some (s', xs) \<and> static_inv G s' \<and> distinct xs \<and> set xs \<inter> inited s = {} \<and>
    inited s' = inited s \<union> set xs \<and> guards_of c \<subseteq> inited s' \<and> BASEPRI s' = BASEPRI s \<and>
    same_lock (guard_mutex s') (guard_mutex s)"
  using assms
proof (induction c arbitrary: s G)
  case No_access
  then show ?case by simp
next
  case (Then_access c d)
  obtain s1 xs where 1: "run_static c s = Some (s1, xs)" "static_inv G s1" "distinct xs" "set xs \<inter> inited s = {}"
    "inited s1 = inited s \<union> set xs" "guards_of c \<subseteq> inited s1" "BASEPRI s1 = BASEPRI s"
    "same_lock (guard_mutex s1) (guard_mutex s)"
    using Then_access.IH(1) [OF Then_access.prems(1)] Then_access.prems(2) by auto
  obtain s2 ys where 2: "run_static d s1 = Some (s2, ys)" "static_inv G s2" "distinct ys" "set ys \<inter> inited s1 = {}"
    "inited s2 = inited s1 \<union> set ys" "guards_of d \<subseteq> inited s2" "BASEPRI s2 = BASEPRI s1"
    "same_lock (guard_mutex s2) (guard_mutex s1)"
    using Then_access.IH(2) [OF 1(2)] Then_access.prems(2) by auto
  show ?case using 1 2 same_lock_trans [OF 2(8) 1(8)] by auto
next
  case (Access g c)
  note inv = Access.prems(1) [unfolded static_inv_def]
  have f: "g \<noteq> 0" "g \<notin> G" "card G < 2" "static_fits c (insert g G)" using Access.prems(2) by auto
  have acq: "acquired (guard_at s g) = 0" using inv f(2) by auto
  show ?case
  proof (cases "initialized (guard_at s g) = 0")
    case True
    obtain l1 where l1: "stm32_lock_acquire (guard_mutex s) (BASEPRI s) = Some (l1, configMAX_SYSCALL_INTERRUPT_PRIORITY)"
      "lock_wf l1" "unat (nesting_level l1) = card G + 1"
      and unwind: "\<And>l2 r. same_lock l2 l1 \<Longrightarrow>
        \<exists>l3. stm32_lock_release l2 r = Some (l3, BASEPRI s) \<and> same_lock l3 (guard_mutex s)"
      using acquire_then_release [of "guard_mutex s" "BASEPRI s"] inv f(3) by auto
    define s1 where "s1 = s\<lparr>guard_mutex := l1, BASEPRI := configMAX_SYSCALL_INTERRUPT_PRIORITY,
        guard_at := (guard_at s)(g := (guard_at s g)\<lparr>acquired := 1\<rparr>)\<rparr>"
    have a: "cxa_guard_acquire g s = Some (s1, 1)"
      using f(1) True acq l1(1) by (simp add: cxa_guard_acquire_def s1_def Let_def)
    have i1: "inited s1 = inited s" by (auto simp: inited_def s1_def)
    have "{x. acquired (guard_at s1 x) \<noteq> 0} = insert g G" using inv by (auto simp: s1_def)
    moreover have "insert g G \<inter> inited s = {}" using inv True by (auto simp: inited_def)
    moreover have "guard_mutex s1 = l1" by (simp add: s1_def)
    ultimately have "static_inv (insert g G) s1"
      using inv f(2) l1(2,3) i1 by (simp add: static_inv_def)
    then obtain s2 xs where 2: "run_static c s1 = Some (s2, xs)" "static_inv (insert g G) s2" "distinct xs"
      "set xs \<inter> inited s = {}" "inited s2 = inited s \<union> set xs" "same_lock (guard_mutex s2) l1"
      using Access.IH [OF _ f(4), of s1] i1 by (auto simp: s1_def)
    obtain l3 where l3: "stm32_lock_release (guard_mutex s2) (BASEPRI s2) = Some (l3, BASEPRI s)"
      "same_lock l3 (guard_mutex s)" using unwind [OF 2(6)] by blast
    have g2: "acquired (guard_at s2 g) \<noteq> 0" "initialized (guard_at s2 g) = 0"
      using 2(2) by (auto simp: static_inv_def inited_def)
    define s3 where "s3 = s2\<lparr>guard_mutex := l3, BASEPRI := BASEPRI s,
        guard_at := (guard_at s2)(g := (guard_at s2 g)\<lparr>initialized := 1, acquired := 0\<rparr>)\<rparr>"
    have r: "cxa_guard_release g s2 = Some s3"
      using f(1) g2 l3(1) by (simp add: cxa_guard_release_def cxa_guard_abort_def s3_def Let_def)
    have i3: "inited s3 = insert g (inited s2)" by (auto simp: inited_def s3_def)
    have gx: "g \<notin> set xs" using 2(2,5) by (auto simp: static_inv_def)
    have "{x. acquired (guard_at s3 x) \<noteq> 0} = G"
      using 2(2) f(2) by (auto simp: static_inv_def s3_def)
    moreover have "G \<inter> inited s3 = {}" using 2(2) i3 f(2) by (auto simp: static_inv_def)
    moreover have "lock_wf l3" "unat (nesting_level l3) = card G"
      using same_lock_wf [OF l3(2)] l3(2) inv by (simp_all add: same_lock_def)
    moreover have "guard_mutex s3 = l3" by (simp add: s3_def)
    ultimately have "static_inv G s3" using inv by (simp add: static_inv_def)
    moreover have "BASEPRI s3 = BASEPRI s" by (simp add: s3_def)
    ultimately show ?thesis
      using a 2(1,3-5) r gx i3 l3(2) True \<open>guard_mutex s3 = l3\<close> by (simp add: inited_def) auto
  next
    case False
    then have "cxa_guard_acquire g s = Some (s, 0)" using f(1) by (simp add: cxa_guard_acquire_def)
    then show ?thesis using False Access.prems(1) by (simp add: inited_def)
  qed
qed

section \<open>The correctness of the locks\<close>

definition LOCKING_DATA_INIT :: LockingData_t where
  "LOCKING_DATA_INIT = \<lparr>basepri = [0, 0], nesting_level = 0\<rparr>"

definition lock_reset :: lock_state where
  "lock_reset = \<lparr>BASEPRI = 0, lock_at = (\<lambda>_. LOCKING_DATA_INIT), guard_mutex = LOCKING_DATA_INIT,
     guard_at = (\<lambda>_. \<lparr>initialized = 0, acquired = 0\<rparr>), lock_errno = None\<rparr>"

lemma lock_reset_wf: "lock_wf LOCKING_DATA_INIT" "static_inv {} lock_reset" "inited lock_reset = {}"
  by (simp_all add: lock_wf_def LOCKING_DATA_INIT_def static_inv_def lock_reset_def inited_def)

text \<open>
  nested critical sections on the library's locks. When no lock is taken more than twice at a time the
  program runs to its end and leaves the interrupt mask and every lock as they were; otherwise it stops
  the system at the third acquisition.
\<close>
theorem critical_sections_restore:
  assumes "\<And>l. lock_wf (lock_at s l)"
  shows "if crit_fits c (levels s) then \<exists>s'. run_crit c s = Some s' \<and> same_locks s' s else run_crit c s = None"
  by (rule run_crit_fits [OF assms])

theorem critical_sections_restore_witness:
  "\<exists>s'. run_crit (Within 4 (Then_crit (Within 4 Idle_crit) (Within 8 Idle_crit))) lock_reset = Some s' \<and> same_locks s' lock_reset"
proof -
  have "lock_wf (lock_at lock_reset l)" for l using lock_reset_wf(1) by (simp add: lock_reset_def)
  moreover have "levels lock_reset = (\<lambda>_. 0)" by (simp add: lock_reset_def LOCKING_DATA_INIT_def)
  moreover have "crit_fits (Within 4 (Then_crit (Within 4 Idle_crit) (Within 8 Idle_crit))) (\<lambda>_. 0)" by simp
  ultimately show ?thesis
    using critical_sections_restore [of lock_reset "Within 4 (Then_crit (Within 4 Idle_crit) (Within 8 Idle_crit))"]
    by metis
qed

text \<open>
  static initialisation. When constructions nest no deeper than the two levels of the guard mutex and none needs
  its own object, every access returns with the object constructed, each constructor runs at most once,
  never for an object constructed before, and the interrupt mask and the mutex are given back as they were.
\<close>
theorem static_initialised_once:
  assumes "static_inv G s" and "static_fits c G"
  shows "\<exists>s' xs. run_static c s = Some (s', xs) \<and> static_inv G s' \<and> distinct xs \<and> set xs \<inter> inited s = {} \<and>
    inited s' = inited s \<union> set xs \<and> guards_of c \<subseteq> inited s' \<and> BASEPRI s' = BASEPRI s \<and>
    same_lock (guard_mutex s') (guard_mutex s)"
  by (rule run_static_once [OF assms])

theorem static_initialised_once_witness:
  "\<exists>s' xs. run_static (Then_access (Access 4 (Access 8 No_access)) (Access 8 No_access)) lock_reset = Some (s', xs) \<and>
     distinct xs \<and> {4, 8} \<subseteq> inited s'"
proof -
  have "static_fits (Then_access (Access 4 (Access 8 No_access)) (Access 8 No_access)) {}" by simp
  from static_initialised_once [OF lock_reset_wf(2) this] show ?thesis by auto
qed

text \<open>A third level of construction finds the guard mutex full.\<close>

lemma static_three_levels:
  "run_static (Access 4 (Access 8 (Access 12 No_access))) lock_reset = None"
  by (simp add: cxa_guard_acquire_def stm32_lock_acquire_def lock_reset_def LOCKING_DATA_INIT_def Let_def)

end
