(* ===== verification/Lib_Console.thy ===== *)
theory Lib_Console
  imports Prelude_Base
begin

text \<open>
  Standard input over the serial line and the break of the C library's heap (\<^verbatim>\<open>lib/stdin_uart.c\<close>,
  \<^verbatim>\<open>lib/syscalls.c\<close>, \<^verbatim>\<open>lib/sysmem.c\<close>). Received bytes go through a ring of 64 whose write index belongs to
  the interrupt handler and whose read index belongs to the reader; the two are shown to work together
  whatever the interleaving of the handler with the statements of the reader.
\<close>

section \<open>The ring\<close>

text \<open>\<open>armed\<close> is the slot the next byte is received into, given to the driver of the serial line.\<close>

record uart =
  UartBuffer :: "u8 list"
  UartBufferReadIdx :: u32
  UartBufferWriteIdx :: u32
  armed :: u32

definition InitializeStdinWithUart :: "uart \<Rightarrow> uart" where
  "InitializeStdinWithUart u =
     u\<lparr>UartBuffer := map (\<lambda>_. 0) (UartBuffer u), UartBufferWriteIdx := 0, UartBufferReadIdx := 0, armed := 0\<rparr>"

definition ReinitializeStdinWithUart :: "uart \<Rightarrow> uart" where
  "ReinitializeStdinWithUart u =
     u\<lparr>UartBuffer := map (\<lambda>_. 0) (UartBuffer u), UartBufferWriteIdx := 0, UartBufferReadIdx := 0, armed := 0\<rparr>"

definition HAL_UART_RxCpltCallback :: "uart \<Rightarrow> uart" where
  "HAL_UART_RxCpltCallback u =
    (let w = (UartBufferWriteIdx u + 1) AND 0x3F in u\<lparr>UartBufferWriteIdx := w, armed := w\<rparr>)"

text \<open>The driver puts the byte into the armed slot and calls the callback.\<close>

definition uart_receive :: "u8 \<Rightarrow> uart \<Rightarrow> uart" where
  "uart_receive c u = HAL_UART_RxCpltCallback (u\<lparr>UartBuffer := (UartBuffer u)[unat (armed u) := c]\<rparr>)"

definition CharFromUartBuffer :: "uart \<Rightarrow> uart \<times> u8" where
  "CharFromUartBuffer u =
    (if UartBufferWriteIdx u \<noteq> UartBufferReadIdx u
     then (u\<lparr>UartBufferReadIdx := (UartBufferReadIdx u + 1) AND 0x3F\<rparr>,
           UartBuffer u ! unat (UartBufferReadIdx u))
     else (u, 0))"

definition io_getchar :: "uart \<Rightarrow> uart \<times> u8" where
  "io_getchar u = CharFromUartBuffer u"

text \<open>\<^verbatim>\<open>_read\<close>: as many characters as asked for, zeros when there are none.\<close>

primrec read_chars :: "nat \<Rightarrow> uart \<Rightarrow> uart \<times> u8 list" where
  "read_chars 0 u = (u, [])"
| "read_chars (Suc n) u =
    (let (u, c) = io_getchar u; (u, cs) = read_chars n u in (u, c # cs))"

definition sys_read :: "int \<Rightarrow> uart \<Rightarrow> uart \<times> u8 list \<times> int" where
  "sys_read Length u = (let (u, cs) = read_chars (nat Length) u in (u, cs, Length))"

section \<open>What the ring holds\<close>

definition uart_ok :: "uart \<Rightarrow> bool" where
  "uart_ok u \<longleftrightarrow> length (UartBuffer u) = 64 \<and> unat (UartBufferReadIdx u) < 64 \<and> unat (UartBufferWriteIdx u) < 64 \<and>
     armed u = UartBufferWriteIdx u"

definition unread :: "uart \<Rightarrow> nat" where
  "unread u = (unat (UartBufferWriteIdx u) + 64 - unat (UartBufferReadIdx u)) mod 64"

definition uart_contents :: "uart \<Rightarrow> u8 list" where
  "uart_contents u = map (\<lambda>k. UartBuffer u ! ((unat (UartBufferReadIdx u) + k) mod 64)) [0..<unread u]"

lemma and_3F: "unat ((x :: u32) AND 0x3F) = unat x mod 64"
proof -
  have "x AND 0x3F = take_bit 6 x"
    by (rule word_eq_bitsI) (simp add: bit_positions bit_simps)
  moreover have "unat (take_bit 6 x) = unat x mod 64" unfolding unsigned_take_bit_eq by (simp add: take_bit_eq_mod)
  ultimately show ?thesis by simp
qed

lemma next_index: "unat (x :: u32) < 64 \<Longrightarrow> unat ((x + 1) AND 0x3F) = (unat x + 1) mod 64"
proof -
  assume "unat x < 64"
  then have "unat (x + 1) = unat x + 1" by (subst unat_add_small) simp_all
  then show ?thesis by (simp add: and_3F)
qed

lemma ring_mod:
  fixes w r :: nat
  assumes "w < 64" "r < 64"
  shows "(w + 64 - r) mod 64 = (if r \<le> w then w - r else w + 64 - r)"
    and "(w + 1) mod 64 = (if w = 63 then 0 else w + 1)"
    and "(w + r) mod 64 = (if w + r < 64 then w + r else w + r - 64)"
proof -
  show "(w + 64 - r) mod 64 = (if r \<le> w then w - r else w + 64 - r)"
  proof (cases "r \<le> w")
    case True
    then have "w + 64 - r = (w - r) + 64" by simp
    then have "(w + 64 - r) mod 64 = (w - r) mod 64" by (simp only: mod_add_self2)
    then show ?thesis using True assms by simp
  qed (use assms in simp)
  show "(w + 1) mod 64 = (if w = 63 then 0 else w + 1)" using assms by simp
  show "(w + r) mod 64 = (if w + r < 64 then w + r else w + r - 64)"
    using assms by (simp add: mod_if)
qed

lemma unread_step:
  fixes w r :: nat
  assumes "w < 64" "r < 64"
  shows "((w + 1) mod 64 + 64 - r) mod 64 = (if (w + 64 - r) mod 64 < 63 then (w + 64 - r) mod 64 + 1 else 0)"
    and "w \<noteq> r \<Longrightarrow> (w + 64 - r) mod 64 = (w + 64 - (r + 1) mod 64) mod 64 + 1"
    and "(w + 64 - r) mod 64 = 0 \<longleftrightarrow> w = r"
proof -
  have m: "(w + 1) mod 64 < 64" "(r + 1) mod 64 < 64" by simp_all
  show "((w + 1) mod 64 + 64 - r) mod 64 = (if (w + 64 - r) mod 64 < 63 then (w + 64 - r) mod 64 + 1 else 0)"
    using assms unfolding ring_mod(1) [OF m(1) assms(2)] ring_mod(1) [OF assms] unfolding ring_mod(2) [OF assms]
    by (auto split: if_splits)
  show "w \<noteq> r \<Longrightarrow> (w + 64 - r) mod 64 = (w + 64 - (r + 1) mod 64) mod 64 + 1"
    using assms unfolding ring_mod(1) [OF assms(1) m(2)] ring_mod(1) [OF assms] unfolding ring_mod(2) [OF assms(2,1)]
    by (auto split: if_splits)
  show "(w + 64 - r) mod 64 = 0 \<longleftrightarrow> w = r"
    using assms unfolding ring_mod(1) [OF assms] by (auto split: if_splits)
qed

lemma uart_receive_contents:
  assumes "uart_ok u"
  shows "uart_ok (uart_receive c u)"
    and "uart_contents (uart_receive c u) = (if length (uart_contents u) < 63 then uart_contents u @ [c] else [])"
proof -
  let ?w = "unat (UartBufferWriteIdx u)" and ?r = "unat (UartBufferReadIdx u)"
  have o: "length (UartBuffer u) = 64" "?r < 64" "?w < 64" "armed u = UartBufferWriteIdx u"
    using assms by (simp_all add: uart_ok_def)
  have f: "UartBuffer (uart_receive c u) = (UartBuffer u)[?w := c]"
    "UartBufferReadIdx (uart_receive c u) = UartBufferReadIdx u"
    "unat (UartBufferWriteIdx (uart_receive c u)) = (?w + 1) mod 64"
    "armed (uart_receive c u) = UartBufferWriteIdx (uart_receive c u)"
    using o next_index [of "UartBufferWriteIdx u"]
    by (simp_all add: uart_receive_def HAL_UART_RxCpltCallback_def Let_def)
  show "uart_ok (uart_receive c u)" using o f by (simp add: uart_ok_def)
  have un: "unread (uart_receive c u) = (if unread u < 63 then unread u + 1 else 0)"
    using unread_step(1) [OF o(3,2)] by (simp add: unread_def f(2,3))
  show "uart_contents (uart_receive c u) = (if length (uart_contents u) < 63 then uart_contents u @ [c] else [])"
  proof (cases "unread u < 63")
    case True
    have u64: "unread u < 64" by (simp add: unread_def)
    have last: "(?r + unread u) mod 64 = ?w"
      using o(2,3) unfolding ring_mod(3) [OF o(2) u64] unfolding unread_def ring_mod(1) [OF o(3,2)]
      by (auto split: if_splits)
    have "(?r + k) mod 64 \<noteq> ?w" if "k < unread u" for k
    proof -
      have k: "k < 64" using that u64 by simp
      show ?thesis using that o(2,3)
        unfolding ring_mod(3) [OF o(2) k] unfolding unread_def ring_mod(1) [OF o(3,2)]
        by (auto split: if_splits)
    qed
    then have "(UartBuffer u)[?w := c] ! ((?r + k) mod 64) = UartBuffer u ! ((?r + k) mod 64)" if "k < unread u" for k
      using that by (metis nth_list_update_neq)
    then show ?thesis using True un last o by (simp add: uart_contents_def f(1,2))
  next
    case False
    then show ?thesis using un by (simp add: uart_contents_def)
  qed
qed

lemma CharFromUartBuffer_contents:
  assumes "uart_ok u"
  shows "uart_ok (fst (CharFromUartBuffer u))"
    and "case uart_contents u of
        [] \<Rightarrow> CharFromUartBuffer u = (u, 0)
      | c # cs \<Rightarrow> snd (CharFromUartBuffer u) = c \<and> uart_contents (fst (CharFromUartBuffer u)) = cs"
proof -
  let ?w = "unat (UartBufferWriteIdx u)" and ?r = "unat (UartBufferReadIdx u)"
  have o: "length (UartBuffer u) = 64" "?r < 64" "?w < 64" "armed u = UartBufferWriteIdx u"
    using assms by (simp_all add: uart_ok_def)
  have ne: "UartBufferWriteIdx u \<noteq> UartBufferReadIdx u \<longleftrightarrow> ?w \<noteq> ?r" by (simp add: word_unat_eq_iff)
  have r: "unat ((UartBufferReadIdx u + 1) AND 0x3F) = (?r + 1) mod 64" using o(2) by (rule next_index)
  show "uart_ok (fst (CharFromUartBuffer u))" using o r by (simp add: uart_ok_def CharFromUartBuffer_def)
  show "case uart_contents u of
        [] \<Rightarrow> CharFromUartBuffer u = (u, 0)
      | c # cs \<Rightarrow> snd (CharFromUartBuffer u) = c \<and> uart_contents (fst (CharFromUartBuffer u)) = cs"
  proof (cases "?w = ?r")
    case True
    then show ?thesis using unread_step(3) [OF o(3,2)] ne
      by (simp add: uart_contents_def unread_def CharFromUartBuffer_def)
  next
    case False
    let ?u = "fst (CharFromUartBuffer u)"
    have f: "UartBuffer ?u = UartBuffer u" "unat (UartBufferReadIdx ?u) = (?r + 1) mod 64"
      "UartBufferWriteIdx ?u = UartBufferWriteIdx u" "snd (CharFromUartBuffer u) = UartBuffer u ! ?r"
      using False ne r by (simp_all add: CharFromUartBuffer_def)
    have un: "unread u = Suc (unread ?u)"
      using unread_step(2) [OF o(3,2) False] by (simp add: unread_def f(2,3))
    have "uart_contents u = UartBuffer u ! ?r # uart_contents ?u"
      unfolding uart_contents_def un upt_conv_Cons [OF zero_less_Suc] map_Suc_upt [symmetric] list.map map_map
      using o by (simp add: f(1,2) mod_simps comp_def)
    then show ?thesis using f(4) by simp
  qed
qed

section \<open>The handler between the statements of the reader\<close>

text \<open>
  \<^verbatim>\<open>CharFromUartBuffer\<close> statement by statement: the test, the load, the increment and the wrap of the
  read index. The reader is at one of its program points, with the character in \<open>ch\<close>.
\<close>

datatype reader = AtTest | AtLoad | AtIncrement u8 | AtWrap u8 | AtReturn u8

text \<open>\<open>received\<close> and \<open>delivered\<close> record the characters that came in and those the reader returned.\<close>

record uart_run =
  dev :: uart
  rd :: reader
  received :: "u8 list"
  delivered :: "u8 list"

definition uart_room :: "uart_run \<Rightarrow> bool" where
  "uart_room s \<longleftrightarrow>
     unread (case rd s of AtWrap _ \<Rightarrow> (dev s)\<lparr>UartBufferReadIdx := UartBufferReadIdx (dev s) AND 0x3F\<rparr> | _ \<Rightarrow> dev s) < 63"

inductive uart_step :: "uart_run \<Rightarrow> uart_run \<Rightarrow> bool" where
  irq: "uart_room s \<Longrightarrow> uart_step s (s\<lparr>dev := uart_receive c (dev s), received := received s @ [c]\<rparr>)"
| test_some: "rd s = AtTest \<Longrightarrow> UartBufferWriteIdx (dev s) \<noteq> UartBufferReadIdx (dev s) \<Longrightarrow>
    uart_step s (s\<lparr>rd := AtLoad\<rparr>)"
| test_none: "rd s = AtTest \<Longrightarrow> UartBufferWriteIdx (dev s) = UartBufferReadIdx (dev s) \<Longrightarrow> uart_step s s"
| load: "rd s = AtLoad \<Longrightarrow>
    uart_step s (s\<lparr>rd := AtIncrement (UartBuffer (dev s) ! unat (UartBufferReadIdx (dev s)))\<rparr>)"
| incr: "rd s = AtIncrement ch \<Longrightarrow>
    uart_step s (s\<lparr>rd := AtWrap ch, dev := (dev s)\<lparr>UartBufferReadIdx := UartBufferReadIdx (dev s) + 1\<rparr>\<rparr>)"
| wrap: "rd s = AtWrap ch \<Longrightarrow>
    uart_step s (s\<lparr>rd := AtReturn ch, dev := (dev s)\<lparr>UartBufferReadIdx := UartBufferReadIdx (dev s) AND 0x3F\<rparr>\<rparr>)"
| ret: "rd s = AtReturn ch \<Longrightarrow> uart_step s (s\<lparr>rd := AtTest, delivered := delivered s @ [ch]\<rparr>)"

inductive uart_reachable :: "uart_run \<Rightarrow> uart_run \<Rightarrow> bool" for s0 where
  start: "uart_reachable s0 s0"
| step: "uart_reachable s0 s \<Longrightarrow> uart_step s t \<Longrightarrow> uart_reachable s0 t"

inductive_cases uart_stepE: "uart_step s t"

text \<open>The state as the reader leaves it when it goes on from where it is.\<close>

definition settled :: "uart_run \<Rightarrow> uart" where
  "settled s =
    (case rd s of
       AtIncrement _ \<Rightarrow> (dev s)\<lparr>UartBufferReadIdx := (UartBufferReadIdx (dev s) + 1) AND 0x3F\<rparr>
     | AtWrap _ \<Rightarrow> (dev s)\<lparr>UartBufferReadIdx := UartBufferReadIdx (dev s) AND 0x3F\<rparr>
     | _ \<Rightarrow> dev s)"

definition in_hand :: "uart_run \<Rightarrow> u8 list" where
  "in_hand s = (case rd s of AtIncrement ch \<Rightarrow> [ch] | AtWrap ch \<Rightarrow> [ch] | AtReturn ch \<Rightarrow> [ch] | _ \<Rightarrow> [])"

definition uart_inv :: "uart_run \<Rightarrow> bool" where
  "uart_inv s \<longleftrightarrow> uart_ok (settled s) \<and> received s = delivered s @ in_hand s @ uart_contents (settled s) \<and>
     (case rd s of
        AtLoad \<Rightarrow> uart_contents (dev s) \<noteq> []
      | AtIncrement ch \<Rightarrow> uart_ok (dev s) \<and> uart_contents (dev s) = ch # uart_contents (settled s)
      | _ \<Rightarrow> True)"

lemma uart_contents_nonempty: "uart_ok u \<Longrightarrow> uart_contents u \<noteq> [] \<longleftrightarrow> UartBufferWriteIdx u \<noteq> UartBufferReadIdx u"
  using unread_step(3) [of "unat (UartBufferWriteIdx u)" "unat (UartBufferReadIdx u)"]
  by (simp add: uart_contents_def unread_def uart_ok_def word_unat_eq_iff)

text \<open>The handler does not look at the read index.\<close>

lemma uart_receive_read_idx:
  "uart_receive c (u\<lparr>UartBufferReadIdx := r\<rparr>) = (uart_receive c u)\<lparr>UartBufferReadIdx := r\<rparr>"
  "UartBufferReadIdx (uart_receive c u) = UartBufferReadIdx u"
  by (simp_all add: uart_receive_def HAL_UART_RxCpltCallback_def Let_def)

lemma settled_irq: "settled (s\<lparr>dev := uart_receive c (dev s), received := xs\<rparr>) = uart_receive c (settled s)"
  by (simp add: settled_def uart_receive_read_idx split: reader.splits)

lemma contents_room: "uart_ok u \<Longrightarrow> length (uart_contents u) = unread u"
  by (simp add: uart_contents_def)

lemma uart_load_settles:
  assumes "uart_ok u" "uart_contents u \<noteq> []"
  shows "uart_contents u = UartBuffer u ! unat (UartBufferReadIdx u) #
      uart_contents (u\<lparr>UartBufferReadIdx := (UartBufferReadIdx u + 1) AND 0x3F\<rparr>)"
    and "uart_ok (u\<lparr>UartBufferReadIdx := (UartBufferReadIdx u + 1) AND 0x3F\<rparr>)"
  using CharFromUartBuffer_contents [OF assms(1)] uart_contents_nonempty [OF assms(1)] assms(2)
  by (auto simp: CharFromUartBuffer_def split: list.splits)

lemma uart_step_inv:
  assumes "uart_step s t" and "uart_inv s"
  shows "uart_inv t"
  using assms
proof (cases rule: uart_step.cases)
  case (irq c)
  have ok: "uart_ok (settled s)" using assms(2) by (simp add: uart_inv_def)
  note rc = uart_receive_contents [OF ok, of c]
  have room: "length (uart_contents (settled s)) < 63"
  proof (cases "rd s")
    case (AtIncrement ch)
    then have "length (uart_contents (dev s)) = Suc (length (uart_contents (settled s)))" "uart_ok (dev s)"
      using assms(2) by (simp_all add: uart_inv_def)
    then show ?thesis using irq(2) contents_room AtIncrement by (simp add: uart_room_def)
  qed (use irq(2) contents_room [OF ok] in \<open>simp_all add: uart_room_def settled_def\<close>)
  then have c: "uart_contents (uart_receive c (settled s)) = uart_contents (settled s) @ [c]" using rc(2) by simp
  have st: "settled t = uart_receive c (settled s)" unfolding irq(1) by (rule settled_irq)
  have "in_hand t = in_hand s" by (simp add: irq(1) in_hand_def)
  moreover have "case rd t of AtLoad \<Rightarrow> uart_contents (dev t) \<noteq> []
      | AtIncrement ch \<Rightarrow> uart_ok (dev t) \<and> uart_contents (dev t) = ch # uart_contents (settled t) | _ \<Rightarrow> True"
  proof (cases "rd s")
    case AtLoad
    then show ?thesis using c by (simp add: irq(1) settled_def)
  next
    case (AtIncrement ch)
    then have d: "uart_ok (dev s)" "uart_contents (dev s) = ch # uart_contents (settled s)"
      using assms(2) by (simp_all add: uart_inv_def)
    have "length (uart_contents (dev s)) < 63"
      using irq(2) contents_room [OF d(1)] AtIncrement by (simp add: uart_room_def)
    then have "uart_contents (uart_receive c (dev s)) = ch # uart_contents (settled t)"
      using uart_receive_contents(2) [OF d(1), of c] d(2) c st by simp
    then show ?thesis using AtIncrement uart_receive_contents(1) [OF d(1)] by (simp add: irq(1))
  qed (simp_all add: irq(1))
  ultimately show ?thesis using assms(2) rc(1) c st by (simp add: uart_inv_def) (simp add: irq(1))
next
  case test_some
  then show ?thesis using assms(2) uart_contents_nonempty by (simp add: uart_inv_def settled_def in_hand_def)
next
  case test_none
  then show ?thesis using assms(2) by simp
next
  case load
  have ok: "uart_ok (dev s)" "uart_contents (dev s) \<noteq> []" using assms(2) load(2) by (simp_all add: uart_inv_def settled_def)
  then show ?thesis using assms(2) load uart_load_settles [OF ok]
    by (simp add: uart_inv_def settled_def in_hand_def)
next
  case (incr ch)
  then show ?thesis using assms(2) by (simp add: uart_inv_def settled_def in_hand_def)
next
  case (wrap ch)
  then show ?thesis using assms(2) by (simp add: uart_inv_def settled_def in_hand_def)
next
  case (ret ch)
  then show ?thesis using assms(2) by (simp add: uart_inv_def settled_def in_hand_def)
qed

section \<open>The break\<close>

record sbrk =
  heap_end :: u32
  sys_errno_ENOMEM :: bool

text \<open>\<open>ends\<close>, \<open>estack\<close> and \<open>min_stack\<close> are the addresses of the linker's symbols.\<close>

definition sys_sbrk :: "u32 \<Rightarrow> u32 \<Rightarrow> u32 \<Rightarrow> u32 \<Rightarrow> sbrk \<Rightarrow> sbrk \<times> u32" where
  "sys_sbrk ends estack min_stack Increment s =
    (let max_heap = estack - min_stack;
         s = (if heap_end s = 0 then s\<lparr>heap_end := ends\<rparr> else s)
     in if heap_end s + Increment > max_heap then (s\<lparr>sys_errno_ENOMEM := True\<rparr>, - 1)
        else (s\<lparr>heap_end := heap_end s + Increment\<rparr>, heap_end s))"

text \<open>The regions handed out by a sequence of requests: start and size.\<close>

primrec sbrk_run :: "u32 \<Rightarrow> u32 \<Rightarrow> u32 \<Rightarrow> u32 list \<Rightarrow> sbrk \<Rightarrow> sbrk \<times> (u32 \<times> u32) list" where
  "sbrk_run ends estack min_stack [] s = (s, [])"
| "sbrk_run ends estack min_stack (i # incs) s =
     (let (s, p) = sys_sbrk ends estack min_stack i s; (s, rs) = sbrk_run ends estack min_stack incs s
      in (s, if p = - 1 then rs else (p, i) # rs))"

text \<open>Regions one after the other from \<open>lo\<close> to \<open>hi\<close>.\<close>

fun adjacent :: "nat \<Rightarrow> (u32 \<times> u32) list \<Rightarrow> nat \<Rightarrow> bool" where
  "adjacent lo [] hi \<longleftrightarrow> lo = hi"
| "adjacent lo ((p, i) # rs) hi \<longleftrightarrow> unat p = lo \<and> adjacent (lo + unat i) rs hi"

lemma sys_sbrk_effect:
  assumes "unat ends \<le> unat (estack - min_stack)" "0 < unat ends" "unat (estack - min_stack) < 2 ^ 31"
    and "heap_end s = 0 \<or> unat ends \<le> unat (heap_end s) \<and> unat (heap_end s) \<le> unat (estack - min_stack)"
    and "unat i < 2 ^ 31"
  defines "old \<equiv> if heap_end s = 0 then ends else heap_end s"
  shows "sys_sbrk ends estack min_stack i s =
    (if unat old + unat i \<le> unat (estack - min_stack) then (s\<lparr>heap_end := old + i\<rparr>, old)
     else (s\<lparr>heap_end := old, sys_errno_ENOMEM := True\<rparr>, - 1)) \<and> unat (old + i) = unat old + unat i"
proof -
  have o: "unat old \<le> unat (estack - min_stack)" using assms by (auto simp: old_def)
  have u: "unat (old + i) = unat old + unat i" using o assms(3,5) by (subst unat_add_small) simp_all
  then show ?thesis
    by (auto simp: sys_sbrk_def Let_def old_def word_less_nat_alt split: if_splits)
qed

lemma sbrk_run_adjacent:
  assumes "unat ends \<le> unat (estack - min_stack)" "0 < unat ends" "unat (estack - min_stack) < 2 ^ 31"
    and "unat ends \<le> unat (heap_end s)" "unat (heap_end s) \<le> unat (estack - min_stack)"
    and "\<forall>i \<in> set incs. unat i < 2 ^ 31"
    and "sbrk_run ends estack min_stack incs s = (s', rs)"
  shows "adjacent (unat (heap_end s)) rs (unat (heap_end s')) \<and> unat (heap_end s') \<le> unat (estack - min_stack)"
  using assms(4-7)
proof (induction incs arbitrary: s rs)
  case Nil
  then show ?case by simp
next
  case (Cons i incs)
  obtain s1 p where 1: "sys_sbrk ends estack min_stack i s = (s1, p)" by fastforce
  obtain s2 rs2 where 2: "sbrk_run ends estack min_stack incs s1 = (s2, rs2)" by fastforce
  have he: "heap_end s \<noteq> 0" using Cons.prems(1) assms(2) by auto
  have ef: "sys_sbrk ends estack min_stack i s =
    (if unat (heap_end s) + unat i \<le> unat (estack - min_stack) then (s\<lparr>heap_end := heap_end s + i\<rparr>, heap_end s)
     else (s\<lparr>sys_errno_ENOMEM := True\<rparr>, - 1))" and u: "unat (heap_end s + i) = unat (heap_end s) + unat i"
    using sys_sbrk_effect [OF assms(1-3), of s i] Cons.prems he by auto
  have m1: "heap_end s \<noteq> - 1"
  proof
    assume "heap_end s = - 1"
    then have "unat (heap_end s) = 2 ^ 32 - 1" by (simp add: unsigned_minus_1_eq_mask mask_eq_exp_minus_1)
    then show False using Cons.prems(2) assms(3) by simp
  qed
  show ?case
  proof (cases "unat (heap_end s) + unat i \<le> unat (estack - min_stack)")
    case True
    then have s1: "s1 = s\<lparr>heap_end := heap_end s + i\<rparr>" "p = heap_end s" using 1 ef by auto
    show ?thesis using Cons.IH [of s1 rs2] Cons.prems True s1 1 2 u m1 by auto
  next
    case False
    then have s1: "s1 = s\<lparr>sys_errno_ENOMEM := True\<rparr>" "p = - 1" using 1 ef by auto
    show ?thesis using Cons.IH [of s1 rs2] Cons.prems s1 1 2 by auto
  qed
qed

section \<open>The correctness of the console and of the break\<close>

lemma uart_inv_reachable: "uart_reachable s0 s \<Longrightarrow> uart_inv s0 \<Longrightarrow> uart_inv s"
  by (induction rule: uart_reachable.induct) (auto intro: uart_step_inv)

definition uart_start :: "uart \<Rightarrow> uart_run" where
  "uart_start u = \<lparr>dev = InitializeStdinWithUart u, rd = AtTest, received = [], delivered = []\<rparr>"

lemma uart_start_inv: "length (UartBuffer u) = 64 \<Longrightarrow> uart_inv (uart_start u)"
  by (simp add: uart_inv_def uart_start_def settled_def in_hand_def InitializeStdinWithUart_def uart_ok_def
      uart_contents_def unread_def)

text \<open>
  C37: the interrupt handler may come between any two statements of the reader. As long as a byte comes in
  only while fewer than 63 are unread, the bytes received are, in order, those the reader has returned, the
  one it has in hand and those still in the ring: none is lost, doubled or reordered.
\<close>
theorem stdin_interleaving_fifo:
  assumes "length (UartBuffer u) = 64" and "uart_reachable (uart_start u) s"
  shows "received s = delivered s @ in_hand s @ uart_contents (settled s)"
  using uart_inv_reachable [OF assms(2) uart_start_inv [OF assms(1)]] by (simp add: uart_inv_def)

definition uart_reset :: uart where
  "uart_reset = \<lparr>UartBuffer = replicate 64 0, UartBufferReadIdx = 0, UartBufferWriteIdx = 0, armed = 0\<rparr>"

theorem stdin_interleaving_fifo_witness:
  "\<exists>s. uart_reachable (uart_start uart_reset) s \<and> rd s = AtLoad \<and> received s = [65] \<and>
     received s = delivered s @ in_hand s @ uart_contents (settled s)"
proof -
  let ?s0 = "uart_start uart_reset"
  let ?s1 = "?s0\<lparr>dev := uart_receive 65 (dev ?s0), received := received ?s0 @ [65]\<rparr>"
  have "uart_step ?s0 ?s1"
    by (rule irq) (simp add: uart_room_def uart_start_def InitializeStdinWithUart_def unread_def)
  then have "uart_reachable ?s0 ?s1" by (blast intro: start step)
  moreover have "uart_step ?s1 (?s1\<lparr>rd := AtLoad\<rparr>)"
    by (rule test_some) (simp_all add: uart_start_def InitializeStdinWithUart_def uart_receive_def
        HAL_UART_RxCpltCallback_def Let_def)
  ultimately have r: "uart_reachable ?s0 (?s1\<lparr>rd := AtLoad\<rparr>)" by (rule step)
  have "length (UartBuffer uart_reset) = 64" by (simp add: uart_reset_def)
  from stdin_interleaving_fifo [OF this r] show ?thesis
    using r by (intro exI [of _ "?s1\<lparr>rd := AtLoad\<rparr>"]) (simp add: uart_start_def)
qed

text \<open>
  the ring as a queue. A byte that comes in is queued behind those unread when there are fewer than 63,
  and otherwise makes the ring look empty, losing all 64; a read takes the oldest byte, or gives zero when
  there is none.
\<close>
theorem stdin_ring_correct:
  assumes "uart_ok u"
  shows "uart_contents (uart_receive c u) = (if length (uart_contents u) < 63 then uart_contents u @ [c] else []) \<and>
    uart_ok (uart_receive c u) \<and> uart_ok (fst (io_getchar u)) \<and>
    (case uart_contents u of
       [] \<Rightarrow> io_getchar u = (u, 0)
     | c # cs \<Rightarrow> snd (io_getchar u) = c \<and> uart_contents (fst (io_getchar u)) = cs)"
  using uart_receive_contents [OF assms, of c] CharFromUartBuffer_contents [OF assms]
  unfolding io_getchar_def by blast

theorem stdin_ring_correct_witness:
  "uart_contents (uart_receive 66 (uart_receive 65 uart_reset)) = [65, 66]"
proof -
  have z: "uart_ok uart_reset" "uart_contents uart_reset = []"
    by (simp_all add: uart_ok_def uart_reset_def uart_contents_def unread_def)
  note a = stdin_ring_correct [OF z(1), of 65]
  then show ?thesis using stdin_ring_correct [of "uart_receive 65 uart_reset" 66] z(2) by simp
qed

text \<open>
  the regions \<^verbatim>\<open>_sbrk\<close> hands out to any sequence of requests below 2 GB follow one another without gap
  or overlap from the end of the program's data on and stay below the stack's reserve; refused requests
  leave the break where it is.
\<close>
theorem sbrk_regions_adjacent:
  assumes "unat ends \<le> unat (estack - min_stack)" "0 < unat ends" "unat (estack - min_stack) < 2 ^ 31"
    and "unat ends \<le> unat (heap_end s)" "unat (heap_end s) \<le> unat (estack - min_stack)"
    and "\<forall>i \<in> set incs. unat i < 2 ^ 31"
  shows "case sbrk_run ends estack min_stack incs s of
    (s', rs) \<Rightarrow> adjacent (unat (heap_end s)) rs (unat (heap_end s')) \<and> unat (heap_end s') \<le> unat (estack - min_stack)"
  using sbrk_run_adjacent [OF assms] by (auto split: prod.splits)

theorem sbrk_regions_adjacent_witness:
  "case sbrk_run 0x20001000 0x200C0000 0x400 [100, 0x7FFFFFFF, 28] \<lparr>heap_end = 0x20001000, sys_errno_ENOMEM = False\<rparr> of
    (s', rs) \<Rightarrow> adjacent 0x20001000 rs (unat (heap_end s')) \<and> unat (heap_end s') \<le> 0x200BFC00"
  using sbrk_regions_adjacent [of "0x20001000" "0x200C0000" "0x400"
      "\<lparr>heap_end = 0x20001000, sys_errno_ENOMEM = False\<rparr>" "[100, 0x7FFFFFFF, 28]"] by simp

text \<open>A request that wraps the address space around moves the break below the program's data.\<close>

lemma sbrk_wraps:
  "sys_sbrk 0x20001000 0x200C0000 0x400 0xE0000000 \<lparr>heap_end = 0x20001000, sys_errno_ENOMEM = False\<rparr> =
    (\<lparr>heap_end = 0x1000, sys_errno_ENOMEM = False\<rparr>, 0x20001000)"
  by (simp add: sys_sbrk_def)

end
