(* ===== verification/Rtos_List.thy ===== *)
theory Rtos_List
  imports Prelude_Base
begin

text \<open>
  The FreeRTOS kernel list (\<^verbatim>\<open>middlewares/freertos/source/list.c\<close>): a circular doubly linked
  list whose nodes are the list's own end marker and the list items threaded through it. The
  store keeps one function per C field; \<open>dll\<close> says that a list of item identifiers is what the
  pointers of a list describe, and each operation is shown to act on that list.
\<close>

section \<open>The store\<close>

text \<open>
  A \<^verbatim>\<open>ListItem_t *\<close> points to the end marker of a list (\<^verbatim>\<open>xListEnd\<close>, cast to an item) or to an
  ordinary item. With \<^verbatim>\<open>configUSE_MINI_LIST_ITEM\<close> set, the end marker has a value and two links
  only, so \<open>pxContainer\<close> is a field of ordinary items.
\<close>

datatype ('l, 'i) node = EndOf 'l | ItemOf 'i

record ('l, 'i) lstore =
  xItemValue :: "('l, 'i) node \<Rightarrow> u32"
  pxNext :: "('l, 'i) node \<Rightarrow> ('l, 'i) node"
  pxPrevious :: "('l, 'i) node \<Rightarrow> ('l, 'i) node"
  pvOwner :: "'i \<Rightarrow> nat option"
  pxContainer :: "'i \<Rightarrow> 'l option"
  pxIndex :: "'l \<Rightarrow> ('l, 'i) node"
  uxNumberOfItems :: "'l \<Rightarrow> u32"

definition portMAX_DELAY :: u32 where
  "portMAX_DELAY = 0xFFFFFFFF"

lemma portMAX_DELAY_top [simp]: "v \<le> portMAX_DELAY"
proof -
  have "portMAX_DELAY = (- 1 :: u32)" by (simp add: portMAX_DELAY_def)
  then show ?thesis by (metis word_max_top)
qed

section \<open>Operations\<close>

definition vListInitialise :: "('l, 'i) lstore \<Rightarrow> 'l \<Rightarrow> ('l, 'i) lstore" where
  "vListInitialise s l = s\<lparr>
     pxIndex := (pxIndex s)(l := EndOf l),
     xItemValue := (xItemValue s)(EndOf l := portMAX_DELAY),
     pxNext := (pxNext s)(EndOf l := EndOf l),
     pxPrevious := (pxPrevious s)(EndOf l := EndOf l),
     uxNumberOfItems := (uxNumberOfItems s)(l := 0)\<rparr>"

definition vListInitialiseItem :: "('l, 'i) lstore \<Rightarrow> 'i \<Rightarrow> ('l, 'i) lstore" where
  "vListInitialiseItem s i = s\<lparr>pxContainer := (pxContainer s)(i := None)\<rparr>"

definition vListInsertEnd :: "('l, 'i) lstore \<Rightarrow> 'l \<Rightarrow> 'i \<Rightarrow> ('l, 'i) lstore" where
  "vListInsertEnd s l i =
    (let idx = pxIndex s l;
         s1 = s\<lparr>pxNext := (pxNext s)(ItemOf i := idx)\<rparr>;
         s2 = s1\<lparr>pxPrevious := (pxPrevious s1)(ItemOf i := pxPrevious s1 idx)\<rparr>;
         s3 = s2\<lparr>pxNext := (pxNext s2)(pxPrevious s2 idx := ItemOf i)\<rparr>;
         s4 = s3\<lparr>pxPrevious := (pxPrevious s3)(idx := ItemOf i)\<rparr>;
         s5 = s4\<lparr>pxContainer := (pxContainer s4)(i := Some l)\<rparr>
     in s5\<lparr>uxNumberOfItems := (uxNumberOfItems s5)(l := uxNumberOfItems s5 l + 1)\<rparr>)"

text \<open>
  The search loop of \<^verbatim>\<open>vListInsert\<close>. On a corrupt list it need not stop, so not returning is
  \<open>None\<close>; that it returns on every well-formed list is \<open>insert_position_dll\<close> below.
\<close>

partial_function (option) insert_position ::
  "('l, 'i) lstore \<Rightarrow> u32 \<Rightarrow> ('l, 'i) node \<Rightarrow> ('l, 'i) node option" where
  "insert_position s v it =
    (if xItemValue s (pxNext s it) \<le> v then insert_position s v (pxNext s it) else Some it)"

definition insert_after :: "('l, 'i) lstore \<Rightarrow> 'l \<Rightarrow> 'i \<Rightarrow> ('l, 'i) node \<Rightarrow> ('l, 'i) lstore" where
  "insert_after s l i it =
    (let s1 = s\<lparr>pxNext := (pxNext s)(ItemOf i := pxNext s it)\<rparr>;
         s2 = s1\<lparr>pxPrevious := (pxPrevious s1)(pxNext s1 (ItemOf i) := ItemOf i)\<rparr>;
         s3 = s2\<lparr>pxPrevious := (pxPrevious s2)(ItemOf i := it)\<rparr>;
         s4 = s3\<lparr>pxNext := (pxNext s3)(it := ItemOf i)\<rparr>;
         s5 = s4\<lparr>pxContainer := (pxContainer s4)(i := Some l)\<rparr>
     in s5\<lparr>uxNumberOfItems := (uxNumberOfItems s5)(l := uxNumberOfItems s5 l + 1)\<rparr>)"

definition vListInsert :: "('l, 'i) lstore \<Rightarrow> 'l \<Rightarrow> 'i \<Rightarrow> ('l, 'i) lstore option" where
  "vListInsert s l i =
    (let v = xItemValue s (ItemOf i) in
     map_option (insert_after s l i)
       (if v = portMAX_DELAY then Some (pxPrevious s (EndOf l))
        else insert_position s v (EndOf l)))"

text \<open>\<open>None\<close>: the item is in no list, and the C code would dereference a null container.\<close>

definition uxListRemove :: "('l, 'i) lstore \<Rightarrow> 'i \<Rightarrow> (('l, 'i) lstore \<times> u32) option" where
  "uxListRemove s i =
    (case pxContainer s i of
       None \<Rightarrow> None
     | Some l \<Rightarrow>
        (let s1 = s\<lparr>pxPrevious := (pxPrevious s)(pxNext s (ItemOf i) := pxPrevious s (ItemOf i))\<rparr>;
             s2 = s1\<lparr>pxNext := (pxNext s1)(pxPrevious s1 (ItemOf i) := pxNext s1 (ItemOf i))\<rparr>;
             s3 = (if pxIndex s2 l = ItemOf i
                   then s2\<lparr>pxIndex := (pxIndex s2)(l := pxPrevious s2 (ItemOf i))\<rparr> else s2);
             s4 = s3\<lparr>pxContainer := (pxContainer s3)(i := None)\<rparr>;
             s5 = s4\<lparr>uxNumberOfItems := (uxNumberOfItems s4)(l := uxNumberOfItems s4 l - 1)\<rparr>
         in Some (s5, uxNumberOfItems s5 l)))"

section \<open>What the pointers describe\<close>

fun linked :: "('l, 'i) lstore \<Rightarrow> ('l, 'i) node \<Rightarrow> 'i list \<Rightarrow> ('l, 'i) node \<Rightarrow> bool" where
  "linked s p [] r \<longleftrightarrow> pxNext s p = r \<and> pxPrevious s r = p"
| "linked s p (i # is) r \<longleftrightarrow>
     pxNext s p = ItemOf i \<and> pxPrevious s (ItemOf i) = p \<and> linked s (ItemOf i) is r"

definition dll :: "('l, 'i) lstore \<Rightarrow> 'l \<Rightarrow> 'i list \<Rightarrow> bool" where
  "dll s l xs \<longleftrightarrow>
     linked s (EndOf l) xs (EndOf l) \<and> distinct xs \<and>
     (\<forall>i. pxContainer s i = Some l \<longleftrightarrow> i \<in> set xs) \<and>
     uxNumberOfItems s l = of_nat (length xs) \<and>
     xItemValue s (EndOf l) = portMAX_DELAY \<and>
     pxIndex s l \<in> insert (EndOf l) (ItemOf ` set xs)"

abbreviation item_key :: "('l, 'i) lstore \<Rightarrow> 'i \<Rightarrow> u32" where
  "item_key s i \<equiv> xItemValue s (ItemOf i)"

text \<open>Insertion in key order, after the items with an equal key.\<close>

definition insert_key :: "('i \<Rightarrow> u32) \<Rightarrow> 'i \<Rightarrow> 'i list \<Rightarrow> 'i list" where
  "insert_key key i xs =
     takeWhile (\<lambda>x. key x \<le> key i) xs @ i # dropWhile (\<lambda>x. key x \<le> key i) xs"

lemma set_insert_key [simp]: "set (insert_key key i xs) = insert i (set xs)"
  unfolding insert_key_def by (metis Un_insert_right list.set(2) set_append takeWhile_dropWhile_id)

lemma length_insert_key [simp]: "length (insert_key key i xs) = Suc (length xs)"
  unfolding insert_key_def
  by (simp, metis length_append takeWhile_dropWhile_id)

lemma distinct_insert_key:
  "distinct xs \<Longrightarrow> i \<notin> set xs \<Longrightarrow> distinct (insert_key key i xs)"
  unfolding insert_key_def
  by (metis (no_types, lifting) distinct_append distinct_length_2_or_more distinct.simps(2)
      Un_iff disjoint_insert(2) list.set(2) set_append takeWhile_dropWhile_id)

lemma sorted_insert_key:
  assumes "sorted (map key xs)"
  shows "sorted (map key (insert_key key i xs))"
proof -
  let ?P = "\<lambda>x. key x \<le> key i"
  define as bs where "as = takeWhile ?P xs" and "bs = dropWhile ?P xs"
  have "sorted (map key (as @ bs))"
    using assms by (simp add: as_def bs_def)
  then have s: "sorted (map key as)" "sorted (map key bs)"
    by (simp_all only: map_append sorted_append)
  have gt: "\<forall>x \<in> set bs. key i < key x"
    unfolding bs_def using assms by (rule sorted_wrt_takeWhile_dropWhile)
  have le: "\<forall>x \<in> set as. key x \<le> key i"
    unfolding as_def using set_takeWhileD by fast
  from s gt le have "sorted (map key (as @ i # bs))"
    by (auto simp: sorted_append) (metis less_imp_le order_trans)+
  then show ?thesis by (simp add: insert_key_def as_def bs_def)
qed

section \<open>Links under updates\<close>

text \<open>The nodes a segment from \<open>p\<close> through \<open>xs\<close> to \<open>r\<close> depends on.\<close>

lemma linked_cong:
  assumes "\<And>n. n \<in> insert p (ItemOf ` set xs) \<Longrightarrow> pxNext s' n = pxNext s n"
    and "\<And>n. n \<in> insert r (ItemOf ` set xs) \<Longrightarrow> pxPrevious s' n = pxPrevious s n"
  shows "linked s' p xs r = linked s p xs r"
  using assms by (induction xs arbitrary: p) auto

lemma linked_append:
  "linked s p (xs @ y # ys) r \<longleftrightarrow> linked s p xs (ItemOf y) \<and> linked s (ItemOf y) ys r"
  by (induction xs arbitrary: p) auto

definition seg_last :: "('l, 'i) node \<Rightarrow> 'i list \<Rightarrow> ('l, 'i) node" where
  "seg_last p xs = (if xs = [] then p else ItemOf (last xs))"

definition seg_first :: "'i list \<Rightarrow> ('l, 'i) node \<Rightarrow> ('l, 'i) node" where
  "seg_first xs r = (case xs of [] \<Rightarrow> r | x # _ \<Rightarrow> ItemOf x)"

lemma seg_simps [simp]:
  "seg_last p [] = p" "seg_last p (x # xs) = seg_last (ItemOf x) xs"
  "seg_last p (xs @ [x]) = ItemOf x"
  "seg_first [] r = r" "seg_first (x # xs) r = ItemOf x"
  by (auto simp: seg_last_def seg_first_def)

lemma seg_last_in: "seg_last p xs \<in> insert p (ItemOf ` set xs)"
  by (auto simp: seg_last_def)

text \<open>A segment split at a node: two segments that meet there.\<close>

lemma linked_split:
  "linked s p (xs @ ys) r \<longleftrightarrow>
     (if ys = [] then linked s p xs r
      else linked s p xs (ItemOf (hd ys)) \<and> linked s (ItemOf (hd ys)) (tl ys) r)"
  by (cases ys) (auto simp: linked_append)

section \<open>The search loop returns\<close>

lemma insert_position_linked:
  assumes "linked s p ys r" and "v < xItemValue s r"
  shows "insert_position s v p = Some (seg_last p (takeWhile (\<lambda>x. item_key s x \<le> v) ys))"
  using assms
proof (induction ys arbitrary: p)
  case Nil
  then show ?case by (subst insert_position.simps) (auto dest: leD)
next
  case (Cons y ys)
  then show ?case by (subst insert_position.simps) simp
qed

lemma insert_position_dll:
  assumes "dll s l xs" and "v \<noteq> portMAX_DELAY"
  shows "insert_position s v (EndOf l) =
           Some (seg_last (EndOf l) (takeWhile (\<lambda>x. item_key s x \<le> v) xs))"
proof (rule insert_position_linked)
  show "linked s (EndOf l) xs (EndOf l)" using assms(1) by (simp add: dll_def)
  have top: "portMAX_DELAY = (- 1 :: u32)" by (simp add: portMAX_DELAY_def)
  have "v < portMAX_DELAY"
    using assms(2) unfolding top by (metis word_order.not_eq_extremum)
  then show "v < xItemValue s (EndOf l)"
    using assms(1) by (simp add: dll_def)
qed

section \<open>Each operation acts on the described list\<close>

lemma dll_vListInitialise:
  assumes "\<forall>i. pxContainer s i \<noteq> Some l"
  shows "dll (vListInitialise s l) l []"
  using assms by (simp add: dll_def vListInitialise_def)

subsection \<open>Inner links and the two ends of a segment\<close>

fun inner :: "('l, 'i) lstore \<Rightarrow> ('l, 'i) node \<Rightarrow> 'i list \<Rightarrow> bool" where
  "inner s p [] \<longleftrightarrow> True"
| "inner s p (i # is) \<longleftrightarrow>
     pxNext s p = ItemOf i \<and> pxPrevious s (ItemOf i) = p \<and> inner s (ItemOf i) is"

lemma linked_join: "linked s p (as @ bs) r \<longleftrightarrow> inner s p as \<and> linked s (seg_last p as) bs r"
  by (induction as arbitrary: p) auto

lemma linked_first: "linked s p xs r \<Longrightarrow> pxNext s p = seg_first xs r"
  by (cases xs) auto

lemma linked_first_prev: "linked s p xs r \<Longrightarrow> pxPrevious s (seg_first xs r) = p"
  by (cases xs) auto

lemma linked_last: "linked s p xs r \<Longrightarrow> pxPrevious s r = seg_last p xs"
  by (induction xs arbitrary: p) auto

lemma seg_last_butlast:
  fixes p :: "('l, 'i) node"
  assumes "p \<notin> ItemOf ` set as" and "distinct as"
  shows "seg_last p as \<notin> set (butlast (p # map ItemOf as))"
  using assms
proof (induction as arbitrary: p)
  case Nil
  then show ?case by simp
next
  case (Cons a as)
  have "seg_last (ItemOf a :: ('l, 'i) node) as \<in> ItemOf ` set (a # as)"
    by (auto simp: seg_last_def)
  moreover have "seg_last (ItemOf a :: ('l, 'i) node) as \<notin> set (butlast (ItemOf a # map ItemOf as))"
    by (rule Cons.IH) (use Cons.prems in auto)
  ultimately show ?case using Cons.prems by auto
qed

lemma inner_cong:
  assumes "\<And>n. n \<in> set (butlast (p # map ItemOf as)) \<Longrightarrow> pxNext s' n = pxNext s n"
    and "\<And>n. n \<in> ItemOf ` set as \<Longrightarrow> pxPrevious s' n = pxPrevious s n"
  shows "inner s' p as = inner s p as"
  using assms by (induction as arbitrary: p) auto

text \<open>Linking an item between two neighbours of the circle.\<close>

lemma insert_after_linked:
  assumes lk: "linked s (EndOf l) (as @ bs) (EndOf l)" and d: "distinct (as @ bs)"
    and i: "i \<notin> set (as @ bs)"
  shows "linked (insert_after s l i (seg_last (EndOf l) as)) (EndOf l) (as @ i # bs) (EndOf l)"
    (is "linked ?s' _ _ _")
proof -
  let ?p = "seg_last (EndOf l) as" and ?n = "seg_first bs (EndOf l)"
  have inn: "inner s (EndOf l) as" and lkb: "linked s ?p bs (EndOf l)"
    using lk by (simp_all add: linked_join)
  have p_ne: "?p \<noteq> ItemOf i" using i seg_last_in [of "EndOf l" as] by auto
  have n_ne: "?n \<noteq> ItemOf i" using i by (cases bs) auto
  have nx: "pxNext ?s' = (pxNext s)(ItemOf i := ?n, ?p := ItemOf i)"
    using linked_first [OF lkb] by (simp add: insert_after_def Let_def)
  have pv: "pxPrevious ?s' = (pxPrevious s)(?n := ItemOf i, ItemOf i := ?p)"
    using linked_first [OF lkb] by (simp add: insert_after_def Let_def)
  have "?p \<notin> set (butlast (EndOf l # map ItemOf as))"
    by (rule seg_last_butlast) (use d in auto)
  moreover have "ItemOf i \<notin> set (butlast (EndOf l # map ItemOf as))"
    using i by (auto dest!: in_set_butlastD)
  moreover have "?n \<notin> ItemOf ` set as" using d by (cases bs) auto
  ultimately have 1: "inner ?s' (EndOf l) as"
    using inn i by (subst inner_cong [of _ _ _ s]) (auto simp: nx pv image_iff)
  have 2: "linked ?s' (ItemOf i) bs (EndOf l)"
  proof (cases bs)
    case Nil
    then show ?thesis using p_ne by (simp add: nx pv)
  next
    case (Cons b bs')
    have "?p \<notin> ItemOf ` set bs"
      using d seg_last_in [of "EndOf l" as] by auto
    then have "linked ?s' (ItemOf b) bs' (EndOf l) = linked s (ItemOf b) bs' (EndOf l)"
      using Cons d i by (intro linked_cong) (auto simp: nx pv image_iff)
    then show ?thesis using Cons lkb p_ne i by (auto simp: nx pv)
  qed
  have "linked ?s' ?p (i # bs) (EndOf l)"
    using 2 p_ne n_ne by (simp add: nx pv)
  with 1 show ?thesis by (simp add: linked_join)
qed

lemma insert_after_fields [state_simps]:
  "xItemValue (insert_after s l i it) = xItemValue s"
  "pxContainer (insert_after s l i it) = (pxContainer s)(i := Some l)"
  "pxIndex (insert_after s l i it) = pxIndex s"
  "uxNumberOfItems (insert_after s l i it) = (uxNumberOfItems s)(l := uxNumberOfItems s l + 1)"
  by (simp_all add: insert_after_def Let_def)

lemma insert_after_dll:
  assumes "dll s l (as @ bs)" and "pxContainer s i = None"
  shows "dll (insert_after s l i (seg_last (EndOf l) as)) l (as @ i # bs)"
proof -
  have i: "i \<notin> set (as @ bs)"
    using assms unfolding dll_def by (metis option.distinct(1))
  show ?thesis
    using assms i insert_after_linked [of s l as bs i] unfolding dll_def
    by (auto simp: state_simps)
qed

lemma vListInsert_position:
  assumes "dll s l xs" and "vListInsert s l i = Some s'"
  shows "\<exists>as bs. xs = as @ bs \<and> s' = insert_after s l i (seg_last (EndOf l) as) \<and>
           as = takeWhile (\<lambda>x. item_key s x \<le> item_key s i) xs"
proof (cases "item_key s i = portMAX_DELAY")
  case True
  have "pxPrevious s (EndOf l) = seg_last (EndOf l) xs"
    using assms(1) by (simp add: dll_def linked_last)
  with True assms(2) have "s' = insert_after s l i (seg_last (EndOf l) xs)"
    by (simp add: vListInsert_def)
  with True show ?thesis by simp
next
  case False
  with assms(2) insert_position_dll [OF assms(1) False]
  have "s' = insert_after s l i (seg_last (EndOf l) (takeWhile (\<lambda>x. item_key s x \<le> item_key s i) xs))"
    by (simp add: vListInsert_def)
  then show ?thesis by (metis takeWhile_dropWhile_id)
qed

lemma vListInsert_dll:
  assumes "dll s l xs" and "pxContainer s i = None"
  shows "\<exists>s'. vListInsert s l i = Some s' \<and> dll s' l (insert_key (item_key s) i xs) \<and>
           xItemValue s' = xItemValue s"
proof -
  let ?v = "item_key s i" and ?P = "\<lambda>x. item_key s x \<le> item_key s i"
  have pos: "(if ?v = portMAX_DELAY then Some (pxPrevious s (EndOf l))
              else insert_position s ?v (EndOf l)) = Some (seg_last (EndOf l) (takeWhile ?P xs))"
  proof (cases "?v = portMAX_DELAY")
    case True
    then have t: "takeWhile ?P xs = xs"
      by (simp add: takeWhile_eq_all_conv)
    have "pxPrevious s (EndOf l) = seg_last (EndOf l) xs"
      using assms(1) by (simp add: dll_def linked_last)
    with True show ?thesis unfolding t by simp
  next
    case False
    with insert_position_dll [OF assms(1) False] show ?thesis by simp
  qed
  have "dll (insert_after s l i (seg_last (EndOf l) (takeWhile ?P xs))) l (insert_key (item_key s) i xs)"
    unfolding insert_key_def using assms by (intro insert_after_dll) simp_all
  with pos show ?thesis by (simp add: vListInsert_def state_simps)
qed

text \<open>
  \<^verbatim>\<open>vListInsertEnd\<close> inserts before the node the walking index is at, so that the item is the last
  one a walk through the list will reach.
\<close>

lemma vListInsertEnd_is_insert_after:
  assumes "linked s (EndOf l) (as @ bs) (EndOf l)" and "i \<notin> set (as @ bs)"
    and "pxIndex s l = seg_first bs (EndOf l)"
  shows "vListInsertEnd s l i = insert_after s l i (seg_last (EndOf l) as)"
proof -
  let ?p = "seg_last (EndOf l) as" and ?n = "seg_first bs (EndOf l)"
  have lkb: "linked s ?p bs (EndOf l)" using assms(1) by (simp add: linked_join)
  have n_ne: "?n \<noteq> ItemOf i" using assms(2) by (cases bs) auto
  have p_ne: "?p \<noteq> ItemOf i" using assms(2) seg_last_in [of "EndOf l" as] by auto
  have e: "pxNext s ?p = ?n" "pxPrevious s ?n = ?p"
    using linked_first [OF lkb] linked_first_prev [OF lkb] by auto
  show ?thesis
    using e n_ne p_ne assms(3)
    by (auto simp: vListInsertEnd_def insert_after_def Let_def fun_upd_twist)
qed

subsection \<open>Removal\<close>

definition unlink :: "('l, 'i) lstore \<Rightarrow> 'i \<Rightarrow> ('l, 'i) lstore" where
  "unlink s i =
    s\<lparr>pxPrevious := (pxPrevious s)(pxNext s (ItemOf i) := pxPrevious s (ItemOf i)),
      pxNext := (pxNext s)(pxPrevious s (ItemOf i) := pxNext s (ItemOf i))\<rparr>"

lemma unlink_linked:
  assumes lk: "linked s (EndOf l) (as @ i # bs) (EndOf l)" and d: "distinct (as @ i # bs)"
  shows "linked (unlink s i) (EndOf l) (as @ bs) (EndOf l)"
    and "pxPrevious s (ItemOf i) = seg_last (EndOf l) as"
    and "pxNext s (ItemOf i) = seg_first bs (EndOf l)"
proof -
  let ?p = "seg_last (EndOf l) as" and ?n = "seg_first bs (EndOf l)" and ?s' = "unlink s i"
  have inn: "inner s (EndOf l) as" and lki: "linked s ?p (i # bs) (EndOf l)"
    using lk by (simp_all add: linked_join)
  then have lkb: "linked s (ItemOf i) bs (EndOf l)" by simp
  show p: "pxPrevious s (ItemOf i) = ?p" and n: "pxNext s (ItemOf i) = ?n"
    using lki linked_first [OF lkb] by simp_all
  have nx: "pxNext ?s' = (pxNext s)(?p := ?n)" and pv: "pxPrevious ?s' = (pxPrevious s)(?n := ?p)"
    by (simp_all add: unlink_def p n)
  have "?p \<notin> set (butlast (EndOf l # map ItemOf as))"
    by (rule seg_last_butlast) (use d in auto)
  moreover have "?n \<notin> ItemOf ` set as" using d by (cases bs) auto
  ultimately have 1: "inner ?s' (EndOf l) as"
    using inn by (subst inner_cong [of _ _ _ s]) (auto simp: nx pv image_iff)
  have 2: "linked ?s' ?p bs (EndOf l)"
  proof (cases bs)
    case Nil
    then show ?thesis by (simp add: nx pv)
  next
    case (Cons b bs')
    have "?p \<notin> ItemOf ` set bs" using d seg_last_in [of "EndOf l" as] by auto
    then have "linked ?s' (ItemOf b) bs' (EndOf l) = linked s (ItemOf b) bs' (EndOf l)"
      using Cons d by (intro linked_cong) (auto simp: nx pv image_iff)
    then show ?thesis using Cons lkb by (simp add: nx pv)
  qed
  from 1 2 show "linked ?s' (EndOf l) (as @ bs) (EndOf l)" by (simp add: linked_join)
qed

lemma uxListRemove_unlink:
  assumes "pxContainer s i = Some l"
  shows "uxListRemove s i = Some
    ((unlink s i)\<lparr>
       pxIndex := (if pxIndex s l = ItemOf i
                   then (pxIndex s)(l := pxPrevious s (ItemOf i)) else pxIndex s),
       pxContainer := (pxContainer s)(i := None),
       uxNumberOfItems := (uxNumberOfItems s)(l := uxNumberOfItems s l - 1)\<rparr>,
     uxNumberOfItems s l - 1)"
  using assms by (auto simp: uxListRemove_def unlink_def Let_def)

lemma uxListRemove_dll:
  assumes dl: "dll s l (as @ i # bs)"
  shows "\<exists>s'. uxListRemove s i = Some (s', of_nat (length (as @ bs))) \<and> dll s' l (as @ bs) \<and>
           xItemValue s' = xItemValue s \<and> pxContainer s' = (pxContainer s)(i := None) \<and>
           (pxIndex s' l = (if pxIndex s l = ItemOf i then seg_last (EndOf l) as else pxIndex s l))"
proof -
  have lk: "linked s (EndOf l) (as @ i # bs) (EndOf l)" and d: "distinct (as @ i # bs)"
    and c: "pxContainer s i = Some l" and n: "uxNumberOfItems s l = of_nat (length (as @ i # bs))"
    and ix: "pxIndex s l \<in> insert (EndOf l) (ItemOf ` set (as @ i # bs))"
    using dl by (auto simp: dll_def)
  note u = unlink_linked [OF lk d]
  let ?s' = "(unlink s i)\<lparr>
       pxIndex := (if pxIndex s l = ItemOf i
                   then (pxIndex s)(l := pxPrevious s (ItemOf i)) else pxIndex s),
       pxContainer := (pxContainer s)(i := None),
       uxNumberOfItems := (uxNumberOfItems s)(l := uxNumberOfItems s l - 1)\<rparr>"
  have "linked ?s' (EndOf l) (as @ bs) (EndOf l) = linked (unlink s i) (EndOf l) (as @ bs) (EndOf l)"
    by (rule linked_cong) simp_all
  then have l': "linked ?s' (EndOf l) (as @ bs) (EndOf l)" using u(1) by simp
  have n': "uxNumberOfItems s l - 1 = of_nat (length (as @ bs))"
    using n by simp
  have ix': "pxIndex ?s' l \<in> insert (EndOf l) (ItemOf ` set (as @ bs))"
    using ix u(2) seg_last_in [of "EndOf l" as] by auto
  have fr: "xItemValue ?s' = xItemValue s" by (simp add: unlink_def)
  have "dll ?s' l (as @ bs)"
    unfolding dll_def using l' d n' ix' dl fr by (auto simp: dll_def)
  then show ?thesis
    using uxListRemove_unlink [OF c] n' u(2) fr by (intro exI [of _ ?s']) simp
qed

subsection \<open>Other lists keep their items\<close>

lemma dll_other:
  assumes "dll s l ys" and "l \<noteq> k"
    and "\<And>n. n \<in> insert (EndOf l) (ItemOf ` set ys) \<Longrightarrow>
           pxNext s' n = pxNext s n \<and> pxPrevious s' n = pxPrevious s n"
    and "\<And>j. pxContainer s' j = Some l \<longleftrightarrow> pxContainer s j = Some l"
    and "pxIndex s' l = pxIndex s l" and "uxNumberOfItems s' l = uxNumberOfItems s l"
    and "xItemValue s' (EndOf l) = xItemValue s (EndOf l)"
  shows "dll s' l ys"
proof -
  have "linked s' (EndOf l) ys (EndOf l) = linked s (EndOf l) ys (EndOf l)"
    using assms(3) by (intro linked_cong) auto
  with assms show ?thesis by (simp add: dll_def)
qed

lemma seg_ends_other:
  assumes "dll s k (as @ bs)" and "dll s l ys" and "l \<noteq> k"
  shows "seg_last (EndOf k) as \<notin> insert (EndOf l) (ItemOf ` set ys)"
    and "seg_first bs (EndOf k) \<notin> insert (EndOf l) (ItemOf ` set ys)"
proof -
  have disj: "set (as @ bs) \<inter> set ys = {}"
    using assms unfolding dll_def by (metis disjoint_iff option.inject)
  have "last as \<notin> set ys" if "as \<noteq> []"
    using last_in_set [OF that] disj unfolding set_append by blast
  with disj show "seg_last (EndOf k) as \<notin> insert (EndOf l) (ItemOf ` set ys)"
    "seg_first bs (EndOf k) \<notin> insert (EndOf l) (ItemOf ` set ys)"
    using assms(3) by (auto simp: seg_last_def seg_first_def split: list.splits if_splits)
qed

lemma insert_after_other:
  assumes dk: "dll s k (as @ bs)" and dl: "dll s l ys" and ne: "l \<noteq> k" and c: "pxContainer s i = None"
  shows "dll (insert_after s k i (seg_last (EndOf k) as)) l ys"
proof -
  have lkb: "linked s (seg_last (EndOf k) as) bs (EndOf k)"
    using dk by (simp add: dll_def linked_join)
  have i: "i \<notin> set ys" using dl c unfolding dll_def by (metis option.distinct(1))
  show ?thesis
  proof (rule dll_other [OF dl ne])
    fix n assume n: "n \<in> insert (EndOf l) (ItemOf ` set ys)"
    then have "n \<noteq> seg_last (EndOf k) as" "n \<noteq> seg_first bs (EndOf k)" "n \<noteq> ItemOf i"
      using seg_ends_other [OF dk dl ne] i by blast+
    then show "pxNext (insert_after s k i (seg_last (EndOf k) as)) n = pxNext s n \<and>
          pxPrevious (insert_after s k i (seg_last (EndOf k) as)) n = pxPrevious s n"
      using linked_first [OF lkb] by (simp add: insert_after_def Let_def)
  qed (use c ne in \<open>auto simp: state_simps\<close>)
qed

lemma uxListRemove_other:
  assumes dk: "dll s k (as @ i # bs)" and dl: "dll s l ys" and ne: "l \<noteq> k"
    and r: "uxListRemove s i = Some (s', n)"
  shows "dll s' l ys"
proof -
  have lk: "linked s (EndOf k) (as @ i # bs) (EndOf k)" and d: "distinct (as @ i # bs)"
    and c: "pxContainer s i = Some k"
    using dk by (auto simp: dll_def)
  have i: "i \<notin> set ys" using dl c ne unfolding dll_def by (metis option.inject)
  note u = unlink_linked [OF lk d]
  have e1: "seg_last (EndOf k) as \<notin> insert (EndOf l) (ItemOf ` set ys)"
    by (rule seg_ends_other [OF dk dl ne])
  have "seg_first bs (EndOf k) \<notin> insert (EndOf l) (ItemOf ` set ys)"
    by (rule seg_ends_other(2) [of s k "as @ [i]" bs]) (use dk dl ne in simp_all)
  then have off: "n \<noteq> pxPrevious s (ItemOf i)" "n \<noteq> pxNext s (ItemOf i)"
    if "n \<in> insert (EndOf l) (ItemOf ` set ys)" for n
    using that e1 u(2,3) by auto
  have "s' = (unlink s i)\<lparr>
       pxIndex := (if pxIndex s k = ItemOf i
                   then (pxIndex s)(k := pxPrevious s (ItemOf i)) else pxIndex s),
       pxContainer := (pxContainer s)(i := None),
       uxNumberOfItems := (uxNumberOfItems s)(k := uxNumberOfItems s k - 1)\<rparr>"
    using uxListRemove_unlink [OF c] r by simp
  then show ?thesis
    using off ne c by (intro dll_other [OF dl ne]) (simp_all add: unlink_def)
qed

section \<open>Correctness of the kernel list\<close>

text \<open>
  inserting a free item into a well-formed list in key order returns (the search loop stops),
  leaves a well-formed list in key order that holds the item after the items of equal key, and
  keeps the items and the order of every other list.
\<close>

theorem vListInsert_correct:
  assumes "dll s l xs" and "sorted (map (item_key s) xs)" and "pxContainer s i = None"
  shows "\<exists>s'. vListInsert s l i = Some s' \<and> dll s' l (insert_key (item_key s) i xs) \<and>
           sorted (map (item_key s') (insert_key (item_key s) i xs)) \<and>
           (\<forall>k ys. k \<noteq> l \<and> dll s k ys \<longrightarrow> dll s' k ys)"
proof -
  obtain s' where s': "vListInsert s l i = Some s'" "dll s' l (insert_key (item_key s) i xs)"
      "xItemValue s' = xItemValue s"
    using vListInsert_dll [OF assms(1,3)] by blast
  obtain as bs where xs: "xs = as @ bs" and e: "s' = insert_after s l i (seg_last (EndOf l) as)"
    using vListInsert_position [OF assms(1) s'(1)] by blast
  have "dll s' k ys" if "k \<noteq> l" "dll s k ys" for k ys
    using insert_after_other [OF _ that(2,1) assms(3)] assms(1) by (simp add: xs e)
  with s' sorted_insert_key [OF assms(2)] show ?thesis by auto
qed

text \<open>A store with two items of values 3 and 7 in list 0, and a free item of value 5.\<close>

definition sample_store :: "(nat, nat) lstore" where
  "sample_store = \<lparr>
     xItemValue = (\<lambda>n. case n of EndOf l \<Rightarrow> portMAX_DELAY | ItemOf i \<Rightarrow> [0, 3, 7, 5] ! i),
     pxNext = (\<lambda>n. n)(EndOf 0 := ItemOf 1, ItemOf 1 := ItemOf 2, ItemOf 2 := EndOf 0),
     pxPrevious = (\<lambda>n. n)(EndOf 0 := ItemOf 2, ItemOf 2 := ItemOf 1, ItemOf 1 := EndOf 0),
     pvOwner = (\<lambda>i. None), pxContainer = (\<lambda>i. None)(1 := Some 0, 2 := Some 0),
     pxIndex = (\<lambda>l. EndOf l), uxNumberOfItems = (\<lambda>l. 0)(0 := 2)\<rparr>"

lemma sample_store_dll: "dll sample_store 0 [1, 2]"
  by (auto simp: dll_def sample_store_def)

theorem vListInsert_correct_witness:
  "dll sample_store 0 [1, 2] \<and>
   (\<exists>s'. vListInsert sample_store 0 3 = Some s' \<and> dll s' 0 [1, 3, 2])"
proof -
  have "sorted (map (item_key sample_store) [1, 2])" "pxContainer sample_store 3 = None"
    by (simp_all add: sample_store_def)
  moreover have "insert_key (item_key sample_store) 3 [1, 2] = [1, 3, 2]"
    by (simp add: insert_key_def sample_store_def)
  ultimately show ?thesis
    using vListInsert_correct [OF sample_store_dll, of 3] sample_store_dll by auto
qed

text \<open>
  removing an item from the list that holds it leaves a well-formed list of the other items
  in their order, returns their number, frees the item, moves the walking index back when it was
  at the item, and keeps every other list.
\<close>

theorem uxListRemove_correct:
  assumes "dll s l (as @ i # bs)"
  shows "\<exists>s'. uxListRemove s i = Some (s', of_nat (length (as @ bs))) \<and> dll s' l (as @ bs) \<and>
           pxContainer s' i = None \<and> xItemValue s' = xItemValue s \<and>
           pxIndex s' l = (if pxIndex s l = ItemOf i then seg_last (EndOf l) as else pxIndex s l) \<and>
           (\<forall>k ys. k \<noteq> l \<and> dll s k ys \<longrightarrow> dll s' k ys)"
proof -
  obtain s' where r: "uxListRemove s i = Some (s', of_nat (length (as @ bs)))" "dll s' l (as @ bs)"
      "xItemValue s' = xItemValue s" "pxContainer s' = (pxContainer s)(i := None)"
      "pxIndex s' l = (if pxIndex s l = ItemOf i then seg_last (EndOf l) as else pxIndex s l)"
    using uxListRemove_dll [OF assms] by blast
  have "dll s' k ys" if "k \<noteq> l" "dll s k ys" for k ys
    using uxListRemove_other [OF assms that(2,1) r(1)] .
  with r show ?thesis by auto
qed

theorem uxListRemove_correct_witness:
  "dll sample_store 0 ([1] @ 2 # []) \<and>
   (\<exists>s'. uxListRemove sample_store 2 = Some (s', 1) \<and> dll s' 0 [1] \<and> pxContainer s' 2 = None)"
  using uxListRemove_correct [of sample_store 0 "[1]" 2 "[]"] sample_store_dll by auto

text \<open>
  adding an item at the walking position puts it last in the walk: a list read from its
  walking index on as \<open>bs\<close> then \<open>as\<close> is read as \<open>bs\<close>, \<open>as\<close>, the new item.
\<close>

theorem vListInsertEnd_correct:
  assumes "dll s l (as @ bs)" and "pxContainer s i = None"
    and "pxIndex s l = seg_first bs (EndOf l)"
  shows "dll (vListInsertEnd s l i) l (as @ i # bs) \<and>
         pxIndex (vListInsertEnd s l i) l = seg_first bs (EndOf l) \<and>
         (\<forall>k ys. k \<noteq> l \<and> dll s k ys \<longrightarrow> dll (vListInsertEnd s l i) k ys)"
proof -
  have i: "i \<notin> set (as @ bs)"
    using assms(1,2) unfolding dll_def by (metis option.distinct(1))
  have "linked s (EndOf l) (as @ bs) (EndOf l)" using assms(1) by (simp add: dll_def)
  then have e: "vListInsertEnd s l i = insert_after s l i (seg_last (EndOf l) as)"
    using i assms(3) by (rule vListInsertEnd_is_insert_after)
  have "dll (insert_after s l i (seg_last (EndOf l) as)) k ys" if "k \<noteq> l" "dll s k ys" for k ys
    using insert_after_other [OF assms(1) that(2,1) assms(2)] .
  then show ?thesis
    using insert_after_dll [OF assms(1,2)] assms(3) by (auto simp: e state_simps)
qed

theorem vListInsertEnd_correct_witness:
  "dll sample_store 0 ([1, 2] @ []) \<and> dll (vListInsertEnd sample_store 0 3) 0 [1, 2, 3]"
  using vListInsertEnd_correct [of sample_store 0 "[1, 2]" "[]" 3] sample_store_dll
  by (simp add: sample_store_def)

end
