(* ===== verification/Rtos_Heap4.thy ===== *)
theory Rtos_Heap4
  imports Prelude_Base
begin

text \<open>
  The real-time kernel's heap (\<^verbatim>\<open>middlewares/freertos/source/portable/MemMang/heap_4.c\<close>) with the
  heap protector: a list of free blocks in address order whose links are stored combined with a
  random canary, first-fit allocation with splitting, and freeing with coalescing. The store keeps
  the two fields of a block header by its address; \<open>free_list\<close> says which list of blocks the links
  describe, and allocation and freeing are shown to act on that list. The static \<^verbatim>\<open>xStart\<close> lies outside
  the heap array, so that no block is found right behind it. The canary is an argument; suspending the
  scheduler, tracing and the hook that is told of a failed allocation do not touch the heap.
\<close>

section \<open>The store\<close>

text \<open>A \<^verbatim>\<open>BlockLink_t *\<close> is the address of the static \<^verbatim>\<open>xStart\<close> or an address in the heap.\<close>

datatype hblk = XStart | Blk u32

record heap4 =
  ucHeap :: u32
  xHeapCanary :: u32
  pxNextFreeBlock :: "hblk \<Rightarrow> u32"
  xBlockSize :: "hblk \<Rightarrow> u32"
  pxEnd :: u32
  xFreeBytesRemaining :: u32
  xMinimumEverFreeBytesRemaining :: u32
  xNumberOfSuccessfulAllocations :: u32
  xNumberOfSuccessfulFrees :: u32

definition configTOTAL_HEAP_SIZE :: u32 where "configTOTAL_HEAP_SIZE = 133120"
definition xHeapStructSize :: u32 where "xHeapStructSize = 8"
definition heapMINIMUM_BLOCK_SIZE :: u32 where "heapMINIMUM_BLOCK_SIZE = 16"
definition portBYTE_ALIGNMENT_MASK :: u32 where "portBYTE_ALIGNMENT_MASK = 7"
definition heapBLOCK_ALLOCATED_BITMASK :: u32 where "heapBLOCK_ALLOCATED_BITMASK = 0x80000000"

definition heapADD_WILL_OVERFLOW :: "u32 \<Rightarrow> u32 \<Rightarrow> bool" where
  "heapADD_WILL_OVERFLOW a b \<longleftrightarrow> a > 0xFFFFFFFF - b"

definition heapMULTIPLY_WILL_OVERFLOW :: "u32 \<Rightarrow> u32 \<Rightarrow> bool" where
  "heapMULTIPLY_WILL_OVERFLOW a b \<longleftrightarrow> a > 0 \<and> b > 0xFFFFFFFF div a"

definition heapBLOCK_SIZE_IS_VALID :: "u32 \<Rightarrow> bool" where
  "heapBLOCK_SIZE_IS_VALID n \<longleftrightarrow> n AND heapBLOCK_ALLOCATED_BITMASK = 0"

definition heapBLOCK_IS_ALLOCATED :: "heap4 \<Rightarrow> u32 \<Rightarrow> bool" where
  "heapBLOCK_IS_ALLOCATED h b \<longleftrightarrow> xBlockSize h (Blk b) AND heapBLOCK_ALLOCATED_BITMASK \<noteq> 0"

definition heapPROTECT_BLOCK_POINTER :: "heap4 \<Rightarrow> u32 \<Rightarrow> u32" where
  "heapPROTECT_BLOCK_POINTER h p = p XOR xHeapCanary h"

definition heapVALIDATE_BLOCK_POINTER :: "heap4 \<Rightarrow> u32 \<Rightarrow> bool" where
  "heapVALIDATE_BLOCK_POINTER h p \<longleftrightarrow> p \<ge> ucHeap h \<and> p \<le> ucHeap h + (configTOTAL_HEAP_SIZE - 1)"

abbreviation set_next :: "hblk \<Rightarrow> u32 \<Rightarrow> heap4 \<Rightarrow> heap4" where
  "set_next b v h \<equiv> h\<lparr>pxNextFreeBlock := (pxNextFreeBlock h)(b := v)\<rparr>"

abbreviation set_size :: "hblk \<Rightarrow> u32 \<Rightarrow> heap4 \<Rightarrow> heap4" where
  "set_size b v h \<equiv> h\<lparr>xBlockSize := (xBlockSize h)(b := v)\<rparr>"

section \<open>Initialisation\<close>

definition prvHeapInit :: "u32 \<Rightarrow> heap4 \<Rightarrow> heap4" where
  "prvHeapInit random h =
    (let (uxStartAddress, xTotalHeapSize) =
       (if ucHeap h AND portBYTE_ALIGNMENT_MASK \<noteq> 0
        then (let a = (ucHeap h + 7) AND NOT portBYTE_ALIGNMENT_MASK
              in (a, configTOTAL_HEAP_SIZE - (a - ucHeap h)))
        else (ucHeap h, configTOTAL_HEAP_SIZE));
         h = h\<lparr>xHeapCanary := random\<rparr>;
         h = set_next XStart (heapPROTECT_BLOCK_POINTER h uxStartAddress) h;
         h = set_size XStart 0 h;
         uxEndAddress = (uxStartAddress + xTotalHeapSize - xHeapStructSize) AND NOT portBYTE_ALIGNMENT_MASK;
         h = h\<lparr>pxEnd := uxEndAddress\<rparr>;
         h = set_size (Blk uxEndAddress) 0 h;
         h = set_next (Blk uxEndAddress) (heapPROTECT_BLOCK_POINTER h 0) h;
         h = set_size (Blk uxStartAddress) (uxEndAddress - uxStartAddress) h;
         h = set_next (Blk uxStartAddress) (heapPROTECT_BLOCK_POINTER h uxEndAddress) h
     in h\<lparr>xMinimumEverFreeBytesRemaining := xBlockSize h (Blk uxStartAddress),
          xFreeBytesRemaining := xBlockSize h (Blk uxStartAddress)\<rparr>)"

section \<open>Allocation\<close>

text \<open>The size asked for with the header added, rounded up to the alignment; zero on overflow.\<close>

definition required_size :: "u32 \<Rightarrow> u32" where
  "required_size xWantedSize =
    (if xWantedSize > 0 then
       (if \<not> heapADD_WILL_OVERFLOW xWantedSize xHeapStructSize then
          (let xWantedSize = xWantedSize + xHeapStructSize in
           if xWantedSize AND portBYTE_ALIGNMENT_MASK \<noteq> 0 then
             (let xAdditionalRequiredSize = 8 - (xWantedSize AND portBYTE_ALIGNMENT_MASK) in
              if \<not> heapADD_WILL_OVERFLOW xWantedSize xAdditionalRequiredSize
              then xWantedSize + xAdditionalRequiredSize else 0)
           else xWantedSize)
        else 0)
     else xWantedSize)"

text \<open>
  The search loop. \<open>None\<close> is not returning: a loop that goes on for ever, or a failed \<^verbatim>\<open>configASSERT\<close>,
  which stops the system.
\<close>

partial_function (option) malloc_search :: "heap4 \<Rightarrow> u32 \<Rightarrow> hblk \<Rightarrow> u32 \<Rightarrow> (hblk \<times> u32) option" where
  "malloc_search h want prev b =
    (if xBlockSize h (Blk b) < want \<and> pxNextFreeBlock h (Blk b) \<noteq> heapPROTECT_BLOCK_POINTER h 0 then
       (if heapVALIDATE_BLOCK_POINTER h (heapPROTECT_BLOCK_POINTER h (pxNextFreeBlock h (Blk b)))
        then malloc_search h want (Blk b) (heapPROTECT_BLOCK_POINTER h (pxNextFreeBlock h (Blk b)))
        else None)
     else Some (prev, b))"

text \<open>Taking a block out of the list, the rest of a large one becoming a new free block.\<close>

definition take_block :: "u32 \<Rightarrow> hblk \<Rightarrow> u32 \<Rightarrow> heap4 \<Rightarrow> (heap4 \<times> u32) option" where
  "take_block want prev b h =
    (let pvReturn = heapPROTECT_BLOCK_POINTER h (pxNextFreeBlock h prev) + xHeapStructSize in
     if \<not> heapVALIDATE_BLOCK_POINTER h pvReturn then None
     else
       (let h = set_next prev (pxNextFreeBlock h (Blk b)) h in
        if xBlockSize h (Blk b) < want then None
        else
          (let split = xBlockSize h (Blk b) - want > heapMINIMUM_BLOCK_SIZE;
               new = b + want
           in if split \<and> new AND portBYTE_ALIGNMENT_MASK \<noteq> 0 then None
              else
                (let h = (if split then
                            (let h = set_size (Blk new) (xBlockSize h (Blk b) - want) h;
                                 h = set_size (Blk b) want h;
                                 h = set_next (Blk new) (pxNextFreeBlock h prev) h
                             in set_next prev (heapPROTECT_BLOCK_POINTER h new) h)
                          else h);
                     h = h\<lparr>xFreeBytesRemaining := xFreeBytesRemaining h - xBlockSize h (Blk b)\<rparr>;
                     h = (if xFreeBytesRemaining h < xMinimumEverFreeBytesRemaining h
                          then h\<lparr>xMinimumEverFreeBytesRemaining := xFreeBytesRemaining h\<rparr> else h);
                     h = set_size (Blk b) (xBlockSize h (Blk b) OR heapBLOCK_ALLOCATED_BITMASK) h;
                     h = set_next (Blk b) (heapPROTECT_BLOCK_POINTER h 0) h
                 in Some (h\<lparr>xNumberOfSuccessfulAllocations := xNumberOfSuccessfulAllocations h + 1\<rparr>,
                          pvReturn)))))"

definition pvPortMalloc :: "u32 \<Rightarrow> u32 \<Rightarrow> heap4 \<Rightarrow> (heap4 \<times> u32) option" where
  "pvPortMalloc random xWantedSize h =
    (let want = required_size xWantedSize;
         h = (if pxEnd h = 0 then prvHeapInit random h else h);
         r = (if heapBLOCK_SIZE_IS_VALID want \<and> want > 0 \<and> want \<le> xFreeBytesRemaining h then
                (let b = heapPROTECT_BLOCK_POINTER h (pxNextFreeBlock h XStart) in
                 if \<not> heapVALIDATE_BLOCK_POINTER h b then None
                 else
                   (case malloc_search h want XStart b of
                      None \<Rightarrow> None
                    | Some (prev, b) \<Rightarrow> if b \<noteq> pxEnd h then take_block want prev b h else Some (h, 0)))
              else Some (h, 0))
     in case r of
          None \<Rightarrow> None
        | Some (h, pvReturn) \<Rightarrow>
            if pvReturn AND portBYTE_ALIGNMENT_MASK = 0 then Some (h, pvReturn) else None)"

section \<open>Freeing\<close>

partial_function (option) insert_search :: "heap4 \<Rightarrow> u32 \<Rightarrow> hblk \<Rightarrow> hblk option" where
  "insert_search h b it =
    (if heapPROTECT_BLOCK_POINTER h (pxNextFreeBlock h it) < b
     then insert_search h b (Blk (heapPROTECT_BLOCK_POINTER h (pxNextFreeBlock h it)))
     else Some it)"

text \<open>The block before and the block after are merged with the inserted one when they touch it.\<close>

definition insert_merge :: "u32 \<Rightarrow> hblk \<Rightarrow> heap4 \<Rightarrow> heap4" where
  "insert_merge b it h =
    (let (b, h) =
       (case it of
          XStart \<Rightarrow> (b, h)
        | Blk i \<Rightarrow>
            if i + xBlockSize h (Blk i) = b
            then (i, set_size (Blk i) (xBlockSize h (Blk i) + xBlockSize h (Blk b)) h) else (b, h));
         nx = heapPROTECT_BLOCK_POINTER h (pxNextFreeBlock h it);
         h = (if b + xBlockSize h (Blk b) = nx then
                (if nx \<noteq> pxEnd h then
                   (let h = set_size (Blk b) (xBlockSize h (Blk b) + xBlockSize h (Blk nx)) h
                    in set_next (Blk b) (pxNextFreeBlock h (Blk nx)) h)
                 else set_next (Blk b) (heapPROTECT_BLOCK_POINTER h (pxEnd h)) h)
              else set_next (Blk b) (pxNextFreeBlock h it) h)
     in if it \<noteq> Blk b then set_next it (heapPROTECT_BLOCK_POINTER h b) h else h)"

definition prvInsertBlockIntoFreeList :: "u32 \<Rightarrow> heap4 \<Rightarrow> heap4 option" where
  "prvInsertBlockIntoFreeList b h =
    (case insert_search h b XStart of
       None \<Rightarrow> None
     | Some it \<Rightarrow>
         if (case it of XStart \<Rightarrow> True | Blk i \<Rightarrow> heapVALIDATE_BLOCK_POINTER h i)
         then Some (insert_merge b it h) else None)"

definition vPortFree :: "u32 \<Rightarrow> heap4 \<Rightarrow> heap4 option" where
  "vPortFree pv h =
    (if pv \<noteq> 0 then
       (let b = pv - xHeapStructSize in
        if \<not> heapVALIDATE_BLOCK_POINTER h b \<or> \<not> heapBLOCK_IS_ALLOCATED h b \<or>
           pxNextFreeBlock h (Blk b) \<noteq> heapPROTECT_BLOCK_POINTER h 0 then None
        else
          (let h = set_size (Blk b) (xBlockSize h (Blk b) AND NOT heapBLOCK_ALLOCATED_BITMASK) h;
               h = h\<lparr>xFreeBytesRemaining := xFreeBytesRemaining h + xBlockSize h (Blk b)\<rparr>
           in map_option (\<lambda>h. h\<lparr>xNumberOfSuccessfulFrees := xNumberOfSuccessfulFrees h + 1\<rparr>)
                (prvInsertBlockIntoFreeList b h)))
     else Some h)"

section \<open>Statistics and reset\<close>

definition xPortGetFreeHeapSize :: "heap4 \<Rightarrow> u32" where
  "xPortGetFreeHeapSize h = xFreeBytesRemaining h"

definition xPortGetMinimumEverFreeHeapSize :: "heap4 \<Rightarrow> u32" where
  "xPortGetMinimumEverFreeHeapSize h = xMinimumEverFreeBytesRemaining h"

definition xPortResetHeapMinimumEverFreeHeapSize :: "heap4 \<Rightarrow> heap4" where
  "xPortResetHeapMinimumEverFreeHeapSize h = h\<lparr>xMinimumEverFreeBytesRemaining := xFreeBytesRemaining h\<rparr>"

definition vPortHeapResetState :: "heap4 \<Rightarrow> heap4" where
  "vPortHeapResetState h = h\<lparr>pxEnd := 0, xFreeBytesRemaining := 0, xMinimumEverFreeBytesRemaining := 0,
     xNumberOfSuccessfulAllocations := 0, xNumberOfSuccessfulFrees := 0\<rparr>"

text \<open>The bytes cleared by \<^verbatim>\<open>pvPortCalloc\<close> are named by their number.\<close>

definition pvPortCalloc :: "u32 \<Rightarrow> u32 \<Rightarrow> u32 \<Rightarrow> heap4 \<Rightarrow> (heap4 \<times> u32 \<times> u32) option" where
  "pvPortCalloc random xNum xSize h =
    (if \<not> heapMULTIPLY_WILL_OVERFLOW xNum xSize then
       map_option (\<lambda>(h, pv). (h, pv, if pv \<noteq> 0 then xNum * xSize else 0)) (pvPortMalloc random (xNum * xSize) h)
     else Some (h, 0, 0))"

text \<open>The walk of \<^verbatim>\<open>vPortGetHeapStats\<close>: the number, the largest and the smallest of the free blocks.\<close>

partial_function (option) stats_walk :: "heap4 \<Rightarrow> u32 \<Rightarrow> u32 \<Rightarrow> u32 \<Rightarrow> u32 \<Rightarrow> (u32 \<times> u32 \<times> u32) option" where
  "stats_walk h b xBlocks xMaxSize xMinSize =
    (if b \<noteq> pxEnd h then
       stats_walk h (heapPROTECT_BLOCK_POINTER h (pxNextFreeBlock h (Blk b))) (xBlocks + 1)
         (if xBlockSize h (Blk b) > xMaxSize then xBlockSize h (Blk b) else xMaxSize)
         (if xBlockSize h (Blk b) < xMinSize then xBlockSize h (Blk b) else xMinSize)
     else Some (xBlocks, xMaxSize, xMinSize))"

record HeapStats_t =
  xAvailableHeapSpaceInBytes :: u32
  xSizeOfLargestFreeBlockInBytes :: u32
  xSizeOfSmallestFreeBlockInBytes :: u32
  xNumberOfFreeBlocks :: u32
  xMinimumEverFreeBytes :: u32
  xSuccessfulAllocations :: u32
  xSuccessfulFrees :: u32

definition vPortGetHeapStats :: "heap4 \<Rightarrow> HeapStats_t option" where
  "vPortGetHeapStats h =
    (let b = heapPROTECT_BLOCK_POINTER h (pxNextFreeBlock h XStart) in
     map_option
       (\<lambda>(xBlocks, xMaxSize, xMinSize).
          \<lparr>xAvailableHeapSpaceInBytes = xFreeBytesRemaining h, xSizeOfLargestFreeBlockInBytes = xMaxSize,
           xSizeOfSmallestFreeBlockInBytes = xMinSize, xNumberOfFreeBlocks = xBlocks,
           xMinimumEverFreeBytes = xMinimumEverFreeBytesRemaining h,
           xSuccessfulAllocations = xNumberOfSuccessfulAllocations h,
           xSuccessfulFrees = xNumberOfSuccessfulFrees h\<rparr>)
       (if b \<noteq> 0 then stats_walk h b 0 0 0xFFFFFFFF else Some (0, 0, 0xFFFFFFFF)))"

section \<open>What the links describe\<close>

type_synonym block = "u32 \<times> u32"

fun seg :: "heap4 \<Rightarrow> hblk \<Rightarrow> block list \<Rightarrow> bool" where
  "seg h p [] \<longleftrightarrow> True"
| "seg h p ((a, n) # fs) \<longleftrightarrow>
     pxNextFreeBlock h p = heapPROTECT_BLOCK_POINTER h a \<and> xBlockSize h (Blk a) = n \<and> seg h (Blk a) fs"

definition last_node :: "hblk \<Rightarrow> block list \<Rightarrow> hblk" where
  "last_node p fs = (if fs = [] then p else Blk (fst (last fs)))"

lemma last_node_simps [simp]:
  "last_node p [] = p" "last_node p (x # fs) = last_node (Blk (fst x)) fs"
  "last_node p (fs @ [x]) = Blk (fst x)"
  by (auto simp: last_node_def)

lemma seg_append: "seg h p (as @ bs) \<longleftrightarrow> seg h p as \<and> seg h (last_node p as) bs"
  by (induction h p as rule: seg.induct) auto

text \<open>Blocks in address order, from \<open>lo\<close> on, no two touching, the last one ending by \<open>hi\<close>.\<close>

fun ordered :: "nat \<Rightarrow> block list \<Rightarrow> nat \<Rightarrow> bool" where
  "ordered lo [] hi \<longleftrightarrow> lo \<le> hi + 1"
| "ordered lo ((a, n) # fs) hi \<longleftrightarrow>
     lo \<le> unat a \<and> 0 < unat n \<and> ordered (unat a + unat n + 1) fs hi"

definition sizes :: "block list \<Rightarrow> nat" where
  "sizes fs = sum_list (map (\<lambda>(a, n). unat n) fs)"

definition free_list :: "heap4 \<Rightarrow> block list \<Rightarrow> bool" where
  "free_list h fs \<longleftrightarrow>
     seg h XStart (fs @ [(pxEnd h, 0)]) \<and>
     pxNextFreeBlock h (Blk (pxEnd h)) = heapPROTECT_BLOCK_POINTER h 0 \<and>
     ordered (unat (ucHeap h)) fs (unat (pxEnd h)) \<and>
     (\<forall>(a, n) \<in> set fs. a AND 7 = 0 \<and> n AND 7 = 0) \<and>
     0 < unat (ucHeap h) \<and> unat (pxEnd h) + 8 \<le> unat (ucHeap h) + 133120 \<and>
     unat (ucHeap h) + 133120 < 2 ^ 31 \<and> ucHeap h \<le> pxEnd h \<and>
     unat (xFreeBytesRemaining h) = sizes fs"

section \<open>Links and order\<close>

lemma protect_protect [simp]: "heapPROTECT_BLOCK_POINTER h (heapPROTECT_BLOCK_POINTER h p) = p"
  by (simp add: heapPROTECT_BLOCK_POINTER_def xor.assoc)

lemma protect_eq_iff [simp]: "heapPROTECT_BLOCK_POINTER h p = heapPROTECT_BLOCK_POINTER h q \<longleftrightarrow> p = q"
  by (metis protect_protect)

lemma protect_cong: "xHeapCanary h' = xHeapCanary h \<Longrightarrow> heapPROTECT_BLOCK_POINTER h' = heapPROTECT_BLOCK_POINTER h"
  by (simp add: heapPROTECT_BLOCK_POINTER_def fun_eq_iff)

text \<open>A segment in another store, possibly hung on another node.\<close>

lemma seg_transfer:
  assumes "seg h p xs" and "xHeapCanary h' = xHeapCanary h"
    and "xs \<noteq> [] \<Longrightarrow> pxNextFreeBlock h' q = pxNextFreeBlock h p"
    and "\<And>a n. (a, n) \<in> set xs \<Longrightarrow> xBlockSize h' (Blk a) = xBlockSize h (Blk a)"
    and "\<And>a n. (a, n) \<in> set (butlast xs) \<Longrightarrow> pxNextFreeBlock h' (Blk a) = pxNextFreeBlock h (Blk a)"
  shows "seg h' q xs"
  using assms
proof (induction xs arbitrary: p q)
  case Nil
  then show ?case by simp
next
  case (Cons x xs)
  obtain a n where x: "x = (a, n)" by fastforce
  have "seg h' (Blk a) xs"
  proof (rule Cons.IH [of "Blk a"])
    show "pxNextFreeBlock h' (Blk aa) = pxNextFreeBlock h (Blk aa)" if "(aa, na) \<in> set (butlast xs)" for aa na
      using Cons.prems(5) [of aa na] that x by (cases "xs = []") auto
  qed (use Cons.prems x in auto)
  then show ?case using Cons.prems x protect_cong [OF Cons.prems(2)] by auto
qed

lemma ordered_mono: "ordered lo fs hi \<Longrightarrow> lo' \<le> lo \<Longrightarrow> hi \<le> hi' \<Longrightarrow> ordered lo' fs hi'"
  by (induction lo fs hi arbitrary: lo' rule: ordered.induct) auto

lemma ordered_bounds: "ordered lo fs hi \<Longrightarrow> lo \<le> hi + 1"
  by (induction lo fs hi rule: ordered.induct) auto

lemma ordered_in:
  "ordered lo fs hi \<Longrightarrow> (a, n) \<in> set fs \<Longrightarrow> lo \<le> unat a \<and> 0 < unat n \<and> unat a + unat n \<le> hi"
proof (induction lo fs hi rule: ordered.induct)
  case (2 lo a' n' fs hi)
  then show ?case using ordered_bounds [of "unat a' + unat n' + 1" fs hi] by fastforce
qed simp

lemma ordered_append:
  "0 < unat a \<Longrightarrow> ordered lo (as @ (a, n) # bs) hi \<longleftrightarrow>
     ordered lo as (unat a - 1) \<and> 0 < unat n \<and> ordered (unat a + unat n + 1) bs hi"
  by (induction lo as "unat a - 1" rule: ordered.induct) auto

lemma ordered_append': "ordered lo (as @ bs) hi \<Longrightarrow> (x, m) \<in> set as \<Longrightarrow> (y, k) \<in> set bs \<Longrightarrow>
    unat x + unat m + 1 \<le> unat y"
proof (induction lo as hi rule: ordered.induct)
  case (2 lo a n fs hi)
  then show ?case using ordered_in [of "unat a + unat n + 1" "fs @ bs" hi y k] by auto
qed simp

lemma ordered_distinct: "ordered lo fs hi \<Longrightarrow> distinct (map fst fs)"
proof (induction lo fs hi rule: ordered.induct)
  case (2 lo a n fs hi)
  have "a \<notin> fst ` set fs"
  proof
    assume "a \<in> fst ` set fs"
    then obtain m where "(a, m) \<in> set fs" by auto
    then show False using ordered_in [of "unat a + unat n + 1" fs hi a m] 2(2) by simp
  qed
  then show ?case using 2 by simp
qed simp

lemma sizes_simps [simp]: "sizes [] = 0" "sizes ((a, n) # fs) = unat n + sizes fs"
  "sizes (as @ bs) = sizes as + sizes bs"
  by (simp_all add: sizes_def)

lemma ordered_sizes: "ordered lo fs hi \<Longrightarrow> lo + sizes fs \<le> hi + 1"
  by (induction lo fs hi rule: ordered.induct) auto

lemma and_7: "(x :: u32) AND 7 = 0 \<longleftrightarrow> 8 dvd unat x"
proof -
  have "x AND 7 = take_bit 3 x"
    by (rule word_eq_bitsI) (simp add: bit_positions bit_simps)
  moreover have "unat (take_bit 3 x) = unat x mod 8"
    unfolding unsigned_take_bit_eq by (simp add: take_bit_eq_mod)
  ultimately show ?thesis by (metis unat_eq_zero unat_0 mod_0_imp_dvd dvd_imp_mod_0)
qed

text \<open>The bytes of a list of blocks.\<close>

definition bytes_of :: "block list \<Rightarrow> nat set" where
  "bytes_of fs = (\<Union>(a, n) \<in> set fs. {unat a ..< unat a + unat n})"

lemma bytes_of_simps [simp]:
  "bytes_of [] = {}" "bytes_of ((a, n) # fs) = {unat a ..< unat a + unat n} \<union> bytes_of fs"
  "bytes_of (as @ bs) = bytes_of as \<union> bytes_of bs"
  by (auto simp: bytes_of_def)

section \<open>Allocation acts on the list\<close>

lemma free_list_valid:
  assumes "free_list h fs"
  shows "heapVALIDATE_BLOCK_POINTER h (pxEnd h)"
    and "(a, n) \<in> set fs \<Longrightarrow> heapVALIDATE_BLOCK_POINTER h a"
    and "pxEnd h \<noteq> 0" and "(a, n) \<in> set fs \<Longrightarrow> a \<noteq> 0"
proof -
  have b: "0 < unat (ucHeap h)" "unat (pxEnd h) + 8 \<le> unat (ucHeap h) + 133120"
    "unat (ucHeap h) + 133120 < 2 ^ 31" "unat (ucHeap h) \<le> unat (pxEnd h)"
    "ordered (unat (ucHeap h)) fs (unat (pxEnd h))"
    using assms by (simp_all add: free_list_def word_le_nat_alt)
  have t: "unat (ucHeap h + (configTOTAL_HEAP_SIZE - 1)) = unat (ucHeap h) + 133119"
    using b by (simp add: configTOTAL_HEAP_SIZE_def unat_add_small)
  show "heapVALIDATE_BLOCK_POINTER h (pxEnd h)"
    using b t by (simp add: heapVALIDATE_BLOCK_POINTER_def word_le_nat_alt)
  show "pxEnd h \<noteq> 0" using b by auto
  assume "(a, n) \<in> set fs"
  then have "unat (ucHeap h) \<le> unat a" "unat a + unat n \<le> unat (pxEnd h)"
    using ordered_in [OF b(5)] by auto
  then show "heapVALIDATE_BLOCK_POINTER h a" "a \<noteq> 0"
    using b t by (auto simp: heapVALIDATE_BLOCK_POINTER_def word_le_nat_alt)
qed

lemma malloc_search_finds:
  assumes "seg h p (fs @ [(E, 0)])" and "pxNextFreeBlock h (Blk E) = heapPROTECT_BLOCK_POINTER h 0"
    and "heapVALIDATE_BLOCK_POINTER h E" and "E \<noteq> 0"
    and "\<And>a n. (a, n) \<in> set fs \<Longrightarrow> heapVALIDATE_BLOCK_POINTER h a \<and> a \<noteq> 0"
  shows "malloc_search h want p (fst (hd (fs @ [(E, 0)]))) =
    Some (last_node p (takeWhile (\<lambda>(a, n). n < want) fs),
          fst (hd (dropWhile (\<lambda>(a, n). n < want) fs @ [(E, 0)])))"
  using assms
proof (induction fs arbitrary: p)
  case Nil
  then show ?case by (subst malloc_search.simps) simp
next
  case (Cons x fs)
  obtain a n where x: "x = (a, n)" by fastforce
  show ?case
  proof (cases "n < want")
    case True
    have nx: "pxNextFreeBlock h (Blk a) = heapPROTECT_BLOCK_POINTER h (fst (hd (fs @ [(E, 0)])))"
      using Cons.prems(1) x by (cases fs) auto
    have ne: "fst (hd (fs @ [(E, 0)])) \<noteq> 0" and v: "heapVALIDATE_BLOCK_POINTER h (fst (hd (fs @ [(E, 0)])))"
      using Cons.prems(3-5) by (cases fs; force)+
    have "malloc_search h want (Blk a) (fst (hd (fs @ [(E, 0)]))) =
        Some (last_node (Blk a) (takeWhile (\<lambda>(a, n). n < want) fs),
          fst (hd (dropWhile (\<lambda>(a, n). n < want) fs @ [(E, 0)])))"
      by (rule Cons.IH) (use Cons.prems x in auto)
    then show ?thesis
      using True Cons.prems(1) x nx ne v by (subst malloc_search.simps) simp
  next
    case False
    then show ?thesis using Cons.prems(1) x by (subst malloc_search.simps) simp
  qed
qed

text \<open>The blocks that stay free when \<open>want\<close> bytes are taken from a block.\<close>

definition remainder :: "u32 \<Rightarrow> block \<Rightarrow> block list" where
  "remainder want b = (case b of (a, n) \<Rightarrow> if n - want > 16 then [(a + want, n - want)] else [])"

definition taken :: "u32 \<Rightarrow> u32 \<Rightarrow> u32" where
  "taken want n = (if n - want > 16 then want else n)"

text \<open>A block in use: marked, linked to nothing, apart from the free blocks.\<close>

definition in_use :: "heap4 \<Rightarrow> block list \<Rightarrow> u32 \<Rightarrow> u32 \<Rightarrow> bool" where
  "in_use h fs b n \<longleftrightarrow>
     xBlockSize h (Blk b) = n OR heapBLOCK_ALLOCATED_BITMASK \<and> n AND heapBLOCK_ALLOCATED_BITMASK = 0 \<and>
     pxNextFreeBlock h (Blk b) = heapPROTECT_BLOCK_POINTER h 0 \<and>
     b AND 7 = 0 \<and> n AND 7 = 0 \<and> 0 < unat n \<and>
     unat (ucHeap h) \<le> unat b \<and> unat b + unat n \<le> unat (pxEnd h) \<and>
     {unat b ..< unat b + unat n} \<inter> bytes_of fs = {}"

text \<open>Cutting the list after \<open>as\<close> and hanging \<open>mid\<close> and the rest there.\<close>

lemma seg_surgery:
  assumes "seg h XStart as" and "seg h q rest" and "xHeapCanary h' = xHeapCanary h"
    and "\<And>x m. (x, m) \<in> set as \<Longrightarrow> xBlockSize h' (Blk x) = xBlockSize h (Blk x)"
    and "\<And>x m. (x, m) \<in> set (butlast as) \<Longrightarrow> pxNextFreeBlock h' (Blk x) = pxNextFreeBlock h (Blk x)"
    and "as \<noteq> [] \<Longrightarrow> pxNextFreeBlock h' XStart = pxNextFreeBlock h XStart"
    and "seg h' (last_node XStart as) mid"
    and "pxNextFreeBlock h' (last_node XStart (as @ mid)) = pxNextFreeBlock h q"
    and "\<And>x m. (x, m) \<in> set rest \<Longrightarrow> xBlockSize h' (Blk x) = xBlockSize h (Blk x)"
    and "\<And>x m. (x, m) \<in> set (butlast rest) \<Longrightarrow> pxNextFreeBlock h' (Blk x) = pxNextFreeBlock h (Blk x)"
  shows "seg h' XStart (as @ mid @ rest)"
proof -
  have 1: "seg h' XStart as"
    by (rule seg_transfer [OF assms(1,3)]) (use assms in auto)
  have e: "last_node (last_node XStart as) mid = last_node XStart (as @ mid)"
    by (auto simp: last_node_def)
  have 2: "seg h' (last_node (last_node XStart as) mid) rest"
    by (rule seg_transfer [OF assms(2,3)]) (use assms e in auto)
  show ?thesis using 1 2 assms(7) by (simp add: seg_append)
qed

lemma last_node_in: "last_node XStart as = XStart \<and> as = [] \<or> (\<exists>x m. (x, m) \<in> set as \<and> last_node XStart as = Blk x)"
  unfolding last_node_def by (cases as rule: rev_cases) auto

lemma last_node_not_butlast:
  "distinct (map fst as) \<Longrightarrow> (x, m) \<in> set (butlast as) \<Longrightarrow> last_node XStart as \<noteq> Blk x"
  unfolding last_node_def by (cases as rule: rev_cases) (auto simp: image_iff)

text \<open>Where the blocks of a list lie around one of them.\<close>

lemma free_list_around:
  assumes "free_list h (as @ (a, n) # bs)"
  shows "(x, m) \<in> set as \<Longrightarrow> unat x + unat m + 1 \<le> unat a"
    and "(x, m) \<in> set bs \<Longrightarrow> unat a + unat n + 1 \<le> unat x"
    and "unat (ucHeap h) \<le> unat a" and "0 < unat n" and "unat a + unat n \<le> unat (pxEnd h)"
    and "unat (pxEnd h) < 2 ^ 31"
proof -
  have o: "ordered (unat (ucHeap h)) (as @ (a, n) # bs) (unat (pxEnd h))"
    using assms by (simp add: free_list_def)
  show "(x, m) \<in> set as \<Longrightarrow> unat x + unat m + 1 \<le> unat a"
    using ordered_append' [OF o, of x m a n] by simp
  show "unat (ucHeap h) \<le> unat a" "0 < unat n" "unat a + unat n \<le> unat (pxEnd h)"
    using ordered_in [OF o, of a n] by simp_all
  show "(x, m) \<in> set bs \<Longrightarrow> unat a + unat n + 1 \<le> unat x"
    using ordered_append' [of "unat (ucHeap h)" "as @ [(a, n)]" bs "unat (pxEnd h)" a n x m] o by simp
  show "unat (pxEnd h) < 2 ^ 31" using assms by (simp add: free_list_def)
qed

lemma alloc_bit: "n AND heapBLOCK_ALLOCATED_BITMASK = 0 \<longleftrightarrow> unat n < 2 ^ 31"
proof -
  have hb: "32 \<le> i \<Longrightarrow> \<not> bit n i" for i by (auto dest: bit_imp_le_length)
  have 1: "n AND heapBLOCK_ALLOCATED_BITMASK = push_bit 31 (drop_bit 31 n)"
    and 2: "drop_bit 31 (n AND heapBLOCK_ALLOCATED_BITMASK) = drop_bit 31 n"
    by (rule word_eq_bitsI, simp add: bit_positions heapBLOCK_ALLOCATED_BITMASK_def bit_simps hb)+
  have "n AND heapBLOCK_ALLOCATED_BITMASK = 0 \<longleftrightarrow> drop_bit 31 n = 0"
    using 1 2 by (metis drop_bit_of_0 push_bit_of_0)
  also have "\<dots> \<longleftrightarrow> unat n div 2 ^ 31 = 0"
    using unat_drop_bit_eq [of 31 n] by (metis drop_bit_eq_div unat_eq_zero)
  finally show ?thesis by auto
qed

lemma protect_update [simp]:
  "heapPROTECT_BLOCK_POINTER (pxNextFreeBlock_update f h) = heapPROTECT_BLOCK_POINTER h"
  "heapPROTECT_BLOCK_POINTER (xBlockSize_update g h) = heapPROTECT_BLOCK_POINTER h"
  "heapPROTECT_BLOCK_POINTER (xFreeBytesRemaining_update v h) = heapPROTECT_BLOCK_POINTER h"
  "heapPROTECT_BLOCK_POINTER (xMinimumEverFreeBytesRemaining_update v h) = heapPROTECT_BLOCK_POINTER h"
  by (simp_all add: fun_eq_iff heapPROTECT_BLOCK_POINTER_def)

lemma take_block_fields:
  assumes fl: "free_list h (as @ (a, n) # bs)" and want: "want \<le> n" "want AND 7 = 0" "0 < unat want"
  defines "prev \<equiv> last_node XStart as"
  shows "\<exists>h'. take_block want prev a h = Some (h', a + 8) \<and>
     xHeapCanary h' = xHeapCanary h \<and> pxEnd h' = pxEnd h \<and> ucHeap h' = ucHeap h \<and>
     xFreeBytesRemaining h' = xFreeBytesRemaining h - taken want n \<and>
     pxNextFreeBlock h' = (if n - want > 16
       then (pxNextFreeBlock h)(prev := heapPROTECT_BLOCK_POINTER h (a + want),
              Blk (a + want) := pxNextFreeBlock h (Blk a), Blk a := heapPROTECT_BLOCK_POINTER h 0)
       else (pxNextFreeBlock h)(prev := pxNextFreeBlock h (Blk a), Blk a := heapPROTECT_BLOCK_POINTER h 0)) \<and>
     xBlockSize h' = (if n - want > 16
       then (xBlockSize h)(Blk (a + want) := n - want, Blk a := want OR heapBLOCK_ALLOCATED_BITMASK)
       else (xBlockSize h)(Blk a := n OR heapBLOCK_ALLOCATED_BITMASK))"
proof -
  note ar = free_list_around [OF fl]
  have sg: "pxNextFreeBlock h prev = heapPROTECT_BLOCK_POINTER h a" "xBlockSize h (Blk a) = n"
    using fl by (simp_all add: free_list_def seg_append prev_def)
  have prev_a: "prev \<noteq> Blk a" using last_node_in [of as] ar(1) by (fastforce simp: prev_def)
  have wn: "unat want \<le> unat n" using want by (simp add: word_le_nat_alt)
  have u: "unat (a + want) = unat a + unat want"
    using ar(5,6) wn by (subst unat_add_small) simp_all
  have new_a: "a + want \<noteq> a" using u want(3) by (metis add_cancel_left_right less_numeral_extra(3))
  have prev_new: "prev \<noteq> Blk (a + want)"
    using last_node_in [of as] ar(1) u by (fastforce simp: prev_def)
  have al: "a AND 7 = 0" "(a + want) AND 7 = 0"
    using fl want(2) u by (simp_all add: free_list_def and_7)
  have u8: "unat (a + 8) = unat a + 8" using ar(5,6) by (subst unat_add_small) simp_all
  have bnd: "unat (ucHeap h) + 133120 < 2 ^ 31" "unat (pxEnd h) + 8 \<le> unat (ucHeap h) + 133120"
    using fl by (simp_all add: free_list_def)
  have "unat (ucHeap h + (configTOTAL_HEAP_SIZE - 1)) = unat (ucHeap h) + 133119"
    using bnd by (simp add: configTOTAL_HEAP_SIZE_def unat_add_small)
  then have v: "heapVALIDATE_BLOCK_POINTER h (a + 8)"
    using ar(3-5) bnd u8 by (simp add: heapVALIDATE_BLOCK_POINTER_def word_le_nat_alt)
  show ?thesis
    using sg prev_a new_a prev_new al v want(1)
    by (auto simp: take_block_def Let_def xHeapStructSize_def heapMINIMUM_BLOCK_SIZE_def
        portBYTE_ALIGNMENT_MASK_def taken_def fun_upd_twist not_le)
qed

lemma ordered_join:
  "ordered lo as hi1 \<Longrightarrow> ordered lo2 bs hi \<Longrightarrow> hi1 + 1 \<le> lo2 \<Longrightarrow> ordered lo (as @ bs) hi"
  by (induction lo as hi1 rule: ordered.induct) (auto intro: ordered_mono)

lemma bytes_ofD: "k \<in> bytes_of fs \<Longrightarrow> \<exists>a n. (a, n) \<in> set fs \<and> unat a \<le> k \<and> k < unat a + unat n"
  unfolding bytes_of_def by force

text \<open>What a list of blocks around a place says of the list with something else in that place.\<close>

lemma ordered_replace:
  assumes "ordered lo (as @ (a, n) # bs) hi" and "0 < unat a"
    and "ordered (unat a) mid (unat a + unat n)"
  shows "ordered lo (as @ mid @ bs) hi"
proof -
  have o: "ordered lo as (unat a - 1)" "ordered (unat a + unat n + 1) bs hi"
    using assms(1,2) by (simp_all add: ordered_append)
  have "ordered (unat a) (mid @ bs) hi"
    by (rule ordered_join [OF assms(3) o(2)]) simp
  then show ?thesis using assms(2) by (intro ordered_join [OF o(1)]) auto
qed

lemma take_block_effect:
  assumes fl: "free_list h (as @ (a, n) # bs)" and want: "want \<le> n" "want AND 7 = 0" "0 < unat want"
  defines "fs' \<equiv> as @ remainder want (a, n) @ bs"
  shows "\<exists>h'. take_block want (last_node XStart as) a h = Some (h', a + 8) \<and>
     free_list h' fs' \<and> in_use h' fs' a (taken want n) \<and> pxEnd h' = pxEnd h \<and> ucHeap h' = ucHeap h"
proof -
  obtain h' where t: "take_block want (last_node XStart as) a h = Some (h', a + 8)"
    and f: "xHeapCanary h' = xHeapCanary h" "pxEnd h' = pxEnd h" "ucHeap h' = ucHeap h"
      "xFreeBytesRemaining h' = xFreeBytesRemaining h - taken want n"
      "pxNextFreeBlock h' = (if n - want > 16
       then (pxNextFreeBlock h)(last_node XStart as := heapPROTECT_BLOCK_POINTER h (a + want),
              Blk (a + want) := pxNextFreeBlock h (Blk a), Blk a := heapPROTECT_BLOCK_POINTER h 0)
       else (pxNextFreeBlock h)(last_node XStart as := pxNextFreeBlock h (Blk a), Blk a := heapPROTECT_BLOCK_POINTER h 0))"
      "xBlockSize h' = (if n - want > 16
       then (xBlockSize h)(Blk (a + want) := n - want, Blk a := want OR heapBLOCK_ALLOCATED_BITMASK)
       else (xBlockSize h)(Blk a := n OR heapBLOCK_ALLOCATED_BITMASK))"
    using take_block_fields [OF fl want] by blast
  note pc = protect_cong [OF f(1)]
  note ar = free_list_around [OF fl]
  let ?E = "pxEnd h"
  have sg: "seg h XStart as" "seg h (Blk a) (bs @ [(?E, 0)])" "pxNextFreeBlock h (Blk ?E) = heapPROTECT_BLOCK_POINTER h 0"
    and o: "ordered (unat (ucHeap h)) (as @ (a, n) # bs) (unat ?E)"
    and al: "\<forall>(x, m) \<in> set (as @ (a, n) # bs). x AND 7 = 0 \<and> m AND 7 = 0"
    and sz: "unat (xFreeBytesRemaining h) = sizes as + unat n + sizes bs"
    using fl by (simp_all add: free_list_def seg_append)
  have a0: "0 < unat a" using fl ar(3) by (simp add: free_list_def)
  have wn: "unat want \<le> unat n" using want by (simp add: word_le_nat_alt)
  have u: "unat (a + want) = unat a + unat want" using ar(5,6) wn by (subst unat_add_small) simp_all
  have un: "unat (n - want) = unat n - unat want" using want(1) by (rule unat_sub_small)
  have split: "n - want > 16 \<longleftrightarrow> unat n - unat want > 16" by (simp add: word_less_nat_alt un)
  have ut: "unat (taken want n) = (if n - want > 16 then unat want else unat n)" by (simp add: taken_def)
  have d: "distinct (map fst (as @ (a, n) # bs))" using ordered_distinct [OF o] .
  have nodes: "Blk x \<noteq> last_node XStart as" "x \<noteq> a" "n - want > 16 \<Longrightarrow> x \<noteq> a + want"
    if "(x, m) \<in> set (butlast as) \<or> (x, m) \<in> set (bs @ [(?E, 0)])" for x m
  proof -
    have lt: "unat x + unat m + 1 \<le> unat a \<or> unat a + unat n \<le> unat x"
      using that ar(1,2,5) by (force dest: in_set_butlastD)
    then show "x \<noteq> a" using ar(4) by auto
    show "n - want > 16 \<Longrightarrow> x \<noteq> a + want" using lt u split by auto
    show "Blk x \<noteq> last_node XStart as"
    proof (cases "(x, m) \<in> set (butlast as)")
      case True
      then show ?thesis using last_node_not_butlast [of as x m] d by fastforce
    next
      case False
      then have "unat a + unat n \<le> unat x" using that ar(2,5) by force
      then show ?thesis using last_node_in [of as] ar(1) by fastforce
    qed
  qed
  have as_nodes: "x \<noteq> a" "x \<noteq> a + want" if "(x, m) \<in> set as" for x m
    using ar(1) [OF that] u by auto
  have prev: "last_node XStart as \<noteq> Blk a" "last_node XStart as \<noteq> Blk (a + want)"
    using last_node_in [of as] as_nodes by fastforce+
  have new_a: "a + want \<noteq> a" using u want(3) by (metis add_cancel_left_right less_numeral_extra(3))
  have "seg h' XStart (as @ remainder want (a, n) @ bs @ [(?E, 0)])"
  proof (rule seg_surgery [OF sg(1,2) f(1)])
    show "seg h' (last_node XStart as) (remainder want (a, n))"
      using prev new_a by (simp add: remainder_def f(5,6) pc)
    show "pxNextFreeBlock h' (last_node XStart (as @ remainder want (a, n))) = pxNextFreeBlock h (Blk a)"
      using prev new_a by (simp add: remainder_def f(5))
    show "pxNextFreeBlock h' (Blk x) = pxNextFreeBlock h (Blk x)" if "(x, m) \<in> set (butlast as)" for x m
      using nodes [of x m] that by (simp add: f(5))
    show "pxNextFreeBlock h' (Blk x) = pxNextFreeBlock h (Blk x)" if "(x, m) \<in> set (butlast (bs @ [(?E, 0)]))" for x m
      using nodes [of x m] that by (simp add: f(5))
    show "pxNextFreeBlock h' XStart = pxNextFreeBlock h XStart" if "as \<noteq> []"
      using that by (simp add: f(5) last_node_def)
    show "xBlockSize h' (Blk x) = xBlockSize h (Blk x)" if "(x, m) \<in> set as" for x m
      using as_nodes [OF that] by (simp add: f(6))
    show "xBlockSize h' (Blk x) = xBlockSize h (Blk x)" if "(x, m) \<in> set (bs @ [(?E, 0)])" for x m
      using nodes(2,3) [of x m] that by (auto simp: f(6))
  qed
  moreover have "pxNextFreeBlock h' (Blk ?E) = heapPROTECT_BLOCK_POINTER h' 0"
    using nodes [of ?E 0] sg(3) by (simp add: f(5) pc)
  moreover have "ordered (unat (ucHeap h)) fs' (unat ?E)"
    unfolding fs'_def
    by (rule ordered_replace [OF o a0]) (use split u un wn in \<open>auto simp: remainder_def\<close>)
  moreover have "\<forall>(x, m) \<in> set fs'. x AND 7 = 0 \<and> m AND 7 = 0"
    using al want(2) wn by (auto simp: fs'_def remainder_def and_7 u un intro: dvd_diff_nat)
  moreover have "unat (xFreeBytesRemaining h') = sizes fs'"
  proof -
    have "taken want n \<le> xFreeBytesRemaining h" using ut wn sz by (simp add: word_le_nat_alt)
    then show ?thesis using sz ut split un wn
      by (auto simp: f(4) unat_sub_small fs'_def remainder_def)
  qed
  ultimately have 1: "free_list h' fs'"
    using fl by (simp add: free_list_def f(2,3) fs'_def)
  have n31: "unat n < 2 ^ 31" using ar(5,6) by simp
  have "in_use h' fs' a (taken want n)"
    unfolding in_use_def
  proof (intro conjI)
    show "xBlockSize h' (Blk a) = taken want n OR heapBLOCK_ALLOCATED_BITMASK" by (simp add: f(6) taken_def)
    show "taken want n AND heapBLOCK_ALLOCATED_BITMASK = 0" using n31 wn by (simp add: alloc_bit ut)
    show "pxNextFreeBlock h' (Blk a) = heapPROTECT_BLOCK_POINTER h' 0" by (simp add: f(5) pc)
    show "a AND 7 = 0" "taken want n AND 7 = 0" using al want(2) by (auto simp: taken_def)
    show "0 < unat (taken want n)" using want(3) wn by (auto simp: ut)
    show "unat (ucHeap h') \<le> unat a" "unat a + unat (taken want n) \<le> unat (pxEnd h')"
      using ar(3,5) wn by (auto simp: f(2,3) ut)
    show "{unat a ..< unat a + unat (taken want n)} \<inter> bytes_of fs' = {}"
      using ar(1,2) u un split by (fastforce simp: fs'_def remainder_def ut dest!: bytes_ofD split: if_splits)
  qed
  then show ?thesis using t 1 f(2,3) by blast
qed

lemma required_size_aligned: "required_size x AND 7 = 0"
proof (cases "x > 0 \<and> \<not> heapADD_WILL_OVERFLOW x xHeapStructSize")
  case True
  let ?w = "x + xHeapStructSize"
  have m: "?w AND 7 = take_bit 3 ?w"
    by (rule word_eq_bitsI) (simp add: bit_positions bit_simps)
  have um: "unat (?w AND 7) = unat ?w mod 8"
    unfolding m unsigned_take_bit_eq by (simp add: take_bit_eq_mod)
  show ?thesis
  proof (cases "?w AND 7 \<noteq> 0 \<and> \<not> heapADD_WILL_OVERFLOW ?w (8 - (?w AND 7))")
    case True
    have lt: "unat ?w mod 8 < 8" by simp
    have "unat (8 - (?w AND 7)) = 8 - unat ?w mod 8"
      using lt by (subst unat_sub_small) (simp_all add: word_le_nat_alt um)
    moreover have "unat ?w + (8 - unat ?w mod 8) < 2 ^ 32"
    proof -
      let ?d = "8 - (?w AND 7)"
      have "\<not> ?w > 0xFFFFFFFF - ?d" using True by (simp add: heapADD_WILL_OVERFLOW_def)
      then have "unat ?w \<le> unat (0xFFFFFFFF - ?d)" by (simp add: word_le_nat_alt not_less)
      also have "unat (0xFFFFFFFF - ?d) = 0xFFFFFFFF - unat ?d"
        using \<open>unat ?d = 8 - unat ?w mod 8\<close> by (subst unat_sub_small) (simp_all add: word_le_nat_alt)
      finally show ?thesis using \<open>unat ?d = 8 - unat ?w mod 8\<close> by simp
    qed
    ultimately have "unat (?w + (8 - (?w AND 7))) = unat ?w + (8 - unat ?w mod 8)"
      by (subst unat_add_small) simp_all
    moreover have "8 dvd unat ?w + (8 - unat ?w mod 8)" by presburger
    moreover have "required_size x = ?w + (8 - (?w AND 7))"
      using True \<open>x > 0 \<and> _\<close> by (simp add: required_size_def portBYTE_ALIGNMENT_MASK_def Let_def)
    ultimately show ?thesis by (simp add: and_7)
  next
    case False
    then show ?thesis using True by (auto simp: required_size_def portBYTE_ALIGNMENT_MASK_def Let_def)
  qed
next
  case False
  show ?thesis
  proof (cases "x > 0")
    case True
    then show ?thesis using False by (simp add: required_size_def)
  next
    case False
    then have "x = 0" using word_gt_0 by blast
    then show ?thesis by (simp add: required_size_def)
  qed
qed

text \<open>The first block that is large enough, with the blocks before and after it.\<close>

definition first_fit :: "u32 \<Rightarrow> block list \<Rightarrow> (block list \<times> block \<times> block list) option" where
  "first_fit want fs =
    (case dropWhile (\<lambda>(a, n). n < want) fs of
       [] \<Rightarrow> None
     | b # bs \<Rightarrow> Some (takeWhile (\<lambda>(a, n). n < want) fs, b, bs))"

lemma first_fit_Some:
  assumes "first_fit want fs = Some (as, (a, n), bs)"
  shows "fs = as @ (a, n) # bs" and "want \<le> n"
proof -
  have d: "dropWhile (\<lambda>(a, n). n < want) fs = (a, n) # bs" and t: "as = takeWhile (\<lambda>(a, n). n < want) fs"
    using assms by (auto simp: first_fit_def split: list.splits)
  show "fs = as @ (a, n) # bs" using takeWhile_dropWhile_id [of "\<lambda>(a, n). n < want" fs] d t by simp
  have "\<not> (\<lambda>(a, n). n < want) (hd (dropWhile (\<lambda>(a, n). n < want) fs))"
    by (rule hd_dropWhile) (simp add: d)
  then show "want \<le> n" by (simp add: d)
qed

lemma first_fit_None: "first_fit want fs = None \<Longrightarrow> dropWhile (\<lambda>(a, n). n < want) fs = []"
  by (auto simp: first_fit_def split: list.splits)

lemma pvPortMalloc_cases:
  fixes x :: u32
  assumes fl: "free_list h fs"
  defines "want \<equiv> required_size x"
  shows "case (if 0 < want then first_fit want fs else None) of
      None \<Rightarrow> pvPortMalloc rnd x h = Some (h, 0)
    | Some (as, (a, n), bs) \<Rightarrow> pvPortMalloc rnd x h = take_block want (last_node XStart as) a h"
proof -
  have sg: "seg h XStart (fs @ [(pxEnd h, 0)])" "pxNextFreeBlock h (Blk (pxEnd h)) = heapPROTECT_BLOCK_POINTER h 0"
    and sz: "unat (xFreeBytesRemaining h) = sizes fs"
    using fl by (simp_all add: free_list_def)
  note v = free_list_valid [OF fl]
  have e0: "pxEnd h \<noteq> 0" by (rule v(3))
  let ?b = "fst (hd (fs @ [(pxEnd h, 0)]))"
  have first: "heapPROTECT_BLOCK_POINTER h (pxNextFreeBlock h XStart) = ?b"
    using sg(1) by (cases fs) auto
  have vb: "heapVALIDATE_BLOCK_POINTER h ?b" using v(1,2) by (cases fs) force+
  have search: "malloc_search h want XStart ?b =
    Some (last_node XStart (takeWhile (\<lambda>(a, n). n < want) fs),
          fst (hd (dropWhile (\<lambda>(a, n). n < want) fs @ [(pxEnd h, 0)])))"
    by (rule malloc_search_finds [OF sg v(1,3)]) (use v(2,4) in blast)
  show ?thesis
  proof (cases "0 < want")
    case False
    then show ?thesis using e0 by (simp add: pvPortMalloc_def want_def Let_def)
  next
    case pos: True
    show ?thesis
    proof (cases "first_fit want fs")
      case None
      then show ?thesis
        using pos e0 first vb search first_fit_None [OF None]
        by (auto simp: pvPortMalloc_def want_def [symmetric] Let_def split: if_splits)
    next
      case (Some r)
      obtain as a n bs where r: "r = (as, (a, n), bs)" by (cases r) auto
      note ff = first_fit_Some [OF Some [unfolded r]]
      have ar: "unat n < 2 ^ 31" "unat a + unat n \<le> unat (pxEnd h)" "0 < unat n"
        using free_list_around [of h as a n bs] fl ff(1) by auto
      have "unat want \<le> unat n" using ff(2) by (simp add: word_le_nat_alt)
      then have valid: "heapBLOCK_SIZE_IS_VALID want" "want \<le> xFreeBytesRemaining h"
        using ar sz ff(1) by (simp_all add: heapBLOCK_SIZE_IS_VALID_def alloc_bit word_le_nat_alt)
      have ne: "a \<noteq> pxEnd h" using ar by auto
      have d: "dropWhile (\<lambda>(a, n). n < want) fs = (a, n) # bs" "takeWhile (\<lambda>(a, n). n < want) fs = as"
        using Some r by (auto simp: first_fit_def split: list.splits)
      have fl': "free_list h (as @ (a, n) # bs)" using fl ff(1) by simp
      have "want AND 7 = 0" "0 < unat want"
        using required_size_aligned pos by (simp_all add: want_def unat_gt_0)
      then obtain h' where tb: "take_block want (last_node XStart as) a h = Some (h', a + 8)"
        using take_block_effect [OF fl' ff(2)] by blast
      have "a AND 7 = 0" using fl' by (simp add: free_list_def)
      then have "8 dvd unat (a + 8)"
        using ar fl by (subst unat_add_small) (simp_all add: and_7 free_list_def)
      then have al: "(a + 8) AND 7 = 0" by (simp add: and_7)
      show ?thesis
        using pos e0 first vb search d valid ne tb al Some r
        by (simp add: pvPortMalloc_def want_def [symmetric] Let_def portBYTE_ALIGNMENT_MASK_def)
    qed
  qed
qed

section \<open>Freeing acts on the list\<close>

lemma insert_search_finds:
  assumes "seg h p (fs @ [(E, 0)])" and "b < E" and "b \<noteq> 0"
  shows "insert_search h b p = Some (last_node p (takeWhile (\<lambda>(a, n). a < b) fs))"
  using assms
proof (induction fs arbitrary: p)
  case Nil
  then show ?case by (subst insert_search.simps) (auto dest: less_asym)
next
  case (Cons x fs)
  then show ?case by (subst insert_search.simps) (cases x, auto)
qed

definition merge_left :: "block list \<Rightarrow> block \<Rightarrow> block list \<times> block" where
  "merge_left as b =
    (if as \<noteq> [] \<and> fst (last as) + snd (last as) = fst b
     then (butlast as, (fst (last as), snd (last as) + snd b)) else (as, b))"

definition merge_right :: "block \<Rightarrow> block list \<Rightarrow> block \<times> block list" where
  "merge_right b bs =
    (if bs \<noteq> [] \<and> fst b + snd b = fst (hd bs) then ((fst b, snd b + snd (hd bs)), tl bs) else (b, bs))"

definition insert_free :: "block \<Rightarrow> block list \<Rightarrow> block list" where
  "insert_free b fs =
    (let as = takeWhile (\<lambda>(a, n). a < fst b) fs; bs = dropWhile (\<lambda>(a, n). a < fst b) fs;
         (as, b) = merge_left as b; (b, bs) = merge_right b bs
     in as @ b # bs)"

text \<open>The fields after the merge; \<open>left\<close> and \<open>right\<close> say which neighbour touches the block.\<close>

lemma insert_merge_fields:
  assumes sg: "seg h XStart as" and nx: "pxNextFreeBlock h (last_node XStart as) = heapPROTECT_BLOCK_POINTER h nx"
    and ne: "last_node XStart as \<noteq> Blk b" and n: "xBlockSize h (Blk b) = n"
    and k: "nx \<noteq> pxEnd h \<Longrightarrow> xBlockSize h (Blk nx) = k"
    and as_nx: "\<And>x m. (x, m) \<in> set as \<Longrightarrow> x \<noteq> nx" and b_nx: "b \<noteq> nx"
    and ml: "merge_left as (b, n) = (as', (b', n'))"
  defines "right \<equiv> b' + n' = nx \<and> nx \<noteq> pxEnd h"
  shows "\<exists>h'. insert_merge b (last_node XStart as) h = h' \<and>
    xHeapCanary h' = xHeapCanary h \<and> pxEnd h' = pxEnd h \<and> ucHeap h' = ucHeap h \<and>
    xFreeBytesRemaining h' = xFreeBytesRemaining h \<and>
    xBlockSize h' = (xBlockSize h)(Blk b' := if right then n' + k else n') \<and>
    pxNextFreeBlock h' =
      (if last_node XStart as = Blk b'
       then (pxNextFreeBlock h)(Blk b' := if right then pxNextFreeBlock h (Blk nx) else pxNextFreeBlock h (last_node XStart as))
       else (pxNextFreeBlock h)(Blk b' := if right then pxNextFreeBlock h (Blk nx) else pxNextFreeBlock h (last_node XStart as),
               last_node XStart as := heapPROTECT_BLOCK_POINTER h b'))"
proof (cases as rule: rev_cases)
  case Nil
  then have "b' = b" "n' = n" using ml by (auto simp: merge_left_def)
  then show ?thesis using Nil nx n k b_nx
    by (auto simp: insert_merge_def Let_def right_def)
next
  case (snoc as0 x)
  obtain i m where x: "x = (i, m)" by fastforce
  have i: "last_node XStart as = Blk i" "xBlockSize h (Blk i) = m" "i \<noteq> nx" "i \<noteq> b"
    using snoc x sg as_nx ne by (auto simp: seg_append)
  show ?thesis
  proof (cases "i + m = b")
    case True
    then have "b' = i" "n' = m + n" using ml snoc x by (auto simp: merge_left_def)
    then show ?thesis using True nx n k i b_nx
      by (auto simp: insert_merge_def Let_def right_def)
  next
    case False
    then have "b' = b" "n' = n" using ml snoc x by (auto simp: merge_left_def)
    then show ?thesis using False nx n k i b_nx
      by (auto simp: insert_merge_def Let_def right_def)
  qed
qed

lemma alloc_bit_clear:
  assumes "n AND heapBLOCK_ALLOCATED_BITMASK = 0"
  shows "(n OR heapBLOCK_ALLOCATED_BITMASK) AND NOT heapBLOCK_ALLOCATED_BITMASK = n"
proof (rule bit_word_eqI)
  fix i
  assume "i < LENGTH(32)"
  have "\<not> (bit n i \<and> bit heapBLOCK_ALLOCATED_BITMASK i)"
    using assms by (metis bit_and_iff bit_0_eq bot_apply bot_bool_def)
  then show "bit ((n OR heapBLOCK_ALLOCATED_BITMASK) AND NOT heapBLOCK_ALLOCATED_BITMASK) i = bit n i"
    using \<open>i < LENGTH(32)\<close> by (auto simp: bit_simps)
qed

lemma alloc_bit_set: "(n OR heapBLOCK_ALLOCATED_BITMASK) AND heapBLOCK_ALLOCATED_BITMASK \<noteq> 0"
  by (simp add: heapBLOCK_ALLOCATED_BITMASK_def word_ao_absorbs)

text \<open>The blocks on the two sides of a block in use.\<close>

lemma free_around:
  assumes fl: "free_list h fs" and iu: "in_use h fs b n"
  defines "as \<equiv> takeWhile (\<lambda>(a, n). a < b) fs" and "bs \<equiv> dropWhile (\<lambda>(a, n). a < b) fs"
  shows "(x, m) \<in> set as \<Longrightarrow> unat x + unat m \<le> unat b"
    and "(x, m) \<in> set bs \<Longrightarrow> unat b + unat n \<le> unat x"
proof -
  have o: "ordered (unat (ucHeap h)) fs (unat (pxEnd h))" using fl by (simp add: free_list_def)
  have dis: "\<not> (unat x < unat b + unat n \<and> unat b < unat x + unat m)" if "(x, m) \<in> set fs" "0 < unat m" for x m
  proof
    assume "unat x < unat b + unat n \<and> unat b < unat x + unat m"
    moreover have "0 < unat n" using iu by (simp add: in_use_def)
    ultimately have k: "max (unat x) (unat b) \<in> {unat b ..< unat b + unat n}"
      "max (unat x) (unat b) \<in> {unat x ..< unat x + unat m}" using that by auto
    have "max (unat x) (unat b) \<in> bytes_of fs"
      unfolding bytes_of_def using that(1) k(2) by blast
    then show False using iu k(1) unfolding in_use_def by blast
  qed
  have n: "0 < unat n" using iu by (simp add: in_use_def)
  show "unat x + unat m \<le> unat b" if "(x, m) \<in> set as"
  proof -
    have "x < b" "(x, m) \<in> set fs" using that set_takeWhileD [of "(x, m)"] by (auto simp: as_def)
    then show ?thesis using dis [of x m] ordered_in [OF o, of x m] n by (auto simp: word_less_nat_alt)
  qed
  show "unat b + unat n \<le> unat x" if "(x, m) \<in> set bs"
  proof (cases bs)
    case Nil
    then show ?thesis using that by simp
  next
    case (Cons y ys)
    obtain y1 k1 where y: "y = (y1, k1)" by fastforce
    have "\<not> (case hd (dropWhile (\<lambda>(a, n). a < b) fs) of (a, n) \<Rightarrow> a < b)"
      by (rule hd_dropWhile) (use Cons in \<open>simp add: bs_def\<close>)
    then have y1: "\<not> y1 < b" using Cons y by (simp add: bs_def)
    have fs: "fs = as @ (y1, k1) # ys" using Cons y by (simp add: as_def bs_def) (metis takeWhile_dropWhile_id)
    have "unat y1 \<le> unat x"
    proof (cases "(x, m) \<in> set ys")
      case True
      then show ?thesis
        using ordered_append' [of "unat (ucHeap h)" "as @ [(y1, k1)]" ys "unat (pxEnd h)" y1 k1 x m] o fs by simp
    next
      case False
      then show ?thesis using that Cons y by auto
    qed
    moreover have "(x, m) \<in> set fs" using that by (auto simp: bs_def dest: set_dropWhileD)
    ultimately show ?thesis using dis [of x m] ordered_in [OF o, of x m] y1 n
      by (auto simp: word_less_nat_alt)
  qed
qed

text \<open>Merging with the block before and with the block after, on the lists.\<close>

lemma ordered_prefix:
  "ordered lo (as @ bs) hi \<Longrightarrow> lo \<le> hi' + 1 \<Longrightarrow> (\<And>x m. (x, m) \<in> set as \<Longrightarrow> unat x + unat m \<le> hi') \<Longrightarrow>
     ordered lo as hi'"
proof (induction as arbitrary: lo)
  case (Cons p as)
  then show ?case by (cases p) (fastforce intro!: Cons.IH)
qed simp

lemma ordered_suffix:
  "ordered lo (as @ bs) hi \<Longrightarrow> lo' \<le> hi + 1 \<Longrightarrow> (\<And>x m. (x, m) \<in> set bs \<Longrightarrow> lo' \<le> unat x) \<Longrightarrow>
     ordered lo' bs hi"
proof (induction lo as hi rule: ordered.induct)
  case (1 lo hi)
  show ?case
  proof (cases bs)
    case Nil
    then show ?thesis using 1 by simp
  next
    case (Cons y ys)
    then show ?thesis using 1(1) 1(3) [of "fst y" "snd y"] by (cases y) auto
  qed
qed auto

lemma merge_left_ok:
  assumes o: "ordered lo as (unat b)" and lo: "0 < lo" "lo \<le> unat b"
    and nn: "0 < unat n" "unat b + unat n < 2 ^ 31"
    and al: "\<forall>(x, m) \<in> set as. x AND 7 = 0 \<and> m AND 7 = 0" "b AND 7 = 0" "n AND 7 = 0"
    and ml: "merge_left as (b, n) = (as', (b', n'))"
  shows "ordered lo as' (unat b' - 1)" and "lo \<le> unat b'" and "0 < unat n'"
    and "unat b' + unat n' = unat b + unat n"
    and "bytes_of as' \<union> {unat b' ..< unat b' + unat n'} = bytes_of as \<union> {unat b ..< unat b + unat n}"
    and "sizes as' + unat n' = sizes as + unat n"
    and "\<forall>(x, m) \<in> set as'. x AND 7 = 0 \<and> m AND 7 = 0" and "b' AND 7 = 0" and "n' AND 7 = 0"
proof -
  have "ordered lo as' (unat b' - 1) \<and> lo \<le> unat b' \<and> 0 < unat n' \<and> unat b' + unat n' = unat b + unat n \<and>
    bytes_of as' \<union> {unat b' ..< unat b' + unat n'} = bytes_of as \<union> {unat b ..< unat b + unat n} \<and>
    sizes as' + unat n' = sizes as + unat n \<and>
    (\<forall>(x, m) \<in> set as'. x AND 7 = 0 \<and> m AND 7 = 0) \<and> b' AND 7 = 0 \<and> n' AND 7 = 0"
  proof (cases as rule: rev_cases)
    case Nil
    then show ?thesis using assms by (auto simp: merge_left_def)
  next
    case (snoc as0 z)
    obtain i m where z: "z = (i, m)" by fastforce
    have im: "lo \<le> unat i" "0 < unat m" "unat i + unat m \<le> unat b"
      using ordered_in [OF o, of i m] snoc z by auto
    have u: "unat (i + m) = unat i + unat m" using im nn by (subst unat_add_small) simp_all
    have o0: "ordered lo as0 (unat i - 1)" using o snoc z im lo by (simp add: ordered_append)
    show ?thesis
    proof (cases "i + m = b")
      case True
      have um: "unat (m + n) = unat m + unat n" using im nn by (subst unat_add_small) simp_all
      have "as' = as0" "b' = i" "n' = m + n" using ml snoc z True by (auto simp: merge_left_def)
      then show ?thesis using o0 im lo nn u um True al snoc z by (auto simp: and_7)
    next
      case False
      then have e: "as' = as" "b' = b" "n' = n" using ml snoc z by (auto simp: merge_left_def)
      have "unat i + unat m \<noteq> unat b" using False u by (metis word_unat_eq_iff)
      moreover have "unat x + unat k + 1 \<le> unat i" if "(x, k) \<in> set as0" for x k
        using ordered_append' [of lo as0 "[(i, m)]" "unat b" x k i m] o that snoc z by simp
      ultimately have "ordered lo as (unat b - 1)"
        using o lo im snoc z by (intro ordered_prefix [of lo as "[]" "unat b"]) fastforce+
      then show ?thesis using e lo nn al by simp
    qed
  qed
  then show "ordered lo as' (unat b' - 1)" "lo \<le> unat b'" "0 < unat n'"
    "unat b' + unat n' = unat b + unat n"
    "bytes_of as' \<union> {unat b' ..< unat b' + unat n'} = bytes_of as \<union> {unat b ..< unat b + unat n}"
    "sizes as' + unat n' = sizes as + unat n"
    "\<forall>(x, m) \<in> set as'. x AND 7 = 0 \<and> m AND 7 = 0" "b' AND 7 = 0" "n' AND 7 = 0" by blast+
qed

lemma merge_right_ok:
  assumes o: "ordered (unat b + unat n) bs hi"
    and nn: "0 < unat n" "hi < 2 ^ 31" "unat b + unat n \<le> hi"
    and al: "\<forall>(x, m) \<in> set bs. x AND 7 = 0 \<and> m AND 7 = 0" "n AND 7 = 0"
    and mr: "merge_right (b, n) bs = ((b', n'), bs')"
  shows "b' = b" and "ordered (unat b + unat n' + 1) bs' hi" and "0 < unat n'"
    and "{unat b ..< unat b + unat n'} \<union> bytes_of bs' = {unat b ..< unat b + unat n} \<union> bytes_of bs"
    and "unat n' + sizes bs' = unat n + sizes bs"
    and "\<forall>(x, m) \<in> set bs'. x AND 7 = 0 \<and> m AND 7 = 0" and "n' AND 7 = 0"
proof -
  have "b' = b \<and> ordered (unat b + unat n' + 1) bs' hi \<and> 0 < unat n' \<and>
    {unat b ..< unat b + unat n'} \<union> bytes_of bs' = {unat b ..< unat b + unat n} \<union> bytes_of bs \<and>
    unat n' + sizes bs' = unat n + sizes bs \<and>
    (\<forall>(x, m) \<in> set bs'. x AND 7 = 0 \<and> m AND 7 = 0) \<and> n' AND 7 = 0"
  proof (cases bs)
    case Nil
    then show ?thesis using assms by (auto simp: merge_right_def)
  next
    case (Cons z ys)
    obtain i m where z: "z = (i, m)" by fastforce
    have im: "unat b + unat n \<le> unat i" "0 < unat m" "unat i + unat m \<le> hi" "ordered (unat i + unat m + 1) ys hi"
      using ordered_in [OF o, of i m] o Cons z by auto
    have u: "unat (b + n) = unat b + unat n" using nn by (subst unat_add_small) simp_all
    show ?thesis
    proof (cases "b + n = i")
      case True
      have um: "unat (n + m) = unat n + unat m" using im nn by (subst unat_add_small) simp_all
      have e: "b' = b" "bs' = ys" "n' = n + m" using mr Cons z True by (auto simp: merge_right_def)
      have i: "unat i = unat b + unat n" using u True by simp
      have "{unat b ..< unat b + unat n'} = {unat b ..< unat b + unat n} \<union> {unat i ..< unat i + unat m}"
        unfolding e um i by auto
      then show ?thesis using e im i um al Cons z by (auto simp: and_7 add.assoc)
    next
      case False
      then have e: "b' = b" "bs' = bs" "n' = n" using mr Cons z by (auto simp: merge_right_def)
      have "unat i \<noteq> unat b + unat n" using False u by (metis word_unat_eq_iff)
      then show ?thesis using e im nn al Cons z by auto
    qed
  qed
  then show "b' = b" "ordered (unat b + unat n' + 1) bs' hi" "0 < unat n'"
    "{unat b ..< unat b + unat n'} \<union> bytes_of bs' = {unat b ..< unat b + unat n} \<union> bytes_of bs"
    "unat n' + sizes bs' = unat n + sizes bs"
    "\<forall>(x, m) \<in> set bs'. x AND 7 = 0 \<and> m AND 7 = 0" "n' AND 7 = 0" by blast+
qed

lemma insert_free_ok:
  assumes fl: "free_list h fs" and iu: "in_use h fs b n"
  shows "ordered (unat (ucHeap h)) (insert_free (b, n) fs) (unat (pxEnd h))"
    and "bytes_of (insert_free (b, n) fs) = bytes_of fs \<union> {unat b ..< unat b + unat n}"
    and "sizes (insert_free (b, n) fs) = sizes fs + unat n"
    and "\<forall>(x, m) \<in> set (insert_free (b, n) fs). x AND 7 = 0 \<and> m AND 7 = 0"
proof -
  define as bs where ab: "as = takeWhile (\<lambda>(a, n). a < b) fs" "bs = dropWhile (\<lambda>(a, n). a < b) fs"
  obtain as' b' n' where ml: "merge_left as (b, n) = (as', (b', n'))" by (metis prod.collapse)
  obtain b'' n'' bs' where mr: "merge_right (b', n') bs = ((b'', n''), bs')" by (metis prod.collapse)
  have fs: "fs = as @ bs" by (simp add: ab)
  have e: "insert_free (b, n) fs = as' @ (b'', n'') # bs'"
    using ml mr by (simp add: insert_free_def ab [symmetric] Let_def)
  let ?lo = "unat (ucHeap h)" and ?hi = "unat (pxEnd h)"
  have o: "ordered ?lo (as @ bs) ?hi" "0 < ?lo" "?hi < 2 ^ 31"
    and al: "\<forall>(x, m) \<in> set as. x AND 7 = 0 \<and> m AND 7 = 0" "\<forall>(x, m) \<in> set bs. x AND 7 = 0 \<and> m AND 7 = 0"
    using fl fs by (auto simp: free_list_def)
  have nn: "0 < unat n" "b AND 7 = 0" "n AND 7 = 0" "?lo \<le> unat b" "unat b + unat n \<le> ?hi"
    using iu by (simp_all add: in_use_def)
  note ar = free_around [OF fl iu, folded ab]
  have oa: "ordered ?lo as (unat b)" using o ar(1) nn by (intro ordered_prefix [of ?lo as bs ?hi]) auto
  have b31: "unat b + unat n < 2 ^ 31" using nn o by simp
  note l = merge_left_ok [OF oa o(2) nn(4,1) b31 al(1) nn(2,3) ml]
  have ob: "ordered (unat b' + unat n') bs ?hi"
    unfolding l(4) using o ar(2) nn by (intro ordered_suffix [of ?lo as bs ?hi]) auto
  have le: "unat b' + unat n' \<le> ?hi" using l(4) nn by simp
  note r = merge_right_ok [OF ob l(3) o(3) le al(2) l(9) mr]
  have b0: "0 < unat b'" using l(2) o(2) by simp
  show "ordered ?lo (insert_free (b, n) fs) ?hi"
    unfolding e using l(1) r(1-3) b0 by (simp add: ordered_append)
  show "bytes_of (insert_free (b, n) fs) = bytes_of fs \<union> {unat b ..< unat b + unat n}"
    using l(5) r(1,4) unfolding e unfolding fs by auto
  show "sizes (insert_free (b, n) fs) = sizes fs + unat n"
    using l(6) r(5) unfolding e unfolding fs by simp
  show "\<forall>(x, m) \<in> set (insert_free (b, n) fs). x AND 7 = 0 \<and> m AND 7 = 0"
    using l(7,8) r(1,6,7) unfolding e by auto
qed

text \<open>The links after the insertion.\<close>

lemma insert_merge_list:
  assumes sg: "seg h XStart (as @ bs @ [(E, 0)])" and E: "E = pxEnd h"
    and n: "xBlockSize h (Blk b) = n" and d: "distinct (map fst (as @ bs @ [(E, 0)]))"
    and b: "b \<notin> fst ` set (as @ bs @ [(E, 0)])"
    and ml: "merge_left as (b, n) = (as', (b', n'))" and mr: "merge_right (b', n') bs = ((b'', n''), bs')"
  defines "h' \<equiv> insert_merge b (last_node XStart as) h"
  shows "seg h' XStart (as' @ (b'', n'') # bs' @ [(E, 0)])"
    and "pxNextFreeBlock h' (Blk E) = pxNextFreeBlock h (Blk E)" and "xHeapCanary h' = xHeapCanary h"
    and "pxEnd h' = pxEnd h" and "ucHeap h' = ucHeap h" and "xFreeBytesRemaining h' = xFreeBytesRemaining h"
proof -
  define nx where "nx = fst (hd (bs @ [(E, 0)]))"
  define k where "k = xBlockSize h (Blk nx)"
  let ?it = "last_node XStart as"
  have sa: "seg h XStart as" and sb: "seg h ?it (bs @ [(E, 0)])" using sg by (simp_all add: seg_append)
  have nx: "pxNextFreeBlock h ?it = heapPROTECT_BLOCK_POINTER h nx"
    using sb by (cases bs) (auto simp: nx_def)
  have nx_in: "nx \<in> fst ` set (bs @ [(E, 0)])" unfolding nx_def by (cases bs) auto
  have it_b: "?it \<noteq> Blk b" using last_node_in [of as] b by force
  have as_nx: "x \<noteq> nx" if "(x, m) \<in> set as" for x m
    using that nx_in d by (force simp: image_iff)
  have b_nx: "b \<noteq> nx" using nx_in b by auto
  define right where "right \<longleftrightarrow> b' + n' = nx \<and> nx \<noteq> pxEnd h"
  have f: "xHeapCanary h' = xHeapCanary h \<and> pxEnd h' = pxEnd h \<and> ucHeap h' = ucHeap h \<and>
    xFreeBytesRemaining h' = xFreeBytesRemaining h \<and>
    xBlockSize h' = (xBlockSize h)(Blk b' := if right then n' + k else n') \<and>
    pxNextFreeBlock h' =
      (if ?it = Blk b'
       then (pxNextFreeBlock h)(Blk b' := if right then pxNextFreeBlock h (Blk nx) else pxNextFreeBlock h ?it)
       else (pxNextFreeBlock h)(Blk b' := if right then pxNextFreeBlock h (Blk nx) else pxNextFreeBlock h ?it,
               ?it := heapPROTECT_BLOCK_POINTER h b'))"
    using insert_merge_fields [OF sa nx it_b n _ as_nx b_nx ml, of k] unfolding h'_def right_def k_def by simp
  then show c: "xHeapCanary h' = xHeapCanary h" "pxEnd h' = pxEnd h" "ucHeap h' = ucHeap h"
    "xFreeBytesRemaining h' = xFreeBytesRemaining h" by simp_all
  note pc = protect_cong [OF c(1)]
  have b'_cases: "(as' = as \<and> b' = b \<and> n' = n) \<or> (\<exists>i m. as = as' @ [(i, m)] \<and> b' = i \<and> n' = m + n)"
    using ml unfolding merge_left_def by (cases as rule: rev_cases) (auto split: if_splits)
  have right_iff: "right \<longleftrightarrow> (\<exists>m. bs = (nx, m) # bs') \<and> b' + n' = nx"
    "right \<Longrightarrow> n'' = n' + k" "\<not> right \<Longrightarrow> bs' = bs \<and> n'' = n'" and b'': "b'' = b'"
    using mr d sb E unfolding right_def merge_right_def nx_def k_def
    by (cases bs; auto split: if_splits)+
  have node': "x \<noteq> b'" if "(x, m) \<in> set (butlast as) \<or> (x, m) \<in> set as' \<or> (x, m) \<in> set (bs @ [(E, 0)])" for x m
    using b'_cases
  proof
    assume e: "as' = as \<and> b' = b \<and> n' = n"
    then have "(x, m) \<in> set (as @ bs @ [(E, 0)])" using that by (auto dest: in_set_butlastD)
    then have "x \<in> fst ` set (as @ bs @ [(E, 0)])" by (rule rev_image_eqI) simp
    then show ?thesis using b e by blast
  next
    assume "\<exists>i m. as = as' @ [(i, m)] \<and> b' = i \<and> n' = m + n"
    then obtain i k where e: "as = as' @ [(i, k)]" "b' = i" by blast
    then have "(x, m) \<in> set (as' @ bs @ [(E, 0)])" using that by auto
    then have "x \<in> fst ` set (as' @ bs @ [(E, 0)])" by (rule rev_image_eqI) simp
    then show ?thesis using d e by auto
  qed
  have it_node: "Blk x \<noteq> ?it" if "(x, m) \<in> set (butlast as) \<or> (x, m) \<in> set (bs @ [(E, 0)])" for x m
  proof (cases "(x, m) \<in> set (butlast as)")
    case True
    then show ?thesis using last_node_not_butlast [of as x m] d by auto
  next
    case False
    then have "x \<notin> fst ` set as" using that d by (force simp: image_iff)
    then show ?thesis using last_node_in [of as] by force
  qed
  have bl: "set (butlast as') \<subseteq> set (butlast as)"
    using b'_cases by (auto simp: butlast_append dest: in_set_butlastD)
  have xs': "as' \<noteq> [] \<Longrightarrow> ?it \<noteq> XStart" using b'_cases by (auto simp: last_node_def)
  define q where "q = (if right then Blk nx else ?it)"
  have rest: "seg h q (bs' @ [(E, 0)])"
  proof (cases right)
    case True
    then obtain m where "bs = (nx, m) # bs'" using right_iff(1) by blast
    then show ?thesis using sb True unfolding q_def by simp
  next
    case False
    then show ?thesis using sb right_iff(3) unfolding q_def by simp
  qed
  have rest_in: "set (bs' @ [(E, 0)]) \<subseteq> set (bs @ [(E, 0)])"
  proof (cases right)
    case True
    then obtain m where "bs = (nx, m) # bs'" using right_iff(1) by blast
    then show ?thesis by auto
  qed (use right_iff(3) in simp)
  have link: "pxNextFreeBlock h' (last_node XStart as') = heapPROTECT_BLOCK_POINTER h b'"
    using b'_cases
  proof
    assume e: "as' = as \<and> b' = b \<and> n' = n"
    then show ?thesis using f it_b by simp
  next
    assume "\<exists>i m. as = as' @ [(i, m)] \<and> b' = i \<and> n' = m + n"
    then obtain i m where e: "as = as' @ [(i, m)]" "b' = i" by blast
    then have "i \<notin> fst ` set as'" using d by simp
    then have "last_node XStart as' \<noteq> Blk b'" using last_node_in [of as'] e(2) by (metis fst_conv hblk.distinct(1) hblk.inject image_eqI)
    moreover have "?it = Blk b'" using e by simp
    ultimately show ?thesis using f sa e by (simp add: seg_append)
  qed
  have mid: "seg h' (last_node XStart as') [(b'', n'')]"
    using link f right_iff(2,3) pc b'' by auto
  have "seg h' XStart (as' @ [(b'', n'')] @ (bs' @ [(E, 0)]))"
  proof (rule seg_surgery [OF _ rest c(1)])
    show "seg h XStart as'" using sa b'_cases by (auto simp: seg_append)
    show "xBlockSize h' (Blk x) = xBlockSize h (Blk x)" if "(x, m) \<in> set as'" for x m
      using node' [of x m] that f by simp
    show "pxNextFreeBlock h' (Blk x) = pxNextFreeBlock h (Blk x)" if "(x, m) \<in> set (butlast as')" for x m
      using node' [of x m] it_node [of x m] that bl f by (auto dest: in_set_butlastD)
    show "pxNextFreeBlock h' XStart = pxNextFreeBlock h XStart" if "as' \<noteq> []"
      using xs' [OF that] f by auto
    show "seg h' (last_node XStart as') [(b'', n'')]" by (rule mid)
    show "pxNextFreeBlock h' (last_node XStart (as' @ [(b'', n'')])) = pxNextFreeBlock h q"
      using f b'' it_b b'_cases by (auto simp: q_def)
    show "xBlockSize h' (Blk x) = xBlockSize h (Blk x)" if "(x, m) \<in> set (bs' @ [(E, 0)])" for x m
      using node' [of x m] that rest_in f by auto
    show "pxNextFreeBlock h' (Blk x) = pxNextFreeBlock h (Blk x)" if "(x, m) \<in> set (butlast (bs' @ [(E, 0)]))" for x m
      using node' [of x m] it_node [of x m] that rest_in f by auto
  qed
  then show "seg h' XStart (as' @ (b'', n'') # bs' @ [(E, 0)])" by simp
  show "pxNextFreeBlock h' (Blk E) = pxNextFreeBlock h (Blk E)"
    using node' [of E 0] it_node [of E 0] f by auto
qed

lemma insert_merge_other:
  assumes "seg h XStart (as @ bs @ [(E, 0)])" and "E = pxEnd h"
    and "xBlockSize h (Blk b) = n" and "distinct (map fst (as @ bs @ [(E, 0)]))"
    and "b \<notin> fst ` set (as @ bs @ [(E, 0)])"
    and c: "c \<noteq> b" "c \<notin> fst ` set as"
  defines "h' \<equiv> insert_merge b (last_node XStart as) h"
  shows "xBlockSize h' (Blk c) = xBlockSize h (Blk c) \<and> pxNextFreeBlock h' (Blk c) = pxNextFreeBlock h (Blk c)"
proof -
  have it: "last_node XStart as \<noteq> Blk c" using last_node_in [of as] c by force
  have m: "\<And>i m. last_node XStart as = Blk i \<Longrightarrow> c \<noteq> i" using it by auto
  show ?thesis using it c m
    by (auto simp: h'_def insert_merge_def Let_def split: hblk.splits)
qed

lemma vPortFree_effect:
  assumes fl: "free_list h fs" and iu: "in_use h fs b n"
  shows "\<exists>h'. vPortFree (b + 8) h = Some h' \<and> free_list h' (insert_free (b, n) fs) \<and>
    pxEnd h' = pxEnd h \<and> ucHeap h' = ucHeap h \<and> xHeapCanary h' = xHeapCanary h \<and>
    (\<forall>c. c \<noteq> b \<longrightarrow> c \<notin> fst ` set fs \<longrightarrow>
       xBlockSize h' (Blk c) = xBlockSize h (Blk c) \<and> pxNextFreeBlock h' (Blk c) = pxNextFreeBlock h (Blk c))"
proof -
  define as bs where ab: "as = takeWhile (\<lambda>(a, n). a < b) fs" "bs = dropWhile (\<lambda>(a, n). a < b) fs"
  obtain as' b' n' where ml: "merge_left as (b, n) = (as', (b', n'))" by (metis prod.collapse)
  obtain b'' n'' bs' where mr: "merge_right (b', n') bs = ((b'', n''), bs')" by (metis prod.collapse)
  have fs: "fs = as @ bs" by (simp add: ab)
  have e: "insert_free (b, n) fs = as' @ (b'', n'') # bs'"
    using ml mr by (simp add: insert_free_def ab [symmetric] Let_def)
  let ?E = "pxEnd h"
  define h1 where "h1 = h\<lparr>xBlockSize := (xBlockSize h)(Blk b := n), xFreeBytesRemaining := xFreeBytesRemaining h + n\<rparr>"
  have f: "seg h XStart (fs @ [(?E, 0)])" "ordered (unat (ucHeap h)) fs (unat ?E)"
    "unat ?E + 8 \<le> unat (ucHeap h) + 133120" "unat (ucHeap h) + 133120 < 2 ^ 31" "0 < unat (ucHeap h)"
    "unat (xFreeBytesRemaining h) = sizes fs"
    using fl by (simp_all add: free_list_def)
  have u: "xBlockSize h (Blk b) = n OR heapBLOCK_ALLOCATED_BITMASK" "n AND heapBLOCK_ALLOCATED_BITMASK = 0"
    "pxNextFreeBlock h (Blk b) = heapPROTECT_BLOCK_POINTER h 0" "0 < unat n"
    "unat (ucHeap h) \<le> unat b" "unat b + unat n \<le> unat ?E" "{unat b ..< unat b + unat n} \<inter> bytes_of fs = {}"
    using iu by (simp_all add: in_use_def)
  have b_fs: "b \<notin> fst ` set (fs @ [(?E, 0)])"
  proof
    assume "b \<in> fst ` set (fs @ [(?E, 0)])"
    then consider "b = ?E" | m where "(b, m) \<in> set fs" by auto
    then show False
    proof cases
      case 2
      then have "unat b \<in> bytes_of fs" using ordered_in [OF f(2) 2] by (force simp: bytes_of_def)
      moreover have "unat b \<in> {unat b ..< unat b + unat n}" using u(4) by simp
      ultimately show ?thesis using u(7) by blast
    qed (use u in simp)
  qed
  have d: "distinct (map fst (as @ bs @ [(?E, 0)]))"
  proof -
    have "?E \<notin> fst ` set fs"
    proof
      assume "?E \<in> fst ` set fs"
      then obtain m where "(?E, m) \<in> set fs" by auto
      then show False using ordered_in [OF f(2)] by fastforce
    qed
    then show ?thesis using ordered_distinct [OF f(2)] fs by auto
  qed
  have "seg h1 XStart (fs @ [(?E, 0)])"
  proof (rule seg_transfer [OF f(1)])
    show "xBlockSize h1 (Blk x) = xBlockSize h (Blk x)" if "(x, m) \<in> set (fs @ [(?E, 0)])" for x m
    proof -
      have "x \<in> fst ` set (fs @ [(?E, 0)])" using that by (rule rev_image_eqI) simp
      then have "x \<noteq> b" using b_fs by blast
      then show ?thesis by (simp add: h1_def)
    qed
  qed (simp_all add: h1_def)
  then have sg1: "seg h1 XStart (as @ bs @ [(?E, 0)])" by (simp add: fs)
  have pc1: "heapPROTECT_BLOCK_POINTER h1 = heapPROTECT_BLOCK_POINTER h" by (rule protect_cong) (simp add: h1_def)
  have sz1: "xBlockSize h1 (Blk b) = n" and E1: "?E = pxEnd h1" by (simp_all add: h1_def)
  have b_fs': "b \<notin> fst ` set (as @ bs @ [(?E, 0)])" using b_fs fs by simp
  note im = insert_merge_list [OF sg1 E1 sz1 d b_fs' ml mr]
  define h2 where "h2 = insert_merge b (last_node XStart as) h1"
  have top: "unat (ucHeap h + (configTOTAL_HEAP_SIZE - 1)) = unat (ucHeap h) + 133119"
    using f(4) by (simp add: configTOTAL_HEAP_SIZE_def unat_add_small)
  have v: "heapVALIDATE_BLOCK_POINTER h b"
    using u(5,6) f(3) top by (simp add: heapVALIDATE_BLOCK_POINTER_def word_le_nat_alt)
  have "insert_search h1 b XStart = Some (last_node XStart as)"
  proof -
    have "b < ?E" "b \<noteq> 0" using u(4-6) f(5) by (auto simp: word_less_nat_alt)
    moreover have "seg h1 XStart (fs @ [(?E, 0)])" using sg1 fs by simp
    ultimately show ?thesis unfolding ab by (intro insert_search_finds)
  qed
  moreover have "case last_node XStart as of XStart \<Rightarrow> True | Blk i \<Rightarrow> heapVALIDATE_BLOCK_POINTER h1 i"
  proof -
    have "heapVALIDATE_BLOCK_POINTER h1 = heapVALIDATE_BLOCK_POINTER h"
      by (simp add: fun_eq_iff heapVALIDATE_BLOCK_POINTER_def h1_def)
    moreover have "heapVALIDATE_BLOCK_POINTER h i" if "last_node XStart as = Blk i" for i
      using last_node_in [of as] free_list_valid(2) [OF fl] fs that by auto
    ultimately show ?thesis by (simp split: hblk.splits)
  qed
  ultimately have ins: "prvInsertBlockIntoFreeList b h1 = Some h2"
    by (simp add: prvInsertBlockIntoFreeList_def h2_def)
  have b8: "b + 8 - xHeapStructSize = b" "b + 8 \<noteq> 0"
  proof -
    have "unat (b + 8) = unat b + 8" using u(6) f(3,4) by (subst unat_add_small) simp_all
    then show "b + 8 \<noteq> 0" by auto
  qed (simp add: xHeapStructSize_def)
  have free: "vPortFree (b + 8) h = Some (h2\<lparr>xNumberOfSuccessfulFrees := xNumberOfSuccessfulFrees h2 + 1\<rparr>)"
    using b8 v u alloc_bit_set ins
    by (simp add: vPortFree_def Let_def heapBLOCK_IS_ALLOCATED_def alloc_bit_clear h1_def)
  note io = insert_free_ok [OF fl iu]
  note g = im(3-6) [folded h2_def]
  have "unat (xFreeBytesRemaining h + n) = sizes fs + unat n"
  proof -
    have "sizes fs + unat n < 2 ^ 32"
      using ordered_sizes [OF io(1)] io(3) f(3,4) by simp
    then show ?thesis using f(6) by (simp add: unat_add_small)
  qed
  then have "free_list h2 (insert_free (b, n) fs)"
    unfolding free_list_def using im(1,2) [folded h2_def] g io fl pc1 e protect_cong [OF g(1)]
    by (simp add: h1_def free_list_def)
  then have fl2: "free_list (h2\<lparr>xNumberOfSuccessfulFrees := xNumberOfSuccessfulFrees h2 + 1\<rparr>) (insert_free (b, n) fs)"
    unfolding free_list_def
    by (auto simp: heapPROTECT_BLOCK_POINTER_def elim: seg_transfer)
  have other: "xBlockSize h2 (Blk c) = xBlockSize h (Blk c) \<and> pxNextFreeBlock h2 (Blk c) = pxNextFreeBlock h (Blk c)"
    if "c \<noteq> b" "c \<notin> fst ` set fs" for c
    using insert_merge_other [OF sg1 E1 sz1 d b_fs', of c, folded h2_def] that fs by (auto simp: h1_def)
  show ?thesis using free fl2 g other by (auto simp: h1_def)
qed

section \<open>Blocks in use stay in use\<close>

lemma in_use_not_free:
  assumes "free_list h fs" "in_use h fs c k"
  shows "c \<notin> fst ` set fs"
proof
  assume "c \<in> fst ` set fs"
  then obtain m where m: "(c, m) \<in> set fs" by auto
  have "ordered (unat (ucHeap h)) fs (unat (pxEnd h))" using assms(1) by (simp add: free_list_def)
  then have "unat c \<in> bytes_of fs" using ordered_in [OF _ m] m by (force simp: bytes_of_def)
  moreover have "unat c \<in> {unat c ..< unat c + unat k}" using assms(2) by (simp add: in_use_def)
  ultimately show False using assms(2) unfolding in_use_def by blast
qed

lemma in_use_transfer:
  assumes "in_use h fs c k" and "xHeapCanary h' = xHeapCanary h" "ucHeap h' = ucHeap h" "pxEnd h' = pxEnd h"
    and "xBlockSize h' (Blk c) = xBlockSize h (Blk c)" "pxNextFreeBlock h' (Blk c) = pxNextFreeBlock h (Blk c)"
    and "{unat c ..< unat c + unat k} \<inter> bytes_of fs' = {}"
  shows "in_use h' fs' c k"
  using assms protect_cong [OF assms(2)] by (simp add: in_use_def)

lemma take_block_others:
  assumes fl: "free_list h (as @ (a, n) # bs)" and want: "want \<le> n" "want AND 7 = 0" "0 < unat want"
    and t: "take_block want (last_node XStart as) a h = Some (h', pv)"
    and iu: "in_use h (as @ (a, n) # bs) c k"
  shows "in_use h' (as @ remainder want (a, n) @ bs) c k"
    and "{unat c ..< unat c + unat k} \<inter> {unat a ..< unat a + unat (taken want n)} = {}"
proof -
  have f: "xHeapCanary h' = xHeapCanary h" "pxEnd h' = pxEnd h" "ucHeap h' = ucHeap h"
      "pxNextFreeBlock h' = (if n - want > 16
       then (pxNextFreeBlock h)(last_node XStart as := heapPROTECT_BLOCK_POINTER h (a + want),
              Blk (a + want) := pxNextFreeBlock h (Blk a), Blk a := heapPROTECT_BLOCK_POINTER h 0)
       else (pxNextFreeBlock h)(last_node XStart as := pxNextFreeBlock h (Blk a), Blk a := heapPROTECT_BLOCK_POINTER h 0))"
      "xBlockSize h' = (if n - want > 16
       then (xBlockSize h)(Blk (a + want) := n - want, Blk a := want OR heapBLOCK_ALLOCATED_BITMASK)
       else (xBlockSize h)(Blk a := n OR heapBLOCK_ALLOCATED_BITMASK))"
    using take_block_fields [OF fl want] t by auto
  note ar = free_list_around [OF fl]
  have wn: "unat want \<le> unat n" using want by (simp add: word_le_nat_alt)
  have u: "unat (a + want) = unat a + unat want" using ar(5,6) wn by (subst unat_add_small) simp_all
  have un: "unat (n - want) = unat n - unat want" using want(1) by (rule unat_sub_small)
  have dis: "{unat c ..< unat c + unat k} \<inter> bytes_of (as @ (a, n) # bs) = {}" and k: "0 < unat k"
    using iu by (simp_all add: in_use_def)
  have "c \<notin> fst ` set (as @ (a, n) # bs)" by (rule in_use_not_free [OF fl iu])
  then have c: "c \<noteq> a" "last_node XStart as \<noteq> Blk c" using last_node_in [of as] by force+
  have "n - want > 16 \<Longrightarrow> unat (a + want) \<in> bytes_of (as @ (a, n) # bs)"
    using u un by (auto simp: word_less_nat_alt)
  moreover have "unat c \<in> {unat c ..< unat c + unat k}" using k by simp
  ultimately have cw: "n - want > 16 \<Longrightarrow> c \<noteq> a + want" using dis by blast
  have tk: "unat (taken want n) \<le> unat n" using wn by (simp add: taken_def)
  have r: "bytes_of (remainder want (a, n)) \<subseteq> {unat a ..< unat a + unat n}"
    using u un wn by (auto simp: remainder_def)
  show "in_use h' (as @ remainder want (a, n) @ bs) c k"
  proof (rule in_use_transfer [OF iu f(1,3,2)])
    show "xBlockSize h' (Blk c) = xBlockSize h (Blk c)" using c cw by (auto simp: f(5))
    show "pxNextFreeBlock h' (Blk c) = pxNextFreeBlock h (Blk c)" using c cw by (auto simp: f(4))
    show "{unat c ..< unat c + unat k} \<inter> bytes_of (as @ remainder want (a, n) @ bs) = {}"
      using dis r by auto
  qed
  have "{unat a ..< unat a + unat (taken want n)} \<subseteq> bytes_of (as @ (a, n) # bs)" using tk by auto
  then show "{unat c ..< unat c + unat k} \<inter> {unat a ..< unat a + unat (taken want n)} = {}"
    using dis by blast
qed

section \<open>Initialisation makes one free block\<close>

lemma and_not_7: "unat ((x :: u32) AND NOT 7) = unat x - unat x mod 8"
proof -
  have hb: "32 \<le> i \<Longrightarrow> \<not> bit x i" for i by (auto dest: bit_imp_le_length)
  have "x AND NOT 7 = push_bit 3 (drop_bit 3 x)"
    by (rule word_eq_bitsI) (simp add: bit_positions bit_simps hb)
  moreover have "unat (drop_bit 3 x) = unat x div 8"
    using unat_drop_bit_eq [of 3 x] by (simp add: drop_bit_eq_div)
  moreover have "unat (push_bit 3 (drop_bit 3 x)) = unat x div 8 * 8"
    using unat_bound [of x] calculation(2) unfolding unsigned_push_bit_eq
    by (simp add: take_bit_nat_eq_self push_bit_eq_mult)
  ultimately show ?thesis by (simp add: minus_mod_eq_div_mult)
qed

definition heap_placed :: "heap4 \<Rightarrow> bool" where
  "heap_placed h \<longleftrightarrow> 0 < unat (ucHeap h) \<and> unat (ucHeap h) + 133120 < 2 ^ 31"

definition heap_start :: "u32 \<Rightarrow> u32" where
  "heap_start u = (if u AND 7 \<noteq> 0 then (u + 7) AND NOT 7 else u)"

lemma prvHeapInit_free_list:
  fixes rnd :: u32
  assumes "heap_placed h"
  defines "h' \<equiv> prvHeapInit rnd h"
  shows "\<exists>n. free_list h' [(heap_start (ucHeap h), n)] \<and> 133104 \<le> unat n + 8" and "ucHeap h' = ucHeap h"
proof -
  let ?u = "ucHeap h"
  have p: "0 < unat ?u" "unat ?u + 133120 < 2 ^ 31" using assms by (simp_all add: heap_placed_def)
  define s where "s = heap_start ?u"
  define total where "total = (if ?u AND 7 \<noteq> 0 then configTOTAL_HEAP_SIZE - (s - ?u) else configTOTAL_HEAP_SIZE)"
  define e where "e = (s + total - 8) AND NOT 7"
  have s: "unat ?u \<le> unat s" "unat s < unat ?u + 8" "8 dvd unat s"
  proof -
    have "unat (?u + 7) = unat ?u + 7" using p by (subst unat_add_small) simp_all
    then have "unat ((?u + 7) AND NOT 7) = unat ?u + 7 - (unat ?u + 7) mod 8"
      using and_not_7 [of "?u + 7"] by simp
    moreover have "8 dvd unat ?u + 7 - (unat ?u + 7) mod 8" by (simp add: dvd_minus_mod)
    moreover have "?u AND 7 \<noteq> 0 \<Longrightarrow> \<not> 8 dvd unat ?u" by (simp add: and_7)
    moreover have "(unat ?u + 7) mod 8 < 8" by simp
    ultimately show "unat ?u \<le> unat s" "unat s < unat ?u + 8" "8 dvd unat s"
      by (auto simp: s_def heap_start_def and_7)
  qed
  have t: "unat s + unat total = unat ?u + 133120"
  proof (cases "?u AND 7 \<noteq> 0")
    case True
    have "unat (s - ?u) = unat s - unat ?u" using s by (intro unat_sub_small) (simp add: word_le_nat_alt)
    moreover have "s - ?u \<le> configTOTAL_HEAP_SIZE"
      using s calculation by (simp add: word_le_nat_alt configTOTAL_HEAP_SIZE_def)
    ultimately have "unat total = 133120 - (unat s - unat ?u)"
      using True by (simp add: total_def unat_sub_small configTOTAL_HEAP_SIZE_def)
    then show ?thesis using s by simp
  next
    case False
    then show ?thesis by (simp add: total_def s_def heap_start_def configTOTAL_HEAP_SIZE_def)
  qed
  have "unat (s + total) = unat ?u + 133120" using t p by (subst unat_add_small) simp_all
  moreover have "8 \<le> s + total" using calculation by (simp add: word_le_nat_alt)
  ultimately have "unat (s + total - 8) = unat ?u + 133112" by (simp add: unat_sub_small)
  then have e: "unat e = unat ?u + 133112 - (unat ?u + 133112) mod 8"
    using and_not_7 [of "s + total - 8"] by (simp add: e_def)
  have e8: "8 dvd unat e" unfolding e by (simp add: dvd_minus_mod)
  have "(unat ?u + 133112) mod 8 < 8" by simp
  then have le: "unat ?u + 133105 \<le> unat e" "unat e \<le> unat ?u + 133112" using e by simp_all
  have n: "unat (e - s) = unat e - unat s" using le s by (intro unat_sub_small) (simp add: word_le_nat_alt)
  have se: "s \<noteq> e" using le s by auto
  have h': "h' = h\<lparr>xHeapCanary := rnd,
      pxNextFreeBlock := (pxNextFreeBlock h)(XStart := s XOR rnd, Blk e := 0 XOR rnd, Blk s := e XOR rnd),
      xBlockSize := (xBlockSize h)(XStart := 0, Blk e := 0, Blk s := e - s), pxEnd := e,
      xMinimumEverFreeBytesRemaining := e - s, xFreeBytesRemaining := e - s\<rparr>"
    by (simp add: h'_def prvHeapInit_def Let_def portBYTE_ALIGNMENT_MASK_def xHeapStructSize_def s_def
        heap_start_def total_def e_def heapPROTECT_BLOCK_POINTER_def)
  have "8 dvd unat (e - s)" using n e8 s(3) by (simp add: dvd_diff_nat)
  then have "free_list h' [(s, e - s)]"
    using se le s p n e8
    by (simp add: free_list_def h' heapPROTECT_BLOCK_POINTER_def and_7 word_le_nat_alt)
  then show "\<exists>n. free_list h' [(heap_start ?u, n)] \<and> 133104 \<le> unat n + 8"
    using n le s s_def by (intro exI [of _ "e - s"]) auto
  show "ucHeap h' = ucHeap h" by (simp add: h')
qed

section \<open>The clients of the heap\<close>

text \<open>The blocks a client holds: all in use, no two sharing a byte.\<close>

fun apart :: "block list \<Rightarrow> bool" where
  "apart [] \<longleftrightarrow> True"
| "apart ((b, n) # ks) \<longleftrightarrow>
     (\<forall>(c, m) \<in> set ks. {unat c ..< unat c + unat m} \<inter> {unat b ..< unat b + unat n} = {}) \<and> apart ks"

definition heap_ok :: "heap4 \<Rightarrow> block list \<Rightarrow> block list \<Rightarrow> bool" where
  "heap_ok h fs ks \<longleftrightarrow> free_list h fs \<and> (\<forall>(b, n) \<in> set ks. in_use h fs b n) \<and> apart ks"

lemma apart_remove: "apart (as @ x # bs) \<Longrightarrow> apart (as @ bs)"
proof (induction as)
  case (Cons y as)
  then show ?case by (cases y) auto
qed (cases x, simp)

lemma apart_middle:
  "apart (as @ (b, n) # bs) \<Longrightarrow> (c, m) \<in> set (as @ bs) \<Longrightarrow>
     {unat c ..< unat c + unat m} \<inter> {unat b ..< unat b + unat n} = {}"
proof (induction as)
  case Nil
  then show ?case by auto
next
  case (Cons y as)
  obtain y1 y2 where y: "y = (y1, y2)" by fastforce
  show ?case
  proof (cases "(c, m) \<in> set (as @ bs)")
    case True
    then show ?thesis using Cons y by auto
  next
    case False
    then have "c = y1" "m = y2" using Cons.prems(2) y by auto
    then show ?thesis using Cons.prems(1) y by (auto simp: Int_commute)
  qed
qed

text \<open>Requested bytes fit in the block taken: the header and the payload.\<close>

lemma required_size_fits:
  assumes "0 < required_size x"
  shows "unat x + 8 \<le> unat (required_size x)"
proof -
  have x: "0 < x" "\<not> heapADD_WILL_OVERFLOW x xHeapStructSize"
  proof -
    show "0 < x" using assms by (cases "0 < x") (auto simp: required_size_def)
    then show "\<not> heapADD_WILL_OVERFLOW x xHeapStructSize" using assms by (auto simp: required_size_def)
  qed
  have u: "unat (x + xHeapStructSize) = unat x + 8"
  proof -
    have "unat x \<le> unat (0xFFFFFFFF - xHeapStructSize)"
      using x(2) by (simp add: heapADD_WILL_OVERFLOW_def not_less word_le_nat_alt)
    then show ?thesis by (subst unat_add_small) (simp_all add: xHeapStructSize_def)
  qed
  let ?w = "x + xHeapStructSize"
  show ?thesis
  proof (cases "?w AND portBYTE_ALIGNMENT_MASK \<noteq> 0")
    case True
    let ?d = "8 - (?w AND portBYTE_ALIGNMENT_MASK)"
    have o: "\<not> heapADD_WILL_OVERFLOW ?w ?d" and r: "required_size x = ?w + ?d"
      using assms x True by (auto simp: required_size_def Let_def split: if_splits)
    have "unat ?w + unat ?d < 2 ^ 32"
    proof -
      have "unat ?w \<le> unat (0xFFFFFFFF - ?d)"
        using o by (simp add: heapADD_WILL_OVERFLOW_def not_less word_le_nat_alt)
      note le = this
      have "?d \<le> 0xFFFFFFFF" using unat_bound [of ?d] by (simp add: word_le_nat_alt)
      then have "unat (0xFFFFFFFF - ?d) = 0xFFFFFFFF - unat ?d"
        by (subst unat_sub_small) simp_all
      then show ?thesis using le unat_bound [of ?d] by simp
    qed
    then have "unat (?w + ?d) = unat ?w + unat ?d" by (intro unat_add_small) simp
    then show ?thesis using r u by simp
  next
    case False
    then show ?thesis using assms x u by (auto simp: required_size_def Let_def split: if_splits)
  qed
qed

lemma malloc_effect:
  assumes ok: "heap_ok h fs ks"
  shows "case (if 0 < required_size x then first_fit (required_size x) fs else None) of
      None \<Rightarrow> pvPortMalloc rnd x h = Some (h, 0)
    | Some (as, (a, n), bs) \<Rightarrow>
        \<exists>h' k. pvPortMalloc rnd x h = Some (h', a + 8) \<and> unat x + 8 \<le> unat k \<and> a + 8 \<noteq> 0 \<and>
          k = taken (required_size x) n \<and>
          heap_ok h' (as @ remainder (required_size x) (a, n) @ bs) ((a, k) # ks) \<and> ucHeap h' = ucHeap h"
proof (cases "if 0 < required_size x then first_fit (required_size x) fs else None")
  case None
  then show ?thesis using pvPortMalloc_cases [where h = h and fs = fs and x = x and rnd = rnd] ok by (simp add: heap_ok_def)
next
  case (Some r)
  obtain as a n bs where r: "r = (as, (a, n), bs)" by (cases r) auto
  let ?w = "required_size x"
  have w: "0 < ?w" "first_fit ?w fs = Some (as, (a, n), bs)" using Some r by (auto split: if_splits)
  note ff = first_fit_Some [OF w(2)]
  have fl: "free_list h (as @ (a, n) # bs)" using ok ff(1) by (simp add: heap_ok_def)
  have w0: "0 < unat ?w" using w(1) by (simp add: unat_gt_0)
  obtain h' where h': "take_block ?w (last_node XStart as) a h = Some (h', a + 8)"
    "free_list h' (as @ remainder ?w (a, n) @ bs)" "in_use h' (as @ remainder ?w (a, n) @ bs) a (taken ?w n)"
    "ucHeap h' = ucHeap h"
    using take_block_effect [OF fl ff(2) required_size_aligned w0] by blast
  have m: "pvPortMalloc rnd x h = Some (h', a + 8)"
    using pvPortMalloc_cases [where h = h and fs = fs and x = x and rnd = rnd] ok Some r h'(1) by (simp add: heap_ok_def)
  have "\<forall>(c, k) \<in> set ks. in_use h (as @ (a, n) # bs) c k" using ok ff(1) by (simp add: heap_ok_def)
  then have others: "\<forall>(c, k) \<in> set ks. in_use h' (as @ remainder ?w (a, n) @ bs) c k \<and>
      {unat c ..< unat c + unat k} \<inter> {unat a ..< unat a + unat (taken ?w n)} = {}"
    using take_block_others [OF fl ff(2) required_size_aligned w0 h'(1)] by fast
  have "heap_ok h' (as @ remainder ?w (a, n) @ bs) ((a, taken ?w n) # ks)"
    using h'(2,3) others ok by (auto simp: heap_ok_def)
  moreover have "unat x + 8 \<le> unat (taken ?w n)"
    using required_size_fits [OF w(1)] ff(2) by (simp add: taken_def word_le_nat_alt)
  moreover have "a + 8 \<noteq> 0"
  proof -
    have "unat (a + 8) = unat a + 8"
      using free_list_around(5,6) [OF fl] by (subst unat_add_small) simp_all
    then show ?thesis by auto
  qed
  ultimately show ?thesis using m h'(4) Some r by simp
qed

lemma free_effect:
  assumes ok: "heap_ok h fs (ks1 @ (b, n) # ks2)"
  shows "\<exists>h'. vPortFree (b + 8) h = Some h' \<and> heap_ok h' (insert_free (b, n) fs) (ks1 @ ks2) \<and> ucHeap h' = ucHeap h"
proof -
  have fl: "free_list h fs" and iu: "in_use h fs b n" and ap: "apart (ks1 @ (b, n) # ks2)"
    using ok by (auto simp: heap_ok_def)
  obtain h' where h': "vPortFree (b + 8) h = Some h'" "free_list h' (insert_free (b, n) fs)"
    "pxEnd h' = pxEnd h" "ucHeap h' = ucHeap h" "xHeapCanary h' = xHeapCanary h"
    and oth: "\<And>c. c \<noteq> b \<Longrightarrow> c \<notin> fst ` set fs \<Longrightarrow>
       xBlockSize h' (Blk c) = xBlockSize h (Blk c) \<and> pxNextFreeBlock h' (Blk c) = pxNextFreeBlock h (Blk c)"
    using vPortFree_effect [OF fl iu] by blast
  have "in_use h' (insert_free (b, n) fs) c m" if "(c, m) \<in> set (ks1 @ ks2)" for c m
  proof -
    have cu: "in_use h fs c m" using ok that by (auto simp: heap_ok_def)
    have dis: "{unat c ..< unat c + unat m} \<inter> {unat b ..< unat b + unat n} = {}"
      by (rule apart_middle [OF ap that])
    have "unat c \<in> {unat c ..< unat c + unat m}" "unat b \<in> {unat b ..< unat b + unat n}"
      using cu iu by (simp_all add: in_use_def)
    then have cb: "c \<noteq> b" using dis by blast
    note o = oth [OF cb in_use_not_free [OF fl cu]]
    have "{unat c ..< unat c + unat m} \<inter> bytes_of fs = {}" using cu by (simp add: in_use_def)
    then show ?thesis
      using in_use_transfer [OF cu h'(5,4,3)] o insert_free_ok(2) [OF fl iu] dis by blast
  qed
  then have "heap_ok h' (insert_free (b, n) fs) (ks1 @ ks2)"
    using h'(2) apart_remove [OF ap] by (auto simp: heap_ok_def)
  then show ?thesis using h'(1,4) by blast
qed

text \<open>A client asks for memory, or gives back one of the pointers it holds.\<close>

datatype heap_op = Malloc u32 | Free nat

fun heap_step :: "u32 \<Rightarrow> heap_op \<Rightarrow> heap4 \<times> u32 list \<Rightarrow> (heap4 \<times> u32 list) option" where
  "heap_step rnd (Malloc x) (h, us) =
     map_option (\<lambda>(h, pv). (h, if pv = 0 then us else pv # us)) (pvPortMalloc rnd x h)"
| "heap_step rnd (Free k) (h, us) =
     (if k < length us then map_option (\<lambda>h. (h, take k us @ drop (k + 1) us)) (vPortFree (us ! k) h)
      else Some (h, us))"

primrec heap_steps :: "u32 \<Rightarrow> heap_op list \<Rightarrow> heap4 \<times> u32 list \<Rightarrow> (heap4 \<times> u32 list) option" where
  "heap_steps rnd [] s = Some s"
| "heap_steps rnd (op # ops) s =
     (case heap_step rnd op s of None \<Rightarrow> None | Some s \<Rightarrow> heap_steps rnd ops s)"

definition clients_ok :: "heap4 \<times> u32 list \<Rightarrow> bool" where
  "clients_ok s \<longleftrightarrow>
     (case s of (h, us) \<Rightarrow>
        heap_placed h \<and> pxEnd h = 0 \<and> us = [] \<or>
        (\<exists>fs ks. heap_ok h fs ks \<and> us = map (\<lambda>(b, n). b + 8) ks))"

lemma malloc_init:
  assumes "pxEnd h = 0" "heap_placed h"
  shows "pvPortMalloc rnd x h = pvPortMalloc rnd x (prvHeapInit rnd h)"
proof -
  obtain n where "free_list (prvHeapInit rnd h) [(heap_start (ucHeap h), n)]"
    using prvHeapInit_free_list [OF assms(2)] by blast
  then have "pxEnd (prvHeapInit rnd h) \<noteq> 0" by (rule free_list_valid(3))
  then show ?thesis using assms(1) by (simp add: pvPortMalloc_def)
qed

lemma malloc_ok_step:
  assumes "heap_ok h fs ks"
  shows "\<exists>s'. heap_step rnd (Malloc x) (h, map (\<lambda>(b, n). b + 8) ks) = Some s' \<and> clients_ok s'"
proof (cases "if 0 < required_size x then first_fit (required_size x) fs else None")
  case None
  then show ?thesis using malloc_effect [OF assms, where x = x and rnd = rnd] assms by (auto simp: clients_ok_def)
next
  case (Some r)
  obtain as a n bs where r: "r = (as, (a, n), bs)" by (cases r) auto
  obtain h' k where h': "pvPortMalloc rnd x h = Some (h', a + 8)" "a + 8 \<noteq> 0"
    "heap_ok h' (as @ remainder (required_size x) (a, n) @ bs) ((a, k) # ks)"
    using malloc_effect [OF assms, where x = x and rnd = rnd] Some r by auto
  have "map (\<lambda>(b, n). b + 8) ((a, k) # ks) = (a + 8) # map (\<lambda>(b, n). b + 8) ks" by simp
  then show ?thesis using h' unfolding clients_ok_def by (auto intro!: exI)
qed

lemma heap_step_ok:
  assumes "clients_ok s"
  shows "\<exists>s'. heap_step rnd op s = Some s' \<and> clients_ok s'"
proof -
  obtain h us where s: "s = (h, us)" by fastforce
  consider (init) "heap_placed h" "pxEnd h = 0" "us = []"
    | (run) fs ks where "heap_ok h fs ks" "us = map (\<lambda>(b, n). b + 8) ks"
    using assms s by (auto simp: clients_ok_def)
  then show ?thesis
  proof cases
    case init
    show ?thesis
    proof (cases op)
      case (Malloc x)
      obtain n where "free_list (prvHeapInit rnd h) [(heap_start (ucHeap h), n)]"
        using prvHeapInit_free_list [OF init(1)] by blast
      then have "heap_ok (prvHeapInit rnd h) [(heap_start (ucHeap h), n)] []" by (simp add: heap_ok_def)
      from malloc_ok_step [OF this, where x = x and rnd = rnd] show ?thesis
        using s Malloc init malloc_init [OF init(2,1), where x = x and rnd = rnd] by simp
    next
      case (Free k)
      then show ?thesis using assms s init by simp
    qed
  next
    case run
    show ?thesis
    proof (cases op)
      case (Malloc x)
      then show ?thesis using malloc_ok_step [OF run(1), where x = x and rnd = rnd] run s by simp
    next
      case (Free k)
      show ?thesis
      proof (cases "k < length us")
        case True
        then have kl: "k < length ks" using run by simp
        obtain b n where bn: "ks ! k = (b, n)" by fastforce
        have e: "ks = take k ks @ (b, n) # drop (k + 1) ks" using kl bn id_take_nth_drop by fastforce
        obtain h' where h': "vPortFree (b + 8) h = Some h'"
          "heap_ok h' (insert_free (b, n) fs) (take k ks @ drop (k + 1) ks)"
          using free_effect [of h fs "take k ks" b n "drop (k + 1) ks"] run(1) e by auto
        have "us ! k = b + 8" using kl bn run(2) by simp
        then show ?thesis using True s Free h' run(2)
          by (auto simp: clients_ok_def take_map drop_map intro!: exI)
      next
        case False
        then show ?thesis using assms s Free by simp
      qed
    qed
  qed
qed

lemma heap_steps_ok: "clients_ok s \<Longrightarrow> \<exists>s'. heap_steps rnd ops s = Some s' \<and> clients_ok s'"
proof (induction ops arbitrary: s)
  case (Cons op ops)
  then show ?case using heap_step_ok [OF Cons.prems, of rnd op] by auto
qed simp

section \<open>Statistics describe the list\<close>

lemma stats_walk_list:
  assumes "seg h p (fs @ [(E, 0)])" and "E = pxEnd h" and "\<And>a n. (a, n) \<in> set fs \<Longrightarrow> a \<noteq> E"
  shows "stats_walk h (fst (hd (fs @ [(E, 0)]))) k big small =
    Some (k + of_nat (length fs), foldl max big (map snd fs), foldl min small (map snd fs))"
  using assms
proof (induction fs arbitrary: p k big small)
  case Nil
  then show ?case by (subst stats_walk.simps) simp
next
  case (Cons x fs)
  obtain a n where x: "x = (a, n)" by fastforce
  have nx: "pxNextFreeBlock h (Blk a) = heapPROTECT_BLOCK_POINTER h (fst (hd (fs @ [(E, 0)])))"
    using Cons.prems(1) x by (cases fs) auto
  have m: "(if n > big then n else big) = max big n" "(if n < small then n else small) = min small n"
    by (auto simp: max_def min_def)
  have v: "a \<noteq> pxEnd h" "xBlockSize h (Blk a) = n" using Cons.prems x by auto
  have "stats_walk h (fst (hd (fs @ [(E, 0)]))) (k + 1) (max big n) (min small n) =
      Some (k + 1 + of_nat (length fs), foldl max (max big n) (map snd fs), foldl min (min small n) (map snd fs))"
    by (rule Cons.IH [of "Blk a"]) (use Cons.prems x in auto)
  then show ?case
    using x by (subst stats_walk.simps) (simp only: v nx m list.sel append.simps fst_conv protect_protect
        if_True not_False_eq_True simp_thms list.map snd_conv foldl.simps list.size of_nat_add of_nat_Suc ac_simps, simp)
qed

section \<open>The correctness of the heap\<close>

definition reset_heap :: heap4 where
  "reset_heap = \<lparr>ucHeap = 0x20000000, xHeapCanary = 0, pxNextFreeBlock = (\<lambda>_. 0), xBlockSize = (\<lambda>_. 0),
     pxEnd = 0, xFreeBytesRemaining = 0, xMinimumEverFreeBytesRemaining = 0,
     xNumberOfSuccessfulAllocations = 0, xNumberOfSuccessfulFrees = 0\<rparr>"

lemma reset_heap_ok: "heap_ok (prvHeapInit 5 reset_heap) [(0x20000000, 133112)] []"
  by (simp add: heap_ok_def free_list_def prvHeapInit_def Let_def reset_heap_def heapPROTECT_BLOCK_POINTER_def
      portBYTE_ALIGNMENT_MASK_def configTOTAL_HEAP_SIZE_def xHeapStructSize_def)

lemma reset_malloc_10:
  "\<exists>h'. pvPortMalloc 5 10 (prvHeapInit 5 reset_heap) = Some (h', 0x20000008) \<and>
    heap_ok h' [(0x20000018, 133088)] [(0x20000000, 24)]"
  using malloc_effect [OF reset_heap_ok, where x = 10 and rnd = 5]
  by (simp add: required_size_def Let_def heapADD_WILL_OVERFLOW_def xHeapStructSize_def
      portBYTE_ALIGNMENT_MASK_def first_fit_def remainder_def taken_def) blast

text \<open>
  C27: \<^verbatim>\<open>pvPortMalloc\<close> is first fit. It takes the first free block of at least the padded size, gives the
  address behind its header, keeps what is left free when that is more than the least block size, and leaves
  every block in use intact and apart from the new one; the new block has room for the header and the bytes
  asked for. It returns NULL, changing nothing, exactly when no free block is large enough or the size overflows.
\<close>
theorem pvPortMalloc_first_fit:
  assumes "heap_ok h fs ks"
  shows "case (if 0 < required_size x then first_fit (required_size x) fs else None) of
      None \<Rightarrow> pvPortMalloc rnd x h = Some (h, 0)
    | Some (as, (a, n), bs) \<Rightarrow>
        \<exists>h' k. pvPortMalloc rnd x h = Some (h', a + 8) \<and> unat x + 8 \<le> unat k \<and> a + 8 \<noteq> 0 \<and>
          k = taken (required_size x) n \<and>
          heap_ok h' (as @ remainder (required_size x) (a, n) @ bs) ((a, k) # ks) \<and> ucHeap h' = ucHeap h"
  by (rule malloc_effect [OF assms])

theorem pvPortMalloc_first_fit_witness:
  "\<exists>h'. pvPortMalloc 5 10 (prvHeapInit 5 reset_heap) = Some (h', 0x20000008) \<and>
    heap_ok h' [(0x20000018, 133088)] [(0x20000000, 24)]"
  using pvPortMalloc_first_fit [OF reset_heap_ok, where x = 10 and rnd = 5]
  by (simp add: required_size_def Let_def heapADD_WILL_OVERFLOW_def xHeapStructSize_def
      portBYTE_ALIGNMENT_MASK_def first_fit_def remainder_def taken_def) blast

text \<open>
  C28: \<^verbatim>\<open>vPortFree\<close> of a pointer that is held does not fail. It gives the bytes of the block, and no others,
  back to the free list, merged with the free blocks before and after it when they touch it, so that no
  two free blocks ever touch; every other block stays in use and intact.
\<close>
theorem vPortFree_coalesces:
  assumes "heap_ok h fs (ks1 @ (b, n) # ks2)"
  shows "\<exists>h'. vPortFree (b + 8) h = Some h' \<and> heap_ok h' (insert_free (b, n) fs) (ks1 @ ks2) \<and>
    bytes_of (insert_free (b, n) fs) = bytes_of fs \<union> {unat b ..< unat b + unat n}"
proof -
  have "free_list h fs" "in_use h fs b n" using assms by (auto simp: heap_ok_def)
  then show ?thesis using free_effect [OF assms] insert_free_ok(2) by blast
qed

theorem vPortFree_coalesces_witness:
  "\<exists>h h'. pvPortMalloc 5 10 (prvHeapInit 5 reset_heap) = Some (h, 0x20000008) \<and>
    vPortFree 0x20000008 h = Some h' \<and> heap_ok h' [(0x20000000, 133112)] []"
proof -
  obtain h where h: "pvPortMalloc 5 10 (prvHeapInit 5 reset_heap) = Some (h, 0x20000008)"
    "heap_ok h [(0x20000018, 133088)] ([] @ (0x20000000, 24) # [])" using reset_malloc_10 by auto
  have "insert_free (0x20000000, 24) [(0x20000018, 133088)] = [(0x20000000, 133112)]"
    by (simp add: insert_free_def merge_left_def merge_right_def)
  then show ?thesis using vPortFree_coalesces [OF h(2)] h(1) by auto
qed

text \<open>
  C10: from the heap before its first use, any sequence of allocations and of frees of held pointers runs
  to its end without a failed assertion or an endless search, and leaves a free list in address order and
  held blocks that share no byte with each other or with the free list.
\<close>
theorem heap_clients_safe:
  assumes "heap_placed h" and "pxEnd h = 0"
  shows "\<exists>s'. heap_steps rnd ops (h, []) = Some s' \<and> clients_ok s'"
  by (rule heap_steps_ok) (simp add: clients_ok_def assms)

theorem heap_clients_safe_witness:
  "\<exists>s'. heap_steps 5 [Malloc 10, Malloc 200, Free 1, Malloc 0xFFFFFFF0, Free 0] (reset_heap, []) = Some s' \<and> clients_ok s'"
  by (rule heap_clients_safe) (simp_all add: heap_placed_def reset_heap_def)

text \<open>
  \<^verbatim>\<open>vPortGetHeapStats\<close> returns and reports the number of free blocks, the size of the largest and that of the
  smallest, and copies the counters of the heap; the bytes it reports free are those of the free blocks.
\<close>
theorem vPortGetHeapStats_reports:
  assumes "heap_ok h fs ks"
  shows "vPortGetHeapStats h =
    Some \<lparr>xAvailableHeapSpaceInBytes = of_nat (sizes fs),
      xSizeOfLargestFreeBlockInBytes = foldl max 0 (map snd fs),
      xSizeOfSmallestFreeBlockInBytes = foldl min 0xFFFFFFFF (map snd fs), xNumberOfFreeBlocks = of_nat (length fs),
      xMinimumEverFreeBytes = xMinimumEverFreeBytesRemaining h,
      xSuccessfulAllocations = xNumberOfSuccessfulAllocations h,
      xSuccessfulFrees = xNumberOfSuccessfulFrees h\<rparr>"
proof -
  have fl: "free_list h fs" using assms by (simp add: heap_ok_def)
  have sg: "seg h XStart (fs @ [(pxEnd h, 0)])" and o: "ordered (unat (ucHeap h)) fs (unat (pxEnd h))"
    using fl by (simp_all add: free_list_def)
  have ne: "a \<noteq> pxEnd h" if "(a, n) \<in> set fs" for a n using ordered_in [OF o that] by auto
  have "heapPROTECT_BLOCK_POINTER h (pxNextFreeBlock h XStart) = fst (hd (fs @ [(pxEnd h, 0)]))"
    using sg by (cases fs) auto
  moreover have "fst (hd (fs @ [(pxEnd h, 0)])) \<noteq> 0"
    using free_list_valid(3,4) [OF fl] by (cases fs) force+
  moreover have "xFreeBytesRemaining h = of_nat (sizes fs)"
  proof -
    have "sizes fs = unat (xFreeBytesRemaining h)" using fl by (simp add: free_list_def)
    then show ?thesis by simp
  qed
  ultimately show ?thesis
    using stats_walk_list [OF sg refl ne, where k = 0 and big = 0 and small = "0xFFFFFFFF"] by (simp add: vPortGetHeapStats_def Let_def)
qed

theorem vPortGetHeapStats_reports_witness:
  "vPortGetHeapStats (prvHeapInit 5 reset_heap) =
    Some \<lparr>xAvailableHeapSpaceInBytes = 133112, xSizeOfLargestFreeBlockInBytes = 133112,
      xSizeOfSmallestFreeBlockInBytes = 133112, xNumberOfFreeBlocks = 1, xMinimumEverFreeBytes = 133112,
      xSuccessfulAllocations = 0, xSuccessfulFrees = 0\<rparr>"
  using vPortGetHeapStats_reports [OF reset_heap_ok]
  by (simp add: prvHeapInit_def Let_def reset_heap_def portBYTE_ALIGNMENT_MASK_def configTOTAL_HEAP_SIZE_def
      xHeapStructSize_def)

end
