(* ===== verification/Lwip_Mem.thy ===== *)
theory Lwip_Mem
  imports Prelude_Base
begin

text \<open>
  The heap of the TCP/IP stack (\<^verbatim>\<open>middlewares/lwip/src/core/mem.c\<close>): an array tiled by blocks whose headers
  hold the offsets of the next and the previous header. Offsets and sizes are naturals with the
  conversions to \<^verbatim>\<open>mem_size_t\<close> (16 bits) and the wrap-around of 32-bit arithmetic written out. The
  overflow check of the configuration adds a guard region of 16 bytes before and after the user's bytes; the
  contents of the array are not modelled. \<open>None\<close> is a loop that does not end.
\<close>

section \<open>The heap array\<close>

record lwip_mem =
  ram :: nat
  nextf :: "nat \<Rightarrow> nat"
  prevf :: "nat \<Rightarrow> nat"
  used :: "nat \<Rightarrow> bool"
  user_size :: "nat \<Rightarrow> nat"
  lfree :: nat

abbreviation MEM_SIZE_ALIGNED :: nat where "MEM_SIZE_ALIGNED \<equiv> 61440"
abbreviation SIZEOF_STRUCT_MEM :: nat where "SIZEOF_STRUCT_MEM \<equiv> 8"
abbreviation MIN_SIZE_ALIGNED :: nat where "MIN_SIZE_ALIGNED \<equiv> 12"
abbreviation MEM_SANITY_OFFSET :: nat where "MEM_SANITY_OFFSET \<equiv> 16"
abbreviation MEM_SANITY_OVERHEAD :: nat where "MEM_SANITY_OVERHEAD \<equiv> 32"

text \<open>Conversion to \<^verbatim>\<open>mem_size_t\<close>, 32-bit subtraction, rounding up to the alignment.\<close>

definition to16 :: "nat \<Rightarrow> nat" where "to16 n = n mod 65536"
definition sub32 :: "nat \<Rightarrow> nat \<Rightarrow> nat" where "sub32 a b = (a + 2 ^ 32 - b) mod 2 ^ 32"
definition LWIP_MEM_ALIGN_SIZE :: "nat \<Rightarrow> nat" where "LWIP_MEM_ALIGN_SIZE n = (n + 3) div 4 * 4"

definition mem_overflow_init_element :: "nat \<Rightarrow> nat \<Rightarrow> lwip_mem \<Rightarrow> lwip_mem" where
  "mem_overflow_init_element p n m = m\<lparr>user_size := (user_size m)(p := n)\<rparr>"

definition mem_init :: "lwip_mem \<Rightarrow> lwip_mem" where
  "mem_init m =
    (let m = m\<lparr>nextf := (nextf m)(0 := MEM_SIZE_ALIGNED), prevf := (prevf m)(0 := 0), used := (used m)(0 := False)\<rparr>;
         m = m\<lparr>used := (used m)(MEM_SIZE_ALIGNED := True), nextf := (nextf m)(MEM_SIZE_ALIGNED := MEM_SIZE_ALIGNED),
               prevf := (prevf m)(MEM_SIZE_ALIGNED := MEM_SIZE_ALIGNED)\<rparr>
     in m\<lparr>lfree := 0\<rparr>)"

definition mem_link_valid :: "lwip_mem \<Rightarrow> nat \<Rightarrow> bool" where
  "mem_link_valid m p \<longleftrightarrow>
     \<not> (nextf m p > MEM_SIZE_ALIGNED \<or> prevf m p > MEM_SIZE_ALIGNED \<or>
        prevf m p \<noteq> p \<and> nextf m (prevf m p) \<noteq> p \<or>
        nextf m p \<noteq> MEM_SIZE_ALIGNED \<and> prevf m (nextf m p) \<noteq> p)"

text \<open>Whether every assertion of the walk over the heap holds.\<close>

partial_function (option) sanity_walk :: "lwip_mem \<Rightarrow> nat \<Rightarrow> bool \<Rightarrow> (nat \<times> bool) option" where
  "sanity_walk m p last_used =
    (if p > 0 \<and> p < MEM_SIZE_ALIGNED then
       (if p mod 4 = 0 \<and> prevf m p \<le> MEM_SIZE_ALIGNED \<and> nextf m p \<le> MEM_SIZE_ALIGNED \<and>
           (last_used \<or> used m p) \<and> mem_link_valid m p
        then sanity_walk m (nextf m p) (used m p) else Some (p, False))
     else Some (p, True))"

definition mem_sanity :: "lwip_mem \<Rightarrow> bool option" where
  "mem_sanity m =
    (if prevf m 0 = 0 \<and> nextf m 0 \<le> MEM_SIZE_ALIGNED then
       map_option (\<lambda>(p, ok). ok \<and> p = MEM_SIZE_ALIGNED \<and> used m p \<and> prevf m p = MEM_SIZE_ALIGNED \<and>
                             nextf m p = MEM_SIZE_ALIGNED)
         (sanity_walk m (nextf m 0) (used m 0))
     else Some False)"

section \<open>Freeing\<close>

text \<open>Merging an unused block with the block after it, then with the block before it.\<close>

definition plug_next :: "nat \<Rightarrow> lwip_mem \<Rightarrow> lwip_mem" where
  "plug_next p m =
    (let nmem = nextf m p in
     if p \<noteq> nmem \<and> \<not> used m nmem \<and> nmem \<noteq> MEM_SIZE_ALIGNED then
       (let m = (if lfree m = nmem then m\<lparr>lfree := p\<rparr> else m);
            m = m\<lparr>nextf := (nextf m)(p := nextf m nmem)\<rparr>
        in if nextf m nmem \<noteq> MEM_SIZE_ALIGNED then m\<lparr>prevf := (prevf m)(nextf m nmem := p)\<rparr> else m)
     else m)"

definition plug_prev :: "nat \<Rightarrow> lwip_mem \<Rightarrow> lwip_mem" where
  "plug_prev p m =
    (let pmem = prevf m p in
     if pmem \<noteq> p \<and> \<not> used m pmem then
       (let m = (if lfree m = p then m\<lparr>lfree := pmem\<rparr> else m);
            m = m\<lparr>nextf := (nextf m)(pmem := nextf m p)\<rparr>
        in if nextf m p \<noteq> MEM_SIZE_ALIGNED then m\<lparr>prevf := (prevf m)(nextf m p := pmem)\<rparr> else m)
     else m)"

definition plug_holes :: "nat \<Rightarrow> lwip_mem \<Rightarrow> lwip_mem" where
  "plug_holes p m = plug_prev p (plug_next p m)"

definition mem_free :: "nat \<Rightarrow> lwip_mem \<Rightarrow> lwip_mem" where
  "mem_free rmem m =
    (if rmem = 0 then m
     else if rmem mod 4 \<noteq> 0 then m
     else
       (let mem = sub32 rmem (SIZEOF_STRUCT_MEM + MEM_SANITY_OFFSET) in
        if mem < ram m \<or> (rmem + MIN_SIZE_ALIGNED) mod 2 ^ 32 > ram m + MEM_SIZE_ALIGNED then m
        else
          (let p = mem - ram m in
           if \<not> used m p then m
           else if \<not> mem_link_valid m p then m
           else
             (let m = m\<lparr>used := (used m)(p := False)\<rparr>;
                  m = (if p < lfree m then m\<lparr>lfree := p\<rparr> else m)
              in plug_holes p m))))"

section \<open>Allocation\<close>

text \<open>The size taken from the heap for a request: aligned, at least the least size, with the guard regions.\<close>

definition mem_request :: "nat \<Rightarrow> nat" where
  "mem_request n =
    (let size = to16 (LWIP_MEM_ALIGN_SIZE n);
         size = (if size < MIN_SIZE_ALIGNED then MIN_SIZE_ALIGNED else size)
     in to16 (size + MEM_SANITY_OVERHEAD))"

partial_function (option) malloc_loop :: "lwip_mem \<Rightarrow> nat \<Rightarrow> nat \<Rightarrow> nat option option" where
  "malloc_loop m sz ptr =
    (if ptr < MEM_SIZE_ALIGNED - sz then
       (if \<not> used m ptr \<and> sub32 (nextf m ptr) (ptr + SIZEOF_STRUCT_MEM) \<ge> sz then Some (Some ptr)
        else malloc_loop m sz (nextf m ptr))
     else Some None)"

partial_function (option) adjust_lfree :: "lwip_mem \<Rightarrow> nat \<Rightarrow> nat option" where
  "adjust_lfree m cur =
    (if used m cur \<and> cur \<noteq> MEM_SIZE_ALIGNED then adjust_lfree m (nextf m cur) else Some cur)"

definition split_block :: "nat \<Rightarrow> nat \<Rightarrow> lwip_mem \<Rightarrow> lwip_mem" where
  "split_block p sz m =
    (if sub32 (nextf m p) (p + SIZEOF_STRUCT_MEM) \<ge> sz + SIZEOF_STRUCT_MEM + MIN_SIZE_ALIGNED then
       (let ptr2 = to16 (p + SIZEOF_STRUCT_MEM + sz);
            m = m\<lparr>used := (used m)(ptr2 := False), nextf := (nextf m)(ptr2 := nextf m p), prevf := (prevf m)(ptr2 := p)\<rparr>;
            m = m\<lparr>nextf := (nextf m)(p := ptr2), used := (used m)(p := True)\<rparr>
        in if nextf m ptr2 \<noteq> MEM_SIZE_ALIGNED then m\<lparr>prevf := (prevf m)(nextf m ptr2 := ptr2)\<rparr> else m)
     else m\<lparr>used := (used m)(p := True)\<rparr>)"

text \<open>The address of the user's bytes, zero for NULL.\<close>

definition mem_malloc :: "nat \<Rightarrow> lwip_mem \<Rightarrow> (lwip_mem \<times> nat) option" where
  "mem_malloc size_in m =
    (if size_in = 0 then Some (m, 0)
     else
       (let size = mem_request size_in in
        if size > MEM_SIZE_ALIGNED \<or> size < size_in then Some (m, 0)
        else
          (case malloc_loop m size (lfree m) of
             None \<Rightarrow> None
           | Some None \<Rightarrow> Some (m, 0)
           | Some (Some p) \<Rightarrow>
               (let m = split_block p size m;
                    r = (if p = lfree m
                         then map_option (\<lambda>cur. m\<lparr>lfree := cur\<rparr>) (adjust_lfree m (lfree m)) else Some m)
                in map_option (\<lambda>m. (mem_overflow_init_element p size_in m,
                                    ram m + p + SIZEOF_STRUCT_MEM + MEM_SANITY_OFFSET)) r))))"

text \<open>The third result is the number of bytes cleared.\<close>

definition mem_calloc :: "nat \<Rightarrow> nat \<Rightarrow> lwip_mem \<Rightarrow> (lwip_mem \<times> nat \<times> nat) option" where
  "mem_calloc count n m =
    (let alloc_size = (count * n) mod 2 ^ 32 in
     if to16 alloc_size \<noteq> alloc_size then Some (m, 0, 0)
     else map_option (\<lambda>(m, p). (m, p, if p \<noteq> 0 then alloc_size else 0)) (mem_malloc (to16 alloc_size) m))"

section \<open>Trimming\<close>

text \<open>Cutting the block at \<open>ptr\<close>, of \<open>sz\<close> bytes, to \<open>newsize\<close> bytes.\<close>

definition trim_links :: "nat \<Rightarrow> nat \<Rightarrow> nat \<Rightarrow> lwip_mem \<Rightarrow> lwip_mem" where
  "trim_links ptr newsize sz m =
    (let mem2 = nextf m ptr in
     if \<not> used m mem2 then
       (let next = nextf m mem2;
            ptr2 = to16 (ptr + SIZEOF_STRUCT_MEM + newsize);
            m = (if lfree m = mem2 then m\<lparr>lfree := ptr2\<rparr> else m);
            m = m\<lparr>used := (used m)(ptr2 := False)\<rparr>;
            m = m\<lparr>nextf := (nextf m)(ptr2 := next)\<rparr>;
            m = m\<lparr>prevf := (prevf m)(ptr2 := ptr)\<rparr>;
            m = m\<lparr>nextf := (nextf m)(ptr := ptr2)\<rparr>
        in if nextf m ptr2 \<noteq> MEM_SIZE_ALIGNED
           then m\<lparr>prevf := (prevf m)(nextf m ptr2 := ptr2)\<rparr> else m)
     else if newsize + SIZEOF_STRUCT_MEM + MIN_SIZE_ALIGNED \<le> sz then
       (let ptr2 = to16 (ptr + SIZEOF_STRUCT_MEM + newsize);
            m = (if ptr2 < lfree m then m\<lparr>lfree := ptr2\<rparr> else m);
            m = m\<lparr>used := (used m)(ptr2 := False)\<rparr>;
            m = m\<lparr>nextf := (nextf m)(ptr2 := nextf m ptr)\<rparr>;
            m = m\<lparr>prevf := (prevf m)(ptr2 := ptr)\<rparr>;
            m = m\<lparr>nextf := (nextf m)(ptr := ptr2)\<rparr>
        in if nextf m ptr2 \<noteq> MEM_SIZE_ALIGNED
           then m\<lparr>prevf := (prevf m)(nextf m ptr2 := ptr2)\<rparr> else m)
     else m)"

definition mem_trim :: "nat \<Rightarrow> nat \<Rightarrow> lwip_mem \<Rightarrow> lwip_mem \<times> nat" where
  "mem_trim rmem new_size m =
    (let newsize = mem_request new_size in
     if newsize > MEM_SIZE_ALIGNED \<or> newsize < new_size then (m, 0)
     else if rmem < ram m \<or> rmem \<ge> ram m + MEM_SIZE_ALIGNED then (m, rmem)
     else
       (let mem = sub32 rmem (SIZEOF_STRUCT_MEM + MEM_SANITY_OFFSET);
            ptr = to16 (sub32 mem (ram m));
            sz = to16 (sub32 (to16 (sub32 (nextf m ptr) ptr)) (SIZEOF_STRUCT_MEM + MEM_SANITY_OVERHEAD))
        in if newsize > sz then (m, 0)
           else if newsize = sz then (m, rmem)
           else (mem_overflow_init_element ptr new_size (trim_links ptr newsize sz m), rmem)))"

section \<open>The tiling\<close>

text \<open>A block of the tiling: its offset and whether it is used.\<close>

type_synonym mblk = "nat \<times> bool"

fun dseg :: "lwip_mem \<Rightarrow> nat \<Rightarrow> nat \<Rightarrow> mblk list \<Rightarrow> nat \<Rightarrow> nat \<Rightarrow> bool" where
  "dseg m q p [] q' p' \<longleftrightarrow> q = q' \<and> p = p'"
| "dseg m q p ((a, u) # bs) q' p' \<longleftrightarrow>
     p = a \<and> prevf m a = q \<and> used m a = u \<and> a mod 4 = 0 \<and>
     a + 20 \<le> nextf m a \<and> (u \<longrightarrow> a + 52 \<le> nextf m a) \<and> dseg m a (nextf m a) bs q' p'"

fun no_holes :: "mblk list \<Rightarrow> bool" where
  "no_holes ((a, u) # (b, v) # bs) \<longleftrightarrow> (u \<or> v) \<and> no_holes ((b, v) # bs)"
| "no_holes bs \<longleftrightarrow> True"

definition first_free :: "mblk list \<Rightarrow> nat" where
  "first_free bs = (case dropWhile snd bs of [] \<Rightarrow> MEM_SIZE_ALIGNED | (a, u) # cs \<Rightarrow> a)"

definition mem_ok :: "lwip_mem \<Rightarrow> mblk list \<Rightarrow> bool" where
  "mem_ok m bs \<longleftrightarrow> bs \<noteq> [] \<and> (\<exists>l. dseg m 0 0 bs l MEM_SIZE_ALIGNED) \<and> no_holes bs \<and> lfree m = first_free bs \<and>
     used m MEM_SIZE_ALIGNED \<and> nextf m MEM_SIZE_ALIGNED = MEM_SIZE_ALIGNED \<and>
     prevf m MEM_SIZE_ALIGNED = MEM_SIZE_ALIGNED \<and> ram m mod 4 = 0 \<and> 0 < ram m \<and> ram m + 61456 \<le> 2 ^ 32"

lemma dseg_append: "dseg m q p (as @ bs) q' p' \<longleftrightarrow> (\<exists>x y. dseg m q p as x y \<and> dseg m x y bs q' p')"
  by (induction m q p as q' p' rule: dseg.induct) auto

lemma dseg_le: "dseg m q p bs q' p' \<Longrightarrow> p \<le> p'"
proof (induction m q p bs q' p' rule: dseg.induct)
  case (2 m q p a u bs q' p')
  then show ?case by auto
qed simp

lemma dseg_in: "dseg m q p bs q' p' \<Longrightarrow> (a, u) \<in> set bs \<Longrightarrow>
    p \<le> a \<and> a + 20 \<le> p' \<and> a + 20 \<le> nextf m a \<and> nextf m a \<le> p' \<and> used m a = u \<and> a mod 4 = 0 \<and>
    (u \<longrightarrow> a + 52 \<le> nextf m a)"
proof (induction m q p bs q' p' rule: dseg.induct)
  case (2 m q p b v bs q' p')
  have le: "nextf m b \<le> p'" using 2(2) dseg_le [of m b "nextf m b" bs q' p'] by simp
  show ?case
  proof (cases "(a, u) = (b, v)")
    case True
    then show ?thesis using 2(2) le by simp
  next
    case False
    then show ?thesis using 2 by auto
  qed
qed simp

lemma dseg_last: "dseg m q p (as @ [(a, u)]) q' p' \<Longrightarrow> q' = a \<and> p' = nextf m a"
  by (auto simp: dseg_append)

text \<open>A segment in another heap that agrees on the headers, and one whose first header gets another previous one.\<close>

lemma dseg_transfer:
  assumes "dseg m q p bs q' p'"
    and "\<And>a u. (a, u) \<in> set bs \<Longrightarrow> nextf m' a = nextf m a \<and> prevf m' a = prevf m a \<and> used m' a = used m a"
  shows "dseg m' q p bs q' p'"
  using assms
proof (induction m q p bs q' p' rule: dseg.induct)
  case (2 m q p a u bs q' p')
  have "nextf m' a = nextf m a \<and> prevf m' a = prevf m a \<and> used m' a = used m a" by (rule 2(3) [of a u]) simp
  moreover have "dseg m' a (nextf m a) bs q' p'" by (rule 2(1)) (use 2 in auto)
  ultimately show ?case using 2(2) by simp
qed simp

lemma dseg_reprev:
  assumes "dseg m q p bs q' p'" and "bs \<noteq> []"
    and "prevf m' p = r" and "\<And>a u. (a, u) \<in> set bs \<Longrightarrow> a \<noteq> p \<Longrightarrow> prevf m' a = prevf m a"
    and "\<And>a u. (a, u) \<in> set bs \<Longrightarrow> nextf m' a = nextf m a \<and> used m' a = used m a"
  shows "dseg m' r p bs q' p'"
proof (cases bs)
  case (Cons b cs)
  obtain a u where b: "b = (a, u)" by fastforce
  have s: "p = a" "used m a = u" "a mod 4 = 0" "a + 20 \<le> nextf m a" "dseg m a (nextf m a) cs q' p'"
    "u \<longrightarrow> a + 52 \<le> nextf m a"
    using assms(1) Cons b by auto
  have "dseg m' a (nextf m a) cs q' p'"
  proof (rule dseg_transfer [OF s(5)])
    fix c v assume c: "(c, v) \<in> set cs"
    then have "c \<noteq> p" using dseg_in [OF s(5) c] s(1,4) by auto
    then show "nextf m' c = nextf m c \<and> prevf m' c = prevf m c \<and> used m' c = used m c"
      using assms(4,5) [of c v] c Cons by simp
  qed
  then show ?thesis using assms(3) assms(5) [of a u] s Cons b by simp
qed (use assms(2) in simp)

text \<open>Around one block.\<close>

lemma dseg_around:
  assumes "dseg m 0 0 (as @ (a, u) # bs) l E"
  shows "dseg m 0 0 as (prevf m a) a" and "used m a = u" and "a mod 4 = 0"
    and "a + 20 \<le> nextf m a" and "dseg m a (nextf m a) bs l E" and "u \<Longrightarrow> a + 52 \<le> nextf m a"
  using assms unfolding dseg_append dseg.simps by blast+

lemma dseg_replace:
  assumes "dseg m 0 0 as q a" and "dseg m x y cs l E" and "dseg m' q a mid x' y"
    and "\<And>b u. (b, u) \<in> set as \<Longrightarrow> nextf m' b = nextf m b \<and> prevf m' b = prevf m b \<and> used m' b = used m b"
    and "cs \<noteq> [] \<Longrightarrow> prevf m' y = x'"
    and "\<And>b u. (b, u) \<in> set cs \<Longrightarrow> nextf m' b = nextf m b \<and> used m' b = used m b"
    and "\<And>b u. (b, u) \<in> set cs \<Longrightarrow> b \<noteq> y \<Longrightarrow> prevf m' b = prevf m b"
  shows "\<exists>l. dseg m' 0 0 (as @ mid @ cs) l E"
proof -
  have 1: "dseg m' 0 0 as q a" by (rule dseg_transfer [OF assms(1,4)])
  have 3: "\<exists>l. dseg m' x' y cs l E"
  proof (cases "cs = []")
    case False
    have "dseg m' x' y cs l E" by (rule dseg_reprev [OF assms(2) False assms(5) [OF False] assms(7,6)])
    then show ?thesis by blast
  qed (use assms(2) in simp)
  then obtain l' where "dseg m' x' y cs l' E" by blast
  then have "dseg m' q a (mid @ cs) l' E" using assms(3) unfolding dseg_append by blast
  then have "dseg m' 0 0 (as @ mid @ cs) l' E" using 1 unfolding dseg_append by blast
  then show ?thesis by blast
qed

text \<open>The offset at which the rest of the tiling begins.\<close>

definition head_off :: "mblk list \<Rightarrow> nat" where
  "head_off bs = (case bs of [] \<Rightarrow> MEM_SIZE_ALIGNED | (b, u) # cs \<Rightarrow> b)"

lemma head_off_simps [simp]: "head_off [] = MEM_SIZE_ALIGNED" "head_off ((b, u) # cs) = b"
  by (simp_all add: head_off_def)

lemma dseg_head: "dseg m q p bs l MEM_SIZE_ALIGNED \<Longrightarrow> p = head_off bs"
  by (cases bs) auto

lemma no_holes_append:
  "no_holes (as @ bs) \<longleftrightarrow> no_holes as \<and> no_holes bs \<and> \<not> (as \<noteq> [] \<and> bs \<noteq> [] \<and> \<not> snd (last as) \<and> \<not> snd (hd bs))"
proof (induction as)
  case (Cons x as)
  then show ?case
    by (cases x; cases as; cases bs) auto
qed simp

lemma no_holes_Cons: "no_holes ((a, u) # cs) \<longleftrightarrow> no_holes cs \<and> (u \<or> cs = [] \<or> snd (hd cs))"
  by (cases cs) auto

lemma first_free_append: "first_free (as @ bs) = (if \<forall>x \<in> set as. snd x then first_free bs else first_free as)"
  unfolding first_free_def by (induction as) (auto split: list.splits)

lemma first_free_Cons: "first_free ((a, u) # bs) = (if u then first_free bs else a)"
  by (simp add: first_free_def)

lemma first_free_in: "\<exists>x \<in> set bs. \<not> snd x \<Longrightarrow> (first_free bs, False) \<in> set bs"
proof (induction bs)
  case (Cons b bs)
  then show ?case by (cases b) (auto simp: first_free_Cons)
qed simp

lemma first_free_bound: "dseg m q p bs l MEM_SIZE_ALIGNED \<Longrightarrow> p \<le> first_free bs"
proof (induction bs arbitrary: q p)
  case (Cons b bs)
  obtain a u where b: "b = (a, u)" by fastforce
  then have "p = a" "a + 20 \<le> nextf m a" "dseg m a (nextf m a) bs l MEM_SIZE_ALIGNED" using Cons.prems by auto
  then show ?case using Cons.IH [of a "nextf m a"] b by (simp add: first_free_Cons)
qed (simp add: first_free_def)

lemma sub32_small: "b \<le> a \<Longrightarrow> a < 2 ^ 32 \<Longrightarrow> sub32 a b = a - b"
proof -
  assume "b \<le> a" "a < 2 ^ 32"
  then have "a + 2 ^ 32 - b = (a - b) + 2 ^ 32" by simp
  then show ?thesis using \<open>a < 2 ^ 32\<close> unfolding sub32_def by (metis less_imp_diff_less mod_add_self2 mod_less)
qed

lemma to16_small: "n < 65536 \<Longrightarrow> to16 n = n"
  by (simp add: to16_def)

lemma mem_request_props:
  "mem_request n mod 4 = 0" "44 \<le> mem_request n \<or> mem_request n < 32" "mem_request n < 65536"
  "n \<le> mem_request n \<Longrightarrow> n \<le> 61440 \<Longrightarrow> 44 \<le> mem_request n \<and> n + 32 \<le> mem_request n"
proof -
  define s where "s = to16 (LWIP_MEM_ALIGN_SIZE n)"
  have s4: "s mod 4 = 0" unfolding s_def to16_def LWIP_MEM_ALIGN_SIZE_def by (simp add: mod_mod_cancel)
  have s16: "s < 65536" by (simp add: s_def to16_def)
  define t where "t = (if s < 12 then 12 else s)"
  have t: "t mod 4 = 0" "12 \<le> t" "t < 65536" using s4 s16 by (auto simp: t_def)
  have r: "mem_request n = (t + 32) mod 65536"
    unfolding mem_request_def Let_def s_def [symmetric] t_def [symmetric] by (simp add: to16_def)
  show "mem_request n mod 4 = 0" unfolding r using t(1) by (simp add: mod_mod_cancel mod_eq_0_iff_dvd)
  show "44 \<le> mem_request n \<or> mem_request n < 32" unfolding r using t(2,3) by (auto simp: mod_if)
  show "mem_request n < 65536" unfolding r by simp
  assume "n \<le> mem_request n" "n \<le> 61440"
  then have "LWIP_MEM_ALIGN_SIZE n < 65536" "n \<le> LWIP_MEM_ALIGN_SIZE n" "LWIP_MEM_ALIGN_SIZE n \<le> n + 3"
  proof -
    have "LWIP_MEM_ALIGN_SIZE n = n + 3 - (n + 3) mod 4" "(n + 3) mod 4 < 4"
      by (simp_all add: LWIP_MEM_ALIGN_SIZE_def minus_mod_eq_div_mult)
    then show "LWIP_MEM_ALIGN_SIZE n < 65536" "n \<le> LWIP_MEM_ALIGN_SIZE n" "LWIP_MEM_ALIGN_SIZE n \<le> n + 3"
      using \<open>n \<le> 61440\<close> by linarith+
  qed
  then have "s = LWIP_MEM_ALIGN_SIZE n" by (simp add: s_def to16_def)
  then have "n \<le> t" "t + 32 < 65536"
    using \<open>n \<le> LWIP_MEM_ALIGN_SIZE n\<close> \<open>LWIP_MEM_ALIGN_SIZE n \<le> n + 3\<close> \<open>n \<le> 61440\<close> by (auto simp: t_def)
  then show "44 \<le> mem_request n \<and> n + 32 \<le> mem_request n" unfolding r using t(2) by simp
qed

section \<open>Allocation acts on the tiling\<close>

text \<open>The first unused block with room for \<open>sz\<close> bytes, with the blocks around it.\<close>

fun fit :: "nat \<Rightarrow> mblk list \<Rightarrow> (mblk list \<times> nat \<times> mblk list) option" where
  "fit sz [] = None"
| "fit sz ((a, u) # bs) =
     (if \<not> u \<and> a + 8 + sz \<le> head_off bs then Some ([], a, bs)
      else map_option (\<lambda>(as, x, cs). ((a, u) # as, x, cs)) (fit sz bs))"

lemma fit_Some: "fit sz bs = Some (as, a, cs) \<Longrightarrow> bs = as @ (a, False) # cs \<and> a + 8 + sz \<le> head_off cs"
  by (induction sz bs arbitrary: as rule: fit.induct) (auto split: if_splits)

lemma fit_used: "\<forall>x \<in> set as. snd x \<Longrightarrow>
    fit sz (as @ bs) = map_option (\<lambda>(cs, x, ds). (as @ cs, x, ds)) (fit sz bs)"
proof (induction as)
  case Nil
  then show ?case by (cases "fit sz bs") auto
next
  case (Cons a as)
  then show ?case by (cases a; cases "fit sz bs") auto
qed

lemma malloc_loop_finds:
  assumes "dseg m q p bs l MEM_SIZE_ALIGNED" and "0 < sz" "sz \<le> MEM_SIZE_ALIGNED"
  shows "malloc_loop m sz p = Some (map_option (\<lambda>(as, a, cs). a) (fit sz bs))"
  using assms(1)
proof (induction bs arbitrary: q p)
  case Nil
  then have "\<not> p < MEM_SIZE_ALIGNED - sz" by simp
  then show ?case by (subst malloc_loop.simps) simp
next
  case (Cons b bs)
  obtain a u where b: "b = (a, u)" by fastforce
  have s: "p = a" "used m a = u" "a + 20 \<le> nextf m a" "dseg m a (nextf m a) bs l MEM_SIZE_ALIGNED"
    using Cons.prems b by auto
  have nx: "nextf m a = head_off bs" using dseg_head [OF s(4)] .
  have le: "nextf m a \<le> MEM_SIZE_ALIGNED" using dseg_le [OF s(4)] .
  have sub: "sub32 (nextf m a) (a + 8) = nextf m a - (a + 8)" using s(3) le by (intro sub32_small) simp_all
  have none: "fit sz bs = None \<or> (\<exists>as x cs. fit sz bs = Some (as, x, cs) \<and> x \<ge> nextf m a \<and> x + 8 + sz \<le> MEM_SIZE_ALIGNED)"
  proof (cases "fit sz bs")
    case (Some r)
    obtain as x cs where r: "r = (as, x, cs)" by (cases r) auto
    note f = fit_Some [OF Some [unfolded r]]
    have ds: "dseg m a (nextf m a) (as @ (x, False) # cs) l MEM_SIZE_ALIGNED" using s(4) f by simp
    have "nextf m a \<le> x" using dseg_in [OF ds, of x False] by simp
    moreover have "head_off cs \<le> MEM_SIZE_ALIGNED"
    proof (cases cs)
      case (Cons c cs')
      obtain y v where "c = (y, v)" by fastforce
      then show ?thesis using dseg_in [OF ds, of y v] Cons by simp
    qed simp
    ultimately show ?thesis using f Some r by auto
  qed simp
  show ?case
  proof (cases "a < MEM_SIZE_ALIGNED - sz")
    case True
    have "malloc_loop m sz (nextf m a) = Some (map_option (\<lambda>(as, a, cs). a) (fit sz bs))"
      by (rule Cons.IH [OF s(4)])
    then show ?thesis
      using True s b nx le sub
      by (cases "fit sz bs") (subst malloc_loop.simps, auto)+
  next
    case False
    then have "fit sz bs = None" using none s(3) by auto
    moreover have "\<not> a + 8 + sz \<le> head_off bs" using False nx le by auto
    ultimately show ?thesis using False s b by (subst malloc_loop.simps) simp
  qed
qed

lemma adjust_lfree_finds:
  assumes "dseg m q p bs l MEM_SIZE_ALIGNED" and "used m MEM_SIZE_ALIGNED"
  shows "adjust_lfree m p = Some (first_free bs)"
  using assms(1)
proof (induction bs arbitrary: q p)
  case Nil
  then show ?case by (subst adjust_lfree.simps) (simp add: first_free_def)
next
  case (Cons b bs)
  obtain a u where b: "b = (a, u)" by fastforce
  have s: "p = a" "used m a = u" "a + 20 \<le> nextf m a" "dseg m a (nextf m a) bs l MEM_SIZE_ALIGNED"
    using Cons.prems b by auto
  have "a \<noteq> MEM_SIZE_ALIGNED" using s(3) dseg_le [OF s(4)] by simp
  then show ?case using Cons.IH [OF s(4)] s b by (subst adjust_lfree.simps) (simp add: first_free_Cons)
qed

lemma mem_ok_parts:
  assumes "mem_ok m bs"
  obtains l where "dseg m 0 0 bs l MEM_SIZE_ALIGNED" and "bs \<noteq> []" and "no_holes bs" and "lfree m = first_free bs"
    and "used m MEM_SIZE_ALIGNED" and "nextf m MEM_SIZE_ALIGNED = MEM_SIZE_ALIGNED"
    and "prevf m MEM_SIZE_ALIGNED = MEM_SIZE_ALIGNED"
    and "ram m mod 4 = 0" and "0 < ram m" and "ram m + 61456 \<le> 2 ^ 32"
  using assms unfolding mem_ok_def by (elim conjE exE) (rule that)

text \<open>Where the blocks lie around one of them.\<close>

lemma dseg_positions:
  assumes "dseg m 0 0 (as @ (a, u) # cs) l MEM_SIZE_ALIGNED"
  shows "(b, v) \<in> set as \<Longrightarrow> b + 20 \<le> a" and "(b, v) \<in> set cs \<Longrightarrow> nextf m a \<le> b \<and> b + 20 \<le> MEM_SIZE_ALIGNED"
    and "a + 20 \<le> nextf m a" and "nextf m a \<le> MEM_SIZE_ALIGNED" and "nextf m a = head_off cs"
proof -
  note d = dseg_around(1,5,4) [OF assms]
  show "(b, v) \<in> set as \<Longrightarrow> b + 20 \<le> a" using dseg_in [OF d(1)] by blast
  show "(b, v) \<in> set cs \<Longrightarrow> nextf m a \<le> b \<and> b + 20 \<le> MEM_SIZE_ALIGNED" using dseg_in [OF d(2)] by blast
  show "a + 20 \<le> nextf m a" by (rule d(3))
  show "nextf m a \<le> MEM_SIZE_ALIGNED" by (rule dseg_le [OF d(2)])
  show "nextf m a = head_off cs" by (rule dseg_head [OF d(2)])
qed

definition carve :: "nat \<Rightarrow> nat \<Rightarrow> mblk list \<Rightarrow> mblk list" where
  "carve a sz cs = (if a + 8 + sz + 20 \<le> head_off cs then [(a, True), (a + 8 + sz, False)] else [(a, True)])"

lemma split_block_effect:
  assumes ds: "dseg m 0 0 (as @ (a, False) # cs) l MEM_SIZE_ALIGNED"
    and sz: "a + 8 + sz \<le> head_off cs" "sz mod 4 = 0" "44 \<le> sz"
  defines "m' \<equiv> split_block a sz m"
  shows "(\<exists>l. dseg m' 0 0 (as @ carve a sz cs @ cs) l MEM_SIZE_ALIGNED) \<and> lfree m' = lfree m \<and> ram m' = ram m \<and>
    used m' MEM_SIZE_ALIGNED = used m MEM_SIZE_ALIGNED \<and> nextf m' MEM_SIZE_ALIGNED = nextf m MEM_SIZE_ALIGNED \<and>
    prevf m' MEM_SIZE_ALIGNED = prevf m MEM_SIZE_ALIGNED"
proof -
  note pos = dseg_positions [OF ds]
  define q where "q = prevf m a"
  have d: "dseg m 0 0 as q a" "prevf m a = q" "a mod 4 = 0" "dseg m a (nextf m a) cs l MEM_SIZE_ALIGNED"
    using dseg_around [OF ds] by (simp_all add: q_def)
  have sub: "sub32 (nextf m a) (a + 8) = nextf m a - (a + 8)" using pos(3,4) by (intro sub32_small) simp_all
  have cond: "sz + 8 + 12 \<le> sub32 (nextf m a) (a + 8) \<longleftrightarrow> a + 8 + sz + 20 \<le> head_off cs"
    using pos(3,5) sub by auto
  have ne: "nextf m a \<noteq> MEM_SIZE_ALIGNED" if csne: "cs \<noteq> []"
  proof -
    obtain b v cs' where "cs = (b, v) # cs'" using csne by (cases cs) auto
    then show ?thesis using pos(2) [of b v] pos(5) by simp
  qed
  have eE: "cs = [] \<Longrightarrow> nextf m a = MEM_SIZE_ALIGNED" using pos(5) by simp
  have aE: "a \<noteq> MEM_SIZE_ALIGNED" using pos(3,4) by simp
  show ?thesis
  proof (cases "a + 8 + sz + 20 \<le> head_off cs")
    case True
    let ?p = "a + 8 + sz"
    have t16: "to16 ?p = ?p" using True pos(4,5) by (intro to16_small) simp
    have m': "m' = (let m1 = m\<lparr>used := (used m)(?p := False, a := True),
        nextf := (nextf m)(?p := nextf m a, a := ?p), prevf := (prevf m)(?p := a)\<rparr> in
        if nextf m a \<noteq> MEM_SIZE_ALIGNED then m1\<lparr>prevf := (prevf m1)(nextf m a := ?p)\<rparr> else m1)"
      using True cond sz(3) unfolding m'_def split_block_def by (simp add: t16 Let_def)
    have "\<exists>l. dseg m' 0 0 (as @ [(a, True), (?p, False)] @ cs) l MEM_SIZE_ALIGNED"
    proof (rule dseg_replace [OF d(1,4)])
      show "dseg m' q a [(a, True), (?p, False)] ?p (nextf m a)"
      proof -
        have "?p mod 4 = 0" using d(3) sz(2) by (simp add: mod_eq_0_iff_dvd)
        moreover have "nextf m' a = ?p" "nextf m' ?p = nextf m a" "prevf m' ?p = a" "used m' a" "\<not> used m' ?p"
          using sz(3) pos(3) True pos(5) by (auto simp: m' Let_def)
        moreover have "prevf m' a = prevf m a" using pos(3) sz(3) by (auto simp: m' Let_def)
        ultimately show ?thesis using d(2,3) sz(3) True pos(5) by simp
      qed
      show "nextf m' b = nextf m b \<and> prevf m' b = prevf m b \<and> used m' b = used m b" if "(b, u) \<in> set as" for b u
        using pos(1) [OF that] pos(3) by (auto simp: m' Let_def)
      show "prevf m' (nextf m a) = ?p" if "cs \<noteq> []" using ne [OF that] by (simp add: m' Let_def)
      show "nextf m' b = nextf m b \<and> used m' b = used m b" if "(b, u) \<in> set cs" for b u
        using pos(2) [OF that] pos(3,5) True by (auto simp: m' Let_def)
      show "prevf m' b = prevf m b" if "(b, u) \<in> set cs" "b \<noteq> nextf m a" for b u
        using pos(2) [OF that(1)] pos(5) True that(2) by (auto simp: m' Let_def)
    qed
    moreover have "?p \<noteq> MEM_SIZE_ALIGNED" using True pos(4,5) by simp
    ultimately show ?thesis using True aE by (auto simp: carve_def m' Let_def)
  next
    case False
    have m': "m' = m\<lparr>used := (used m)(a := True)\<rparr>"
      using False cond by (simp add: m'_def split_block_def)
    have "\<exists>l. dseg m' 0 0 (as @ [(a, True)] @ cs) l MEM_SIZE_ALIGNED"
    proof (rule dseg_replace [OF d(1,4)])
      show "dseg m' q a [(a, True)] a (nextf m a)" using d(2,3) pos(3,5) sz by (simp add: m')
      show "nextf m' b = nextf m b \<and> prevf m' b = prevf m b \<and> used m' b = used m b" if "(b, u) \<in> set as" for b u
        using pos(1) [OF that] pos(3) by (auto simp: m')
      show "prevf m' (nextf m a) = a" if csne: "cs \<noteq> []"
      proof -
        obtain b v cs' where "cs = (b, v) # cs'" using csne by (cases cs) auto
        then show ?thesis using d(4) by (simp add: m')
      qed
      show "nextf m' b = nextf m b \<and> used m' b = used m b" if "(b, u) \<in> set cs" for b u
        using pos(2) [OF that] pos(3) by (auto simp: m')
      show "prevf m' b = prevf m b" for b by (simp add: m')
    qed
    then show ?thesis using False aE by (auto simp: carve_def m')
  qed
qed

lemma carve_no_holes:
  assumes "no_holes (as @ (a, False) # cs)"
  shows "no_holes (as @ carve a sz cs @ cs)"
  using assms by (cases cs) (auto simp: no_holes_append carve_def)

lemma mem_malloc_cases:
  assumes ok: "mem_ok m bs" and n: "0 < n" "mem_request n \<le> MEM_SIZE_ALIGNED" "n \<le> mem_request n"
  shows "case fit (mem_request n) bs of
      None \<Rightarrow> mem_malloc n m = Some (m, 0)
    | Some (as, a, cs) \<Rightarrow>
        \<exists>m'. mem_malloc n m = Some (m', ram m + a + 24) \<and> mem_ok m' (as @ carve a (mem_request n) cs @ cs) \<and>
             ram m' = ram m \<and> user_size m' = (user_size m)(a := n)"
proof -
  let ?sz = "mem_request n"
  obtain l where ds: "dseg m 0 0 bs l MEM_SIZE_ALIGNED" and o: "bs \<noteq> []" "no_holes bs" "lfree m = first_free bs"
    "used m MEM_SIZE_ALIGNED" "nextf m MEM_SIZE_ALIGNED = MEM_SIZE_ALIGNED"
    "prevf m MEM_SIZE_ALIGNED = MEM_SIZE_ALIGNED" "ram m mod 4 = 0" "0 < ram m" "ram m + 61456 \<le> 2 ^ 32"
    using ok by (rule mem_ok_parts)
  have sz: "?sz mod 4 = 0" "44 \<le> ?sz" using mem_request_props [of n] n by auto
  define us where "us = takeWhile snd bs"
  define fs where "fs = dropWhile snd bs"
  have b: "bs = us @ fs" by (simp add: us_def fs_def)
  have us: "\<forall>x \<in> set us. snd x" by (auto simp: us_def dest: set_takeWhileD)
  obtain q p where d: "dseg m 0 0 us q p" "dseg m q p fs l MEM_SIZE_ALIGNED" using ds b by (auto simp: dseg_append)
  have p: "p = first_free bs"
    using dseg_head [OF d(2)] by (simp add: first_free_def head_off_def fs_def [symmetric])
  have loop: "malloc_loop m ?sz (lfree m) = Some (map_option (\<lambda>(as, a, cs). a) (fit ?sz fs))"
    using malloc_loop_finds [OF d(2), of ?sz] sz n p o(3) by simp
  have fb: "fit ?sz bs = map_option (\<lambda>(cs, x, ds). (us @ cs, x, ds)) (fit ?sz fs)"
    unfolding b by (rule fit_used [OF us])
  have start: "mem_malloc n m =
    (case malloc_loop m ?sz (lfree m) of
       None \<Rightarrow> None
     | Some None \<Rightarrow> Some (m, 0)
     | Some (Some p) \<Rightarrow>
         (let m = split_block p ?sz m;
              r = (if p = lfree m then map_option (\<lambda>cur. m\<lparr>lfree := cur\<rparr>) (adjust_lfree m (lfree m)) else Some m)
          in map_option (\<lambda>m. (mem_overflow_init_element p n m, ram m + p + 8 + 16)) r))"
    using n by (simp add: mem_malloc_def Let_def)
  show ?thesis
  proof (cases "fit ?sz fs")
    case None
    then show ?thesis using start loop fb by simp
  next
    case (Some r)
    obtain as a cs where r: "r = (as, a, cs)" by (cases r) auto
    note ff = fit_Some [OF Some [unfolded r]]
    have bs: "bs = (us @ as) @ (a, False) # cs" using b ff by simp
    have ds': "dseg m 0 0 ((us @ as) @ (a, False) # cs) l MEM_SIZE_ALIGNED" using ds bs by simp
    let ?m1 = "split_block a ?sz m" and ?bs = "(us @ as) @ carve a ?sz cs @ cs"
    have sp: "(\<exists>l. dseg ?m1 0 0 ?bs l MEM_SIZE_ALIGNED) \<and> lfree ?m1 = lfree m \<and> ram ?m1 = ram m \<and>
      used ?m1 MEM_SIZE_ALIGNED = used m MEM_SIZE_ALIGNED \<and> nextf ?m1 MEM_SIZE_ALIGNED = nextf m MEM_SIZE_ALIGNED \<and>
      prevf ?m1 MEM_SIZE_ALIGNED = prevf m MEM_SIZE_ALIGNED"
      by (rule split_block_effect [OF ds']) (use ff sz in simp_all)
    then obtain l1 where l1: "dseg ?m1 0 0 ?bs l1 MEM_SIZE_ALIGNED" by blast
    have us1: "user_size ?m1 = user_size m" by (simp add: split_block_def Let_def)
    have nh: "no_holes ?bs" by (rule carve_no_holes) (use o(2) bs in simp)
    have ff1: "a = first_free bs \<longleftrightarrow> as = []"
    proof
      assume "as = []"
      then show "a = first_free bs" using us bs by (simp add: first_free_append first_free_Cons)
    next
      assume e: "a = first_free bs"
      show "as = []"
      proof (rule ccontr)
        assume "as \<noteq> []"
        moreover have "fs \<noteq> [] \<Longrightarrow> \<not> snd (hd fs)" unfolding fs_def by (rule hd_dropWhile)
        ultimately obtain y as' where as: "as = (y, False) # as'" using ff by (cases as) auto
        then have "a = y" using e us bs by (simp add: first_free_append first_free_Cons)
        then show False using dseg_positions(1) [OF ds', of a False] as by simp
      qed
    qed
    have "\<exists>m2. (if a = lfree ?m1 then map_option (\<lambda>cur. ?m1\<lparr>lfree := cur\<rparr>) (adjust_lfree ?m1 (lfree ?m1)) else Some ?m1) = Some m2 \<and>
        m2 = ?m1\<lparr>lfree := first_free ?bs\<rparr>"
    proof (cases "as = []")
      case True
      obtain x y where "dseg ?m1 x y (carve a ?sz cs @ cs) l1 MEM_SIZE_ALIGNED"
        using l1 True by (auto simp: dseg_append)
      moreover from this have "y = a" using dseg_head by (fastforce simp: carve_def)
      ultimately have "adjust_lfree ?m1 a = Some (first_free (carve a ?sz cs @ cs))"
        using adjust_lfree_finds sp o(4) by metis
      moreover have "first_free ?bs = first_free (carve a ?sz cs @ cs)"
        using us True by (simp add: first_free_append)
      ultimately show ?thesis using True ff1 sp o(3) by simp
    next
      case False
      have "fs \<noteq> [] \<Longrightarrow> \<not> snd (hd fs)" unfolding fs_def by (rule hd_dropWhile)
      then obtain y as' where as: "as = (y, False) # as'" using ff False by (cases as) auto
      then have "first_free ?bs = first_free bs"
        using us bs by (simp add: first_free_append first_free_Cons)
      then have "?m1\<lparr>lfree := first_free ?bs\<rparr> = ?m1" using sp o(3) by simp
      then show ?thesis using False ff1 sp o(3) by simp
    qed
    then have mm: "mem_malloc n m = Some (mem_overflow_init_element a n (?m1\<lparr>lfree := first_free ?bs\<rparr>), ram m + a + 24)"
      using start loop Some r sp by (simp add: Let_def)
    define m3 where "m3 = mem_overflow_init_element a n (?m1\<lparr>lfree := first_free ?bs\<rparr>)"
    have "dseg m3 0 0 ?bs l1 MEM_SIZE_ALIGNED"
      by (rule dseg_transfer [OF l1]) (simp add: m3_def mem_overflow_init_element_def)
    then have "mem_ok m3 ?bs"
      using nh sp o unfolding mem_ok_def by (auto simp: m3_def mem_overflow_init_element_def carve_def)
    moreover have "ram m3 = ram m" "user_size m3 = (user_size m)(a := n)"
      using sp us1 by (simp_all add: m3_def mem_overflow_init_element_def)
    ultimately show ?thesis using mm fb Some r unfolding m3_def by simp
  qed
qed

section \<open>Freeing acts on the tiling\<close>

definition absorb_next :: "mblk list \<Rightarrow> mblk list" where
  "absorb_next cs = (case cs of (b, False) # ds \<Rightarrow> ds | _ \<Rightarrow> cs)"

definition absorb_prev :: "mblk list \<Rightarrow> nat \<Rightarrow> mblk list" where
  "absorb_prev as a = (if as \<noteq> [] \<and> \<not> snd (last as) then as else as @ [(a, False)])"

definition same_end :: "lwip_mem \<Rightarrow> lwip_mem \<Rightarrow> bool" where
  "same_end m' m \<longleftrightarrow> ram m' = ram m \<and> user_size m' = user_size m \<and>
     used m' MEM_SIZE_ALIGNED = used m MEM_SIZE_ALIGNED \<and> nextf m' MEM_SIZE_ALIGNED = nextf m MEM_SIZE_ALIGNED \<and>
     prevf m' MEM_SIZE_ALIGNED = prevf m MEM_SIZE_ALIGNED"

lemma plug_next_effect:
  assumes ds: "dseg m 0 0 (as @ (a, False) # cs) l MEM_SIZE_ALIGNED" and E: "used m MEM_SIZE_ALIGNED"
    and lf: "lfree m \<le> a"
  shows "(\<exists>l. dseg (plug_next a m) 0 0 (as @ (a, False) # absorb_next cs) l MEM_SIZE_ALIGNED) \<and>
    lfree (plug_next a m) = lfree m \<and> same_end (plug_next a m) m"
proof -
  note pos = dseg_positions [OF ds]
  note d = dseg_around [OF ds]
  show ?thesis
  proof (cases "\<exists>b bs. cs = (b, False) # bs")
    case True
    then obtain b bs where cs: "cs = (b, False) # bs" by blast
    have b: "nextf m a = b" "\<not> used m b" "a < b" "b + 20 \<le> nextf m b" "dseg m b (nextf m b) bs l MEM_SIZE_ALIGNED"
      using d(5) cs pos(3) by auto
    have bE: "nextf m b \<le> MEM_SIZE_ALIGNED" using dseg_le [OF b(5)] .
    have pn: "plug_next a m = (let m1 = m\<lparr>nextf := (nextf m)(a := nextf m b)\<rparr> in
      if nextf m b \<noteq> MEM_SIZE_ALIGNED then m1\<lparr>prevf := (prevf m)(nextf m b := a)\<rparr> else m1)"
      using b bE lf by (auto simp: plug_next_def Let_def)
    have bs_ne: "nextf m b \<noteq> MEM_SIZE_ALIGNED" if ne: "bs \<noteq> []"
    proof -
      obtain c v bs' where "bs = (c, v) # bs'" using ne by (cases bs) auto
      then show ?thesis using b(5) dseg_le by fastforce
    qed
    have bs_in: "nextf m b \<le> c" if "(c, v) \<in> set bs" for c v
      using dseg_in [OF b(5) that] by simp
    have "\<exists>l. dseg (plug_next a m) 0 0 (as @ [(a, False)] @ bs) l MEM_SIZE_ALIGNED"
    proof (rule dseg_replace [OF d(1) b(5)])
      show "dseg (plug_next a m) (prevf m a) a [(a, False)] a (nextf m b)"
        using d(2-4) b pn by (auto simp: Let_def)
      show "nextf (plug_next a m) x = nextf m x \<and> prevf (plug_next a m) x = prevf m x \<and> used (plug_next a m) x = used m x"
        if "(x, u) \<in> set as" for x u using pos(1) [OF that] b pn by (auto simp: Let_def)
      show "prevf (plug_next a m) (nextf m b) = a" if "bs \<noteq> []" using bs_ne [OF that] pn by (simp add: Let_def)
      show "nextf (plug_next a m) x = nextf m x \<and> used (plug_next a m) x = used m x" if "(x, u) \<in> set bs" for x u
        using bs_in [OF that] b pn by (auto simp: Let_def)
      show "prevf (plug_next a m) x = prevf m x" if "(x, u) \<in> set bs" "x \<noteq> nextf m b" for x u
        using that(2) pn by (auto simp: Let_def)
    qed
    then show ?thesis using pn b bE cs by (auto simp: Let_def absorb_next_def same_end_def)
  next
    case False
    have u: "used m (nextf m a)"
    proof (cases cs)
      case Nil
      then have "nextf m a = MEM_SIZE_ALIGNED" using d(5) by auto
      then show ?thesis using E by simp
    next
      case (Cons c bs)
      then obtain b u where c: "cs = (b, u) # bs" by (cases c) auto
      then show ?thesis using d(5) False by auto
    qed
    then have "plug_next a m = m" by (simp add: plug_next_def)
    moreover have "absorb_next cs = cs" using False by (auto simp: absorb_next_def split: list.splits bool.splits)
    ultimately show ?thesis using ds by (auto simp: same_end_def)
  qed
qed

lemma plug_prev_effect:
  assumes ds: "dseg m 0 0 (as @ (a, False) # cs) l MEM_SIZE_ALIGNED"
    and lf: "\<And>b u. (b, u) \<in> set as \<Longrightarrow> \<not> u \<Longrightarrow> lfree m \<noteq> a"
  shows "(\<exists>l. dseg (plug_prev a m) 0 0 (absorb_prev as a @ cs) l MEM_SIZE_ALIGNED) \<and>
    lfree (plug_prev a m) = lfree m \<and> same_end (plug_prev a m) m"
proof -
  note pos = dseg_positions [OF ds]
  note d = dseg_around [OF ds]
  have aE: "a + 20 \<le> MEM_SIZE_ALIGNED" using pos(3,4) by simp
  show ?thesis
  proof (cases as rule: rev_cases)
    case Nil
    then have "prevf m a = a" using d(1) by auto
    then have "plug_prev a m = m" by (simp add: plug_prev_def)
    then show ?thesis using ds Nil by (auto simp: absorb_prev_def same_end_def)
  next
    case (snoc as0 c)
    obtain b u where c: "c = (b, u)" by fastforce
    have q: "prevf m a = b" "nextf m b = a" using dseg_last [of m 0 0 as0 b u] d(1) snoc c by auto
    have ds0: "dseg m 0 0 (as0 @ (b, u) # (a, False) # cs) l MEM_SIZE_ALIGNED" using ds snoc c by simp
    note pos0 = dseg_positions [OF ds0] and d0 = dseg_around [OF ds0]
    have ub: "used m b = u" using d0(2) .
    show ?thesis
    proof (cases u)
      case True
      then have "plug_prev a m = m" using q ub by (simp add: plug_prev_def)
      then show ?thesis using ds snoc c True by (auto simp: absorb_prev_def same_end_def)
    next
      case False
      have lfa: "lfree m \<noteq> a" using lf [of b u] snoc c False by simp
      have pp: "plug_prev a m = (let m1 = m\<lparr>nextf := (nextf m)(b := nextf m a)\<rparr> in
        if nextf m a \<noteq> MEM_SIZE_ALIGNED then m1\<lparr>prevf := (prevf m)(nextf m a := b)\<rparr> else m1)"
        using q ub False lfa pos0(3) pos(3) by (auto simp: plug_prev_def Let_def)
      have cs_ne: "nextf m a \<noteq> MEM_SIZE_ALIGNED" if ne: "cs \<noteq> []"
      proof -
        obtain x v cs' where "cs = (x, v) # cs'" using ne by (cases cs) auto
        then show ?thesis using pos(2) [of x v] pos(5) by simp
      qed
      have "\<exists>l. dseg (plug_prev a m) 0 0 (as0 @ [(b, False)] @ cs) l MEM_SIZE_ALIGNED"
      proof (rule dseg_replace [OF d0(1) d(5)])
        show "dseg (plug_prev a m) (prevf m b) b [(b, False)] b (nextf m a)"
          using d0(3,4) q ub False pp pos(3) pos0(3) by (auto simp: Let_def)
        show "nextf (plug_prev a m) x = nextf m x \<and> prevf (plug_prev a m) x = prevf m x \<and> used (plug_prev a m) x = used m x"
          if "(x, v) \<in> set as0" for x v using pos0(1) [OF that] pos(3) q(2) pos0(3) pp by (auto simp: Let_def)
        show "prevf (plug_prev a m) (nextf m a) = b" if "cs \<noteq> []" using cs_ne [OF that] pp by (simp add: Let_def)
        show "nextf (plug_prev a m) x = nextf m x \<and> used (plug_prev a m) x = used m x" if "(x, v) \<in> set cs" for x v
          using pos(2) [OF that] pos(3) q(2) pos0(3) pp by (auto simp: Let_def)
        show "prevf (plug_prev a m) x = prevf m x" if "(x, v) \<in> set cs" "x \<noteq> nextf m a" for x v
          using that(2) pp by (auto simp: Let_def)
      qed
      moreover have "b \<noteq> MEM_SIZE_ALIGNED" using q(2) aE pos0(3) by simp
      ultimately show ?thesis using pp snoc c False by (auto simp: Let_def absorb_prev_def same_end_def)
    qed
  qed
qed

lemma dseg_link_valid:
  assumes ds: "dseg m 0 0 (as @ (a, u) # cs) l MEM_SIZE_ALIGNED"
  shows "mem_link_valid m a"
proof -
  note pos = dseg_positions [OF ds] and d = dseg_around [OF ds]
  have "prevf m a = a \<or> nextf m (prevf m a) = a \<and> prevf m a \<le> MEM_SIZE_ALIGNED"
  proof (cases as rule: rev_cases)
    case Nil
    then show ?thesis using d(1) by auto
  next
    case (snoc as0 c)
    obtain b u where c: "c = (b, u)" by fastforce
    have "prevf m a = b" "nextf m b = a" using dseg_last [of m 0 0 as0 b u] d(1) snoc c by auto
    moreover have "b + 20 \<le> a" using pos(1) [of b u] snoc c by simp
    ultimately show ?thesis using pos(3,4) by simp
  qed
  moreover have "nextf m a = MEM_SIZE_ALIGNED \<or> prevf m (nextf m a) = a"
  proof (cases cs)
    case Nil
    then show ?thesis using pos(5) by simp
  next
    case (Cons c cs')
    then show ?thesis using d(5) by (cases c) auto
  qed
  ultimately show ?thesis using pos(3,4) by (auto simp: mem_link_valid_def)
qed

lemma mem_free_effect:
  assumes ok: "mem_ok m (as @ (a, True) # cs)"
  shows "mem_ok (mem_free (ram m + a + 24) m) (absorb_prev as a @ absorb_next cs) \<and>
    ram (mem_free (ram m + a + 24) m) = ram m"
proof -
  let ?bs = "as @ (a, True) # cs"
  obtain l where ds: "dseg m 0 0 ?bs l MEM_SIZE_ALIGNED" and o: "?bs \<noteq> []" "no_holes ?bs" "lfree m = first_free ?bs"
    "used m MEM_SIZE_ALIGNED" "nextf m MEM_SIZE_ALIGNED = MEM_SIZE_ALIGNED"
    "prevf m MEM_SIZE_ALIGNED = MEM_SIZE_ALIGNED" "ram m mod 4 = 0" "0 < ram m" "ram m + 61456 \<le> 2 ^ 32"
    using ok by (rule mem_ok_parts)
  note pos = dseg_positions [OF ds] and d = dseg_around [OF ds]
  have a52: "a + 52 \<le> nextf m a" using d(6) by simp
  define m1 where "m1 = m\<lparr>used := (used m)(a := False), lfree := first_free (as @ (a, False) # cs)\<rparr>"
  have ff_as: "(first_free as, False) \<in> set as" if "\<not> (\<forall>x \<in> set as. snd x)"
    using first_free_in [of as] that by blast
  have lf: "first_free (as @ (a, False) # cs) = (if a < lfree m then a else lfree m)"
  proof (cases "\<forall>x \<in> set as. snd x")
    case True
    then have "lfree m = first_free cs" using o(3) by (simp add: first_free_append first_free_Cons)
    then have "a < lfree m" using first_free_bound [OF d(5)] pos(3) by simp
    then show ?thesis using True by (simp add: first_free_append first_free_Cons)
  next
    case False
    then have "lfree m = first_free as" using o(3) by (metis first_free_append)
    moreover have "first_free as + 20 \<le> a" using pos(1) ff_as [OF False] by blast
    ultimately show ?thesis using False by (auto simp: first_free_append)
  qed
  have link: "mem_link_valid m a" by (rule dseg_link_valid [OF ds])
  have sub: "sub32 (ram m + a + 24) (8 + 16) = ram m + a"
    using o(9) pos(3,4) by (subst sub32_small) simp_all
  have "(ram m + a + 24 + 12) mod 2 ^ 32 = ram m + a + 36" using o(9) pos(4) a52 by simp
  moreover have "(ram m + a + 24) mod 4 = 0" using o(7) d(3) by (simp add: mod_eq_0_iff_dvd)
  ultimately have mf: "mem_free (ram m + a + 24) m = plug_prev a (plug_next a m1)"
    using sub d(2) link o(8) a52 pos(4) lf by (simp add: mem_free_def Let_def plug_holes_def m1_def)
  have "\<exists>l. dseg m1 0 0 (as @ [(a, False)] @ cs) l MEM_SIZE_ALIGNED"
  proof (rule dseg_replace [OF d(1) d(5)])
    show "dseg m1 (prevf m a) a [(a, False)] a (nextf m a)" using d(3,4) by (simp add: m1_def)
    show "nextf m1 x = nextf m x \<and> prevf m1 x = prevf m x \<and> used m1 x = used m x" if "(x, u) \<in> set as" for x u
      using pos(1) [OF that] by (simp add: m1_def)
    show "prevf m1 (nextf m a) = a" if ne: "cs \<noteq> []"
    proof -
      obtain x v cs' where "cs = (x, v) # cs'" using ne by (cases cs) auto
      then show ?thesis using d(5) by (simp add: m1_def)
    qed
    show "nextf m1 x = nextf m x \<and> used m1 x = used m x" if "(x, u) \<in> set cs" for x u
      using pos(2) [OF that] pos(3) by (auto simp: m1_def)
    show "prevf m1 x = prevf m x" for x by (simp add: m1_def)
  qed
  then obtain l1 where d1: "dseg m1 0 0 (as @ (a, False) # cs) l1 MEM_SIZE_ALIGNED" by auto
  have aE: "a \<noteq> MEM_SIZE_ALIGNED" using pos(3,4) by simp
  have e1: "used m1 MEM_SIZE_ALIGNED" using aE o(4) by (simp add: m1_def)
  have lf1: "lfree m1 = first_free (as @ (a, False) # cs)" by (simp add: m1_def)
  have le1: "lfree m1 \<le> a" unfolding lf1 lf by auto
  obtain l2 where 2: "dseg (plug_next a m1) 0 0 (as @ (a, False) # absorb_next cs) l2 MEM_SIZE_ALIGNED"
    "lfree (plug_next a m1) = lfree m1" "same_end (plug_next a m1) m1"
    using plug_next_effect [OF d1 e1 le1] by blast
  have lfa: "lfree (plug_next a m1) \<noteq> a" if "(b, u) \<in> set as" "\<not> u" for b u
  proof -
    have n: "\<not> (\<forall>x \<in> set as. snd x)" using that by force
    then have "lfree (plug_next a m1) = first_free as" using 2(2) lf1 by (metis first_free_append)
    moreover have "first_free as + 20 \<le> a" using pos(1) ff_as [OF n] by blast
    ultimately show ?thesis by simp
  qed
  define m3 where "m3 = plug_prev a (plug_next a m1)"
  obtain l3 where 3: "dseg m3 0 0 (absorb_prev as a @ absorb_next cs) l3 MEM_SIZE_ALIGNED"
    "lfree m3 = lfree m1" "same_end m3 (plug_next a m1)"
  proof -
    have "(\<exists>l. dseg m3 0 0 (absorb_prev as a @ absorb_next cs) l MEM_SIZE_ALIGNED) \<and>
        lfree m3 = lfree (plug_next a m1) \<and> same_end m3 (plug_next a m1)"
      unfolding m3_def by (rule plug_prev_effect [OF 2(1)]) (rule lfa)
    then show ?thesis using that 2(2) by auto
  qed
  have end1: "ram m1 = ram m" "used m1 MEM_SIZE_ALIGNED = used m MEM_SIZE_ALIGNED"
    "nextf m1 MEM_SIZE_ALIGNED = nextf m MEM_SIZE_ALIGNED" "prevf m1 MEM_SIZE_ALIGNED = prevf m MEM_SIZE_ALIGNED"
    using aE by (simp_all add: m1_def)
  have nh: "no_holes (absorb_prev as a @ absorb_next cs)"
    using o(2) by (auto simp: absorb_prev_def absorb_next_def no_holes_append no_holes_Cons split: list.splits bool.splits)
  have ffl: "first_free (absorb_prev as a @ absorb_next cs) = first_free (as @ (a, False) # cs)"
  proof (cases "as \<noteq> [] \<and> \<not> snd (last as)")
    case True
    then have n: "\<not> (\<forall>x \<in> set as. snd x)" using last_in_set by blast
    have "absorb_prev as a = as" using True by (simp add: absorb_prev_def)
    then show ?thesis by (simp only: first_free_append if_not_P [OF n])
  next
    case False
    then have e: "absorb_prev as a @ absorb_next cs = as @ (a, False) # absorb_next cs"
      by (simp add: absorb_prev_def)
    show ?thesis by (simp only: e first_free_append first_free_Cons if_False)
  qed
  have "absorb_prev as a \<noteq> []" by (simp add: absorb_prev_def)
  then have "mem_ok m3 (absorb_prev as a @ absorb_next cs)"
    unfolding mem_ok_def using 3 2(3) end1 o nh ffl lf1 by (auto simp: same_end_def)
  moreover have "ram m3 = ram m" using 3(3) 2(3) end1 by (simp add: same_end_def)
  ultimately show ?thesis using mf by (simp add: m3_def)
qed

section \<open>Trimming acts on the tiling\<close>

text \<open>What is left of a used block cut to \<open>n\<close> bytes, and of the rest of the tiling.\<close>

definition trim_rest :: "nat \<Rightarrow> nat \<Rightarrow> mblk list \<Rightarrow> mblk list" where
  "trim_rest a n cs =
    (case cs of
       (b, False) # ds \<Rightarrow> (a + 8 + n, False) # ds
     | _ \<Rightarrow> if n + 20 \<le> head_off cs - (a + 40) then (a + 8 + n, False) # cs else cs)"

lemma mem_trim_capacity:
  assumes ok: "mem_ok m (as @ (a, True) # cs)"
  shows "sub32 (ram m + a + 24) 24 = ram m + a" and "sub32 (ram m + a) (ram m) = a" and "to16 a = a"
    and "to16 (sub32 (to16 (sub32 (nextf m a) a)) 40) = head_off cs - (a + 40)" and "a + 52 \<le> MEM_SIZE_ALIGNED"
proof -
  obtain l where ds: "dseg m 0 0 (as @ (a, True) # cs) l MEM_SIZE_ALIGNED" and r: "ram m + 61456 \<le> 2 ^ 32"
    using ok by (rule mem_ok_parts)
  note pos = dseg_positions [OF ds] and d = dseg_around [OF ds]
  have a52: "a + 52 \<le> nextf m a" using d(6) by simp
  show "sub32 (ram m + a + 24) 24 = ram m + a" using r pos(3,4) by (subst sub32_small) simp_all
  show "sub32 (ram m + a) (ram m) = a" using r pos(3,4) by (subst sub32_small) simp_all
  show "to16 a = a" using pos(3,4) by (intro to16_small) simp
  have "sub32 (nextf m a) a = nextf m a - a" using pos(3,4) by (subst sub32_small) simp_all
  moreover have "to16 (nextf m a - a) = nextf m a - a" using pos(4) by (intro to16_small) simp
  moreover have "sub32 (nextf m a - a) 40 = nextf m a - (a + 40)" using a52 pos(4) by (subst sub32_small) simp_all
  moreover have "to16 (nextf m a - (a + 40)) = nextf m a - (a + 40)" using pos(4) by (intro to16_small) simp
  ultimately show "to16 (sub32 (to16 (sub32 (nextf m a) a)) 40) = head_off cs - (a + 40)" using pos(5) by simp
  show "a + 52 \<le> MEM_SIZE_ALIGNED" using a52 pos(4) by simp
qed

lemma mem_trim_effect:
  assumes ok: "mem_ok m (as @ (a, True) # cs)"
    and n: "mem_request k \<le> MEM_SIZE_ALIGNED" "k \<le> mem_request k"
    and lt: "mem_request k < head_off cs - (a + 40)"
  shows "\<exists>m'. mem_trim (ram m + a + 24) k m = (m', ram m + a + 24) \<and>
    mem_ok m' (as @ (a, True) # trim_rest a (mem_request k) cs) \<and> ram m' = ram m \<and> user_size m' = (user_size m)(a := k)"
proof -
  let ?bs = "as @ (a, True) # cs" and ?n = "mem_request k"
  obtain l where ds: "dseg m 0 0 ?bs l MEM_SIZE_ALIGNED" and o: "?bs \<noteq> []" "no_holes ?bs" "lfree m = first_free ?bs"
    "used m MEM_SIZE_ALIGNED" "nextf m MEM_SIZE_ALIGNED = MEM_SIZE_ALIGNED"
    "prevf m MEM_SIZE_ALIGNED = MEM_SIZE_ALIGNED" "ram m mod 4 = 0" "0 < ram m" "ram m + 61456 \<le> 2 ^ 32"
    using ok by (rule mem_ok_parts)
  note pos = dseg_positions [OF ds] and d = dseg_around [OF ds]
  have n4: "?n mod 4 = 0" "44 \<le> ?n" using mem_request_props [of k] n by auto
  have a52: "a + 52 \<le> nextf m a" using d(6) by simp
  have nx: "nextf m a = head_off cs" by (rule pos(5))
  have lt': "a + 40 + ?n < nextf m a" using lt nx by simp
  let ?p = "a + 8 + ?n"
  have p4: "?p mod 4 = 0" using d(3) n4(1) by (simp add: mod_eq_0_iff_dvd)
  have ff_as: "(first_free as, False) \<in> set as" if "\<not> (\<forall>x \<in> set as. snd x)"
    using first_free_in [of as] that by blast
  note cap = mem_trim_capacity [OF ok]
  have sub: "sub32 (ram m + a + 24) (8 + 16) = ram m + a" "sub32 (ram m + a) (ram m) = a" using cap by simp_all
  have a16: "to16 a = a" by (rule cap(3))
  have sz: "to16 (sub32 (to16 (sub32 (nextf m a) a)) (8 + 32)) = nextf m a - (a + 40)" using cap(4) nx by simp
  have p16: "to16 ?p = ?p" using lt' pos(4) by (intro to16_small) simp
  define nn where "nn = (if used m (nextf m a) then nextf m a else nextf m (nextf m a))"
  define f where "f = (if used m (nextf m a) then (if ?p < lfree m then ?p else lfree m)
                       else (if lfree m = nextf m a then ?p else lfree m))"
  define cut where "cut \<longleftrightarrow> \<not> used m (nextf m a) \<or> ?n + 20 \<le> nextf m a - (a + 40)"
  define m1 where "m1 = m\<lparr>lfree := f, used := (used m)(?p := False), nextf := (nextf m)(?p := nn, a := ?p),
    prevf := (prevf m)(?p := a)\<rparr>"
  define m2 where "m2 = (if cut then if nn \<noteq> MEM_SIZE_ALIGNED then m1\<lparr>prevf := (prevf m1)(nn := ?p)\<rparr> else m1 else m)"
  have pa: "?p \<noteq> a" "?p \<noteq> nextf m a" using lt' by auto
  have links: "trim_links a ?n (nextf m a - (a + 40)) m = m2"
  proof (cases "used m (nextf m a)")
    case True
    show ?thesis
    proof (cases "?n + 20 \<le> nextf m a - (a + 40)")
      case fits: True
      then show ?thesis using True pa p16 o(4)
        by (intro lwip_mem.equality) (auto simp: trim_links_def Let_def m2_def m1_def cut_def nn_def f_def)
    next
      case False
      then show ?thesis using True by (simp add: trim_links_def Let_def m2_def cut_def)
    qed
  next
    case False
    then show ?thesis using pa p16 o(4)
      by (intro lwip_mem.equality) (auto simp: trim_links_def Let_def m2_def m1_def cut_def nn_def f_def)
  qed
  have run: "mem_trim (ram m + a + 24) k m = (mem_overflow_init_element a k m2, ram m + a + 24)"
  proof -
    have "\<not> ?n > nextf m a - (a + 40)" "?n \<noteq> nextf m a - (a + 40)" using lt' by simp_all
    then show ?thesis using n a52 pos(4) unfolding mem_trim_def Let_def sub a16 sz links [symmetric] by simp
  qed
  have in_as: "nextf m2 x = nextf m x \<and> prevf m2 x = prevf m x \<and> used m2 x = used m x" if "(x, u) \<in> set as" for x u
  proof -
    have x: "x + 20 \<le> a" by (rule pos(1) [OF that])
    have "a < nn"
    proof (cases "used m (nextf m a)")
      case False
      then obtain b cs' where cs: "cs = (b, False) # cs'" using d(5) o(4) pos(5) by (cases cs) auto
      then show ?thesis using d(5) pos(3) False by (auto simp: nn_def)
    qed (use pos(3) in \<open>simp add: nn_def\<close>)
    then show ?thesis using x by (auto simp: m2_def m1_def)
  qed
  have res: "(\<exists>l. dseg m2 0 0 (as @ (a, True) # trim_rest a ?n cs) l MEM_SIZE_ALIGNED) \<and>
    lfree m2 = first_free (as @ (a, True) # trim_rest a ?n cs) \<and> no_holes (as @ (a, True) # trim_rest a ?n cs)"
  proof (cases "\<exists>b bs. cs = (b, False) # bs")
    case True
    then obtain b bs where cs: "cs = (b, False) # bs" by blast
    have b: "nextf m a = b" "\<not> used m b" "b + 20 \<le> nextf m b" "dseg m b (nextf m b) bs l MEM_SIZE_ALIGNED"
      using d(5) cs by auto
    have nn: "nn = nextf m b" and cut using b by (simp_all add: nn_def cut_def)
    have tr: "trim_rest a ?n cs = (?p, False) # bs" by (simp add: trim_rest_def cs)
    have bE: "nextf m b \<le> MEM_SIZE_ALIGNED" using dseg_le [OF b(4)] .
    have ne: "nextf m b \<noteq> MEM_SIZE_ALIGNED" if ne: "bs \<noteq> []"
    proof -
      obtain c v bs' where "bs = (c, v) # bs'" using ne by (cases bs) auto
      then show ?thesis using b(4) dseg_le by fastforce
    qed
    have bs_in: "nextf m b \<le> c" if "(c, v) \<in> set bs" for c v using dseg_in [OF b(4) that] by simp
    have "\<exists>l. dseg m2 0 0 (as @ [(a, True), (?p, False)] @ bs) l MEM_SIZE_ALIGNED"
    proof (rule dseg_replace [OF d(1) b(4) _ in_as])
      show "dseg m2 (prevf m a) a [(a, True), (?p, False)] ?p (nextf m b)"
        using \<open>cut\<close> d(2,3) p4 n4(2) lt' b pa by (auto simp: m2_def m1_def nn)
      show "prevf m2 (nextf m b) = ?p" if "bs \<noteq> []" using ne [OF that] \<open>cut\<close> by (simp add: m2_def nn)
      show "nextf m2 x = nextf m x \<and> used m2 x = used m x" if "(x, u) \<in> set bs" for x u
        using bs_in [OF that] b lt' \<open>cut\<close> by (auto simp: m2_def m1_def)
      show "prevf m2 x = prevf m x" if "(x, u) \<in> set bs" "x \<noteq> nextf m b" for x u
        using bs_in [OF that(1)] that(2) b lt' \<open>cut\<close> by (auto simp: m2_def m1_def nn)
    qed
    moreover have "lfree m2 = first_free (as @ (a, True) # (?p, False) # bs)"
    proof (cases "\<forall>x \<in> set as. snd x")
      case True
      then have "lfree m = b" using o(3) cs by (simp add: first_free_append first_free_Cons)
      then show ?thesis using True b \<open>cut\<close> by (simp add: m2_def m1_def f_def first_free_append first_free_Cons)
    next
      case False
      then have "lfree m = first_free as" using o(3) by (metis first_free_append)
      moreover have "first_free as + 20 \<le> a" using pos(1) ff_as [OF False] by blast
      moreover have "first_free (as @ (a, True) # (?p, False) # bs) = first_free as" using False by (metis first_free_append)
      ultimately show ?thesis using b lt' \<open>cut\<close> by (simp add: m2_def m1_def f_def)
    qed
    moreover have "no_holes (as @ (a, True) # (?p, False) # bs)"
      using o(2) cs by (auto simp: no_holes_append no_holes_Cons)
    ultimately show ?thesis by (simp add: tr)
  next
    case False
    have u: "used m (nextf m a)"
    proof (cases cs)
      case Nil
      then have "nextf m a = MEM_SIZE_ALIGNED" using d(5) by auto
      then show ?thesis using o(4) by simp
    next
      case (Cons c bs)
      then obtain b u where c: "cs = (b, u) # bs" by (cases c) auto
      then show ?thesis using d(5) False by auto
    qed
    have tr: "trim_rest a ?n cs = (if cut then (?p, False) # cs else cs)"
      using False u nx by (auto simp: trim_rest_def cut_def split: list.splits bool.splits)
    show ?thesis
    proof (cases cut)
      case True
      have fit: "?p + 52 \<le> nextf m a" using True u lt' by (simp add: cut_def)
      have nn: "nn = nextf m a" using u by (simp add: nn_def)
      have ne: "nextf m a \<noteq> MEM_SIZE_ALIGNED" if ne: "cs \<noteq> []"
      proof -
        obtain x v cs' where "cs = (x, v) # cs'" using ne by (cases cs) auto
        then show ?thesis using pos(2) [of x v] pos(5) by simp
      qed
      have "\<exists>l. dseg m2 0 0 (as @ [(a, True), (?p, False)] @ cs) l MEM_SIZE_ALIGNED"
      proof (rule dseg_replace [OF d(1) d(5) _ in_as])
        show "dseg m2 (prevf m a) a [(a, True), (?p, False)] ?p (nextf m a)"
          using True d(2,3) p4 n4(2) fit pa by (auto simp: m2_def m1_def nn)
        show "prevf m2 (nextf m a) = ?p" if "cs \<noteq> []" using ne [OF that] True by (simp add: m2_def nn)
        show "nextf m2 x = nextf m x \<and> used m2 x = used m x" if "(x, u) \<in> set cs" for x u
          using pos(2) [OF that] fit pos(3) True by (auto simp: m2_def m1_def)
        show "prevf m2 x = prevf m x" if "(x, u) \<in> set cs" "x \<noteq> nextf m a" for x u
          using pos(2) [OF that(1)] that(2) fit True by (auto simp: m2_def m1_def nn)
      qed
      moreover have "lfree m2 = first_free (as @ (a, True) # (?p, False) # cs)"
      proof (cases "\<forall>x \<in> set as. snd x")
        case all: True
        then have "lfree m = first_free cs" using o(3) by (simp add: first_free_append first_free_Cons)
        then have "?p < lfree m" using first_free_bound [OF d(5)] fit by simp
        then show ?thesis using True all u by (simp add: m2_def m1_def f_def first_free_append first_free_Cons)
      next
        case some: False
        then have "lfree m = first_free as" using o(3) by (metis first_free_append)
        moreover have "first_free as + 20 \<le> a" using pos(1) ff_as [OF some] by blast
        moreover have "first_free (as @ (a, True) # (?p, False) # cs) = first_free as" using some by (metis first_free_append)
        ultimately show ?thesis using True u by (simp add: m2_def m1_def f_def)
      qed
      moreover have "no_holes (as @ (a, True) # (?p, False) # cs)"
        using o(2) False by (cases cs) (auto simp: no_holes_append no_holes_Cons)
      ultimately show ?thesis using True by (simp add: tr)
    next
      case uncut: False
      then show ?thesis using ds o(2,3) by (auto simp: tr m2_def)
    qed
  qed
  have ends: "ram m2 = ram m" "user_size m2 = user_size m" "used m2 MEM_SIZE_ALIGNED = used m MEM_SIZE_ALIGNED"
    "nextf m2 MEM_SIZE_ALIGNED = nextf m MEM_SIZE_ALIGNED" "prevf m2 MEM_SIZE_ALIGNED = prevf m MEM_SIZE_ALIGNED"
    using lt' pos(4) by (auto simp: m2_def m1_def)
  define m3 where "m3 = mem_overflow_init_element a k m2"
  have same: "dseg m3 q p xs q' p' = dseg m2 q p xs q' p'" for q p xs q' p'
    unfolding m3_def mem_overflow_init_element_def by (auto intro: dseg_transfer elim: dseg_transfer)
  have "mem_ok m3 (as @ (a, True) # trim_rest a ?n cs)"
    unfolding mem_ok_def same using res ends o by (simp add: m3_def mem_overflow_init_element_def)
  then show ?thesis using run ends by (simp add: m3_def mem_overflow_init_element_def)
qed

section \<open>The sanity check\<close>

lemma sanity_walk_ok:
  assumes "dseg m 0 0 (as @ cs) l MEM_SIZE_ALIGNED" and "no_holes (as @ cs)" and "as \<noteq> []"
  shows "sanity_walk m (head_off cs) (snd (last as)) = Some (MEM_SIZE_ALIGNED, True)"
  using assms
proof (induction cs arbitrary: as)
  case Nil
  then show ?case by (subst sanity_walk.simps) simp
next
  case (Cons c cs)
  obtain a u where c: "c = (a, u)" by fastforce
  have ds: "dseg m 0 0 (as @ (a, u) # cs) l MEM_SIZE_ALIGNED" using Cons.prems(1) c by simp
  note pos = dseg_positions [OF ds] and d = dseg_around [OF ds]
  obtain as0 b v where as: "as = as0 @ [(b, v)]" using Cons.prems(3) by (metis rev_exhaust surj_pair)
  have b: "b + 20 \<le> a" using pos(1) [of b v] as by simp
  moreover have "prevf m a = b" using dseg_last [of m 0 0 as0 b v] d(1) as by simp
  moreover have "v \<or> u" using Cons.prems(2) as c by (simp add: no_holes_append)
  moreover have "mem_link_valid m a" by (rule dseg_link_valid [OF ds])
  moreover have "sanity_walk m (nextf m a) u = Some (MEM_SIZE_ALIGNED, True)"
    using Cons.IH [of "as @ [(a, u)]"] Cons.prems c pos(5) by simp
  ultimately show ?case using pos(3,4) d(2,3) c as by (subst sanity_walk.simps) simp
qed

lemma mem_sanity_holds:
  assumes "mem_ok m bs"
  shows "mem_sanity m = Some True"
proof -
  obtain l where ds: "dseg m 0 0 bs l MEM_SIZE_ALIGNED" and o: "bs \<noteq> []" "no_holes bs" "lfree m = first_free bs"
    "used m MEM_SIZE_ALIGNED" "nextf m MEM_SIZE_ALIGNED = MEM_SIZE_ALIGNED"
    "prevf m MEM_SIZE_ALIGNED = MEM_SIZE_ALIGNED" "ram m mod 4 = 0" "0 < ram m" "ram m + 61456 \<le> 2 ^ 32"
    using assms by (rule mem_ok_parts)
  obtain u cs where bs: "bs = (0, u) # cs" using ds o(1) by (cases bs) auto
  have d: "dseg m 0 0 ([(0, u)] @ cs) l MEM_SIZE_ALIGNED" "dseg m 0 0 ([] @ (0, u) # cs) l MEM_SIZE_ALIGNED"
    using ds bs by simp_all
  have "sanity_walk m (nextf m 0) u = Some (MEM_SIZE_ALIGNED, True)"
    using sanity_walk_ok [OF d(1)] o(2) bs dseg_positions(5) [OF d(2)] by simp
  moreover have "nextf m 0 \<le> MEM_SIZE_ALIGNED" "prevf m 0 = 0" "used m 0 = u"
    using dseg_positions(4) [OF d(2)] dseg_around [OF d(2)] by auto
  ultimately show ?thesis using o by (simp add: mem_sanity_def)
qed

section \<open>The correctness of the heap\<close>

definition mem_reset :: lwip_mem where
  "mem_reset = \<lparr>ram = 0x20010000, nextf = (\<lambda>_. 0), prevf = (\<lambda>_. 0), used = (\<lambda>_. False), user_size = (\<lambda>_. 0), lfree = 0\<rparr>"

lemma mem_init_ok:
  "0 < ram m \<Longrightarrow> ram m mod 4 = 0 \<Longrightarrow> ram m + 61456 \<le> 2 ^ 32 \<Longrightarrow> mem_ok (mem_init m) [(0, False)]"
  by (simp add: mem_ok_def mem_init_def Let_def first_free_def)

lemma mem_request_100: "mem_request 100 = 132"
  by (simp add: mem_request_def LWIP_MEM_ALIGN_SIZE_def to16_def)

text \<open>
  C29: \<^verbatim>\<open>mem_malloc\<close> is first fit on a heap whose blocks tile the array. The request is padded and gets its
  guard regions; the first unused block with room for it is taken, split when the rest is large enough
  for a block of its own; all other blocks stay where they are with the state they have, no two unused
  blocks touch, and the pointer to the lowest unused block stays right. NULL is returned, with nothing
  changed, exactly for a request of nothing, one too large for the heap and one no unused block fits. The
  heap's own sanity check holds in every state reached.
\<close>
theorem mem_malloc_first_fit:
  assumes "mem_ok m bs"
  shows "mem_sanity m = Some True \<and>
    (case (if 0 < n \<and> mem_request n \<le> MEM_SIZE_ALIGNED \<and> n \<le> mem_request n then fit (mem_request n) bs else None) of
      None \<Rightarrow> mem_malloc n m = Some (m, 0)
    | Some (as, a, cs) \<Rightarrow> bs = as @ (a, False) # cs \<and>
        (\<exists>m'. mem_malloc n m = Some (m', ram m + a + 24) \<and> mem_ok m' (as @ carve a (mem_request n) cs @ cs) \<and>
              ram m' = ram m \<and> user_size m' = (user_size m)(a := n)))"
proof (cases "0 < n \<and> mem_request n \<le> MEM_SIZE_ALIGNED \<and> n \<le> mem_request n")
  case True
  then show ?thesis
    using mem_malloc_cases [OF assms, of n] mem_sanity_holds [OF assms] fit_Some
    by (auto split: option.splits)
next
  case False
  then have "mem_malloc n m = Some (m, 0)" by (auto simp: mem_malloc_def Let_def)
  then show ?thesis unfolding if_not_P [OF False] using mem_sanity_holds [OF assms] by simp
qed

theorem mem_malloc_first_fit_witness:
  "\<exists>m'. mem_malloc 100 (mem_init mem_reset) = Some (m', 0x20010018) \<and> mem_ok m' [(0, True), (140, False)]"
proof -
  have ok: "mem_ok (mem_init mem_reset) [(0, False)]" by (rule mem_init_ok) (simp_all add: mem_reset_def)
  show ?thesis using mem_malloc_first_fit [OF ok, of 100]
    by (simp add: mem_request_100 carve_def) (auto simp: mem_init_def mem_reset_def)
qed

text \<open>
  C30: \<^verbatim>\<open>mem_free\<close> of a pointer that is held makes its block unused and merges it with an unused block after it
  and an unused block before it; every other block stays as it is, and the heap stays well-formed. So
  freed memory is never lost, and two unused blocks never touch.
\<close>
theorem mem_free_merges:
  assumes "mem_ok m (as @ (a, True) # cs)"
  shows "mem_ok (mem_free (ram m + a + 24) m) (absorb_prev as a @ absorb_next cs)"
  using mem_free_effect [OF assms] by blast

theorem mem_free_merges_witness:
  "\<exists>m. mem_ok m [(0, True), (140, True), (280, False)] \<and>
     mem_ok (mem_free (ram m + 140 + 24) m) [(0, True), (140, False)] \<and>
     mem_ok (mem_free (ram m + 0 + 24) (mem_free (ram m + 140 + 24) m)) [(0, False)]"
proof -
  have ok: "mem_ok (mem_init mem_reset) [(0, False)]" by (rule mem_init_ok) (simp_all add: mem_reset_def)
  obtain m1 where m1: "mem_ok m1 [(0, True), (140, False)]"
    using mem_malloc_cases [OF ok, of 100] by (auto simp: mem_request_100 carve_def)
  obtain m where m: "mem_ok m ([(0, True)] @ (140, True) # [(280, False)])"
    using mem_malloc_cases [OF m1, of 100] by (auto simp: mem_request_100 carve_def)
  have f1: "mem_ok (mem_free (ram m + 140 + 24) m) ([] @ (0, True) # [(140, False)])"
    using mem_free_merges [OF m] by (simp add: absorb_prev_def absorb_next_def)
  have "ram (mem_free (ram m + 140 + 24) m) = ram m" using mem_free_effect [OF m] by blast
  then have "mem_ok (mem_free (ram m + 0 + 24) (mem_free (ram m + 140 + 24) m)) [(0, False)]"
    using mem_free_merges [OF f1] by (simp add: absorb_prev_def absorb_next_def)
  then show ?thesis using m f1 by (intro exI [of _ m]) simp
qed

text \<open>
  \<^verbatim>\<open>mem_trim\<close> of a block that is held. The bytes cut off go to the unused block after it, or become an
  unused block when they are enough for one, and everything else stays as it is. The new size counts the
  guard regions where the old one does not: a size that is within 32 bytes of the old one is refused
  with NULL, although the block would get smaller.
\<close>
theorem mem_trim_correct:
  assumes ok: "mem_ok m (as @ (a, True) # cs)" and n: "mem_request k \<le> MEM_SIZE_ALIGNED" "k \<le> mem_request k"
  shows "if mem_request k > head_off cs - (a + 40) then mem_trim (ram m + a + 24) k m = (m, 0)
    else if mem_request k = head_off cs - (a + 40) then mem_trim (ram m + a + 24) k m = (m, ram m + a + 24)
    else \<exists>m'. mem_trim (ram m + a + 24) k m = (m', ram m + a + 24) \<and>
      mem_ok m' (as @ (a, True) # trim_rest a (mem_request k) cs) \<and> user_size m' = (user_size m)(a := k)"
proof (cases "mem_request k < head_off cs - (a + 40)")
  case True
  then show ?thesis using mem_trim_effect [OF ok n] by auto
next
  case False
  note cap = mem_trim_capacity [OF ok]
  have "8 + 16 = (24 :: nat)" "8 + 32 = (40 :: nat)" by simp_all
  then show ?thesis using False n cap(5) unfolding mem_trim_def Let_def
    by (simp only: cap(1-4)) auto
qed

theorem mem_trim_correct_witness:
  "\<exists>m. mem_ok m ([] @ (0, True) # [(140, False)]) \<and> mem_trim (ram m + 0 + 24) 80 m = (m, 0)"
proof -
  have ok: "mem_ok (mem_init mem_reset) [(0, False)]" by (rule mem_init_ok) (simp_all add: mem_reset_def)
  obtain m where m: "mem_ok m ([] @ (0, True) # [(140, False)])"
    using mem_malloc_cases [OF ok, of 100] by (auto simp: mem_request_100 carve_def)
  have "mem_request 80 = 112" by (simp add: mem_request_def LWIP_MEM_ALIGN_SIZE_def to16_def)
  then have "mem_trim (ram m + 0 + 24) 80 m = (m, 0)" using mem_trim_correct [OF m, of 80] by simp
  then show ?thesis using m by blast
qed

end
