(* ===== verification/Lwip_Pbuf.thy ===== *)
theory Lwip_Pbuf
  imports Lwip_Mem
begin

text \<open>
  Packet buffers (\<^verbatim>\<open>middlewares/lwip/src/core/pbuf.c\<close>): their structures, chains, reference counts, headers
  and allocation. The store has one function per field of \<^verbatim>\<open>struct pbuf\<close> by the address of the structure,
  the bytes of the payloads by address, the free lists of the two pools and the heap. Lengths and addresses are
  naturals with the conversions to 16 bits and the wrap-around of addresses written out; zero is the null
  pointer. Assertions only print. \<open>None\<close> is a loop that does not end.
\<close>

section \<open>The store\<close>

record pbufs =
  p_next :: "nat \<Rightarrow> nat"
  payload :: "nat \<Rightarrow> nat"
  tot_len :: "nat \<Rightarrow> nat"
  p_len :: "nat \<Rightarrow> nat"
  type_internal :: "nat \<Rightarrow> u8"
  p_flags :: "nat \<Rightarrow> u8"
  p_ref :: "nat \<Rightarrow> nat"
  p_if_idx :: "nat \<Rightarrow> u8"
  bytes :: "nat \<Rightarrow> u8"
  pbuf_pool :: "nat list"
  pbuf_refs :: "nat list"
  heap :: lwip_mem

abbreviation SIZEOF_STRUCT_PBUF :: nat where "SIZEOF_STRUCT_PBUF \<equiv> 16"
abbreviation PBUF_POOL_BUFSIZE_ALIGNED :: nat where "PBUF_POOL_BUFSIZE_ALIGNED \<equiv> 1544"

datatype pbuf_layer = PBUF_TRANSPORT | PBUF_IP | PBUF_LINK | PBUF_RAW_TX | PBUF_RAW

datatype pbuf_type = PBUF_RAM | PBUF_ROM | PBUF_REF | PBUF_POOL

fun layer_offset :: "pbuf_layer \<Rightarrow> nat" where
  "layer_offset PBUF_TRANSPORT = 102"
| "layer_offset PBUF_IP = 82"
| "layer_offset PBUF_LINK = 42"
| "layer_offset PBUF_RAW_TX = 28"
| "layer_offset PBUF_RAW = 0"

text \<open>The type as it is stored, cut to 8 bits.\<close>

fun type_code :: "pbuf_type \<Rightarrow> u8" where
  "type_code PBUF_RAM = 0x80"
| "type_code PBUF_ROM = 0x01"
| "type_code PBUF_REF = 0x41"
| "type_code PBUF_POOL = 0x82"

definition pbuf_get_allocsrc :: "pbufs \<Rightarrow> nat \<Rightarrow> u8" where
  "pbuf_get_allocsrc s p = type_internal s p AND 0x0F"

definition add32 :: "nat \<Rightarrow> nat \<Rightarrow> nat" where "add32 a b = (a + b) mod 2 ^ 32"

section \<open>Chains\<close>

partial_function (option) clen_loop :: "pbufs \<Rightarrow> nat \<Rightarrow> nat \<Rightarrow> nat option" where
  "clen_loop s p n = (if p \<noteq> 0 then clen_loop s (p_next s p) (to16 (n + 1)) else Some n)"

definition pbuf_clen :: "pbufs \<Rightarrow> nat \<Rightarrow> nat option" where
  "pbuf_clen s p = clen_loop s p 0"

definition pbuf_ref :: "nat \<Rightarrow> pbufs \<Rightarrow> pbufs" where
  "pbuf_ref p s = (if p \<noteq> 0 then s\<lparr>p_ref := (p_ref s)(p := (p_ref s p + 1) mod 256)\<rparr> else s)"

text \<open>A pool is the list of its free elements, the last one freed first.\<close>

definition memp_free_pool :: "nat \<Rightarrow> nat list \<Rightarrow> nat list" where
  "memp_free_pool p tab = (if p = 0 then tab else p # tab)"

definition memp_malloc_pool :: "nat list \<Rightarrow> nat list \<times> nat" where
  "memp_malloc_pool tab = (case tab of [] \<Rightarrow> ([], 0) | p # ps \<Rightarrow> (ps, p))"

definition pbuf_dealloc :: "nat \<Rightarrow> pbufs \<Rightarrow> pbufs" where
  "pbuf_dealloc p s =
    (if pbuf_get_allocsrc s p = 0x02 then s\<lparr>pbuf_pool := memp_free_pool p (pbuf_pool s)\<rparr>
     else if pbuf_get_allocsrc s p = 0x01 then s\<lparr>pbuf_refs := memp_free_pool p (pbuf_refs s)\<rparr>
     else if pbuf_get_allocsrc s p = 0x00 then s\<lparr>heap := mem_free p (heap s)\<rparr>
     else s)"

partial_function (option) free_loop :: "nat \<Rightarrow> nat \<Rightarrow> pbufs \<Rightarrow> (pbufs \<times> nat) option" where
  "free_loop p n s =
    (if p \<noteq> 0 then
       (let r = (p_ref s p + 255) mod 256;
            s = s\<lparr>p_ref := (p_ref s)(p := r)\<rparr>
        in if r = 0 then free_loop (p_next s p) ((n + 1) mod 256) (pbuf_dealloc p s) else Some (s, n))
     else Some (s, n))"

definition pbuf_free :: "nat \<Rightarrow> pbufs \<Rightarrow> (pbufs \<times> nat) option" where
  "pbuf_free p s = (if p = 0 then Some (s, 0) else free_loop p 0 s)"

text \<open>\<^verbatim>\<open>pbuf_cat\<close>: the lengths of the head's chain grow by the tail's, and the last one is linked to it.\<close>

partial_function (option) cat_loop :: "nat \<Rightarrow> nat \<Rightarrow> pbufs \<Rightarrow> pbufs option" where
  "cat_loop p t s =
    (let s' = s\<lparr>tot_len := (tot_len s)(p := to16 (tot_len s p + tot_len s t))\<rparr> in
     if p_next s p \<noteq> 0 then cat_loop (p_next s p) t s'
     else Some (s'\<lparr>p_next := (p_next s')(p := t)\<rparr>))"

definition pbuf_cat :: "nat \<Rightarrow> nat \<Rightarrow> pbufs \<Rightarrow> pbufs option" where
  "pbuf_cat h t s = (if h \<noteq> 0 \<and> t \<noteq> 0 then cat_loop h t s else Some s)"

definition pbuf_chain :: "nat \<Rightarrow> nat \<Rightarrow> pbufs \<Rightarrow> pbufs option" where
  "pbuf_chain h t s = map_option (pbuf_ref t) (pbuf_cat h t s)"

text \<open>The rest of the chain, or zero when it was freed.\<close>

definition pbuf_dechain :: "nat \<Rightarrow> pbufs \<Rightarrow> (pbufs \<times> nat) option" where
  "pbuf_dechain p s =
    (let q = p_next s p in
     if q \<noteq> 0 then
       (let s = s\<lparr>tot_len := (tot_len s)(q := to16 (sub32 (tot_len s p) (p_len s p)))\<rparr>;
            s = s\<lparr>p_next := (p_next s)(p := 0)\<rparr>;
            s = s\<lparr>tot_len := (tot_len s)(p := p_len s p)\<rparr>
        in map_option (\<lambda>(s, tail_gone). (s, if tail_gone > 0 then 0 else q)) (pbuf_free q s))
     else Some (s, 0))"

section \<open>Headers\<close>

definition pbuf_add_header_impl :: "nat \<Rightarrow> nat \<Rightarrow> bool \<Rightarrow> pbufs \<Rightarrow> pbufs \<times> nat" where
  "pbuf_add_header_impl p inc force s =
    (if p = 0 \<or> inc > 0xFFFF then (s, 1)
     else if inc = 0 then (s, 0)
     else
       (let mag = to16 inc in
        if to16 (mag + tot_len s p) < mag then (s, 1)
        else
          (let new = sub32 (payload s p) inc in
           if type_internal s p AND 0x80 \<noteq> 0 \<and> new < add32 p SIZEOF_STRUCT_PBUF then (s, 1)
           else if type_internal s p AND 0x80 = 0 \<and> \<not> force then (s, 1)
           else (s\<lparr>payload := (payload s)(p := new), p_len := (p_len s)(p := to16 (p_len s p + mag)),
                   tot_len := (tot_len s)(p := to16 (tot_len s p + mag))\<rparr>, 0))))"

definition pbuf_add_header :: "nat \<Rightarrow> nat \<Rightarrow> pbufs \<Rightarrow> pbufs \<times> nat" where
  "pbuf_add_header p inc s = pbuf_add_header_impl p inc False s"

definition pbuf_add_header_force :: "nat \<Rightarrow> nat \<Rightarrow> pbufs \<Rightarrow> pbufs \<times> nat" where
  "pbuf_add_header_force p inc s = pbuf_add_header_impl p inc True s"

definition pbuf_remove_header :: "nat \<Rightarrow> nat \<Rightarrow> pbufs \<Rightarrow> pbufs \<times> nat" where
  "pbuf_remove_header p decr s =
    (if p = 0 \<or> decr > 0xFFFF then (s, 1)
     else if decr = 0 then (s, 0)
     else
       (let mag = to16 decr in
        if \<not> mag \<le> p_len s p then (s, 1)
        else (s\<lparr>payload := (payload s)(p := add32 (payload s p) decr),
                p_len := (p_len s)(p := to16 (p_len s p + 65536 - mag)),
                tot_len := (tot_len s)(p := to16 (tot_len s p + 65536 - mag))\<rparr>, 0)))"

text \<open>The increment is a signed 16-bit number.\<close>

definition pbuf_header_impl :: "nat \<Rightarrow> int \<Rightarrow> bool \<Rightarrow> pbufs \<Rightarrow> pbufs \<times> nat" where
  "pbuf_header_impl p inc force s =
    (if inc < 0 then pbuf_remove_header p (nat (- inc)) s else pbuf_add_header_impl p (nat inc) force s)"

definition pbuf_header :: "nat \<Rightarrow> int \<Rightarrow> pbufs \<Rightarrow> pbufs \<times> nat" where
  "pbuf_header p inc s = pbuf_header_impl p inc False s"

definition pbuf_header_force :: "nat \<Rightarrow> int \<Rightarrow> pbufs \<Rightarrow> pbufs \<times> nat" where
  "pbuf_header_force p inc s = pbuf_header_impl p inc True s"

partial_function (option) free_header_loop :: "nat \<Rightarrow> nat \<Rightarrow> pbufs \<Rightarrow> (pbufs \<times> nat) option" where
  "free_header_loop left p s =
    (if left \<noteq> 0 \<and> p \<noteq> 0 then
       (if left \<ge> p_len s p then
          (case pbuf_free p (s\<lparr>p_next := (p_next s)(p := 0)\<rparr>) of
             None \<Rightarrow> None
           | Some (s', n) \<Rightarrow> free_header_loop (to16 (left + 65536 - p_len s p)) (p_next s p) s')
        else free_header_loop 0 p (fst (pbuf_remove_header p left s)))
     else Some (s, p))"

definition pbuf_free_header :: "nat \<Rightarrow> nat \<Rightarrow> pbufs \<Rightarrow> (pbufs \<times> nat) option" where
  "pbuf_free_header q n s = free_header_loop n q s"

section \<open>Truncation\<close>

text \<open>The structures that keep all their bytes, with their total lengths reduced; the one to cut, and how much stays.\<close>

partial_function (option) realloc_loop :: "nat \<Rightarrow> nat \<Rightarrow> nat \<Rightarrow> pbufs \<Rightarrow> (pbufs \<times> nat \<times> nat) option" where
  "realloc_loop q rem shrink s =
    (if rem > p_len s q then
       realloc_loop (p_next s q) (to16 (rem + 65536 - p_len s q)) shrink
         (s\<lparr>tot_len := (tot_len s)(q := to16 (tot_len s q + 65536 - shrink))\<rparr>)
     else Some (s, q, rem))"

definition pbuf_realloc :: "nat \<Rightarrow> nat \<Rightarrow> pbufs \<Rightarrow> pbufs option" where
  "pbuf_realloc p new_len s =
    (if new_len \<ge> tot_len s p then Some s
     else
       (case realloc_loop p new_len (to16 (tot_len s p + 65536 - new_len)) s of
          None \<Rightarrow> None
        | Some (s, q, rem) \<Rightarrow>
            (let s = (if pbuf_get_allocsrc s q = 0 \<and> rem \<noteq> p_len s q
                      then s\<lparr>heap := fst (mem_trim q (to16 (sub32 (payload s q) q + rem)) (heap s))\<rparr> else s);
                 s = s\<lparr>p_len := (p_len s)(q := rem)\<rparr>;
                 s = s\<lparr>tot_len := (tot_len s)(q := p_len s q)\<rparr>;
                 r = (if p_next s q \<noteq> 0 then map_option fst (pbuf_free (p_next s q) s) else Some s)
             in map_option (\<lambda>s. s\<lparr>p_next := (p_next s)(q := 0)\<rparr>) r)))"

section \<open>Allocation\<close>

definition pbuf_init_alloced_pbuf :: "nat \<Rightarrow> nat \<Rightarrow> nat \<Rightarrow> nat \<Rightarrow> pbuf_type \<Rightarrow> u8 \<Rightarrow> pbufs \<Rightarrow> pbufs" where
  "pbuf_init_alloced_pbuf p pl tot n ty fl s =
     s\<lparr>p_next := (p_next s)(p := 0), payload := (payload s)(p := pl), tot_len := (tot_len s)(p := tot),
       p_len := (p_len s)(p := n), type_internal := (type_internal s)(p := type_code ty),
       p_flags := (p_flags s)(p := fl), p_ref := (p_ref s)(p := 1), p_if_idx := (p_if_idx s)(p := 0)\<rparr>"

definition pbuf_alloc_reference :: "nat \<Rightarrow> nat \<Rightarrow> pbuf_type \<Rightarrow> pbufs \<Rightarrow> pbufs \<times> nat" where
  "pbuf_alloc_reference pl n ty s =
    (let (tab, p) = memp_malloc_pool (pbuf_refs s); s = s\<lparr>pbuf_refs := tab\<rparr> in
     if p = 0 then (s, 0) else (pbuf_init_alloced_pbuf p pl n n ty 0 s, p))"

text \<open>The loop that takes elements from the pool: the head of the chain so far and its last one, zero at first.\<close>

partial_function (option) alloc_pool_loop ::
  "nat \<Rightarrow> nat \<Rightarrow> nat \<Rightarrow> nat \<Rightarrow> pbufs \<Rightarrow> (pbufs \<times> nat) option" where
  "alloc_pool_loop p prev rem offset s =
    (let (tab, q) = memp_malloc_pool (pbuf_pool s); s = s\<lparr>pbuf_pool := tab\<rparr> in
     if q = 0 then
       (if p \<noteq> 0 then map_option (\<lambda>(s, n). (s, 0)) (pbuf_free p s) else Some (s, 0))
     else
       (let qlen = min rem (to16 (PBUF_POOL_BUFSIZE_ALIGNED - LWIP_MEM_ALIGN_SIZE offset));
            s = pbuf_init_alloced_pbuf q (LWIP_MEM_ALIGN_SIZE (q + SIZEOF_STRUCT_PBUF + offset)) rem qlen PBUF_POOL 0 s;
            s = (if p = 0 then s else s\<lparr>p_next := (p_next s)(prev := q)\<rparr>);
            p = (if p = 0 then q else p);
            rem = to16 (rem + 65536 - qlen)
        in if rem > 0 then alloc_pool_loop p q rem 0 s else Some (s, p)))"

definition pbuf_alloc :: "pbuf_layer \<Rightarrow> nat \<Rightarrow> pbuf_type \<Rightarrow> pbufs \<Rightarrow> (pbufs \<times> nat) option" where
  "pbuf_alloc layer n ty s =
    (let offset = layer_offset layer in
     case ty of
       PBUF_REF \<Rightarrow> Some (pbuf_alloc_reference 0 n ty s)
     | PBUF_ROM \<Rightarrow> Some (pbuf_alloc_reference 0 n ty s)
     | PBUF_POOL \<Rightarrow> alloc_pool_loop 0 0 n offset s
     | PBUF_RAM \<Rightarrow>
         (let payload_len = to16 (LWIP_MEM_ALIGN_SIZE offset + LWIP_MEM_ALIGN_SIZE n);
              alloc_len = to16 (LWIP_MEM_ALIGN_SIZE SIZEOF_STRUCT_PBUF + payload_len)
          in if payload_len < LWIP_MEM_ALIGN_SIZE n \<or> alloc_len < LWIP_MEM_ALIGN_SIZE n then Some (s, 0)
             else
               (case mem_malloc alloc_len (heap s) of
                  None \<Rightarrow> None
                | Some (h, p) \<Rightarrow>
                    (let s = s\<lparr>heap := h\<rparr> in
                     if p = 0 then Some (s, 0)
                     else Some (pbuf_init_alloced_pbuf p
                                  (LWIP_MEM_ALIGN_SIZE (p + SIZEOF_STRUCT_PBUF + offset)) n n PBUF_RAM 0 s, p)))))"

section \<open>What a chain is\<close>

fun chain :: "pbufs \<Rightarrow> nat \<Rightarrow> nat list \<Rightarrow> bool" where
  "chain s p [] \<longleftrightarrow> p = 0"
| "chain s p (q # qs) \<longleftrightarrow> p = q \<and> q \<noteq> 0 \<and> chain s (p_next s q) qs"

definition total :: "pbufs \<Rightarrow> nat list \<Rightarrow> nat" where
  "total s ps = sum_list (map (p_len s) ps)"

lemma total_simps [simp]: "total s [] = 0" "total s (p # ps) = p_len s p + total s ps"
  "total s (ps @ qs) = total s ps + total s qs"
  by (simp_all add: total_def)

text \<open>Each total length is the sum of the lengths from there on.\<close>

fun tot_ok :: "pbufs \<Rightarrow> nat list \<Rightarrow> bool" where
  "tot_ok s [] \<longleftrightarrow> True"
| "tot_ok s (p # ps) \<longleftrightarrow> tot_len s p = total s (p # ps) \<and> tot_ok s ps"

definition packet :: "pbufs \<Rightarrow> nat \<Rightarrow> nat list \<Rightarrow> bool" where
  "packet s p ps \<longleftrightarrow> chain s p ps \<and> tot_ok s ps \<and> total s ps < 65536"

lemma chain_unique: "chain s p ps \<Longrightarrow> chain s p qs \<Longrightarrow> ps = qs"
proof (induction ps arbitrary: p qs)
  case Nil
  then show ?case by (cases qs) auto
next
  case (Cons a ps)
  then show ?case by (cases qs) auto
qed

lemma chain_append: "chain s p (as @ b # bs) \<Longrightarrow> chain s b (b # bs)"
  by (induction as arbitrary: p) auto

lemma chain_distinct: "chain s p ps \<Longrightarrow> distinct ps"
proof (induction ps arbitrary: p)
  case (Cons a ps)
  have "a \<notin> set ps"
  proof
    assume "a \<in> set ps"
    then obtain as bs where ps: "ps = as @ a # bs" by (metis split_list)
    then have "chain s a (a # bs)" using chain_append [of s p "a # as" a bs] Cons.prems by simp
    then have "bs = ps" using Cons.prems chain_unique by auto
    then show False using ps by simp
  qed
  then show ?case using Cons by auto
qed simp

lemma chain_cong:
  assumes "chain s p ps" and "\<And>q. q \<in> set ps \<Longrightarrow> p_next s' q = p_next s q"
  shows "chain s' p ps"
  using assms by (induction ps arbitrary: p) auto

lemma chain_nonzero: "chain s p ps \<Longrightarrow> q \<in> set ps \<Longrightarrow> q \<noteq> 0"
  by (induction ps arbitrary: p) auto

lemma total_cong: "(\<And>q. q \<in> set ps \<Longrightarrow> p_len s' q = p_len s q) \<Longrightarrow> total s' ps = total s ps"
  unfolding total_def by (metis map_eq_conv)

lemma tot_ok_cong:
  assumes "tot_ok s ps" and "\<And>q. q \<in> set ps \<Longrightarrow> p_len s' q = p_len s q \<and> tot_len s' q = tot_len s q"
  shows "tot_ok s' ps"
  using assms
proof (induction ps)
  case (Cons a ps)
  have "total s' (a # ps) = total s (a # ps)" by (rule total_cong) (use Cons.prems in blast)
  then show ?case using Cons by auto
qed simp

lemma chain_length: "chain s p ps \<Longrightarrow> clen_loop s p n = Some ((n + length ps) mod 65536) \<or> n \<ge> 65536"
proof (induction ps arbitrary: p n)
  case Nil
  then show ?case by (subst clen_loop.simps) auto
next
  case (Cons a ps)
  have "to16 (n + 1) < 65536" by (simp add: to16_def)
  then have "clen_loop s (p_next s a) (to16 (n + 1)) = Some ((to16 (n + 1) + length ps) mod 65536)"
    using Cons.IH [of "p_next s a" "to16 (n + 1)"] Cons.prems by auto
  then show ?case using Cons.prems by (subst clen_loop.simps) (auto simp: to16_def mod_simps)
qed

section \<open>Concatenation\<close>

lemma cat_loop_effect:
  assumes "chain s h (hs @ [l])" and "t \<notin> set (hs @ [l])"
  shows "cat_loop h t s = Some (s\<lparr>tot_len := (\<lambda>q. if q \<in> set (hs @ [l]) then to16 (tot_len s q + tot_len s t) else tot_len s q),
    p_next := (p_next s)(l := t)\<rparr>)"
  using assms
proof (induction hs arbitrary: h s)
  case Nil
  then show ?case by (subst cat_loop.simps) (auto simp: Let_def intro!: pbufs.equality)
next
  case (Cons a hs)
  let ?s = "s\<lparr>tot_len := (tot_len s)(a := to16 (tot_len s a + tot_len s t))\<rparr>"
  have d: "a \<notin> set (hs @ [l])" using chain_distinct [OF Cons.prems(1)] by simp
  have "chain s (p_next s a) (hs @ [l])" using Cons.prems(1) by simp
  then have c: "chain ?s (p_next s a) (hs @ [l])" by (rule chain_cong) simp
  then have nz: "p_next s a \<noteq> 0" by (cases hs) auto
  have t: "t \<noteq> a" using Cons.prems(2) by auto
  have "cat_loop (p_next s a) t ?s = Some (?s\<lparr>tot_len := (\<lambda>q. if q \<in> set (hs @ [l]) then to16 (tot_len ?s q + tot_len ?s t)
      else tot_len ?s q), p_next := (p_next ?s)(l := t)\<rparr>)"
    by (rule Cons.IH [OF c]) (use Cons.prems(2) in simp)
  moreover have "?s\<lparr>tot_len := (\<lambda>q. if q \<in> set (hs @ [l]) then to16 (tot_len ?s q + tot_len ?s t) else tot_len ?s q),
      p_next := (p_next ?s)(l := t)\<rparr> =
    s\<lparr>tot_len := (\<lambda>q. if q \<in> set ((a # hs) @ [l]) then to16 (tot_len s q + tot_len s t) else tot_len s q),
      p_next := (p_next s)(l := t)\<rparr>"
    using d t by (auto simp: fun_eq_iff)
  ultimately show ?case using Cons.prems(1) nz by (subst cat_loop.simps) (simp add: Let_def)
qed

lemma chain_relink:
  assumes "chain s h (hs @ [l])" and "chain s t ts" and "l \<notin> set ts"
    and "p_next s' = (p_next s)(l := t)"
  shows "chain s' h (hs @ [l] @ ts)"
  using assms
proof (induction hs arbitrary: h)
  case Nil
  have "chain s' t ts" by (rule chain_cong [OF Nil(2)]) (use Nil in auto)
  then show ?case using Nil by simp
next
  case (Cons a hs)
  have "a \<noteq> l" using chain_distinct [OF Cons.prems(1)] by auto
  then show ?case using Cons by simp
qed

lemma tot_ok_cat:
  assumes "tot_ok s hs" and "tot_ok s ts" and "set hs \<inter> set ts = {}"
    and "\<And>q. p_len s' q = p_len s q" and "\<And>q. q \<in> set hs \<Longrightarrow> tot_len s' q = tot_len s q + total s ts"
    and "\<And>q. q \<in> set ts \<Longrightarrow> tot_len s' q = tot_len s q"
  shows "tot_ok s' (hs @ ts)"
  using assms
proof (induction hs)
  case Nil
  then show ?case by (auto intro: tot_ok_cong)
next
  case (Cons a hs)
  have "total s' (hs @ ts) = total s (hs @ ts)" by (rule total_cong) (simp add: Cons.prems(4))
  then show ?case using Cons by auto
qed

lemma tot_ok_hd: "tot_ok s (q # qs) \<Longrightarrow> p \<in> set (q # qs) \<Longrightarrow> tot_len s p \<le> total s (q # qs)"
proof (induction qs arbitrary: q)
  case (Cons r rs)
  then show ?case by (cases "p = q") force+
qed simp

lemma pbuf_cat_packet:
  assumes h: "packet s h hs" "hs \<noteq> []" and t: "packet s t ts" "ts \<noteq> []"
    and dis: "set hs \<inter> set ts = {}" and fits: "total s hs + total s ts < 65536"
  shows "\<exists>s'. pbuf_cat h t s = Some s' \<and> packet s' h (hs @ ts) \<and> p_len s' = p_len s \<and> payload s' = payload s \<and>
    bytes s' = bytes s \<and> p_ref s' = p_ref s \<and> (\<forall>q. q \<notin> set hs \<longrightarrow> p_next s' q = p_next s q \<and> tot_len s' q = tot_len s q)"
proof -
  obtain hs' l where hs: "hs = hs' @ [l]" using h(2) by (metis rev_exhaust)
  have ch: "chain s h (hs' @ [l])" "tot_ok s hs" using h hs by (simp_all add: packet_def)
  have ct: "chain s t ts" "tot_ok s ts" using t by (simp_all add: packet_def)
  have nz: "h \<noteq> 0" "t \<noteq> 0" "t \<in> set ts" "tot_len s t = total s ts"
    using ch ct t(2) hs by (cases hs'; cases ts; auto)+
  have "t \<notin> set (hs' @ [l])" using nz(3) dis hs by auto
  note cl = cat_loop_effect [OF ch(1) this]
  let ?s = "s\<lparr>tot_len := (\<lambda>q. if q \<in> set (hs' @ [l]) then to16 (tot_len s q + tot_len s t) else tot_len s q),
    p_next := (p_next s)(l := t)\<rparr>"
  have "chain ?s h (hs' @ [l] @ ts)" by (rule chain_relink [OF ch(1) ct(1)]) (use dis hs in auto)
  moreover have "tot_ok ?s (hs @ ts)"
  proof (rule tot_ok_cat [OF ch(2) ct(2) dis])
    fix q assume q: "q \<in> set hs"
    have "tot_len s q \<le> total s hs" using tot_ok_hd [of s "hd hs" "tl hs" q] ch(2) q h(2) by simp
    then show "tot_len ?s q = tot_len s q + total s ts" using q hs nz(4) fits by (simp add: to16_small)
  next
    fix q assume "q \<in> set ts"
    then show "tot_len ?s q = tot_len s q" using dis hs by auto
  qed simp
  moreover have "total ?s (hs @ ts) = total s (hs @ ts)" by (rule total_cong) simp
  ultimately show ?thesis using cl nz hs fits by (auto simp: pbuf_cat_def packet_def)
qed

section \<open>Freeing\<close>

text \<open>The structures of a list that come from a source of memory.\<close>

definition from_src :: "u8 \<Rightarrow> pbufs \<Rightarrow> nat list \<Rightarrow> nat list" where
  "from_src c s ps = filter (\<lambda>p. pbuf_get_allocsrc s p = c) ps"

text \<open>What stays the same when references are dropped and memory is given back.\<close>

definition same_structs :: "pbufs \<Rightarrow> pbufs \<Rightarrow> bool" where
  "same_structs s' s \<longleftrightarrow> p_next s' = p_next s \<and> payload s' = payload s \<and> tot_len s' = tot_len s \<and> p_len s' = p_len s \<and>
     type_internal s' = type_internal s \<and> p_flags s' = p_flags s \<and> p_if_idx s' = p_if_idx s \<and> bytes s' = bytes s"

lemma dealloc_same: "same_structs (pbuf_dealloc p s) s" "p_ref (pbuf_dealloc p s) = p_ref s"
  by (simp_all add: pbuf_dealloc_def same_structs_def)

lemma same_structs_trans: "same_structs a b \<Longrightarrow> same_structs b c \<Longrightarrow> same_structs a c"
  by (simp add: same_structs_def)

lemma same_structs_src: "same_structs s' s \<Longrightarrow> pbuf_get_allocsrc s' = pbuf_get_allocsrc s"
  by (simp add: same_structs_def pbuf_get_allocsrc_def fun_eq_iff)

definition freed_mem :: "pbufs \<Rightarrow> nat list \<Rightarrow> pbufs \<Rightarrow> bool" where
  "freed_mem s ds s' \<longleftrightarrow>
     pbuf_pool s' = rev (from_src 0x02 s ds) @ pbuf_pool s \<and> pbuf_refs s' = rev (from_src 0x01 s ds) @ pbuf_refs s \<and>
     heap s' = foldl (\<lambda>h p. mem_free p h) (heap s) (from_src 0x00 s ds)"

lemma freed_mem_dealloc:
  assumes "d \<noteq> 0" and "pbuf_get_allocsrc t = pbuf_get_allocsrc s" and "pbuf_pool t = pbuf_pool s"
    and "pbuf_refs t = pbuf_refs s" and "heap t = heap s" and "freed_mem (pbuf_dealloc d t) ds s'"
  shows "freed_mem s (d # ds) s'"
proof -
  have "from_src c (pbuf_dealloc d t) ds = from_src c s ds" for c
    using same_structs_src [OF dealloc_same(1), of d t] assms(2) by (simp add: from_src_def)
  then show ?thesis using assms
    by (auto simp: freed_mem_def pbuf_dealloc_def from_src_def memp_free_pool_def split: if_splits)
qed

lemma free_loop_effect:
  assumes "chain s p (ds @ qs)" and "\<forall>d \<in> set ds. p_ref s d = 1"
    and "qs \<noteq> [] \<Longrightarrow> 1 < p_ref s (hd qs) \<and> p_ref s (hd qs) < 256" and "n < 256"
  shows "\<exists>s'. free_loop p n s = Some (s', (n + length ds) mod 256) \<and> same_structs s' s \<and> freed_mem s ds s' \<and>
    p_ref s' = (\<lambda>q. if q \<in> set ds then 0 else if qs \<noteq> [] \<and> q = hd qs then p_ref s q - 1 else p_ref s q)"
  using assms
proof (induction ds arbitrary: p n s)
  case Nil
  show ?case
  proof (cases qs)
    case Nil
    then show ?thesis using Nil.prems
      by (subst free_loop.simps) (auto simp: same_structs_def freed_mem_def from_src_def)
  next
    case (Cons q rs)
    then have "p = q" "q \<noteq> 0" "1 < p_ref s q" "p_ref s q < 256" using Nil.prems by auto
    moreover from this have "(p_ref s q + 255) mod 256 = p_ref s q - 1" by (simp add: mod_if)
    ultimately show ?thesis using Cons Nil.prems(4)
      by (subst free_loop.simps) (auto simp: Let_def same_structs_def freed_mem_def from_src_def fun_eq_iff)
  qed
next
  case (Cons d ds)
  have p: "p = d" "d \<noteq> 0" "p_ref s d = 1" using Cons.prems by auto
  have dist: "distinct (d # ds @ qs)" using chain_distinct [OF Cons.prems(1)] by simp
  let ?t = "s\<lparr>p_ref := (p_ref s)(d := 0)\<rparr>"
  let ?u = "pbuf_dealloc d ?t"
  have su: "same_structs ?u ?t" "p_ref ?u = p_ref ?t" by (rule dealloc_same)+
  have u: "p_next ?u = p_next s" "p_ref ?u = (p_ref s)(d := 0)" using su by (simp_all add: same_structs_def)
  have "chain s (p_next s d) (ds @ qs)" using Cons.prems(1) p by simp
  then have "chain ?u (p_next s d) (ds @ qs)" by (rule chain_cong) (simp add: u)
  moreover have "\<forall>x \<in> set ds. p_ref ?u x = 1" using Cons.prems(2) dist u by auto
  moreover have "1 < p_ref ?u (hd qs) \<and> p_ref ?u (hd qs) < 256" if "qs \<noteq> []"
  proof -
    have "hd qs \<noteq> d" using dist that hd_in_set by fastforce
    then show ?thesis using Cons.prems(3) that u by simp
  qed
  moreover have "(n + 1) mod 256 < 256" by simp
  ultimately obtain s' where s': "free_loop (p_next s d) ((n + 1) mod 256) ?u = Some (s', ((n + 1) mod 256 + length ds) mod 256)"
    "same_structs s' ?u" "freed_mem ?u ds s'"
    "p_ref s' = (\<lambda>q. if q \<in> set ds then 0 else if qs \<noteq> [] \<and> q = hd qs then p_ref ?u q - 1 else p_ref ?u q)"
    using Cons.IH [of ?u "p_next s d" "(n + 1) mod 256"] by blast
  have "free_loop p n s = Some (s', (n + length (d # ds)) mod 256)"
    using s'(1) p by (subst free_loop.simps) (simp add: Let_def mod_simps)
  moreover have "same_structs s' s" using same_structs_trans [OF s'(2) su(1)] by (simp add: same_structs_def)
  moreover have "freed_mem s (d # ds) s'"
    by (rule freed_mem_dealloc [OF p(2) _ _ _ _ s'(3)]) (simp_all add: pbuf_get_allocsrc_def fun_eq_iff)
  moreover have "p_ref s' = (\<lambda>q. if q \<in> set (d # ds) then 0 else if qs \<noteq> [] \<and> q = hd qs then p_ref s q - 1 else p_ref s q)"
    unfolding s'(4) u using dist hd_in_set [of qs] by (auto simp: fun_eq_iff)
  ultimately show ?case by blast
qed

lemma pbuf_free_effect:
  assumes "chain s p (ds @ qs)" and "\<forall>d \<in> set ds. p_ref s d = 1"
    and "qs \<noteq> [] \<Longrightarrow> 1 < p_ref s (hd qs) \<and> p_ref s (hd qs) < 256"
  shows "\<exists>s'. pbuf_free p s = Some (s', length ds mod 256) \<and> same_structs s' s \<and> freed_mem s ds s' \<and>
    p_ref s' = (\<lambda>q. if q \<in> set ds then 0 else if qs \<noteq> [] \<and> q = hd qs then p_ref s q - 1 else p_ref s q)"
proof (cases "p = 0")
  case True
  then have "ds = []" "qs = []" using assms(1) by (cases ds; cases qs; auto)+
  then show ?thesis using True by (simp add: pbuf_free_def same_structs_def freed_mem_def from_src_def)
next
  case False
  then show ?thesis using free_loop_effect [OF assms, of 0] by (simp add: pbuf_free_def)
qed

corollary pbuf_free_all:
  assumes "chain s p ds" and "\<forall>d \<in> set ds. p_ref s d = 1"
  shows "\<exists>s'. pbuf_free p s = Some (s', length ds mod 256) \<and> same_structs s' s \<and> freed_mem s ds s' \<and>
    p_ref s' = (\<lambda>q. if q \<in> set ds then 0 else p_ref s q)"
proof -
  obtain s' where s': "pbuf_free p s = Some (s', length ds mod 256)" "same_structs s' s" "freed_mem s ds s'"
    "p_ref s' = (\<lambda>q. if q \<in> set ds then 0 else if [] \<noteq> ([] :: nat list) \<and> q = hd [] then p_ref s q - 1 else p_ref s q)"
    using pbuf_free_effect [of s p ds "[]"] assms by auto
  have "p_ref s' = (\<lambda>q. if q \<in> set ds then 0 else p_ref s q)" by (simp add: s'(4) fun_eq_iff)
  then show ?thesis using s'(1-3) by blast
qed

section \<open>Allocation from the pool\<close>

text \<open>The lengths of the elements of a chain of \<open>n\<close> bytes, the first with room for the headers.\<close>

definition pool_room :: "nat \<Rightarrow> nat" where
  "pool_room offset = PBUF_POOL_BUFSIZE_ALIGNED - LWIP_MEM_ALIGN_SIZE offset"

fun pool_lens :: "nat \<Rightarrow> nat \<Rightarrow> nat list" where
  "pool_lens room n = (if n \<le> room \<or> room = 0 then [n] else room # pool_lens PBUF_POOL_BUFSIZE_ALIGNED (n - room))"

declare pool_lens.simps [simp del]

text \<open>Total lengths that still count \<open>r\<close> bytes to come.\<close>

fun tot_plus :: "pbufs \<Rightarrow> nat list \<Rightarrow> nat \<Rightarrow> bool" where
  "tot_plus s [] r \<longleftrightarrow> True"
| "tot_plus s (p # ps) r \<longleftrightarrow> tot_len s p = total s (p # ps) + r \<and> tot_plus s ps r"

lemma tot_plus_0: "tot_plus s ps 0 \<longleftrightarrow> tot_ok s ps"
  by (induction ps) auto

lemma tot_plus_snoc:
  "tot_plus s ps (p_len s q + r) \<Longrightarrow> tot_len s q = p_len s q + r \<Longrightarrow> tot_plus s (ps @ [q]) r"
  by (induction ps) auto

lemma tot_plus_cong:
  assumes "tot_plus s ps r" and "\<And>q. q \<in> set ps \<Longrightarrow> p_len s' q = p_len s q \<and> tot_len s' q = tot_len s q"
  shows "tot_plus s' ps r"
  using assms
proof (induction ps)
  case (Cons a ps)
  have "total s' (a # ps) = total s (a # ps)" by (rule total_cong) (use Cons.prems in blast)
  then show ?case using Cons by auto
qed simp

lemma align_size: "LWIP_MEM_ALIGN_SIZE n \<le> n + 3" "n \<le> LWIP_MEM_ALIGN_SIZE n"
  "m mod 4 = 0 \<Longrightarrow> LWIP_MEM_ALIGN_SIZE (m + n) = m + LWIP_MEM_ALIGN_SIZE n"
proof -
  have "LWIP_MEM_ALIGN_SIZE n = n + 3 - (n + 3) mod 4" "(n + 3) mod 4 < 4"
    by (simp_all add: LWIP_MEM_ALIGN_SIZE_def minus_mod_eq_div_mult)
  then show "LWIP_MEM_ALIGN_SIZE n \<le> n + 3" "n \<le> LWIP_MEM_ALIGN_SIZE n" by linarith+
  assume "m mod 4 = 0"
  then obtain k where "m = 4 * k" by (metis mod_0_imp_dvd dvdE)
  then show "LWIP_MEM_ALIGN_SIZE (m + n) = m + LWIP_MEM_ALIGN_SIZE n"
    by (simp add: LWIP_MEM_ALIGN_SIZE_def add.assoc)
qed

text \<open>An element taken from the pool: its one reference, its source, its payload inside it.\<close>

definition pool_elem :: "pbufs \<Rightarrow> nat \<Rightarrow> bool" where
  "pool_elem s q \<longleftrightarrow> p_ref s q = 1 \<and> pbuf_get_allocsrc s q = 0x02 \<and> q + 16 \<le> payload s q \<and>
     payload s q + p_len s q \<le> q + 16 + PBUF_POOL_BUFSIZE_ALIGNED"

definition elem_same :: "pbufs \<Rightarrow> pbufs \<Rightarrow> nat \<Rightarrow> bool" where
  "elem_same s' s q \<longleftrightarrow> payload s' q = payload s q \<and> tot_len s' q = tot_len s q \<and> p_len s' q = p_len s q \<and>
     type_internal s' q = type_internal s q \<and> p_ref s' q = p_ref s q"

lemma elem_same_pool: "elem_same s' s q \<Longrightarrow> pool_elem s' q = pool_elem s q"
  by (simp add: elem_same_def pool_elem_def pbuf_get_allocsrc_def)

text \<open>One round of the loop.\<close>

definition pool_round :: "nat list \<Rightarrow> nat \<Rightarrow> nat \<Rightarrow> nat \<Rightarrow> nat list \<Rightarrow> pbufs \<Rightarrow> pbufs" where
  "pool_round hs q rem offset ps s =
    (let s1 = pbuf_init_alloced_pbuf q (LWIP_MEM_ALIGN_SIZE (q + 16 + offset)) rem (min rem (pool_room offset)) PBUF_POOL 0
          (s\<lparr>pbuf_pool := ps\<rparr>)
     in if hs = [] then s1 else s1\<lparr>p_next := (p_next s1)(last hs := q)\<rparr>)"

lemma pool_round_inv:
  assumes ch: "if hs = [] then p = 0 else chain s p hs" and el: "\<forall>h \<in> set hs. pool_elem s h"
    and tp: "tot_plus s hs rem" and d: "distinct (hs @ q # ps)" and q: "q \<noteq> 0" "q mod 4 = 0" "offset \<le> 102"
  defines "s' \<equiv> pool_round hs q rem offset ps s" and "r' \<equiv> rem - min rem (pool_room offset)"
  shows "chain s' (hd (hs @ [q])) (hs @ [q])" and "\<forall>h \<in> set (hs @ [q]). pool_elem s' h"
    and "tot_plus s' (hs @ [q]) r'" and "p_len s' q = min rem (pool_room offset)"
    and "x \<noteq> q \<Longrightarrow> elem_same s' s x"
    and "bytes s' = bytes s" "pbuf_refs s' = pbuf_refs s" "heap s' = heap s" "pbuf_pool s' = ps"
proof -
  have qn: "q \<notin> set hs" using d by auto
  have pq: "elem_same s' s x" if "x \<noteq> q" for x
    using that by (simp add: s'_def pool_round_def Let_def pbuf_init_alloced_pbuf_def elem_same_def)
  then show "x \<noteq> q \<Longrightarrow> elem_same s' s x" .
  have f: "tot_len s' q = rem" "p_len s' q = min rem (pool_room offset)" "p_ref s' q = 1" "type_internal s' q = 0x82"
    "payload s' q = LWIP_MEM_ALIGN_SIZE (q + 16 + offset)"
    by (simp_all add: s'_def pool_round_def Let_def pbuf_init_alloced_pbuf_def)
  show "p_len s' q = min rem (pool_room offset)" by (rule f(2))
  show "bytes s' = bytes s" "pbuf_refs s' = pbuf_refs s" "heap s' = heap s" "pbuf_pool s' = ps"
    by (simp_all add: s'_def pool_round_def Let_def pbuf_init_alloced_pbuf_def)
  show "chain s' (hd (hs @ [q])) (hs @ [q])"
  proof (cases hs rule: rev_cases)
    case Nil
    then show ?thesis using q by (simp add: s'_def pool_round_def Let_def pbuf_init_alloced_pbuf_def)
  next
    case (snoc hs' l)
    have pl: "p = hd hs" using ch snoc by (cases hs') auto
    let ?s1 = "s\<lparr>p_next := (p_next s)(q := 0)\<rparr>"
    have c1: "chain ?s1 p (hs' @ [l])" by (rule chain_cong [of s]) (use ch snoc qn in auto)
    have c2: "chain ?s1 q [q]" using q by simp
    have "p_next s' = (p_next ?s1)(l := q)"
      using snoc by (simp add: s'_def pool_round_def Let_def pbuf_init_alloced_pbuf_def)
    then have "chain s' p (hs' @ [l] @ [q])"
      using chain_relink [OF c1 c2] qn snoc by auto
    then show ?thesis using snoc pl by (cases hs') simp_all
  qed
  have al: "LWIP_MEM_ALIGN_SIZE (q + 16 + offset) = q + 16 + LWIP_MEM_ALIGN_SIZE offset"
    using align_size(3) [of "q + 16" offset] q(2) by (simp add: mod_eq_0_iff_dvd)
  have "LWIP_MEM_ALIGN_SIZE offset \<le> 105" using align_size(1) [of offset] q(3) by simp
  then have "pool_elem s' q" using f al by (simp add: pool_elem_def pbuf_get_allocsrc_def pool_room_def)
  moreover have "pool_elem s' h" if h: "h \<in> set hs" for h
  proof -
    have "h \<noteq> q" using qn h by auto
    then show ?thesis using el h elem_same_pool [OF pq] by blast
  qed
  ultimately show "\<forall>h \<in> set (hs @ [q]). pool_elem s' h" by auto
  have "tot_plus s' hs rem"
  proof (rule tot_plus_cong [OF tp])
    fix x assume "x \<in> set hs"
    then have "x \<noteq> q" using qn by auto
    then show "p_len s' x = p_len s x \<and> tot_len s' x = tot_len s x" using pq by (simp add: elem_same_def)
  qed
  moreover have "rem = p_len s' q + r'" by (simp add: f(2) r'_def)
  ultimately show "tot_plus s' (hs @ [q]) r'" using f(1) tot_plus_snoc [of s' hs q r'] by simp
qed

lemma alloc_pool_loop_unfold:
  assumes "pbuf_pool s = q # ps" and "q \<noteq> 0" and "rem < 65536" and "offset \<le> 102"
    and "if hs = [] then p = 0 else chain s p hs \<and> prev = last hs"
  shows "alloc_pool_loop p prev rem offset s =
    (let r' = rem - min rem (pool_room offset); s' = pool_round hs q rem offset ps s; p' = hd (hs @ [q]) in
     if r' > 0 then alloc_pool_loop p' q r' 0 s' else Some (s', p'))"
proof -
  have "LWIP_MEM_ALIGN_SIZE offset \<le> 105" using align_size(1) [of offset] assms(4) by simp
  then have room: "to16 (PBUF_POOL_BUFSIZE_ALIGNED - LWIP_MEM_ALIGN_SIZE offset) = pool_room offset"
    by (simp add: to16_def pool_room_def)
  have r: "to16 (rem + 65536 - min rem (pool_room offset)) = rem - min rem (pool_room offset)"
  proof -
    have "rem + 65536 - min rem (pool_room offset) = (rem - min rem (pool_room offset)) + 65536" by simp
    then have "to16 (rem + 65536 - min rem (pool_room offset)) = (rem - min rem (pool_room offset)) mod 65536"
      unfolding to16_def by (simp only: mod_add_self2)
    then show ?thesis using assms(3) by simp
  qed
  have r2: "to16 (rem + 65536 - pool_room offset) = rem - pool_room offset" if "pool_room offset < rem"
    using r that by (simp add: min_def)
  have hd: "(if p = 0 then q else p) = hd (hs @ [q])" "p = 0 \<longleftrightarrow> hs = []"
    using assms(5) by (cases hs; simp)+
  show ?thesis
    using assms(1,2,5) hd unfolding pool_round_def
    by (subst alloc_pool_loop.simps) (auto simp: memp_malloc_pool_def Let_def room r r2)
qed

lemma pool_lens_small: "n \<le> room \<Longrightarrow> pool_lens room n = [n]"
  by (subst pool_lens.simps) simp

lemma pool_lens_large: "room < n \<Longrightarrow> 0 < room \<Longrightarrow> pool_lens room n = room # pool_lens PBUF_POOL_BUFSIZE_ALIGNED (n - room)"
  by (subst pool_lens.simps) simp

lemma pool_room_props: "pool_room 0 = PBUF_POOL_BUFSIZE_ALIGNED" "offset \<le> 102 \<Longrightarrow> 0 < pool_room offset"
proof -
  show "pool_room 0 = PBUF_POOL_BUFSIZE_ALIGNED" by (simp add: pool_room_def LWIP_MEM_ALIGN_SIZE_def)
  assume "offset \<le> 102"
  then show "0 < pool_room offset" using align_size(1) [of offset] by (simp add: pool_room_def)
qed

lemma pool_lens_nonempty: "pool_lens room n \<noteq> []"
  by (subst pool_lens.simps) simp

lemma pool_lens_sum: "sum_list (pool_lens room n) = n"
proof (induction room n rule: pool_lens.induct)
  case (1 room n)
  show ?case
  proof (cases "n \<le> room \<or> room = 0")
    case False
    then show ?thesis using 1 by (subst pool_lens.simps) simp
  qed (subst pool_lens.simps, simp)
qed

lemma alloc_pool_loop_effect:
  assumes "if hs = [] then p = 0 else chain s p hs \<and> prev = last hs" and "\<forall>h \<in> set hs. pool_elem s h"
    and "tot_plus s hs rem" and "distinct (hs @ ps)" and "\<forall>q \<in> set ps. q \<noteq> 0 \<and> q mod 4 = 0"
    and "pbuf_pool s = ps" and "rem < 65536" and "offset \<le> 102"
  shows "if length (pool_lens (pool_room offset) rem) \<le> length ps then
      \<exists>s' k. k = length (pool_lens (pool_room offset) rem) \<and>
        alloc_pool_loop p prev rem offset s = Some (s', hd (hs @ ps)) \<and>
        chain s' (hd (hs @ ps)) (hs @ take k ps) \<and> tot_ok s' (hs @ take k ps) \<and>
        (\<forall>h \<in> set (hs @ take k ps). pool_elem s' h) \<and> map (p_len s') (take k ps) = pool_lens (pool_room offset) rem \<and>
        (\<forall>x. x \<notin> set (take k ps) \<longrightarrow> elem_same s' s x) \<and> bytes s' = bytes s \<and> pbuf_refs s' = pbuf_refs s \<and>
        heap s' = heap s \<and> pbuf_pool s' = drop k ps
    else \<exists>s'. alloc_pool_loop p prev rem offset s = Some (s', 0) \<and> pbuf_pool s' = rev (hs @ ps) \<and>
        pbuf_refs s' = pbuf_refs s \<and> heap s' = heap s \<and> bytes s' = bytes s"
  using assms
proof (induction ps arbitrary: hs p prev rem offset s)
  case Nil
  have ne: "\<not> length (pool_lens (pool_room offset) rem) \<le> length ([] :: nat list)"
    using pool_lens_nonempty by simp
  let ?t = "s\<lparr>pbuf_pool := []\<rparr>"
  show ?case
  proof (cases "hs = []")
    case True
    have "alloc_pool_loop p prev rem offset s = Some (?t, 0)"
      using Nil.prems(1,6) True by (subst alloc_pool_loop.simps) (simp add: memp_malloc_pool_def)
    then show ?thesis using ne True by simp
  next
    case False
    have c: "chain s p (hs @ [])" "p \<noteq> 0" using Nil.prems(1) False by (cases hs; simp)+
    have "chain ?t p (hs @ [])" by (rule chain_cong [OF c(1)]) simp
    moreover have "\<forall>d \<in> set hs. p_ref ?t d = 1" using Nil.prems(2) by (simp add: pool_elem_def)
    ultimately obtain s' where s': "pbuf_free p ?t = Some (s', length hs mod 256)" "same_structs s' ?t" "freed_mem ?t hs s'"
      using pbuf_free_effect [of ?t p hs "[]"] by auto
    have src: "from_src 2 ?t hs = hs" "from_src 1 ?t hs = []" "from_src 0 ?t hs = []"
      using Nil.prems(2) unfolding from_src_def
      by (auto simp: pool_elem_def pbuf_get_allocsrc_def filter_id_conv filter_empty_conv)
    have "alloc_pool_loop p prev rem offset s = Some (s', 0)"
      using s'(1) c(2) Nil.prems(6) by (subst alloc_pool_loop.simps) (simp add: memp_malloc_pool_def)
    moreover have "pbuf_pool s' = rev hs" "pbuf_refs s' = pbuf_refs s" "heap s' = heap s" "bytes s' = bytes s"
      using s'(2,3) src Nil.prems(6) by (simp_all add: freed_mem_def same_structs_def)
    ultimately show ?thesis using ne by simp
  qed
next
  case (Cons q ps)
  have q: "q \<noteq> 0" "q mod 4 = 0" and d: "distinct (hs @ q # ps)" using Cons.prems(4,5) by auto
  have ch: "if hs = [] then p = 0 else chain s p hs" using Cons.prems(1) by (auto split: if_splits)
  define s1 where "s1 = pool_round hs q rem offset ps s"
  define r' where "r' = rem - min rem (pool_room offset)"
  note inv = pool_round_inv [OF ch Cons.prems(2,3) d q Cons.prems(8), folded s1_def r'_def]
  note un = alloc_pool_loop_unfold [OF Cons.prems(6) q(1) Cons.prems(7,8) Cons.prems(1), folded s1_def r'_def, unfolded Let_def]
  have room: "0 < pool_room offset" using Cons.prems(8) by (rule pool_room_props)
  have hd: "hd (hs @ q # ps) = hd (hs @ [q])" by (cases hs) simp_all
  show ?case
  proof (cases "rem \<le> pool_room offset")
    case True
    then have r0: "r' = 0" by (simp add: r'_def)
    have ls: "pool_lens (pool_room offset) rem = [rem]" using True by (rule pool_lens_small)
    have "alloc_pool_loop p prev rem offset s = Some (s1, hd (hs @ q # ps))" using un r0 hd by simp
    moreover have "map (p_len s1) [q] = [rem]" using inv(4) True by simp
    ultimately show ?thesis
      using inv(1-3,5-9) r0 ls hd by (auto simp: tot_plus_0)
  next
    case False
    have r': "0 < r'" "r' = rem - pool_room offset" using False by (simp_all add: r'_def)
    have ls: "pool_lens (pool_room offset) rem = pool_room offset # pool_lens PBUF_POOL_BUFSIZE_ALIGNED r'"
      using False room r' by (simp add: pool_lens_large)
    have step: "alloc_pool_loop p prev rem offset s = alloc_pool_loop (hd (hs @ [q])) q r' 0 s1"
      using un r'(1) by simp
    have IH: "if length (pool_lens (pool_room 0) r') \<le> length ps then
      \<exists>s' k. k = length (pool_lens (pool_room 0) r') \<and>
        alloc_pool_loop (hd (hs @ [q])) q r' 0 s1 = Some (s', hd ((hs @ [q]) @ ps)) \<and>
        chain s' (hd ((hs @ [q]) @ ps)) ((hs @ [q]) @ take k ps) \<and> tot_ok s' ((hs @ [q]) @ take k ps) \<and>
        (\<forall>h \<in> set ((hs @ [q]) @ take k ps). pool_elem s' h) \<and> map (p_len s') (take k ps) = pool_lens (pool_room 0) r' \<and>
        (\<forall>x. x \<notin> set (take k ps) \<longrightarrow> elem_same s' s1 x) \<and> bytes s' = bytes s1 \<and> pbuf_refs s' = pbuf_refs s1 \<and>
        heap s' = heap s1 \<and> pbuf_pool s' = drop k ps
    else \<exists>s'. alloc_pool_loop (hd (hs @ [q])) q r' 0 s1 = Some (s', 0) \<and> pbuf_pool s' = rev ((hs @ [q]) @ ps) \<and>
        pbuf_refs s' = pbuf_refs s1 \<and> heap s' = heap s1 \<and> bytes s' = bytes s1"
    proof (rule Cons.IH)
      show "r' < 65536" using Cons.prems(7) r' by simp
    qed (use inv d Cons.prems(5) in \<open>auto simp del: chain.simps\<close>)
    show ?thesis
    proof (cases "length (pool_lens PBUF_POOL_BUFSIZE_ALIGNED r') \<le> length ps")
      case True
      then obtain s' k where k: "k = length (pool_lens PBUF_POOL_BUFSIZE_ALIGNED r')"
        "alloc_pool_loop (hd (hs @ [q])) q r' 0 s1 = Some (s', hd ((hs @ [q]) @ ps))"
        "chain s' (hd ((hs @ [q]) @ ps)) ((hs @ [q]) @ take k ps)" "tot_ok s' ((hs @ [q]) @ take k ps)"
        "\<forall>h \<in> set ((hs @ [q]) @ take k ps). pool_elem s' h"
        "map (p_len s') (take k ps) = pool_lens PBUF_POOL_BUFSIZE_ALIGNED r'"
        "\<forall>x. x \<notin> set (take k ps) \<longrightarrow> elem_same s' s1 x" "bytes s' = bytes s1" "pbuf_refs s' = pbuf_refs s1"
        "heap s' = heap s1" "pbuf_pool s' = drop k ps"
        using IH by (auto simp: pool_room_props(1))
      have qk: "q \<notin> set (take k ps)" using d by (auto dest: in_set_takeD)
      have "p_len s' q = pool_room offset" using k(7) qk inv(4) False by (simp add: elem_same_def)
      moreover have "\<forall>x. x \<notin> set (q # take k ps) \<longrightarrow> elem_same s' s x"
        using k(7) inv(5) unfolding elem_same_def by auto
      ultimately show ?thesis
        using True step k inv(6-9) ls hd
        by (auto simp del: chain.simps tot_ok.simps intro!: exI [of _ s'])
    next
      case False
      then show ?thesis using IH step inv(6-9) ls by (auto simp: pool_room_props(1))
    qed
  qed
qed

section \<open>Truncation cuts the chain\<close>

lemma realloc_loop_effect:
  assumes "chain s p ps" and "tot_ok s ps" and "total s ps = n + shrink" and "0 < shrink" and "total s ps < 65536"
  shows "\<exists>as q bs. ps = as @ q # bs \<and> total s as \<le> n \<and> n - total s as \<le> p_len s q \<and>
    realloc_loop p n shrink s =
      Some (s\<lparr>tot_len := (\<lambda>x. if x \<in> set as then tot_len s x - shrink else tot_len s x)\<rparr>, q, n - total s as) \<and>
    (\<forall>x \<in> set as. shrink \<le> tot_len s x)"
  using assms
proof (induction ps arbitrary: p n s)
  case Nil
  then show ?case by simp
next
  case (Cons a ps)
  have p: "p = a" and c: "chain s (p_next s a) ps" and t: "tot_len s a = n + shrink" "tot_ok s ps"
    using Cons.prems by auto
  show ?case
  proof (cases "n > p_len s a")
    case True
    let ?s = "s\<lparr>tot_len := (tot_len s)(a := tot_len s a - shrink)\<rparr>"
    have d: "a \<notin> set ps" using chain_distinct [OF Cons.prems(1)] by simp
    have tot: "total ?s ps = total s ps" by (rule total_cong) simp
    have nt: "total s ps = (n - p_len s a) + shrink" using Cons.prems(3) True by simp
    have w: "to16 (n + 65536 - p_len s a) = n - p_len s a"
    proof -
      have "n + 65536 - p_len s a = (n - p_len s a) + 65536" using True by simp
      then have "to16 (n + 65536 - p_len s a) = (n - p_len s a) mod 65536" unfolding to16_def by (simp only: mod_add_self2)
      then show ?thesis using Cons.prems(3,5) by simp
    qed
    have w2: "to16 (tot_len s a + 65536 - shrink) = tot_len s a - shrink"
    proof -
      have "tot_len s a + 65536 - shrink = (tot_len s a - shrink) + 65536" using t(1) by simp
      then have "to16 (tot_len s a + 65536 - shrink) = (tot_len s a - shrink) mod 65536" unfolding to16_def by (simp only: mod_add_self2)
      then show ?thesis using t(1) Cons.prems(3,5) by simp
    qed
    have "chain ?s (p_next s a) ps" by (rule chain_cong [OF c]) simp
    moreover have "tot_ok ?s ps" by (rule tot_ok_cong [OF t(2)]) (use d in auto)
    ultimately obtain as q bs where IH: "ps = as @ q # bs" "total ?s as \<le> n - p_len s a"
      "n - p_len s a - total ?s as \<le> p_len ?s q"
      "realloc_loop (p_next s a) (n - p_len s a) shrink ?s =
        Some (?s\<lparr>tot_len := (\<lambda>x. if x \<in> set as then tot_len ?s x - shrink else tot_len ?s x)\<rparr>, q, n - p_len s a - total ?s as)"
      "\<forall>x \<in> set as. shrink \<le> tot_len ?s x"
      using Cons.IH [of ?s "p_next s a" "n - p_len s a"] Cons.prems(4,5) nt tot by auto
    have ts: "total ?s as = total s as" by (rule total_cong) simp
    have da: "a \<notin> set as" using d IH(1) by simp
    have "?s\<lparr>tot_len := (\<lambda>x. if x \<in> set as then tot_len ?s x - shrink else tot_len ?s x)\<rparr> =
        s\<lparr>tot_len := (\<lambda>x. if x \<in> set (a # as) then tot_len s x - shrink else tot_len s x)\<rparr>"
      using da by (auto simp: fun_eq_iff)
    then have run: "realloc_loop p n shrink s =
        Some (s\<lparr>tot_len := (\<lambda>x. if x \<in> set (a # as) then tot_len s x - shrink else tot_len s x)\<rparr>, q, n - total s (a # as))"
      using True p IH(4) ts w w2 by (subst realloc_loop.simps) simp
    have "shrink \<le> tot_len s x" if "x \<in> set as" for x
    proof -
      have "x \<noteq> a" using that da by auto
      then show ?thesis using IH(5) that by auto
    qed
    then have sh: "\<forall>x \<in> set (a # as). shrink \<le> tot_len s x" using t(1) by simp
    show ?thesis
      by (intro exI [of _ "a # as"] exI [of _ q] exI [of _ bs]) (use run IH ts sh True in auto)
  next
    case False
    then have "realloc_loop p n shrink s = Some (s, a, n)" using p by (subst realloc_loop.simps) simp
    then show ?thesis using False by (intro exI [of _ "[]"] exI [of _ a] exI [of _ ps]) simp
  qed
qed

lemma chain_cut: "chain s p (as @ q # bs) \<Longrightarrow> p_next s' = (p_next s)(q := 0) \<Longrightarrow> chain s' p (as @ [q])"
proof (induction as arbitrary: p)
  case (Cons a as)
  have "a \<noteq> q" using chain_distinct [OF Cons.prems(1)] by auto
  then show ?case using Cons by simp
qed simp

lemma chain_rest: "chain s p (as @ q # bs) \<Longrightarrow> chain s (p_next s q) bs"
  by (induction as arbitrary: p) auto

lemma tot_ok_cut:
  assumes "tot_ok s (as @ q # bs)" and "distinct (as @ [q])"
    and "\<And>x. x \<in> set as \<Longrightarrow> p_len s' x = p_len s x \<and> tot_len s' x + shrink = tot_len s x"
    and "tot_len s' q = p_len s' q" and "p_len s' q + shrink = p_len s q + total s bs"
  shows "tot_ok s' (as @ [q])"
  using assms
proof (induction as)
  case (Cons a as)
  have "total s' as = total s as" by (rule total_cong) (use Cons.prems(3) in auto)
  then show ?case using Cons by simp (metis add.assoc add.commute add_left_imp_eq)
qed simp

lemma pbuf_realloc_effect:
  assumes pk: "packet s p ps" and n: "n < total s ps" and one: "\<forall>x \<in> set ps. p_ref s x = 1"
  shows "\<exists>s' as q bs. pbuf_realloc p n s = Some s' \<and> ps = as @ q # bs \<and> packet s' p (as @ [q]) \<and>
    total s' (as @ [q]) = n \<and> (\<forall>x \<in> set as. p_len s' x = p_len s x) \<and> p_len s' q \<le> p_len s q \<and>
    payload s' = payload s \<and> bytes s' = bytes s \<and>
    pbuf_pool s' = rev (from_src 0x02 s bs) @ pbuf_pool s \<and> pbuf_refs s' = rev (from_src 0x01 s bs) @ pbuf_refs s \<and>
    (\<forall>x \<in> set (as @ [q]). p_ref s' x = 1) \<and> (\<forall>b \<in> set bs. p_ref s' b = 0)"
proof -
  have ch: "chain s p ps" and tk: "tot_ok s ps" and lt: "total s ps < 65536" using pk by (simp_all add: packet_def)
  define shrink where "shrink = total s ps - n"
  have sh: "total s ps = n + shrink" "0 < shrink" using n by (simp_all add: shrink_def)
  have tp: "tot_len s p = total s ps" using ch tk n by (cases ps) auto
  have w: "to16 (tot_len s p + 65536 - n) = shrink"
  proof -
    have "tot_len s p + 65536 - n = shrink + 65536" using tp sh by simp
    then have "to16 (tot_len s p + 65536 - n) = shrink mod 65536" unfolding to16_def by (simp only: mod_add_self2)
    then show ?thesis using lt sh by simp
  qed
  let ?t = "\<lambda>as. \<lambda>x. if x \<in> set as then tot_len s x - shrink else tot_len s x"
  obtain as q bs where loop: "ps = as @ q # bs" "total s as \<le> n" "n - total s as \<le> p_len s q"
    "realloc_loop p n shrink s = Some (s\<lparr>tot_len := ?t as\<rparr>, q, n - total s as)"
    "\<forall>x \<in> set as. shrink \<le> tot_len s x"
    using realloc_loop_effect [OF ch tk sh(1,2) lt] by blast
  have dist: "distinct (as @ q # bs)" using chain_distinct [OF ch] loop(1) by simp
  define r where "r = n - total s as"
  define h where "h = (if pbuf_get_allocsrc s q = 0 \<and> r \<noteq> p_len s q
    then fst (mem_trim q (to16 (sub32 (payload s q) q + r)) (heap s)) else heap s)"
  define s1 where "s1 = s\<lparr>tot_len := (?t as)(q := r), p_len := (p_len s)(q := r), heap := h\<rparr>"
  have src1: "pbuf_get_allocsrc s1 = pbuf_get_allocsrc s" by (simp add: s1_def pbuf_get_allocsrc_def fun_eq_iff)
  have run: "pbuf_realloc p n s = map_option (\<lambda>s. s\<lparr>p_next := (p_next s)(q := 0)\<rparr>)
      (if p_next s q \<noteq> 0 then map_option fst (pbuf_free (p_next s q) s1) else Some s1)"
  proof -
    have src: "pbuf_get_allocsrc (s\<lparr>tot_len := ?t as\<rparr>) = pbuf_get_allocsrc s"
      by (simp add: pbuf_get_allocsrc_def fun_eq_iff)
    show ?thesis
    proof (cases "pbuf_get_allocsrc s q = 0 \<and> r \<noteq> p_len s q")
      case True
      define h' where "h' = fst (mem_trim q (to16 (sub32 (payload s q) q + r)) (heap s))"
      have "s1 = s\<lparr>heap := h', p_len := (p_len s)(q := r), tot_len := (?t as)(q := r)\<rparr>"
        using True by (simp add: s1_def h_def h'_def)
      then show ?thesis using True n tp loop(4) w src
        by (simp add: pbuf_realloc_def r_def [symmetric] Let_def h'_def)
    next
      case False
      then have s1: "s1 = s\<lparr>p_len := (p_len s)(q := r), tot_len := (?t as)(q := r)\<rparr>"
        by (auto simp: s1_def h_def)
      consider (a) "pbuf_get_allocsrc s q \<noteq> 0" | (b) "p_len s q = r" using False by blast
      then show ?thesis
        by cases (use s1 n tp loop(4) w src in \<open>simp_all add: pbuf_realloc_def r_def [symmetric] Let_def\<close>)
    qed
  qed
  have cb: "chain s (p_next s q) bs" using chain_rest [of s p as q bs] ch loop(1) by simp
  have "chain s1 (p_next s q) bs" using chain_cong [OF cb, of s1] by (simp add: s1_def)
  moreover have "\<forall>b \<in> set bs. p_ref s1 b = 1" using one loop(1) by (simp add: s1_def)
  ultimately obtain s2 where s2: "pbuf_free (p_next s q) s1 = Some (s2, length bs mod 256)" "same_structs s2 s1"
    "freed_mem s1 bs s2" "p_ref s2 = (\<lambda>x. if x \<in> set bs then 0 else p_ref s1 x)"
    using pbuf_free_all by blast
  have "\<exists>s3. (if p_next s q \<noteq> 0 then map_option fst (pbuf_free (p_next s q) s1) else Some s1) = Some s3 \<and>
    same_structs s3 s1 \<and> freed_mem s1 bs s3 \<and> p_ref s3 = (\<lambda>x. if x \<in> set bs then 0 else p_ref s1 x)"
  proof (cases "p_next s q = 0")
    case True
    then have "bs = []" using cb by (cases bs) auto
    then show ?thesis using True by (simp add: same_structs_def freed_mem_def from_src_def)
  qed (use s2 in simp)
  then obtain s3 where s3: "pbuf_realloc p n s = Some (s3\<lparr>p_next := (p_next s3)(q := 0)\<rparr>)"
    "same_structs s3 s1" "freed_mem s1 bs s3" "p_ref s3 = (\<lambda>x. if x \<in> set bs then 0 else p_ref s1 x)"
    using run by auto
  define s4 where "s4 = s3\<lparr>p_next := (p_next s3)(q := 0)\<rparr>"
  have f: "p_next s4 = (p_next s)(q := 0)" "p_len s4 = (p_len s)(q := r)" "tot_len s4 = (?t as)(q := r)"
    "payload s4 = payload s" "bytes s4 = bytes s" "p_ref s4 = (\<lambda>x. if x \<in> set bs then 0 else p_ref s x)"
    "pbuf_pool s4 = rev (from_src 2 s bs) @ pbuf_pool s" "pbuf_refs s4 = rev (from_src 1 s bs) @ pbuf_refs s"
    using s3(2-4) src1 by (auto simp: s4_def same_structs_def s1_def freed_mem_def from_src_def)
  have "chain s4 p (as @ [q])" by (rule chain_cut [of s p as q bs]) (use ch loop(1) f(1) in auto)
  moreover have "tot_ok s4 (as @ [q])"
  proof (rule tot_ok_cut [of s as q bs])
    show "tot_ok s (as @ q # bs)" using tk loop(1) by simp
    show "p_len s4 x = p_len s x \<and> tot_len s4 x + shrink = tot_len s x" if "x \<in> set as" for x
      using that loop(5) dist f(2,3) by auto
    show "p_len s4 q + shrink = p_len s q + total s bs"
      using sh(1) loop(1,2) f(2) by (simp add: r_def)
  qed (use dist f(2,3) in simp_all)
  moreover have tot: "total s4 (as @ [q]) = n"
  proof -
    have "total s4 as = total s as" by (rule total_cong) (use dist f(2) in auto)
    then show ?thesis using loop(2) f(2) by (simp add: r_def)
  qed
  moreover have "n < 65536" using n lt by simp
  ultimately have "packet s4 p (as @ [q])" by (simp add: packet_def)
  moreover have "\<forall>x \<in> set as. p_len s4 x = p_len s x" using dist f(2) by auto
  moreover have "p_len s4 q \<le> p_len s q" using loop(3) f(2) by (simp add: r_def)
  moreover have "\<forall>x \<in> set (as @ [q]). p_ref s4 x = 1" using one loop(1) dist f(6) by auto
  moreover have "\<forall>b \<in> set bs. p_ref s4 b = 0" using f(6) by simp
  ultimately show ?thesis using s3(1) loop(1) f(4,5,7,8) tot unfolding s4_def [symmetric] by blast
qed

section \<open>Headers\<close>

text \<open>A structure whose payload lies behind it, with lengths that fit 16 bits.\<close>

definition header_ok :: "pbufs \<Rightarrow> nat \<Rightarrow> bool" where
  "header_ok s p \<longleftrightarrow> 0xFFFF \<le> p \<and> p + SIZEOF_STRUCT_PBUF \<le> payload s p \<and> payload s p < 2 ^ 32 \<and>
     p_len s p \<le> tot_len s p \<and> tot_len s p < 65536"

lemma to16_overflow: "a < 65536 \<Longrightarrow> b < 65536 \<Longrightarrow> to16 (a + b) < a \<longleftrightarrow> 65536 \<le> a + b"
  by (auto simp: to16_def mod_if)

lemma sub32_le: "b \<le> a \<Longrightarrow> a < 2 ^ 32 \<Longrightarrow> sub32 a b = a - b"
proof -
  assume "b \<le> a" "a < 2 ^ 32"
  then have "a + 2 ^ 32 - b = (a - b) + 2 ^ 32" "a - b < 2 ^ 32" by simp_all
  then show ?thesis unfolding sub32_def by (simp only: mod_add_self2 mod_less)
qed

definition header_fits :: "pbufs \<Rightarrow> nat \<Rightarrow> nat \<Rightarrow> bool \<Rightarrow> bool" where
  "header_fits s p n force \<longleftrightarrow> tot_len s p + n < 65536 \<and>
     (if type_internal s p AND 0x80 \<noteq> 0 then p + SIZEOF_STRUCT_PBUF + n \<le> payload s p else force)"

lemma pbuf_add_header_impl_effect:
  assumes ok: "header_ok s p" and n: "0 < n" "n \<le> 0xFFFF"
  shows "pbuf_add_header_impl p n force s =
    (if header_fits s p n force
     then (s\<lparr>payload := (payload s)(p := payload s p - n), p_len := (p_len s)(p := p_len s p + n),
             tot_len := (tot_len s)(p := tot_len s p + n)\<rparr>, 0)
     else (s, 1))"
proof -
  have m: "to16 n = n" using n by (simp add: to16_def)
  have ov: "to16 (n + tot_len s p) < n \<longleftrightarrow> 65536 \<le> n + tot_len s p"
    using ok n by (intro to16_overflow) (simp_all add: header_ok_def)
  have sb: "sub32 (payload s p) n = payload s p - n" using ok n by (intro sub32_le) (simp_all add: header_ok_def)
  have ad: "add32 p SIZEOF_STRUCT_PBUF = p + SIZEOF_STRUCT_PBUF" using ok by (simp add: add32_def header_ok_def)
  have le: "n + (p + 16) \<le> payload s p \<longleftrightarrow> \<not> payload s p - n < p + 16" using ok n by (auto simp: header_ok_def)
  have w: "tot_len s p + n < 65536 \<Longrightarrow> to16 (p_len s p + n) = p_len s p + n \<and> to16 (tot_len s p + n) = tot_len s p + n"
    using ok by (simp add: to16_def header_ok_def)
  show ?thesis
  proof (cases "tot_len s p + n < 65536")
    case True
    then show ?thesis using ok n m ov sb ad w le
      by (auto simp: pbuf_add_header_impl_def header_fits_def header_ok_def Let_def add.commute add.left_commute)
  next
    case False
    then show ?thesis using n m ov ok
      by (simp add: pbuf_add_header_impl_def header_fits_def header_ok_def Let_def add.commute)
  qed
qed

lemma remove_after_add:
  assumes ok: "header_ok s p" and n: "0 < n" "n \<le> 0xFFFF" and fits: "tot_len s p + n < 65536" "n \<le> payload s p"
  shows "pbuf_remove_header p n (s\<lparr>payload := (payload s)(p := payload s p - n), p_len := (p_len s)(p := p_len s p + n),
    tot_len := (tot_len s)(p := tot_len s p + n)\<rparr>) = (s, 0)"
proof -
  have m: "to16 n = n" using n by (simp add: to16_def)
  have w: "to16 (x + n + 65536 - n) = x" if "x < 65536" for x
  proof -
    have "x + n + 65536 - n = x + 65536" by simp
    then show ?thesis using that unfolding to16_def by (simp only: mod_add_self2 mod_less)
  qed
  have a: "add32 (payload s p - n) n = payload s p" using ok fits by (simp add: add32_def header_ok_def)
  have "p_len s p < 65536" "tot_len s p < 65536" using ok by (simp_all add: header_ok_def)
  then show ?thesis using ok n m a w [of "p_len s p"] w [of "tot_len s p"]
    by (simp add: pbuf_remove_header_def header_ok_def)
qed

lemma header_fits_room: "header_ok s p \<Longrightarrow> header_fits s p n False \<Longrightarrow> n \<le> payload s p"
  by (auto simp: header_fits_def split: if_splits)

section \<open>Properties\<close>

text \<open>A store with empty structures and the given elements in the pool.\<close>

definition pbufs_reset :: "nat list \<Rightarrow> pbufs" where
  "pbufs_reset ps = \<lparr>p_next = \<lambda>_. 0, payload = \<lambda>_. 0, tot_len = \<lambda>_. 0, p_len = \<lambda>_. 0, type_internal = \<lambda>_. 0,
     p_flags = \<lambda>_. 0, p_ref = \<lambda>_. 0, p_if_idx = \<lambda>_. 0, bytes = \<lambda>_. 0, pbuf_pool = ps, pbuf_refs = [],
     heap = mem_init \<lparr>ram = 0, nextf = \<lambda>_. 0, prevf = \<lambda>_. 0, used = \<lambda>_. False, user_size = \<lambda>_. 0, lfree = 0\<rparr>\<rparr>"

lemma pbufs_reset_pool [simp]: "pbuf_pool (pbufs_reset ps) = ps"
  by (simp add: pbufs_reset_def)

text \<open>
  \<^verbatim>\<open>pbuf_add_header\<close> and \<^verbatim>\<open>pbuf_remove_header\<close>. A header is added exactly when the payload shares the
  memory of its structure, the bytes in front of the payload have room for it and the lengths still fit in
  16 bits; otherwise the store is untouched and 1 is returned. A header that was added is removed
  again without a trace.
\<close>
theorem pbuf_header_roundtrip:
  assumes ok: "header_ok s p" and n: "0 < n" "n \<le> 0xFFFF"
  shows "if type_internal s p AND 0x80 \<noteq> 0 \<and> p + SIZEOF_STRUCT_PBUF + n \<le> payload s p \<and> tot_len s p + n < 65536
    then snd (pbuf_add_header p n s) = 0 \<and> p_len (fst (pbuf_add_header p n s)) p = p_len s p + n \<and>
      pbuf_remove_header p n (fst (pbuf_add_header p n s)) = (s, 0)
    else pbuf_add_header p n s = (s, 1)"
proof -
  have "pbuf_remove_header p n (fst (pbuf_add_header p n s)) = (s, 0)" if "header_fits s p n False"
    using remove_after_add [OF ok n] header_fits_room [OF ok that] that
    by (simp add: pbuf_add_header_def pbuf_add_header_impl_effect [OF ok n]) (simp add: header_fits_def)
  then show ?thesis
    by (auto simp: pbuf_add_header_def pbuf_add_header_impl_effect [OF ok n] header_fits_def)
qed

theorem pbuf_header_roundtrip_witness:
  "\<exists>s. header_ok s 0x20001000 \<and> snd (pbuf_add_header 0x20001000 14 s) = 0 \<and>
     pbuf_remove_header 0x20001000 14 (fst (pbuf_add_header 0x20001000 14 s)) = (s, 0)"
proof -
  define s where "s = pbuf_init_alloced_pbuf 0x20001000 0x2000102C 60 60 PBUF_RAM 0 (pbufs_reset [])"
  have f: "header_ok s 0x20001000" "payload s 0x20001000 = 0x2000102C" "tot_len s 0x20001000 = 60" "type_internal s 0x20001000 = 0x80"
    by (simp_all add: s_def header_ok_def pbuf_init_alloced_pbuf_def)
  then show ?thesis using pbuf_header_roundtrip [of s "0x20001000" 14] by auto
qed

text \<open>
  \<^verbatim>\<open>pbuf_alloc\<close> of \<^verbatim>\<open>PBUF_POOL\<close>. When the pool has elements enough, the result is a packet of exactly
  the length asked for: a chain of the first elements of the pool, each with one reference and its
  payload inside it, the total lengths the sums of the lengths from there on, and the
  pool holds the others. When it has too few, NULL is returned and every element is back in the pool. The heap and
  the bytes are as they were, and the loop ends.
\<close>
theorem pbuf_alloc_pool_packet:
  assumes ps: "pbuf_pool s = ps" "distinct ps" "\<forall>q \<in> set ps. q \<noteq> 0 \<and> q mod 4 = 0" and n: "n < 65536"
    and k: "k = length (pool_lens (pool_room (layer_offset layer)) n)"
  shows "\<exists>s' p. pbuf_alloc layer n PBUF_POOL s = Some (s', p) \<and> heap s' = heap s \<and> bytes s' = bytes s \<and>
    (if k \<le> length ps
     then packet s' p (take k ps) \<and> total s' (take k ps) = n \<and> (\<forall>q \<in> set (take k ps). pool_elem s' q) \<and>
       pbuf_pool s' = drop k ps
     else p = 0 \<and> pbuf_pool s' = rev ps)"
proof -
  have lay: "layer_offset layer \<le> 102" by (cases layer) simp_all
  have ps': "\<forall>q \<in> set ps. 0 < q \<and> q mod 4 = 0" using ps(3) by simp
  note run = alloc_pool_loop_effect [of "[]" 0 s 0 n ps "layer_offset layer", simplified, OF ps(2) ps' ps(1) n lay]
  show ?thesis
  proof (cases "k \<le> length ps")
    case True
    then obtain s' where s': "alloc_pool_loop 0 0 n (layer_offset layer) s = Some (s', hd ps)"
      "chain s' (hd ps) (take k ps)" "tot_ok s' (take k ps)" "\<forall>h \<in> set (take k ps). pool_elem s' h"
      "map (p_len s') (take k ps) = pool_lens (pool_room (layer_offset layer)) n"
      "bytes s' = bytes s" "heap s' = heap s" "pbuf_pool s' = drop k ps"
      using run k by auto
    have "total s' (take k ps) = n"
      using pool_lens_sum s'(5) lay by (simp add: total_def)
    then show ?thesis using True s' n by (simp add: pbuf_alloc_def packet_def)
  next
    case False
    then show ?thesis using run k by (auto simp: pbuf_alloc_def)
  qed
qed

theorem pbuf_alloc_pool_packet_witness:
  "(\<exists>s p. pbuf_alloc PBUF_RAW 2000 PBUF_POOL (pbufs_reset [4096, 8192, 12288]) = Some (s, p) \<and> packet s p [4096, 8192] \<and>
      total s [4096, 8192] = 2000 \<and> pbuf_pool s = [12288]) \<and>
   (\<exists>s. pbuf_alloc PBUF_RAW 2000 PBUF_POOL (pbufs_reset [4096]) = Some (s, 0) \<and> pbuf_pool s = [4096])"
proof -
  have l: "pool_lens (pool_room 0) 2000 = [1544, 456]"
    by (simp add: pool_lens.simps pool_room_props(1))
  show ?thesis
    using pbuf_alloc_pool_packet [of "pbufs_reset [4096, 8192, 12288]" "[4096, 8192, 12288]" 2000 _ PBUF_RAW]
      pbuf_alloc_pool_packet [of "pbufs_reset [4096]" "[4096]" 2000 _ PBUF_RAW]
    by (auto simp: l numeral_2_eq_2)
qed

text \<open>
  C32: \<^verbatim>\<open>pbuf_free\<close>. The structures at the head of the chain that have no other reference are given back, each to
  the memory it came from, up to the first one that is still referenced: that one loses a reference and
  stays, with all that follow. The number of structures given back is returned (in 8 bits), no length or link
  changes, and the loop ends.
\<close>
theorem pbuf_free_drops_head:
  assumes "chain s p (ds @ qs)" and "\<forall>d \<in> set ds. p_ref s d = 1"
    and "qs \<noteq> [] \<Longrightarrow> 1 < p_ref s (hd qs) \<and> p_ref s (hd qs) < 256"
  shows "\<exists>s'. pbuf_free p s = Some (s', length ds mod 256) \<and> same_structs s' s \<and>
    pbuf_pool s' = rev (from_src 0x02 s ds) @ pbuf_pool s \<and> pbuf_refs s' = rev (from_src 0x01 s ds) @ pbuf_refs s \<and>
    heap s' = foldl (\<lambda>h p. mem_free p h) (heap s) (from_src 0x00 s ds) \<and>
    p_ref s' = (\<lambda>q. if q \<in> set ds then 0 else if qs \<noteq> [] \<and> q = hd qs then p_ref s q - 1 else p_ref s q)"
  using pbuf_free_effect [OF assms] by (auto simp: freed_mem_def)

text \<open>Two structures of the pool in a chain, the second with one more reference.\<close>

definition two_chained :: pbufs where
  "two_chained = (pbufs_reset [])\<lparr>p_next := (\<lambda>_. 0)(4096 := 8192), p_ref := (\<lambda>_. 0)(4096 := 1, 8192 := 2),
     type_internal := (\<lambda>_. 0x82), p_len := (\<lambda>_. 0)(4096 := 1000, 8192 := 500), tot_len := (\<lambda>_. 0)(4096 := 1500, 8192 := 500)\<rparr>"

theorem pbuf_free_drops_head_witness:
  "\<exists>s'. pbuf_free 4096 two_chained = Some (s', 1) \<and> pbuf_pool s' = [4096] \<and> p_ref s' 8192 = 1 \<and> p_ref s' 4096 = 0"
  using pbuf_free_drops_head [of two_chained 4096 "[4096]" "[8192]"]
  by (auto simp: two_chained_def from_src_def pbuf_get_allocsrc_def pbufs_reset_def)

text \<open>
  \<^verbatim>\<open>pbuf_cat\<close>. Two packets with no structure in common, of less than 65536 bytes together, become one packet:
  the chain of the first followed by that of the second, the total lengths right again on every
  structure. No payload, byte or reference changes.
\<close>
theorem pbuf_cat_joins:
  assumes "packet s h hs" "hs \<noteq> []" and "packet s t ts" "ts \<noteq> []"
    and "set hs \<inter> set ts = {}" and "total s hs + total s ts < 65536"
  shows "\<exists>s'. pbuf_cat h t s = Some s' \<and> packet s' h (hs @ ts) \<and> p_len s' = p_len s \<and> payload s' = payload s \<and>
    bytes s' = bytes s \<and> p_ref s' = p_ref s"
  using pbuf_cat_packet [OF assms] by blast

theorem pbuf_cat_joins_witness:
  "\<exists>s. pbuf_cat 4096 16384 (two_chained\<lparr>p_len := (p_len two_chained)(16384 := 7), tot_len := (tot_len two_chained)(16384 := 7)\<rparr>)
     = Some s \<and> packet s 4096 [4096, 8192, 16384]"
  using pbuf_cat_joins [of "two_chained\<lparr>p_len := (p_len two_chained)(16384 := 7), tot_len := (tot_len two_chained)(16384 := 7)\<rparr>"
    4096 "[4096, 8192]" 16384 "[16384]"]
  by (auto simp: two_chained_def packet_def pbufs_reset_def)

text \<open>
  \<^verbatim>\<open>pbuf_realloc\<close> to a smaller length, when nothing else references the packet. The result is a packet of exactly that
  length: the structures it needs, the last one cut, the others with their lengths as before; the rest
  of the chain is given back to the pools and has no references left.
\<close>
theorem pbuf_realloc_truncates:
  assumes "packet s p ps" and "n < total s ps" and "\<forall>x \<in> set ps. p_ref s x = 1"
  shows "\<exists>s' as q bs. pbuf_realloc p n s = Some s' \<and> ps = as @ q # bs \<and> packet s' p (as @ [q]) \<and>
    total s' (as @ [q]) = n \<and> (\<forall>x \<in> set as. p_len s' x = p_len s x) \<and> p_len s' q \<le> p_len s q \<and>
    payload s' = payload s \<and> bytes s' = bytes s \<and>
    pbuf_pool s' = rev (from_src 0x02 s bs) @ pbuf_pool s \<and> pbuf_refs s' = rev (from_src 0x01 s bs) @ pbuf_refs s \<and>
    (\<forall>x \<in> set (as @ [q]). p_ref s' x = 1) \<and> (\<forall>b \<in> set bs. p_ref s' b = 0)"
  by (rule pbuf_realloc_effect [OF assms])

theorem pbuf_realloc_truncates_witness:
  "\<exists>s. packet s 4096 [4096, 8192] \<and> (\<exists>s' as. pbuf_realloc 4096 600 s = Some s' \<and> packet s' 4096 as \<and> total s' as = 600)"
proof -
  let ?s = "two_chained\<lparr>p_ref := \<lambda>_. 1\<rparr>"
  have "packet ?s 4096 [4096, 8192]" "total ?s [4096, 8192] = 1500"
    by (simp_all add: two_chained_def packet_def pbufs_reset_def)
  then show ?thesis using pbuf_realloc_truncates [of ?s 4096 "[4096, 8192]" 600] by fastforce
qed

end
