(* ===== verification/Lwip_Pbuf_Data.thy ===== *)
theory Lwip_Pbuf_Data
  imports Lwip_Pbuf
begin

text \<open>
  The bytes of packet buffers (\<^verbatim>\<open>middlewares/lwip/src/core/pbuf.c\<close>): copying out of, into and between chains,
  single bytes, comparison and search. The buffers of the callers are addresses of the same memory as the
  payloads. \<open>None\<close> is a loop that does not end; a null pointer that the code would read through is
  the structure at address zero.
\<close>

section \<open>Memory\<close>

definition read :: "(nat \<Rightarrow> u8) \<Rightarrow> nat \<Rightarrow> nat \<Rightarrow> u8 list" where
  "read m a n = map m [a..<a + n]"

definition store :: "nat \<Rightarrow> u8 list \<Rightarrow> (nat \<Rightarrow> u8) \<Rightarrow> nat \<Rightarrow> u8" where
  "store a bs m = (\<lambda>x. if a \<le> x \<and> x < a + length bs then bs ! (x - a) else m x)"

definition memcpy :: "nat \<Rightarrow> nat \<Rightarrow> nat \<Rightarrow> pbufs \<Rightarrow> pbufs" where
  "memcpy d a n s = s\<lparr>bytes := store d (read (bytes s) a n) (bytes s)\<rparr>"

abbreviation ERR_OK :: int where "ERR_OK \<equiv> 0"
abbreviation ERR_MEM :: int where "ERR_MEM \<equiv> - 1"
abbreviation ERR_VAL :: int where "ERR_VAL \<equiv> - 6"
abbreviation ERR_ARG :: int where "ERR_ARG \<equiv> - 16"

section \<open>Positions\<close>

partial_function (option) skip_loop :: "pbufs \<Rightarrow> nat \<Rightarrow> nat \<Rightarrow> (nat \<times> nat) option" where
  "skip_loop s q offset_left =
    (if q \<noteq> 0 \<and> p_len s q \<le> offset_left
     then skip_loop s (p_next s q) (to16 (offset_left + 65536 - p_len s q))
     else Some (q, offset_left))"

definition pbuf_skip_const :: "nat \<Rightarrow> nat \<Rightarrow> pbufs \<Rightarrow> (nat \<times> nat) option" where
  "pbuf_skip_const inp in_offset s = skip_loop s inp in_offset"

definition pbuf_skip :: "nat \<Rightarrow> nat \<Rightarrow> pbufs \<Rightarrow> (nat \<times> nat) option" where
  "pbuf_skip inp in_offset s = pbuf_skip_const inp in_offset s"

definition pbuf_try_get_at :: "nat \<Rightarrow> nat \<Rightarrow> pbufs \<Rightarrow> int option" where
  "pbuf_try_get_at p offset s =
    (case pbuf_skip_const p offset s of
       None \<Rightarrow> None
     | Some (q, q_idx) \<Rightarrow> Some (if q \<noteq> 0 \<and> p_len s q > q_idx then uint (bytes s (payload s q + q_idx)) else - 1))"

definition pbuf_get_at :: "nat \<Rightarrow> nat \<Rightarrow> pbufs \<Rightarrow> u8 option" where
  "pbuf_get_at p offset s = map_option (\<lambda>ret. if ret \<ge> 0 then word_of_int ret else 0) (pbuf_try_get_at p offset s)"

definition pbuf_put_at :: "nat \<Rightarrow> nat \<Rightarrow> u8 \<Rightarrow> pbufs \<Rightarrow> pbufs option" where
  "pbuf_put_at p offset v s =
    (case pbuf_skip p offset s of
       None \<Rightarrow> None
     | Some (q, q_idx) \<Rightarrow>
         Some (if q \<noteq> 0 \<and> p_len s q > q_idx then s\<lparr>bytes := (bytes s)(payload s q + q_idx := v)\<rparr> else s))"

section \<open>Copying\<close>

partial_function (option) copy_partial_loop ::
  "nat \<Rightarrow> nat \<Rightarrow> nat \<Rightarrow> nat \<Rightarrow> nat \<Rightarrow> nat \<Rightarrow> pbufs \<Rightarrow> (pbufs \<times> nat) option" where
  "copy_partial_loop dataptr p len offset left copied_total s =
    (if len \<noteq> 0 \<and> p \<noteq> 0 then
       (if offset \<noteq> 0 \<and> offset \<ge> p_len s p then
          copy_partial_loop dataptr (p_next s p) len (to16 (offset + 65536 - p_len s p)) left copied_total s
        else
          (let n = to16 (p_len s p + 65536 - offset);
               n = (if n > len then len else n);
               s = memcpy (dataptr + left) (payload s p + offset) n s
           in copy_partial_loop dataptr (p_next s p) (to16 (len + 65536 - n)) 0 (to16 (left + n)) (to16 (copied_total + n)) s))
     else Some (s, copied_total))"

definition pbuf_copy_partial :: "nat \<Rightarrow> nat \<Rightarrow> nat \<Rightarrow> nat \<Rightarrow> pbufs \<Rightarrow> (pbufs \<times> nat) option" where
  "pbuf_copy_partial buf dataptr len offset s =
    (if buf = 0 then Some (s, 0) else if dataptr = 0 then Some (s, 0)
     else copy_partial_loop dataptr buf len offset 0 0 s)"

text \<open>The address of the bytes, zero for NULL.\<close>

definition pbuf_get_contiguous :: "nat \<Rightarrow> nat \<Rightarrow> nat \<Rightarrow> nat \<Rightarrow> nat \<Rightarrow> pbufs \<Rightarrow> (pbufs \<times> nat) option" where
  "pbuf_get_contiguous p buffer bufsize len offset s =
    (if p = 0 then Some (s, 0) else if \<not> (buffer = 0 \<or> bufsize \<ge> len) then Some (s, 0)
     else
       (case pbuf_skip_const p offset s of
          None \<Rightarrow> None
        | Some (q, out_offset) \<Rightarrow>
            (if q \<noteq> 0 then
               (if p_len s q \<ge> out_offset + len then Some (s, payload s q + out_offset)
                else if buffer = 0 then Some (s, 0)
                else map_option (\<lambda>(s, n). (s, if n \<noteq> len then 0 else buffer))
                       (pbuf_copy_partial q buffer len out_offset s))
             else Some (s, 0))))"

partial_function (option) take_loop :: "nat \<Rightarrow> nat \<Rightarrow> nat \<Rightarrow> nat \<Rightarrow> pbufs \<Rightarrow> pbufs option" where
  "take_loop dataptr p total_copy_len copied_total s =
    (if total_copy_len \<noteq> 0 then
       (let n = (if total_copy_len > p_len s p then p_len s p else total_copy_len);
            s = memcpy (payload s p) (dataptr + copied_total) n s
        in take_loop dataptr (p_next s p) (total_copy_len - n) (copied_total + n) s)
     else Some s)"

definition pbuf_take :: "nat \<Rightarrow> nat \<Rightarrow> nat \<Rightarrow> pbufs \<Rightarrow> (pbufs \<times> int) option" where
  "pbuf_take buf dataptr len s =
    (if buf = 0 then Some (s, ERR_ARG) else if dataptr = 0 then Some (s, ERR_ARG)
     else if \<not> tot_len s buf \<ge> len then Some (s, ERR_MEM)
     else map_option (\<lambda>s. (s, ERR_OK)) (take_loop dataptr buf len 0 s))"

definition pbuf_take_at :: "nat \<Rightarrow> nat \<Rightarrow> nat \<Rightarrow> nat \<Rightarrow> pbufs \<Rightarrow> (pbufs \<times> int) option" where
  "pbuf_take_at buf dataptr len offset s =
    (case pbuf_skip buf offset s of
       None \<Rightarrow> None
     | Some (q, target_offset) \<Rightarrow>
         (if q \<noteq> 0 \<and> tot_len s q \<ge> target_offset + len then
            (let first_copy_len = min (p_len s q - target_offset) len;
                 s = memcpy (payload s q + target_offset) dataptr first_copy_len s;
                 remaining_len = to16 (len + 65536 - first_copy_len)
             in if remaining_len > 0 then pbuf_take (p_next s q) (dataptr + first_copy_len) remaining_len s
                else Some (s, ERR_OK))
          else Some (s, ERR_MEM)))"

text \<open>The loop of the copy between chains, with its early returns; the differences of offsets wrap.\<close>

partial_function (option) copy_pbuf_loop ::
  "nat \<Rightarrow> nat \<Rightarrow> nat \<Rightarrow> nat \<Rightarrow> nat \<Rightarrow> pbufs \<Rightarrow> (pbufs \<times> int) option" where
  "copy_pbuf_loop p_to p_from copy_len offset_to offset_from s =
    (let room = sub32 (p_len s p_to) offset_to; avail = sub32 (p_len s p_from) offset_from;
         len = min copy_len (if room \<ge> avail then avail else room);
         s = memcpy (payload s p_to + offset_to) (payload s p_from + offset_from) len s;
         offset_to = offset_to + len; offset_from = offset_from + len;
         copy_len = to16 (copy_len + 65536 - len);
         from_done = offset_from \<ge> p_len s p_from;
         p_from = (if from_done then p_next s p_from else p_from);
         offset_from = (if from_done then 0 else offset_from)
     in if from_done \<and> \<not> (p_from \<noteq> 0 \<or> copy_len = 0) then Some (s, ERR_ARG)
        else
          (let to_done = offset_to = p_len s p_to;
               p_to = (if to_done then p_next s p_to else p_to);
               offset_to = (if to_done then 0 else offset_to)
           in if to_done \<and> \<not> (p_to \<noteq> 0 \<or> copy_len = 0) then Some (s, ERR_ARG)
              else if p_from \<noteq> 0 \<and> p_len s p_from = tot_len s p_from \<and> p_next s p_from \<noteq> 0 then Some (s, ERR_VAL)
              else if p_to \<noteq> 0 \<and> p_len s p_to = tot_len s p_to \<and> p_next s p_to \<noteq> 0 then Some (s, ERR_VAL)
              else if copy_len \<noteq> 0 then copy_pbuf_loop p_to p_from copy_len offset_to offset_from s
              else Some (s, ERR_OK)))"

definition pbuf_copy_partial_pbuf :: "nat \<Rightarrow> nat \<Rightarrow> nat \<Rightarrow> nat \<Rightarrow> pbufs \<Rightarrow> (pbufs \<times> int) option" where
  "pbuf_copy_partial_pbuf p_to p_from copy_len offset s =
    (if \<not> (p_from \<noteq> 0 \<and> tot_len s p_from \<ge> copy_len) then Some (s, ERR_ARG)
     else if \<not> (p_to \<noteq> 0 \<and> tot_len s p_to \<ge> offset + copy_len) then Some (s, ERR_ARG)
     else copy_pbuf_loop p_to p_from copy_len offset 0 s)"

definition pbuf_copy :: "nat \<Rightarrow> nat \<Rightarrow> pbufs \<Rightarrow> (pbufs \<times> int) option" where
  "pbuf_copy p_to p_from s =
    (if p_from = 0 then Some (s, ERR_ARG) else pbuf_copy_partial_pbuf p_to p_from (tot_len s p_from) 0 s)"

definition pbuf_clone :: "pbuf_layer \<Rightarrow> pbuf_type \<Rightarrow> nat \<Rightarrow> pbufs \<Rightarrow> (pbufs \<times> nat) option" where
  "pbuf_clone layer ty p s =
    (case pbuf_alloc layer (tot_len s p) ty s of
       None \<Rightarrow> None
     | Some (s, q) \<Rightarrow> (if q = 0 then Some (s, 0) else map_option (\<lambda>(s, err). (s, q)) (pbuf_copy q p s)))"

definition pbuf_coalesce :: "nat \<Rightarrow> pbuf_layer \<Rightarrow> pbufs \<Rightarrow> (pbufs \<times> nat) option" where
  "pbuf_coalesce p layer s =
    (if p_next s p = 0 then Some (s, p)
     else
       (case pbuf_clone layer PBUF_RAM p s of
          None \<Rightarrow> None
        | Some (s, q) \<Rightarrow> (if q = 0 then Some (s, p) else map_option (\<lambda>(s, n). (s, q)) (pbuf_free p s))))"

section \<open>Comparing and searching\<close>

partial_function (option) memcmp_loop :: "pbufs \<Rightarrow> nat \<Rightarrow> nat \<Rightarrow> nat \<Rightarrow> nat \<Rightarrow> nat \<Rightarrow> nat option" where
  "memcmp_loop s q start s2 n i =
    (if i < n then
       (case pbuf_get_at q (to16 (start + i)) s of
          None \<Rightarrow> None
        | Some a \<Rightarrow> (if a \<noteq> bytes s (s2 + i) then Some (to16 (min (i + 1) 0xFFFF))
                    else memcmp_loop s q start s2 n (to16 (i + 1))))
     else Some 0)"

definition pbuf_memcmp :: "nat \<Rightarrow> nat \<Rightarrow> nat \<Rightarrow> nat \<Rightarrow> pbufs \<Rightarrow> nat option" where
  "pbuf_memcmp p offset s2 n s =
    (if tot_len s p < offset + n then Some 0xFFFF
     else
       (case skip_loop s p offset of
          None \<Rightarrow> None
        | Some (q, start) \<Rightarrow> memcmp_loop s q start s2 n 0))"

partial_function (option) memfind_loop :: "pbufs \<Rightarrow> nat \<Rightarrow> nat \<Rightarrow> nat \<Rightarrow> nat \<Rightarrow> nat \<Rightarrow> nat option" where
  "memfind_loop s p mem mem_len max_cmp_start i =
    (if i \<le> max_cmp_start then
       (case pbuf_memcmp p i mem mem_len s of
          None \<Rightarrow> None
        | Some r \<Rightarrow> (if r = 0 then Some i else memfind_loop s p mem mem_len max_cmp_start (to16 (i + 1))))
     else Some 0xFFFF)"

definition pbuf_memfind :: "nat \<Rightarrow> nat \<Rightarrow> nat \<Rightarrow> nat \<Rightarrow> pbufs \<Rightarrow> nat option" where
  "pbuf_memfind p mem mem_len start_offset s =
    (if tot_len s p \<ge> mem_len + start_offset
     then memfind_loop s p mem mem_len (to16 (tot_len s p + 65536 - mem_len)) start_offset
     else Some 0xFFFF)"

partial_function (option) strlen_loop :: "(nat \<Rightarrow> u8) \<Rightarrow> nat \<Rightarrow> nat \<Rightarrow> nat option" where
  "strlen_loop m a n = (if m (a + n) = 0 then Some n else strlen_loop m a (n + 1))"

definition pbuf_strstr :: "nat \<Rightarrow> nat \<Rightarrow> pbufs \<Rightarrow> nat option" where
  "pbuf_strstr p substr s =
    (if substr = 0 \<or> bytes s substr = 0 \<or> tot_len s p = 0xFFFF then Some 0xFFFF
     else
       (case strlen_loop (bytes s) substr 0 of
          None \<Rightarrow> None
        | Some substr_len \<Rightarrow>
            (if substr_len \<ge> 0xFFFF then Some 0xFFFF else pbuf_memfind p substr (to16 substr_len) 0 s)))"

section \<open>Facts about memory\<close>

lemma read_length [simp]: "length (read m a n) = n"
  by (simp add: read_def)

lemma read_0 [simp]: "read m a 0 = []"
  by (simp add: read_def)

lemma read_add: "read m a (n + k) = read m a n @ read m (a + n) k"
proof -
  have "[a..<a + (n + k)] = [a..<a + n] @ [a + n..<a + n + k]"
    using upt_add_eq_append [of a "a + n" k] by (simp add: add.assoc)
  then show ?thesis by (simp add: read_def)
qed

lemma read_nth: "i < n \<Longrightarrow> read m a n ! i = m (a + i)"
  by (simp add: read_def)

lemma take_read: "k \<le> n \<Longrightarrow> take k (read m a n) = read m a k"
  using read_add [of m a k "n - k"] by simp

lemma drop_read: "k \<le> n \<Longrightarrow> drop k (read m a n) = read m (a + k) (n - k)"
  using read_add [of m a k "n - k"] by simp

definition region :: "nat \<Rightarrow> nat \<Rightarrow> nat set" where "region a n = {a..<a + n}"

lemma store_append: "store (a + length bs) cs (store a bs m) = store a (bs @ cs) m"
  by (auto simp: store_def nth_append fun_eq_iff)

lemma store_Nil [simp]: "store a [] m = m"
  by (auto simp: store_def fun_eq_iff)

lemma store_outside: "x \<notin> region a (length bs) \<Longrightarrow> store a bs m x = m x"
  by (auto simp: store_def region_def)

lemma read_cong: "(\<And>x. x \<in> region a n \<Longrightarrow> m' x = m x) \<Longrightarrow> read m' a n = read m a n"
  by (simp add: read_def region_def)

lemma read_store_other: "region a n \<inter> region d (length bs) = {} \<Longrightarrow> read (store d bs m) a n = read m a n"
  by (rule read_cong) (rule store_outside, blast)

lemma read_store_same: "read (store d bs m) d (length bs) = bs"
  by (rule nth_equalityI) (simp_all add: read_nth store_def)

lemma read_store_inside:
  assumes "k + length bs \<le> n"
  shows "read (store (a + k) bs m) a n = take k (read m a n) @ bs @ drop (k + length bs) (read m a n)"
proof (rule nth_equalityI)
  show "length (read (store (a + k) bs m) a n) = length (take k (read m a n) @ bs @ drop (k + length bs) (read m a n))"
    using assms by simp
  show "read (store (a + k) bs m) a n ! i = (take k (read m a n) @ bs @ drop (k + length bs) (read m a n)) ! i"
    if "i < length (read (store (a + k) bs m) a n)" for i
    using that assms by (auto simp: read_nth store_def nth_append not_less diff_diff_left)
qed

section \<open>The bytes of a chain\<close>

definition flat :: "pbufs \<Rightarrow> nat list \<Rightarrow> u8 list" where
  "flat s ps = concat (map (\<lambda>q. read (bytes s) (payload s q) (p_len s q)) ps)"

lemma flat_simps [simp]: "flat s [] = []" "flat s (p # ps) = read (bytes s) (payload s p) (p_len s p) @ flat s ps"
  "flat s (ps @ qs) = flat s ps @ flat s qs"
  by (simp_all add: flat_def)

lemma flat_length [simp]: "length (flat s ps) = total s ps"
  by (induction ps) simp_all

definition clear_of :: "pbufs \<Rightarrow> nat list \<Rightarrow> nat \<Rightarrow> nat \<Rightarrow> bool" where
  "clear_of s ps a n \<longleftrightarrow> (\<forall>q \<in> set ps. region (payload s q) (p_len s q) \<inter> region a n = {})"

lemma region_mono: "a \<le> b \<Longrightarrow> b + k \<le> a + n \<Longrightarrow> region b k \<subseteq> region a n"
  by (auto simp: region_def)

lemma clear_of_mono: "clear_of s ps a n \<Longrightarrow> a \<le> b \<Longrightarrow> b + k \<le> a + n \<Longrightarrow> clear_of s ps b k"
  unfolding clear_of_def using region_mono [of a b k n] by blast

lemma flat_store:
  assumes "clear_of s ps d (length bs)"
  shows "flat (s\<lparr>bytes := store d bs (bytes s)\<rparr>) ps = flat s ps"
  using assms by (induction ps) (auto simp: clear_of_def read_store_other)

lemma chain_bytes [simp]: "chain (s\<lparr>bytes := m\<rparr>) p ps = chain s p ps"
  by (induction ps arbitrary: p) auto

lemma total_bytes [simp]: "total (s\<lparr>bytes := m\<rparr>) ps = total s ps"
  by (simp add: total_def)

lemma clear_of_bytes [simp]: "clear_of (s\<lparr>bytes := m\<rparr>) ps a n = clear_of s ps a n"
  by (simp add: clear_of_def)

lemma to16_diff: "b \<le> a \<Longrightarrow> a < 65536 \<Longrightarrow> to16 (a + 65536 - b) = a - b"
proof -
  assume ab: "b \<le> a" "a < 65536"
  then have "a + 65536 - b = (a - b) + 65536" by simp
  then have "to16 (a + 65536 - b) = (a - b) mod 65536" unfolding to16_def by (simp only: mod_add_self2)
  then show ?thesis using ab by simp
qed

lemma copy_partial_loop_effect:
  assumes "chain s p ps" and "offset < 65536" and "total s ps < 65536" and "len < 65536" and "left + len < 65536"
    and "clear_of s ps (dataptr + left) len" and "tot + len < 65536"
  shows "copy_partial_loop dataptr p len offset left tot s =
    (let bs = take len (drop offset (flat s ps)) in
     Some (s\<lparr>bytes := store (dataptr + left) bs (bytes s)\<rparr>, tot + length bs))"
  using assms
proof (induction ps arbitrary: p len offset left tot s)
  case Nil
  then show ?case by (subst copy_partial_loop.simps) simp
next
  case (Cons a ps)
  have p: "p = a" "a \<noteq> 0" "chain s (p_next s a) ps" using Cons.prems(1) by auto
  show ?case
  proof (cases "len = 0")
    case True
    then show ?thesis by (subst copy_partial_loop.simps) simp
  next
    case len: False
    show ?thesis
    proof (cases "p_len s a \<le> offset \<and> offset \<noteq> 0")
      case True
      have "copy_partial_loop dataptr p len offset left tot s =
          copy_partial_loop dataptr (p_next s a) len (offset - p_len s a) left tot s"
        using True len p Cons.prems(2) by (subst copy_partial_loop.simps) (simp add: to16_diff)
      also have "\<dots> = (let bs = take len (drop (offset - p_len s a) (flat s ps)) in
          Some (s\<lparr>bytes := store (dataptr + left) bs (bytes s)\<rparr>, tot + length bs))"
        by (rule Cons.IH) (use Cons.prems p in \<open>auto simp: clear_of_def\<close>)
      finally show ?thesis using True by simp
    next
      case False
      define n where "n = min (p_len s a - offset) len"
      have off: "offset \<le> p_len s a" using False by auto
      have n: "n \<le> len" "offset + n \<le> p_len s a" using off by (auto simp: n_def)
      define bs where "bs = read (bytes s) (payload s a + offset) n"
      have lb [simp]: "length bs = n" by (simp add: bs_def)
      define s' where "s' = s\<lparr>bytes := store (dataptr + left) bs (bytes s)\<rparr>"
      have cl: "clear_of s (a # ps) (dataptr + left) n"
        by (rule clear_of_mono [OF Cons.prems(6)]) (use n in simp_all)
      have f: "flat s' ps = flat s ps" unfolding s'_def
        by (rule flat_store) (use cl in \<open>simp add: clear_of_def\<close>)
      have t: "take len (drop offset (flat s (a # ps))) = bs @ take (len - n) (drop 0 (flat s' ps))"
      proof -
        have "drop offset (flat s (a # ps)) = read (bytes s) (payload s a + offset) (p_len s a - offset) @ flat s ps"
          using off by (simp add: drop_read)
        then show ?thesis using f off
          by (cases "p_len s a - offset \<le> len") (simp_all add: n_def bs_def take_read min_def)
      qed
      have "copy_partial_loop dataptr p len offset left tot s =
          copy_partial_loop dataptr (p_next s a) (len - n) 0 (left + n) (tot + n) s'"
      proof -
        have w: "to16 (p_len s a + 65536 - offset) = p_len s a - offset"
          using off Cons.prems(3) by (intro to16_diff) simp_all
        have w2: "to16 (len + 65536 - n) = len - n" using n(1) Cons.prems(4) by (rule to16_diff)
        have m: "(if p_len s a - offset > len then len else p_len s a - offset) = n" by (auto simp: n_def)
        have "left + n < 65536" "tot + n < 65536" using n Cons.prems by simp_all
        then show ?thesis using False len p w w2 m
          by (subst copy_partial_loop.simps) (auto simp: Let_def memcpy_def s'_def bs_def to16_small)
      qed
      also have "\<dots> = (let cs = take (len - n) (drop 0 (flat s' ps)) in
          Some (s'\<lparr>bytes := store (dataptr + (left + n)) cs (bytes s')\<rparr>, tot + n + length cs))"
      proof (rule Cons.IH)
        show "clear_of s' ps (dataptr + (left + n)) (len - n)"
          using clear_of_mono [OF Cons.prems(6), of "dataptr + (left + n)" "len - n"] n
          by (simp add: s'_def clear_of_def)
      qed (use Cons.prems p n in \<open>auto simp: s'_def\<close>)
      finally show ?thesis unfolding t Let_def
        using store_append [of "dataptr + left" bs] by (simp add: s'_def add.assoc)
    qed
  qed
qed

section \<open>Positions in a chain\<close>

text \<open>The structures from a position on, and the offset in the first of them.\<close>

fun locate :: "pbufs \<Rightarrow> nat list \<Rightarrow> nat \<Rightarrow> nat list \<times> nat" where
  "locate s [] k = ([], k)"
| "locate s (q # qs) k = (if p_len s q \<le> k then locate s qs (k - p_len s q) else (q # qs, k))"

definition hd0 :: "nat list \<Rightarrow> nat" where "hd0 ps = (case ps of [] \<Rightarrow> 0 | q # qs \<Rightarrow> q)"

lemma hd0_simps [simp]: "hd0 [] = 0" "hd0 (q # qs) = q" by (simp_all add: hd0_def)

lemma chain_hd0: "chain s p ps \<Longrightarrow> hd0 ps = p"
  by (cases ps) auto

lemma skip_loop_effect:
  assumes "chain s p ps" and "k < 65536"
  shows "skip_loop s p k = Some (hd0 (fst (locate s ps k)), snd (locate s ps k))"
  using assms
proof (induction ps arbitrary: p k)
  case Nil
  then show ?case by (subst skip_loop.simps) simp
next
  case (Cons a ps)
  then show ?case by (subst skip_loop.simps) (simp add: to16_diff)
qed

lemma locate_split:
  obtains as qs i where "locate s ps k = (qs, i)" "ps = as @ qs" "k = total s as + i" "qs \<noteq> [] \<Longrightarrow> i < p_len s (hd qs)"
proof (induction ps arbitrary: k thesis)
  case Nil
  then show ?case by simp
next
  case (Cons a ps)
  show ?case
  proof (cases "p_len s a \<le> k")
    case True
    obtain as qs i where IH: "locate s ps (k - p_len s a) = (qs, i)" "ps = as @ qs" "k - p_len s a = total s as + i"
      "qs \<noteq> [] \<Longrightarrow> i < p_len s (hd qs)"
      using Cons.IH by blast
    show ?thesis
      by (rule Cons.prems [of qs i "a # as"]) (use True IH in auto)
  next
    case False
    show ?thesis by (rule Cons.prems [of "a # ps" k "[]"]) (use False in auto)
  qed
qed

lemma locate_inside:
  assumes "k < total s ps"
  obtains as q qs i where "locate s ps k = (q # qs, i)" "ps = as @ q # qs" "k = total s as + i" "i < p_len s q"
proof -
  obtain as qs i where *: "locate s ps k = (qs, i)" "ps = as @ qs" "k = total s as + i" "qs \<noteq> [] \<Longrightarrow> i < p_len s (hd qs)"
    using locate_split [of s ps k] by blast
  then have "qs \<noteq> []" using assms by auto
  then obtain q rs where "qs = q # rs" by (cases qs) auto
  then show ?thesis using * that by auto
qed

lemma locate_outside: "total s ps \<le> k \<Longrightarrow> fst (locate s ps k) = []"
  by (induction ps arbitrary: k) auto

lemma pbuf_skip_effect:
  "chain s p ps \<Longrightarrow> k < 65536 \<Longrightarrow> pbuf_skip_const p k s = Some (hd0 (fst (locate s ps k)), snd (locate s ps k))"
  unfolding pbuf_skip_const_def by (rule skip_loop_effect)

lemma chain_suffix: "chain s p (as @ qs) \<Longrightarrow> chain s (hd0 qs) qs"
proof (induction as arbitrary: p)
  case Nil
  then show ?case by (cases qs) auto
qed auto

lemma flat_nth: "i < p_len s q \<Longrightarrow> flat s (as @ q # qs) ! (total s as + i) = bytes s (payload s q + i)"
  by (simp add: nth_append read_nth)

lemma pbuf_try_get_at_effect:
  assumes "chain s p ps" and "k < 65536"
  shows "pbuf_try_get_at p k s = Some (if k < total s ps then uint (flat s ps ! k) else - 1)"
proof (cases "k < total s ps")
  case True
  then obtain as q qs i where l: "locate s ps k = (q # qs, i)" "ps = as @ q # qs" "k = total s as + i" "i < p_len s q"
    by (rule locate_inside)
  have "q \<noteq> 0" using chain_nonzero [OF assms(1)] l(2) by simp
  then show ?thesis
    using True pbuf_skip_effect [OF assms] l flat_nth [of i s q as qs] by (simp add: pbuf_try_get_at_def)
next
  case False
  then show ?thesis
    using pbuf_skip_effect [OF assms] locate_outside [of s ps k] by (simp add: pbuf_try_get_at_def)
qed

lemma pbuf_get_at_effect:
  assumes "chain s p ps" and "k < 65536"
  shows "pbuf_get_at p k s = Some (if k < total s ps then flat s ps ! k else 0)"
  using pbuf_try_get_at_effect [OF assms] by (simp add: pbuf_get_at_def)

text \<open>Payloads that do not overlap.\<close>

fun apart :: "pbufs \<Rightarrow> nat list \<Rightarrow> bool" where
  "apart s [] \<longleftrightarrow> True"
| "apart s (p # ps) \<longleftrightarrow> p \<notin> set ps \<and> clear_of s ps (payload s p) (p_len s p) \<and> apart s ps"

lemma apart_bytes [simp]: "apart (s\<lparr>bytes := m\<rparr>) ps = apart s ps"
  by (induction ps) simp_all

lemma apart_appendD: "apart s (as @ bs) \<Longrightarrow> apart s bs"
  by (induction as) auto

lemma apart_around:
  assumes "apart s (as @ q # qs)"
  shows "clear_of s (as @ qs) (payload s q) (p_len s q)"
  using assms by (induction as) (auto simp: clear_of_def)

lemma store_in_one:
  assumes "apart s (as @ q # qs)" and "k + length bs \<le> p_len s q"
  shows "flat (s\<lparr>bytes := store (payload s q + k) bs (bytes s)\<rparr>) (as @ q # qs) =
    flat s as @ take k (read (bytes s) (payload s q) (p_len s q)) @ bs @
      drop (k + length bs) (read (bytes s) (payload s q) (p_len s q)) @ flat s qs"
proof -
  have "clear_of s (as @ qs) (payload s q + k) (length bs)"
    by (rule clear_of_mono [OF apart_around [OF assms(1)]]) (use assms(2) in simp_all)
  then have "flat (s\<lparr>bytes := store (payload s q + k) bs (bytes s)\<rparr>) as = flat s as"
    "flat (s\<lparr>bytes := store (payload s q + k) bs (bytes s)\<rparr>) qs = flat s qs"
    by (auto intro!: flat_store simp: clear_of_def)
  then show ?thesis using read_store_inside [OF assms(2)] by simp
qed

lemma pbuf_put_at_effect:
  assumes "chain s p ps" and "k < 65536" and "apart s ps"
  shows "\<exists>m. pbuf_put_at p k v s = Some (s\<lparr>bytes := m\<rparr>) \<and> flat (s\<lparr>bytes := m\<rparr>) ps = (flat s ps)[k := v]"
proof (cases "k < total s ps")
  case True
  then obtain as q qs i where l: "locate s ps k = (q # qs, i)" "ps = as @ q # qs" "k = total s as + i" "i < p_len s q"
    by (rule locate_inside)
  have "q \<noteq> 0" using chain_nonzero [OF assms(1)] l(2) by simp
  then have run: "pbuf_put_at p k v s = Some (s\<lparr>bytes := store (payload s q + i) [v] (bytes s)\<rparr>)"
    using pbuf_skip_effect [OF assms(1,2)] l
    by (auto simp: pbuf_put_at_def pbuf_skip_def store_def fun_eq_iff intro!: pbufs.equality)
  have "flat (s\<lparr>bytes := store (payload s q + i) [v] (bytes s)\<rparr>) ps = (flat s ps)[k := v]"
    using store_in_one [of s as q qs i "[v]"] assms(3) l
    by (simp add: list_update_append upd_conv_take_nth_drop)
  then show ?thesis using run by blast
next
  case False
  have "s\<lparr>bytes := bytes s\<rparr> = s" by simp
  then show ?thesis
    using False pbuf_skip_effect [OF assms(1,2)] locate_outside [of s ps k]
    by (intro exI [of _ "bytes s"]) (simp add: pbuf_put_at_def pbuf_skip_def list_update_beyond)
qed

section \<open>Writing into a chain\<close>

lemma take_loop_effect:
  assumes "chain s p ps" and "len \<le> total s ps" and "apart s ps" and "clear_of s ps (dataptr + c) len"
  shows "\<exists>m. take_loop dataptr p len c s = Some (s\<lparr>bytes := m\<rparr>) \<and>
    flat (s\<lparr>bytes := m\<rparr>) ps = read (bytes s) (dataptr + c) len @ drop len (flat s ps) \<and>
    (\<forall>x. (\<forall>q \<in> set ps. x \<notin> region (payload s q) (p_len s q)) \<longrightarrow> m x = bytes s x)"
  using assms
proof (induction ps arbitrary: p len c s)
  case Nil
  have "s\<lparr>bytes := bytes s\<rparr> = s" by simp
  then show ?case using Nil by (subst take_loop.simps) (auto intro!: exI [of _ "bytes s"])
next
  case (Cons a ps)
  have p: "p = a" "chain s (p_next s a) ps" using Cons.prems(1) by auto
  show ?case
  proof (cases "len = 0")
    case True
    have "s\<lparr>bytes := bytes s\<rparr> = s" by simp
    then show ?thesis using True by (subst take_loop.simps) (auto intro!: exI [of _ "bytes s"])
  next
    case False
    define n where "n = min (p_len s a) len"
    have n: "n \<le> len" "n \<le> p_len s a" by (simp_all add: n_def)
    define bs where "bs = read (bytes s) (dataptr + c) n"
    define s' where "s' = s\<lparr>bytes := store (payload s a) bs (bytes s)\<rparr>"
    have lb [simp]: "length bs = n" by (simp add: bs_def)
    have ap: "a \<notin> set ps" "clear_of s ps (payload s a) (p_len s a)" "apart s ps"
      using Cons.prems(3) by simp_all
    have step: "take_loop dataptr p len c s = take_loop dataptr (p_next s a) (len - n) (c + n) s'"
      using False p by (subst take_loop.simps) (auto simp: Let_def memcpy_def s'_def bs_def n_def min_def)
    have fl: "flat s' ps = flat s ps" unfolding s'_def
      by (rule flat_store) (use clear_of_mono [OF ap(2)] n in auto)
    have "\<exists>m. take_loop dataptr (p_next s a) (len - n) (c + n) s' = Some (s'\<lparr>bytes := m\<rparr>) \<and>
      flat (s'\<lparr>bytes := m\<rparr>) ps = read (bytes s') (dataptr + (c + n)) (len - n) @ drop (len - n) (flat s' ps) \<and>
      (\<forall>x. (\<forall>q \<in> set ps. x \<notin> region (payload s' q) (p_len s' q)) \<longrightarrow> m x = bytes s' x)"
    proof (rule Cons.IH)
      show "clear_of s' ps (dataptr + (c + n)) (len - n)"
        using clear_of_mono [OF Cons.prems(4), of "dataptr + (c + n)" "len - n"] n by (simp add: s'_def clear_of_def)
    qed (use Cons.prems(2) p ap in \<open>auto simp: s'_def n_def\<close>)
    then obtain m where m: "take_loop dataptr (p_next s a) (len - n) (c + n) s' = Some (s'\<lparr>bytes := m\<rparr>)"
      "flat (s'\<lparr>bytes := m\<rparr>) ps = read (bytes s') (dataptr + (c + n)) (len - n) @ drop (len - n) (flat s' ps)"
      "\<forall>x. (\<forall>q \<in> set ps. x \<notin> region (payload s q) (p_len s q)) \<longrightarrow> m x = bytes s' x"
      by (auto simp: s'_def)
    have src: "read (bytes s') (dataptr + (c + n)) (len - n) = read (bytes s) (dataptr + (c + n)) (len - n)"
    proof -
      have "region (payload s a) (p_len s a) \<inter> region (dataptr + c) len = {}"
        using Cons.prems(4) by (simp add: clear_of_def)
      then have "region (dataptr + (c + n)) (len - n) \<inter> region (payload s a) (length bs) = {}"
        using region_mono [of "dataptr + c" "dataptr + (c + n)" "len - n" len] region_mono [of "payload s a" "payload s a" n "p_len s a"] n
        by fastforce
      then show ?thesis by (simp add: s'_def read_store_other)
    qed
    have own: "read m (payload s a) (p_len s a) = bs @ drop n (read (bytes s) (payload s a) (p_len s a))"
    proof -
      have "read m (payload s a) (p_len s a) = read (bytes s') (payload s a) (p_len s a)"
        by (rule read_cong) (use m(3) ap(2) in \<open>auto simp: clear_of_def\<close>)
      then show ?thesis using read_store_inside [of 0 bs "p_len s a" "payload s a" "bytes s"] n by (simp add: s'_def)
    qed
    have "flat (s\<lparr>bytes := m\<rparr>) (a # ps) = read (bytes s) (dataptr + c) len @ drop len (flat s (a # ps))"
    proof -
      have sm: "s'\<lparr>bytes := m\<rparr> = s\<lparr>bytes := m\<rparr>" by (simp add: s'_def)
      have "read (bytes s) (dataptr + c) len = bs @ read (bytes s) (dataptr + (c + n)) (len - n)"
        using read_add [of "bytes s" "dataptr + c" n "len - n"] n by (simp add: bs_def add.assoc)
      moreover have "drop len (flat s (a # ps)) = drop len (read (bytes s) (payload s a) (p_len s a)) @ drop (len - n) (flat s ps)"
        by (simp add: n_def min_def)
      moreover have "len = n \<or> p_len s a = n" by (auto simp: n_def)
      moreover note n
      ultimately show ?thesis using own m(2) src fl sm by auto
    qed
    moreover have "m x = bytes s x" if "\<forall>q \<in> set (a # ps). x \<notin> region (payload s q) (p_len s q)" for x
    proof -
      have "m x = bytes s' x" using m(3) that by simp
      moreover have "x \<notin> region (payload s a) (length bs)"
        using that region_mono [of "payload s a" "payload s a" n "p_len s a"] n by auto
      ultimately show ?thesis by (simp add: s'_def store_outside)
    qed
    ultimately show ?thesis using step m(1) by (auto simp: s'_def)
  qed
qed

lemma tot_ok_suffix: "tot_ok s (as @ qs) \<Longrightarrow> tot_ok s qs"
  by (induction as) auto

lemma tot_ok_bytes [simp]: "tot_ok (s\<lparr>bytes := m\<rparr>) ps = tot_ok s ps"
  by (induction ps) auto

lemma flat_cong:
  assumes "\<And>x q. q \<in> set ps \<Longrightarrow> x \<in> region (payload s q) (p_len s q) \<Longrightarrow> m x = bytes s x"
  shows "flat (s\<lparr>bytes := m\<rparr>) ps = flat s ps"
  using assms by (induction ps) (auto intro!: read_cong)

lemma clear_of_append [simp]: "clear_of s (as @ bs) a n \<longleftrightarrow> clear_of s as a n \<and> clear_of s bs a n"
  by (auto simp: clear_of_def)

lemma apart_append_clear: "apart s (as @ q # qs) \<Longrightarrow> clear_of s as (payload s q) (p_len s q)"
  using apart_around [of s as q qs] by simp

lemma apart_split: "apart s (as @ bs) \<Longrightarrow> q \<in> set bs \<Longrightarrow> clear_of s as (payload s q) (p_len s q)"
  by (induction as) (auto simp: clear_of_def)

lemma pbuf_take_at_effect:
  assumes pk: "packet s p ps" and ap: "apart s ps" and src: "clear_of s ps dataptr len" "dataptr \<noteq> 0"
    and k: "k < total s ps" "k + len \<le> total s ps"
  shows "\<exists>m. pbuf_take_at p dataptr len k s = Some (s\<lparr>bytes := m\<rparr>, ERR_OK) \<and>
    flat (s\<lparr>bytes := m\<rparr>) ps = take k (flat s ps) @ read (bytes s) dataptr len @ drop (k + len) (flat s ps) \<and>
    (\<forall>x. (\<forall>q \<in> set ps. x \<notin> region (payload s q) (p_len s q)) \<longrightarrow> m x = bytes s x)"
proof -
  have ch: "chain s p ps" "tot_ok s ps" "total s ps < 65536" using pk by (simp_all add: packet_def)
  have k16: "k < 65536" using k(1) ch(3) by simp
  obtain as q qs i where l: "locate s ps k = (q # qs, i)" "ps = as @ q # qs" "k = total s as + i" "i < p_len s q"
    using k(1) by (rule locate_inside)
  have q: "q \<noteq> 0" using chain_nonzero [OF ch(1)] l(2) by simp
  have tq: "tot_len s q = p_len s q + total s qs" using tot_ok_suffix [of s as "q # qs"] ch(2) l(2) by simp
  have cq: "chain s (p_next s q) qs" using chain_rest [of s p as q qs] ch(1) l(2) by simp
  define n where "n = min (p_len s q - i) len"
  have n: "n \<le> len" "i + n \<le> p_len s q" using l(4) by (simp_all add: n_def)
  define bs where "bs = read (bytes s) dataptr n"
  have lb [simp]: "length bs = n" by (simp add: bs_def)
  define s1 where "s1 = s\<lparr>bytes := store (payload s q + i) bs (bytes s)\<rparr>"
  have f1: "flat s1 (as @ q # qs) = flat s as @ take i (read (bytes s) (payload s q) (p_len s q)) @ bs @
      drop (i + n) (read (bytes s) (payload s q) (p_len s q)) @ flat s qs"
    using store_in_one [of s as q qs i bs] ap l(2) n by (simp add: s1_def)
  have len16: "len < 65536" using k(2) ch(3) by simp
  have sk: "pbuf_skip p k s = Some (q, i)" using pbuf_skip_effect [OF ch(1) k16] l(1) by (simp add: pbuf_skip_def)
  have fits: "i + len \<le> tot_len s q" using k(2) l(2,3) tq by simp
  have w: "to16 (len + 65536 - n) = len - n" using n(1) len16 by (rule to16_diff)
  have run: "pbuf_take_at p dataptr len k s =
      (if len - n > 0 then pbuf_take (p_next s q) (dataptr + n) (len - n) s1 else Some (s1, ERR_OK))"
    unfolding pbuf_take_at_def sk using q fits w by (simp add: memcpy_def s1_def bs_def n_def [symmetric] Let_def)
  have dk: "drop (k + len) (flat s ps) = drop (i + len) (read (bytes s) (payload s q) (p_len s q)) @
      drop (i + len - p_len s q) (flat s qs)"
    using l(2,3) by simp
  have tk: "take k (flat s ps) = flat s as @ take i (read (bytes s) (payload s q) (p_len s q))"
    using l(2-4) by simp
  have out1: "bytes s1 x = bytes s x" if "\<forall>r \<in> set ps. x \<notin> region (payload s r) (p_len s r)" for x
  proof -
    have "x \<notin> region (payload s q + i) (length bs)"
      using that l(2) region_mono [of "payload s q" "payload s q + i" n "p_len s q"] n by auto
    then show ?thesis by (simp add: s1_def store_outside)
  qed
  show ?thesis
  proof (cases "len - n > 0")
    case False
    then have "len = n" using n by simp
    then have "flat s1 ps = take k (flat s ps) @ read (bytes s) dataptr len @ drop (k + len) (flat s ps)"
      using f1 dk tk l(2) n by (simp add: bs_def)
    then show ?thesis using run False out1 unfolding s1_def by auto
  next
    case True
    then have nn: "n = p_len s q - i" "p_len s q \<le> i + len" using l(4) by (auto simp: n_def)
    have tr: "len - n \<le> total s1 qs" using k(2) l(2,3) nn by (simp add: s1_def)
    have ne: "qs \<noteq> []" using tr True by (auto simp: s1_def)
    have ap': "apart s1 qs" using ap l(2) apart_appendD [of s "as @ [q]" qs] by (simp add: s1_def)
    have cl': "clear_of s1 qs (dataptr + n) (len - n)"
      using clear_of_mono [OF src(1), of "dataptr + n" "len - n"] n l(2) by (simp add: s1_def clear_of_def)
    have c1: "chain s1 (p_next s q) qs" using cq by (simp add: s1_def)
    obtain m where m: "take_loop (dataptr + n) (p_next s q) (len - n) 0 s1 = Some (s1\<lparr>bytes := m\<rparr>)"
      "flat (s1\<lparr>bytes := m\<rparr>) qs = read (bytes s1) (dataptr + n) (len - n) @ drop (len - n) (flat s1 qs)"
      "\<forall>x. (\<forall>q \<in> set qs. x \<notin> region (payload s1 q) (p_len s1 q)) \<longrightarrow> m x = bytes s1 x"
      using take_loop_effect [OF c1 tr ap', of "dataptr + n" 0] cl' by auto
    have nz: "p_next s q \<noteq> 0" "len - n \<le> tot_len s (p_next s q)"
    proof -
      obtain r rs where qs: "qs = r # rs" using ne by (cases qs) auto
      show "p_next s q \<noteq> 0" using cq qs by simp
      have "tot_len s r = total s qs" using tot_ok_suffix [of s "as @ [q]" qs] ch(2) l(2) qs by simp
      then show "len - n \<le> tot_len s (p_next s q)" using cq qs tr by (simp add: s1_def)
    qed
    have run': "pbuf_take_at p dataptr len k s = Some (s\<lparr>bytes := m\<rparr>, ERR_OK)"
      using run True nz m(1) src(2) by (simp add: pbuf_take_def s1_def)
    have keep: "m x = bytes s1 x" if "r \<in> set (as @ [q])" "x \<in> region (payload s r) (p_len s r)" for x r
    proof -
      have "x \<notin> region (payload s y) (p_len s y)" if "y \<in> set qs" for y
        using apart_split [of s "as @ [q]" qs y] ap l(2) that \<open>r \<in> set (as @ [q])\<close> \<open>x \<in> region (payload s r) (p_len s r)\<close>
        by (auto simp: clear_of_def)
      then show ?thesis using m(3) by (simp add: s1_def)
    qed
    have fhead: "flat (s\<lparr>bytes := m\<rparr>) (as @ [q]) = flat s1 (as @ [q])"
    proof -
      have "flat (s1\<lparr>bytes := m\<rparr>) (as @ [q]) = flat s1 (as @ [q])"
        by (rule flat_cong) (use keep in \<open>auto simp: s1_def\<close>)
      then show ?thesis by (simp add: s1_def)
    qed
    have f1h: "flat s1 (as @ [q]) = flat s as @ take i (read (bytes s) (payload s q) (p_len s q)) @ bs"
      "flat s1 qs = flat s qs"
    proof -
      have "flat s1 (as @ [q]) @ flat s1 qs =
          (flat s as @ take i (read (bytes s) (payload s q) (p_len s q)) @ bs) @ flat s qs"
        using f1 nn l(4) by simp
      moreover have "length (flat s1 qs) = length (flat s qs)" by (simp add: s1_def)
      ultimately show "flat s1 (as @ [q]) = flat s as @ take i (read (bytes s) (payload s q) (p_len s q)) @ bs"
        "flat s1 qs = flat s qs" by (metis append_eq_append_conv)+
    qed
    have rd: "read (bytes s1) (dataptr + n) (len - n) = read (bytes s) (dataptr + n) (len - n)"
    proof (rule read_cong)
      fix x assume x: "x \<in> region (dataptr + n) (len - n)"
      then have "x \<in> region dataptr len" using region_mono [of dataptr "dataptr + n" "len - n" len] n by auto
      then show "bytes s1 x = bytes s x" using src(1) by (intro out1) (auto simp: clear_of_def)
    qed
    have "flat (s\<lparr>bytes := m\<rparr>) ps = flat (s\<lparr>bytes := m\<rparr>) (as @ [q]) @ flat (s\<lparr>bytes := m\<rparr>) qs"
      using l(2) by simp
    also have "flat (s\<lparr>bytes := m\<rparr>) qs = read (bytes s) (dataptr + n) (len - n) @ drop (len - n) (flat s qs)"
      using m(2) rd f1h(2) by (simp add: s1_def)
    finally have "flat (s\<lparr>bytes := m\<rparr>) ps = take k (flat s ps) @ read (bytes s) dataptr len @ drop (k + len) (flat s ps)"
      using fhead f1h(1) dk tk nn read_add [of "bytes s" dataptr n "len - n"] n by (simp add: bs_def add.commute [of i len])
    moreover have "m x = bytes s x" if "\<forall>r \<in> set ps. x \<notin> region (payload s r) (p_len s r)" for x
      using m(3) out1 that l(2) by (simp add: s1_def)
    ultimately show ?thesis using run' by blast
  qed
qed

section \<open>Searching\<close>

lemma memcmp_loop_effect:
  assumes "chain s q qs" and "start + n \<le> total s qs" and "total s qs < 65536" and "i \<le> n"
  shows "\<exists>r. memcmp_loop s q start s2 n i = Some r \<and>
    (r = 0 \<longleftrightarrow> (\<forall>j. i \<le> j \<and> j < n \<longrightarrow> flat s qs ! (start + j) = bytes s (s2 + j))) \<and>
    (r \<noteq> 0 \<longrightarrow> i < r \<and> r \<le> n \<and> flat s qs ! (start + (r - 1)) \<noteq> bytes s (s2 + (r - 1)) \<and>
      (\<forall>j. i \<le> j \<and> j < r - 1 \<longrightarrow> flat s qs ! (start + j) = bytes s (s2 + j)))"
  using assms(4)
proof (induction "n - i" arbitrary: i)
  case 0
  then show ?case by (subst memcmp_loop.simps) auto
next
  case (Suc k)
  then have i: "i < n" "to16 (i + 1) = i + 1" "to16 (start + i) = start + i" "start + i < 65536"
    using assms(2,3) by (simp_all add: to16_def)
  have get: "pbuf_get_at q (start + i) s = Some (flat s qs ! (start + i))"
    using pbuf_get_at_effect [OF assms(1) i(4)] assms(2) i(1) by simp
  show ?case
  proof (cases "flat s qs ! (start + i) = bytes s (s2 + i)")
    case True
    have "memcmp_loop s q start s2 n i = memcmp_loop s q start s2 n (i + 1)"
      using i get True by (subst memcmp_loop.simps) simp
    moreover have "\<exists>r. memcmp_loop s q start s2 n (i + 1) = Some r \<and>
      (r = 0 \<longleftrightarrow> (\<forall>j. i + 1 \<le> j \<and> j < n \<longrightarrow> flat s qs ! (start + j) = bytes s (s2 + j))) \<and>
      (r \<noteq> 0 \<longrightarrow> i + 1 < r \<and> r \<le> n \<and> flat s qs ! (start + (r - 1)) \<noteq> bytes s (s2 + (r - 1)) \<and>
        (\<forall>j. i + 1 \<le> j \<and> j < r - 1 \<longrightarrow> flat s qs ! (start + j) = bytes s (s2 + j)))"
      by (rule Suc.hyps(1)) (use Suc.hyps(2) i(1) in simp_all)
    then obtain r where r: "memcmp_loop s q start s2 n (i + 1) = Some r"
      "r = 0 \<longleftrightarrow> (\<forall>j. i + 1 \<le> j \<and> j < n \<longrightarrow> flat s qs ! (start + j) = bytes s (s2 + j))"
      "r \<noteq> 0 \<longrightarrow> i + 1 < r \<and> r \<le> n \<and> flat s qs ! (start + (r - 1)) \<noteq> bytes s (s2 + (r - 1)) \<and>
        (\<forall>j. i + 1 \<le> j \<and> j < r - 1 \<longrightarrow> flat s qs ! (start + j) = bytes s (s2 + j))"
      by blast
    have all: "(\<forall>j. i \<le> j \<and> j < b \<longrightarrow> flat s qs ! (start + j) = bytes s (s2 + j)) \<longleftrightarrow>
        (\<forall>j. i + 1 \<le> j \<and> j < b \<longrightarrow> flat s qs ! (start + j) = bytes s (s2 + j))" for b
      using True by (metis Suc_eq_plus1 Suc_leI le_eq_less_or_eq Suc_leD)
    show ?thesis using calculation r all [of n] all [of "r - 1"] by (intro exI [of _ r]) (auto dest: Suc_lessD)
  next
    case False
    have "i + 1 < 65536" using i assms(2,3) by simp
    then have "memcmp_loop s q start s2 n i = Some (i + 1)"
      using i get False by (subst memcmp_loop.simps) (simp add: min_def)
    then show ?thesis using False i(1) by (intro exI [of _ "i + 1"]) auto
  qed
qed

lemma drop_locate:
  assumes "locate s ps k = (qs, i)" and "k \<le> total s ps"
  shows "drop k (flat s ps) = drop i (flat s qs) \<and> k + total s qs = i + total s ps"
  using assms
proof (induction ps arbitrary: k)
  case (Cons a ps)
  show ?case
  proof (cases "p_len s a \<le> k")
    case True
    have "drop (k - p_len s a) (flat s ps) = drop i (flat s qs) \<and> k - p_len s a + total s qs = i + total s ps"
      by (rule Cons.IH) (use True Cons.prems in auto)
    then have "drop k (flat s (a # ps)) = drop i (flat s qs)" "k + total s qs = i + (p_len s a + total s ps)"
      using True by (simp, linarith)
    then show ?thesis by simp
  next
    case False
    then show ?thesis using Cons.prems by auto
  qed
qed simp

lemma pbuf_memcmp_effect:
  assumes pk: "packet s p ps" and p: "p \<noteq> 0" and k: "k < 65536"
  shows "\<exists>r. pbuf_memcmp p k s2 n s = Some r \<and>
    (r = 0 \<longleftrightarrow> k + n \<le> total s ps \<and> take n (drop k (flat s ps)) = read (bytes s) s2 n)"
proof -
  have ch: "chain s p ps" "tot_ok s ps" "total s ps < 65536" using pk by (simp_all add: packet_def)
  have tp: "tot_len s p = total s ps" using ch p by (cases ps) auto
  show ?thesis
  proof (cases "k + n \<le> total s ps")
    case False
    then show ?thesis using tp by (simp add: pbuf_memcmp_def)
  next
    case True
    obtain as qs i where l: "locate s ps k = (qs, i)" "ps = as @ qs" "k = total s as + i"
      using locate_split [of s ps k] by blast
    have cq: "chain s (hd0 qs) qs" using chain_suffix ch(1) l(2) by simp
    have d: "drop k (flat s ps) = drop i (flat s qs)" "k + total s qs = i + total s ps"
      using drop_locate [OF l(1)] True by simp_all
    have "i + n \<le> total s qs" "total s qs < 65536" using d(2) True l(2) ch(3) by simp_all
    then obtain r where r: "memcmp_loop s (hd0 qs) i s2 n 0 = Some r"
      "r = 0 \<longleftrightarrow> (\<forall>j. 0 \<le> j \<and> j < n \<longrightarrow> flat s qs ! (i + j) = bytes s (s2 + j))"
      using memcmp_loop_effect [OF cq, of i n 0 s2] by auto
    have "(\<forall>j. j < n \<longrightarrow> flat s qs ! (i + j) = bytes s (s2 + j)) \<longleftrightarrow> take n (drop i (flat s qs)) = read (bytes s) s2 n"
      using \<open>i + n \<le> total s qs\<close> by (auto simp: list_eq_iff_nth_eq read_nth)
    then show ?thesis
      using True tp r d(1) skip_loop_effect [OF ch(1) k] l(1) by (simp add: pbuf_memcmp_def)
  qed
qed

definition occurs_at :: "u8 list \<Rightarrow> u8 list \<Rightarrow> nat \<Rightarrow> bool" where
  "occurs_at text pat i \<longleftrightarrow> i + length pat \<le> length text \<and> take (length pat) (drop i text) = pat"

lemma memfind_loop_effect:
  assumes pk: "packet s p ps" and p: "p \<noteq> 0" and n: "n \<le> total s ps" and mx: "total s ps - n < 65535 \<or> occurs_at (flat s ps) (read (bytes s) a n) (total s ps - n)"
    and i: "i \<le> total s ps - n + 1"
  shows "\<exists>r. memfind_loop s p a n (total s ps - n) i = Some r \<and>
    (if \<exists>j\<ge>i. occurs_at (flat s ps) (read (bytes s) a n) j
     then i \<le> r \<and> occurs_at (flat s ps) (read (bytes s) a n) r \<and> (\<forall>j. i \<le> j \<and> j < r \<longrightarrow> \<not> occurs_at (flat s ps) (read (bytes s) a n) j)
     else r = 0xFFFF)"
  using i
proof (induction "total s ps - n + 1 - i" arbitrary: i)
  case 0
  then have "\<not> i \<le> total s ps - n" by simp
  moreover have "\<not> occurs_at (flat s ps) (read (bytes s) a n) j" if "j \<ge> i" for j
    using that calculation n by (auto simp: occurs_at_def)
  ultimately show ?case by (subst memfind_loop.simps) auto
next
  case (Suc k)
  then have i: "i \<le> total s ps - n" by simp
  have lt: "total s ps < 65536" using pk by (simp add: packet_def)
  have "i < 65536" using i lt by simp
  from pbuf_memcmp_effect [OF pk p this] obtain r where r: "pbuf_memcmp p i a n s = Some r"
    "r = 0 \<longleftrightarrow> occurs_at (flat s ps) (read (bytes s) a n) i"
    unfolding occurs_at_def by auto
  show ?case
  proof (cases "r = 0")
    case True
    then have "memfind_loop s p a n (total s ps - n) i = Some i"
      using r i by (subst memfind_loop.simps) simp
    then show ?thesis using r True by auto
  next
    case False
    then have "i < 65535" using mx r(2) i lt by (cases "i = total s ps - n") auto
    then have "memfind_loop s p a n (total s ps - n) i = memfind_loop s p a n (total s ps - n) (i + 1)"
      using r i False by (subst memfind_loop.simps) (simp add: to16_def)
    moreover have "\<exists>r. memfind_loop s p a n (total s ps - n) (i + 1) = Some r \<and>
      (if \<exists>j\<ge>i + 1. occurs_at (flat s ps) (read (bytes s) a n) j
       then i + 1 \<le> r \<and> occurs_at (flat s ps) (read (bytes s) a n) r \<and>
         (\<forall>j. i + 1 \<le> j \<and> j < r \<longrightarrow> \<not> occurs_at (flat s ps) (read (bytes s) a n) j)
       else r = 0xFFFF)"
      using Suc.hyps(1) [of "i + 1"] Suc.hyps(2) i by simp
    moreover have "(\<exists>j\<ge>i. occurs_at (flat s ps) (read (bytes s) a n) j) \<longleftrightarrow> (\<exists>j\<ge>i + 1. occurs_at (flat s ps) (read (bytes s) a n) j)"
      using r(2) False by (metis Suc_eq_plus1 Suc_leI le_eq_less_or_eq Suc_leD)
    moreover have "j = i \<or> i + 1 \<le> j" if "i \<le> j" for j using that by auto
    ultimately show ?thesis using r(2) False by (smt (verit) Suc_eq_plus1 Suc_leD)
  qed
qed

section \<open>Copying between chains\<close>

definition no_empty :: "pbufs \<Rightarrow> nat list \<Rightarrow> bool" where
  "no_empty s ps \<longleftrightarrow> (\<forall>q \<in> set ps. 0 < p_len s q)"

lemma no_empty_bytes [simp]: "no_empty (s\<lparr>bytes := m\<rparr>) ps = no_empty s ps"
  by (simp add: no_empty_def)

lemma total_0_no_empty: "no_empty s ps \<Longrightarrow> total s ps = 0 \<Longrightarrow> ps = []"
  by (cases ps) (simp_all add: no_empty_def)

lemma chain_next: "chain s p (as @ q # qs) \<Longrightarrow> p_next s q = hd0 qs"
  using chain_rest chain_hd0 by metis

lemma queue_end:
  assumes "packet s p ps" and "no_empty s ps" and "x \<in> set ps" and "p_len s x = tot_len s x"
  shows "p_next s x = 0"
proof -
  obtain as bs where ps: "ps = as @ x # bs" using assms(3) by (metis split_list)
  have "tot_len s x = p_len s x + total s bs"
    using tot_ok_suffix [of s as "x # bs"] assms(1) ps by (simp add: packet_def)
  then have "bs = []" using assms(2,4) ps total_0_no_empty [of s bs] by (simp add: no_empty_def)
  then show ?thesis using chain_next [of s p as x bs] assms(1) ps by (simp add: packet_def)
qed

lemma copy_pbuf_step:
  assumes t: "packet s pt (ds @ q # qs)" "no_empty s (ds @ q # qs)" and f: "packet s pf (es @ f # gs)" "no_empty s (es @ f # gs)"
    and ot: "ot < p_len s q" and offr: "offr < p_len s f"
    and n: "ot + n \<le> p_len s q + total s qs" "offr + n \<le> p_len s f + total s gs"
    and k: "k = min n (min (p_len s q - ot) (p_len s f - offr))"
    and s1: "s1 = s\<lparr>bytes := store (payload s q + ot) (read (bytes s) (payload s f + offr) k) (bytes s)\<rparr>"
  shows "copy_pbuf_loop q f n ot offr s =
    (if n = k then Some (s1, ERR_OK)
     else copy_pbuf_loop (if ot + k = p_len s q then hd0 qs else q) (if offr + k = p_len s f then hd0 gs else f) (n - k)
       (if ot + k = p_len s q then 0 else ot + k) (if offr + k = p_len s f then 0 else offr + k) s1)"
proof -
  have ts: "total s (ds @ q # qs) < 65536" "total s (es @ f # gs) < 65536" using t(1) f(1) by (simp_all add: packet_def)
  have ct: "chain s pt (ds @ q # qs)" and cf: "chain s pf (es @ f # gs)" using t(1) f(1) by (simp_all add: packet_def)
  have ln: "p_len s q < 65536" "p_len s f < 65536" using ts by simp_all
  have sb: "sub32 (p_len s q) ot = p_len s q - ot" "sub32 (p_len s f) offr = p_len s f - offr"
    
    using ot offr ln by (simp_all add: sub32_le)
  have mn: "min n (if p_len s q - ot \<ge> p_len s f - offr then p_len s f - offr else p_len s q - ot) = k"
    unfolding k min_def by auto
  have mc: "memcpy (payload s q + ot) (payload s f + offr) k s = s1" by (simp add: s1 memcpy_def)
  have kn: "k \<le> n" "ot + k \<le> p_len s q" "offr + k \<le> p_len s f" using ot offr by (auto simp: k)
  have w: "to16 (n + 65536 - k) = n - k" using kn(1) n ts by (intro to16_diff) simp_all
  have fd: "offr + k \<ge> p_len s f \<longleftrightarrow> offr + k = p_len s f" using kn by auto
  have nx: "p_next s q = hd0 qs" "p_next s f = hd0 gs"
    using chain_next [OF ct] chain_next [OF cf] by simp_all
  have keep [simp]: "p_len s1 = p_len s" "tot_len s1 = tot_len s" "p_next s1 = p_next s" by (simp_all add: s1)
  have ne: "hd0 qs \<noteq> 0" if "n \<noteq> k" "ot + k = p_len s q"
  proof -
    have "qs \<noteq> []" using that n kn by auto
    then obtain r rs where "qs = r # rs" by (cases qs) auto
    then show ?thesis using chain_nonzero [OF ct] by simp
  qed
  have ne': "hd0 gs \<noteq> 0" if "n \<noteq> k" "offr + k = p_len s f"
  proof -
    have "gs \<noteq> []" using that n kn by auto
    then obtain r rs where "gs = r # rs" by (cases gs) auto
    then show ?thesis using chain_nonzero [OF cf] by simp
  qed
  have qe: "\<not> (x \<noteq> 0 \<and> p_len s x = tot_len s x \<and> p_next s x \<noteq> 0)" if "x \<in> {q, hd0 qs}" for x
  proof (cases "x = 0")
    case False
    then have "x \<in> set (ds @ q # qs)" using that by (cases qs) auto
    then show ?thesis using queue_end [OF t, of x] by simp
  qed simp
  have qe': "\<not> (x \<noteq> 0 \<and> p_len s x = tot_len s x \<and> p_next s x \<noteq> 0)" if "x \<in> {f, hd0 gs}" for x
  proof (cases "x = 0")
    case False
    then have "x \<in> set (es @ f # gs)" using that by (cases gs) auto
    then show ?thesis using queue_end [OF f, of x] by simp
  qed simp
  have q0: "n - k = 0 \<longleftrightarrow> n = k" using kn by auto
  define td where "td \<longleftrightarrow> ot + k = p_len s q"
  define fd' where "fd' \<longleftrightarrow> offr + k = p_len s f"
  define q' where "q' = (if td then hd0 qs else q)"
  define f' where "f' = (if fd' then hd0 gs else f)"
  have e1: "(fd' \<and> \<not> (f' \<noteq> 0 \<or> n = k)) = False" using ne' by (auto simp: f'_def fd'_def)
  have e2: "(td \<and> \<not> (q' \<noteq> 0 \<or> n = k)) = False" using ne by (auto simp: q'_def td_def)
  have e3: "(f' \<noteq> 0 \<and> p_len s f' = tot_len s f' \<and> p_next s f' \<noteq> 0) = False"
    using qe' [of f'] by (auto simp: f'_def)
  have e4: "(q' \<noteq> 0 \<and> p_len s q' = tot_len s q' \<and> p_next s q' \<noteq> 0) = False"
    using qe [of q'] by (auto simp: q'_def)
  have "copy_pbuf_loop q f n ot offr s =
    (if n \<noteq> k then copy_pbuf_loop q' f' (n - k) (if td then 0 else ot + k) (if fd' then 0 else offr + k) s1
     else Some (s1, ERR_OK))"
    by (subst copy_pbuf_loop.simps)
      (simp only: Let_def sb mn mc w fd nx q0 keep td_def [symmetric] fd'_def [symmetric] q'_def [symmetric] f'_def [symmetric] e1 e2 e3 e4 if_False)
  then show ?thesis unfolding q'_def f'_def td_def fd'_def by simp
qed

lemma copy_pbuf_loop_effect:
  assumes "packet s pt ts" "no_empty s ts" "apart s ts" and "packet s pf fs" "no_empty s fs"
    and "\<forall>x \<in> set fs. clear_of s ts (payload s x) (p_len s x)"
    and "ts = ds @ q # qs" "fs = es @ f # gs" and "ot < p_len s q" "offr < p_len s f"
    and "ot + n \<le> p_len s q + total s qs" "offr + n \<le> p_len s f + total s gs"
    and "a = total s ds + ot" "b = total s es + offr"
  shows "\<exists>m. copy_pbuf_loop q f n ot offr s = Some (s\<lparr>bytes := m\<rparr>, ERR_OK) \<and>
    flat (s\<lparr>bytes := m\<rparr>) ts = take a (flat s ts) @ take n (drop b (flat s fs)) @ drop (a + n) (flat s ts)"
  using assms
proof (induction "length qs + length gs" arbitrary: ds q qs es f gs ot offr n s a b rule: less_induct)
  case less
  define k where "k = min n (min (p_len s q - ot) (p_len s f - offr))"
  define bs where "bs = read (bytes s) (payload s f + offr) k"
  define s1 where "s1 = s\<lparr>bytes := store (payload s q + ot) bs (bytes s)\<rparr>"
  have kn: "k \<le> n" "ot + k \<le> p_len s q" "offr + k \<le> p_len s f" using less.prems(9,10) by (auto simp: k_def)
  have lb [simp]: "length bs = k" by (simp add: bs_def)
  note step = copy_pbuf_step [OF less.prems(1,2) [unfolded less.prems(7)] less.prems(4,5) [unfolded less.prems(8)]
      less.prems(9-12) k_def s1_def [unfolded bs_def]]
  have cl: "clear_of s [x] (payload s q + ot) k" if "x \<in> set fs" for x
  proof -
    have "region (payload s q) (p_len s q) \<inter> region (payload s x) (p_len s x) = {}"
      using less.prems(6,7) that by (auto simp: clear_of_def)
    moreover have "region (payload s q + ot) k \<subseteq> region (payload s q) (p_len s q)"
      by (rule region_mono) (use kn in simp_all)
    ultimately show ?thesis by (auto simp: clear_of_def)
  qed
  have ffs: "flat s1 fs = flat s fs" unfolding s1_def
    by (rule flat_store) (use cl in \<open>simp add: clear_of_def\<close>)
  have fts: "flat s1 ts = take a (flat s ts) @ bs @ drop (a + k) (flat s ts)"
    using store_in_one [of s ds q qs ot bs] less.prems(3,7,9,13) kn by (simp add: s1_def)
  have bs: "bs = take k (drop b (flat s fs))"
    using less.prems(8,10,14) kn by (simp add: bs_def drop_read take_read)
  have keep [simp]: "p_len s1 = p_len s" "payload s1 = payload s" "total s1 xs = total s xs" for xs by (simp_all add: s1_def)
  show ?case
  proof (cases "n = k")
    case True
    then have "copy_pbuf_loop q f n ot offr s = Some (s1, ERR_OK)" using step by simp
    then show ?thesis using fts bs True by (auto simp: s1_def)
  next
    case False
    let ?td = "ot + k = p_len s q" and ?fd = "offr + k = p_len s f"
    have dn: "?td \<or> ?fd" using False less.prems(9,10) by (auto simp: k_def min_def split: if_splits)
    obtain ds' q' qs' ot' where t': "ts = ds' @ q' # qs'" "q' = (if ?td then hd0 qs else q)" "ot' = (if ?td then 0 else ot + k)"
      "ot' < p_len s q'" "ot' + (n - k) \<le> p_len s q' + total s qs'" "a + k = total s ds' + ot'"
      "length qs' + (if ?td then 1 else 0) = length qs"
    proof (cases ?td)
      case True
      then have "qs \<noteq> []" using False kn less.prems(11) by auto
      then obtain r rs where qs: "qs = r # rs" by (cases qs) auto
      have "0 < p_len s r" using less.prems(2,7) qs by (simp add: no_empty_def)
      then show ?thesis
        by (intro that [of "ds @ [q]" r rs 0]) (use True qs less.prems(7,11,13) kn in auto)
    next
      case nd: False
      show ?thesis by (intro that [of ds q qs "ot + k"]) (use nd less.prems(7,11,13) kn in auto)
    qed
    obtain es' f' gs' offr' where f': "fs = es' @ f' # gs'" "f' = (if ?fd then hd0 gs else f)" "offr' = (if ?fd then 0 else offr + k)"
      "offr' < p_len s f'" "offr' + (n - k) \<le> p_len s f' + total s gs'" "b + k = total s es' + offr'"
      "length gs' + (if ?fd then 1 else 0) = length gs"
    proof (cases ?fd)
      case True
      then have "gs \<noteq> []" using False kn less.prems(12) by auto
      then obtain r rs where gs: "gs = r # rs" by (cases gs) auto
      have "0 < p_len s r" using less.prems(5,8) gs by (simp add: no_empty_def)
      then show ?thesis
        by (intro that [of "es @ [f]" r rs 0]) (use True gs less.prems(8,12,14) kn in auto)
    next
      case nd: False
      show ?thesis by (intro that [of es f gs "offr + k"]) (use nd less.prems(8,12,14) kn in auto)
    qed
    have run: "copy_pbuf_loop q f n ot offr s = copy_pbuf_loop q' f' (n - k) ot' offr' s1"
      using step False t'(2,3) f'(2,3) by simp
    have pk1: "packet s1 pt ts" "packet s1 pf fs" using less.prems(1,4) by (simp_all add: s1_def packet_def)
    have "\<exists>m. copy_pbuf_loop q' f' (n - k) ot' offr' s1 = Some (s1\<lparr>bytes := m\<rparr>, ERR_OK) \<and>
      flat (s1\<lparr>bytes := m\<rparr>) ts = take (a + k) (flat s1 ts) @ take (n - k) (drop (b + k) (flat s1 fs)) @ drop (a + k + (n - k)) (flat s1 ts)"
    proof (rule less.hyps)
      show "length qs' + length gs' < length qs + length gs" using dn t'(7) f'(7) by (auto split: if_splits)
      show "\<forall>x\<in>set fs. clear_of s1 ts (payload s1 x) (p_len s1 x)" using less.prems(6) by (simp add: clear_of_def)
    qed (use less.prems(2,3,5) pk1 t' f' in \<open>simp_all add: s1_def\<close>)
    then obtain m where m: "copy_pbuf_loop q' f' (n - k) ot' offr' s1 = Some (s1\<lparr>bytes := m\<rparr>, ERR_OK)"
      "flat (s1\<lparr>bytes := m\<rparr>) ts = take (a + k) (flat s1 ts) @ take (n - k) (drop (b + k) (flat s1 fs)) @ drop (a + k + (n - k)) (flat s1 ts)"
      by blast
    have la: "length (take a (flat s ts)) = a" using less.prems(7,9,13) by simp
    have "take (a + k) (flat s1 ts) = take a (flat s ts) @ bs" unfolding fts using la by simp
    moreover have "drop (a + k + (n - k)) (flat s1 ts) = drop (a + n) (flat s ts)"
      unfolding fts using la kn(1) by (simp add: add.commute)
    moreover have "take n (drop b (flat s fs)) = bs @ take (n - k) (drop (b + k) (flat s fs))"
      using take_add [of k "n - k" "drop b (flat s fs)"] kn(1) bs by (simp add: add.commute)
    ultimately have "flat (s1\<lparr>bytes := m\<rparr>) ts = take a (flat s ts) @ take n (drop b (flat s fs)) @ drop (a + n) (flat s ts)"
      using m(2) ffs by simp
    then show ?thesis using run m(1) by (auto simp: s1_def)
  qed
qed

lemma packet_bytes [simp]: "packet (s\<lparr>bytes := m\<rparr>) p ps = packet s p ps"
  by (simp add: packet_def)

lemma pbuf_copy_partial_effect:
  assumes "packet s p ps" and "p \<noteq> 0" and "clear_of s ps d len" and "d \<noteq> 0" and "len < 65536" and "k < 65536"
  shows "pbuf_copy_partial p d len k s =
    (let bs = take len (drop k (flat s ps)) in Some (s\<lparr>bytes := store d bs (bytes s)\<rparr>, length bs))"
  using copy_partial_loop_effect [of s p ps k len 0 d 0] assms by (simp add: pbuf_copy_partial_def packet_def)

text \<open>The overrun of \<^verbatim>\<open>pbuf_copy_partial_pbuf\<close>: an offset past the first structure of the target.\<close>

definition two_targets :: pbufs where
  "two_targets = (pbufs_reset [])\<lparr>p_next := (\<lambda>_. 0)(32 := 64), payload := (\<lambda>_. 0)(32 := 100, 64 := 200, 96 := 300),
     p_len := (\<lambda>_. 0)(32 := 4, 64 := 4, 96 := 2), tot_len := (\<lambda>_. 0)(32 := 8, 64 := 4, 96 := 2),
     bytes := (\<lambda>_. 0)(300 := 7, 301 := 9)\<rparr>"

section \<open>Properties\<close>

text \<open>
  C31: Bytes written into a packet are the bytes read from it. \<^verbatim>\<open>pbuf_take_at\<close> replaces exactly the \<open>len\<close>
  bytes from the offset on, over any number of structures, and \<^verbatim>\<open>pbuf_copy_partial\<close> of the same range then delivers
  all of them to the destination, the packet unchanged.
\<close>
theorem pbuf_data_roundtrip:
  assumes pk: "packet s p ps" and ap: "apart s ps" and src: "clear_of s ps src len" "src \<noteq> 0"
    and dst: "clear_of s ps dst len" "dst \<noteq> 0" and k: "k < total s ps" "k + len \<le> total s ps"
  shows "\<exists>s1 s2. pbuf_take_at p src len k s = Some (s1, ERR_OK) \<and>
    flat s1 ps = take k (flat s ps) @ read (bytes s) src len @ drop (k + len) (flat s ps) \<and>
    pbuf_copy_partial p dst len k s1 = Some (s2, len) \<and> read (bytes s2) dst len = read (bytes s) src len \<and>
    flat s2 ps = flat s1 ps"
proof -
  obtain m where m: "pbuf_take_at p src len k s = Some (s\<lparr>bytes := m\<rparr>, ERR_OK)"
    "flat (s\<lparr>bytes := m\<rparr>) ps = take k (flat s ps) @ read (bytes s) src len @ drop (k + len) (flat s ps)"
    using pbuf_take_at_effect [OF pk ap src k] by blast
  let ?s1 = "s\<lparr>bytes := m\<rparr>"
  have lt: "total s ps < 65536" using pk by (simp add: packet_def)
  have p: "p \<noteq> 0" using pk k by (cases ps) (auto simp: packet_def)
  have bs: "take len (drop k (flat ?s1 ps)) = read (bytes s) src len" using m(2) k by simp
  have "pbuf_copy_partial p dst len k ?s1 = Some (?s1\<lparr>bytes := store dst (read (bytes s) src len) m\<rparr>, len)"
    using pbuf_copy_partial_effect [of ?s1 p ps dst len k] pk p dst k lt bs by (simp add: Let_def)
  moreover have "read (store dst (read (bytes s) src len) m) dst len = read (bytes s) src len"
    using read_store_same [of dst "read (bytes s) src len" m] by simp
  moreover have "flat (?s1\<lparr>bytes := store dst (read (bytes s) src len) m\<rparr>) ps = flat ?s1 ps"
    using flat_store [of ?s1 ps dst "read (bytes s) src len"] dst by simp
  ultimately show ?thesis using m by (intro exI [of _ ?s1] exI) auto
qed

theorem pbuf_data_roundtrip_witness:
  "\<exists>s1 s2. pbuf_take_at 32 300 2 3 two_targets = Some (s1, ERR_OK) \<and> flat s1 [32, 64] = [0, 0, 0, 7, 9, 0, 0, 0] \<and>
     pbuf_copy_partial 32 400 2 3 s1 = Some (s2, 2) \<and> read (bytes s2) 400 2 = [7, 9]"
proof -
  have "packet two_targets 32 [32, 64]" "apart two_targets [32, 64]" "total two_targets [32, 64] = 8"
    "clear_of two_targets [32, 64] 300 2" "clear_of two_targets [32, 64] 400 2"
    "flat two_targets [32, 64] = [0, 0, 0, 0, 0, 0, 0, 0]" "read (bytes two_targets) 300 2 = [7, 9]"
    by (simp_all add: two_targets_def packet_def clear_of_def region_def read_def upt_rec)
  then show ?thesis
    using pbuf_data_roundtrip [of two_targets 32 "[32, 64]" 300 2 400 3] by (auto simp: numeral_eq_Suc)
qed

text \<open>
  C11: \<^verbatim>\<open>pbuf_copy\<close>. A packet is copied whole into one at least as long, the bytes after it in the target unchanged, however
  the two are split into structures, as long as neither has an empty structure and they do not overlap. A target that is
  too short is refused with \<^verbatim>\<open>ERR_ARG\<close> and nothing is written.
\<close>
theorem pbuf_copy_copies:
  assumes t: "packet s pt ts" "no_empty s ts" "apart s ts" "ts \<noteq> []" and f: "packet s pf fs" "no_empty s fs" "fs \<noteq> []"
    and sep: "\<forall>x \<in> set fs. clear_of s ts (payload s x) (p_len s x)"
  shows "if total s fs \<le> total s ts
    then \<exists>m. pbuf_copy pt pf s = Some (s\<lparr>bytes := m\<rparr>, ERR_OK) \<and>
      flat (s\<lparr>bytes := m\<rparr>) ts = flat s fs @ drop (total s fs) (flat s ts)
    else pbuf_copy pt pf s = Some (s, ERR_ARG)"
proof -
  obtain q qs where ts: "ts = [] @ q # qs" using t(4) by (cases ts) auto
  obtain g gs where fs: "fs = [] @ g # gs" using f(3) by (cases fs) auto
  have hd: "pt = q" "q \<noteq> 0" "pf = g" "g \<noteq> 0" "tot_len s q = total s ts" "tot_len s g = total s fs"
    "0 < p_len s q" "0 < p_len s g"
    using t f ts fs by (simp_all add: packet_def no_empty_def)
  show ?thesis
  proof (cases "total s fs \<le> total s ts")
    case True
    have "\<exists>m. copy_pbuf_loop q g (total s fs) 0 0 s = Some (s\<lparr>bytes := m\<rparr>, ERR_OK) \<and>
      flat (s\<lparr>bytes := m\<rparr>) ts = take 0 (flat s ts) @ take (total s fs) (drop 0 (flat s fs)) @ drop (0 + total s fs) (flat s ts)"
      by (rule copy_pbuf_loop_effect [OF t(1-3) f(1,2) sep ts fs]) (use True ts fs hd in auto)
    then show ?thesis using True hd by (simp add: pbuf_copy_def pbuf_copy_partial_pbuf_def)
  next
    case False
    then show ?thesis using hd by (simp add: pbuf_copy_def pbuf_copy_partial_pbuf_def)
  qed
qed

theorem pbuf_copy_copies_witness:
  "\<exists>m. pbuf_copy 32 96 two_targets = Some (two_targets\<lparr>bytes := m\<rparr>, ERR_OK) \<and>
     flat (two_targets\<lparr>bytes := m\<rparr>) [32, 64] = [7, 9, 0, 0, 0, 0, 0, 0]"
proof -
  have "packet two_targets 32 [32, 64]" "apart two_targets [32, 64]" "total two_targets [32, 64] = 8"
    "packet two_targets 96 [96]" "no_empty two_targets [96]" "no_empty two_targets [32, 64]" "total two_targets [96] = 2"
    "\<forall>x \<in> set [96]. clear_of two_targets [32, 64] (payload two_targets x) (p_len two_targets x)"
    "flat two_targets [32, 64] = [0, 0, 0, 0, 0, 0, 0, 0]" "flat two_targets [96] = [7, 9]"
    by (simp_all add: two_targets_def packet_def clear_of_def region_def read_def upt_rec no_empty_def)
  then show ?thesis
    using pbuf_copy_copies [of two_targets 32 "[32, 64]" 96 "[96]"] by (simp add: numeral_eq_Suc del: flat_simps)
qed

text \<open>
  A source whose last structure is empty: the structure before it then looks like the last of its packet, and the copy is refused as
  one of a queue when it gets there, with the bytes of the structures before it written.
\<close>

lemma pbuf_copy_empty_tail:
  assumes "p_from \<noteq> 0" "p_to \<noteq> 0" "g = p_next s p_from" "g \<noteq> 0" "p_next s g \<noteq> 0" "p_len s g = tot_len s g"
    and "tot_len s p_from = p_len s p_from + p_len s g" "tot_len s p_from < 65536" "p_len s g \<noteq> 0"
    and "tot_len s p_from \<le> p_len s p_to" "p_len s p_to \<le> tot_len s p_to" "p_len s p_to < 65536"
  shows "pbuf_copy p_to p_from s = Some (memcpy (payload s p_to) (payload s p_from) (p_len s p_from) s, ERR_VAL)"
proof -
  have "copy_pbuf_loop p_to p_from (tot_len s p_from) 0 0 s =
      Some (memcpy (payload s p_to) (payload s p_from) (p_len s p_from) s, ERR_VAL)"
    using assms by (subst copy_pbuf_loop.simps) (simp add: Let_def sub32_def to16_def memcpy_def)
  then show ?thesis using assms by (simp add: pbuf_copy_def pbuf_copy_partial_pbuf_def)
qed

text \<open>An offset past the first structure writes behind its payload.\<close>

lemma read_2: "read m a 2 = [m a, m (a + 1)]"
  by (simp add: read_def numeral_2_eq_2)

lemma two_targets_simps:
  "p_len two_targets 32 = 4" "p_len two_targets 96 = 2" "tot_len two_targets 32 = 8" "tot_len two_targets 96 = 2"
  "payload two_targets 32 = 100" "payload two_targets 96 = 300" "p_next two_targets 96 = 0" "p_next two_targets 32 = 64"
  "bytes two_targets 300 = 7" "bytes two_targets 301 = 9"
  by (simp_all add: two_targets_def pbufs_reset_def)

lemma copy_offset_overrun:
  "pbuf_copy_partial_pbuf 32 96 2 5 two_targets = Some (two_targets\<lparr>bytes := store 105 [7, 9] (bytes two_targets)\<rparr>, ERR_OK)"
proof -
  have "sub32 4 5 = 4294967295" "sub32 2 0 = 2" "to16 65536 = 0" by (simp_all add: sub32_def to16_def)
  then show ?thesis
    by (subst pbuf_copy_partial_pbuf_def, subst copy_pbuf_loop.simps)
      (simp add: Let_def memcpy_def read_2 two_targets_simps)
qed

text \<open>
  \<^verbatim>\<open>pbuf_memfind\<close> and \<^verbatim>\<open>pbuf_memcmp\<close>. The search over a packet returns the least offset from the start
  offset on at which the bytes looked for occur in the packet's bytes, also across structures, and 0xFFFF when there is none. It
  always ends.
\<close>
theorem pbuf_memfind_least:
  assumes pk: "packet s p ps" and p: "p \<noteq> 0" and n: "0 < n" and i: "i < 65536"
  shows "\<exists>r. pbuf_memfind p a n i s = Some r \<and>
    (if \<exists>j\<ge>i. occurs_at (flat s ps) (read (bytes s) a n) j
     then i \<le> r \<and> occurs_at (flat s ps) (read (bytes s) a n) r \<and>
       (\<forall>j. i \<le> j \<and> j < r \<longrightarrow> \<not> occurs_at (flat s ps) (read (bytes s) a n) j)
     else r = 0xFFFF)"
proof -
  have ch: "chain s p ps" "tot_ok s ps" "total s ps < 65536" using pk by (simp_all add: packet_def)
  have tp: "tot_len s p = total s ps" using ch p by (cases ps) auto
  show ?thesis
  proof (cases "n + i \<le> total s ps")
    case True
    have "to16 (total s ps + 65536 - n) = total s ps - n" using True ch(3) by (intro to16_diff) simp_all
    then have "pbuf_memfind p a n i s = memfind_loop s p a n (total s ps - n) i" using True tp by (simp add: pbuf_memfind_def)
    moreover have "n \<le> total s ps" "total s ps - n < 65535" "i \<le> total s ps - n + 1" using True ch(3) n by simp_all
    ultimately show ?thesis using memfind_loop_effect [OF pk p, of n a i] by simp
  next
    case False
    then have "\<not> (\<exists>j\<ge>i. occurs_at (flat s ps) (read (bytes s) a n) j)" by (auto simp: occurs_at_def)
    then show ?thesis using False tp by (auto simp: pbuf_memfind_def)
  qed
qed

theorem pbuf_memfind_least_witness:
  "pbuf_memfind 32 301 1 0 (two_targets\<lparr>bytes := (\<lambda>_. 0)(201 := 9, 301 := 9)\<rparr>) = Some 5"
proof -
  let ?s = "two_targets\<lparr>bytes := (\<lambda>_. 0)(201 := 9, 301 := 9)\<rparr>"
  have pk: "packet ?s 32 [32, 64]" by (simp add: two_targets_def packet_def)
  have fl: "flat ?s [32, 64] = [0, 0, 0, 0, 0, 9, 0, 0]" "read (bytes ?s) 301 1 = [9]"
    by (simp_all add: two_targets_def read_def upt_rec)
  have oc: "occurs_at [0, 0, 0, 0, 0, 9, 0, 0] [9 :: u8] j \<longleftrightarrow> j = 5" for j
  proof -
    have "j \<in> {0, 1, 2, 3, 4, 5, 6, 7} \<or> 8 \<le> j" by auto
    then show ?thesis by (auto simp: occurs_at_def)
  qed
  have w: "\<exists>r. pbuf_memfind 32 301 1 0 ?s = Some r \<and>
    (if \<exists>j\<ge>0. j = (5 :: nat) then 0 \<le> r \<and> r = 5 \<and> (\<forall>j. 0 \<le> j \<and> j < r \<longrightarrow> \<not> j = 5) else r = 0xFFFF)"
    by (rule pbuf_memfind_least [OF pk, of 1 0 301, unfolded fl oc]) simp_all
  then show ?thesis by auto
qed

end
