(* ===== verification/Lwip_Timeouts.thy ===== *)
theory Lwip_Timeouts
  imports Prelude_Base "HOL-Library.Multiset" "HOL-Library.Sublist"
begin

text \<open>
  The timers of the TCP/IP stack (\<^verbatim>\<open>middlewares/lwip/src/core/timeouts.c\<close>): a list of entries in the order
  they are due, on a 32-bit millisecond clock that wraps around. The chain of entries is a list; the pool they
  come from is the number of its free elements. The work that a timer of the stack does is code of other files: it
  is an argument, which may take time. \<open>None\<close> is a loop that does not end.
\<close>

section \<open>The timers\<close>

datatype sys_timeout_handler = NO_HANDLER | LWIP_CYCLIC_TIMER | TCPIP_TCP_TIMER | APP_HANDLER nat

record sys_timeo =
  time :: u32
  h :: sys_timeout_handler
  arg :: nat

record timers =
  next_timeout :: "sys_timeo list"
  current_timeout_due_time :: u32
  sys_timeout_pool :: nat
  sys_now :: u32
  tcpip_tcp_timer_active :: bool
  tcp_pcbs :: bool

definition TIME_LESS_THAN :: "u32 \<Rightarrow> u32 \<Rightarrow> bool" where
  "TIME_LESS_THAN t compare_to \<longleftrightarrow> t - compare_to > 0x7fffffff"

text \<open>The place of an entry in a list whose first entry is not after it.\<close>

fun insert_after :: "sys_timeo \<Rightarrow> sys_timeo list \<Rightarrow> sys_timeo list" where
  "insert_after timeout [] = []"
| "insert_after timeout (t # ts) =
     (if ts = [] \<or> TIME_LESS_THAN (time timeout) (time (hd ts)) then t # timeout # ts
      else t # insert_after timeout ts)"

definition sys_timeout_abs :: "u32 \<Rightarrow> sys_timeout_handler \<Rightarrow> nat \<Rightarrow> timers \<Rightarrow> timers" where
  "sys_timeout_abs abs_time handler ar s =
    (if sys_timeout_pool s = 0 then s
     else
       (let s = s\<lparr>sys_timeout_pool := sys_timeout_pool s - 1\<rparr>;
            timeout = \<lparr>time = abs_time, h = handler, arg = ar\<rparr>
        in if next_timeout s = [] then s\<lparr>next_timeout := [timeout]\<rparr>
           else if TIME_LESS_THAN (time timeout) (time (hd (next_timeout s)))
           then s\<lparr>next_timeout := timeout # next_timeout s\<rparr>
           else s\<lparr>next_timeout := insert_after timeout (next_timeout s)\<rparr>))"

definition sys_timeout :: "u32 \<Rightarrow> sys_timeout_handler \<Rightarrow> nat \<Rightarrow> timers \<Rightarrow> timers" where
  "sys_timeout msecs handler ar s = sys_timeout_abs (sys_now s + msecs) handler ar s"

text \<open>The intervals of the cyclic timers; their handlers are functions of other files.\<close>

definition lwip_cyclic_timers :: "u32 list" where
  "lwip_cyclic_timers = [250, 1000, 1000, 60000, 500, 100, 1000, 1000, 1000, 100, 500]"

definition lwip_cyclic_timer :: "(nat \<Rightarrow> timers \<Rightarrow> timers) \<Rightarrow> nat \<Rightarrow> timers \<Rightarrow> timers" where
  "lwip_cyclic_timer handler ar s =
    (let s = handler ar s;
         now = sys_now s;
         next_timeout_time = current_timeout_due_time s + lwip_cyclic_timers ! ar
     in if TIME_LESS_THAN next_timeout_time now
        then sys_timeout_abs (now + lwip_cyclic_timers ! ar) LWIP_CYCLIC_TIMER ar s
        else sys_timeout_abs next_timeout_time LWIP_CYCLIC_TIMER ar s)"

definition sys_timeouts_init :: "timers \<Rightarrow> timers" where
  "sys_timeouts_init s =
    fold (\<lambda>i. sys_timeout (lwip_cyclic_timers ! i) LWIP_CYCLIC_TIMER i) [1..<length lwip_cyclic_timers] s"

definition tcpip_tcp_timer :: "(timers \<Rightarrow> timers) \<Rightarrow> timers \<Rightarrow> timers" where
  "tcpip_tcp_timer tcp_tmr s =
    (let s = tcp_tmr s in
     if tcp_pcbs s then sys_timeout 250 TCPIP_TCP_TIMER 0 s else s\<lparr>tcpip_tcp_timer_active := False\<rparr>)"

definition tcp_timer_needed :: "timers \<Rightarrow> timers" where
  "tcp_timer_needed s =
    (if \<not> tcpip_tcp_timer_active s \<and> tcp_pcbs s
     then sys_timeout 250 TCPIP_TCP_TIMER 0 (s\<lparr>tcpip_tcp_timer_active := True\<rparr>) else s)"

text \<open>The call of a handler, for the timers of the stack itself; those of applications are an argument.\<close>

definition call_handler ::
  "(nat \<Rightarrow> timers \<Rightarrow> timers) \<Rightarrow> (timers \<Rightarrow> timers) \<Rightarrow> (nat \<Rightarrow> nat \<Rightarrow> timers \<Rightarrow> timers) \<Rightarrow> sys_timeout_handler \<Rightarrow> nat \<Rightarrow> timers \<Rightarrow> timers" where
  "call_handler handler tcp_tmr app hn ar s =
    (case hn of
       NO_HANDLER \<Rightarrow> s
     | LWIP_CYCLIC_TIMER \<Rightarrow> lwip_cyclic_timer handler ar s
     | TCPIP_TCP_TIMER \<Rightarrow> tcpip_tcp_timer tcp_tmr s
     | APP_HANDLER n \<Rightarrow> app n ar s)"

fun remove_timer :: "sys_timeout_handler \<Rightarrow> nat \<Rightarrow> sys_timeo list \<Rightarrow> sys_timeo list" where
  "remove_timer handler ar [] = []"
| "remove_timer handler ar (t # ts) = (if h t = handler \<and> arg t = ar then ts else t # remove_timer handler ar ts)"

definition sys_untimeout :: "sys_timeout_handler \<Rightarrow> nat \<Rightarrow> timers \<Rightarrow> timers" where
  "sys_untimeout handler ar s =
    (if \<exists>t \<in> set (next_timeout s). h t = handler \<and> arg t = ar
     then s\<lparr>next_timeout := remove_timer handler ar (next_timeout s), sys_timeout_pool := sys_timeout_pool s + 1\<rparr>
     else s)"

text \<open>One round of \<^verbatim>\<open>sys_check_timeouts\<close>: the first entry is taken off and its handler called.\<close>

definition serve :: "(sys_timeout_handler \<Rightarrow> nat \<Rightarrow> timers \<Rightarrow> timers) \<Rightarrow> sys_timeo \<Rightarrow> timers \<Rightarrow> timers" where
  "serve call t s =
    (let s = s\<lparr>next_timeout := tl (next_timeout s), current_timeout_due_time := time t,
               sys_timeout_pool := sys_timeout_pool s + 1\<rparr>
     in if h t \<noteq> NO_HANDLER then call (h t) (arg t) s else s)"

partial_function (option) check_loop ::
  "(sys_timeout_handler \<Rightarrow> nat \<Rightarrow> timers \<Rightarrow> timers) \<Rightarrow> u32 \<Rightarrow> timers \<Rightarrow> timers option" where
  "check_loop call now s =
    (case next_timeout s of
       [] \<Rightarrow> Some s
     | tmptimeout # _ \<Rightarrow>
         (if TIME_LESS_THAN now (time tmptimeout) then Some s else check_loop call now (serve call tmptimeout s)))"

definition sys_check_timeouts :: "(sys_timeout_handler \<Rightarrow> nat \<Rightarrow> timers \<Rightarrow> timers) \<Rightarrow> timers \<Rightarrow> timers option" where
  "sys_check_timeouts call s = check_loop call (sys_now s) s"

definition sys_restart_timeouts :: "timers \<Rightarrow> timers" where
  "sys_restart_timeouts s =
    (if next_timeout s = [] then s
     else
       (let base = time (hd (next_timeout s)) in
        s\<lparr>next_timeout := map (\<lambda>t. t\<lparr>time := (time t - base) + sys_now s\<rparr>) (next_timeout s)\<rparr>))"

definition sys_timeouts_sleeptime :: "timers \<Rightarrow> u32" where
  "sys_timeouts_sleeptime s =
    (if next_timeout s = [] then 0xFFFFFFFF
     else if TIME_LESS_THAN (time (hd (next_timeout s))) (sys_now s) then 0
     else time (hd (next_timeout s)) - sys_now s)"

section \<open>Time that wraps around\<close>

text \<open>The milliseconds from a base to a time.\<close>

definition since :: "u32 \<Rightarrow> u32 \<Rightarrow> nat" where "since b t = unat (t - b)"

abbreviation LWIP_MAX_TIMEOUT :: nat where "LWIP_MAX_TIMEOUT \<equiv> 0x7fffffff"

lemma time_less_unat: "TIME_LESS_THAN a t \<longleftrightarrow> LWIP_MAX_TIMEOUT < unat (a - t)"
  by (simp add: TIME_LESS_THAN_def word_less_nat_alt)

lemma time_less_since:
  assumes "since b a \<le> LWIP_MAX_TIMEOUT" and "since b t \<le> LWIP_MAX_TIMEOUT"
  shows "TIME_LESS_THAN a t \<longleftrightarrow> since b a < since b t"
proof -
  define x y where "x = a - b" and "y = t - b"
  have d: "a - t = x - y" by (simp add: x_def y_def)
  have xy: "unat x \<le> LWIP_MAX_TIMEOUT" "unat y \<le> LWIP_MAX_TIMEOUT" using assms by (simp_all add: since_def x_def y_def)
  show ?thesis
  proof (cases "unat y \<le> unat x")
    case True
    then have "unat (x - y) = unat x - unat y" by (simp add: unat_sub_small word_le_nat_alt)
    then show ?thesis using True xy by (simp add: time_less_unat d since_def x_def [symmetric] y_def [symmetric])
  next
    case False
    have u: "uint x = int (unat x)" "uint y = int (unat y)" by simp_all
    have i: "uint x < uint y" using False unfolding u by (simp only: of_nat_less_iff not_le)
    have "int (unat y) \<le> int 2147483647" using xy(2) by (simp only: of_nat_le_iff)
    then have j: "uint y \<le> 2147483647" "0 \<le> uint x" unfolding u by simp_all
    have "uint (x - y) = (uint x - uint y) mod 4294967296" by (simp add: uint_word_ariths)
    also have "\<dots> = (uint x - uint y + 4294967296) mod 4294967296" by (simp only: mod_add_self2)
    also have "\<dots> = uint x - uint y + 4294967296"
      by (rule mod_pos_pos_trivial) (use i j in linarith)+
    finally have "int (unat (x - y)) = int (unat x) - int (unat y) + 4294967296" by simp
    then have "unat (x - y) = 4294967296 - (unat y - unat x)" using False xy by linarith
    then show ?thesis using False xy by (simp add: time_less_unat d since_def x_def [symmetric] y_def [symmetric])
  qed
qed

text \<open>A list of timers in order, all within half of the clock's range from the base.\<close>

definition in_order :: "u32 \<Rightarrow> sys_timeo list \<Rightarrow> bool" where
  "in_order b ts \<longleftrightarrow> sorted (map (\<lambda>t. since b (time t)) ts) \<and> (\<forall>t \<in> set ts. since b (time t) \<le> LWIP_MAX_TIMEOUT)"

lemma in_order_simps [simp]:
  "in_order b []"
  "in_order b (t # ts) \<longleftrightarrow> since b (time t) \<le> LWIP_MAX_TIMEOUT \<and> (\<forall>u \<in> set ts. since b (time t) \<le> since b (time u)) \<and> in_order b ts"
  by (auto simp: in_order_def)

definition place :: "u32 \<Rightarrow> sys_timeo \<Rightarrow> sys_timeo list \<Rightarrow> sys_timeo list" where
  "place b t ts = takeWhile (\<lambda>u. since b (time u) \<le> since b (time t)) ts @ t #
     dropWhile (\<lambda>u. since b (time u) \<le> since b (time t)) ts"

lemma mset_place [simp]: "mset (place b t ts) = add_mset t (mset ts)"
proof -
  have "mset (takeWhile P ts) + mset (dropWhile P ts) = mset ts" for P :: "sys_timeo \<Rightarrow> bool"
    by (metis mset_append takeWhile_dropWhile_id)
  then show ?thesis by (simp add: place_def)
qed

lemma set_place [simp]: "set (place b t ts) = insert t (set ts)"
  by (metis mset_place set_mset_add_mset_insert set_mset_mset)

lemma insert_after_place:
  assumes "in_order b (u # ts)" and "since b (time t) \<le> LWIP_MAX_TIMEOUT" and "since b (time u) \<le> since b (time t)"
  shows "insert_after t (u # ts) = place b t (u # ts)"
  using assms
proof (induction ts arbitrary: u)
  case Nil
  then show ?case by (simp add: place_def)
next
  case (Cons v vs)
  have lt: "TIME_LESS_THAN (time t) (time v) \<longleftrightarrow> since b (time t) < since b (time v)"
    using Cons.prems by (intro time_less_since) simp_all
  show ?case
  proof (cases "since b (time t) < since b (time v)")
    case True
    then show ?thesis using lt Cons.prems by (simp add: place_def)
  next
    case False
    then have "insert_after t (v # vs) = place b t (v # vs)" using Cons by simp
    then show ?thesis using False lt Cons.prems by (simp add: place_def)
  qed
qed

lemma sys_timeout_abs_place:
  assumes "in_order b (next_timeout s)" and "since b a \<le> LWIP_MAX_TIMEOUT" and "0 < sys_timeout_pool s"
  shows "sys_timeout_abs a hn ar s =
    s\<lparr>sys_timeout_pool := sys_timeout_pool s - 1, next_timeout := place b \<lparr>time = a, h = hn, arg = ar\<rparr> (next_timeout s)\<rparr>"
proof (cases "next_timeout s")
  case Nil
  then show ?thesis using assms by (simp add: sys_timeout_abs_def place_def)
next
  case (Cons u ts)
  have lt: "TIME_LESS_THAN a (time u) \<longleftrightarrow> since b a < since b (time u)"
    using assms Cons by (intro time_less_since) simp_all
  show ?thesis
  proof (cases "since b a < since b (time u)")
    case True
    then show ?thesis using assms Cons lt by (simp add: sys_timeout_abs_def place_def Let_def)
  next
    case False
    then have "insert_after \<lparr>time = a, h = hn, arg = ar\<rparr> (u # ts) = place b \<lparr>time = a, h = hn, arg = ar\<rparr> (u # ts)"
      using assms Cons by (intro insert_after_place) simp_all
    then show ?thesis using False assms Cons lt by (simp add: sys_timeout_abs_def Let_def del: insert_after.simps)
  qed
qed

lemma place_in_order:
  assumes "in_order b ts" and "since b (time t) \<le> LWIP_MAX_TIMEOUT"
  shows "in_order b (place b t ts)"
  using assms
proof (induction ts)
  case (Cons u ts)
  show ?case
  proof (cases "since b (time u) \<le> since b (time t)")
    case True
    have "place b t (u # ts) = u # place b t ts" using True by (simp add: place_def)
    then show ?thesis using True Cons by auto
  next
    case False
    then show ?thesis using Cons.prems by (auto simp: place_def)
  qed
qed (simp add: place_def)

section \<open>Serving the timers that are due\<close>

definition due :: "u32 \<Rightarrow> u32 \<Rightarrow> sys_timeo list \<Rightarrow> sys_timeo list" where
  "due b now ts = takeWhile (\<lambda>t. since b (time t) \<le> since b now) ts"

lemma due_Cons: "due b now (t # ts) = (if since b (time t) \<le> since b now then t # due b now ts else [])"
  by (simp add: due_def)

lemma none_due: "in_order b ts \<Longrightarrow> due b now ts = [] \<Longrightarrow> \<forall>t \<in> set ts. since b now < since b (time t)"
  by (cases ts) (force simp: due_Cons split: if_splits)+

text \<open>A timer set for later than \<open>now\<close> is not due.\<close>

lemma due_place:
  assumes "in_order b ts" and "since b now < since b (time t)"
  shows "due b now (place b t ts) = due b now ts"
  using assms
proof (induction ts)
  case (Cons u ts)
  show ?case
  proof (cases "since b (time u) \<le> since b (time t)")
    case True
    have "place b t (u # ts) = u # place b t ts" using True by (simp add: place_def)
    then show ?thesis using Cons by (simp add: due_Cons)
  next
    case False
    then show ?thesis using Cons.prems by (simp add: place_def due_Cons)
  qed
qed (simp add: place_def due_def)

lemma sys_timeout_not_due:
  assumes "in_order b (next_timeout u)" and "since b now < since b (sys_now u + msecs)" and "since b (sys_now u + msecs) \<le> LWIP_MAX_TIMEOUT"
  shows "in_order b (next_timeout (sys_timeout msecs hn ar u)) \<and>
    due b now (next_timeout (sys_timeout msecs hn ar u)) = due b now (next_timeout u)"
proof (cases "sys_timeout_pool u = 0")
  case False
  then show ?thesis
    using sys_timeout_abs_place [OF assms(1,3), of hn ar] place_in_order [OF assms(1)] due_place [OF assms(1)] assms(2,3)
    by (simp add: sys_timeout_def)
qed (use assms in \<open>simp add: sys_timeout_def sys_timeout_abs_def\<close>)

text \<open>A timer set for \<open>now\<close> is due, after all others.\<close>

lemma due_place_now:
  assumes "in_order b ts" and "since b (time t) = since b now"
  shows "due b now (place b t ts) = due b now ts @ [t]"
  using assms
proof (induction ts)
  case (Cons u ts)
  show ?case
  proof (cases "since b (time u) \<le> since b (time t)")
    case True
    have "place b t (u # ts) = u # place b t ts" using True by (simp add: place_def)
    then show ?thesis using Cons True by (simp add: due_Cons)
  next
    case False
    then show ?thesis using Cons.prems by (simp add: place_def due_Cons)
  qed
qed (simp add: place_def due_def)

lemma since_add: "since b x + d \<le> LWIP_MAX_TIMEOUT \<Longrightarrow> since b (x + of_nat d) = since b x + d"
proof -
  assume d: "since b x + d \<le> LWIP_MAX_TIMEOUT"
  have n: "unat (of_nat d :: u32) = d" using d by (simp add: unat_of_nat take_bit_nat_eq_self)
  have "unat ((x - b) + of_nat d) = unat (x - b) + unat (of_nat d :: u32)"
    using d n by (intro unat_add_lem [THEN iffD1]) (simp add: since_def)
  moreover have "x + of_nat d - b = (x - b) + of_nat d" by simp
  ultimately show ?thesis using n by (simp only: since_def)
qed

lemma since_inj: "since b x = since b y \<Longrightarrow> x = y"
  unfolding since_def word_unat_eq_iff [symmetric] by simp

text \<open>
  The stack's own timers. A cyclic timer that is late by exactly one interval is due again at the time of the check, once it has been
  set again. The work of a timer keeps the list in order, sets or cancels nothing that is due, leaves the due time of the timer being
  served alone and takes at most \<open>D\<close> milliseconds.
\<close>

definition own_timer :: "sys_timeo \<Rightarrow> bool" where
  "own_timer t \<longleftrightarrow> h t = NO_HANDLER \<or> h t = LWIP_CYCLIC_TIMER \<and> arg t < length lwip_cyclic_timers \<or> h t = TCPIP_TCP_TIMER"

definition once_late :: "u32 \<Rightarrow> sys_timeo \<Rightarrow> bool" where
  "once_late now t \<longleftrightarrow> h t = LWIP_CYCLIC_TIMER \<and> time t + lwip_cyclic_timers ! arg t = now"

definition works :: "u32 \<Rightarrow> u32 \<Rightarrow> nat \<Rightarrow> (timers \<Rightarrow> timers) \<Rightarrow> bool" where
  "works b now D f \<longleftrightarrow> (\<forall>u.
     in_order b (next_timeout u) \<and> list_all own_timer (next_timeout u) \<and> since b now \<le> since b (sys_now u) \<and>
       since b (sys_now u) + D + 60000 \<le> LWIP_MAX_TIMEOUT \<longrightarrow>
     in_order b (next_timeout (f u)) \<and> list_all own_timer (next_timeout (f u)) \<and>
     due b now (next_timeout (f u)) = due b now (next_timeout u) \<and>
     current_timeout_due_time (f u) = current_timeout_due_time u \<and> (\<exists>d \<le> D. sys_now (f u) = sys_now u + of_nat d))"

lemma intervals: "i < length lwip_cyclic_timers \<Longrightarrow> 0 < unat (lwip_cyclic_timers ! i) \<and> unat (lwip_cyclic_timers ! i) \<le> 60000"
proof -
  assume i: "i < length lwip_cyclic_timers"
  have "\<forall>x \<in> set lwip_cyclic_timers. 0 < unat x \<and> unat x \<le> 60000" by (simp add: lwip_cyclic_timers_def)
  then show ?thesis using nth_mem [OF i] by blast
qed

lemma own_place: "list_all own_timer (place b t ts) \<longleftrightarrow> own_timer t \<and> list_all own_timer ts"
  by (simp add: list_all_iff)

lemma set_abs:
  assumes "in_order b (next_timeout u)" and "since b e \<le> LWIP_MAX_TIMEOUT" and "since b now \<le> since b e"
    and "list_all own_timer (next_timeout u)" and "own_timer \<lparr>time = e, h = hn, arg = ar\<rparr>"
  shows "in_order b (next_timeout (sys_timeout_abs e hn ar u)) \<and> list_all own_timer (next_timeout (sys_timeout_abs e hn ar u)) \<and>
    sys_now (sys_timeout_abs e hn ar u) = sys_now u \<and>
    (due b now (next_timeout (sys_timeout_abs e hn ar u)) = due b now (next_timeout u) \<or>
     e = now \<and> due b now (next_timeout (sys_timeout_abs e hn ar u)) = due b now (next_timeout u) @ [\<lparr>time = e, h = hn, arg = ar\<rparr>])"
proof (cases "sys_timeout_pool u = 0")
  case False
  let ?t = "\<lparr>time = e, h = hn, arg = ar\<rparr>"
  have "due b now (place b ?t (next_timeout u)) = due b now (next_timeout u) \<or>
     e = now \<and> due b now (place b ?t (next_timeout u)) = due b now (next_timeout u) @ [?t]"
  proof (cases "since b now = since b e")
    case True
    then show ?thesis using due_place_now [OF assms(1), of ?t now] since_inj [of b now e] by simp
  next
    case False
    then show ?thesis using due_place [OF assms(1), of now ?t] assms(3) by simp
  qed
  then show ?thesis
    using sys_timeout_abs_place [OF assms(1,2), of hn ar] place_in_order [OF assms(1), of ?t] False assms(2,4,5)
    by (simp add: own_place)
qed (use assms in \<open>simp add: sys_timeout_abs_def\<close>)

text \<open>One timer served.\<close>

lemma call_own:
  fixes app :: "nat \<Rightarrow> nat \<Rightarrow> timers \<Rightarrow> timers"
  assumes w: "\<And>a. works b now D (handler a)" "works b now D tcp_tmr"
    and u: "in_order b (next_timeout u)" "list_all own_timer (next_timeout u)" "since b now \<le> since b (sys_now u)"
      "since b (sys_now u) + D + 60000 \<le> LWIP_MAX_TIMEOUT"
    and t: "own_timer t" "current_timeout_due_time u = time t" "since b (time t) \<le> since b now"
  defines "u' \<equiv> call_handler handler tcp_tmr app (h t) (arg t) u"
  shows "in_order b (next_timeout u') \<and> list_all own_timer (next_timeout u') \<and>
    since b (sys_now u) \<le> since b (sys_now u') \<and> since b (sys_now u') \<le> since b (sys_now u) + D \<and>
    (due b now (next_timeout u') = due b now (next_timeout u) \<or>
     once_late now t \<and> due b now (next_timeout u') = due b now (next_timeout u) @ [t\<lparr>time := now\<rparr>])"
proof -
  consider "h t = NO_HANDLER" | "h t = LWIP_CYCLIC_TIMER" "arg t < length lwip_cyclic_timers" | "h t = TCPIP_TCP_TIMER"
    using t(1) by (auto simp: own_timer_def)
  then show ?thesis
  proof cases
    case 1
    then show ?thesis using u by (simp add: u'_def call_handler_def)
  next
    case 2
    define v I where "v = handler (arg t) u" and "I = lwip_cyclic_timers ! arg t"
    obtain d where v: "in_order b (next_timeout v)" "list_all own_timer (next_timeout v)" "due b now (next_timeout v) = due b now (next_timeout u)"
      "current_timeout_due_time v = time t" "d \<le> D" "sys_now v = sys_now u + of_nat d"
      using w(1) [of "arg t"] u t(2) by (auto simp: works_def v_def)
    have I: "0 < unat I" "unat I \<le> 60000" using intervals [OF 2(2)] by (simp_all add: I_def)
    have sv: "since b (sys_now v) = since b (sys_now u) + d" using v(5,6) u(4) since_add [of b "sys_now u" d] by simp
    have nI: "since b (sys_now v + I) = since b (sys_now v) + unat I" using sv v(5) u(4) I since_add [of b "sys_now v" "unat I"] by simp
    have tI: "since b (time t + I) = since b (time t) + unat I" using t(3) u(3,4) I since_add [of b "time t" "unat I"] by simp
    have lt: "TIME_LESS_THAN (time t + I) (sys_now v) \<longleftrightarrow> since b (time t) + unat I < since b (sys_now v)"
      using time_less_since [of b "time t + I" "sys_now v"] tI sv t(3) u(3,4) v(5) I by simp
    define e where "e = (if TIME_LESS_THAN (time t + I) (sys_now v) then sys_now v + I else time t + I)"
    have u': "u' = sys_timeout_abs e LWIP_CYCLIC_TIMER (arg t) v"
      using 2 v(4) by (simp add: u'_def call_handler_def lwip_cyclic_timer_def Let_def v_def I_def e_def)
    have ow: "own_timer \<lparr>time = e, h = LWIP_CYCLIC_TIMER, arg = arg t\<rparr>" using 2 by (simp add: own_timer_def)
    have e: "since b e \<le> LWIP_MAX_TIMEOUT" "since b now \<le> since b e"
      using lt tI nI sv v(5) u(3,4) t(3) I by (auto simp: e_def not_less)
    have late: "once_late now t \<and> \<lparr>time = e, h = LWIP_CYCLIC_TIMER, arg = arg t\<rparr> = t\<lparr>time := now\<rparr>" if en: "e = now"
    proof -
      have "\<not> TIME_LESS_THAN (time t + I) (sys_now v)"
      proof
        assume "TIME_LESS_THAN (time t + I) (sys_now v)"
        then have "since b now = since b (sys_now v) + unat I" using en nI by (simp add: e_def)
        then show False using sv u(3) I by simp
      qed
      then have "time t + I = now" using en by (simp add: e_def)
      then show ?thesis using 2 en by (cases t) (simp add: once_late_def I_def)
    qed
    show ?thesis
      using set_abs [OF v(1) e v(2) ow] sv v(3,5) late unfolding u' by auto
  next
    case 3
    define v where "v = tcp_tmr u"
    obtain d where v: "in_order b (next_timeout v)" "list_all own_timer (next_timeout v)" "due b now (next_timeout v) = due b now (next_timeout u)"
      "d \<le> D" "sys_now v = sys_now u + of_nat d"
      using w(2) u by (auto simp: works_def v_def)
    have sv: "since b (sys_now v) = since b (sys_now u) + d" using v(4,5) u(4) since_add [of b "sys_now u" d] by simp
    have nI: "since b (sys_now v + 250) = since b (sys_now v) + 250" using sv v(4) u(4) since_add [of b "sys_now v" 250] by simp
    have e: "since b (sys_now v + 250) \<le> LWIP_MAX_TIMEOUT" "since b now \<le> since b (sys_now v + 250)" "sys_now v + 250 \<noteq> now"
      using nI sv v(4) u(3,4) by auto
    have ow: "own_timer \<lparr>time = sys_now v + 250, h = TCPIP_TCP_TIMER, arg = 0\<rparr>" by (simp add: own_timer_def)
    show ?thesis
      using set_abs [OF v(1) e(1,2) v(2) ow] e(3) sv v 3
      by (auto simp: u'_def call_handler_def tcpip_tcp_timer_def Let_def v_def [symmetric] sys_timeout_def)
  qed
qed

lemma rearmed_not_late: "own_timer t \<Longrightarrow> \<not> once_late now (t\<lparr>time := now\<rparr>)"
  using intervals [of "arg t"] by (auto simp: once_late_def own_timer_def)
text \<open>
  The loop: every timer that is due is served in order, and then again, in the same order, some of those that were late by exactly one
  interval. \<open>weight\<close> bounds the number of timers served.
\<close>

definition weight :: "u32 \<Rightarrow> sys_timeo list \<Rightarrow> nat" where
  "weight now ts = length ts + length (filter (once_late now) ts)"

abbreviation twice_due :: "u32 \<Rightarrow> sys_timeo list \<Rightarrow> sys_timeo list" where
  "twice_due now ts \<equiv> map (\<lambda>t. t\<lparr>time := now\<rparr>) (filter (once_late now) ts)"

lemma check_loop_serves:
  assumes w: "\<And>a. works b now D (handler a)" "works b now D tcp_tmr"
    and u: "in_order b (next_timeout u)" "list_all own_timer (next_timeout u)" "since b now \<le> since b (sys_now u)"
      "since b (sys_now u) + weight now (due b now (next_timeout u)) * D + 60000 \<le> LWIP_MAX_TIMEOUT"
  shows "\<exists>again. subseq again (twice_due now (due b now (next_timeout u))) \<and>
    (let s' = fold (serve (call_handler handler tcp_tmr app)) (due b now (next_timeout u) @ again) u in
     check_loop (call_handler handler tcp_tmr app) now u = Some s' \<and> in_order b (next_timeout s') \<and> due b now (next_timeout s') = [])"
  using u
proof (induction "weight now (due b now (next_timeout u))" arbitrary: u rule: less_induct)
  case less
  let ?call = "call_handler handler tcp_tmr app"
  have now: "since b now \<le> LWIP_MAX_TIMEOUT" using less.prems(3,4) by simp
  show ?case
  proof (cases "next_timeout u")
    case Nil
    then show ?thesis by (intro exI [of _ "[]"]) (subst check_loop.simps, simp add: due_def)
  next
    case (Cons t ts)
    have lt: "TIME_LESS_THAN now (time t) \<longleftrightarrow> since b now < since b (time t)"
      using Cons less.prems(1) now by (intro time_less_since) simp_all
    show ?thesis
    proof (cases "since b (time t) \<le> since b now")
      case False
      then show ?thesis using lt Cons less.prems(1) by (intro exI [of _ "[]"]) (subst check_loop.simps, simp add: due_Cons)
    next
      case True
      define ds where "ds = due b now ts"
      have due_u: "due b now (next_timeout u) = t # ds" using Cons True by (simp add: due_Cons ds_def)
      have own: "own_timer t" "list_all own_timer ts" using less.prems(2) Cons by simp_all
      define u0 where "u0 = u\<lparr>next_timeout := ts, current_timeout_due_time := time t, sys_timeout_pool := sys_timeout_pool u + 1\<rparr>"
      define u1 where "u1 = ?call (h t) (arg t) u0"
      have sv: "serve ?call t u = u1"
        using Cons by (simp add: serve_def u1_def u0_def call_handler_def Let_def)
      have k: "weight now (due b now (next_timeout u)) = (if once_late now t then 2 else 1) + weight now ds"
        by (simp add: due_u weight_def)
      have c: "in_order b (next_timeout u1) \<and> list_all own_timer (next_timeout u1) \<and>
        since b (sys_now u) \<le> since b (sys_now u1) \<and> since b (sys_now u1) \<le> since b (sys_now u) + D \<and>
        (due b now (next_timeout u1) = ds \<or> once_late now t \<and> due b now (next_timeout u1) = ds @ [t\<lparr>time := now\<rparr>])"
      proof -
        have "1 * D \<le> weight now (due b now (next_timeout u)) * D" unfolding k by (rule mult_le_mono1) simp
        then have "D \<le> weight now (due b now (next_timeout u)) * D" by (simp only: mult_1)
        moreover have "since b (sys_now u0) = since b (sys_now u)" by (simp add: u0_def)
        ultimately have "since b (sys_now u0) + D + 60000 \<le> LWIP_MAX_TIMEOUT" using less.prems(4) by linarith
        moreover have "in_order b (next_timeout u0)" "list_all own_timer (next_timeout u0)" "since b now \<le> since b (sys_now u0)"
          "current_timeout_due_time u0 = time t" "sys_now u0 = sys_now u" "due b now (next_timeout u0) = ds"
          using less.prems(1,3) Cons own(2) by (simp_all add: u0_def ds_def)
        ultimately show ?thesis
          using call_own [where handler = handler and app = app and u = u0 and t = t, OF w] own(1) True unfolding u1_def [symmetric] by simp
      qed
      have step: "check_loop ?call now u = check_loop ?call now u1"
        using Cons True lt sv by (subst check_loop.simps) simp
      have fuel: "weight now (due b now (next_timeout u1)) < weight now (due b now (next_timeout u))"
        using c rearmed_not_late [OF own(1), of now] unfolding k by (auto simp: weight_def)
      then have "weight now (due b now (next_timeout u1)) * D + D \<le> weight now (due b now (next_timeout u)) * D"
        by (metis Suc_leI add.commute mult_Suc mult_le_mono1)
      then have p: "since b now \<le> since b (sys_now u1)"
        "since b (sys_now u1) + weight now (due b now (next_timeout u1)) * D + 60000 \<le> LWIP_MAX_TIMEOUT"
        using c less.prems(3,4) by linarith+
      obtain again where again: "subseq again (twice_due now (due b now (next_timeout u1)))"
        "check_loop ?call now u1 = Some (fold (serve ?call) (due b now (next_timeout u1) @ again) u1)"
        "in_order b (next_timeout (fold (serve ?call) (due b now (next_timeout u1) @ again) u1))"
        "due b now (next_timeout (fold (serve ?call) (due b now (next_timeout u1) @ again) u1)) = []"
        using less.hyps [OF fuel] c p by (auto simp: Let_def)
      show ?thesis
      proof (cases "due b now (next_timeout u1) = ds")
        case True
        then have "subseq again (twice_due now (due b now (next_timeout u)))" using again(1) by (auto simp: due_u)
        then show ?thesis using again(2-4) True by (intro exI [of _ again]) (simp add: due_u step sv)
      next
        case False
        then have l: "once_late now t" "due b now (next_timeout u1) = ds @ [t\<lparr>time := now\<rparr>]" using c by auto
        have "subseq again (twice_due now ds)" using again(1) rearmed_not_late [OF own(1), of now] by (simp add: l(2))
        then have "subseq (t\<lparr>time := now\<rparr> # again) (twice_due now (due b now (next_timeout u)))" using l(1) by (simp add: due_u)
        then show ?thesis using again(2-4) l(2)
          by (intro exI [of _ "t\<lparr>time := now\<rparr> # again"]) (simp add: due_u step sv)
      qed
    qed
  qed
qed
section \<open>Cancelling and restarting\<close>

lemma remove_timer_mset:
  assumes "\<exists>t \<in> set ts. h t = hn \<and> arg t = ar"
  shows "\<exists>as t bs. ts = as @ t # bs \<and> h t = hn \<and> arg t = ar \<and> (\<forall>u \<in> set as. \<not> (h u = hn \<and> arg u = ar)) \<and>
    remove_timer hn ar ts = as @ bs"
  using assms
proof (induction ts)
  case (Cons u ts)
  show ?case
  proof (cases "h u = hn \<and> arg u = ar")
    case True
    then show ?thesis by (intro exI [of _ "[]"] exI [of _ u] exI [of _ ts]) simp
  next
    case False
    then obtain as t bs where *: "ts = as @ t # bs" "h t = hn" "arg t = ar" "\<forall>u \<in> set as. \<not> (h u = hn \<and> arg u = ar)"
      "remove_timer hn ar ts = as @ bs"
      using Cons by auto
    then show ?thesis using False by (intro exI [of _ "u # as"] exI [of _ t] exI [of _ bs]) auto
  qed
qed simp

lemma remove_place:
  assumes "\<forall>u \<in> set ts. \<not> (h u = hn \<and> arg u = ar)"
  shows "remove_timer hn ar (place b \<lparr>time = a, h = hn, arg = ar\<rparr> ts) = ts"
  using assms
proof (induction ts)
  case (Cons u ts)
  show ?case
  proof (cases "since b (time u) \<le> since b a")
    case True
    have "place b \<lparr>time = a, h = hn, arg = ar\<rparr> (u # ts) = u # place b \<lparr>time = a, h = hn, arg = ar\<rparr> ts"
      using True by (simp add: place_def)
    then show ?thesis using Cons by auto
  qed (use Cons in \<open>simp add: place_def\<close>)
qed (simp add: place_def)

lemma sys_restart_order:
  assumes "in_order b (next_timeout s)"
  shows "in_order (sys_now s) (next_timeout (sys_restart_timeouts s)) \<and>
    (next_timeout s \<noteq> [] \<longrightarrow> time (hd (next_timeout (sys_restart_timeouts s))) = sys_now s)"
proof (cases "next_timeout s")
  case (Cons t ts)
  have s: "since (sys_now s) (time u - time t + sys_now s) = since b (time u) - since b (time t)"
    if "since b (time t) \<le> since b (time u)" for u
  proof -
    have "unat ((time u - b) - (time t - b)) = unat (time u - b) - unat (time t - b)"
      using that by (intro unat_sub_small) (simp add: since_def word_le_nat_alt)
    moreover have "(time u - b) - (time t - b) = time u - time t" by simp
    ultimately show ?thesis by (simp add: since_def)
  qed
  have "in_order (sys_now s) (map (\<lambda>u. u\<lparr>time := time u - time t + sys_now s\<rparr>) us)"
    if "in_order b us" "\<forall>u \<in> set us. since b (time t) \<le> since b (time u)" for us
    using that by (induction us) (auto simp: s diff_le_mono intro: le_trans [OF diff_le_self])
  from this [of "t # ts"] show ?thesis using assms Cons by (simp add: sys_restart_timeouts_def)
qed (simp add: sys_restart_timeouts_def)

section \<open>Cyclic timers\<close>

text \<open>A cyclic timer is set again at its old phase, or one interval from now when it is late by more than an interval.\<close>

lemma lwip_cyclic_timer_phase:
  assumes "i < length lwip_cyclic_timers" and "since (current_timeout_due_time s) (sys_now s) \<le> LWIP_MAX_TIMEOUT"
  shows "\<exists>e. lwip_cyclic_timer (\<lambda>_ s. s) i s = sys_timeout_abs e LWIP_CYCLIC_TIMER i s \<and>
    since (sys_now s) e \<le> unat (lwip_cyclic_timers ! i) \<and>
    (since (current_timeout_due_time s) (sys_now s) \<le> unat (lwip_cyclic_timers ! i) \<longrightarrow>
       e = current_timeout_due_time s + lwip_cyclic_timers ! i)"
proof -
  define I d now where "I = lwip_cyclic_timers ! i" and "d = current_timeout_due_time s" and "now = sys_now s"
  have I: "unat I \<le> 60000"
  proof -
    have "\<forall>x \<in> set lwip_cyclic_timers. unat x \<le> 60000" by (simp add: lwip_cyclic_timers_def)
    then show ?thesis using assms(1) by (simp add: I_def)
  qed
  define L where "L = now - d"
  have L: "unat L \<le> LWIP_MAX_TIMEOUT" using assms(2) by (simp add: since_def L_def now_def d_def)
  have e: "d + I - now = I - L" by (simp add: L_def)
  have lt: "TIME_LESS_THAN (d + I) now \<longleftrightarrow> unat I < unat L"
  proof -
    have "TIME_LESS_THAN I L \<longleftrightarrow> since 0 I < since 0 L" using I L by (intro time_less_since) (simp_all add: since_def)
    then show ?thesis by (simp add: TIME_LESS_THAN_def e since_def)
  qed
  show ?thesis
  proof (cases "unat I < unat L")
    case True
    then show ?thesis using lt
      by (intro exI [of _ "now + I"]) (simp add: lwip_cyclic_timer_def Let_def I_def d_def now_def since_def L_def)
  next
    case False
    then have "unat (I - L) \<le> unat I" by (simp add: unat_sub_small word_le_nat_alt)
    then have "since now (d + I) \<le> unat I" by (simp add: since_def e)
    then show ?thesis using lt False
      by (intro exI [of _ "d + I"]) (simp add: lwip_cyclic_timer_def Let_def I_def d_def now_def since_def L_def)
  qed
qed

section \<open>Properties\<close>

definition timers_reset :: timers where
  "timers_reset = \<lparr>next_timeout = [], current_timeout_due_time = 0, sys_timeout_pool = 12, sys_now = 0xFFFFFFF0,
     tcpip_tcp_timer_active = False, tcp_pcbs = True\<rparr>"

text \<open>
  C40: \<^verbatim>\<open>sys_timeout\<close> and \<^verbatim>\<open>sys_untimeout\<close>. With an element left in the pool, a new timer is put after every timer that is due
  no later and before all others, so the list stays in the order of the due times, also where the clock wraps around,
  and no other timer is lost. Cancelling it restores the list. With the pool empty the
  timer is dropped.
\<close>
theorem sys_timeout_ordered:
  assumes ord: "in_order b (next_timeout s)" and w: "since b (sys_now s + msecs) \<le> LWIP_MAX_TIMEOUT"
  shows "if sys_timeout_pool s = 0 then sys_timeout msecs hn ar s = s
    else in_order b (next_timeout (sys_timeout msecs hn ar s)) \<and>
      mset (next_timeout (sys_timeout msecs hn ar s)) =
        add_mset \<lparr>time = sys_now s + msecs, h = hn, arg = ar\<rparr> (mset (next_timeout s)) \<and>
      ((\<forall>t \<in> set (next_timeout s). \<not> (h t = hn \<and> arg t = ar)) \<longrightarrow>
        sys_untimeout hn ar (sys_timeout msecs hn ar s) = s)"
proof (cases "sys_timeout_pool s = 0")
  case True
  then show ?thesis by (simp add: sys_timeout_def sys_timeout_abs_def)
next
  case False
  let ?t = "\<lparr>time = sys_now s + msecs, h = hn, arg = ar\<rparr>"
  have st: "sys_timeout msecs hn ar s =
      s\<lparr>sys_timeout_pool := sys_timeout_pool s - 1, next_timeout := place b ?t (next_timeout s)\<rparr>"
    using sys_timeout_abs_place [OF ord w] False by (simp add: sys_timeout_def)
  have "sys_untimeout hn ar (sys_timeout msecs hn ar s) = s" if "\<forall>t \<in> set (next_timeout s). \<not> (h t = hn \<and> arg t = ar)"
    using remove_place [OF that, of b "sys_now s + msecs"] False by (simp add: st sys_untimeout_def)
  then show ?thesis using False place_in_order [OF ord, of ?t] w by (simp add: st)
qed

theorem sys_timeout_ordered_witness:
  "sys_untimeout TCPIP_TCP_TIMER 0 (sys_timeout 250 TCPIP_TCP_TIMER 0 timers_reset) = timers_reset"
  using sys_timeout_ordered [of "0xFFFFFFF0" timers_reset 250 TCPIP_TCP_TIMER 0]
  by (simp add: timers_reset_def since_def)

text \<open>
  C12: \<^verbatim>\<open>sys_check_timeouts\<close> with the stack's own timers returns, having called the handlers of exactly the timers that were due when
  it started, in the order of their due times, each with its entry already off the list; and after them, in the same order,
  a second time the handlers of some of the cyclic timers that were late by exactly one interval, which are due again as soon as they are
  set again, and of no other. Afterwards the list is in order and no timer of it is due at the time the check
  started. The work of the timers may take time, up to \<open>D\<close> milliseconds each, and may set timers, but none that is due at once.
\<close>
theorem sys_check_timeouts_serves:
  assumes "\<And>a. works b (sys_now s) D (handler a)" and "works b (sys_now s) D tcp_tmr"
    and "in_order b (next_timeout s)" and "list_all own_timer (next_timeout s)"
    and "since b (sys_now s) + 2 * length (next_timeout s) * D + 60000 \<le> LWIP_MAX_TIMEOUT"
  shows "\<exists>again s'. sys_check_timeouts (call_handler handler tcp_tmr app) s = Some s' \<and>
    s' = fold (serve (call_handler handler tcp_tmr app)) (due b (sys_now s) (next_timeout s) @ again) s \<and>
    subseq again (map (\<lambda>t. t\<lparr>time := sys_now s\<rparr>) (filter (once_late (sys_now s)) (due b (sys_now s) (next_timeout s)))) \<and>
    in_order b (next_timeout s') \<and> (\<forall>t \<in> set (next_timeout s'). TIME_LESS_THAN (sys_now s) (time t))"
proof -
  let ?call = "call_handler handler tcp_tmr app" and ?ds = "due b (sys_now s) (next_timeout s)"
  have "length ?ds \<le> length (next_timeout s)" by (simp add: due_def length_takeWhile_le)
  then have "weight (sys_now s) ?ds \<le> 2 * length (next_timeout s)"
    using length_filter_le [of "once_late (sys_now s)" ?ds] unfolding weight_def by linarith
  then have "weight (sys_now s) ?ds * D \<le> 2 * length (next_timeout s) * D" by (rule mult_le_mono1)
  then have fuel: "since b (sys_now s) + weight (sys_now s) ?ds * D + 60000 \<le> LWIP_MAX_TIMEOUT" using assms(5) by linarith
  obtain again where again: "subseq again (twice_due (sys_now s) ?ds)"
    "check_loop ?call (sys_now s) s = Some (fold (serve ?call) (?ds @ again) s)"
    "in_order b (next_timeout (fold (serve ?call) (?ds @ again) s))"
    "due b (sys_now s) (next_timeout (fold (serve ?call) (?ds @ again) s)) = []"
    using check_loop_serves [where handler = handler and app = app, OF assms(1,2,3,4) order_refl fuel] unfolding Let_def
    by (elim exE conjE) (rule that, assumption+)
  let ?s = "fold (serve ?call) (?ds @ again) s"
  have now: "since b (sys_now s) \<le> LWIP_MAX_TIMEOUT" using assms(5) by simp
  have "\<forall>t \<in> set (next_timeout ?s). since b (sys_now s) < since b (time t)" using again(3,4) by (intro none_due)
  moreover have "TIME_LESS_THAN (sys_now s) (time t) \<longleftrightarrow> since b (sys_now s) < since b (time t)"
    if "t \<in> set (next_timeout ?s)" for t
    using that again(3) now by (intro time_less_since) (auto simp: in_order_def)
  ultimately show ?thesis
    using again by (intro exI [of _ again] exI [of _ ?s]) (simp add: sys_check_timeouts_def)
qed

text \<open>A TCP timer 16 ms late, with connections that stay and work that takes no time.\<close>

theorem sys_check_timeouts_serves_witness:
  "\<exists>s'. sys_check_timeouts (call_handler (\<lambda>_ s. s) (\<lambda>s. s) (\<lambda>_ _ s. s))
       (timers_reset\<lparr>next_timeout := [\<lparr>time = 0xFFFFFFE0, h = TCPIP_TCP_TIMER, arg = 0\<rparr>]\<rparr>) = Some s' \<and>
     next_timeout s' = [\<lparr>time = 0xEA, h = TCPIP_TCP_TIMER, arg = 0\<rparr>]"
proof -
  let ?s = "timers_reset\<lparr>next_timeout := [\<lparr>time = 0xFFFFFFE0, h = TCPIP_TCP_TIMER, arg = 0\<rparr>]\<rparr>"
  have w: "works 0xFFFFFF00 (sys_now ?s) 0 (\<lambda>s. s)" by (simp add: works_def)
  have d: "due 0xFFFFFF00 (sys_now ?s) (next_timeout ?s) = [\<lparr>time = 0xFFFFFFE0, h = TCPIP_TCP_TIMER, arg = 0\<rparr>]"
    by (simp add: due_def timers_reset_def since_def)
  show ?thesis
    using sys_check_timeouts_serves [of "0xFFFFFF00" ?s 0 "\<lambda>_ s. s" "\<lambda>s. s" "\<lambda>_ _ s. s", OF w w] unfolding d
    by (auto simp: own_timer_def since_def once_late_def timers_reset_def serve_def call_handler_def tcpip_tcp_timer_def
        sys_timeout_def sys_timeout_abs_def Let_def dest!: list_emb_Nil2)
qed

text \<open>A cyclic timer that is late by exactly one interval is served twice in one check.\<close>

lemma cyclic_timer_served_twice:
  "sys_check_timeouts (call_handler (\<lambda>_ s. s) (\<lambda>s. s) (\<lambda>_ _ s. s))
     (timers_reset\<lparr>next_timeout := [\<lparr>time = 0xFFFFFFF0 - 1000, h = LWIP_CYCLIC_TIMER, arg = 2\<rparr>]\<rparr>) =
   Some (fold (serve (call_handler (\<lambda>_ s. s) (\<lambda>s. s) (\<lambda>_ _ s. s)))
     [\<lparr>time = 0xFFFFFFF0 - 1000, h = LWIP_CYCLIC_TIMER, arg = 2\<rparr>, \<lparr>time = 0xFFFFFFF0, h = LWIP_CYCLIC_TIMER, arg = 2\<rparr>]
     (timers_reset\<lparr>next_timeout := [\<lparr>time = 0xFFFFFFF0 - 1000, h = LWIP_CYCLIC_TIMER, arg = 2\<rparr>]\<rparr>))"
  by (simp add: sys_check_timeouts_def timers_reset_def check_loop.simps serve_def call_handler_def lwip_cyclic_timer_def
      lwip_cyclic_timers_def sys_timeout_abs_def TIME_LESS_THAN_def Let_def)

text \<open>
  \<^verbatim>\<open>sys_timeouts_sleeptime\<close>. Sleeping for the time it returns makes the first timer due, and it is not due any earlier:
  no deadline is missed by the sleep and no wake-up comes before there is work. With no timers the sleep has no
  end.
\<close>
theorem sys_timeouts_sleeptime_exact:
  assumes "in_order b (t # ts)" and "next_timeout s = t # ts" and "since b (sys_now s) \<le> LWIP_MAX_TIMEOUT"
  shows "\<not> TIME_LESS_THAN (sys_now s + sys_timeouts_sleeptime s) (time t) \<and>
    (\<forall>k < sys_timeouts_sleeptime s. TIME_LESS_THAN (sys_now s + k) (time t))"
proof -
  have st: "since b (time t) \<le> LWIP_MAX_TIMEOUT" using assms(1) by simp
  note lt = time_less_since [OF st assms(3)] time_less_since [OF assms(3) st]
  show ?thesis
  proof (cases "since b (time t) < since b (sys_now s)")
    case True
    then show ?thesis using assms lt by (simp add: sys_timeouts_sleeptime_def)
  next
    case False
    define d where "d = time t - sys_now s"
    have sl: "sys_timeouts_sleeptime s = d" using False assms lt by (simp add: sys_timeouts_sleeptime_def d_def)
    have "unat ((time t - b) - (sys_now s - b)) = unat (time t - b) - unat (sys_now s - b)"
      using False by (intro unat_sub_small) (simp add: since_def word_le_nat_alt)
    moreover have "(time t - b) - (sys_now s - b) = d" by (simp add: d_def)
    ultimately have "unat d \<le> unat (time t - b)" by simp
    then have du: "unat d \<le> LWIP_MAX_TIMEOUT" using st by (simp add: since_def)
    have "TIME_LESS_THAN (sys_now s + k) (time t)" if "k < d" for k
    proof -
      have "unat k < unat d" using that by (simp add: word_less_nat_alt)
      then have "TIME_LESS_THAN k d" using du by (subst time_less_since [of 0]) (simp_all add: since_def)
      moreover have "sys_now s + k - time t = k - d" by (simp add: d_def)
      ultimately show ?thesis by (simp only: TIME_LESS_THAN_def)
    qed
    moreover have "sys_now s + d - time t = 0" by (simp add: d_def)
    ultimately show ?thesis by (simp add: sl TIME_LESS_THAN_def)
  qed
qed

theorem sys_timeouts_sleeptime_exact_witness:
  "\<not> TIME_LESS_THAN (0xFFFFFFF0 + sys_timeouts_sleeptime (timers_reset\<lparr>next_timeout := [\<lparr>time = 0x10, h = NO_HANDLER, arg = 0\<rparr>]\<rparr>)) 0x10"
  using sys_timeouts_sleeptime_exact [of "0xFFFFFFF0" "\<lparr>time = 0x10, h = NO_HANDLER, arg = 0\<rparr>" "[]"
    "timers_reset\<lparr>next_timeout := [\<lparr>time = 0x10, h = NO_HANDLER, arg = 0\<rparr>]\<rparr>"]
  by (simp add: timers_reset_def since_def)

end
