(* ===== verification/Lwip_Def.thy ===== *)
theory Lwip_Def
  imports Prelude_Base "HOL-Library.Signed_Division"
begin

text \<open>
  The helper functions of \<^verbatim>\<open>middlewares/lwip/src/core/def.c\<close>: byte order on the little-endian
  target, bounded string search, comparison without case, printing of integers and the
  constant-time memory comparison. A C string is the list of its bytes before the terminating
  zero; reading the byte at its end gives zero.
\<close>

section \<open>Bytes and byte order\<close>

definition lwip_htons :: "u16 \<Rightarrow> u16" where
  "lwip_htons n = push_bit 8 (n AND 0x00ff) OR drop_bit 8 (n AND 0xff00)"

definition lwip_htonl :: "u32 \<Rightarrow> u32" where
  "lwip_htonl n = push_bit 24 (n AND 0x000000ff) OR push_bit 8 (n AND 0x0000ff00) OR
                  drop_bit 8 (n AND 0x00ff0000) OR drop_bit 24 (n AND 0xff000000)"

lemma lwip_htons_involutive [simp]: "lwip_htons (lwip_htons n) = n"
  by (rule word_eq_bitsI) (simp add: bit_positions lwip_htons_def bit_simps)

lemma lwip_htonl_involutive [simp]: "lwip_htonl (lwip_htonl n) = n"
  by (rule word_eq_bitsI) (simp add: bit_positions lwip_htonl_def bit_simps)

section \<open>Strings\<close>

text \<open>The byte a string pointer is at: zero at the end of the string.\<close>

definition cur :: "u8 list \<Rightarrow> u8" where
  "cur xs = (case xs of [] \<Rightarrow> 0 | x # _ \<Rightarrow> x)"

lemma cur_simps [simp]: "cur [] = 0" "cur (x # xs) = x"
  by (simp_all add: cur_def)

text \<open>\<^verbatim>\<open>strlen\<close> and the string a buffer holds: the bytes before the first zero.\<close>

definition c_string :: "u8 list \<Rightarrow> u8 list" where
  "c_string buf = takeWhile (\<lambda>c. c \<noteq> 0) buf"

text \<open>
  \<^verbatim>\<open>lwip_strnstr\<close>: the position of the first occurrence that ends within \<open>n\<close> bytes. The
  standard \<^verbatim>\<open>strncmp\<close> over the token's length compares the bytes up to a zero.
\<close>

fun strnstr_from :: "nat \<Rightarrow> u8 list \<Rightarrow> u8 list \<Rightarrow> nat \<Rightarrow> nat option" where
  "strnstr_from i [] token n = None"
| "strnstr_from i (c # p) token n =
    (if i + length token \<le> n then
       (if c = cur token \<and> take (length token) (c # p) = token then Some i
        else strnstr_from (Suc i) p token n)
     else None)"

definition lwip_strnstr :: "u8 list \<Rightarrow> u8 list \<Rightarrow> nat \<Rightarrow> nat option" where
  "lwip_strnstr buffer token n =
    (if length token = 0 then Some 0 else strnstr_from 0 buffer token n)"

text \<open>One step of the comparisons without case: whether the two bytes are taken as equal.\<close>

definition same_letter :: "u8 \<Rightarrow> u8 \<Rightarrow> bool" where
  "same_letter c1 c2 =
    (if c1 \<noteq> c2 then
       (let c1_upc = c1 OR 0x20 in
        if 97 \<le> c1_upc \<and> c1_upc \<le> 122 then c1_upc = c2 OR 0x20 else False)
     else True)"

fun lwip_stricmp :: "u8 list \<Rightarrow> u8 list \<Rightarrow> int" where
  "lwip_stricmp [] str2 = (if same_letter 0 (cur str2) then 0 else 1)"
| "lwip_stricmp (c1 # str1) str2 =
    (if \<not> same_letter c1 (cur str2) then 1
     else if c1 \<noteq> 0 then lwip_stricmp str1 (tl str2) else 0)"

text \<open>The length is a \<^verbatim>\<open>size_t\<close> that is decremented before it is compared with zero.\<close>

fun lwip_strnicmp :: "u8 list \<Rightarrow> u8 list \<Rightarrow> u32 \<Rightarrow> int" where
  "lwip_strnicmp [] str2 len = (if same_letter 0 (cur str2) then 0 else 1)"
| "lwip_strnicmp (c1 # str1) str2 len =
    (if \<not> same_letter c1 (cur str2) then 1
     else if len - 1 \<noteq> 0 \<and> c1 \<noteq> 0 then lwip_strnicmp str1 (tl str2) (len - 1) else 0)"

fun strnistr_from :: "nat \<Rightarrow> u8 list \<Rightarrow> u8 list \<Rightarrow> nat \<Rightarrow> nat option" where
  "strnistr_from i [] token n = None"
| "strnistr_from i (c # p) token n =
    (if i + length token \<le> n then
       (if lwip_strnicmp (c # p) token (of_nat (length token)) = 0 then Some i
        else strnistr_from (Suc i) p token n)
     else None)"

definition lwip_strnistr :: "u8 list \<Rightarrow> u8 list \<Rightarrow> nat \<Rightarrow> nat option" where
  "lwip_strnistr buffer token n =
    (if length token = 0 then Some 0 else strnistr_from 0 buffer token n)"

section \<open>Constant-time comparison\<close>

fun memcmp_acc :: "u8 \<Rightarrow> u8 list \<Rightarrow> u8 list \<Rightarrow> nat \<Rightarrow> u8" where
  "memcmp_acc ret (a # as) (b # bs) (Suc len) = memcmp_acc (ret OR (a XOR b)) as bs len"
| "memcmp_acc ret as bs len = ret"

definition lwip_memcmp_consttime :: "u8 list \<Rightarrow> u8 list \<Rightarrow> nat \<Rightarrow> int" where
  "lwip_memcmp_consttime s1 s2 len = uint (memcmp_acc 0 s1 s2 len)"

section \<open>Printing an integer\<close>

text \<open>\<^verbatim>\<open>-number\<close> on a 32-bit \<^verbatim>\<open>int\<close>: the least value is its own negation in two's complement.\<close>

definition neg32 :: "int \<Rightarrow> int" where
  "neg32 n = (if n = - (2 ^ 31) then n else - n)"

function itoa_digits :: "u8 list \<Rightarrow> nat \<Rightarrow> nat \<Rightarrow> int \<Rightarrow> u8 list \<times> nat \<times> int" where
  "itoa_digits buf res tmp n =
    (if n \<noteq> 0 \<and> tmp > res
     then itoa_digits (buf[tmp - 1 := word_of_int (48 + n smod 10)]) res (tmp - 1) (n sdiv 10)
     else (buf, tmp, n))"
  by pat_completeness auto
termination
  by (relation "measure (\<lambda>(buf, res, tmp, n). tmp)") auto

declare itoa_digits.simps [simp del]

definition memmove :: "u8 list \<Rightarrow> nat \<Rightarrow> nat \<Rightarrow> nat \<Rightarrow> u8 list" where
  "memmove buf dst src len = take dst buf @ take len (drop src buf) @ drop (dst + len) buf"

definition lwip_itoa :: "u8 list \<Rightarrow> nat \<Rightarrow> int \<Rightarrow> u8 list" where
  "lwip_itoa result bufsize number =
    (let n = (if number \<ge> 0 then number else neg32 number) in
     if bufsize < 2 then (if bufsize = 1 then result[0 := 0] else result)
     else
       let (buf, res) = (if number < 0 then (result[0 := 45], 1) else (result, 0));
           (buf, tmp, n) = itoa_digits (buf[bufsize - 1 := 0]) res (bufsize - 1) n
       in if n \<noteq> 0 then buf[0 := 0]
          else if buf ! tmp = 0 then buf[res := 48, Suc res := 0]
          else memmove buf res tmp (bufsize - tmp))"

section \<open>Bounded search\<close>

definition occurs_at :: "u8 list \<Rightarrow> u8 list \<Rightarrow> nat \<Rightarrow> bool" where
  "occurs_at buf token i \<longleftrightarrow> i < length buf \<and> take (length token) (drop i buf) = token"

lemma strnstr_from_Some:
  assumes "token \<noteq> []"
  shows "strnstr_from k buf token n = Some i \<longleftrightarrow>
    k \<le> i \<and> i + length token \<le> n \<and> occurs_at buf token (i - k) \<and>
    (\<forall>j < i - k. \<not> occurs_at buf token j)"
proof (induction buf arbitrary: k)
  case Nil
  then show ?case by (simp add: occurs_at_def)
next
  case (Cons c buf)
  have 0: "occurs_at (c # buf) token 0 \<longleftrightarrow> c = cur token \<and> take (length token) (c # buf) = token"
    using assms by (cases token) (auto simp: occurs_at_def)
  have S: "occurs_at (c # buf) token (Suc j) \<longleftrightarrow> occurs_at buf token j" for j
    by (simp add: occurs_at_def)
  show ?case
  proof (cases "k < i")
    case True
    then obtain d where d: "i - k = Suc d" "i - Suc k = d" by (metis Suc_diff_Suc)
    have "(\<forall>j < Suc d. \<not> occurs_at (c # buf) token j) \<longleftrightarrow>
        \<not> occurs_at (c # buf) token 0 \<and> (\<forall>j < d. \<not> occurs_at buf token j)"
      by (simp add: All_less_Suc2 S)
    with True show ?thesis by (auto simp: Cons.IH d S 0)
  next
    case False
    then show ?thesis using 0 by (auto simp: Cons.IH)
  qed
qed

section \<open>Decimal text\<close>

fun dec0 :: "nat \<Rightarrow> u8 list" where
  "dec0 n = (if n = 0 then [] else dec0 (n div 10) @ [of_nat (48 + n mod 10)])"

declare dec0.simps [simp del]

lemma dec0_0 [simp]: "dec0 0 = []" by (simp add: dec0.simps)
lemma dec0_step: "n \<noteq> 0 \<Longrightarrow> dec0 n = dec0 (n div 10) @ [of_nat (48 + n mod 10)]"
  by (subst dec0.simps) simp
lemma dec0_eq_Nil [simp]: "dec0 n = [] \<longleftrightarrow> n = 0"
  by (subst dec0.simps) simp

text \<open>The usual decimal text of an integer.\<close>

definition decimal :: "int \<Rightarrow> u8 list" where
  "decimal z = (if z < 0 then 45 # dec0 (nat (- z)) else if z = 0 then [48] else dec0 (nat z))"

lemma unat_digit: "d < 10 \<Longrightarrow> unat (of_nat (48 + d) :: u8) = 48 + d"
  by (simp add: unat_of_nat take_bit_nat_eq_self del: of_nat_add)

lemma digit_not_0: "d < 10 \<Longrightarrow> (of_nat (48 + d) :: u8) \<noteq> 0"
  by (metis unat_digit add_is_0 unat_0 zero_neq_numeral)

lemma memcmp_acc_zero:
  assumes "len \<le> length s1" and "len \<le> length s2"
  shows "memcmp_acc ret s1 s2 len = 0 \<longleftrightarrow> ret = 0 \<and> take len s1 = take len s2"
  using assms
proof (induction ret s1 s2 len rule: memcmp_acc.induct)
  case (1 ret a as b bs len)
  have "ret OR (a XOR b) = 0 \<longleftrightarrow> ret = 0 \<and> a = b"
    by (metis or.right_neutral or_eq_0_iff xor_self_eq word_bw_same(3) bit.xor_self bit.xor_left_self xor.right_neutral)
  with 1 show ?case by auto
qed (auto simp: Suc_le_length_iff neq_Nil_conv)

lemma smod_nat: "int n smod 10 = int (n mod 10)"
  by (simp add: signed_modulo_int_def sgn_if zmod_int)

lemma itoa_digits_fits:
  assumes "length (dec0 n) \<le> tmp - res" and "tmp \<le> length buf" and "res \<le> tmp"
  shows "itoa_digits buf res tmp (int n) =
    (take (tmp - length (dec0 n)) buf @ dec0 n @ drop tmp buf, tmp - length (dec0 n), 0)"
  using assms
proof (induction n arbitrary: buf tmp rule: dec0.induct)
  case (1 n)
  show ?case
  proof (cases "n = 0")
    case True
    then show ?thesis by (simp add: itoa_digits.simps)
  next
    case False
    let ?c = "of_nat (48 + n mod 10) :: u8"
    have d: "dec0 n = dec0 (n div 10) @ [?c]" using False by (rule dec0_step)
    have gt: "tmp > res" using 1(2) d by simp
    have c: "word_of_int (int n smod 10) = (of_nat (n mod 10) :: u8)"
      by (simp only: smod_nat of_int_of_nat_eq)
    have q: "int n sdiv 10 = int (n div 10)"
      by (simp add: signed_divide_int_def sgn_if zdiv_int)
    have ih: "itoa_digits (buf[tmp - 1 := ?c]) res (tmp - 1) (int (n div 10)) =
        (take (tmp - 1 - length (dec0 (n div 10))) (buf[tmp - 1 := ?c]) @ dec0 (n div 10) @
           drop (tmp - 1) (buf[tmp - 1 := ?c]), tmp - 1 - length (dec0 (n div 10)), 0)"
      by (rule 1(1) [OF False]) (use 1(2-4) d gt in auto)
    have "drop (tmp - 1) (buf[tmp - 1 := ?c]) = ?c # drop tmp buf"
      using gt 1(3) by (simp add: upd_conv_take_nth_drop)
    moreover have "take (tmp - 1 - length (dec0 (n div 10))) (buf[tmp - 1 := ?c]) =
        take (tmp - 1 - length (dec0 (n div 10))) buf"
      by (simp add: take_update_cancel)
    ultimately show ?thesis
      using False gt ih by (subst itoa_digits.simps) (simp add: c q d)
  qed
qed

lemma itoa_digits_too_long:
  assumes "tmp - res < length (dec0 n)"
  shows "snd (snd (itoa_digits buf res tmp (int n))) \<noteq> 0"
  using assms
proof (induction n arbitrary: buf tmp rule: dec0.induct)
  case (1 n)
  have n0: "n \<noteq> 0" using 1(2) by (cases "n = 0") auto
  show ?case
  proof (cases "tmp > res")
    case True
    have q: "int n sdiv 10 = int (n div 10)"
      by (simp add: signed_divide_int_def sgn_if zdiv_int)
    have "tmp - 1 - res < length (dec0 (n div 10))" using 1(2) n0 True by (simp add: dec0_step)
    then show ?thesis
      using n0 True 1(1) [OF n0, of "tmp - 1"] by (subst itoa_digits.simps) (simp add: q)
  next
    case False
    then show ?thesis using n0 by (subst itoa_digits.simps) simp
  qed
qed


lemma list_update_two:
  "Suc i < length xs \<Longrightarrow> xs[i := a, Suc i := b] = take i xs @ a # b # drop (Suc (Suc i)) xs"
  by (simp add: upd_conv_take_nth_drop Cons_nth_drop_Suc [symmetric])

lemma dec0_nonzero: "c \<in> set (dec0 n) \<Longrightarrow> c \<noteq> 0"
proof (induction n rule: dec0.induct)
  case (1 n)
  show ?case
  proof (cases "n = 0")
    case True
    with 1(2) show ?thesis by simp
  next
    case False
    then have "c \<in> set (dec0 (n div 10)) \<or> c = of_nat (48 + n mod 10)"
      using 1(2) by (subst (asm) dec0_step [OF False]) auto
    then show ?thesis using 1(1) [OF False] digit_not_0 [of "n mod 10"] by auto
  qed
qed

lemma c_string_stops: "(\<forall>c \<in> set xs. c \<noteq> 0) \<Longrightarrow> c_string (xs @ 0 # ys) = xs"
  by (simp add: c_string_def takeWhile_append2)

lemma decimal_nonzero: "c \<in> set (decimal z) \<Longrightarrow> c \<noteq> 0"
  by (auto simp: decimal_def dest: dec0_nonzero split: if_splits)

text \<open>The body of \<^verbatim>\<open>lwip_itoa\<close> once the sign is written at the front, from position \<open>res\<close> on.\<close>

lemma itoa_body:
  assumes b: "2 \<le> bufsize" "bufsize \<le> length buf" and res: "res < bufsize - 1 \<or> n \<noteq> 0" "res \<le> bufsize - 1"
    and front: "\<forall>c \<in> set (take res buf). c \<noteq> 0"
  shows "c_string
      (let (buf, tmp, n) = itoa_digits (buf[bufsize - 1 := 0]) res (bufsize - 1) (int n)
       in if n \<noteq> 0 then buf[0 := 0]
          else if buf ! tmp = 0 then buf[res := 48, Suc res := 0]
          else memmove buf res tmp (bufsize - tmp)) =
      (if res + length (dec0 n) < bufsize then take res buf @ (if n = 0 then [48] else dec0 n) else [])"
    (is "c_string ?r = _")
proof (cases "res + length (dec0 n) < bufsize")
  case False
  obtain b' t' n' where e: "itoa_digits (buf[bufsize - 1 := 0]) res (bufsize - 1) (int n) = (b', t', n')"
    by (metis prod_cases3)
  have "bufsize - 1 - res < length (dec0 n)"
    using False b res by (cases "n = 0") auto
  then have "n' \<noteq> 0"
    using itoa_digits_too_long [of "bufsize - 1" res n "buf[bufsize - 1 := 0]"] False res e by simp
  moreover have "c_string (b'[0 := 0]) = []" by (cases b') (simp_all add: c_string_def)
  ultimately show ?thesis using e False by simp
next
  case True
  let ?b = "buf[bufsize - 1 := 0]" and ?t = "bufsize - 1 - length (dec0 n)"
  have "drop (bufsize - 1) ?b = 0 # drop bufsize buf"
    using b by (simp add: upd_conv_take_nth_drop)
  then have e: "itoa_digits ?b res (bufsize - 1) (int n) =
      (take ?t buf @ dec0 n @ 0 # drop bufsize buf, ?t, 0)"
    using itoa_digits_fits [of n "bufsize - 1" res ?b] True b res by (simp add: take_update_cancel)
  let ?x = "take ?t buf @ dec0 n @ 0 # drop bufsize buf"
  have lt: "length (take ?t buf) = ?t" using b by simp
  show ?thesis
  proof (cases "n = 0")
    case True
    have "?x[res := 48, Suc res := 0] = take res ?x @ 48 # 0 # drop (Suc (Suc res)) ?x"
      by (rule list_update_two) (use True b res in simp)
    moreover have t: "take res ?x = take res buf" using b res True by (auto simp: min_def)
    moreover have "c_string (take res buf @ 48 # 0 # ys) = take res buf @ [48]" for ys
      using c_string_stops [of "take res buf @ [48]"] front by force
    ultimately have "c_string (?x[res := 48, Suc res := 0]) = take res buf @ [48]"
      by (simp only: t)
    then show ?thesis using True \<open>res + _ < bufsize\<close> e lt by (simp add: nth_append)
  next
    case False
    have nz: "?x ! ?t \<noteq> 0"
      using lt False dec0_nonzero [of "hd (dec0 n)" n]
      by (simp add: nth_append hd_conv_nth)
    have "memmove ?x res ?t (bufsize - ?t) = take res buf @ dec0 n @ 0 # drop (res + (bufsize - ?t)) ?x"
      using lt True b by (auto simp: memmove_def min_def)
    moreover have "c_string (take res buf @ dec0 n @ 0 # drop (res + (bufsize - ?t)) ?x) = take res buf @ dec0 n"
      using c_string_stops [of "take res buf @ dec0 n"] front dec0_nonzero by force
    ultimately show ?thesis using e nz False True by simp
  qed
qed

text \<open>
  printing any \<^verbatim>\<open>int\<close> but the least one into a buffer of at least two bytes leaves the decimal
  text of the number in the buffer when it fits with its terminator, and an empty string otherwise.
\<close>

theorem lwip_itoa_decimal:
  assumes "2 \<le> bufsize" and "bufsize \<le> length result" and "- (2 ^ 31) < number" and "number < 2 ^ 31"
  shows "c_string (lwip_itoa result bufsize number) =
           (if length (decimal number) < bufsize then decimal number else [])"
proof (cases "number < 0")
  case True
  have t: "take (Suc 0) (result[0 := 45]) = [45]" using assms by (cases result) auto
  have "number = - int (nat (- number))" "neg32 number = int (nat (- number))" "nat (- number) \<noteq> 0"
    using True assms by (simp_all add: neg32_def)
  then show ?thesis
    using True assms itoa_body [of bufsize "result[0 := 45]" "Suc 0" "nat (- number)"] t
    by (auto simp: lwip_itoa_def decimal_def)
next
  case False
  then obtain n where n: "number = int n" by (metis nonneg_int_cases not_less)
  then show ?thesis
    using assms itoa_body [of bufsize result 0 n]
    by (simp add: lwip_itoa_def decimal_def)
qed

theorem lwip_itoa_decimal_witness:
  "c_string (lwip_itoa (replicate 6 1) 6 (- 137)) = [45, 49, 51, 55]"
proof -
  have "decimal (- 137) = [45, 49, 51, 55]" by code_simp
  then show ?thesis using lwip_itoa_decimal [of 6 "replicate 6 1" "- 137"] by (simp only: length_replicate) simp
qed

text \<open>The least \<^verbatim>\<open>int\<close> is printed as bytes that are no digits.\<close>

lemma lwip_itoa_least:
  "c_string (lwip_itoa (replicate 12 0) 12 (- (2 ^ 31))) =
     [45, 46, 47, 44, 41, 44, 40, 45, 42, 44, 40]"
  by code_simp

text \<open>
  the bounded search returns the first position where the token occurs entirely within the
  first \<open>n\<close> bytes.
\<close>

theorem lwip_strnstr_first:
  assumes "token \<noteq> []"
  shows "lwip_strnstr buffer token n = Some i \<longleftrightarrow>
    i + length token \<le> n \<and> occurs_at buffer token i \<and> (\<forall>j < i. \<not> occurs_at buffer token j)"
  using assms by (simp add: lwip_strnstr_def strnstr_from_Some)

theorem lwip_strnstr_first_witness:
  "lwip_strnstr [1, 2, 3, 2, 3] [2, 3] 4 = Some 1"
  using lwip_strnstr_first [of "[2, 3]" "[1, 2, 3, 2, 3]" 4 1]
  by (simp add: occurs_at_def)

text \<open>the constant-time comparison returns zero exactly on equal bytes.\<close>

theorem lwip_memcmp_consttime_zero:
  assumes "len \<le> length s1" and "len \<le> length s2"
  shows "lwip_memcmp_consttime s1 s2 len = 0 \<longleftrightarrow> take len s1 = take len s2"
  using memcmp_acc_zero [OF assms, of 0] by (simp add: lwip_memcmp_consttime_def uint_0_iff)

theorem lwip_memcmp_consttime_zero_witness:
  "lwip_memcmp_consttime [1, 2, 3] [1, 2, 9] 2 = 0"
  using lwip_memcmp_consttime_zero [of 2 "[1, 2, 3]" "[1, 2, 9]"] by simp

end
