(* ===== verification/Lwip_Ip4_Addr.thy ===== *)
theory Lwip_Ip4_Addr
  imports Lwip_Def
begin

text \<open>
  IPv4 addresses of the network stack (\<^verbatim>\<open>middlewares/lwip/src/core/ipv4/ip4_addr.c\<close>): broadcast
  test, netmask check, the parser \<^verbatim>\<open>ip4addr_aton\<close> of the BSD numeric forms and the printer
  \<^verbatim>\<open>ip4addr_ntoa_r\<close>. A \<^verbatim>\<open>u32_t\<close> address is in network order, so its least significant byte is
  the first octet of the text.
\<close>

section \<open>Tests on addresses\<close>

text \<open>The fields of \<^verbatim>\<open>struct netif\<close> the address functions read.\<close>

record netif4 =
  netif_flags :: u8
  netif_ip_addr :: u32
  netif_netmask :: u32

definition NETIF_FLAG_BROADCAST :: u8 where "NETIF_FLAG_BROADCAST = 0x02"
definition IPADDR_ANY :: u32 where "IPADDR_ANY = 0"
definition IPADDR_BROADCAST :: u32 where "IPADDR_BROADCAST = 0xffffffff"
definition IPADDR_NONE :: u32 where "IPADDR_NONE = 0xffffffff"

definition ip4_addr_net_eq :: "u32 \<Rightarrow> u32 \<Rightarrow> u32 \<Rightarrow> bool" where
  "ip4_addr_net_eq addr1 addr2 msk \<longleftrightarrow> addr1 AND msk = addr2 AND msk"

definition ip4_addr_isbroadcast_u32 :: "u32 \<Rightarrow> netif4 \<Rightarrow> bool" where
  "ip4_addr_isbroadcast_u32 addr netif =
    (if NOT addr = IPADDR_ANY \<or> addr = IPADDR_ANY then True
     else if netif_flags netif AND NETIF_FLAG_BROADCAST = 0 then False
     else if addr = netif_ip_addr netif then False
     else if ip4_addr_net_eq addr (netif_ip_addr netif) (netif_netmask netif) \<and>
             addr AND NOT (netif_netmask netif) = IPADDR_BROADCAST AND NOT (netif_netmask netif)
          then True
     else False)"

lemma drop_bit_1_less:
  fixes m :: u32
  assumes "m \<noteq> 0"
  shows "unat (drop_bit 1 m) < unat m"
proof -
  have "unat (drop_bit 1 m) = unat m div 2"
    using unat_drop_bit_eq [of 1 m] by (simp only: drop_bit_eq_div power_one_right)
  moreover have "unat m > 0" using assms by (simp add: unat_gt_0)
  ultimately show ?thesis by simp
qed

text \<open>The two loops over the mask bits, each from the mask the one before it stopped at.\<close>

function skip_ones :: "u32 \<Rightarrow> u32 \<Rightarrow> u32" where
  "skip_ones nm msk =
    (if msk \<noteq> 0 then (if nm AND msk = 0 then msk else skip_ones nm (drop_bit 1 msk)) else 0)"
  by pat_completeness auto

termination by (relation "measure (\<lambda>(nm, msk). unat msk)") (auto simp: drop_bit_1_less simp del: One_nat_def)

function only_zeros :: "u32 \<Rightarrow> u32 \<Rightarrow> bool" where
  "only_zeros nm msk =
    (if msk \<noteq> 0 then (if nm AND msk \<noteq> 0 then False else only_zeros nm (drop_bit 1 msk)) else True)"
  by pat_completeness auto

termination by (relation "measure (\<lambda>(nm, msk). unat msk)") (auto simp: drop_bit_1_less simp del: One_nat_def)

declare skip_ones.simps [simp del] only_zeros.simps [simp del]

definition ip4_addr_netmask_valid :: "u32 \<Rightarrow> bool" where
  "ip4_addr_netmask_valid netmask =
    (let nm_hostorder = lwip_htonl netmask
     in only_zeros nm_hostorder (skip_ones nm_hostorder (push_bit 31 1)))"

section \<open>Parsing\<close>

definition lwip_isdigit :: "u8 \<Rightarrow> bool" where
  "lwip_isdigit c \<longleftrightarrow> 48 \<le> c \<and> c \<le> 57"

definition lwip_islower :: "u8 \<Rightarrow> bool" where
  "lwip_islower c \<longleftrightarrow> 97 \<le> c \<and> c \<le> 122"

definition lwip_isxdigit :: "u8 \<Rightarrow> bool" where
  "lwip_isxdigit c \<longleftrightarrow> lwip_isdigit c \<or> (97 \<le> c \<and> c \<le> 102) \<or> (65 \<le> c \<and> c \<le> 70)"

definition lwip_isspace :: "u8 \<Rightarrow> bool" where
  "lwip_isspace c \<longleftrightarrow> c = 32 \<or> (9 \<le> c \<and> c \<le> 13)"

text \<open>The digits of one part; \<open>val\<close> is a 32-bit accumulator and wraps around.\<close>

fun scan_num :: "u32 \<Rightarrow> u32 \<Rightarrow> u8 list \<Rightarrow> u32 \<times> u8 list" where
  "scan_num base val [] = (val, [])"
| "scan_num base val (c # cp) =
    (if lwip_isdigit c then
       (if base = 8 \<and> (ucast c - 48 :: u32) \<ge> 8 then (val, c # cp)
        else scan_num base (val * base + (ucast c - 48)) cp)
     else if base = 16 \<and> lwip_isxdigit c then
       scan_num base (push_bit 4 val OR (ucast c + 10 - (if lwip_islower c then 97 else 65))) cp
     else (val, c # cp))"

definition scan_part :: "u8 list \<Rightarrow> u32 \<times> u8 list" where
  "scan_part cp =
    (if cur cp = 48 then
       (let cp = tl cp in
        if cur cp = 120 \<or> cur cp = 88 then scan_num 16 0 (tl cp) else scan_num 8 0 cp)
     else scan_num 10 0 cp)"

lemma scan_num_length: "length (snd (scan_num base val cp)) \<le> length cp"
  by (induction base val cp rule: scan_num.induct) auto

text \<open>The parts before the last one, the value of the last and the text after it.\<close>

function scan_parts :: "u32 list \<Rightarrow> u8 list \<Rightarrow> (u32 list \<times> u32 \<times> u8 list) option" where
  "scan_parts parts cp =
    (if \<not> lwip_isdigit (cur cp) then None
     else
       (case scan_part cp of (val, rest) \<Rightarrow>
          if cur rest = 46
          then (if length parts \<ge> 3 then None else scan_parts (parts @ [val]) (tl rest))
          else Some (parts, val, rest)))"
  by pat_completeness auto

termination by (relation "measure (\<lambda>(parts, cp). 4 - length parts)") auto

declare scan_parts.simps [simp del]

definition ip4addr_aton :: "u8 list \<Rightarrow> u32 option" where
  "ip4addr_aton cp =
    (case scan_parts [] cp of
       None \<Rightarrow> None
     | Some (parts, val, rest) \<Rightarrow>
         if cur rest \<noteq> 0 \<and> \<not> lwip_isspace (cur rest) then None
         else
           (case parts of
              [] \<Rightarrow> Some (lwip_htonl val)
            | [p0] \<Rightarrow>
                if val > 0xffffff then None else if p0 > 0xff then None
                else Some (lwip_htonl (val OR push_bit 24 p0))
            | [p0, p1] \<Rightarrow>
                if val > 0xffff then None else if p0 > 0xff \<or> p1 > 0xff then None
                else Some (lwip_htonl (val OR (push_bit 24 p0 OR push_bit 16 p1)))
            | [p0, p1, p2] \<Rightarrow>
                if val > 0xff then None else if p0 > 0xff \<or> p1 > 0xff \<or> p2 > 0xff then None
                else Some (lwip_htonl (val OR (push_bit 24 p0 OR push_bit 16 p1 OR push_bit 8 p2)))
            | _ \<Rightarrow> Some (lwip_htonl val)))"

definition ipaddr_addr :: "u8 list \<Rightarrow> u32" where
  "ipaddr_addr cp = (case ip4addr_aton cp of Some val \<Rightarrow> val | None \<Rightarrow> IPADDR_NONE)"

section \<open>Printing\<close>

lemma div_10_less: "(a :: u8) div 10 \<noteq> 0 \<Longrightarrow> unat (a div 10) < unat a"
  by (simp add: unat_div unat_eq_zero [symmetric] del: unat_eq_zero)

text \<open>The digits of one octet, the least significant one first (the array \<^verbatim>\<open>inv\<close>).\<close>

function octet_inv :: "u8 \<Rightarrow> u8 list" where
  "octet_inv a = (48 + a mod 10) # (if a div 10 \<noteq> 0 then octet_inv (a div 10) else [])"
  by pat_completeness auto

termination by (relation "measure unat") (auto simp: div_10_less)

declare octet_inv.simps [simp del]

definition addr_octet :: "u32 \<Rightarrow> nat \<Rightarrow> u8" where
  "addr_octet a n = ucast (drop_bit (8 * n) a)"

text \<open>
  The buffer is the list of bytes written so far; \<open>None\<close> is the \<^verbatim>\<open>NULL\<close> result when a byte does
  not fit.
\<close>

fun put_bytes :: "nat \<Rightarrow> u8 list \<Rightarrow> u8 list \<Rightarrow> u8 list option" where
  "put_bytes buflen out [] = Some out"
| "put_bytes buflen out (c # cs) =
    (if length out \<ge> buflen then None else put_bytes buflen (out @ [c]) cs)"

fun put_octets :: "nat \<Rightarrow> u8 list \<Rightarrow> u8 list \<Rightarrow> u8 list option" where
  "put_octets buflen out [] = Some out"
| "put_octets buflen out (a # as) =
    (case put_bytes buflen out (rev (octet_inv a)) of
       None \<Rightarrow> None
     | Some out \<Rightarrow>
         (case put_bytes buflen out [46] of
            None \<Rightarrow> None
          | Some out \<Rightarrow> put_octets buflen out as))"

text \<open>The last dot is overwritten by the terminator, so the text is the bytes before it.\<close>

definition ip4addr_ntoa_r :: "u32 \<Rightarrow> nat \<Rightarrow> u8 list option" where
  "ip4addr_ntoa_r addr buflen =
    map_option butlast (put_octets buflen [] (map (addr_octet addr) [0..<4]))"

definition ip4addr_ntoa :: "u32 \<Rightarrow> u8 list option" where
  "ip4addr_ntoa addr = ip4addr_ntoa_r addr 16"


section \<open>The text of an address is parsed back\<close>

text \<open>One octet is printed in decimal.\<close>

lemma octet_inv_dec0: "rev (octet_inv a) = (if a = 0 then [48] else dec0 (unat a))"
proof (induction a rule: octet_inv.induct)
  case (1 a)
  have d: "unat (a div 10) = unat a div 10" and m: "48 + a mod 10 = of_nat (48 + unat a mod 10)"
    by (simp_all add: unat_div unat_mod word_arith_nat_mod)
  show ?case
  proof (cases "a div 10 = 0")
    case True
    then have u: "unat a div 10 = 0" using d by simp
    show ?thesis
    proof (cases "a = 0")
      case True
      then show ?thesis by (subst octet_inv.simps) simp
    next
      case False
      then show ?thesis using True u m dec0_step [of "unat a"]
        by (subst octet_inv.simps) (simp add: unat_eq_zero)
    qed
  next
    case False
    then have "a \<noteq> 0" by auto
    then show ?thesis using False 1 [OF False] d m dec0_step [of "unat a"]
      by (subst octet_inv.simps) (simp add: unat_eq_zero)
  qed
qed

lemma digit_byte:
  assumes "d < 10"
  shows "lwip_isdigit (of_nat (48 + d))" and "(ucast (of_nat (48 + d) :: u8) - 48 :: u32) = of_nat d"
proof -
  have "d \<in> {0, 1, 2, 3, 4, 5, 6, 7, 8, 9}" using assms by auto
  then show "lwip_isdigit (of_nat (48 + d))" "(ucast (of_nat (48 + d) :: u8) - 48 :: u32) = of_nat d"
    by (auto simp: lwip_isdigit_def)
qed

lemma scan_num_dec0: "scan_num 10 0 (dec0 n @ r) = scan_num 10 (of_nat n) r"
proof (induction n arbitrary: r rule: dec0.induct)
  case (1 n)
  show ?case
  proof (cases "n = 0")
    case False
    have "scan_num 10 0 (dec0 n @ r) = scan_num 10 (of_nat (n div 10)) (of_nat (48 + n mod 10) # r)"
      using 1 [OF False] by (simp add: dec0_step [OF False])
    also have "\<dots> = scan_num 10 (of_nat (n div 10) * 10 + of_nat (n mod 10)) r"
      using digit_byte [of "n mod 10"] by simp
    also have "(of_nat (n div 10) * 10 + of_nat (n mod 10) :: u32) = of_nat n"
      by (metis div_mult_mod_eq of_nat_add of_nat_mult of_nat_numeral)
    finally show ?thesis .
  qed simp
qed

lemma dec0_leading: "n \<noteq> 0 \<Longrightarrow> \<exists>d ds. dec0 n = of_nat (48 + d) # ds \<and> 0 < d \<and> d < 10"
proof (induction n rule: dec0.induct)
  case (1 n)
  show ?case
  proof (cases "n div 10 = 0")
    case True
    then show ?thesis using 1(2) by (intro exI [of _ n]) (simp add: dec0_step)
  next
    case False
    then show ?thesis using 1 by (auto simp: dec0_step [of n])
  qed
qed

definition octet_string :: "u8 \<Rightarrow> u8 list" where
  "octet_string a = rev (octet_inv a)"

definition stops_number :: "u8 list \<Rightarrow> bool" where
  "stops_number r \<longleftrightarrow> r = [] \<or> (\<exists>r'. r = 46 # r')"

lemma scan_num_stop: "stops_number r \<Longrightarrow> scan_num base v r = (v, r)"
  by (auto simp: stops_number_def lwip_isdigit_def lwip_isxdigit_def)

lemma octet_string_scan:
  assumes "stops_number r"
  shows "scan_part (octet_string a @ r) = (ucast a, r)" and "lwip_isdigit (cur (octet_string a @ r))"
proof -
  have "scan_part (octet_string a @ r) = (ucast a, r) \<and> lwip_isdigit (cur (octet_string a @ r))"
  proof (cases "a = 0")
    case True
    then show ?thesis using assms
      by (auto simp: octet_string_def octet_inv_dec0 scan_part_def scan_num_stop lwip_isdigit_def
          stops_number_def)
  next
    case False
    then obtain d ds where d: "dec0 (unat a) = of_nat (48 + d) # ds" "0 < d" "d < 10"
      using dec0_leading [of "unat a"] by (auto simp: unat_eq_zero)
    have "of_nat (48 + d) \<noteq> (48 :: u8)"
    proof
      assume "of_nat (48 + d) = (48 :: u8)"
      then have "unat (of_nat (48 + d) :: u8) = 48" by simp
      with unat_digit [OF d(3)] d(2) show False by simp
    qed
    then have "cur (dec0 (unat a) @ r) \<noteq> 48" by (simp add: d)
    then have "scan_part (dec0 (unat a) @ r) = scan_num 10 (of_nat (unat a)) r"
      by (simp add: scan_part_def scan_num_dec0)
    then show ?thesis
      using False d digit_byte [OF d(3)] assms
      by (simp add: octet_string_def octet_inv_dec0 scan_num_stop unsigned_ucast_eq)
  qed
  then show "scan_part (octet_string a @ r) = (ucast a, r)" "lwip_isdigit (cur (octet_string a @ r))"
    by auto
qed

definition dotted :: "u32 \<Rightarrow> u8 list" where
  "dotted a = octet_string (addr_octet a 0) @ 46 # octet_string (addr_octet a 1) @ 46 #
     octet_string (addr_octet a 2) @ 46 # octet_string (addr_octet a 3)"

lemma scan_parts_dotted:
  "scan_parts [] (dotted a) = Some ([ucast (addr_octet a 0), ucast (addr_octet a 1),
     ucast (addr_octet a 2)], ucast (addr_octet a 3), [])"
proof -
  have s: "stops_number (46 # r)" "stops_number []" for r by (simp_all add: stops_number_def)
  have o: "scan_part (octet_string x @ 46 # r) = (ucast x, 46 # r)"
      "lwip_isdigit (cur (octet_string x @ 46 # r))"
      "scan_part (octet_string x) = (ucast x, [])" "lwip_isdigit (cur (octet_string x))" for x r
    using octet_string_scan [OF s(1), of x] octet_string_scan [OF s(2), of x] by simp_all
  show ?thesis
    by (simp add: dotted_def scan_parts.simps o)
qed

lemma octets_bound: "\<not> (ucast (x :: u8) :: u32) > 0xff"
proof -
  have "unat x < 256" using unat_bound [of x] by simp
  then show ?thesis
    by (simp add: word_less_nat_alt unsigned_ucast_eq take_bit_nat_eq_self)
qed

lemma octets_join:
  "lwip_htonl (ucast (addr_octet a 3) OR (push_bit 24 (ucast (addr_octet a 0)) OR
     push_bit 16 (ucast (addr_octet a 1)) OR push_bit 8 (ucast (addr_octet a 2)))) = a"
  by (rule word_eq_bitsI) (simp add: bit_positions lwip_htonl_def addr_octet_def bit_simps)

lemma put_bytes_fits:
  "length out + length cs \<le> buflen \<Longrightarrow> put_bytes buflen out cs = Some (out @ cs)"
  by (induction buflen out cs rule: put_bytes.induct) auto

lemma octet_string_length: "length (octet_string a) \<le> 3"
proof -
  have "length (dec0 n) \<le> 3" if "n < 1000" for n
    using that by (subst dec0.simps, subst dec0.simps, subst dec0.simps, subst dec0.simps) auto
  moreover have "unat a < 1000" using unat_bound [of a] by simp
  ultimately show ?thesis by (simp add: octet_string_def octet_inv_dec0)
qed

lemma put_octets_fits:
  assumes "length out + 4 * length as \<le> buflen"
  shows "put_octets buflen out as = Some (out @ concat (map (\<lambda>a. octet_string a @ [46]) as))"
  using assms
proof (induction as arbitrary: out)
  case Nil
  then show ?case by simp
next
  case (Cons a as)
  have l: "length (octet_string a) \<le> 3" by (rule octet_string_length)
  with Cons show ?case
    by (simp add: octet_string_def [symmetric] put_bytes_fits)
qed

lemma ntoa_dotted: "16 \<le> buflen \<Longrightarrow> ip4addr_ntoa_r a buflen = Some (dotted a)"
proof -
  assume "16 \<le> buflen"
  moreover have "[0..<4] = [0, 1, 2, 3]" by (simp add: upt_rec)
  ultimately show ?thesis by (simp add: ip4addr_ntoa_r_def put_octets_fits dotted_def butlast_append del: put_octets.simps)
qed

text \<open>
  printing an address into a buffer of at least 16 bytes succeeds with a text of at most 15
  characters, and parsing that text gives the address back.
\<close>

theorem ip4addr_roundtrip:
  assumes "16 \<le> buflen"
  shows "\<exists>t. ip4addr_ntoa_r a buflen = Some t \<and> length t \<le> 15 \<and> ip4addr_aton t = Some a"
proof -
  have "length (dotted a) \<le> 15"
    using octet_string_length [of "addr_octet a 0"] octet_string_length [of "addr_octet a 1"]
      octet_string_length [of "addr_octet a 2"] octet_string_length [of "addr_octet a 3"]
    by (simp add: dotted_def)
  moreover have "ip4addr_aton (dotted a) = Some a"
    using octets_bound octets_join [of a] by (simp add: ip4addr_aton_def scan_parts_dotted)
  ultimately show ?thesis using ntoa_dotted [OF assms] by auto
qed

theorem ip4addr_roundtrip_witness:
  "\<exists>t. ip4addr_ntoa 0x0100A8C0 = Some t \<and> ip4addr_aton t = Some 0x0100A8C0"
  using ip4addr_roundtrip [of 16 "0x0100A8C0"] by (auto simp: ip4addr_ntoa_def)

section \<open>Netmasks\<close>

lemma and_single_bit: "(nm :: u32) AND push_bit i 1 = 0 \<longleftrightarrow> \<not> (i < 32 \<and> bit nm i)"
proof -
  have e: "bit (nm AND push_bit i 1) j \<longleftrightarrow> j = i \<and> i < 32 \<and> bit nm i" for j
    by (auto simp: bit_simps)
  show ?thesis
  proof
    assume "nm AND push_bit i 1 = 0"
    then show "\<not> (i < 32 \<and> bit nm i)" using e [of i] by simp
  next
    assume "\<not> (i < 32 \<and> bit nm i)"
    then show "nm AND push_bit i 1 = 0" using e by (intro bit_word_eqI) auto
  qed
qed

lemma single_bit_nonzero: "i < 32 \<Longrightarrow> push_bit i (1 :: u32) \<noteq> 0"
  using and_single_bit [of "- 1" i] by auto

lemma single_bit_shift: "drop_bit 1 (push_bit i (1 :: u32)) = (if i = 0 then 0 else push_bit (i - 1) 1)"
  if "i < 32"
  using that by (auto intro!: bit_word_eqI simp: bit_simps)

lemma only_zeros_bits: "i < 32 \<Longrightarrow> only_zeros nm (push_bit i 1) \<longleftrightarrow> (\<forall>j \<le> i. \<not> bit nm j)"
proof (induction i)
  case 0
  have "drop_bit 1 (push_bit 0 (1 :: u32)) = 0" using single_bit_shift [of 0] by simp
  then show ?case using and_single_bit [of nm 0] single_bit_nonzero [of 0]
    by (subst only_zeros.simps) (simp add: only_zeros.simps [of nm 0])
next
  case (Suc i)
  then show ?case using and_single_bit [of nm "Suc i"] single_bit_nonzero [of "Suc i"] single_bit_shift [of "Suc i"]
    by (subst only_zeros.simps) (auto simp: le_Suc_eq)
qed

lemma skip_then_zeros:
  "i < 32 \<Longrightarrow> only_zeros nm (skip_ones nm (push_bit i 1)) \<longleftrightarrow>
     (\<exists>k \<le> Suc i. \<forall>j \<le> i. bit nm j \<longleftrightarrow> k \<le> j)"
proof (induction i)
  case 0
  show ?case
  proof (cases "bit nm 0")
    case True
    have "drop_bit 1 (push_bit 0 (1 :: u32)) = 0" using single_bit_shift [of 0] by simp
    then have "skip_ones nm (push_bit 0 1) = 0"
      using True and_single_bit [of nm 0] single_bit_nonzero [of 0]
      by (subst skip_ones.simps) (simp add: skip_ones.simps [of nm 0])
    then show ?thesis using True by (auto simp: only_zeros.simps intro: exI [of _ 0])
  next
    case False
    then have "skip_ones nm (push_bit 0 1) = push_bit 0 1"
      using and_single_bit [of nm 0] single_bit_nonzero [of 0] by (subst skip_ones.simps) simp
    then show ?thesis using False only_zeros_bits [of 0 nm] by (auto intro: exI [of _ 1])
  qed
next
  case (Suc i)
  note f = and_single_bit [of nm "Suc i"] single_bit_nonzero [of "Suc i"] single_bit_shift [of "Suc i"]
  show ?case
  proof (cases "bit nm (Suc i)")
    case True
    then have "skip_ones nm (push_bit (Suc i) 1) = skip_ones nm (push_bit i 1)"
      using Suc.prems f by (subst skip_ones.simps) simp
    moreover have "(\<exists>k \<le> Suc i. \<forall>j \<le> i. bit nm j \<longleftrightarrow> k \<le> j) \<longleftrightarrow>
        (\<exists>k \<le> Suc (Suc i). \<forall>j \<le> Suc i. bit nm j \<longleftrightarrow> k \<le> j)"
      using True by (auto simp: le_Suc_eq)
    ultimately show ?thesis using Suc by simp
  next
    case False
    then have "skip_ones nm (push_bit (Suc i) 1) = push_bit (Suc i) 1"
      using Suc.prems f by (subst skip_ones.simps) simp
    moreover have "(\<forall>j \<le> Suc i. \<not> bit nm j) \<longleftrightarrow>
        (\<exists>k \<le> Suc (Suc i). \<forall>j \<le> Suc i. bit nm j \<longleftrightarrow> k \<le> j)"
    proof
      assume "\<exists>k \<le> Suc (Suc i). \<forall>j \<le> Suc i. bit nm j \<longleftrightarrow> k \<le> j"
      then obtain k where k: "\<forall>j \<le> Suc i. bit nm j \<longleftrightarrow> k \<le> j" by blast
      then have "Suc i < k" using False by (metis le_refl not_le)
      then show "\<forall>j \<le> Suc i. \<not> bit nm j" using k by auto
    qed (intro exI [of _ "Suc (Suc i)"], auto)
    ultimately show ?thesis using only_zeros_bits [OF Suc.prems, of nm] by presburger
  qed
qed

text \<open>
  the netmask check accepts exactly the masks that are ones from the most significant bit of
  their host order on down to some position, and zeros below it.
\<close>

theorem ip4_addr_netmask_valid_prefix:
  "ip4_addr_netmask_valid m \<longleftrightarrow> (\<exists>k. \<forall>j < 32. bit (lwip_htonl m) j \<longleftrightarrow> k \<le> j)"
proof -
  have "ip4_addr_netmask_valid m \<longleftrightarrow> (\<exists>k \<le> 32. \<forall>j \<le> 31. bit (lwip_htonl m) j \<longleftrightarrow> k \<le> j)"
    using skip_then_zeros [of 31] by (simp add: ip4_addr_netmask_valid_def)
  also have "\<dots> \<longleftrightarrow> (\<exists>k. \<forall>j < 32. bit (lwip_htonl m) j \<longleftrightarrow> k \<le> j)"
  proof
    assume "\<exists>k. \<forall>j < 32. bit (lwip_htonl m) j \<longleftrightarrow> k \<le> j"
    then obtain k where "\<forall>j < 32. bit (lwip_htonl m) j \<longleftrightarrow> k \<le> j" ..
    then show "\<exists>k \<le> 32. \<forall>j \<le> 31. bit (lwip_htonl m) j \<longleftrightarrow> k \<le> j"
      by (intro exI [of _ "min k 32"]) auto
  qed auto
  finally show ?thesis .
qed

theorem ip4_addr_netmask_valid_prefix_witness:
  "ip4_addr_netmask_valid 0x0000FFFF \<and> \<not> ip4_addr_netmask_valid 0xFF00FF00"
proof -
  have "list_all (\<lambda>j. bit (lwip_htonl 0x0000FFFF) j \<longleftrightarrow> 16 \<le> j) [0..<32]"
    by (simp add: bit_positions lwip_htonl_def bit_simps)
  then have "\<exists>k. \<forall>j < 32. bit (lwip_htonl 0x0000FFFF) j \<longleftrightarrow> k \<le> j"
    by (intro exI [of _ 16]) (simp add: list_all_iff)
  moreover have "bit (lwip_htonl 0xFF00FF00) 0" "\<not> bit (lwip_htonl 0xFF00FF00) 8"
    by (simp_all add: lwip_htonl_def bit_simps)
  then have "\<not> (\<forall>j < 32. bit (lwip_htonl 0xFF00FF00) j \<longleftrightarrow> k \<le> j)" for k
    by (cases "k = 0") (auto intro: exI [of _ 0] exI [of _ 8])
  ultimately show ?thesis by (simp only: ip4_addr_netmask_valid_prefix) blast
qed

end
