(* ===== verification/Lwip_Chksum.thy ===== *)
theory Lwip_Chksum
  imports Lwip_Ip4_Addr
begin

text \<open>
  The Internet checksum (\<^verbatim>\<open>middlewares/lwip/src/core/inet_chksum.c\<close>): the three variants of
  \<^verbatim>\<open>lwip_standard_chksum\<close> (the second is the one compiled), the sums over pbuf chains and the
  pseudo-header sums. They are compared with one reference, the one's-complement sum of the bytes
  as little-endian 16-bit words. A memory block is the list of its bytes; \<open>odd_addr\<close> and \<open>align\<close> are
  the low bits of its address; a pbuf chain is the list of its segments.
\<close>

section \<open>The code\<close>

definition FOLD_U32T :: "u32 \<Rightarrow> u32" where
  "FOLD_U32T u = drop_bit 16 u + (u AND 0x0000ffff)"

definition SWAP_BYTES_IN_WORD :: "u32 \<Rightarrow> u32" where
  "SWAP_BYTES_IN_WORD w = push_bit 8 (w AND 0xff) OR drop_bit 8 (w AND 0xff00)"

text \<open>Loads of the little-endian target.\<close>

definition load16 :: "u8 \<Rightarrow> u8 \<Rightarrow> u16" where
  "load16 b0 b1 = ucast b0 OR push_bit 8 (ucast b1)"

definition load32 :: "u8 \<Rightarrow> u8 \<Rightarrow> u8 \<Rightarrow> u8 \<Rightarrow> u32" where
  "load32 b0 b1 b2 b3 = ucast (load16 b0 b1) OR push_bit 16 (ucast (load16 b2 b3))"

subsection \<open>Algorithm 1: byte by byte\<close>

fun sum_be :: "u32 \<Rightarrow> u8 list \<Rightarrow> u32" where
  "sum_be acc (b0 # b1 # bs) = sum_be (acc + ucast (push_bit 8 (ucast b0) OR ucast b1 :: u16)) bs"
| "sum_be acc [b0] = acc + ucast (push_bit 8 (ucast b0) :: u16)"
| "sum_be acc [] = acc"

definition standard_chksum1 :: "u8 list \<Rightarrow> u16" where
  "standard_chksum1 bs =
    (let acc = sum_be 0 bs;
         acc = drop_bit 16 acc + (acc AND 0x0000ffff);
         acc = (if acc AND 0xffff0000 \<noteq> 0 then drop_bit 16 acc + (acc AND 0x0000ffff) else acc)
     in lwip_htons (ucast acc))"

subsection \<open>Algorithm 2: by half-words\<close>

text \<open>The loop over the aligned half-words; the byte left over is kept.\<close>

fun sum_halfwords :: "u32 \<Rightarrow> u8 list \<Rightarrow> u32 \<times> u8 list" where
  "sum_halfwords acc (b0 # b1 # bs) = sum_halfwords (acc + ucast (load16 b0 b1)) bs"
| "sum_halfwords acc bs = (acc, bs)"

definition lwip_standard_chksum :: "bool \<Rightarrow> u8 list \<Rightarrow> u16" where
  "lwip_standard_chksum odd_addr pb =
    (let (t1, pb) = (case pb of b # bs \<Rightarrow> if odd_addr then (b, bs) else (0, pb) | [] \<Rightarrow> (0, []));
         (acc, rest) = sum_halfwords 0 pb;
         t0 = (case rest of b # _ \<Rightarrow> b | [] \<Rightarrow> 0);
         acc = acc + ucast (load16 t0 t1);
         acc = FOLD_U32T acc;
         acc = FOLD_U32T acc;
         acc = (if odd_addr then SWAP_BYTES_IN_WORD acc else acc)
     in ucast acc)"

subsection \<open>Algorithm 3: by words\<close>

definition add_carry :: "u32 \<Rightarrow> u32 \<Rightarrow> u32" where
  "add_carry acc x = (let tmp = acc + x in if tmp < acc then tmp + 1 else tmp)"

fun sum_words :: "u32 \<Rightarrow> u8 list \<Rightarrow> u32 \<times> u8 list" where
  "sum_words acc (b0 # b1 # b2 # b3 # b4 # b5 # b6 # b7 # bs) =
     sum_words (add_carry (add_carry acc (load32 b0 b1 b2 b3)) (load32 b4 b5 b6 b7)) bs"
| "sum_words acc bs = (acc, bs)"

text \<open>\<open>align2\<close>: the half-word address left after an odd first byte is not a multiple of four.\<close>

definition standard_chksum3 :: "bool \<Rightarrow> bool \<Rightarrow> u8 list \<Rightarrow> u16" where
  "standard_chksum3 odd_addr align2 pb =
    (let (t1, pb) = (case pb of b # bs \<Rightarrow> if odd_addr then (b, bs) else (0, pb) | [] \<Rightarrow> (0, []));
         (acc, pb) = (case pb of b0 # b1 # bs \<Rightarrow> if align2 then (ucast (load16 b0 b1), bs) else (0, pb)
                                | _ \<Rightarrow> (0, pb));
         (acc, pb) = sum_words acc pb;
         acc = FOLD_U32T acc;
         (acc, rest) = sum_halfwords acc pb;
         t0 = (case rest of b # _ \<Rightarrow> b | [] \<Rightarrow> 0);
         acc = acc + ucast (load16 t0 t1);
         acc = FOLD_U32T acc;
         acc = FOLD_U32T acc;
         acc = (if odd_addr then SWAP_BYTES_IN_WORD acc else acc)
     in ucast acc)"

subsection \<open>Blocks and chains\<close>

text \<open>A segment: the parity of its payload address and its bytes.\<close>

type_synonym segment = "bool \<times> u8 list"

fun chain_sum :: "u32 \<Rightarrow> bool \<Rightarrow> segment list \<Rightarrow> u32 \<times> bool" where
  "chain_sum acc swapped [] = (acc, swapped)"
| "chain_sum acc swapped ((odd_addr, bs) # q) =
    (let acc = acc + ucast (lwip_standard_chksum odd_addr bs);
         acc = FOLD_U32T acc
     in if length bs mod 2 \<noteq> 0 then chain_sum (SWAP_BYTES_IN_WORD acc) (\<not> swapped) q
        else chain_sum acc swapped q)"

definition inet_chksum :: "bool \<Rightarrow> u8 list \<Rightarrow> u16" where
  "inet_chksum odd_addr bs = NOT (lwip_standard_chksum odd_addr bs)"

definition inet_chksum_pbuf :: "segment list \<Rightarrow> u16" where
  "inet_chksum_pbuf p =
    (let (acc, swapped) = chain_sum 0 False p;
         acc = (if swapped then SWAP_BYTES_IN_WORD acc else acc)
     in ucast (NOT (acc AND 0xffff)))"

definition inet_cksum_pseudo_base :: "segment list \<Rightarrow> u8 \<Rightarrow> u16 \<Rightarrow> u32 \<Rightarrow> u16" where
  "inet_cksum_pseudo_base p proto proto_len acc =
    (let (acc, swapped) = chain_sum acc False p;
         acc = (if swapped then SWAP_BYTES_IN_WORD acc else acc);
         acc = acc + ucast (lwip_htons (ucast proto));
         acc = acc + ucast (lwip_htons proto_len);
         acc = FOLD_U32T acc;
         acc = FOLD_U32T acc
     in ucast (NOT (acc AND 0xffff)))"

definition add_addr :: "u32 \<Rightarrow> u32 \<Rightarrow> u32" where
  "add_addr acc addr = acc + (addr AND 0xffff) + (drop_bit 16 addr AND 0xffff)"

definition inet_chksum_pseudo :: "segment list \<Rightarrow> u8 \<Rightarrow> u16 \<Rightarrow> u32 \<Rightarrow> u32 \<Rightarrow> u16" where
  "inet_chksum_pseudo p proto proto_len src dest =
    (let acc = add_addr (add_addr 0 src) dest;
         acc = FOLD_U32T acc;
         acc = FOLD_U32T acc
     in inet_cksum_pseudo_base p proto proto_len acc)"

text \<open>An IPv6 address is its four words; they are added in turn, source and destination together.\<close>

fun add_addr6 :: "u32 \<Rightarrow> u32 list \<Rightarrow> u32 list \<Rightarrow> u32" where
  "add_addr6 acc (s # src) (d # dest) = add_addr6 (add_addr (add_addr acc s) d) src dest"
| "add_addr6 acc src dest = acc"

definition ip6_chksum_pseudo :: "segment list \<Rightarrow> u8 \<Rightarrow> u16 \<Rightarrow> u32 list \<Rightarrow> u32 list \<Rightarrow> u16" where
  "ip6_chksum_pseudo p proto proto_len src dest =
    (let acc = add_addr6 0 (take 4 src) (take 4 dest);
         acc = FOLD_U32T acc;
         acc = FOLD_U32T acc
     in inet_cksum_pseudo_base p proto proto_len acc)"

datatype ip_addr = Ip4 u32 | Ip6 "u32 list"

fun ip_2_ip4 :: "ip_addr \<Rightarrow> u32" where
  "ip_2_ip4 (Ip4 a) = a"
| "ip_2_ip4 (Ip6 a) = (case a of x # _ \<Rightarrow> x | [] \<Rightarrow> 0)"

fun ip_2_ip6 :: "ip_addr \<Rightarrow> u32 list" where
  "ip_2_ip6 (Ip6 a) = a"
| "ip_2_ip6 (Ip4 a) = [a, 0, 0, 0]"

definition ip_chksum_pseudo :: "segment list \<Rightarrow> u8 \<Rightarrow> u16 \<Rightarrow> ip_addr \<Rightarrow> ip_addr \<Rightarrow> u16" where
  "ip_chksum_pseudo p proto proto_len src dest =
    (case dest of
       Ip6 d \<Rightarrow> ip6_chksum_pseudo p proto proto_len (ip_2_ip6 src) d
     | Ip4 d \<Rightarrow> inet_chksum_pseudo p proto proto_len (ip_2_ip4 src) d)"

text \<open>The partial sums stop after \<open>chksum_len\<close> bytes; the swap depends on the segment's full length.\<close>

fun chain_sum_partial :: "u32 \<Rightarrow> bool \<Rightarrow> segment list \<Rightarrow> nat \<Rightarrow> u32 \<times> bool" where
  "chain_sum_partial acc swapped [] chksum_len = (acc, swapped)"
| "chain_sum_partial acc swapped ((odd_addr, bs) # q) chksum_len =
    (if chksum_len > 0 then
       (let chklen = (if length bs > chksum_len then chksum_len else length bs);
            acc = acc + ucast (lwip_standard_chksum odd_addr (take chklen bs));
            chksum_len = chksum_len - chklen;
            acc = FOLD_U32T acc
        in if length bs mod 2 \<noteq> 0
           then chain_sum_partial (SWAP_BYTES_IN_WORD acc) (\<not> swapped) q chksum_len
           else chain_sum_partial acc swapped q chksum_len)
     else (acc, swapped))"

definition inet_cksum_pseudo_partial_base ::
  "segment list \<Rightarrow> u8 \<Rightarrow> u16 \<Rightarrow> u16 \<Rightarrow> u32 \<Rightarrow> u16" where
  "inet_cksum_pseudo_partial_base p proto proto_len chksum_len acc =
    (let (acc, swapped) = chain_sum_partial acc False p (unat chksum_len);
         acc = (if swapped then SWAP_BYTES_IN_WORD acc else acc);
         acc = acc + ucast (lwip_htons (ucast proto));
         acc = acc + ucast (lwip_htons proto_len);
         acc = FOLD_U32T acc;
         acc = FOLD_U32T acc
     in ucast (NOT (acc AND 0xffff)))"

definition inet_chksum_pseudo_partial ::
  "segment list \<Rightarrow> u8 \<Rightarrow> u16 \<Rightarrow> u16 \<Rightarrow> u32 \<Rightarrow> u32 \<Rightarrow> u16" where
  "inet_chksum_pseudo_partial p proto proto_len chksum_len src dest =
    (let acc = add_addr (add_addr 0 src) dest;
         acc = FOLD_U32T acc;
         acc = FOLD_U32T acc
     in inet_cksum_pseudo_partial_base p proto proto_len chksum_len acc)"

definition ip6_chksum_pseudo_partial ::
  "segment list \<Rightarrow> u8 \<Rightarrow> u16 \<Rightarrow> u16 \<Rightarrow> u32 list \<Rightarrow> u32 list \<Rightarrow> u16" where
  "ip6_chksum_pseudo_partial p proto proto_len chksum_len src dest =
    (let acc = add_addr6 0 (take 4 src) (take 4 dest);
         acc = FOLD_U32T acc;
         acc = FOLD_U32T acc
     in inet_cksum_pseudo_partial_base p proto proto_len chksum_len acc)"

definition ip_chksum_pseudo_partial ::
  "segment list \<Rightarrow> u8 \<Rightarrow> u16 \<Rightarrow> u16 \<Rightarrow> ip_addr \<Rightarrow> ip_addr \<Rightarrow> u16" where
  "ip_chksum_pseudo_partial p proto proto_len chksum_len src dest =
    (case dest of
       Ip6 d \<Rightarrow> ip6_chksum_pseudo_partial p proto proto_len chksum_len (ip_2_ip6 src) d
     | Ip4 d \<Rightarrow> inet_chksum_pseudo_partial p proto proto_len chksum_len (ip_2_ip4 src) d)"

definition lwip_chksum_copy :: "bool \<Rightarrow> u8 list \<Rightarrow> u8 list \<times> u16" where
  "lwip_chksum_copy odd_dst src = (src, lwip_standard_chksum odd_dst src)"

section \<open>The reference\<close>

text \<open>The bytes as little-endian half-words, a last odd byte padded with zero.\<close>

fun le_sum :: "u8 list \<Rightarrow> nat" where
  "le_sum (b0 # b1 # bs) = unat b0 + 256 * unat b1 + le_sum bs"
| "le_sum [b0] = unat b0"
| "le_sum [] = 0"

text \<open>The one's-complement representative: zero only for zero, otherwise in \<open>1..65535\<close>.\<close>

definition ones :: "nat \<Rightarrow> nat" where
  "ones n = (if n = 0 then 0 else (n - 1) mod 65535 + 1)"

lemma ones_small: "n \<le> 65535 \<Longrightarrow> ones n = n"
  by (auto simp: ones_def)

lemma ones_le: "ones n \<le> 65535"
proof -
  have "(n - 1) mod 65535 < 65535" by simp
  then show ?thesis unfolding ones_def by auto
qed

lemma ones_0_iff [simp]: "ones n = 0 \<longleftrightarrow> n = 0"
  by (simp add: ones_def)

lemma ones_mod: "ones n mod 65535 = n mod 65535"
  unfolding ones_def by (cases n) (auto simp: mod_Suc)

text \<open>Two sums have the same representative when they agree modulo 65535 and on being zero.\<close>

lemma ones_eqI:
  assumes "m mod 65535 = n mod 65535" and z: "m = 0 \<longleftrightarrow> n = 0"
  shows "ones m = ones n"
proof (cases m)
  case 0
  then show ?thesis using z by (simp add: ones_def)
next
  case (Suc a)
  then obtain b where n: "n = Suc b" using z by (cases n) auto
  have s: "k mod 65535 = (Suc k + 65534) mod 65535" for k by simp
  have "(Suc a + 65534) mod 65535 = (Suc b + 65534) mod 65535"
    using assms(1) unfolding Suc n by (rule mod_add_cong) simp
  then have "a mod 65535 = b mod 65535" using s [of a] s [of b] by presburger
  then show ?thesis by (simp add: ones_def Suc n)
qed

lemma ones_eq_iff: "ones m = ones n \<longleftrightarrow> m mod 65535 = n mod 65535 \<and> (m = 0 \<longleftrightarrow> n = 0)"
  by (metis ones_0_iff ones_eqI ones_mod)

lemma ones_ones [simp]: "ones (ones n) = ones n"
  using ones_small ones_le by blast

lemma ones_add: "ones a = ones a' \<Longrightarrow> ones b = ones b' \<Longrightarrow> ones (a + b) = ones (a' + b')"
  unfolding ones_eq_iff by (metis add_is_0 mod_add_cong)

lemma ones_256: "ones a = ones b \<Longrightarrow> ones (256 * a) = ones (256 * b)"
  unfolding ones_eq_iff by (metis mod_mult_cong mult_is_0 zero_neq_numeral)

lemma ones_65536: "ones (65536 * a) = ones a"
proof -
  have "65536 * a = a + 65535 * a" by simp
  then have "(65536 * a) mod 65535 = a mod 65535" by (metis mod_mult_self2)
  then show ?thesis by (simp add: ones_eq_iff)
qed

section \<open>Values of the word operations\<close>

lemma and_ffff: "u AND 0x0000ffff = take_bit 16 (u :: u32)"
  by (rule word_eq_bitsI) (simp add: bit_positions bit_simps)

lemma unat_FOLD: "unat (FOLD_U32T u) = unat u div 65536 + unat u mod 65536"
proof -
  have "unat (drop_bit 16 u) = unat u div 65536"
    using unat_drop_bit_eq [of 16 u] by (simp add: drop_bit_eq_div)
  moreover have "unat (take_bit 16 u) = unat u mod 65536"
    unfolding unsigned_take_bit_eq by (simp add: take_bit_eq_mod)
  moreover have "unat u div 65536 + unat u mod 65536 < 2 ^ LENGTH(32)"
    using unat_bound [of u] by simp
  ultimately show ?thesis
    by (simp add: FOLD_U32T_def and_ffff unat_add_small)
qed

lemma ones_FOLD: "ones (unat (FOLD_U32T u)) = ones (unat u)"
proof -
  have "ones (65536 * (unat u div 65536) + unat u mod 65536) = ones (unat u div 65536 + unat u mod 65536)"
    by (intro ones_add ones_65536 refl)
  then show ?thesis by (simp add: unat_FOLD)
qed

lemma FOLD_le:
  "unat u \<le> 131070 \<Longrightarrow> unat (FOLD_U32T u) \<le> 65535"
  "unat (FOLD_U32T u) \<le> 131070"
proof -
  have u: "unat u < 4294967296" using unat_bound [of u] by simp
  then have "unat u div 65536 \<le> 65535" "unat u mod 65536 \<le> 65535" by auto
  then show "unat (FOLD_U32T u) \<le> 131070" unfolding unat_FOLD by linarith
  assume "unat u \<le> 131070"
  then show "unat (FOLD_U32T u) \<le> 65535" unfolding unat_FOLD
    by (cases "unat u < 65536") (auto simp: mod_if div_if)
qed

lemma unat_FOLD_twice: "unat (FOLD_U32T (FOLD_U32T u)) = ones (unat u)"
proof -
  have "unat (FOLD_U32T (FOLD_U32T u)) \<le> 65535" by (rule FOLD_le(1) [OF FOLD_le(2)])
  then show ?thesis using ones_small ones_FOLD by metis
qed

lemma unat_SWAP:
  "unat (SWAP_BYTES_IN_WORD w) = 256 * (unat w mod 256) + (unat w div 256) mod 256"
proof -
  let ?a = "take_bit 8 w" and ?b = "take_bit 8 (drop_bit 8 w)"
  have e: "SWAP_BYTES_IN_WORD w = push_bit 8 ?a OR ?b"
    by (rule word_eq_bitsI) (simp add: bit_positions SWAP_BYTES_IN_WORD_def bit_simps)
  have d: "push_bit 8 ?a AND ?b = 0"
    by (rule word_eq_bitsI) (simp add: bit_positions bit_simps)
  have a: "unat ?a = unat w mod 256"
    unfolding unsigned_take_bit_eq by (simp add: take_bit_eq_mod)
  have b: "unat ?b = (unat w div 256) mod 256"
    using unat_drop_bit_eq [of 8 w] unfolding unsigned_take_bit_eq
    by (simp add: take_bit_eq_mod drop_bit_eq_div)
  have p: "unat (push_bit 8 ?a) = 256 * (unat w mod 256)"
    unfolding unsigned_push_bit_eq a by (simp add: take_bit_nat_eq_self push_bit_eq_mult)
  show ?thesis
    unfolding e disjunctive_add_eq_or [OF d, symmetric]
    by (subst unat_add_small) (simp_all add: p b)
qed

lemma ones_SWAP:
  assumes "unat w \<le> 65535"
  shows "ones (unat (SWAP_BYTES_IN_WORD w)) = ones (256 * unat w)" and "unat (SWAP_BYTES_IN_WORD w) \<le> 65535"
proof -
  let ?r = "unat w mod 256" and ?q = "unat w div 256"
  have q: "?q mod 256 = ?q" using assms by simp
  have "unat w = 256 * ?q + ?r" by simp
  then have "256 * unat w = 65536 * ?q + 256 * ?r" by linarith
  moreover have "ones (65536 * ?q + 256 * ?r) = ones (?q + 256 * ?r)"
    by (intro ones_add ones_65536 refl)
  ultimately have "ones (256 * unat w) = ones (?q + 256 * ?r)" by simp
  then show "ones (unat (SWAP_BYTES_IN_WORD w)) = ones (256 * unat w)"
    by (simp add: unat_SWAP q add.commute)
  have "?r \<le> 255" "?q mod 256 \<le> 255" by auto
  then show "unat (SWAP_BYTES_IN_WORD w) \<le> 65535" unfolding unat_SWAP by linarith
qed

lemma octet_high_bits: "8 \<le> n \<Longrightarrow> \<not> bit (b :: u8) n"
  by (auto dest: bit_imp_le_length)

lemma unat_load16: "unat (load16 b0 b1) = unat b0 + 256 * unat b1"
proof -
  have d: "ucast b0 AND push_bit 8 (ucast b1) = (0 :: u16)"
    by (rule word_eq_bitsI) (simp add: bit_positions bit_simps octet_high_bits)
  have "unat (ucast b0 :: u16) = unat b0" "unat (push_bit 8 (ucast b1) :: u16) = 256 * unat b1"
    using unat_bound [of b0] unat_bound [of b1]
    unfolding unsigned_push_bit_eq unsigned_ucast_eq
    by (simp_all add: take_bit_nat_eq_self push_bit_eq_mult)
  then show ?thesis
    using unat_bound [of b0] unat_bound [of b1]
    unfolding load16_def disjunctive_add_eq_or [OF d, symmetric]
    by (subst unat_add_small) simp_all
qed

lemma unat_ucast_16_32 [simp]: "unat (ucast (w :: u16) :: u32) = unat w"
  using unat_bound [of w] by (simp add: unsigned_ucast_eq take_bit_nat_eq_self)

lemma unat_htons: "unat (lwip_htons w) = 256 * (unat w mod 256) + unat w div 256"
proof -
  have "ucast (lwip_htons w) = SWAP_BYTES_IN_WORD (ucast w)"
    by (rule word_eq_bitsI) (simp add: bit_positions SWAP_BYTES_IN_WORD_def lwip_htons_def bit_simps)
  then have "unat (lwip_htons w) = unat (SWAP_BYTES_IN_WORD (ucast w))"
    by (metis unat_ucast_16_32)
  then show ?thesis using unat_bound [of w] by (simp add: unat_SWAP)
qed

section \<open>The three algorithms compute the reference\<close>

lemma le_sum_0_iff: "le_sum bs = 0 \<longleftrightarrow> (\<forall>b \<in> set bs. b = 0)"
  by (induction bs rule: le_sum.induct) (auto simp: unat_eq_zero)

lemma le_sum_bound: "2 * le_sum bs \<le> 65535 * (length bs + 1)"
proof (induction bs rule: le_sum.induct)
  case (1 b0 b1 bs)
  then show ?case using unat_bound [of b0] unat_bound [of b1] by simp
next
  case (2 b0)
  then show ?case using unat_bound [of b0] by simp
qed simp

text \<open>A byte put in front shifts the rest by one byte position.\<close>

lemma le_sum_Cons: "ones (le_sum (b # bs)) = ones (unat b + 256 * le_sum bs)"
proof (induction bs arbitrary: b rule: le_sum.induct)
  case (1 b0 b1 bs)
  have "ones (le_sum (b1 # bs)) = ones (unat b1 + 256 * le_sum bs)" using 1 .
  then have "ones (unat b + 256 * unat b0 + le_sum (b1 # bs)) =
      ones (unat b + 256 * unat b0 + (unat b1 + 256 * le_sum bs))" by (intro ones_add) auto
  moreover have "ones (unat b + 256 * unat b0 + (unat b1 + 256 * le_sum bs)) =
      ones (unat b + 256 * unat b0 + (65536 * unat b1 + 256 * le_sum bs))"
    by (intro ones_add refl) (simp add: ones_65536)
  ultimately show ?case by (simp add: algebra_simps)
qed simp_all

lemma le_sum_append:
  "ones (le_sum (xs @ ys)) =
     ones (le_sum xs + (if length xs mod 2 \<noteq> 0 then 256 * le_sum ys else le_sum ys))"
proof (induction xs rule: le_sum.induct)
  case (1 b0 b1 bs)
  then have "ones (unat b0 + 256 * unat b1 + le_sum (bs @ ys)) =
    ones (unat b0 + 256 * unat b1 + (le_sum bs + (if length bs mod 2 \<noteq> 0 then 256 * le_sum ys else le_sum ys)))"
    by (intro ones_add refl)
  then show ?case by (simp add: add.assoc)
next
  case (2 b0)
  then show ?case by (simp add: le_sum_Cons)
qed simp


lemma sum_halfwords_value:
  assumes "unat acc + 65535 * (length bs div 2) < 2 ^ 32"
  shows "\<exists>acc' rest. sum_halfwords acc bs = (acc', rest) \<and> unat acc' \<le> unat acc + 65535 * (length bs div 2) \<and>
           rest = (if length bs mod 2 = 0 then [] else [last bs]) \<and>
           unat acc' + le_sum rest = unat acc + le_sum bs"
  using assms
proof (induction acc bs rule: sum_halfwords.induct)
  case (1 acc b0 b1 bs)
  have l: "unat b0 + 256 * unat b1 \<le> 65535" using unat_bound [of b0] unat_bound [of b1] by simp
  have u: "unat (acc + ucast (load16 b0 b1)) = unat acc + (unat b0 + 256 * unat b1)"
    using 1(2) l by (subst unat_add_small) (simp_all add: unat_load16)
  then show ?case using 1 l by force
qed auto

lemma le_sum_single: "le_sum (b # []) = unat b"
  by simp

text \<open>The end of the algorithms by half-words: two folds, and a swap after an odd first byte.\<close>

definition split_first :: "bool \<Rightarrow> u8 list \<Rightarrow> u8 \<times> u8 list" where
  "split_first odd_addr bs = (if odd_addr \<and> bs \<noteq> [] then (hd bs, tl bs) else (0, bs))"

lemma split_first_case:
  "(case bs of b # r \<Rightarrow> if odd_addr then (b, r) else (0, bs) | [] \<Rightarrow> (0, [])) = split_first odd_addr bs"
  by (cases bs) (simp_all add: split_first_def)

lemma fold_and_swap:
  assumes t: "split_first odd_addr bs = (t1, pb)" and s: "ones (unat s) = ones (256 * unat t1 + le_sum pb)"
  defines "f \<equiv> FOLD_U32T (FOLD_U32T s)"
  shows "unat (ucast (if odd_addr then SWAP_BYTES_IN_WORD f else f) :: u16) = ones (le_sum bs)"
proof -
  have small: "unat (ucast w :: u16) = unat w" if "unat w \<le> 65535" for w :: u32
    using that by (simp add: unsigned_ucast_eq take_bit_nat_eq_self)
  have f: "unat f = ones (256 * unat t1 + le_sum pb)" by (simp add: f_def unat_FOLD_twice s)
  then have w: "unat f \<le> 65535" using ones_le by simp
  show ?thesis
  proof (cases odd_addr)
    case False
    then show ?thesis using t f w small by (simp add: split_first_def)
  next
    case True
    have "unat (SWAP_BYTES_IN_WORD f) = ones (256 * unat f)" using ones_SWAP [OF w] ones_small by metis
    also have "\<dots> = ones (256 * (256 * unat t1 + le_sum pb))" unfolding f by (rule ones_256) simp
    also have "\<dots> = ones (65536 * unat t1 + 256 * le_sum pb)" by (simp add: algebra_simps)
    also have "\<dots> = ones (unat t1 + 256 * le_sum pb)" by (intro ones_add ones_65536 refl)
    also have "\<dots> = ones (le_sum bs)"
      using t by (cases bs) (auto simp: split_first_def True le_sum_Cons)
    finally show ?thesis using True small ones_SWAP(2) [OF w] by simp
  qed
qed

text \<open>The loop by half-words and the byte left over.\<close>

lemma halfwords_then_last:
  assumes "sum_halfwords acc pb = (acc', rest)" and "unat acc + 65535 * (length pb div 2) < 2 ^ 32 - 65536"
  shows "unat (acc' + ucast (load16 (case rest of b # _ \<Rightarrow> b | [] \<Rightarrow> 0) t1)) = unat acc + 256 * unat t1 + le_sum pb"
proof -
  let ?t0 = "case rest of b # _ \<Rightarrow> b | [] \<Rightarrow> 0"
  have h: "unat acc' \<le> unat acc + 65535 * (length pb div 2)"
      "rest = (if length pb mod 2 = 0 then [] else [last pb])" "unat acc' + le_sum rest = unat acc + le_sum pb"
    using sum_halfwords_value [of acc pb] assms by auto
  have t0: "unat ?t0 = le_sum rest" using h(2) by auto
  have "unat acc' + (unat ?t0 + 256 * unat t1) < 2 ^ 32"
    using h(1) assms unat_bound [of ?t0] unat_bound [of t1] by simp
  then have "unat (acc' + ucast (load16 ?t0 t1)) = unat acc' + (unat ?t0 + 256 * unat t1)"
    by (subst unat_add_small) (simp_all add: unat_load16)
  with h(3) t0 show ?thesis by simp
qed

text \<open>The compiled algorithm, for any alignment.\<close>

lemma lwip_standard_chksum_value:
  assumes "length bs \<le> 65535"
  shows "unat (lwip_standard_chksum odd_addr bs) = ones (le_sum bs)"
proof -
  obtain t1 pb where t: "split_first odd_addr bs = (t1, pb)" by fastforce
  obtain acc rest where h: "sum_halfwords 0 pb = (acc, rest)" by fastforce
  have "length pb \<le> length bs" using t by (auto simp: split_first_def split: if_splits)
  then have "unat (0 :: u32) + 65535 * (length pb div 2) < 2 ^ 32 - 65536" using assms by simp
  from halfwords_then_last [OF h this, of t1]
  have "ones (unat (acc + ucast (load16 (case rest of b # _ \<Rightarrow> b | [] \<Rightarrow> 0) t1))) =
      ones (256 * unat t1 + le_sum pb)" by simp
  from fold_and_swap [OF t this] show ?thesis
    by (simp add: lwip_standard_chksum_def split_first_case t h Let_def)
qed

text \<open>The algorithm by words: an addition with end-around carry keeps the representative.\<close>

lemma ones_add_carry: "ones (unat (add_carry s x)) = ones (unat s + unat x)"
proof (cases "unat s + unat x < 2 ^ 32")
  case True
  then have "unat (s + x) = unat s + unat x" by (simp add: unat_add_small)
  then show ?thesis by (simp add: add_carry_def word_less_nat_alt)
next
  case False
  have b: "unat s < 2 ^ 32" "unat x < 2 ^ 32" using unat_bound [of s] unat_bound [of x] by simp_all
  have u: "unat (s + x) = unat s + unat x - 2 ^ 32"
    using False b by (simp add: unat_word_ariths mod_if)
  then have "unat (s + x) < unat s" using b False by linarith
  then have "add_carry s x = s + x + 1" by (simp add: add_carry_def word_less_nat_alt)
  moreover have "unat (s + x + 1) = unat s + unat x - 4294967295"
    using u b False by (subst unat_add_small) simp_all
  moreover have "(n - 4294967295) mod 65535 = n mod 65535" if big: "4294967295 \<le> n" for n :: nat
  proof -
    obtain k where k: "n = k + 65535 * 65537" using big le_iff_add [of 4294967295 n] by (auto simp: add.commute)
    show ?thesis unfolding k mod_mult_self2 by simp
  qed
  ultimately show ?thesis using False by (simp add: ones_eq_iff) linarith
qed

lemma unat_load32: "unat (load32 b0 b1 b2 b3) = unat (load16 b0 b1) + 65536 * unat (load16 b2 b3)"
proof -
  let ?l = "load16 b0 b1" and ?h = "load16 b2 b3"
  have hb: "16 \<le> n \<Longrightarrow> \<not> bit (w :: u16) n" for w n by (auto dest: bit_imp_le_length)
  have d: "ucast ?l AND push_bit 16 (ucast ?h) = (0 :: u32)"
    by (rule word_eq_bitsI) (simp add: bit_positions bit_simps hb)
  have "unat (push_bit 16 (ucast ?h) :: u32) = 65536 * unat ?h"
    using unat_bound [of ?h]
    unfolding unsigned_push_bit_eq unat_ucast_16_32 by (simp add: take_bit_nat_eq_self push_bit_eq_mult)
  then show ?thesis
    using unat_bound [of ?l] unat_bound [of ?h]
    unfolding load32_def disjunctive_add_eq_or [OF d, symmetric]
    by (subst unat_add_small) simp_all
qed

lemma ones_add_word:
  "ones (unat (add_carry s (load32 b0 b1 b2 b3)) + n) = ones (unat s + le_sum [b0, b1, b2, b3] + n)"
proof (rule ones_add [OF _ refl])
  have "ones (unat s + unat (load32 b0 b1 b2 b3)) = ones (unat s + (unat (load16 b0 b1) + unat (load16 b2 b3)))"
    unfolding unat_load32 by (intro ones_add ones_65536 refl)
  then show "ones (unat (add_carry s (load32 b0 b1 b2 b3))) = ones (unat s + le_sum [b0, b1, b2, b3])"
    by (simp add: ones_add_carry unat_load16 add.assoc)
qed

lemma sum_words_value:
  "sum_words acc bs = (acc', rest) \<Longrightarrow>
     length rest \<le> 7 \<and> ones (unat acc' + le_sum rest) = ones (unat acc + le_sum bs)"
proof (induction acc bs rule: sum_words.induct)
  case (1 acc b0 b1 b2 b3 b4 b5 b6 b7 bs)
  have "ones (unat (add_carry (add_carry acc (load32 b0 b1 b2 b3)) (load32 b4 b5 b6 b7)) + le_sum bs) =
      ones (unat acc + le_sum [b0, b1, b2, b3] + (le_sum [b4, b5, b6, b7] + le_sum bs))"
    using ones_add_word [of "add_carry acc (load32 b0 b1 b2 b3)" b4 b5 b6 b7 "le_sum bs"]
      ones_add_word [of acc b0 b1 b2 b3 "le_sum [b4, b5, b6, b7] + le_sum bs"] by (simp add: add.assoc)
  with 1 show ?case by (simp add: add.assoc)
qed auto

lemma standard_chksum3_value:
  assumes "length bs \<le> 65535"
  shows "unat (standard_chksum3 odd_addr align2 bs) = ones (le_sum bs)"
proof -
  obtain t1 pb where t: "split_first odd_addr bs = (t1, pb)" by fastforce
  define first where "first = (case pb of b0 # b1 # bs \<Rightarrow>
      if align2 then (ucast (load16 b0 b1), bs) else (0 :: u32, pb) | _ \<Rightarrow> (0, pb))"
  obtain a1 pb1 where f: "first = (a1, pb1)" by fastforce
  have f': "unat a1 + le_sum pb1 = le_sum pb"
    using f by (auto simp: first_def unat_load16 split: list.splits if_splits)
  obtain a2 pb2 where w: "sum_words a1 pb1 = (a2, pb2)" by fastforce
  obtain a3 rest where h: "sum_halfwords (FOLD_U32T a2) pb2 = (a3, rest)" by fastforce
  note v = sum_words_value [OF w]
  have "unat (FOLD_U32T a2) + 65535 * (length pb2 div 2) < 2 ^ 32 - 65536"
    using FOLD_le(2) [of a2] v by auto
  from halfwords_then_last [OF h this, of t1]
  have "ones (unat (a3 + ucast (load16 (case rest of b # _ \<Rightarrow> b | [] \<Rightarrow> 0) t1))) =
      ones (unat (FOLD_U32T a2) + (256 * unat t1 + le_sum pb2))" by (simp add: add.assoc)
  also have "\<dots> = ones (unat a2 + (256 * unat t1 + le_sum pb2))"
    by (intro ones_add ones_FOLD refl)
  also have "\<dots> = ones (256 * unat t1 + (unat a2 + le_sum pb2))" by (simp add: ac_simps)
  also have "\<dots> = ones (256 * unat t1 + (unat a1 + le_sum pb1))" using v by (intro ones_add [OF refl]) simp
  finally have "ones (unat (a3 + ucast (load16 (case rest of b # _ \<Rightarrow> b | [] \<Rightarrow> 0) t1))) =
      ones (256 * unat t1 + le_sum pb)" by (simp add: f')
  from fold_and_swap [OF t this] show ?thesis
    by (simp add: standard_chksum3_def split_first_case t first_def [symmetric] f w h Let_def)
qed

text \<open>The algorithm byte by byte sums the half-words in network order.\<close>

fun be_sum :: "u8 list \<Rightarrow> nat" where
  "be_sum (b0 # b1 # bs) = 256 * unat b0 + unat b1 + be_sum bs"
| "be_sum [b0] = 256 * unat b0"
| "be_sum [] = 0"

lemma be_sum_le_sum: "ones (be_sum bs) = ones (256 * le_sum bs)"
proof (induction bs rule: be_sum.induct)
  case (1 b0 b1 bs)
  have "ones (256 * unat b0 + unat b1 + be_sum bs) = ones (256 * unat b0 + 65536 * unat b1 + 256 * le_sum bs)"
    by (intro ones_add refl 1) (simp add: ones_65536)
  then show ?case by (simp add: algebra_simps)
qed simp_all

lemma be_load: "ucast (push_bit 8 (ucast b0) OR ucast b1 :: u16) = (ucast (load16 b1 b0) :: u32)"
  by (simp add: load16_def or.commute)

lemma sum_be_value:
  "unat acc + 65535 * (length bs + 1) < 2 ^ 32 \<Longrightarrow> unat (sum_be acc bs) = unat acc + be_sum bs"
proof (induction acc bs rule: sum_be.induct)
  case (1 acc b0 b1 bs)
  have l: "unat b1 + 256 * unat b0 \<le> 65535" using unat_bound [of b0] unat_bound [of b1] by simp
  have u: "unat (acc + ucast (load16 b1 b0)) = unat acc + (unat b1 + 256 * unat b0)"
    using 1(2) l by (subst unat_add_small) (simp_all add: unat_load16)
  then show ?case using 1 l by (simp add: be_load)
next
  case (2 acc b0)
  have "ucast (push_bit 8 (ucast b0) :: u16) = (ucast (load16 0 b0) :: u32)" by (simp add: load16_def)
  then show ?case using 2 unat_bound [of b0] by (simp add: unat_add_small unat_load16)
qed simp

lemma standard_chksum1_value:
  assumes "length bs \<le> 65534"
  shows "unat (standard_chksum1 bs) = ones (le_sum bs)"
proof -
  define a where "a = FOLD_U32T (sum_be 0 bs)"
  have "(if a AND 0xffff0000 \<noteq> 0 then FOLD_U32T a else a) = FOLD_U32T a"
  proof (cases "a AND 0xffff0000 = 0")
    case True
    have hb: "32 \<le> n \<Longrightarrow> \<not> bit a n" for n by (auto dest: bit_imp_le_length)
    have "drop_bit 16 a = drop_bit 16 (a AND 0xffff0000)"
      by (rule word_eq_bitsI) (simp add: bit_positions bit_simps hb)
    moreover have "a = (a AND 0xffff0000) OR (a AND 0xffff)"
      by (rule word_eq_bitsI) (simp add: bit_positions bit_simps)
    ultimately have "drop_bit 16 a = 0" "a AND 0xffff = a" using True by auto
    then show ?thesis using True by (simp add: FOLD_U32T_def)
  qed simp
  then have e: "standard_chksum1 bs = lwip_htons (ucast (FOLD_U32T a))"
    by (simp only: standard_chksum1_def Let_def FOLD_U32T_def [symmetric] a_def [symmetric])
  have "unat (sum_be 0 bs) = be_sum bs" using assms by (subst sum_be_value) simp_all
  then have f: "unat (FOLD_U32T a) = ones (be_sum bs)" by (simp add: a_def unat_FOLD_twice)
  have w: "unat (FOLD_U32T a) \<le> 65535" using f ones_le by simp
  then have u: "unat (ucast (FOLD_U32T a) :: u16) = ones (be_sum bs)"
    using f by (simp add: unsigned_ucast_eq take_bit_nat_eq_self)
  have "unat (lwip_htons (ucast (FOLD_U32T a))) = unat (SWAP_BYTES_IN_WORD (FOLD_U32T a))"
    using w f unfolding unat_htons u unat_SWAP by simp
  also have "\<dots> = ones (256 * unat (FOLD_U32T a))" using ones_SWAP [OF w] ones_small by metis
  also have "\<dots> = ones (256 * (256 * le_sum bs))"
    unfolding f using be_sum_le_sum [of bs] by (intro ones_256) simp
  also have "\<dots> = ones (le_sum bs)" using ones_65536 [of "le_sum bs"] by simp
  finally show ?thesis by (simp add: e)
qed

lemma unat_not16: "unat (NOT w) = 65535 - unat (w :: u16)"
proof -
  have "NOT w = - 1 - w" by (simp add: not_eq_complement)
  moreover have "unat (- 1 :: u16) = 65535"
    by (simp add: unsigned_minus_1_eq_mask mask_eq_exp_minus_1)
  ultimately show ?thesis using unat_sub_small [OF word_max_top [of w]] by simp
qed

lemma inet_chksum_value:
  assumes "length bs \<le> 65535"
  shows "unat (inet_chksum odd_addr bs) = 65535 - ones (le_sum bs)"
proof -
  show ?thesis by (simp add: unat_not16 inet_chksum_def lwip_standard_chksum_value [OF assms])
qed

lemma unat_not_ffff: "unat (ucast (NOT (acc AND 0xffff) :: u32) :: u16) = 65535 - unat acc"
  if "unat acc \<le> 65535" for acc :: u32
proof -
  have e: "(ucast (NOT (acc AND 0xffff)) :: u16) = NOT (ucast acc)"
    by (rule word_eq_bitsI) (simp add: bit_positions bit_simps)
  have u: "unat (ucast acc :: u16) = unat acc"
    using that by (simp add: unsigned_ucast_eq take_bit_nat_eq_self)
  show ?thesis unfolding e by (simp only: unat_not16 u)
qed

section \<open>Chains\<close>

definition chain_bytes :: "segment list \<Rightarrow> u8 list" where
  "chain_bytes p = concat (map snd p)"

text \<open>What the loop over a chain keeps after the bytes \<open>xs\<close>, \<open>a\<close> being the sum it started with.\<close>

definition chain_inv :: "nat \<Rightarrow> u8 list \<Rightarrow> u32 \<Rightarrow> bool \<Rightarrow> bool" where
  "chain_inv a xs acc swapped \<longleftrightarrow> unat acc \<le> 65535 \<and> (swapped \<longleftrightarrow> length xs mod 2 \<noteq> 0) \<and>
     ones (unat acc) = ones (if swapped then 256 * (a + le_sum xs) else a + le_sum xs)"

lemma chain_inv_step:
  fixes acc :: u32 and bs :: "u8 list" and odd_addr :: bool
  assumes inv: "chain_inv a xs acc swapped" and l: "length bs \<le> 65535"
  defines "acc1 \<equiv> FOLD_U32T (acc + ucast (lwip_standard_chksum odd_addr bs))"
  shows "chain_inv a (xs @ bs) (if length bs mod 2 \<noteq> 0 then SWAP_BYTES_IN_WORD acc1 else acc1)
           (if length bs mod 2 \<noteq> 0 then \<not> swapped else swapped)"
proof -
  have c: "unat (lwip_standard_chksum odd_addr bs) = ones (le_sum bs)"
    by (rule lwip_standard_chksum_value [OF l])
  have s: "unat (acc + ucast (lwip_standard_chksum odd_addr bs)) = unat acc + ones (le_sum bs)"
    using inv c ones_le [of "le_sum bs"] by (subst unat_add_small) (simp_all add: chain_inv_def)
  have le: "unat acc1 \<le> 65535"
    unfolding acc1_def by (rule FOLD_le(1)) (use s inv ones_le [of "le_sum bs"] in \<open>simp add: chain_inv_def\<close>)
  have app: "ones (a + le_sum (xs @ bs)) = ones (a + (le_sum xs + (if swapped then 256 * le_sum bs else le_sum bs)))"
    using le_sum_append [of xs bs] inv by (intro ones_add refl) (auto simp: chain_inv_def)
  have v: "ones (unat acc1) = ones (if swapped then 256 * (a + le_sum (xs @ bs)) else a + le_sum (xs @ bs))"
  proof -
    have "ones (unat acc1) = ones (unat acc + ones (le_sum bs))" by (simp add: acc1_def ones_FOLD s)
    also have "\<dots> = ones ((if swapped then 256 * (a + le_sum xs) else a + le_sum xs) + le_sum bs)"
      using inv by (intro ones_add) (simp_all add: chain_inv_def)
    also have "\<dots> = ones (if swapped then 256 * (a + le_sum (xs @ bs)) else a + le_sum (xs @ bs))"
    proof (cases swapped)
      case True
      have "ones (256 * (a + le_sum (xs @ bs))) = ones (256 * (a + (le_sum xs + 256 * le_sum bs)))"
        using app True by (intro ones_256) simp
      also have "\<dots> = ones (256 * (a + le_sum xs) + 65536 * le_sum bs)" by (simp add: algebra_simps)
      also have "\<dots> = ones (256 * (a + le_sum xs) + le_sum bs)" by (intro ones_add ones_65536 refl)
      finally show ?thesis using True by simp
    next
      case False
      then show ?thesis using app by (simp add: add.assoc)
    qed
    finally show ?thesis .
  qed
  show ?thesis
  proof (cases "length bs mod 2 = 0")
    case True
    then show ?thesis using le v inv by (auto simp: chain_inv_def mod_add_eq [symmetric, of "length xs"])
  next
    case False
    note w = ones_SWAP [OF le]
    have "ones (256 * unat acc1) = ones (256 * (if swapped then 256 * (a + le_sum (xs @ bs)) else a + le_sum (xs @ bs)))"
      using v by (rule ones_256)
    also have "\<dots> = ones (if \<not> swapped then 256 * (a + le_sum (xs @ bs)) else a + le_sum (xs @ bs))"
      using ones_65536 [of "a + le_sum (xs @ bs)"] by simp
    finally have "ones (unat (SWAP_BYTES_IN_WORD acc1)) =
        ones (if \<not> swapped then 256 * (a + le_sum (xs @ bs)) else a + le_sum (xs @ bs))"
      using w by simp
    moreover have "\<not> swapped \<longleftrightarrow> length (xs @ bs) mod 2 \<noteq> 0"
    proof -
      have "(length xs + length bs) mod 2 \<noteq> 0 \<longleftrightarrow> length xs mod 2 = 0" using False by presburger
      then show ?thesis using inv by (simp add: chain_inv_def)
    qed
    ultimately show ?thesis using w(2) False by (simp add: chain_inv_def)
  qed
qed

lemma chain_sum_inv:
  assumes "chain_inv a xs acc swapped" and "\<forall>(od, bs) \<in> set p. length bs \<le> 65535"
  shows "\<exists>acc' swapped'. chain_sum acc swapped p = (acc', swapped') \<and>
           chain_inv a (xs @ chain_bytes p) acc' swapped'"
  using assms
proof (induction acc swapped p arbitrary: xs rule: chain_sum.induct)
  case (1 acc swapped)
  then show ?case by (simp add: chain_bytes_def)
next
  case (2 acc swapped od bs q)
  have l: "length bs \<le> 65535" "\<forall>(od, bs) \<in> set q. length bs \<le> 65535" using 2(4) by auto
  note st = chain_inv_step [OF 2(3) l(1), of od]
  show ?case
  proof (cases "length bs mod 2 = 0")
    case True
    then show ?thesis using 2(2) [OF refl refl, of "xs @ bs"] st l(2) by (simp add: Let_def chain_bytes_def)
  next
    case False
    then show ?thesis using 2(1) [OF refl refl _, of "xs @ bs"] st l(2) by (simp add: Let_def chain_bytes_def)
  qed
qed

text \<open>The sum after the final swap.\<close>

lemma chain_sum_value:
  assumes "unat acc0 \<le> 65535" and "\<forall>(od, bs) \<in> set p. length bs \<le> 65535"
  obtains acc swapped where "chain_sum acc0 False p = (acc, swapped)"
    and "unat (if swapped then SWAP_BYTES_IN_WORD acc else acc) = ones (unat acc0 + le_sum (chain_bytes p))"
proof -
  have "chain_inv (unat acc0) [] acc0 False" using assms by (simp add: chain_inv_def)
  from chain_sum_inv [OF this assms(2)] obtain acc swapped where
    c: "chain_sum acc0 False p = (acc, swapped)" "chain_inv (unat acc0) (chain_bytes p) acc swapped" by auto
  have "unat (if swapped then SWAP_BYTES_IN_WORD acc else acc) = ones (unat acc0 + le_sum (chain_bytes p))"
  proof (cases swapped)
    case True
    then have v: "unat acc \<le> 65535" "ones (unat acc) = ones (256 * (unat acc0 + le_sum (chain_bytes p)))"
      using c(2) by (simp_all add: chain_inv_def)
    have "unat (SWAP_BYTES_IN_WORD acc) = ones (256 * unat acc)"
      using ones_SWAP [OF v(1)] ones_small by metis
    also have "\<dots> = ones (65536 * (unat acc0 + le_sum (chain_bytes p)))"
      using ones_256 [OF v(2)] by simp
    also have "\<dots> = ones (unat acc0 + le_sum (chain_bytes p))" by (rule ones_65536)
    finally show ?thesis using True by simp
  next
    case False
    then show ?thesis using c(2) ones_small by (simp add: chain_inv_def) metis
  qed
  with c(1) show thesis by (rule that)
qed

lemma ones_idem_add: "ones (ones a + b) = ones (a + b)"
  by (rule ones_add) simp_all

lemma unat_low_high: "unat (add_addr acc addr) = unat acc + le_sum (map (addr_octet addr) [0..<4])"
  if "unat acc \<le> 4294836225"
proof -
  have o: "addr AND 0xffff = ucast (load16 (addr_octet addr 0) (addr_octet addr 1))"
    "drop_bit 16 addr AND 0xffff = ucast (load16 (addr_octet addr 2) (addr_octet addr 3))"
    by (rule word_eq_bitsI, simp add: bit_positions addr_octet_def load16_def bit_simps)+
  have b: "unat (addr_octet addr n) \<le> 255" for n using unat_bound [of "addr_octet addr n"] by simp
  have r: "[0..<4] = [0, 1, 2, 3]" by (simp add: upt_rec)
  show ?thesis
    using that b [of 0] b [of 1] b [of 2] b [of 3] unfolding add_addr_def o r
    by (simp add: unat_add_small unat_load16)
qed

text \<open>The pseudo header of RFC 793: the addresses, zero and the protocol, the length in network order.\<close>

definition addr_bytes :: "u32 \<Rightarrow> u8 list" where
  "addr_bytes a = map (addr_octet a) [0..<4]"

lemma length_addr_bytes [simp]: "length (addr_bytes a) = 4"
  by (simp add: addr_bytes_def)

definition pseudo_header :: "u32 \<Rightarrow> u32 \<Rightarrow> u8 \<Rightarrow> u16 \<Rightarrow> u8 list" where
  "pseudo_header src dest proto proto_len =
     addr_bytes src @ addr_bytes dest @ [0, proto] @ [ucast (drop_bit 8 proto_len), ucast proto_len]"

lemma le_sum_proto: "le_sum [0, proto, ucast (drop_bit 8 n), ucast n] =
  unat (lwip_htons (ucast proto)) + unat (lwip_htons n)"
proof -
  have "unat (ucast (drop_bit 8 n) :: u8) = unat n div 256"
    using unat_bound [of n] unat_drop_bit_eq [of 8 n]
    by (simp add: unsigned_ucast_eq take_bit_nat_eq_self drop_bit_eq_div)
  moreover have "unat (ucast n :: u8) = unat n mod 256"
    by (simp add: unsigned_ucast_eq take_bit_eq_mod)
  moreover have "unat (ucast proto :: u16) = unat proto"
    using unat_bound [of proto] by (simp add: unsigned_ucast_eq take_bit_nat_eq_self)
  ultimately show ?thesis using unat_bound [of proto] by (simp add: unat_htons)
qed

lemma pseudo_base_value:
  assumes "unat acc0 \<le> 65535" and "\<forall>(od, bs) \<in> set p. length bs \<le> 65535"
  shows "unat (inet_cksum_pseudo_base p proto proto_len acc0) =
    65535 - ones (unat acc0 + le_sum (chain_bytes p) +
      le_sum [0, proto, ucast (drop_bit 8 proto_len), ucast proto_len])"
proof -
  obtain acc swapped where c: "chain_sum acc0 False p = (acc, swapped)"
    and v: "unat (if swapped then SWAP_BYTES_IN_WORD acc else acc) = ones (unat acc0 + le_sum (chain_bytes p))"
    using chain_sum_value [OF assms] .
  define a where "a = (if swapped then SWAP_BYTES_IN_WORD acc else acc)"
  let ?s = "a + ucast (lwip_htons (ucast proto)) + ucast (lwip_htons proto_len)"
  have b: "unat (lwip_htons w) \<le> 65535" for w using unat_bound [of "lwip_htons w"] by simp
  have "unat a \<le> 65535" using v ones_le by (simp add: a_def)
  then have s: "unat ?s = unat a + unat (lwip_htons (ucast proto)) + unat (lwip_htons proto_len)"
    using b [of "ucast proto"] b [of proto_len] by (simp add: unat_add_small)
  have "unat (FOLD_U32T (FOLD_U32T ?s)) = ones (unat a + le_sum [0, proto, ucast (drop_bit 8 proto_len), ucast proto_len])"
    unfolding unat_FOLD_twice s le_sum_proto by (simp add: add.assoc)
  also have "unat a = ones (unat acc0 + le_sum (chain_bytes p))" using v by (simp add: a_def)
  finally have f: "unat (FOLD_U32T (FOLD_U32T ?s)) = ones (unat acc0 + le_sum (chain_bytes p) +
      le_sum [0, proto, ucast (drop_bit 8 proto_len), ucast proto_len])"
    by (simp only: ones_idem_add)
  have "inet_cksum_pseudo_base p proto proto_len acc0 = ucast (NOT (FOLD_U32T (FOLD_U32T ?s) AND 0xffff))"
    by (simp add: inet_cksum_pseudo_base_def c a_def Let_def)
  then show ?thesis using unat_not_ffff [of "FOLD_U32T (FOLD_U32T ?s)"] f ones_le by simp
qed

lemma le_sum_even: "length xs mod 2 = 0 \<Longrightarrow> le_sum (xs @ ys) = le_sum xs + le_sum ys"
  by (induction xs rule: le_sum.induct) auto

section \<open>Properties\<close>

text \<open>
  C26: on a block of at most 65535 bytes the compiled checksum is the one's-complement sum of the
  bytes as little-endian half-words, whatever the parity of the address.
\<close>

theorem lwip_standard_chksum_correct:
  assumes "length bs \<le> 65535"
  shows "unat (lwip_standard_chksum odd_addr bs) = ones (le_sum bs)"
  using assms by (rule lwip_standard_chksum_value)

theorem lwip_standard_chksum_correct_witness:
  "unat (lwip_standard_chksum True [0xff, 0xff, 1, 2, 3]) = 516"
proof -
  have "ones (le_sum [0xff, 0xff, 1, 2, 3]) = 516" by (simp add: ones_def)
  then show ?thesis using lwip_standard_chksum_correct [of "[0xff, 0xff, 1, 2, 3]" True] by simp
qed

text \<open>
  the three algorithms of \<^verbatim>\<open>lwip_standard_chksum\<close> are interchangeable on every block of at most
  65534 bytes, for every alignment.
\<close>

theorem chksum_algorithms_agree:
  assumes "length bs \<le> 65534"
  shows "standard_chksum1 bs = lwip_standard_chksum odd_addr bs \<and>
         standard_chksum3 odd_addr' align2 bs = lwip_standard_chksum odd_addr bs"
  using assms standard_chksum1_value [of bs] standard_chksum3_value [of bs odd_addr' align2]
    lwip_standard_chksum_value [of bs odd_addr]
  by (simp add: word_unat_eq_iff)

theorem chksum_algorithms_agree_witness:
  "standard_chksum1 [1, 2, 3] = lwip_standard_chksum True [1, 2, 3]"
  using chksum_algorithms_agree [of "[1, 2, 3]" True] by simp

text \<open>
  the checksum of a pbuf chain is the checksum of its bytes in one block: it does not depend on
  how the packet is split into segments or on their alignment.
\<close>

theorem inet_chksum_pbuf_flat:
  assumes "length (chain_bytes p) \<le> 65535"
  shows "inet_chksum_pbuf p = inet_chksum odd_addr (chain_bytes p)"
proof -
  have l: "\<forall>(od, bs) \<in> set p. length bs \<le> 65535"
  proof (clarify)
    fix od bs assume "(od, bs) \<in> set p"
    then have "length bs \<le> length (chain_bytes p)"
      by (induction p) (auto simp: chain_bytes_def)
    then show "length bs \<le> 65535" using assms by simp
  qed
  obtain acc swapped where c: "chain_sum 0 False p = (acc, swapped)"
    and v: "unat (if swapped then SWAP_BYTES_IN_WORD acc else acc) = ones (unat (0 :: u32) + le_sum (chain_bytes p))"
    using chain_sum_value [OF _ l, of 0] by auto
  let ?a = "if swapped then SWAP_BYTES_IN_WORD acc else acc"
  have "inet_chksum_pbuf p = ucast (NOT (?a AND 0xffff))"
    unfolding inet_chksum_pbuf_def c by (simp add: Let_def)
  then have "unat (inet_chksum_pbuf p) = 65535 - unat ?a"
    using unat_not_ffff [of ?a] v ones_le by simp
  also have "\<dots> = unat (inet_chksum odd_addr (chain_bytes p))"
    using v by (simp add: inet_chksum_value [OF assms])
  finally show ?thesis by (simp only: unsigned_word_eqI)
qed

theorem inet_chksum_pbuf_flat_witness:
  "inet_chksum_pbuf [(True, [1, 2, 3]), (False, [4, 5])] = inet_chksum False [1, 2, 3, 4, 5]"
  using inet_chksum_pbuf_flat [of "[(True, [1, 2, 3]), (False, [4, 5])]" False]
  by (simp add: chain_bytes_def)

text \<open>
  the pseudo-header checksum of a chain is the Internet checksum of the RFC 793 pseudo header
  followed by the bytes of the chain.
\<close>

theorem inet_chksum_pseudo_correct:
  assumes "length (chain_bytes p) \<le> 65523"
  shows "inet_chksum_pseudo p proto proto_len src dest =
    inet_chksum odd_addr (pseudo_header src dest proto proto_len @ chain_bytes p)"
proof -
  have l: "\<forall>(od, bs) \<in> set p. length bs \<le> 65535"
  proof (clarify)
    fix od bs assume "(od, bs) \<in> set p"
    then have "length bs \<le> length (chain_bytes p)"
      by (induction p) (auto simp: chain_bytes_def)
    then show "length bs \<le> 65535" using assms by simp
  qed
  have sb: "le_sum (addr_bytes a) \<le> 163838" for a
    using le_sum_bound [of "addr_bytes a"] unfolding addr_bytes_def by simp
  have s1: "unat (add_addr 0 src) = le_sum (addr_bytes src)"
    using unat_low_high [of 0 src] by (simp add: addr_bytes_def)
  have s2: "unat (add_addr (add_addr 0 src) dest) = le_sum (addr_bytes src) + le_sum (addr_bytes dest)"
    using unat_low_high [of "add_addr 0 src" dest] sb [of src] s1 by (simp add: addr_bytes_def)
  let ?acc = "FOLD_U32T (FOLD_U32T (add_addr (add_addr 0 src) dest))"
  have a: "unat ?acc = ones (le_sum (addr_bytes src) + le_sum (addr_bytes dest))"
    by (simp add: unat_FOLD_twice s2)
  let ?h = "[0, proto, ucast (drop_bit 8 proto_len), ucast proto_len]"
  have e: "le_sum (pseudo_header src dest proto proto_len @ chain_bytes p) =
      le_sum (addr_bytes src) + le_sum (addr_bytes dest) + le_sum (chain_bytes p) + le_sum ?h"
    using le_sum_even [of "addr_bytes src" "addr_bytes dest @ ?h @ chain_bytes p"]
      le_sum_even [of "addr_bytes dest" "?h @ chain_bytes p"] le_sum_even [of ?h "chain_bytes p"]
    by (simp add: pseudo_header_def)
  have "unat (inet_chksum_pseudo p proto proto_len src dest) =
      65535 - ones (unat ?acc + le_sum (chain_bytes p) + le_sum ?h)"
    using pseudo_base_value [OF _ l, of ?acc] a ones_le by (simp add: inet_chksum_pseudo_def Let_def)
  also have "ones (unat ?acc + le_sum (chain_bytes p) + le_sum ?h) =
      ones (le_sum (pseudo_header src dest proto proto_len @ chain_bytes p))"
    unfolding a e by (simp only: add.assoc ones_idem_add)
  also have "65535 - \<dots> = unat (inet_chksum odd_addr (pseudo_header src dest proto proto_len @ chain_bytes p))"
    using assms by (subst inet_chksum_value) (simp_all add: pseudo_header_def)
  finally show ?thesis by (simp only: unsigned_word_eqI)
qed

theorem inet_chksum_pseudo_correct_witness:
  "inet_chksum_pseudo [(False, [7])] 17 1 0x0100A8C0 0x0200A8C0 =
   inet_chksum False [0xC0, 0xA8, 0, 1, 0xC0, 0xA8, 0, 2, 0, 17, 0, 1, 7]"
proof -
  have "pseudo_header 0x0100A8C0 0x0200A8C0 17 1 @ chain_bytes [(False, [7])] =
      [0xC0, 0xA8, 0, 1, 0xC0, 0xA8, 0, 2, 0, 17, 0, 1, 7]" by code_simp
  then show ?thesis
    using inet_chksum_pseudo_correct [of "[(False, [7])]" 17 1 "0x0100A8C0" "0x0200A8C0" False]
    by (simp add: chain_bytes_def)
qed

text \<open>
  a packet whose checksum field, at an even offset, holds the checksum computed with the field
  cleared is accepted: its checksum over all bytes is zero.
\<close>

theorem inet_chksum_verifies:
  assumes "even (length pre)" and "length pre + length post \<le> 65533"
    and "c = inet_chksum odd_addr (pre @ [0, 0] @ post)"
  shows "inet_chksum odd_addr' (pre @ [ucast c, ucast (drop_bit 8 c)] @ post) = 0"
proof -
  let ?s = "le_sum pre + le_sum post"
  have ev: "length pre mod 2 = 0" using assms(1) by presburger
  have s0: "le_sum (pre @ [0, 0] @ post) = ?s" using le_sum_even [OF ev] by simp
  have c: "unat c = 65535 - ones ?s"
    using assms(2) unfolding assms(3) by (subst inet_chksum_value) (simp_all add: s0 del: append_Cons)
  have "load16 (ucast c) (ucast (drop_bit 8 c)) = c"
    by (rule word_eq_bitsI) (simp add: bit_positions load16_def bit_simps)
  then have "unat (ucast c :: u8) + 256 * unat (ucast (drop_bit 8 c) :: u8) = unat c"
    by (metis unat_load16)
  then have s1: "le_sum (pre @ [ucast c, ucast (drop_bit 8 c)] @ post) = ?s + unat c"
    using le_sum_even [OF ev] by simp
  have "ones (?s + unat c) = ones (ones ?s + unat c)" by (simp add: ones_idem_add)
  also have "\<dots> = 65535" using c ones_le [of ?s] by (simp add: ones_def [of 65535])
  finally have "unat (inet_chksum odd_addr' (pre @ [ucast c, ucast (drop_bit 8 c)] @ post)) = 0"
    using assms(2) s1 by (subst inet_chksum_value) (simp_all del: append_Cons)
  then show ?thesis by (simp add: unat_eq_zero)
qed

theorem inet_chksum_verifies_witness:
  "inet_chksum True [1, 2, 0xF5, 0xF5, 9, 8] = 0"
proof -
  have c: "inet_chksum False ([1, 2] @ [0, 0] @ [9, 8]) = 0xF5F5" by code_simp
  have "ucast (0xF5F5 :: u16) = (0xF5 :: u8)" "ucast (drop_bit 8 (0xF5F5 :: u16)) = (0xF5 :: u8)"
    by code_simp+
  then show ?thesis
    using inet_chksum_verifies [of "[1, 2]" "[9, 8]" "0xF5F5" False True, OF _ _ c [symmetric]]
    by (simp only: append_Cons append_Nil) simp
qed

end
