(* ===== verification/Bounded_Fifo.thy ===== *)
theory Bounded_Fifo
  imports Prelude_Base
begin

text \<open>
  The interface of a bounded first-in first-out queue: what a client may rely on when it puts and
  gets without waiting. The message queues of the driver without an operating system, the ring of
  the serial console and the queues of the real-time kernel are instances.
\<close>

section \<open>The specification\<close>

datatype 'm fifo_op = OpPut 'm | OpGet

datatype 'm fifo_out = Done | Full | Got 'm | Empty

fun fifo_spec :: "nat \<Rightarrow> 'm list \<Rightarrow> 'm fifo_op \<Rightarrow> 'm list \<times> 'm fifo_out" where
  "fifo_spec n ms (OpPut m) = (if length ms < n then (ms @ [m], Done) else (ms, Full))"
| "fifo_spec n [] OpGet = ([], Empty)"
| "fifo_spec n (m # ms) OpGet = (ms, Got m)"

fun fifo_spec_run :: "nat \<Rightarrow> 'm list \<Rightarrow> 'm fifo_op list \<Rightarrow> 'm list \<times> 'm fifo_out list" where
  "fifo_spec_run n ms [] = (ms, [])"
| "fifo_spec_run n ms (op # ops) =
    (let (ms, r) = fifo_spec n ms op; (ms, rs) = fifo_spec_run n ms ops in (ms, r # rs))"

section \<open>The interface\<close>

locale bounded_fifo =
  fixes put :: "'q \<Rightarrow> 'm \<Rightarrow> 'q option"
    and get :: "'q \<Rightarrow> ('m \<times> 'q) option"
    and ok :: "'q \<Rightarrow> bool"
    and contents :: "'q \<Rightarrow> 'm list"
    and capacity :: "'q \<Rightarrow> nat"
  assumes put_room: "ok q \<Longrightarrow> length (contents q) < capacity q \<Longrightarrow>
      \<exists>q'. put q m = Some q' \<and> ok q' \<and> contents q' = contents q @ [m] \<and> capacity q' = capacity q"
    and put_full: "ok q \<Longrightarrow> \<not> length (contents q) < capacity q \<Longrightarrow> put q m = None"
    and get_empty: "ok q \<Longrightarrow> contents q = [] \<Longrightarrow> get q = None"
    and get_some: "ok q \<Longrightarrow> contents q = m # ms \<Longrightarrow>
      \<exists>q'. get q = Some (m, q') \<and> ok q' \<and> contents q' = ms \<and> capacity q' = capacity q"
begin

definition run_op :: "'q \<Rightarrow> 'm fifo_op \<Rightarrow> 'q \<times> 'm fifo_out" where
  "run_op q op =
    (case op of
       OpPut m \<Rightarrow> (case put q m of Some q' \<Rightarrow> (q', Done) | None \<Rightarrow> (q, Full))
     | OpGet \<Rightarrow> (case get q of Some (m, q') \<Rightarrow> (q', Got m) | None \<Rightarrow> (q, Empty)))"

primrec run_ops :: "'q \<Rightarrow> 'm fifo_op list \<Rightarrow> 'q \<times> 'm fifo_out list" where
  "run_ops q [] = (q, [])"
| "run_ops q (op # ops) =
    (let (q, r) = run_op q op; (q, rs) = run_ops q ops in (q, r # rs))"

lemma run_op_refines:
  assumes "ok q"
  shows "ok (fst (run_op q op)) \<and> capacity (fst (run_op q op)) = capacity q \<and>
         (contents (fst (run_op q op)), snd (run_op q op)) = fifo_spec (capacity q) (contents q) op"
proof (cases op)
  case (OpPut m)
  show ?thesis
  proof (cases "length (contents q) < capacity q")
    case True
    then show ?thesis using put_room [OF assms True, of m] OpPut by (auto simp: run_op_def)
  next
    case False
    then show ?thesis using put_full [OF assms False, of m] OpPut assms by (simp add: run_op_def)
  qed
next
  case OpGet
  show ?thesis
  proof (cases "contents q")
    case Nil
    then show ?thesis using get_empty [OF assms Nil] OpGet assms by (simp add: run_op_def)
  next
    case (Cons m ms)
    then show ?thesis using get_some [OF assms Cons] OpGet by (auto simp: run_op_def)
  qed
qed

text \<open>Every sequence of operations gives the results the specification gives.\<close>

lemma run_ops_refines:
  assumes "ok q"
  shows "ok (fst (run_ops q ops)) \<and> capacity (fst (run_ops q ops)) = capacity q \<and>
         (contents (fst (run_ops q ops)), snd (run_ops q ops)) =
           fifo_spec_run (capacity q) (contents q) ops"
  using assms
proof (induction ops arbitrary: q)
  case Nil
  then show ?case by simp
next
  case (Cons op ops)
  obtain q1 r where 1: "run_op q op = (q1, r)" by fastforce
  obtain q2 rs where 2: "run_ops q1 ops = (q2, rs)" by fastforce
  have s: "ok q1" "capacity q1 = capacity q" "fifo_spec (capacity q) (contents q) op = (contents q1, r)"
    using run_op_refines [OF Cons.prems, of op] 1 by auto
  show ?case using Cons.IH [OF s(1)] s(2,3) 1 2 by (auto split: prod.splits)
qed

end

end
