(* ===== verification/Rtos_Queue.thy ===== *)
theory Rtos_Queue
  imports Rtos_Heap4 Bounded_Fifo
begin

text \<open>
  Queues, semaphores and mutexes of the kernel (\<^verbatim>\<open>middlewares/freertos/source/queue.c\<close>): the ring of copied
  items, the lists of the tasks that wait, the counts that a locked queue collects. One function models one
  critical section. Addresses are integers, items lists of bytes. Waking a task removes it from the head of the list; whether
  it then runs at once is left to the scheduler. The halves of the union are separate fields; an
  assertion that fails, which stops the system, is \<open>None\<close>.
\<close>

section \<open>The queue\<close>

datatype queue_position = queueSEND_TO_BACK | queueSEND_TO_FRONT | queueOVERWRITE

record Queue_t =
  pcHead :: int
  pcWriteTo :: int
  pcTail :: int
  pcReadFrom :: int
  is_mutex :: bool
  xMutexHolder :: "nat option"
  uxRecursiveCallCount :: u32
  xTasksWaitingToSend :: "nat list"
  xTasksWaitingToReceive :: "nat list"
  uxMessagesWaiting :: nat
  uxLength :: nat
  uxItemSize :: nat
  cRxLock :: int
  cTxLock :: int
  storage :: "int \<Rightarrow> u8"

abbreviation queueUNLOCKED :: int where "queueUNLOCKED \<equiv> - 1"
abbreviation queueLOCKED_UNMODIFIED :: int where "queueLOCKED_UNMODIFIED \<equiv> 0"

definition copy_out :: "(int \<Rightarrow> u8) \<Rightarrow> int \<Rightarrow> nat \<Rightarrow> u8 list" where
  "copy_out m a n = map (\<lambda>i. m (a + int i)) [0..<n]"

definition copy_in :: "int \<Rightarrow> u8 list \<Rightarrow> (int \<Rightarrow> u8) \<Rightarrow> int \<Rightarrow> u8" where
  "copy_in a bs m = (\<lambda>x. if a \<le> x \<and> x < a + int (length bs) then bs ! nat (x - a) else m x)"

text \<open>The highest-priority task of an event list leaves it.\<close>

definition xTaskRemoveFromEventList :: "nat list \<Rightarrow> nat list \<times> nat" where
  "xTaskRemoveFromEventList ts = (tl ts, hd ts)"

definition wake_receiver :: "Queue_t \<Rightarrow> Queue_t \<times> nat option" where
  "wake_receiver q =
    (if xTasksWaitingToReceive q = [] then (q, None)
     else (let (ts, t) = xTaskRemoveFromEventList (xTasksWaitingToReceive q) in (q\<lparr>xTasksWaitingToReceive := ts\<rparr>, Some t)))"

definition wake_sender :: "Queue_t \<Rightarrow> Queue_t \<times> nat option" where
  "wake_sender q =
    (if xTasksWaitingToSend q = [] then (q, None)
     else (let (ts, t) = xTaskRemoveFromEventList (xTasksWaitingToSend q) in (q\<lparr>xTasksWaitingToSend := ts\<rparr>, Some t)))"

section \<open>Creation\<close>

definition xQueueGenericReset :: "bool \<Rightarrow> Queue_t \<Rightarrow> (Queue_t \<times> nat option) option" where
  "xQueueGenericReset xNewQueue q =
    (if uxLength q \<ge> 1 \<and> 0xFFFFFFFF div uxLength q \<ge> uxItemSize q then
       (let q = q\<lparr>pcTail := pcHead q + int (uxLength q * uxItemSize q)\<rparr>;
            q = q\<lparr>uxMessagesWaiting := 0, pcWriteTo := pcHead q\<rparr>;
            q = q\<lparr>pcReadFrom := pcHead q + int ((uxLength q - 1) * uxItemSize q), cRxLock := queueUNLOCKED, cTxLock := queueUNLOCKED\<rparr>
        in Some (if \<not> xNewQueue then wake_sender q
                 else (q\<lparr>xTasksWaitingToSend := [], xTasksWaitingToReceive := []\<rparr>, None)))
     else None)"

definition prvInitialiseNewQueue :: "nat \<Rightarrow> nat \<Rightarrow> int \<Rightarrow> int \<Rightarrow> Queue_t \<Rightarrow> Queue_t option" where
  "prvInitialiseNewQueue uxQueueLength itemsize pucQueueStorage pxNewQueue q =
    (let q = q\<lparr>pcHead := (if itemsize = 0 then pxNewQueue else pucQueueStorage)\<rparr>;
         q = q\<lparr>uxLength := uxQueueLength, uxItemSize := itemsize\<rparr>
     in map_option fst (xQueueGenericReset True q))"

text \<open>The heap with the structure and the items in one block; zero when it is exhausted.\<close>

abbreviation SIZEOF_QUEUE :: nat where "SIZEOF_QUEUE \<equiv> 80"

definition xQueueGenericCreate :: "u32 \<Rightarrow> nat \<Rightarrow> nat \<Rightarrow> heap4 \<times> Queue_t \<Rightarrow> ((heap4 \<times> Queue_t) \<times> u32) option" where
  "xQueueGenericCreate random uxQueueLength itemsize hq =
    (case hq of (hp, q) \<Rightarrow>
     if uxQueueLength > 0 \<and> 0xFFFFFFFF div uxQueueLength \<ge> itemsize \<and>
        0xFFFFFFFF - SIZEOF_QUEUE \<ge> uxQueueLength * itemsize then
       (case pvPortMalloc random (word_of_nat (SIZEOF_QUEUE + uxQueueLength * itemsize)) hp of
          None \<Rightarrow> None
        | Some (hp, p) \<Rightarrow>
            (if p \<noteq> 0 then
               map_option (\<lambda>q. ((hp, q), p))
                 (prvInitialiseNewQueue uxQueueLength itemsize (uint p + int SIZEOF_QUEUE) (uint p)
                    (q\<lparr>is_mutex := False\<rparr>))
             else Some ((hp, q), 0)))
     else None)"

definition xQueueCreateCountingSemaphore :: "u32 \<Rightarrow> nat \<Rightarrow> nat \<Rightarrow> heap4 \<times> Queue_t \<Rightarrow> ((heap4 \<times> Queue_t) \<times> u32) option" where
  "xQueueCreateCountingSemaphore random uxMaxCount uxInitialCount hq =
    (if uxMaxCount \<noteq> 0 \<and> uxInitialCount \<le> uxMaxCount then
       map_option (\<lambda>((hp, q), p). if p \<noteq> 0 then ((hp, q\<lparr>uxMessagesWaiting := uxInitialCount\<rparr>), p) else ((hp, q), p))
         (xQueueGenericCreate random uxMaxCount 0 hq)
     else None)"

definition vQueueDelete :: "u32 \<Rightarrow> heap4 \<Rightarrow> heap4 option" where
  "vQueueDelete p hp = vPortFree p hp"

section \<open>Copying items\<close>

definition prvCopyDataToQueue :: "u8 list \<Rightarrow> queue_position \<Rightarrow> Queue_t \<Rightarrow> Queue_t" where
  "prvCopyDataToQueue item xPosition q =
    (let n = uxMessagesWaiting q in
     if uxItemSize q = 0 then
       (let q = (if is_mutex q then q\<lparr>xMutexHolder := None\<rparr> else q) in q\<lparr>uxMessagesWaiting := n + 1\<rparr>)
     else if xPosition = queueSEND_TO_BACK then
       (let q = q\<lparr>storage := copy_in (pcWriteTo q) item (storage q), pcWriteTo := pcWriteTo q + int (uxItemSize q)\<rparr>;
            q = (if pcWriteTo q \<ge> pcTail q then q\<lparr>pcWriteTo := pcHead q\<rparr> else q)
        in q\<lparr>uxMessagesWaiting := n + 1\<rparr>)
     else
       (let q = q\<lparr>storage := copy_in (pcReadFrom q) item (storage q), pcReadFrom := pcReadFrom q - int (uxItemSize q)\<rparr>;
            q = (if pcReadFrom q < pcHead q then q\<lparr>pcReadFrom := pcTail q - int (uxItemSize q)\<rparr> else q);
            n = (if xPosition = queueOVERWRITE \<and> n > 0 then n - 1 else n)
        in q\<lparr>uxMessagesWaiting := n + 1\<rparr>))"

definition prvCopyDataFromQueue :: "Queue_t \<Rightarrow> Queue_t \<times> u8 list" where
  "prvCopyDataFromQueue q =
    (if uxItemSize q \<noteq> 0 then
       (let q = q\<lparr>pcReadFrom := pcReadFrom q + int (uxItemSize q)\<rparr>;
            q = (if pcReadFrom q \<ge> pcTail q then q\<lparr>pcReadFrom := pcHead q\<rparr> else q)
        in (q, copy_out (storage q) (pcReadFrom q) (uxItemSize q)))
     else (q, []))"

section \<open>The critical sections of the calls\<close>

text \<open>\<^verbatim>\<open>xQueueGenericSend\<close>: the item is in the queue and a receiver woken, or there is no room.\<close>

definition send_critical :: "u8 list \<Rightarrow> queue_position \<Rightarrow> Queue_t \<Rightarrow> (Queue_t \<times> nat option) option" where
  "send_critical item xCopyPosition q =
    (if uxMessagesWaiting q < uxLength q \<or> xCopyPosition = queueOVERWRITE
     then Some (wake_receiver (prvCopyDataToQueue item xCopyPosition q)) else None)"

definition prvIncrementQueueTxLock :: "nat \<Rightarrow> Queue_t \<Rightarrow> Queue_t" where
  "prvIncrementQueueTxLock uxNumberOfTasks q =
    (if cTxLock q < int uxNumberOfTasks then q\<lparr>cTxLock := cTxLock q + 1\<rparr> else q)"

definition prvIncrementQueueRxLock :: "nat \<Rightarrow> Queue_t \<Rightarrow> Queue_t" where
  "prvIncrementQueueRxLock uxNumberOfTasks q =
    (if cRxLock q < int uxNumberOfTasks then q\<lparr>cRxLock := cRxLock q + 1\<rparr> else q)"

definition xQueueGenericSendFromISR :: "nat \<Rightarrow> u8 list \<Rightarrow> queue_position \<Rightarrow> Queue_t \<Rightarrow> (Queue_t \<times> nat option) option" where
  "xQueueGenericSendFromISR uxNumberOfTasks item xCopyPosition q =
    (if uxMessagesWaiting q < uxLength q \<or> xCopyPosition = queueOVERWRITE then
       (let tx = cTxLock q; q = prvCopyDataToQueue item xCopyPosition q in
        Some (if tx = queueUNLOCKED then wake_receiver q else (prvIncrementQueueTxLock uxNumberOfTasks q, None)))
     else None)"

definition xQueueGiveFromISR :: "nat \<Rightarrow> Queue_t \<Rightarrow> (Queue_t \<times> nat option) option" where
  "xQueueGiveFromISR uxNumberOfTasks q =
    (if uxMessagesWaiting q < uxLength q then
       (let tx = cTxLock q; q = q\<lparr>uxMessagesWaiting := uxMessagesWaiting q + 1\<rparr> in
        Some (if tx = queueUNLOCKED then wake_receiver q else (prvIncrementQueueTxLock uxNumberOfTasks q, None)))
     else None)"

definition receive_critical :: "Queue_t \<Rightarrow> (Queue_t \<times> u8 list \<times> nat option) option" where
  "receive_critical q =
    (let n = uxMessagesWaiting q in
     if n > 0 then
       (let (q, item) = prvCopyDataFromQueue q; q = q\<lparr>uxMessagesWaiting := n - 1\<rparr>; (q, w) = wake_sender q
        in Some (q, item, w))
     else None)"

definition peek_critical :: "Queue_t \<Rightarrow> (Queue_t \<times> u8 list \<times> nat option) option" where
  "peek_critical q =
    (if uxMessagesWaiting q > 0 then
       (let pcOriginalReadPosition = pcReadFrom q; (q, item) = prvCopyDataFromQueue q;
            q = q\<lparr>pcReadFrom := pcOriginalReadPosition\<rparr>; (q, w) = wake_receiver q
        in Some (q, item, w))
     else None)"

definition xQueueReceiveFromISR :: "nat \<Rightarrow> Queue_t \<Rightarrow> (Queue_t \<times> u8 list \<times> nat option) option" where
  "xQueueReceiveFromISR uxNumberOfTasks q =
    (let n = uxMessagesWaiting q in
     if n > 0 then
       (let rx = cRxLock q; (q, item) = prvCopyDataFromQueue q; q = q\<lparr>uxMessagesWaiting := n - 1\<rparr>;
            (q, w) = (if rx = queueUNLOCKED then wake_sender q else (prvIncrementQueueRxLock uxNumberOfTasks q, None))
        in Some (q, item, w))
     else None)"

definition xQueuePeekFromISR :: "Queue_t \<Rightarrow> (Queue_t \<times> u8 list) option" where
  "xQueuePeekFromISR q =
    (if uxMessagesWaiting q > 0 then
       (let pcOriginalReadPosition = pcReadFrom q; (q, item) = prvCopyDataFromQueue q
        in Some (q\<lparr>pcReadFrom := pcOriginalReadPosition\<rparr>, item))
     else None)"

definition prvIsQueueEmpty :: "Queue_t \<Rightarrow> bool" where "prvIsQueueEmpty q \<longleftrightarrow> uxMessagesWaiting q = 0"
definition prvIsQueueFull :: "Queue_t \<Rightarrow> bool" where "prvIsQueueFull q \<longleftrightarrow> uxMessagesWaiting q = uxLength q"
definition uxQueueMessagesWaiting :: "Queue_t \<Rightarrow> nat" where "uxQueueMessagesWaiting q = uxMessagesWaiting q"
definition uxQueueSpacesAvailable :: "Queue_t \<Rightarrow> nat" where "uxQueueSpacesAvailable q = uxLength q - uxMessagesWaiting q"
definition xQueueIsQueueEmptyFromISR :: "Queue_t \<Rightarrow> bool" where "xQueueIsQueueEmptyFromISR q \<longleftrightarrow> uxMessagesWaiting q = 0"
definition xQueueIsQueueFullFromISR :: "Queue_t \<Rightarrow> bool" where "xQueueIsQueueFullFromISR q \<longleftrightarrow> uxMessagesWaiting q = uxLength q"

section \<open>Locking\<close>

definition prvLockQueue :: "Queue_t \<Rightarrow> Queue_t" where
  "prvLockQueue q =
    (let q = (if cRxLock q = queueUNLOCKED then q\<lparr>cRxLock := queueLOCKED_UNMODIFIED\<rparr> else q)
     in if cTxLock q = queueUNLOCKED then q\<lparr>cTxLock := queueLOCKED_UNMODIFIED\<rparr> else q)"

text \<open>The two critical sections of \<^verbatim>\<open>prvUnlockQueue\<close>: as many tasks are woken as the count says, with the count.\<close>

fun wake_waiting :: "nat \<Rightarrow> nat list \<Rightarrow> nat list \<times> nat list" where
  "wake_waiting 0 ts = (ts, [])"
| "wake_waiting (Suc n) ts =
     (if ts \<noteq> [] then
        (let (ts, t) = xTaskRemoveFromEventList ts; (ts, ws) = wake_waiting n ts in (ts, t # ws))
      else (ts, []))"

definition unlock_tx :: "Queue_t \<Rightarrow> Queue_t \<times> nat list" where
  "unlock_tx q =
    (let (ts, ws) = wake_waiting (nat (cTxLock q)) (xTasksWaitingToReceive q)
     in (q\<lparr>xTasksWaitingToReceive := ts, cTxLock := queueUNLOCKED\<rparr>, ws))"

definition unlock_rx :: "Queue_t \<Rightarrow> Queue_t \<times> nat list" where
  "unlock_rx q =
    (let (ts, ws) = wake_waiting (nat (cRxLock q)) (xTasksWaitingToSend q)
     in (q\<lparr>xTasksWaitingToSend := ts, cRxLock := queueUNLOCKED\<rparr>, ws))"

definition prvUnlockQueue :: "Queue_t \<Rightarrow> Queue_t \<times> nat list" where
  "prvUnlockQueue q = (let (q, ws) = unlock_tx q; (q, vs) = unlock_rx q in (q, ws @ vs))"

section \<open>Semaphores and mutexes, without waiting\<close>

definition semaphore_take_critical :: "nat \<Rightarrow> Queue_t \<Rightarrow> (Queue_t \<times> nat option) option" where
  "semaphore_take_critical task q =
    (let n = uxMessagesWaiting q in
     if n > 0 then
       (let q = q\<lparr>uxMessagesWaiting := n - 1\<rparr>;
            q = (if is_mutex q then q\<lparr>xMutexHolder := Some task\<rparr> else q)
        in Some (wake_sender q))
     else None)"

definition prvInitialiseMutex :: "Queue_t \<Rightarrow> Queue_t" where
  "prvInitialiseMutex q =
    (let q = q\<lparr>xMutexHolder := None, is_mutex := True, uxRecursiveCallCount := 0\<rparr>
     in (case send_critical [] queueSEND_TO_BACK q of None \<Rightarrow> q | Some (q, w) \<Rightarrow> q))"

definition xQueueCreateMutex :: "u32 \<Rightarrow> heap4 \<times> Queue_t \<Rightarrow> ((heap4 \<times> Queue_t) \<times> u32) option" where
  "xQueueCreateMutex random hq =
    map_option (\<lambda>((hp, q), p). if p \<noteq> 0 then ((hp, prvInitialiseMutex q), p) else ((hp, q), p))
      (xQueueGenericCreate random 1 0 hq)"

definition xQueueGetMutexHolder :: "Queue_t \<Rightarrow> nat option" where
  "xQueueGetMutexHolder q = (if is_mutex q then xMutexHolder q else None)"

definition xQueueGetMutexHolderFromISR :: "Queue_t \<Rightarrow> nat option" where
  "xQueueGetMutexHolderFromISR q = (if is_mutex q then xMutexHolder q else None)"

text \<open>The current task takes and gives; \<open>None\<close> in the state when it would have to wait.\<close>

definition xQueueTakeMutexRecursive :: "nat \<Rightarrow> Queue_t \<Rightarrow> Queue_t option" where
  "xQueueTakeMutexRecursive task q =
    (if xMutexHolder q = Some task then Some (q\<lparr>uxRecursiveCallCount := uxRecursiveCallCount q + 1\<rparr>)
     else map_option (\<lambda>(q, w). q\<lparr>uxRecursiveCallCount := uxRecursiveCallCount q + 1\<rparr>) (semaphore_take_critical task q))"

definition xQueueGiveMutexRecursive :: "nat \<Rightarrow> Queue_t \<Rightarrow> Queue_t \<times> bool" where
  "xQueueGiveMutexRecursive task q =
    (if xMutexHolder q = Some task then
       (let q = q\<lparr>uxRecursiveCallCount := uxRecursiveCallCount q - 1\<rparr> in
        if uxRecursiveCallCount q = 0
        then (case send_critical [] queueSEND_TO_BACK q of None \<Rightarrow> (q, True) | Some (q, w) \<Rightarrow> (q, True))
        else (q, True))
     else (q, False))"

section \<open>The ring as a list of items\<close>

definition slot :: "Queue_t \<Rightarrow> nat \<Rightarrow> int" where
  "slot q i = pcHead q + int i * int (uxItemSize q)"

text \<open>The place the last item was read from, and the place of the \<open>k\<close>-th item.\<close>

definition read_index :: "Queue_t \<Rightarrow> nat" where
  "read_index q = nat ((pcReadFrom q - pcHead q) div int (uxItemSize q))"

definition index_of :: "Queue_t \<Rightarrow> nat \<Rightarrow> nat" where
  "index_of q k = (read_index q + 1 + k) mod uxLength q"

definition items :: "Queue_t \<Rightarrow> u8 list list" where
  "items q = (if uxItemSize q = 0 then replicate (uxMessagesWaiting q) []
     else map (\<lambda>k. copy_out (storage q) (slot q (index_of q k)) (uxItemSize q)) [0..<uxMessagesWaiting q])"

definition queue_ok :: "Queue_t \<Rightarrow> bool" where
  "queue_ok q \<longleftrightarrow> 0 < uxLength q \<and> uxMessagesWaiting q \<le> uxLength q \<and>
     (uxItemSize q \<noteq> 0 \<longrightarrow>
        (\<exists>r w. r < uxLength q \<and> w < uxLength q \<and> pcReadFrom q = slot q r \<and> pcWriteTo q = slot q w \<and>
           pcTail q = slot q (uxLength q) \<and> w = (r + 1 + uxMessagesWaiting q) mod uxLength q))"

lemma length_items [simp]: "length (items q) = uxMessagesWaiting q"
  by (simp add: items_def)

lemma length_copy_out [simp]: "length (copy_out m a n) = n"
  by (simp add: copy_out_def)

lemma read_index_slot: "uxItemSize q \<noteq> 0 \<Longrightarrow> pcReadFrom q = slot q r \<Longrightarrow> read_index q = r"
  by (simp add: read_index_def slot_def)

lemma slot_less: "uxItemSize q \<noteq> 0 \<Longrightarrow> slot q i < slot q j \<longleftrightarrow> i < j"
  by (simp add: slot_def)

lemma slot_le: "uxItemSize q \<noteq> 0 \<Longrightarrow> slot q i \<le> slot q j \<longleftrightarrow> i \<le> j"
  by (simp add: slot_def)

lemma slot_step: "slot q i + int (uxItemSize q) = slot q (i + 1)"
  by (simp add: slot_def algebra_simps)

lemma copy_out_in_same: "length bs = n \<Longrightarrow> copy_out (copy_in a bs m) a n = bs"
  by (rule nth_equalityI) (simp_all add: copy_out_def copy_in_def)

lemma copy_out_in_other:
  assumes "i \<noteq> j" and "length bs = uxItemSize q"
  shows "copy_out (copy_in (slot q i) bs m) (slot q j) (uxItemSize q) = copy_out m (slot q j) (uxItemSize q)"
proof -
  have "\<not> (slot q i \<le> slot q j + int k \<and> slot q j + int k < slot q i + int (uxItemSize q))" if "k < uxItemSize q" for k
  proof (cases "i < j")
    case True
    then have "slot q (i + 1) \<le> slot q j" using that by (subst slot_le) auto
    then show ?thesis using slot_step [of q i] by simp
  next
    case False
    then have "slot q (j + 1) \<le> slot q i" using that assms(1) by (subst slot_le) auto
    then show ?thesis using slot_step [of q j] that by simp
  qed
  then show ?thesis using assms(2) by (auto simp: copy_out_def copy_in_def)
qed

lemma mod_shift_inj:
  fixes a :: nat
  assumes "(a + k) mod n = (a + j) mod n" and "k < n" and "j < n"
  shows "k = j"
proof -
  have "k = j" if "k \<le> j" "(a + k) mod n = (a + j) mod n" "j < n" for k j
  proof -
    have "n dvd j - k" using that mod_eq_dvd_iff_nat [of "a + k" "a + j" n] by simp
    moreover have "j - k < n" using that by simp
    ultimately have "j - k = 0" by (meson dvd_imp_le not_le neq0_conv)
    then show ?thesis using that(1) by simp
  qed
  from this [of k j] this [of j k] show ?thesis using assms by (metis nat_le_linear)
qed

lemma items_nonzero: "uxItemSize q \<noteq> 0 \<Longrightarrow> pcReadFrom q = slot q r \<Longrightarrow>
  items q = map (\<lambda>k. copy_out (storage q) (slot q ((r + 1 + k) mod uxLength q)) (uxItemSize q)) [0..<uxMessagesWaiting q]"
  by (simp add: items_def index_of_def read_index_slot)

lemma send_back_items:
  assumes ok: "queue_ok q" and room: "uxMessagesWaiting q < uxLength q" and len: "length item = uxItemSize q"
  defines "q' \<equiv> prvCopyDataToQueue item queueSEND_TO_BACK q"
  shows "queue_ok q' \<and> items q' = items q @ [item]"
proof (cases "uxItemSize q = 0")
  case True
  then show ?thesis using ok room len
    by (simp add: q'_def prvCopyDataToQueue_def Let_def queue_ok_def items_def replicate_append_same [symmetric])
next
  case False
  obtain r w where rw: "r < uxLength q" "w < uxLength q" "pcReadFrom q = slot q r" "pcWriteTo q = slot q w"
    "pcTail q = slot q (uxLength q)" "w = (r + 1 + uxMessagesWaiting q) mod uxLength q"
    using ok False by (auto simp: queue_ok_def)
  define w' where "w' = (w + 1) mod uxLength q"
  have w': "(if slot q (w + 1) \<ge> slot q (uxLength q) then slot q 0 else slot q (w + 1)) = slot q w'"
    using rw(2) False by (auto simp: w'_def slot_le not_le mod_if)
  have f: "uxItemSize q' = uxItemSize q" "uxLength q' = uxLength q" "uxMessagesWaiting q' = uxMessagesWaiting q + 1"
    "pcHead q' = pcHead q" "pcTail q' = pcTail q" "pcReadFrom q' = pcReadFrom q"
    "storage q' = copy_in (slot q w) item (storage q)" "pcWriteTo q' = slot q w'"
    using False rw w' slot_step [of q w] by (auto simp: q'_def prvCopyDataToQueue_def Let_def slot_def [of q 0] split: if_splits)
  have sl: "slot q' = slot q" using f by (simp add: slot_def fun_eq_iff)
  have "(w + 1) mod uxLength q = (r + 1 + (uxMessagesWaiting q + 1)) mod uxLength q" by (simp add: rw(6) mod_simps)
  then have "queue_ok q'" using ok room rw False w' by (auto simp: queue_ok_def f sl w'_def)
  moreover have "items q' = items q @ [item]"
  proof -
    have r': "pcReadFrom q' = slot q' r" using f sl rw by simp
    have "copy_out (storage q') (slot q ((r + 1 + k) mod uxLength q)) (uxItemSize q) =
        copy_out (storage q) (slot q ((r + 1 + k) mod uxLength q)) (uxItemSize q)" if "k < uxMessagesWaiting q" for k
    proof -
      have "w \<noteq> (r + 1 + k) mod uxLength q"
        using mod_shift_inj [of "r + 1" k "uxLength q" "uxMessagesWaiting q"] that room rw(6) by auto
      then show ?thesis unfolding f by (rule copy_out_in_other [OF _ len])
    qed
    moreover have "copy_out (storage q') (slot q ((r + 1 + uxMessagesWaiting q) mod uxLength q)) (uxItemSize q) = item"
      unfolding f rw(6) [symmetric] by (rule copy_out_in_same [OF len])
    ultimately show ?thesis using False rw f
      by (simp add: items_nonzero [OF _ r'] items_nonzero [OF False rw(3)] sl)
  qed
  ultimately show ?thesis ..
qed

lemma send_front_items:
  assumes ok: "queue_ok q" and room: "uxMessagesWaiting q < uxLength q" and len: "length item = uxItemSize q"
    and sz: "uxItemSize q \<noteq> 0"
  defines "q' \<equiv> prvCopyDataToQueue item queueSEND_TO_FRONT q"
  shows "queue_ok q' \<and> items q' = item # items q"
proof -
  obtain r w where rw: "r < uxLength q" "w < uxLength q" "pcReadFrom q = slot q r" "pcWriteTo q = slot q w"
    "pcTail q = slot q (uxLength q)" "w = (r + 1 + uxMessagesWaiting q) mod uxLength q"
    using ok sz by (auto simp: queue_ok_def)
  define r' where "r' = (if r = 0 then uxLength q - 1 else r - 1)"
  have r': "r' < uxLength q" "(r' + 1) mod uxLength q = r" using rw(1) by (auto simp: r'_def)
  have wrap: "slot q r - int (uxItemSize q) < pcHead q \<longleftrightarrow> r = 0"
  proof (cases r)
    case 0
    then show ?thesis using sz by (simp add: slot_def)
  next
    case (Suc r0)
    then have "slot q r - int (uxItemSize q) = slot q r0" using slot_step [of q r0] by simp
    moreover have "\<not> slot q r0 < slot q 0" using sz by (simp add: slot_less)
    ultimately show ?thesis using Suc by (simp add: slot_def [of q 0])
  qed
  have f: "uxItemSize q' = uxItemSize q" "uxLength q' = uxLength q" "uxMessagesWaiting q' = uxMessagesWaiting q + 1"
    "pcHead q' = pcHead q" "pcTail q' = pcTail q" "pcWriteTo q' = pcWriteTo q"
    "storage q' = copy_in (slot q r) item (storage q)" "pcReadFrom q' = slot q r'"
  proof -
    have "slot q (uxLength q) - int (uxItemSize q) = slot q (uxLength q - 1)"
      using ok slot_step [of q "uxLength q - 1"] by (simp add: queue_ok_def)
    moreover have "r \<noteq> 0 \<Longrightarrow> slot q r - int (uxItemSize q) = slot q (r - 1)" using slot_step [of q "r - 1"] by simp
    ultimately show "pcReadFrom q' = slot q r'"
      using sz rw wrap by (simp add: q'_def prvCopyDataToQueue_def Let_def r'_def)
  qed (use sz rw in \<open>simp_all add: q'_def prvCopyDataToQueue_def Let_def\<close>)
  have sl: "slot q' = slot q" using f by (simp add: slot_def fun_eq_iff)
  have idx: "(r' + 1 + (k + 1)) mod uxLength q = (r + 1 + k) mod uxLength q" for k
  proof -
    have "(r' + 1 + (k + 1)) mod uxLength q = ((r' + 1) mod uxLength q + (k + 1)) mod uxLength q" by (simp only: mod_add_left_eq)
    then show ?thesis using r'(2) by simp
  qed
  have "queue_ok q'" using ok room rw sz r' idx [of "uxMessagesWaiting q"] by (auto simp: queue_ok_def f sl)
  moreover have "items q' = item # items q"
  proof -
    have r'': "pcReadFrom q' = slot q' r'" using f sl by simp
    have old: "copy_out (storage q') (slot q ((r + 1 + k) mod uxLength q)) (uxItemSize q) =
        copy_out (storage q) (slot q ((r + 1 + k) mod uxLength q)) (uxItemSize q)" if "k < uxMessagesWaiting q" for k
    proof -
      have "(r + 1 + k) mod uxLength q \<noteq> r"
        using mod_shift_inj [of r "k + 1" "uxLength q" 0] that room rw(1) by auto
      then show ?thesis unfolding f by (intro copy_out_in_other [OF _ len]) auto
    qed
    have new: "copy_out (storage q') (slot q ((r' + 1) mod uxLength q)) (uxItemSize q) = item"
      unfolding f r'(2) by (rule copy_out_in_same [OF len])
    define g where "g k = copy_out (storage q') (slot q ((r' + 1 + k) mod uxLength q)) (uxItemSize q)" for k
    have "items q' = map g [0..<uxMessagesWaiting q + 1]"
      using items_nonzero [OF _ r''] sz f(1-3) sl by (simp add: g_def)
    moreover have "map g [0..<n + 1] = g 0 # map (\<lambda>k. g (k + 1)) [0..<n]" for n
      by (simp add: upt_conv_Cons map_Suc_upt [symmetric] comp_def del: upt_Suc)
    moreover have "g 0 = item" using new by (simp add: g_def)
    moreover have "g (k + 1) = copy_out (storage q) (slot q ((r + 1 + k) mod uxLength q)) (uxItemSize q)"
      if "k < uxMessagesWaiting q" for k
      unfolding g_def idx using old [OF that] .
    ultimately show ?thesis using items_nonzero [OF sz rw(3)] by simp
  qed
  ultimately show ?thesis ..
qed

lemma receive_items:
  assumes ok: "queue_ok q" and some: "uxMessagesWaiting q > 0" and cp: "prvCopyDataFromQueue q = (q1, item)"
  defines "q' \<equiv> q1\<lparr>uxMessagesWaiting := uxMessagesWaiting q - 1\<rparr>"
  shows "queue_ok q' \<and> items q = item # items q'"
proof (cases "uxItemSize q = 0")
  case True
  then show ?thesis using ok some cp
    by (cases "uxMessagesWaiting q") (auto simp: q'_def prvCopyDataFromQueue_def queue_ok_def items_def)
next
  case False
  obtain r w where rw: "r < uxLength q" "w < uxLength q" "pcReadFrom q = slot q r" "pcWriteTo q = slot q w"
    "pcTail q = slot q (uxLength q)" "w = (r + 1 + uxMessagesWaiting q) mod uxLength q"
    using ok False by (auto simp: queue_ok_def)
  define r' where "r' = (r + 1) mod uxLength q"
  have r': "(if slot q (r + 1) \<ge> slot q (uxLength q) then slot q 0 else slot q (r + 1)) = slot q r'"
    using rw(1) False by (auto simp: r'_def slot_le not_le mod_if)
  have q1: "q1 = q\<lparr>pcReadFrom := slot q r'\<rparr>" "item = copy_out (storage q) (slot q r') (uxItemSize q)"
    using cp False rw r' slot_step [of q r] by (auto simp: prvCopyDataFromQueue_def Let_def slot_def [of q 0] split: if_splits)
  have f: "uxItemSize q' = uxItemSize q" "uxLength q' = uxLength q" "uxMessagesWaiting q' = uxMessagesWaiting q - 1"
    "pcHead q' = pcHead q" "pcTail q' = pcTail q" "pcWriteTo q' = pcWriteTo q" "storage q' = storage q" "pcReadFrom q' = slot q r'"
    by (simp_all add: q'_def q1)
  have sl: "slot q' = slot q" using f by (simp add: slot_def fun_eq_iff)
  have idx: "(r' + 1 + k) mod uxLength q = (r + 1 + (k + 1)) mod uxLength q" for k
  proof -
    have "(r' + 1 + k) mod uxLength q = ((r + 1) mod uxLength q + (1 + k)) mod uxLength q" by (simp add: r'_def)
    also have "\<dots> = (r + 1 + (1 + k)) mod uxLength q" by (rule mod_add_left_eq)
    finally show ?thesis by (simp add: add.commute)
  qed
  have "(r' + 1 + (uxMessagesWaiting q - 1)) mod uxLength q = w" using idx [of "uxMessagesWaiting q - 1"] rw(6) some by simp
  moreover have "r' < uxLength q" using rw(1) by (simp add: r'_def)
  ultimately have "queue_ok q'" using ok rw False by (auto simp: queue_ok_def f sl)
  moreover have "items q = item # items q'"
  proof -
    have r'': "pcReadFrom q' = slot q' r'" using f sl by simp
    obtain n where n: "uxMessagesWaiting q = n + 1" using some by (cases "uxMessagesWaiting q") auto
    define g where "g k = copy_out (storage q) (slot q ((r + 1 + k) mod uxLength q)) (uxItemSize q)" for k
    have "items q' = map (\<lambda>k. copy_out (storage q) (slot q ((r' + 1 + k) mod uxLength q)) (uxItemSize q)) [0..<n]"
      using items_nonzero [OF _ r''] False f n sl by simp
    then have "items q' = map (\<lambda>k. g (k + 1)) [0..<n]" unfolding idx g_def .
    moreover have "items q = map g [0..<n + 1]" using items_nonzero [OF False rw(3)] n by (simp add: g_def)
    moreover have "map g [0..<n + 1] = g 0 # map (\<lambda>k. g (k + 1)) [0..<n]"
      by (simp add: upt_conv_Cons map_Suc_upt [symmetric] comp_def del: upt_Suc)
    moreover have "item = g 0" using q1(2) by (simp add: g_def r'_def)
    ultimately show ?thesis by simp
  qed
  ultimately show ?thesis ..
qed

lemma overwrite_items:
  assumes ok: "queue_ok q" and one: "uxLength q = 1" and len: "length item = uxItemSize q" and sz: "uxItemSize q \<noteq> 0"
  shows "queue_ok (prvCopyDataToQueue item queueOVERWRITE q) \<and> items (prvCopyDataToQueue item queueOVERWRITE q) = [item]"
proof -
  have "prvCopyDataToQueue item queueOVERWRITE q = prvCopyDataToQueue item queueSEND_TO_FRONT (q\<lparr>uxMessagesWaiting := 0\<rparr>)"
    using ok one sz by (auto simp: prvCopyDataToQueue_def Let_def queue_ok_def)
  moreover have "queue_ok (q\<lparr>uxMessagesWaiting := 0\<rparr>)" using ok one by (auto simp: queue_ok_def slot_def)
  moreover have "items (q\<lparr>uxMessagesWaiting := 0\<rparr>) = []" by (simp add: items_def)
  ultimately show ?thesis using send_front_items [of "q\<lparr>uxMessagesWaiting := 0\<rparr>" item] one len sz by simp
qed

text \<open>Nothing but the ring is looked at.\<close>

definition same_ring :: "Queue_t \<Rightarrow> Queue_t \<Rightarrow> bool" where
  "same_ring q' q \<longleftrightarrow> pcHead q' = pcHead q \<and> pcWriteTo q' = pcWriteTo q \<and> pcTail q' = pcTail q \<and> pcReadFrom q' = pcReadFrom q \<and>
     uxMessagesWaiting q' = uxMessagesWaiting q \<and> uxLength q' = uxLength q \<and> uxItemSize q' = uxItemSize q \<and> storage q' = storage q"

lemma same_ring_items: "same_ring q' q \<Longrightarrow> items q' = items q \<and> queue_ok q' = queue_ok q"
  by (simp add: same_ring_def items_def queue_ok_def slot_def index_of_def read_index_def)

lemma wake_ring: "same_ring (fst (wake_receiver q)) q" "same_ring (fst (wake_sender q)) q"
  by (simp_all add: wake_receiver_def wake_sender_def same_ring_def xTaskRemoveFromEventList_def)

lemma lock_ring:
  "same_ring (prvLockQueue q) q" "same_ring (prvIncrementQueueTxLock n q) q" "same_ring (prvIncrementQueueRxLock n q) q"
  "same_ring (fst (unlock_tx q)) q" "same_ring (fst (unlock_rx q)) q"
  by (simp_all add: prvLockQueue_def prvIncrementQueueTxLock_def prvIncrementQueueRxLock_def unlock_tx_def unlock_rx_def
    same_ring_def Let_def split: prod.split)

lemmas ring_kept = wake_ring [THEN same_ring_items] lock_ring [THEN same_ring_items]

text \<open>What sending and receiving keep besides the items.\<close>

lemma copy_kept [simp]:
  "uxLength (prvCopyDataToQueue m p q) = uxLength q" "uxItemSize (prvCopyDataToQueue m p q) = uxItemSize q"
  "xTasksWaitingToSend (prvCopyDataToQueue m p q) = xTasksWaitingToSend q"
  "xTasksWaitingToReceive (prvCopyDataToQueue m p q) = xTasksWaitingToReceive q"
  "cRxLock (prvCopyDataToQueue m p q) = cRxLock q" "cTxLock (prvCopyDataToQueue m p q) = cTxLock q"
  by (simp_all add: prvCopyDataToQueue_def Let_def)

lemma copy_from_kept:
  assumes "prvCopyDataFromQueue q = (q', item)"
  shows "uxLength q' = uxLength q" "uxItemSize q' = uxItemSize q" "xTasksWaitingToSend q' = xTasksWaitingToSend q"
    "xTasksWaitingToReceive q' = xTasksWaitingToReceive q" "cRxLock q' = cRxLock q" "cTxLock q' = cTxLock q"
    "uxMessagesWaiting q' = uxMessagesWaiting q"
  using assms by (auto simp: prvCopyDataFromQueue_def Let_def split: if_splits)

section \<open>The queue as a bounded queue\<close>

text \<open>Queues of pointers, as the driver uses them, through the calls of an interrupt handler, which never wait.\<close>

definition bytes_of_ptr :: "u32 \<Rightarrow> u8 list" where
  "bytes_of_ptr p = [ucast p, ucast (drop_bit 8 p), ucast (drop_bit 16 p), ucast (drop_bit 24 p)]"

definition ptr_of_bytes :: "u8 list \<Rightarrow> u32" where
  "ptr_of_bytes bs = ucast (bs ! 0) OR push_bit 8 (ucast (bs ! 1)) OR push_bit 16 (ucast (bs ! 2)) OR push_bit 24 (ucast (bs ! 3))"

lemma ptr_roundtrip [simp]: "ptr_of_bytes (bytes_of_ptr p) = p"
  by (rule word_eq_bitsI)
    (simp add: ptr_of_bytes_def bytes_of_ptr_def bit_positions bit_or_iff bit_push_bit_iff bit_ucast_iff bit_drop_bit_eq del: upt_rec_numeral)

definition isr_put :: "nat \<Rightarrow> Queue_t \<Rightarrow> u32 \<Rightarrow> Queue_t option" where
  "isr_put n q p = map_option fst (xQueueGenericSendFromISR n (bytes_of_ptr p) queueSEND_TO_BACK q)"

definition isr_get :: "nat \<Rightarrow> Queue_t \<Rightarrow> (u32 \<times> Queue_t) option" where
  "isr_get n q = map_option (\<lambda>(q, m, w). (ptr_of_bytes m, q)) (xQueueReceiveFromISR n q)"

definition ptr_queue_ok :: "Queue_t \<Rightarrow> bool" where
  "ptr_queue_ok q \<longleftrightarrow> queue_ok q \<and> uxItemSize q = 4"

definition pointers :: "Queue_t \<Rightarrow> u32 list" where
  "pointers q = map ptr_of_bytes (items q)"

lemma length_bytes_of_ptr [simp]: "length (bytes_of_ptr p) = 4"
  by (simp add: bytes_of_ptr_def)

lemma lock_kept [simp]:
  "uxLength (prvIncrementQueueTxLock n q) = uxLength q" "uxItemSize (prvIncrementQueueTxLock n q) = uxItemSize q"
  "uxLength (prvIncrementQueueRxLock n q) = uxLength q" "uxItemSize (prvIncrementQueueRxLock n q) = uxItemSize q"
  "uxLength (fst (wake_receiver q)) = uxLength q" "uxItemSize (fst (wake_receiver q)) = uxItemSize q"
  "uxLength (fst (wake_sender q)) = uxLength q" "uxItemSize (fst (wake_sender q)) = uxItemSize q"
  using wake_ring [of q] lock_ring(2,3) [of n q] by (simp_all add: same_ring_def)

lemma isr_send_items:
  assumes "queue_ok q" and "length m = uxItemSize q"
  shows "case xQueueGenericSendFromISR n m queueSEND_TO_BACK q of
      None \<Rightarrow> uxMessagesWaiting q = uxLength q
    | Some (q', w) \<Rightarrow> uxMessagesWaiting q < uxLength q \<and> queue_ok q' \<and> items q' = items q @ [m] \<and>
        uxLength q' = uxLength q \<and> uxItemSize q' = uxItemSize q"
proof (cases "uxMessagesWaiting q < uxLength q")
  case True
  note c = send_back_items [OF assms(1) True assms(2)]
  let ?q = "prvCopyDataToQueue m queueSEND_TO_BACK q"
  show ?thesis
  proof (cases "cTxLock q = queueUNLOCKED")
    case unlocked: True
    obtain q' w where w: "wake_receiver ?q = (q', w)" by fastforce
    then have "same_ring q' ?q" using wake_ring(1) [of ?q] by simp
    then show ?thesis using True unlocked w c same_ring_items [of q' ?q]
      by (simp add: xQueueGenericSendFromISR_def Let_def same_ring_def)
  next
    case False
    then show ?thesis using True c by (simp add: xQueueGenericSendFromISR_def Let_def ring_kept)
  qed
next
  case False
  then show ?thesis using assms(1) by (auto simp: xQueueGenericSendFromISR_def queue_ok_def)
qed

lemma isr_receive_items:
  assumes "queue_ok q"
  shows "case xQueueReceiveFromISR n q of
      None \<Rightarrow> items q = []
    | Some (q', m, w) \<Rightarrow> queue_ok q' \<and> items q = m # items q' \<and> uxLength q' = uxLength q \<and> uxItemSize q' = uxItemSize q"
proof (cases "uxMessagesWaiting q > 0")
  case True
  obtain q1 m where c: "prvCopyDataFromQueue q = (q1, m)" by fastforce
  note r = receive_items [OF assms True c] and k = copy_from_kept [OF c]
  show ?thesis using True c r k
    by (auto simp: xQueueReceiveFromISR_def Let_def ring_kept split: if_splits prod.splits dest!: arg_cong [where f = fst])
next
  case False
  then show ?thesis by (simp add: xQueueReceiveFromISR_def items_def)
qed

interpretation rtos_queue: bounded_fifo "isr_put n" "isr_get n" ptr_queue_ok pointers uxLength for n
proof unfold_locales
  fix q :: Queue_t and p ps
  assume ok: "ptr_queue_ok q"
  then have q: "queue_ok q" "length (bytes_of_ptr p) = uxItemSize q" "length (pointers q) = uxMessagesWaiting q"
    by (simp_all add: ptr_queue_ok_def pointers_def)
  note s = isr_send_items [OF q(1,2), of n] and r = isr_receive_items [OF q(1), of n]
  show "\<exists>q'. isr_put n q p = Some q' \<and> ptr_queue_ok q' \<and> pointers q' = pointers q @ [p] \<and> uxLength q' = uxLength q"
    if "length (pointers q) < uxLength q"
    using s that q ok by (auto simp: isr_put_def ptr_queue_ok_def pointers_def split: option.splits)
  show "isr_put n q p = None" if "\<not> length (pointers q) < uxLength q"
    using that q(3) by (simp add: isr_put_def xQueueGenericSendFromISR_def)
  show "isr_get n q = None" if "pointers q = []"
    using that q(3) by (simp add: isr_get_def xQueueReceiveFromISR_def)
  show "\<exists>q'. isr_get n q = Some (p, q') \<and> ptr_queue_ok q' \<and> pointers q' = ps \<and> uxLength q' = uxLength q"
    if "pointers q = p # ps"
    using r that q ok by (auto simp: isr_get_def ptr_queue_ok_def pointers_def split: option.splits)
qed

section \<open>The recursive mutex as a lock with a depth\<close>

datatype mutex_op = Take nat | Give nat

definition mutex_do :: "Queue_t \<Rightarrow> mutex_op \<Rightarrow> Queue_t \<times> bool" where
  "mutex_do q op =
    (case op of
       Take task \<Rightarrow> (case xQueueTakeMutexRecursive task q of None \<Rightarrow> (q, False) | Some q \<Rightarrow> (q, True))
     | Give task \<Rightarrow> xQueueGiveMutexRecursive task q)"

fun lock_spec :: "(nat \<times> nat) option \<Rightarrow> mutex_op \<Rightarrow> (nat \<times> nat) option \<times> bool" where
  "lock_spec None (Take t) = (Some (t, 1), True)"
| "lock_spec (Some (u, d)) (Take t) = (if t = u then (Some (u, d + 1), True) else (Some (u, d), False))"
| "lock_spec None (Give t) = (None, False)"
| "lock_spec (Some (u, d)) (Give t) =
     (if t = u then (if d = 1 then (None, True) else (Some (u, d - 1), True)) else (Some (u, d), False))"

fun runs :: "('s \<Rightarrow> 'o \<Rightarrow> 's \<times> 'r) \<Rightarrow> 's \<Rightarrow> 'o list \<Rightarrow> 's \<times> 'r list" where
  "runs f s [] = (s, [])"
| "runs f s (op # ops) = (let (s, r) = f s op; (s, rs) = runs f s ops in (s, r # rs))"

definition mutex_is :: "Queue_t \<Rightarrow> (nat \<times> nat) option \<Rightarrow> bool" where
  "mutex_is q l \<longleftrightarrow> is_mutex q \<and> uxItemSize q = 0 \<and> uxLength q = 1 \<and>
     (case l of
        None \<Rightarrow> uxMessagesWaiting q = 1 \<and> xMutexHolder q = None \<and> uxRecursiveCallCount q = 0
      | Some (t, d) \<Rightarrow> uxMessagesWaiting q = 0 \<and> xMutexHolder q = Some t \<and> 0 < d \<and> d < 2 ^ 32 \<and>
          uxRecursiveCallCount q = word_of_nat d)"

definition depth :: "(nat \<times> nat) option \<Rightarrow> nat" where
  "depth l = (case l of None \<Rightarrow> 0 | Some (t, d) \<Rightarrow> d)"

lemma lock_spec_depth: "depth (fst (lock_spec l op)) \<le> depth l + 1"
  by (cases "(l, op)" rule: lock_spec.cases) (auto simp: depth_def)

lemma wake_fields [simp]:
  "is_mutex (fst (wake_receiver q)) = is_mutex q" "is_mutex (fst (wake_sender q)) = is_mutex q"
  "xMutexHolder (fst (wake_receiver q)) = xMutexHolder q" "xMutexHolder (fst (wake_sender q)) = xMutexHolder q"
  "uxRecursiveCallCount (fst (wake_receiver q)) = uxRecursiveCallCount q" "uxRecursiveCallCount (fst (wake_sender q)) = uxRecursiveCallCount q"
  "uxMessagesWaiting (fst (wake_receiver q)) = uxMessagesWaiting q" "uxMessagesWaiting (fst (wake_sender q)) = uxMessagesWaiting q"
  by (simp_all add: wake_receiver_def wake_sender_def xTaskRemoveFromEventList_def)

lemma word_of_nat_small_eq: "d < 2 ^ 32 \<Longrightarrow> (word_of_nat d :: u32) = word_of_nat e \<Longrightarrow> e < 2 ^ 32 \<Longrightarrow> d = e"
proof -
  assume a: "d < 2 ^ 32" "(word_of_nat d :: u32) = word_of_nat e" "e < 2 ^ 32"
  then have "unat (word_of_nat d :: u32) = unat (word_of_nat e :: u32)" by simp
  then show "d = e" using a(1,3) by (simp add: unat_of_nat)
qed

lemma mutex_do_spec:
  assumes ok: "mutex_is q l" and d: "depth l + 1 < 2 ^ 32"
  shows "mutex_is (fst (mutex_do q op)) (fst (lock_spec l op)) \<and> snd (mutex_do q op) = snd (lock_spec l op)"
proof (cases op)
  case (Take t)
  show ?thesis
  proof (cases l)
    case None
    then show ?thesis using ok Take
      by (auto simp: mutex_do_def xQueueTakeMutexRecursive_def semaphore_take_critical_def mutex_is_def Let_def split: prod.splits
        dest!: arg_cong [where f = fst])
  next
    case (Some a)
    then show ?thesis using ok Take d
      by (cases a) (auto simp: mutex_do_def xQueueTakeMutexRecursive_def semaphore_take_critical_def mutex_is_def depth_def add.commute)
  qed
next
  case (Give t)
  show ?thesis
  proof (cases l)
    case None
    then show ?thesis using ok Give by (simp add: mutex_do_def xQueueGiveMutexRecursive_def mutex_is_def)
  next
    case (Some a)
    obtain u d where a: "a = (u, d)" by fastforce
    have m: "0 < d" "d < 2 ^ 32" "uxRecursiveCallCount q = word_of_nat d" using ok Some a by (simp_all add: mutex_is_def)
    have dec: "uxRecursiveCallCount q - 1 = word_of_nat (d - 1)" using m by (simp add: of_nat_diff)
    have z: "(word_of_nat (d - 1) :: u32) = 0 \<longleftrightarrow> d = 1"
    proof -
      have lt: "d - 1 < 2 ^ 32" using m(2) by simp
      have "(word_of_nat (d - 1) :: u32) = word_of_nat 0 \<longleftrightarrow> d - 1 = 0"
        using word_of_nat_small_eq [OF lt, of 0] by (metis zero_less_numeral zero_less_power)
      also have "\<dots> \<longleftrightarrow> d = 1" using m(1) by arith
      finally have e: "(word_of_nat (d - 1) :: u32) = word_of_nat 0 \<longleftrightarrow> d = 1" .
      have o: "(0 :: u32) = word_of_nat 0" by simp
      show ?thesis by (subst o) (rule e)
    qed
    show ?thesis
    proof (cases "t = u \<and> d = 1")
      case True
      then show ?thesis using ok Give Some a dec
        by (auto simp: mutex_do_def xQueueGiveMutexRecursive_def send_critical_def prvCopyDataToQueue_def mutex_is_def Let_def
          split: prod.splits dest!: arg_cong [where f = fst])
    next
      case False
      then show ?thesis using ok Give Some a dec z m
        by (auto simp: mutex_do_def xQueueGiveMutexRecursive_def mutex_is_def Let_def)
    qed
  qed
qed

lemma mutex_runs_spec:
  assumes "mutex_is q l" and "depth l + length ops < 2 ^ 32"
  shows "mutex_is (fst (runs mutex_do q ops)) (fst (runs lock_spec l ops)) \<and>
    snd (runs mutex_do q ops) = snd (runs lock_spec l ops)"
  using assms
proof (induction ops arbitrary: q l)
  case (Cons op ops)
  have s: "mutex_is (fst (mutex_do q op)) (fst (lock_spec l op))" "snd (mutex_do q op) = snd (lock_spec l op)"
    using mutex_do_spec [OF Cons.prems(1), of op] Cons.prems(2) by simp_all
  have "depth (fst (lock_spec l op)) + length ops < 2 ^ 32" using lock_spec_depth [of l op] Cons.prems(2) by simp
  from Cons.IH [OF s(1) this] show ?case using s(2) by (simp add: Let_def split_beta)
qed simp

section \<open>Properties\<close>

text \<open>A queue as it is after its creation.\<close>

definition new_queue :: "nat \<Rightarrow> nat \<Rightarrow> Queue_t" where
  "new_queue n sz = \<lparr>pcHead = 0x20001000, pcWriteTo = 0x20001000, pcTail = 0x20001000 + int (n * sz),
     pcReadFrom = 0x20001000 + int ((n - 1) * sz), is_mutex = False, xMutexHolder = None, uxRecursiveCallCount = 0,
     xTasksWaitingToSend = [], xTasksWaitingToReceive = [], uxMessagesWaiting = 0, uxLength = n, uxItemSize = sz,
     cRxLock = queueUNLOCKED, cTxLock = queueUNLOCKED, storage = \<lambda>_. 0\<rparr>"

lemma empty_ring_ok:
  assumes "0 < uxLength q" and "uxMessagesWaiting q = 0" and "pcReadFrom q = slot q (uxLength q - 1)"
    and "pcWriteTo q = slot q 0" and "pcTail q = slot q (uxLength q)"
  shows "queue_ok q \<and> items q = []"
  using assms unfolding queue_ok_def
  by (auto simp: items_def intro!: exI [where x = "uxLength q - 1"] intro: exI [where x = 0])

lemma prvInitialiseNewQueue_new:
  assumes "prvInitialiseNewQueue n sz st p q = Some q'"
  shows "queue_ok q' \<and> items q' = [] \<and> uxLength q' = n \<and> uxItemSize q' = sz \<and> cTxLock q' = queueUNLOCKED \<and> cRxLock q' = queueUNLOCKED"
proof -
  have "queue_ok q' \<and> items q' = []"
    by (rule empty_ring_ok)
      (use assms in \<open>auto simp: prvInitialiseNewQueue_def xQueueGenericReset_def Let_def slot_def split: if_splits\<close>)
  then show ?thesis using assms
    by (auto simp: prvInitialiseNewQueue_def xQueueGenericReset_def Let_def split: if_splits)
qed

lemma new_queue_ok: "0 < n \<Longrightarrow> queue_ok (new_queue n sz) \<and> items (new_queue n sz) = []"
  by (rule empty_ring_ok) (auto simp: new_queue_def slot_def)

text \<open>
  C35: The critical sections of the queue calls, on the list of the items in the queue. Sending appends the item or, to the
  front, puts it before all others, and fails exactly when the queue is full; overwriting a queue of one
  item replaces it; receiving takes the first item and peeking leaves it, both fail exactly when the queue is empty. Each
  succeeds with the ring in order, wherever the write and read positions wrap.
\<close>
theorem queue_operations_ring:
  assumes ok: "queue_ok q" and len: "length m = uxItemSize q" and sz: "uxItemSize q \<noteq> 0"
  shows "(case send_critical m queueSEND_TO_BACK q of
        None \<Rightarrow> length (items q) = uxLength q | Some (q', w) \<Rightarrow> queue_ok q' \<and> items q' = items q @ [m]) \<and>
    (case send_critical m queueSEND_TO_FRONT q of
        None \<Rightarrow> length (items q) = uxLength q | Some (q', w) \<Rightarrow> queue_ok q' \<and> items q' = m # items q) \<and>
    (uxLength q = 1 \<longrightarrow> (\<exists>q' w. send_critical m queueOVERWRITE q = Some (q', w) \<and> queue_ok q' \<and> items q' = [m])) \<and>
    (case receive_critical q of
        None \<Rightarrow> items q = [] | Some (q', x, w) \<Rightarrow> queue_ok q' \<and> items q = x # items q') \<and>
    (case peek_critical q of
        None \<Rightarrow> items q = [] | Some (q', x, w) \<Rightarrow> queue_ok q' \<and> items q' = items q \<and> x = hd (items q))"
proof (intro conjI impI)
  have wr: "queue_ok (fst (wake_receiver x)) = queue_ok x" "items (fst (wake_receiver x)) = items x" for x
    using ring_kept by blast+
  show "case send_critical m queueSEND_TO_BACK q of None \<Rightarrow> length (items q) = uxLength q
      | Some (q', w) \<Rightarrow> queue_ok q' \<and> items q' = items q @ [m]"
    using send_back_items [OF ok _ len] ok wr
    by (cases "wake_receiver (prvCopyDataToQueue m queueSEND_TO_BACK q)")
      (auto simp: send_critical_def queue_ok_def [of q] dest!: arg_cong [where f = fst])
  show "case send_critical m queueSEND_TO_FRONT q of None \<Rightarrow> length (items q) = uxLength q
      | Some (q', w) \<Rightarrow> queue_ok q' \<and> items q' = m # items q"
    using send_front_items [OF ok _ len sz] ok wr
    by (cases "wake_receiver (prvCopyDataToQueue m queueSEND_TO_FRONT q)")
      (auto simp: send_critical_def queue_ok_def [of q] dest!: arg_cong [where f = fst])
  show "\<exists>q' w. send_critical m queueOVERWRITE q = Some (q', w) \<and> queue_ok q' \<and> items q' = [m]" if "uxLength q = 1"
  proof -
    obtain q' w where w: "wake_receiver (prvCopyDataToQueue m queueOVERWRITE q) = (q', w)" by fastforce
    then show ?thesis using overwrite_items [OF ok that len sz] wr [of "prvCopyDataToQueue m queueOVERWRITE q"]
      by (simp add: send_critical_def)
  qed
  obtain q1 x where c: "prvCopyDataFromQueue q = (q1, x)" by fastforce
  show "case receive_critical q of None \<Rightarrow> items q = [] | Some (q', x, w) \<Rightarrow> queue_ok q' \<and> items q = x # items q'"
  proof (cases "uxMessagesWaiting q > 0")
    case True
    let ?q = "q1\<lparr>uxMessagesWaiting := uxMessagesWaiting q - 1\<rparr>"
    obtain q' w where w: "wake_sender ?q = (q', w)" by fastforce
    have "queue_ok q' = queue_ok ?q" "items q' = items ?q" using ring_kept(2) [of ?q] w by simp_all
    then show ?thesis using receive_items [OF ok True c] True c w by (simp add: receive_critical_def)
  qed (simp add: receive_critical_def items_def)
  show "case peek_critical q of None \<Rightarrow> items q = []
      | Some (q', x, w) \<Rightarrow> queue_ok q' \<and> items q' = items q \<and> x = hd (items q)"
  proof (cases "uxMessagesWaiting q > 0")
    case True
    let ?q = "q1\<lparr>pcReadFrom := pcReadFrom q\<rparr>"
    have same: "same_ring ?q q" using c by (auto simp: prvCopyDataFromQueue_def same_ring_def Let_def split: if_splits)
    obtain q' w where w: "wake_receiver ?q = (q', w)" by fastforce
    have "queue_ok q' = queue_ok q" "items q' = items q"
      using wr [of ?q] same_ring_items [OF same] w by simp_all
    moreover have "x = hd (items q)" using receive_items [OF ok True c] by simp
    ultimately show ?thesis using ok True c w by (simp add: peek_critical_def)
  qed (simp add: peek_critical_def items_def)
qed

theorem queue_operations_ring_witness:
  "\<exists>q' w. send_critical [1, 2] queueSEND_TO_BACK (new_queue 3 2) = Some (q', w) \<and> queue_ok q' \<and> items q' = [[1, 2]]"
proof -
  have "send_critical [1, 2] queueSEND_TO_BACK (new_queue 3 2) \<noteq> None"
    by (simp add: send_critical_def new_queue_def)
  then obtain q' w where s: "send_critical [1, 2] queueSEND_TO_BACK (new_queue 3 2) = Some (q', w)" by auto
  have "uxItemSize (new_queue 3 2) = 2" by (simp add: new_queue_def)
  then show ?thesis using queue_operations_ring [of "new_queue 3 2" "[1, 2]"] new_queue_ok [of 3 2] s by simp
qed

text \<open>
  For an interrupt handler the queue refines a bounded queue of pointers: every sequence of sends and receives gives the results
  of a list with that capacity, whether or not the queue is locked meanwhile.
\<close>
theorem queue_isr_fifo:
  assumes "ptr_queue_ok q"
  shows "snd (rtos_queue.run_ops n q ops) = snd (fifo_spec_run (uxLength q) (pointers q) ops)"
  using rtos_queue.run_ops_refines [OF assms, of n ops] by (metis snd_conv)

theorem queue_isr_fifo_witness:
  "snd (rtos_queue.run_ops 5 (new_queue 2 4) [OpPut 0x20000010, OpPut 0x20000020, OpPut 0x20000030, OpGet, OpGet, OpGet]) =
     [Done, Done, Full, Got 0x20000010, Got 0x20000020, Empty]" (is "snd (rtos_queue.run_ops 5 _ ?ops) = _")
proof -
  have ok: "ptr_queue_ok (new_queue 2 4)" using new_queue_ok [of 2 4] by (simp add: ptr_queue_ok_def new_queue_def)
  have e: "uxLength (new_queue 2 4) = 2" "pointers (new_queue 2 4) = []"
    using new_queue_ok [of 2 4] by (simp_all add: pointers_def) (simp add: new_queue_def)
  have "snd (rtos_queue.run_ops 5 (new_queue 2 4) ?ops) = snd (fifo_spec_run 2 [] ?ops)"
    using queue_isr_fifo [OF ok, of 5 ?ops] unfolding e .
  also have "\<dots> = [Done, Done, Full, Got 0x20000010, Got 0x20000020, Empty]" by simp
  finally show ?thesis .
qed

text \<open>
  The recursive mutex is a lock with a depth: for any sequence of takes and gives by any tasks, none of which waits, a take succeeds
  exactly when the mutex is free or the task holds it already, a give exactly when the task holds it, and
  the mutex is free again after as many gives as takes. No two tasks hold it at a time.
\<close>
theorem recursive_mutex_lock:
  assumes "mutex_is q l" and "depth l + length ops < 2 ^ 32"
  shows "snd (runs mutex_do q ops) = snd (runs lock_spec l ops) \<and>
    xQueueGetMutexHolder (fst (runs mutex_do q ops)) = map_option fst (fst (runs lock_spec l ops))"
proof -
  have *: "mutex_is (fst (runs mutex_do q ops)) (fst (runs lock_spec l ops))"
    "snd (runs mutex_do q ops) = snd (runs lock_spec l ops)"
    using mutex_runs_spec [OF assms] by simp_all
  then show ?thesis by (auto simp: mutex_is_def xQueueGetMutexHolder_def split: option.splits)
qed

theorem recursive_mutex_lock_witness:
  "snd (runs mutex_do (prvInitialiseMutex (new_queue 1 0)) [Take 1, Take 1, Take 2, Give 2, Give 1, Take 2, Give 1, Take 2]) =
     [True, True, False, False, True, False, True, True]"
proof -
  have "mutex_is (prvInitialiseMutex (new_queue 1 0)) None"
    by (simp add: prvInitialiseMutex_def new_queue_def send_critical_def prvCopyDataToQueue_def wake_receiver_def mutex_is_def Let_def)
  then show ?thesis
    using recursive_mutex_lock [of "prvInitialiseMutex (new_queue 1 0)" None
        "[Take 1, Take 1, Take 2, Give 2, Give 1, Take 2, Give 1, Take 2]"]
    by (simp add: depth_def Let_def)
qed

end
