(* ===== verification/Rtos_Queue_Tasks.thy ===== *)
theory Rtos_Queue_Tasks
  imports Rtos_Queue
begin

text \<open>
  Tasks and interrupt handlers on one queue (\<^verbatim>\<open>xQueueGenericSend\<close> and \<^verbatim>\<open>xQueueReceive\<close> of
  \<^verbatim>\<open>middlewares/freertos/source/queue.c\<close> as they wait): a step is one critical section of a call, or one
  handler's call. The scheduler is any interleaving that respects its suspension; whether a wait has timed out is left
  open at each check. Proved for every interleaving: no item is lost, doubled or reordered, and no
  wake-up is lost.
\<close>

section \<open>The steps of a call\<close>

datatype api = ApiSend "u8 list" | ApiReceive

datatype outcome = WillBlock | WillRetry | GiveUp

text \<open>
  Where a task is in a call: at the head of the loop (with whether it still wants to wait), before the
  suspension of the scheduler, then with the scheduler suspended: before the lock, the check for the time-out, the test of
  the queue, the placement on the event list, the two halves of the unlocking and the resumption.
\<close>

datatype pc = Idle | Loop api bool | Suspend api | Lock api | Check api | Test api | Place api
  | Unlock1 api outcome | Unlock2 api outcome | Resume api outcome | Blocked api | Recheck | Finished bool

record qsys =
  queue :: Queue_t
  pcs :: "nat \<Rightarrow> pc"
  owner :: "nat option"
  sent :: "u8 list list"
  got :: "u8 list list"

datatype side = Senders | Receivers

fun side_of :: "api \<Rightarrow> side" where
  "side_of (ApiSend m) = Senders"
| "side_of ApiReceive = Receivers"

fun waiting :: "side \<Rightarrow> Queue_t \<Rightarrow> nat list" where
  "waiting Senders q = xTasksWaitingToSend q"
| "waiting Receivers q = xTasksWaitingToReceive q"

definition goto :: "nat \<Rightarrow> pc \<Rightarrow> qsys \<Rightarrow> qsys" where
  "goto t c s = s\<lparr>pcs := (pcs s)(t := c)\<rparr>"

text \<open>A task taken off an event list runs on from the head of its loop, unless it is still in the middle of its call.\<close>

definition ready :: "nat \<Rightarrow> qsys \<Rightarrow> qsys" where
  "ready t s = (case pcs s t of Blocked a \<Rightarrow> goto t (Loop a True) s | _ \<Rightarrow> s)"

definition ready_opt :: "nat option \<Rightarrow> qsys \<Rightarrow> qsys" where
  "ready_opt w s = (case w of None \<Rightarrow> s | Some t \<Rightarrow> ready t s)"

text \<open>The event list is ordered by priority, equal ones in the order of their arrival.\<close>

definition vTaskPlaceOnEventList :: "(nat \<Rightarrow> nat) \<Rightarrow> nat \<Rightarrow> nat list \<Rightarrow> nat list" where
  "vTaskPlaceOnEventList prio t ts = takeWhile (\<lambda>u. prio t \<le> prio u) ts @ t # dropWhile (\<lambda>u. prio t \<le> prio u) ts"

fun place_on :: "(nat \<Rightarrow> nat) \<Rightarrow> nat \<Rightarrow> api \<Rightarrow> Queue_t \<Rightarrow> Queue_t" where
  "place_on prio t (ApiSend m) q = q\<lparr>xTasksWaitingToSend := vTaskPlaceOnEventList prio t (xTasksWaitingToSend q)\<rparr>"
| "place_on prio t ApiReceive q = q\<lparr>xTasksWaitingToReceive := vTaskPlaceOnEventList prio t (xTasksWaitingToReceive q)\<rparr>"

fun remove_from :: "nat \<Rightarrow> api \<Rightarrow> Queue_t \<Rightarrow> Queue_t" where
  "remove_from t (ApiSend m) q = q\<lparr>xTasksWaitingToSend := filter (\<lambda>u. u \<noteq> t) (xTasksWaitingToSend q)\<rparr>"
| "remove_from t ApiReceive q = q\<lparr>xTasksWaitingToReceive := filter (\<lambda>u. u \<noteq> t) (xTasksWaitingToReceive q)\<rparr>"

text \<open>The head of the loop of \<^verbatim>\<open>xQueueGenericSend\<close> and of \<^verbatim>\<open>xQueueReceive\<close>.\<close>

fun loop_head :: "nat \<Rightarrow> api \<Rightarrow> bool \<Rightarrow> qsys \<Rightarrow> qsys" where
  "loop_head t (ApiSend m) wait s =
    (case send_critical m queueSEND_TO_BACK (queue s) of
       Some (q, w) \<Rightarrow> ready_opt w (goto t (Finished True) (s\<lparr>queue := q, sent := sent s @ [m]\<rparr>))
     | None \<Rightarrow> goto t (if wait then Suspend (ApiSend m) else Finished False) s)"
| "loop_head t ApiReceive wait s =
    (case receive_critical (queue s) of
       Some (q, m, w) \<Rightarrow> ready_opt w (goto t (Finished True) (s\<lparr>queue := q, got := got s @ [m]\<rparr>))
     | None \<Rightarrow> goto t (if wait then Suspend ApiReceive else Finished False) s)"

fun must_wait :: "api \<Rightarrow> Queue_t \<Rightarrow> bool" where
  "must_wait (ApiSend m) q \<longleftrightarrow> prvIsQueueFull q"
| "must_wait ApiReceive q \<longleftrightarrow> prvIsQueueEmpty q"

fun resumed :: "nat \<Rightarrow> api \<Rightarrow> outcome \<Rightarrow> Queue_t \<Rightarrow> pc" where
  "resumed t a WillBlock q = (if t \<in> set (waiting (side_of a) q) then Blocked a else Loop a True)"
| "resumed t a WillRetry q = Loop a True"
| "resumed t (ApiSend m) GiveUp q = Finished False"
| "resumed t ApiReceive GiveUp q = Recheck"

definition task_step :: "(nat \<Rightarrow> nat) \<Rightarrow> nat \<Rightarrow> bool \<Rightarrow> qsys \<Rightarrow> qsys option" where
  "task_step prio t timed_out s =
    (case pcs s t of
       Loop a wait \<Rightarrow> Some (loop_head t a wait s)
     | Suspend a \<Rightarrow> Some (goto t (Lock a) (s\<lparr>owner := Some t\<rparr>))
     | Lock a \<Rightarrow> Some (goto t (Check a) (s\<lparr>queue := prvLockQueue (queue s)\<rparr>))
     | Check a \<Rightarrow> Some (goto t (if timed_out then Unlock1 a GiveUp else Test a) s)
     | Test a \<Rightarrow> Some (goto t (if must_wait a (queue s) then Place a else Unlock1 a WillRetry) s)
     | Place a \<Rightarrow> Some (goto t (Unlock1 a WillBlock) (s\<lparr>queue := place_on prio t a (queue s)\<rparr>))
     | Unlock1 a oc \<Rightarrow>
         (let (q, ws) = unlock_tx (queue s) in Some (goto t (Unlock2 a oc) (fold ready ws (s\<lparr>queue := q\<rparr>))))
     | Unlock2 a oc \<Rightarrow>
         (let (q, ws) = unlock_rx (queue s) in Some (goto t (Resume a oc) (fold ready ws (s\<lparr>queue := q\<rparr>))))
     | Resume a oc \<Rightarrow> Some (goto t (resumed t a oc (queue s)) (s\<lparr>owner := None\<rparr>))
     | Recheck \<Rightarrow> Some (goto t (if prvIsQueueEmpty (queue s) then Finished False else Loop ApiReceive False) s)
     | _ \<Rightarrow> None)"

datatype event = Start nat api bool | Step nat bool | Tick nat | IsrSend "u8 list" | IsrReceive

text \<open>An event that cannot happen in the state gives \<open>None\<close>. A tick ends the wait of a blocked task.\<close>

fun qstep :: "nat \<Rightarrow> (nat \<Rightarrow> nat) \<Rightarrow> event \<Rightarrow> qsys \<Rightarrow> qsys option" where
  "qstep n prio (Start t a wait) s =
    (if t < n \<and> owner s = None \<and> (pcs s t = Idle \<or> (\<exists>r \<in> {True, False}. pcs s t = Finished r)) \<and>
        (case a of ApiSend m \<Rightarrow> length m = uxItemSize (queue s) | ApiReceive \<Rightarrow> True)
     then Some (goto t (Loop a wait) s) else None)"
| "qstep n prio (Step t timed_out) s =
    (if t < n \<and> (owner s = None \<or> owner s = Some t) then task_step prio t timed_out s else None)"
| "qstep n prio (Tick t) s =
    (case pcs s t of
       Blocked a \<Rightarrow> if t < n \<and> owner s = None then Some (goto t (Loop a True) (s\<lparr>queue := remove_from t a (queue s)\<rparr>)) else None
     | _ \<Rightarrow> None)"
| "qstep n prio (IsrSend m) s =
    (if length m = uxItemSize (queue s) then
       (case xQueueGenericSendFromISR n m queueSEND_TO_BACK (queue s) of
          None \<Rightarrow> Some s
        | Some (q, w) \<Rightarrow> Some (ready_opt w (s\<lparr>queue := q, sent := sent s @ [m]\<rparr>)))
     else None)"
| "qstep n prio IsrReceive s =
    (case xQueueReceiveFromISR n (queue s) of
       None \<Rightarrow> Some s
     | Some (q, m, w) \<Rightarrow> Some (ready_opt w (s\<lparr>queue := q, got := got s @ [m]\<rparr>)))"

definition qsys_init :: "Queue_t \<Rightarrow> qsys" where
  "qsys_init q = \<lparr>queue = q, pcs = \<lambda>_. Idle, owner = None, sent = [], got = []\<rparr>"

inductive reachable :: "nat \<Rightarrow> (nat \<Rightarrow> nat) \<Rightarrow> Queue_t \<Rightarrow> qsys \<Rightarrow> bool" for n prio q0 where
  init: "reachable n prio q0 (qsys_init q0)"
| step: "reachable n prio q0 s \<Longrightarrow> qstep n prio ev s = Some s' \<Longrightarrow> reachable n prio q0 s'"

section \<open>What the steps look at\<close>

definition pend :: "side \<Rightarrow> Queue_t \<Rightarrow> nat" where
  "pend d q = nat (case d of Receivers \<Rightarrow> cTxLock q | Senders \<Rightarrow> cRxLock q)"

definition avail :: "side \<Rightarrow> Queue_t \<Rightarrow> nat" where
  "avail d q = (case d of Receivers \<Rightarrow> uxMessagesWaiting q | Senders \<Rightarrow> uxLength q - uxMessagesWaiting q)"

text \<open>A task that will look at the queue again before it waits.\<close>

fun credit :: "side \<Rightarrow> nat list \<Rightarrow> nat \<Rightarrow> pc \<Rightarrow> bool" where
  "credit d ws t (Loop a w) \<longleftrightarrow> side_of a = d"
| "credit d ws t (Unlock1 a WillBlock) \<longleftrightarrow> side_of a = d \<and> t \<notin> set ws"
| "credit d ws t (Unlock2 a WillBlock) \<longleftrightarrow> side_of a = d \<and> t \<notin> set ws"
| "credit d ws t (Resume a WillBlock) \<longleftrightarrow> side_of a = d \<and> t \<notin> set ws"
| "credit d ws t _ \<longleftrightarrow> False"

definition credits :: "nat \<Rightarrow> side \<Rightarrow> qsys \<Rightarrow> nat" where
  "credits n d s = card {t. t < n \<and> credit d (waiting d (queue s)) t (pcs s t)}"

fun suspended :: "pc \<Rightarrow> bool" where
  "suspended (Lock a) \<longleftrightarrow> True" | "suspended (Check a) \<longleftrightarrow> True" | "suspended (Test a) \<longleftrightarrow> True"
| "suspended (Place a) \<longleftrightarrow> True" | "suspended (Unlock1 a oc) \<longleftrightarrow> True" | "suspended (Unlock2 a oc) \<longleftrightarrow> True"
| "suspended (Resume a oc) \<longleftrightarrow> True" | "suspended _ \<longleftrightarrow> False"

fun tx_locked :: "pc \<Rightarrow> bool" where
  "tx_locked (Check a) \<longleftrightarrow> True" | "tx_locked (Test a) \<longleftrightarrow> True" | "tx_locked (Place a) \<longleftrightarrow> True"
| "tx_locked (Unlock1 a oc) \<longleftrightarrow> True" | "tx_locked _ \<longleftrightarrow> False"

fun rx_locked :: "pc \<Rightarrow> bool" where
  "rx_locked (Unlock2 a oc) \<longleftrightarrow> True" | "rx_locked c \<longleftrightarrow> tx_locked c"

fun on_list :: "side \<Rightarrow> pc \<Rightarrow> bool" where
  "on_list d (Blocked a) \<longleftrightarrow> side_of a = d" | "on_list d (Unlock1 a WillBlock) \<longleftrightarrow> side_of a = d"
| "on_list d (Unlock2 a WillBlock) \<longleftrightarrow> side_of a = d" | "on_list d (Resume a WillBlock) \<longleftrightarrow> side_of a = d"
| "on_list d _ \<longleftrightarrow> False"

fun pc_ok :: "nat \<Rightarrow> pc \<Rightarrow> bool" where
  "pc_ok k (Loop (ApiSend m) w) \<longleftrightarrow> length m = k" | "pc_ok k (Suspend (ApiSend m)) \<longleftrightarrow> length m = k"
| "pc_ok k (Lock (ApiSend m)) \<longleftrightarrow> length m = k" | "pc_ok k (Check (ApiSend m)) \<longleftrightarrow> length m = k"
| "pc_ok k (Test (ApiSend m)) \<longleftrightarrow> length m = k" | "pc_ok k (Place (ApiSend m)) \<longleftrightarrow> length m = k"
| "pc_ok k (Unlock1 (ApiSend m) oc) \<longleftrightarrow> length m = k" | "pc_ok k (Unlock2 (ApiSend m) oc) \<longleftrightarrow> length m = k"
| "pc_ok k (Resume (ApiSend m) oc) \<longleftrightarrow> length m = k" | "pc_ok k (Blocked (ApiSend m)) \<longleftrightarrow> length m = k"
| "pc_ok k _ \<longleftrightarrow> True"

section \<open>The invariant\<close>

definition ring_inv :: "qsys \<Rightarrow> bool" where
  "ring_inv s \<longleftrightarrow> queue_ok (queue s) \<and> sent s = got s @ items (queue s) \<and> (\<forall>t. pc_ok (uxItemSize (queue s)) (pcs s t))"

definition lists_inv :: "nat \<Rightarrow> qsys \<Rightarrow> bool" where
  "lists_inv n s \<longleftrightarrow> (\<forall>d. distinct (waiting d (queue s)) \<and>
     (\<forall>t \<in> set (waiting d (queue s)). t < n \<and> on_list d (pcs s t)) \<and>
     (\<forall>t a. pcs s t = Blocked a \<and> side_of a = d \<longrightarrow> t \<in> set (waiting d (queue s))))"

definition owner_inv :: "nat \<Rightarrow> qsys \<Rightarrow> bool" where
  "owner_inv n s \<longleftrightarrow> (\<forall>t. suspended (pcs s t) \<longleftrightarrow> owner s = Some t) \<and> (\<forall>t. n \<le> t \<longrightarrow> pcs s t = Idle)"

definition lock_inv :: "qsys \<Rightarrow> bool" where
  "lock_inv s \<longleftrightarrow> cTxLock (queue s) \<ge> queueUNLOCKED \<and> cRxLock (queue s) \<ge> queueUNLOCKED \<and>
     (cTxLock (queue s) = queueUNLOCKED \<longleftrightarrow> (\<forall>t. \<not> tx_locked (pcs s t))) \<and>
     (cRxLock (queue s) = queueUNLOCKED \<longleftrightarrow> (\<forall>t. \<not> rx_locked (pcs s t)))"

text \<open>Enough tasks will look at the queue again, but for \<open>k\<close> of what is available.\<close>

definition enough :: "nat \<Rightarrow> side \<Rightarrow> nat \<Rightarrow> qsys \<Rightarrow> bool" where
  "enough n d k s \<longleftrightarrow> (waiting d (queue s) \<noteq> [] \<longrightarrow>
     avail d (queue s) \<le> credits n d s + pend d (queue s) + k \<or> n \<le> pend d (queue s))"

definition place_inv :: "nat \<Rightarrow> qsys \<Rightarrow> bool" where
  "place_inv n s \<longleftrightarrow> (\<forall>t a. pcs s t = Place a \<longrightarrow>
     avail (side_of a) (queue s) \<le> pend (side_of a) (queue s) \<or> n \<le> pend (side_of a) (queue s))"

definition base_inv :: "nat \<Rightarrow> qsys \<Rightarrow> bool" where
  "base_inv n s \<longleftrightarrow> ring_inv s \<and> lists_inv n s \<and> owner_inv n s \<and> place_inv n s"

section \<open>Waking one task\<close>

fun set_waiting :: "side \<Rightarrow> nat list \<Rightarrow> Queue_t \<Rightarrow> Queue_t" where
  "set_waiting Senders ts q = q\<lparr>xTasksWaitingToSend := ts\<rparr>"
| "set_waiting Receivers ts q = q\<lparr>xTasksWaitingToReceive := ts\<rparr>"

definition wake1 :: "side \<Rightarrow> qsys \<Rightarrow> qsys" where
  "wake1 d s =
    (case waiting d (queue s) of [] \<Rightarrow> s | w # ts \<Rightarrow> ready w (s\<lparr>queue := set_waiting d ts (queue s)\<rparr>))"

lemma waiting_set_waiting [simp]: "waiting e (set_waiting d ts q) = (if e = d then ts else waiting e q)"
  by (cases d; cases e) simp_all

lemma set_waiting_ring: "same_ring (set_waiting d ts q) q" "cTxLock (set_waiting d ts q) = cTxLock q"
  "cRxLock (set_waiting d ts q) = cRxLock q"
  by (cases d; simp add: same_ring_def)+

lemma ring_views:
  assumes "same_ring q' q" "cTxLock q' = cTxLock q" "cRxLock q' = cRxLock q"
  shows "avail d q' = avail d q" "pend d q' = pend d q"
  using assms by (simp_all add: avail_def pend_def same_ring_def split: side.split)

lemma ready_fields [simp]:
  "queue (ready t s) = queue s" "owner (ready t s) = owner s" "sent (ready t s) = sent s" "got (ready t s) = got s"
  by (simp_all add: ready_def goto_def split: pc.split)

lemma goto_fields [simp]:
  "queue (goto t c s) = queue s" "owner (goto t c s) = owner s" "sent (goto t c s) = sent s" "got (goto t c s) = got s"
  "pcs (goto t c s) = (pcs s)(t := c)"
  by (simp_all add: goto_def)

fun woken :: "pc \<Rightarrow> pc" where
  "woken (Blocked a) = Loop a True" | "woken c = c"

lemma ready_pcs: "pcs (ready w s) = (pcs s)(w := woken (pcs s w))"
  by (auto simp: ready_def fun_eq_iff split: pc.split)

text \<open>What of a program counter readying keeps.\<close>

lemma woken_simps [simp]:
  "suspended (woken c) = suspended c" "tx_locked (woken c) = tx_locked c" "rx_locked (woken c) = rx_locked c"
  "woken c \<noteq> Blocked a" "woken c = Place a \<longleftrightarrow> c = Place a" "woken c = Idle \<longleftrightarrow> c = Idle"
  by (cases c; simp)+

lemma woken_ok [simp]: "pc_ok k (woken c) = pc_ok k c"
proof (cases c)
  case (Blocked a)
  then show ?thesis by (cases a) simp_all
qed simp_all

lemma woken_credit:
  "on_list d c \<Longrightarrow> t \<notin> set ws \<Longrightarrow> credit d ws t (woken c)" "on_list d c \<Longrightarrow> e \<noteq> d \<Longrightarrow> \<not> credit e us t (woken c)"
  "on_list d c \<Longrightarrow> t \<in> set vs \<Longrightarrow> \<not> credit d vs t c"
  by (cases "(d, c)" rule: on_list.cases; simp)+

lemma on_list_other: "on_list d c \<Longrightarrow> e \<noteq> d \<Longrightarrow> \<not> on_list e c"
  by (cases "(d, c)" rule: on_list.cases) auto

lemma on_list_credit: "on_list d c \<Longrightarrow> e \<noteq> d \<Longrightarrow> \<not> credit e us t c"
  by (cases "(d, c)" rule: on_list.cases) auto

lemma credits_split:
  assumes "t < n"
  shows "credits n d s = card {u. u < n \<and> u \<noteq> t \<and> credit d (waiting d (queue s)) u (pcs s u)} +
    (if credit d (waiting d (queue s)) t (pcs s t) then 1 else 0)"
proof -
  let ?A = "{u. u < n \<and> u \<noteq> t \<and> credit d (waiting d (queue s)) u (pcs s u)}"
  have fin: "finite ?A" by simp
  have eq: "{u. u < n \<and> credit d (waiting d (queue s)) u (pcs s u)} =
      (if credit d (waiting d (queue s)) t (pcs s t) then insert t ?A else ?A)"
    using assms by auto
  show ?thesis unfolding credits_def eq using fin by simp
qed

lemma credit_list_irrelevant: "(t \<in> set ws \<longleftrightarrow> t \<in> set vs) \<Longrightarrow> credit d ws t c = credit d vs t c"
  by (cases "(d, ws, t, c)" rule: credit.cases) auto

text \<open>Any waiting task taken off its list and readied.\<close>

definition wake_task :: "side \<Rightarrow> nat \<Rightarrow> qsys \<Rightarrow> qsys" where
  "wake_task d w s = ready w (s\<lparr>queue := set_waiting d (filter (\<lambda>u. u \<noteq> w) (waiting d (queue s))) (queue s)\<rparr>)"

lemma wake_task_fields:
  "waiting e (queue (wake_task d w s)) = (if e = d then filter (\<lambda>u. u \<noteq> w) (waiting d (queue s)) else waiting e (queue s))"
  "pcs (wake_task d w s) = (pcs s)(w := woken (pcs s w))" "same_ring (queue (wake_task d w s)) (queue s)"
  "cTxLock (queue (wake_task d w s)) = cTxLock (queue s)" "cRxLock (queue (wake_task d w s)) = cRxLock (queue s)"
  "owner (wake_task d w s) = owner s" "sent (wake_task d w s) = sent s" "got (wake_task d w s) = got s"
  using set_waiting_ring by (simp_all add: wake_task_def ready_pcs same_ring_def)

lemma wake_task_views [simp]:
  "avail e (queue (wake_task d w s)) = avail e (queue s)" "pend e (queue (wake_task d w s)) = pend e (queue s)"
  using ring_views [OF wake_task_fields(3-5)] by simp_all

lemma waits:
  assumes "lists_inv n s" and "w \<in> set (waiting d (queue s))"
  shows "w < n" "on_list d (pcs s w)" "e \<noteq> d \<Longrightarrow> w \<notin> set (waiting e (queue s))"
proof -
  show w: "w < n" "on_list d (pcs s w)" using assms by (simp_all add: lists_inv_def)
  show "w \<notin> set (waiting e (queue s))" if "e \<noteq> d"
    using assms(1) on_list_other [OF w(2) that] by (auto simp: lists_inv_def)
qed

lemma wake_task_credits:
  assumes l: "lists_inv n s" and w: "w \<in> set (waiting d (queue s))"
  shows "credits n d (wake_task d w s) = credits n d s + 1" and "e \<noteq> d \<Longrightarrow> credits n e (wake_task d w s) = credits n e s"
proof -
  note w1 = waits [OF l w]
  have others: "{u. u < n \<and> u \<noteq> w \<and> credit e (waiting e (queue (wake_task d w s))) u (pcs (wake_task d w s) u)} =
      {u. u < n \<and> u \<noteq> w \<and> credit e (waiting e (queue s)) u (pcs s u)}" for e
    using credit_list_irrelevant [of _ "filter (\<lambda>u. u \<noteq> w) (waiting d (queue s))" "waiting d (queue s)" d]
    by (auto simp: wake_task_fields)
  show "credits n d (wake_task d w s) = credits n d s + 1"
    using woken_credit(1,3) [OF w1(2)] w
    unfolding credits_split [OF w1(1), of d s] credits_split [OF w1(1), of d "wake_task d w s"] others
    by (simp add: wake_task_fields)
  show "credits n e (wake_task d w s) = credits n e s" if "e \<noteq> d"
    using woken_credit(2) [OF w1(2) that] on_list_credit [OF w1(2) that] that
    unfolding credits_split [OF w1(1), of e s] credits_split [OF w1(1), of e "wake_task d w s"] others
    by (simp add: wake_task_fields)
qed

lemma wake_task_base:
  assumes "base_inv n s" and w: "w \<in> set (waiting d (queue s))"
  shows "base_inv n (wake_task d w s)"
proof -
  have inv: "ring_inv s" "lists_inv n s" "owner_inv n s" "place_inv n s" using assms by (simp_all add: base_inv_def)
  note p = wake_task_fields(2) [of d w s] and v = waits [OF inv(2) w]
  have sz: "uxItemSize (queue (wake_task d w s)) = uxItemSize (queue s)" using wake_task_fields(3) [of d w s] by (simp add: same_ring_def)
  have "ring_inv (wake_task d w s)"
    using inv(1) same_ring_items [OF wake_task_fields(3), of d w s] p sz by (auto simp: ring_inv_def wake_task_fields)
  moreover have "owner_inv n (wake_task d w s)" using inv(3) p by (auto simp: owner_inv_def wake_task_fields split: if_splits)
  moreover have "pcs (wake_task d w s) t = Place a \<longleftrightarrow> pcs s t = Place a" for t a using p by (auto split: if_splits)
  then have "place_inv n (wake_task d w s)" using inv(4) by (simp add: place_inv_def)
  moreover have "lists_inv n (wake_task d w s)" unfolding lists_inv_def
  proof (intro allI conjI ballI impI)
    fix e
    show "distinct (waiting e (queue (wake_task d w s)))" using inv(2) by (simp add: wake_task_fields lists_inv_def)
    fix t assume t: "t \<in> set (waiting e (queue (wake_task d w s)))"
    then have te: "t \<in> set (waiting e (queue s))" "t \<noteq> w" using v(3) [of e] by (auto simp: wake_task_fields split: if_splits)
    then show "t < n" "on_list e (pcs (wake_task d w s) t)" using waits(1,2) [OF inv(2) te(1)] p by simp_all
  next
    fix e t a assume "pcs (wake_task d w s) t = Blocked a \<and> side_of a = e"
    then have "pcs s t = Blocked a" "side_of a = e" "t \<noteq> w" using p by (auto split: if_splits)
    moreover from this have "t \<in> set (waiting e (queue s))" using inv(2) unfolding lists_inv_def by blast
    ultimately show "t \<in> set (waiting e (queue (wake_task d w s)))" by (auto simp: wake_task_fields)
  qed
  ultimately show ?thesis by (simp add: base_inv_def)
qed

lemma wake_task_lock: "lock_inv s \<Longrightarrow> lock_inv (wake_task d w s)"
proof -
  have "tx_locked (pcs (wake_task d w s) t) = tx_locked (pcs s t)" "rx_locked (pcs (wake_task d w s) t) = rx_locked (pcs s t)" for t
    by (simp_all add: wake_task_fields)
  then show "lock_inv s \<Longrightarrow> lock_inv (wake_task d w s)" by (simp add: lock_inv_def wake_task_fields)
qed

lemma wake_task_enough:
  assumes "base_inv n s" and w: "w \<in> set (waiting d (queue s))"
  shows "enough n d (k + 1) s \<Longrightarrow> enough n d k (wake_task d w s)" and "e \<noteq> d \<Longrightarrow> enough n e k s \<Longrightarrow> enough n e k (wake_task d w s)"
proof -
  have l: "lists_inv n s" using assms by (simp add: base_inv_def)
  have "waiting d (queue s) \<noteq> []" using w by auto
  then show "enough n d k (wake_task d w s)" if "enough n d (k + 1) s"
    using that wake_task_credits(1) [OF l w] by (auto simp: enough_def)
  show "enough n e k (wake_task d w s)" if "e \<noteq> d" "enough n e k s"
    using that wake_task_credits(2) [OF l w that(1)] by (simp add: enough_def wake_task_fields)
qed

text \<open>The head of an event list.\<close>

lemma wake1_task:
  assumes "lists_inv n s" and "waiting d (queue s) = w # ts"
  shows "wake1 d s = wake_task d w s"
proof -
  have "w \<notin> set ts" using assms by (auto simp: lists_inv_def dest!: spec [of _ d])
  then have "filter (\<lambda>u. u \<noteq> w) (w # ts) = ts" by (simp add: filter_id_conv) metis
  then show ?thesis using assms(2) by (simp add: wake1_def wake_task_def)
qed

lemma wake1_none: "waiting d (queue s) = [] \<Longrightarrow> wake1 d s = s"
  by (simp add: wake1_def)

lemma wake1_base:
  assumes "base_inv n s"
  shows "base_inv n (wake1 d s)"
proof (cases "waiting d (queue s)")
  case (Cons w ts)
  then show ?thesis using wake_task_base [OF assms, of w d] wake1_task [of n s d w ts] assms by (simp add: base_inv_def)
qed (simp add: wake1_none assms)

lemma wake1_lock:
  assumes "base_inv n s" and "lock_inv s"
  shows "lock_inv (wake1 d s)"
proof (cases "waiting d (queue s)")
  case (Cons w ts)
  then show ?thesis using wake_task_lock [OF assms(2)] wake1_task [of n s d w ts] assms(1) by (simp add: base_inv_def)
qed (simp add: wake1_none assms)

lemma wake1_enough:
  assumes "base_inv n s"
  shows "enough n d (k + 1) s \<Longrightarrow> enough n d k (wake1 d s)" and "e \<noteq> d \<Longrightarrow> enough n e k s \<Longrightarrow> enough n e k (wake1 d s)"
proof -
  show "enough n d k (wake1 d s)" if "enough n d (k + 1) s"
  proof (cases "waiting d (queue s)")
    case Nil
    then show ?thesis by (simp add: enough_def wake1_none)
  next
    case (Cons w ts)
    then show ?thesis using wake_task_enough(1) [OF assms, of w d k] that wake1_task [of n s d w ts] assms by (simp add: base_inv_def)
  qed
  show "enough n e k (wake1 d s)" if "e \<noteq> d" "enough n e k s"
  proof (cases "waiting d (queue s)")
    case Nil
    then show ?thesis using that by (simp add: wake1_none)
  next
    case (Cons w ts)
    then show ?thesis using wake_task_enough(2) [OF assms, of w d e k] that wake1_task [of n s d w ts] assms by (simp add: base_inv_def)
  qed
qed

lemma wake1_queue:
  "same_ring (queue (wake1 d s)) (queue s)" "cTxLock (queue (wake1 d s)) = cTxLock (queue s)"
  "cRxLock (queue (wake1 d s)) = cRxLock (queue s)" "owner (wake1 d s) = owner s"
  "sent (wake1 d s) = sent s" "got (wake1 d s) = got s"
  using set_waiting_ring by (simp_all add: wake1_def same_ring_def split: list.split)

lemma wake1_views [simp]:
  "avail e (queue (wake1 d s)) = avail e (queue s)" "pend e (queue (wake1 d s)) = pend e (queue s)"
  using ring_views [OF wake1_queue(1-3)] by simp_all

lemma wake1_pcs: "\<exists>w. pcs (wake1 d s) = (pcs s)(w := woken (pcs s w)) \<or> pcs (wake1 d s) = pcs s"
  by (auto simp: wake1_def ready_pcs split: list.split)

lemma wake1_waiting: "waiting e (queue (wake1 d s)) = (if e = d then tl (waiting d (queue s)) else waiting e (queue s))"
  by (auto simp: wake1_def split: list.split)

section \<open>Moving one task\<close>

text \<open>The state after a step of task \<open>t\<close> that leaves the event lists alone.\<close>

definition moved :: "nat \<Rightarrow> pc \<Rightarrow> qsys \<Rightarrow> qsys \<Rightarrow> bool" where
  "moved t c s s' \<longleftrightarrow> pcs s' = (pcs s)(t := c) \<and> (\<forall>d. waiting d (queue s') = waiting d (queue s)) \<and>
     (\<forall>u. u \<noteq> t \<longrightarrow> (owner s' = Some u \<longleftrightarrow> owner s = Some u))"

lemma moved_base:
  assumes inv: "base_inv n s" and m: "moved t c s s'" and t: "t < n" and ring: "ring_inv s'"
    and lists: "\<And>d. on_list d (pcs s t) \<Longrightarrow> on_list d c" "\<And>a. c = Blocked a \<Longrightarrow> t \<in> set (waiting (side_of a) (queue s))"
    and own: "suspended c \<longleftrightarrow> owner s' = Some t" and place: "place_inv n s'"
  shows "base_inv n s'"
proof -
  have p: "pcs s' = (pcs s)(t := c)" and w: "\<And>d. waiting d (queue s') = waiting d (queue s)"
    and o: "\<And>u. u \<noteq> t \<Longrightarrow> owner s' = Some u \<longleftrightarrow> owner s = Some u"
    using m by (simp_all add: moved_def)
  have "lists_inv n s'" unfolding lists_inv_def
  proof (intro allI conjI ballI impI)
    fix d
    show "distinct (waiting d (queue s'))" using inv by (simp add: base_inv_def lists_inv_def w)
    fix u assume "u \<in> set (waiting d (queue s'))"
    then have "u < n" "on_list d (pcs s u)" using inv by (simp_all add: base_inv_def lists_inv_def w)
    then show "u < n" "on_list d (pcs s' u)" using lists(1) by (auto simp: p)
  next
    fix d u a assume "pcs s' u = Blocked a \<and> side_of a = d"
    then show "u \<in> set (waiting d (queue s'))"
      using lists(2) inv by (cases "u = t") (auto simp: base_inv_def lists_inv_def w p)
  qed
  moreover have "owner_inv n s'" using inv own o t by (auto simp: base_inv_def owner_inv_def p)
  ultimately show ?thesis using ring place by (simp add: base_inv_def)
qed

lemma moved_credits:
  assumes "moved t c s s'" and "t < n"
  shows "credits n d s' + (if credit d (waiting d (queue s)) t (pcs s t) then 1 else 0) =
    credits n d s + (if credit d (waiting d (queue s)) t c then 1 else 0)"
proof -
  have m: "pcs s' = (pcs s)(t := c)" "waiting d (queue s') = waiting d (queue s)" using assms(1) by (simp_all add: moved_def)
  have others: "{u. u < n \<and> u \<noteq> t \<and> credit d (waiting d (queue s')) u (pcs s' u)} =
      {u. u < n \<and> u \<noteq> t \<and> credit d (waiting d (queue s)) u (pcs s u)}" using m by auto
  show ?thesis
    unfolding credits_split [OF assms(2), of d s] credits_split [OF assms(2), of d s'] others using m by simp
qed

lemma moved_enough:
  assumes "moved t c s s'" and "t < n" and "enough n d 0 s"
    and "waiting d (queue s) \<noteq> [] \<Longrightarrow> avail d (queue s') + (if credit d (waiting d (queue s)) t (pcs s t) then 1 else 0) + pend d (queue s) \<le>
      avail d (queue s) + (if credit d (waiting d (queue s)) t c then 1 else 0) + pend d (queue s') + k \<or> avail d (queue s') \<le> k"
    and "n \<le> pend d (queue s) \<Longrightarrow> n \<le> pend d (queue s') \<or> avail d (queue s') \<le> k"
  shows "enough n d k s'"
  using moved_credits [OF assms(1,2), of d] assms(1,3-5) by (auto simp: enough_def moved_def split: if_splits)

lemma others_awake:
  assumes "base_inv n s" and "owner s = None \<or> owner s = Some t" and "u \<noteq> t"
  shows "\<not> suspended (pcs s u)"
  using assms by (auto simp: base_inv_def owner_inv_def)

lemma locked_suspended: "tx_locked c \<Longrightarrow> rx_locked c" "rx_locked c \<Longrightarrow> suspended c"
  by (cases c; simp)+

lemma moved_lock:
  assumes "base_inv n s" and "owner s = None \<or> owner s = Some t" and "pcs s' = (pcs s)(t := c)"
  shows "lock_inv s' \<longleftrightarrow> cTxLock (queue s') \<ge> queueUNLOCKED \<and> cRxLock (queue s') \<ge> queueUNLOCKED \<and>
     (cTxLock (queue s') = queueUNLOCKED \<longleftrightarrow> \<not> tx_locked c) \<and> (cRxLock (queue s') = queueUNLOCKED \<longleftrightarrow> \<not> rx_locked c)"
proof -
  have "\<not> rx_locked (pcs s u)" "\<not> tx_locked (pcs s u)" if "u \<noteq> t" for u
    using others_awake [OF assms(1,2) that] locked_suspended by blast+
  then have "(\<forall>u. \<not> tx_locked (pcs s' u)) \<longleftrightarrow> \<not> tx_locked c" "(\<forall>u. \<not> rx_locked (pcs s' u)) \<longleftrightarrow> \<not> rx_locked c"
    using assms(3) by auto
  then show ?thesis by (simp add: lock_inv_def)
qed

lemma place_only_owner:
  assumes "base_inv n s" and "owner s = None \<or> owner s = Some t" and "pcs s' = (pcs s)(t := c)"
    and "\<And>a. c = Place a \<Longrightarrow> avail (side_of a) (queue s') \<le> pend (side_of a) (queue s') \<or> n \<le> pend (side_of a) (queue s')"
  shows "place_inv n s'"
proof -
  have "pcs s u \<noteq> Place a" if "u \<noteq> t" for u a
    using others_awake [OF assms(1,2) that] by (cases "pcs s u") auto
  then show ?thesis using assms(3,4) by (auto simp: place_inv_def)
qed

definition sys_inv :: "nat \<Rightarrow> qsys \<Rightarrow> bool" where
  "sys_inv n s \<longleftrightarrow> base_inv n s \<and> lock_inv s \<and> (\<forall>d. enough n d 0 s)"

text \<open>Waking several tasks, as the unlocking does.\<close>

lemma wake_waiting_take: "wake_waiting k ts = (drop k ts, take k ts)"
proof (induction k arbitrary: ts)
  case (Suc k)
  then show ?case by (cases ts) (simp_all add: xTaskRemoveFromEventList_def)
qed simp

lemma ready_queue_update: "ready w (s\<lparr>queue := q\<rparr>) = (ready w s)\<lparr>queue := q\<rparr>"
  by (simp add: ready_def goto_def split: pc.split)

lemma fold_ready_queue: "fold ready ws (s\<lparr>queue := q\<rparr>) = (fold ready ws s)\<lparr>queue := q\<rparr>"
  by (induction ws arbitrary: s) (simp_all add: ready_queue_update)

lemma set_waiting_again: "set_waiting d us (set_waiting d ts q) = set_waiting d us q"
  by (cases d) simp_all

lemma wake1_iterate:
  "(wake1 d ^^ k) s = (fold ready (take k (waiting d (queue s))) s)\<lparr>queue := set_waiting d (drop k (waiting d (queue s))) (queue s)\<rparr>"
proof (induction k arbitrary: s)
  case 0
  have "set_waiting d (waiting d q) q = q" for q by (cases d) simp_all
  then show ?case by simp
next
  case (Suc k)
  show ?case
  proof (cases "waiting d (queue s)")
    case Nil
    have sw: "set_waiting d [] (queue s) = queue s" using Nil by (cases d) simp_all
    have "wake1 d s = s" using Nil by (simp add: wake1_def)
    then show ?thesis using Suc [of s] Nil sw by (simp add: funpow_swap1)
  next
    case (Cons w ts)
    have "wake1 d s = (ready w s)\<lparr>queue := set_waiting d ts (queue s)\<rparr>" using Cons by (simp add: wake1_def ready_queue_update)
    then show ?thesis using Suc [of "wake1 d s"] Cons
      by (simp add: funpow_swap1 fold_ready_queue set_waiting_again)
  qed
qed

lemma wakes_inv:
  assumes "base_inv n s"
  shows "base_inv n ((wake1 d ^^ k) s)" and "lock_inv s \<Longrightarrow> lock_inv ((wake1 d ^^ k) s)"
    and "enough n d (j + k) s \<Longrightarrow> enough n d j ((wake1 d ^^ k) s)" and "e \<noteq> d \<Longrightarrow> enough n e j s \<Longrightarrow> enough n e j ((wake1 d ^^ k) s)"
proof (induction k arbitrary: j)
  case (Suc k)
  { case 1 show ?case using wake1_base Suc(1) by simp }
  { case 2 then show ?case using wake1_lock [OF Suc(1)] Suc(2) by simp }
  { case 3 then show ?case using wake1_enough(1) [OF Suc(1), of d j] Suc(3) [of "j + 1"] by (simp add: add.commute) }
  { case 4 then show ?case using wake1_enough(2) [OF Suc(1) 4(1)] Suc(4) by simp }
qed (use assms in simp_all)

section \<open>Every step keeps the invariant\<close>

lemma ring_views_eq: "queue s' = queue s \<Longrightarrow> avail d (queue s') = avail d (queue s) \<and> pend d (queue s') = pend d (queue s)"
  by simp

text \<open>A step of a task that only moves on.\<close>

lemma inv_move:
  assumes i: "sys_inv n s" and t: "t < n" and own: "owner s = None \<or> owner s = Some t" and m: "moved t c s s'"
    and logs: "sent s' = sent s" "got s' = got s" and q: "same_ring (queue s') (queue s)"
    and c: "pc_ok (uxItemSize (queue s)) c" "suspended c \<longleftrightarrow> owner s' = Some t"
    and lists: "\<And>d. on_list d (pcs s t) \<Longrightarrow> on_list d c" "\<And>a. c = Blocked a \<Longrightarrow> t \<in> set (waiting (side_of a) (queue s))"
    and place: "\<And>a. c = Place a \<Longrightarrow> avail (side_of a) (queue s') = 0"
    and lock: "cTxLock (queue s') \<ge> queueUNLOCKED" "cRxLock (queue s') \<ge> queueUNLOCKED"
      "cTxLock (queue s') = queueUNLOCKED \<longleftrightarrow> \<not> tx_locked c" "cRxLock (queue s') = queueUNLOCKED \<longleftrightarrow> \<not> rx_locked c"
    and pend: "\<And>d. pend d (queue s') = pend d (queue s)"
    and cred: "\<And>d. credit d (waiting d (queue s)) t (pcs s t) \<Longrightarrow> credit d (waiting d (queue s)) t c \<or> avail d (queue s) = 0"
  shows "sys_inv n s'"
proof -
  have b: "base_inv n s" and e: "\<And>d. enough n d 0 s" using i by (simp_all add: sys_inv_def)
  have av: "avail d (queue s') = avail d (queue s)" for d using q by (simp add: avail_def same_ring_def split: side.split)
  have p: "pcs s' = (pcs s)(t := c)" using m by (simp add: moved_def)
  have "ring_inv s'"
    using b same_ring_items [OF q] q logs c(1) by (auto simp: base_inv_def ring_inv_def p same_ring_def)
  moreover have "place_inv n s'" by (rule place_only_owner [OF b own p]) (use place in simp)
  ultimately have "base_inv n s'" using moved_base [OF b m t] lists c(2) by blast
  moreover have "lock_inv s'" using moved_lock [OF b own p] lock by simp
  moreover have "enough n d 0 s'" for d
    by (rule moved_enough [OF m t e]) (use cred [of d] pend av in \<open>auto split: if_splits\<close>)
  ultimately show ?thesis by (simp add: sys_inv_def)
qed

lemma moved_goto: "moved t c s (goto t c s)"
  by (simp add: moved_def)

lemma waiting_kept:
  "waiting d (prvLockQueue q) = waiting d q" "waiting d (prvIncrementQueueTxLock n q) = waiting d q"
  "waiting d (prvIncrementQueueRxLock n q) = waiting d q" "waiting d (prvCopyDataToQueue m p q) = waiting d q"
  "waiting d (q\<lparr>uxMessagesWaiting := k\<rparr>) = waiting d q"
  by (cases d; simp add: prvLockQueue_def prvIncrementQueueTxLock_def prvIncrementQueueRxLock_def Let_def)+

lemma unlocked_when_none:
  assumes "sys_inv n s" and "\<not> suspended (pcs s t)" and "owner s = None \<or> owner s = Some t"
  shows "owner s = None" "cTxLock (queue s) = queueUNLOCKED" "cRxLock (queue s) = queueUNLOCKED" "pend d (queue s) = 0"
proof -
  have b: "base_inv n s" "lock_inv s" using assms(1) by (simp_all add: sys_inv_def)
  show o: "owner s = None" using b(1) assms(2,3) by (auto simp: base_inv_def owner_inv_def)
  have "\<not> suspended (pcs s u)" for u using b(1) o by (simp add: base_inv_def owner_inv_def)
  then have "\<not> tx_locked (pcs s u)" "\<not> rx_locked (pcs s u)" for u using locked_suspended by blast+
  then show "cTxLock (queue s) = queueUNLOCKED" "cRxLock (queue s) = queueUNLOCKED" using b(2) by (simp_all add: lock_inv_def)
  then show "pend d (queue s) = 0" by (simp add: pend_def split: side.split)
qed

lemma lock_of:
  assumes "sys_inv n s"
  shows "cTxLock (queue s) \<ge> queueUNLOCKED" "cRxLock (queue s) \<ge> queueUNLOCKED"
    "tx_locked (pcs s t) \<Longrightarrow> cTxLock (queue s) \<noteq> queueUNLOCKED" "rx_locked (pcs s t) \<Longrightarrow> cRxLock (queue s) \<noteq> queueUNLOCKED"
    "suspended (pcs s t) \<Longrightarrow> \<not> tx_locked (pcs s t) \<Longrightarrow> cTxLock (queue s) = queueUNLOCKED"
    "suspended (pcs s t) \<Longrightarrow> \<not> rx_locked (pcs s t) \<Longrightarrow> cRxLock (queue s) = queueUNLOCKED"
proof -
  have b: "base_inv n s" "lock_inv s" using assms by (simp_all add: sys_inv_def)
  show "cTxLock (queue s) \<ge> queueUNLOCKED" "cRxLock (queue s) \<ge> queueUNLOCKED"
    "tx_locked (pcs s t) \<Longrightarrow> cTxLock (queue s) \<noteq> queueUNLOCKED" "rx_locked (pcs s t) \<Longrightarrow> cRxLock (queue s) \<noteq> queueUNLOCKED"
    using b(2) by (auto simp: lock_inv_def)
  have others: "\<not> suspended (pcs s u)" if "suspended (pcs s t)" "u \<noteq> t" for u
    using b(1) that by (auto simp: base_inv_def owner_inv_def)
  show "cTxLock (queue s) = queueUNLOCKED" if "suspended (pcs s t)" "\<not> tx_locked (pcs s t)"
  proof -
    have "\<not> tx_locked (pcs s u)" for u using others [OF that(1), of u] that(2) locked_suspended by blast
    then show ?thesis using b(2) by (simp add: lock_inv_def)
  qed
  show "cRxLock (queue s) = queueUNLOCKED" if "suspended (pcs s t)" "\<not> rx_locked (pcs s t)"
  proof -
    have "\<not> rx_locked (pcs s u)" for u using others [OF that(1), of u] that(2) locked_suspended by blast
    then show ?thesis using b(2) by (simp add: lock_inv_def)
  qed
qed

lemma same_ring_refl [simp]: "same_ring q q"
  by (simp add: same_ring_def)

lemma inv_facts:
  assumes "sys_inv n s"
  shows "pc_ok (uxItemSize (queue s)) (pcs s t)" "suspended (pcs s t) \<longleftrightarrow> owner s = Some t" "queue_ok (queue s)"
  using assms by (simp_all add: sys_inv_def base_inv_def ring_inv_def owner_inv_def)

lemma pc_ok_api: "pc_ok k (Loop a w) \<longleftrightarrow> (case a of ApiSend m \<Rightarrow> length m = k | ApiReceive \<Rightarrow> True)"
  "pc_ok k (Suspend a) \<longleftrightarrow> (case a of ApiSend m \<Rightarrow> length m = k | ApiReceive \<Rightarrow> True)"
  "pc_ok k (Lock a) \<longleftrightarrow> (case a of ApiSend m \<Rightarrow> length m = k | ApiReceive \<Rightarrow> True)"
  "pc_ok k (Check a) \<longleftrightarrow> (case a of ApiSend m \<Rightarrow> length m = k | ApiReceive \<Rightarrow> True)"
  "pc_ok k (Test a) \<longleftrightarrow> (case a of ApiSend m \<Rightarrow> length m = k | ApiReceive \<Rightarrow> True)"
  "pc_ok k (Place a) \<longleftrightarrow> (case a of ApiSend m \<Rightarrow> length m = k | ApiReceive \<Rightarrow> True)"
  "pc_ok k (Unlock1 a oc) \<longleftrightarrow> (case a of ApiSend m \<Rightarrow> length m = k | ApiReceive \<Rightarrow> True)"
  "pc_ok k (Unlock2 a oc) \<longleftrightarrow> (case a of ApiSend m \<Rightarrow> length m = k | ApiReceive \<Rightarrow> True)"
  "pc_ok k (Resume a oc) \<longleftrightarrow> (case a of ApiSend m \<Rightarrow> length m = k | ApiReceive \<Rightarrow> True)"
  "pc_ok k (Blocked a) \<longleftrightarrow> (case a of ApiSend m \<Rightarrow> length m = k | ApiReceive \<Rightarrow> True)"
  by (cases a; simp)+

lemma must_wait_avail: "queue_ok q \<Longrightarrow> must_wait a q \<longleftrightarrow> avail (side_of a) q = 0"
  by (cases a) (auto simp: avail_def prvIsQueueFull_def prvIsQueueEmpty_def queue_ok_def)

lemma same_goto [simp]: "same_ring (queue s) (queue s)" by simp

lemmas step_facts = inv_facts lock_of unlocked_when_none

text \<open>Starting, giving up at the head of the loop, suspending, checking, testing and resuming.\<close>

lemma inv_Start:
  assumes i: "sys_inv n s" and t: "t < n" "owner s = None" and c: "pcs s t = Idle \<or> pcs s t = Finished r"
    and a: "case a of ApiSend m \<Rightarrow> length m = uxItemSize (queue s) | ApiReceive \<Rightarrow> True"
  shows "sys_inv n (goto t (Loop a w) s)"
proof (rule inv_move [OF i t(1) _ moved_goto])
  have "\<not> suspended (pcs s t)" using c by auto
  note u = unlocked_when_none [OF i this disjI1 [OF t(2)]]
  show "cTxLock (queue (goto t (Loop a w) s)) = queueUNLOCKED \<longleftrightarrow> \<not> tx_locked (Loop a w)"
    "cRxLock (queue (goto t (Loop a w) s)) = queueUNLOCKED \<longleftrightarrow> \<not> rx_locked (Loop a w)"
    "cTxLock (queue (goto t (Loop a w) s)) \<ge> queueUNLOCKED" "cRxLock (queue (goto t (Loop a w) s)) \<ge> queueUNLOCKED"
    using u by simp_all
qed (use t c a in \<open>auto simp: pc_ok_api\<close>)

lemma inv_loop_fail:
  assumes i: "sys_inv n s" and t: "t < n" "owner s = None" and c: "pcs s t = Loop a w" and f: "avail (side_of a) (queue s) = 0"
  shows "sys_inv n (goto t (if w then Suspend a else Finished False) s)"
proof (rule inv_move [OF i t(1) _ moved_goto])
  have "\<not> suspended (pcs s t)" using c by simp
  note u = unlocked_when_none [OF i this disjI1 [OF t(2)]]
  show "cTxLock (queue (goto t (if w then Suspend a else Finished False) s)) = queueUNLOCKED \<longleftrightarrow> \<not> tx_locked (if w then Suspend a else Finished False)"
    "cRxLock (queue (goto t (if w then Suspend a else Finished False) s)) = queueUNLOCKED \<longleftrightarrow> \<not> rx_locked (if w then Suspend a else Finished False)"
    "cTxLock (queue (goto t (if w then Suspend a else Finished False) s)) \<ge> queueUNLOCKED"
    "cRxLock (queue (goto t (if w then Suspend a else Finished False) s)) \<ge> queueUNLOCKED"
    using u by simp_all
qed (use t c f inv_facts(1) [OF i, of t] in \<open>auto simp: pc_ok_api split: if_splits\<close>)

lemma inv_Suspend:
  assumes i: "sys_inv n s" and t: "t < n" "owner s = None" and c: "pcs s t = Suspend a"
  shows "sys_inv n (goto t (Lock a) (s\<lparr>owner := Some t\<rparr>))"
proof (rule inv_move [OF i t(1)])
  have "\<not> suspended (pcs s t)" using c by simp
  note u = unlocked_when_none [OF i this disjI1 [OF t(2)]]
  show "cTxLock (queue (goto t (Lock a) (s\<lparr>owner := Some t\<rparr>))) = queueUNLOCKED \<longleftrightarrow> \<not> tx_locked (Lock a)"
    "cRxLock (queue (goto t (Lock a) (s\<lparr>owner := Some t\<rparr>))) = queueUNLOCKED \<longleftrightarrow> \<not> rx_locked (Lock a)"
    "cTxLock (queue (goto t (Lock a) (s\<lparr>owner := Some t\<rparr>))) \<ge> queueUNLOCKED"
    "cRxLock (queue (goto t (Lock a) (s\<lparr>owner := Some t\<rparr>))) \<ge> queueUNLOCKED"
    using u by simp_all
  show "moved t (Lock a) s (goto t (Lock a) (s\<lparr>owner := Some t\<rparr>))" using t(2) by (simp add: moved_def)
qed (use t c inv_facts(1) [OF i, of t] in \<open>auto simp: pc_ok_api\<close>)

lemma owner_of:
  assumes "sys_inv n s" and "suspended (pcs s t)"
  shows "owner s = Some t"
  using inv_facts(2) [OF assms(1), of t] assms(2) by simp

lemma inv_Lock:
  assumes i: "sys_inv n s" and t: "t < n" and c: "pcs s t = Lock a"
  shows "sys_inv n (goto t (Check a) (s\<lparr>queue := prvLockQueue (queue s)\<rparr>))"
proof -
  have o: "owner s = Some t" using owner_of [OF i] c by simp
  have u: "cTxLock (queue s) = queueUNLOCKED" "cRxLock (queue s) = queueUNLOCKED"
    using lock_of(5,6) [OF i, of t] c by simp_all
  have l: "cTxLock (prvLockQueue (queue s)) = 0" "cRxLock (prvLockQueue (queue s)) = 0"
    using u by (simp_all add: prvLockQueue_def Let_def)
  show ?thesis
  proof (rule inv_move [OF i t disjI2 [OF o]])
    show "moved t (Check a) s (goto t (Check a) (s\<lparr>queue := prvLockQueue (queue s)\<rparr>))"
      by (simp add: moved_def waiting_kept)
    show "pend d (queue (goto t (Check a) (s\<lparr>queue := prvLockQueue (queue s)\<rparr>))) = pend d (queue s)" for d
      using u l by (simp add: pend_def split: side.split)
  qed (use c o l inv_facts(1) [OF i, of t] lock_ring(1) in \<open>auto simp: pc_ok_api\<close>)
qed

text \<open>With the scheduler suspended and the locks as they are.\<close>

lemma inv_held:
  assumes i: "sys_inv n s" and t: "t < n" and s: "suspended (pcs s t)" "suspended c"
    and l: "tx_locked c = tx_locked (pcs s t)" "rx_locked c = rx_locked (pcs s t)"
    and ok: "pc_ok (uxItemSize (queue s)) c" and off: "\<And>d. \<not> on_list d (pcs s t)" "\<And>d ws. \<not> credit d ws t (pcs s t)"
    and place: "\<And>a. c = Place a \<Longrightarrow> avail (side_of a) (queue s) = 0"
  shows "sys_inv n (goto t c s)"
proof (rule inv_move [OF i t disjI2 [OF owner_of [OF i s(1)]] moved_goto])
  show "cTxLock (queue (goto t c s)) = queueUNLOCKED \<longleftrightarrow> \<not> tx_locked c"
    using lock_of(3,5) [OF i, of t] s(1) l by auto
  show "cRxLock (queue (goto t c s)) = queueUNLOCKED \<longleftrightarrow> \<not> rx_locked c"
    using lock_of(4,6) [OF i, of t] s(1) l by auto
qed (use owner_of [OF i s(1)] s(2) ok off place lock_of(1,2) [OF i] in auto)

lemma inv_Check:
  assumes i: "sys_inv n s" and t: "t < n" and c: "pcs s t = Check a"
  shows "sys_inv n (goto t (if b then Unlock1 a GiveUp else Test a) s)"
  by (rule inv_held [OF i t]) (use c inv_facts(1) [OF i, of t] in \<open>auto simp: pc_ok_api split: if_splits\<close>)

lemma inv_Test:
  assumes i: "sys_inv n s" and t: "t < n" and c: "pcs s t = Test a"
  shows "sys_inv n (goto t (if must_wait a (queue s) then Place a else Unlock1 a WillRetry) s)"
  by (rule inv_held [OF i t])
    (use c inv_facts(1) [OF i, of t] must_wait_avail [OF inv_facts(3) [OF i], of a] in \<open>auto simp: pc_ok_api split: if_splits\<close>)

lemma inv_Resume:
  assumes i: "sys_inv n s" and t: "t < n" and c: "pcs s t = Resume a oc"
  shows "sys_inv n (goto t (resumed t a oc (queue s)) (s\<lparr>owner := None\<rparr>))"
proof -
  let ?c = "resumed t a oc (queue s)"
  have o: "owner s = Some t" using owner_of [OF i] c by simp
  have u: "cTxLock (queue s) = queueUNLOCKED" "cRxLock (queue s) = queueUNLOCKED"
    using lock_of(5,6) [OF i, of t] c by simp_all
  have r: "\<not> suspended ?c" by (cases "(t, a, oc, queue s)" rule: resumed.cases) simp_all
  then have nl: "\<not> tx_locked ?c" "\<not> rx_locked ?c" using locked_suspended by blast+
  have on: "on_list d ?c" if "on_list d (pcs s t)" "t \<in> set (waiting d (queue s))" for d
    using that c by (cases oc) auto
  have li: "lists_inv n s" using i by (simp add: sys_inv_def base_inv_def)
  let ?s = "goto t ?c (s\<lparr>owner := None\<rparr>)"
  have m: "moved t ?c s ?s" using o by (simp add: moved_def)
  have b: "base_inv n s" and e: "\<And>d. enough n d 0 s" using i by (simp_all add: sys_inv_def)
  have p: "pcs ?s = (pcs s)(t := ?c)" by simp
  have "pc_ok (uxItemSize (queue s)) ?c"
    using inv_facts(1) [OF i, of t] c by (cases "(t, a, oc, queue s)" rule: resumed.cases) (auto simp: pc_ok_api)
  then have ring: "ring_inv ?s" using b by (simp add: base_inv_def ring_inv_def)
  have np: "?c \<noteq> Place x" for x using r by auto
  have place: "place_inv n ?s" by (rule place_only_owner [OF b disjI2 [OF o] p]) (use np in simp)
  have "lists_inv n ?s" unfolding lists_inv_def
  proof (intro allI conjI ballI impI)
    fix d show "distinct (waiting d (queue ?s))" using li by (simp add: lists_inv_def)
    fix v assume v: "v \<in> set (waiting d (queue ?s))"
    then show "v < n" "on_list d (pcs ?s v)" using waits(1,2) [OF li, of v d] on [of d] by auto
  next
    fix d v x assume "pcs ?s v = Blocked x \<and> side_of x = d"
    then show "v \<in> set (waiting d (queue ?s))" using li
      by (cases "v = t"; cases "(t, a, oc, queue s)" rule: resumed.cases) (auto simp: lists_inv_def split: if_splits)
  qed
  moreover have "owner_inv n ?s" using b o r t by (auto simp: base_inv_def owner_inv_def)
  ultimately have "base_inv n ?s" using ring place by (simp add: base_inv_def)
  moreover have "lock_inv ?s" using moved_lock [OF b disjI2 [OF o] p] u nl by simp
  moreover have "enough n d 0 ?s" for d
    by (rule moved_enough [OF m t e]) (use c in \<open>cases oc; auto\<close>)+
  ultimately show ?thesis by (simp add: sys_inv_def)
qed

lemma inv_Recheck:
  assumes i: "sys_inv n s" and t: "t < n" "owner s = None" and c: "pcs s t = Recheck"
  shows "sys_inv n (goto t (if prvIsQueueEmpty (queue s) then Finished False else Loop ApiReceive False) s)"
proof (rule inv_move [OF i t(1) _ moved_goto])
  have "\<not> suspended (pcs s t)" using c by simp
  note u = unlocked_when_none [OF i this disjI1 [OF t(2)]]
  show "cTxLock (queue (goto t (if prvIsQueueEmpty (queue s) then Finished False else Loop ApiReceive False) s)) = queueUNLOCKED \<longleftrightarrow>
      \<not> tx_locked (if prvIsQueueEmpty (queue s) then Finished False else Loop ApiReceive False)"
    "cRxLock (queue (goto t (if prvIsQueueEmpty (queue s) then Finished False else Loop ApiReceive False) s)) = queueUNLOCKED \<longleftrightarrow>
      \<not> rx_locked (if prvIsQueueEmpty (queue s) then Finished False else Loop ApiReceive False)"
    "cTxLock (queue (goto t (if prvIsQueueEmpty (queue s) then Finished False else Loop ApiReceive False) s)) \<ge> queueUNLOCKED"
    "cRxLock (queue (goto t (if prvIsQueueEmpty (queue s) then Finished False else Loop ApiReceive False) s)) \<ge> queueUNLOCKED"
    using u by simp_all
qed (use t c in \<open>auto split: if_splits\<close>)

text \<open>Going to sleep on an event list.\<close>

lemma waiting_place_on:
  "waiting d (place_on prio t a q) = (if d = side_of a then vTaskPlaceOnEventList prio t (waiting d q) else waiting d q)"
  by (cases a; cases d) simp_all

lemma place_on_ring: "same_ring (place_on prio t a q) q" "cTxLock (place_on prio t a q) = cTxLock q" "cRxLock (place_on prio t a q) = cRxLock q"
  by (cases a; simp add: same_ring_def)+

lemma place_on_list: "set (vTaskPlaceOnEventList prio t ts) = insert t (set ts)"
  "t \<notin> set ts \<Longrightarrow> distinct ts \<Longrightarrow> distinct (vTaskPlaceOnEventList prio t ts)"
proof -
  let ?P = "\<lambda>u. prio t \<le> prio u"
  have "set (takeWhile ?P ts) \<union> set (dropWhile ?P ts) = set ts" by (metis set_append takeWhile_dropWhile_id)
  then show "set (vTaskPlaceOnEventList prio t ts) = insert t (set ts)" by (auto simp: vTaskPlaceOnEventList_def)
  assume t: "t \<notin> set ts" and "distinct ts"
  then have "distinct (takeWhile ?P ts @ dropWhile ?P ts)" by (simp only: takeWhile_dropWhile_id)
  then have "distinct (takeWhile ?P ts)" "distinct (dropWhile ?P ts)" "set (takeWhile ?P ts) \<inter> set (dropWhile ?P ts) = {}"
    by (simp_all only: distinct_append)
  moreover have "t \<notin> set (takeWhile ?P ts)" "t \<notin> set (dropWhile ?P ts)" using t by (auto dest: set_takeWhileD set_dropWhileD)
  ultimately show "distinct (vTaskPlaceOnEventList prio t ts)"
    unfolding vTaskPlaceOnEventList_def by simp
qed

lemma inv_Place:
  assumes i: "sys_inv n s" and t: "t < n" and c: "pcs s t = Place a"
  shows "sys_inv n (goto t (Unlock1 a WillBlock) (s\<lparr>queue := place_on prio t a (queue s)\<rparr>))" (is "sys_inv n ?s")
proof -
  have b: "base_inv n s" and e: "\<And>d. enough n d 0 s" and li: "lists_inv n s" using i by (simp_all add: sys_inv_def base_inv_def)
  have o: "owner s = Some t" using owner_of [OF i] c by simp
  have off: "t \<notin> set (waiting d (queue s))" for d
    using waits(2) [OF li, of t d] c by auto
  have w: "waiting d (queue ?s) = (if d = side_of a then vTaskPlaceOnEventList prio t (waiting d (queue s)) else waiting d (queue s))" for d
    by (simp add: waiting_place_on)
  have p: "pcs ?s = (pcs s)(t := Unlock1 a WillBlock)" by simp
  have v: "avail d (queue ?s) = avail d (queue s)" "pend d (queue ?s) = pend d (queue s)" for d
    using ring_views [OF place_on_ring, of d prio t a "queue s"] by simp_all
  have ok: "pc_ok (uxItemSize (queue s)) (Unlock1 a WillBlock)" using inv_facts(1) [OF i, of t] c by (simp add: pc_ok_api)
  have "ring_inv ?s" using b ok same_ring_items [OF place_on_ring(1), of prio t a "queue s"] place_on_ring(1) [of prio t a "queue s"]
    by (simp add: base_inv_def ring_inv_def same_ring_def)
  moreover have "owner_inv n ?s" using b o t by (auto simp: base_inv_def owner_inv_def)
  moreover have "place_inv n ?s" by (rule place_only_owner [OF b disjI2 [OF o] p]) simp
  moreover have "lists_inv n ?s" unfolding lists_inv_def
  proof (intro allI conjI ballI impI)
    fix d
    have "distinct (waiting d (queue s))" using li by (simp add: lists_inv_def)
    then show "distinct (waiting d (queue ?s))" using place_on_list(2) [OF off [of d]]
      by (cases "d = side_of a") (simp_all add: waiting_place_on)
    fix u assume "u \<in> set (waiting d (queue ?s))"
    then have "u = t \<and> d = side_of a \<or> u \<in> set (waiting d (queue s))" by (auto simp: waiting_place_on place_on_list(1) split: if_splits)
    then show "u < n" "on_list d (pcs ?s u)" using waits(1,2) [OF li, of u d] off t by auto
  next
    fix d u x assume "pcs ?s u = Blocked x \<and> side_of x = d"
    then have "pcs s u = Blocked x" "side_of x = d" by (auto split: if_splits)
    then have "u \<in> set (waiting d (queue s))" using li unfolding lists_inv_def by blast
    then show "u \<in> set (waiting d (queue ?s))" by (cases "d = side_of a") (simp_all add: waiting_place_on place_on_list(1))
  qed
  ultimately have base: "base_inv n ?s" by (simp add: base_inv_def)
  have l: "lock_inv ?s"
    using moved_lock [OF b disjI2 [OF o] p] lock_of(1,2) [OF i] lock_of(3,4) [OF i, of t] c place_on_ring(2,3) by simp
  have cr: "credits n d ?s = credits n d s" for d
  proof -
    have "{u. u < n \<and> credit d (waiting d (queue ?s)) u (pcs ?s u)} = {u. u < n \<and> credit d (waiting d (queue s)) u (pcs s u)}"
    proof (intro Collect_cong conj_cong refl)
      fix u
      show "credit d (waiting d (queue ?s)) u (pcs ?s u) = credit d (waiting d (queue s)) u (pcs s u)"
      proof (cases "u = t")
        case True
        then show ?thesis using c by (auto simp: waiting_place_on place_on_list(1))
      next
        case False
        then show ?thesis using credit_list_irrelevant [of u "waiting d (queue ?s)" "waiting d (queue s)" d]
          by (simp add: waiting_place_on place_on_list(1))
      qed
    qed
    then show ?thesis by (simp add: credits_def)
  qed
  have "enough n d 0 ?s" for d
  proof (cases "d = side_of a")
    case True
    have "avail d (queue s) \<le> pend d (queue s) \<or> n \<le> pend d (queue s)"
      using b c True by (auto simp: base_inv_def place_inv_def)
    then show ?thesis unfolding enough_def cr v by auto
  next
    case False
    then show ?thesis using e [of d] unfolding enough_def cr v w by simp
  qed
  then show ?thesis using base l by (simp add: sys_inv_def)
qed

text \<open>The two halves of the unlocking.\<close>

fun unlocked :: "side \<Rightarrow> Queue_t \<Rightarrow> Queue_t" where
  "unlocked Receivers q = q\<lparr>cTxLock := queueUNLOCKED\<rparr>"
| "unlocked Senders q = q\<lparr>cRxLock := queueUNLOCKED\<rparr>"

lemma unlocked_fields [simp]:
  "waiting e (unlocked d q) = waiting e q" "same_ring (unlocked d q) q"
  "pend e (unlocked d q) = (if e = d then 0 else pend e q)"
  "cTxLock (unlocked d q) = (if d = Receivers then queueUNLOCKED else cTxLock q)"
  "cRxLock (unlocked d q) = (if d = Senders then queueUNLOCKED else cRxLock q)"
  by (cases d; cases e; simp add: same_ring_def pend_def)+

lemma avail_unlocked [simp]: "avail e (unlocked d q) = avail e q"
  by (cases d; cases e) (simp_all add: avail_def)

lemma wakes_fields:
  "owner ((wake1 d ^^ k) s) = owner s" "cTxLock (queue ((wake1 d ^^ k) s)) = cTxLock (queue s)"
  "cRxLock (queue ((wake1 d ^^ k) s)) = cRxLock (queue s)" "avail e (queue ((wake1 d ^^ k) s)) = avail e (queue s)"
  "pend e (queue ((wake1 d ^^ k) s)) = pend e (queue s)" "uxItemSize (queue ((wake1 d ^^ k) s)) = uxItemSize (queue s)"
  "waiting d (queue ((wake1 d ^^ k) s)) = drop k (waiting d (queue s))"
proof -
  show "owner ((wake1 d ^^ k) s) = owner s" "cTxLock (queue ((wake1 d ^^ k) s)) = cTxLock (queue s)"
    "cRxLock (queue ((wake1 d ^^ k) s)) = cRxLock (queue s)" "avail e (queue ((wake1 d ^^ k) s)) = avail e (queue s)"
    "pend e (queue ((wake1 d ^^ k) s)) = pend e (queue s)" by (induction k) (simp_all add: wake1_queue)
  show "uxItemSize (queue ((wake1 d ^^ k) s)) = uxItemSize (queue s)"
  proof (induction k)
    case (Suc k)
    then show ?case using wake1_queue(1) [of d "(wake1 d ^^ k) s"] by (simp add: same_ring_def)
  qed simp
  show "waiting d (queue ((wake1 d ^^ k) s)) = drop k (waiting d (queue s))"
    by (induction k) (simp_all add: wake1_waiting drop_Suc tl_drop)
qed

lemma wakes_pcs: "(\<And>a. pcs s t \<noteq> Blocked a) \<Longrightarrow> pcs ((wake1 d ^^ k) s) t = pcs s t"
proof (induction k)
  case (Suc k)
  obtain w where w: "pcs (wake1 d ((wake1 d ^^ k) s)) = (pcs ((wake1 d ^^ k) s))(w := woken (pcs ((wake1 d ^^ k) s) w)) \<or>
      pcs (wake1 d ((wake1 d ^^ k) s)) = pcs ((wake1 d ^^ k) s)" using wake1_pcs by blast
  have "woken (pcs s t) = pcs s t" using Suc.prems by (cases "pcs s t") auto
  then show ?case using Suc w by auto
qed simp

lemma wakes_credits:
  assumes "base_inv n s" and "k \<le> length (waiting d (queue s))"
  shows "credits n d ((wake1 d ^^ k) s) = credits n d s + k"
  using assms(2)
proof (induction k)
  case (Suc k)
  let ?s = "(wake1 d ^^ k) s"
  have l: "lists_inv n ?s" using wakes_inv(1) [OF assms(1), where d = d and k = k] by (simp add: base_inv_def)
  obtain w ts where w: "waiting d (queue ?s) = w # ts"
    using Suc.prems by (cases "waiting d (queue ?s)") (auto simp: wakes_fields(7))
  have "credits n d (wake1 d ?s) = credits n d ?s + 1"
    using wake_task_credits(1) [OF l, of w d] wake1_task [OF l w] w by simp
  then show ?case using Suc by simp
qed simp

lemma inv_unlock:
  assumes i: "sys_inv n s" and t: "t < n" and s: "suspended (pcs s t)" "suspended c"
    and same: "\<And>e ws. credit e ws t c = credit e ws t (pcs s t)" "\<And>e. on_list e c = on_list e (pcs s t)" "\<And>a. c \<noteq> Place a"
    and ok: "pc_ok (uxItemSize (queue s)) c"
    and k: "k = pend d (queue s)" and s1: "s1 = (wake1 d ^^ k) s"
    and lock: "if d = Receivers then tx_locked (pcs s t) \<and> \<not> tx_locked c \<and> rx_locked c else \<not> tx_locked (pcs s t) \<and> rx_locked (pcs s t) \<and> \<not> rx_locked c"
  shows "sys_inv n (goto t c (s1\<lparr>queue := unlocked d (queue s1)\<rparr>))" (is "sys_inv n ?s")
proof -
  have b: "base_inv n s" and e: "\<And>d. enough n d 0 s" using i by (simp_all add: sys_inv_def)
  have o: "owner s = Some t" by (rule owner_of [OF i s(1)])
  have nb: "pcs s t \<noteq> Blocked a" for a using s(1) by auto
  have b1: "base_inv n s1" unfolding s1 by (rule wakes_inv(1) [OF b])
  have o1: "owner s1 = Some t" using o by (simp add: s1 wakes_fields)
  have p1: "pcs s1 t = pcs s t" unfolding s1 by (rule wakes_pcs [OF nb])
  have m: "moved t c s1 ?s" by (simp add: moved_def)
  have p: "pcs ?s = (pcs s1)(t := c)" by simp
  have "ring_inv ?s"
    using b1 ok same_ring_items [OF unlocked_fields(2), of d "queue s1"] unlocked_fields(2) [of d "queue s1"]
    by (simp add: base_inv_def ring_inv_def same_ring_def s1 wakes_fields)
  moreover have "place_inv n ?s" by (rule place_only_owner [OF b1 disjI2 [OF o1] p]) (use same(3) in blast)
  ultimately have base: "base_inv n ?s"
    by (intro moved_base [OF b1 m t]) (use same(2) p1 o1 s(2) in \<open>auto\<close>)
  have "lock_inv ?s"
    unfolding moved_lock [OF b1 disjI2 [OF o1] p]
    using lock lock_of(1,2) [OF i] lock_of(3-6) [OF i, of t] s locked_suspended [of "pcs s t"] locked_suspended [of c]
    by (cases d) (auto simp: s1 wakes_fields)
  moreover have "enough n x 0 ?s" for x
  proof (cases "x = d")
    case False
    have "enough n x 0 s1" unfolding s1 by (rule wakes_inv(4) [OF b False e])
    then show ?thesis
      by (rule moved_enough [OF m t]) (use False same(1) p1 in \<open>auto split: if_splits\<close>)
  next
    case True
    show ?thesis
    proof (cases "length (waiting d (queue s)) \<le> k")
      case le: True
      then show ?thesis using True by (simp add: enough_def s1 wakes_fields)
    next
      case gt: False
      have dis: "distinct (waiting d (queue s))" "set (waiting d (queue s)) \<subseteq> {..<n}"
        using b by (auto simp: base_inv_def lists_inv_def)
      have "length (waiting d (queue s)) \<le> n"
        using card_mono [OF _ dis(2)] distinct_card [OF dis(1)] by simp
      then have av: "avail d (queue s) \<le> credits n d s + k"
        using e [of d] gt k by (auto simp: enough_def)
      have "credits n d s1 = credits n d s + k" unfolding s1 by (rule wakes_credits [OF b]) (use gt in simp)
      moreover have "credits n d ?s = credits n d s1"
        using moved_credits [OF m t, of d] same(1) p1 by (simp split: if_splits)
      ultimately show ?thesis using av True by (simp add: enough_def s1 wakes_fields)
    qed
  qed
  ultimately show ?thesis using base by (simp add: sys_inv_def)
qed

lemma unlock_as_wakes:
  "unlock_tx q = (unlocked Receivers (set_waiting Receivers (drop (pend Receivers q) (waiting Receivers q)) q), take (pend Receivers q) (waiting Receivers q))"
  "unlock_rx q = (unlocked Senders (set_waiting Senders (drop (pend Senders q) (waiting Senders q)) q), take (pend Senders q) (waiting Senders q))"
  by (simp_all add: unlock_tx_def unlock_rx_def wake_waiting_take pend_def)

lemma fold_ready_wakes:
  assumes "k = pend d (queue s)"
  shows "fold ready (take k (waiting d (queue s))) (s\<lparr>queue := unlocked d (set_waiting d (drop k (waiting d (queue s))) (queue s))\<rparr>) =
    ((wake1 d ^^ k) s)\<lparr>queue := unlocked d (queue ((wake1 d ^^ k) s))\<rparr>"
  by (simp add: wake1_iterate fold_ready_queue)

lemma inv_Unlock1:
  assumes i: "sys_inv n s" and t: "t < n" and c: "pcs s t = Unlock1 a oc" and u: "unlock_tx (queue s) = (q, ws)"
  shows "sys_inv n (goto t (Unlock2 a oc) (fold ready ws (s\<lparr>queue := q\<rparr>)))"
proof -
  let ?k = "pend Receivers (queue s)"
  have "credit e vs t (Unlock2 a oc) = credit e vs t (pcs s t)" "on_list e (Unlock2 a oc) = on_list e (pcs s t)" for e vs
    by (cases oc; simp add: c)+
  moreover have "pc_ok (uxItemSize (queue s)) (Unlock2 a oc)" using inv_facts(1) [OF i, of t] c by (simp add: pc_ok_api)
  ultimately have "sys_inv n (goto t (Unlock2 a oc) (((wake1 Receivers ^^ ?k) s)\<lparr>queue := unlocked Receivers (queue ((wake1 Receivers ^^ ?k) s))\<rparr>))"
    by (intro inv_unlock [OF i t _ _ _ _ _ _ refl refl]) (simp_all add: c)
  then show ?thesis using u fold_ready_wakes [of ?k Receivers s] by (auto simp: unlock_as_wakes)
qed

lemma inv_Unlock2:
  assumes i: "sys_inv n s" and t: "t < n" and c: "pcs s t = Unlock2 a oc" and u: "unlock_rx (queue s) = (q, ws)"
  shows "sys_inv n (goto t (Resume a oc) (fold ready ws (s\<lparr>queue := q\<rparr>)))"
proof -
  let ?k = "pend Senders (queue s)"
  have "credit e vs t (Resume a oc) = credit e vs t (pcs s t)" "on_list e (Resume a oc) = on_list e (pcs s t)" for e vs
    by (cases oc; simp add: c)+
  moreover have "pc_ok (uxItemSize (queue s)) (Resume a oc)" using inv_facts(1) [OF i, of t] c by (simp add: pc_ok_api)
  ultimately have "sys_inv n (goto t (Resume a oc) (((wake1 Senders ^^ ?k) s)\<lparr>queue := unlocked Senders (queue ((wake1 Senders ^^ ?k) s))\<rparr>))"
    by (intro inv_unlock [OF i t _ _ _ _ _ _ refl refl]) (simp_all add: c)
  then show ?thesis using u fold_ready_wakes [of ?k Senders s] by (auto simp: unlock_as_wakes)
qed

text \<open>An item or a place has become available to the other side.\<close>

fun opp :: "side \<Rightarrow> side" where
  "opp Senders = Receivers" | "opp Receivers = Senders"

lemma opp_neq [simp]: "opp d \<noteq> d" "d \<noteq> opp d"
  by (cases d; simp)+

lemma side_cases: "e = d \<or> e = opp d"
  by (cases d; cases e) simp_all

lemma ready_wake:
  "wake_receiver (queue x) = (q, w) \<Longrightarrow> ready_opt w (x\<lparr>queue := q\<rparr>) = wake1 Receivers x"
  "wake_sender (queue x) = (q, w) \<Longrightarrow> ready_opt w (x\<lparr>queue := q\<rparr>) = wake1 Senders x"
  by (auto simp: wake_receiver_def wake_sender_def xTaskRemoveFromEventList_def wake1_def ready_opt_def split: list.split if_splits)

lemma inv_wake:
  assumes "base_inv n x" and "lock_inv x" and "enough n d 1 x" and "enough n (opp d) 0 x"
  shows "sys_inv n (wake1 d x)"
proof -
  have "enough n e 0 (wake1 d x)" for e
    using side_cases [of e d] wake1_enough(1) [OF assms(1), where d = d and k = 0]
      wake1_enough(2) [OF assms(1), where d = d and e = "opp d" and k = 0] assms(3,4) by auto
  then show ?thesis using wake1_base [OF assms(1)] wake1_lock [OF assms(1,2)] by (simp add: sys_inv_def)
qed

lemma inv_served:
  assumes i: "sys_inv n s" and t: "t < n" "owner s = None" and c: "pcs s t = Loop a w"
    and m: "moved t (Finished True) s x" and o: "owner x = None" and ring: "ring_inv x"
    and av: "avail (side_of a) (queue x) + 1 = avail (side_of a) (queue s)"
      "avail (opp (side_of a)) (queue x) = avail (opp (side_of a)) (queue s) + 1"
    and lk: "cTxLock (queue x) = cTxLock (queue s)" "cRxLock (queue x) = cRxLock (queue s)"
  shows "sys_inv n (wake1 (opp (side_of a)) x)"
proof (rule inv_wake)
  have b: "base_inv n s" and e: "\<And>d. enough n d 0 s" using i by (simp_all add: sys_inv_def)
  have p: "pcs x = (pcs s)(t := Finished True)" using m by (simp add: moved_def)
  have ns: "\<not> suspended (pcs s t)" using c by simp
  note u = unlocked_when_none [OF i ns disjI1 [OF t(2)]]
  have pd: "pend d (queue x) = pend d (queue s)" for d using lk by (simp add: pend_def split: side.split)
  have "place_inv n x" by (rule place_only_owner [OF b disjI1 [OF t(2)] p]) simp
  then show "base_inv n x" by (intro moved_base [OF b m t(1) ring]) (use c o in auto)
  show "lock_inv x" using moved_lock [OF b disjI1 [OF t(2)] p] u lk by simp
  show "enough n (opp (side_of a)) 1 x" by (rule moved_enough [OF m t(1) e]) (use c av pd in auto)
  show "enough n (opp (opp (side_of a))) 0 x"
  proof -
    have "opp (opp (side_of a)) = side_of a" by (cases a) simp_all
    moreover have "enough n (side_of a) 0 x" by (rule moved_enough [OF m t(1) e]) (use c av pd in auto)
    ultimately show ?thesis by simp
  qed
qed

lemma goto_queue:
  "(goto t c (s\<lparr>queue := p, sent := l\<rparr>))\<lparr>queue := q\<rparr> = goto t c (s\<lparr>queue := q, sent := l\<rparr>)"
  "(goto t c (s\<lparr>queue := p, got := l\<rparr>))\<lparr>queue := q\<rparr> = goto t c (s\<lparr>queue := q, got := l\<rparr>)"
  by (rule qsys.equality; simp)+

lemma inv_loop:
  assumes i: "sys_inv n s" and t: "t < n" "owner s = None" and c: "pcs s t = Loop a w"
  shows "sys_inv n (loop_head t a w s)"
proof -
  have ok: "queue_ok (queue s)" "sent s = got s @ items (queue s)" "\<And>t. pc_ok (uxItemSize (queue s)) (pcs s t)"
    using i by (simp_all add: sys_inv_def base_inv_def ring_inv_def)
  show ?thesis
  proof (cases a)
    case (ApiSend m)
    show ?thesis
    proof (cases "uxMessagesWaiting (queue s) < uxLength (queue s)")
      case True
      let ?q = "prvCopyDataToQueue m queueSEND_TO_BACK (queue s)"
      let ?x = "goto t (Finished True) (s\<lparr>queue := ?q, sent := sent s @ [m]\<rparr>)"
      have len: "length m = uxItemSize (queue s)" using ok(3) [of t] c ApiSend by simp
      note it = send_back_items [OF ok(1) True len]
      have n: "uxMessagesWaiting ?q = uxMessagesWaiting (queue s) + 1"
        using arg_cong [OF conjunct2 [OF it], of length] by simp
      have "sys_inv n (wake1 (opp (side_of a)) ?x)"
      proof (rule inv_served [OF i t c])
        show "ring_inv ?x" using it ok by (simp add: ring_inv_def)
      qed (use t n True ApiSend in \<open>auto simp: moved_def waiting_kept avail_def\<close>)
      moreover obtain q' w' where w: "wake_receiver ?q = (q', w')" by fastforce
      moreover have "loop_head t a w s = ready_opt w' (?x\<lparr>queue := q'\<rparr>)"
        using True w ApiSend by (simp add: send_critical_def goto_queue)
      ultimately show ?thesis using ready_wake(1) [of ?x q' w'] ApiSend by simp
    next
      case False
      then have "avail (side_of a) (queue s) = 0" using ApiSend by (simp add: avail_def)
      from inv_loop_fail [OF i t c this] show ?thesis using False ApiSend by (cases w) (simp_all add: send_critical_def)
    qed
  next
    case ApiReceive
    show ?thesis
    proof (cases "uxMessagesWaiting (queue s) > 0")
      case True
      obtain q1 m where cp: "prvCopyDataFromQueue (queue s) = (q1, m)" by fastforce
      let ?q = "q1\<lparr>uxMessagesWaiting := uxMessagesWaiting (queue s) - 1\<rparr>"
      let ?x = "goto t (Finished True) (s\<lparr>queue := ?q, got := got s @ [m]\<rparr>)"
      note it = receive_items [OF ok(1) True cp] and k = copy_from_kept [OF cp]
      have "sys_inv n (wake1 (opp (side_of a)) ?x)"
      proof (rule inv_served [OF i t c])
        show "ring_inv ?x" using it ok k by (simp add: ring_inv_def)
        have "waiting d ?q = waiting d (queue s)" for d using k by (cases d) simp_all
        then show "moved t (Finished True) s ?x" by (simp add: moved_def)
        have "uxMessagesWaiting (queue s) \<le> uxLength (queue s)" using ok(1) by (simp add: queue_ok_def)
        then show "avail (opp (side_of a)) (queue ?x) = avail (opp (side_of a)) (queue s) + 1"
          using True k ApiReceive by (auto simp: avail_def)
      qed (use t k True ApiReceive in \<open>auto simp: avail_def\<close>)
      moreover obtain q' w' where w: "wake_sender ?q = (q', w')" by fastforce
      moreover have "loop_head t a w s = ready_opt w' (?x\<lparr>queue := q'\<rparr>)"
        using True w cp ApiReceive by (simp add: receive_critical_def goto_queue)
      ultimately show ?thesis using ready_wake(2) [of ?x q' w'] ApiReceive by simp
    next
      case False
      then have "avail (side_of a) (queue s) = 0" using ApiReceive by (simp add: avail_def)
      from inv_loop_fail [OF i t c this] show ?thesis using False ApiReceive by (cases w) (simp_all add: receive_critical_def)
    qed
  qed
qed

text \<open>A tick and an interrupt handler.\<close>

lemma inv_Tick:
  assumes i: "sys_inv n s" and c: "pcs s t = Blocked a"
  shows "sys_inv n (goto t (Loop a True) (s\<lparr>queue := remove_from t a (queue s)\<rparr>))"
proof -
  have b: "base_inv n s" "lock_inv s" and e: "\<And>d. enough n d 0 s" using i by (simp_all add: sys_inv_def)
  then have l: "lists_inv n s" by (simp add: base_inv_def)
  have w: "t \<in> set (waiting (side_of a) (queue s))" using l c by (simp add: lists_inv_def)
  have "remove_from t a q = set_waiting (side_of a) (filter (\<lambda>u. u \<noteq> t) (waiting (side_of a) q)) q" for q
    by (cases a) simp_all
  then have eq: "goto t (Loop a True) (s\<lparr>queue := remove_from t a (queue s)\<rparr>) = wake_task (side_of a) t s"
    using c by (simp add: wake_task_def ready_def)
  have more: "enough n d 1 s" for d using e [of d] by (auto simp: enough_def)
  have "enough n d 0 (wake_task (side_of a) t s)" for d
    using wake_task_enough(1) [OF b(1) w, of 0] wake_task_enough(2) [OF b(1) w, of d 0] e [of d] more
    by (cases "d = side_of a") simp_all
  then show ?thesis unfolding eq using wake_task_base [OF b(1) w] wake_task_lock [OF b(2)] by (simp add: sys_inv_def)
qed

lemma same_tasks_credits:
  assumes "pcs x = pcs s" and "\<And>d. waiting d (queue x) = waiting d (queue s)"
  shows "credits n d x = credits n d s"
  using assms by (simp add: credits_def)

text \<open>The handler has moved an item: the other side is woken at once, or the unlocking will do it.\<close>

lemma inv_isr:
  assumes i: "sys_inv n s" and keep: "pcs x = pcs s" "owner x = owner s" "\<And>e. waiting e (queue x) = waiting e (queue s)"
    and ring: "ring_inv x" and av: "avail d (queue x) = avail d (queue s) + 1" "avail (opp d) (queue x) \<le> avail (opp d) (queue s)"
    and lk: "cTxLock (queue x) = cTxLock (queue s)" "cRxLock (queue x) = cRxLock (queue s)"
  shows "(case d of Receivers \<Rightarrow> cTxLock (queue s) | Senders \<Rightarrow> cRxLock (queue s)) = queueUNLOCKED \<Longrightarrow> sys_inv n (wake1 d x)"
    and "(case d of Receivers \<Rightarrow> cTxLock (queue s) | Senders \<Rightarrow> cRxLock (queue s)) \<noteq> queueUNLOCKED \<Longrightarrow>
      sys_inv n (x\<lparr>queue := (case d of Receivers \<Rightarrow> prvIncrementQueueTxLock n (queue x) | Senders \<Rightarrow> prvIncrementQueueRxLock n (queue x))\<rparr>)"
proof -
  have b: "base_inv n s" "lock_inv s" and e: "\<And>d. enough n d 0 s" using i by (simp_all add: sys_inv_def)
  have base: "base_inv n y" if "pcs y = pcs s" "owner y = owner s" "\<And>e. waiting e (queue y) = waiting e (queue s)"
    "ring_inv y" "place_inv n y" for y
    using b(1) that by (simp add: base_inv_def lists_inv_def owner_inv_def)
  have pd: "pend z (queue x) = pend z (queue s)" for z using lk by (simp add: pend_def split: side.split)
  note cr = same_tasks_credits [OF keep(1,3)]
  have pl: "avail (side_of a) (queue s) \<le> pend (side_of a) (queue s) \<or> n \<le> pend (side_of a) (queue s)" if "pcs s t = Place a" for t a
    using b(1) that by (auto simp: base_inv_def place_inv_def)
  show "sys_inv n (wake1 d x)" if u: "(case d of Receivers \<Rightarrow> cTxLock (queue s) | Senders \<Rightarrow> cRxLock (queue s)) = queueUNLOCKED"
  proof (rule inv_wake)
    have "pcs s t \<noteq> Place a" for t a
      using u lock_of(3,4) [OF i, of t] locked_suspended(1) [of "pcs s t"] by (cases d) auto
    then have "place_inv n x" using keep(1) by (simp add: place_inv_def)
    then show "base_inv n x" by (rule base [OF keep ring])
    show "lock_inv x" using b(2) keep lk by (simp add: lock_inv_def)
    show "enough n d 1 x" "enough n (opp d) 0 x"
      using e [of d] e [of "opp d"] av unfolding enough_def cr pd keep(3) by auto
  qed
  assume u: "(case d of Receivers \<Rightarrow> cTxLock (queue s) | Senders \<Rightarrow> cRxLock (queue s)) \<noteq> queueUNLOCKED"
  let ?q = "case d of Receivers \<Rightarrow> prvIncrementQueueTxLock n (queue x) | Senders \<Rightarrow> prvIncrementQueueRxLock n (queue x)"
  let ?y = "x\<lparr>queue := ?q\<rparr>"
  have w: "waiting e ?q = waiting e (queue s)" for e using keep(3) by (cases d) (simp_all add: waiting_kept)
  have r: "same_ring ?q (queue x)" using lock_ring(2,3) by (cases d) simp_all
  have avy: "avail e ?q = avail e (queue x)" for e using r by (simp add: avail_def same_ring_def split: side.split)
  have lo: "cTxLock (queue s) \<ge> queueUNLOCKED" "cRxLock (queue s) \<ge> queueUNLOCKED" using lock_of(1,2) [OF i] .
  have pd1: "pend d ?q = pend d (queue s) + 1 \<or> n \<le> pend d (queue s) \<and> pend d ?q = pend d (queue s)"
    using u lk lo by (cases d) (auto simp: prvIncrementQueueTxLock_def prvIncrementQueueRxLock_def pend_def)
  have pd2: "pend (opp d) ?q = pend (opp d) (queue s)"
    using lk by (cases d) (auto simp: prvIncrementQueueTxLock_def prvIncrementQueueRxLock_def pend_def)
  have "ring_inv ?y" using ring same_ring_items [OF r] r by (simp add: ring_inv_def same_ring_def)
  moreover have "place_inv n ?y" unfolding place_inv_def
  proof (intro allI impI)
    fix t a assume "pcs ?y t = Place a"
    then have "pcs s t = Place a" using keep(1) by simp
    note p = pl [OF this]
    show "avail (side_of a) (queue ?y) \<le> pend (side_of a) (queue ?y) \<or> n \<le> pend (side_of a) (queue ?y)"
      using side_cases [of "side_of a" d]
    proof
      assume "side_of a = d" then show ?thesis using p pd1 av(1) by (auto simp: avy)
    next
      assume "side_of a = opp d" then show ?thesis using p pd2 av(2) by (auto simp: avy)
    qed
  qed
  ultimately have "base_inv n ?y" using keep(1,2) w by (intro base) simp_all
  moreover have "lock_inv ?y"
    using b(2) keep lk lo u by (cases d) (auto simp: lock_inv_def prvIncrementQueueTxLock_def prvIncrementQueueRxLock_def)
  moreover have "enough n z 0 ?y" for z
  proof -
    have c: "credits n z ?y = credits n z s" using keep(1) w by (intro same_tasks_credits) simp_all
    show ?thesis using side_cases [of z d]
    proof
      assume "z = d" then show ?thesis using e [of d] pd1 av(1) w c by (auto simp: enough_def avy)
    next
      assume "z = opp d" then show ?thesis using e [of "opp d"] pd2 av(2) w c by (auto simp: enough_def avy)
    qed
  qed
  ultimately show "sys_inv n ?y" by (simp add: sys_inv_def)
qed

lemma inv_IsrSend:
  assumes i: "sys_inv n s" and len: "length m = uxItemSize (queue s)"
    and f: "xQueueGenericSendFromISR n m queueSEND_TO_BACK (queue s) = Some (q, w)"
  shows "sys_inv n (ready_opt w (s\<lparr>queue := q, sent := sent s @ [m]\<rparr>))"
proof -
  have ok: "queue_ok (queue s)" "sent s = got s @ items (queue s)" "\<And>t. pc_ok (uxItemSize (queue s)) (pcs s t)"
    using i by (simp_all add: sys_inv_def base_inv_def ring_inv_def)
  have room: "uxMessagesWaiting (queue s) < uxLength (queue s)"
    using f by (simp add: xQueueGenericSendFromISR_def split: if_splits)
  let ?q = "prvCopyDataToQueue m queueSEND_TO_BACK (queue s)"
  define x where "x = s\<lparr>queue := ?q, sent := sent s @ [m]\<rparr>"
  have x [simp]: "queue x = ?q" "pcs x = pcs s" "owner x = owner s" by (simp_all add: x_def)
  note it = send_back_items [OF ok(1) room len]
  have n: "uxMessagesWaiting ?q = uxMessagesWaiting (queue s) + 1"
    using arg_cong [OF conjunct2 [OF it], of length] by simp
  have ring: "ring_inv x" using it ok by (simp add: ring_inv_def x_def)
  have r: "avail Receivers (queue x) = avail Receivers (queue s) + 1" "avail (opp Receivers) (queue x) \<le> avail (opp Receivers) (queue s)"
    using n by (simp_all add: avail_def)
  have "\<And>e. waiting e (queue x) = waiting e (queue s)" by (simp add: waiting_kept)
  note go = inv_isr [where x = x, OF i _ _ this ring r]
  have e: "s\<lparr>queue := q, sent := sent s @ [m]\<rparr> = x\<lparr>queue := q\<rparr>" by (rule qsys.equality) (simp_all add: x_def)
  show ?thesis
  proof (cases "cTxLock (queue s) = queueUNLOCKED")
    case True
    then have w: "wake_receiver ?q = (q, w)" using f room by (simp add: xQueueGenericSendFromISR_def Let_def)
    have "ready_opt w (x\<lparr>queue := q\<rparr>) = wake1 Receivers x" using w by (intro ready_wake(1)) simp
    then show ?thesis unfolding e using go(1) True by simp
  next
    case False
    then have q: "q = prvIncrementQueueTxLock n ?q" "w = None" using f room by (simp_all add: xQueueGenericSendFromISR_def Let_def)
    show ?thesis unfolding e unfolding q ready_opt_def using go(2) False by simp
  qed
qed

lemma inv_IsrReceive:
  assumes i: "sys_inv n s" and f: "xQueueReceiveFromISR n (queue s) = Some (q, m, w)"
  shows "sys_inv n (ready_opt w (s\<lparr>queue := q, got := got s @ [m]\<rparr>))"
proof -
  have ok: "queue_ok (queue s)" "sent s = got s @ items (queue s)" "\<And>t. pc_ok (uxItemSize (queue s)) (pcs s t)"
    using i by (simp_all add: sys_inv_def base_inv_def ring_inv_def)
  have some: "uxMessagesWaiting (queue s) > 0"
    using f by (simp add: xQueueReceiveFromISR_def Let_def split: if_splits)
  obtain q1 m1 where cp: "prvCopyDataFromQueue (queue s) = (q1, m1)" by fastforce
  let ?q = "q1\<lparr>uxMessagesWaiting := uxMessagesWaiting (queue s) - 1\<rparr>"
  define x where "x = s\<lparr>queue := ?q, got := got s @ [m1]\<rparr>"
  have x [simp]: "queue x = ?q" "pcs x = pcs s" "owner x = owner s" by (simp_all add: x_def)
  note it = receive_items [OF ok(1) some cp] and k = copy_from_kept [OF cp]
  have ring: "ring_inv x" using it ok k by (simp add: ring_inv_def x_def)
  have "uxMessagesWaiting (queue s) \<le> uxLength (queue s)" using ok(1) by (simp add: queue_ok_def)
  then have r: "avail Senders (queue x) = avail Senders (queue s) + 1" "avail (opp Senders) (queue x) \<le> avail (opp Senders) (queue s)"
    using some k by (auto simp: avail_def)
  have "waiting e (queue x) = waiting e (queue s)" for e using k by (cases e) simp_all
  note go = inv_isr [where x = x, OF i _ _ this ring r]
  have m: "m = m1" using f some cp by (auto simp: xQueueReceiveFromISR_def Let_def split: prod.splits)
  then have e: "s\<lparr>queue := q, got := got s @ [m]\<rparr> = x\<lparr>queue := q\<rparr>" by (intro qsys.equality) (simp_all add: x_def)
  show ?thesis
  proof (cases "cRxLock (queue s) = queueUNLOCKED")
    case True
    then have w: "wake_sender ?q = (q, w)" using f some cp by (auto simp: xQueueReceiveFromISR_def Let_def split: prod.splits)
    have "ready_opt w (x\<lparr>queue := q\<rparr>) = wake1 Senders x" using w by (intro ready_wake(2)) simp
    then show ?thesis unfolding e using go(1) True k by simp
  next
    case False
    then have q: "q = prvIncrementQueueRxLock n ?q" "w = None"
      using f some cp by (auto simp: xQueueReceiveFromISR_def Let_def split: prod.splits)
    show ?thesis unfolding e unfolding q ready_opt_def using go(2) False k by simp
  qed
qed

lemma inv_task_step:
  assumes i: "sys_inv n s" and t: "t < n" and o: "owner s = None \<or> owner s = Some t" and st: "task_step prio t b s = Some s'"
  shows "sys_inv n s'"
proof -
  have free: "owner s = None" if "\<not> suspended (pcs s t)" using unlocked_when_none(1) [OF i that o] .
  show ?thesis
  proof (cases "pcs s t")
    case (Loop a w)
    then show ?thesis using st inv_loop [OF i t free Loop] by (simp add: task_step_def)
  next
    case (Suspend a)
    then show ?thesis using st inv_Suspend [OF i t free Suspend] by (simp add: task_step_def)
  next
    case (Lock a)
    then show ?thesis using st inv_Lock [OF i t Lock] by (simp add: task_step_def)
  next
    case (Check a)
    then show ?thesis using st inv_Check [OF i t Check, of b] by (simp only: task_step_def pc.case option.inject)
  next
    case (Test a)
    then show ?thesis using st inv_Test [OF i t Test] by (simp only: task_step_def pc.case option.inject)
  next
    case (Place a)
    then show ?thesis using st inv_Place [OF i t Place, of prio] by (simp add: task_step_def)
  next
    case (Unlock1 a oc)
    then show ?thesis using st inv_Unlock1 [OF i t Unlock1] by (auto simp: task_step_def split: prod.splits)
  next
    case (Unlock2 a oc)
    then show ?thesis using st inv_Unlock2 [OF i t Unlock2] by (auto simp: task_step_def split: prod.splits)
  next
    case (Resume a oc)
    then show ?thesis using st inv_Resume [OF i t Resume] by (simp add: task_step_def)
  next
    case Recheck
    then show ?thesis using st inv_Recheck [OF i t free Recheck] by (simp only: task_step_def pc.case option.inject pc.distinct suspended.simps) simp
  qed (use st in \<open>simp_all add: task_step_def\<close>)
qed

lemma qstep_inv:
  assumes i: "sys_inv n s" and st: "qstep n prio ev s = Some s'"
  shows "sys_inv n s'"
proof (cases ev)
  case (Start t a w)
  then show ?thesis using st by (auto split: if_splits intro!: inv_Start [OF i])
next
  case (Step t b)
  then show ?thesis using st inv_task_step [OF i] by (auto split: if_splits)
next
  case (Tick t)
  then show ?thesis using st inv_Tick [OF i] by (auto split: pc.splits if_splits)
next
  case (IsrSend m)
  then show ?thesis using st i inv_IsrSend [OF i] by (auto split: option.splits if_splits)
next
  case IsrReceive
  then show ?thesis using st i inv_IsrReceive [OF i] by (auto split: option.splits if_splits)
qed

text \<open>A queue that has just been created.\<close>

definition fresh_queue :: "Queue_t \<Rightarrow> bool" where
  "fresh_queue q \<longleftrightarrow> queue_ok q \<and> items q = [] \<and> cTxLock q = queueUNLOCKED \<and> cRxLock q = queueUNLOCKED \<and>
     xTasksWaitingToSend q = [] \<and> xTasksWaitingToReceive q = []"

lemma init_inv: "fresh_queue q \<Longrightarrow> sys_inv n (qsys_init q)"
proof -
  assume f: "fresh_queue q"
  then have w: "waiting d q = []" for d by (cases d) (simp_all add: fresh_queue_def)
  then show ?thesis using f
    by (simp add: sys_inv_def base_inv_def ring_inv_def lists_inv_def owner_inv_def place_inv_def lock_inv_def enough_def
      qsys_init_def fresh_queue_def)
qed

lemma reachable_inv:
  assumes "reachable n prio q0 s" and "fresh_queue q0"
  shows "sys_inv n s"
  using assms by (induction rule: reachable.induct) (auto intro: init_inv qstep_inv)

section \<open>Properties\<close>

text \<open>The size of the queue stays what it was.\<close>

definition sized :: "Queue_t \<Rightarrow> nat \<times> nat" where
  "sized q = (uxLength q, uxItemSize q)"

lemma sized_same_ring: "same_ring q' q \<Longrightarrow> sized q' = sized q"
  by (simp add: sized_def same_ring_def)

lemma sized_ready [simp]: "queue (ready_opt w s) = queue s" "queue (fold ready ws s) = queue s"
proof -
  show "queue (ready_opt w s) = queue s" by (simp add: ready_opt_def split: option.split)
  show "queue (fold ready ws s) = queue s" by (induction ws arbitrary: s) simp_all
qed

lemma sized_moves:
  "send_critical m p q = Some (q', w) \<Longrightarrow> sized q' = sized q"
  "receive_critical q = Some (q', x, w) \<Longrightarrow> sized q' = sized q"
  "xQueueGenericSendFromISR n m p q = Some (q', w) \<Longrightarrow> sized q' = sized q"
  "xQueueReceiveFromISR n q = Some (q', x, w) \<Longrightarrow> sized q' = sized q"
proof -
  have c: "sized (prvCopyDataToQueue m p q) = sized q" by (simp add: sized_def)
  obtain q1 y where cp: "prvCopyDataFromQueue q = (q1, y)" by fastforce
  have d: "sized (q1\<lparr>uxMessagesWaiting := k\<rparr>) = sized q" for k using copy_from_kept(1,2) [OF cp] by (simp add: sized_def)
  note r = wake_ring [THEN sized_same_ring] lock_ring [THEN sized_same_ring]
  show "sized q' = sized q" if "send_critical m p q = Some (q', w)"
    using that c r(1) [of "prvCopyDataToQueue m p q"] by (simp add: send_critical_def split: if_splits)
  show "sized q' = sized q" if "receive_critical q = Some (q', x, w)"
    using that cp d r(2) [of "q1\<lparr>uxMessagesWaiting := uxMessagesWaiting q - 1\<rparr>"]
    by (auto simp: receive_critical_def Let_def split: if_splits prod.splits)
  show "sized q' = sized q" if "xQueueGenericSendFromISR n m p q = Some (q', w)"
    using that c r(1,4) by (auto simp: xQueueGenericSendFromISR_def Let_def split: if_splits) (metis fst_conv)+
  show "sized q' = sized q" if "xQueueReceiveFromISR n q = Some (q', x, w)"
    using that cp d r(2,5) by (auto simp: xQueueReceiveFromISR_def Let_def split: if_splits prod.splits) (metis fst_conv)+
qed

lemma loop_head_sized: "sized (queue (loop_head t a w s)) = sized (queue s)"
  by (cases a) (auto dest: sized_moves split: option.split)

lemma qstep_sized:
  assumes "qstep n prio ev s = Some s'"
  shows "sized (queue s') = sized (queue s)"
proof (cases ev)
  case (Step t b)
  then have st: "task_step prio t b s = Some s'" using assms by (simp split: if_splits)
  have "sized (prvLockQueue q) = sized q" "sized (place_on prio t a q) = sized q" for q a
    using lock_ring(1) place_on_ring(1) by (auto intro: sized_same_ring)
  moreover have "unlock_tx q = (q', ws) \<Longrightarrow> sized q' = sized q" "unlock_rx q = (q', ws) \<Longrightarrow> sized q' = sized q" for q q' ws
    using lock_ring(4,5) [of q] by (auto intro: sized_same_ring)
  ultimately show ?thesis using st loop_head_sized
    by (auto simp: task_step_def split: pc.splits prod.splits)
next
  case (Tick t)
  have "sized (remove_from t a q) = sized q" for a q by (cases a) (simp_all add: sized_def)
  then show ?thesis using assms Tick by (auto split: pc.splits if_splits)
qed (use assms in \<open>auto split: if_splits option.splits dest: sized_moves\<close>)

lemma reachable_sized: "reachable n prio q0 s \<Longrightarrow> sized (queue s) = sized q0"
  by (induction rule: reachable.induct) (simp_all add: qstep_sized qsys_init_def)

fun qrun :: "nat \<Rightarrow> (nat \<Rightarrow> nat) \<Rightarrow> event list \<Rightarrow> qsys \<Rightarrow> qsys option" where
  "qrun n prio [] s = Some s"
| "qrun n prio (ev # evs) s = (case qstep n prio ev s of None \<Rightarrow> None | Some s \<Rightarrow> qrun n prio evs s)"

lemma qrun_reachable: "reachable n prio q0 s \<Longrightarrow> qrun n prio evs s = Some s' \<Longrightarrow> reachable n prio q0 s'"
  by (induction evs arbitrary: s) (auto split: option.splits intro: reachable.step)

text \<open>Two tasks that wait on an empty queue, then a handler that sends an item.\<close>

definition two_receivers :: "event list" where
  "two_receivers = [Start 0 ApiReceive True, Start 1 ApiReceive True] @ replicate 9 (Step 0 False) @ replicate 9 (Step 1 False) @ [IsrSend [7]]"

lemma two_receivers_run:
  "\<exists>s. qrun 2 (\<lambda>_. 1) two_receivers (qsys_init (new_queue 2 1)) = Some s \<and> pcs s 0 = Loop ApiReceive True \<and>
     pcs s 1 = Blocked ApiReceive \<and> owner s = None \<and> uxMessagesWaiting (queue s) = 1 \<and> sent s = [[7]]"
  by (simp add: two_receivers_def eval_nat_numeral task_step_def receive_critical_def new_queue_def qsys_init_def prvLockQueue_def
    prvIsQueueEmpty_def unlock_tx_def unlock_rx_def vTaskPlaceOnEventList_def xQueueGenericSendFromISR_def prvCopyDataToQueue_def wake_receiver_def
    xTaskRemoveFromEventList_def ready_opt_def ready_def goto_def)

lemma new_queue_fresh: "0 < n \<Longrightarrow> fresh_queue (new_queue n sz)"
  using new_queue_ok [of n sz] by (simp add: fresh_queue_def) (simp add: new_queue_def)

text \<open>
  C4: Whatever the interleaving of any number of tasks that send and receive, with or without waiting and with any time-outs, and of interrupt
  handlers that do, the items received are the items sent, in their order, but for those still in the queue, which
  are at most its length: none is lost, doubled or overtaken.
\<close>
theorem queue_tasks_fifo:
  assumes "reachable n prio q0 s" and "fresh_queue q0"
  shows "sent s = got s @ items (queue s) \<and> length (items (queue s)) \<le> uxLength q0"
proof -
  have "ring_inv s" using reachable_inv [OF assms] by (simp add: sys_inv_def base_inv_def)
  moreover have "uxLength (queue s) = uxLength q0" using reachable_sized [OF assms(1)] by (simp add: sized_def)
  ultimately show ?thesis by (auto simp: ring_inv_def queue_ok_def)
qed

theorem queue_tasks_fifo_witness:
  "\<exists>s. reachable 2 (\<lambda>_. 1) (new_queue 2 1) s \<and> sent s = [[7]] \<and> sent s = got s @ items (queue s)"
proof -
  obtain s where s: "qrun 2 (\<lambda>_. 1) two_receivers (qsys_init (new_queue 2 1)) = Some s" "sent s = [[7]]"
    using two_receivers_run by blast
  have "reachable 2 (\<lambda>_. 1) (new_queue 2 1) s" by (rule qrun_reachable [OF reachable.init s(1)])
  then show ?thesis using queue_tasks_fifo [of 2 "\<lambda>_. 1" "new_queue 2 1" s] new_queue_fresh [of 2 1] s(2) by auto
qed

text \<open>Tasks at the head of their loop, which look at the queue at their next step.\<close>

definition lookers :: "nat \<Rightarrow> side \<Rightarrow> qsys \<Rightarrow> nat set" where
  "lookers n d s = {t. t < n \<and> (\<exists>a w. pcs s t = Loop a w \<and> side_of a = d)}"

lemma credit_running: "\<not> suspended c \<Longrightarrow> credit d ws t c \<longleftrightarrow> (\<exists>a w. c = Loop a w \<and> side_of a = d)"
  by (cases "(d, ws, t, c)" rule: credit.cases) auto

lemma credits_lookers:
  assumes "base_inv n s" and "owner s = None"
  shows "credits n d s = card (lookers n d s)"
proof -
  have "\<not> suspended (pcs s t)" for t using assms by (simp add: base_inv_def owner_inv_def)
  then have "credit d (waiting d (queue s)) t (pcs s t) \<longleftrightarrow> (\<exists>a w. pcs s t = Loop a w \<and> side_of a = d)" for t
    by (rule credit_running)
  then show ?thesis by (simp add: credits_def lookers_def)
qed

text \<open>
  C5: No wake-up is lost. While the scheduler runs, the locks are open, a task that sleeps in a call is on the event list of its side, and if something is
  there for it (an item for a receiver, a place for a sender), as many tasks of its side as there are items or places are awake at the head of
  their loop and will take them: a task never sleeps beside an item or a place that nobody is about to take.
\<close>
theorem queue_no_lost_wakeup:
  assumes "reachable n prio q0 s" and "fresh_queue q0" and "owner s = None" and "pcs s t = Blocked a"
  shows "t \<in> set (waiting (side_of a) (queue s)) \<and> cTxLock (queue s) = queueUNLOCKED \<and> cRxLock (queue s) = queueUNLOCKED \<and>
    (case a of ApiSend m \<Rightarrow> uxLength q0 - length (items (queue s)) \<le> card (lookers n Senders s)
     | ApiReceive \<Rightarrow> length (items (queue s)) \<le> card (lookers n Receivers s))"
proof -
  have i: "sys_inv n s" by (rule reachable_inv [OF assms(1,2)])
  then have b: "base_inv n s" and e: "enough n (side_of a) 0 s" by (simp_all add: sys_inv_def)
  have w: "t \<in> set (waiting (side_of a) (queue s))" using b assms(4) by (simp add: base_inv_def lists_inv_def)
  have "t < n" using b w by (auto simp: base_inv_def lists_inv_def)
  have "\<not> suspended (pcs s t)" using assms(4) by simp
  note u = unlocked_when_none [OF i this disjI1 [OF assms(3)]]
  have "avail (side_of a) (queue s) \<le> card (lookers n (side_of a) s)"
    using e w \<open>t < n\<close> u(4) credits_lookers [OF b assms(3)] by (auto simp: enough_def)
  moreover have "uxLength (queue s) = uxLength q0" using reachable_sized [OF assms(1)] by (simp add: sized_def)
  ultimately show ?thesis using w u by (cases a) (simp_all add: avail_def)
qed

theorem queue_no_lost_wakeup_witness:
  "\<exists>s. qrun 2 (\<lambda>_. 1) two_receivers (qsys_init (new_queue 2 1)) = Some s \<and> pcs s 1 = Blocked ApiReceive \<and>
     length (items (queue s)) = 1 \<and> 1 \<le> card (lookers 2 Receivers s)"
proof -
  obtain s where s: "qrun 2 (\<lambda>_. 1) two_receivers (qsys_init (new_queue 2 1)) = Some s" "pcs s 1 = Blocked ApiReceive"
    "owner s = None" "uxMessagesWaiting (queue s) = 1" using two_receivers_run by blast
  have "reachable 2 (\<lambda>_. 1) (new_queue 2 1) s" by (rule qrun_reachable [OF reachable.init s(1)])
  then show ?thesis using queue_no_lost_wakeup [of 2 "\<lambda>_. 1" "new_queue 2 1" s 1 ApiReceive] new_queue_fresh [of 2 1] s by auto
qed

end
