(* ===== verification/Rtos_Tasks.thy ===== *)
theory Rtos_Tasks
  imports Rtos_List "HOL-Library.Monad_Syntax"
begin

text \<open>
  The scheduler of the kernel (\<^verbatim>\<open>middlewares/freertos/source/tasks.c\<close>) on the kernel lists of \<open>Rtos_List\<close>: the choice of
  the running task, the tick, delays, suspension, events, priorities and their inheritance, notifications. A task control block is its
  number. \<open>None\<close> is an assertion that fails or a null pointer that is followed. A function that blocks is cut where the
  context switch can happen. Tracing, run-time statistics, stack checks and thread-local storage are left out. The switch itself is a
  flag, \<open>pendsv\<close>, set by a yield and cleared when the handler of \<^verbatim>\<open>port.c\<close> runs.
\<close>

section \<open>The state\<close>

datatype list_id = Ready u32 | Delayed1 | Delayed2 | PendingReady | SuspendedTasks | WaitingTermination | EventsOf nat

datatype item_id = StateItem nat | EventItem nat

type_synonym klists = "(list_id, item_id) lstore"

record kernel =
  lists :: klists
  uxPriority :: "nat \<Rightarrow> u32"
  uxBasePriority :: "nat \<Rightarrow> u32"
  uxMutexesHeld :: "nat \<Rightarrow> u32"
  ucNotifyState :: "nat \<Rightarrow> u8"
  ulNotifiedValue :: "nat \<Rightarrow> u32"
  pxCurrentTCB :: "nat option"
  pxDelayedTaskList :: list_id
  pxOverflowDelayedTaskList :: list_id
  uxDeletedTasksWaitingCleanUp :: u32
  uxCurrentNumberOfTasks :: u32
  xTickCount :: u32
  uxTopReadyPriority :: u32
  xSchedulerRunning :: bool
  xPendedTicks :: u32
  xYieldPending :: bool
  xNumOfOverflows :: u32
  xNextTaskUnblockTime :: u32
  uxSchedulerSuspended :: u32
  pendsv :: bool

definition configMAX_PRIORITIES :: u32 where "configMAX_PRIORITIES = 32"
definition taskEVENT_LIST_ITEM_VALUE_IN_USE :: u32 where "taskEVENT_LIST_ITEM_VALUE_IN_USE = 0x80000000"
definition taskNOT_WAITING_NOTIFICATION :: u8 where "taskNOT_WAITING_NOTIFICATION = 0"
definition taskWAITING_NOTIFICATION :: u8 where "taskWAITING_NOTIFICATION = 1"
definition taskNOTIFICATION_RECEIVED :: u8 where "taskNOTIFICATION_RECEIVED = 2"

definition configASSERT :: "bool \<Rightarrow> unit option" where
  "configASSERT x = (if x then Some () else None)"

section \<open>The macros of the lists\<close>

definition listLIST_IS_EMPTY :: "klists \<Rightarrow> list_id \<Rightarrow> bool" where
  "listLIST_IS_EMPTY ls l \<longleftrightarrow> uxNumberOfItems ls l = 0"

definition listREMOVE_ITEM :: "klists \<Rightarrow> item_id \<Rightarrow> klists option" where
  "listREMOVE_ITEM ls i = map_option fst (uxListRemove ls i)"

definition listSET_LIST_ITEM_VALUE :: "klists \<Rightarrow> item_id \<Rightarrow> u32 \<Rightarrow> klists" where
  "listSET_LIST_ITEM_VALUE ls i v = ls\<lparr>xItemValue := (xItemValue ls)(ItemOf i := v)\<rparr>"

fun owner_of_node :: "klists \<Rightarrow> (list_id, item_id) node \<Rightarrow> nat option" where
  "owner_of_node ls (EndOf l) = None"
| "owner_of_node ls (ItemOf i) = pvOwner ls i"

definition listGET_OWNER_OF_HEAD_ENTRY :: "klists \<Rightarrow> list_id \<Rightarrow> nat option" where
  "listGET_OWNER_OF_HEAD_ENTRY ls l = owner_of_node ls (pxNext ls (EndOf l))"

definition listGET_OWNER_OF_NEXT_ENTRY :: "klists \<Rightarrow> list_id \<Rightarrow> klists \<times> nat option" where
  "listGET_OWNER_OF_NEXT_ENTRY ls l =
    (let idx = pxNext ls (pxIndex ls l);
         idx = (if idx = EndOf l then pxNext ls (EndOf l) else idx)
     in (ls\<lparr>pxIndex := (pxIndex ls)(l := idx)\<rparr>, owner_of_node ls idx))"

definition remove_event_item :: "klists \<Rightarrow> nat \<Rightarrow> klists option" where
  "remove_event_item ls t = (if pxContainer ls (EventItem t) \<noteq> None then listREMOVE_ITEM ls (EventItem t) else Some ls)"

definition yield_if_higher :: "nat \<Rightarrow> kernel \<Rightarrow> kernel option" where
  "yield_if_higher t s =
    do { c \<leftarrow> pxCurrentTCB s; Some (if uxPriority s c < uxPriority s t then s\<lparr>pendsv := True\<rparr> else s) }"

section \<open>Choosing the running task\<close>

definition prvAddTaskToReadyList :: "nat \<Rightarrow> kernel \<Rightarrow> kernel" where
  "prvAddTaskToReadyList t s =
    s\<lparr>uxTopReadyPriority := (if uxPriority s t > uxTopReadyPriority s then uxPriority s t else uxTopReadyPriority s),
      lists := vListInsertEnd (lists s) (Ready (uxPriority s t)) (StateItem t)\<rparr>"

function select_priority :: "klists \<Rightarrow> u32 \<Rightarrow> u32 option" where
  "select_priority ls p =
    (if listLIST_IS_EMPTY ls (Ready p) then (if p = 0 then None else select_priority ls (p - 1)) else Some p)"
  by pat_completeness auto

termination
proof (relation "measure (\<lambda>(ls, p). unat p)", goal_cases)
  case (2 ls p)
  then have "1 \<le> p" by (simp add: word_le_nat_alt unat_gt_0 Suc_le_eq)
  then show ?case by (simp add: unat_sub word_le_nat_alt)
qed simp

declare select_priority.simps [simp del]

definition taskSELECT_HIGHEST_PRIORITY_TASK :: "kernel \<Rightarrow> kernel option" where
  "taskSELECT_HIGHEST_PRIORITY_TASK s =
    do { p \<leftarrow> select_priority (lists s) (uxTopReadyPriority s);
         case listGET_OWNER_OF_NEXT_ENTRY (lists s) (Ready p) of
           (ls, t) \<Rightarrow> Some (s\<lparr>lists := ls, pxCurrentTCB := t, uxTopReadyPriority := p\<rparr>) }"

definition vTaskSwitchContext :: "kernel \<Rightarrow> kernel option" where
  "vTaskSwitchContext s =
    (if uxSchedulerSuspended s \<noteq> 0 then Some (s\<lparr>xYieldPending := True\<rparr>)
     else taskSELECT_HIGHEST_PRIORITY_TASK (s\<lparr>xYieldPending := False\<rparr>))"

definition vPortYield :: "kernel \<Rightarrow> kernel" where
  "vPortYield s = s\<lparr>pendsv := True\<rparr>"

definition PendSV_Handler :: "kernel \<Rightarrow> kernel option" where
  "PendSV_Handler s = vTaskSwitchContext (s\<lparr>pendsv := False\<rparr>)"

section \<open>Time\<close>

definition prvResetNextTaskUnblockTime :: "kernel \<Rightarrow> kernel" where
  "prvResetNextTaskUnblockTime s =
    s\<lparr>xNextTaskUnblockTime :=
        (if listLIST_IS_EMPTY (lists s) (pxDelayedTaskList s) then portMAX_DELAY
         else xItemValue (lists s) (pxNext (lists s) (EndOf (pxDelayedTaskList s))))\<rparr>"

definition taskSWITCH_DELAYED_LISTS :: "kernel \<Rightarrow> kernel option" where
  "taskSWITCH_DELAYED_LISTS s =
    do { configASSERT (listLIST_IS_EMPTY (lists s) (pxDelayedTaskList s));
         Some (prvResetNextTaskUnblockTime
           (s\<lparr>pxDelayedTaskList := pxOverflowDelayedTaskList s, pxOverflowDelayedTaskList := pxDelayedTaskList s,
              xNumOfOverflows := xNumOfOverflows s + 1\<rparr>)) }"

text \<open>The tasks whose time has come; \<open>sw\<close> says whether one of them has a higher priority than the running task.\<close>

partial_function (option) unblock_loop :: "u32 \<Rightarrow> bool \<Rightarrow> kernel \<Rightarrow> (bool \<times> kernel) option" where
  "unblock_loop xConstTickCount sw s =
    (if listLIST_IS_EMPTY (lists s) (pxDelayedTaskList s) then Some (sw, s\<lparr>xNextTaskUnblockTime := portMAX_DELAY\<rparr>)
     else
       do { t \<leftarrow> listGET_OWNER_OF_HEAD_ENTRY (lists s) (pxDelayedTaskList s);
            let v = xItemValue (lists s) (ItemOf (StateItem t));
            if xConstTickCount < v then Some (sw, s\<lparr>xNextTaskUnblockTime := v\<rparr>)
            else
              do { ls \<leftarrow> listREMOVE_ITEM (lists s) (StateItem t);
                   ls \<leftarrow> remove_event_item ls t;
                   c \<leftarrow> pxCurrentTCB s;
                   unblock_loop xConstTickCount (if uxPriority s t > uxPriority s c then True else sw)
                     (prvAddTaskToReadyList t (s\<lparr>lists := ls\<rparr>)) } })"

definition xTaskIncrementTick :: "kernel \<Rightarrow> (bool \<times> kernel) option" where
  "xTaskIncrementTick s =
    (if uxSchedulerSuspended s = 0 then
       (let xConstTickCount = xTickCount s + 1; s = s\<lparr>xTickCount := xConstTickCount\<rparr> in
        do { s \<leftarrow> (if xConstTickCount = 0 then taskSWITCH_DELAYED_LISTS s else Some s);
             (sw, s) \<leftarrow> (if xConstTickCount \<ge> xNextTaskUnblockTime s then unblock_loop xConstTickCount False s else Some (False, s));
             Some (if xYieldPending s then True else sw, s) })
     else Some (False, s\<lparr>xPendedTicks := xPendedTicks s + 1\<rparr>))"

definition SysTick_Handler :: "kernel \<Rightarrow> kernel option" where
  "SysTick_Handler s = do { (sw, s) \<leftarrow> xTaskIncrementTick s; Some (if sw then s\<lparr>pendsv := True\<rparr> else s) }"

definition prvAddCurrentTaskToDelayedList :: "u32 \<Rightarrow> bool \<Rightarrow> kernel \<Rightarrow> kernel option" where
  "prvAddCurrentTaskToDelayedList xTicksToWait xCanBlockIndefinitely s =
    do { c \<leftarrow> pxCurrentTCB s;
         ls \<leftarrow> listREMOVE_ITEM (lists s) (StateItem c);
         if xTicksToWait = portMAX_DELAY \<and> xCanBlockIndefinitely
         then Some (s\<lparr>lists := vListInsertEnd ls SuspendedTasks (StateItem c)\<rparr>)
         else
           (let xTimeToWake = xTickCount s + xTicksToWait; ls = listSET_LIST_ITEM_VALUE ls (StateItem c) xTimeToWake in
            if xTimeToWake < xTickCount s
            then do { ls \<leftarrow> vListInsert ls (pxOverflowDelayedTaskList s) (StateItem c); Some (s\<lparr>lists := ls\<rparr>) }
            else do { ls \<leftarrow> vListInsert ls (pxDelayedTaskList s) (StateItem c);
                      Some (s\<lparr>lists := ls,
                              xNextTaskUnblockTime := (if xTimeToWake < xNextTaskUnblockTime s then xTimeToWake else xNextTaskUnblockTime s)\<rparr>) }) }"

section \<open>Suspending the scheduler\<close>

definition vTaskSuspendAll :: "kernel \<Rightarrow> kernel" where
  "vTaskSuspendAll s = s\<lparr>uxSchedulerSuspended := uxSchedulerSuspended s + 1\<rparr>"

text \<open>The tasks made ready by interrupts in the meantime; the flag says whether there was one.\<close>

partial_function (option) pending_loop :: "bool \<Rightarrow> kernel \<Rightarrow> (bool \<times> kernel) option" where
  "pending_loop any s =
    (if listLIST_IS_EMPTY (lists s) PendingReady then Some (any, s)
     else
       do { t \<leftarrow> listGET_OWNER_OF_HEAD_ENTRY (lists s) PendingReady;
            ls \<leftarrow> listREMOVE_ITEM (lists s) (EventItem t);
            ls \<leftarrow> listREMOVE_ITEM ls (StateItem t);
            c \<leftarrow> pxCurrentTCB s;
            let s = prvAddTaskToReadyList t (s\<lparr>lists := ls\<rparr>);
            pending_loop True (if uxPriority s t > uxPriority s c then s\<lparr>xYieldPending := True\<rparr> else s) })"

text \<open>The ticks that came in the meantime.\<close>

fun replay_ticks :: "nat \<Rightarrow> kernel \<Rightarrow> kernel option" where
  "replay_ticks 0 s = Some s"
| "replay_ticks (Suc n) s =
    do { (sw, s) \<leftarrow> xTaskIncrementTick s; replay_ticks n (if sw then s\<lparr>xYieldPending := True\<rparr> else s) }"

definition xTaskResumeAll :: "kernel \<Rightarrow> (bool \<times> kernel) option" where
  "xTaskResumeAll s =
    do { configASSERT (uxSchedulerSuspended s \<noteq> 0);
         let s = s\<lparr>uxSchedulerSuspended := uxSchedulerSuspended s - 1\<rparr>;
         if uxSchedulerSuspended s = 0 \<and> uxCurrentNumberOfTasks s > 0
         then
           do { (any, s) \<leftarrow> pending_loop False s;
                let s = (if any then prvResetNextTaskUnblockTime s else s);
                s \<leftarrow> (if xPendedTicks s > 0
                      then map_option (\<lambda>s. s\<lparr>xPendedTicks := 0\<rparr>) (replay_ticks (unat (xPendedTicks s)) s) else Some s);
                Some (if xYieldPending s then (True, vPortYield s) else (False, s)) }
         else Some (False, s) }"

section \<open>Delays\<close>

text \<open>A delay runs in three parts: until the scheduler is suspended and the task in its list, then the resumption.\<close>

definition yield_unless :: "bool \<times> kernel \<Rightarrow> kernel" where
  "yield_unless r = (if fst r then snd r else vPortYield (snd r))"

definition delay_block :: "u32 \<Rightarrow> kernel \<Rightarrow> kernel option" where
  "delay_block xTicksToDelay s =
    do { let s = vTaskSuspendAll s;
         configASSERT (uxSchedulerSuspended s = 1);
         prvAddCurrentTaskToDelayedList xTicksToDelay False s }"

definition vTaskDelay :: "u32 \<Rightarrow> kernel \<Rightarrow> kernel option" where
  "vTaskDelay xTicksToDelay s =
    (if xTicksToDelay > 0
     then do { s \<leftarrow> delay_block xTicksToDelay s; r \<leftarrow> xTaskResumeAll s; Some (yield_unless r) }
     else Some (vPortYield s))"

text \<open>Whether to delay: the wake time lies ahead, with the clock or the wake time wrapped around or not.\<close>

definition delay_until_due :: "u32 \<Rightarrow> u32 \<Rightarrow> u32 \<Rightarrow> bool" where
  "delay_until_due now prev wake =
    (if now < prev then wake < prev \<and> wake > now else wake < prev \<or> wake > now)"

definition xTaskDelayUntil :: "u32 \<Rightarrow> u32 \<Rightarrow> kernel \<Rightarrow> (bool \<times> u32 \<times> kernel) option" where
  "xTaskDelayUntil pxPreviousWakeTime xTimeIncrement s =
    do { configASSERT (xTimeIncrement > 0);
         let s = vTaskSuspendAll s;
         configASSERT (uxSchedulerSuspended s = 1);
         let xTimeToWake = pxPreviousWakeTime + xTimeIncrement;
         let xShouldDelay = delay_until_due (xTickCount s) pxPreviousWakeTime xTimeToWake;
         s \<leftarrow> (if xShouldDelay then prvAddCurrentTaskToDelayedList (xTimeToWake - xTickCount s) False s else Some s);
         r \<leftarrow> xTaskResumeAll s;
         Some (xShouldDelay, xTimeToWake, yield_unless r) }"

section \<open>Events\<close>

definition vTaskPlaceOnEventList :: "nat \<Rightarrow> u32 \<Rightarrow> kernel \<Rightarrow> kernel option" where
  "vTaskPlaceOnEventList e xTicksToWait s =
    do { c \<leftarrow> pxCurrentTCB s;
         ls \<leftarrow> vListInsert (lists s) (EventsOf e) (EventItem c);
         prvAddCurrentTaskToDelayedList xTicksToWait True (s\<lparr>lists := ls\<rparr>) }"

definition vTaskPlaceOnUnorderedEventList :: "nat \<Rightarrow> u32 \<Rightarrow> u32 \<Rightarrow> kernel \<Rightarrow> kernel option" where
  "vTaskPlaceOnUnorderedEventList e v xTicksToWait s =
    do { configASSERT (uxSchedulerSuspended s \<noteq> 0);
         c \<leftarrow> pxCurrentTCB s;
         let ls = listSET_LIST_ITEM_VALUE (lists s) (EventItem c) (v OR taskEVENT_LIST_ITEM_VALUE_IN_USE);
         prvAddCurrentTaskToDelayedList xTicksToWait True (s\<lparr>lists := vListInsertEnd ls (EventsOf e) (EventItem c)\<rparr>) }"

definition vTaskPlaceOnEventListRestricted :: "nat \<Rightarrow> u32 \<Rightarrow> bool \<Rightarrow> kernel \<Rightarrow> kernel option" where
  "vTaskPlaceOnEventListRestricted e xTicksToWait xWaitIndefinitely s =
    do { c \<leftarrow> pxCurrentTCB s;
         prvAddCurrentTaskToDelayedList (if xWaitIndefinitely then portMAX_DELAY else xTicksToWait) xWaitIndefinitely
           (s\<lparr>lists := vListInsertEnd (lists s) (EventsOf e) (EventItem c)\<rparr>) }"

definition xTaskRemoveFromEventList :: "nat \<Rightarrow> kernel \<Rightarrow> (bool \<times> kernel) option" where
  "xTaskRemoveFromEventList e s =
    do { t \<leftarrow> listGET_OWNER_OF_HEAD_ENTRY (lists s) (EventsOf e);
         ls \<leftarrow> listREMOVE_ITEM (lists s) (EventItem t);
         s \<leftarrow> (if uxSchedulerSuspended s = 0
               then do { ls \<leftarrow> listREMOVE_ITEM ls (StateItem t); Some (prvAddTaskToReadyList t (s\<lparr>lists := ls\<rparr>)) }
               else Some (s\<lparr>lists := vListInsertEnd ls PendingReady (EventItem t)\<rparr>));
         c \<leftarrow> pxCurrentTCB s;
         Some (if uxPriority s t > uxPriority s c then (True, s\<lparr>xYieldPending := True\<rparr>) else (False, s)) }"

definition vTaskRemoveFromUnorderedEventList :: "item_id \<Rightarrow> u32 \<Rightarrow> kernel \<Rightarrow> kernel option" where
  "vTaskRemoveFromUnorderedEventList i v s =
    do { configASSERT (uxSchedulerSuspended s \<noteq> 0);
         let ls = listSET_LIST_ITEM_VALUE (lists s) i (v OR taskEVENT_LIST_ITEM_VALUE_IN_USE);
         t \<leftarrow> pvOwner ls i;
         ls \<leftarrow> listREMOVE_ITEM ls i;
         ls \<leftarrow> listREMOVE_ITEM ls (StateItem t);
         let s = prvAddTaskToReadyList t (s\<lparr>lists := ls\<rparr>);
         c \<leftarrow> pxCurrentTCB s;
         Some (if uxPriority s t > uxPriority s c then s\<lparr>xYieldPending := True\<rparr> else s) }"

definition uxTaskResetEventItemValue :: "kernel \<Rightarrow> (u32 \<times> kernel) option" where
  "uxTaskResetEventItemValue s =
    do { c \<leftarrow> pxCurrentTCB s;
         Some (xItemValue (lists s) (ItemOf (EventItem c)),
               s\<lparr>lists := listSET_LIST_ITEM_VALUE (lists s) (EventItem c) (configMAX_PRIORITIES - uxPriority s c)\<rparr>) }"

definition vTaskMissedYield :: "kernel \<Rightarrow> kernel" where
  "vTaskMissedYield s = s\<lparr>xYieldPending := True\<rparr>"

section \<open>Time-outs\<close>

record TimeOut =
  xOverflowCount :: u32
  xTimeOnEntering :: u32

definition vTaskInternalSetTimeOutState :: "kernel \<Rightarrow> TimeOut" where
  "vTaskInternalSetTimeOutState s = \<lparr>xOverflowCount = xNumOfOverflows s, xTimeOnEntering = xTickCount s\<rparr>"

definition xTaskCheckForTimeOut :: "kernel \<Rightarrow> TimeOut \<Rightarrow> u32 \<Rightarrow> bool \<times> TimeOut \<times> u32" where
  "xTaskCheckForTimeOut s pxTimeOut pxTicksToWait =
    (let xElapsedTime = xTickCount s - xTimeOnEntering pxTimeOut in
     if pxTicksToWait = portMAX_DELAY then (False, pxTimeOut, pxTicksToWait)
     else if xNumOfOverflows s \<noteq> xOverflowCount pxTimeOut \<and> xTickCount s \<ge> xTimeOnEntering pxTimeOut
     then (True, pxTimeOut, 0)
     else if xElapsedTime < pxTicksToWait
     then (False, vTaskInternalSetTimeOutState s, pxTicksToWait - xElapsedTime)
     else (True, pxTimeOut, 0))"

section \<open>Tasks\<close>

text \<open>The fields of a new task that the scheduler looks at.\<close>

definition prvInitialiseNewTask :: "nat \<Rightarrow> u32 \<Rightarrow> kernel \<Rightarrow> kernel option" where
  "prvInitialiseNewTask t p s =
    do { configASSERT (p < configMAX_PRIORITIES);
         let ls = vListInitialiseItem (vListInitialiseItem (lists s) (StateItem t)) (EventItem t);
         let ls = ls\<lparr>pvOwner := (pvOwner ls)(StateItem t := Some t, EventItem t := Some t)\<rparr>;
         Some (s\<lparr>uxPriority := (uxPriority s)(t := p), uxBasePriority := (uxBasePriority s)(t := p), uxMutexesHeld := (uxMutexesHeld s)(t := 0),
                 ulNotifiedValue := (ulNotifiedValue s)(t := 0), ucNotifyState := (ucNotifyState s)(t := taskNOT_WAITING_NOTIFICATION),
                 lists := listSET_LIST_ITEM_VALUE ls (EventItem t) (configMAX_PRIORITIES - p)\<rparr>) }"

definition ready_priorities :: "u32 list" where
  "ready_priorities = map of_nat [0..<32]"

definition prvInitialiseTaskLists :: "kernel \<Rightarrow> kernel" where
  "prvInitialiseTaskLists s =
    s\<lparr>lists := foldl vListInitialise (lists s)
        (map Ready ready_priorities @ [Delayed1, Delayed2, PendingReady, WaitingTermination, SuspendedTasks]),
      pxDelayedTaskList := Delayed1, pxOverflowDelayedTaskList := Delayed2\<rparr>"

definition prvAddNewTaskToReadyList :: "nat \<Rightarrow> kernel \<Rightarrow> kernel option" where
  "prvAddNewTaskToReadyList t s =
    (let s = s\<lparr>uxCurrentNumberOfTasks := uxCurrentNumberOfTasks s + 1\<rparr>;
         s = (case pxCurrentTCB s of
                None \<Rightarrow> (let s = s\<lparr>pxCurrentTCB := Some t\<rparr> in if uxCurrentNumberOfTasks s = 1 then prvInitialiseTaskLists s else s)
              | Some c \<Rightarrow> (if \<not> xSchedulerRunning s \<and> uxPriority s c \<le> uxPriority s t then s\<lparr>pxCurrentTCB := Some t\<rparr> else s));
         s = prvAddTaskToReadyList t s
     in if xSchedulerRunning s then yield_if_higher t s else Some s)"

definition xTaskCreate :: "nat \<Rightarrow> u32 \<Rightarrow> kernel \<Rightarrow> kernel option" where
  "xTaskCreate t p s = do { s \<leftarrow> prvInitialiseNewTask t p s; prvAddNewTaskToReadyList t s }"

text \<open>The end of \<^verbatim>\<open>vTaskStartScheduler\<close>, once the idle task and the timer task have been created.\<close>

definition vTaskStartScheduler :: "kernel \<Rightarrow> kernel" where
  "vTaskStartScheduler s = s\<lparr>xNextTaskUnblockTime := portMAX_DELAY, xSchedulerRunning := True, xTickCount := 0\<rparr>"

text \<open>A null handle is the running task.\<close>

definition prvGetTCBFromHandle :: "nat option \<Rightarrow> kernel \<Rightarrow> nat option" where
  "prvGetTCBFromHandle h s = (if h = None then pxCurrentTCB s else h)"

definition vTaskDelete :: "nat option \<Rightarrow> kernel \<Rightarrow> kernel option" where
  "vTaskDelete h s =
    do { t \<leftarrow> prvGetTCBFromHandle h s;
         ls \<leftarrow> listREMOVE_ITEM (lists s) (StateItem t);
         ls \<leftarrow> remove_event_item ls t;
         let s = s\<lparr>lists := ls\<rparr>;
         let s = (if xSchedulerRunning s \<and> Some t = pxCurrentTCB s
                  then s\<lparr>lists := vListInsertEnd (lists s) WaitingTermination (StateItem t), uxDeletedTasksWaitingCleanUp := uxDeletedTasksWaitingCleanUp s + 1\<rparr>
                  else prvResetNextTaskUnblockTime (s\<lparr>uxCurrentNumberOfTasks := uxCurrentNumberOfTasks s - 1\<rparr>));
         if xSchedulerRunning s \<and> Some t = pxCurrentTCB s
         then do { configASSERT (uxSchedulerSuspended s = 0); Some (vPortYield s) } else Some s }"

text \<open>One round of the loop in the idle task that frees the tasks that deleted themselves.\<close>

definition prvCheckTasksWaitingTermination :: "kernel \<Rightarrow> kernel option" where
  "prvCheckTasksWaitingTermination s =
    (if uxDeletedTasksWaitingCleanUp s > 0
     then do { t \<leftarrow> listGET_OWNER_OF_HEAD_ENTRY (lists s) WaitingTermination;
               ls \<leftarrow> listREMOVE_ITEM (lists s) (StateItem t);
               Some (s\<lparr>lists := ls, uxCurrentNumberOfTasks := uxCurrentNumberOfTasks s - 1,
                       uxDeletedTasksWaitingCleanUp := uxDeletedTasksWaitingCleanUp s - 1\<rparr>) }
     else Some s)"

definition vTaskSuspend :: "nat option \<Rightarrow> kernel \<Rightarrow> kernel option" where
  "vTaskSuspend h s =
    do { t \<leftarrow> prvGetTCBFromHandle h s;
         ls \<leftarrow> listREMOVE_ITEM (lists s) (StateItem t);
         ls \<leftarrow> remove_event_item ls t;
         let s = s\<lparr>lists := vListInsertEnd ls SuspendedTasks (StateItem t),
                   ucNotifyState := (if ucNotifyState s t = taskWAITING_NOTIFICATION
                                     then (ucNotifyState s)(t := taskNOT_WAITING_NOTIFICATION) else ucNotifyState s)\<rparr>;
         let s = (if xSchedulerRunning s then prvResetNextTaskUnblockTime s else s);
         if Some t = pxCurrentTCB s
         then if xSchedulerRunning s then do { configASSERT (uxSchedulerSuspended s = 0); Some (vPortYield s) }
              else if uxNumberOfItems (lists s) SuspendedTasks = uxCurrentNumberOfTasks s then Some (s\<lparr>pxCurrentTCB := None\<rparr>)
              else vTaskSwitchContext s
         else Some s }"

definition prvTaskIsTaskSuspended :: "nat \<Rightarrow> kernel \<Rightarrow> bool" where
  "prvTaskIsTaskSuspended t s \<longleftrightarrow>
    pxContainer (lists s) (StateItem t) = Some SuspendedTasks \<and> pxContainer (lists s) (EventItem t) \<noteq> Some PendingReady \<and>
    pxContainer (lists s) (EventItem t) = None \<and> ucNotifyState s t \<noteq> taskWAITING_NOTIFICATION"

definition vTaskResume :: "nat \<Rightarrow> kernel \<Rightarrow> kernel option" where
  "vTaskResume t s =
    (if Some t \<noteq> pxCurrentTCB s \<and> prvTaskIsTaskSuspended t s
     then do { ls \<leftarrow> listREMOVE_ITEM (lists s) (StateItem t); yield_if_higher t (prvAddTaskToReadyList t (s\<lparr>lists := ls\<rparr>)) }
     else Some s)"

definition xTaskResumeFromISR :: "nat \<Rightarrow> kernel \<Rightarrow> (bool \<times> kernel) option" where
  "xTaskResumeFromISR t s =
    (if prvTaskIsTaskSuspended t s
     then if uxSchedulerSuspended s = 0
          then do { c \<leftarrow> pxCurrentTCB s;
                    let sw = (uxPriority s t > uxPriority s c);
                    ls \<leftarrow> listREMOVE_ITEM (lists s) (StateItem t);
                    Some (sw, prvAddTaskToReadyList t (s\<lparr>xYieldPending := (if sw then True else xYieldPending s), lists := ls\<rparr>)) }
          else Some (False, s\<lparr>lists := vListInsertEnd (lists s) PendingReady (EventItem t)\<rparr>)
     else Some (False, s))"

datatype eTaskState = eRunning | eReady | eBlocked | eSuspended | eDeleted | eInvalid

definition eTaskGetState :: "nat \<Rightarrow> kernel \<Rightarrow> eTaskState" where
  "eTaskGetState t s =
    (let state_list = pxContainer (lists s) (StateItem t); event_list = pxContainer (lists s) (EventItem t) in
     if Some t = pxCurrentTCB s then eRunning
     else if event_list = Some PendingReady then eReady
     else if state_list = Some (pxDelayedTaskList s) \<or> state_list = Some (pxOverflowDelayedTaskList s) then eBlocked
     else if state_list = Some SuspendedTasks
     then (if event_list = None then (if ucNotifyState s t = taskWAITING_NOTIFICATION then eBlocked else eSuspended) else eBlocked)
     else if state_list = Some WaitingTermination \<or> state_list = None then eDeleted
     else eReady)"

section \<open>Priorities\<close>

text \<open>The event item keeps its value when it is in use for an event group.\<close>

definition set_event_priority :: "nat \<Rightarrow> u32 \<Rightarrow> klists \<Rightarrow> klists" where
  "set_event_priority t p ls =
    (if xItemValue ls (ItemOf (EventItem t)) AND taskEVENT_LIST_ITEM_VALUE_IN_USE = 0
     then listSET_LIST_ITEM_VALUE ls (EventItem t) (configMAX_PRIORITIES - p) else ls)"

text \<open>A task in the ready list of the priority \<open>p\<close> moves to the list of its new priority.\<close>

definition requeue_ready :: "nat \<Rightarrow> u32 \<Rightarrow> kernel \<Rightarrow> kernel option" where
  "requeue_ready t p s =
    (if pxContainer (lists s) (StateItem t) = Some (Ready p)
     then do { ls \<leftarrow> listREMOVE_ITEM (lists s) (StateItem t); Some (prvAddTaskToReadyList t (s\<lparr>lists := ls\<rparr>)) }
     else Some s)"

definition vTaskPrioritySet :: "nat option \<Rightarrow> u32 \<Rightarrow> kernel \<Rightarrow> kernel option" where
  "vTaskPrioritySet h uxNewPriority s =
    do { configASSERT (uxNewPriority < configMAX_PRIORITIES);
         t \<leftarrow> prvGetTCBFromHandle h s;
         if uxBasePriority s t \<noteq> uxNewPriority
         then do { c \<leftarrow> pxCurrentTCB s;
                   let xYieldRequired = (if uxNewPriority > uxBasePriority s t then t \<noteq> c \<and> uxNewPriority > uxPriority s c else t = c);
                   let uxPriorityUsedOnEntry = uxPriority s t;
                   let s = s\<lparr>uxPriority := (if uxBasePriority s t = uxPriority s t \<or> uxNewPriority > uxPriority s t
                                            then (uxPriority s)(t := uxNewPriority) else uxPriority s),
                             uxBasePriority := (uxBasePriority s)(t := uxNewPriority),
                             lists := set_event_priority t uxNewPriority (lists s)\<rparr>;
                   s \<leftarrow> requeue_ready t uxPriorityUsedOnEntry s;
                   Some (if xYieldRequired then vPortYield s else s) }
         else Some s }"

definition uxTaskPriorityGet :: "nat option \<Rightarrow> kernel \<Rightarrow> u32 option" where
  "uxTaskPriorityGet h s = map_option (uxPriority s) (prvGetTCBFromHandle h s)"

definition pvTaskIncrementMutexHeldCount :: "kernel \<Rightarrow> nat option \<times> kernel" where
  "pvTaskIncrementMutexHeldCount s =
    (pxCurrentTCB s,
     case pxCurrentTCB s of Some c \<Rightarrow> s\<lparr>uxMutexesHeld := (uxMutexesHeld s)(c := uxMutexesHeld s c + 1)\<rparr> | None \<Rightarrow> s)"

definition xTaskPriorityInherit :: "nat option \<Rightarrow> kernel \<Rightarrow> (bool \<times> kernel) option" where
  "xTaskPriorityInherit pxMutexHolder s =
    (case pxMutexHolder of
       None \<Rightarrow> Some (False, s)
     | Some m \<Rightarrow>
         do { c \<leftarrow> pxCurrentTCB s;
              if uxPriority s m < uxPriority s c
              then
                do { let s = s\<lparr>lists := set_event_priority m (uxPriority s c) (lists s)\<rparr>;
                     let p = uxPriority s m;
                     s \<leftarrow> requeue_ready m p (s\<lparr>uxPriority := (uxPriority s)(m := uxPriority s c)\<rparr>);
                     Some (True, s) }
              else Some (uxBasePriority s m < uxPriority s c, s) })"

definition xTaskPriorityDisinherit :: "nat option \<Rightarrow> kernel \<Rightarrow> (bool \<times> kernel) option" where
  "xTaskPriorityDisinherit pxMutexHolder s =
    (case pxMutexHolder of
       None \<Rightarrow> Some (False, s)
     | Some t \<Rightarrow>
         do { configASSERT (Some t = pxCurrentTCB s);
              configASSERT (uxMutexesHeld s t \<noteq> 0);
              let s = s\<lparr>uxMutexesHeld := (uxMutexesHeld s)(t := uxMutexesHeld s t - 1)\<rparr>;
              if uxPriority s t \<noteq> uxBasePriority s t \<and> uxMutexesHeld s t = 0
              then do { ls \<leftarrow> listREMOVE_ITEM (lists s) (StateItem t);
                        let s = s\<lparr>uxPriority := (uxPriority s)(t := uxBasePriority s t)\<rparr>;
                        Some (True, prvAddTaskToReadyList t
                          (s\<lparr>lists := listSET_LIST_ITEM_VALUE ls (EventItem t) (configMAX_PRIORITIES - uxPriority s t)\<rparr>)) }
              else Some (False, s) })"

definition vTaskPriorityDisinheritAfterTimeout :: "nat option \<Rightarrow> u32 \<Rightarrow> kernel \<Rightarrow> kernel option" where
  "vTaskPriorityDisinheritAfterTimeout pxMutexHolder uxHighestPriorityWaitingTask s =
    (case pxMutexHolder of
       None \<Rightarrow> Some s
     | Some t \<Rightarrow>
         do { configASSERT (uxMutexesHeld s t \<noteq> 0);
              let p = (if uxBasePriority s t < uxHighestPriorityWaitingTask then uxHighestPriorityWaitingTask else uxBasePriority s t);
              if uxPriority s t \<noteq> p \<and> uxMutexesHeld s t = 1
              then do { configASSERT (Some t \<noteq> pxCurrentTCB s);
                        let uxPriorityUsedOnEntry = uxPriority s t;
                        requeue_ready t uxPriorityUsedOnEntry
                          (s\<lparr>uxPriority := (uxPriority s)(t := p), lists := set_event_priority t p (lists s)\<rparr>) }
              else Some s })"

section \<open>Notifications\<close>

datatype eNotifyAction = eNoAction | eSetBits | eIncrement | eSetValueWithOverwrite | eSetValueWithoutOverwrite

text \<open>What a notification does to the value; whether it is taken. The state is the one before.\<close>

definition notify_value :: "eNotifyAction \<Rightarrow> u8 \<Rightarrow> u32 \<Rightarrow> u32 \<Rightarrow> bool \<times> u32" where
  "notify_value a state ulValue v =
    (case a of
       eSetBits \<Rightarrow> (True, v OR ulValue)
     | eIncrement \<Rightarrow> (True, v + 1)
     | eSetValueWithOverwrite \<Rightarrow> (True, ulValue)
     | eSetValueWithoutOverwrite \<Rightarrow> (if state \<noteq> taskNOTIFICATION_RECEIVED then (True, ulValue) else (False, v))
     | eNoAction \<Rightarrow> (True, v))"

definition set_notification :: "nat \<Rightarrow> u32 \<Rightarrow> kernel \<Rightarrow> kernel" where
  "set_notification t v s =
    s\<lparr>ucNotifyState := (ucNotifyState s)(t := taskNOTIFICATION_RECEIVED), ulNotifiedValue := (ulNotifiedValue s)(t := v)\<rparr>"

definition xTaskGenericNotify :: "nat \<Rightarrow> u32 \<Rightarrow> eNotifyAction \<Rightarrow> kernel \<Rightarrow> (bool \<times> u32 \<times> kernel) option" where
  "xTaskGenericNotify t ulValue eAction s =
    (let previous = ulNotifiedValue s t; state = ucNotifyState s t; r = notify_value eAction state ulValue previous;
         s = set_notification t (snd r) s
     in if state = taskWAITING_NOTIFICATION
        then do { ls \<leftarrow> listREMOVE_ITEM (lists s) (StateItem t);
                  let s = prvAddTaskToReadyList t (s\<lparr>lists := ls\<rparr>);
                  configASSERT (pxContainer (lists s) (EventItem t) = None);
                  s \<leftarrow> yield_if_higher t s;
                  Some (fst r, previous, s) }
        else Some (fst r, previous, s))"

text \<open>From an interrupt: the flag says whether a task of a higher priority was woken.\<close>

definition notify_from_isr :: "nat \<Rightarrow> u32 \<Rightarrow> kernel \<Rightarrow> (bool \<times> kernel) option" where
  "notify_from_isr t v s =
    (let state = ucNotifyState s t; s = set_notification t v s
     in if state = taskWAITING_NOTIFICATION
        then do { configASSERT (pxContainer (lists s) (EventItem t) = None);
                  s \<leftarrow> (if uxSchedulerSuspended s = 0
                        then do { ls \<leftarrow> listREMOVE_ITEM (lists s) (StateItem t); Some (prvAddTaskToReadyList t (s\<lparr>lists := ls\<rparr>)) }
                        else Some (s\<lparr>lists := vListInsertEnd (lists s) PendingReady (EventItem t)\<rparr>));
                  c \<leftarrow> pxCurrentTCB s;
                  Some (if uxPriority s t > uxPriority s c then (True, s\<lparr>xYieldPending := True\<rparr>) else (False, s)) }
        else Some (False, s))"

definition xTaskGenericNotifyFromISR :: "nat \<Rightarrow> u32 \<Rightarrow> eNotifyAction \<Rightarrow> kernel \<Rightarrow> (bool \<times> u32 \<times> bool \<times> kernel) option" where
  "xTaskGenericNotifyFromISR t ulValue eAction s =
    (let r = notify_value eAction (ucNotifyState s t) ulValue (ulNotifiedValue s t)
     in map_option (\<lambda>(woken, s'). (fst r, ulNotifiedValue s t, woken, s')) (notify_from_isr t (snd r) s))"

definition vTaskGenericNotifyGiveFromISR :: "nat \<Rightarrow> kernel \<Rightarrow> (bool \<times> kernel) option" where
  "vTaskGenericNotifyGiveFromISR t s = notify_from_isr t (ulNotifiedValue s t + 1) s"

text \<open>Waiting for a notification: up to the switch, and after it.\<close>

definition notify_take_block :: "u32 \<Rightarrow> kernel \<Rightarrow> kernel option" where
  "notify_take_block xTicksToWait s =
    do { c \<leftarrow> pxCurrentTCB s;
         if ulNotifiedValue s c = 0 \<and> xTicksToWait > 0
         then
           do { let s = vTaskSuspendAll s;
                let xShouldBlock = (ulNotifiedValue s c = 0);
                s \<leftarrow> (if xShouldBlock
                      then prvAddCurrentTaskToDelayedList xTicksToWait True (s\<lparr>ucNotifyState := (ucNotifyState s)(c := taskWAITING_NOTIFICATION)\<rparr>)
                      else Some s);
                r \<leftarrow> xTaskResumeAll s;
                Some (if xShouldBlock then yield_unless r else snd r) }
         else Some s }"

definition notify_take_finish :: "bool \<Rightarrow> kernel \<Rightarrow> (u32 \<times> kernel) option" where
  "notify_take_finish xClearCountOnExit s =
    do { c \<leftarrow> pxCurrentTCB s;
         let v = ulNotifiedValue s c;
         Some (v, s\<lparr>ulNotifiedValue := (if v \<noteq> 0 then (ulNotifiedValue s)(c := (if xClearCountOnExit then 0 else v - 1)) else ulNotifiedValue s),
                    ucNotifyState := (ucNotifyState s)(c := taskNOT_WAITING_NOTIFICATION)\<rparr>) }"

definition notify_wait_block :: "u32 \<Rightarrow> u32 \<Rightarrow> kernel \<Rightarrow> kernel option" where
  "notify_wait_block ulBitsToClearOnEntry xTicksToWait s =
    do { c \<leftarrow> pxCurrentTCB s;
         if ucNotifyState s c \<noteq> taskNOTIFICATION_RECEIVED \<and> xTicksToWait > 0
         then
           do { let s = vTaskSuspendAll s;
                let xShouldBlock = (ucNotifyState s c \<noteq> taskNOTIFICATION_RECEIVED);
                s \<leftarrow> (if xShouldBlock
                      then prvAddCurrentTaskToDelayedList xTicksToWait True
                        (s\<lparr>ulNotifiedValue := (ulNotifiedValue s)(c := ulNotifiedValue s c AND NOT ulBitsToClearOnEntry),
                           ucNotifyState := (ucNotifyState s)(c := taskWAITING_NOTIFICATION)\<rparr>)
                      else Some s);
                r \<leftarrow> xTaskResumeAll s;
                Some (if xShouldBlock then yield_unless r else snd r) }
         else Some s }"

definition notify_wait_finish :: "u32 \<Rightarrow> kernel \<Rightarrow> (bool \<times> u32 \<times> kernel) option" where
  "notify_wait_finish ulBitsToClearOnExit s =
    do { c \<leftarrow> pxCurrentTCB s;
         let received = (ucNotifyState s c = taskNOTIFICATION_RECEIVED);
         Some (received, ulNotifiedValue s c,
           s\<lparr>ulNotifiedValue := (if received then (ulNotifiedValue s)(c := ulNotifiedValue s c AND NOT ulBitsToClearOnExit) else ulNotifiedValue s),
             ucNotifyState := (ucNotifyState s)(c := taskNOT_WAITING_NOTIFICATION)\<rparr>) }"

definition xTaskGenericNotifyStateClear :: "nat option \<Rightarrow> kernel \<Rightarrow> (bool \<times> kernel) option" where
  "xTaskGenericNotifyStateClear h s =
    do { t \<leftarrow> prvGetTCBFromHandle h s;
         Some (if ucNotifyState s t = taskNOTIFICATION_RECEIVED
               then (True, s\<lparr>ucNotifyState := (ucNotifyState s)(t := taskNOT_WAITING_NOTIFICATION)\<rparr>) else (False, s)) }"

definition ulTaskGenericNotifyValueClear :: "nat option \<Rightarrow> u32 \<Rightarrow> kernel \<Rightarrow> (u32 \<times> kernel) option" where
  "ulTaskGenericNotifyValueClear h ulBitsToClear s =
    do { t \<leftarrow> prvGetTCBFromHandle h s;
         Some (ulNotifiedValue s t, s\<lparr>ulNotifiedValue := (ulNotifiedValue s)(t := ulNotifiedValue s t AND NOT ulBitsToClear)\<rparr>) }"

end
