(* ===== verification/Rtos_Sched.thy ===== *)
theory Rtos_Sched
  imports Rtos_Tasks
begin

text \<open>
  What the scheduler of \<open>Rtos_Tasks\<close> guarantees. The lists are described by the container of each item; an invariant
  of the kernel is kept by every call, and from it follow the absence of failed assertions, the choice of the running task, and the time of a wake-up.
\<close>

section \<open>The lists as containers\<close>

abbreviation timed :: "list_id \<Rightarrow> bool" where
  "timed l \<equiv> l = Delayed1 \<or> l = Delayed2"

text \<open>Every list is well linked; the delayed lists are in the order of their wake times.\<close>

definition lists_wf :: "klists \<Rightarrow> bool" where
  "lists_wf ls \<longleftrightarrow> (\<forall>l. \<exists>xs. dll ls l xs \<and> (timed l \<longrightarrow> sorted (map (item_key ls) xs)))"

lemma lists_wf_dll:
  assumes "lists_wf ls"
  obtains xs where "dll ls l xs" "timed l \<longrightarrow> sorted (map (item_key ls) xs)" "set xs = {i. pxContainer ls i = Some l}" "distinct xs"
    "uxNumberOfItems ls l = of_nat (length xs)"
proof -
  obtain xs where xs: "dll ls l xs" "timed l \<longrightarrow> sorted (map (item_key ls) xs)" using assms unfolding lists_wf_def by blast
  have "set xs = {i. pxContainer ls i = Some l}" using xs(1) unfolding dll_def by blast
  moreover have "distinct xs" "uxNumberOfItems ls l = of_nat (length xs)" using xs(1) unfolding dll_def by blast+
  ultimately show thesis using that xs by blast
qed

lemma unlink_owner: "uxListRemove ls i = Some (ls', n) \<Longrightarrow> pvOwner ls' = pvOwner ls"
  by (auto simp: uxListRemove_def Let_def split: option.splits)

lemma unlink_count: "uxListRemove ls i = Some (ls', n) \<Longrightarrow> pxContainer ls i = Some l \<Longrightarrow>
    uxNumberOfItems ls' = (uxNumberOfItems ls)(l := uxNumberOfItems ls l - 1)"
  by (auto simp: uxListRemove_def Let_def split: option.splits)

lemma remove_wf:
  assumes w: "lists_wf ls" and c: "pxContainer ls i = Some l"
  shows "\<exists>ls' n. uxListRemove ls i = Some (ls', n) \<and> lists_wf ls' \<and> pxContainer ls' = (pxContainer ls)(i := None) \<and>
    xItemValue ls' = xItemValue ls \<and> pvOwner ls' = pvOwner ls \<and> uxNumberOfItems ls' = (uxNumberOfItems ls)(l := uxNumberOfItems ls l - 1)"
proof -
  obtain xs where xs: "dll ls l xs" "timed l \<longrightarrow> sorted (map (item_key ls) xs)" "set xs = {i. pxContainer ls i = Some l}" by (rule lists_wf_dll [OF w])
  then obtain as bs where ab: "xs = as @ i # bs" using c split_list [of i xs] by auto
  obtain ls' n where r: "uxListRemove ls i = Some (ls', n)" "dll ls' l (as @ bs)" "xItemValue ls' = xItemValue ls" "pxContainer ls' = (pxContainer ls)(i := None)"
    using uxListRemove_dll [of ls l as i bs] xs(1) ab by auto
  have "\<exists>ys. dll ls' k ys \<and> (timed k \<longrightarrow> sorted (map (item_key ls') ys))" for k
  proof (cases "k = l")
    case True
    then show ?thesis using r(2,3) xs(2) ab by (intro exI [of _ "as @ bs"]) (auto simp: sorted_append)
  next
    case False
    obtain ys where ys: "dll ls k ys" "timed k \<longrightarrow> sorted (map (item_key ls) ys)" by (rule lists_wf_dll [OF w])
    have "dll ls' k ys" by (rule uxListRemove_other [of ls l as i bs k ys ls' n]) (use xs(1) ab ys False r(1) in auto)
    then show ?thesis using ys(2) r(3) by auto
  qed
  then show ?thesis using r unlink_owner [OF r(1)] unlink_count [OF r(1) c] by (auto simp: lists_wf_def)
qed

lemma insert_after_owner: "pvOwner (insert_after ls l i n) = pvOwner ls"
  by (simp add: insert_after_def Let_def)

lemma insert_end_wf:
  assumes w: "lists_wf ls" and c: "pxContainer ls i = None" and l: "\<not> timed l"
  shows "lists_wf (vListInsertEnd ls l i) \<and> pxContainer (vListInsertEnd ls l i) = (pxContainer ls)(i := Some l) \<and>
    xItemValue (vListInsertEnd ls l i) = xItemValue ls \<and> pvOwner (vListInsertEnd ls l i) = pvOwner ls \<and>
    uxNumberOfItems (vListInsertEnd ls l i) = (uxNumberOfItems ls)(l := uxNumberOfItems ls l + 1)"
proof -
  obtain xs where xs: "dll ls l xs" "set xs = {i. pxContainer ls i = Some l}" by (rule lists_wf_dll [OF w])
  have "pxIndex ls l \<in> insert (EndOf l) (ItemOf ` set xs)" using xs(1) by (simp add: dll_def)
  then obtain as bs where ab: "xs = as @ bs" "pxIndex ls l = seg_first bs (EndOf l)"
  proof (cases "pxIndex ls l = EndOf l")
    case False
    then obtain x where "x \<in> set xs" "pxIndex ls l = ItemOf x" using \<open>pxIndex ls l \<in> _\<close> by auto
    then show thesis using that split_list [of x xs] by fastforce
  qed (use that [of xs "[]"] in auto)
  have i: "i \<notin> set (as @ bs)" using xs(2) ab(1) c by auto
  have lk: "linked ls (EndOf l) (as @ bs) (EndOf l)" using xs(1) ab(1) by (simp add: dll_def)
  have e: "vListInsertEnd ls l i = insert_after ls l i (seg_last (EndOf l) as)"
    by (rule vListInsertEnd_is_insert_after [OF lk i ab(2)])
  have d: "dll ls l (as @ bs)" using xs(1) ab(1) by simp
  have "\<exists>ys. dll (vListInsertEnd ls l i) k ys \<and> (timed k \<longrightarrow> sorted (map (item_key (vListInsertEnd ls l i)) ys))" for k
  proof (cases "k = l")
    case True
    then show ?thesis using insert_after_dll [OF d c] l e by auto
  next
    case False
    obtain ys where ys: "dll ls k ys" "timed k \<longrightarrow> sorted (map (item_key ls) ys)" by (rule lists_wf_dll [OF w])
    have "dll (vListInsertEnd ls l i) k ys" unfolding e by (rule insert_after_other [OF d ys(1) False c])
    then show ?thesis using ys(2) by (auto simp: e state_simps)
  qed
  then show ?thesis by (auto simp: lists_wf_def e state_simps insert_after_owner)
qed

lemma insert_wf:
  assumes w: "lists_wf ls" and c: "pxContainer ls i = None"
  shows "\<exists>ls'. vListInsert ls l i = Some ls' \<and> lists_wf ls' \<and> pxContainer ls' = (pxContainer ls)(i := Some l) \<and>
    xItemValue ls' = xItemValue ls \<and> pvOwner ls' = pvOwner ls \<and> uxNumberOfItems ls' = (uxNumberOfItems ls)(l := uxNumberOfItems ls l + 1)"
proof -
  obtain xs where xs: "dll ls l xs" "timed l \<longrightarrow> sorted (map (item_key ls) xs)" by (rule lists_wf_dll [OF w])
  obtain ls' where s': "vListInsert ls l i = Some ls'" "dll ls' l (insert_key (item_key ls) i xs)" "xItemValue ls' = xItemValue ls"
    using vListInsert_dll [OF xs(1) c] by blast
  obtain as bs where ab: "xs = as @ bs" "ls' = insert_after ls l i (seg_last (EndOf l) as)" using vListInsert_position [OF xs(1) s'(1)] by blast
  have d: "dll ls l (as @ bs)" using xs(1) ab(1) by simp
  have "\<exists>ys. dll ls' k ys \<and> (timed k \<longrightarrow> sorted (map (item_key ls') ys))" for k
  proof (cases "k = l")
    case True
    then show ?thesis using s'(2,3) xs(2) sorted_insert_key by metis
  next
    case False
    obtain ys where ys: "dll ls k ys" "timed k \<longrightarrow> sorted (map (item_key ls) ys)" by (rule lists_wf_dll [OF w])
    have "dll ls' k ys" unfolding ab(2) by (rule insert_after_other [OF d ys(1) False c])
    then show ?thesis using ys(2) s'(3) by auto
  qed
  then show ?thesis using s'(1,3) ab(2) by (auto simp: lists_wf_def state_simps insert_after_owner)
qed

text \<open>The value of an item may change while the item is in no delayed list.\<close>

lemma set_value_dll: "dll (listSET_LIST_ITEM_VALUE ls i v) l xs = dll ls l xs"
proof -
  have "linked (listSET_LIST_ITEM_VALUE ls i v) p xs r = linked ls p xs r" for p r
    by (rule linked_cong) (simp_all add: listSET_LIST_ITEM_VALUE_def)
  then show ?thesis by (simp add: dll_def listSET_LIST_ITEM_VALUE_def)
qed

lemma set_value_simps [simp]:
  "pxContainer (listSET_LIST_ITEM_VALUE ls i v) = pxContainer ls" "pvOwner (listSET_LIST_ITEM_VALUE ls i v) = pvOwner ls"
  "uxNumberOfItems (listSET_LIST_ITEM_VALUE ls i v) = uxNumberOfItems ls"
  "xItemValue (listSET_LIST_ITEM_VALUE ls i v) = (xItemValue ls)(ItemOf i := v)"
  "pxNext (listSET_LIST_ITEM_VALUE ls i v) = pxNext ls"
  by (simp_all add: listSET_LIST_ITEM_VALUE_def)

lemma set_value_wf:
  assumes w: "lists_wf ls" and c: "\<And>l. timed l \<Longrightarrow> pxContainer ls i \<noteq> Some l"
  shows "lists_wf (listSET_LIST_ITEM_VALUE ls i v)"
  unfolding lists_wf_def
proof
  fix l
  obtain xs where xs: "dll ls l xs" "timed l \<longrightarrow> sorted (map (item_key ls) xs)" "set xs = {i. pxContainer ls i = Some l}" by (rule lists_wf_dll [OF w])
  have "map (item_key (listSET_LIST_ITEM_VALUE ls i v)) xs = map (item_key ls) xs" if "timed l"
    using xs(3) c that by (intro map_cong) auto
  then show "\<exists>xs. dll (listSET_LIST_ITEM_VALUE ls i v) l xs \<and> (timed l \<longrightarrow> sorted (map (item_key (listSET_LIST_ITEM_VALUE ls i v)) xs))"
    using xs by (intro exI [of _ xs]) (metis set_value_dll)
qed

section \<open>Items in their lists\<close>

fun item_task :: "item_id \<Rightarrow> nat" where
  "item_task (StateItem t) = t"
| "item_task (EventItem t) = t"

text \<open>The lists for state items and those for event items.\<close>

fun fits :: "item_id \<Rightarrow> list_id \<Rightarrow> bool" where
  "fits (StateItem t) l \<longleftrightarrow> (case l of Ready p \<Rightarrow> p < 32 | PendingReady \<Rightarrow> False | EventsOf e \<Rightarrow> False | _ \<Rightarrow> True)"
| "fits (EventItem t) l \<longleftrightarrow> (case l of PendingReady \<Rightarrow> True | EventsOf e \<Rightarrow> True | _ \<Rightarrow> False)"

text \<open>A control block lies in memory, so there are fewer than \<open>2\<^sup>3\<^sup>0\<close> of them.\<close>

definition owned :: "klists \<Rightarrow> nat \<Rightarrow> bool" where
  "owned ls t \<longleftrightarrow> pvOwner ls (StateItem t) = Some t \<and> pvOwner ls (EventItem t) = Some t \<and> t < 2 ^ 30"

definition klists_ok :: "klists \<Rightarrow> bool" where
  "klists_ok ls \<longleftrightarrow> lists_wf ls \<and> (\<forall>i l. pxContainer ls i = Some l \<longrightarrow> fits i l \<and> owned ls (item_task i))"

lemma owned_cong: "pvOwner ls' = pvOwner ls \<Longrightarrow> owned ls' t = owned ls t"
  by (simp add: owned_def)

lemma owned_owner: "owned ls t \<Longrightarrow> item_task i = t \<Longrightarrow> pvOwner ls i = Some t"
  by (cases i) (auto simp: owned_def)

text \<open>What the operations on lists leave alone.\<close>

definition same_items :: "klists \<Rightarrow> klists \<Rightarrow> bool" where
  "same_items ls' ls \<longleftrightarrow> xItemValue ls' = xItemValue ls \<and> pvOwner ls' = pvOwner ls"

lemma same_items_simps:
  "same_items ls' ls \<Longrightarrow> xItemValue ls' = xItemValue ls" "same_items ls' ls \<Longrightarrow> owned ls' t = owned ls t"
  "same_items ls' ls \<Longrightarrow> pvOwner ls' = pvOwner ls"
  by (simp_all add: same_items_def owned_def)

lemma klists_fits: "klists_ok ls \<Longrightarrow> pxContainer ls i = Some l \<Longrightarrow> fits i l"
  by (simp add: klists_ok_def)

lemma klists_owned: "klists_ok ls \<Longrightarrow> pxContainer ls i = Some l \<Longrightarrow> owned ls (item_task i)"
  by (simp add: klists_ok_def)

lemma klists_remove:
  assumes "klists_ok ls" "pxContainer ls i = Some l"
  obtains ls' where "listREMOVE_ITEM ls i = Some ls'" "klists_ok ls'" "pxContainer ls' = (pxContainer ls)(i := None)" "same_items ls' ls"
    "uxNumberOfItems ls' = (uxNumberOfItems ls)(l := uxNumberOfItems ls l - 1)"
proof -
  obtain ls' n where r: "uxListRemove ls i = Some (ls', n)" "lists_wf ls'" "pxContainer ls' = (pxContainer ls)(i := None)"
    "xItemValue ls' = xItemValue ls" "pvOwner ls' = pvOwner ls" "uxNumberOfItems ls' = (uxNumberOfItems ls)(l := uxNumberOfItems ls l - 1)"
    using remove_wf [of ls i l] assms by (auto simp: klists_ok_def)
  have "klists_ok ls'" using assms(1) r(2,3,5) by (auto simp: klists_ok_def owned_def split: if_splits)
  then show thesis using that [of ls'] r by (simp add: listREMOVE_ITEM_def same_items_def)
qed

lemma klists_insert_end:
  assumes "klists_ok ls" "pxContainer ls i = None" "\<not> timed l" "fits i l" "owned ls (item_task i)"
  shows "klists_ok (vListInsertEnd ls l i)" "pxContainer (vListInsertEnd ls l i) = (pxContainer ls)(i := Some l)"
    "same_items (vListInsertEnd ls l i) ls" "uxNumberOfItems (vListInsertEnd ls l i) = (uxNumberOfItems ls)(l := uxNumberOfItems ls l + 1)"
proof -
  note r = insert_end_wf [OF _ assms(2,3)]
  have w: "lists_wf ls" using assms(1) by (simp add: klists_ok_def)
  show "pxContainer (vListInsertEnd ls l i) = (pxContainer ls)(i := Some l)" "same_items (vListInsertEnd ls l i) ls"
    "uxNumberOfItems (vListInsertEnd ls l i) = (uxNumberOfItems ls)(l := uxNumberOfItems ls l + 1)"
    using r [OF w] by (simp_all add: same_items_def)
  show "klists_ok (vListInsertEnd ls l i)" using r [OF w] assms by (auto simp: klists_ok_def owned_def)
qed

lemma klists_insert:
  assumes "klists_ok ls" "pxContainer ls i = None" "fits i l" "owned ls (item_task i)"
  obtains ls' where "vListInsert ls l i = Some ls'" "klists_ok ls'" "pxContainer ls' = (pxContainer ls)(i := Some l)" "same_items ls' ls"
    "uxNumberOfItems ls' = (uxNumberOfItems ls)(l := uxNumberOfItems ls l + 1)"
proof -
  have w: "lists_wf ls" using assms(1) by (simp add: klists_ok_def)
  obtain ls' where r: "vListInsert ls l i = Some ls'" "lists_wf ls'" "pxContainer ls' = (pxContainer ls)(i := Some l)"
    "xItemValue ls' = xItemValue ls" "pvOwner ls' = pvOwner ls" "uxNumberOfItems ls' = (uxNumberOfItems ls)(l := uxNumberOfItems ls l + 1)"
    using insert_wf [OF w assms(2), of l] by auto
  then show thesis using that [of ls'] assms by (auto simp: klists_ok_def owned_def same_items_def)
qed

lemma klists_set_value:
  assumes "klists_ok ls" "\<And>l. timed l \<Longrightarrow> pxContainer ls i \<noteq> Some l"
  shows "klists_ok (listSET_LIST_ITEM_VALUE ls i v)"
  using assms set_value_wf [of ls i v] by (auto simp: klists_ok_def owned_def)

lemma klists_set_event_value: "klists_ok ls \<Longrightarrow> klists_ok (listSET_LIST_ITEM_VALUE ls (EventItem t) v)"
  by (rule klists_set_value) (auto dest: klists_fits)

section \<open>Heads and lengths\<close>

lemma list_length_bound:
  assumes "klists_ok ls" "dll ls l xs"
  shows "length xs < 2 ^ 32"
proof -
  have d: "distinct xs" "set xs = {i. pxContainer ls i = Some l}" using assms(2) unfolding dll_def by auto
  have "item_task ` set xs \<subseteq> {..<2 ^ 30}" using assms(1) d(2) by (auto simp: klists_ok_def owned_def)
  moreover have "inj_on item_task (set xs)"
  proof (rule inj_onI)
    fix i j assume ij: "i \<in> set xs" "j \<in> set xs" "item_task i = item_task j"
    then have "fits i l" "fits j l" using assms(1) d(2) by (auto simp: klists_ok_def)
    then show "i = j" using ij(3) by (cases i; cases j) (auto split: list_id.splits)
  qed
  ultimately have "card (set xs) \<le> card {..<2 ^ 30 :: nat}" using card_inj_on_le finite_lessThan by blast
  then show ?thesis using d(1) by (simp add: distinct_card)
qed

lemma is_empty:
  assumes "klists_ok ls"
  shows "listLIST_IS_EMPTY ls l \<longleftrightarrow> (\<forall>i. pxContainer ls i \<noteq> Some l)"
proof -
  obtain xs where xs: "dll ls l xs" "set xs = {i. pxContainer ls i = Some l}" "uxNumberOfItems ls l = of_nat (length xs)"
    using lists_wf_dll [of ls l] assms by (metis klists_ok_def)
  have "unat (of_nat (length xs) :: u32) = length xs"
    using list_length_bound [OF assms xs(1)] by (simp add: unat_of_nat take_bit_nat_eq_self)
  then have "(of_nat (length xs) :: u32) = 0 \<longleftrightarrow> xs = []"
    using unat_eq_zero [of "of_nat (length xs) :: u32"] by (simp only: length_0_conv)
  moreover have "xs = [] \<longleftrightarrow> (\<forall>i. pxContainer ls i \<noteq> Some l)" using xs(2) by (metis (mono_tags) Collect_empty_eq set_empty)
  ultimately show ?thesis unfolding listLIST_IS_EMPTY_def xs(3) by simp
qed

lemma head_of_list:
  assumes "klists_ok ls" "\<not> listLIST_IS_EMPTY ls l"
  obtains i where "pxNext ls (EndOf l) = ItemOf i" "pxContainer ls i = Some l" "pvOwner ls i = Some (item_task i)"
    "timed l \<Longrightarrow> \<forall>j. pxContainer ls j = Some l \<longrightarrow> item_key ls i \<le> item_key ls j"
proof -
  obtain xs where xs: "dll ls l xs" "timed l \<longrightarrow> sorted (map (item_key ls) xs)" "set xs = {i. pxContainer ls i = Some l}"
    using lists_wf_dll [of ls l] assms(1) by (metis klists_ok_def)
  obtain j where "pxContainer ls j = Some l" using assms(2) is_empty [OF assms(1)] by blast
  then have "xs \<noteq> []" using xs(3) by auto
  then obtain i ys where c: "xs = i # ys" by (cases xs) auto
  have n: "pxNext ls (EndOf l) = ItemOf i" using xs(1) c by (simp add: dll_def)
  have i: "pxContainer ls i = Some l" using xs(3) c by auto
  then have "pvOwner ls i = Some (item_task i)" using assms(1) owned_owner by (simp add: klists_ok_def)
  moreover have "\<forall>j. pxContainer ls j = Some l \<longrightarrow> item_key ls i \<le> item_key ls j" if "timed l"
  proof (intro allI impI)
    fix j assume "pxContainer ls j = Some l"
    then have "j \<in> set xs" using xs(3) by simp
    then show "item_key ls i \<le> item_key ls j" using xs(2) that c by auto
  qed
  ultimately show thesis using that n i by blast
qed

lemma head_owner: "pxNext ls (EndOf l) = ItemOf i \<Longrightarrow> listGET_OWNER_OF_HEAD_ENTRY ls l = pvOwner ls i"
  by (simp add: listGET_OWNER_OF_HEAD_ENTRY_def)


section \<open>The next entry\<close>

lemma index_dll:
  assumes "dll ls l xs" "x \<in> set xs"
  shows "dll (ls\<lparr>pxIndex := (pxIndex ls)(l := ItemOf x)\<rparr>) l xs"
proof -
  have "linked (ls\<lparr>pxIndex := (pxIndex ls)(l := ItemOf x)\<rparr>) p xs r = linked ls p xs r" for p r by (rule linked_cong) simp_all
  then show ?thesis using assms by (auto simp: dll_def)
qed

text \<open>The walk through a list: the item after the index, from the start again after the last.\<close>

lemma next_entry:
  assumes "klists_ok ls" "\<not> listLIST_IS_EMPTY ls l"
  obtains i ls' where "listGET_OWNER_OF_NEXT_ENTRY ls l = (ls', Some (item_task i))" "pxContainer ls i = Some l" "klists_ok ls'"
    "pxContainer ls' = pxContainer ls" "same_items ls' ls" "uxNumberOfItems ls' = uxNumberOfItems ls"
proof -
  obtain xs where xs: "dll ls l xs" "timed l \<longrightarrow> sorted (map (item_key ls) xs)" "set xs = {i. pxContainer ls i = Some l}"
    using lists_wf_dll [of ls l] assms(1) by (metis klists_ok_def)
  obtain j where "pxContainer ls j = Some l" using assms(2) is_empty [OF assms(1)] by blast
  then have ne: "xs \<noteq> []" using xs(3) by auto
  have ix: "pxIndex ls l \<in> insert (EndOf l) (ItemOf ` set xs)" and lk: "linked ls (EndOf l) xs (EndOf l)" using xs(1) by (auto simp: dll_def)
  define idx where "idx = (if pxNext ls (pxIndex ls l) = EndOf l then pxNext ls (EndOf l) else pxNext ls (pxIndex ls l))"
  have first: "pxNext ls (EndOf l) = ItemOf (hd xs)" using lk ne by (cases xs) auto
  have "\<exists>x \<in> set xs. idx = ItemOf x"
  proof (cases "pxIndex ls l = EndOf l")
    case True
    then show ?thesis using first ne by (auto simp: idx_def)
  next
    case False
    then obtain y where y: "y \<in> set xs" "pxIndex ls l = ItemOf y" using ix by auto
    then obtain as bs where "xs = as @ y # bs" using split_list by metis
    then have "pxNext ls (ItemOf y) = seg_first bs (EndOf l)" "set bs \<subseteq> set xs"
      using linked_first [of ls "ItemOf y" bs "EndOf l"] lk by (auto simp: linked_append)
    then show ?thesis using first ne y(2) by (cases bs) (auto simp: idx_def)
  qed
  then obtain x where x: "x \<in> set xs" "idx = ItemOf x" by blast
  define ls' where "ls' = ls\<lparr>pxIndex := (pxIndex ls)(l := idx)\<rparr>"
  have e: "listGET_OWNER_OF_NEXT_ENTRY ls l = (ls', pvOwner ls x)"
    by (simp add: listGET_OWNER_OF_NEXT_ENTRY_def Let_def idx_def [symmetric] ls'_def x(2))
  have c: "pxContainer ls x = Some l" using x(1) xs(3) by simp
  have "\<exists>ys. dll ls' k ys \<and> (timed k \<longrightarrow> sorted (map (item_key ls') ys))" for k
  proof (cases "k = l")
    case True
    then show ?thesis using index_dll [OF xs(1) x(1)] xs(2) x(2) by (auto simp: ls'_def)
  next
    case False
    obtain ys where ys: "dll ls k ys" "timed k \<longrightarrow> sorted (map (item_key ls) ys)" using lists_wf_dll [of ls k] assms(1) by (metis klists_ok_def)
    have "dll ls' k ys" by (rule dll_other [OF ys(1) False]) (use False in \<open>auto simp: ls'_def\<close>)
    then show ?thesis using ys(2) by (auto simp: ls'_def)
  qed
  then have w: "lists_wf ls'" by (simp add: lists_wf_def)
  have o: "pvOwner ls x = Some (item_task x)" using klists_owned [OF assms(1) c] owned_owner by blast
  have "klists_ok ls'" using w assms(1) by (auto simp: klists_ok_def ls'_def owned_def)
  then show thesis using that [of ls' x] e o c by (simp add: ls'_def same_items_def)
qed

section \<open>The invariant of the kernel\<close>

abbreviation at :: "kernel \<Rightarrow> item_id \<Rightarrow> list_id option" where
  "at s \<equiv> pxContainer (lists s)"

text \<open>A task that is neither free nor waiting for its end.\<close>

definition live :: "kernel \<Rightarrow> nat \<Rightarrow> bool" where
  "live s t \<longleftrightarrow> at s (StateItem t) \<noteq> None \<and> at s (StateItem t) \<noteq> Some WaitingTermination"

definition kernel_core :: "kernel \<Rightarrow> bool" where
  "kernel_core s \<longleftrightarrow>
     klists_ok (lists s) \<and>
     (\<forall>t. at s (EventItem t) \<noteq> None \<longrightarrow> at s (StateItem t) \<noteq> None \<and> at s (StateItem t) \<noteq> Some WaitingTermination) \<and>
     (\<forall>t. uxPriority s t < 32 \<and> uxBasePriority s t < 32 \<and> uxBasePriority s t \<le> uxPriority s t) \<and>
     (\<forall>t p. at s (StateItem t) = Some (Ready p) \<longrightarrow> uxPriority s t = p \<and> p \<le> uxTopReadyPriority s) \<and>
     (pxDelayedTaskList s = Delayed1 \<and> pxOverflowDelayedTaskList s = Delayed2 \<or>
      pxDelayedTaskList s = Delayed2 \<and> pxOverflowDelayedTaskList s = Delayed1) \<and>
     (\<forall>t. ucNotifyState s t = taskWAITING_NOTIFICATION \<and> at s (StateItem t) \<noteq> None \<longrightarrow> at s (EventItem t) = None) \<and>
     uxDeletedTasksWaitingCleanUp s = uxNumberOfItems (lists s) WaitingTermination \<and>
     pxCurrentTCB s \<noteq> None"

text \<open>The delayed tasks wake in the future, and none before the time at which the tick looks at them; those of the
  other list wake after the clock has wrapped around.\<close>

definition delays_ok :: "kernel \<Rightarrow> bool" where
  "delays_ok s \<longleftrightarrow>
     (\<forall>t. at s (StateItem t) = Some (pxDelayedTaskList s) \<longrightarrow>
        xTickCount s < item_key (lists s) (StateItem t) \<and> xNextTaskUnblockTime s \<le> item_key (lists s) (StateItem t)) \<and>
     (\<forall>t. at s (StateItem t) = Some (pxOverflowDelayedTaskList s) \<longrightarrow> item_key (lists s) (StateItem t) < xTickCount s)"

definition kernel_ok :: "kernel \<Rightarrow> bool" where
  "kernel_ok s \<longleftrightarrow> kernel_core s \<and> delays_ok s"

text \<open>No ready task has a higher priority than the running one, unless a switch is on its way.\<close>

definition well_scheduled :: "kernel \<Rightarrow> bool" where
  "well_scheduled s \<longleftrightarrow> pendsv s \<or> xYieldPending s \<or>
     (\<forall>t p. at s (StateItem t) = Some (Ready p) \<longrightarrow> p \<le> uxPriority s (the (pxCurrentTCB s)))"

definition task_ready :: "nat \<Rightarrow> kernel \<Rightarrow> bool" where
  "task_ready t s \<longleftrightarrow> (\<exists>p. at s (StateItem t) = Some (Ready p))"

text \<open>All that holds between two calls; the idle task is always ready.\<close>

definition kinv :: "nat \<Rightarrow> kernel \<Rightarrow> bool" where
  "kinv idle s \<longleftrightarrow> kernel_ok s \<and> well_scheduled s \<and> task_ready idle s"

lemmas kinv_defs = live_def kinv_def kernel_ok_def kernel_core_def delays_ok_def well_scheduled_def task_ready_def

lemma kernel_coreD:
  assumes "kernel_core s"
  shows "klists_ok (lists s)" "\<And>t. at s (EventItem t) \<noteq> None \<Longrightarrow> live s t" "\<And>t. uxPriority s t < 32" "\<And>t. uxBasePriority s t < 32"
    "\<And>t p. at s (StateItem t) = Some (Ready p) \<Longrightarrow> uxPriority s t = p" "\<And>t p. at s (StateItem t) = Some (Ready p) \<Longrightarrow> p \<le> uxTopReadyPriority s"
    "\<exists>c. pxCurrentTCB s = Some c" "timed (pxDelayedTaskList s)" "timed (pxOverflowDelayedTaskList s)" "pxDelayedTaskList s \<noteq> pxOverflowDelayedTaskList s"
  using assms by (auto simp: kernel_core_def live_def)

section \<open>Switching\<close>

lemma select_priority_found:
  assumes ok: "klists_ok ls" and t: "pxContainer ls (StateItem t) = Some (Ready q)" and "q \<le> p"
  shows "\<exists>r. select_priority ls p = Some r \<and> \<not> listLIST_IS_EMPTY ls (Ready r) \<and> q \<le> r \<and> r \<le> p \<and>
    (\<forall>r'. r < r' \<and> r' \<le> p \<longrightarrow> listLIST_IS_EMPTY ls (Ready r'))"
  using assms(3)
proof (induction "unat p" arbitrary: p)
  case 0
  then have "p = 0" "q = 0" by (simp_all add: unat_eq_zero)
  then show ?case using t by (subst select_priority.simps) (auto simp: is_empty [OF ok])
next
  case (Suc n)
  show ?case
  proof (cases "listLIST_IS_EMPTY ls (Ready p)")
    case False
    then show ?thesis using Suc(3) by (intro exI [of _ p]) (auto simp: select_priority.simps [of ls p])
  next
    case True
    then have "q \<noteq> p" using t by (auto simp: is_empty [OF ok])
    then have "q < p" using Suc(3) by simp
    then have p: "p \<noteq> 0" "q \<le> p - 1" "unat (p - 1) = n" using Suc(2) by (auto simp: word_le_nat_alt word_less_nat_alt unat_sub)
    obtain r where r: "select_priority ls (p - 1) = Some r" "\<not> listLIST_IS_EMPTY ls (Ready r)" "q \<le> r" "r \<le> p - 1"
      "\<forall>r'. r < r' \<and> r' \<le> p - 1 \<longrightarrow> listLIST_IS_EMPTY ls (Ready r')" using Suc(1) [OF p(3) [symmetric] p(2)] by blast
    have le: "x \<le> p - 1 \<longleftrightarrow> x < p" for x
      using Suc(2) p(3) by (simp add: word_le_nat_alt word_less_nat_alt less_Suc_eq_le flip: Suc(2))
    have "r < r' \<and> r' \<le> p \<longrightarrow> listLIST_IS_EMPTY ls (Ready r')" for r' using r(5) True le [of r'] by (cases "r' = p") auto
    then show ?thesis using r(1-4) True p(1) le [of r] by (intro exI [of _ r]) (auto simp: select_priority.simps [of ls p])
  qed
qed


lemma PendSV_ok:
  assumes k: "kinv idle s"
  shows "\<exists>s'. PendSV_Handler s = Some s' \<and> kinv idle s' \<and> \<not> pendsv s' \<and>
    (uxSchedulerSuspended s = 0 \<longrightarrow> (\<exists>c. pxCurrentTCB s' = Some c \<and> at s' (StateItem c) = Some (Ready (uxPriority s' c)) \<and> \<not> xYieldPending s' \<and>
       (\<forall>t. task_ready t s' \<longrightarrow> uxPriority s' t \<le> uxPriority s' c)))"
proof (cases "uxSchedulerSuspended s = 0")
  case False
  then show ?thesis using k by (auto simp: PendSV_Handler_def vTaskSwitchContext_def kinv_defs)
next
  case True
  have core: "kernel_core s" using k by (simp add: kinv_def kernel_ok_def)
  note c = kernel_coreD [OF core]
  obtain q where q: "at s (StateItem idle) = Some (Ready q)" using k by (auto simp: kinv_def task_ready_def)
  obtain r where r: "select_priority (lists s) (uxTopReadyPriority s) = Some r" "\<not> listLIST_IS_EMPTY (lists s) (Ready r)"
    "\<forall>r'. r < r' \<and> r' \<le> uxTopReadyPriority s \<longrightarrow> listLIST_IS_EMPTY (lists s) (Ready r')"
    using select_priority_found [OF c(1) q c(6) [OF q]] by blast
  obtain i ls' where n: "listGET_OWNER_OF_NEXT_ENTRY (lists s) (Ready r) = (ls', Some (item_task i))" "at s i = Some (Ready r)" "klists_ok ls'"
    "pxContainer ls' = at s" "same_items ls' (lists s)" "uxNumberOfItems ls' = uxNumberOfItems (lists s)" using next_entry [OF c(1) r(2)] .
  obtain t where i: "i = StateItem t" using klists_fits [OF c(1) n(2)] by (cases i) auto
  have top: "q' \<le> r" if "at s (StateItem t') = Some (Ready q')" for t' q'
    using r(3) c(6) [OF that] that by (metis is_empty [OF c(1)] linorder_not_le)
  define s' where "s' = s\<lparr>pendsv := False, xYieldPending := False, lists := ls', pxCurrentTCB := Some t, uxTopReadyPriority := r\<rparr>"
  have e: "PendSV_Handler s = Some s'"
    using True r(1) n(1) i by (simp add: PendSV_Handler_def vTaskSwitchContext_def taskSELECT_HIGHEST_PRIORITY_TASK_def s'_def)
  have p: "uxPriority s t = r" using c(5) n(2) i by simp
  have "kinv idle s'"
    using k n(3-6) top p by (auto simp: kinv_defs s'_def same_items_simps)
  moreover have "at s' (StateItem t) = Some (Ready (uxPriority s' t))" using n(2,4) i p by (simp add: s'_def)
  moreover have "\<forall>t. task_ready t s' \<longrightarrow> uxPriority s' t \<le> r"
    using top c(5) n(4) by (auto simp: task_ready_def s'_def)
  ultimately show ?thesis using e p by (auto simp: s'_def)
qed

section \<open>Making a task ready\<close>

definition top_with :: "kernel \<Rightarrow> nat \<Rightarrow> u32" where
  "top_with s t = (if uxPriority s t > uxTopReadyPriority s then uxPriority s t else uxTopReadyPriority s)"

lemma top_with_le: "uxPriority s t \<le> top_with s t" "uxTopReadyPriority s \<le> top_with s t"
  by (auto simp: top_with_def)

lemma add_ready:
  assumes "klists_ok (lists s)" "at s (StateItem t) = None" "owned (lists s) t" "uxPriority s t < 32"
  obtains ls' where "prvAddTaskToReadyList t s = s\<lparr>lists := ls', uxTopReadyPriority := top_with s t\<rparr>" "klists_ok ls'"
    "pxContainer ls' = (at s)(StateItem t := Some (Ready (uxPriority s t)))" "same_items ls' (lists s)"
    "uxNumberOfItems ls' WaitingTermination = uxNumberOfItems (lists s) WaitingTermination"
proof -
  note r = klists_insert_end [of "lists s" "StateItem t" "Ready (uxPriority s t)"]
  show thesis
    by (rule that [of "vListInsertEnd (lists s) (Ready (uxPriority s t)) (StateItem t)"])
      (use r assms in \<open>auto simp: prvAddTaskToReadyList_def top_with_def\<close>)
qed

text \<open>A task that leaves its list, and the list of an event it may wait for, to be ready.\<close>

lemma leave_lists:
  assumes "klists_ok ls" "pxContainer ls (StateItem t) = Some l"
  obtains ls1 ls' where "listREMOVE_ITEM ls (StateItem t) = Some ls1" "remove_event_item ls1 t = Some ls'" "klists_ok ls'"
    "pxContainer ls' = (pxContainer ls)(StateItem t := None, EventItem t := None)" "same_items ls' ls"
    "l \<noteq> WaitingTermination \<Longrightarrow> uxNumberOfItems ls' WaitingTermination = uxNumberOfItems ls WaitingTermination"
proof -
  obtain ls1 where r: "listREMOVE_ITEM ls (StateItem t) = Some ls1" "klists_ok ls1" "pxContainer ls1 = (pxContainer ls)(StateItem t := None)" "same_items ls1 ls"
    "uxNumberOfItems ls1 = (uxNumberOfItems ls)(l := uxNumberOfItems ls l - 1)" using klists_remove [OF assms] .
  show thesis
  proof (cases "pxContainer ls1 (EventItem t)")
    case None
    then have "pxContainer ls1 = (pxContainer ls)(StateItem t := None, EventItem t := None)" using r(3) by auto
    then show thesis using that [of ls1 ls1] None r by (auto simp: remove_event_item_def)
  next
    case (Some k)
    obtain ls' where e: "listREMOVE_ITEM ls1 (EventItem t) = Some ls'" "klists_ok ls'" "pxContainer ls' = (pxContainer ls1)(EventItem t := None)" "same_items ls' ls1"
      "uxNumberOfItems ls' = (uxNumberOfItems ls1)(k := uxNumberOfItems ls1 k - 1)" using klists_remove [OF r(2) Some] .
    have "k \<noteq> WaitingTermination" using klists_fits [OF r(2) Some] by auto
    then show thesis using that [of ls1 ls'] Some r e by (auto simp: remove_event_item_def same_items_def)
  qed
qed

section \<open>The tick\<close>

text \<open>The tasks that are due, where their items go, and what the loop over them leaves alone.\<close>

definition due :: "u32 \<Rightarrow> kernel \<Rightarrow> nat \<Rightarrow> bool" where
  "due now s t \<longleftrightarrow> at s (StateItem t) = Some (pxDelayedTaskList s) \<and> item_key (lists s) (StateItem t) \<le> now"

fun woken_at :: "u32 \<Rightarrow> kernel \<Rightarrow> item_id \<Rightarrow> list_id option" where
  "woken_at now s (StateItem t) = (if due now s t then Some (Ready (uxPriority s t)) else at s (StateItem t))"
| "woken_at now s (EventItem t) = (if due now s t then None else at s (EventItem t))"

definition unblocked :: "u32 \<Rightarrow> bool \<Rightarrow> kernel \<Rightarrow> bool \<Rightarrow> kernel \<Rightarrow> bool" where
  "unblocked now sw s sw' s' \<longleftrightarrow>
     (\<exists>ls tp nx. s' = s\<lparr>lists := ls, uxTopReadyPriority := tp, xNextTaskUnblockTime := nx\<rparr> \<and> uxTopReadyPriority s \<le> tp \<and>
        pxContainer ls = woken_at now s \<and> klists_ok ls \<and> same_items ls (lists s) \<and>
        uxNumberOfItems ls WaitingTermination = uxNumberOfItems (lists s) WaitingTermination \<and>
        (\<forall>t. due now s t \<longrightarrow> uxPriority s t \<le> tp) \<and>
        (\<forall>t. at s (StateItem t) = Some (pxDelayedTaskList s) \<and> \<not> due now s t \<longrightarrow> nx \<le> item_key (lists s) (StateItem t))) \<and>
     (sw' \<longleftrightarrow> sw \<or> (\<exists>t. due now s t \<and> uxPriority s t > uxPriority s (the (pxCurrentTCB s))))"

lemma unblockedI:
  assumes "s' = s\<lparr>lists := ls, uxTopReadyPriority := tp, xNextTaskUnblockTime := nx\<rparr>" "uxTopReadyPriority s \<le> tp"
    "pxContainer ls = woken_at now s" "klists_ok ls" "same_items ls (lists s)"
    "uxNumberOfItems ls WaitingTermination = uxNumberOfItems (lists s) WaitingTermination"
    "\<And>t. due now s t \<Longrightarrow> uxPriority s t \<le> tp"
    "\<And>t. at s (StateItem t) = Some (pxDelayedTaskList s) \<Longrightarrow> \<not> due now s t \<Longrightarrow> nx \<le> item_key (lists s) (StateItem t)"
    "sw' \<longleftrightarrow> sw \<or> (\<exists>t. due now s t \<and> uxPriority s t > uxPriority s (the (pxCurrentTCB s)))"
  shows "unblocked now sw s sw' s'"
  unfolding unblocked_def using assms by blast

lemma nothing_woken: "\<forall>t. \<not> due now s t \<Longrightarrow> woken_at now s = at s"
proof
  fix i assume "\<forall>t. \<not> due now s t"
  then show "woken_at now s i = at s i" by (cases i) auto
qed

lemma finite_in_list: "klists_ok ls \<Longrightarrow> finite {i. pxContainer ls i = Some l}"
  by (metis List.finite_set klists_ok_def lists_wf_dll)

lemma unblock_loop_returns:
  assumes "klists_ok (lists s)" "timed (pxDelayedTaskList s)" "\<forall>t. uxPriority s t < 32" "pxCurrentTCB s = Some c"
  shows "\<exists>sw' s'. unblock_loop now sw s = Some (sw', s') \<and> unblocked now sw s sw' s'"
  using assms
proof (induction "card {i. at s i = Some (pxDelayedTaskList s)}" arbitrary: s sw rule: less_induct)
  case less
  let ?D = "pxDelayedTaskList s"
  show ?case
  proof (cases "listLIST_IS_EMPTY (lists s) ?D")
    case True
    then have none: "\<forall>t. \<not> due now s t" by (auto simp: is_empty [OF less(2)] due_def)
    have "unblocked now sw s sw (s\<lparr>xNextTaskUnblockTime := portMAX_DELAY\<rparr>)"
      by (rule unblockedI [where ls = "lists s" and tp = "uxTopReadyPriority s" and nx = portMAX_DELAY])
        (use less(2) none nothing_woken [OF none] True in \<open>auto simp: same_items_def is_empty [OF less(2)]\<close>)
    then show ?thesis using True by (subst unblock_loop.simps) auto
  next
    case False
    obtain i where h: "pxNext (lists s) (EndOf ?D) = ItemOf i" "at s i = Some ?D" "pvOwner (lists s) i = Some (item_task i)"
      "\<forall>j. at s j = Some ?D \<longrightarrow> item_key (lists s) i \<le> item_key (lists s) j" using head_of_list [OF less(2) False] less(3) by metis
    have "fits i ?D" by (rule klists_fits [OF less(2) h(2)])
    then obtain t where i: "i = StateItem t" using less(3) by (cases i) auto
    have own: "listGET_OWNER_OF_HEAD_ENTRY (lists s) ?D = Some t" using head_owner [OF h(1)] h(3) i by simp
    show ?thesis
    proof (cases "now < item_key (lists s) (StateItem t)")
      case True
      have least: "item_key (lists s) (StateItem t) \<le> item_key (lists s) (StateItem u)" if "at s (StateItem u) = Some ?D" for u
        using h(4) i that by blast
      have none: "\<forall>u. \<not> due now s u" using True least unfolding due_def by (meson leD order_le_less_trans order_trans)
      have "unblocked now sw s sw (s\<lparr>xNextTaskUnblockTime := item_key (lists s) (StateItem t)\<rparr>)"
        by (rule unblockedI [where ls = "lists s" and tp = "uxTopReadyPriority s" and nx = "item_key (lists s) (StateItem t)"])
          (use less(2) none nothing_woken [OF none] least in \<open>auto simp: same_items_def\<close>)
      then show ?thesis using True False own by (subst unblock_loop.simps) auto
    next
      case late: False
      then have due: "due now s t" using h(2) i by (simp add: due_def)
      obtain ls1 ls2 where l: "listREMOVE_ITEM (lists s) (StateItem t) = Some ls1" "remove_event_item ls1 t = Some ls2" "klists_ok ls2"
        "pxContainer ls2 = (at s)(StateItem t := None, EventItem t := None)" "same_items ls2 (lists s)"
        "uxNumberOfItems ls2 WaitingTermination = uxNumberOfItems (lists s) WaitingTermination"
        using leave_lists [OF less(2)] h(2) i less(3) by (metis list_id.distinct)
      have ow: "owned ls2 t" using klists_owned [OF less(2) h(2)] i l(5) by (simp add: same_items_simps)
      define s1 where "s1 = s\<lparr>lists := ls2\<rparr>"
      obtain ls3 where a: "prvAddTaskToReadyList t s1 = s1\<lparr>lists := ls3, uxTopReadyPriority := top_with s1 t\<rparr>" "klists_ok ls3"
        "pxContainer ls3 = (at s1)(StateItem t := Some (Ready (uxPriority s1 t)))" "same_items ls3 (lists s1)"
        "uxNumberOfItems ls3 WaitingTermination = uxNumberOfItems (lists s1) WaitingTermination"
        using add_ready [of s1 t] l(3,4) ow less(4) by (auto simp: s1_def)
      define s2 where "s2 = prvAddTaskToReadyList t s1"
      have s2: "s2 = s\<lparr>lists := ls3, uxTopReadyPriority := top_with s t\<rparr>" using a(1) by (simp add: s2_def s1_def top_with_def)
      have c3: "pxContainer ls3 = (at s)(StateItem t := Some (Ready (uxPriority s t)), EventItem t := None)"
        using a(3) l(4) by (auto simp: s1_def)
      have si: "same_items ls3 (lists s)" using a(4) l(5) by (simp add: same_items_def s1_def)
      have ne: "?D \<noteq> Ready p" "Ready p \<noteq> ?D" for p using less(3) by auto
      have "{i. at s2 i = Some ?D} \<subseteq> {i. at s i = Some ?D} - {StateItem t}"
        using ne by (auto simp: s2 c3 fun_upd_apply split: if_splits)
      then have "{i. at s2 i = Some ?D} \<subset> {i. at s i = Some ?D}" using h(2) i by blast
      then have sm: "card {i. at s2 i = Some (pxDelayedTaskList s2)} < card {i. at s i = Some ?D}"
        using psubset_card_mono [OF finite_in_list [OF less(2)]] by (simp add: s2)
      define sw1 where "sw1 = (if uxPriority s t > uxPriority s c then True else sw)"
      obtain sw' s' where r: "unblock_loop now sw1 s2 = Some (sw', s')" "unblocked now sw1 s2 sw' s'"
        using less(1) [OF sm, of sw1] a(2) less(3-5) by (auto simp: s2)
      have d2: "due now s2 u \<longleftrightarrow> due now s u \<and> u \<noteq> t" for u
        using ne si by (auto simp: due_def s2 c3 same_items_def)
      have "woken_at now s2 = woken_at now s"
      proof
        fix j show "woken_at now s2 j = woken_at now s j" using d2 due by (cases j) (auto simp: s2 c3)
      qed
      moreover have "unblock_loop now sw s = Some (sw', s')"
        using r(1) late False own l(1,2) less(5) by (subst unblock_loop.simps) (simp add: s2_def s1_def sw1_def)
      moreover have "unblocked now sw s sw' s'"
      proof -
        obtain ls tp nx where u: "s' = s2\<lparr>lists := ls, uxTopReadyPriority := tp, xNextTaskUnblockTime := nx\<rparr>" "uxTopReadyPriority s2 \<le> tp"
          "pxContainer ls = woken_at now s2" "klists_ok ls" "same_items ls (lists s2)"
          "uxNumberOfItems ls WaitingTermination = uxNumberOfItems (lists s2) WaitingTermination"
          "\<forall>t. due now s2 t \<longrightarrow> uxPriority s2 t \<le> tp"
          "\<forall>t. at s2 (StateItem t) = Some (pxDelayedTaskList s2) \<and> \<not> due now s2 t \<longrightarrow> nx \<le> item_key (lists s2) (StateItem t)"
          "sw' \<longleftrightarrow> sw1 \<or> (\<exists>t. due now s2 t \<and> uxPriority s2 t > uxPriority s2 (the (pxCurrentTCB s2)))"
          using r(2) unfolding unblocked_def by blast
        have tt: "top_with s t \<le> tp" using u(2) by (simp add: s2)
        show ?thesis
        proof (rule unblockedI [where ls = ls and tp = tp and nx = nx])
          show "s' = s\<lparr>lists := ls, uxTopReadyPriority := tp, xNextTaskUnblockTime := nx\<rparr>" using u(1) by (simp add: s2)
          show "uxTopReadyPriority s \<le> tp" using tt top_with_le(2) order_trans by blast
          show "pxContainer ls = woken_at now s" using u(3) \<open>woken_at now s2 = woken_at now s\<close> by simp
          show "same_items ls (lists s)" using u(5) si by (simp add: same_items_def s2)
          show "uxNumberOfItems ls WaitingTermination = uxNumberOfItems (lists s) WaitingTermination"
            using u(6) a(5) l(6) less(3) by (auto simp: s2 s1_def)
          show "uxPriority s v \<le> tp" if "due now s v" for v
            using u(7) d2 [of v] that tt top_with_le(1) [of s t] order_trans by (cases "v = t") (auto simp: s2)
          show "nx \<le> item_key (lists s) (StateItem v)" if "at s (StateItem v) = Some ?D" "\<not> due now s v" for v
            using u(8) that d2 [of v] due si by (cases "v = t") (auto simp: s2 c3 same_items_def)
          show "sw' \<longleftrightarrow> sw \<or> (\<exists>v. due now s v \<and> uxPriority s v > uxPriority s (the (pxCurrentTCB s)))"
            using u(9) d2 due less(5) by (auto simp: s2 sw1_def)
        qed (rule u(4))
      qed
      ultimately show ?thesis by blast
    qed
  qed
qed

text \<open>The state at the start of a tick: the clock turned, the delayed lists swapped when it wraps around.\<close>

definition turned :: "kernel \<Rightarrow> kernel" where
  "turned s = (let now = xTickCount s + 1 in
     s\<lparr>xTickCount := now, pxDelayedTaskList := (if now = 0 then pxOverflowDelayedTaskList s else pxDelayedTaskList s),
       pxOverflowDelayedTaskList := (if now = 0 then pxDelayedTaskList s else pxOverflowDelayedTaskList s),
       xNumOfOverflows := (if now = 0 then xNumOfOverflows s + 1 else xNumOfOverflows s)\<rparr>)"

definition same_tasks :: "kernel \<Rightarrow> kernel \<Rightarrow> bool" where
  "same_tasks s' s \<longleftrightarrow>
     uxPriority s' = uxPriority s \<and> uxBasePriority s' = uxBasePriority s \<and> uxMutexesHeld s' = uxMutexesHeld s \<and>
     ucNotifyState s' = ucNotifyState s \<and> ulNotifiedValue s' = ulNotifiedValue s \<and> pxCurrentTCB s' = pxCurrentTCB s \<and>
     uxDeletedTasksWaitingCleanUp s' = uxDeletedTasksWaitingCleanUp s \<and> uxCurrentNumberOfTasks s' = uxCurrentNumberOfTasks s \<and>
     xSchedulerRunning s' = xSchedulerRunning s \<and> xPendedTicks s' = xPendedTicks s \<and> xYieldPending s' = xYieldPending s \<and>
     uxSchedulerSuspended s' = uxSchedulerSuspended s \<and> pendsv s' = pendsv s \<and> same_items (lists s') (lists s)"

text \<open>One tick: the clock turns, the tasks that are due become ready, and nothing else moves.\<close>

definition ticked :: "kernel \<Rightarrow> bool \<Rightarrow> kernel \<Rightarrow> bool" where
  "ticked s sw s' \<longleftrightarrow>
     kernel_ok s' \<and> same_tasks s' s \<and> at s' = woken_at (xTickCount s') (turned s) \<and> xTickCount s' = xTickCount s + 1 \<and>
     xNumOfOverflows s' = xNumOfOverflows (turned s) \<and> pxDelayedTaskList s' = pxDelayedTaskList (turned s) \<and> pxOverflowDelayedTaskList s' = pxOverflowDelayedTaskList (turned s) \<and>
     (sw \<longleftrightarrow> xYieldPending s \<or> (\<exists>t. due (xTickCount s') (turned s) t \<and> uxPriority s t > uxPriority s (the (pxCurrentTCB s))))"

lemma tick_wrap_empty:
  assumes "kernel_ok s" "xTickCount s + 1 = 0"
  shows "listLIST_IS_EMPTY (lists s) (pxDelayedTaskList s)"
proof -
  have "xTickCount s = - 1" using assms(2) by (simp add: eq_neg_iff_add_eq_0)
  then have "\<not> xTickCount s < k" for k by (metis leD word_max_top)
  then have "at s i \<noteq> Some (pxDelayedTaskList s)" for i
    using assms(1) klists_fits [of "lists s" i "pxDelayedTaskList s"] by (cases i) (auto simp: kernel_ok_def delays_ok_def kernel_core_def)
  then show ?thesis using is_empty assms(1) by (simp add: kernel_ok_def kernel_core_def)
qed

lemma reset_unblock_le:
  assumes "klists_ok (lists s)" "timed (pxDelayedTaskList s)" "at s i = Some (pxDelayedTaskList s)"
  shows "xNextTaskUnblockTime (prvResetNextTaskUnblockTime s) \<le> item_key (lists s) i"
proof -
  have ne: "\<not> listLIST_IS_EMPTY (lists s) (pxDelayedTaskList s)" using assms(3) is_empty [OF assms(1)] by blast
  then obtain j where "pxNext (lists s) (EndOf (pxDelayedTaskList s)) = ItemOf j"
    "\<forall>i. at s i = Some (pxDelayedTaskList s) \<longrightarrow> item_key (lists s) j \<le> item_key (lists s) i"
    using head_of_list [OF assms(1) ne] assms(2) by metis
  then show ?thesis using ne assms(3) by (simp add: prvResetNextTaskUnblockTime_def)
qed

lemma reset_unblock_frame:
  "prvResetNextTaskUnblockTime s = s\<lparr>xNextTaskUnblockTime := xNextTaskUnblockTime (prvResetNextTaskUnblockTime s)\<rparr>"
  by (simp add: prvResetNextTaskUnblockTime_def)

text \<open>The state in which the loop over the delayed tasks starts.\<close>

lemma tick_start:
  assumes k: "kernel_ok s"
  obtains s1 where "(if xTickCount s + 1 = 0 then taskSWITCH_DELAYED_LISTS (s\<lparr>xTickCount := xTickCount s + 1\<rparr>)
      else Some (s\<lparr>xTickCount := xTickCount s + 1\<rparr>)) = Some s1"
    "\<exists>nx. s1 = (turned s)\<lparr>xNextTaskUnblockTime := nx\<rparr>"
    "\<forall>t. at s1 (StateItem t) = Some (pxDelayedTaskList s1) \<longrightarrow>
       xTickCount s1 \<le> item_key (lists s1) (StateItem t) \<and> xNextTaskUnblockTime s1 \<le> item_key (lists s1) (StateItem t)"
proof (cases "xTickCount s + 1 = 0")
  case False
  define s1 where "s1 = s\<lparr>xTickCount := xTickCount s + 1\<rparr>"
  have e: "s1 = (turned s)\<lparr>xNextTaskUnblockTime := xNextTaskUnblockTime s\<rparr>"
    using False by (simp add: turned_def s1_def)
  have d: "xTickCount s < item_key (lists s) (StateItem t) \<and> xNextTaskUnblockTime s \<le> item_key (lists s) (StateItem t)"
    if "at s (StateItem t) = Some (pxDelayedTaskList s)" for t using k that by (simp add: kernel_ok_def delays_ok_def)
  show thesis
  proof (rule that [of s1])
    show "(if xTickCount s + 1 = 0 then taskSWITCH_DELAYED_LISTS (s\<lparr>xTickCount := xTickCount s + 1\<rparr>)
      else Some (s\<lparr>xTickCount := xTickCount s + 1\<rparr>)) = Some s1" using False by (simp add: s1_def)
    show "\<exists>nx. s1 = (turned s)\<lparr>xNextTaskUnblockTime := nx\<rparr>" using e by blast
    show "\<forall>t. at s1 (StateItem t) = Some (pxDelayedTaskList s1) \<longrightarrow>
       xTickCount s1 \<le> item_key (lists s1) (StateItem t) \<and> xNextTaskUnblockTime s1 \<le> item_key (lists s1) (StateItem t)"
      using d by (auto simp: s1_def intro: inc_le)
  qed
next
  case True
  have core: "kernel_core s" using k by (simp add: kernel_ok_def)
  define s0 where "s0 = s\<lparr>xTickCount := xTickCount s + 1, pxDelayedTaskList := pxOverflowDelayedTaskList s,
      pxOverflowDelayedTaskList := pxDelayedTaskList s, xNumOfOverflows := xNumOfOverflows s + 1\<rparr>"
  define s1 where "s1 = prvResetNextTaskUnblockTime s0"
  have f: "s1 = s0\<lparr>xNextTaskUnblockTime := xNextTaskUnblockTime s1\<rparr>" unfolding s1_def by (rule reset_unblock_frame)
  have le: "xNextTaskUnblockTime s1 \<le> item_key (lists s0) i" if "at s0 i = Some (pxDelayedTaskList s0)" for i
    unfolding s1_def by (rule reset_unblock_le [OF _ _ that]) (use kernel_coreD [OF core] in \<open>auto simp: s0_def\<close>)
  have "taskSWITCH_DELAYED_LISTS (s\<lparr>xTickCount := xTickCount s + 1\<rparr>) = Some s1"
    using tick_wrap_empty [OF k True] by (simp add: taskSWITCH_DELAYED_LISTS_def configASSERT_def s1_def s0_def)
  moreover have "s1 = (turned s)\<lparr>xNextTaskUnblockTime := xNextTaskUnblockTime s1\<rparr>"
    using True by (subst f) (simp add: s0_def turned_def)
  moreover have "xTickCount s1 = 0" using True by (subst f) (simp add: s0_def)
  moreover have "xNextTaskUnblockTime s1 \<le> item_key (lists s1) (StateItem t)" if "at s1 (StateItem t) = Some (pxDelayedTaskList s1)" for t
  proof -
    have "lists s1 = lists s0" "pxDelayedTaskList s1 = pxDelayedTaskList s0" by (subst f, simp)+
    then show ?thesis using le that by simp
  qed
  ultimately show thesis using that [of s1] True by auto
qed

lemma woken_at_cong:
  assumes "lists s' = lists s" "pxDelayedTaskList s' = pxDelayedTaskList s" "uxPriority s' = uxPriority s"
  shows "due now s' = due now s" "woken_at now s' = woken_at now s"
proof -
  show d: "due now s' = due now s" using assms by (auto simp: due_def fun_eq_iff)
  show "woken_at now s' = woken_at now s"
  proof
    fix i show "woken_at now s' i = woken_at now s i" using d assms by (cases i) auto
  qed
qed


lemma woken_core:
  assumes c: "kernel_core s" and p: "at s' = woken_at now s" "klists_ok (lists s')" "same_tasks s' s"
    "pxDelayedTaskList s' = pxDelayedTaskList s" "pxOverflowDelayedTaskList s' = pxOverflowDelayedTaskList s"
    "uxTopReadyPriority s \<le> uxTopReadyPriority s'" "\<And>t. due now s t \<Longrightarrow> uxPriority s t \<le> uxTopReadyPriority s'"
    "uxNumberOfItems (lists s') WaitingTermination = uxNumberOfItems (lists s) WaitingTermination"
  shows "kernel_core s'"
  unfolding kernel_core_def
proof (intro conjI allI impI)
  note c' = kernel_coreD [OF c] and f = p(3)[unfolded same_tasks_def]
  show "klists_ok (lists s')" by (rule p(2))
  fix t
  show "at s' (StateItem t) \<noteq> None" "at s' (StateItem t) \<noteq> Some WaitingTermination" if "at s' (EventItem t) \<noteq> None" using that c'(2) [of t] by (auto simp: p(1) live_def split: if_splits)
  show "uxPriority s' t < 32" "uxBasePriority s' t < 32" "uxBasePriority s' t \<le> uxPriority s' t" using c f by (simp_all add: kernel_core_def)
  show "uxPriority s' t = q" if "at s' (StateItem t) = Some (Ready q)" for q
    using that c'(5) f by (auto simp: p(1) split: if_splits)
  show "q \<le> uxTopReadyPriority s'" if "at s' (StateItem t) = Some (Ready q)" for q
    using that c'(6) [of t q] p(6,7) order_trans by (auto simp: p(1) split: if_splits)
  show "at s' (EventItem t) = None" if "ucNotifyState s' t = taskWAITING_NOTIFICATION \<and> at s' (StateItem t) \<noteq> None"
    using that c f by (auto simp: p(1) kernel_core_def due_def split: if_splits)
  show "pxDelayedTaskList s' = Delayed1 \<and> pxOverflowDelayedTaskList s' = Delayed2 \<or> pxDelayedTaskList s' = Delayed2 \<and> pxOverflowDelayedTaskList s' = Delayed1"
    using c p(4,5) by (simp add: kernel_core_def)
  show "uxDeletedTasksWaitingCleanUp s' = uxNumberOfItems (lists s') WaitingTermination" using c f p(8) by (simp add: kernel_core_def)
  show "pxCurrentTCB s' \<noteq> None" using c f by (simp add: kernel_core_def)
qed

lemma turned_core: "kernel_core s \<Longrightarrow> kernel_core (turned s)"
  by (auto simp: kernel_core_def turned_def Let_def)

lemma less_next:
  fixes k n :: u32
  assumes "k < n" "n + 1 \<noteq> 0"
  shows "k < n + 1"
proof -
  have "unat (n + 1) = Suc (unat n)" using assms(2) by (metis add.commute unatSuc)
  then show ?thesis using assms(1) by (simp add: word_less_nat_alt)
qed

lemma xTaskIncrementTick_ticks:
  assumes k: "kernel_ok s" and u: "uxSchedulerSuspended s = 0"
  obtains sw s' where "xTaskIncrementTick s = Some (sw, s')" "ticked s sw s'"
proof -
  have core: "kernel_core s" using k by (simp add: kernel_ok_def)
  obtain c where c: "pxCurrentTCB s = Some c" using kernel_coreD(7) [OF core] by blast
  obtain s1 nx where s1: "(if xTickCount s + 1 = 0 then taskSWITCH_DELAYED_LISTS (s\<lparr>xTickCount := xTickCount s + 1\<rparr>)
      else Some (s\<lparr>xTickCount := xTickCount s + 1\<rparr>)) = Some s1" "s1 = (turned s)\<lparr>xNextTaskUnblockTime := nx\<rparr>"
    and d1: "\<forall>t. at s1 (StateItem t) = Some (pxDelayedTaskList s1) \<longrightarrow>
       xTickCount s1 \<le> item_key (lists s1) (StateItem t) \<and> xNextTaskUnblockTime s1 \<le> item_key (lists s1) (StateItem t)"
    using tick_start [OF k] by metis
  have now: "xTickCount s1 = xTickCount s + 1" by (simp add: s1(2) turned_def Let_def)
  have c1: "kernel_core s1" using turned_core [OF core] by (simp add: s1(2) kernel_core_def)
  have t1: "same_tasks s1 s" by (simp add: s1(2) turned_def Let_def same_tasks_def same_items_def)
  have tu: "uxPriority (turned s) = uxPriority s" "at (turned s) = at s" "pxCurrentTCB (turned s) = pxCurrentTCB s" by (simp_all add: turned_def Let_def)
  have w1: "woken_at n s1 = woken_at n (turned s)" "due n s1 = due n (turned s)" for n
    by (rule woken_at_cong; simp add: s1(2))+
  have "\<exists>sw s'. (if xTickCount s1 \<ge> xNextTaskUnblockTime s1 then unblock_loop (xTickCount s1) False s1 else Some (False, s1)) = Some (sw, s') \<and>
      unblocked (xTickCount s1) False s1 sw s'"
  proof (cases "xTickCount s1 \<ge> xNextTaskUnblockTime s1")
    case True
    then show ?thesis using unblock_loop_returns [OF kernel_coreD(1) [OF c1] kernel_coreD(8) [OF c1]] kernel_coreD(3) [OF c1] c t1
      by (auto simp: same_tasks_def)
  next
    case False
    then have none: "\<forall>t. \<not> due (xTickCount s1) s1 t" using d1 unfolding due_def by (meson order_trans)
    have "unblocked (xTickCount s1) False s1 False s1"
      by (rule unblockedI [where ls = "lists s1" and tp = "uxTopReadyPriority s1" and nx = "xNextTaskUnblockTime s1"])
        (use none nothing_woken [OF none] kernel_coreD(1) [OF c1] d1 in \<open>auto simp: same_items_def\<close>)
    then show ?thesis using False by auto
  qed
  then obtain sw s' where r: "(if xTickCount s1 \<ge> xNextTaskUnblockTime s1 then unblock_loop (xTickCount s1) False s1 else Some (False, s1)) = Some (sw, s')"
    "unblocked (xTickCount s1) False s1 sw s'" by blast
  obtain ls tp nx where s': "s' = s1\<lparr>lists := ls, uxTopReadyPriority := tp, xNextTaskUnblockTime := nx\<rparr>" "uxTopReadyPriority s1 \<le> tp"
    "pxContainer ls = woken_at (xTickCount s1) s1" "klists_ok ls" "same_items ls (lists s1)"
    "uxNumberOfItems ls WaitingTermination = uxNumberOfItems (lists s1) WaitingTermination"
    "\<forall>t. due (xTickCount s1) s1 t \<longrightarrow> uxPriority s1 t \<le> tp"
    "\<forall>t. at s1 (StateItem t) = Some (pxDelayedTaskList s1) \<and> \<not> due (xTickCount s1) s1 t \<longrightarrow> nx \<le> item_key (lists s1) (StateItem t)"
    "sw \<longleftrightarrow> (\<exists>t. due (xTickCount s1) s1 t \<and> uxPriority s1 t > uxPriority s1 (the (pxCurrentTCB s1)))"
    using r(2) unfolding unblocked_def by blast
  have st: "same_tasks s' s1" using s'(5) by (simp add: s'(1) same_tasks_def)
  have core': "kernel_core s'"
    by (rule woken_core [OF c1, where now = "xTickCount s1"]) (use s' st in \<open>auto simp: s'(1)\<close>)
  have "delays_ok s'"
    unfolding delays_ok_def
  proof (intro conjI allI impI)
    fix t assume "at s' (StateItem t) = Some (pxOverflowDelayedTaskList s')"
    then have a: "at s (StateItem t) = Some (pxOverflowDelayedTaskList (turned s))" "timed (pxOverflowDelayedTaskList (turned s))"
      using s'(3) kernel_coreD(9) [OF c1] by (auto simp: s'(1) s1(2) turned_def Let_def split: if_splits)
    have "xTickCount s + 1 \<noteq> 0"
    proof
      assume z: "xTickCount s + 1 = 0"
      then show False using tick_wrap_empty [OF k z] a(1) is_empty [OF kernel_coreD(1) [OF core]] by (simp add: turned_def Let_def)
    qed
    moreover from this have "at s (StateItem t) = Some (pxOverflowDelayedTaskList s)" using a(1) by (simp add: turned_def Let_def)
    then have "item_key (lists s) (StateItem t) < xTickCount s" using k by (simp add: kernel_ok_def delays_ok_def)
    ultimately have "item_key (lists s) (StateItem t) < xTickCount s + 1" using less_next by blast
    then show "item_key (lists s') (StateItem t) < xTickCount s'" using s'(5) t1 now by (simp add: s'(1) same_items_def same_tasks_def)
  next
    fix t assume a: "at s' (StateItem t) = Some (pxDelayedTaskList s')"
    have "Ready p \<noteq> pxDelayedTaskList s1" for p using kernel_coreD(8) [OF c1] by auto
    then have b: "at s1 (StateItem t) = Some (pxDelayedTaskList s1)" "\<not> due (xTickCount s1) s1 t"
      using a s'(3) by (auto simp: s'(1) split: if_splits)
    then have "xTickCount s1 < item_key (lists s1) (StateItem t)" by (simp add: due_def not_le)
    then show "xTickCount s' < item_key (lists s') (StateItem t)" "xNextTaskUnblockTime s' \<le> item_key (lists s') (StateItem t)"
      using s'(5,8) b by (simp_all add: s'(1) same_items_def)
  qed
  then have kok: "kernel_ok s'" using core' by (simp add: kernel_ok_def)
  have st': "same_tasks s' s" using st t1 by (simp add: same_tasks_def same_items_def)
  have n': "xTickCount s' = xTickCount s1" by (simp add: s'(1))
  have "ticked s (if xYieldPending s' then True else sw) s'"
    unfolding ticked_def using kok st' s'(3,9) now w1 st' t1 tu by (auto simp: n' s'(1) same_tasks_def s1(2))
  moreover have "xTaskIncrementTick s = Some (if xYieldPending s' then True else sw, s')"
    using r(1) s1(1) u now by (simp add: xTaskIncrementTick_def Let_def del: word_not_simps split del: if_split cong: if_cong)
  ultimately show thesis using that by blast
qed

end
