(* ===== verification/Rtos_Moves.thy ===== *)
theory Rtos_Moves
  imports Rtos_Sched
begin

text \<open>
  How a task moves between the lists of the scheduler, proved once for the calls that use it: a task leaves its lists, becomes ready, is
  suspended or delayed; and what a tick and the resumption of the scheduler keep of the invariant.
\<close>

section \<open>One task at a time\<close>

text \<open>The part of the invariant about one task, and the rest of it.\<close>

definition task_ok :: "kernel \<Rightarrow> nat \<Rightarrow> bool" where
  "task_ok s t \<longleftrightarrow>
     (at s (EventItem t) \<noteq> None \<longrightarrow> at s (StateItem t) \<noteq> None \<and> at s (StateItem t) \<noteq> Some WaitingTermination) \<and>
     (\<forall>p. at s (StateItem t) = Some (Ready p) \<longrightarrow> uxPriority s t = p \<and> p \<le> uxTopReadyPriority s) \<and>
     (at s (StateItem t) = Some (pxDelayedTaskList s) \<longrightarrow>
        xTickCount s < item_key (lists s) (StateItem t) \<and> xNextTaskUnblockTime s \<le> item_key (lists s) (StateItem t)) \<and>
     (at s (StateItem t) = Some (pxOverflowDelayedTaskList s) \<longrightarrow> item_key (lists s) (StateItem t) < xTickCount s) \<and>
     (ucNotifyState s t = taskWAITING_NOTIFICATION \<and> at s (StateItem t) \<noteq> None \<longrightarrow> at s (EventItem t) = None)"

definition kernel_base :: "kernel \<Rightarrow> bool" where
  "kernel_base s \<longleftrightarrow>
     klists_ok (lists s) \<and> (\<forall>t. uxPriority s t < 32 \<and> uxBasePriority s t < 32 \<and> uxBasePriority s t \<le> uxPriority s t) \<and>
     (pxDelayedTaskList s = Delayed1 \<and> pxOverflowDelayedTaskList s = Delayed2 \<or>
      pxDelayedTaskList s = Delayed2 \<and> pxOverflowDelayedTaskList s = Delayed1) \<and>
     uxDeletedTasksWaitingCleanUp s = uxNumberOfItems (lists s) WaitingTermination \<and> pxCurrentTCB s \<noteq> None"

lemma kernel_ok_iff: "kernel_ok s \<longleftrightarrow> kernel_base s \<and> (\<forall>t. task_ok s t)"
  unfolding kernel_ok_def kernel_core_def delays_ok_def kernel_base_def task_ok_def by blast

lemma task_ok_other:
  assumes "task_ok s t" "at s' (StateItem t) = at s (StateItem t)" "at s' (EventItem t) = at s (EventItem t)" "uxPriority s' t = uxPriority s t"
    "uxTopReadyPriority s \<le> uxTopReadyPriority s'" "pxDelayedTaskList s' = pxDelayedTaskList s" "pxOverflowDelayedTaskList s' = pxOverflowDelayedTaskList s" "xTickCount s' = xTickCount s"
    "xNextTaskUnblockTime s' \<le> xNextTaskUnblockTime s" "item_key (lists s') (StateItem t) = item_key (lists s) (StateItem t)"
    "ucNotifyState s' t = ucNotifyState s t"
  shows "task_ok s' t"
proof -
  note a = assms(1) [unfolded task_ok_def]
  have p: "uxPriority s' t = p \<and> p \<le> uxTopReadyPriority s'" if "at s' (StateItem t) = Some (Ready p)" for p
  proof -
    have "uxPriority s t = p \<and> p \<le> uxTopReadyPriority s" using a that assms(2) by simp
    then show ?thesis using assms(4,5) order_trans by blast
  qed
  have d: "xTickCount s' < item_key (lists s') (StateItem t) \<and> xNextTaskUnblockTime s' \<le> item_key (lists s') (StateItem t)"
    if "at s' (StateItem t) = Some (pxDelayedTaskList s')"
  proof -
    have "xTickCount s < item_key (lists s) (StateItem t)" "xNextTaskUnblockTime s \<le> item_key (lists s) (StateItem t)" using a that assms(2,6) by simp_all
    then show ?thesis using assms(8-10) order_trans by metis
  qed
  show ?thesis unfolding task_ok_def using a p d assms(2,3,7,8,10,11) by simp
qed

lemma baseD:
  assumes "kernel_base s"
  shows "klists_ok (lists s)" "uxPriority s t < 32" "uxBasePriority s t < 32" "\<exists>c. pxCurrentTCB s = Some c"
    "timed (pxDelayedTaskList s)" "timed (pxOverflowDelayedTaskList s)"
  using assms by (auto simp: kernel_base_def)

text \<open>A task whose state item is in no list becomes ready.\<close>

lemma make_ready:
  assumes b: "kernel_base s" and o: "owned (lists s) t" and n: "at s (StateItem t) = None"
    and w: "ucNotifyState s t = taskWAITING_NOTIFICATION \<Longrightarrow> at s (EventItem t) = None" and r: "\<And>u. u \<noteq> t \<Longrightarrow> task_ok s u"
  obtains ls' where "prvAddTaskToReadyList t s = s\<lparr>lists := ls', uxTopReadyPriority := top_with s t\<rparr>"
    "kernel_ok (s\<lparr>lists := ls', uxTopReadyPriority := top_with s t\<rparr>)" "pxContainer ls' = (at s)(StateItem t := Some (Ready (uxPriority s t)))"
    "same_items ls' (lists s)"
proof -
  obtain ls' where a: "prvAddTaskToReadyList t s = s\<lparr>lists := ls', uxTopReadyPriority := top_with s t\<rparr>" "klists_ok ls'"
    "pxContainer ls' = (at s)(StateItem t := Some (Ready (uxPriority s t)))" "same_items ls' (lists s)"
    "uxNumberOfItems ls' WaitingTermination = uxNumberOfItems (lists s) WaitingTermination"
    using add_ready [OF baseD(1) [OF b] n o baseD(2) [OF b]] by metis
  define s' where "s' = s\<lparr>lists := ls', uxTopReadyPriority := top_with s t\<rparr>"
  have "kernel_base s'" using b a(2,5) by (auto simp: kernel_base_def s'_def)
  moreover have "task_ok s' u" for u
  proof (cases "u = t")
    case True
    then show ?thesis using a(3) w top_with_le(1) [of s t] baseD(5,6) [OF b] by (auto simp: task_ok_def s'_def)
  next
    case False
    show ?thesis
      by (rule task_ok_other [OF r [OF False]]) (use False a(3,4) top_with_le(2) in \<open>auto simp: s'_def same_items_def\<close>)
  qed
  ultimately have "kernel_ok s'" by (simp add: kernel_ok_iff)
  then show thesis using that [of ls'] a by (simp add: s'_def)
qed

text \<open>Removing the items of a task leaves the rest of the kernel as it was.\<close>

lemma without_task:
  assumes k: "kernel_ok s" and l: "klists_ok ls" "same_items ls (lists s)"
    and c: "\<And>u. u \<noteq> t \<Longrightarrow> pxContainer ls (StateItem u) = at s (StateItem u) \<and> pxContainer ls (EventItem u) = at s (EventItem u)"
    and n: "uxNumberOfItems ls WaitingTermination = uxNumberOfItems (lists s) WaitingTermination"
  shows "kernel_base (s\<lparr>lists := ls\<rparr>)" "\<And>u. u \<noteq> t \<Longrightarrow> task_ok (s\<lparr>lists := ls\<rparr>) u"
proof -
  show "kernel_base (s\<lparr>lists := ls\<rparr>)" using k l(1) n by (simp add: kernel_ok_iff kernel_base_def)
  fix u assume u: "u \<noteq> t"
  have "task_ok s u" using k by (simp add: kernel_ok_iff)
  then show "task_ok (s\<lparr>lists := ls\<rparr>) u"
    by (rule task_ok_other) (use c [OF u] l(2) in \<open>simp_all add: same_items_def\<close>)
qed

text \<open>A live task leaves its list, alone or with its event item, and becomes ready.\<close>

lemma state_to_ready:
  assumes k: "kernel_ok s" and t: "at s (StateItem t) = Some l" "l \<noteq> WaitingTermination"
  obtains ls ls' where "listREMOVE_ITEM (lists s) (StateItem t) = Some ls" "pxContainer ls = (at s)(StateItem t := None)"
    "prvAddTaskToReadyList t (s\<lparr>lists := ls\<rparr>) = s\<lparr>lists := ls', uxTopReadyPriority := top_with s t\<rparr>"
    "kernel_ok (s\<lparr>lists := ls', uxTopReadyPriority := top_with s t\<rparr>)" "pxContainer ls' = (at s)(StateItem t := Some (Ready (uxPriority s t)))"
    "same_items ls' (lists s)"
proof -
  have b: "kernel_base s" using k by (simp add: kernel_ok_iff)
  obtain ls where r: "listREMOVE_ITEM (lists s) (StateItem t) = Some ls" "klists_ok ls" "pxContainer ls = (at s)(StateItem t := None)" "same_items ls (lists s)"
    "uxNumberOfItems ls = (uxNumberOfItems (lists s))(l := uxNumberOfItems (lists s) l - 1)" using klists_remove [OF baseD(1) [OF b] t(1)] .
  define s1 where "s1 = s\<lparr>lists := ls\<rparr>"
  have w: "kernel_base s1" "\<And>u. u \<noteq> t \<Longrightarrow> task_ok s1 u"
    using without_task [OF k r(2,4), of t] r(3,5) t(2) by (auto simp: s1_def)
  have o: "owned (lists s1) t" using klists_owned [OF baseD(1) [OF b] t(1)] r(4) by (simp add: s1_def same_items_simps)
  have n: "at s1 (StateItem t) = None" using r(3) by (simp add: s1_def)
  have wt: "at s1 (EventItem t) = None" if "ucNotifyState s1 t = taskWAITING_NOTIFICATION"
    using k that t r(3) by (auto simp: kernel_ok_iff task_ok_def s1_def)
  obtain ls' where "prvAddTaskToReadyList t s1 = s1\<lparr>lists := ls', uxTopReadyPriority := top_with s1 t\<rparr>"
    "kernel_ok (s1\<lparr>lists := ls', uxTopReadyPriority := top_with s1 t\<rparr>)" "pxContainer ls' = (at s1)(StateItem t := Some (Ready (uxPriority s1 t)))"
    "same_items ls' (lists s1)" using make_ready [OF w(1) o n wt w(2)] by blast
  moreover have "top_with s1 t = top_with s t" by (simp add: s1_def top_with_def)
  moreover have "same_items ls' (lists s)" if "same_items ls' (lists s1)" for ls' using that r(4) by (simp add: s1_def same_items_def)
  moreover have "(at s1)(StateItem t := x) = (at s)(StateItem t := x)" for x using r(3) by (simp add: s1_def)
  ultimately show thesis using that [of ls ls'] r(1,3) by (simp add: s1_def)
qed


text \<open>The fields that the lists do not depend on.\<close>

lemma kernel_ok_frame [simp]:
  "kernel_ok (s\<lparr>pendsv := b\<rparr>) = kernel_ok s" "kernel_ok (s\<lparr>xYieldPending := b\<rparr>) = kernel_ok s"
  "kernel_ok (s\<lparr>uxSchedulerSuspended := n\<rparr>) = kernel_ok s" "kernel_ok (s\<lparr>xPendedTicks := n\<rparr>) = kernel_ok s"
  "kernel_ok (s\<lparr>uxCurrentNumberOfTasks := n\<rparr>) = kernel_ok s" "kernel_ok (s\<lparr>uxMutexesHeld := m\<rparr>) = kernel_ok s"
  "kernel_ok (s\<lparr>ulNotifiedValue := m\<rparr>) = kernel_ok s"
  by (simp_all add: kernel_ok_def kernel_core_def delays_ok_def)

lemma kernel_ok_baseD: "kernel_ok s \<Longrightarrow> kernel_base s" "kernel_ok s \<Longrightarrow> task_ok s t"
  by (simp_all add: kernel_ok_iff)

lemma reset_ok: "kernel_ok s \<Longrightarrow> kernel_ok (prvResetNextTaskUnblockTime s)"
proof -
  assume k: "kernel_ok s"
  have "klists_ok (lists s)" "timed (pxDelayedTaskList s)" using baseD [OF kernel_ok_baseD(1) [OF k]] by auto
  then show ?thesis using k reset_unblock_le [of s]
    by (subst reset_unblock_frame) (simp add: kernel_ok_def kernel_core_def delays_ok_def)
qed

lemma reset_simps [simp]:
  "lists (prvResetNextTaskUnblockTime s) = lists s" "uxPriority (prvResetNextTaskUnblockTime s) = uxPriority s"
  "pxCurrentTCB (prvResetNextTaskUnblockTime s) = pxCurrentTCB s" "pendsv (prvResetNextTaskUnblockTime s) = pendsv s"
  "xYieldPending (prvResetNextTaskUnblockTime s) = xYieldPending s" "xPendedTicks (prvResetNextTaskUnblockTime s) = xPendedTicks s"
  "uxSchedulerSuspended (prvResetNextTaskUnblockTime s) = uxSchedulerSuspended s" "xTickCount (prvResetNextTaskUnblockTime s) = xTickCount s"
  "xSchedulerRunning (prvResetNextTaskUnblockTime s) = xSchedulerRunning s"
  by (simp_all add: prvResetNextTaskUnblockTime_def)

text \<open>A call keeps the choice of the running task right when what it makes ready has no higher priority, or it asks for a switch.\<close>

lemma sched_step:
  assumes "well_scheduled s"
    and "\<And>u q. at s' (StateItem u) = Some (Ready q) \<Longrightarrow> \<not> pendsv s' \<Longrightarrow> \<not> xYieldPending s' \<Longrightarrow>
      at s (StateItem u) = Some (Ready q) \<or> q \<le> uxPriority s' (the (pxCurrentTCB s'))"
    and "pendsv s \<or> xYieldPending s \<Longrightarrow> pendsv s' \<or> xYieldPending s'"
    and "\<not> pendsv s' \<Longrightarrow> \<not> xYieldPending s' \<Longrightarrow> uxPriority s (the (pxCurrentTCB s)) \<le> uxPriority s' (the (pxCurrentTCB s'))"
  shows "well_scheduled s'"
  unfolding well_scheduled_def
proof (rule ccontr)
  assume n: "\<not> (pendsv s' \<or> xYieldPending s' \<or> (\<forall>t p. at s' (StateItem t) = Some (Ready p) \<longrightarrow> p \<le> uxPriority s' (the (pxCurrentTCB s'))))"
  then obtain u q where u: "at s' (StateItem u) = Some (Ready q)" "\<not> q \<le> uxPriority s' (the (pxCurrentTCB s'))" by blast
  then have "at s (StateItem u) = Some (Ready q)" using assms(2) n by blast
  then have "q \<le> uxPriority s (the (pxCurrentTCB s))" using assms(1,3) n unfolding well_scheduled_def by blast
  then show False using assms(4) n u(2) order_trans by blast
qed

lemma sched_quiet:
  assumes "well_scheduled s" "\<And>u q. at s' (StateItem u) = Some (Ready q) \<Longrightarrow> at s (StateItem u) = Some (Ready q)"
    "uxPriority s' = uxPriority s" "pxCurrentTCB s' = pxCurrentTCB s" "pendsv s' = pendsv s" "xYieldPending s' = xYieldPending s"
  shows "well_scheduled s'"
  by (rule sched_step [OF assms(1)]) (use assms in auto)

section \<open>Moving a task\<close>

lemma liveE:
  assumes "live s t"
  obtains l where "at s (StateItem t) = Some l" "l \<noteq> WaitingTermination"
  using assms by (auto simp: live_def)

lemma task_leaves:
  assumes k: "kernel_ok s" and t: "live s t"
  obtains ls1 ls2 where "listREMOVE_ITEM (lists s) (StateItem t) = Some ls1" "remove_event_item ls1 t = Some ls2"
    "kernel_base (s\<lparr>lists := ls2\<rparr>)" "\<And>u. u \<noteq> t \<Longrightarrow> task_ok (s\<lparr>lists := ls2\<rparr>) u" "owned ls2 t"
    "pxContainer ls2 = (at s)(StateItem t := None, EventItem t := None)" "same_items ls2 (lists s)"
proof -
  obtain l where l: "at s (StateItem t) = Some l" "l \<noteq> WaitingTermination" by (rule liveE [OF t])
  note b = baseD(1) [OF kernel_ok_baseD(1) [OF k]]
  obtain ls1 ls2 where r: "listREMOVE_ITEM (lists s) (StateItem t) = Some ls1" "remove_event_item ls1 t = Some ls2" "klists_ok ls2"
    "pxContainer ls2 = (at s)(StateItem t := None, EventItem t := None)" "same_items ls2 (lists s)"
    "uxNumberOfItems ls2 WaitingTermination = uxNumberOfItems (lists s) WaitingTermination"
    using leave_lists [OF b l(1)] l(2) by metis
  have c: "\<And>u. u \<noteq> t \<Longrightarrow> pxContainer ls2 (StateItem u) = at s (StateItem u) \<and> pxContainer ls2 (EventItem u) = at s (EventItem u)"
    using r(4) by simp
  have "owned ls2 t" using klists_owned [OF b l(1)] r(5) by (simp add: same_items_simps)
  then show thesis using that r without_task [OF k r(3,5) c r(6)] by blast
qed

text \<open>A task in no list goes to the suspended tasks.\<close>

lemma to_suspended:
  assumes b: "kernel_base s" and r: "\<And>u. u \<noteq> t \<Longrightarrow> task_ok s u" and o: "owned (lists s) t" and n: "at s (StateItem t) = None"
    and w: "ucNotifyState s t = taskWAITING_NOTIFICATION \<Longrightarrow> at s (EventItem t) = None"
  obtains ls' where "vListInsertEnd (lists s) SuspendedTasks (StateItem t) = ls'" "kernel_ok (s\<lparr>lists := ls'\<rparr>)"
    "pxContainer ls' = (at s)(StateItem t := Some SuspendedTasks)" "same_items ls' (lists s)"
proof -
  define ls' where "ls' = vListInsertEnd (lists s) SuspendedTasks (StateItem t)"
  have i: "klists_ok ls'" "pxContainer ls' = (at s)(StateItem t := Some SuspendedTasks)" "same_items ls' (lists s)"
    "uxNumberOfItems ls' WaitingTermination = uxNumberOfItems (lists s) WaitingTermination"
    using klists_insert_end [OF baseD(1) [OF b] n, of SuspendedTasks] o by (auto simp: ls'_def)
  have "kernel_base (s\<lparr>lists := ls'\<rparr>)" using b i(1,4) by (simp add: kernel_base_def)
  moreover have "task_ok (s\<lparr>lists := ls'\<rparr>) u" for u
  proof (cases "u = t")
    case True
    then show ?thesis using i(2) w baseD(5,6) [OF b] by (auto simp: task_ok_def)
  next
    case False
    show ?thesis by (rule task_ok_other [OF r [OF False]]) (use False i(2,3) in \<open>simp_all add: same_items_def\<close>)
  qed
  ultimately show thesis using that [of ls'] i by (simp add: ls'_def kernel_ok_iff)
qed

section \<open>Ticks and delays\<close>

lemma tick_kinv:
  assumes k: "kinv idle s" and u: "uxSchedulerSuspended s = 0"
  obtains sw s' where "xTaskIncrementTick s = Some (sw, s')" "ticked s sw s'" "kernel_ok s'" "task_ready idle s'" "\<not> sw \<Longrightarrow> well_scheduled s'"
    "xYieldPending s \<Longrightarrow> sw"
proof -
  have ok: "kernel_ok s" using k by (simp add: kinv_def)
  obtain sw s' where t: "xTaskIncrementTick s = Some (sw, s')" "ticked s sw s'" using xTaskIncrementTick_ticks [OF ok u] .
  have a: "at s' = woken_at (xTickCount s') (turned s)" "same_tasks s' s" and
    sw: "sw \<longleftrightarrow> xYieldPending s \<or> (\<exists>t. due (xTickCount s') (turned s) t \<and> uxPriority s t > uxPriority s (the (pxCurrentTCB s)))"
    using t(2) by (auto simp: ticked_def)
  have tu: "at (turned s) = at s" "uxPriority (turned s) = uxPriority s" by (simp_all add: turned_def Let_def)
  have "timed (pxDelayedTaskList (turned s))" using ok by (auto simp: turned_def Let_def kernel_ok_def kernel_core_def)
  then have nd: "\<not> due n (turned s) t" if "at s (StateItem t) = Some (Ready p)" for n t p using that tu by (auto simp: due_def)
  have "task_ready idle s'"
  proof -
    obtain p where "at s (StateItem idle) = Some (Ready p)" using k by (auto simp: kinv_def task_ready_def)
    then show ?thesis using a(1) nd tu by (auto simp: task_ready_def)
  qed
  moreover have "well_scheduled s'" if "\<not> sw"
  proof (rule sched_step [of s])
    show "well_scheduled s" using k by (simp add: kinv_def)
    show "at s (StateItem t) = Some (Ready q) \<or> q \<le> uxPriority s' (the (pxCurrentTCB s'))" if "at s' (StateItem t) = Some (Ready q)" for t q
    proof (cases "due (xTickCount s') (turned s) t")
      case True
      then have "q = uxPriority s t" using that a(1) tu by simp
      moreover have "\<not> uxPriority s t > uxPriority s (the (pxCurrentTCB s))" using True \<open>\<not> sw\<close> sw by blast
      ultimately show ?thesis using a(2) by (simp add: same_tasks_def not_less)
    qed (use that a(1) tu in simp)
  qed (use a(2) in \<open>simp_all add: same_tasks_def\<close>)
  ultimately show thesis using that t sw by (auto simp: ticked_def)
qed

lemma pended_tick:
  "uxSchedulerSuspended s \<noteq> 0 \<Longrightarrow> xTaskIncrementTick s = Some (False, s\<lparr>xPendedTicks := xPendedTicks s + 1\<rparr>)"
  by (simp add: xTaskIncrementTick_def)

lemma kinv_frame [simp]:
  "kinv idle (s\<lparr>uxSchedulerSuspended := n\<rparr>) = kinv idle s" "kinv idle (s\<lparr>xPendedTicks := n\<rparr>) = kinv idle s"
  "kinv idle (s\<lparr>uxCurrentNumberOfTasks := n\<rparr>) = kinv idle s" "kinv idle (s\<lparr>uxMutexesHeld := m\<rparr>) = kinv idle s"
  "kinv idle (s\<lparr>ulNotifiedValue := m\<rparr>) = kinv idle s"
  "kinv idle s \<Longrightarrow> kinv idle (s\<lparr>pendsv := True\<rparr>)" "kinv idle s \<Longrightarrow> kinv idle (s\<lparr>xYieldPending := True\<rparr>)"
  by (simp_all add: kinv_def well_scheduled_def task_ready_def)

lemma SysTick_kinv:
  assumes k: "kinv idle s"
  obtains s' where "SysTick_Handler s = Some s'" "kinv idle s'"
proof (cases "uxSchedulerSuspended s = 0")
  case False
  then show thesis using that k by (simp add: SysTick_Handler_def pended_tick)
next
  case True
  obtain sw s' where t: "xTaskIncrementTick s = Some (sw, s')" "kernel_ok s'" "task_ready idle s'" "\<not> sw \<Longrightarrow> well_scheduled s'"
    using tick_kinv [OF k True] by metis
  then show thesis using that [of "if sw then s'\<lparr>pendsv := True\<rparr> else s'"]
    by (cases sw) (auto simp: SysTick_Handler_def kinv_def well_scheduled_def task_ready_def)
qed

lemma replay_kinv:
  assumes "kinv idle s" "uxSchedulerSuspended s = 0"
  shows "\<exists>s'. replay_ticks n s = Some s' \<and> kinv idle s' \<and> uxSchedulerSuspended s' = 0 \<and> (xYieldPending s \<longrightarrow> xYieldPending s')"
  using assms
proof (induction n arbitrary: s)
  case (Suc n)
  obtain sw s1 where t: "xTaskIncrementTick s = Some (sw, s1)" "ticked s sw s1" "kernel_ok s1" "task_ready idle s1" "\<not> sw \<Longrightarrow> well_scheduled s1"
    using tick_kinv [OF Suc.prems] by metis
  define s2 where "s2 = (if sw then s1\<lparr>xYieldPending := True\<rparr> else s1)"
  have f: "uxSchedulerSuspended s1 = uxSchedulerSuspended s" "xYieldPending s1 = xYieldPending s" using t(2) by (simp_all add: ticked_def same_tasks_def)
  have "kinv idle s2" using t(3-5) by (auto simp: s2_def kinv_def well_scheduled_def task_ready_def)
  moreover have "uxSchedulerSuspended s2 = 0" "xYieldPending s \<longrightarrow> xYieldPending s2" using f Suc.prems(2) by (simp_all add: s2_def)
  ultimately show ?case using Suc.IH [of s2] t(1) by (auto simp: s2_def)
qed simp

text \<open>The running task leaves the ready tasks for a delay, or for good.\<close>

lemma delay_current:
  assumes k: "kernel_ok s" and c: "pxCurrentTCB s = Some c" "live s c" and n: "n \<noteq> 0"
  obtains ls nx d where "prvAddCurrentTaskToDelayedList n b s = Some (s\<lparr>lists := ls, xNextTaskUnblockTime := nx\<rparr>)"
    "kernel_ok (s\<lparr>lists := ls, xNextTaskUnblockTime := nx\<rparr>)" "pxContainer ls = (at s)(StateItem c := Some d)" "pvOwner ls = pvOwner (lists s)"
    "\<And>u. u \<noteq> StateItem c \<Longrightarrow> item_key ls u = item_key (lists s) u" "d = SuspendedTasks \<or> timed d"
    "\<not> (n = portMAX_DELAY \<and> b) \<Longrightarrow> item_key ls (StateItem c) = xTickCount s + n \<and>
       d = (if xTickCount s + n < xTickCount s then pxOverflowDelayedTaskList s else pxDelayedTaskList s)"
    "n = portMAX_DELAY \<and> b \<Longrightarrow> d = SuspendedTasks"
proof -
  obtain l where l: "at s (StateItem c) = Some l" "l \<noteq> WaitingTermination" by (rule liveE [OF c(2)])
  have base: "kernel_base s" using k by (simp add: kernel_ok_iff)
  note b = baseD [OF base]
  have dl: "pxDelayedTaskList s \<noteq> WaitingTermination" "pxOverflowDelayedTaskList s \<noteq> WaitingTermination" "pxDelayedTaskList s \<noteq> pxOverflowDelayedTaskList s"
    using base by (auto simp: kernel_base_def)
  obtain ls1 where r: "listREMOVE_ITEM (lists s) (StateItem c) = Some ls1" "klists_ok ls1" "pxContainer ls1 = (at s)(StateItem c := None)" "same_items ls1 (lists s)"
    "uxNumberOfItems ls1 = (uxNumberOfItems (lists s))(l := uxNumberOfItems (lists s) l - 1)" using klists_remove [OF b(1) l(1)] .
  have o: "owned ls1 c" using klists_owned [OF b(1) l(1)] r(4) by (simp add: same_items_simps)
  have ev: "ucNotifyState s c = taskWAITING_NOTIFICATION \<Longrightarrow> at s (EventItem c) = None"
    using k l(1) by (simp add: kernel_ok_iff task_ok_def)
  have other: "task_ok s u" for u using k by (simp add: kernel_ok_iff)
  have keep: "kernel_ok (s\<lparr>lists := ls, xNextTaskUnblockTime := nx\<rparr>)"
    if "klists_ok ls" "pxContainer ls = (at s)(StateItem c := Some d)" "\<And>u. u \<noteq> StateItem c \<Longrightarrow> item_key ls u = item_key (lists s) u"
      "uxNumberOfItems ls WaitingTermination = uxNumberOfItems (lists s) WaitingTermination" "nx \<le> xNextTaskUnblockTime s"
      "d = SuspendedTasks \<or> d = pxOverflowDelayedTaskList s \<and> item_key ls (StateItem c) < xTickCount s \<or> d = pxDelayedTaskList s \<and> xTickCount s < item_key ls (StateItem c) \<and> nx \<le> item_key ls (StateItem c)"
    for ls nx d
    unfolding kernel_ok_iff
  proof (intro conjI allI)
    show "kernel_base (s\<lparr>lists := ls, xNextTaskUnblockTime := nx\<rparr>)" using base that(1,4) by (simp add: kernel_base_def)
    fix u show "task_ok (s\<lparr>lists := ls, xNextTaskUnblockTime := nx\<rparr>) u"
    proof (cases "u = c")
      case True
      have "d \<noteq> Ready p" for p using that(6) b(5,6) by auto
      then show ?thesis using True that(2,6) ev dl b(5,6) by (auto simp: task_ok_def)
    next
      case False
      show ?thesis by (rule task_ok_other [OF other]) (use False that(2,3,5) in simp_all)
    qed
  qed
  show thesis
  proof (cases "n = portMAX_DELAY \<and> b")
    case True
    define ls where "ls = vListInsertEnd ls1 SuspendedTasks (StateItem c)"
    have i: "klists_ok ls" "pxContainer ls = (pxContainer ls1)(StateItem c := Some SuspendedTasks)" "same_items ls ls1"
      "uxNumberOfItems ls = (uxNumberOfItems ls1)(SuspendedTasks := uxNumberOfItems ls1 SuspendedTasks + 1)"
      using klists_insert_end [OF r(2), of "StateItem c" SuspendedTasks] r(3) o by (auto simp: ls_def)
    have e: "pxContainer ls = (at s)(StateItem c := Some SuspendedTasks)" "same_items ls (lists s)" using i(2,3) r(3,4) by (simp_all add: same_items_def)
    have "prvAddCurrentTaskToDelayedList n b s = Some (s\<lparr>lists := ls, xNextTaskUnblockTime := xNextTaskUnblockTime s\<rparr>)"
      using True c(1) r(1) by (simp add: prvAddCurrentTaskToDelayedList_def ls_def)
    moreover have "kernel_ok (s\<lparr>lists := ls, xNextTaskUnblockTime := xNextTaskUnblockTime s\<rparr>)"
      by (rule keep [OF i(1) e(1)]) (use e(2) i(4) r(5) l(2) in \<open>simp_all add: same_items_def\<close>)
    ultimately show thesis using that [of "xNextTaskUnblockTime s" ls SuspendedTasks] e True by (simp add: same_items_def)
  next
    case False
    define w where "w = xTickCount s + n"
    define ls2 where "ls2 = listSET_LIST_ITEM_VALUE ls1 (StateItem c) w"
    have k2: "klists_ok ls2" "pxContainer ls2 (StateItem c) = None" "owned ls2 (item_task (StateItem c))"
      using klists_set_value [OF r(2)] r(3) o by (auto simp: ls2_def owned_def)
    define d where "d = (if w < xTickCount s then pxOverflowDelayedTaskList s else pxDelayedTaskList s)"
    have fd: "fits (StateItem c) d" "timed d" using b(5,6) by (auto simp: d_def)
    obtain ls where i: "vListInsert ls2 d (StateItem c) = Some ls" "klists_ok ls" "pxContainer ls = (pxContainer ls2)(StateItem c := Some d)" "same_items ls ls2"
      "uxNumberOfItems ls = (uxNumberOfItems ls2)(d := uxNumberOfItems ls2 d + 1)" using klists_insert [OF k2(1,2) fd(1) k2(3)] .
    have e: "pxContainer ls = (at s)(StateItem c := Some d)" "pvOwner ls = pvOwner (lists s)" "item_key ls (StateItem c) = w"
      "\<And>u. u \<noteq> StateItem c \<Longrightarrow> item_key ls u = item_key (lists s) u" using i(3,4) r(3,4) by (simp_all add: ls2_def same_items_def)
    define nx where "nx = (if w < xTickCount s \<or> \<not> w < xNextTaskUnblockTime s then xNextTaskUnblockTime s else w)"
    have "w \<noteq> xTickCount s" using n by (simp add: w_def)
    then have "d = pxOverflowDelayedTaskList s \<and> w < xTickCount s \<or> d = pxDelayedTaskList s \<and> xTickCount s < w \<and> nx \<le> w" "nx \<le> xNextTaskUnblockTime s"
      by (auto simp: d_def nx_def)
    moreover have "uxNumberOfItems ls WaitingTermination = uxNumberOfItems (lists s) WaitingTermination"
      using i(5) r(5) l(2) fd(2) by (auto simp: ls2_def)
    ultimately have "kernel_ok (s\<lparr>lists := ls, xNextTaskUnblockTime := nx\<rparr>)" using keep [OF i(2) e(1,4)] e(3) by blast
    moreover have "prvAddCurrentTaskToDelayedList n b s = Some (s\<lparr>lists := ls, xNextTaskUnblockTime := nx\<rparr>)"
      using False c(1) r(1) i(1) by (auto simp: prvAddCurrentTaskToDelayedList_def Let_def nx_def d_def ls2_def w_def)
    ultimately show thesis using that [of nx ls d] e fd(2) False by (simp add: d_def w_def)
  qed
qed

section \<open>Suspending the scheduler\<close>

lemma event_leaves:
  assumes k: "kernel_ok s" and e: "at s (EventItem t) = Some e"
  obtains ls where "listREMOVE_ITEM (lists s) (EventItem t) = Some ls" "kernel_ok (s\<lparr>lists := ls\<rparr>)"
    "pxContainer ls = (at s)(EventItem t := None)" "same_items ls (lists s)"
proof -
  have b: "kernel_base s" using k by (simp add: kernel_ok_iff)
  obtain ls where r: "listREMOVE_ITEM (lists s) (EventItem t) = Some ls" "klists_ok ls" "pxContainer ls = (at s)(EventItem t := None)" "same_items ls (lists s)"
    "uxNumberOfItems ls = (uxNumberOfItems (lists s))(e := uxNumberOfItems (lists s) e - 1)" using klists_remove [OF baseD(1) [OF b] e] .
  have "e \<noteq> WaitingTermination" using klists_fits [OF baseD(1) [OF b] e] by auto
  then have "kernel_base (s\<lparr>lists := ls\<rparr>)" using b r(2,5) by (simp add: kernel_base_def)
  moreover have "task_ok (s\<lparr>lists := ls\<rparr>) u" for u
    using kernel_ok_baseD(2) [OF k, of u] r(3,4) by (cases "u = t") (simp_all add: task_ok_def same_items_def)
  ultimately have "kernel_ok (s\<lparr>lists := ls\<rparr>)" by (simp add: kernel_ok_iff)
  then show thesis using that r by blast
qed

lemma event_live: "kernel_ok s \<Longrightarrow> at s (EventItem t) = Some e \<Longrightarrow> live s t"
  using kernel_coreD(2) [of s t] by (simp add: kernel_ok_def)

text \<open>The tasks that interrupts made ready while the scheduler was suspended, and where their items go.\<close>

abbreviation pended :: "kernel \<Rightarrow> nat \<Rightarrow> bool" where
  "pended s t \<equiv> at s (EventItem t) = Some PendingReady"

fun resumed_at :: "kernel \<Rightarrow> item_id \<Rightarrow> list_id option" where
  "resumed_at s (StateItem t) = (if pended s t then Some (Ready (uxPriority s t)) else at s (StateItem t))"
| "resumed_at s (EventItem t) = (if pended s t then None else at s (EventItem t))"

definition resumed :: "kernel \<Rightarrow> kernel \<Rightarrow> bool" where
  "resumed s s' \<longleftrightarrow>
     (\<exists>ls tp. s' = s\<lparr>lists := ls, uxTopReadyPriority := tp, xYieldPending := xYieldPending s'\<rparr> \<and> pxContainer ls = resumed_at s \<and> same_items ls (lists s)) \<and>
     kernel_ok s' \<and> (xYieldPending s' \<longleftrightarrow> xYieldPending s \<or> (\<exists>t. pended s t \<and> uxPriority s t > uxPriority s (the (pxCurrentTCB s))))"

lemma pending_loop_returns:
  assumes "kernel_ok s"
  shows "\<exists>s'. pending_loop any s = Some (any \<or> (\<exists>t. pended s t), s') \<and> resumed s s'"
  using assms
proof (induction "card {i. at s i = Some PendingReady}" arbitrary: s any rule: less_induct)
  case less
  note b = baseD [OF kernel_ok_baseD(1) [OF less(2)]]
  show ?case
  proof (cases "listLIST_IS_EMPTY (lists s) PendingReady")
    case True
    then have none: "\<not> pended s t" for t by (simp add: is_empty [OF b(1)])
    have "resumed_at s i = at s i" for i using none by (cases i) auto
    then have "resumed s s" using less(2) none unfolding resumed_def by (intro conjI exI [of _ "lists s"] exI [of _ "uxTopReadyPriority s"]) (auto simp: same_items_def)
    then show ?thesis using True none by (subst pending_loop.simps) auto
  next
    case False
    obtain i where h: "pxNext (lists s) (EndOf PendingReady) = ItemOf i" "at s i = Some PendingReady" "pvOwner (lists s) i = Some (item_task i)"
      using head_of_list [OF b(1) False] by metis
    obtain t where i: "i = EventItem t" using klists_fits [OF b(1) h(2)] by (cases i) auto
    have own: "listGET_OWNER_OF_HEAD_ENTRY (lists s) PendingReady = Some t" using head_owner [OF h(1)] h(3) i by simp
    have p: "pended s t" using h(2) i by simp
    obtain ls1 where e: "listREMOVE_ITEM (lists s) (EventItem t) = Some ls1" "kernel_ok (s\<lparr>lists := ls1\<rparr>)"
      "pxContainer ls1 = (at s)(EventItem t := None)" "same_items ls1 (lists s)" using event_leaves [OF less(2) p] .
    define s1 where "s1 = s\<lparr>lists := ls1\<rparr>"
    have k1: "kernel_ok s1" using e(2) by (simp add: s1_def)
    obtain l where l: "at s1 (StateItem t) = Some l" "l \<noteq> WaitingTermination"
      using liveE [OF event_live [OF less(2) p]] e(3) by (auto simp: s1_def)
    obtain ls2 ls3 where r: "listREMOVE_ITEM (lists s1) (StateItem t) = Some ls2" "pxContainer ls2 = (at s1)(StateItem t := None)"
      "prvAddTaskToReadyList t (s1\<lparr>lists := ls2\<rparr>) = s1\<lparr>lists := ls3, uxTopReadyPriority := top_with s1 t\<rparr>"
      "kernel_ok (s1\<lparr>lists := ls3, uxTopReadyPriority := top_with s1 t\<rparr>)" "pxContainer ls3 = (at s1)(StateItem t := Some (Ready (uxPriority s1 t)))"
      "same_items ls3 (lists s1)" using state_to_ready [OF k1 l] .
    obtain c where c: "pxCurrentTCB s = Some c" using b(4) by blast
    define y where "y \<longleftrightarrow> xYieldPending s \<or> uxPriority s t > uxPriority s c"
    define s2 where "s2 = s\<lparr>lists := ls3, uxTopReadyPriority := top_with s t, xYieldPending := y\<rparr>"
    have tw: "top_with s1 t = top_with s t" by (simp add: s1_def top_with_def)
    have k2: "kernel_ok s2" using r(4) tw by (simp add: s2_def s1_def)
    have c2: "at s2 = (at s)(EventItem t := None, StateItem t := Some (Ready (uxPriority s t)))" using r(5) e(3) by (simp add: s2_def s1_def)
    have p2: "pended s2 u \<longleftrightarrow> pended s u \<and> u \<noteq> t" for u by (simp add: c2)
    have step: "pending_loop any s = pending_loop True s2"
    proof -
      have "(if uxPriority s t > uxPriority s c then s\<lparr>lists := ls3, uxTopReadyPriority := top_with s t, xYieldPending := True\<rparr>
          else s\<lparr>lists := ls3, uxTopReadyPriority := top_with s t\<rparr>) = s2" by (cases s) (simp add: s2_def y_def)
      then show ?thesis using False own e(1) r(1,3) c tw
        by (subst pending_loop.simps) (simp add: s1_def Let_def split del: if_split cong: if_cong)
    qed
    have "{i. at s2 i = Some PendingReady} \<subset> {i. at s i = Some PendingReady}" using p by (auto simp: c2)
    then have "card {i. at s2 i = Some PendingReady} < card {i. at s i = Some PendingReady}"
      using psubset_card_mono [OF finite_in_list [OF b(1)]] by blast
    then obtain s' where IH: "pending_loop True s2 = Some (True, s')" "resumed s2 s'" using less(1) [OF _ k2, of True] by auto
    obtain ls tp where u: "s' = s2\<lparr>lists := ls, uxTopReadyPriority := tp, xYieldPending := xYieldPending s'\<rparr>" "pxContainer ls = resumed_at s2" "same_items ls (lists s2)"
      "kernel_ok s'" "xYieldPending s' \<longleftrightarrow> xYieldPending s2 \<or> (\<exists>t. pended s2 t \<and> uxPriority s2 t > uxPriority s2 (the (pxCurrentTCB s2)))"
      using IH(2) unfolding resumed_def by blast
    have "resumed s s'"
      unfolding resumed_def
    proof (intro conjI exI)
      show "s' = s\<lparr>lists := ls, uxTopReadyPriority := tp, xYieldPending := xYieldPending s'\<rparr>" by (subst u(1)) (simp add: s2_def)
      have "uxPriority s2 = uxPriority s" by (simp add: s2_def)
      then have "resumed_at s2 j = resumed_at s j" for j using p by (cases j) (simp_all add: c2)
      then show "pxContainer ls = resumed_at s" using u(2) by auto
      show "same_items ls (lists s)" using u(3) r(6) e(4) by (simp add: same_items_def s2_def s1_def)
      show "kernel_ok s'" by (rule u(4))
      have "uxPriority s2 = uxPriority s" "the (pxCurrentTCB s2) = c" "xYieldPending s2 = y" using c by (simp_all add: s2_def)
      then show "xYieldPending s' = (xYieldPending s \<or> (\<exists>t. pended s t \<and> uxPriority s t > uxPriority s (the (pxCurrentTCB s))))"
        unfolding u(5) p2 y_def using p c by auto
    qed
    then show ?thesis using step IH(1) p by auto
  qed
qed

lemma resumed_kinv:
  assumes k: "kinv idle s" and r: "resumed s s'"
  shows "kinv idle s'" "uxSchedulerSuspended s' = uxSchedulerSuspended s" "xPendedTicks s' = xPendedTicks s"
proof -
  obtain ls tp where u: "s' = s\<lparr>lists := ls, uxTopReadyPriority := tp, xYieldPending := xYieldPending s'\<rparr>" "pxContainer ls = resumed_at s" "kernel_ok s'"
    "xYieldPending s' \<longleftrightarrow> xYieldPending s \<or> (\<exists>t. pended s t \<and> uxPriority s t > uxPriority s (the (pxCurrentTCB s)))"
    using r unfolding resumed_def by blast
  have f: "uxPriority s' = uxPriority s" "pxCurrentTCB s' = pxCurrentTCB s" "pendsv s' = pendsv s" "at s' = resumed_at s" using u(2) by (subst u(1), simp)+
  have "well_scheduled s'"
  proof (rule sched_step [of s])
    show "at s (StateItem t) = Some (Ready q) \<or> q \<le> uxPriority s' (the (pxCurrentTCB s'))"
      if "at s' (StateItem t) = Some (Ready q)" "\<not> xYieldPending s'" for t q
      using that u(4) by (auto simp: f not_less split: if_splits)
  qed (use k u(4) f in \<open>auto simp: kinv_def\<close>)
  then show "kinv idle s'" using k u(3) f by (auto simp: kinv_def task_ready_def)
  show "uxSchedulerSuspended s' = uxSchedulerSuspended s" "xPendedTicks s' = xPendedTicks s" by (subst u(1), simp)+
qed

lemma kinv_reset: "kinv idle s \<Longrightarrow> kinv idle (prvResetNextTaskUnblockTime s)"
  by (simp add: kinv_def reset_ok well_scheduled_def task_ready_def)

lemma resume_kinv:
  assumes k: "kinv idle s" and u: "uxSchedulerSuspended s \<noteq> 0"
  obtains b s' where "xTaskResumeAll s = Some (b, s')" "kinv idle s'" "uxSchedulerSuspended s' = uxSchedulerSuspended s - 1"
proof -
  define s1 where "s1 = s\<lparr>uxSchedulerSuspended := uxSchedulerSuspended s - 1\<rparr>"
  have k1: "kinv idle s1" using k by (simp add: s1_def)
  have s1u: "uxSchedulerSuspended s1 = uxSchedulerSuspended s - 1" by (simp add: s1_def)
  show thesis
  proof (cases "uxSchedulerSuspended s1 = 0 \<and> uxCurrentNumberOfTasks s1 > 0")
    case False
    have "xTaskResumeAll s = Some (False, s1)"
      unfolding xTaskResumeAll_def Let_def s1_def [symmetric] using False u by (auto simp: configASSERT_def)
    then show thesis using that k1 s1u by blast
  next
    case True
    obtain any s2 where p: "pending_loop False s1 = Some (any, s2)" "resumed s1 s2" using pending_loop_returns [of s1 False] k1 by (auto simp: kinv_def)
    note r = resumed_kinv [OF k1 p(2)]
    define s3 where "s3 = (if any then prvResetNextTaskUnblockTime s2 else s2)"
    have k3: "kinv idle s3" "uxSchedulerSuspended s3 = 0" using r True by (simp_all add: s3_def kinv_reset)
    obtain s4 where t: "replay_ticks (unat (xPendedTicks s3)) s3 = Some s4" "kinv idle s4" "uxSchedulerSuspended s4 = 0" using replay_kinv [OF k3] by blast
    define s5 where "s5 = (if xPendedTicks s3 > 0 then s4\<lparr>xPendedTicks := 0\<rparr> else s3)"
    have k5: "kinv idle s5" "uxSchedulerSuspended s5 = 0" using k3 t by (simp_all add: s5_def)
    have "xTaskResumeAll s = Some (if xYieldPending s5 then (True, vPortYield s5) else (False, s5))"
      unfolding xTaskResumeAll_def Let_def s1_def [symmetric] using True u p(1) t(1)
      by (simp add: configASSERT_def s3_def [symmetric] s5_def split del: if_split cong: if_cong) (auto simp: s5_def)
    then show thesis using that k5 True s1u by (cases "xYieldPending s5") (auto simp: vPortYield_def)
  qed
qed

end
