(* ===== verification/Rtos_Pend.thy ===== *)
theory Rtos_Pend
  imports Rtos_Tasks
begin

text \<open>
  The request for a switch is write-only: apart from the handler that serves it, no call of the scheduler reads it, so every call
  does the same from a state in which a switch has been asked for as from that state without the request.
\<close>

definition pend :: "kernel \<Rightarrow> kernel" where
  "pend s = s\<lparr>pendsv := True\<rparr>"

lemma pend_fields [simp]:
  "lists (pend s) = lists s" "uxPriority (pend s) = uxPriority s" "uxBasePriority (pend s) = uxBasePriority s"
  "uxMutexesHeld (pend s) = uxMutexesHeld s" "ucNotifyState (pend s) = ucNotifyState s" "ulNotifiedValue (pend s) = ulNotifiedValue s"
  "pxCurrentTCB (pend s) = pxCurrentTCB s" "pxDelayedTaskList (pend s) = pxDelayedTaskList s"
  "pxOverflowDelayedTaskList (pend s) = pxOverflowDelayedTaskList s" "uxDeletedTasksWaitingCleanUp (pend s) = uxDeletedTasksWaitingCleanUp s"
  "uxCurrentNumberOfTasks (pend s) = uxCurrentNumberOfTasks s" "xTickCount (pend s) = xTickCount s"
  "uxTopReadyPriority (pend s) = uxTopReadyPriority s" "xSchedulerRunning (pend s) = xSchedulerRunning s"
  "xPendedTicks (pend s) = xPendedTicks s" "xYieldPending (pend s) = xYieldPending s" "xNumOfOverflows (pend s) = xNumOfOverflows s"
  "xNextTaskUnblockTime (pend s) = xNextTaskUnblockTime s" "uxSchedulerSuspended (pend s) = uxSchedulerSuspended s" "pendsv (pend s)"
  by (simp_all add: pend_def)

lemma pend_updates [simp]:
  "(pend s)\<lparr>lists := ls\<rparr> = pend (s\<lparr>lists := ls\<rparr>)" "(pend s)\<lparr>uxPriority := f\<rparr> = pend (s\<lparr>uxPriority := f\<rparr>)"
  "(pend s)\<lparr>uxBasePriority := f\<rparr> = pend (s\<lparr>uxBasePriority := f\<rparr>)" "(pend s)\<lparr>uxMutexesHeld := f\<rparr> = pend (s\<lparr>uxMutexesHeld := f\<rparr>)"
  "(pend s)\<lparr>ucNotifyState := g\<rparr> = pend (s\<lparr>ucNotifyState := g\<rparr>)" "(pend s)\<lparr>ulNotifiedValue := f\<rparr> = pend (s\<lparr>ulNotifiedValue := f\<rparr>)"
  "(pend s)\<lparr>pxCurrentTCB := c\<rparr> = pend (s\<lparr>pxCurrentTCB := c\<rparr>)" "(pend s)\<lparr>pxDelayedTaskList := l\<rparr> = pend (s\<lparr>pxDelayedTaskList := l\<rparr>)"
  "(pend s)\<lparr>pxOverflowDelayedTaskList := l\<rparr> = pend (s\<lparr>pxOverflowDelayedTaskList := l\<rparr>)"
  "(pend s)\<lparr>uxDeletedTasksWaitingCleanUp := n\<rparr> = pend (s\<lparr>uxDeletedTasksWaitingCleanUp := n\<rparr>)"
  "(pend s)\<lparr>uxCurrentNumberOfTasks := n\<rparr> = pend (s\<lparr>uxCurrentNumberOfTasks := n\<rparr>)" "(pend s)\<lparr>xTickCount := n\<rparr> = pend (s\<lparr>xTickCount := n\<rparr>)"
  "(pend s)\<lparr>uxTopReadyPriority := n\<rparr> = pend (s\<lparr>uxTopReadyPriority := n\<rparr>)" "(pend s)\<lparr>xSchedulerRunning := b\<rparr> = pend (s\<lparr>xSchedulerRunning := b\<rparr>)"
  "(pend s)\<lparr>xPendedTicks := n\<rparr> = pend (s\<lparr>xPendedTicks := n\<rparr>)" "(pend s)\<lparr>xYieldPending := b\<rparr> = pend (s\<lparr>xYieldPending := b\<rparr>)"
  "(pend s)\<lparr>xNumOfOverflows := n\<rparr> = pend (s\<lparr>xNumOfOverflows := n\<rparr>)" "(pend s)\<lparr>xNextTaskUnblockTime := n\<rparr> = pend (s\<lparr>xNextTaskUnblockTime := n\<rparr>)"
  "(pend s)\<lparr>uxSchedulerSuspended := n\<rparr> = pend (s\<lparr>uxSchedulerSuspended := n\<rparr>)"
  "pend (pend s) = pend s" "(pend s)\<lparr>pendsv := False\<rparr> = s\<lparr>pendsv := False\<rparr>"
  by (simp_all add: pend_def)

named_theorems pends

lemma pend_again [pends]: "s\<lparr>pendsv := True\<rparr> = pend s"
  by (simp add: pend_def)

lemma pend_yield [simp]: "vPortYield (pend s) = pend (vPortYield s)"
  by (simp add: vPortYield_def pends)

text \<open>Through the steps of a call that can fail.\<close>

lemma bind_map: "map_option f m \<bind> g = m \<bind> (\<lambda>x. g (f x))"
  by (cases m) simp_all

lemma map_bind: "map_option f (m \<bind> g) = m \<bind> (\<lambda>x. map_option f (g x))"
  by (cases m) simp_all

lemma bind_cong': "m = m' \<Longrightarrow> (\<And>x. m' = Some x \<Longrightarrow> g x = g' x) \<Longrightarrow> m \<bind> g = m' \<bind> g'"
  by (cases m') simp_all

lemma bind_if: "(if b then (m :: 'a option) else m') \<bind> g = (if b then m \<bind> g else m' \<bind> g)"
  by simp

lemma pend_if: "(if b then pend s else pend s') = pend (if b then s else s')"
  by simp

lemma pend_absorb: "pend (if b then pend s else s) = pend s"
  by simp

lemmas through = bind_map map_bind bind_if pend_absorb pend_if option.map_comp comp_def case_prod_unfold Let_def if_distrib [of "map_option f" for f]
  if_distrib [of "map_prod id pend"]

lemma pend_add [pends]: "prvAddTaskToReadyList t (pend s) = pend (prvAddTaskToReadyList t s)"
  by (simp add: prvAddTaskToReadyList_def through pends cong: if_cong)

lemma pend_reset [pends]: "prvResetNextTaskUnblockTime (pend s) = pend (prvResetNextTaskUnblockTime s)"
  by (simp add: prvResetNextTaskUnblockTime_def through pends cong: if_cong)

lemma pend_switch_delayed [pends]: "taskSWITCH_DELAYED_LISTS (pend s) = map_option pend (taskSWITCH_DELAYED_LISTS s)"
  by (simp add: taskSWITCH_DELAYED_LISTS_def through pends cong: if_cong)

lemma pend_suspend_all [pends]: "vTaskSuspendAll (pend s) = pend (vTaskSuspendAll s)"
  by (simp add: vTaskSuspendAll_def through pends cong: if_cong)

lemma pend_delayed [pends]: "prvAddCurrentTaskToDelayedList n b (pend s) = map_option pend (prvAddCurrentTaskToDelayedList n b s)"
  by (simp add: prvAddCurrentTaskToDelayedList_def through pends cong: if_cong)

lemma pend_handle [pends]: "prvGetTCBFromHandle h (pend s) = prvGetTCBFromHandle h s"
  by (simp add: prvGetTCBFromHandle_def through pends cong: if_cong)

lemma pend_higher [pends]: "yield_if_higher t (pend s) = map_option pend (yield_if_higher t s)"
  by (simp add: yield_if_higher_def through pends cong: if_cong)


text \<open>
  The loops, in both directions: from either state the loop takes the same steps, so a run of one of them is a run of the other.
\<close>

lemma unblock_loop_pend:
  assumes "unblock_loop n sw s1 = Some y"
  shows "\<forall>s. (s1 = s \<longrightarrow> unblock_loop n sw (pend s) = Some (map_prod id pend y)) \<and>
    (s1 = pend s \<longrightarrow> (\<exists>y'. unblock_loop n sw s = Some y' \<and> y = map_prod id pend y'))"
proof (rule unblock_loop.raw_induct [where P = "\<lambda>n sw s1 y. \<forall>s. (s1 = s \<longrightarrow> unblock_loop n sw (pend s) = Some (map_prod id pend y)) \<and>
    (s1 = pend s \<longrightarrow> (\<exists>y'. unblock_loop n sw s = Some y' \<and> y = map_prod id pend y'))", OF _ assms], goal_cases)
  case (1 loop n sw s1 y)
  note unfold = unblock_loop.simps [of n sw s for s]
  show ?case
  proof (cases "listLIST_IS_EMPTY (lists s1) (pxDelayedTaskList s1)")
    case True
    then have "y = (sw, s1\<lparr>xNextTaskUnblockTime := portMAX_DELAY\<rparr>)" using 1(2) by simp
    then show ?thesis using True by (auto simp: unfold)
  next
    case ne: False
    obtain t where t: "listGET_OWNER_OF_HEAD_ENTRY (lists s1) (pxDelayedTaskList s1) = Some t"
      using 1(2) ne by (auto simp: bind_eq_Some_conv)
    show ?thesis
    proof (cases "n < xItemValue (lists s1) (ItemOf (StateItem t))")
      case True
      then have "y = (sw, s1\<lparr>xNextTaskUnblockTime := xItemValue (lists s1) (ItemOf (StateItem t))\<rparr>)" using 1(2) ne t by simp
      then show ?thesis using True ne t by (auto simp: unfold)
    next
      case nl: False
      obtain ls ls' c where r: "listREMOVE_ITEM (lists s1) (StateItem t) = Some ls" "remove_event_item ls t = Some ls'" "pxCurrentTCB s1 = Some c"
        using 1(2) ne t nl by (auto simp: bind_eq_Some_conv Let_def)
      define sw' where "sw' = (if uxPriority s1 t > uxPriority s1 c then True else sw)"
      have "loop n sw' (prvAddTaskToReadyList t (s1\<lparr>lists := ls'\<rparr>)) = Some y"
        using 1(2) ne t nl r by (simp add: sw'_def Let_def)
      note IH = 1(1) [OF this, rule_format]
      have u: "unblock_loop n sw s = unblock_loop n sw' (prvAddTaskToReadyList t (s\<lparr>lists := ls'\<rparr>))" if "s = s1 \<or> s = pend s1 \<or> s1 = pend s" for s
        using that ne t nl r by (subst unfold) (auto simp: sw'_def Let_def)
      show ?thesis
      proof (intro allI conjI impI)
        show "unblock_loop n sw (pend s) = Some (map_prod id pend y)" if "s1 = s" for s
          using u [of "pend s"] IH [of "prvAddTaskToReadyList t (s1\<lparr>lists := ls'\<rparr>)"] that by (simp add: pends)
        show "\<exists>y'. unblock_loop n sw s = Some y' \<and> y = map_prod id pend y'" if "s1 = pend s" for s
          using u [of s] IH [of "prvAddTaskToReadyList t (s\<lparr>lists := ls'\<rparr>)"] that by (simp add: pends)
      qed
    qed
  qed
qed

lemma pend_unblock [pends]: "unblock_loop n sw (pend s) = map_option (map_prod id pend) (unblock_loop n sw s)"
proof (cases "unblock_loop n sw s")
  case None
  then have "unblock_loop n sw (pend s) \<noteq> Some y" for y
    using unblock_loop_pend [of n sw "pend s" y, THEN spec [of _ s]] by auto
  then show ?thesis using None by (cases "unblock_loop n sw (pend s)") auto
next
  case (Some y)
  then show ?thesis using unblock_loop_pend [OF Some, THEN spec [of _ s]] by simp
qed

lemma pending_loop_pend:
  assumes "pending_loop any s1 = Some y"
  shows "\<forall>s. (s1 = s \<longrightarrow> pending_loop any (pend s) = Some (map_prod id pend y)) \<and>
    (s1 = pend s \<longrightarrow> (\<exists>y'. pending_loop any s = Some y' \<and> y = map_prod id pend y'))"
proof (rule pending_loop.raw_induct [where P = "\<lambda>any s1 y. \<forall>s. (s1 = s \<longrightarrow> pending_loop any (pend s) = Some (map_prod id pend y)) \<and>
    (s1 = pend s \<longrightarrow> (\<exists>y'. pending_loop any s = Some y' \<and> y = map_prod id pend y'))", OF _ assms], goal_cases)
  case (1 loop any s1 y)
  note unfold = pending_loop.simps [of any s for s]
  show ?case
  proof (cases "listLIST_IS_EMPTY (lists s1) PendingReady")
    case True
    then have "y = (any, s1)" using 1(2) by simp
    then show ?thesis using True by (auto simp: unfold)
  next
    case ne: False
    obtain t ls ls' c where r: "listGET_OWNER_OF_HEAD_ENTRY (lists s1) PendingReady = Some t" "listREMOVE_ITEM (lists s1) (EventItem t) = Some ls"
      "listREMOVE_ITEM ls (StateItem t) = Some ls'" "pxCurrentTCB s1 = Some c"
      using 1(2) ne by (auto simp: bind_eq_Some_conv Let_def)
    define hi where "hi = (uxPriority s1 t > uxPriority s1 c)"
    define next_state where "next_state = (\<lambda>s. let s = prvAddTaskToReadyList t (s\<lparr>lists := ls'\<rparr>) in if hi then s\<lparr>xYieldPending := True\<rparr> else s)"
    have pn: "next_state (pend s) = pend (next_state s)" for s by (simp add: next_state_def Let_def pends)
    have pa: "uxPriority (prvAddTaskToReadyList t s) = uxPriority s" for s by (simp add: prvAddTaskToReadyList_def)
    have "loop True (next_state s1) = Some y"
      using 1(2) ne r by (simp add: next_state_def hi_def Let_def pa)
    note IH = 1(1) [OF this, rule_format]
    have u: "pending_loop any s = pending_loop True (next_state s)" if "s = s1 \<or> s = pend s1 \<or> s1 = pend s" for s
      using that ne r by (subst unfold) (auto simp: next_state_def hi_def Let_def pa)
    show ?thesis
    proof (intro allI conjI impI)
      show "pending_loop any (pend s) = Some (map_prod id pend y)" if "s1 = s" for s
        using u [of "pend s"] IH [of "next_state s1"] that by (simp add: pn)
      show "\<exists>y'. pending_loop any s = Some y' \<and> y = map_prod id pend y'" if "s1 = pend s" for s
        using u [of s] IH [of "next_state s"] that by (simp add: pn)
    qed
  qed
qed

lemma pend_pending [pends]: "pending_loop any (pend s) = map_option (map_prod id pend) (pending_loop any s)"
proof (cases "pending_loop any s")
  case None
  then have "pending_loop any (pend s) \<noteq> Some y" for y
    using pending_loop_pend [of any "pend s" y, THEN spec [of _ s]] by auto
  then show ?thesis using None by (cases "pending_loop any (pend s)") auto
next
  case (Some y)
  then show ?thesis using pending_loop_pend [OF Some, THEN spec [of _ s]] by simp
qed

section \<open>The calls\<close>

lemma pend_tick [pends]: "xTaskIncrementTick (pend s) = map_option (map_prod id pend) (xTaskIncrementTick s)"
  by (simp add: xTaskIncrementTick_def through pends cong: if_cong option.case_cong)

lemma pend_replay [pends]: "replay_ticks n (pend s) = map_option pend (replay_ticks n s)"
  by (induction n arbitrary: s) (simp_all add: through pends cong: if_cong)

lemma pend_sys_tick [pends]: "SysTick_Handler (pend s) = map_option pend (SysTick_Handler s)"
  by (simp add: SysTick_Handler_def through pends cong: if_cong option.case_cong)

lemma pend_resume [pends]: "xTaskResumeAll (pend s) = map_option (map_prod id pend) (xTaskResumeAll s)"
  by (simp add: xTaskResumeAll_def through pends cong: if_cong option.case_cong)

lemma pend_yield_unless [pends]: "yield_unless (map_prod id pend r) = pend (yield_unless r)" "yield_unless (b, pend s) = pend (yield_unless (b, s))"
  by (simp_all add: yield_unless_def)

lemma pend_delay_block [pends]: "delay_block n (pend s) = map_option pend (delay_block n s)"
  by (simp add: delay_block_def through pends cong: if_cong option.case_cong)

lemma pend_delay [pends]: "vTaskDelay n (pend s) = map_option pend (vTaskDelay n s)"
  by (simp add: vTaskDelay_def through pends cong: if_cong option.case_cong)

lemma pend_delay_until [pends]: "xTaskDelayUntil prev inc (pend s) = map_option (map_prod id (map_prod id pend)) (xTaskDelayUntil prev inc s)"
  by (simp add: xTaskDelayUntil_def through pends cong: if_cong option.case_cong)

lemma pend_place [pends]: "vTaskPlaceOnEventList e n (pend s) = map_option pend (vTaskPlaceOnEventList e n s)"
  by (simp add: vTaskPlaceOnEventList_def through pends cong: if_cong option.case_cong)

lemma pend_place_unordered [pends]: "vTaskPlaceOnUnorderedEventList e v n (pend s) = map_option pend (vTaskPlaceOnUnorderedEventList e v n s)"
  by (simp add: vTaskPlaceOnUnorderedEventList_def through pends cong: if_cong option.case_cong)

lemma pend_place_restricted [pends]: "vTaskPlaceOnEventListRestricted e n w (pend s) = map_option pend (vTaskPlaceOnEventListRestricted e n w s)"
  by (simp add: vTaskPlaceOnEventListRestricted_def through pends cong: if_cong option.case_cong)

lemma pend_remove [pends]: "xTaskRemoveFromEventList e (pend s) = map_option (map_prod id pend) (xTaskRemoveFromEventList e s)"
  by (simp add: xTaskRemoveFromEventList_def through pends cong: if_cong option.case_cong)

lemma pend_remove_unordered [pends]: "vTaskRemoveFromUnorderedEventList i v (pend s) = map_option pend (vTaskRemoveFromUnorderedEventList i v s)"
  by (simp add: vTaskRemoveFromUnorderedEventList_def through pends cong: if_cong option.case_cong)

lemma pend_reset_event [pends]: "uxTaskResetEventItemValue (pend s) = map_option (map_prod id pend) (uxTaskResetEventItemValue s)"
  by (simp add: uxTaskResetEventItemValue_def through pends cong: if_cong option.case_cong)

lemma pend_missed [pends]: "vTaskMissedYield (pend s) = pend (vTaskMissedYield s)"
  by (simp add: vTaskMissedYield_def through pends cong: if_cong option.case_cong)

lemma pend_initialise [pends]: "prvInitialiseNewTask t p (pend s) = map_option pend (prvInitialiseNewTask t p s)"
  by (simp add: prvInitialiseNewTask_def through pends cong: if_cong option.case_cong)

lemma pend_lists [pends]: "prvInitialiseTaskLists (pend s) = pend (prvInitialiseTaskLists s)"
  by (simp add: prvInitialiseTaskLists_def through pends cong: if_cong option.case_cong)

lemma pend_add_new [pends]: "prvAddNewTaskToReadyList t (pend s) = map_option pend (prvAddNewTaskToReadyList t s)"
  by (cases "pxCurrentTCB s") (simp_all add: prvAddNewTaskToReadyList_def through pends cong: if_cong option.case_cong)

lemma pend_create [pends]: "xTaskCreate t p (pend s) = map_option pend (xTaskCreate t p s)"
  by (simp add: xTaskCreate_def through pends cong: if_cong option.case_cong)

lemma pend_delete [pends]: "vTaskDelete h (pend s) = map_option pend (vTaskDelete h s)"
  by (simp add: vTaskDelete_def through pends cong: if_cong option.case_cong)

lemma pend_check [pends]: "prvCheckTasksWaitingTermination (pend s) = map_option pend (prvCheckTasksWaitingTermination s)"
  by (simp add: prvCheckTasksWaitingTermination_def through pends cong: if_cong option.case_cong)

lemma pend_select [pends]: "taskSELECT_HIGHEST_PRIORITY_TASK (pend s) = map_option pend (taskSELECT_HIGHEST_PRIORITY_TASK s)"
  by (simp add: taskSELECT_HIGHEST_PRIORITY_TASK_def through pends cong: if_cong option.case_cong)

lemma pend_switch [pends]: "vTaskSwitchContext (pend s) = map_option pend (vTaskSwitchContext s)"
  by (simp add: vTaskSwitchContext_def through pends cong: if_cong option.case_cong)

lemma pend_suspend [pends]: "vTaskSuspend h (pend s) = map_option pend (vTaskSuspend h s)"
  by (simp add: vTaskSuspend_def through pends cong: if_cong option.case_cong)

lemma pend_is_suspended [pends]: "prvTaskIsTaskSuspended t (pend s) = (prvTaskIsTaskSuspended t s)"
  by (simp add: prvTaskIsTaskSuspended_def through pends cong: if_cong option.case_cong)

lemma pend_resume_task [pends]: "vTaskResume t (pend s) = map_option pend (vTaskResume t s)"
  by (simp add: vTaskResume_def through pends cong: if_cong option.case_cong)

lemma pend_resume_isr [pends]: "xTaskResumeFromISR t (pend s) = map_option (map_prod id pend) (xTaskResumeFromISR t s)"
  by (simp add: xTaskResumeFromISR_def through pends cong: if_cong option.case_cong)

lemma pend_requeue [pends]: "requeue_ready t p (pend s) = map_option pend (requeue_ready t p s)"
  by (simp add: requeue_ready_def through pends cong: if_cong option.case_cong)

lemma pend_priority_set [pends]: "vTaskPrioritySet h p (pend s) = map_option pend (vTaskPrioritySet h p s)"
  by (simp add: vTaskPrioritySet_def through pends cong: if_cong option.case_cong)

lemma pend_held [pends]: "snd (pvTaskIncrementMutexHeldCount (pend s)) = pend (snd (pvTaskIncrementMutexHeldCount s))"
  by (simp add: pvTaskIncrementMutexHeldCount_def split: option.split)

lemma pend_inherit [pends]: "xTaskPriorityInherit h (pend s) = map_option (map_prod id pend) (xTaskPriorityInherit h s)"
  by (cases h) (simp_all add: xTaskPriorityInherit_def through pends cong: if_cong option.case_cong)

lemma pend_disinherit [pends]: "xTaskPriorityDisinherit h (pend s) = map_option (map_prod id pend) (xTaskPriorityDisinherit h s)"
  by (cases h) (simp_all add: xTaskPriorityDisinherit_def through pends cong: if_cong option.case_cong)

lemma pend_disinherit_timeout [pends]: "vTaskPriorityDisinheritAfterTimeout h w (pend s) = map_option pend (vTaskPriorityDisinheritAfterTimeout h w s)"
  by (cases h) (simp_all add: vTaskPriorityDisinheritAfterTimeout_def through pends cong: if_cong option.case_cong)

lemma pend_set_notification [pends]: "set_notification t v (pend s) = pend (set_notification t v s)"
  by (simp add: set_notification_def through pends cong: if_cong option.case_cong)

lemma pend_notify [pends]: "xTaskGenericNotify t v a (pend s) = map_option (map_prod id (map_prod id pend)) (xTaskGenericNotify t v a s)"
  by (simp add: xTaskGenericNotify_def through pends cong: if_cong option.case_cong)

lemma pend_notify_isr [pends]: "notify_from_isr t v (pend s) = map_option (map_prod id pend) (notify_from_isr t v s)"
  by (simp add: notify_from_isr_def through pends cong: if_cong option.case_cong)

lemma pend_generic_isr [pends]: "xTaskGenericNotifyFromISR t v a (pend s) = map_option (map_prod id (map_prod id (map_prod id pend))) (xTaskGenericNotifyFromISR t v a s)"
  by (simp add: xTaskGenericNotifyFromISR_def through pends cong: if_cong option.case_cong)

lemma pend_give_isr [pends]: "vTaskGenericNotifyGiveFromISR t (pend s) = map_option (map_prod id pend) (vTaskGenericNotifyGiveFromISR t s)"
  by (simp add: vTaskGenericNotifyGiveFromISR_def through pends cong: if_cong option.case_cong)

lemma pend_take_block [pends]: "notify_take_block n (pend s) = map_option pend (notify_take_block n s)"
  by (simp add: notify_take_block_def through pends cong: if_cong option.case_cong)

lemma pend_take_finish [pends]: "notify_take_finish b (pend s) = map_option (map_prod id pend) (notify_take_finish b s)"
  by (simp add: notify_take_finish_def through pends cong: if_cong option.case_cong)

lemma pend_wait_block [pends]: "notify_wait_block bits n (pend s) = map_option pend (notify_wait_block bits n s)"
  by (simp add: notify_wait_block_def through pends cong: if_cong option.case_cong)

lemma pend_wait_finish [pends]: "notify_wait_finish bits (pend s) = map_option (map_prod id (map_prod id pend)) (notify_wait_finish bits s)"
  by (simp add: notify_wait_finish_def through pends cong: if_cong option.case_cong)

lemma pend_state_clear [pends]: "xTaskGenericNotifyStateClear h (pend s) = map_option (map_prod id pend) (xTaskGenericNotifyStateClear h s)"
  by (simp add: xTaskGenericNotifyStateClear_def through pends cong: if_cong option.case_cong)

lemma pend_value_clear [pends]: "ulTaskGenericNotifyValueClear h bits (pend s) = map_option (map_prod id pend) (ulTaskGenericNotifyValueClear h bits s)"
  by (simp add: ulTaskGenericNotifyValueClear_def through pends cong: if_cong option.case_cong)

end
