(* ===== verification/Rtos_Calls.thy ===== *)
theory Rtos_Calls
  imports Rtos_Moves Rtos_Pend
begin

text \<open>
  The calls of the scheduler as the steps of a machine: what each caller has to guarantee, the invariant that every call
  keeps, and from it that no call fails in a reachable state.
\<close>

section \<open>Delays and events\<close>

text \<open>What a task that blocks guarantees: it is the running task, not the idle task, and waits for nothing yet.\<close>

definition may_block :: "nat \<Rightarrow> kernel \<Rightarrow> bool" where
  "may_block idle s \<longleftrightarrow> (\<exists>c. pxCurrentTCB s = Some c \<and> c \<noteq> idle \<and> live s c \<and> at s (EventItem c) = None \<and>
     ucNotifyState s c \<noteq> taskWAITING_NOTIFICATION)"

lemma delay_kinv:
  assumes k: "kinv idle s" and c: "pxCurrentTCB s = Some c" "live s c" "c \<noteq> idle" and n: "n \<noteq> 0"
  obtains s' where "prvAddCurrentTaskToDelayedList n b s = Some s'" "kinv idle s'" "uxSchedulerSuspended s' = uxSchedulerSuspended s"
proof -
  have ok: "kernel_ok s" using k by (simp add: kinv_def)
  obtain ls nx d where p: "prvAddCurrentTaskToDelayedList n b s = Some (s\<lparr>lists := ls, xNextTaskUnblockTime := nx\<rparr>)"
    "kernel_ok (s\<lparr>lists := ls, xNextTaskUnblockTime := nx\<rparr>)" "pxContainer ls = (at s)(StateItem c := Some d)" "d = SuspendedTasks \<or> timed d"
    using delay_current [OF ok c(1,2) n, of b] by metis
  have "well_scheduled (s\<lparr>lists := ls, xNextTaskUnblockTime := nx\<rparr>)"
    by (rule sched_quiet [of s]) (use k p(3,4) in \<open>auto simp: kinv_def split: if_splits\<close>)
  then have "kinv idle (s\<lparr>lists := ls, xNextTaskUnblockTime := nx\<rparr>)"
    using k p(2,3) c(3) by (simp add: kinv_def task_ready_def)
  then show thesis using that p(1) by simp
qed

lemma yield_unless_kinv: "kinv idle s \<Longrightarrow> kinv idle (yield_unless (b, s))"
  by (simp add: yield_unless_def vPortYield_def)

lemma kinv_yield: "kinv idle s \<Longrightarrow> kinv idle (vPortYield s)"
  by (simp add: vPortYield_def)

lemma kinv_suspend_all: "kinv idle (vTaskSuspendAll s) = kinv idle s"
  by (simp add: vTaskSuspendAll_def)

lemma vTaskDelay_kinv:
  assumes k: "kinv idle s" and m: "may_block idle s" and u: "uxSchedulerSuspended s = 0"
  shows "\<exists>s'. vTaskDelay n s = Some s' \<and> kinv idle s'"
proof (cases "n > 0")
  case False
  then show ?thesis using k by (simp add: vTaskDelay_def kinv_yield)
next
  case True
  define s0 where "s0 = vTaskSuspendAll s"
  obtain c where c: "pxCurrentTCB s = Some c" "c \<noteq> idle" "live s c" using m by (auto simp: may_block_def)
  have c0: "pxCurrentTCB s0 = Some c" "live s0 c" "kinv idle s0" "uxSchedulerSuspended s0 = 1"
    using c k u by (simp_all add: s0_def vTaskSuspendAll_def live_def)
  obtain s1 where a: "prvAddCurrentTaskToDelayedList n False s0 = Some s1" "kinv idle s1" "uxSchedulerSuspended s1 = 1"
    using delay_kinv [OF c0(3,1,2) c(2), of n False] True c0(4) by auto
  obtain b s2 where r: "xTaskResumeAll s1 = Some (b, s2)" "kinv idle s2" using resume_kinv [OF a(2)] a(3) by (metis zero_neq_one)
  have "vTaskDelay n s = Some (yield_unless (b, s2))"
    using True a(1) r(1) c0(4) by (simp add: vTaskDelay_def delay_block_def s0_def [symmetric] configASSERT_def Let_def)
  then show ?thesis using yield_unless_kinv [OF r(2)] by blast
qed

lemma delay_until_ahead: "delay_until_due now prev wake \<Longrightarrow> wake - now \<noteq> 0"
  by (auto simp: delay_until_due_def split: if_splits)

lemma xTaskDelayUntil_kinv:
  assumes k: "kinv idle s" and m: "may_block idle s" and u: "uxSchedulerSuspended s = 0" and i: "inc > 0"
  shows "\<exists>b w s'. xTaskDelayUntil prev inc s = Some (b, w, s') \<and> kinv idle s'"
proof -
  define s0 where "s0 = vTaskSuspendAll s"
  obtain c where c: "pxCurrentTCB s = Some c" "c \<noteq> idle" "live s c" using m by (auto simp: may_block_def)
  have c0: "pxCurrentTCB s0 = Some c" "live s0 c" "kinv idle s0" "uxSchedulerSuspended s0 = 1"
    using c k u by (simp_all add: s0_def vTaskSuspendAll_def live_def)
  define sd where "sd = delay_until_due (xTickCount s0) prev (prev + inc)"
  obtain s1 where a: "(if sd then prvAddCurrentTaskToDelayedList (prev + inc - xTickCount s0) False s0 else Some s0) = Some s1" "kinv idle s1" "uxSchedulerSuspended s1 = 1"
  proof (cases sd)
    case True
    then have "prev + inc - xTickCount s0 \<noteq> 0" using delay_until_ahead by (simp add: sd_def)
    then show thesis using that delay_kinv [OF c0(3,1,2) c(2)] True c0(4) by metis
  qed (use that c0 in simp)
  obtain b s2 where r: "xTaskResumeAll s1 = Some (b, s2)" "kinv idle s2" using resume_kinv [OF a(2)] a(3) by (metis zero_neq_one)
  have "xTaskDelayUntil prev inc s = Some (sd, prev + inc, yield_unless (b, s2))"
    using i a(1) r(1) c0(4) by (simp add: xTaskDelayUntil_def s0_def [symmetric] configASSERT_def Let_def sd_def [symmetric])
  then show ?thesis using yield_unless_kinv [OF r(2)] by blast
qed

lemma insert_event:
  assumes k: "kernel_ok s" and t: "live s t" "at s (EventItem t) = None" "ucNotifyState s t \<noteq> taskWAITING_NOTIFICATION"
    and l: "l = PendingReady \<or> l = EventsOf e" and ls: "klists_ok ls" "pxContainer ls = (at s)(EventItem t := Some l)"
    "same_items ls (lists s)" "uxNumberOfItems ls = (uxNumberOfItems (lists s))(l := uxNumberOfItems (lists s) l + 1)"
  shows "kernel_ok (s\<lparr>lists := ls\<rparr>)"
proof -
  have "kernel_base (s\<lparr>lists := ls\<rparr>)" using k ls(1,4) l by (auto simp: kernel_ok_iff kernel_base_def)
  moreover have "task_ok (s\<lparr>lists := ls\<rparr>) u" for u
    using kernel_ok_baseD(2) [OF k, of u] ls(2,3) t by (cases "u = t") (simp_all add: task_ok_def same_items_def live_def)
  ultimately show ?thesis by (simp add: kernel_ok_iff)
qed

lemma live_owned: "kernel_ok s \<Longrightarrow> live s t \<Longrightarrow> owned (lists s) t"
  using klists_owned [of "lists s" "StateItem t"] by (auto simp: live_def kernel_ok_def kernel_core_def)

text \<open>An item of an event joins a list, at the end or by its value.\<close>

lemma event_joins_end:
  assumes k: "kernel_ok s" and t: "live s t" "at s (EventItem t) = None" "ucNotifyState s t \<noteq> taskWAITING_NOTIFICATION"
    and l: "l = PendingReady \<or> l = EventsOf e"
  shows "kernel_ok (s\<lparr>lists := vListInsertEnd (lists s) l (EventItem t)\<rparr>)"
    "pxContainer (vListInsertEnd (lists s) l (EventItem t)) = (at s)(EventItem t := Some l)"
proof -
  have f: "\<not> timed l" "fits (EventItem t) l" "owned (lists s) (item_task (EventItem t))" using l live_owned [OF k t(1)] by auto
  note i = klists_insert_end [OF baseD(1) [OF kernel_ok_baseD(1) [OF k]] t(2) f]
  show "kernel_ok (s\<lparr>lists := vListInsertEnd (lists s) l (EventItem t)\<rparr>)" by (rule insert_event [OF k t l i])
  show "pxContainer (vListInsertEnd (lists s) l (EventItem t)) = (at s)(EventItem t := Some l)" by (rule i(2))
qed

lemma event_joins:
  assumes k: "kernel_ok s" and t: "live s t" "at s (EventItem t) = None" "ucNotifyState s t \<noteq> taskWAITING_NOTIFICATION"
  obtains ls where "vListInsert (lists s) (EventsOf e) (EventItem t) = Some ls" "kernel_ok (s\<lparr>lists := ls\<rparr>)"
    "pxContainer ls = (at s)(EventItem t := Some (EventsOf e))"
proof -
  have f: "fits (EventItem t) (EventsOf e)" "owned (lists s) (item_task (EventItem t))" using live_owned [OF k t(1)] by auto
  obtain ls where i: "vListInsert (lists s) (EventsOf e) (EventItem t) = Some ls" "klists_ok ls" "pxContainer ls = (at s)(EventItem t := Some (EventsOf e))"
    "same_items ls (lists s)" "uxNumberOfItems ls = (uxNumberOfItems (lists s))(EventsOf e := uxNumberOfItems (lists s) (EventsOf e) + 1)"
    using klists_insert [OF baseD(1) [OF kernel_ok_baseD(1) [OF k]] t(2) f] .
  then show thesis using that insert_event [OF k t _ i(2-5), of e] by blast
qed

lemma kinv_lists:
  assumes "kinv idle s" "kernel_ok (s\<lparr>lists := ls\<rparr>)" "\<And>u. pxContainer ls (StateItem u) = at s (StateItem u)"
  shows "kinv idle (s\<lparr>lists := ls\<rparr>)"
  using assms by (simp add: kinv_def well_scheduled_def task_ready_def)

lemma vTaskPlaceOnEventList_kinv:
  assumes k: "kinv idle s" and m: "may_block idle s" and n: "n \<noteq> 0"
  shows "\<exists>s'. vTaskPlaceOnEventList e n s = Some s' \<and> kinv idle s'"
proof -
  have ok: "kernel_ok s" using k by (simp add: kinv_def)
  obtain c where c: "pxCurrentTCB s = Some c" "c \<noteq> idle" "live s c" "at s (EventItem c) = None" "ucNotifyState s c \<noteq> taskWAITING_NOTIFICATION"
    using m by (auto simp: may_block_def)
  obtain ls where i: "vListInsert (lists s) (EventsOf e) (EventItem c) = Some ls" "kernel_ok (s\<lparr>lists := ls\<rparr>)"
    "pxContainer ls = (at s)(EventItem c := Some (EventsOf e))" using event_joins [OF ok c(3-5)] .
  have "kinv idle (s\<lparr>lists := ls\<rparr>)" by (rule kinv_lists [OF k i(2)]) (simp add: i(3))
  then obtain s' where "prvAddCurrentTaskToDelayedList n True (s\<lparr>lists := ls\<rparr>) = Some s'" "kinv idle s'"
    using delay_kinv [of idle "s\<lparr>lists := ls\<rparr>" c n True] c(1-3) n i(3) by (auto simp: live_def)
  then show ?thesis using c(1) i(1) by (simp add: vTaskPlaceOnEventList_def)
qed

lemma place_end_kinv:
  assumes k: "kinv idle s" and m: "may_block idle s" and n: "n \<noteq> 0" and c: "pxCurrentTCB s = Some c"
  obtains s' where "prvAddCurrentTaskToDelayedList n b (s\<lparr>lists := vListInsertEnd (lists s) (EventsOf e) (EventItem c)\<rparr>) = Some s'" "kinv idle s'"
proof -
  have ok: "kernel_ok s" using k by (simp add: kinv_def)
  have c': "c \<noteq> idle" "live s c" "at s (EventItem c) = None" "ucNotifyState s c \<noteq> taskWAITING_NOTIFICATION" using m c by (auto simp: may_block_def)
  define ls where "ls = vListInsertEnd (lists s) (EventsOf e) (EventItem c)"
  have i: "kernel_ok (s\<lparr>lists := ls\<rparr>)" "pxContainer ls = (at s)(EventItem c := Some (EventsOf e))"
    using event_joins_end [OF ok c'(2-4), of "EventsOf e"] by (simp_all add: ls_def)
  have "kinv idle (s\<lparr>lists := ls\<rparr>)" by (rule kinv_lists [OF k i(1)]) (simp add: i(2))
  then show thesis using that delay_kinv [of idle "s\<lparr>lists := ls\<rparr>" c n b] c c' n i(2) by (auto simp: ls_def live_def)
qed

lemma vTaskPlaceOnEventListRestricted_kinv:
  assumes k: "kinv idle s" and m: "may_block idle s" and n: "w \<or> n \<noteq> 0"
  shows "\<exists>s'. vTaskPlaceOnEventListRestricted e n w s = Some s' \<and> kinv idle s'"
proof -
  obtain c where c: "pxCurrentTCB s = Some c" using m by (auto simp: may_block_def)
  define n' where "n' = (if w then portMAX_DELAY else n)"
  have "n' \<noteq> 0" using n by (cases w) (simp_all add: n'_def portMAX_DELAY_def)
  then obtain s' where "prvAddCurrentTaskToDelayedList n' w (s\<lparr>lists := vListInsertEnd (lists s) (EventsOf e) (EventItem c)\<rparr>) = Some s'" "kinv idle s'"
    using place_end_kinv [OF k m _ c] by blast
  then show ?thesis using c by (simp add: vTaskPlaceOnEventListRestricted_def n'_def [symmetric])
qed

lemma set_event_ok: "kernel_ok s \<Longrightarrow> kernel_ok (s\<lparr>lists := listSET_LIST_ITEM_VALUE (lists s) (EventItem t) v\<rparr>)"
  using klists_set_event_value [of "lists s" t v] by (simp add: kernel_ok_def kernel_core_def delays_ok_def)

lemma set_event_kinv: "kinv idle s \<Longrightarrow> kinv idle (s\<lparr>lists := listSET_LIST_ITEM_VALUE (lists s) (EventItem t) v\<rparr>)"
  by (rule kinv_lists) (simp_all add: kinv_def set_event_ok)

lemma vTaskPlaceOnUnorderedEventList_kinv:
  assumes k: "kinv idle s" and m: "may_block idle s" and n: "n \<noteq> 0" and u: "uxSchedulerSuspended s \<noteq> 0"
  shows "\<exists>s'. vTaskPlaceOnUnorderedEventList e v n s = Some s' \<and> kinv idle s'"
proof -
  obtain c where c: "pxCurrentTCB s = Some c" using m by (auto simp: may_block_def)
  define s1 where "s1 = s\<lparr>lists := listSET_LIST_ITEM_VALUE (lists s) (EventItem c) (v OR taskEVENT_LIST_ITEM_VALUE_IN_USE)\<rparr>"
  have "kinv idle s1" "may_block idle s1" "pxCurrentTCB s1 = Some c"
    using set_event_kinv [OF k] m c by (simp_all add: s1_def may_block_def live_def)
  then obtain s' where "prvAddCurrentTaskToDelayedList n True (s1\<lparr>lists := vListInsertEnd (lists s1) (EventsOf e) (EventItem c)\<rparr>) = Some s'" "kinv idle s'"
    using place_end_kinv [OF _ _ n] by metis
  then show ?thesis using c u by (simp add: vTaskPlaceOnUnorderedEventList_def configASSERT_def s1_def)
qed

section \<open>Tasks made ready\<close>

text \<open>A live task becomes ready; the choice of the running task stays right if a switch is asked for when it must.\<close>

lemma readied_kinv:
  assumes k: "kinv idle s" and ok: "kernel_ok s'" and c: "\<And>u. u \<noteq> t \<Longrightarrow> at s' (StateItem u) = at s (StateItem u)"
    "at s' (StateItem t) = Some (Ready (uxPriority s' t))" and f: "uxPriority s' = uxPriority s" "pxCurrentTCB s' = pxCurrentTCB s"
    and y: "uxPriority s t > uxPriority s (the (pxCurrentTCB s)) \<Longrightarrow> pendsv s' \<or> xYieldPending s'" "pendsv s \<or> xYieldPending s \<Longrightarrow> pendsv s' \<or> xYieldPending s'"
  shows "kinv idle s'"
proof -
  have "well_scheduled s'"
  proof (rule sched_step [of s])
    show "well_scheduled s" using k by (simp add: kinv_def)
    show "at s (StateItem u) = Some (Ready q) \<or> q \<le> uxPriority s' (the (pxCurrentTCB s'))"
      if "at s' (StateItem u) = Some (Ready q)" "\<not> pendsv s'" "\<not> xYieldPending s'" for u q
    proof (cases "u = t")
      case True
      have "uxPriority s t \<le> uxPriority s (the (pxCurrentTCB s))" using y(1) that(2,3) by (meson not_le)
      then show ?thesis using True that(1) c(2) f by simp
    qed (use that(1) c(1) [of u] in simp)
  qed (use f y(2) in auto)
  moreover have "task_ready idle s'" using k c by (cases "idle = t") (auto simp: kinv_def task_ready_def)
  ultimately show ?thesis using ok by (simp add: kinv_def)
qed

lemma kinv_current: "kinv idle s \<Longrightarrow> \<exists>c. pxCurrentTCB s = Some c"
  by (auto simp: kinv_def kernel_ok_def kernel_core_def)

lemma yield_if_higher_kinv:
  assumes k: "kinv idle s" and ok: "kernel_ok s'" and c: "\<And>u. u \<noteq> t \<Longrightarrow> at s' (StateItem u) = at s (StateItem u)"
    "at s' (StateItem t) = Some (Ready (uxPriority s' t))" and f: "uxPriority s' = uxPriority s" "pxCurrentTCB s' = pxCurrentTCB s"
    "pendsv s' = pendsv s" "xYieldPending s' = xYieldPending s"
  shows "\<exists>s2. yield_if_higher t s' = Some s2 \<and> kinv idle s2"
proof -
  obtain h where h: "pxCurrentTCB s = Some h" using kinv_current [OF k] by blast
  define s2 where "s2 = (if uxPriority s' h < uxPriority s' t then s'\<lparr>pendsv := True\<rparr> else s')"
  have "kinv idle s2"
    by (rule readied_kinv [OF k, where t = t]) (use ok c f h in \<open>auto simp: s2_def\<close>)
  then show ?thesis using h f(2) by (simp add: yield_if_higher_def s2_def)
qed

text \<open>The same with the flag that a call from an interrupt sets.\<close>

lemma woken_kinv:
  assumes k: "kinv idle s" and ok: "kernel_ok s'" and c: "\<And>u. u \<noteq> t \<Longrightarrow> at s' (StateItem u) = at s (StateItem u)"
    "at s' (StateItem t) = Some (Ready (uxPriority s' t)) \<or> at s' (StateItem t) = at s (StateItem t)"
    and f: "uxPriority s' = uxPriority s" "pxCurrentTCB s' = pxCurrentTCB s"
    "pendsv s' = pendsv s" "xYieldPending s' = xYieldPending s" and h: "pxCurrentTCB s = Some h"
  shows "kinv idle (if uxPriority s' t > uxPriority s' h then s'\<lparr>xYieldPending := True\<rparr> else s')"
proof (cases "at s' (StateItem t) = Some (Ready (uxPriority s' t))")
  case True
  show ?thesis by (rule readied_kinv [OF k, where t = t]) (use True ok c(1) f h in auto)
next
  case False
  then have a: "at s' (StateItem u) = at s (StateItem u)" for u using c by (cases "u = t") auto
  have "kinv idle s'" using k ok a f by (simp add: kinv_def well_scheduled_def task_ready_def)
  then show ?thesis by simp
qed

lemma event_owner:
  assumes "kernel_ok s" "at s i = Some (EventsOf e)"
  shows "\<exists>t. i = EventItem t \<and> pvOwner (lists s) i = Some t"
proof -
  have b: "klists_ok (lists s)" using assms(1) by (simp add: kernel_ok_def kernel_core_def)
  obtain t where "i = EventItem t" using klists_fits [OF b assms(2)] by (cases i) auto
  then show ?thesis using klists_owned [OF b assms(2)] by (simp add: owned_def)
qed

text \<open>The lists after a task has left that of an event: it is ready, or pended while the scheduler is suspended.\<close>

lemma event_over:
  assumes k: "kernel_ok s" and e: "at s (EventItem t) = Some e"
  obtains ls ls1 ls2 where "listREMOVE_ITEM (lists s) (EventItem t) = Some ls" "listREMOVE_ITEM ls (StateItem t) = Some ls1"
    "prvAddTaskToReadyList t (s\<lparr>lists := ls1\<rparr>) = s\<lparr>lists := ls2, uxTopReadyPriority := top_with s t\<rparr>"
    "kernel_ok (s\<lparr>lists := ls2, uxTopReadyPriority := top_with s t\<rparr>)"
    "pxContainer ls2 = (at s)(EventItem t := None, StateItem t := Some (Ready (uxPriority s t)))"
    "kernel_ok (s\<lparr>lists := vListInsertEnd ls PendingReady (EventItem t)\<rparr>)"
    "pxContainer (vListInsertEnd ls PendingReady (EventItem t)) = (at s)(EventItem t := Some PendingReady)"
proof -
  obtain ls where r: "listREMOVE_ITEM (lists s) (EventItem t) = Some ls" "kernel_ok (s\<lparr>lists := ls\<rparr>)"
    "pxContainer ls = (at s)(EventItem t := None)" "same_items ls (lists s)" using event_leaves [OF k e] .
  define s1 where "s1 = s\<lparr>lists := ls\<rparr>"
  have k1: "kernel_ok s1" using r(2) by (simp add: s1_def)
  have lv: "live s t" by (rule event_live [OF k e])
  then obtain l where l: "at s1 (StateItem t) = Some l" "l \<noteq> WaitingTermination" using r(3) by (auto simp: s1_def live_def)
  obtain ls1 ls2 where q: "listREMOVE_ITEM (lists s1) (StateItem t) = Some ls1"
    "prvAddTaskToReadyList t (s1\<lparr>lists := ls1\<rparr>) = s1\<lparr>lists := ls2, uxTopReadyPriority := top_with s1 t\<rparr>"
    "kernel_ok (s1\<lparr>lists := ls2, uxTopReadyPriority := top_with s1 t\<rparr>)" "pxContainer ls2 = (at s1)(StateItem t := Some (Ready (uxPriority s1 t)))"
    using state_to_ready [OF k1 l] by metis
  have tw: "top_with s1 t = top_with s t" by (simp add: s1_def top_with_def)
  have nw: "ucNotifyState s1 t \<noteq> taskWAITING_NOTIFICATION"
    using kernel_ok_baseD(2) [OF k, of t] e lv by (auto simp: task_ok_def live_def s1_def)
  note p = event_joins_end [OF k1 _ _ nw, of PendingReady]
  have "live s1 t" "at s1 (EventItem t) = None" using lv r(3) by (simp_all add: live_def s1_def)
  then show thesis using that [of ls ls1 ls2] r(1) q tw p r(3) by (simp add: s1_def)
qed

lemma xTaskRemoveFromEventList_kinv:
  assumes k: "kinv idle s" and e: "\<not> listLIST_IS_EMPTY (lists s) (EventsOf e)"
  shows "\<exists>b s'. xTaskRemoveFromEventList e s = Some (b, s') \<and> kinv idle s'"
proof -
  have ok: "kernel_ok s" using k by (simp add: kinv_def)
  have b: "klists_ok (lists s)" using ok by (simp add: kernel_ok_def kernel_core_def)
  obtain i where h: "pxNext (lists s) (EndOf (EventsOf e)) = ItemOf i" "at s i = Some (EventsOf e)" using head_of_list [OF b e] by metis
  obtain t where t: "i = EventItem t" "pvOwner (lists s) i = Some t" using event_owner [OF ok h(2)] by blast
  have own: "listGET_OWNER_OF_HEAD_ENTRY (lists s) (EventsOf e) = Some t" using head_owner [OF h(1)] t(2) by simp
  have at: "at s (EventItem t) = Some (EventsOf e)" using h(2) t(1) by simp
  obtain ls ls1 ls2 where r: "listREMOVE_ITEM (lists s) (EventItem t) = Some ls" "listREMOVE_ITEM ls (StateItem t) = Some ls1"
    "prvAddTaskToReadyList t (s\<lparr>lists := ls1\<rparr>) = s\<lparr>lists := ls2, uxTopReadyPriority := top_with s t\<rparr>"
    "kernel_ok (s\<lparr>lists := ls2, uxTopReadyPriority := top_with s t\<rparr>)"
    "pxContainer ls2 = (at s)(EventItem t := None, StateItem t := Some (Ready (uxPriority s t)))"
    "kernel_ok (s\<lparr>lists := vListInsertEnd ls PendingReady (EventItem t)\<rparr>)"
    "pxContainer (vListInsertEnd ls PendingReady (EventItem t)) = (at s)(EventItem t := Some PendingReady)"
    using event_over [OF ok at] by metis
  obtain c where c: "pxCurrentTCB s = Some c" using kinv_current [OF k] by blast
  define s1 where "s1 = (if uxSchedulerSuspended s = 0 then s\<lparr>lists := ls2, uxTopReadyPriority := top_with s t\<rparr>
      else s\<lparr>lists := vListInsertEnd ls PendingReady (EventItem t)\<rparr>)"
  have f: "kernel_ok s1" "uxPriority s1 = uxPriority s" "pxCurrentTCB s1 = pxCurrentTCB s" "pendsv s1 = pendsv s" "xYieldPending s1 = xYieldPending s"
    "\<And>u. u \<noteq> t \<Longrightarrow> at s1 (StateItem u) = at s (StateItem u)" "at s1 (StateItem t) = Some (Ready (uxPriority s1 t)) \<or> at s1 (StateItem t) = at s (StateItem t)"
    using r(4-7) by (simp_all add: s1_def)
  note w = woken_kinv [OF k f(1,6,7,2-5) c]
  have "xTaskRemoveFromEventList e s = Some (if uxPriority s1 t > uxPriority s1 c then (True, s1\<lparr>xYieldPending := True\<rparr>) else (False, s1))"
    using own r(1-3) c unfolding xTaskRemoveFromEventList_def
    by (cases "uxSchedulerSuspended s = 0") (simp_all add: s1_def)
  then show ?thesis using w by (cases "uxPriority s1 t > uxPriority s1 c") auto
qed

lemma vTaskRemoveFromUnorderedEventList_kinv:
  assumes k: "kinv idle s" and e: "at s i = Some (EventsOf e)" and u: "uxSchedulerSuspended s \<noteq> 0"
  shows "\<exists>s'. vTaskRemoveFromUnorderedEventList i v s = Some s' \<and> kinv idle s'"
proof -
  have ok: "kernel_ok s" using k by (simp add: kinv_def)
  obtain t where t: "i = EventItem t" "pvOwner (lists s) i = Some t" using event_owner [OF ok e] by blast
  define s0 where "s0 = s\<lparr>lists := listSET_LIST_ITEM_VALUE (lists s) (EventItem t) (v OR taskEVENT_LIST_ITEM_VALUE_IN_USE)\<rparr>"
  have k0: "kinv idle s0" "kernel_ok s0" "at s0 = at s" "pvOwner (lists s0) i = Some t" using set_event_kinv [OF k] t(2) by (simp_all add: s0_def kinv_def)
  have at: "at s0 (EventItem t) = Some (EventsOf e)" using e t(1) k0(3) by simp
  obtain ls ls1 ls2 where r: "listREMOVE_ITEM (lists s0) (EventItem t) = Some ls" "listREMOVE_ITEM ls (StateItem t) = Some ls1"
    "prvAddTaskToReadyList t (s0\<lparr>lists := ls1\<rparr>) = s0\<lparr>lists := ls2, uxTopReadyPriority := top_with s0 t\<rparr>"
    "kernel_ok (s0\<lparr>lists := ls2, uxTopReadyPriority := top_with s0 t\<rparr>)"
    "pxContainer ls2 = (at s0)(EventItem t := None, StateItem t := Some (Ready (uxPriority s0 t)))"
    using event_over [OF k0(2) at] by metis
  obtain c where c: "pxCurrentTCB s0 = Some c" using kinv_current [OF k0(1)] by blast
  define s1 where "s1 = s0\<lparr>lists := ls2, uxTopReadyPriority := top_with s0 t\<rparr>"
  have f: "kernel_ok s1" "uxPriority s1 = uxPriority s0" "pxCurrentTCB s1 = pxCurrentTCB s0" "pendsv s1 = pendsv s0" "xYieldPending s1 = xYieldPending s0"
    "\<And>u. u \<noteq> t \<Longrightarrow> at s1 (StateItem u) = at s0 (StateItem u)" "at s1 (StateItem t) = Some (Ready (uxPriority s1 t)) \<or> at s1 (StateItem t) = at s0 (StateItem t)"
    using r(4,5) by (simp_all add: s1_def)
  note w = woken_kinv [OF k0(1) f(1,6,7,2-5) c]
  have "vTaskRemoveFromUnorderedEventList i v s = Some (if uxPriority s1 t > uxPriority s1 c then s1\<lparr>xYieldPending := True\<rparr> else s1)"
    using r(1-3) c u t k0(4) by (simp add: vTaskRemoveFromUnorderedEventList_def configASSERT_def Let_def s0_def s1_def)
  then show ?thesis using w by blast
qed

lemma suspended_state: "prvTaskIsTaskSuspended t s \<Longrightarrow> at s (StateItem t) = Some SuspendedTasks \<and> at s (EventItem t) = None \<and>
    ucNotifyState s t \<noteq> taskWAITING_NOTIFICATION \<and> live s t"
  by (simp add: prvTaskIsTaskSuspended_def live_def)

lemma vTaskResume_kinv:
  assumes k: "kinv idle s"
  shows "\<exists>s'. vTaskResume t s = Some s' \<and> kinv idle s'"
proof (cases "Some t \<noteq> pxCurrentTCB s \<and> prvTaskIsTaskSuspended t s")
  case False
  then show ?thesis using k by (auto simp: vTaskResume_def)
next
  case True
  have ok: "kernel_ok s" using k by (simp add: kinv_def)
  have l: "at s (StateItem t) = Some SuspendedTasks" "SuspendedTasks \<noteq> WaitingTermination" using suspended_state True by auto
  obtain ls ls' where r: "listREMOVE_ITEM (lists s) (StateItem t) = Some ls"
    "prvAddTaskToReadyList t (s\<lparr>lists := ls\<rparr>) = s\<lparr>lists := ls', uxTopReadyPriority := top_with s t\<rparr>"
    "kernel_ok (s\<lparr>lists := ls', uxTopReadyPriority := top_with s t\<rparr>)" "pxContainer ls' = (at s)(StateItem t := Some (Ready (uxPriority s t)))"
    using state_to_ready [OF ok l] by metis
  define s1 where "s1 = s\<lparr>lists := ls', uxTopReadyPriority := top_with s t\<rparr>"
  have "\<exists>s2. yield_if_higher t s1 = Some s2 \<and> kinv idle s2"
    by (rule yield_if_higher_kinv [OF k]) (use r(3,4) in \<open>simp_all add: s1_def\<close>)
  then show ?thesis using True r(1,2) by (simp add: vTaskResume_def s1_def)
qed

lemma xTaskResumeFromISR_kinv:
  assumes k: "kinv idle s"
  shows "\<exists>b s'. xTaskResumeFromISR t s = Some (b, s') \<and> kinv idle s'"
proof (cases "prvTaskIsTaskSuspended t s")
  case False
  then show ?thesis using k by (auto simp: xTaskResumeFromISR_def)
next
  case susp: True
  have ok: "kernel_ok s" using k by (simp add: kinv_def)
  have l: "at s (StateItem t) = Some SuspendedTasks" "SuspendedTasks \<noteq> WaitingTermination" using suspended_state [OF susp] by auto
  show ?thesis
  proof (cases "uxSchedulerSuspended s = 0")
    case False
    define ls where "ls = vListInsertEnd (lists s) PendingReady (EventItem t)"
    have p: "kernel_ok (s\<lparr>lists := ls\<rparr>)" "pxContainer ls = (at s)(EventItem t := Some PendingReady)"
      using event_joins_end [OF ok, of t PendingReady] suspended_state [OF susp] by (simp_all add: ls_def)
    have "kinv idle (s\<lparr>lists := ls\<rparr>)" by (rule kinv_lists [OF k p(1)]) (simp add: p(2))
    then show ?thesis using susp False by (auto simp: xTaskResumeFromISR_def ls_def)
  next
    case True
    obtain c where c: "pxCurrentTCB s = Some c" using kinv_current [OF k] by blast
    define y where "y \<longleftrightarrow> uxPriority s t > uxPriority s c"
    define s0 where "s0 = s\<lparr>xYieldPending := (if y then True else xYieldPending s)\<rparr>"
    have ok0: "kernel_ok s0" using ok by (simp add: s0_def)
    have l0: "at s0 (StateItem t) = Some SuspendedTasks" using l by (simp add: s0_def)
    obtain ls ls' where r: "listREMOVE_ITEM (lists s0) (StateItem t) = Some ls"
      "prvAddTaskToReadyList t (s0\<lparr>lists := ls\<rparr>) = s0\<lparr>lists := ls', uxTopReadyPriority := top_with s0 t\<rparr>"
      "kernel_ok (s0\<lparr>lists := ls', uxTopReadyPriority := top_with s0 t\<rparr>)" "pxContainer ls' = (at s0)(StateItem t := Some (Ready (uxPriority s0 t)))"
      using state_to_ready [OF ok0 l0 l(2)] by metis
    have "kinv idle (s0\<lparr>lists := ls', uxTopReadyPriority := top_with s0 t\<rparr>)"
      by (rule readied_kinv [OF k, where t = t]) (use r(3,4) c in \<open>auto simp: s0_def y_def\<close>)
    moreover have "xTaskResumeFromISR t s = Some (y, s0\<lparr>lists := ls', uxTopReadyPriority := top_with s0 t\<rparr>)"
      using susp True c r(1,2) by (simp add: xTaskResumeFromISR_def Let_def s0_def y_def cong: if_cong)
    ultimately show ?thesis by blast
  qed
qed

section \<open>Notifications\<close>

lemma received_ok: "kernel_ok s \<Longrightarrow> kernel_ok (set_notification t v s)"
  by (simp add: kernel_ok_def kernel_core_def delays_ok_def set_notification_def taskNOTIFICATION_RECEIVED_def taskWAITING_NOTIFICATION_def)

lemma notification_simps [simp]:
  "lists (set_notification t v s) = lists s" "uxPriority (set_notification t v s) = uxPriority s" "pxCurrentTCB (set_notification t v s) = pxCurrentTCB s"
  "pendsv (set_notification t v s) = pendsv s" "xYieldPending (set_notification t v s) = xYieldPending s"
  "uxSchedulerSuspended (set_notification t v s) = uxSchedulerSuspended s" "ucNotifyState (set_notification t v s) t = taskNOTIFICATION_RECEIVED"
  by (simp_all add: set_notification_def)

lemma received_kinv: "kinv idle s \<Longrightarrow> kinv idle (set_notification t v s)"
  by (simp add: kinv_def received_ok well_scheduled_def task_ready_def)

lemma waiting_no_event: "kinv idle s \<Longrightarrow> live s t \<Longrightarrow> ucNotifyState s t = taskWAITING_NOTIFICATION \<Longrightarrow> at s (EventItem t) = None"
  by (simp add: kinv_def kernel_ok_def kernel_core_def live_def)

lemma xTaskGenericNotify_kinv:
  assumes k: "kinv idle s" and l: "live s t"
  shows "\<exists>b v s'. xTaskGenericNotify t val a s = Some (b, v, s') \<and> kinv idle s'"
proof -
  define r where "r = notify_value a (ucNotifyState s t) val (ulNotifiedValue s t)"
  define s0 where "s0 = set_notification t (snd r) s"
  have k0: "kinv idle s0" "kernel_ok s0" using received_kinv [OF k] by (simp_all add: s0_def kinv_def)
  show ?thesis
  proof (cases "ucNotifyState s t = taskWAITING_NOTIFICATION")
    case False
    then show ?thesis using k0 by (simp add: xTaskGenericNotify_def Let_def s0_def r_def)
  next
    case True
    obtain h where h: "at s0 (StateItem t) = Some h" "h \<noteq> WaitingTermination" using l by (auto simp: live_def s0_def)
    obtain ls ls' where q: "listREMOVE_ITEM (lists s0) (StateItem t) = Some ls"
      "prvAddTaskToReadyList t (s0\<lparr>lists := ls\<rparr>) = s0\<lparr>lists := ls', uxTopReadyPriority := top_with s0 t\<rparr>"
      "kernel_ok (s0\<lparr>lists := ls', uxTopReadyPriority := top_with s0 t\<rparr>)" "pxContainer ls' = (at s0)(StateItem t := Some (Ready (uxPriority s0 t)))"
      using state_to_ready [OF k0(2) h] by metis
    define s1 where "s1 = s0\<lparr>lists := ls', uxTopReadyPriority := top_with s0 t\<rparr>"
    have "\<exists>s2. yield_if_higher t s1 = Some s2 \<and> kinv idle s2"
      by (rule yield_if_higher_kinv [OF k0(1)]) (use q(3,4) in \<open>simp_all add: s1_def\<close>)
    then obtain s2 where y: "yield_if_higher t s1 = Some s2" "kinv idle s2" by blast
    have ev: "at s1 (EventItem t) = None" using waiting_no_event [OF k l True] q(4) by (simp add: s1_def s0_def)
    have "xTaskGenericNotify t val a s = Some (fst r, ulNotifiedValue s t, s2)"
      using True q(1,2) y(1) ev
      unfolding xTaskGenericNotify_def Let_def r_def [symmetric] s0_def [symmetric]
      by (simp add: configASSERT_def s1_def [symmetric])
    then show ?thesis using y(2) by blast
  qed
qed

lemma notify_from_isr_kinv:
  assumes k: "kinv idle s" and l: "live s t"
  shows "\<exists>b s'. notify_from_isr t v s = Some (b, s') \<and> kinv idle s'"
proof -
  define s0 where "s0 = set_notification t v s"
  have k0: "kinv idle s0" "kernel_ok s0" using received_kinv [OF k] by (simp_all add: s0_def kinv_def)
  show ?thesis
  proof (cases "ucNotifyState s t = taskWAITING_NOTIFICATION")
    case False
    then show ?thesis using k0 by (auto simp: notify_from_isr_def Let_def s0_def)
  next
    case True
    have ev: "at s0 (EventItem t) = None" using waiting_no_event [OF k l True] by (simp add: s0_def)
    obtain h where h: "at s0 (StateItem t) = Some h" "h \<noteq> WaitingTermination" using l by (auto simp: live_def s0_def)
    obtain ls ls' where q: "listREMOVE_ITEM (lists s0) (StateItem t) = Some ls"
      "prvAddTaskToReadyList t (s0\<lparr>lists := ls\<rparr>) = s0\<lparr>lists := ls', uxTopReadyPriority := top_with s0 t\<rparr>"
      "kernel_ok (s0\<lparr>lists := ls', uxTopReadyPriority := top_with s0 t\<rparr>)" "pxContainer ls' = (at s0)(StateItem t := Some (Ready (uxPriority s0 t)))"
      using state_to_ready [OF k0(2) h] by metis
    have p: "kernel_ok (s0\<lparr>lists := vListInsertEnd (lists s0) PendingReady (EventItem t)\<rparr>)"
      "pxContainer (vListInsertEnd (lists s0) PendingReady (EventItem t)) = (at s0)(EventItem t := Some PendingReady)"
      using event_joins_end [OF k0(2) _ ev, of PendingReady] l
      by (simp_all add: live_def s0_def taskNOTIFICATION_RECEIVED_def taskWAITING_NOTIFICATION_def)
    obtain c where c: "pxCurrentTCB s0 = Some c" using kinv_current [OF k0(1)] by blast
    define s1 where "s1 = (if uxSchedulerSuspended s0 = 0 then s0\<lparr>lists := ls', uxTopReadyPriority := top_with s0 t\<rparr>
        else s0\<lparr>lists := vListInsertEnd (lists s0) PendingReady (EventItem t)\<rparr>)"
    have f: "kernel_ok s1" "uxPriority s1 = uxPriority s0" "pxCurrentTCB s1 = pxCurrentTCB s0" "pendsv s1 = pendsv s0" "xYieldPending s1 = xYieldPending s0"
      "\<And>u. u \<noteq> t \<Longrightarrow> at s1 (StateItem u) = at s0 (StateItem u)" "at s1 (StateItem t) = Some (Ready (uxPriority s1 t)) \<or> at s1 (StateItem t) = at s0 (StateItem t)"
      using q(3,4) p by (simp_all add: s1_def)
    note w = woken_kinv [OF k0(1) f(1,6,7,2-5) c]
    have "notify_from_isr t v s = Some (if uxPriority s1 t > uxPriority s1 c then (True, s1\<lparr>xYieldPending := True\<rparr>) else (False, s1))"
      using True q(1,2) ev c unfolding notify_from_isr_def Let_def s0_def [symmetric]
      by (cases "uxSchedulerSuspended s0 = 0") (simp_all add: configASSERT_def s1_def)
    then show ?thesis using w by (cases "uxPriority s1 t > uxPriority s1 c") auto
  qed
qed

lemma xTaskGenericNotifyFromISR_kinv:
  assumes "kinv idle s" "live s t"
  shows "\<exists>b v w s'. xTaskGenericNotifyFromISR t val a s = Some (b, v, w, s') \<and> kinv idle s'"
  using notify_from_isr_kinv [OF assms] by (fastforce simp: xTaskGenericNotifyFromISR_def Let_def)

text \<open>Waiting for a notification.\<close>

lemma waiting_kinv:
  assumes k: "kinv idle s" and e: "at s (EventItem c) = None"
  shows "kinv idle (s\<lparr>ucNotifyState := (ucNotifyState s)(c := v)\<rparr>)"
  using assms by (auto simp: kinv_def kernel_ok_def kernel_core_def delays_ok_def well_scheduled_def task_ready_def)

lemma wait_resume_kinv:
  assumes k: "kinv idle s" and m: "may_block idle s" and c: "pxCurrentTCB s = Some c" and n: "n > 0"
    and s1: "s1 = (vTaskSuspendAll s)\<lparr>ulNotifiedValue := nv, ucNotifyState := (ucNotifyState s)(c := taskWAITING_NOTIFICATION)\<rparr>"
    and u: "uxSchedulerSuspended s + 1 \<noteq> 0"
  shows "\<exists>s2 b s'. prvAddCurrentTaskToDelayedList n True s1 = Some s2 \<and> xTaskResumeAll s2 = Some (b, s') \<and> kinv idle s'"
proof -
  have c': "c \<noteq> idle" "live s c" "at s (EventItem c) = None" using m c by (auto simp: may_block_def)
  have "kinv idle s1" using waiting_kinv [OF k c'(3), of taskWAITING_NOTIFICATION]
    by (auto simp: s1 vTaskSuspendAll_def kinv_def kernel_ok_def kernel_core_def delays_ok_def well_scheduled_def task_ready_def)
  moreover have "pxCurrentTCB s1 = Some c" "live s1 c" "uxSchedulerSuspended s1 = uxSchedulerSuspended s + 1"
    using c c' by (simp_all add: s1 vTaskSuspendAll_def live_def)
  ultimately obtain s2 where s2: "prvAddCurrentTaskToDelayedList n True s1 = Some s2" "kinv idle s2" "uxSchedulerSuspended s2 = uxSchedulerSuspended s + 1"
    using delay_kinv [of idle s1 c n True] c'(1) n by (metis less_irrefl)
  obtain b s' where "xTaskResumeAll s2 = Some (b, s')" "kinv idle s'" using resume_kinv [OF s2(2)] s2(3) u by metis
  then show ?thesis using s2(1) by blast
qed

lemma notify_take_block_kinv:
  assumes k: "kinv idle s" and m: "may_block idle s" and u: "uxSchedulerSuspended s + 1 \<noteq> 0"
  shows "\<exists>s'. notify_take_block n s = Some s' \<and> kinv idle s'"
proof -
  obtain c where c: "pxCurrentTCB s = Some c" using m by (auto simp: may_block_def)
  show ?thesis
  proof (cases "ulNotifiedValue s c = 0 \<and> n > 0")
    case False
    then show ?thesis using k c by (auto simp: notify_take_block_def)
  next
    case True
    define s1 where "s1 = (vTaskSuspendAll s)\<lparr>ulNotifiedValue := ulNotifiedValue s, ucNotifyState := (ucNotifyState s)(c := taskWAITING_NOTIFICATION)\<rparr>"
    have e: "(vTaskSuspendAll s)\<lparr>ucNotifyState := (ucNotifyState (vTaskSuspendAll s))(c := taskWAITING_NOTIFICATION)\<rparr> = s1"
      by (cases s) (simp add: s1_def vTaskSuspendAll_def)
    obtain s2 b s' where r: "prvAddCurrentTaskToDelayedList n True s1 = Some s2" "xTaskResumeAll s2 = Some (b, s')" "kinv idle s'"
      using wait_resume_kinv [OF k m c _ s1_def u] True by blast
    have "ulNotifiedValue (vTaskSuspendAll s) c = 0" using True by (simp add: vTaskSuspendAll_def)
    then have "notify_take_block n s = Some (yield_unless (b, s'))"
      using True c r(1,2) e by (simp add: notify_take_block_def Let_def)
    then show ?thesis using yield_unless_kinv [OF r(3)] by blast
  qed
qed

lemma notify_wait_block_kinv:
  assumes k: "kinv idle s" and m: "may_block idle s" and u: "uxSchedulerSuspended s + 1 \<noteq> 0"
  shows "\<exists>s'. notify_wait_block bits n s = Some s' \<and> kinv idle s'"
proof -
  obtain c where c: "pxCurrentTCB s = Some c" using m by (auto simp: may_block_def)
  show ?thesis
  proof (cases "ucNotifyState s c \<noteq> taskNOTIFICATION_RECEIVED \<and> n > 0")
    case False
    then show ?thesis using k c by (auto simp: notify_wait_block_def)
  next
    case True
    define nv where "nv = (ulNotifiedValue s)(c := ulNotifiedValue s c AND NOT bits)"
    define s1 where "s1 = (vTaskSuspendAll s)\<lparr>ulNotifiedValue := nv, ucNotifyState := (ucNotifyState s)(c := taskWAITING_NOTIFICATION)\<rparr>"
    have f: "ulNotifiedValue (vTaskSuspendAll s) = ulNotifiedValue s" "ucNotifyState (vTaskSuspendAll s) = ucNotifyState s" by (simp_all add: vTaskSuspendAll_def)
    obtain s2 b s' where r: "prvAddCurrentTaskToDelayedList n True s1 = Some s2" "xTaskResumeAll s2 = Some (b, s')" "kinv idle s'"
      using wait_resume_kinv [OF k m c _ s1_def u] True by blast
    have "notify_wait_block bits n s = Some (yield_unless (b, s'))"
      using True c r(1,2) by (simp add: notify_wait_block_def Let_def f s1_def nv_def)
    then show ?thesis using yield_unless_kinv [OF r(3)] by blast
  qed
qed

lemma notify_finish_kinv:
  assumes k: "kinv idle s"
  shows "\<exists>v s'. notify_take_finish b s = Some (v, s') \<and> kinv idle s'" "\<exists>r v s'. notify_wait_finish bits s = Some (r, v, s') \<and> kinv idle s'"
  using k by (auto simp: notify_take_finish_def notify_wait_finish_def Let_def kinv_def kernel_ok_def kernel_core_def delays_ok_def
    well_scheduled_def task_ready_def taskNOT_WAITING_NOTIFICATION_def taskWAITING_NOTIFICATION_def)

section \<open>Suspension, deletion and creation\<close>

lemma handle_live: "prvGetTCBFromHandle h s = Some t \<Longrightarrow> prvGetTCBFromHandle h s' = Some t \<or> h = None"
  by (auto simp: prvGetTCBFromHandle_def)

text \<open>What remains of the kernel when a task other than the idle task leaves the ready tasks.\<close>

lemma gone_kinv:
  assumes k: "kinv idle s" and t: "t \<noteq> idle" and ok: "kernel_ok s'" and c: "\<And>u. u \<noteq> t \<Longrightarrow> at s' (StateItem u) = at s (StateItem u)"
    "\<And>p. at s' (StateItem t) \<noteq> Some (Ready p)" and f: "uxPriority s' = uxPriority s" "pxCurrentTCB s' = pxCurrentTCB s" "pendsv s' = pendsv s" "xYieldPending s' = xYieldPending s"
  shows "kinv idle s'"
proof -
  have "well_scheduled s'"
  proof (rule sched_quiet [OF _ _ f])
    show "well_scheduled s" using k by (simp add: kinv_def)
    show "at s (StateItem u) = Some (Ready q)" if "at s' (StateItem u) = Some (Ready q)" for u q
      using that c by (cases "u = t") auto
  qed
  moreover have "task_ready idle s'" using k c(1) [of idle] t by (auto simp: kinv_def task_ready_def)
  ultimately show ?thesis using ok by (simp add: kinv_def)
qed

lemma vTaskSuspend_kinv:
  assumes k: "kinv idle s" and h: "prvGetTCBFromHandle h s = Some t" and l: "live s t" "t \<noteq> idle" and r: "xSchedulerRunning s"
    and u: "Some t = pxCurrentTCB s \<longrightarrow> uxSchedulerSuspended s = 0"
  shows "\<exists>s'. vTaskSuspend h s = Some s' \<and> kinv idle s'"
proof -
  have ok: "kernel_ok s" using k by (simp add: kinv_def)
  obtain ls1 ls2 where q: "listREMOVE_ITEM (lists s) (StateItem t) = Some ls1" "remove_event_item ls1 t = Some ls2"
    "kernel_base (s\<lparr>lists := ls2\<rparr>)" "\<And>u. u \<noteq> t \<Longrightarrow> task_ok (s\<lparr>lists := ls2\<rparr>) u" "owned ls2 t"
    "pxContainer ls2 = (at s)(StateItem t := None, EventItem t := None)" using task_leaves [OF ok l(1)] by metis
  define s1 where "s1 = s\<lparr>lists := ls2\<rparr>"
  have s1: "kernel_base s1" "\<And>u. u \<noteq> t \<Longrightarrow> task_ok s1 u" "owned (lists s1) t" "at s1 (StateItem t) = None" "at s1 (EventItem t) = None"
    using q(3-6) by (simp_all add: s1_def)
  obtain ls3 where i: "vListInsertEnd (lists s1) SuspendedTasks (StateItem t) = ls3" "kernel_ok (s1\<lparr>lists := ls3\<rparr>)"
    "pxContainer ls3 = (at s1)(StateItem t := Some SuspendedTasks)" using to_suspended [OF s1(1-4)] s1(5) by metis
  define s2 where "s2 = s1\<lparr>lists := ls3\<rparr>"
  have k2: "kinv idle s2"
    by (rule gone_kinv [OF k l(2)]) (use i(2,3) q(6) in \<open>simp_all add: s2_def s1_def\<close>)
  define n where "n = (if ucNotifyState s t = taskWAITING_NOTIFICATION then (ucNotifyState s)(t := taskNOT_WAITING_NOTIFICATION) else ucNotifyState s)"
  have "at s2 (EventItem t) = None" using i(3) s1(5) by (simp add: s2_def)
  note w = waiting_kinv [OF k2 this, of taskNOT_WAITING_NOTIFICATION]
  have k3: "kinv idle (s2\<lparr>ucNotifyState := n\<rparr>)"
  proof (cases "ucNotifyState s t = taskWAITING_NOTIFICATION")
    case True
    have "ucNotifyState s2 = ucNotifyState s" by (simp add: s2_def s1_def)
    then show ?thesis using w True by (simp add: n_def)
  next
    case False
    have "s2\<lparr>ucNotifyState := n\<rparr> = s2" using False by (cases s) (simp add: n_def s2_def s1_def)
    then show ?thesis using k2 by simp
  qed
  define s4 where "s4 = prvResetNextTaskUnblockTime (s2\<lparr>ucNotifyState := n\<rparr>)"
  have k4: "kinv idle s4" using kinv_reset [OF k3] by (simp add: s4_def)
  have "vListInsertEnd ls2 SuspendedTasks (StateItem t) = ls3" using i(1) by (simp add: s1_def)
  then have "vTaskSuspend h s = Some (if Some t = pxCurrentTCB s then vPortYield s4 else s4)"
    unfolding vTaskSuspend_def Let_def s4_def s2_def s1_def n_def
    using h q(1,2) r u by (cases "pxCurrentTCB s = Some t") (auto simp: configASSERT_def)
  then show ?thesis using k4 kinv_yield [OF k4] by auto
qed

lemma vTaskDelete_kinv:
  assumes k: "kinv idle s" and h: "prvGetTCBFromHandle h s = Some t" and l: "live s t" "t \<noteq> idle"
    and u: "xSchedulerRunning s \<and> Some t = pxCurrentTCB s \<longrightarrow> uxSchedulerSuspended s = 0"
  shows "\<exists>s'. vTaskDelete h s = Some s' \<and> kinv idle s'"
proof -
  have ok: "kernel_ok s" using k by (simp add: kinv_def)
  obtain ls1 ls2 where q: "listREMOVE_ITEM (lists s) (StateItem t) = Some ls1" "remove_event_item ls1 t = Some ls2"
    "kernel_base (s\<lparr>lists := ls2\<rparr>)" "\<And>u. u \<noteq> t \<Longrightarrow> task_ok (s\<lparr>lists := ls2\<rparr>) u" "owned ls2 t"
    "pxContainer ls2 = (at s)(StateItem t := None, EventItem t := None)" "same_items ls2 (lists s)" using task_leaves [OF ok l(1)] by metis
  show ?thesis
  proof (cases "xSchedulerRunning s \<and> Some t = pxCurrentTCB s")
    case False
    define s1 where "s1 = s\<lparr>lists := ls2\<rparr>"
    have "task_ok s1 t" using q(6) by (simp add: task_ok_def s1_def)
    then have "kernel_ok s1" using q(3,4) unfolding kernel_ok_iff s1_def [symmetric] by metis
    then have "kinv idle s1" by (rule gone_kinv [OF k l(2)]) (use q(6) in \<open>simp_all add: s1_def\<close>)
    then have "kinv idle (s1\<lparr>uxCurrentNumberOfTasks := uxCurrentNumberOfTasks s1 - 1\<rparr>)" by simp
    from kinv_reset [OF this] show ?thesis
      using False h q(1,2) unfolding vTaskDelete_def Let_def s1_def by auto
  next
    case True
    define ls3 where "ls3 = vListInsertEnd ls2 WaitingTermination (StateItem t)"
    have b: "klists_ok ls2" using q(3) by (simp add: kernel_base_def)
    have i: "klists_ok ls3" "pxContainer ls3 = (pxContainer ls2)(StateItem t := Some WaitingTermination)" "same_items ls3 ls2"
      "uxNumberOfItems ls3 = (uxNumberOfItems ls2)(WaitingTermination := uxNumberOfItems ls2 WaitingTermination + 1)"
      using klists_insert_end [OF b, of "StateItem t" WaitingTermination] q(5,6) by (auto simp: ls3_def)
    define s1 where "s1 = s\<lparr>lists := ls3, uxDeletedTasksWaitingCleanUp := uxDeletedTasksWaitingCleanUp s + 1\<rparr>"
    have "kernel_base s1" using q(3) i(1,4) by (simp add: kernel_base_def s1_def)
    moreover have "task_ok s1 v" for v
    proof (cases "v = t")
      case True
      have "timed (pxDelayedTaskList s)" "timed (pxOverflowDelayedTaskList s)" using baseD(5,6) [OF kernel_ok_baseD(1) [OF ok]] by auto
      then show ?thesis using True i(2) q(6) by (auto simp: task_ok_def s1_def)
    next
      case False
      show ?thesis by (rule task_ok_other [OF q(4) [OF False]]) (use False i(2,3) q(6,7) in \<open>simp_all add: s1_def same_items_def\<close>)
    qed
    ultimately have "kernel_ok s1" by (simp add: kernel_ok_iff)
    then have "kinv idle s1" by (rule gone_kinv [OF k l(2)]) (use i(2) q(6) in \<open>simp_all add: s1_def\<close>)
    then have "kinv idle (vPortYield s1)" by (rule kinv_yield)
    moreover have "pxCurrentTCB s = Some t" "xSchedulerRunning s" "uxSchedulerSuspended s = 0" using True u by auto
    ultimately show ?thesis using h q(1,2) by (simp add: vTaskDelete_def Let_def configASSERT_def s1_def ls3_def)
  qed
qed

lemma prvCheckTasksWaitingTermination_kinv:
  assumes k: "kinv idle s"
  shows "\<exists>s'. prvCheckTasksWaitingTermination s = Some s' \<and> kinv idle s'"
proof (cases "uxDeletedTasksWaitingCleanUp s > 0")
  case False
  then show ?thesis using k by (simp add: prvCheckTasksWaitingTermination_def)
next
  case True
  have ok: "kernel_ok s" and base: "kernel_base s" using k by (simp_all add: kinv_def kernel_ok_iff)
  note b = baseD [OF base]
  have "\<not> listLIST_IS_EMPTY (lists s) WaitingTermination" using True base by (simp add: listLIST_IS_EMPTY_def kernel_base_def word_gt_0)
  then obtain i where n: "pxNext (lists s) (EndOf WaitingTermination) = ItemOf i" "at s i = Some WaitingTermination" "pvOwner (lists s) i = Some (item_task i)"
    using head_of_list [OF b(1)] by metis
  obtain t where i: "i = StateItem t" using klists_fits [OF b(1) n(2)] by (cases i) auto
  have own: "listGET_OWNER_OF_HEAD_ENTRY (lists s) WaitingTermination = Some t" using head_owner [OF n(1)] n(3) i by simp
  have at: "at s (StateItem t) = Some WaitingTermination" using n(2) i by simp
  obtain ls where r: "listREMOVE_ITEM (lists s) (StateItem t) = Some ls" "klists_ok ls" "pxContainer ls = (at s)(StateItem t := None)" "same_items ls (lists s)"
    "uxNumberOfItems ls = (uxNumberOfItems (lists s))(WaitingTermination := uxNumberOfItems (lists s) WaitingTermination - 1)"
    using klists_remove [OF b(1) at] .
  define s1 where "s1 = s\<lparr>lists := ls, uxCurrentNumberOfTasks := uxCurrentNumberOfTasks s - 1, uxDeletedTasksWaitingCleanUp := uxDeletedTasksWaitingCleanUp s - 1\<rparr>"
  have "kernel_base s1" using base r(2,5) by (simp add: kernel_base_def s1_def)
  moreover have "task_ok s1 v" for v
    using kernel_ok_baseD(2) [OF ok, of v] r(3,4) at by (cases "v = t") (auto simp: task_ok_def same_items_def s1_def)
  ultimately have ok1: "kernel_ok s1" by (simp add: kernel_ok_iff)
  have "t \<noteq> idle" using k at by (auto simp: kinv_def task_ready_def)
  then have "kinv idle s1" by (rule gone_kinv [OF k _ ok1]) (use r(3) in \<open>simp_all add: s1_def\<close>)
  then show ?thesis using True own r(1) by (simp add: prvCheckTasksWaitingTermination_def s1_def)
qed

text \<open>A new task; its control block was free.\<close>

lemma owner_dll: "dll (ls\<lparr>pvOwner := f\<rparr>) l xs = dll ls l xs"
proof -
  have "linked (ls\<lparr>pvOwner := f\<rparr>) p xs r = linked ls p xs r" for p r by (rule linked_cong) simp_all
  then show ?thesis by (simp add: dll_def)
qed

lemma owner_klists:
  assumes "klists_ok ls" "\<And>i. item_task i = t \<Longrightarrow> pxContainer ls i = None"
  shows "klists_ok (ls\<lparr>pvOwner := (pvOwner ls)(StateItem t := Some t, EventItem t := Some t)\<rparr>)"
proof -
  have "owned (ls\<lparr>pvOwner := (pvOwner ls)(StateItem t := Some t, EventItem t := Some t)\<rparr>) (item_task i)" if "pxContainer ls i = Some l" for i l
  proof -
    have "item_task i \<noteq> t" using assms(2) that by fastforce
    then show ?thesis using assms(1) that by (auto simp: klists_ok_def owned_def)
  qed
  moreover have "lists_wf (ls\<lparr>pvOwner := (pvOwner ls)(StateItem t := Some t, EventItem t := Some t)\<rparr>)"
    using assms(1) by (simp add: klists_ok_def lists_wf_def owner_dll)
  ultimately show ?thesis using assms(1) by (simp add: klists_ok_def)
qed

text \<open>The start of a control block, in a kernel whose tasks all keep the invariant.\<close>

lemma initialise_ok:
  assumes ok: "kernel_ok s" and t: "at s (StateItem t) = None" and p: "p < 32"
  obtains s' where "prvInitialiseNewTask t p s = Some s'" "kernel_ok s'" "at s' = at s" "uxPriority s' = (uxPriority s)(t := p)"
    "pxCurrentTCB s' = pxCurrentTCB s" "pendsv s' = pendsv s" "xYieldPending s' = xYieldPending s" "xSchedulerRunning s' = xSchedulerRunning s"
    "t < 2 ^ 30 \<Longrightarrow> owned (lists s') t" "ucNotifyState s' t = taskNOT_WAITING_NOTIFICATION" "uxCurrentNumberOfTasks s' = uxCurrentNumberOfTasks s"
    "xTickCount s' = xTickCount s" "uxTopReadyPriority s' = uxTopReadyPriority s"
proof -
  have base: "kernel_base s" using ok by (simp add: kernel_ok_iff)
  note b = baseD [OF base]
  have ev: "at s (EventItem t) = None" using kernel_ok_baseD(2) [OF ok, of t] t by (auto simp: task_ok_def)
  define ls1 where "ls1 = (lists s)\<lparr>pvOwner := (pvOwner (lists s))(StateItem t := Some t, EventItem t := Some t)\<rparr>"
  define ls2 where "ls2 = listSET_LIST_ITEM_VALUE ls1 (EventItem t) (configMAX_PRIORITIES - p)"
  have none: "at s i = None" if "item_task i = t" for i using that t ev by (cases i) auto
  have k2: "klists_ok ls2" using klists_set_event_value [OF owner_klists [OF b(1) none]] by (simp add: ls2_def ls1_def)
  have e: "vListInitialiseItem (vListInitialiseItem (lists s) (StateItem t)) (EventItem t) = lists s"
    using t ev by (simp add: vListInitialiseItem_def fun_upd_idem)
  define s' where "s' = s\<lparr>uxPriority := (uxPriority s)(t := p), uxBasePriority := (uxBasePriority s)(t := p), uxMutexesHeld := (uxMutexesHeld s)(t := 0),
      ulNotifiedValue := (ulNotifiedValue s)(t := 0), ucNotifyState := (ucNotifyState s)(t := taskNOT_WAITING_NOTIFICATION), lists := ls2\<rparr>"
  have c: "pxContainer ls2 = at s" "uxNumberOfItems ls2 = uxNumberOfItems (lists s)" "\<And>u. item_key ls2 (StateItem u) = item_key (lists s) (StateItem u)"
    by (simp_all add: ls2_def ls1_def)
  have "kernel_base s'" using base k2 p c(2) by (auto simp: kernel_base_def s'_def)
  moreover have "task_ok s' u" for u
  proof (cases "u = t")
    case True
    then show ?thesis using t ev c(1) by (simp add: task_ok_def s'_def)
  next
    case False
    show ?thesis by (rule task_ok_other [OF kernel_ok_baseD(2) [OF ok]]) (use False c in \<open>simp_all add: s'_def\<close>)
  qed
  ultimately have "kernel_ok s'" by (simp add: kernel_ok_iff)
  moreover have "prvInitialiseNewTask t p s = Some s'"
    using p e by (simp add: prvInitialiseNewTask_def configASSERT_def configMAX_PRIORITIES_def Let_def s'_def ls2_def ls1_def)
  moreover have "t < 2 ^ 30 \<Longrightarrow> owned ls2 t" by (simp add: owned_def ls2_def ls1_def)
  ultimately show thesis using that [of s'] c(1) by (simp add: s'_def)
qed

lemma add_new:
  assumes "pxCurrentTCB s = Some c"
  shows "prvAddNewTaskToReadyList t s =
    (let s1 = (if \<not> xSchedulerRunning s \<and> uxPriority s c \<le> uxPriority s t then s\<lparr>uxCurrentNumberOfTasks := uxCurrentNumberOfTasks s + 1, pxCurrentTCB := Some t\<rparr>
               else s\<lparr>uxCurrentNumberOfTasks := uxCurrentNumberOfTasks s + 1\<rparr>);
         s2 = prvAddTaskToReadyList t s1
     in if xSchedulerRunning s2 then yield_if_higher t s2 else Some s2)"
  using assms by (simp add: prvAddNewTaskToReadyList_def Let_def)

lemma xTaskCreate_kinv:
  assumes k: "kinv idle s" and t: "at s (StateItem t) = None" "t < 2 ^ 30" "Some t \<noteq> pxCurrentTCB s" and p: "p < 32"
  shows "\<exists>s'. xTaskCreate t p s = Some s' \<and> kinv idle s' \<and> at s' = (at s)(StateItem t := Some (Ready p)) \<and>
    xSchedulerRunning s' = xSchedulerRunning s \<and> (pxCurrentTCB s' = Some t \<or> pxCurrentTCB s' = pxCurrentTCB s)"
proof -
  have ok: "kernel_ok s" using k by (simp add: kinv_def)
  obtain c where c: "pxCurrentTCB s = Some c" using kinv_current [OF k] by blast
  then have ct: "c \<noteq> t" using t(3) by auto
  obtain s0 where i: "prvInitialiseNewTask t p s = Some s0" "kernel_ok s0" "at s0 = at s" "uxPriority s0 = (uxPriority s)(t := p)"
    "pxCurrentTCB s0 = pxCurrentTCB s" "pendsv s0 = pendsv s" "xYieldPending s0 = xYieldPending s" "xSchedulerRunning s0 = xSchedulerRunning s"
    "owned (lists s0) t" "ucNotifyState s0 t = taskNOT_WAITING_NOTIFICATION" using initialise_ok [OF ok t(1) p] t(2) by metis
  define cur where "cur = (if \<not> xSchedulerRunning s \<and> uxPriority s c \<le> p then t else c)"
  define s1 where "s1 = s0\<lparr>uxCurrentNumberOfTasks := uxCurrentNumberOfTasks s0 + 1, pxCurrentTCB := Some cur\<rparr>"
  have b1: "kernel_base s1" "\<And>u. task_ok s1 u" using i(2) by (simp_all add: kernel_ok_iff kernel_base_def task_ok_def s1_def)
  obtain ls where a: "prvAddTaskToReadyList t s1 = s1\<lparr>lists := ls, uxTopReadyPriority := top_with s1 t\<rparr>"
    "kernel_ok (s1\<lparr>lists := ls, uxTopReadyPriority := top_with s1 t\<rparr>)" "pxContainer ls = (at s1)(StateItem t := Some (Ready (uxPriority s1 t)))"
    using make_ready [OF b1(1), of t] b1(2) i(3,9,10) t(1)
    by (auto simp: s1_def taskNOT_WAITING_NOTIFICATION_def taskWAITING_NOTIFICATION_def)
  define s2 where "s2 = s1\<lparr>lists := ls, uxTopReadyPriority := top_with s1 t\<rparr>"
  have s1: "(if \<not> xSchedulerRunning s \<and> uxPriority s c \<le> p then s0\<lparr>uxCurrentNumberOfTasks := uxCurrentNumberOfTasks s0 + 1, pxCurrentTCB := Some t\<rparr>
      else s0\<lparr>uxCurrentNumberOfTasks := uxCurrentNumberOfTasks s0 + 1\<rparr>) = s1"
    using i(5) c by (cases s0) (simp add: s1_def cur_def)
  have a2: "prvAddTaskToReadyList t s1 = s2" "xSchedulerRunning s2 = xSchedulerRunning s" using a(1) i(8) by (simp_all add: s2_def s1_def)
  have cond: "(\<not> xSchedulerRunning s0 \<and> uxPriority s0 c \<le> uxPriority s0 t) = (\<not> xSchedulerRunning s \<and> uxPriority s c \<le> p)"
    using i(4,8) ct by simp
  have c0: "pxCurrentTCB s0 = Some c" using i(5) c by simp
  have "prvAddNewTaskToReadyList t s0 = (if xSchedulerRunning s then yield_if_higher t s2 else Some s2)"
    unfolding add_new [OF c0] Let_def cond s1 a2 ..
  then have e: "xTaskCreate t p s = (if xSchedulerRunning s then yield_if_higher t s2 else Some s2)"
    using i(1) by (simp add: xTaskCreate_def)
  have f: "pxCurrentTCB s2 = Some cur" "uxPriority s2 = (uxPriority s)(t := p)" "pendsv s2 = pendsv s" "xYieldPending s2 = xYieldPending s"
    "at s2 = (at s)(StateItem t := Some (Ready p))" "kernel_ok s2" using i a(2,3) by (simp_all add: s2_def s1_def)
  define s3 where "s3 = (if xSchedulerRunning s \<and> uxPriority s2 c < uxPriority s2 t then s2\<lparr>pendsv := True\<rparr> else s2)"
  have "well_scheduled s3"
  proof (rule sched_step [of s])
    show "well_scheduled s" using k by (simp add: kinv_def)
    show "at s (StateItem u) = Some (Ready q) \<or> q \<le> uxPriority s3 (the (pxCurrentTCB s3))"
      if "at s3 (StateItem u) = Some (Ready q)" "\<not> pendsv s3" for u q
    proof (cases "u = t")
      case True
      then show ?thesis using that f ct by (auto simp: s3_def cur_def split: if_splits)
    qed (use that(1) f in \<open>simp add: s3_def split: if_splits\<close>)
  qed (use f ct c in \<open>auto simp: s3_def cur_def\<close>)
  moreover have "kernel_ok s3" "at s3 = at s2" using f(6) by (simp_all add: s3_def)
  moreover have "task_ready idle s3" using k f(5) \<open>at s3 = at s2\<close> by (auto simp: kinv_def task_ready_def)
  ultimately have "kinv idle s3" by (simp add: kinv_def)
  moreover have "xTaskCreate t p s = Some s3"
    using e f(1) by (auto simp: yield_if_higher_def s3_def cur_def)
  moreover have "at s3 = (at s)(StateItem t := Some (Ready p))" using \<open>at s3 = at s2\<close> f(5) by simp
  moreover have "xSchedulerRunning s3 = xSchedulerRunning s" "pxCurrentTCB s3 = Some t \<or> pxCurrentTCB s3 = pxCurrentTCB s"
    using a2(2) f(1) c by (auto simp: s3_def cur_def)
  ultimately show ?thesis by blast
qed

section \<open>Priorities\<close>

lemma event_priority_simps [simp]:
  "pxContainer (set_event_priority t p ls) = pxContainer ls" "uxNumberOfItems (set_event_priority t p ls) = uxNumberOfItems ls"
  "item_key (set_event_priority t p ls) (StateItem u) = item_key ls (StateItem u)" "owned (set_event_priority t p ls) u = owned ls u"
  by (simp_all add: set_event_priority_def owned_def)

lemma event_priority_ok: "klists_ok ls \<Longrightarrow> klists_ok (set_event_priority t p ls)"
  by (simp add: set_event_priority_def klists_set_event_value)

text \<open>The task \<open>t\<close> has a new priority: if it is ready, it moves to the list of that priority.\<close>

lemma requeue:
  assumes ok: "kernel_ok s" and q: "q < 32" "bq < 32" "bq \<le> q"
    and s1: "s1 = s\<lparr>uxPriority := (uxPriority s)(t := q), uxBasePriority := (uxBasePriority s)(t := bq), lists := set_event_priority t v (lists s)\<rparr>"
  obtains ls tp where "requeue_ready t (uxPriority s t) s1 = Some (s1\<lparr>lists := ls, uxTopReadyPriority := tp\<rparr>)"
    "kernel_ok (s1\<lparr>lists := ls, uxTopReadyPriority := tp\<rparr>)"
    "pxContainer ls = (if at s (StateItem t) = Some (Ready (uxPriority s t)) then (at s)(StateItem t := Some (Ready q)) else at s)"
proof -
  have base: "kernel_base s" using ok by (simp add: kernel_ok_iff)
  have b1: "kernel_base s1" using base q event_priority_ok by (auto simp: kernel_base_def s1)
  have o1: "task_ok s1 u" if "u \<noteq> t" for u
    by (rule task_ok_other [OF kernel_ok_baseD(2) [OF ok]]) (use that in \<open>simp_all add: s1\<close>)
  have a1: "at s1 = at s" "uxPriority s1 t = q" by (simp_all add: s1)
  have tk: "task_ok s t" using ok by (simp add: kernel_ok_iff)
  show thesis
  proof (cases "at s (StateItem t) = Some (Ready (uxPriority s t))")
    case False
    then have "at s (StateItem t) \<noteq> Some (Ready p)" for p using tk by (auto simp: task_ok_def)
    then have "task_ok s1 t" using tk by (simp add: task_ok_def s1)
    then have "kernel_ok s1" using b1 o1 unfolding kernel_ok_iff by metis
    moreover have "s1\<lparr>lists := lists s1, uxTopReadyPriority := uxTopReadyPriority s1\<rparr> = s1" by (cases s1) simp
    ultimately show thesis using that [of "uxTopReadyPriority s1" "lists s1"] False a1 by (simp add: requeue_ready_def)
  next
    case True
    then have at: "at s1 (StateItem t) = Some (Ready (uxPriority s t))" using a1 by simp
    obtain ls1 where r: "listREMOVE_ITEM (lists s1) (StateItem t) = Some ls1" "klists_ok ls1" "pxContainer ls1 = (at s1)(StateItem t := None)" "same_items ls1 (lists s1)"
      "uxNumberOfItems ls1 = (uxNumberOfItems (lists s1))(Ready (uxPriority s t) := uxNumberOfItems (lists s1) (Ready (uxPriority s t)) - 1)"
      using klists_remove [OF baseD(1) [OF b1] at] .
    define s2 where "s2 = s1\<lparr>lists := ls1\<rparr>"
    have b2: "kernel_base s2" using b1 r(2,5) by (simp add: kernel_base_def s2_def)
    have o2: "task_ok s2 u" if "u \<noteq> t" for u
      by (rule task_ok_other [OF o1 [OF that]]) (use that r(3,4) in \<open>simp_all add: s2_def same_items_def\<close>)
    have ow: "owned (lists s2) t" using klists_owned [OF baseD(1) [OF b1] at] r(4) by (simp add: s2_def same_items_simps)
    have n: "at s2 (StateItem t) = None" using r(3) by (simp add: s2_def)
    have w: "at s2 (EventItem t) = None" if "ucNotifyState s2 t = taskWAITING_NOTIFICATION"
      using that tk True r(3) by (simp add: task_ok_def s2_def s1)
    obtain ls where a: "prvAddTaskToReadyList t s2 = s2\<lparr>lists := ls, uxTopReadyPriority := top_with s2 t\<rparr>"
      "kernel_ok (s2\<lparr>lists := ls, uxTopReadyPriority := top_with s2 t\<rparr>)" "pxContainer ls = (at s2)(StateItem t := Some (Ready (uxPriority s2 t)))"
      using make_ready [OF b2 ow n w o2] by blast
    have "requeue_ready t (uxPriority s t) s1 = Some (s1\<lparr>lists := ls, uxTopReadyPriority := top_with s2 t\<rparr>)"
      using at r(1) a(1) by (simp add: requeue_ready_def s2_def)
    moreover have "kernel_ok (s1\<lparr>lists := ls, uxTopReadyPriority := top_with s2 t\<rparr>)" using a(2) by (simp add: s2_def)
    moreover have "pxContainer ls = (at s)(StateItem t := Some (Ready q))" using a(3) r(3) a1 by (simp add: s2_def)
    ultimately show thesis using that True by simp
  qed
qed

text \<open>The choice of the running task after a change of the priority of \<open>t\<close>.\<close>

lemma requeued_kinv:
  assumes k: "kinv idle s" and ok: "kernel_ok s'" and p: "uxPriority s' = (uxPriority s)(t := q)"
    and a: "at s' = (if at s (StateItem t) = Some (Ready (uxPriority s t)) then (at s)(StateItem t := Some (Ready q)) else at s)"
    and f: "pxCurrentTCB s' = pxCurrentTCB s" "xYieldPending s' = xYieldPending s" "pendsv s \<Longrightarrow> pendsv s'"
    and y: "pendsv s' \<or> (if Some t = pxCurrentTCB s then uxPriority s t \<le> q else q \<le> uxPriority s t \<or> q \<le> uxPriority s (the (pxCurrentTCB s)))"
  shows "kinv idle s'"
proof -
  obtain c where c: "pxCurrentTCB s = Some c" using kinv_current [OF k] by blast
  have w: "well_scheduled s" using k by (simp add: kinv_def)
  have "well_scheduled s'"
  proof (cases "pendsv s' \<or> xYieldPending s'")
    case True
    then show ?thesis by (auto simp: well_scheduled_def)
  next
    case False
    then have np: "\<not> pendsv s" "\<not> xYieldPending s" using f by auto
    have le: "p \<le> uxPriority s c" if "at s (StateItem u) = Some (Ready p)" for u p
      using w np c that by (auto simp: well_scheduled_def)
    have cur: "uxPriority s c \<le> uxPriority s' c" using y False c by (auto simp: p)
    have "p' \<le> uxPriority s' c" if "at s' (StateItem u) = Some (Ready p')" for u p'
    proof (cases "u = t \<and> at s (StateItem t) = Some (Ready (uxPriority s t))")
      case t: True
      then have p': "p' = q" "uxPriority s t \<le> uxPriority s c" using that a le by auto
      show ?thesis
      proof (cases "c = t")
        case False
        then have "q \<le> uxPriority s c" using y \<open>\<not> (pendsv s' \<or> xYieldPending s')\<close> c p'(2) by (auto intro: order_trans)
        then show ?thesis using p' False by (simp add: p)
      qed (use p' in \<open>simp add: p\<close>)
    next
      case False
      then have "at s (StateItem u) = Some (Ready p')" using that a by (auto split: if_splits)
      then show ?thesis using le cur order_trans by blast
    qed
    then show ?thesis using c f(1) by (auto simp: well_scheduled_def)
  qed
  moreover have "task_ready idle s'" using k a by (auto simp: kinv_def task_ready_def)
  ultimately show ?thesis using ok by (simp add: kinv_def)
qed

lemma vTaskPrioritySet_kinv:
  assumes k: "kinv idle s" and p: "p < 32"
  shows "\<exists>s'. vTaskPrioritySet h p s = Some s' \<and> kinv idle s'"
proof -
  have ok: "kernel_ok s" and base: "kernel_base s" using k by (simp_all add: kinv_def kernel_ok_iff)
  obtain c where c: "pxCurrentTCB s = Some c" using kinv_current [OF k] by blast
  obtain t where t: "prvGetTCBFromHandle h s = Some t" using c by (cases h) (auto simp: prvGetTCBFromHandle_def)
  have le: "uxPriority s t < 32" "uxBasePriority s t \<le> uxPriority s t" using base by (auto simp: kernel_base_def)
  show ?thesis
  proof (cases "uxBasePriority s t = p")
    case True
    then show ?thesis using p t k by (simp add: vTaskPrioritySet_def configASSERT_def configMAX_PRIORITIES_def)
  next
    case False
    define q where "q = (if uxBasePriority s t = uxPriority s t \<or> p > uxPriority s t then p else uxPriority s t)"
    define yr where "yr = (if p > uxBasePriority s t then t \<noteq> c \<and> p > uxPriority s c else t = c)"
    define s1 where "s1 = s\<lparr>uxPriority := (uxPriority s)(t := q), uxBasePriority := (uxBasePriority s)(t := p), lists := set_event_priority t p (lists s)\<rparr>"
    have q: "q < 32" "p \<le> q" using p le by (auto simp: q_def)
    obtain ls tp where r: "requeue_ready t (uxPriority s t) s1 = Some (s1\<lparr>lists := ls, uxTopReadyPriority := tp\<rparr>)"
      "kernel_ok (s1\<lparr>lists := ls, uxTopReadyPriority := tp\<rparr>)"
      "pxContainer ls = (if at s (StateItem t) = Some (Ready (uxPriority s t)) then (at s)(StateItem t := Some (Ready q)) else at s)"
      using requeue [OF ok q(1) p q(2) s1_def] by metis
    define s2 where "s2 = s1\<lparr>lists := ls, uxTopReadyPriority := tp\<rparr>"
    define s3 where "s3 = (if yr then vPortYield s2 else s2)"
    have "kinv idle s3"
    proof (rule requeued_kinv [OF k, where t = t and q = q])
      show "kernel_ok s3" using r(2) by (simp add: s3_def s2_def vPortYield_def)
      show "pendsv s3 \<or> (if Some t = pxCurrentTCB s then uxPriority s t \<le> q else q \<le> uxPriority s t \<or> q \<le> uxPriority s (the (pxCurrentTCB s)))"
      proof (cases yr)
        case True
        then show ?thesis by (simp add: s3_def vPortYield_def)
      next
        case no: False
        show ?thesis
        proof (cases "t = c")
          case True
          then have "p > uxBasePriority s t" using no by (auto simp: yr_def split: if_splits)
          then show ?thesis using True c le by (auto simp: q_def)
        next
          case tc: False
          have "q \<le> uxPriority s t \<or> q \<le> uxPriority s c"
          proof (cases "p > uxBasePriority s t")
            case True
            then have "p \<le> uxPriority s c" using no tc by (auto simp: yr_def)
            then show ?thesis by (simp add: q_def)
          next
            case lower: False
            then have "p \<le> uxPriority s t" using le order_trans linorder_not_less by blast
            then show ?thesis by (simp add: q_def)
          qed
          then show ?thesis using tc c by auto
        qed
      qed
    qed (use r(3) in \<open>simp_all add: s3_def s2_def s1_def vPortYield_def\<close>)
    moreover have "vTaskPrioritySet h p s = Some s3"
    proof -
      have e: "s\<lparr>uxPriority := (if uxBasePriority s t = uxPriority s t \<or> p > uxPriority s t then (uxPriority s)(t := p) else uxPriority s),
          uxBasePriority := (uxBasePriority s)(t := p), lists := set_event_priority t p (lists s)\<rparr> = s1"
        by (auto simp: s1_def q_def)
      have "vTaskPrioritySet h p s = requeue_ready t (uxPriority s t) s1 \<bind> (\<lambda>s. Some (if yr then vPortYield s else s))"
        using p t c False e unfolding vTaskPrioritySet_def Let_def by (simp add: configASSERT_def configMAX_PRIORITIES_def yr_def split del: if_split)
      then show ?thesis using r(1) by (simp add: s3_def s2_def)
    qed
    ultimately show ?thesis by blast
  qed
qed

lemma xTaskPriorityInherit_kinv:
  assumes k: "kinv idle s"
  shows "\<exists>b s'. xTaskPriorityInherit h s = Some (b, s') \<and> kinv idle s'"
proof (cases h)
  case None
  then show ?thesis using k by (auto simp: xTaskPriorityInherit_def)
next
  case (Some m)
  have ok: "kernel_ok s" and base: "kernel_base s" using k by (simp_all add: kinv_def kernel_ok_iff)
  obtain c where c: "pxCurrentTCB s = Some c" using kinv_current [OF k] by blast
  show ?thesis
  proof (cases "uxPriority s m < uxPriority s c")
    case False
    then show ?thesis using Some c k by (auto simp: xTaskPriorityInherit_def)
  next
    case True
    define q where "q = uxPriority s c"
    have bq: "uxBasePriority s m < 32" "uxBasePriority s m \<le> q" "q < 32"
      using base True by (auto simp: kernel_base_def q_def intro: order_trans less_imp_le)
    define s1 where "s1 = s\<lparr>uxPriority := (uxPriority s)(m := q), uxBasePriority := (uxBasePriority s)(m := uxBasePriority s m),
        lists := set_event_priority m q (lists s)\<rparr>"
    obtain ls tp where r: "requeue_ready m (uxPriority s m) s1 = Some (s1\<lparr>lists := ls, uxTopReadyPriority := tp\<rparr>)"
      "kernel_ok (s1\<lparr>lists := ls, uxTopReadyPriority := tp\<rparr>)"
      "pxContainer ls = (if at s (StateItem m) = Some (Ready (uxPriority s m)) then (at s)(StateItem m := Some (Ready q)) else at s)"
      using requeue [OF ok bq(3,1,2) s1_def] by metis
    define s2 where "s2 = s1\<lparr>lists := ls, uxTopReadyPriority := tp\<rparr>"
    have mc: "m \<noteq> c" using True by auto
    have "kinv idle s2"
      by (rule requeued_kinv [OF k, where t = m and q = q]) (use r(2,3) c mc in \<open>auto simp: s2_def s1_def q_def\<close>)
    moreover have "s\<lparr>lists := set_event_priority m q (lists s), uxPriority := (uxPriority s)(m := q)\<rparr> = s1" by (cases s) (simp add: s1_def)
    then have "xTaskPriorityInherit h s = Some (True, s2)"
      using Some c True r(1) by (simp add: xTaskPriorityInherit_def Let_def q_def s2_def)
    ultimately show ?thesis by blast
  qed
qed

text \<open>
  A mutex is given back: the part of \<^verbatim>\<open>xQueueGenericSend\<close> behind the check for room, for the mutex whose waiting tasks are in the
  list of the event \<open>e\<close>. The holder gives up an inherited priority. If a task waits, it is woken, and only what that returns decides
  on the yield; otherwise the priority given up asks for it.
\<close>

definition give_mutex :: "nat \<Rightarrow> nat option \<Rightarrow> kernel \<Rightarrow> kernel option" where
  "give_mutex e h s =
    do { (xYieldRequired, s) \<leftarrow> xTaskPriorityDisinherit h s;
         if \<not> listLIST_IS_EMPTY (lists s) (EventsOf e)
         then do { (woken, s) \<leftarrow> xTaskRemoveFromEventList e s; Some (if woken then vPortYield s else s) }
         else Some (if xYieldRequired then vPortYield s else s) }"

text \<open>The priority given up asks for a switch, but a task waits and its waking does not.\<close>

definition gives_down :: "nat \<Rightarrow> nat option \<Rightarrow> kernel \<Rightarrow> bool" where
  "gives_down e h s \<longleftrightarrow>
    (case xTaskPriorityDisinherit h s of
       Some (xYieldRequired, s) \<Rightarrow>
         xYieldRequired \<and> \<not> listLIST_IS_EMPTY (lists s) (EventsOf e) \<and>
         (case xTaskRemoveFromEventList e s of Some (woken, s) \<Rightarrow> \<not> woken | None \<Rightarrow> False)
     | None \<Rightarrow> False)"

lemma kinv_pend_iff: "kinv idle (pend s) \<longleftrightarrow> kernel_ok s \<and> task_ready idle s"
  by (simp add: pend_def kinv_def well_scheduled_def task_ready_def)

lemma kinv_pend: "kinv idle s \<Longrightarrow> kinv idle (pend s)"
  by (simp add: kinv_pend_iff) (simp add: kinv_def)

lemma pend_give: "give_mutex e h (pend s) = map_option pend (give_mutex e h s)"
  by (simp add: give_mutex_def through pends cong: if_cong)

text \<open>The holder's part.\<close>

lemma disinherit_kinv:
  assumes k: "kinv idle s" and h: "h = None \<or> h = pxCurrentTCB s" and c: "pxCurrentTCB s = Some c" and l: "live s c" and m: "uxMutexesHeld s c \<noteq> 0"
  shows "\<exists>y s'. xTaskPriorityDisinherit h s = Some (y, s') \<and> kinv idle (pend s') \<and> (\<not> y \<longrightarrow> kinv idle s')"
proof (cases h)
  case None
  then have "xTaskPriorityDisinherit h s = Some (False, s)" by (simp add: xTaskPriorityDisinherit_def)
  then show ?thesis using k kinv_pend [OF k] by blast
next
  case (Some t)
  then have t: "t = c" "h = Some c" using h c by auto
  define s0 where "s0 = s\<lparr>uxMutexesHeld := (uxMutexesHeld s)(c := uxMutexesHeld s c - 1)\<rparr>"
  have k0: "kinv idle s0" using k by (simp add: s0_def)
  show ?thesis
  proof (cases "uxPriority s c \<noteq> uxBasePriority s c \<and> uxMutexesHeld s c = 1")
    case False
    then have "xTaskPriorityDisinherit h s = Some (False, s0)" using t c m by (auto simp: xTaskPriorityDisinherit_def configASSERT_def Let_def s0_def)
    then show ?thesis using k0 kinv_pend [OF k0] by blast
  next
    case True
    have ok: "kernel_ok s0" and base: "kernel_base s0" using k0 by (simp_all add: kinv_def kernel_ok_iff)
    obtain i where i: "at s0 (StateItem c) = Some i" "i \<noteq> WaitingTermination" using l by (auto simp: live_def s0_def)
    obtain ls1 where r: "listREMOVE_ITEM (lists s0) (StateItem c) = Some ls1" "klists_ok ls1" "pxContainer ls1 = (at s0)(StateItem c := None)" "same_items ls1 (lists s0)"
      "uxNumberOfItems ls1 = (uxNumberOfItems (lists s0))(i := uxNumberOfItems (lists s0) i - 1)" using klists_remove [OF baseD(1) [OF base] i(1)] .
    define bp where "bp = uxBasePriority s0 c"
    define ls2 where "ls2 = listSET_LIST_ITEM_VALUE ls1 (EventItem c) (configMAX_PRIORITIES - bp)"
    define s1 where "s1 = s0\<lparr>uxPriority := (uxPriority s0)(c := bp), lists := ls2\<rparr>"
    have b1: "kernel_base s1" using base r(2,5) i(2) klists_set_event_value [OF r(2)] by (auto simp: kernel_base_def s1_def ls2_def bp_def)
    have o1: "task_ok s1 u" if "u \<noteq> c" for u
      by (rule task_ok_other [OF kernel_ok_baseD(2) [OF ok]]) (use that r(3,4) in \<open>simp_all add: s1_def ls2_def same_items_def\<close>)
    have ow: "owned (lists s1) c" using klists_owned [OF baseD(1) [OF base] i(1)] r(4) by (simp add: s1_def ls2_def owned_def same_items_def)
    have n: "at s1 (StateItem c) = None" using r(3) by (simp add: s1_def ls2_def)
    have w: "at s1 (EventItem c) = None" if "ucNotifyState s1 c = taskWAITING_NOTIFICATION"
      using that kernel_ok_baseD(2) [OF ok, of c] i(1) r(3) by (simp add: task_ok_def s1_def ls2_def)
    obtain ls where a: "prvAddTaskToReadyList c s1 = s1\<lparr>lists := ls, uxTopReadyPriority := top_with s1 c\<rparr>"
      "kernel_ok (s1\<lparr>lists := ls, uxTopReadyPriority := top_with s1 c\<rparr>)" "pxContainer ls = (at s1)(StateItem c := Some (Ready (uxPriority s1 c)))"
      using make_ready [OF b1 ow n w o1] by blast
    define s2 where "s2 = s1\<lparr>lists := ls, uxTopReadyPriority := top_with s1 c\<rparr>"
    have "task_ready idle s2" using k a(3) r(3) by (auto simp: kinv_def task_ready_def s2_def s1_def ls2_def s0_def)
    then have "kinv idle (pend s2)" using a(2) by (simp add: kinv_pend_iff s2_def)
    moreover have "xTaskPriorityDisinherit h s = Some (True, s2)"
      using True t c m r(1) a(1) by (simp add: xTaskPriorityDisinherit_def configASSERT_def Let_def s0_def s1_def s2_def ls2_def bp_def)
    ultimately show ?thesis by blast
  qed
qed

lemma remove_event_pend:
  assumes k: "kinv idle (pend s)" and e: "\<not> listLIST_IS_EMPTY (lists s) (EventsOf e)"
  obtains b s' where "xTaskRemoveFromEventList e s = Some (b, s')" "kinv idle (pend s')" "b \<Longrightarrow> xYieldPending s'"
proof -
  obtain b s1 where p: "xTaskRemoveFromEventList e (pend s) = Some (b, s1)" "kinv idle s1"
    using xTaskRemoveFromEventList_kinv [OF k, of e] e by auto
  then obtain s' where r: "xTaskRemoveFromEventList e s = Some (b, s')" "s1 = pend s'" by (auto simp: pends)
  have "b \<Longrightarrow> xYieldPending s'"
    using r(1) unfolding xTaskRemoveFromEventList_def by (auto simp: bind_eq_Some_conv split: if_splits)
  then show thesis using that r p(2) by simp
qed

lemma give_mutex_kinv:
  assumes k: "kinv idle s" and h: "h = None \<or> h = pxCurrentTCB s" and c: "pxCurrentTCB s = Some c" and l: "live s c" and m: "uxMutexesHeld s c \<noteq> 0"
  shows "\<exists>s'. give_mutex e h s = Some s' \<and> kinv idle (pend s') \<and> (\<not> gives_down e h s \<longrightarrow> kinv idle s')"
proof -
  obtain y s1 where d: "xTaskPriorityDisinherit h s = Some (y, s1)" "kinv idle (pend s1)" "\<not> y \<Longrightarrow> kinv idle s1"
    using disinherit_kinv [OF assms] by metis
  show ?thesis
  proof (cases "listLIST_IS_EMPTY (lists s1) (EventsOf e)")
    case True
    define s' where "s' = (if y then vPortYield s1 else s1)"
    have "kinv idle s'" using d(2,3) by (cases y) (simp_all add: s'_def vPortYield_def pend_again)
    moreover have "give_mutex e h s = Some s'" using d(1) True by (simp add: give_mutex_def s'_def)
    ultimately show ?thesis using kinv_pend by blast
  next
    case False
    obtain b s2 where w: "xTaskRemoveFromEventList e s1 = Some (b, s2)" "kinv idle (pend s2)" "b \<Longrightarrow> xYieldPending s2"
      using remove_event_pend [OF d(2) False] by blast
    define s' where "s' = (if b then vPortYield s2 else s2)"
    have g: "give_mutex e h s = Some s'" using d(1) w(1) False by (simp add: give_mutex_def s'_def)
    have p: "kinv idle (pend s')" using w(2) by (simp add: s'_def vPortYield_def pend_again)
    have "kinv idle s'" if "\<not> gives_down e h s"
    proof (cases b)
      case True
      then show ?thesis using w(2) by (simp add: s'_def vPortYield_def pend_again)
    next
      case nb: False
      then have "\<not> y" using that d(1) w(1) False by (simp add: gives_down_def)
      then have "kinv idle s1" by (rule d(3))
      then have "kinv idle s2" using xTaskRemoveFromEventList_kinv [of idle s1 e] False w(1) by simp
      then show ?thesis using nb by (simp add: s'_def)
    qed
    then show ?thesis using g p by blast
  qed
qed

lemma vTaskPriorityDisinheritAfterTimeout_kinv:
  assumes k: "kinv idle s" and h: "\<And>t. h = Some t \<Longrightarrow> uxMutexesHeld s t \<noteq> 0 \<and> Some t \<noteq> pxCurrentTCB s \<and> w < 32 \<and>
    (w \<le> uxPriority s t \<or> pendsv s \<or> uxMutexesHeld s t \<noteq> 1)"
  shows "\<exists>s'. vTaskPriorityDisinheritAfterTimeout h w s = Some s' \<and> kinv idle s'"
proof (cases h)
  case None
  then show ?thesis using k by (simp add: vTaskPriorityDisinheritAfterTimeout_def)
next
  case (Some t)
  note t = h [OF Some]
  have ok: "kernel_ok s" and base: "kernel_base s" using k by (simp_all add: kinv_def kernel_ok_iff)
  obtain c where c: "pxCurrentTCB s = Some c" using kinv_current [OF k] by blast
  define q where "q = (if uxBasePriority s t < w then w else uxBasePriority s t)"
  have bp: "uxPriority s t < 32" "uxBasePriority s t < 32" "uxBasePriority s t \<le> uxPriority s t" using base by (auto simp: kernel_base_def)
  have q: "q \<le> uxPriority s t \<or> pendsv s" if "uxMutexesHeld s t = 1" using t bp that by (auto simp: q_def)
  have bq: "uxBasePriority s t \<le> q" by (auto simp: q_def)
  have q32: "q < 32" using t bp by (auto simp: q_def)
  show ?thesis
  proof (cases "uxPriority s t \<noteq> q \<and> uxMutexesHeld s t = 1")
    case False
    then show ?thesis using Some t k by (auto simp: vTaskPriorityDisinheritAfterTimeout_def configASSERT_def Let_def q_def)
  next
    case True
    define s1 where "s1 = s\<lparr>uxPriority := (uxPriority s)(t := q), uxBasePriority := (uxBasePriority s)(t := uxBasePriority s t),
        lists := set_event_priority t q (lists s)\<rparr>"
    obtain ls tp where r: "requeue_ready t (uxPriority s t) s1 = Some (s1\<lparr>lists := ls, uxTopReadyPriority := tp\<rparr>)"
      "kernel_ok (s1\<lparr>lists := ls, uxTopReadyPriority := tp\<rparr>)"
      "pxContainer ls = (if at s (StateItem t) = Some (Ready (uxPriority s t)) then (at s)(StateItem t := Some (Ready q)) else at s)"
      using requeue [OF ok q32 bp(2) bq s1_def] by metis
    define s2 where "s2 = s1\<lparr>lists := ls, uxTopReadyPriority := tp\<rparr>"
    have "kinv idle s2"
      by (rule requeued_kinv [OF k, where t = t and q = q]) (use r(2,3) t q True in \<open>auto simp: s2_def s1_def\<close>)
    moreover have "s\<lparr>uxPriority := (uxPriority s)(t := q), lists := set_event_priority t q (lists s)\<rparr> = s1" by (cases s) (simp add: s1_def)
    then have "vTaskPriorityDisinheritAfterTimeout h w s = Some s2"
      using Some t True r(1) unfolding vTaskPriorityDisinheritAfterTimeout_def Let_def
      by (simp add: configASSERT_def q_def [symmetric] s2_def)
    ultimately show ?thesis by blast
  qed
qed

section \<open>Calls that touch no list\<close>

lemma notify_state_frame: "n = taskNOT_WAITING_NOTIFICATION \<Longrightarrow> kinv idle s \<Longrightarrow> kinv idle (s\<lparr>ucNotifyState := (ucNotifyState s)(t := n)\<rparr>)"
  by (auto simp: kinv_def kernel_ok_def kernel_core_def delays_ok_def well_scheduled_def task_ready_def
    taskNOT_WAITING_NOTIFICATION_def taskWAITING_NOTIFICATION_def)

lemma quiet_calls_kinv:
  assumes k: "kinv idle s"
  shows "kinv idle (vTaskMissedYield s)" "\<exists>v s'. uxTaskResetEventItemValue s = Some (v, s') \<and> kinv idle s'"
    "\<exists>b s'. xTaskGenericNotifyStateClear h s = Some (b, s') \<and> kinv idle s'"
    "\<exists>v s'. ulTaskGenericNotifyValueClear h bits s = Some (v, s') \<and> kinv idle s'" "kinv idle (snd (pvTaskIncrementMutexHeldCount s))"
proof -
  obtain c where c: "pxCurrentTCB s = Some c" using kinv_current [OF k] by blast
  obtain t where t: "prvGetTCBFromHandle h s = Some t" using c by (cases h) (auto simp: prvGetTCBFromHandle_def)
  show "kinv idle (vTaskMissedYield s)" using k by (simp add: vTaskMissedYield_def)
  show "\<exists>v s'. uxTaskResetEventItemValue s = Some (v, s') \<and> kinv idle s'"
    using c set_event_kinv [OF k] by (simp add: uxTaskResetEventItemValue_def)
  show "\<exists>b s'. xTaskGenericNotifyStateClear h s = Some (b, s') \<and> kinv idle s'"
    using t k notify_state_frame [OF refl k] by (auto simp: xTaskGenericNotifyStateClear_def)
  show "\<exists>v s'. ulTaskGenericNotifyValueClear h bits s = Some (v, s') \<and> kinv idle s'" using t k by (simp add: ulTaskGenericNotifyValueClear_def)
  show "kinv idle (snd (pvTaskIncrementMutexHeldCount s))" using c k by (simp add: pvTaskIncrementMutexHeldCount_def)
qed

text \<open>
  What an overlooked switch means: the priority of the holder falls below that of a ready task, and nothing asks for a switch.
\<close>

lemma disinherit_effect:
  assumes "kernel_ok s" and d: "xTaskPriorityDisinherit (Some c) s = Some (True, s')" and l: "live s c"
  shows "pxCurrentTCB s = Some c" "pxCurrentTCB s' = Some c" "uxPriority s' = (uxPriority s)(c := uxBasePriority s c)" "pendsv s' = pendsv s" "xYieldPending s' = xYieldPending s"
    "u \<noteq> c \<Longrightarrow> at s' (StateItem u) = at s (StateItem u)"
proof -
  obtain i where i: "at s (StateItem c) = Some i" using l by (auto simp: live_def)
  have b: "klists_ok (lists s)" using assms(1) by (simp add: kernel_ok_def kernel_core_def)
  obtain ls1 where r: "listREMOVE_ITEM (lists s) (StateItem c) = Some ls1" "pxContainer ls1 = (at s)(StateItem c := None)"
    using klists_remove [OF b i] by metis
  have e: "Some c = pxCurrentTCB s" "s' = prvAddTaskToReadyList c (s\<lparr>uxMutexesHeld := (uxMutexesHeld s)(c := uxMutexesHeld s c - 1),
      uxPriority := (uxPriority s)(c := uxBasePriority s c), lists := listSET_LIST_ITEM_VALUE ls1 (EventItem c) (configMAX_PRIORITIES - uxBasePriority s c)\<rparr>)"
    using d r(1) by (auto simp: xTaskPriorityDisinherit_def configASSERT_def Let_def bind_eq_Some_conv split: if_splits)
  show "pxCurrentTCB s = Some c" using e(1) by simp
  show "pxCurrentTCB s' = Some c" "uxPriority s' = (uxPriority s)(c := uxBasePriority s c)" "pendsv s' = pendsv s" "xYieldPending s' = xYieldPending s"
    using e by (simp_all add: prvAddTaskToReadyList_def)
  show "at s' (StateItem u) = at s (StateItem u)" if "u \<noteq> c"
    using that r(2) by (simp add: e(2) prvAddTaskToReadyList_def vListInsertEnd_def insert_after_def listSET_LIST_ITEM_VALUE_def Let_def)
qed

lemma remove_event_effect:
  assumes ok: "kernel_ok s" and r: "xTaskRemoveFromEventList e s = Some (False, s')" and e: "\<not> listLIST_IS_EMPTY (lists s) (EventsOf e)"
  shows "uxPriority s' = uxPriority s" "pxCurrentTCB s' = pxCurrentTCB s" "pendsv s' = pendsv s" "xYieldPending s' = xYieldPending s"
    "task_ready u s \<Longrightarrow> task_ready u s'"
proof -
  have b: "klists_ok (lists s)" using ok by (simp add: kernel_ok_def kernel_core_def)
  obtain i where h: "pxNext (lists s) (EndOf (EventsOf e)) = ItemOf i" "at s i = Some (EventsOf e)" using head_of_list [OF b e] by metis
  obtain t where t: "i = EventItem t" "pvOwner (lists s) i = Some t" using event_owner [OF ok h(2)] by blast
  have own: "listGET_OWNER_OF_HEAD_ENTRY (lists s) (EventsOf e) = Some t" using head_owner [OF h(1)] t(2) by simp
  have at: "at s (EventItem t) = Some (EventsOf e)" using h(2) t(1) by simp
  obtain ls ls1 ls2 where o: "listREMOVE_ITEM (lists s) (EventItem t) = Some ls" "listREMOVE_ITEM ls (StateItem t) = Some ls1"
    "prvAddTaskToReadyList t (s\<lparr>lists := ls1\<rparr>) = s\<lparr>lists := ls2, uxTopReadyPriority := top_with s t\<rparr>"
    "pxContainer ls2 = (at s)(EventItem t := None, StateItem t := Some (Ready (uxPriority s t)))"
    "pxContainer (vListInsertEnd ls PendingReady (EventItem t)) = (at s)(EventItem t := Some PendingReady)"
    using event_over [OF ok at] by metis
  define s1 where "s1 = (if uxSchedulerSuspended s = 0 then s\<lparr>lists := ls2, uxTopReadyPriority := top_with s t\<rparr>
      else s\<lparr>lists := vListInsertEnd ls PendingReady (EventItem t)\<rparr>)"
  have s': "s' = s1"
    using r own o(1-3) unfolding xTaskRemoveFromEventList_def
    by (cases "uxSchedulerSuspended s = 0") (auto simp: s1_def bind_eq_Some_conv split: if_splits)
  show "uxPriority s' = uxPriority s" "pxCurrentTCB s' = pxCurrentTCB s" "pendsv s' = pendsv s" "xYieldPending s' = xYieldPending s"
    by (simp_all add: s' s1_def)
  show "task_ready u s'" if "task_ready u s" using that o(4,5) by (auto simp: s' s1_def task_ready_def)
qed

lemma overlooked_switch:
  assumes k: "kinv idle s" and c: "pxCurrentTCB s = Some c" "live s c" "uxMutexesHeld s c \<noteq> 0" and g: "gives_down e (Some c) s"
    and u: "u \<noteq> c" "task_ready u s" "uxBasePriority s c < uxPriority s u" and np: "\<not> pendsv s" "\<not> xYieldPending s"
  shows "\<exists>s'. give_mutex e (Some c) s = Some s' \<and> task_ready u s' \<and> pxCurrentTCB s' = Some c \<and> uxPriority s' c < uxPriority s' u \<and>
    \<not> pendsv s' \<and> \<not> xYieldPending s'"
proof -
  obtain s1 s2 where d: "xTaskPriorityDisinherit (Some c) s = Some (True, s1)" and e: "\<not> listLIST_IS_EMPTY (lists s1) (EventsOf e)"
    and w: "xTaskRemoveFromEventList e s1 = Some (False, s2)"
    using g by (auto simp: gives_down_def split: option.splits prod.splits)
  have ok: "kernel_ok s" using k by (simp add: kinv_def)
  have "kinv idle (pend s1)" using disinherit_kinv [OF k _ c, of "Some c"] c(1) d by auto
  then have k1: "kernel_ok s1" by (simp add: kinv_pend_iff)
  note f = disinherit_effect [OF ok d c(2)] and f' = remove_event_effect [OF k1 w e]
  have "give_mutex e (Some c) s = Some s2" using d e w by (simp add: give_mutex_def)
  moreover have "task_ready u s1" using u f(6) [of u] by (simp add: task_ready_def)
  ultimately show ?thesis using f f' u np by auto
qed

end
