(* ===== verification/Rtos_Machine.thy ===== *)
theory Rtos_Machine
  imports Rtos_Calls
begin

text \<open>
  The scheduler as a machine whose steps are its calls and interrupts: the start-up, the states that any sequence of
  calls can reach, and what holds in all of them.
\<close>

section \<open>Calls\<close>

datatype call =
    SysTick
  | PendSV
  | SuspendAll
  | ResumeAll
  | Delay u32
  | DelayUntil u32 u32
  | PlaceOnEventList nat u32
  | PlaceOnUnorderedEventList nat u32 u32
  | PlaceOnEventListRestricted nat u32 bool
  | RemoveFromEventList nat
  | RemoveFromUnorderedEventList nat u32
  | MissedYield
  | ResetEventItemValue
  | Create nat u32
  | Delete "nat option"
  | CheckTasksWaitingTermination
  | Suspend "nat option"
  | Resume nat
  | ResumeFromISR nat
  | PrioritySet "nat option" u32
  | TakeMutex
  | PriorityInherit "nat option"
  | GiveMutex nat "nat option"
  | DisinheritAfterTimeout "nat option" u32
  | Notify nat u32 eNotifyAction
  | NotifyFromISR nat u32 eNotifyAction
  | NotifyGiveFromISR nat
  | NotifyTake u32
  | NotifyTaken bool
  | NotifyWait u32 u32
  | NotifyWaited u32
  | NotifyStateClear "nat option"
  | NotifyValueClear "nat option" u32

fun kernel_call :: "call \<Rightarrow> kernel \<Rightarrow> kernel option" where
  "kernel_call SysTick s = SysTick_Handler s"
| "kernel_call PendSV s = PendSV_Handler s"
| "kernel_call SuspendAll s = Some (vTaskSuspendAll s)"
| "kernel_call ResumeAll s = map_option snd (xTaskResumeAll s)"
| "kernel_call (Delay n) s = vTaskDelay n s"
| "kernel_call (DelayUntil prev inc) s = map_option (snd \<circ> snd) (xTaskDelayUntil prev inc s)"
| "kernel_call (PlaceOnEventList e n) s = vTaskPlaceOnEventList e n s"
| "kernel_call (PlaceOnUnorderedEventList e v n) s = vTaskPlaceOnUnorderedEventList e v n s"
| "kernel_call (PlaceOnEventListRestricted e n w) s = vTaskPlaceOnEventListRestricted e n w s"
| "kernel_call (RemoveFromEventList e) s = map_option snd (xTaskRemoveFromEventList e s)"
| "kernel_call (RemoveFromUnorderedEventList t v) s = vTaskRemoveFromUnorderedEventList (EventItem t) v s"
| "kernel_call MissedYield s = Some (vTaskMissedYield s)"
| "kernel_call ResetEventItemValue s = map_option snd (uxTaskResetEventItemValue s)"
| "kernel_call (Create t p) s = xTaskCreate t p s"
| "kernel_call (Delete h) s = vTaskDelete h s"
| "kernel_call CheckTasksWaitingTermination s = prvCheckTasksWaitingTermination s"
| "kernel_call (Suspend h) s = vTaskSuspend h s"
| "kernel_call (Resume t) s = vTaskResume t s"
| "kernel_call (ResumeFromISR t) s = map_option snd (xTaskResumeFromISR t s)"
| "kernel_call (PrioritySet h p) s = vTaskPrioritySet h p s"
| "kernel_call TakeMutex s = Some (snd (pvTaskIncrementMutexHeldCount s))"
| "kernel_call (PriorityInherit h) s = map_option snd (xTaskPriorityInherit h s)"
| "kernel_call (GiveMutex e h) s = give_mutex e h s"
| "kernel_call (DisinheritAfterTimeout h w) s = vTaskPriorityDisinheritAfterTimeout h w s"
| "kernel_call (Notify t v a) s = map_option (snd \<circ> snd) (xTaskGenericNotify t v a s)"
| "kernel_call (NotifyFromISR t v a) s = map_option (snd \<circ> snd \<circ> snd) (xTaskGenericNotifyFromISR t v a s)"
| "kernel_call (NotifyGiveFromISR t) s = map_option snd (vTaskGenericNotifyGiveFromISR t s)"
| "kernel_call (NotifyTake n) s = notify_take_block n s"
| "kernel_call (NotifyTaken b) s = map_option snd (notify_take_finish b s)"
| "kernel_call (NotifyWait bits n) s = notify_wait_block bits n s"
| "kernel_call (NotifyWaited bits) s = map_option (snd \<circ> snd) (notify_wait_finish bits s)"
| "kernel_call (NotifyStateClear h) s = map_option snd (xTaskGenericNotifyStateClear h s)"
| "kernel_call (NotifyValueClear h bits) s = map_option snd (ulTaskGenericNotifyValueClear h bits s)"

text \<open>
  What the caller guarantees. A task that blocks is the running task, not the idle task, and holds the scheduler as the code
  expects it. A handle is that of a task that exists. A task that leaves the ready tasks is not the idle task. An event has a waiting
  task when one is taken from its list. A mutex is given by its holder. The priority handed over when a wait for a mutex has timed
  out is that of a task, so it is below \<^verbatim>\<open>configMAX_PRIORITIES\<close>. The new task has a free control block.
\<close>

definition target :: "nat \<Rightarrow> nat option \<Rightarrow> kernel \<Rightarrow> bool" where
  "target idle h s \<longleftrightarrow> (case prvGetTCBFromHandle h s of None \<Rightarrow> False | Some t \<Rightarrow> live s t \<and> t \<noteq> idle \<and>
     (Some t = pxCurrentTCB s \<longrightarrow> uxSchedulerSuspended s = 0))"

fun allowed :: "nat \<Rightarrow> call \<Rightarrow> kernel \<Rightarrow> bool" where
  "allowed idle SuspendAll s \<longleftrightarrow> uxSchedulerSuspended s + 1 \<noteq> 0"
| "allowed idle ResumeAll s \<longleftrightarrow> uxSchedulerSuspended s \<noteq> 0"
| "allowed idle (Delay n) s \<longleftrightarrow> may_block idle s \<and> uxSchedulerSuspended s = 0"
| "allowed idle (DelayUntil prev inc) s \<longleftrightarrow> may_block idle s \<and> uxSchedulerSuspended s = 0 \<and> inc > 0"
| "allowed idle (PlaceOnEventList e n) s \<longleftrightarrow> may_block idle s \<and> n \<noteq> 0"
| "allowed idle (PlaceOnUnorderedEventList e v n) s \<longleftrightarrow> may_block idle s \<and> n \<noteq> 0 \<and> uxSchedulerSuspended s \<noteq> 0"
| "allowed idle (PlaceOnEventListRestricted e n w) s \<longleftrightarrow> may_block idle s \<and> (w \<or> n \<noteq> 0)"
| "allowed idle (RemoveFromEventList e) s \<longleftrightarrow> \<not> listLIST_IS_EMPTY (lists s) (EventsOf e)"
| "allowed idle (RemoveFromUnorderedEventList t v) s \<longleftrightarrow> uxSchedulerSuspended s \<noteq> 0 \<and> (case at s (EventItem t) of Some (EventsOf e) \<Rightarrow> True | _ \<Rightarrow> False)"
| "allowed idle (Create t p) s \<longleftrightarrow> at s (StateItem t) = None \<and> t < 2 ^ 30 \<and> Some t \<noteq> pxCurrentTCB s \<and> p < 32"
| "allowed idle (Delete h) s \<longleftrightarrow> target idle h s"
| "allowed idle (Suspend h) s \<longleftrightarrow> target idle h s \<and> xSchedulerRunning s"
| "allowed idle (PrioritySet h p) s \<longleftrightarrow> p < 32"
| "allowed idle (GiveMutex e h) s \<longleftrightarrow> (h = None \<or> h = pxCurrentTCB s) \<and> live s (the (pxCurrentTCB s)) \<and> uxMutexesHeld s (the (pxCurrentTCB s)) \<noteq> 0"
| "allowed idle (DisinheritAfterTimeout h w) s \<longleftrightarrow>
     (case h of None \<Rightarrow> True | Some t \<Rightarrow> uxMutexesHeld s t \<noteq> 0 \<and> Some t \<noteq> pxCurrentTCB s \<and> w < 32)"
| "allowed idle (Notify t v a) s \<longleftrightarrow> live s t"
| "allowed idle (NotifyFromISR t v a) s \<longleftrightarrow> live s t"
| "allowed idle (NotifyGiveFromISR t) s \<longleftrightarrow> live s t"
| "allowed idle (NotifyTake n) s \<longleftrightarrow> may_block idle s \<and> uxSchedulerSuspended s + 1 \<noteq> 0"
| "allowed idle (NotifyWait bits n) s \<longleftrightarrow> may_block idle s \<and> uxSchedulerSuspended s + 1 \<noteq> 0"
| "allowed idle _ s \<longleftrightarrow> True"

text \<open>
  The two calls that change a priority and may ask for no switch although one is due: a mutex given back on which a task waits, when
  the priority given up is an inherited one and the task woken has no higher priority than what is left of it; and the priority of the
  holder set to that of a waiting task after a time-out, when that has meanwhile been raised above it.
\<close>

fun overlooks :: "call \<Rightarrow> kernel \<Rightarrow> bool" where
  "overlooks (GiveMutex e h) s \<longleftrightarrow> gives_down e h s"
| "overlooks (DisinheritAfterTimeout h w) s \<longleftrightarrow>
     (case h of None \<Rightarrow> False | Some t \<Rightarrow> uxMutexesHeld s t = 1 \<and> uxPriority s t < w)"
| "overlooks _ s \<longleftrightarrow> False"

text \<open>Every call returns and, with these two exceptions, keeps the invariant.\<close>

lemma kernel_call_kinv:
  assumes k: "kinv idle s" and a: "allowed idle c s" and ov: "\<not> overlooks c s"
  shows "\<exists>s'. kernel_call c s = Some s' \<and> kinv idle s'"
proof (cases c)
  case SysTick
  then show ?thesis using SysTick_kinv [OF k] by auto
next
  case PendSV
  then show ?thesis using PendSV_ok [OF k] by auto
next
  case SuspendAll
  then show ?thesis using k by (simp add: kinv_suspend_all)
next
  case ResumeAll
  then show ?thesis using resume_kinv [OF k] a by (metis allowed.simps(2) kernel_call.simps(4) option.map(2) snd_conv)
next
  case (Delay n)
  then show ?thesis using vTaskDelay_kinv [OF k] a by simp
next
  case (DelayUntil prev inc)
  then show ?thesis using xTaskDelayUntil_kinv [OF k, of inc prev] a by auto
next
  case (PlaceOnEventList e n)
  then show ?thesis using vTaskPlaceOnEventList_kinv [OF k] a by simp
next
  case (PlaceOnUnorderedEventList e v n)
  then show ?thesis using vTaskPlaceOnUnorderedEventList_kinv [OF k] a by simp
next
  case (PlaceOnEventListRestricted e n w)
  then show ?thesis using vTaskPlaceOnEventListRestricted_kinv [OF k] a by simp
next
  case (RemoveFromEventList e)
  then show ?thesis using xTaskRemoveFromEventList_kinv [OF k] a by fastforce
next
  case (RemoveFromUnorderedEventList t v)
  then obtain e where "at s (EventItem t) = Some (EventsOf e)" "uxSchedulerSuspended s \<noteq> 0" using a by (auto split: option.splits list_id.splits)
  then show ?thesis using vTaskRemoveFromUnorderedEventList_kinv [OF k] RemoveFromUnorderedEventList by simp
next
  case (Create t p)
  then show ?thesis using xTaskCreate_kinv [OF k] a by force
next
  case (Delete h)
  then obtain t where "prvGetTCBFromHandle h s = Some t" "live s t" "t \<noteq> idle" "Some t = pxCurrentTCB s \<longrightarrow> uxSchedulerSuspended s = 0"
    using a by (auto simp: target_def split: option.splits)
  then show ?thesis using vTaskDelete_kinv [OF k] Delete by simp
next
  case (Suspend h)
  then obtain t where "prvGetTCBFromHandle h s = Some t" "live s t" "t \<noteq> idle" "Some t = pxCurrentTCB s \<longrightarrow> uxSchedulerSuspended s = 0" "xSchedulerRunning s"
    using a by (auto simp: target_def split: option.splits)
  then show ?thesis using vTaskSuspend_kinv [OF k] Suspend by simp
next
  case (PrioritySet h p)
  then show ?thesis using vTaskPrioritySet_kinv [OF k] a by simp
next
  case (PriorityInherit h)
  then show ?thesis using xTaskPriorityInherit_kinv [OF k, of h] by auto
next
  case (GiveMutex e h)
  obtain t where t: "pxCurrentTCB s = Some t" using kinv_current [OF k] by blast
  then show ?thesis using give_mutex_kinv [OF k _ t, of h e] GiveMutex a ov by auto
next
  case (DisinheritAfterTimeout h w)
  then show ?thesis using vTaskPriorityDisinheritAfterTimeout_kinv [OF k, of h w] a ov by (cases h) (auto simp: not_less)
next
  case (Notify t v a')
  then show ?thesis using xTaskGenericNotify_kinv [OF k, of t v a'] a by auto
next
  case (NotifyFromISR t v a')
  then show ?thesis using xTaskGenericNotifyFromISR_kinv [OF k, of t v a'] a by auto
next
  case (NotifyGiveFromISR t)
  then show ?thesis using notify_from_isr_kinv [OF k, of t] a by (fastforce simp: vTaskGenericNotifyGiveFromISR_def)
next
  case (NotifyTake n)
  then show ?thesis using notify_take_block_kinv [OF k] a by simp
next
  case (NotifyTaken b)
  then show ?thesis using notify_finish_kinv(1) [OF k, of b] by auto
next
  case (NotifyWait bits n)
  then show ?thesis using notify_wait_block_kinv [OF k] a by simp
next
  case (NotifyWaited bits)
  then show ?thesis using notify_finish_kinv(2) [OF k, of bits] by auto
next
  case (ResumeFromISR t)
  then show ?thesis using xTaskResumeFromISR_kinv [OF k, of t] by auto
next
  case ResetEventItemValue
  then show ?thesis using quiet_calls_kinv(2) [OF k] by auto
next
  case (NotifyStateClear h)
  then show ?thesis using quiet_calls_kinv(3) [OF k, of h] by auto
next
  case (NotifyValueClear h bits)
  then show ?thesis using quiet_calls_kinv(4) [OF k, of h bits] by auto
qed (use quiet_calls_kinv(1,5) [OF k] prvCheckTasksWaitingTermination_kinv [OF k] vTaskResume_kinv [OF k] in simp_all)

text \<open>
  In every case a call keeps the rest of the invariant: it would keep all of it if a switch had been asked for, and it does not read
  whether one was.
\<close>

lemma kernel_call_pend: "c \<noteq> PendSV \<Longrightarrow> kernel_call c (pend s) = map_option pend (kernel_call c s)"
  by (cases c) (simp_all add: pends through pend_give)

lemma allowed_pend [simp]: "allowed idle c (pend s) = allowed idle c s"
  by (cases c) (simp_all add: may_block_def live_def target_def pend_handle split: option.split)

lemma kernel_call_core:
  assumes k: "kinv idle (pend s)" and a: "allowed idle c s"
  shows "\<exists>s'. kernel_call c s = Some s' \<and> kinv idle (pend s')"
proof (cases "c = PendSV")
  case True
  have "PendSV_Handler (pend s) = PendSV_Handler s" by (simp add: PendSV_Handler_def)
  then show ?thesis using PendSV_ok [OF k] kinv_pend True by auto
next
  case False
  have "\<exists>s1. kernel_call c (pend s) = Some s1 \<and> kinv idle (pend s1)"
  proof (cases c)
    case (GiveMutex e h)
    obtain t where t: "pxCurrentTCB (pend s) = Some t" using kinv_current [OF k] by blast
    then show ?thesis using give_mutex_kinv [OF k _ t, of h e] GiveMutex a by (auto simp: live_def)
  next
    case (DisinheritAfterTimeout h w)
    have "\<exists>s1. vTaskPriorityDisinheritAfterTimeout h w (pend s) = Some s1 \<and> kinv idle s1"
      by (rule vTaskPriorityDisinheritAfterTimeout_kinv [OF k]) (use a DisinheritAfterTimeout in simp)
    then show ?thesis using DisinheritAfterTimeout kinv_pend by auto
  qed (use kernel_call_kinv [OF k, of c] a kinv_pend in auto)
  then show ?thesis using kernel_call_pend [OF False, of s] by auto
qed

section \<open>Start-up\<close>

text \<open>
  Before the first task is created no item is in a list, and the lists that are not the scheduler's own, those of the events, are
  empty; the first creation initialises the others.
\<close>

definition scheduler_lists :: "list_id set" where
  "scheduler_lists = Ready ` {p. p < 32} \<union> {Delayed1, Delayed2, PendingReady, WaitingTermination, SuspendedTasks}"

definition boot_ok :: "kernel \<Rightarrow> bool" where
  "boot_ok s \<longleftrightarrow> pxCurrentTCB s = None \<and> (\<forall>i. at s i = None) \<and> (\<forall>l. l \<notin> scheduler_lists \<longrightarrow> dll (lists s) l []) \<and>
     uxCurrentNumberOfTasks s = 0 \<and> \<not> xSchedulerRunning s \<and> uxDeletedTasksWaitingCleanUp s = 0 \<and> uxTopReadyPriority s = 0 \<and> xTickCount s = 0 \<and>
     (\<forall>t. uxPriority s t < 32 \<and> uxBasePriority s t < 32 \<and> uxBasePriority s t \<le> uxPriority s t)"

fun create_all :: "(nat \<times> u32) list \<Rightarrow> kernel \<Rightarrow> kernel option" where
  "create_all [] s = Some s"
| "create_all ((t, p) # ts) s = do { s \<leftarrow> xTaskCreate t p s; create_all ts s }"

lemma dll_initialise_other:
  assumes "dll s l []" "l \<noteq> k"
  shows "dll (vListInitialise s k) l []"
  using assms by (auto simp: dll_def vListInitialise_def)

lemma foldl_initialise:
  assumes "\<And>i. pxContainer s i = None" "\<And>l. l \<notin> set ks \<Longrightarrow> dll s l []"
  shows "\<forall>l. dll (foldl vListInitialise s ks) l []" "pxContainer (foldl vListInitialise s ks) = pxContainer s" "pvOwner (foldl vListInitialise s ks) = pvOwner s"
proof -
  have "(\<forall>l. (l \<in> set ks \<or> dll s l []) \<longrightarrow> dll (foldl vListInitialise s ks) l []) \<and> pxContainer (foldl vListInitialise s ks) = pxContainer s \<and>
      pvOwner (foldl vListInitialise s ks) = pvOwner s"
    using assms(1)
  proof (induction ks arbitrary: s)
    case (Cons k ks)
    have i: "pxContainer (vListInitialise s k) = pxContainer s" "pvOwner (vListInitialise s k) = pvOwner s" by (simp_all add: vListInitialise_def)
    have "dll (vListInitialise s k) l []" if "l = k \<or> dll s l []" for l
      using that dll_vListInitialise [of s k] dll_initialise_other [of s l k] Cons.prems by (cases "l = k") auto
    then show ?case using Cons.IH [of "vListInitialise s k"] i Cons.prems by simp
  qed simp
  then show "\<forall>l. dll (foldl vListInitialise s ks) l []" "pxContainer (foldl vListInitialise s ks) = pxContainer s" "pvOwner (foldl vListInitialise s ks) = pvOwner s"
    using assms(2) by blast+
qed

lemma ready_lists: "set (map Ready ready_priorities @ [Delayed1, Delayed2, PendingReady, WaitingTermination, SuspendedTasks]) = scheduler_lists"
proof -
  have "(of_nat ` {0..<32} :: u32 set) = {p. p < 32}"
  proof (intro equalityI subsetI)
    fix p :: u32 assume "p \<in> {p. p < 32}"
    then have "unat p < 32" by (simp add: word_less_nat_alt)
    then show "p \<in> of_nat ` {0..<32}" by (intro image_eqI [of _ _ "unat p"]) auto
  next
    fix p :: u32 assume "p \<in> of_nat ` {0..<32}"
    then obtain n where "n < 32" "p = of_nat n" by auto
    then show "p \<in> {p. p < 32}" by (simp add: word_less_nat_alt unat_of_nat take_bit_nat_eq_self)
  qed
  then have "set ready_priorities = {p. p < 32}" by (simp add: ready_priorities_def)
  then show ?thesis by (simp only: scheduler_lists_def set_append set_map list.set)
qed

text \<open>The first task: its creation makes the lists, and a kernel that keeps the invariant.\<close>

lemma first_task:
  assumes b: "boot_ok s" and t: "t < 2 ^ 30" and p: "p < 32"
  obtains s' where "xTaskCreate t p s = Some s'" "kinv t s'" "at s' = (at s)(StateItem t := Some (Ready p))" "pxCurrentTCB s' = Some t"
    "\<not> xSchedulerRunning s'"
proof -
  define ls1 where "ls1 = listSET_LIST_ITEM_VALUE ((lists s)\<lparr>pvOwner := (pvOwner (lists s))(StateItem t := Some t, EventItem t := Some t)\<rparr>)
      (EventItem t) (configMAX_PRIORITIES - p)"
  define ks where "ks = map Ready ready_priorities @ [Delayed1, Delayed2, PendingReady, WaitingTermination, SuspendedTasks]"
  define ls2 where "ls2 = foldl vListInitialise ls1 ks"
  define s1 where "s1 = s\<lparr>uxPriority := (uxPriority s)(t := p), uxBasePriority := (uxBasePriority s)(t := p), uxMutexesHeld := (uxMutexesHeld s)(t := 0),
      ulNotifiedValue := (ulNotifiedValue s)(t := 0), ucNotifyState := (ucNotifyState s)(t := taskNOT_WAITING_NOTIFICATION), lists := ls1\<rparr>"
  define s2 where "s2 = s1\<lparr>uxCurrentNumberOfTasks := 1, pxCurrentTCB := Some t, lists := ls2, pxDelayedTaskList := Delayed1, pxOverflowDelayedTaskList := Delayed2\<rparr>"
  have none: "pxContainer ls1 i = None" for i using b by (simp add: boot_ok_def ls1_def)
  have "dll ls1 l []" if "l \<notin> scheduler_lists" for l
    using b that by (simp add: boot_ok_def ls1_def set_value_dll owner_dll)
  then have d: "dll ls1 l []" if "l \<notin> set ks" for l
    using that unfolding ready_lists ks_def .
  note fi = foldl_initialise [of ls1 ks, OF none d]
  have l2: "dll ls2 l []" "pxContainer ls2 = pxContainer ls1" "pvOwner ls2 = pvOwner ls1" for l
    unfolding ls2_def using fi(1) fi(2,3) by simp_all
  have none2: "at s2 i = None" for i using l2(2) none by (simp add: s2_def)
  have "\<exists>xs. dll ls2 l xs \<and> (timed l \<longrightarrow> sorted (map (item_key ls2) xs))" for l by (rule exI [of _ "[]"]) (simp add: l2(1))
  then have "lists_wf ls2" by (simp add: lists_wf_def)
  then have k2: "klists_ok ls2" using l2(2) none by (simp add: klists_ok_def)
  have "uxNumberOfItems ls2 WaitingTermination = 0" using l2(1) [of WaitingTermination] by (simp add: dll_def)
  then have base: "kernel_base s2" using b p k2 by (simp add: kernel_base_def s2_def s1_def boot_ok_def)
  have ok: "task_ok s2 u" for u using none2 by (simp add: task_ok_def)
  have ow: "owned (lists s2) t" using t l2(3) by (simp add: owned_def s2_def ls1_def)
  obtain ls where a: "prvAddTaskToReadyList t s2 = s2\<lparr>lists := ls, uxTopReadyPriority := top_with s2 t\<rparr>"
    "kernel_ok (s2\<lparr>lists := ls, uxTopReadyPriority := top_with s2 t\<rparr>)" "pxContainer ls = (at s2)(StateItem t := Some (Ready (uxPriority s2 t)))"
    using make_ready [OF base ow none2 none2 ok] by blast
  define s3 where "s3 = s2\<lparr>lists := ls, uxTopReadyPriority := top_with s2 t\<rparr>"
  have at3: "at s3 = (at s)(StateItem t := Some (Ready p))" using a(3) l2(2) by (simp add: s3_def s2_def s1_def ls1_def)
  have c3: "pxCurrentTCB s3 = Some t" "uxPriority s3 t = p" "\<not> xSchedulerRunning s3" using b by (simp_all add: s3_def s2_def s1_def boot_ok_def)
  have "at s3 (StateItem u) = Some (Ready q) \<Longrightarrow> q = p" for u q using at3 b by (auto simp: boot_ok_def split: if_splits)
  then have "well_scheduled s3" using c3 by (auto simp: well_scheduled_def)
  then have kv: "kinv t s3" using a(2) at3 by (simp add: kinv_def s3_def [symmetric] task_ready_def)
  have "xTaskCreate t p s = Some s3"
  proof -
    have "vListInitialiseItem (vListInitialiseItem (lists s) (StateItem t)) (EventItem t) = lists s"
      using b by (simp add: vListInitialiseItem_def fun_upd_idem boot_ok_def)
    then have "prvInitialiseNewTask t p s = Some s1"
      using p by (simp add: prvInitialiseNewTask_def configASSERT_def configMAX_PRIORITIES_def Let_def s1_def ls1_def)
    moreover have "prvAddNewTaskToReadyList t s1 = Some s3"
    proof -
      have "pxCurrentTCB s1 = None" "uxCurrentNumberOfTasks s1 = 0" "lists s1 = ls1" using b by (simp_all add: s1_def boot_ok_def)
      moreover have "prvInitialiseTaskLists (s1\<lparr>uxCurrentNumberOfTasks := 1, pxCurrentTCB := Some t\<rparr>) = s2"
        by (simp add: prvInitialiseTaskLists_def s2_def ls2_def ks_def s1_def)
      moreover have "prvAddTaskToReadyList t s2 = s3" using a(1) by (simp add: s3_def)
      ultimately show ?thesis using c3(3) by (simp add: prvAddNewTaskToReadyList_def Let_def)
    qed
    ultimately show ?thesis by (simp add: xTaskCreate_def)
  qed
  then show thesis by (rule that [OF _ kv at3 c3(1,3)])
qed

text \<open>The other tasks, and the start of the scheduler.\<close>

definition only_ready :: "kernel \<Rightarrow> bool" where
  "only_ready s \<longleftrightarrow> (\<forall>i l. at s i = Some l \<longrightarrow> (\<exists>t p. i = StateItem t \<and> l = Ready p))"

lemma create_all_kinv:
  assumes "kinv i s" "only_ready s" "distinct (map fst ts)" "\<forall>(t, p) \<in> set ts. t < 2 ^ 30 \<and> p < 32"
    "\<forall>t \<in> fst ` set ts. at s (StateItem t) = None \<and> Some t \<noteq> pxCurrentTCB s"
  shows "\<exists>s'. create_all ts s = Some s' \<and> kinv i s' \<and> only_ready s' \<and> (\<forall>t. task_ready t s \<or> t \<in> fst ` set ts \<longrightarrow> task_ready t s')"
  using assms
proof (induction ts arbitrary: s)
  case (Cons x ts)
  obtain t p where x: "x = (t, p)" by (cases x)
  obtain s1 where s1: "xTaskCreate t p s = Some s1" "kinv i s1" "at s1 = (at s)(StateItem t := Some (Ready p))"
    "pxCurrentTCB s1 = Some t \<or> pxCurrentTCB s1 = pxCurrentTCB s"
    using xTaskCreate_kinv [OF Cons.prems(1), of t p] Cons.prems(4,5) by (auto simp: x)
  have "only_ready s1" using Cons.prems(2) s1(3) by (auto simp: only_ready_def)
  moreover have "at s1 (StateItem u) = None \<and> Some u \<noteq> pxCurrentTCB s1" if "u \<in> fst ` set ts" for u
  proof -
    have ut: "u \<noteq> t" using Cons.prems(3) that by (auto simp: x)
    have "at s (StateItem u) = None \<and> Some u \<noteq> pxCurrentTCB s" by (rule bspec [OF Cons.prems(5)]) (use that in simp)
    then show ?thesis using ut s1(3,4) by auto
  qed
  ultimately obtain s' where s': "create_all ts s1 = Some s'" "kinv i s'" "only_ready s'" "\<forall>u. task_ready u s1 \<or> u \<in> fst ` set ts \<longrightarrow> task_ready u s'"
    using Cons.IH [of s1] s1(2) Cons.prems(3,4) by auto
  have "task_ready t s1" "task_ready u s \<Longrightarrow> task_ready u s1" for u using s1(3) by (auto simp: task_ready_def)
  then show ?case using s1(1) s' by (auto simp: x)
qed simp

lemma start_kinv:
  assumes "kinv i s" "only_ready s"
  shows "kinv i (vTaskStartScheduler s)"
proof -
  have k: "kernel_ok s" using assms(1) by (simp add: kinv_def)
  have "at s (StateItem t) \<noteq> Some l" if "timed l" for t l using assms(2) that by (auto simp: only_ready_def)
  then have "kernel_ok (vTaskStartScheduler s)"
    using k baseD(5,6) [OF kernel_ok_baseD(1) [OF k]] by (auto simp: vTaskStartScheduler_def kernel_ok_def kernel_core_def delays_ok_def)
  then show ?thesis using assms(1) by (simp add: kinv_def well_scheduled_def task_ready_def vTaskStartScheduler_def)
qed

definition tasks_ok :: "(nat \<times> u32) list \<Rightarrow> bool" where
  "tasks_ok ts \<longleftrightarrow> distinct (map fst ts) \<and> (\<forall>(t, p) \<in> set ts. t < 2 ^ 30 \<and> p < 32)"

lemma boot_kinv:
  assumes b: "boot_ok s0" and ts: "tasks_ok ts" and i: "idle \<in> fst ` set ts"
  shows "\<exists>s. create_all ts s0 = Some s \<and> kinv idle (vTaskStartScheduler s)"
proof -
  obtain t p us where e: "ts = (t, p) # us" using i by (cases ts) auto
  have tp: "t < 2 ^ 30" "p < 32" using ts by (auto simp: tasks_ok_def e)
  obtain s1 where s1: "xTaskCreate t p s0 = Some s1" "kinv t s1" "at s1 = (at s0)(StateItem t := Some (Ready p))" "pxCurrentTCB s1 = Some t"
    using first_task [OF b tp] by metis
  have "only_ready s1" using b s1(3) by (auto simp: only_ready_def boot_ok_def)
  moreover have "at s1 (StateItem u) = None \<and> Some u \<noteq> pxCurrentTCB s1" if "u \<in> fst ` set us" for u
  proof -
    have "u \<noteq> t" using ts that by (auto simp: tasks_ok_def e)
    then show ?thesis using b s1(3,4) by (simp add: boot_ok_def)
  qed
  ultimately obtain s where s: "create_all us s1 = Some s" "kinv t s" "only_ready s" "\<forall>u. task_ready u s1 \<or> u \<in> fst ` set us \<longrightarrow> task_ready u s"
    using create_all_kinv [of t s1 us] s1(2) ts by (auto simp: tasks_ok_def e)
  have "task_ready t s1" using s1(3) by (auto simp: task_ready_def)
  then have "task_ready idle s" using s(4) i by (auto simp: e)
  then have "kinv idle s" using s(2) by (simp add: kinv_def)
  then have "kinv idle (vTaskStartScheduler s)" using start_kinv s(3) by blast
  then show ?thesis using s1(1) s(1) by (simp add: e)
qed

section \<open>Every reachable state\<close>

text \<open>The states of the running kernel: the start, and any call that its caller may make, in any order.\<close>

inductive reachable :: "nat \<Rightarrow> kernel \<Rightarrow> bool" for idle where
  start: "boot_ok s0 \<Longrightarrow> tasks_ok ts \<Longrightarrow> idle \<in> fst ` set ts \<Longrightarrow> create_all ts s0 = Some s \<Longrightarrow> reachable idle (vTaskStartScheduler s)"
| call: "reachable idle s \<Longrightarrow> allowed idle c s \<Longrightarrow> kernel_call c s = Some s' \<Longrightarrow> reachable idle s'"

lemma reachable_core: "reachable idle s \<Longrightarrow> kinv idle (pend s)"
proof (induction rule: reachable.induct)
  case (start s0 ts s)
  then show ?case using boot_kinv [OF start(1-3)] kinv_pend by auto
next
  case (call s c s')
  then show ?case using kernel_call_core [OF call(4,2)] by auto
qed

lemma reachable_ok: "reachable idle s \<Longrightarrow> kernel_ok s"
  using reachable_core kinv_pend_iff by blast





section \<open>A concrete start\<close>

text \<open>A kernel before its first task, and its start with the idle task 0 and a task 2 of priority 5.\<close>

definition boot :: kernel where
  "boot = \<lparr>lists = \<lparr>xItemValue = \<lambda>_. portMAX_DELAY, pxNext = \<lambda>n. n, pxPrevious = \<lambda>n. n, pvOwner = \<lambda>_. None, pxContainer = \<lambda>_. None,
      pxIndex = EndOf, uxNumberOfItems = \<lambda>_. 0\<rparr>,
    uxPriority = \<lambda>_. 0, uxBasePriority = \<lambda>_. 0, uxMutexesHeld = \<lambda>_. 0, ucNotifyState = \<lambda>_. 0, ulNotifiedValue = \<lambda>_. 0, pxCurrentTCB = None,
    pxDelayedTaskList = Delayed1, pxOverflowDelayedTaskList = Delayed2, uxDeletedTasksWaitingCleanUp = 0, uxCurrentNumberOfTasks = 0, xTickCount = 0,
    uxTopReadyPriority = 0, xSchedulerRunning = False, xPendedTicks = 0, xYieldPending = False, xNumOfOverflows = 0, xNextTaskUnblockTime = 0,
    uxSchedulerSuspended = 0, pendsv = False\<rparr>"

lemma boot_is_ok: "boot_ok boot"
  by (simp add: boot_ok_def boot_def dll_def)

definition two_tasks :: kernel where
  "two_tasks = vTaskStartScheduler (the (create_all [(0, 0), (2, 5)] boot))"

lemma two_tasks_reachable: "reachable 0 two_tasks"
proof -
  have ts: "tasks_ok [(0, 0), (2, 5)]" "0 \<in> fst ` set [(0 :: nat, 0 :: u32), (2, 5)]" by (simp_all add: tasks_ok_def)
  obtain s where "create_all [(0, 0), (2, 5)] boot = Some s" using boot_kinv [OF boot_is_ok ts] by blast
  then show ?thesis using reachable.start [OF boot_is_ok ts] by (simp add: two_tasks_def)
qed

lemma two_tasks_simps:
  "pxCurrentTCB two_tasks = Some 2" "uxSchedulerSuspended two_tasks = 0" "xPendedTicks two_tasks = 0" "xTickCount two_tasks = 0" "xNumOfOverflows two_tasks = 0"
  "ucNotifyState two_tasks 2 = taskNOT_WAITING_NOTIFICATION"
  by (simp_all add: two_tasks_def vTaskStartScheduler_def xTaskCreate_def prvInitialiseNewTask_def prvAddNewTaskToReadyList_def prvAddTaskToReadyList_def
    configASSERT_def configMAX_PRIORITIES_def Let_def prvInitialiseTaskLists_def boot_def)

lemma two_tasks_at: "at two_tasks = (\<lambda>_. None)(StateItem 0 := Some (Ready 0), StateItem 2 := Some (Ready 5))"
proof -
  obtain s1 where s1: "xTaskCreate 0 0 boot = Some s1" "kinv 0 s1" "at s1 = (at boot)(StateItem 0 := Some (Ready 0))" "pxCurrentTCB s1 = Some 0"
    using first_task [OF boot_is_ok, of 0 0] by auto
  have "at boot i = None" for i by (simp add: boot_def)
  then have a: "at s1 = (\<lambda>_. None)(StateItem 0 := Some (Ready 0))" using s1(3) by auto
  obtain s2 where s2: "xTaskCreate 2 5 s1 = Some s2" "at s2 = (at s1)(StateItem 2 := Some (Ready 5))"
    using xTaskCreate_kinv [OF s1(2), of 2 5] a s1(4) by auto
  show ?thesis using s1(1) s2 a by (simp add: two_tasks_def vTaskStartScheduler_def)
qed

lemma two_tasks_block: "may_block 0 two_tasks"
  by (simp add: may_block_def live_def two_tasks_at two_tasks_simps taskNOT_WAITING_NOTIFICATION_def taskWAITING_NOTIFICATION_def)

section \<open>Properties\<close>

text \<open>
  C2: in every state that calls and interrupts in any order can reach, every call that its caller may make returns: no assertion of the
  kernel fails, no null pointer is followed, and no loop over a list runs forever.
\<close>

theorem kernel_calls_return:
  assumes "reachable idle s" "allowed idle c s"
  shows "\<exists>s'. kernel_call c s = Some s'"
  using kernel_call_core [OF reachable_core [OF assms(1)] assms(2)] by blast

lemma kernel_calls_return_witness:
  "\<exists>s'. reachable 0 two_tasks \<and> allowed 0 (Delay 3) two_tasks \<and> kernel_call (Delay 3) two_tasks = Some s'"
proof -
  have "allowed 0 (Delay 3) two_tasks" by (simp add: two_tasks_block two_tasks_simps)
  then show ?thesis using kernel_calls_return [OF two_tasks_reachable] two_tasks_reachable by blast
qed



text \<open>
  C8: a tick returns, whatever tasks sleep: the loop over the delayed tasks ends, also when the clock wraps around and the two delayed lists change
  places. The clock is one further, and the ready tasks are those of before and exactly the sleepers whose time has come.
\<close>

theorem xTaskIncrementTick_returns:
  assumes "reachable idle s" "uxSchedulerSuspended s = 0"
  shows "\<exists>sw s'. xTaskIncrementTick s = Some (sw, s') \<and> xTickCount s' = xTickCount s + 1 \<and>
    (\<forall>t. task_ready t s' \<longleftrightarrow> task_ready t s \<or> due (xTickCount s') (turned s) t)"
proof -
  obtain sw s' where t: "xTaskIncrementTick s = Some (sw, s')" "ticked s sw s'"
    using xTaskIncrementTick_ticks [OF reachable_ok [OF assms(1)] assms(2)] .
  have "at (turned s) = at s" by (simp add: turned_def Let_def)
  then have "task_ready u s' \<longleftrightarrow> task_ready u s \<or> due (xTickCount s') (turned s) u" for u
    using t(2) by (auto simp: ticked_def task_ready_def)
  then show ?thesis using t by (auto simp: ticked_def)
qed

lemma xTaskIncrementTick_returns_witness:
  "\<exists>sw s'. xTaskIncrementTick two_tasks = Some (sw, s') \<and> xTickCount s' = 1 \<and> task_ready 2 s'"
  using xTaskIncrementTick_returns [OF two_tasks_reachable] by (fastforce simp: two_tasks_simps task_ready_def two_tasks_at)

end
