(* ===== verification/Rtos_Timing.thy ===== *)
theory Rtos_Timing
  imports Rtos_Machine
begin

text \<open>
  Time as the scheduler keeps it: a delay ends at its tick, wherever the 32-bit clock wraps around; time-outs and
  periodic wake times agree with a clock that never wraps.
\<close>

section \<open>Sleeping\<close>

text \<open>The task sleeps in one of the two delayed lists, for \<open>r\<close> ticks more.\<close>

definition sleeping :: "kernel \<Rightarrow> nat \<Rightarrow> u32 \<Rightarrow> bool" where
  "sleeping s t r \<longleftrightarrow>
     (at s (StateItem t) = Some (pxDelayedTaskList s) \<or> at s (StateItem t) = Some (pxOverflowDelayedTaskList s)) \<and>
     item_key (lists s) (StateItem t) = xTickCount s + r"

lemma add_wraps:
  fixes n r k :: u32
  assumes "k = n + r" "n + 1 \<noteq> 0" "k < n"
  shows "r \<noteq> 1"
proof
  assume "r = 1"
  then have "n < k" using assms(1,2) by (metis add_diff_cancel_right' less_next linorder_neqE not_less_iff_gr_or_eq assms(3))
  then show False using assms(3) by simp
qed

lemma tick_sleeping:
  assumes k: "kernel_ok s" and t: "ticked s sw s'" and sl: "sleeping s u r" and r: "r \<noteq> 0"
  shows "r = 1 \<Longrightarrow> at s' (StateItem u) = Some (Ready (uxPriority s u))" "r \<noteq> 1 \<Longrightarrow> sleeping s' u (r - 1)"
proof -
  let ?D = "pxDelayedTaskList s" and ?O = "pxOverflowDelayedTaskList s" and ?key = "item_key (lists s) (StateItem u)"
  have a: "at s' = woken_at (xTickCount s') (turned s)" "xTickCount s' = xTickCount s + 1" "same_tasks s' s"
    "pxDelayedTaskList s' = pxDelayedTaskList (turned s)" "pxOverflowDelayedTaskList s' = pxOverflowDelayedTaskList (turned s)"
    using t by (auto simp: ticked_def)
  have tu: "at (turned s) = at s" "uxPriority (turned s) = uxPriority s" "lists (turned s) = lists s" by (simp_all add: turned_def Let_def)
  have key: "?key = xTickCount s + r" "item_key (lists s') (StateItem u) = ?key" using sl a(3) by (simp_all add: sleeping_def same_tasks_def same_items_def)
  have ne: "?D \<noteq> ?O" "Ready p \<noteq> ?D" "Ready p \<noteq> ?O" for p using kernel_coreD(8-10) [of s] k by (auto simp: kernel_ok_def)
  have D: "xTickCount s < ?key" if "at s (StateItem u) = Some ?D" using k that by (simp add: kernel_ok_def delays_ok_def)
  have O: "?key < xTickCount s" if "at s (StateItem u) = Some ?O" using k that by (simp add: kernel_ok_def delays_ok_def)
  have pl: "at s (StateItem u) = Some ?D \<or> at s (StateItem u) = Some ?O" using sl by (simp add: sleeping_def)
  have goal: "(r = 1 \<longrightarrow> due (xTickCount s + 1) (turned s) u) \<and> (r \<noteq> 1 \<longrightarrow> \<not> due (xTickCount s + 1) (turned s) u)"
  proof (cases "xTickCount s + 1 = 0")
    case True
    have "at s (StateItem u) \<noteq> Some ?D"
      using tick_wrap_empty [OF k True] is_empty [of "lists s"] k by (auto simp: kernel_ok_def kernel_core_def)
    then have "at s (StateItem u) = Some ?O" using pl by simp
    then have "due 0 (turned s) u \<longleftrightarrow> ?key = 0" using True by (simp add: due_def turned_def)
    moreover have "?key = 0 \<longleftrightarrow> r = 1" using key(1) True by (metis add_left_cancel)
    ultimately show ?thesis using True by simp
  next
    case False
    then have d: "due (xTickCount s + 1) (turned s) u \<longleftrightarrow> at s (StateItem u) = Some ?D \<and> ?key \<le> xTickCount s + 1"
      by (simp add: due_def turned_def)
    show ?thesis
    proof (cases "at s (StateItem u) = Some ?D")
      case True
      have "?key \<le> xTickCount s + 1 \<longleftrightarrow> ?key = xTickCount s + 1"
        using D [OF True] inc_le [of "xTickCount s" ?key] by auto
      then show ?thesis using d True key(1) by (metis add_left_cancel)
    next
      case no: False
      then have "?key < xTickCount s" using O pl by simp
      then have "r \<noteq> 1" using add_wraps key(1) False by blast
      then show ?thesis using d no by simp
    qed
  qed
  show "at s' (StateItem u) = Some (Ready (uxPriority s u))" if "r = 1" using goal that a(1,2) tu by simp
  show "sleeping s' u (r - 1)" if "r \<noteq> 1"
  proof -
    have "at s' (StateItem u) = at s (StateItem u)" using goal that a(1,2) tu by simp
    moreover have "pxDelayedTaskList s' = ?D \<and> pxOverflowDelayedTaskList s' = ?O \<or> pxDelayedTaskList s' = ?O \<and> pxOverflowDelayedTaskList s' = ?D"
      using a(4,5) by (simp add: turned_def Let_def)
    ultimately show ?thesis using pl key a(2) by (auto simp: sleeping_def)
  qed
qed

text \<open>A number of ticks, one interrupt each.\<close>

fun sys_ticks :: "nat \<Rightarrow> kernel \<Rightarrow> kernel option" where
  "sys_ticks 0 s = Some s"
| "sys_ticks (Suc n) s = do { s \<leftarrow> SysTick_Handler s; sys_ticks n s }"

lemma SysTick_core:
  assumes k: "kinv idle (pend s)"
  obtains s' where "SysTick_Handler s = Some s'" "kinv idle (pend s')"
  using kernel_call_core [OF k, of SysTick] by auto

lemma SysTick_sleeping:
  assumes k: "kinv idle (pend s)" and u: "uxSchedulerSuspended s = 0" and sl: "sleeping s t r" and r: "r \<noteq> 0"
  obtains s' where "SysTick_Handler s = Some s'" "kinv idle (pend s')" "uxSchedulerSuspended s' = 0"
    "r = 1 \<Longrightarrow> task_ready t s'" "r \<noteq> 1 \<Longrightarrow> sleeping s' t (r - 1)"
proof -
  have ok: "kernel_ok s" using k by (simp add: kinv_pend_iff)
  obtain s' where s': "SysTick_Handler s = Some s'" "kinv idle (pend s')" using SysTick_core [OF k] .
  obtain sw s1 where t: "xTaskIncrementTick s = Some (sw, s1)" "ticked s sw s1" using xTaskIncrementTick_ticks [OF ok u] .
  have e: "s' = (if sw then s1\<lparr>pendsv := True\<rparr> else s1)" using s'(1) t(1) by (simp add: SysTick_Handler_def)
  note w = tick_sleeping [OF ok t(2) sl r]
  have "r = 1 \<Longrightarrow> task_ready t s'" using w(1) e by (auto simp: task_ready_def)
  moreover have "r \<noteq> 1 \<Longrightarrow> sleeping s' t (r - 1)" using w(2) e by (auto simp: sleeping_def)
  moreover have "uxSchedulerSuspended s' = 0" using t(2) u e by (auto simp: ticked_def same_tasks_def)
  ultimately show thesis using that s' by blast
qed

lemma sleep_ends:
  assumes "kinv idle (pend s)" "uxSchedulerSuspended s = 0" "sleeping s t r" "r \<noteq> 0"
  shows "n < unat r \<Longrightarrow> \<exists>s'. sys_ticks n s = Some s' \<and> sleeping s' t (r - of_nat n)" "\<exists>s'. sys_ticks (unat r) s = Some s' \<and> task_ready t s'"
proof -
  have "(n < unat r \<longrightarrow> (\<exists>s'. sys_ticks n s = Some s' \<and> sleeping s' t (r - of_nat n))) \<and>
      (n = unat r \<longrightarrow> (\<exists>s'. sys_ticks n s = Some s' \<and> task_ready t s'))" for n
    using assms
  proof (induction n arbitrary: s r)
    case 0
    then show ?case using unat_eq_zero [of r] by auto
  next
    case (Suc n)
    obtain s1 where s1: "SysTick_Handler s = Some s1" "kinv idle (pend s1)" "uxSchedulerSuspended s1 = 0"
      "r = 1 \<Longrightarrow> task_ready t s1" "r \<noteq> 1 \<Longrightarrow> sleeping s1 t (r - 1)" using SysTick_sleeping [OF Suc.prems] by metis
    show ?case
    proof (cases "r = 1")
      case True
      then show ?thesis using s1(1,4) by auto
    next
      case False
      then have r1: "r - 1 \<noteq> 0" "unat r = Suc (unat (r - 1))" using Suc.prems(4) by (simp_all add: unat_minus_one unat_gt_0)
      have IH: "(n < unat (r - 1) \<longrightarrow> (\<exists>s'. sys_ticks n s1 = Some s' \<and> sleeping s' t (r - 1 - of_nat n))) \<and>
        (n = unat (r - 1) \<longrightarrow> (\<exists>s'. sys_ticks n s1 = Some s' \<and> task_ready t s'))"
        by (rule Suc.IH [OF s1(2,3) s1(5) [OF False] r1(1)])
      have e: "r - of_nat (Suc n) = r - 1 - of_nat n" by simp
      show ?thesis unfolding e r1(2) using IH s1(1) by simp
    qed
  qed
  then show "n < unat r \<Longrightarrow> \<exists>s'. sys_ticks n s = Some s' \<and> sleeping s' t (r - of_nat n)" "\<exists>s'. sys_ticks (unat r) s = Some s' \<and> task_ready t s'" by blast+
qed

text \<open>A delay puts the running task to sleep; nothing is pended that would wake it or turn the clock on the way.\<close>

lemma resume_quiet:
  assumes k: "kernel_ok s" and u: "uxSchedulerSuspended s = 1" and p: "xPendedTicks s = 0" "\<And>t. \<not> pended s t"
  obtains b s' where "xTaskResumeAll s = Some (b, s')" "at s' = at s" "same_items (lists s') (lists s)" "uxSchedulerSuspended s' = 0" "b \<Longrightarrow> pendsv s'"
    "xTickCount s' = xTickCount s" "pxDelayedTaskList s' = pxDelayedTaskList s" "pxOverflowDelayedTaskList s' = pxOverflowDelayedTaskList s"
proof -
  define s1 where "s1 = s\<lparr>uxSchedulerSuspended := 0\<rparr>"
  have k1: "kernel_ok s1" using k by (simp add: s1_def)
  obtain s2 where r: "pending_loop False s1 = Some (False, s2)" "resumed s1 s2"
    using pending_loop_returns [OF k1, of False] p(2) by (auto simp: s1_def)
  obtain ls tp where f: "s2 = s1\<lparr>lists := ls, uxTopReadyPriority := tp, xYieldPending := xYieldPending s2\<rparr>" "pxContainer ls = resumed_at s1" "same_items ls (lists s1)"
    using r(2) unfolding resumed_def by blast
  have "resumed_at s1 i = at s i" for i using p(2) by (cases i) (simp_all add: s1_def)
  then have ls: "pxContainer ls = at s" "same_items ls (lists s)" using f(2,3) by (auto simp: s1_def)
  have g: "xPendedTicks s2 = 0" "lists s2 = ls" "uxSchedulerSuspended s2 = 0" "xTickCount s2 = xTickCount s"
    "pxDelayedTaskList s2 = pxDelayedTaskList s" "pxOverflowDelayedTaskList s2 = pxOverflowDelayedTaskList s"
    using p(1) by (subst f(1), simp add: s1_def)+
  show thesis
  proof (cases "uxCurrentNumberOfTasks s > 0")
    case False
    then have "xTaskResumeAll s = Some (False, s1)"
      using u by (simp add: xTaskResumeAll_def configASSERT_def Let_def s1_def)
    then show thesis using that [of False s1] by (simp add: s1_def same_items_def)
  next
    case True
    then have "xTaskResumeAll s = Some (if xYieldPending s2 then (True, vPortYield s2) else (False, s2))"
      using u r(1) g(1) by (simp add: xTaskResumeAll_def configASSERT_def Let_def s1_def)
    then show thesis using that ls g by (cases "xYieldPending s2") (simp_all add: vPortYield_def)
  qed
qed

lemma sleep_for:
  assumes k: "kinv idle (pend s)" and m: "may_block idle s" and u: "uxSchedulerSuspended s = 0" and p: "xPendedTicks s = 0" "\<And>t. \<not> pended s t"
    and c: "pxCurrentTCB s = Some c" and n: "n > 0"
  obtains s1 r where "prvAddCurrentTaskToDelayedList n False (vTaskSuspendAll s) = Some s1" "xTaskResumeAll s1 = Some r"
    "uxSchedulerSuspended (yield_unless r) = 0" "sleeping (yield_unless r) c n" "pendsv (yield_unless r)"
proof -
  define s0 where "s0 = vTaskSuspendAll s"
  have c0: "kernel_ok s0" "pxCurrentTCB s0 = Some c" "live s0 c" "uxSchedulerSuspended s0 = 1" "xPendedTicks s0 = 0" "at s0 = at s" "xTickCount s0 = xTickCount s"
    using k m u c p by (auto simp: s0_def vTaskSuspendAll_def live_def may_block_def kinv_pend_iff)
  have n0: "n \<noteq> 0" using n by simp
  obtain ls nx d where a: "prvAddCurrentTaskToDelayedList n False s0 = Some (s0\<lparr>lists := ls, xNextTaskUnblockTime := nx\<rparr>)"
    "kernel_ok (s0\<lparr>lists := ls, xNextTaskUnblockTime := nx\<rparr>)" "pxContainer ls = (at s0)(StateItem c := Some d)"
    "item_key ls (StateItem c) = xTickCount s0 + n \<and> d = (if xTickCount s0 + n < xTickCount s0 then pxOverflowDelayedTaskList s0 else pxDelayedTaskList s0)"
    by (rule delay_current [OF c0(1-3) n0, where b = False], rule that) simp_all
  define s1 where "s1 = s0\<lparr>lists := ls, xNextTaskUnblockTime := nx\<rparr>"
  have s1: "kernel_ok s1" "uxSchedulerSuspended s1 = 1" "xPendedTicks s1 = 0" "\<And>t. \<not> pended s1 t" "sleeping s1 c n"
    using a(2-4) c0 p(2) by (simp_all add: s1_def sleeping_def)
  obtain b s2 where r: "xTaskResumeAll s1 = Some (b, s2)" "at s2 = at s1" "same_items (lists s2) (lists s1)" "uxSchedulerSuspended s2 = 0" "b \<Longrightarrow> pendsv s2"
    "xTickCount s2 = xTickCount s1" "pxDelayedTaskList s2 = pxDelayedTaskList s1" "pxOverflowDelayedTaskList s2 = pxOverflowDelayedTaskList s1"
    using resume_quiet [OF s1(1-4)] by metis
  have "sleeping (yield_unless (b, s2)) c n" using s1(5) r(2,3,6-8) by (simp add: yield_unless_def vPortYield_def sleeping_def same_items_def)
  moreover have "uxSchedulerSuspended (yield_unless (b, s2)) = 0" "pendsv (yield_unless (b, s2))" using r(4,5) by (simp_all add: yield_unless_def vPortYield_def)
  ultimately show thesis using that a(1) r(1) by (simp add: s0_def s1_def)
qed

lemma delay_sleeps:
  assumes k: "kinv idle (pend s)" and m: "may_block idle s" and u: "uxSchedulerSuspended s = 0" and p: "xPendedTicks s = 0" "\<And>t. \<not> pended s t"
    and c: "pxCurrentTCB s = Some c" and n: "n > 0"
  obtains s' where "vTaskDelay n s = Some s'" "kinv idle (pend s')" "uxSchedulerSuspended s' = 0" "sleeping s' c n" "pendsv s'"
proof -
  obtain s1 r where r: "prvAddCurrentTaskToDelayedList n False (vTaskSuspendAll s) = Some s1" "xTaskResumeAll s1 = Some r"
    "uxSchedulerSuspended (yield_unless r) = 0" "sleeping (yield_unless r) c n" "pendsv (yield_unless r)"
    using sleep_for [OF assms] .
  have d: "vTaskDelay n s = Some (yield_unless r)"
    using n r(1,2) u by (simp add: vTaskDelay_def delay_block_def configASSERT_def Let_def vTaskSuspendAll_def)
  moreover have "kinv idle (pend (yield_unless r))" using kernel_call_core [OF k, of "Delay n"] m u d by simp
  ultimately show thesis using that r(3-5) by blast
qed

text \<open>A periodic delay: the task sleeps for the rest of its period, or is only asked to yield.\<close>

lemma delay_until_sleeps:
  assumes k: "kinv idle (pend s)" and m: "may_block idle s" and u: "uxSchedulerSuspended s = 0" and p: "xPendedTicks s = 0" "\<And>t. \<not> pended s t"
    and c: "pxCurrentTCB s = Some c" and i: "inc > 0" and due: "delay_until_due (xTickCount s) prev (prev + inc)" and n: "prev + inc - xTickCount s > 0"
  obtains s' where "xTaskDelayUntil prev inc s = Some (True, prev + inc, s')" "kinv idle (pend s')" "uxSchedulerSuspended s' = 0"
    "sleeping s' c (prev + inc - xTickCount s)" "pendsv s'"
proof -
  obtain s1 r where r: "prvAddCurrentTaskToDelayedList (prev + inc - xTickCount s) False (vTaskSuspendAll s) = Some s1" "xTaskResumeAll s1 = Some r"
    "uxSchedulerSuspended (yield_unless r) = 0" "sleeping (yield_unless r) c (prev + inc - xTickCount s)" "pendsv (yield_unless r)"
    using sleep_for [OF k m u p c n] .
  have d: "xTaskDelayUntil prev inc s = Some (True, prev + inc, yield_unless r)"
    using i r(1,2) u due by (simp add: xTaskDelayUntil_def configASSERT_def Let_def vTaskSuspendAll_def)
  moreover have "kinv idle (pend (yield_unless r))" using kernel_call_core [OF k, of "DelayUntil prev inc"] m u d i by simp
  ultimately show thesis using that r(3-5) by blast
qed

lemma delay_until_passes:
  assumes k: "kinv idle (pend s)" and u: "uxSchedulerSuspended s = 0" and p: "xPendedTicks s = 0" "\<And>t. \<not> pended s t"
    and i: "inc > 0" and due: "\<not> delay_until_due (xTickCount s) prev (prev + inc)"
  obtains s' where "xTaskDelayUntil prev inc s = Some (False, prev + inc, s')" "at s' = at s" "pendsv s'"
proof -
  have s0: "kernel_ok (vTaskSuspendAll s)" "uxSchedulerSuspended (vTaskSuspendAll s) = 1" "xPendedTicks (vTaskSuspendAll s) = 0"
    "\<And>t. \<not> pended (vTaskSuspendAll s) t" "at (vTaskSuspendAll s) = at s"
    using k u p by (simp_all add: vTaskSuspendAll_def kinv_pend_iff)
  obtain b s2 where r: "xTaskResumeAll (vTaskSuspendAll s) = Some (b, s2)" "at s2 = at (vTaskSuspendAll s)" "b \<Longrightarrow> pendsv s2"
    using resume_quiet [OF s0(1-4)] by metis
  have "xTaskDelayUntil prev inc s = Some (False, prev + inc, yield_unless (b, s2))"
    using i r(1) u due by (simp add: xTaskDelayUntil_def configASSERT_def Let_def vTaskSuspendAll_def)
  then show thesis using that r(2,3) s0(5) by (simp add: yield_unless_def vPortYield_def)
qed

lemma asleep_not_ready: "kinv idle (pend s) \<Longrightarrow> sleeping s t r \<Longrightarrow> \<not> task_ready t s"
  using kernel_coreD(8,9) [of s] by (auto simp: kinv_pend_iff kernel_ok_def sleeping_def task_ready_def)

section \<open>Time-outs\<close>

lemma unat_u32: "unat (x :: u32) < 2 ^ 32"
  by (rule order_less_le_trans [OF unsigned_less]) simp

lemma SysTick_clock:
  assumes k: "kinv idle (pend s)" and u: "uxSchedulerSuspended s = 0"
  obtains s' where "SysTick_Handler s = Some s'" "kinv idle (pend s')" "uxSchedulerSuspended s' = 0" "xTickCount s' = xTickCount s + 1"
    "xNumOfOverflows s' = (if xTickCount s + 1 = 0 then xNumOfOverflows s + 1 else xNumOfOverflows s)"
proof -
  have ok: "kernel_ok s" using k by (simp add: kinv_pend_iff)
  obtain s' where s': "SysTick_Handler s = Some s'" "kinv idle (pend s')" using SysTick_core [OF k] .
  obtain sw s1 where t: "xTaskIncrementTick s = Some (sw, s1)" "ticked s sw s1" using xTaskIncrementTick_ticks [OF ok u] .
  have e: "s' = (if sw then s1\<lparr>pendsv := True\<rparr> else s1)" using s'(1) t(1) by (simp add: SysTick_Handler_def)
  have "uxSchedulerSuspended s1 = 0" "xTickCount s1 = xTickCount s + 1"
    "xNumOfOverflows s1 = (if xTickCount s + 1 = 0 then xNumOfOverflows s + 1 else xNumOfOverflows s)"
    using t(2) u by (auto simp: ticked_def same_tasks_def turned_def Let_def)
  then show thesis using that [of s'] s' e by (cases sw) simp_all
qed

lemma sys_ticks_clock:
  assumes "kinv idle (pend s)" "uxSchedulerSuspended s = 0"
  shows "\<exists>s'. sys_ticks n s = Some s' \<and> kinv idle (pend s') \<and> xTickCount s' = xTickCount s + of_nat n \<and>
    xNumOfOverflows s' = xNumOfOverflows s + of_nat ((unat (xTickCount s) + n) div 2 ^ 32)"
  using assms
proof (induction n arbitrary: s)
  case 0
  have "unat (xTickCount s) < 2 ^ 32" using unat_u32 [of "xTickCount s"] by simp
  then show ?case using 0 by simp
next
  case (Suc n)
  obtain s1 where s1: "SysTick_Handler s = Some s1" "kinv idle (pend s1)" "uxSchedulerSuspended s1 = 0" "xTickCount s1 = xTickCount s + 1"
    "xNumOfOverflows s1 = (if xTickCount s + 1 = 0 then xNumOfOverflows s + 1 else xNumOfOverflows s)" using SysTick_clock [OF Suc.prems] .
  obtain s' where s': "sys_ticks n s1 = Some s'" "kinv idle (pend s')" "xTickCount s' = xTickCount s1 + of_nat n"
    "xNumOfOverflows s' = xNumOfOverflows s1 + of_nat ((unat (xTickCount s1) + n) div 2 ^ 32)" using Suc.IH [OF s1(2,3)] by blast
  have "xNumOfOverflows s' = xNumOfOverflows s + of_nat ((unat (xTickCount s) + Suc n) div 2 ^ 32)"
  proof (cases "xTickCount s + 1 = 0")
    case True
    then have "xTickCount s = - 1" by (simp add: eq_neg_iff_add_eq_0)
    then have "unat (xTickCount s) = 2 ^ 32 - 1" by (simp add: unsigned_minus_1_eq_mask mask_eq_exp_minus_1)
    then have "(unat (xTickCount s) + Suc n) div 2 ^ 32 = Suc (n div 2 ^ 32)" by simp
    then show ?thesis using True s'(4) s1(4,5) by simp
  next
    case False
    then have "unat (xTickCount s1) = Suc (unat (xTickCount s))" using s1(4) by (metis add.commute unatSuc)
    then show ?thesis using False s'(4) s1(5) by simp
  qed
  then show ?case using s' s1(1,4) by simp
qed

lemma unat_of_nat_small: "n < 2 ^ 32 \<Longrightarrow> unat (of_nat n :: u32) = n"
  by (simp add: unat_of_nat take_bit_nat_eq_self)

lemma timeout_check:
  fixes n :: nat
  assumes c: "xTickCount s' = xTickCount s + of_nat n" "xNumOfOverflows s' = xNumOfOverflows s + of_nat ((unat (xTickCount s) + n) div 2 ^ 32)"
    and n: "unat (xTickCount s) + n < 2 ^ 33" and w: "w \<noteq> portMAX_DELAY"
  shows "xTaskCheckForTimeOut s' (vTaskInternalSetTimeOutState s) w =
    (if n < unat w then (False, vTaskInternalSetTimeOutState s', w - of_nat n) else (True, vTaskInternalSetTimeOutState s, 0))"
proof -
  let ?t = "xTickCount s" and ?k = "(unat (xTickCount s) + n) div 2 ^ 32"
  have t: "unat ?t < 2 ^ 32" and w32: "unat w < 2 ^ 32" using unat_u32 [of ?t] unat_u32 [of w] by simp_all
  have el: "xTickCount s' - ?t = of_nat n" using c(1) by simp
  have less: "of_nat n < w \<longleftrightarrow> n < unat w" if "n < 2 ^ 32"
    using unat_of_nat_small [OF that] by (simp add: word_less_nat_alt)
  have k: "?k = 0 \<or> ?k = 1"
  proof -
    have "?k < 2" using n by (simp add: div_less_iff_less_mult)
    then show ?thesis by auto
  qed
  have ov: "xNumOfOverflows s' \<noteq> xNumOfOverflows s \<longleftrightarrow> ?k = 1" using c(2) k by auto
  have ge: "xTickCount s' \<ge> ?t \<longleftrightarrow> 2 ^ 32 \<le> n" if "?k = 1"
  proof -
    have lo: "2 ^ 32 \<le> unat ?t + n" using that by (metis div_less linorder_not_less zero_neq_one)
    have "xTickCount s' = of_nat (unat ?t + n - 2 ^ 32)"
    proof -
      have "(of_nat (unat ?t + n - 2 ^ 32) :: u32) = of_nat (unat ?t + n) - of_nat (2 ^ 32)" using lo by (rule of_nat_diff)
      also have "(of_nat (2 ^ 32) :: u32) = 0" by simp
      finally show ?thesis using c(1) by simp
    qed
    moreover have "unat ?t + n - 2 ^ 32 < 2 ^ 32" using n by simp
    ultimately have "unat (xTickCount s') = unat ?t + n - 2 ^ 32" using unat_of_nat_small by metis
    then show ?thesis using lo by (auto simp: word_le_nat_alt)
  qed
  have small: "n < 2 ^ 32" if "?k = 0" using that by (simp add: div_eq_0_iff)
  show ?thesis
  proof (cases "?k = 1 \<and> 2 ^ 32 \<le> n")
    case True
    then have "\<not> n < unat w" using w32 by simp
    then show ?thesis using True ov ge w by (simp add: xTaskCheckForTimeOut_def vTaskInternalSetTimeOutState_def)
  next
    case False
    then have "n < 2 ^ 32" using small k by fastforce
    moreover have "\<not> (xNumOfOverflows s' \<noteq> xNumOfOverflows s \<and> xTickCount s' \<ge> ?t)" using False ov ge by auto
    ultimately show ?thesis using less w el by (auto simp: xTaskCheckForTimeOut_def vTaskInternalSetTimeOutState_def Let_def)
  qed
qed

section \<open>Periodic wake times\<close>

lemma delay_until_due_correct:
  fixes P N :: nat and inc :: u32
  assumes "P \<le> N" "N < P + 2 ^ 32" "inc > 0"
  shows "delay_until_due (of_nat N) (of_nat P) (of_nat P + inc) \<longleftrightarrow> N < P + unat inc"
proof -
  let ?p = "of_nat P :: u32"
  have p: "unat ?p < 2 ^ 32" and i: "0 < unat inc" "unat inc < 2 ^ 32" using unat_u32 [of ?p] unat_u32 [of inc] assms(3) by (simp_all add: unat_gt_0)
  have wrap: "unat (of_nat (P + d) :: u32) = (if unat ?p + d < 2 ^ 32 then unat ?p + d else unat ?p + d - 2 ^ 32)" if "d < 2 ^ 32" for d
  proof -
    have "unat (of_nat (P + d) :: u32) = (P + d) mod 2 ^ 32" by (simp add: unat_of_nat take_bit_eq_mod del: of_nat_add)
    also have "\<dots> = (P mod 2 ^ 32 + d) mod 2 ^ 32" by (simp add: mod_simps)
    also have "P mod 2 ^ 32 = unat ?p" by (simp add: unat_of_nat take_bit_eq_mod)
    finally have e: "unat (of_nat (P + d) :: u32) = (unat ?p + d) mod 2 ^ 32" .
    show ?thesis
    proof (cases "unat ?p + d < 2 ^ 32")
      case False
      then have "(unat ?p + d) mod 2 ^ 32 = (unat ?p + d - 2 ^ 32) mod 2 ^ 32" by (simp add: le_mod_geq)
      moreover have "unat ?p + d - 2 ^ 32 < 2 ^ 32" using p that by simp
      ultimately show ?thesis using False e by simp
    qed (use e in simp)
  qed
  obtain d where d: "N = P + d" "d < 2 ^ 32" using assms(1,2) by (metis add_less_cancel_left le_Suc_ex)
  have w: "of_nat P + inc = (of_nat (P + unat inc) :: u32)" by simp
  note wd = wrap [OF d(2)] and wi = wrap [OF i(2)]
  show ?thesis
    unfolding w d(1) delay_until_due_def word_less_nat_alt wd wi using p i d(2) by auto
qed

section \<open>Properties\<close>

text \<open>
  C7: when the running task delays itself for \<open>n\<close> ticks, it is not ready before the \<open>n\<close>-th tick and ready after it, wherever the
  32-bit clock wraps around. Ticks that were pended and tasks that were woken while the scheduler was suspended are excluded.
\<close>

theorem delay_ends_on_time:
  assumes "reachable idle s" "may_block idle s" "uxSchedulerSuspended s = 0" "xPendedTicks s = 0" "\<forall>t. \<not> pended s t"
    "pxCurrentTCB s = Some c" "n > 0"
  shows "\<exists>s'. vTaskDelay n s = Some s' \<and> pendsv s' \<and>
    (\<forall>k < unat n. \<exists>s''. sys_ticks k s' = Some s'' \<and> \<not> task_ready c s'') \<and>
    (\<exists>s''. sys_ticks (unat n) s' = Some s'' \<and> task_ready c s'')"
proof -
  obtain s' where s': "vTaskDelay n s = Some s'" "kinv idle (pend s')" "uxSchedulerSuspended s' = 0" "sleeping s' c n" "pendsv s'"
    using delay_sleeps [OF reachable_core [OF assms(1)] assms(2-4) _ assms(6,7)] assms(5) by metis
  have n: "n \<noteq> 0" using assms(7) by simp
  have "\<exists>s''. sys_ticks k s' = Some s'' \<and> \<not> task_ready c s''" if "k < unat n" for k
    using sleep_ends(1) [OF s'(2-4) n that] sys_ticks_clock [OF s'(2,3), of k] asleep_not_ready by fastforce
  then show ?thesis using sleep_ends(2) [OF s'(2-4) n] s'(1,5) by blast
qed

lemma delay_ends_on_time_witness:
  "\<exists>s' s''. vTaskDelay 3 two_tasks = Some s' \<and> sys_ticks 3 s' = Some s'' \<and> task_ready 2 s''"
proof -
  have "\<forall>t. \<not> pended two_tasks t" by (simp add: two_tasks_at)
  then show ?thesis
    using delay_ends_on_time [OF two_tasks_reachable two_tasks_block two_tasks_simps(2,3) _ two_tasks_simps(1), of 3] by auto
qed

text \<open>
  C15: a time-out of \<open>w\<close> ticks has passed exactly when at least \<open>w\<close> ticks have come since it was set; until then the rest
  to wait is \<open>w\<close> less the ticks that came. This holds over one wrap of the 32-bit clock; after two the code takes an old time for a new one.
\<close>

theorem timeout_counts_ticks:
  assumes "reachable idle s" "uxSchedulerSuspended s = 0" "unat (xTickCount s) + n < 2 ^ 33" "w \<noteq> portMAX_DELAY"
  shows "\<exists>s'. sys_ticks n s = Some s' \<and> xTaskCheckForTimeOut s' (vTaskInternalSetTimeOutState s) w =
    (if n < unat w then (False, vTaskInternalSetTimeOutState s', w - of_nat n) else (True, vTaskInternalSetTimeOutState s, 0))"
  using sys_ticks_clock [OF reachable_core [OF assms(1)] assms(2), of n] timeout_check [OF _ _ assms(3,4)] by blast

lemma timeout_counts_ticks_witness:
  "\<exists>s'. sys_ticks 5 two_tasks = Some s' \<and> fst (xTaskCheckForTimeOut s' (vTaskInternalSetTimeOutState two_tasks) 4)"
  using timeout_counts_ticks [OF two_tasks_reachable, of 5 4] by (auto simp: two_tasks_simps portMAX_DELAY_def)

lemma rest_of_period:
  fixes P N :: nat and inc :: u32
  assumes "P \<le> N" "N < P + unat inc"
  shows "of_nat P + inc - of_nat N = (of_nat (P + unat inc - N) :: u32)" "unat (of_nat (P + unat inc - N) :: u32) = P + unat inc - N"
proof -
  have "(of_nat (P + unat inc - N) :: u32) = of_nat (P + unat inc) - of_nat N" using assms by (intro of_nat_diff) simp
  then show "of_nat P + inc - of_nat N = (of_nat (P + unat inc - N) :: u32)" by simp
  have "P + unat inc - N < 2 ^ 32" using assms(1) unat_u32 [of inc] by simp
  then show "unat (of_nat (P + unat inc - N) :: u32) = P + unat inc - N" by (rule unat_of_nat_small)
qed

text \<open>
  C16: a periodic delay returns, with the previous wake-up time moved on by one period and a switch asked for. If the next wake-up time
  lies ahead, it says so, and the task is not ready before the clock shows that time and ready when it does; if that time has been reached, it
  says so and leaves every task where it is. The times are those of a clock that never wraps, of which the code sees 32 bits: \<open>P\<close> the
  last wake-up, \<open>N\<close> the present, less than a turn of the clock later. Ticks that were pended and tasks that were woken while the
  scheduler was suspended are excluded.
\<close>

theorem delay_until_due_agrees:
  fixes P N :: nat and inc :: u32
  assumes "reachable idle s" "may_block idle s" "uxSchedulerSuspended s = 0" "xPendedTicks s = 0" "\<forall>t. \<not> pended s t"
    "pxCurrentTCB s = Some c" "xTickCount s = of_nat N" "P \<le> N" "N < P + 2 ^ 32" "inc > 0"
  shows "\<exists>s'. xTaskDelayUntil (of_nat P) inc s = Some (N < P + unat inc, of_nat P + inc, s') \<and> pendsv s' \<and>
    (if N < P + unat inc
     then (\<forall>k < P + unat inc - N. \<exists>s''. sys_ticks k s' = Some s'' \<and> \<not> task_ready c s'') \<and>
          (\<exists>s''. sys_ticks (P + unat inc - N) s' = Some s'' \<and> task_ready c s'')
     else at s' = at s)"
proof -
  note k = reachable_core [OF assms(1)]
  have due: "delay_until_due (xTickCount s) (of_nat P) (of_nat P + inc) \<longleftrightarrow> N < P + unat inc"
    unfolding assms(7) by (rule delay_until_due_correct [OF assms(8-10)])
  show ?thesis
  proof (cases "N < P + unat inc")
    case True
    let ?n = "of_nat P + inc - xTickCount s"
    have n: "unat ?n = P + unat inc - N" using rest_of_period [OF assms(8) True] assms(7) by simp
    then have "unat ?n \<noteq> 0" using True by simp
    then have n0: "?n > 0" by (metis unsigned_0 word_gt_0)
    obtain s' where s': "xTaskDelayUntil (of_nat P) inc s = Some (True, of_nat P + inc, s')" "kinv idle (pend s')" "uxSchedulerSuspended s' = 0"
      "sleeping s' c ?n" "pendsv s'"
      using delay_until_sleeps [OF k assms(2-4) _ assms(6,10) due [THEN iffD2, OF True] n0] assms(5) by metis
    have n1: "?n \<noteq> 0" using n0 by (metis word_gt_0)
    have "\<exists>s''. sys_ticks k s' = Some s'' \<and> \<not> task_ready c s''" if "k < unat ?n" for k
      using sleep_ends(1) [OF s'(2-4) n1 that] sys_ticks_clock [OF s'(2,3), of k] asleep_not_ready by fastforce
    then show ?thesis using sleep_ends(2) [OF s'(2-4) n1] s'(1,5) True unfolding n by auto
  next
    case False
    then show ?thesis
      using delay_until_passes [OF k assms(3,4) _ assms(10), of "of_nat P"] due assms(5) by (metis (full_types))
  qed
qed

lemma delay_until_due_agrees_witness:
  "\<exists>s' s''. xTaskDelayUntil 0 3 two_tasks = Some (True, 3, s') \<and> sys_ticks 3 s' = Some s'' \<and> task_ready 2 s''"
proof -
  have "\<forall>t. \<not> pended two_tasks t" by (simp add: two_tasks_at)
  then show ?thesis
    using delay_until_due_agrees [OF two_tasks_reachable two_tasks_block two_tasks_simps(2,3) _ two_tasks_simps(1), of 0 0 3]
    by (auto simp: two_tasks_simps)
qed

end
