(* ===== verification/Emw_Address.thy ===== *)
theory Emw_Address
  imports Lwip_Ip4_Addr
begin

text \<open>
  The driver's own IPv4 text conversions (\<^verbatim>\<open>drivers/emw/EmwAddress.cpp\<close>), used to exchange
  addresses with the Wi-Fi module, and their agreement with the conversions of the network
  stack. A string is the list of its bytes before the terminating zero.
\<close>

section \<open>Character classes\<close>

definition IsDigit :: "u8 \<Rightarrow> bool" where
  "IsDigit byte \<longleftrightarrow> byte \<ge> 48 \<and> byte \<le> 57"

definition IsHexaDigit :: "u8 \<Rightarrow> bool" where
  "IsHexaDigit byte \<longleftrightarrow> (byte \<ge> 48 \<and> byte \<le> 57) \<or> (byte \<ge> 97 \<and> byte \<le> 122) \<or> (byte \<ge> 65 \<and> byte \<le> 70)"

definition IsLower :: "u8 \<Rightarrow> bool" where
  "IsLower byte \<longleftrightarrow> byte \<ge> 97 \<and> byte \<le> 122"

definition IsSpace :: "u8 \<Rightarrow> bool" where
  "IsSpace byte \<longleftrightarrow> byte = 32 \<or> byte = 12 \<or> byte = 10 \<or> byte = 13 \<or> byte = 9 \<or> byte = 11"

definition ToDecimalChar :: "u8 \<Rightarrow> u8" where
  "ToDecimalChar halfByte = (if halfByte < 10 then 48 + halfByte else 65 + halfByte - 10)"

definition HostToNetworkLong :: "u32 \<Rightarrow> u32" where
  "HostToNetworkLong hostLong =
     drop_bit 24 (hostLong AND 0xFF000000) OR drop_bit 8 (hostLong AND 0x00FF0000) OR
     push_bit 8 (hostLong AND 0x0000FF00) OR push_bit 24 (hostLong AND 0x000000FF)"

section \<open>Parsing\<close>

fun emw_scan_num :: "u32 \<Rightarrow> u32 \<Rightarrow> u8 list \<Rightarrow> u32 \<times> u8 list" where
  "emw_scan_num base val [] = (val, [])"
| "emw_scan_num base val (c # cp) =
    (if IsDigit c then emw_scan_num base (val * base + ucast c - 48) cp
     else if base = 16 \<and> IsHexaDigit c then
       emw_scan_num base (push_bit 4 val OR (ucast c + 10 - (if IsLower c then 97 else 65))) cp
     else (val, c # cp))"

definition emw_scan_part :: "u8 list \<Rightarrow> u32 \<times> u8 list" where
  "emw_scan_part cp =
    (if cur cp = 48 then
       (let cp = tl cp in
        if cur cp = 120 \<or> cur cp = 88 then emw_scan_num 16 0 (tl cp) else emw_scan_num 8 0 cp)
     else emw_scan_num 10 0 cp)"

text \<open>
  The loop over the parts: the status, the parts before the current one, the current value and
  the text it stopped at. Unlike the network stack's parser it leaves the loop with the status
  cleared, and the tests after it run on the values reached.
\<close>

function emw_scan_parts :: "u32 list \<Rightarrow> u32 \<Rightarrow> u8 list \<Rightarrow> bool \<times> u32 list \<times> u32 \<times> u8 list" where
  "emw_scan_parts parts val cp =
    (if \<not> IsDigit (cur cp) then (False, parts, val, cp)
     else
       (case emw_scan_part cp of (val, rest) \<Rightarrow>
          if cur rest = 46
          then (if length parts \<ge> 3 then (False, parts, val, rest)
                else emw_scan_parts (parts @ [val]) val (tl rest))
          else (True, parts, val, rest)))"
  by pat_completeness auto

termination by (relation "measure (\<lambda>(parts, val, cp). 4 - length parts)") auto

declare emw_scan_parts.simps [simp del]

definition AsciiToNetwork4 :: "u8 list \<Rightarrow> u32 option" where
  "AsciiToNetwork4 cp =
    (case emw_scan_parts [] 0 cp of
       (status, parts, val, rest) \<Rightarrow>
         (let (status, val) =
            (if cur rest \<noteq> 0 \<and> \<not> IsSpace (cur rest) then (False, val)
             else
               (case parts of
                  [] \<Rightarrow> (status, val)
                | [p0] \<Rightarrow> (status \<and> \<not> val > 0xffffff, val OR push_bit 24 p0)
                | [p0, p1] \<Rightarrow>
                    if val > 0xffff then (False, val)
                    else (status, val OR (push_bit 24 p0 OR push_bit 16 p1))
                | [p0, p1, p2] \<Rightarrow>
                    if val > 0xff then (False, val)
                    else (status, val OR (push_bit 24 p0 OR push_bit 16 p1 OR push_bit 8 p2))
                | _ \<Rightarrow> (False, val)))
          in if status then Some (HostToNetworkLong val) else None))"

section \<open>Printing\<close>

function emw_octet_inv :: "u8 \<Rightarrow> nat \<Rightarrow> u8 list" where
  "emw_octet_inv val i =
    (48 + val mod 10) # (if val div 10 \<noteq> 0 \<and> i + 1 < 3 then emw_octet_inv (val div 10) (i + 1) else [])"
  by pat_completeness auto

termination by (relation "measure (\<lambda>(val, i). 3 - i)") auto

declare emw_octet_inv.simps [simp del]

text \<open>A byte is written while there is room; bytes that do not fit are dropped.\<close>

fun write_bytes :: "nat \<Rightarrow> u8 list \<Rightarrow> u8 list \<Rightarrow> u8 list" where
  "write_bytes bufferSize out [] = out"
| "write_bytes bufferSize out (c # cs) =
    write_bytes bufferSize (if length out < bufferSize then out @ [c] else out) cs"

fun write_octets :: "nat \<Rightarrow> nat \<Rightarrow> u8 list \<Rightarrow> u8 list \<Rightarrow> u8 list" where
  "write_octets bufferSize n out [] = out"
| "write_octets bufferSize n out (val # vals) =
    (let out = write_bytes bufferSize out (rev (emw_octet_inv val 0));
         out = (if n < 3 \<and> length out < bufferSize then out @ [46] else out)
     in write_octets bufferSize (Suc n) out vals)"

text \<open>
  The string left in the buffer. With no room left the last byte is overwritten by the
  terminator; a buffer of no bytes at all (\<open>None\<close>) would be written at its index \<^verbatim>\<open>-1\<close>.
\<close>

definition ip_addr_bytes :: "u32 \<Rightarrow> u8 list" where
  "ip_addr_bytes addr =
    [ucast (addr AND 0x000000FF), ucast (drop_bit 8 (addr AND 0x0000FF00)),
     ucast (drop_bit 16 (addr AND 0x00FF0000)), ucast (drop_bit 24 (addr AND 0xFF000000))]"

definition NetworkToAscii4 :: "u32 \<Rightarrow> nat \<Rightarrow> u8 list option" where
  "NetworkToAscii4 addr bufferSize =
    (let out = write_octets bufferSize 0 [] (ip_addr_bytes addr)
     in if length out < bufferSize then Some out
        else if bufferSize = 0 then None else Some (take (bufferSize - 1) out))"

section \<open>Agreement with the network stack\<close>

lemma class_eqs [simp]: "IsDigit = lwip_isdigit" "IsLower = lwip_islower" "IsSpace = lwip_isspace"
proof -
  show "IsDigit = lwip_isdigit" "IsLower = lwip_islower"
    by (auto simp: fun_eq_iff IsDigit_def lwip_isdigit_def IsLower_def lwip_islower_def)
  have "c \<in> {9, 10, 11, 12, 13} \<longleftrightarrow> 9 \<le> c \<and> c \<le> 13" for c :: u8
  proof
    assume "9 \<le> c \<and> c \<le> 13"
    then have "unat c \<in> {9, 10, 11, 12, 13}" by (auto simp: word_le_nat_alt)
    then have "(of_nat (unat c) :: u8) \<in> of_nat ` {9, 10, 11, 12, 13}" by (rule imageI)
    then show "c \<in> {9, 10, 11, 12, 13}" by simp
  qed auto
  note range = this
  have "IsSpace c \<longleftrightarrow> c = 32 \<or> c \<in> {9, 10, 11, 12, 13}" for c
    unfolding IsSpace_def by blast
  then show "IsSpace = lwip_isspace"
    by (simp only: fun_eq_iff lwip_isspace_def range simp_thms)
qed

lemma HostToNetworkLong_htonl [simp]: "HostToNetworkLong = lwip_htonl"
  by (rule ext, rule word_eq_bitsI)
    (simp add: bit_positions HostToNetworkLong_def lwip_htonl_def bit_simps)

lemma ip_addr_bytes_octets: "ip_addr_bytes a = map (addr_octet a) [0..<4]"
proof -
  have "[0..<4] = [0, 1, 2, 3]" by (simp add: upt_rec)
  moreover have "ucast (a AND 0x000000FF) = addr_octet a 0"
    "ucast (drop_bit 8 (a AND 0x0000FF00)) = addr_octet a 1"
    "ucast (drop_bit 16 (a AND 0x00FF0000)) = addr_octet a 2"
    "ucast (drop_bit 24 (a AND 0xFF000000)) = addr_octet a 3"
    by (rule word_eq_bitsI, simp add: bit_positions addr_octet_def bit_simps)+
  ultimately show ?thesis by (simp add: ip_addr_bytes_def)
qed

text \<open>Where the network stack's scan stops at a character that can end a part, so does the driver's.\<close>

definition part_end :: "u8 list \<Rightarrow> bool" where
  "part_end r \<longleftrightarrow> cur r = 46 \<or> cur r = 0 \<or> lwip_isspace (cur r)"

lemma part_end_stops:
  assumes "part_end (c # cp)"
  shows "\<not> lwip_isdigit c" "\<not> IsHexaDigit c"
  using assms
  by (auto simp: part_end_def lwip_isdigit_def IsHexaDigit_def lwip_isspace_def word_le_nat_alt)

lemma scan_num_agree:
  assumes "scan_num base val cp = (v, r)" and "part_end r"
  shows "emw_scan_num base val cp = (v, r)"
  using assms
proof (induction base val cp rule: scan_num.induct)
  case (2 base val c cp)
  show ?case
  proof (cases "lwip_isdigit c")
    case True
    then show ?thesis using 2 part_end_stops(1) [of c cp]
      by (auto simp: add_diff_eq split: if_splits)
  next
    case False
    have x: "lwip_isxdigit c \<Longrightarrow> IsHexaDigit c"
      by (auto simp: lwip_isxdigit_def IsHexaDigit_def lwip_isdigit_def word_le_nat_alt)
    show ?thesis using False 2 part_end_stops(2) [of c cp] x by (auto split: if_splits)
  qed
qed simp

lemma scan_part_agree:
  "scan_part cp = (v, r) \<Longrightarrow> part_end r \<Longrightarrow> emw_scan_part cp = (v, r)"
  by (auto simp: scan_part_def emw_scan_part_def Let_def scan_num_agree split: if_splits)

lemma scan_parts_agree:
  assumes "scan_parts ps cp = Some (parts, v, r)" and "part_end r"
  shows "emw_scan_parts ps v0 cp = (True, parts, v, r)"
  using assms
proof (induction ps cp arbitrary: v0 rule: scan_parts.induct)
  case (1 ps cp)
  obtain v1 r1 where p: "scan_part cp = (v1, r1)" by fastforce
  have d: "lwip_isdigit (cur cp)" using 1(2) by (subst (asm) scan_parts.simps) (auto split: if_splits)
  show ?case
  proof (cases "cur r1 = 46")
    case True
    then have e: "emw_scan_part cp = (v1, r1)"
      using scan_part_agree [OF p] by (simp add: part_end_def)
    have l: "\<not> length ps \<ge> 3" and s: "scan_parts (ps @ [v1]) (tl r1) = Some (parts, v, r)"
      using 1(2) d p True by (auto simp: scan_parts.simps [of ps cp] split: if_splits)
    have "emw_scan_parts (ps @ [v1]) v1 (tl r1) = (True, parts, v, r)"
      by (rule 1(1)) (use d p True l s 1(3) in auto)
    then show ?thesis using d e True l by (subst emw_scan_parts.simps) simp
  next
    case False
    then have "parts = ps" "v = v1" "r = r1"
      using 1(2) d p by (auto simp: scan_parts.simps [of ps cp])
    then show ?thesis
      using scan_part_agree [OF p] 1(3) d False by (subst emw_scan_parts.simps) simp
  qed
qed

lemma scan_parts_length:
  "scan_parts ps cp = Some (parts, v, r) \<Longrightarrow> length ps \<le> 3 \<Longrightarrow> length parts \<le> 3"
proof (induction ps cp rule: scan_parts.induct)
  case (1 ps cp)
  then show ?case
    by (auto simp: scan_parts.simps [of ps cp] split: if_splits prod.splits)
qed

text \<open>
  C38: every text the network stack's parser accepts as an IPv4 address is accepted by the driver's
  parser, with the same address.
\<close>

theorem AsciiToNetwork4_agrees:
  assumes "ip4addr_aton t = Some a"
  shows "AsciiToNetwork4 t = Some a"
proof -
  obtain parts v r where s: "scan_parts [] t = Some (parts, v, r)"
    using assms by (auto simp: ip4addr_aton_def split: option.splits)
  then have e: "part_end r"
    using assms by (auto simp: ip4addr_aton_def part_end_def split: if_splits)
  note f = scan_parts_agree [OF s e, of 0]
  have "length parts \<le> 3" using scan_parts_length [OF s] by simp
  then consider "parts = []" | p0 where "parts = [p0]" | p0 p1 where "parts = [p0, p1]"
    | p0 p1 p2 where "parts = [p0, p1, p2]"
    by (cases parts rule: remdups_adj.cases; cases "tl (tl parts)") (auto simp: Suc_le_eq)
  then show ?thesis
    using assms by cases (simp_all add: ip4addr_aton_def AsciiToNetwork4_def s f split: if_splits)
qed

theorem AsciiToNetwork4_agrees_witness:
  "AsciiToNetwork4 [48, 120, 97, 46, 49, 32] = Some 0x0100000a"
proof -
  have "ip4addr_aton [48, 120, 97, 46, 49, 32] = Some 0x0100000a"
    by code_simp
  then show ?thesis by (rule AsciiToNetwork4_agrees)
qed

text \<open>The converse fails: the driver takes any letter as a hexadecimal digit and leaves the ranges of
  the earlier parts unchecked.\<close>

lemma AsciiToNetwork4_accepts_more:
  "AsciiToNetwork4 [48, 120, 103] = Some 0x10000000 \<and> ip4addr_aton [48, 120, 103] = None"
  "AsciiToNetwork4 [50, 53, 54, 46, 49, 46, 49, 46, 49] = Some 0x01010100 \<and>
   ip4addr_aton [50, 53, 54, 46, 49, 46, 49, 46, 49] = None"
  by code_simp+

section \<open>Printing and parsing back\<close>

lemma emw_octet_inv_text: "rev (emw_octet_inv a 0) = octet_string a"
proof -
  have "a div 10 div 10 div 10 = 0"
  proof -
    have "unat (a div 10 div 10 div 10) = 0" using unat_bound [of a] by (simp add: unat_div)
    then show ?thesis by (simp add: unat_eq_zero)
  qed
  then show ?thesis
    by (simp add: octet_string_def emw_octet_inv.simps octet_inv.simps)
qed

lemma write_bytes_fits:
  "length out + length cs \<le> bufferSize \<Longrightarrow> write_bytes bufferSize out cs = out @ cs"
  by (induction bufferSize out cs rule: write_bytes.induct) auto

lemma NetworkToAscii4_dotted:
  assumes "16 \<le> bufferSize"
  shows "NetworkToAscii4 a bufferSize = Some (dotted a)"
proof -
  have l: "length (octet_string x) \<le> 3" for x by (rule octet_string_length)
  note l' = l [of "addr_octet a 0"] l [of "addr_octet a 1"] l [of "addr_octet a 2"] l [of "addr_octet a 3"]
  have "[0..<4] = [0, 1, 2, 3]" by (simp add: upt_rec)
  then show ?thesis using l' assms
    by (simp add: NetworkToAscii4_def ip_addr_bytes_octets emw_octet_inv_text write_bytes_fits dotted_def)
qed

text \<open>
  for a buffer of at least 16 bytes the driver prints every address as the network stack does,
  and reads the text back as the same address.
\<close>

theorem NetworkToAscii4_roundtrip:
  assumes "16 \<le> bufferSize"
  shows "NetworkToAscii4 a bufferSize = ip4addr_ntoa_r a bufferSize \<and>
         (\<exists>t. NetworkToAscii4 a bufferSize = Some t \<and> AsciiToNetwork4 t = Some a)"
proof -
  have "scan_parts [] (dotted a) = Some ([ucast (addr_octet a 0), ucast (addr_octet a 1),
     ucast (addr_octet a 2)], ucast (addr_octet a 3), [])"
    by (rule scan_parts_dotted)
  from scan_parts_agree [OF this, of 0] have "AsciiToNetwork4 (dotted a) = Some a"
    using octets_bound octets_join [of a] by (simp add: AsciiToNetwork4_def part_end_def)
  then show ?thesis
    by (simp add: NetworkToAscii4_dotted [OF assms] ntoa_dotted [OF assms])
qed

theorem NetworkToAscii4_roundtrip_witness:
  "NetworkToAscii4 0x0100A8C0 16 = ip4addr_ntoa 0x0100A8C0"
  using NetworkToAscii4_roundtrip [of 16 "0x0100A8C0"] by (simp add: ip4addr_ntoa_def)

end
