(* ===== verification/Emw_Address6.thy ===== *)
theory Emw_Address6
  imports Emw_Address
begin

text \<open>
  The driver's IPv6 text conversions (\<^verbatim>\<open>drivers/emw/EmwAddress.cpp\<close>). An address is the array of its four
  words in network order; a store or read outside the array is \<open>None\<close>, or a value given as an argument where the code reads on. A
  string is the list of its bytes before the terminating zero.
\<close>

section \<open>Parsing\<close>

record Ip6Addr =
  addr :: "u32 list"
  zone :: u8

text \<open>
  The first loop: the number of blocks that a double colon stands for, and whether the text ends as an IPv4 address. \<open>None\<close> is
  the return for a misplaced dot. The loop is left at the first byte that is no decimal digit.
\<close>

fun count_zero_blocks :: "u32 \<Rightarrow> u8 list \<Rightarrow> (u32 \<times> bool) option" where
  "count_zero_blocks zero_blocks [] = Some (zero_blocks, False)"
| "count_zero_blocks zero_blocks (c # cs) =
    (if c = 58 then count_zero_blocks (zero_blocks - 1) cs
     else if c = 46 then (if zero_blocks = 5 \<or> zero_blocks = 2 then Some (zero_blocks - 1, True) else None)
     else if \<not> IsDigit c then Some (zero_blocks, False)
     else count_zero_blocks zero_blocks cs)"

record ip6_scan =
  words :: "u32 list"
  addr_index :: u32
  zero_blocks :: u32
  current_block_index :: u32
  current_block_value :: u32

text \<open>Storing the value of a block: the lower half of a word for an odd index, the upper half otherwise.\<close>

definition store_block :: "ip6_scan \<Rightarrow> ip6_scan option" where
  "store_block s =
    (let i = unat (addr_index s) in
     if i \<ge> 4 then None
     else if current_block_index s AND 1 \<noteq> 0
     then Some (s\<lparr>words := (words s)[i := words s ! i OR current_block_value s], addr_index := addr_index s + 1\<rparr>)
     else Some (s\<lparr>words := (words s)[i := push_bit 16 (current_block_value s)]\<rparr>))"

text \<open>The loop over the blocks of a double colon: whether it ends, or returns because there are too many.\<close>

function skip_zero_blocks :: "ip6_scan \<Rightarrow> (bool \<times> ip6_scan) option" where
  "skip_zero_blocks s =
    (if zero_blocks s > 0
     then (let s = s\<lparr>zero_blocks := zero_blocks s - 1\<rparr> in
           case (if current_block_index s AND 1 \<noteq> 0 then Some (s\<lparr>addr_index := addr_index s + 1\<rparr>)
                 else if unat (addr_index s) \<ge> 4 then None
                 else Some (s\<lparr>words := (words s)[unat (addr_index s) := 0]\<rparr>)) of
             None \<Rightarrow> None
           | Some s' \<Rightarrow>
               if current_block_index s' + 1 > 7 then Some (False, s'\<lparr>current_block_index := current_block_index s' + 1\<rparr>)
               else skip_zero_blocks (s'\<lparr>current_block_index := current_block_index s' + 1\<rparr>))
     else Some (True, s))"
  by pat_completeness auto

termination
proof (relation "measure (\<lambda>s. unat (zero_blocks s))", goal_cases)
  case (2 s x x2)
  have "unat (zero_blocks s - 1) < unat (zero_blocks s)"
    using 2(1) by (simp add: unat_sub word_le_nat_alt word_less_nat_alt)
  then show ?case using 2 by (auto split: if_splits)
qed simp

declare skip_zero_blocks.simps [simp del]

text \<open>How the second loop is left: by a return, by the jump behind it, or at the end of the text.\<close>

datatype scan_exit = Rejected | Mapped | Ended

definition hex_value :: "u8 \<Rightarrow> u32" where
  "hex_value c = (if IsDigit c then ucast c - 48 else 10 + (if IsLower c then ucast c - 97 else ucast c - 65))"

fun scan_blocks :: "bool \<Rightarrow> ip6_scan \<Rightarrow> u8 list \<Rightarrow> (scan_exit \<times> ip6_scan) option" where
  "scan_blocks check_ipv4_mapped s [] = Some (Ended, s)"
| "scan_blocks check_ipv4_mapped s (c # cs) =
    (if c = 58 then
       (case store_block s of
          None \<Rightarrow> None
        | Some s1 \<Rightarrow>
          (let s2 = s1\<lparr>current_block_index := current_block_index s1 + 1\<rparr>; s3 = s2\<lparr>current_block_value := 0\<rparr> in
           case (if check_ipv4_mapped \<and> current_block_index s2 = 6 then AsciiToNetwork4 cs else None) of
             Some ip4 \<Rightarrow> Some (Mapped, s2\<lparr>words := (words s2)[3 := HostToNetworkLong ip4], current_block_index := current_block_index s2 + 1\<rparr>)
           | None \<Rightarrow>
               if current_block_index s3 > 7 then Some (Rejected, s3)
               else if cur cs = 58 then
                 (if cur (tl cs) = 58 then Some (Rejected, s3)
                  else (case skip_zero_blocks s3 of
                          None \<Rightarrow> None
                        | Some (True, s4) \<Rightarrow> scan_blocks check_ipv4_mapped s4 (tl cs)
                        | Some (False, s4) \<Rightarrow> Some (Rejected, s4)))
               else scan_blocks check_ipv4_mapped s3 cs))
     else if IsHexaDigit c
     then scan_blocks check_ipv4_mapped (s\<lparr>current_block_value := push_bit 4 (current_block_value s) + hex_value c\<rparr>) cs
     else Some (Ended, s))"

text \<open>The status and what is left in the address.\<close>

definition AsciiToNetwork6 :: "u8 list \<Rightarrow> Ip6Addr \<Rightarrow> (bool \<times> Ip6Addr) option" where
  "AsciiToNetwork6 t a =
    (case count_zero_blocks 8 t of
       None \<Rightarrow> Some (False, a)
     | Some (z, check_ipv4_mapped) \<Rightarrow>
         (case scan_blocks check_ipv4_mapped
                 \<lparr>words = addr a, addr_index = 0, zero_blocks = z, current_block_index = 0, current_block_value = 0\<rparr> t of
            None \<Rightarrow> None
          | Some (Rejected, s) \<Rightarrow> Some (False, a\<lparr>addr := words s\<rparr>)
          | Some (e, s) \<Rightarrow>
              (case (if e = Ended then store_block s else Some s) of
                 None \<Rightarrow> None
               | Some s' \<Rightarrow> Some (current_block_index s' = 7, a\<lparr>addr := map HostToNetworkLong (words s'), zone := 0\<rparr>))))"

section \<open>Printing\<close>

text \<open>A byte is stored and the length checked against the size of the buffer: \<open>None\<close> is the return of a null pointer.\<close>

definition put_byte :: "nat \<Rightarrow> u8 \<Rightarrow> u8 list \<Rightarrow> u8 list option" where
  "put_byte bufferSize c out = (if Suc (length out) \<ge> bufferSize then None else Some (out @ [c]))"

text \<open>One of the upper three digits of a block, left out as long as only zeros came before.\<close>

definition put_digit :: "nat \<Rightarrow> u32 \<Rightarrow> bool \<times> u8 list \<Rightarrow> (bool \<times> u8 list) option" where
  "put_digit bufferSize d = (\<lambda>(zero_flag, out).
    if d = 0 \<and> zero_flag then Some (zero_flag, out)
    else map_option (Pair False) (put_byte bufferSize (ToDecimalChar (ucast d)) out))"

definition put_block :: "nat \<Rightarrow> u32 \<Rightarrow> u8 list \<Rightarrow> u8 list option" where
  "put_block bufferSize v out =
    Option.bind (put_digit bufferSize (drop_bit 12 (v AND 0xF000)) (True, out)) (\<lambda>p.
    Option.bind (put_digit bufferSize (drop_bit 8 (v AND 0x0F00)) p) (\<lambda>p.
    Option.bind (put_digit bufferSize (drop_bit 4 (v AND 0x00F0)) p) (\<lambda>p.
    put_byte bufferSize (ToDecimalChar (ucast (v AND 0x000F))) (snd p))))"

definition block_value :: "u32 list \<Rightarrow> nat \<Rightarrow> u32" where
  "block_value ws k =
    (let v = HostToNetworkLong (ws ! (k div 2)) in (if even k then drop_bit 16 v else v) AND 0x0000FFFF)"

text \<open>
  The loop over the blocks from the index \<open>k\<close> on. The words are followed by what lies behind the array in memory, which the code
  reads to look at the block after the last.
\<close>

function print_blocks :: "nat \<Rightarrow> u32 list \<Rightarrow> nat \<Rightarrow> u8 \<Rightarrow> u8 list \<Rightarrow> u8 list option" where
  "print_blocks bufferSize ws k empty_block_flag out =
    (if k \<ge> 8 then Some out
     else
       (let v = block_value ws k;
            print = (\<lambda>flag. Option.bind (if k > 0 then put_byte bufferSize 58 out else Some out) (\<lambda>out.
                      Option.bind (put_block bufferSize v out) (print_blocks bufferSize ws (Suc k) flag)))
        in
        if v = 0 then
          (if k = 7 \<and> empty_block_flag = 1 then put_byte bufferSize 58 out
           else if empty_block_flag = 0 then
             (if block_value ws (k + 1) = 0
              then Option.bind (put_byte bufferSize 58 out) (print_blocks bufferSize ws (Suc k) 1)
              else print empty_block_flag)
           else if empty_block_flag = 1 then print_blocks bufferSize ws (Suc k) empty_block_flag out
           else print empty_block_flag)
        else print (if empty_block_flag = 1 then 2 else empty_block_flag)))"
  by pat_completeness auto

termination by (relation "measure (\<lambda>(n, ws, k, f, out). 8 - k)") auto

declare print_blocks.simps [simp del]

text \<open>\<open>beyond\<close> is the word behind the array: the zone and the padding after it.\<close>

definition NetworkToAscii6 :: "Ip6Addr \<Rightarrow> u32 \<Rightarrow> nat \<Rightarrow> u8 list option" where
  "NetworkToAscii6 a beyond bufferSize =
    map_option (\<lambda>out. if length out < bufferSize then out else take (bufferSize - 1) out)
      (print_blocks bufferSize (addr a @ [beyond]) 0 0 [])"

section \<open>The array is not overrun\<close>

lemma odd_test: "x AND 1 = (0 :: u32) \<longleftrightarrow> even (unat x)"
proof -
  have "odd (unat x) \<longleftrightarrow> bit x 0" by (simp add: bit_unsigned_iff flip: bit_0)
  moreover have "x AND 1 = 0 \<longleftrightarrow> \<not> bit x 0" by (simp add: and_one_eq bit_0 even_iff_mod_2_eq_zero)
  ultimately show ?thesis by blast
qed

definition scan_at :: "nat \<Rightarrow> ip6_scan \<Rightarrow> bool" where
  "scan_at k s \<longleftrightarrow> length (words s) = 4 \<and> unat (addr_index s) = k div 2 \<and> unat (current_block_index s) = k"

lemma unat_Suc_small: "unat (x :: u32) = k \<Longrightarrow> k < 100 \<Longrightarrow> unat (x + 1) = Suc k"
  by (simp add: unat_add_small)

lemma index_over: "unat (x :: u32) = k \<Longrightarrow> x > 7 \<longleftrightarrow> k > 7"
  by (simp add: word_less_nat_alt)
lemma store_block_at:
  assumes "scan_at k s" "k \<le> 7"
  obtains s' where "store_block s = Some s'" "length (words s') = 4" "unat (addr_index s') = Suc k div 2"
    "current_block_index s' = current_block_index s" "zero_blocks s' = zero_blocks s"
proof -
  have i: "unat (addr_index s) = k div 2" "k div 2 < 4" "unat (current_block_index s) = k" "length (words s) = 4"
    using assms by (auto simp: scan_at_def)
  then show thesis
    using that unat_Suc_small [OF i(1)] by (cases "odd k") (auto simp: store_block_def Let_def odd_test)
qed

lemma skip_zero_blocks_at:
  assumes "scan_at k s" "k \<le> 7"
  shows "\<exists>b s'. skip_zero_blocks s = Some (b, s') \<and> length (words s') = 4 \<and>
    (b \<longrightarrow> (\<exists>k' \<le> 7. scan_at k' s')) \<and> current_block_value s' = current_block_value s"
  using assms
proof (induction s arbitrary: k rule: skip_zero_blocks.induct)
  case (1 s)
  note i = 1(2)[unfolded scan_at_def]
  define s1 where "s1 = s\<lparr>zero_blocks := zero_blocks s - 1\<rparr>"
  define s2 where "s2 = (if odd k then s1\<lparr>addr_index := addr_index s1 + 1\<rparr> else s1\<lparr>words := (words s1)[unat (addr_index s1) := 0]\<rparr>)"
  define s3 where "s3 = s2\<lparr>current_block_index := current_block_index s2 + 1\<rparr>"
  have c: "unat (current_block_index s2) = k" "unat (current_block_index s3) = Suc k" "unat (addr_index s3) = Suc k div 2" "length (words s3) = 4"
    "current_block_value s3 = current_block_value s"
    using i 1(3) unat_Suc_small [of "addr_index s" "k div 2"] unat_Suc_small [of "current_block_index s" k] by (auto simp: s3_def s2_def s1_def)
  have i2: "(if current_block_index s1 AND 1 \<noteq> 0 then Some (s1\<lparr>addr_index := addr_index s1 + 1\<rparr>)
      else if unat (addr_index s1) \<ge> 4 then None else Some (s1\<lparr>words := (words s1)[unat (addr_index s1) := 0]\<rparr>)) = Some s2"
    using i 1(3) by (auto simp: s2_def s1_def odd_test)
  show ?case
  proof (cases "zero_blocks s > 0")
    case z: True
    have over: "current_block_index s2 + 1 > 7 \<longleftrightarrow> Suc k > 7" using index_over [OF c(2)] by (simp add: s3_def)
    show ?thesis
    proof (cases "Suc k > 7")
      case True
      then show ?thesis using z over c
        by (subst skip_zero_blocks.simps) (auto simp add: Let_def s1_def [symmetric] i2 s3_def [symmetric])
    next
      case False
      have "scan_at (Suc k) s3" using c by (simp add: scan_at_def)
      from 1(1) [OF z s1_def i2, folded s3_def, OF _ this] show ?thesis
        using False z over c by (subst (1) skip_zero_blocks.simps) (simp add: Let_def s1_def [symmetric] i2 s3_def [symmetric])
    qed
  next
    case False
    then show ?thesis using 1 by (subst skip_zero_blocks.simps) (auto simp: scan_at_def)
  qed
qed

text \<open>A colon, unless an IPv4 address follows or there are too many blocks.\<close>

lemma scan_colon:
  assumes "store_block s = Some s1" "s2 = s1\<lparr>current_block_index := current_block_index s1 + 1\<rparr>" "s3 = s2\<lparr>current_block_value := 0\<rparr>"
    "(if m \<and> current_block_index s2 = 6 then AsciiToNetwork4 cs else None) = None" "\<not> current_block_index s3 > 7"
  shows "scan_blocks m s (58 # cs) =
     (if cur cs = 58 then
        (if cur (tl cs) = 58 then Some (Rejected, s3)
         else (case skip_zero_blocks s3 of None \<Rightarrow> None | Some (True, s4) \<Rightarrow> scan_blocks m s4 (tl cs) | Some (False, s4) \<Rightarrow> Some (Rejected, s4)))
      else scan_blocks m s3 cs)"
  unfolding scan_blocks.simps Let_def assms(1) option.case assms(2,3) [symmetric] assms(4)
  by (simp only: assms(5) if_False simp_thms if_True)

lemma scan_blocks_at:
  assumes "scan_at k s" "k \<le> 7"
  shows "\<exists>e s'. scan_blocks m s t = Some (e, s') \<and> length (words s') = 4 \<and> (e = Ended \<longrightarrow> (\<exists>k' \<le> 7. scan_at k' s'))"
  using assms
proof (induction m s t arbitrary: k rule: scan_blocks.induct)
  case (2 m s c cs)
  obtain s1 where s1: "store_block s = Some s1" and w: "length (words s1) = 4" "unat (addr_index s1) = Suc k div 2"
    "current_block_index s1 = current_block_index s" using store_block_at [OF 2(4,5)] by metis
  define s2 where "s2 = s1\<lparr>current_block_index := current_block_index s1 + 1\<rparr>"
  define s3 where "s3 = s2\<lparr>current_block_value := 0\<rparr>"
  have "unat (current_block_index s) = k" using 2(4) by (simp add: scan_at_def)
  then have i: "unat (current_block_index s1 + 1) = Suc k" using 2(5) w(3) by (simp add: unat_Suc_small)
  have a3: "scan_at (Suc k) s3" using w i by (simp add: scan_at_def s3_def s2_def)
  note colon = 2(1,2) [OF _ s1 s2_def s3_def]
  consider "c \<noteq> 58" | ip4 where "c = 58" "(if m \<and> current_block_index s2 = 6 then AsciiToNetwork4 cs else None) = Some ip4"
    | "c = 58" "(if m \<and> current_block_index s2 = 6 then AsciiToNetwork4 cs else None) = None" by fastforce
  then show ?case
  proof cases
    case 1
    have "scan_at k (s\<lparr>current_block_value := v\<rparr>)" "length (words s) = 4" for v using 2(4) by (simp_all add: scan_at_def)
    then show ?thesis using 1 2(3) [OF 1 _ _ 2(5)] 2(4,5) by auto
  next
    case 2
    then show ?thesis using s1 w by (simp add: Let_def s2_def)
  next
    case 3
    show ?thesis
    proof (cases "Suc k > 7")
      case True
      then have "current_block_index s1 + 1 > 7" using i by (simp add: word_less_nat_alt)
      then show ?thesis using 3 s1 w by (simp add: Let_def s2_def)
    next
      case False
      then have n: "\<not> current_block_index s3 > 7" using i by (simp add: word_less_nat_alt s3_def s2_def)
      obtain b s4 where s4: "skip_zero_blocks s3 = Some (b, s4)" "length (words s4) = 4" "b \<longrightarrow> (\<exists>k' \<le> 7. scan_at k' s4)"
        using skip_zero_blocks_at [OF a3] False by auto
      have step: "scan_blocks m s (c # cs) =
        (if cur cs = 58 then (if cur (tl cs) = 58 then Some (Rejected, s3) else if b then scan_blocks m s4 (tl cs) else Some (Rejected, s4))
         else scan_blocks m s3 cs)"
        unfolding 3(1) scan_colon [OF s1 s2_def s3_def 3(2) n] s4(1) by (simp split: bool.split)
      have w3: "length (words s3) = 4" using w by (simp add: s3_def s2_def)
      show ?thesis
      proof (cases "cur cs = 58")
        case True
        then show ?thesis unfolding step using w3 s4 colon(1) [OF 3 n True _ s4(1)] by auto
      next
        case c: False
        show ?thesis unfolding step using c colon(2) [OF 3 n c a3] False by auto
      qed
    qed
  qed
qed (auto simp: scan_at_def)

text \<open>
  C24: Parsing an IPv6 address never stores outside the array of four words, whatever the text: with too many blocks, with a double colon
  that stands for too many, or with an IPv4 address at the end. It ends, and the array keeps its size.
\<close>
theorem AsciiToNetwork6_in_bounds:
  assumes "length (addr a) = 4"
  shows "\<exists>ok a'. AsciiToNetwork6 t a = Some (ok, a') \<and> length (addr a') = 4"
proof (cases "count_zero_blocks 8 t")
  case None
  then show ?thesis using assms by (auto simp add: AsciiToNetwork6_def)
next
  case (Some p)
  obtain z m where p: "count_zero_blocks 8 t = Some (z, m)" using Some by (cases p) simp
  define s where "s = \<lparr>words = addr a, addr_index = 0, zero_blocks = z, current_block_index = 0, current_block_value = 0\<rparr>"
  have "scan_at 0 s" using assms by (simp add: s_def scan_at_def)
  then obtain e s' where e: "scan_blocks m s t = Some (e, s')" "length (words s') = 4" "e = Ended \<longrightarrow> (\<exists>k \<le> 7. scan_at k s')"
    using scan_blocks_at [of 0 s m t] by auto
  have "e = Ended \<Longrightarrow> \<exists>s''. store_block s' = Some s'' \<and> length (words s'') = 4"
    using e(3) store_block_at [of _ s'] by metis
  then show ?thesis using e(2)
    by (cases e) (auto simp: AsciiToNetwork6_def p s_def [symmetric] e(1))
qed

lemma AsciiToNetwork6_in_bounds_witness:
  "\<exists>ok a'. AsciiToNetwork6 [49, 58, 50, 58, 51, 58, 52, 58, 53, 58, 54, 58, 55, 58, 56, 58, 57] \<lparr>addr = [0, 0, 0, 0], zone = 0\<rparr> = Some (ok, a') \<and> length (addr a') = 4"
  by (rule AsciiToNetwork6_in_bounds) simp

section \<open>The digits of a block\<close>

definition hex_digits :: "u32 \<Rightarrow> u32 list" where
  "hex_digits v = dropWhile ((=) 0) [drop_bit 12 (v AND 0xF000), drop_bit 8 (v AND 0x0F00), drop_bit 4 (v AND 0x00F0)] @ [v AND 0x000F]"

definition hex_text :: "u32 \<Rightarrow> u8 list" where
  "hex_text v = map (\<lambda>d. ToDecimalChar (ucast d)) (hex_digits v)"

lemma hex_text_length: "length (hex_text v) \<le> 4" "hex_text v \<noteq> []"
  by (simp_all add: hex_text_def hex_digits_def)

lemma put_block_fits:
  "length out + 4 < n \<Longrightarrow> put_block n v out = Some (out @ hex_text v)"
  by (simp add: put_block_def put_digit_def put_byte_def hex_text_def hex_digits_def)

lemma small_digit:
  fixes d :: u32
  assumes "d < 16"
  shows "d \<in> set [0, 1, 2, 3, 4, 5, 6, 7, 8, 9, 10, 11, 12, 13, 14, 15]"
proof -
  have "unat d < 16" using assms by (simp add: word_less_nat_alt)
  then have "unat d \<in> set [0, 1, 2, 3, 4, 5, 6, 7, 8, 9, 10, 11, 12, 13, 14, 15]" by (simp, arith)
  then have "word_of_nat (unat d) \<in> (word_of_nat ` set [0, 1, 2, 3, 4, 5, 6, 7, 8, 9, 10, 11, 12, 13, 14, 15] :: u32 set)" by (rule imageI)
  then show ?thesis by simp
qed

lemma digit_char:
  assumes "d < (16 :: u32)" and c: "c = ToDecimalChar (ucast d)"
  shows "c \<noteq> 58 \<and> c \<noteq> 46 \<and> IsHexaDigit c \<and> hex_value c = d"
proof -
  have "list_all (\<lambda>d. ToDecimalChar (ucast d) \<noteq> 58 \<and> ToDecimalChar (ucast d) \<noteq> 46 \<and> IsHexaDigit (ToDecimalChar (ucast d)) \<and>
      hex_value (ToDecimalChar (ucast d)) = d) [0 :: u32, 1, 2, 3, 4, 5, 6, 7, 8, 9, 10, 11, 12, 13, 14, 15]"
    by (simp add: ToDecimalChar_def IsHexaDigit_def hex_value_def lwip_isdigit_def lwip_islower_def)
  then show ?thesis unfolding c list_all_iff using small_digit [OF assms(1)] by blast
qed

lemma hex_digits_small:
  assumes "d \<in> set (hex_digits v)" shows "d < 16"
proof -
  have x: "x AND 15 < 16" for x :: u32 by (rule order_le_less_trans [OF word_and_le1]) simp
  have "drop_bit 12 (v AND 0xF000) = drop_bit 12 v AND 15" "drop_bit 8 (v AND 0x0F00) = drop_bit 8 v AND 15"
    "drop_bit 4 (v AND 0x00F0) = drop_bit 4 v AND 15"
    by (rule word_eq_bitsI, simp add: bit_positions bit_simps)+
  then have "set (hex_digits v) \<subseteq> {drop_bit 12 v AND 15, drop_bit 8 v AND 15, drop_bit 4 v AND 15, v AND 15}"
    by (auto simp: hex_digits_def)
  then show ?thesis using assms x by blast
qed

lemma unat_take4: "unat (take_bit 4 (x :: u32)) = unat x mod 16"
  by (simp add: take_bit_eq_mod unat_mod)

lemma unat_shift_add:
  fixes a d :: u32
  assumes "unat a < 4096" "unat d < 16"
  shows "unat (push_bit 4 a + d) = unat a * 16 + unat d"
  using assms by (simp add: push_bit_eq_mult unat_word_ariths)

lemma hex_digits_value:
  assumes "v < 65536"
  shows "foldl (\<lambda>a d. push_bit 4 a + d) 0 (hex_digits v) = v"
proof -
  have m: "x AND 15 = take_bit 4 x" for x :: u32 by (simp add: take_bit_eq_mask mask_eq_exp_minus_1)
  have e: "drop_bit 12 (v AND 0xF000) = take_bit 4 (drop_bit 12 v)" "drop_bit 8 (v AND 0x0F00) = take_bit 4 (drop_bit 8 v)"
    "drop_bit 4 (v AND 0x00F0) = take_bit 4 (drop_bit 4 v)"
    unfolding m [symmetric] by (rule word_eq_bitsI, simp add: bit_positions bit_simps)+
  have "foldl (\<lambda>a d. push_bit 4 a + d) 0 (dropWhile ((=) 0) ds @ r) = foldl (\<lambda>a d. push_bit 4 a + d) (0 :: u32) (ds @ r)" for ds r
    by (induction ds) auto
  then have "foldl (\<lambda>a d. push_bit 4 a + d) 0 (hex_digits v) =
      push_bit 4 (push_bit 4 (push_bit 4 (take_bit 4 (drop_bit 12 v)) + take_bit 4 (drop_bit 8 v)) + take_bit 4 (drop_bit 4 v)) + take_bit 4 v"
    by (simp add: hex_digits_def e m)
  also have "\<dots> = v"
  proof -
    define x where "x = unat v"
    have x: "x < 65536" using assms by (simp add: x_def word_less_nat_alt)
    have "unat (push_bit 4 (push_bit 4 (push_bit 4 (take_bit 4 (drop_bit 12 v)) + take_bit 4 (drop_bit 8 v)) + take_bit 4 (drop_bit 4 v)) + take_bit 4 v) = 
      ((x div 4096 mod 16 * 16 + x div 256 mod 16) * 16 + x div 16 mod 16) * 16 + x mod 16"
      by (simp add: unat_shift_add unat_take4 x_def drop_bit_eq_div unat_div)
    also have "\<dots> = x"
    proof -
      have "x div 4096 = x div 16 div 16 div 16" "x div 256 = x div 16 div 16" by (simp_all add: div_mult2_eq [symmetric])
      moreover have "x div 16 div 16 div 16 mod 16 = x div 16 div 16 div 16" using x by (simp add: div_mult2_eq [symmetric])
      ultimately show ?thesis using div_mult_mod_eq [of "x div 16 div 16" 16] div_mult_mod_eq [of "x div 16" 16] div_mult_mod_eq [of x 16] by presburger
    qed
    finally show ?thesis unfolding x_def word_unat_eq_iff .
  qed
  finally show ?thesis .
qed

section \<open>What is printed\<close>

definition block_text :: "u32 list \<Rightarrow> nat \<Rightarrow> u8 list" where
  "block_text ws k = (if k > 0 then [58] else []) @ hex_text (block_value ws k)"

lemma print_step:
  assumes "k < 8" "40 \<le> n" "length out \<le> 5 * k - 1"
    and "if block_value ws k = 0 then f = 2 \<or> (f = 0 \<and> block_value ws (k + 1) \<noteq> 0) else f = 0 \<or> f = 1 \<or> f = 2"
  shows "print_blocks n ws k f out = print_blocks n ws (Suc k) (if f = 1 then 2 else f) (out @ block_text ws k)"
    "length (out @ block_text ws k) \<le> 5 * Suc k - 1"
proof -
  have p: "Option.bind (if k > 0 then put_byte n 58 out else Some out) (put_block n (block_value ws k)) = Some (out @ block_text ws k)"
    using assms(1-3) by (auto simp: block_text_def put_byte_def put_block_fits)
  have q: "Option.bind (if k > 0 then put_byte n 58 out else Some out) (\<lambda>out. Option.bind (put_block n (block_value ws k) out) g) =
      g (out @ block_text ws k)" for g :: "u8 list \<Rightarrow> u8 list option"
    using p by (auto simp: Option.bind_eq_Some_conv split: if_splits)
  show "print_blocks n ws k f out = print_blocks n ws (Suc k) (if f = 1 then 2 else f) (out @ block_text ws k)"
    using assms(1,4) unfolding print_blocks.simps [of n ws k f out] Let_def q by (auto split: if_splits)
  show "length (out @ block_text ws k) \<le> 5 * Suc k - 1"
    using assms(3) hex_text_length [of "block_value ws k"] by (cases k) (auto simp: block_text_def)
qed

lemma print_plain:
  assumes "k \<le> m" "m \<le> 8" "40 \<le> n" "length out \<le> 5 * k - 1" "f = 2 \<or> (f = 0 \<and> (\<forall>j. k \<le> j \<and> j < m \<and> block_value ws j = 0 \<longrightarrow> block_value ws (j + 1) \<noteq> 0))"
  shows "print_blocks n ws k f out = print_blocks n ws m f (out @ concat (map (block_text ws) [k..<m])) \<and>
     length (out @ concat (map (block_text ws) [k..<m])) \<le> 5 * m - 1"
  using assms
proof (induction "m - k" arbitrary: k out)
  case (Suc d)
  then have k: "k < 8" "k < m" by auto
  have c: "if block_value ws k = 0 then f = 2 \<or> (f = 0 \<and> block_value ws (k + 1) \<noteq> 0) else f = 0 \<or> f = 1 \<or> f = 2"
    using Suc(7) k by auto
  note s = print_step [OF k(1) Suc(5,6) c]
  have f: "(if f = 1 then 2 else f) = f" using Suc(7) by auto
  have "print_blocks n ws (Suc k) f (out @ block_text ws k) =
      print_blocks n ws m f ((out @ block_text ws k) @ concat (map (block_text ws) [Suc k..<m])) \<and>
      length ((out @ block_text ws k) @ concat (map (block_text ws) [Suc k..<m])) \<le> 5 * m - 1"
    by (rule Suc(1)) (use Suc(2-7) k s(2) in auto)
  then show ?case using s(1) f k(2) by (simp add: upt_rec [of k m])
qed simp

text \<open>The blocks of a run of zeros after its first colon.\<close>

lemma print_zeros:
  assumes "k \<le> m" "m \<le> 7" "\<forall>j. k \<le> j \<and> j < m \<longrightarrow> block_value ws j = 0"
  shows "print_blocks n ws k 1 out = print_blocks n ws m 1 out"
  using assms
proof (induction "m - k" arbitrary: k)
  case (Suc d)
  then have "print_blocks n ws (Suc k) 1 out = print_blocks n ws m 1 out" by auto
  then show ?case using Suc(2-5) by (subst print_blocks.simps) auto
qed simp

definition more_blocks :: "u32 list \<Rightarrow> u8 list" where
  "more_blocks bs = concat (map (\<lambda>b. 58 # hex_text b) bs)"

fun blocks_text :: "u32 list \<Rightarrow> u8 list" where
  "blocks_text [] = []"
| "blocks_text (b # bs) = hex_text b @ more_blocks bs"

lemma more_blocks_simps [simp]: "more_blocks [] = []" "more_blocks (b # bs) = 58 # hex_text b @ more_blocks bs"
  by (simp_all add: more_blocks_def)

lemma block_texts:
  "k > 0 \<Longrightarrow> concat (map (block_text ws) [k..<m]) = more_blocks (map (block_value ws) [k..<m])"
  "concat (map (block_text ws) [0..<m]) = blocks_text (map (block_value ws) [0..<m])"
proof -
  show l: "k > 0 \<Longrightarrow> concat (map (block_text ws) [k..<m]) = more_blocks (map (block_value ws) [k..<m])" for k
    by (induction "m - k" arbitrary: k) (auto simp: block_text_def upt_rec [of _ m])
  show "concat (map (block_text ws) [0..<m]) = blocks_text (map (block_value ws) [0..<m])"
    using l [of 1] by (cases m) (auto simp: block_text_def upt_conv_Cons simp del: upt_Suc)
qed

lemma upt_split: "j \<le> m \<Longrightarrow> m \<le> n \<Longrightarrow> [j..<n] = [j..<m] @ [m..<n]"
  by (metis le_add_diff_inverse upt_add_eq_append)

text \<open>There is always room for the terminator.\<close>

lemma put_fits:
  "put_byte n c out = Some out' \<Longrightarrow> length out' < n"
  "put_digit n d p = Some p' \<Longrightarrow> length (snd p) < n \<Longrightarrow> length (snd p') < n"
  "put_block n v out = Some out' \<Longrightarrow> length out' < n"
  by (auto simp: put_byte_def put_digit_def put_block_def Option.bind_eq_Some_conv split: if_splits prod.splits)

lemma print_blocks_fits:
  "print_blocks n ws k f out = Some t \<Longrightarrow> length out < n \<Longrightarrow> length t < n"
proof (induction "8 - k" arbitrary: k f out)
  case 0
  then show ?case by (simp add: print_blocks.simps)
next
  case (Suc d)
  have ih: "length t < n" if "print_blocks n ws (Suc k) g o1 = Some t" "length o1 < n" for g o1
    using Suc(1) [OF _ that] Suc(2) by simp
  show ?case
    using Suc(2-4) unfolding print_blocks.simps [of n ws k f out] Let_def
    by (auto simp: Option.bind_eq_Some_conv split: if_splits intro: ih put_fits(1) put_fits(3))
qed

lemma print_run:
  assumes n: "40 \<le> n" and l: "length out \<le> 5 * j - 1" and j: "j < 7"
    and z: "block_value ws j = 0" "block_value ws (j + 1) = 0"
  shows "\<exists>z post. z \<ge> 2 \<and> map (block_value ws) [j..<8] = replicate z 0 @ post \<and>
    print_blocks n ws j 0 out = Some (out @ [58, 58] @ blocks_text post)"
proof -
  let ?B = "block_value ws"
  define m where "m = (LEAST m. j < m \<and> (m = 7 \<or> ?B m \<noteq> 0))"
  have m: "j < m \<and> (m = 7 \<or> ?B m \<noteq> 0)" unfolding m_def by (rule LeastI [of _ 7]) (use j in simp)
  have least: "j < i \<Longrightarrow> i < m \<Longrightarrow> i \<noteq> 7 \<and> ?B i = 0" for i using not_less_Least [of i "\<lambda>m. j < m \<and> (m = 7 \<or> ?B m \<noteq> 0)"] by (auto simp: m_def)
  have m7: "m \<le> 7" using least [of 7] j by force
  have zeros: "map ?B [j..<m] = replicate (m - j) 0"
  proof -
    have "?B i = 0" if "j \<le> i" "i < m" for i using least [of i] that z(1) by (cases "i = j") auto
    then show ?thesis by (intro nth_equalityI) auto
  qed
  have l1: "Suc (length out) < n" using l n j by simp
  have "print_blocks n ws j 0 out = print_blocks n ws (Suc j) 1 (out @ [58])"
    using z j l1 by (subst print_blocks.simps) (simp add: put_byte_def)
  also have "\<dots> = print_blocks n ws m 1 (out @ [58])" using print_zeros [of "Suc j" m] m least m7 by auto
  finally have p: "print_blocks n ws j 0 out = print_blocks n ws m 1 (out @ [58])" .
  show ?thesis
  proof (cases "?B m = 0")
    case True
    then have m7: "m = 7" using m by simp
    have "print_blocks n ws 7 1 (out @ [58]) = Some (out @ [58, 58])"
      using True l n j m7 by (subst print_blocks.simps) (simp add: put_byte_def)
    moreover have "map ?B [j..<8] = replicate (8 - j) 0"
      using zeros True j m7 by (simp add: upt_Suc_append [of j 7, simplified] Suc_diff_le replicate_append_same flip: replicate_Suc)
    ultimately show ?thesis using p m7 j by (intro exI [of _ "8 - j"] exI [of _ "[]"]) auto
  next
    case False
    have m2: "m \<ge> j + 2" using m False z(2) by (cases "m = j + 1") auto
    have lo: "length (out @ [58]) \<le> 5 * m - 1" using l m2 by simp
    have s: "print_blocks n ws m 1 (out @ [58]) = print_blocks n ws (Suc m) 2 ((out @ [58]) @ block_text ws m)"
      "length ((out @ [58]) @ block_text ws m) \<le> 5 * Suc m - 1"
      using print_step [of m n "out @ [58]" ws 1] False m7 n lo by auto
    have "print_blocks n ws (Suc m) 2 ((out @ [58]) @ block_text ws m) =
        print_blocks n ws 8 2 (((out @ [58]) @ block_text ws m) @ concat (map (block_text ws) [Suc m..<8]))"
      using print_plain [of "Suc m" 8 n "(out @ [58]) @ block_text ws m" 2 ws] m7 n s(2) by simp
    moreover have "map ?B [j..<8] = replicate (m - j) 0 @ map ?B [m..<8]"
      unfolding zeros [symmetric] map_append [symmetric] using m m7 by (simp add: upt_split [of j m 8])
    moreover have "blocks_text (map ?B [m..<8]) = hex_text (?B m) @ concat (map (block_text ws) [Suc m..<8])"
      using m7 by (simp add: block_texts(1) upt_rec [of m])
    ultimately show ?thesis using p s m2 m
      by (intro exI [of _ "m - j"] exI [of _ "map ?B [m..<8]"]) (simp add: print_blocks.simps [of n ws 8] block_text_def)
  qed
qed

theorem print_forms:
  assumes n: "40 \<le> n" and bs: "bs = map (block_value ws) [0..<8]"
  shows "\<exists>t. print_blocks n ws 0 0 [] = Some t \<and> length t < n \<and>
    (t = blocks_text bs \<or> (t = blocks_text (take 7 bs) @ [58] \<and> bs ! 7 = 0) \<or>
     (\<exists>pre z post. bs = pre @ replicate z 0 @ post \<and> 2 \<le> z \<and> t = blocks_text pre @ [58, 58] @ blocks_text post))"
proof -
  let ?B = "block_value ws"
  let ?pair = "\<lambda>j. j < 8 \<and> ?B j = 0 \<and> ?B (j + 1) = 0"
  have fits: "length t < n" if "print_blocks n ws 0 0 [] = Some t" for t
    using print_blocks_fits [OF that] n by simp
  show ?thesis
  proof (cases "\<exists>j. ?pair j")
    case False
    then have "print_blocks n ws 0 0 [] = print_blocks n ws 8 0 (concat (map (block_text ws) [0..<8]))"
      using print_plain [of 0 8 n "[]" 0 ws] n by auto
    then have "print_blocks n ws 0 0 [] = Some (blocks_text bs)"
      by (simp add: print_blocks.simps [of n ws 8] block_texts(2) bs)
    then show ?thesis using fits by blast
  next
    case True
    define j where "j = (LEAST j. ?pair j)"
    have j: "?pair j" unfolding j_def using True by (rule LeastI_ex)
    have least: "i < j \<Longrightarrow> \<not> ?pair i" for i unfolding j_def by (rule not_less_Least)
    have p: "print_blocks n ws 0 0 [] = print_blocks n ws j 0 (blocks_text (map ?B [0..<j]))" "length (blocks_text (map ?B [0..<j])) \<le> 5 * j - 1"
      using print_plain [of 0 j n "[]" 0 ws] least j n by (auto simp: block_texts(2))
    show ?thesis
    proof (cases "j = 7")
      case True
      have "print_blocks n ws 7 0 (blocks_text (map ?B [0..<7])) = Some (blocks_text (map ?B [0..<7]) @ [58])"
        using j p(2) n True by (subst print_blocks.simps) (simp add: put_byte_def print_blocks.simps [of n ws 8])
      moreover have "take 7 bs = map ?B [0..<7]" "bs ! 7 = 0" using j True by (simp_all add: bs take_map)
      ultimately show ?thesis using p(1) True fits by auto
    next
      case False
      then obtain z post where r: "z \<ge> 2" "map ?B [j..<8] = replicate z 0 @ post"
        "print_blocks n ws j 0 (blocks_text (map ?B [0..<j])) = Some (blocks_text (map ?B [0..<j]) @ [58, 58] @ blocks_text post)"
        using print_run [OF n p(2), of ws] j by auto
      have "bs = map ?B [0..<j] @ replicate z 0 @ post"
        unfolding bs r(2) [symmetric] map_append [symmetric] using j by (simp add: upt_split [of 0 j 8] del: upt_0)
      then show ?thesis using p(1) r(1,3) fits by metis
    qed
  qed
qed

section \<open>What is read\<close>

definition stored :: "u32 list \<Rightarrow> u32 list \<Rightarrow> bool" where
  "stored ds ws \<longleftrightarrow> length ws = 4 \<and> (\<forall>j. Suc (2 * j) < length ds \<longrightarrow> ws ! j = push_bit 16 (ds ! (2 * j)) OR ds ! Suc (2 * j)) \<and>
     (odd (length ds) \<longrightarrow> ws ! (length ds div 2) = push_bit 16 (last ds))"

text \<open>The blocks read so far, the last of them not stored yet.\<close>

definition reads :: "u32 list \<Rightarrow> u32 \<Rightarrow> ip6_scan \<Rightarrow> bool" where
  "reads es z s \<longleftrightarrow> es \<noteq> [] \<and> length es \<le> 8 \<and> stored (butlast es) (words s) \<and> scan_at (length es - 1) s \<and>
     current_block_value s = last es \<and> zero_blocks s = z"

lemma stored_append:
  assumes "stored ds ws" "length ds < 8"
  shows "stored (ds @ [v]) (if odd (length ds) then ws[length ds div 2 := ws ! (length ds div 2) OR v] else ws[length ds div 2 := push_bit 16 v])"
proof (cases "odd (length ds)")
  case True
  then obtain k where k: "length ds = Suc (2 * k)" by (auto elim: oddE)
  have "ds \<noteq> []" using k by auto
  then have l: "last ds = ds ! (2 * k)" using k by (simp add: last_conv_nth)
  show ?thesis using assms True k unfolding stored_def l by (auto simp: nth_append nth_list_update)
next
  case False
  then obtain k where k: "length ds = 2 * k" by (auto elim: evenE)
  show ?thesis using assms False k unfolding stored_def by (auto simp: nth_append nth_list_update)
qed

lemma store_reads:
  assumes "reads es z s"
  obtains s1 where "store_block s = Some s1" "stored es (words s1)" "unat (addr_index s1) = length es div 2"
    "current_block_index s1 = current_block_index s" "zero_blocks s1 = z"
proof -
  obtain ds v where e: "es = ds @ [v]" using assms by (cases es rule: rev_cases) (auto simp: reads_def)
  have k: "scan_at (length ds) s" "stored ds (words s)" "current_block_value s = v" "zero_blocks s = z" "length ds < 8"
    using assms by (auto simp: reads_def e)
  have i: "unat (addr_index s) = length ds div 2" "length ds div 2 < 4" "unat (current_block_index s) = length ds"
    using k(1,5) by (auto simp: scan_at_def)
  define ws where "ws = (if odd (length ds) then (words s)[length ds div 2 := words s ! (length ds div 2) OR v] else (words s)[length ds div 2 := push_bit 16 v])"
  have w: "stored es ws" unfolding e ws_def by (rule stored_append [OF k(2,5)])
  show thesis
  proof (cases "odd (length ds)")
    case True
    then have "store_block s = Some (s\<lparr>words := ws, addr_index := addr_index s + 1\<rparr>)"
      using i by (simp add: store_block_def odd_test k(3) ws_def Let_def)
    moreover have "unat (addr_index s + 1) = length es div 2" using True unat_Suc_small [OF i(1)] k(5) by (simp add: e)
    ultimately show thesis using that [of "s\<lparr>words := ws, addr_index := addr_index s + 1\<rparr>"] w k(4) by simp
  next
    case False
    then have "store_block s = Some (s\<lparr>words := ws\<rparr>)" using i by (simp add: store_block_def odd_test k(3) ws_def Let_def)
    moreover have "length ds div 2 = length es div 2" using False by (simp add: e)
    ultimately show thesis using that [of "s\<lparr>words := ws\<rparr>"] w k(4) i(1) by simp
  qed
qed

lemma colon_state:
  assumes "reads es z s" "length es < 8"
  obtains s1 s3 where "store_block s = Some s1"
    "s3 = s1\<lparr>current_block_index := current_block_index s1 + 1\<rparr>\<lparr>current_block_value := 0\<rparr>"
    "\<not> current_block_index s3 > 7" "reads (es @ [0]) z s3"
proof -
  obtain s1 where s1: "store_block s = Some s1" "stored es (words s1)" "unat (addr_index s1) = length es div 2"
    "current_block_index s1 = current_block_index s" "zero_blocks s1 = z" using store_reads [OF assms(1)] .
  define s3 where "s3 = s1\<lparr>current_block_index := current_block_index s1 + 1\<rparr>\<lparr>current_block_value := 0\<rparr>"
  have "unat (current_block_index s1 + 1) = length es"
    using s1(4) assms unat_Suc_small [of "current_block_index s" "length es - 1"] by (auto simp: reads_def scan_at_def)
  moreover have "length (words s1) = 4" using s1(2) by (simp add: stored_def)
  ultimately have "reads (es @ [0]) z s3" "\<not> current_block_index s3 > 7"
    using s1 assms by (auto simp: reads_def scan_at_def s3_def word_less_nat_alt)
  then show thesis using that s1(1) s3_def by blast
qed

lemma read_colon:
  assumes "reads es z s" "length es < 8" "cur cs \<noteq> 58"
  shows "\<exists>s'. scan_blocks False s (58 # cs) = scan_blocks False s' cs \<and> reads (es @ [0]) z s'"
proof -
  obtain s1 s3 where s: "store_block s = Some s1"
    "s3 = s1\<lparr>current_block_index := current_block_index s1 + 1\<rparr>\<lparr>current_block_value := 0\<rparr>"
    "\<not> current_block_index s3 > 7" "reads (es @ [0]) z s3" using colon_state [OF assms(1,2)] .
  show ?thesis using scan_colon [OF s(1) refl s(2), of False cs] s(3,4) assms(3) by auto
qed

lemma read_digits:
  assumes "\<forall>d \<in> set ds. d < 16" "reads (es @ [v]) z s"
  shows "\<exists>s'. scan_blocks False s (map (\<lambda>d. ToDecimalChar (ucast d)) ds @ r) = scan_blocks False s' r \<and>
    reads (es @ [foldl (\<lambda>a d. push_bit 4 a + d) v ds]) z s'"
  using assms
proof (induction ds arbitrary: v s)
  case (Cons d ds)
  define s' where "s' = s\<lparr>current_block_value := push_bit 4 v + d\<rparr>"
  have v: "current_block_value s = v" using Cons(3) by (simp add: reads_def)
  have "reads (es @ [push_bit 4 v + d]) z s'" using Cons(3) by (auto simp: reads_def s'_def scan_at_def)
  moreover have "scan_blocks False s (map (\<lambda>d. ToDecimalChar (ucast d)) (d # ds) @ r) = scan_blocks False s' (map (\<lambda>d. ToDecimalChar (ucast d)) ds @ r)"
    using digit_char [OF _ refl, of d] Cons(2) by (simp add: s'_def v)
  ultimately show ?case using Cons(1) [of "push_bit 4 v + d" s'] Cons(2) by auto
qed auto

lemma read_block:
  assumes "b < 65536" "reads (es @ [0]) z s"
  shows "\<exists>s'. scan_blocks False s (hex_text b @ r) = scan_blocks False s' r \<and> reads (es @ [b]) z s'"
proof -
  have "\<forall>d \<in> set (hex_digits b). d < 16" using hex_digits_small by blast
  from read_digits [OF this assms(2), of r] show ?thesis unfolding hex_digits_value [OF assms(1)] hex_text_def .
qed

lemma hex_text_start: "cur (hex_text b @ r) \<noteq> 58"
proof -
  obtain d ds where d: "hex_digits b = d # ds" by (cases "hex_digits b") (auto simp: hex_digits_def)
  then have "d < 16" using hex_digits_small [of d b] by simp
  then show ?thesis using digit_char [OF _ refl, of d] by (simp add: hex_text_def d)
qed

lemma read_more:
  assumes "\<forall>b \<in> set bs. b < 65536" "reads es z s" "length es + length bs \<le> 8"
  shows "\<exists>s'. scan_blocks False s (more_blocks bs @ r) = scan_blocks False s' r \<and> reads (es @ bs) z s'"
  using assms
proof (induction bs arbitrary: es s)
  case (Cons b bs)
  obtain s1 where s1: "scan_blocks False s (58 # hex_text b @ more_blocks bs @ r) = scan_blocks False s1 (hex_text b @ more_blocks bs @ r)"
    "reads (es @ [0]) z s1" using read_colon [OF Cons(3) _ hex_text_start] Cons(4) by fastforce
  obtain s2 where s2: "scan_blocks False s1 (hex_text b @ more_blocks bs @ r) = scan_blocks False s2 (more_blocks bs @ r)" "reads (es @ [b]) z s2"
    using read_block [OF _ s1(2)] Cons(2) by fastforce
  show ?case using Cons(1) [OF _ s2(2)] Cons(2,4) s1(1) s2(1) by auto
qed auto

text \<open>A double colon.\<close>

lemma skip_zero_blocks_reads:
  assumes "reads (es @ [0]) z s" "length es \<le> 7"
  shows "\<exists>s'. skip_zero_blocks s = Some (length es + unat z \<le> 7, s') \<and>
    (length es + unat z \<le> 7 \<longrightarrow> reads (es @ replicate (unat z) 0 @ [0]) 0 s')"
  using assms
proof (induction s arbitrary: es z rule: skip_zero_blocks.induct)
  case (1 s)
  have zz: "zero_blocks s = z" using 1(2) by (simp add: reads_def)
  show ?case
  proof (cases "z > 0")
    case False
    then have "z = 0" by (simp add: word_gt_0)
    then show ?thesis using 1(2,3) zz by (subst skip_zero_blocks.simps) auto
  next
    case True
    define k where "k = length es"
    have st: "stored es (words s)" and at: "scan_at k s" "current_block_value s = 0" using 1(2) by (auto simp: reads_def k_def)
    have uz: "unat (z - 1) = unat z - 1" "unat z > 0" using True by (simp_all add: unat_sub word_le_nat_alt word_less_nat_alt)
    define s1 where "s1 = s\<lparr>zero_blocks := zero_blocks s - 1\<rparr>"
    define s2 where "s2 = (if odd k then s1\<lparr>addr_index := addr_index s1 + 1\<rparr> else s1\<lparr>words := (words s1)[unat (addr_index s1) := 0]\<rparr>)"
    define s3 where "s3 = s2\<lparr>current_block_index := current_block_index s2 + 1\<rparr>"
    have i: "unat (addr_index s) = k div 2" "unat (current_block_index s) = k" "k \<le> 7" "length (words s) = 4"
      using at 1(3) by (auto simp: scan_at_def k_def)
    have ui: "unat (addr_index s + 1) = Suc (k div 2)" "unat (current_block_index s + 1) = Suc k"
      using i unat_Suc_small [of "addr_index s" "k div 2"] unat_Suc_small [of "current_block_index s" k] by auto
    have i2: "(if current_block_index s1 AND 1 \<noteq> 0 then Some (s1\<lparr>addr_index := addr_index s1 + 1\<rparr>)
        else if unat (addr_index s1) \<ge> 4 then None else Some (s1\<lparr>words := (words s1)[unat (addr_index s1) := 0]\<rparr>)) = Some s2"
      using i by (auto simp: s2_def s1_def odd_test)
    have at3: "scan_at (Suc k) s3" using i ui by (auto simp: scan_at_def s3_def s2_def s1_def)
    have e3: "current_block_index s2 + 1 = current_block_index s3" by (simp add: s3_def)
    have over: "current_block_index s3 > 7 \<longleftrightarrow> Suc k > 7" using at3 by (simp add: scan_at_def word_less_nat_alt)
    have step: "skip_zero_blocks s = (if Suc k > 7 then Some (False, s3) else skip_zero_blocks s3)"
    proof -
      have f3: "s2\<lparr>current_block_index := current_block_index s3\<rparr> = s3" by (simp add: s3_def)
      show ?thesis unfolding skip_zero_blocks.simps [of s] Let_def s1_def [symmetric] i2 option.case e3 f3 over using True zz by simp
    qed
    show ?thesis
    proof (cases "Suc k > 7")
      case True
      then show ?thesis using step uz by (simp add: k_def)
    next
      case False
      have k: "\<not> current_block_index s2 + 1 > 7" using over False e3 by simp
      have ev: "words s3 = (if odd k then (words s)[k div 2 := words s ! (k div 2) OR 0] else (words s)[k div 2 := push_bit 16 0])"
        using i by (simp add: s3_def s2_def s1_def)
      have "stored (es @ [0]) (words s3)" unfolding ev k_def by (rule stored_append [OF st]) (use 1(3) in simp)
      moreover have "current_block_value s3 = 0" "zero_blocks s3 = z - 1" using at zz by (simp_all add: s3_def s2_def s1_def)
      ultimately have r: "reads ((es @ [0]) @ [0]) (z - 1) s3"
        using at3 False by (simp add: reads_def k_def butlast_append)
      have g: "zero_blocks s > 0" using True zz by simp
      have "\<exists>s'. skip_zero_blocks s3 = Some (length (es @ [0]) + unat (z - 1) \<le> 7, s') \<and>
          (length (es @ [0]) + unat (z - 1) \<le> 7 \<longrightarrow> reads ((es @ [0]) @ replicate (unat (z - 1)) 0 @ [0]) 0 s')"
        by (rule 1(1) [OF g s1_def i2, folded s3_def, OF k r]) (use False k_def in simp)
      then show ?thesis using step False uz by (cases "unat z") auto
    qed
  qed
qed

lemma read_double_colon:
  assumes "reads es z s" "length es < 8" "cur r \<noteq> 58"
  shows "\<exists>s'. scan_blocks False s (58 # 58 # r) = (if length es + unat z \<le> 7 then scan_blocks False s' r else Some (Rejected, s')) \<and>
    (length es + unat z \<le> 7 \<longrightarrow> reads (es @ replicate (unat z) 0 @ [0]) 0 s')"
proof -
  obtain s1 s3 where s: "store_block s = Some s1"
    "s3 = s1\<lparr>current_block_index := current_block_index s1 + 1\<rparr>\<lparr>current_block_value := 0\<rparr>"
    "\<not> current_block_index s3 > 7" "reads (es @ [0]) z s3" using colon_state [OF assms(1,2)] .
  obtain s' where "skip_zero_blocks s3 = Some (length es + unat z \<le> 7, s')"
    "length es + unat z \<le> 7 \<longrightarrow> reads (es @ replicate (unat z) 0 @ [0]) 0 s'"
    using skip_zero_blocks_reads [OF s(4)] assms(2) by auto
  then show ?thesis using scan_colon [OF s(1) refl s(2), of False "58 # r"] s(3) assms(3) by auto
qed

lemma read_too_many:
  assumes "\<forall>b \<in> set bs. b < 65536" "reads es z s" "length es + length bs > 8"
  shows "\<exists>s'. scan_blocks False s (more_blocks bs @ r) = Some (Rejected, s')"
  using assms
proof (induction bs arbitrary: es s)
  case Nil
  then show ?case by (simp add: reads_def)
next
  case (Cons b bs)
  show ?case
  proof (cases "length es < 8")
    case True
    obtain s1 where s1: "scan_blocks False s (58 # hex_text b @ more_blocks bs @ r) = scan_blocks False s1 (hex_text b @ more_blocks bs @ r)"
      "reads (es @ [0]) z s1" using read_colon [OF Cons(3) True hex_text_start] by blast
    obtain s2 where s2: "scan_blocks False s1 (hex_text b @ more_blocks bs @ r) = scan_blocks False s2 (more_blocks bs @ r)" "reads (es @ [b]) z s2"
      using read_block [OF _ s1(2)] Cons(2) by fastforce
    show ?thesis using Cons(1) [OF _ s2(2)] Cons(2,4) s1(1) s2(1) by auto
  next
    case False
    then have l: "length es = 8" using Cons(3) by (simp add: reads_def)
    obtain s1 where s1: "store_block s = Some s1" "current_block_index s1 = current_block_index s" using store_reads [OF Cons(3)] by metis
    have "unat (current_block_index s) = 7" using Cons(3) l by (simp add: reads_def scan_at_def)
    then have "current_block_index s1 + 1 > 7" using s1(2) unat_Suc_small [of "current_block_index s" 7] by (simp add: word_less_nat_alt)
    then show ?thesis using s1(1) by (simp add: Let_def)
  qed
qed

section \<open>Counting the colons\<close>

text \<open>A colon after the first letter, where the first loop has stopped; and a double colon.\<close>

definition colon_after_letter :: "u8 list \<Rightarrow> bool" where
  "colon_after_letter t \<longleftrightarrow> 58 \<in> set (dropWhile (\<lambda>c. c = 58 \<or> IsDigit c) t)"

fun double_colon :: "u8 list \<Rightarrow> bool" where
  "double_colon [] = False"
| "double_colon (c # cs) \<longleftrightarrow> (c = 58 \<and> cur cs = 58) \<or> double_colon cs"

lemma count_zero_blocks_colons:
  "46 \<notin> set t \<Longrightarrow> count_zero_blocks z t = Some (z - of_nat (count_list (takeWhile (\<lambda>c. c = 58 \<or> IsDigit c) t) 58), False)"
  by (induction t arbitrary: z) (auto simp: algebra_simps)

lemma colon_after_letter_count:
  "count_list (takeWhile (\<lambda>c. c = 58 \<or> IsDigit c) t) 58 \<le> count_list t 58"
  "count_list (takeWhile (\<lambda>c. c = 58 \<or> IsDigit c) t) 58 = count_list t 58 \<longleftrightarrow> \<not> colon_after_letter t"
proof -
  have "count_list t 58 = count_list (takeWhile (\<lambda>c. c = 58 \<or> IsDigit c) t) 58 + count_list (dropWhile (\<lambda>c. c = 58 \<or> IsDigit c) t) 58"
    by (simp only: count_list_append [symmetric] takeWhile_dropWhile_id)
  then show "count_list (takeWhile (\<lambda>c. c = 58 \<or> IsDigit c) t) 58 \<le> count_list t 58"
    "count_list (takeWhile (\<lambda>c. c = 58 \<or> IsDigit c) t) 58 = count_list t 58 \<longleftrightarrow> \<not> colon_after_letter t"
    by (auto simp: colon_after_letter_def count_list_0_iff)
qed

lemma hex_text_chars: "58 \<notin> set (hex_text b)" "46 \<notin> set (hex_text b)"
  using digit_char [OF hex_digits_small refl] by (fastforce simp: hex_text_def)+

lemma more_blocks_chars: "46 \<notin> set (more_blocks bs)" "count_list (more_blocks bs) 58 = length bs"
  by (induction bs) (auto simp: hex_text_chars count_notin)

lemma blocks_text_chars: "46 \<notin> set (blocks_text bs)" "count_list (blocks_text bs) 58 = length bs - 1"
  by (cases bs; simp add: hex_text_chars more_blocks_chars count_notin)+

lemma no_double_colon: "58 \<notin> set t \<Longrightarrow> \<not> double_colon t"
  by (induction t) auto

lemma double_colon_append:
  "double_colon (u @ v) \<longleftrightarrow> double_colon u \<or> double_colon v \<or> (u \<noteq> [] \<and> last u = 58 \<and> cur v = 58)"
proof (induction u)
  case (Cons c u)
  then show ?case by (cases u) auto
qed simp

lemma more_blocks_single: "\<not> double_colon (more_blocks bs)" "\<not> double_colon (hex_text b @ more_blocks bs)"
proof -
  have h: "\<not> double_colon (hex_text b @ v) \<longleftrightarrow> \<not> double_colon v" for b v
    using hex_text_chars(1) last_in_set [OF hex_text_length(2), of b] by (metis double_colon_append no_double_colon)
  show m: "\<not> double_colon (more_blocks bs)"
  proof (induction bs)
    case (Cons b bs)
    then show ?case using h hex_text_start by simp
  qed simp
  then show "\<not> double_colon (hex_text b @ more_blocks bs)" using h by simp
qed

section \<open>Printing and parsing back\<close>

lemma join_halves: "lwip_htonl (push_bit 16 (drop_bit 16 (lwip_htonl w) AND 0xFFFF) OR (lwip_htonl w AND 0xFFFF)) = w"
  by (rule word_eq_bitsI) (simp add: bit_positions lwip_htonl_def bit_simps)

lemma read_end:
  assumes "reads es z s" "length es = 8" "es = map (block_value ws) [0..<8]" "length ws = 5"
  obtains s' where "store_block s = Some s'" "current_block_index s' = 7" "map HostToNetworkLong (words s') = take 4 ws"
proof -
  obtain s' where s': "store_block s = Some s'" "stored es (words s')" "current_block_index s' = current_block_index s" using store_reads [OF assms(1)] by metis
  have "unat (current_block_index s) = 7" using assms(1,2) by (simp add: reads_def scan_at_def)
  then have "current_block_index s = 7" by (simp add: word_unat_eq_iff)
  moreover have "map HostToNetworkLong (words s') = take 4 ws"
  proof (rule nth_equalityI)
    show "length (map HostToNetworkLong (words s')) = length (take 4 ws)" using s'(2) assms(4) by (simp add: stored_def)
    fix i assume "i < length (map HostToNetworkLong (words s'))"
    then have i: "i < 4" using s'(2) by (simp add: stored_def)
    then have "words s' ! i = push_bit 16 (block_value ws (2 * i)) OR block_value ws (Suc (2 * i))"
      using s'(2) assms(2) unfolding stored_def by (simp add: assms(3))
    then show "map HostToNetworkLong (words s') ! i = take 4 ws ! i"
      using i s'(2) join_halves by (simp add: stored_def block_value_def)
  qed
  ultimately show thesis using that s'(1,3) by simp
qed

definition or_zero :: "u32 list \<Rightarrow> u32 list" where
  "or_zero bs = (if bs = [] then [0] else bs)"

lemma or_zero_fill:
  "or_zero pre @ replicate k 0 @ or_zero post = pre @ replicate (k + (if pre = [] then 1 else 0) + (if post = [] then 1 else 0)) 0 @ post"
  by (simp add: or_zero_def replicate_append_same)

lemma read_blocks_text:
  assumes "\<forall>b \<in> set bs. b < 65536" "reads (es @ [0]) z s" "length es + length (or_zero bs) \<le> 8"
  shows "\<exists>s'. scan_blocks False s (blocks_text bs @ r) = scan_blocks False s' r \<and> reads (es @ or_zero bs) z s'"
proof (cases bs)
  case (Cons b bs')
  obtain s1 where s1: "scan_blocks False s (hex_text b @ more_blocks bs' @ r) = scan_blocks False s1 (more_blocks bs' @ r)" "reads (es @ [b]) z s1"
    using read_block [OF _ assms(2)] assms(1) Cons by fastforce
  obtain s2 where "scan_blocks False s1 (more_blocks bs' @ r) = scan_blocks False s2 r" "reads ((es @ [b]) @ bs') z s2"
    using read_more [OF _ s1(2), of bs'] assms(1,3) Cons by (auto simp: or_zero_def)
  then show ?thesis using s1(1) Cons by (auto simp: or_zero_def)
qed (use assms in \<open>auto simp: or_zero_def\<close>)

lemma read_blocks_too_many:
  assumes "\<forall>b \<in> set bs. b < 65536" "reads (es @ [0]) z s" "length es + length (or_zero bs) > 8"
  shows "\<exists>s'. scan_blocks False s (blocks_text bs) = Some (Rejected, s')"
proof (cases bs)
  case Nil
  then show ?thesis using assms(2,3) by (simp add: reads_def or_zero_def)
next
  case (Cons b bs')
  obtain s1 where s1: "scan_blocks False s (hex_text b @ more_blocks bs') = scan_blocks False s1 (more_blocks bs')" "reads (es @ [b]) z s1"
    using read_block [OF _ assms(2)] assms(1) Cons by fastforce
  then show ?thesis using read_too_many [OF _ s1(2), of bs' "[]"] assms(1,3) Cons by (auto simp: or_zero_def)
qed

lemma cur_blocks_text: "cur (blocks_text bs) \<noteq> 58"
  using hex_text_start by (cases bs) auto

lemma last_blocks_text: "last (hex_text b @ more_blocks bs) \<noteq> 58"
proof (induction bs arbitrary: b)
  case Nil
  then show ?case using hex_text_chars(1) last_in_set [OF hex_text_length(2), of b] by auto
next
  case (Cons c bs)
  then show ?case using hex_text_length(2) [of c] by (auto simp: last_append split: if_splits)
qed

lemma blocks_text_single: "\<not> double_colon (blocks_text bs)" "bs \<noteq> [] \<Longrightarrow> \<not> double_colon (blocks_text bs @ [58])"
proof -
  show single: "\<not> double_colon (blocks_text bs)" using more_blocks_single(2) by (cases bs) auto
  assume "bs \<noteq> []"
  then have "last (blocks_text bs) \<noteq> 58" using last_blocks_text by (cases bs) auto
  then show "\<not> double_colon (blocks_text bs @ [58])" unfolding double_colon_append using single by simp
qed

lemma blocks_small: "b \<in> set (map (block_value ws) ks) \<Longrightarrow> b < 65536"
proof -
  have "x AND 0xFFFF < 65536" for x :: u32 by (rule order_le_less_trans [OF word_and_le1]) simp
  then show "b \<in> set (map (block_value ws) ks) \<Longrightarrow> b < 65536" by (auto simp: block_value_def Let_def)
qed

text \<open>
  C23: An IPv6 address is printed into a buffer of 40 bytes, terminator included, and the text is read back as the same address, unless
  it has both a double colon and a colon after a letter; such a text, which is a correct address, is refused.
\<close>
theorem NetworkToAscii6_roundtrip:
  assumes "length (addr a) = 4" "length (addr x) = 4" "40 \<le> n"
  shows "\<exists>t y. NetworkToAscii6 a beyond n = Some t \<and>
     AsciiToNetwork6 t x = Some (\<not> (double_colon t \<and> colon_after_letter t), y) \<and>
     (double_colon t \<and> colon_after_letter t \<or> y = x\<lparr>addr := addr a, zone := 0\<rparr>)"
proof -
  define ws where "ws = addr a @ [beyond]"
  define bs where "bs = map (block_value ws) [0..<8]"
  have w: "length ws = 5" "take 4 ws = addr a" using assms(1) by (simp_all add: ws_def)
  have bl: "length bs = 8" by (simp add: bs_def)
  have small: "\<forall>b \<in> set bs. b < 65536" using blocks_small by (auto simp only: bs_def)
  obtain t where t: "print_blocks n ws 0 0 [] = Some t" "length t < n"
    and forms: "t = blocks_text bs \<or> (t = blocks_text (take 7 bs) @ [58] \<and> bs ! 7 = 0) \<or>
     (\<exists>pre z post. bs = pre @ replicate z 0 @ post \<and> 2 \<le> z \<and> t = blocks_text pre @ [58, 58] @ blocks_text post)"
    using print_forms [OF assms(3) bs_def] by blast
  have p: "NetworkToAscii6 a beyond n = Some t" using t by (simp add: NetworkToAscii6_def ws_def)
  define z where "z = (8 :: u32) - of_nat (count_list (takeWhile (\<lambda>c. c = 58 \<or> IsDigit c) t) 58)"
  define s where "s = \<lparr>words = addr x, addr_index = 0, zero_blocks = z, current_block_index = 0, current_block_value = 0\<rparr>"
  have nodot: "46 \<notin> set t" using forms by (auto simp: blocks_text_chars)
  have count: "count_zero_blocks 8 t = Some (z, False)" using count_zero_blocks_colons [OF nodot] by (simp add: z_def)
  have r0: "reads ([] @ [0]) z s" using assms(2) by (simp add: reads_def s_def stored_def scan_at_def)
  have ended: "AsciiToNetwork6 t x = Some (True, x\<lparr>addr := addr a, zone := 0\<rparr>)"
    if e: "scan_blocks False s t = Some (Ended, s')" "reads bs z' s'" for s' z'
  proof -
    obtain s2 where "store_block s' = Some s2" "current_block_index s2 = 7" "map HostToNetworkLong (words s2) = take 4 ws"
      using read_end [OF e(2) bl bs_def w(1)] .
    then show ?thesis using e(1) w(2) by (simp add: AsciiToNetwork6_def count s_def [symmetric])
  qed
  have ob: "or_zero bs = bs" using bl by (auto simp: or_zero_def)
  from forms consider "t = blocks_text bs" | "t = blocks_text (take 7 bs) @ [58]" "bs ! 7 = 0"
    | pre m post where "bs = pre @ replicate m 0 @ post" "2 \<le> m" "t = blocks_text pre @ [58, 58] @ blocks_text post" by auto
  then show ?thesis
  proof cases
    case 1
    then obtain s1 where "scan_blocks False s t = scan_blocks False s1 []" "reads bs z s1"
      using read_blocks_text [OF small r0, of "[]"] bl ob by auto
    then show ?thesis using ended [of s1 z] p 1 blocks_text_single(1) by auto
  next
    case 2
    have ne: "take 7 bs \<noteq> []" using bl by auto
    have sm: "\<forall>b \<in> set (take 7 bs). b < 65536" by (meson small in_set_takeD)
    obtain s1 where s1: "scan_blocks False s t = scan_blocks False s1 [58]" "reads (take 7 bs) z s1"
      using read_blocks_text [OF sm r0, of "[58]"] bl ne unfolding 2(1) by (auto simp: or_zero_def simp del: scan_blocks.simps)
    obtain s2 where s2: "scan_blocks False s1 [58] = scan_blocks False s2 []" "reads (take 7 bs @ [0]) z s2"
      using read_colon [OF s1(2), of "[]"] bl by (auto simp del: scan_blocks.simps)
    have "take (Suc 7) bs = take 7 bs @ [bs ! 7]" by (rule take_Suc_conv_app_nth) (simp add: bl)
    then have "take 7 bs @ [0] = bs" using 2(2) bl by simp
    then show ?thesis using ended [of s2 z] p 2 s1 s2 blocks_text_single(2) [OF ne] by auto
  next
    case 3
    have dc: "double_colon t" using 3(3) by (simp add: double_colon_append)
    have sp: "\<forall>b \<in> set pre. b < 65536" "\<forall>b \<in> set post. b < 65536" using small 3(1) by auto
    define p' where "p' = length (or_zero pre)"
    define q' where "q' = length (or_zero post)"
    have pq: "length pre + m + length post = 8" using bl 3(1) by simp
    have pq': "p' + q' \<le> 8" "p' \<le> 7" "p' > 0" "q' > 0" using pq 3(2) by (auto simp: p'_def q'_def or_zero_def)
    have c: "count_list t 58 = p' + q'" using 3(3) by (cases pre; cases post) (auto simp: blocks_text_chars p'_def q'_def or_zero_def simp del: blocks_text.simps)
    define d where "d = count_list (takeWhile (\<lambda>c. c = 58 \<or> IsDigit c) t) 58"
    have d: "d \<le> p' + q'" "d = p' + q' \<longleftrightarrow> \<not> colon_after_letter t" using colon_after_letter_count [of t] c by (auto simp: d_def)
    have ud: "unat (of_nat d :: u32) = d" using d(1) pq'(1) by (simp add: unat_of_nat take_bit_nat_eq_self)
    have zd: "z = 8 - of_nat d" unfolding z_def d_def by (rule refl)
    have uz: "unat z = 8 - d" using d(1) pq'(1) ud by (simp add: zd unat_sub word_le_nat_alt)
    obtain s1 where s1: "scan_blocks False s t = scan_blocks False s1 (58 # 58 # blocks_text post)" "reads (or_zero pre) z s1"
      using read_blocks_text [OF sp(1) r0, of "58 # 58 # blocks_text post"] pq'(2) 3(3) by (auto simp: p'_def simp del: scan_blocks.simps)
    obtain s2 where s2: "scan_blocks False s1 (58 # 58 # blocks_text post) = (if p' + unat z \<le> 7 then scan_blocks False s2 (blocks_text post) else Some (Rejected, s2))"
      "p' + unat z \<le> 7 \<longrightarrow> reads (or_zero pre @ replicate (unat z) 0 @ [0]) 0 s2"
      using read_double_colon [OF s1(2) _ cur_blocks_text] pq'(2) unfolding p'_def by fastforce
    show ?thesis
    proof (cases "colon_after_letter t")
      case False
      then have le: "p' + unat z \<le> 7" and z: "unat z = 8 - (p' + q')" using d uz pq' by auto
      obtain s3 where s3: "scan_blocks False s2 (blocks_text post) = scan_blocks False s3 []" "reads ((or_zero pre @ replicate (unat z) 0) @ or_zero post) 0 s3"
        using read_blocks_text [OF sp(2), of "or_zero pre @ replicate (unat z) 0" 0 s2 "[]"] s2(2) le z pq'(1) by (auto simp: p'_def q'_def)
      have "(or_zero pre @ replicate (unat z) 0) @ or_zero post = bs"
      proof -
        have "m = 8 - (p' + q') + (if pre = [] then 1 else 0) + (if post = [] then 1 else 0)"
          using pq 3(2) by (auto simp: p'_def q'_def or_zero_def)
        then show ?thesis unfolding 3(1) append_assoc or_zero_fill z by simp
      qed
      then show ?thesis using ended [of s3 0] p s1(1) s2(1) s3 le False by auto
    next
      case True
      then have "d < p' + q'" using d by auto
      then have big: "p' + unat z + q' > 8" using uz d pq'(1) by simp
      have "\<exists>s3. scan_blocks False s1 (58 # 58 # blocks_text post) = Some (Rejected, s3)"
      proof (cases "p' + unat z \<le> 7")
        case le: True
        then show ?thesis
          using read_blocks_too_many [OF sp(2), of "or_zero pre @ replicate (unat z) 0" 0 s2] s2 big by (auto simp: p'_def q'_def)
      qed (use s2(1) in auto)
      then show ?thesis using p True dc s1(1) by (auto simp: AsciiToNetwork6_def count s_def [symmetric])
    qed
  qed
qed

lemma NetworkToAscii6_roundtrip_witness:
  "AsciiToNetwork6 [58, 58, 49] \<lparr>addr = [0, 0, 0, 0], zone = 0\<rparr> = Some (True, \<lparr>addr = [0, 0, 0, 0x01000000], zone = 0\<rparr>)"
proof -
  have "NetworkToAscii6 \<lparr>addr = [0, 0, 0, 0x01000000], zone = 0\<rparr> 0 40 = Some [58, 58, 49]" by code_simp
  then show ?thesis
    using NetworkToAscii6_roundtrip [of "\<lparr>addr = [0, 0, 0, 0x01000000], zone = 0\<rparr>" "\<lparr>addr = [0, 0, 0, 0], zone = 0\<rparr>" 40 0]
    by (auto simp: colon_after_letter_def lwip_isdigit_def)
qed

text \<open>\<open>FE80::1\<close>, which the printer writes, is refused; so is \<open>::ffff:1.2.3.4\<close>, because of its letters.\<close>

lemma AsciiToNetwork6_refuses:
  "NetworkToAscii6 \<lparr>addr = [0x000080FE, 0, 0, 0x01000000], zone = 0\<rparr> 0 40 = Some [70, 69, 56, 48, 58, 58, 49]"
  "map_option fst (AsciiToNetwork6 [70, 69, 56, 48, 58, 58, 49] \<lparr>addr = [0, 0, 0, 0], zone = 0\<rparr>) = Some False"
  "map_option fst (AsciiToNetwork6 [58, 58, 102, 102, 102, 102, 58, 49, 46, 50, 46, 51, 46, 52] \<lparr>addr = [0, 0, 0, 0], zone = 0\<rparr>) = Some False"
  by code_simp+

text \<open>A block of five digits runs into the block before it: \<open>2:10000\<close> is read as \<open>3:0\<close>.\<close>

lemma AsciiToNetwork6_long_block:
  "AsciiToNetwork6 [50, 58, 49, 48, 48, 48, 48, 58, 48, 58, 48, 58, 48, 58, 48, 58, 48, 58, 48] \<lparr>addr = [0, 0, 0, 0], zone = 0\<rparr> =
   Some (True, \<lparr>addr = [0x00000300, 0, 0, 0], zone = 0\<rparr>)"
  by code_simp

end
