(* ===== verification/Emw_Os.thy ===== *)
theory Emw_Os
  imports Bounded_Fifo
begin

text \<open>
  The operating system services of the driver when it runs without one
  (\<^verbatim>\<open>drivers/emw/EmwOsNoOSImplementation.cpp\<close>): counting semaphores and message queues polled in
  loops that give up after a time in milliseconds, and mutexes built on semaphores. Time is the
  32-bit tick of the HAL; a tick read returns the next value of a list, and what interrupts and
  the waiter hook do during an iteration of a waiting loop is a function on the state.
\<close>

datatype status = eOK | eERROR

section \<open>Semaphores\<close>

text \<open>\<open>hook\<close>: whether a waiter runner is registered.\<close>

record semaphore =
  sem_count :: u32
  sem_hook :: bool

definition CreateSemaphore :: "u32 \<Rightarrow> u32 \<Rightarrow> semaphore" where
  "CreateSemaphore maxCount initialCount = \<lparr>sem_count = initialCount, sem_hook = False\<rparr>"

definition AddSemaphoreHook :: "semaphore \<Rightarrow> semaphore" where
  "AddSemaphoreHook s = s\<lparr>sem_hook := True\<rparr>"

definition ReleaseSemaphore :: "semaphore \<Rightarrow> semaphore \<times> status" where
  "ReleaseSemaphore s = (s\<lparr>sem_count := sem_count s + 1\<rparr>, eOK)"

definition DeleteSemaphore :: "semaphore \<Rightarrow> semaphore" where
  "DeleteSemaphore s = s\<lparr>sem_count := 0, sem_hook := False\<rparr>"

text \<open>
  The waiting loop of \<^verbatim>\<open>TakeSemaphore\<close>. An iteration gives the tick read in it and the effect of
  the interrupts and of the waiter (which is handed the remaining time) on the state; \<open>None\<close>: still
  waiting when the iterations considered are over.
\<close>

type_synonym 'w iteration = "u32 \<times> ('w \<Rightarrow> u32 \<Rightarrow> 'w)"

fun take_loop ::
  "('w \<Rightarrow> semaphore) \<Rightarrow> ((semaphore \<Rightarrow> semaphore) \<Rightarrow> 'w \<Rightarrow> 'w) \<Rightarrow> u32 \<Rightarrow> u32 \<Rightarrow> 'w \<Rightarrow>
   'w iteration list \<Rightarrow> ('w \<times> status) option" where
  "take_loop sem upd start_ms timeoutInMs w its =
    (if sem_count (sem w) < 1 then
       (case its of
          [] \<Rightarrow> None
        | (now, effect) # its \<Rightarrow>
            (let elapsed_in_ms = now - start_ms in
             if elapsed_in_ms > timeoutInMs then Some (w, eERROR)
             else take_loop sem upd start_ms timeoutInMs (effect w (timeoutInMs - elapsed_in_ms)) its))
     else Some (upd (\<lambda>s. s\<lparr>sem_count := sem_count s - 1\<rparr>) w, eOK))"

declare take_loop.simps [simp del]

definition TakeSemaphore ::
  "bool \<Rightarrow> ('w \<Rightarrow> semaphore) \<Rightarrow> ((semaphore \<Rightarrow> semaphore) \<Rightarrow> 'w \<Rightarrow> 'w) \<Rightarrow> u32 \<Rightarrow> u32 \<Rightarrow> 'w \<Rightarrow>
   'w iteration list \<Rightarrow> ('w \<times> status) option" where
  "TakeSemaphore is_irq sem upd start_ms timeoutInMs w its =
    (if \<not> is_irq then take_loop sem upd start_ms timeoutInMs w its else Some (w, eERROR))"

text \<open>Mutexes are semaphores of one unit.\<close>

definition CreateMutex :: semaphore where
  "CreateMutex = CreateSemaphore 1 1"

section \<open>Message queues\<close>

record 'm msg_queue =
  elementCountMax :: u32
  elementCountIn :: u32
  fifo :: "'m list"
  readIndex :: u32
  writeIndex :: u32

definition CreateMessageQueue :: "'m \<Rightarrow> u32 \<Rightarrow> 'm msg_queue option" where
  "CreateMessageQueue junk messageCount =
    (if messageCount > 0 \<and> messageCount < 16
     then Some \<lparr>elementCountMax = messageCount, elementCountIn = 0,
                fifo = replicate (unat messageCount) junk, readIndex = 0, writeIndex = 0\<rparr>
     else None)"

text \<open>What \<^verbatim>\<open>PutMessageQueue\<close> and \<^verbatim>\<open>GetMessageQueue\<close> do once they have stopped waiting.\<close>

definition put_now :: "'m msg_queue \<Rightarrow> 'm \<Rightarrow> 'm msg_queue option" where
  "put_now q m =
    (if elementCountIn q = elementCountMax q then None
     else Some (q\<lparr>fifo := (fifo q)[unat (writeIndex q) := m],
                  elementCountIn := elementCountIn q + 1,
                  writeIndex := (writeIndex q + 1) mod elementCountMax q\<rparr>))"

definition get_now :: "'m msg_queue \<Rightarrow> ('m \<times> 'm msg_queue) option" where
  "get_now q =
    (if elementCountIn q = 0 then None
     else Some (fifo q ! unat (readIndex q),
                q\<lparr>elementCountIn := elementCountIn q - 1,
                  readIndex := (readIndex q + 1) mod elementCountMax q\<rparr>))"

text \<open>A null message is refused; the put loop has no hook.\<close>

fun PutMessageQueue ::
  "('w \<Rightarrow> 'm msg_queue) \<Rightarrow> ('m msg_queue \<Rightarrow> 'w \<Rightarrow> 'w) \<Rightarrow> u32 \<Rightarrow> u32 \<Rightarrow> 'm option \<Rightarrow> 'w \<Rightarrow>
   'w iteration list \<Rightarrow> ('w \<times> status) option" where
  "PutMessageQueue q set_q start_in_ms timeoutInMs None w its = Some (w, eERROR)"
| "PutMessageQueue q set_q start_in_ms timeoutInMs (Some m) w its =
    (case put_now (q w) m of
       Some q' \<Rightarrow> Some (set_q q' w, eOK)
     | None \<Rightarrow>
         (case its of
            [] \<Rightarrow> None
          | (now, effect) # its \<Rightarrow>
              (let elapsed_in_ms = now - start_in_ms in
               if elapsed_in_ms > timeoutInMs then Some (w, eERROR)
               else PutMessageQueue q set_q start_in_ms timeoutInMs (Some m)
                      (effect w (timeoutInMs - elapsed_in_ms)) its)))"

declare PutMessageQueue.simps(2) [simp del]

text \<open>
  The get loop reads the tick twice: for the test, and again for the time the hook is handed; the
  second read only matters to the hook.
\<close>

fun GetMessageQueue ::
  "('w \<Rightarrow> 'm msg_queue) \<Rightarrow> ('m msg_queue \<Rightarrow> 'w \<Rightarrow> 'w) \<Rightarrow> u32 \<Rightarrow> u32 \<Rightarrow> 'w \<Rightarrow>
   (u32 \<times> u32 \<times> ('w \<Rightarrow> u32 \<Rightarrow> 'w)) list \<Rightarrow> ('w \<times> 'm option) option" where
  "GetMessageQueue q set_q start_ms timeoutInMs w its =
    (case get_now (q w) of
       Some (m, q') \<Rightarrow> Some (set_q q' w, Some m)
     | None \<Rightarrow>
         (case its of
            [] \<Rightarrow> None
          | (now, now2, effect) # its \<Rightarrow>
              (if now - start_ms > timeoutInMs then Some (w, None)
               else GetMessageQueue q set_q start_ms timeoutInMs
                      (effect w (timeoutInMs - (now2 - start_ms))) its)))"

declare GetMessageQueue.simps [simp del]

section \<open>The ring refines a bounded queue\<close>

definition ring_ok :: "'m msg_queue \<Rightarrow> bool" where
  "ring_ok q \<longleftrightarrow> 0 < unat (elementCountMax q) \<and> unat (elementCountMax q) < 16 \<and>
     length (fifo q) = unat (elementCountMax q) \<and>
     unat (elementCountIn q) \<le> unat (elementCountMax q) \<and>
     unat (readIndex q) < unat (elementCountMax q) \<and>
     unat (writeIndex q) = (unat (readIndex q) + unat (elementCountIn q)) mod unat (elementCountMax q)"

definition ring_contents :: "'m msg_queue \<Rightarrow> 'm list" where
  "ring_contents q =
     map (\<lambda>k. fifo q ! ((unat (readIndex q) + k) mod unat (elementCountMax q))) [0..<unat (elementCountIn q)]"

lemma unat_next_index:
  assumes "unat i < unat n" and "unat n < 16"
  shows "unat ((i + 1 :: u32) mod n) = (unat i + 1) mod unat n"
  using assms by (simp add: unat_mod unat_add_small)

lemma put_now_ok:
  assumes ok: "ring_ok q" and room: "length (ring_contents q) < unat (elementCountMax q)"
  shows "\<exists>q'. put_now q m = Some q' \<and> ring_ok q' \<and> ring_contents q' = ring_contents q @ [m] \<and>
           unat (elementCountMax q') = unat (elementCountMax q)"
proof -
  let ?n = "unat (elementCountMax q)" and ?c = "unat (elementCountIn q)" and ?r = "unat (readIndex q)"
    and ?w = "unat (writeIndex q)"
  have b: "0 < ?n" "?n < 16" "length (fifo q) = ?n" "?r < ?n" "?w = (?r + ?c) mod ?n" "?c < ?n"
    using ok room by (simp_all add: ring_ok_def ring_contents_def)
  define q' where "q' = q\<lparr>fifo := (fifo q)[?w := m], elementCountIn := elementCountIn q + 1,
      writeIndex := (writeIndex q + 1) mod elementCountMax q\<rparr>"
  have w: "?w < ?n" using b by simp
  have c': "unat (elementCountIn q + 1) = ?c + 1" using b by (simp add: unat_add_small)
  have w': "unat (writeIndex q') = (?w + 1) mod ?n"
    using unat_next_index [OF w b(2)] by (simp add: q'_def)
  have "put_now q m = Some q'"
    using b by (auto simp: put_now_def q'_def)
  moreover have "ring_ok q'"
    using b w' c' by (simp add: ring_ok_def q'_def mod_Suc_eq)
  moreover have "ring_contents q' = ring_contents q @ [m]"
  proof -
    have "?w \<noteq> (?r + k) mod ?n" if "k < ?c" for k
    proof
      assume "?w = (?r + k) mod ?n"
      then have e: "(?r + k) mod ?n = (?r + ?c) mod ?n" using b by simp
      have "?r + k < 2 * ?n" "?r + ?c < 2 * ?n" using that b by auto
      then show False using e that b by (auto simp: mod_if split: if_splits)
    qed
    then have "ring_contents q' = map (\<lambda>k. fifo q ! ((?r + k) mod ?n)) [0..<?c] @
        [(fifo q)[?w := m] ! ((?r + ?c) mod ?n)]"
      using c' by (simp add: ring_contents_def q'_def)
    then show ?thesis using b w by (simp add: ring_contents_def)
  qed
  ultimately show ?thesis by (auto simp: q'_def)
qed

lemma get_now_ok:
  assumes ok: "ring_ok q" and c: "ring_contents q = m # ms"
  shows "\<exists>q'. get_now q = Some (m, q') \<and> ring_ok q' \<and> ring_contents q' = ms \<and>
           unat (elementCountMax q') = unat (elementCountMax q)"
proof -
  let ?n = "unat (elementCountMax q)" and ?c = "unat (elementCountIn q)" and ?r = "unat (readIndex q)"
  have b: "0 < ?n" "?n < 16" "length (fifo q) = ?n" "?r < ?n" "unat (writeIndex q) = (?r + ?c) mod ?n" "?c \<le> ?n"
    using ok by (simp_all add: ring_ok_def)
  have pos: "0 < ?c" using c by (cases "?c = 0") (simp_all add: ring_contents_def)
  then have ne: "elementCountIn q \<noteq> 0" by auto
  define q' where "q' = q\<lparr>elementCountIn := elementCountIn q - 1,
      readIndex := (readIndex q + 1) mod elementCountMax q\<rparr>"
  have c': "unat (elementCountIn q - 1) = ?c - 1"
    using pos by (subst unat_sub_small) (simp_all add: word_le_nat_alt)
  have r': "unat (readIndex q') = (?r + 1) mod ?n"
    using unat_next_index [OF b(4,2)] by (simp add: q'_def)
  have up: "[0..<?c] = 0 # map Suc [0..<?c - 1]"
    using pos by (simp add: upt_conv_Cons map_Suc_upt)
  have m: "m = fifo q ! ?r" and ms: "ms = map (\<lambda>k. fifo q ! ((?r + Suc k) mod ?n)) [0..<?c - 1]"
    using c b up by (auto simp: ring_contents_def comp_def)
  have "get_now q = Some (m, q')" using ne m by (simp add: get_now_def q'_def)
  moreover have "ring_ok q'"
  proof -
    have "((?r + 1) mod ?n + (?c - 1)) mod ?n = (?r + 1 + (?c - 1)) mod ?n" by (rule mod_add_left_eq)
    then have "((?r + 1) mod ?n + (?c - 1)) mod ?n = (?r + ?c) mod ?n" using pos by simp
    then show ?thesis using b r' c' pos by (simp add: ring_ok_def q'_def)
  qed
  moreover have "ring_contents q' = ms"
    using r' c' ms by (simp add: ring_contents_def q'_def mod_simps)
  ultimately show ?thesis by (auto simp: q'_def)
qed

interpretation nos_queue: bounded_fifo put_now get_now ring_ok ring_contents "\<lambda>q. unat (elementCountMax q)"
proof unfold_locales
  fix q :: "'m msg_queue" and m
  assume ok: "ring_ok q"
  show "\<exists>q'. put_now q m = Some q' \<and> ring_ok q' \<and> ring_contents q' = ring_contents q @ [m] \<and>
      unat (elementCountMax q') = unat (elementCountMax q)"
    if "length (ring_contents q) < unat (elementCountMax q)"
    using put_now_ok [OF ok that] .
  show "put_now q m = None" if "\<not> length (ring_contents q) < unat (elementCountMax q)"
    using that ok by (simp add: put_now_def ring_contents_def ring_ok_def word_unat_eq_iff)
  show "get_now q = None" if "ring_contents q = []"
    using that by (simp add: get_now_def ring_contents_def unat_eq_zero)
  show "\<exists>q'. get_now q = Some (m, q') \<and> ring_ok q' \<and> ring_contents q' = ms \<and>
      unat (elementCountMax q') = unat (elementCountMax q)" if "ring_contents q = m # ms" for ms
    using get_now_ok [OF ok that] .
qed

section \<open>Properties\<close>

lemma CreateMessageQueue_ok:
  "CreateMessageQueue junk n = Some q \<Longrightarrow>
     ring_ok q \<and> ring_contents q = [] \<and> elementCountMax q = n"
  by (auto simp: CreateMessageQueue_def ring_ok_def ring_contents_def word_less_nat_alt split: if_splits)

text \<open>
  C39: a message queue of \<open>n\<close> places created by the driver behaves, under every sequence of puts and
  gets that do not wait, as a first-in first-out queue bounded by \<open>n\<close>.
\<close>

theorem message_queue_is_fifo:
  assumes "CreateMessageQueue junk n = Some q"
  shows "snd (nos_queue.run_ops q ops) = snd (fifo_spec_run (unat n) [] ops)"
  using CreateMessageQueue_ok [OF assms] nos_queue.run_ops_refines [of q ops]
  by (metis snd_conv)

theorem message_queue_is_fifo_witness:
  "\<exists>q. CreateMessageQueue 0 2 = Some q \<and>
     snd (nos_queue.run_ops q [OpPut 5, OpPut 6, OpPut 7, OpGet, OpPut 8, OpGet, OpGet, OpGet]) =
       [Done, Done, Full, Got (5::nat), Done, Got 6, Got 8, Empty]"
proof -
  obtain q :: "nat msg_queue" where q: "CreateMessageQueue 0 2 = Some q"
    by (simp add: CreateMessageQueue_def word_less_nat_alt)
  then show ?thesis
    using message_queue_is_fifo [OF q, of "[OpPut 5, OpPut 6, OpPut 7, OpGet, OpPut 8, OpGet, OpGet, OpGet]"]
    by simp
qed

text \<open>
  \<^verbatim>\<open>TakeSemaphore\<close> with a finite timeout returns: once the ticks read reach past the timeout it
  gives an error if no unit was released, and it takes a unit as soon as a loop test sees one.
\<close>

theorem TakeSemaphore_returns:
  assumes "\<exists>(now, effect) \<in> set its. now - start_ms > timeoutInMs"
  shows "\<exists>w' st. TakeSemaphore is_irq sem upd start_ms timeoutInMs w its = Some (w', st) \<and>
    (st = eOK \<longrightarrow> (\<exists>w''. sem_count (sem w'') \<noteq> 0 \<and> w' = upd (\<lambda>s. s\<lparr>sem_count := sem_count s - 1\<rparr>) w'')) \<and>
    (st = eERROR \<longrightarrow> is_irq \<or> sem_count (sem w') = 0)"
proof (cases is_irq)
  case True
  then show ?thesis by (simp add: TakeSemaphore_def)
next
  case False
  have "\<exists>w' st. take_loop sem upd start_ms timeoutInMs w its = Some (w', st) \<and>
    (st = eOK \<longrightarrow> (\<exists>w''. sem_count (sem w'') \<noteq> 0 \<and> w' = upd (\<lambda>s. s\<lparr>sem_count := sem_count s - 1\<rparr>) w'')) \<and>
    (st = eERROR \<longrightarrow> is_irq \<or> sem_count (sem w') = 0)"
    using assms
  proof (induction its arbitrary: w)
    case (Cons it its)
    obtain now effect where it: "it = (now, effect)" by fastforce
    show ?case
    proof (cases "sem_count (sem w) < 1 \<and> \<not> now - start_ms > timeoutInMs")
      case True
      then show ?thesis using Cons it by (subst take_loop.simps) (auto simp: Let_def)
    next
      case False
      then show ?thesis using it by (subst take_loop.simps) (auto simp: Let_def not_less word_less_1 intro!: exI [of _ w])
    qed
  qed simp
  with False show ?thesis by (simp add: TakeSemaphore_def)
qed

theorem TakeSemaphore_returns_witness:
  "\<exists>w' st. TakeSemaphore False id (\<lambda>f. f) 0xFFFFFFF0 20 (CreateSemaphore 1 0)
     [(0xFFFFFFF8, \<lambda>w t. w), (5, \<lambda>w t. w)] = Some (w', st)"
  using TakeSemaphore_returns [of "[(0xFFFFFFF8, \<lambda>w t. w), (5, \<lambda>w t. w)]" 20 "0xFFFFFFF0" False id "\<lambda>f. f"
      "CreateSemaphore 1 0"] by auto

end
