(* ===== verification/Emw_Spi.thy ===== *)
theory Emw_Spi
  imports Emw_Os
begin

text \<open>
  The SPI link to the Wi-Fi module (\<^verbatim>\<open>drivers/emw/EmwIoSpi.cpp\<close>): one pass of the transfer routine
  \<^verbatim>\<open>processPollingDataImp\<close>, the header exchange, the transfers by DMA and the sender's side. What the
  hardware and the module answer during a pass is a record of inputs; what the pass does to the
  hardware is the list of its actions. A pointer to the data to transmit is the list of the bytes it
  points to. A transfer is started and then waited for on \<^verbatim>\<open>TransferDoneSem\<close>; the driver ignores whether
  that wait timed out, so a transfer may still run when the pass goes on.
\<close>

section \<open>State, inputs and actions\<close>

definition SPI_MAX_BYTE_COUNT :: u16 where "SPI_MAX_BYTE_COUNT = 2500"
definition SPI_WRITE :: u8 where "SPI_WRITE = 0x0A"
definition SPI_READ :: u8 where "SPI_READ = 0x0B"

text \<open>
  \<open>rx_buffer\<close> is the receive buffer kept between passes (\<^verbatim>\<open>network_buffer_ptr\<close>), by its payload size;
  \<open>txrx_sem\<close> is the count of \<^verbatim>\<open>TxRxSem\<close>, of at most two units with the real-time system; \<open>dma_busy\<close>
  says that the HAL's handle is not ready, a transfer being under way; \<open>transfer_done\<close> is the count of
  \<^verbatim>\<open>TransferDoneSem\<close>, of at most one unit.
\<close>

record spi =
  TxDataAddress :: "u8 list option"
  TxDataLength :: u16
  txrx_sem :: nat
  rx_buffer :: "u16 option"
  dma_busy :: bool
  transfer_done :: nat

text \<open>
  The inputs of one transfer: a transfer under way completes before this one is started; the HAL
  reports no error of its own; and the moment at which the transfer under way completes: before the
  wait begins, during the wait, or not before the wait has timed out.
\<close>

datatype completion = AtOnce | InTime | Late

record transfer =
  x_earlier :: bool
  x_starts :: bool
  x_done :: completion

text \<open>
  \<open>in_header\<close> and \<open>in_data\<close> are the contents of the two receive buffers when the wait for their
  transfer is over, complete or not; \<open>in_last\<close> says that a transfer still under way completes before
  the chip select is raised at the end of the pass.
\<close>

record spi_inputs =
  in_alloc :: u16
  in_sem :: bool
  in_notify :: bool
  in_quit :: bool
  in_flow0 :: bool
  in_header_transfer :: transfer
  in_header :: "u8 list"
  in_flow1 :: bool
  in_data_transfer :: transfer
  in_data :: "u8 list"
  in_last :: bool

datatype action =
    CsHigh
  | CsLow
  | TransmitReceive "u8 list" nat nat
  | Transmit "u8 list" nat
  | Receive nat nat
  | Completed
  | Input "u8 list"
  | FreeBuffer

text \<open>
  The transfers name the bytes at the transmit address, the capacity of the receive buffer and the
  number of bytes the DMA is told to move.
\<close>

section \<open>Transfers\<close>

text \<open>The interrupt at the end of a transfer, and the wait for it.\<close>

definition SpiTransferCallback :: "spi \<Rightarrow> spi \<times> action list" where
  "SpiTransferCallback s =
    (if dma_busy s then (s\<lparr>dma_busy := False, transfer_done := 1\<rparr>, [Completed]) else (s, []))"

definition take_transfer_done :: "bool \<Rightarrow> spi \<Rightarrow> spi \<times> action list" where
  "take_transfer_done in_time s =
    (if 0 < transfer_done s then (s\<lparr>transfer_done := transfer_done s - 1\<rparr>, [])
     else if in_time \<and> dma_busy s
     then (case SpiTransferCallback s of (s, acts) \<Rightarrow> (s\<lparr>transfer_done := transfer_done s - 1\<rparr>, acts))
     else (s, []))"

text \<open>
  The HAL starts a transfer when its handle is ready and its arguments are not null; whether it
  started is the status the routine returns, not whether the transfer completed.
\<close>

definition dma_transfer :: "transfer \<Rightarrow> bool \<Rightarrow> action \<Rightarrow> spi \<Rightarrow> bool \<times> spi \<times> action list" where
  "dma_transfer x arguments_ok a s =
    (let (s, acts0) = (if x_earlier x then SpiTransferCallback s else (s, []));
         started = (\<not> dma_busy s \<and> arguments_ok \<and> x_starts x);
         (s, acts1) = (if started then (s\<lparr>dma_busy := True\<rparr>, [a]) else (s, []));
         (s, acts2) = (if x_done x = AtOnce then SpiTransferCallback s else (s, []));
         (s, acts3) = take_transfer_done (x_done x = InTime) s
     in (started, s, acts0 @ acts1 @ acts2 @ acts3))"

section \<open>Headers\<close>

definition spi_header :: "u8 \<Rightarrow> u16 \<Rightarrow> u8 list" where
  "spi_header type len =
    (let lenx = NOT len in
     [type, ucast len, ucast (drop_bit 8 len), ucast lenx, ucast (drop_bit 8 lenx), 0, 0, 0])"

definition le16 :: "u8 list \<Rightarrow> nat \<Rightarrow> u16" where
  "le16 bs i = ucast (bs ! i) OR push_bit 8 (ucast (bs ! Suc i))"

definition header_len :: "u8 list \<Rightarrow> u16" where "header_len h = le16 h 1"
definition header_lenx :: "u8 list \<Rightarrow> u16" where "header_lenx h = le16 h 3"

text \<open>The length the module announces, or \<open>None\<close> for a failed exchange.\<close>

definition exchangeHeaders :: "transfer \<Rightarrow> u16 \<Rightarrow> u8 list \<Rightarrow> spi \<Rightarrow> u16 option \<times> spi \<times> action list" where
  "exchangeHeaders x txLength slave s =
    (let (hal_ok, s, acts) = dma_transfer x True (TransmitReceive (spi_header SPI_WRITE txLength) 8 8) s
     in (if \<not> hal_ok then None
         else if SPI_READ \<noteq> slave ! 0 then None
         else if 0xFFFF \<noteq> (header_len slave XOR header_lenx slave) then None
         else if 0 = header_len (spi_header SPI_WRITE txLength) \<and> 0 = header_len slave then None
         else Some (header_len slave), s, acts))"

section \<open>One pass\<close>

text \<open>
  The data phase, once the headers are exchanged: the transfer asked of the HAL, whose receive pointer
  is null when the module announced nothing, and the phase itself.
\<close>

definition data_action :: "spi \<Rightarrow> u16 \<Rightarrow> u16 \<Rightarrow> action" where
  "data_action s cap rx_length =
    (let data_length = (if TxDataLength s > rx_length then TxDataLength s else rx_length) in
     case TxDataAddress s of
       Some tx \<Rightarrow> if 0 < rx_length then TransmitReceive tx (unat cap) (unat data_length)
                  else Transmit tx (unat data_length)
     | None \<Rightarrow> Receive (unat cap) (unat data_length))"

definition data_phase :: "spi \<Rightarrow> u16 \<Rightarrow> u16 \<Rightarrow> spi_inputs \<Rightarrow> spi \<times> action list" where
  "data_phase s cap rx_length i =
    (if cap < rx_length then (s, [])
     else
       (let data_length = (if TxDataLength s > rx_length then TxDataLength s else rx_length) in
        if \<not> in_flow1 i then (s, [])
        else
          (let (hal_ok, s, acts) =
             (case TxDataAddress s of
                Some tx \<Rightarrow>
                  (case dma_transfer (in_data_transfer i) (0 < data_length) (data_action s cap rx_length) s of
                     (hal_ok, s, acts) \<Rightarrow> (hal_ok, s\<lparr>TxDataAddress := None, TxDataLength := 0\<rparr>, acts))
              | None \<Rightarrow>
                  dma_transfer (in_data_transfer i) (0 < rx_length \<and> 0 < data_length)
                    (data_action s cap rx_length) s)
           in if \<not> hal_ok then (s, acts)
              else if 0 < rx_length
              then (s\<lparr>rx_buffer := None\<rparr>, acts @ [Input (take (unat rx_length) (in_data i))])
              else (s, acts))))"

text \<open>
  A pass: \<open>poll_locked\<close> is its part under \<^verbatim>\<open>TxLock\<close>, up to the second write of the chip select. \<open>rtos\<close>:
  compiled for the real-time system, where a quitting thread frees the buffer.
\<close>

definition poll_locked :: "bool \<Rightarrow> u16 \<Rightarrow> spi \<Rightarrow> spi_inputs \<Rightarrow> spi \<times> action list" where
  "poll_locked rtos cap s i =
    (if TxDataAddress s = None \<and> \<not> in_notify i then
       (if rtos \<and> in_quit i then (s\<lparr>rx_buffer := None\<rparr>, [FreeBuffer]) else (s, []))
     else if \<not> in_flow0 i then (s, [CsLow])
     else
       (let (rx, s, acts1) = exchangeHeaders (in_header_transfer i) (TxDataLength s) (in_header i) s in
        case rx of
          None \<Rightarrow> (s, CsLow # acts1)
        | Some rx_length \<Rightarrow>
            (let (s, acts2) = data_phase s cap rx_length i in (s, CsLow # acts1 @ acts2))))"

definition processPollingDataImp :: "bool \<Rightarrow> spi \<Rightarrow> spi_inputs \<Rightarrow> spi \<times> action list" where
  "processPollingDataImp rtos s i =
    (let cap = (case rx_buffer s of Some c \<Rightarrow> c | None \<Rightarrow> in_alloc i);
         s = s\<lparr>rx_buffer := Some cap\<rparr>
     in if in_sem i \<and> 0 < txrx_sem s then
          (let s = s\<lparr>txrx_sem := txrx_sem s - 1\<rparr>;
               (s, acts) = poll_locked rtos cap s i;
               (s, acts_last) = (if in_last i then SpiTransferCallback s else (s, []))
           in (s, CsHigh # acts @ acts_last @ [CsHigh]))
        else (s, [CsHigh]))"

section \<open>The other operations\<close>

text \<open>A send returns the number of bytes taken; the semaphore keeps at most two units.\<close>

definition sendImp :: "spi \<Rightarrow> u8 list \<Rightarrow> u16 \<Rightarrow> spi \<times> u16" where
  "sendImp s data dataLength =
    (if SPI_MAX_BYTE_COUNT < dataLength then (s, 0)
     else (s\<lparr>TxDataAddress := Some data, TxDataLength := dataLength,
             txrx_sem := min 2 (txrx_sem s + 1)\<rparr>, dataLength))"

definition NotifyInterruptCallback :: "spi \<Rightarrow> spi" where
  "NotifyInterruptCallback s = s\<lparr>txrx_sem := min 2 (txrx_sem s + 1)\<rparr>"

text \<open>The host controller layer above: the status of a send, and the queue of received buffers.\<close>

definition hci_Send :: "spi \<Rightarrow> u8 list \<Rightarrow> u16 \<Rightarrow> spi \<times> int" where
  "hci_Send s payload payloadLength =
    (case sendImp s payload payloadLength of (s, sent) \<Rightarrow> (s, if payloadLength \<noteq> sent then - 1 else 0))"

definition hci_Input :: "u8 list msg_queue \<Rightarrow> u8 list \<Rightarrow> u8 list msg_queue option" where
  "hci_Input q buffer = (if 0 < length buffer then put_now q buffer else Some q)"

definition hci_Receive :: "u8 list msg_queue \<Rightarrow> u8 list option \<times> u8 list msg_queue" where
  "hci_Receive q = (case get_now q of Some (m, q') \<Rightarrow> (Some m, q') | None \<Rightarrow> (None, q))"

section \<open>The header check\<close>

lemma header_fields:
  "spi_header t n ! 0 = t" "header_len (spi_header t n) = n" "header_lenx (spi_header t n) = NOT n"
  "length (spi_header t n) = 8"
proof -
  show "header_len (spi_header t n) = n" "header_lenx (spi_header t n) = NOT n"
    by (rule word_eq_bitsI, simp add: bit_positions header_len_def header_lenx_def le16_def spi_header_def
        Let_def bit_simps)+
qed (simp_all add: spi_header_def Let_def)

lemma lenx_check: "0xFFFF = (a XOR b) \<longleftrightarrow> b = NOT (a :: u16)"
proof
  assume "0xFFFF = a XOR b"
  then have "a XOR 0xFFFF = a XOR (a XOR b)" by simp
  then have "a XOR 0xFFFF = b" by (simp add: xor.assoc [symmetric])
  moreover have "a XOR 0xFFFF = NOT a"
    by (rule word_eq_bitsI) (simp add: bit_positions bit_simps)
  ultimately show "b = NOT a" by simp
next
  assume "b = NOT a"
  moreover have "0xFFFF = a XOR NOT a"
    by (rule word_eq_bitsI) (simp add: bit_positions bit_simps)
  ultimately show "0xFFFF = a XOR b" by simp
qed

lemma dma_transfer_fields:
  "fst (dma_transfer x r a s) \<longleftrightarrow> (x_earlier x \<or> \<not> dma_busy s) \<and> r \<and> x_starts x"
  "TxDataAddress (fst (snd (dma_transfer x r a s))) = TxDataAddress s"
  "TxDataLength (fst (snd (dma_transfer x r a s))) = TxDataLength s"
  "rx_buffer (fst (snd (dma_transfer x r a s))) = rx_buffer s"
  "txrx_sem (fst (snd (dma_transfer x r a s))) = txrx_sem s"
  by (simp_all add: dma_transfer_def SpiTransferCallback_def take_transfer_done_def Let_def)

text \<open>
  the exchange of headers succeeds exactly when the transfer was started and the buffer then holds a
  read header with a length and its complement, one of the two lengths not being zero; it then gives
  the module's length. A header built as the driver builds its own passes the complement check.
\<close>

theorem exchangeHeaders_accepts:
  "fst (exchangeHeaders x tx h s) = Some n \<longleftrightarrow>
     (x_earlier x \<or> \<not> dma_busy s) \<and> x_starts x \<and> h ! 0 = SPI_READ \<and> header_lenx h = NOT (header_len h) \<and>
     n = header_len h \<and> \<not> (tx = 0 \<and> n = 0)"
proof -
  obtain hal_ok s' acts where
    d: "dma_transfer x True (TransmitReceive (spi_header SPI_WRITE tx) 8 8) s = (hal_ok, s', acts)"
    by (cases "dma_transfer x True (TransmitReceive (spi_header SPI_WRITE tx) 8 8) s") auto
  have "hal_ok \<longleftrightarrow> (x_earlier x \<or> \<not> dma_busy s) \<and> x_starts x"
    using dma_transfer_fields(1) [of x True "TransmitReceive (spi_header SPI_WRITE tx) 8 8" s] d by simp
  then show ?thesis
    using d by (auto simp: exchangeHeaders_def header_fields lenx_check split: if_splits)
qed

section \<open>Chip select\<close>

text \<open>
  The chip select and the transfers: a transfer starts only while the chip select is low and no other
  one moves data, and the chip select is raised only while none does; at the end it is high.
\<close>

fun cs_ok :: "bool \<Rightarrow> bool \<Rightarrow> action list \<Rightarrow> bool" where
  "cs_ok low moving [] \<longleftrightarrow> \<not> low"
| "cs_ok low moving (CsHigh # as) \<longleftrightarrow> \<not> moving \<and> cs_ok False moving as"
| "cs_ok low moving (CsLow # as) \<longleftrightarrow> cs_ok True moving as"
| "cs_ok low moving (TransmitReceive tx c n # as) \<longleftrightarrow> low \<and> \<not> moving \<and> cs_ok low True as"
| "cs_ok low moving (Transmit tx n # as) \<longleftrightarrow> low \<and> \<not> moving \<and> cs_ok low True as"
| "cs_ok low moving (Receive c n # as) \<longleftrightarrow> low \<and> \<not> moving \<and> cs_ok low True as"
| "cs_ok low moving (Completed # as) \<longleftrightarrow> cs_ok low False as"
| "cs_ok low moving (Input d # as) \<longleftrightarrow> cs_ok low moving as"
| "cs_ok low moving (FreeBuffer # as) \<longleftrightarrow> cs_ok low moving as"

fun is_transfer :: "action \<Rightarrow> bool" where
  "is_transfer (TransmitReceive tx c n) \<longleftrightarrow> True"
| "is_transfer (Transmit tx n) \<longleftrightarrow> True"
| "is_transfer (Receive c n) \<longleftrightarrow> True"
| "is_transfer a \<longleftrightarrow> False"

lemma cs_ok_transfer:
  "is_transfer a \<Longrightarrow> cs_ok low moving (a # as) \<longleftrightarrow> low \<and> \<not> moving \<and> cs_ok low True as"
  by (cases a) auto

lemma data_action_transfer: "is_transfer (data_action s cap n)"
  by (simp add: data_action_def Let_def split: option.split)

lemma callback_cs_ok:
  "SpiTransferCallback s = (s', acts) \<Longrightarrow> cs_ok low (dma_busy s) (acts @ as) \<longleftrightarrow> cs_ok low (dma_busy s') as"
  by (auto simp: SpiTransferCallback_def split: if_splits)

lemma take_cs_ok:
  "take_transfer_done t s = (s', acts) \<Longrightarrow>
     cs_ok low (dma_busy s) (acts @ as) \<longleftrightarrow> cs_ok low (dma_busy s') as"
  by (auto simp: take_transfer_done_def SpiTransferCallback_def split: if_splits)

lemma dma_cs_ok:
  assumes "dma_transfer x r a s = (hal_ok, s', acts)" and "is_transfer a"
  shows "cs_ok True (dma_busy s) (acts @ as) \<longleftrightarrow> cs_ok True (dma_busy s') as"
  using assms
  by (auto simp: dma_transfer_def SpiTransferCallback_def take_transfer_done_def Let_def cs_ok_transfer
      split: if_splits)

lemma headers_cs_ok:
  "exchangeHeaders x tx h s = (rx, s', acts) \<Longrightarrow>
     cs_ok True (dma_busy s) (acts @ as) \<longleftrightarrow> cs_ok True (dma_busy s') as"
  by (auto simp: exchangeHeaders_def split: prod.splits intro: dma_cs_ok [THEN iffD1] dma_cs_ok [THEN iffD2])

lemma data_cs_ok:
  "data_phase s cap n i = (s', acts) \<Longrightarrow>
     cs_ok True (dma_busy s) (acts @ as) \<longleftrightarrow> cs_ok True (dma_busy s') as"
  using dma_cs_ok [OF _ data_action_transfer]
  by (fastforce simp: data_phase_def Let_def split: prod.splits option.splits if_splits)

text \<open>A link at rest: nothing under way, and no completion that was not waited for.\<close>

definition at_rest :: "spi \<Rightarrow> bool" where
  "at_rest s \<longleftrightarrow> \<not> dma_busy s \<and> transfer_done s = 0"

lemma dma_at_rest:
  "dma_transfer x r a s = (hal_ok, s', acts) \<Longrightarrow> at_rest s \<Longrightarrow> x_done x \<noteq> Late \<Longrightarrow> at_rest s'"
  by (cases "x_done x")
    (auto simp: dma_transfer_def SpiTransferCallback_def take_transfer_done_def Let_def at_rest_def
      split: if_splits)

lemma headers_at_rest:
  "exchangeHeaders x tx h s = (rx, s', acts) \<Longrightarrow> at_rest s \<Longrightarrow> x_done x \<noteq> Late \<Longrightarrow> at_rest s'"
  by (auto simp: exchangeHeaders_def intro: dma_at_rest split: prod.splits)

lemma data_at_rest:
  "data_phase s cap n i = (s', acts) \<Longrightarrow> at_rest s \<Longrightarrow> x_done (in_data_transfer i) \<noteq> Late \<Longrightarrow> at_rest s'"
  using dma_at_rest [of "in_data_transfer i"]
  by (fastforce simp: data_phase_def Let_def at_rest_def split: prod.splits option.splits if_splits)

text \<open>What a pass does between the two writes of the chip select, from its first state.\<close>

definition pass_body :: "bool \<Rightarrow> spi \<Rightarrow> spi_inputs \<Rightarrow> spi \<times> action list" where
  "pass_body rtos s i =
    (let cap = (case rx_buffer s of Some c \<Rightarrow> c | None \<Rightarrow> in_alloc i)
     in poll_locked rtos cap (s\<lparr>rx_buffer := Some cap, txrx_sem := txrx_sem s - 1\<rparr>) i)"

lemma pass_unfold:
  assumes "in_sem i" and "0 < txrx_sem s"
  shows "processPollingDataImp rtos s i =
    (let (s, acts) = pass_body rtos s i;
         (s, acts3) = (if in_last i then SpiTransferCallback s else (s, []))
     in (s, CsHigh # acts @ acts3 @ [CsHigh]))"
  using assms by (simp add: processPollingDataImp_def pass_body_def Let_def)

lemma body_cs_ok:
  assumes "pass_body rtos s i = (s', acts)" and "\<not> dma_busy s"
  shows "\<exists>low. cs_ok False False (acts @ as) \<longleftrightarrow> cs_ok low (dma_busy s') as"
proof -
  define cap where "cap = (case rx_buffer s of Some c \<Rightarrow> c | None \<Rightarrow> in_alloc i)"
  define s1 where "s1 = s\<lparr>rx_buffer := Some cap, txrx_sem := txrx_sem s - 1\<rparr>"
  have b: "dma_busy s1 = False" using assms(2) by (simp add: s1_def)
  obtain rx s2 acts1 where
    h: "exchangeHeaders (in_header_transfer i) (TxDataLength s1) (in_header i) s1 = (rx, s2, acts1)"
    by (cases "exchangeHeaders (in_header_transfer i) (TxDataLength s1) (in_header i) s1") auto
  note body = assms(1) [unfolded pass_body_def poll_locked_def Let_def, folded cap_def, folded s1_def]
  consider "dma_busy s' = False" "acts = [] \<or> acts = [FreeBuffer]"
    | "dma_busy s' = False" "acts = [CsLow]"
    | "s' = s2" "acts = CsLow # acts1"
    | n acts2 where "data_phase s2 cap n i = (s', acts2)" "acts = CsLow # acts1 @ acts2"
    using body h b by (auto split: if_splits option.splits prod.splits)
  then show ?thesis
  proof cases
    case 1
    then show ?thesis by (intro exI [of _ False]) auto
  next
    case 2
    then show ?thesis by (intro exI [of _ True]) auto
  next
    case 3
    then show ?thesis using headers_cs_ok [OF h, of as] b by (intro exI [of _ True]) simp
  next
    case 4
    then show ?thesis
      using headers_cs_ok [OF h, of "acts2 @ as"] data_cs_ok [OF 4(1), of as] b
      by (intro exI [of _ True]) simp
  qed
qed

lemma body_at_rest:
  assumes "pass_body rtos s i = (s', acts)" and "at_rest s"
    and "x_done (in_header_transfer i) \<noteq> Late" and "x_done (in_data_transfer i) \<noteq> Late"
  shows "at_rest s'"
proof -
  have r: "at_rest (s\<lparr>rx_buffer := c, txrx_sem := n\<rparr>)" for c n using assms(2) by (simp add: at_rest_def)
  show ?thesis
    using assms(1) headers_at_rest [OF _ r assms(3)] data_at_rest [OF _ _ assms(4)] r
    by (fastforce simp: pass_body_def poll_locked_def Let_def at_rest_def split: if_splits option.splits prod.splits)
qed

lemma pass_cs_ok:
  assumes "\<not> dma_busy s"
  shows "cs_ok False False (snd (processPollingDataImp rtos s i)) \<longleftrightarrow>
    \<not> dma_busy (fst (processPollingDataImp rtos s i))"
proof (cases "in_sem i \<and> 0 < txrx_sem s")
  case False
  then show ?thesis using assms by (auto simp: processPollingDataImp_def Let_def)
next
  case True
  obtain s1 acts1 where b: "pass_body rtos s i = (s1, acts1)" by fastforce
  obtain s2 acts2 where l: "(if in_last i then SpiTransferCallback s1 else (s1, [])) = (s2, acts2)" by fastforce
  have p: "processPollingDataImp rtos s i = (s2, CsHigh # acts1 @ acts2 @ [CsHigh])"
    using True b l by (simp add: pass_unfold Let_def)
  have "cs_ok low (dma_busy s1) (acts2 @ [CsHigh]) \<longleftrightarrow> \<not> dma_busy s2" for low
    using l callback_cs_ok [of s1 s2 acts2 low "[CsHigh]"] by (cases "in_last i") auto
  then show ?thesis
    using body_cs_ok [OF b assms, of "acts2 @ [CsHigh]"] p by simp
qed

lemma pass_at_rest:
  assumes "at_rest s" "x_done (in_header_transfer i) \<noteq> Late" "x_done (in_data_transfer i) \<noteq> Late"
  shows "at_rest (fst (processPollingDataImp rtos s i))"
proof (cases "in_sem i \<and> 0 < txrx_sem s")
  case False
  then show ?thesis using assms by (auto simp: processPollingDataImp_def at_rest_def Let_def)
next
  case True
  obtain s1 acts1 where b: "pass_body rtos s i = (s1, acts1)" by fastforce
  have "at_rest s1" by (rule body_at_rest [OF b assms])
  then show ?thesis
    using True b by (auto simp: pass_unfold at_rest_def SpiTransferCallback_def Let_def)
qed

text \<open>
  C34: a pass that begins with nothing under way moves data only while the chip select is low, one
  transfer at a time, and raises it with the data at rest, exactly when it ends with no transfer
  under way. That is the case, and no completion is left over for a later pass, when nothing was left
  over before and both transfers complete before their waits time out; the driver ignores the
  time-outs themselves.
\<close>

theorem polling_chip_select:
  assumes "\<not> dma_busy s"
  shows "(cs_ok False False (snd (processPollingDataImp rtos s i)) \<longleftrightarrow>
            \<not> dma_busy (fst (processPollingDataImp rtos s i))) \<and>
         (transfer_done s = 0 \<and> x_done (in_header_transfer i) \<noteq> Late \<and> x_done (in_data_transfer i) \<noteq> Late \<longrightarrow>
            cs_ok False False (snd (processPollingDataImp rtos s i)) \<and>
            \<not> dma_busy (fst (processPollingDataImp rtos s i)) \<and>
            transfer_done (fst (processPollingDataImp rtos s i)) = 0)"
  using pass_cs_ok [OF assms] pass_at_rest [of s i rtos] assms by (auto simp: at_rest_def)

text \<open>
  One completion that came after its wait had timed out puts the link off by one for good: every later
  wait is over as soon as it begins, on the unit of the transfer before. A pass whose transfers all
  complete within their waits' time limits then raises the chip select while its data move, hands up
  the buffer they are written to, and leaves the link as it found it once they have completed.
\<close>

lemma stale_transfer:
  assumes "dma_transfer x True a s = (ok, s', acts)" and "dma_busy s \<and> x_earlier x \<or> \<not> dma_busy s \<and> transfer_done s = 1"
    and "x_starts x" and "x_done x = InTime"
  shows "dma_busy s' \<and> transfer_done s' = 0"
  using assms
  by (cases "x_earlier x") (auto simp: dma_transfer_def SpiTransferCallback_def take_transfer_done_def Let_def)

lemma stale_unit_persists:
  fixes rtos :: bool
  assumes "\<not> dma_busy s" and "transfer_done s = 1"
    and "in_sem i" and "0 < txrx_sem s" and "TxDataAddress s \<noteq> None \<or> in_notify i" and "in_flow0 i"
    and h: "x_starts (in_header_transfer i)" "x_done (in_header_transfer i) = InTime"
    and d: "x_earlier (in_data_transfer i)" "x_starts (in_data_transfer i)" "x_done (in_data_transfer i) = InTime"
    and n: "fst (exchangeHeaders (in_header_transfer i) (TxDataLength s) (in_header i) s) = Some n" "0 < n"
      "n \<le> (case rx_buffer s of Some c \<Rightarrow> c | None \<Rightarrow> in_alloc i)" "in_flow1 i" "\<not> in_last i"
  defines "s' \<equiv> fst (processPollingDataImp rtos s i)"
    and "acts \<equiv> snd (processPollingDataImp rtos s i)"
  shows "\<not> cs_ok False False acts \<and> dma_busy s' \<and>
    (\<exists>before. acts = before @ [Input (take (unat n) (in_data i)), CsHigh]) \<and>
    \<not> dma_busy (fst (SpiTransferCallback s')) \<and> transfer_done (fst (SpiTransferCallback s')) = 1"
proof -
  define cap where "cap = (case rx_buffer s of Some c \<Rightarrow> c | None \<Rightarrow> in_alloc i)"
  define s0 where "s0 = s\<lparr>rx_buffer := Some cap, txrx_sem := txrx_sem s - 1\<rparr>"
  have z: "TxDataLength s0 = TxDataLength s" "TxDataAddress s0 = TxDataAddress s" by (simp_all add: s0_def)
  obtain rx s1 acts1 where
    e: "exchangeHeaders (in_header_transfer i) (TxDataLength s) (in_header i) s0 = (rx, s1, acts1)"
    by (cases "exchangeHeaders (in_header_transfer i) (TxDataLength s) (in_header i) s0") auto
  have rx: "rx = Some n"
  proof -
    have "fst (exchangeHeaders (in_header_transfer i) (TxDataLength s) (in_header i) s0) = Some n"
      using n(1) by (auto simp: exchangeHeaders_accepts s0_def)
    then show ?thesis by (simp add: e)
  qed
  obtain ok1 where "dma_transfer (in_header_transfer i) True
      (TransmitReceive (spi_header SPI_WRITE (TxDataLength s)) 8 8) s0 = (ok1, s1, acts1)"
    using e by (auto simp: exchangeHeaders_def split: prod.splits)
  then have s1: "dma_busy s1" "transfer_done s1 = 0"
    using stale_transfer assms(1,2) h by (auto simp: s0_def)
  obtain ok2 s2 acts2 where t: "dma_transfer (in_data_transfer i) True (data_action s1 cap n) s1 = (ok2, s2, acts2)"
    by (cases "dma_transfer (in_data_transfer i) True (data_action s1 cap n) s1") auto
  have ok2: "ok2" using dma_transfer_fields(1) [of "in_data_transfer i" True "data_action s1 cap n" s1] t d by simp
  have s2: "dma_busy s2" "transfer_done s2 = 0"
    using stale_transfer [OF t] s1 d by auto
  have c: "\<not> cap < n" using n(3) by (simp add: cap_def not_less)
  have pos: "0 < (if TxDataLength s1 > n then TxDataLength s1 else n)" using n(2) by (auto simp: word_gt_0)
  define s3 where "s3 = (if TxDataAddress s1 = None then s2 else s2\<lparr>TxDataAddress := None, TxDataLength := 0\<rparr>)\<lparr>rx_buffer := None\<rparr>"
  have s3: "dma_busy s3" "transfer_done s3 = 0" using s2 by (simp_all add: s3_def)
  have p: "data_phase s1 cap n i = (s3, acts2 @ [Input (take (unat n) (in_data i))])"
    using t ok2 c pos n(2,4)
    by (cases "TxDataAddress s1") (simp_all add: data_phase_def Let_def s3_def del: if_split)
  have b: "pass_body rtos s i = (s3, CsLow # acts1 @ acts2 @ [Input (take (unat n) (in_data i))])"
    using assms(5,6) e rx p z
    by (auto simp: pass_body_def poll_locked_def cap_def [symmetric] s0_def [symmetric] Let_def simp del: One_nat_def)
  then have f: "processPollingDataImp rtos s i =
      (s3, CsHigh # CsLow # acts1 @ acts2 @ [Input (take (unat n) (in_data i)), CsHigh])"
    using assms(3,4) n(5) by (simp add: pass_unfold Let_def)
  then show ?thesis
    using s3 pass_cs_ok [OF assms(1), of rtos i]
    by (auto simp: s'_def acts_def SpiTransferCallback_def)
qed

text \<open>The bytes a transfer writes fit the receive buffer.\<close>

fun rx_in_bounds :: "action \<Rightarrow> bool" where
  "rx_in_bounds (TransmitReceive tx c n) \<longleftrightarrow> n \<le> c"
| "rx_in_bounds (Receive c n) \<longleftrightarrow> n \<le> c"
| "rx_in_bounds a \<longleftrightarrow> True"

lemma dma_in_bounds:
  "rx_in_bounds a \<Longrightarrow> list_all rx_in_bounds (snd (snd (dma_transfer x r a s)))"
  by (simp add: dma_transfer_def SpiTransferCallback_def take_transfer_done_def Let_def)

lemma headers_in_bounds:
  "exchangeHeaders x tx h s = (rx, s', acts) \<Longrightarrow>
     list_all rx_in_bounds acts \<and> TxDataLength s' = TxDataLength s"
  using dma_in_bounds [of "TransmitReceive (spi_header SPI_WRITE tx) 8 8" x True s]
    dma_transfer_fields [of x True "TransmitReceive (spi_header SPI_WRITE tx) 8 8" s]
  by (auto simp: exchangeHeaders_def split: prod.splits)

lemma data_in_bounds:
  assumes "data_phase s cap n i = (s', acts)" and "TxDataLength s \<le> cap"
  shows "list_all rx_in_bounds acts"
proof (cases "cap < n \<or> \<not> in_flow1 i")
  case True
  then show ?thesis using assms(1) by (auto simp: data_phase_def Let_def split: if_splits)
next
  case False
  then have "rx_in_bounds (data_action s cap n)"
    using assms(2) by (auto simp: data_action_def Let_def word_le_nat_alt not_less split: option.splits)
  then have "list_all rx_in_bounds acts'"
    if "dma_transfer x r (data_action s cap n) s = (hal_ok, s1, acts')" for x r hal_ok s1 acts'
    using dma_in_bounds [of "data_action s cap n" x r s] that by simp
  then show ?thesis
    using assms(1) False
    by (auto simp: data_phase_def Let_def split: prod.splits option.splits if_splits)
qed

text \<open>
  when the data to transmit are not longer than the receive buffer's payload, no transfer of a
  pass writes past the end of that buffer, whatever length the module announces.
\<close>

theorem polling_rx_bounds:
  assumes "TxDataLength s \<le> (case rx_buffer s of Some c \<Rightarrow> c | None \<Rightarrow> in_alloc i)"
  shows "list_all rx_in_bounds (snd (processPollingDataImp rtos s i))"
proof (cases "in_sem i \<and> 0 < txrx_sem s")
  case False
  then show ?thesis by (auto simp: processPollingDataImp_def Let_def)
next
  case True
  have "list_all rx_in_bounds (snd (pass_body rtos s i))"
    using assms headers_in_bounds data_in_bounds
    by (fastforce simp: pass_body_def poll_locked_def Let_def split: prod.splits option.splits)
  then show ?thesis
    using True by (auto simp: pass_unfold SpiTransferCallback_def Let_def split: prod.splits)
qed

definition good_transfer :: transfer where
  "good_transfer = \<lparr>x_earlier = False, x_starts = True, x_done = InTime\<rparr>"

definition idle_inputs :: spi_inputs where
  "idle_inputs = \<lparr>in_alloc = 1542, in_sem = True, in_notify = True, in_quit = False, in_flow0 = True,
     in_header_transfer = good_transfer, in_header = spi_header SPI_READ 100, in_flow1 = True,
     in_data_transfer = good_transfer, in_data = replicate 100 7, in_last = False\<rparr>"

definition sending :: "u16 \<Rightarrow> spi" where
  "sending n = \<lparr>TxDataAddress = Some [1, 2], TxDataLength = n, txrx_sem = 1, rx_buffer = None,
     dma_busy = False, transfer_done = 0\<rparr>"

theorem polling_chip_select_witness:
  "cs_ok False False (snd (processPollingDataImp True (sending 1500) idle_inputs))"
  using polling_chip_select [of "sending 1500" True idle_inputs]
  by (simp add: sending_def idle_inputs_def good_transfer_def)

theorem polling_rx_bounds_witness:
  "list_all rx_in_bounds (snd (processPollingDataImp True (sending 1500) idle_inputs))"
  using polling_rx_bounds [of "sending 1500" idle_inputs True]
  by (simp add: sending_def idle_inputs_def)

section \<open>Delivery\<close>

text \<open>What a pass moves and hands up, in order.\<close>

fun is_traffic :: "action \<Rightarrow> bool" where
  "is_traffic (Input d) \<longleftrightarrow> True"
| "is_traffic a \<longleftrightarrow> is_transfer a"

definition traffic :: "action list \<Rightarrow> action list" where "traffic acts = filter is_traffic acts"

lemma traffic_simps [simp]:
  "traffic [] = []" "traffic (as @ bs) = traffic as @ traffic bs"
  "traffic (CsHigh # as) = traffic as" "traffic (CsLow # as) = traffic as"
  "traffic (Completed # as) = traffic as" "traffic (Input d # as) = Input d # traffic as"
  by (simp_all add: traffic_def)

lemma traffic_transfer: "is_transfer a \<Longrightarrow> traffic (a # as) = a # traffic as"
  by (cases a) (simp_all add: traffic_def)

lemma callback_fields:
  "SpiTransferCallback s = (s', acts) \<Longrightarrow> traffic acts = [] \<and> TxDataAddress s' = TxDataAddress s \<and>
     TxDataLength s' = TxDataLength s \<and> rx_buffer s' = rx_buffer s"
  by (auto simp: SpiTransferCallback_def split: if_splits)

lemma dma_traffic:
  assumes "dma_transfer x r a s = (hal_ok, s', acts)" and "is_transfer a"
  shows "traffic acts = (if hal_ok then [a] else [])"
  using assms
  by (auto simp: dma_transfer_def SpiTransferCallback_def take_transfer_done_def Let_def traffic_transfer
      split: if_splits)
  
lemma dma_transfer_frame:
  "dma_transfer x r a (s\<lparr>rx_buffer := c, txrx_sem := m\<rparr>) =
     (case dma_transfer x r a s of (ok, s', acts) \<Rightarrow> (ok, s'\<lparr>rx_buffer := c, txrx_sem := m\<rparr>, acts))"
  by (simp add: dma_transfer_def SpiTransferCallback_def take_transfer_done_def Let_def)

lemma exchangeHeaders_frame:
  "exchangeHeaders x tx h (s\<lparr>rx_buffer := c, txrx_sem := m\<rparr>) =
     (case exchangeHeaders x tx h s of (rx, s', acts) \<Rightarrow> (rx, s'\<lparr>rx_buffer := c, txrx_sem := m\<rparr>, acts))"
  by (simp add: exchangeHeaders_def dma_transfer_frame split: prod.splits)

lemma headers_fields:
  assumes "exchangeHeaders x tx h s = (rx, s', acts)"
  shows "TxDataAddress s' = TxDataAddress s" "TxDataLength s' = TxDataLength s" "rx_buffer s' = rx_buffer s"
    "traffic acts = (if (x_earlier x \<or> \<not> dma_busy s) \<and> x_starts x
       then [TransmitReceive (spi_header SPI_WRITE tx) 8 8] else [])"
    "rx = Some n \<Longrightarrow> \<not> (tx = 0 \<and> n = 0) \<and> (x_earlier x \<or> \<not> dma_busy s) \<and> x_starts x"
proof -
  let ?a = "TransmitReceive (spi_header SPI_WRITE tx) 8 8"
  obtain ok where d: "dma_transfer x True ?a s = (ok, s', acts)"
    using assms by (auto simp: exchangeHeaders_def split: prod.splits)
  show "TxDataAddress s' = TxDataAddress s" "TxDataLength s' = TxDataLength s" "rx_buffer s' = rx_buffer s"
    using dma_transfer_fields [of x True ?a s] d by simp_all
  show "traffic acts = (if (x_earlier x \<or> \<not> dma_busy s) \<and> x_starts x then [?a] else [])"
    using dma_traffic [OF d] dma_transfer_fields(1) [of x True ?a s] d by simp
  show "\<not> (tx = 0 \<and> n = 0) \<and> (x_earlier x \<or> \<not> dma_busy s) \<and> x_starts x" if "rx = Some n"
    using exchangeHeaders_accepts [of x tx h s n] assms that by auto
qed

lemma body_frame:
  assumes "in_sem i" and "0 < txrx_sem s" and "pass_body rtos s i = (s1, acts)"
  shows "TxDataAddress (fst (processPollingDataImp rtos s i)) = TxDataAddress s1"
    "TxDataLength (fst (processPollingDataImp rtos s i)) = TxDataLength s1"
    "rx_buffer (fst (processPollingDataImp rtos s i)) = rx_buffer s1"
    "traffic (snd (processPollingDataImp rtos s i)) = traffic acts"
proof -
  obtain s2 acts2 where l: "(if in_last i then SpiTransferCallback s1 else (s1, [])) = (s2, acts2)" by fastforce
  then have "traffic acts2 = [] \<and> TxDataAddress s2 = TxDataAddress s1 \<and>
      TxDataLength s2 = TxDataLength s1 \<and> rx_buffer s2 = rx_buffer s1"
    using callback_fields [of s1 s2 acts2] by (cases "in_last i") auto
  moreover have "processPollingDataImp rtos s i = (s2, CsHigh # acts @ acts2 @ [CsHigh])"
    using assms l by (simp add: pass_unfold Let_def)
  ultimately show "TxDataAddress (fst (processPollingDataImp rtos s i)) = TxDataAddress s1"
    "TxDataLength (fst (processPollingDataImp rtos s i)) = TxDataLength s1"
    "rx_buffer (fst (processPollingDataImp rtos s i)) = rx_buffer s1"
    "traffic (snd (processPollingDataImp rtos s i)) = traffic acts" by simp_all
qed

text \<open>The data phase, as the fields it leaves and the traffic it makes.\<close>

lemma data_phase_stops:
  "\<not> (n \<le> cap \<and> in_flow1 i) \<Longrightarrow> data_phase s cap n i = (s, [])"
  by (auto simp: data_phase_def Let_def)

lemma data_phase_moves:
  assumes "n \<le> cap" and "in_flow1 i" and "\<not> (TxDataLength s = 0 \<and> n = 0)"
    and "data_phase s cap n i = (s', acts)"
  shows "TxDataAddress s' = None \<and> TxDataLength s' = (if TxDataAddress s = None then TxDataLength s else 0) \<and>
    (if (x_earlier (in_data_transfer i) \<or> \<not> dma_busy s) \<and> x_starts (in_data_transfer i) \<and>
        (TxDataAddress s = None \<longrightarrow> 0 < n)
     then traffic acts = data_action s cap n # (if 0 < n then [Input (take (unat n) (in_data i))] else []) \<and>
          rx_buffer s' = (if 0 < n then None else rx_buffer s)
     else traffic acts = [] \<and> rx_buffer s' = rx_buffer s)"
proof -
  define len where "len = (if TxDataLength s > n then TxDataLength s else n)"
  let ?r = "0 < len \<and> (TxDataAddress s = None \<longrightarrow> 0 < n)"
  obtain ok s1 acts1 where d: "dma_transfer (in_data_transfer i) ?r (data_action s cap n) s = (ok, s1, acts1)"
    by (cases "dma_transfer (in_data_transfer i) ?r (data_action s cap n) s") auto
  have c: "\<not> cap < n" using assms(1) by simp
  have len: "0 < len" using assms(3) by (auto simp: word_gt_0 len_def)
  have f: "TxDataAddress s1 = TxDataAddress s" "TxDataLength s1 = TxDataLength s" "rx_buffer s1 = rx_buffer s"
    "ok \<longleftrightarrow> (x_earlier (in_data_transfer i) \<or> \<not> dma_busy s) \<and> ?r \<and> x_starts (in_data_transfer i)"
    using dma_transfer_fields [of "in_data_transfer i" ?r "data_action s cap n" s] d by simp_all
  have t: "traffic acts1 = (if ok then [data_action s cap n] else [])"
    by (rule dma_traffic [OF d data_action_transfer])
  have "data_phase s cap n i =
     (let s1 = (if TxDataAddress s = None then s1 else s1\<lparr>TxDataAddress := None, TxDataLength := 0\<rparr>) in
      if \<not> ok then (s1, acts1)
      else if 0 < n then (s1\<lparr>rx_buffer := None\<rparr>, acts1 @ [Input (take (unat n) (in_data i))])
      else (s1, acts1))"
  proof (cases "TxDataAddress s")
    case None
    then have "?r = (0 < n \<and> 0 < len)" by auto
    then show ?thesis using d c assms(2) None
      by (simp add: data_phase_def Let_def len_def [symmetric] del: if_split)
  next
    case (Some tx)
    then have "?r = (0 < len)" by auto
    then show ?thesis using d c assms(2) Some
      by (simp add: data_phase_def Let_def len_def [symmetric] del: if_split)
  qed
  then show ?thesis
    using assms(4) f t len by (auto simp: Let_def split: if_splits)
qed

text \<open>
  C33: a pass that reaches the header exchange first exchanges the header that announces the pending
  transmission. When the exchange fails, or the module announces more than the receive buffer takes,
  or is not ready for the data, nothing else moves and the transmission stays pending. Otherwise the
  transmission is no longer pending, and, unless the HAL refuses the transfer, its bytes are given to
  exactly one transfer (with the module's when both have data, sent alone or received alone
  otherwise), after which exactly the bytes announced by the module are handed to the layer above and
  the buffer with them. If the HAL refuses, being busy with a transfer not waited for to its end or
  for an error of its own, nothing is sent and the transmission is lost.
\<close>

theorem polling_delivers:
  fixes rtos :: bool
  assumes "in_sem i" and "0 < txrx_sem s" and "TxDataAddress s \<noteq> None \<or> in_notify i" and "in_flow0 i"
  defines "cap \<equiv> (case rx_buffer s of Some c \<Rightarrow> c | None \<Rightarrow> in_alloc i)"
    and "header \<equiv> TransmitReceive (spi_header SPI_WRITE (TxDataLength s)) 8 8"
    and "s' \<equiv> fst (processPollingDataImp rtos s i)"
    and "acts \<equiv> snd (processPollingDataImp rtos s i)"
  shows "case exchangeHeaders (in_header_transfer i) (TxDataLength s) (in_header i) s of
      (None, s1, acts1) \<Rightarrow>
        traffic acts = (if (x_earlier (in_header_transfer i) \<or> \<not> dma_busy s) \<and>
          x_starts (in_header_transfer i) then [header] else []) \<and> TxDataAddress s' = TxDataAddress s \<and> rx_buffer s' = Some cap
    | (Some n, s1, acts1) \<Rightarrow>
        (if n \<le> cap \<and> in_flow1 i then
           TxDataAddress s' = None \<and> TxDataLength s' = (if TxDataAddress s = None then TxDataLength s else 0) \<and>
           (if (x_earlier (in_data_transfer i) \<or> \<not> dma_busy s1) \<and> x_starts (in_data_transfer i) \<and>
               (TxDataAddress s = None \<longrightarrow> 0 < n)
            then traffic acts = [header,
                    (case TxDataAddress s of
                       Some tx \<Rightarrow>
                         if 0 < n then TransmitReceive tx (unat cap) (max (unat (TxDataLength s)) (unat n))
                         else Transmit tx (unat (TxDataLength s))
                     | None \<Rightarrow> Receive (unat cap) (max (unat (TxDataLength s)) (unat n)))] @
                    (if 0 < n then [Input (take (unat n) (in_data i))] else []) \<and>
                 rx_buffer s' = (if 0 < n then None else Some cap)
            else traffic acts = [header] \<and> rx_buffer s' = Some cap)
         else traffic acts = [header] \<and> TxDataAddress s' = TxDataAddress s \<and> rx_buffer s' = Some cap)"
proof -
  define s0 where "s0 = s\<lparr>rx_buffer := Some cap, txrx_sem := txrx_sem s - 1\<rparr>"
  obtain rx s1 acts1 where
    e: "exchangeHeaders (in_header_transfer i) (TxDataLength s) (in_header i) s = (rx, s1, acts1)"
    by (cases "exchangeHeaders (in_header_transfer i) (TxDataLength s) (in_header i) s") auto
  define s2 where "s2 = s1\<lparr>rx_buffer := Some cap, txrx_sem := txrx_sem s - 1\<rparr>"
  have e0: "exchangeHeaders (in_header_transfer i) (TxDataLength s) (in_header i) s0 = (rx, s2, acts1)"
    by (simp add: s0_def s2_def exchangeHeaders_frame e)
  have z: "TxDataLength s0 = TxDataLength s" by (simp add: s0_def)
  note f = headers_fields [OF e]
  have b: "pass_body rtos s i =
      (case rx of None \<Rightarrow> (s2, CsLow # acts1)
       | Some n \<Rightarrow> (let (s3, acts2) = data_phase s2 cap n i in (s3, CsLow # acts1 @ acts2)))"
    using assms(3,4) e0 z by (auto simp: pass_body_def poll_locked_def cap_def [symmetric] s0_def [symmetric] Let_def simp del: One_nat_def)
  show ?thesis
  proof (cases rx)
    case None
    then show ?thesis
      using b body_frame [OF assms(1,2), of rtos s2 "CsLow # acts1"] e f
      by (simp add: s'_def acts_def s2_def header_def)
  next
    case (Some n)
    obtain s3 acts2 where d: "data_phase s2 cap n i = (s3, acts2)" by fastforce
    have p: "TxDataAddress s' = TxDataAddress s3" "TxDataLength s' = TxDataLength s3"
      "rx_buffer s' = rx_buffer s3" "traffic acts = header # traffic acts2"
      using b Some d body_frame [OF assms(1,2), of rtos s3 "CsLow # acts1 @ acts2"] f(4) f(5) [OF Some]
      by (simp_all add: s'_def acts_def header_def)
    have g: "TxDataAddress s2 = TxDataAddress s" "TxDataLength s2 = TxDataLength s"
      "rx_buffer s2 = Some cap" "dma_busy s2 = dma_busy s1"
      using f by (simp_all add: s2_def)
    have a: "data_action s2 cap n = (case TxDataAddress s of
         Some tx \<Rightarrow> if 0 < n then TransmitReceive tx (unat cap) (max (unat (TxDataLength s)) (unat n))
                    else Transmit tx (unat (TxDataLength s))
       | None \<Rightarrow> Receive (unat cap) (max (unat (TxDataLength s)) (unat n)))"
      by (auto simp: data_action_def g Let_def max_def word_less_nat_alt split: option.split)
    show ?thesis
    proof (cases "n \<le> cap \<and> in_flow1 i")
      case True
      then show ?thesis
        using data_phase_moves [OF _ _ _ d] f(5) [OF Some] by (simp add: e Some p g a)
    next
      case False
      then have "s3 = s2" "acts2 = []" using data_phase_stops [OF False] d by simp_all
      then show ?thesis using False by (auto simp: e Some p g)
    qed
  qed
qed

theorem polling_delivers_witness:
  "traffic (snd (processPollingDataImp True (sending 1500) idle_inputs)) =
     [TransmitReceive (spi_header SPI_WRITE 1500) 8 8, TransmitReceive [1, 2] 1542 1500,
      Input (replicate 100 7)]"
proof -
  obtain rx s1 acts1 where e: "exchangeHeaders (in_header_transfer idle_inputs) (TxDataLength (sending 1500))
      (in_header idle_inputs) (sending 1500) = (rx, s1, acts1)"
    by (cases "exchangeHeaders (in_header_transfer idle_inputs) (TxDataLength (sending 1500))
      (in_header idle_inputs) (sending 1500)") auto
  have "rx = Some 100"
    using exchangeHeaders_accepts [of good_transfer 1500 "spi_header SPI_READ 100" "sending 1500" 100] e
    by (simp add: header_fields SPI_READ_def idle_inputs_def good_transfer_def sending_def)
  moreover have "\<not> dma_busy s1"
    using headers_at_rest [OF e] by (simp add: at_rest_def sending_def idle_inputs_def good_transfer_def)
  ultimately show ?thesis
    using polling_delivers [of idle_inputs "sending 1500" True] e
    by (simp add: sending_def idle_inputs_def good_transfer_def)
qed

text \<open>
  The premise of \<open>polling_rx_bounds\<close> is needed: with the receive buffers of the network stack build (1542 bytes) a
  longer transmission, which the driver accepts up to 2500 bytes, makes the DMA write 2499 bytes into
  the receive buffer as soon as the module has anything to send.
\<close>

lemma polling_rx_overflow:
  "TransmitReceive [1, 2] 1542 2499 \<in> set (snd (processPollingDataImp True (sending 2499) idle_inputs))"
proof -
  define s0 where "s0 = (sending 2499)\<lparr>rx_buffer := Some 1542, txrx_sem := 0\<rparr>"
  obtain rx s1 acts1 where e: "exchangeHeaders good_transfer 2499 (spi_header SPI_READ 100) s0 = (rx, s1, acts1)"
    by (cases "exchangeHeaders good_transfer 2499 (spi_header SPI_READ 100) s0") auto
  have r: "rx = Some 100"
    using exchangeHeaders_accepts [of good_transfer 2499 "spi_header SPI_READ 100" s0 100] e
    by (simp add: header_fields SPI_READ_def good_transfer_def s0_def sending_def)
  obtain s2 acts2 where d: "data_phase s1 1542 100 idle_inputs = (s2, acts2)" by fastforce
  have "pass_body True (sending 2499) idle_inputs = (s2, CsLow # acts1 @ acts2)"
    using e r d by (simp add: pass_body_def poll_locked_def s0_def sending_def idle_inputs_def Let_def)
  moreover have "\<not> dma_busy s1"
    using headers_at_rest [OF e] by (simp add: at_rest_def s0_def sending_def good_transfer_def)
  moreover have "data_action s1 1542 100 = TransmitReceive [1, 2] 1542 2499"
    using headers_fields(1,2) [OF e] by (simp add: data_action_def s0_def sending_def)
  moreover have "traffic acts2 = data_action s1 1542 100 # [Input (replicate 100 7)]"
    using data_phase_moves [OF _ _ _ d] calculation(2) headers_fields(1,2) [OF e]
    by (simp add: idle_inputs_def good_transfer_def s0_def sending_def)
  ultimately have "TransmitReceive [1, 2] 1542 2499 \<in>
      set (traffic (snd (processPollingDataImp True (sending 2499) idle_inputs)))"
    using body_frame(4) [of idle_inputs "sending 2499" True s2 "CsLow # acts1 @ acts2"]
    by (simp add: idle_inputs_def sending_def)
  then show ?thesis by (simp add: traffic_def)
qed

end
