(* ===== verification/Emw_Ipc.thy ===== *)
theory Emw_Ipc
  imports Emw_Spi
begin

text \<open>
  The request and response protocol between the host and the Wi-Fi module
  (\<^verbatim>\<open>drivers/emw/EmwCoreIpc.cpp\<close>): one request is pending at a time, identified by a number that is
  echoed in the response; a second thread polls the received packets. The client's request is cut
  at the points where the other thread can run: up to the wait on the response semaphore, the end of
  that wait, and the clearing of the pending number after a timeout.
\<close>

section \<open>Packets\<close>

definition REQ_ID_RESET_VAL :: u32 where "REQ_ID_RESET_VAL = 0xFFFFFFFF"
definition PACKET_MIN_SIZE :: nat where "PACKET_MIN_SIZE = 6"
definition MIPC_API_EVENT_BASE :: u16 where "MIPC_API_EVENT_BASE = 0x8000"

definition eWIFI_EAP_SET_CERT_CMD :: u16 where "eWIFI_EAP_SET_CERT_CMD = 0x010F"
definition eWIFI_PS_ON_CMD :: u16 where "eWIFI_PS_ON_CMD = 0x0109"
definition eWIFI_PS_OFF_CMD :: u16 where "eWIFI_PS_OFF_CMD = 0x010A"

definition GetApiId :: "u8 list \<Rightarrow> u16" where
  "GetApiId buffer = push_bit 8 (ucast (buffer ! 5)) OR ucast (buffer ! 4)"

definition GetReqId :: "u8 list \<Rightarrow> u32" where
  "GetReqId buffer = push_bit 24 (ucast (buffer ! 3)) OR push_bit 16 (ucast (buffer ! 2)) OR
     push_bit 8 (ucast (buffer ! 1)) OR ucast (buffer ! 0)"

definition SetApiId :: "u8 list \<Rightarrow> u16 \<Rightarrow> u8 list" where
  "SetApiId buffer apiId =
     buffer[4 := ucast (apiId AND 0x00FF), 5 := ucast (drop_bit 8 (apiId AND 0xFF00))]"

definition SetReqId :: "u8 list \<Rightarrow> u32 \<Rightarrow> u8 list" where
  "SetReqId buffer reqId =
     buffer[0 := ucast (reqId AND 0x000000FF), 1 := ucast (drop_bit 8 (reqId AND 0x0000FF00)),
            2 := ucast (drop_bit 16 (reqId AND 0x00FF0000)), 3 := ucast (drop_bit 24 (reqId AND 0xFF000000))]"

definition GetNewReqId :: "u32 \<Rightarrow> u32" where
  "GetNewReqId req_id =
    (let req_id = req_id + 1 in if REQ_ID_RESET_VAL = req_id then req_id + 1 else req_id)"

section \<open>State\<close>

text \<open>
  \<open>resp k\<close> is the response buffer the caller of the \<open>k\<close>-th request supplied and its size variable;
  \<open>pendingPtr\<close> names the buffers of the pending request. A client that waits remembers its command's
  API identifier and its number; \<open>Hung\<close> is the endless loop of a failed \<^verbatim>\<open>AssertAlways\<close>.
\<close>

datatype client =
    Idle
  | Waiting u16 u32
  | TimedOut u16 u32
  | Hung

record ipc =
  isUsable :: bool
  pendingReqId :: u32
  pendingPtr :: "nat option"
  resp :: "nat \<Rightarrow> u8 list \<times> u16"
  responseSem :: nat
  lastReqId :: u32
  isPowerSave :: bool
  link :: spi
  client :: client

datatype event = Answered u32 | Succeeded u32 | Failed | ModuleEvent u16 | Dropped

definition ipc_initialize :: "ipc \<Rightarrow> ipc" where
  "ipc_initialize s = s\<lparr>isUsable := True, pendingReqId := REQ_ID_RESET_VAL, isPowerSave := False,
     responseSem := 0, client := Idle\<rparr>"

section \<open>Requests\<close>

definition command_size_allowed :: "u16 \<Rightarrow> u16 \<Rightarrow> u16 \<Rightarrow> bool" where
  "command_size_allowed network_buffer_size api_id commandDataSize =
    (if eWIFI_EAP_SET_CERT_CMD = api_id \<and> 2500 > commandDataSize then True
     else if commandDataSize \<le> network_buffer_size then True
     else False)"

definition set_power_save :: "u16 \<Rightarrow> ipc \<Rightarrow> ipc" where
  "set_power_save api_id s =
    (let s = (if eWIFI_PS_ON_CMD = api_id then s\<lparr>isPowerSave := True\<rparr> else s)
     in if eWIFI_PS_OFF_CMD = api_id then s\<lparr>isPowerSave := False\<rparr> else s)"

definition request_begin :: "u16 \<Rightarrow> u8 list \<Rightarrow> u16 \<Rightarrow> nat \<Rightarrow> ipc \<Rightarrow> ipc \<times> event list" where
  "request_begin nbs commandData commandDataSize k s =
    (if isUsable s then
       (let api_id = GetApiId commandData in
        if command_size_allowed nbs api_id commandDataSize then
          (let req_id = GetNewReqId (lastReqId s);
               commandData = SetReqId commandData req_id;
               s = s\<lparr>lastReqId := req_id\<rparr>
           in if REQ_ID_RESET_VAL \<noteq> pendingReqId s then (s\<lparr>client := Hung\<rparr>, [])
              else
                (let s = s\<lparr>pendingReqId := req_id, pendingPtr := Some k\<rparr>;
                     s = (if isPowerSave s
                          then s\<lparr>link := fst (hci_Send (link s) [100, 117, 109, 109, 121] 5)\<rparr> else s);
                     (l, hci_status) = hci_Send (link s) commandData commandDataSize;
                     s = s\<lparr>link := l\<rparr>
                 in if hci_status \<noteq> 0 then (s\<lparr>client := Hung\<rparr>, [])
                    else (s\<lparr>client := Waiting api_id req_id\<rparr>, [])))
        else (set_power_save api_id s, [Failed]))
     else (s, [Failed]))"

text \<open>The end of the wait: a unit taken, or a timeout with no unit, and then the pending number cleared.\<close>

definition request_taken :: "ipc \<Rightarrow> ipc \<times> event list" where
  "request_taken s =
    (case client s of
       Waiting api_id req_id \<Rightarrow>
         (set_power_save api_id (s\<lparr>responseSem := responseSem s - 1, client := Idle\<rparr>), [Succeeded req_id])
     | _ \<Rightarrow> (s, []))"

definition request_expired :: "ipc \<Rightarrow> ipc \<times> event list" where
  "request_expired s =
    (case client s of Waiting api_id req_id \<Rightarrow> (s\<lparr>client := TimedOut api_id req_id\<rparr>, []) | _ \<Rightarrow> (s, []))"

definition request_reset :: "ipc \<Rightarrow> ipc \<times> event list" where
  "request_reset s =
    (case client s of
       TimedOut api_id req_id \<Rightarrow>
         (set_power_save api_id (s\<lparr>pendingReqId := REQ_ID_RESET_VAL, client := Idle\<rparr>), [Failed])
     | _ \<Rightarrow> (s, []))"

section \<open>Responses\<close>

definition processResponse :: "u32 \<Rightarrow> u8 list \<Rightarrow> ipc \<Rightarrow> ipc \<times> event list" where
  "processResponse reqId payload s =
    (if pendingReqId s = reqId then
       (let s = (case pendingPtr s of
                   Some k \<Rightarrow>
                     (let (buf, sz) = resp s k in
                      if 0 < sz then
                        (let buffer_size = length payload - PACKET_MIN_SIZE;
                             actual_size = (if unat sz < buffer_size then unat sz else buffer_size);
                             buf = take actual_size (drop 6 payload) @ drop actual_size buf
                         in s\<lparr>resp := (resp s)(k := (buf, of_nat actual_size))\<rparr>)
                      else s)
                 | None \<Rightarrow> s);
            s = s\<lparr>pendingReqId := REQ_ID_RESET_VAL\<rparr>
        in if responseSem s < 1 then (s\<lparr>responseSem := responseSem s + 1\<rparr>, [Answered reqId])
           else (s\<lparr>client := Hung\<rparr>, [Answered reqId]))
     else (s, []))"

definition poll :: "u8 list \<Rightarrow> ipc \<Rightarrow> ipc \<times> event list" where
  "poll payload s =
    (if PACKET_MIN_SIZE \<le> length payload then
       (let req_id = GetReqId payload; api_id = GetApiId payload in
        if api_id AND MIPC_API_EVENT_BASE = 0 then processResponse req_id payload s
        else (s, [ModuleEvent api_id]))
     else (s, [Dropped]))"

text \<open>The echo test of the protocol.\<close>

definition echo_allowed :: "u16 \<Rightarrow> u16 \<Rightarrow> bool" where
  "echo_allowed ipc_payload_size dataInLength \<longleftrightarrow>
     6 \<le> dataInLength \<and> int (unat dataInLength) - 6 \<le> int (unat ipc_payload_size)"

section \<open>Runs of the two threads\<close>

datatype label =
    Request "u8 list" u16 nat
  | Packet "u8 list"
  | Take
  | Expire
  | Reset

fun enabled :: "label \<Rightarrow> ipc \<Rightarrow> bool" where
  "enabled (Request cmd n k) s \<longleftrightarrow> client s = Idle \<and> 6 \<le> length cmd"
| "enabled (Packet p) s \<longleftrightarrow> client s \<noteq> Hung"
| "enabled Take s \<longleftrightarrow> (\<exists>a r. client s = Waiting a r) \<and> 0 < responseSem s"
| "enabled Expire s \<longleftrightarrow> (\<exists>a r. client s = Waiting a r) \<and> responseSem s = 0"
| "enabled Reset s \<longleftrightarrow> (\<exists>a r. client s = TimedOut a r)"

fun exec :: "u16 \<Rightarrow> label \<Rightarrow> ipc \<Rightarrow> ipc \<times> event list" where
  "exec nbs (Request cmd n k) s = request_begin nbs cmd n k s"
| "exec nbs (Packet p) s = poll p s"
| "exec nbs Take s = request_taken s"
| "exec nbs Expire s = request_expired s"
| "exec nbs Reset s = request_reset s"

text \<open>
  Runs from a state: at every step either thread may go on. A response is stray when its number is the
  one the module's answer is expected under while no request waits for it.
\<close>

inductive run :: "u16 \<Rightarrow> ipc \<Rightarrow> label list \<Rightarrow> ipc \<Rightarrow> event list \<Rightarrow> bool"
  for nbs :: u16 and s0 :: ipc where
  run_nil: "run nbs s0 [] s0 []"
| run_step: "run nbs s0 ls s es \<Longrightarrow> enabled l s \<Longrightarrow> exec nbs l s = (s', es') \<Longrightarrow>
     run nbs s0 (ls @ [l]) s' (es @ es')"

definition stray :: "u8 list \<Rightarrow> ipc \<Rightarrow> bool" where
  "stray p s \<longleftrightarrow> PACKET_MIN_SIZE \<le> length p \<and> GetApiId p AND MIPC_API_EVENT_BASE = 0 \<and>
     GetReqId p = pendingReqId s \<and>
     (case client s of Waiting a r \<Rightarrow> r \<noteq> GetReqId p | _ \<Rightarrow> True)"

section \<open>Identifiers\<close>

text \<open>
  the request number written into a command is read back, and writing it leaves the API
  identifier and the length of the command alone; the same holds with the two exchanged.
\<close>

theorem ids_roundtrip:
  assumes "6 \<le> length b"
  shows "GetReqId (SetReqId b r) = r \<and> GetApiId (SetReqId b r) = GetApiId b \<and>
         GetApiId (SetApiId b a) = a \<and> GetReqId (SetApiId b a) = GetReqId b \<and>
         length (SetReqId b r) = length b \<and> drop 6 (SetReqId b r) = drop 6 b"
proof -
  obtain b0 b1 b2 b3 b4 b5 bs where b: "b = b0 # b1 # b2 # b3 # b4 # b5 # bs"
    using assms by (auto simp: numeral_eq_Suc Suc_le_length_iff)
  have "GetReqId (SetReqId b r) = r"
    unfolding b by (intro word_eq_bitsI) (simp add: bit_positions GetReqId_def SetReqId_def bit_simps)
  moreover have "GetApiId (SetApiId b a) = a"
    unfolding b by (intro word_eq_bitsI) (simp add: bit_positions GetApiId_def SetApiId_def bit_simps)
  ultimately show ?thesis
    by (simp add: b GetApiId_def GetReqId_def SetReqId_def SetApiId_def)
qed

theorem ids_roundtrip_witness:
  "GetReqId (SetReqId [0, 0, 0, 0, 9, 1] 0xDEADBEEF) = 0xDEADBEEF"
  using ids_roundtrip [of "[0, 0, 0, 0, 9, 1]" "0xDEADBEEF"] by simp

lemma GetNewReqId_fresh': "GetNewReqId r \<noteq> REQ_ID_RESET_VAL \<and> GetNewReqId r \<noteq> r"
proof (cases "r + 1 = 0xFFFFFFFF")
  case True
  then have "r = 0xFFFFFFFE" by (simp add: eq_diff_eq [symmetric])
  then show ?thesis by (simp add: GetNewReqId_def REQ_ID_RESET_VAL_def)
next
  case False
  then show ?thesis by (simp add: GetNewReqId_def REQ_ID_RESET_VAL_def Let_def)
qed

text \<open>a new request number is never the value that marks the absence of a request, nor the last one.\<close>

theorem GetNewReqId_fresh: "GetNewReqId r \<noteq> REQ_ID_RESET_VAL \<and> GetNewReqId r \<noteq> r"
  by (rule GetNewReqId_fresh')
section \<open>A response\<close>

text \<open>
  C36: a response with the number of the pending request puts its parameters, cut to the caller's
  buffer, at the start of that buffer, sets the size variable to their number, ends the request and
  signals it; any other response changes nothing.
\<close>

theorem processResponse_delivers:
  assumes "6 \<le> length p" and "length p < 65536" and "GetApiId p AND MIPC_API_EVENT_BASE = 0"
    and "pendingPtr s = Some k" and "resp s k = (buf, sz)" and "0 < sz" and "responseSem s = 0"
    and "unat sz \<le> length buf"
  shows "if GetReqId p = pendingReqId s then
      (let n = min (unat sz) (length p - 6); s' = fst (poll p s) in
       pendingReqId s' = REQ_ID_RESET_VAL \<and> responseSem s' = 1 \<and>
       resp s' = (resp s)(k := (take n (drop 6 p) @ drop n buf, of_nat n)) \<and>
       length (fst (resp s' k)) = length buf \<and> unat (snd (resp s' k)) = n)
    else fst (poll p s) = s"
proof (cases "GetReqId p = pendingReqId s")
  case True
  let ?n = "min (unat sz) (length p - 6)"
  have "?n \<le> length buf" using assms(8) by simp
  moreover have "unat (of_nat ?n :: u16) = ?n"
    using assms(2) by (simp add: unat_of_nat take_bit_nat_eq_self)
  moreover have "(if unat sz < length p - 6 then unat sz else length p - 6) = ?n" by (simp add: min_def)
  ultimately show ?thesis
    using True assms by (simp add: poll_def processResponse_def PACKET_MIN_SIZE_def Let_def)
next
  case False
  then show ?thesis using assms by (simp add: poll_def processResponse_def PACKET_MIN_SIZE_def Let_def)
qed


theorem processResponse_delivers_witness:
  "resp (fst (poll [7, 0, 0, 0, 1, 0, 42, 43]
     \<lparr>isUsable = True, pendingReqId = 7, pendingPtr = Some 0, resp = (\<lambda>k. ([0, 0, 0], 3)),
      responseSem = 0, lastReqId = 7, isPowerSave = False, link = sending 0, client = Idle\<rparr>)) 0 =
   ([42, 43, 0], 2)"
proof -
  have "GetReqId [7, 0, 0, 0, 1, 0, 42, 43] = 7" "GetApiId [7, 0, 0, 0, 1, 0, 42, 43] AND MIPC_API_EVENT_BASE = 0"
    by code_simp+
  then show ?thesis
    using processResponse_delivers [of "[7, 0, 0, 0, 1, 0, 42, 43]"
      "\<lparr>isUsable = True, pendingReqId = 7, pendingPtr = Some 0, resp = (\<lambda>k. ([0, 0, 0], 3)),
      responseSem = 0, lastReqId = 7, isPowerSave = False, link = sending 0, client = Idle\<rparr>" 0 "[0, 0, 0]" 3]
    by (simp add: Let_def)
qed

section \<open>Requests and their answers\<close>

definition ipc_inv :: "ipc \<Rightarrow> event list \<Rightarrow> bool" where
  "ipc_inv s es \<longleftrightarrow> isUsable s \<and>
     (case client s of
        Idle \<Rightarrow> pendingReqId s = REQ_ID_RESET_VAL \<and> responseSem s = 0
      | Waiting a r \<Rightarrow> r \<noteq> REQ_ID_RESET_VAL \<and>
          (pendingReqId s = r \<and> responseSem s = 0 \<or>
           pendingReqId s = REQ_ID_RESET_VAL \<and> responseSem s = 1 \<and> Answered r \<in> set es)
      | TimedOut a r \<Rightarrow> r \<noteq> REQ_ID_RESET_VAL \<and>
          (pendingReqId s = r \<and> responseSem s = 0)
      | Hung \<Rightarrow> False) \<and>
     (\<forall>i r. i < length es \<and> es ! i = Succeeded r \<longrightarrow> Answered r \<in> set (take i es))"

lemma answered_log_append:
  assumes "\<forall>i r. i < length es \<and> es ! i = Succeeded r \<longrightarrow> Answered r \<in> set (take i es)"
    and "\<forall>r. Succeeded r \<in> set es' \<longrightarrow> Answered r \<in> set es" and "length es' \<le> 1"
  shows "\<forall>i r. i < length (es @ es') \<and> (es @ es') ! i = Succeeded r \<longrightarrow> Answered r \<in> set (take i (es @ es'))"
proof (intro allI impI)
  fix i r assume i: "i < length (es @ es') \<and> (es @ es') ! i = Succeeded r"
  show "Answered r \<in> set (take i (es @ es'))"
  proof (cases "i < length es")
    case True
    then show ?thesis using i assms(1) by (auto simp: nth_append)
  next
    case False
    then have "i = length es" using i assms(3) by auto
    moreover have "Succeeded r \<in> set es'"
      using i False nth_mem [of "i - length es" es'] by (auto simp: nth_append)
    ultimately show ?thesis using assms(2) by auto
  qed
qed

lemma send_accepted:
  "n \<le> SPI_MAX_BYTE_COUNT \<Longrightarrow> snd (hci_Send l p n) = 0"
  by (simp add: hci_Send_def sendImp_def not_less split: prod.splits)

lemma power_save_fields [simp]:
  "isUsable (set_power_save a s) = isUsable s" "client (set_power_save a s) = client s"
  "pendingReqId (set_power_save a s) = pendingReqId s" "responseSem (set_power_save a s) = responseSem s"
  by (simp_all add: set_power_save_def Let_def)

lemma allowed_fits:
  "command_size_allowed nbs a n \<Longrightarrow> nbs \<le> SPI_MAX_BYTE_COUNT \<Longrightarrow> n \<le> SPI_MAX_BYTE_COUNT"
  by (auto simp: command_size_allowed_def SPI_MAX_BYTE_COUNT_def split: if_splits)

lemma request_begin_inv:
  assumes "ipc_inv s es" and "client s = Idle" and "nbs \<le> SPI_MAX_BYTE_COUNT"
    and "request_begin nbs cmd n k s = (s', es')"
  shows "ipc_inv s' (es @ es')"
proof -
  have i: "isUsable s" "pendingReqId s = REQ_ID_RESET_VAL" "responseSem s = 0"
    "\<forall>i r. i < length es \<and> es ! i = Succeeded r \<longrightarrow> Answered r \<in> set (take i es)"
    using assms(1,2) by (simp_all add: ipc_inv_def)
  show ?thesis
  proof (cases "command_size_allowed nbs (GetApiId cmd) n")
    case True
    have "st = 0" if "hci_Send l p n = (l', st)" for l l' p st
      using send_accepted [OF allowed_fits [OF True assms(3)], of l p] that by simp
    then have "\<exists>l r. s' = s\<lparr>lastReqId := GetNewReqId (lastReqId s), pendingReqId := GetNewReqId (lastReqId s),
        pendingPtr := Some k, link := l, client := Waiting (GetApiId cmd) (GetNewReqId (lastReqId s))\<rparr> \<and> es' = []"
      using assms(4) True i by (auto simp: request_begin_def Let_def split: prod.splits if_splits)
    then show ?thesis
      using i GetNewReqId_fresh' [of "lastReqId s"] by (auto simp: ipc_inv_def)
  next
    case False
    then have "s' = set_power_save (GetApiId cmd) s" "es' = [Failed]"
      using assms(4) i by (simp_all add: request_begin_def)
    then show ?thesis
      using i assms(2) answered_log_append [OF i(4), of "[Failed]"] by (auto simp: ipc_inv_def)
  qed
qed

lemma poll_inv:
  assumes inv: "ipc_inv s es" and "\<not> stray p s" and "client s \<noteq> Hung"
    and "poll p s = (s', es')"
  shows "ipc_inv s' (es @ es')"
proof -
  have log: "\<forall>i r. i < length es \<and> es ! i = Succeeded r \<longrightarrow> Answered r \<in> set (take i es)"
    using inv by (simp add: ipc_inv_def)
  have quiet: "ipc_inv s (es @ es')" if "es' = [] \<or> (\<exists>a. es' = [ModuleEvent a]) \<or> es' = [Dropped]"
    using inv that answered_log_append [OF log, of es'] by (auto simp: ipc_inv_def split: client.splits)
  show ?thesis
  proof (cases "PACKET_MIN_SIZE \<le> length p \<and> GetApiId p AND MIPC_API_EVENT_BASE = 0 \<and> pendingReqId s = GetReqId p")
    case True
    then obtain a where w: "client s = Waiting a (pendingReqId s)" "responseSem s = 0"
      using assms(2) inv by (auto simp: ipc_inv_def stray_def split: client.splits)
    have "es' = [Answered (GetReqId p)]" "pendingReqId s' = REQ_ID_RESET_VAL" "responseSem s' = 1"
      "client s' = client s" "isUsable s' = isUsable s"
      using assms(4) True w
      by (auto simp: poll_def processResponse_def Let_def split: option.splits prod.splits if_splits)
    then show ?thesis
      using w inv True answered_log_append [OF log, of es'] by (auto simp: ipc_inv_def)
  next
    case False
    then have "s' = s" "es' = [] \<or> (\<exists>a. es' = [ModuleEvent a]) \<or> es' = [Dropped]"
      using assms(4) by (auto simp: poll_def processResponse_def Let_def split: if_splits)
    then show ?thesis using quiet by simp
  qed
qed

lemma exec_inv:
  assumes "ipc_inv s es" and "enabled l s" and "nbs \<le> SPI_MAX_BYTE_COUNT"
    and "\<And>p. l = Packet p \<Longrightarrow> \<not> stray p s"
    and "exec nbs l s = (s', es')"
  shows "ipc_inv s' (es @ es')"
proof (cases l)
  case (Request cmd n k)
  then show ?thesis using assms request_begin_inv by auto
next
  case (Packet p)
  then show ?thesis using assms poll_inv [of s es p s' es'] by fastforce
next
  case Take
  then obtain a r where w: "client s = Waiting a r" and p: "0 < responseSem s" using assms(2) by auto
  have "Answered r \<in> set es" using assms(1) w p by (auto simp: ipc_inv_def)
  then show ?thesis
    using assms(1,5) w p Take answered_log_append [of es "[Succeeded r]"]
    by (auto simp: ipc_inv_def request_taken_def)
next
  case Expire
  then show ?thesis using assms by (auto simp: ipc_inv_def request_expired_def)
next
  case Reset
  then show ?thesis
    using assms(1,2,5) answered_log_append [of es "[Failed]"] by (auto simp: ipc_inv_def request_reset_def)
qed

lemma stray_cases:
  assumes "ipc_inv s es" and "stray p s"
  shows "GetReqId p = REQ_ID_RESET_VAL \<or> (\<exists>a. client s = TimedOut a (GetReqId p))"
  using assms by (auto simp: ipc_inv_def stray_def split: client.splits)

lemma run_inv:
  assumes "run nbs (ipc_initialize s0) ls s es" and "nbs \<le> SPI_MAX_BYTE_COUNT"
  shows "ipc_inv s es \<or>
    (\<exists>ls1 p ls2 s1 es1. ls = ls1 @ Packet p # ls2 \<and> run nbs (ipc_initialize s0) ls1 s1 es1 \<and>
       ipc_inv s1 es1 \<and> stray p s1)"
  using assms(1)
proof induction
  case run_nil
  then show ?case by (simp add: ipc_inv_def ipc_initialize_def)
next
  case (run_step ls s es l s' es')
  show ?case
  proof (cases "ipc_inv s es")
    case inv: True
    show ?thesis
    proof (cases "\<exists>p. l = Packet p \<and> stray p s")
      case True
      then obtain p where "l = Packet p" "stray p s" by auto
      then show ?thesis using run_step.hyps(1) inv
        by (intro disjI2 exI [of _ ls] exI [of _ p] exI [of _ "[]"] exI) auto
    next
      case False
      then have "ipc_inv s' (es @ es')"
        by (intro exec_inv [OF inv run_step.hyps(2) assms(2) _ run_step.hyps(3)]) simp
      then show ?thesis by simp
    qed
  next
    case False
    then obtain ls1 p ls2 s1 es1 where "ls = ls1 @ Packet p # ls2"
      "run nbs (ipc_initialize s0) ls1 s1 es1 \<and> ipc_inv s1 es1 \<and> stray p s1"
      using run_step.IH by blast
    then show ?thesis by (intro disjI2 exI [of _ ls1] exI [of _ p] exI [of _ "ls2 @ [l]"] exI) simp_all
  qed
qed

text \<open>
  C1: in every run of the two threads, with any packets at any moments, either the client does not hang
  in a failed assertion and each request that succeeds was answered, under its own number, before it
  succeeded; or the run took a stray response: one that carries the reserved number of no request, or
  the late answer to a request that has timed out and not yet withdrawn its number.
\<close>

theorem success_was_answered:
  assumes "run nbs (ipc_initialize s0) ls s es" and "nbs \<le> SPI_MAX_BYTE_COUNT"
  shows "client s \<noteq> Hung \<and>
      (\<forall>i r. i < length es \<and> es ! i = Succeeded r \<longrightarrow> Answered r \<in> set (take i es)) \<or>
    (\<exists>ls1 p ls2 s1 es1. ls = ls1 @ Packet p # ls2 \<and> run nbs (ipc_initialize s0) ls1 s1 es1 \<and>
       stray p s1 \<and>
       (GetReqId p = REQ_ID_RESET_VAL \<or> (\<exists>a. client s1 = TimedOut a (GetReqId p))))"
  using run_inv [OF assms]
proof
  assume i: "ipc_inv s es"
  then have "client s \<noteq> Hung" by (auto simp: ipc_inv_def)
  then show ?thesis using i by (simp add: ipc_inv_def)
next
  assume "\<exists>ls1 p ls2 s1 es1. ls = ls1 @ Packet p # ls2 \<and> run nbs (ipc_initialize s0) ls1 s1 es1 \<and>
    ipc_inv s1 es1 \<and> stray p s1"
  then obtain ls1 p ls2 s1 es1 where p: "ls = ls1 @ Packet p # ls2" "run nbs (ipc_initialize s0) ls1 s1 es1"
    "stray p s1" and i: "ipc_inv s1 es1"
    by (elim exE conjE) (rule that, assumption+)
  show ?thesis
    by (intro disjI2 exI [of _ ls1] exI [of _ p] exI [of _ ls2] exI [of _ s1] exI [of _ es1] conjI p
        stray_cases [OF i p(3)])
qed

text \<open>Runs computed step by step.\<close>

fun compute_run :: "u16 \<Rightarrow> label list \<Rightarrow> ipc \<times> event list \<Rightarrow> (ipc \<times> event list) option" where
  "compute_run nbs [] (s, es) = Some (s, es)"
| "compute_run nbs (l # ls) (s, es) =
    (if enabled l s
     then (case exec nbs l s of (s', es') \<Rightarrow> compute_run nbs ls (s', es @ es'))
     else None)"

lemma compute_run_sound:
  assumes "run nbs s0 ls0 s es" and "compute_run nbs ls (s, es) = Some (s', es')"
  shows "run nbs s0 (ls0 @ ls) s' es'"
  using assms
proof (induction ls arbitrary: s es ls0)
  case Nil
  then show ?case by simp
next
  case (Cons l ls)
  obtain s1 es1 where e: "exec nbs l s = (s1, es1)" by fastforce
  have "run nbs s0 (ls0 @ [l]) s1 (es @ es1)"
    by (rule run_step [OF Cons.prems(1) _ e]) (use Cons.prems(2) in \<open>auto split: if_splits\<close>)
  then show ?case using Cons.IH [of "ls0 @ [l]" s1 "es @ es1"] Cons.prems(2) e by (auto split: if_splits)
qed

definition first_ipc :: ipc where
  "first_ipc = \<lparr>isUsable = False, pendingReqId = 0, pendingPtr = None, resp = (\<lambda>k. ([0, 0], 2)),
     responseSem = 0, lastReqId = 0xFFFFFFFD, isPowerSave = False, link = sending 0, client = Idle\<rparr>"

definition echo_cmd :: "u8 list" where "echo_cmd = [0, 0, 0, 0, 1, 0]"

definition good_run :: "label list" where
  "good_run = [Request echo_cmd 6 0, Packet (SetReqId echo_cmd 0xFFFFFFFE), Take]"

lemma echo_values:
  "GetApiId echo_cmd = 1" "GetReqId (SetReqId echo_cmd 0xFFFFFFFE) = 0xFFFFFFFE"
  "GetApiId (SetReqId echo_cmd 0xFFFFFFFE) = 1" "length echo_cmd = 6"
  "length (SetReqId echo_cmd 0xFFFFFFFE) = 6"
  "GetNewReqId 0xFFFFFFFD = 0xFFFFFFFE" "GetNewReqId 0xFFFFFFFE = 0"
  "command_size_allowed 1542 1 6" "(1 :: u16) AND MIPC_API_EVENT_BASE = 0"
  by code_simp+

lemmas run_simps = echo_values hci_Send_def sendImp_def SPI_MAX_BYTE_COUNT_def ipc_initialize_def first_ipc_def request_begin_def poll_def
  processResponse_def request_taken_def request_expired_def request_reset_def set_power_save_def
  PACKET_MIN_SIZE_def REQ_ID_RESET_VAL_def eWIFI_PS_ON_CMD_def eWIFI_PS_OFF_CMD_def Let_def

lemma good_run_computed:
  "map_option snd (compute_run 1542 good_run (ipc_initialize first_ipc, [])) =
     Some [Answered 0xFFFFFFFE, Succeeded 0xFFFFFFFE]"
  by (simp add: good_run_def run_simps)

inductive_cases run_nilE: "run nbs s0 [] s es"
inductive_cases run_snocE: "run nbs s0 (ls @ [l]) s es"

lemma first_request:
  assumes "run 1542 (ipc_initialize first_ipc) [Request echo_cmd 6 0] s es"
  shows "client s = Waiting 1 0xFFFFFFFE"
proof -
  have "exec 1542 (Request echo_cmd 6 0) (ipc_initialize first_ipc) = (s, es)"
    using assms
    by (elim run_snocE [where ls = "[]", simplified] run_nilE) auto
  then show ?thesis by (auto simp: run_simps)
qed

theorem success_was_answered_witness:
  "\<exists>s. run 1542 (ipc_initialize first_ipc) good_run s [Answered 0xFFFFFFFE, Succeeded 0xFFFFFFFE] \<and>
     client s \<noteq> Hung"
proof -
  obtain s where "compute_run 1542 good_run (ipc_initialize first_ipc, []) =
      Some (s, [Answered 0xFFFFFFFE, Succeeded 0xFFFFFFFE])"
    using good_run_computed by auto
  from compute_run_sound [OF run_nil this]
  have r: "run 1542 (ipc_initialize first_ipc) good_run s [Answered 0xFFFFFFFE, Succeeded 0xFFFFFFFE]"
    by simp
  have "GetReqId p \<noteq> REQ_ID_RESET_VAL \<and> client s1 \<noteq> TimedOut a (GetReqId p)"
    if "good_run = ls1 @ Packet p # ls2" "run 1542 (ipc_initialize first_ipc) ls1 s1 es1" for ls1 p ls2 s1 es1 a
  proof -
    have "ls1 = [Request echo_cmd 6 0] \<and> p = SetReqId echo_cmd 0xFFFFFFFE"
      using that(1) by (auto simp: good_run_def Cons_eq_append_conv)
    then show ?thesis using first_request [of s1 es1] that(2) by (simp add: echo_values REQ_ID_RESET_VAL_def)
  qed
  then show ?thesis
    using success_was_answered [OF r] r by (simp add: SPI_MAX_BYTE_COUNT_def) blast
qed

section \<open>What a stray response does\<close>









end
