(* ===== verification/Emw_Api.thy ===== *)
theory Emw_Api
  imports Emw_Ipc Emw_Address
begin

text \<open>
  The commands of the driver (\<^verbatim>\<open>drivers/emw/EmwApiCore.cpp\<close>, \<^verbatim>\<open>EmwApiEmwBypass.cpp\<close>, with the structures of
  \<^verbatim>\<open>EmwCoreIpc.hpp\<close> and \<^verbatim>\<open>EmwApiBase.hpp\<close>): what each call sends to the module as bytes, what it makes of the answer, the
  count of the users of the driver, and the events of the module. The state keeps the commands sent and the answers still to come; an answer
  \<open>None\<close> is a request that fails. What happens between a request and its answer is the matter of \<open>Emw_Ipc\<close>.
\<close>

section \<open>Bytes\<close>

definition le16_bytes :: "u16 \<Rightarrow> u8 list" where "le16_bytes w = [ucast w, ucast (drop_bit 8 w)]"
definition le32 :: "u32 \<Rightarrow> u8 list" where
  "le32 w = [ucast w, ucast (drop_bit 8 w), ucast (drop_bit 16 w), ucast (drop_bit 24 w)]"

definition from_le32 :: "u8 list \<Rightarrow> u32" where
  "from_le32 bs = ucast (bs ! 0) OR push_bit 8 (ucast (bs ! 1)) OR push_bit 16 (ucast (bs ! 2)) OR push_bit 24 (ucast (bs ! 3))"

text \<open>The text in an array of characters.\<close>

definition text_in :: "u8 list \<Rightarrow> u8 list" where "text_in s = takeWhile (\<lambda>c. c \<noteq> 0) s"

fun copy_chars :: "nat \<Rightarrow> u8 list \<Rightarrow> u8 list" where
  "copy_chars (Suc n) (c # s) = (if c = 0 then [] else c # copy_chars n s)"
| "copy_chars _ _ = []"

definition copyStringToArray :: "nat \<Rightarrow> u8 list \<Rightarrow> u8 list" where
  "copyStringToArray destinationCount source =
    (let d = copy_chars (destinationCount - 1) source in d @ replicate (destinationCount - length d) 0)"

section \<open>Command structures\<close>

definition eSYS_REBOOT_CMD :: u16 where "eSYS_REBOOT_CMD = 2"
definition eSYS_VERSION_CMD :: u16 where "eSYS_VERSION_CMD = 3"
definition eSYS_RESET_CMD :: u16 where "eSYS_RESET_CMD = 4"
definition eWIFI_GET_MAC_CMD :: u16 where "eWIFI_GET_MAC_CMD = 0x0101"
definition eWIFI_SCAN_CMD :: u16 where "eWIFI_SCAN_CMD = 0x0102"
definition eWIFI_CONNECT_CMD :: u16 where "eWIFI_CONNECT_CMD = 0x0103"
definition eWIFI_DISCONNECT_CMD :: u16 where "eWIFI_DISCONNECT_CMD = 0x0104"
definition eWIFI_SOFTAP_START_CMD :: u16 where "eWIFI_SOFTAP_START_CMD = 0x0105"
definition eWIFI_SOFTAP_STOP_CMD :: u16 where "eWIFI_SOFTAP_STOP_CMD = 0x0106"
definition eWIFI_GET_IP_CMD :: u16 where "eWIFI_GET_IP_CMD = 0x0107"
definition eWIFI_GET_LINKINFO_CMD :: u16 where "eWIFI_GET_LINKINFO_CMD = 0x0108"
definition eWIFI_BYPASS_SET_CMD :: u16 where "eWIFI_BYPASS_SET_CMD = 0x010C"
definition eWIFI_BYPASS_OUT_CMD :: u16 where "eWIFI_BYPASS_OUT_CMD = 0x010E"
definition eWIFI_EAP_CONNECT_CMD :: u16 where "eWIFI_EAP_CONNECT_CMD = 0x0110"
definition eWIFI_WPS_CONNECT_CMD :: u16 where "eWIFI_WPS_CONNECT_CMD = 0x0111"
definition eWIFI_WPS_STOP_CMD :: u16 where "eWIFI_WPS_STOP_CMD = 0x0112"
definition eWIFI_GET_IP6_STATE_CMD :: u16 where "eWIFI_GET_IP6_STATE_CMD = 0x0113"
definition eWIFI_GET_IP6_ADDR_CMD :: u16 where "eWIFI_GET_IP6_ADDR_CMD = 0x0114"
definition eWIFI_GET_SOFT_MAC_CMD :: u16 where "eWIFI_GET_SOFT_MAC_CMD = 0x0115"

lemmas command_ids = eSYS_REBOOT_CMD_def eSYS_VERSION_CMD_def eSYS_RESET_CMD_def eWIFI_GET_MAC_CMD_def eWIFI_SCAN_CMD_def
  eWIFI_CONNECT_CMD_def eWIFI_DISCONNECT_CMD_def eWIFI_SOFTAP_START_CMD_def eWIFI_SOFTAP_STOP_CMD_def eWIFI_GET_IP_CMD_def
  eWIFI_GET_LINKINFO_CMD_def eWIFI_BYPASS_SET_CMD_def eWIFI_BYPASS_OUT_CMD_def eWIFI_EAP_CONNECT_CMD_def eWIFI_WPS_CONNECT_CMD_def
  eWIFI_WPS_STOP_CMD_def eWIFI_GET_IP6_STATE_CMD_def eWIFI_GET_IP6_ADDR_CMD_def eWIFI_GET_SOFT_MAC_CMD_def
  eWIFI_EAP_SET_CERT_CMD_def eWIFI_PS_ON_CMD_def eWIFI_PS_OFF_CMD_def

text \<open>The header of a command: its number, set when it is sent, and its identifier.\<close>

definition CmdParams :: "u16 \<Rightarrow> u8 list" where
  "CmdParams apiId = [0, 0, 0, 0, ucast (apiId AND 0x00FF), ucast (drop_bit 8 (apiId AND 0xFF00))]"

record IpAttributes =
  ipAddressLocal :: "u8 list"
  networkMask :: "u8 list"
  gatewayAddress :: "u8 list"
  dnsServerAddress :: "u8 list"

record ConnectAttributes =
  bssid :: "u8 list"
  channel :: u8
  security :: u8

record ConnectParams =
  c_ssid :: "u8 list"
  c_key :: "u8 list"
  keyLength :: u32
  useAttribute :: u8
  useIp :: u8
  c_attr :: ConnectAttributes
  c_ip :: IpAttributes

record EapConnectParams =
  e_ssid :: "u8 list"
  e_identity :: "u8 list"
  e_password :: "u8 list"
  attrUsed :: u8
  attrType :: u8
  ipUsed :: u8
  e_ip :: IpAttributes

definition no_ip :: IpAttributes where
  "no_ip = \<lparr>ipAddressLocal = replicate 16 0, networkMask = replicate 16 0, gatewayAddress = replicate 16 0, dnsServerAddress = replicate 16 0\<rparr>"

definition new_connect :: ConnectParams where
  "new_connect = \<lparr>c_ssid = replicate 33 0, c_key = replicate 65 0, keyLength = 0, useAttribute = 0, useIp = 0,
     c_attr = \<lparr>bssid = replicate 6 0, channel = 0, security = 0\<rparr>, c_ip = no_ip\<rparr>"

definition new_eap_connect :: EapConnectParams where
  "new_eap_connect = \<lparr>e_ssid = replicate 32 0, e_identity = replicate 32 0, e_password = replicate 64 0, attrUsed = 0, attrType = 0,
     ipUsed = 0, e_ip = no_ip\<rparr>"

definition ip_bytes :: "IpAttributes \<Rightarrow> u8 list" where
  "ip_bytes i = ipAddressLocal i @ networkMask i @ gatewayAddress i @ dnsServerAddress i"

definition connect_bytes :: "ConnectParams \<Rightarrow> u8 list" where
  "connect_bytes p = CmdParams eWIFI_CONNECT_CMD @ c_ssid p @ c_key p @ le32 (keyLength p) @ [useAttribute p, useIp p] @
     bssid (c_attr p) @ [channel (c_attr p), security (c_attr p)] @ ip_bytes (c_ip p)"

text \<open>The three pointers behind the type of the certificates stay null.\<close>

definition eap_connect_bytes :: "EapConnectParams \<Rightarrow> u8 list" where
  "eap_connect_bytes p = CmdParams eWIFI_EAP_CONNECT_CMD @ e_ssid p @ e_identity p @ e_password p @ [attrUsed p] @
     (attrType p # replicate 12 0) @ [ipUsed p] @ ip_bytes (e_ip p)"

section \<open>State\<close>

datatype Status = eEMW_STATUS_OK | eEMW_STATUS_ERROR | eEMW_STATUS_PARAM_ERROR
datatype EmwInterface = eSOFTAP | eSTATION

record emw_api =
  usable :: bool
  receiving :: bool
  interfaces :: u8
  timeoutInMs :: u32
  firmwareRevision :: "u8 list"
  mac48bitsSoftAp :: "u8 list"
  mac48bitsStation :: "u8 list"
  dhcpIsEnabled :: bool
  stationConnected :: u8
  ipAddress :: "u8 list"
  ipMask :: "u8 list"
  gatewayAddr :: "u8 list"
  dns1 :: "u8 list"
  ipv6Address :: "u8 list list"
  lastScanResults :: "u8 list"
  wiFiStatusCallbacks :: "nat option list"
  wiFiStatusCallbackArgs :: "nat option list"
  fotaStatusCallback :: "nat option"
  netlinkInputCallback :: "nat option"
  network_buffer_size :: u16
  malloc_junk :: u8
  answers :: "u8 list option list"
  sent :: "u8 list list"

definition new_api :: "u16 \<Rightarrow> u8 list option list \<Rightarrow> emw_api" where
  "new_api nbs ans = \<lparr>usable = False, receiving = False, interfaces = 0, timeoutInMs = 10000,
     firmwareRevision = [86, 48, 46, 48, 46, 48] @ replicate 18 0, mac48bitsSoftAp = replicate 6 0, mac48bitsStation = replicate 6 0,
     dhcpIsEnabled = True, stationConnected = 0, ipAddress = replicate 4 0, ipMask = replicate 4 0, gatewayAddr = replicate 4 0,
     dns1 = replicate 4 0, ipv6Address = replicate 3 (replicate 16 0), lastScanResults = replicate 481 0,
     wiFiStatusCallbacks = [None, None], wiFiStatusCallbackArgs = [None, None], fotaStatusCallback = None, netlinkInputCallback = None,
     network_buffer_size = nbs, malloc_junk = 0, answers = ans, sent = []\<rparr>"

section \<open>Requests\<close>

text \<open>What an answer leaves in the buffer of the caller.\<close>

definition fill_response :: "u8 list \<Rightarrow> u8 list \<Rightarrow> u8 list" where
  "fill_response buf p = (let n = (if length buf < length p then length buf else length p) in take n p @ drop n buf)"

definition request :: "u8 list \<Rightarrow> u16 \<Rightarrow> u8 list \<Rightarrow> emw_api \<Rightarrow> bool \<times> u8 list \<times> emw_api" where
  "request commandData commandDataSize buf s =
    (if usable s \<and> command_size_allowed (network_buffer_size s) (GetApiId commandData) commandDataSize then
       (let s = s\<lparr>sent := sent s @ [take (unat commandDataSize) commandData]\<rparr> in
        case answers s of
          [] \<Rightarrow> (False, buf, s)
        | None # as \<Rightarrow> (False, buf, s\<lparr>answers := as\<rparr>)
        | Some p # as \<Rightarrow> (True, fill_response buf p, s\<lparr>answers := as\<rparr>))
     else (False, buf, s))"

definition request_all :: "u8 list \<Rightarrow> u8 list \<Rightarrow> emw_api \<Rightarrow> bool \<times> u8 list \<times> emw_api" where
  "request_all commandData buf s = request commandData (of_nat (length commandData)) buf s"

text \<open>A command that is answered by a status alone (\<^verbatim>\<open>SysCommonResponseParams_t\<close>), set to \<open>-1\<close> before.\<close>

definition command_with_status :: "u8 list \<Rightarrow> emw_api \<Rightarrow> Status \<times> emw_api" where
  "command_with_status c s =
    (let (success, r, s) = request_all c (le32 (- 1)) s in
     (if success \<and> from_le32 r = 0 then eEMW_STATUS_OK else eEMW_STATUS_ERROR, s))"

section \<open>Start and end of the driver\<close>

definition api_unInitialize :: "emw_api \<Rightarrow> emw_api" where
  "api_unInitialize s =
    (if interfaces s = 1 then s\<lparr>interfaces := 0, receiving := False, usable := False\<rparr>
     else if 0 < interfaces s then s\<lparr>interfaces := interfaces s - 1\<rparr>
     else s)"

text \<open>\<open>V2.3.4\<close>, and the sign of \<^verbatim>\<open>strncmp\<close>.\<close>

definition firmware_revision_required :: "u8 list" where "firmware_revision_required = [86, 50, 46, 51, 46, 52, 0]"

fun strncmp_gt :: "u8 list \<Rightarrow> u8 list \<Rightarrow> bool" where
  "strncmp_gt (a # as) (b # bs) = (if a = b then a \<noteq> 0 \<and> strncmp_gt as bs else b < a)"
| "strncmp_gt _ _ = False"

text \<open>\<open>None\<close> is the endless loop of \<^verbatim>\<open>AssertAlways\<close> for a firmware that is out of date.\<close>

definition api_initialize :: "emw_api \<Rightarrow> (Status \<times> emw_api) option" where
  "api_initialize s =
    (let (status, s) = (if interfaces s = 0 then (eEMW_STATUS_ERROR, s\<lparr>usable := True, receiving := True, interfaces := 1\<rparr>)
                        else (eEMW_STATUS_OK, s\<lparr>interfaces := interfaces s + 1\<rparr>));
         (success, fw, s) = request_all (CmdParams eSYS_VERSION_CMD) (firmwareRevision s) s;
         s = s\<lparr>firmwareRevision := fw\<rparr>
     in if success \<and> strncmp_gt firmware_revision_required fw then None
        else
          (let s = (if success then s else api_unInitialize s);
               (success, mac, s) = request_all (CmdParams eWIFI_GET_MAC_CMD) (mac48bitsStation s) s;
               s = s\<lparr>mac48bitsStation := mac\<rparr>
           in Some (if success then (eEMW_STATUS_OK, s) else (status, api_unInitialize s))))"

section \<open>Station\<close>

definition api_connect :: "u8 list \<Rightarrow> u8 list \<Rightarrow> emw_api \<Rightarrow> Status \<times> emw_api" where
  "api_connect ssidString passwordString s =
    (if 32 < length (text_in ssidString) \<or> 64 < length (text_in passwordString) then (eEMW_STATUS_PARAM_ERROR, s)
     else
       (let p = new_connect\<lparr>c_ssid := copyStringToArray 33 ssidString, c_key := copyStringToArray 65 passwordString,
                  keyLength := of_nat (length (text_in passwordString))\<rparr>;
            ascii = (\<lambda>a. copyStringToArray 16 (case NetworkToAscii4 (from_le32 a) 16 of Some t \<Rightarrow> t | None \<Rightarrow> []));
            p = (if \<not> dhcpIsEnabled s then
                   p\<lparr>useIp := 1, c_ip := \<lparr>ipAddressLocal = ascii (ipAddress s), networkMask = ascii (ipMask s),
                     gatewayAddress = ascii (gatewayAddr s), dnsServerAddress = ascii (dns1 s)\<rparr>\<rparr>
                 else p)
        in command_with_status (connect_bytes p) s))"

definition api_connectAdvance :: "u8 list \<Rightarrow> u8 list \<Rightarrow> ConnectAttributes \<Rightarrow> IpAttributes \<Rightarrow> emw_api \<Rightarrow> Status \<times> emw_api" where
  "api_connectAdvance ssidString passwordString attributes ipAttributes s =
    (if 32 < length (text_in ssidString) \<or> 64 < length (text_in passwordString) then (eEMW_STATUS_PARAM_ERROR, s)
     else
       (let p = new_connect\<lparr>c_ssid := copyStringToArray 33 ssidString, c_key := copyStringToArray 65 passwordString,
                  keyLength := of_nat (length (text_in passwordString))\<rparr>;
            p = (if bssid attributes ! 0 \<noteq> 0 then p\<lparr>useAttribute := 1, c_attr := attributes\<rparr> else p);
            p = (if ipAddressLocal ipAttributes ! 0 \<noteq> 0 then p\<lparr>useIp := 1, c_ip := ipAttributes\<rparr> else p)
        in command_with_status (connect_bytes p) s))"

text \<open>A certificate: the size, with the byte of the structure's array of one, is computed in 16 bits.\<close>

definition setEapCert :: "u8 \<Rightarrow> u8 list \<Rightarrow> emw_api \<Rightarrow> Status \<times> emw_api" where
  "setEapCert certificateType certificate s =
    (let n = length (text_in certificate);
         c = CmdParams eWIFI_EAP_SET_CERT_CMD @ [certificateType] @ le16_bytes (of_nat n) @ text_in certificate @ [malloc_junk s];
         (success, r, s) = request c (of_nat (10 + n)) (le32 (- 1)) s
     in (if success \<and> from_le32 r = 0 then eEMW_STATUS_OK else eEMW_STATUS_ERROR, s))"

record EapAttributes =
  eapType :: u8
  rootCa :: "u8 list option"
  clientCertificate :: "u8 list option"
  clientKey :: "u8 list option"

text \<open>One certificate of a connection, unless an earlier one failed.\<close>

definition eap_cert :: "u8 \<Rightarrow> u8 list option \<Rightarrow> Status \<times> u8 \<times> emw_api \<Rightarrow> Status \<times> u8 \<times> emw_api" where
  "eap_cert certificateType certificate st =
    (case st of (status, used, s) \<Rightarrow>
       (case certificate of
          Some t \<Rightarrow>
            if status = eEMW_STATUS_OK then
              (let (status, s) = setEapCert certificateType t s in (status, if status = eEMW_STATUS_OK then 1 else used, s))
            else st
        | None \<Rightarrow> st))"

definition api_connectEAP :: "u8 list \<Rightarrow> u8 list \<Rightarrow> u8 list \<Rightarrow> EapAttributes \<Rightarrow> IpAttributes \<Rightarrow> emw_api \<Rightarrow> Status \<times> emw_api" where
  "api_connectEAP ssidString identityString passwordString attr ipAttributes s =
    (if 31 < length (text_in ssidString) \<or> 31 < length (text_in identityString) \<or> 63 < length (text_in passwordString)
     then (eEMW_STATUS_PARAM_ERROR, s)
     else
       (let p = new_eap_connect\<lparr>e_ssid := copyStringToArray 32 ssidString, e_identity := copyStringToArray 32 identityString,
                  e_password := copyStringToArray 64 passwordString\<rparr>;
            (status, p, s) =
              (if eapType attr \<noteq> 0 then
                 (if eapType attr \<notin> set [13, 21, 25] then (eEMW_STATUS_PARAM_ERROR, p, s)
                  else
                    (let (status, used, s) = eap_cert 3 (clientKey attr) (eap_cert 2 (clientCertificate attr)
                           (eap_cert 1 (rootCa attr) (eEMW_STATUS_OK, 0, s)))
                     in (status, p\<lparr>attrType := eapType attr, attrUsed := used\<rparr>, s)))
               else (eEMW_STATUS_OK, p\<lparr>attrType := 25\<rparr>, s))
        in if status = eEMW_STATUS_OK then
             command_with_status (eap_connect_bytes
               (if ipAddressLocal ipAttributes ! 0 \<noteq> 0 then p\<lparr>e_ip := ipAttributes, ipUsed := 1\<rparr> else p)) s
           else (status, s)))"

definition api_connectWPS :: "emw_api \<Rightarrow> Status \<times> emw_api" where "api_connectWPS = command_with_status (CmdParams eWIFI_WPS_CONNECT_CMD)"
definition api_disconnect :: "emw_api \<Rightarrow> Status \<times> emw_api" where "api_disconnect = command_with_status (CmdParams eWIFI_DISCONNECT_CMD)"
definition api_stopWPS :: "emw_api \<Rightarrow> Status \<times> emw_api" where "api_stopWPS = command_with_status (CmdParams eWIFI_WPS_STOP_CMD)"
definition api_stopSoftAp :: "emw_api \<Rightarrow> Status \<times> emw_api" where "api_stopSoftAp = command_with_status (CmdParams eWIFI_SOFTAP_STOP_CMD)"

definition api_stationPowerSave :: "bool \<Rightarrow> emw_api \<Rightarrow> Status \<times> emw_api" where
  "api_stationPowerSave onOff = command_with_status (CmdParams (if onOff then eWIFI_PS_ON_CMD else eWIFI_PS_OFF_CMD))"

text \<open>Resetting asks for an answer and does not look at it.\<close>

definition api_resetModule :: "emw_api \<Rightarrow> Status \<times> emw_api" where
  "api_resetModule s = (let (success, r, s) = request_all (CmdParams eSYS_REBOOT_CMD) (le32 (- 1)) s
    in (if success then eEMW_STATUS_OK else eEMW_STATUS_ERROR, s))"

definition api_resetToFactoryDefault :: "emw_api \<Rightarrow> Status \<times> emw_api" where
  "api_resetToFactoryDefault s = (let (success, r, s) = request_all (CmdParams eSYS_RESET_CMD) (le32 (- 1)) s
    in (if success then eEMW_STATUS_OK else eEMW_STATUS_ERROR, s))"

section \<open>Questions\<close>

definition toIpcInterface :: "EmwInterface \<Rightarrow> u8" where "toIpcInterface i = (if i = eSOFTAP then 0 else 1)"

text \<open>The address in the text at an offset of the answer, as four bytes; zero when the text is no address.\<close>

definition address_in :: "u8 list \<Rightarrow> nat \<Rightarrow> u8 list" where
  "address_in r off = le32 (case AsciiToNetwork4 (text_in (drop off r)) of Some a \<Rightarrow> a | None \<Rightarrow> 0)"

definition api_getIPAddress :: "EmwInterface \<Rightarrow> emw_api \<Rightarrow> (Status \<times> u8 list option) \<times> emw_api" where
  "api_getIPAddress i s =
    (let (success, r, s) = request_all (CmdParams eWIFI_GET_IP_CMD @ [toIpcInterface i]) (le32 (- 1) @ replicate 64 0) s in
     if success \<and> from_le32 r = 0 then
       (let s = s\<lparr>ipAddress := address_in r 4, ipMask := address_in r 20, gatewayAddr := address_in r 36, dns1 := address_in r 52\<rparr>
        in ((eEMW_STATUS_OK, Some (ipAddress s)), s))
     else ((eEMW_STATUS_ERROR, None), s))"

definition api_getIP6Address :: "u8 \<Rightarrow> EmwInterface \<Rightarrow> emw_api \<Rightarrow> (Status \<times> u8 list option) \<times> emw_api" where
  "api_getIP6Address addressSlot i s =
    (if addressSlot < 3 then
       (let (success, r, s) = request_all (CmdParams eWIFI_GET_IP6_ADDR_CMD @ [addressSlot, toIpcInterface i]) (le32 (- 1) @ replicate 16 0) s in
        if success \<and> from_le32 r = 0 then
          ((eEMW_STATUS_OK, Some (take 16 (drop 4 r))), s\<lparr>ipv6Address := (ipv6Address s)[unat addressSlot := take 16 (drop 4 r)]\<rparr>)
        else ((eEMW_STATUS_ERROR, None), s))
     else ((eEMW_STATUS_ERROR, None), s))"

definition api_getIP6AddressState :: "u8 \<Rightarrow> EmwInterface \<Rightarrow> emw_api \<Rightarrow> int \<times> emw_api" where
  "api_getIP6AddressState addressSlot i s =
    (let (success, r, s) = request_all (CmdParams eWIFI_GET_IP6_STATE_CMD @ [addressSlot, toIpcInterface i]) [0] s
     in (if success then int (unat (r ! 0)) else - 1, s))"

definition api_getStationMacAddress :: "emw_api \<Rightarrow> Status \<times> u8 list option" where
  "api_getStationMacAddress s = (if 0 < interfaces s then (eEMW_STATUS_OK, Some (mac48bitsStation s)) else (eEMW_STATUS_ERROR, None))"

definition api_getSoftApMacAddress :: "emw_api \<Rightarrow> (Status \<times> u8 list option) \<times> emw_api" where
  "api_getSoftApMacAddress s =
    (let (success, r, s) = request_all (CmdParams eWIFI_GET_SOFT_MAC_CMD) (mac48bitsSoftAp s) s; s = s\<lparr>mac48bitsSoftAp := r\<rparr>
     in (if success then (eEMW_STATUS_OK, Some r) else (eEMW_STATUS_ERROR, None), s))"

text \<open>The copy of 25 bytes reads one byte behind the array of 24; that byte is overwritten by the zero.\<close>

definition api_getVersion :: "u8 list \<Rightarrow> u32 \<Rightarrow> emw_api \<Rightarrow> (Status \<times> u8 list) \<times> emw_api" where
  "api_getVersion version versionSize s =
    (if 0 < versionSize \<and> versionSize \<le> 25 then
       (let (success, fw, s) = request_all (CmdParams eSYS_VERSION_CMD) (replicate 24 0) s; n = unat versionSize in
        if success then ((eEMW_STATUS_OK, take (n - 1) fw @ [0] @ drop n version), s) else ((eEMW_STATUS_ERROR, version), s))
     else ((eEMW_STATUS_ERROR, version), s))"

text \<open>\<open>None\<close> when more than the ten entries of the arrays would be copied.\<close>

definition api_getScanResults :: "u8 list \<Rightarrow> u8 \<Rightarrow> emw_api \<Rightarrow> (u8 \<times> u8 list) option" where
  "api_getScanResults results number s =
    (let count = lastScanResults s ! 0; copy_number = (if number = 0 then 0 else if count < number then count else number);
         n = unat copy_number * 48
     in if 10 < copy_number then None else Some (copy_number, take n (drop 1 (lastScanResults s)) @ drop n results))"

text \<open>The link: the word after the status is cut to a signed byte.\<close>

definition api_isConnected :: "emw_api \<Rightarrow> bool \<times> emw_api" where
  "api_isConnected s =
    (let (success, r, s) = request_all (CmdParams eWIFI_GET_LINKINFO_CMD) (le32 (- 1) @ replicate 117 0) s in
     if success \<and> from_le32 r = 0 then (0 < sint (r ! 4), s\<lparr>stationConnected := r ! 4\<rparr>) else (False, s))"

section \<open>Scanning and the access point\<close>

text \<open>Of the entries only four bytes are cleared, the size of a pointer.\<close>

definition api_scan :: "bool \<Rightarrow> u8 list \<Rightarrow> int \<Rightarrow> emw_api \<Rightarrow> Status \<times> emw_api" where
  "api_scan active ssidString ssidStringLength s =
    (let s = s\<lparr>lastScanResults := replicate 5 0 @ drop 5 (lastScanResults s)\<rparr> in
     if active \<and> (ssidStringLength \<le> 0 \<or> 32 < ssidStringLength) then (eEMW_STATUS_PARAM_ERROR, s)
     else
       (let (success, r, s) = request_all (CmdParams eWIFI_SCAN_CMD @ copyStringToArray 33 (if active then ssidString else []))
              (lastScanResults s) s
        in (if success then eEMW_STATUS_OK else eEMW_STATUS_ERROR, s\<lparr>lastScanResults := r\<rparr>)))"

definition api_setTimeout :: "u32 \<Rightarrow> emw_api \<Rightarrow> Status \<times> emw_api" where
  "api_setTimeout t s = (if 0 < interfaces s then (eEMW_STATUS_OK, s\<lparr>timeoutInMs := t\<rparr>) else (eEMW_STATUS_ERROR, s))"

record SoftApSettings =
  ssidString :: "u8 list"
  passwordString :: "u8 list"
  apChannel :: u8
  apIp :: IpAttributes

definition api_startSoftAp :: "SoftApSettings \<Rightarrow> emw_api \<Rightarrow> Status \<times> emw_api" where
  "api_startSoftAp a s =
    command_with_status (CmdParams eWIFI_SOFTAP_START_CMD @ take 32 (ssidString a) @ take 64 (passwordString a) @ le32 (ucast (apChannel a)) @
      ip_bytes \<lparr>ipAddressLocal = copyStringToArray 16 (ipAddressLocal (apIp a)), networkMask = copyStringToArray 16 (networkMask (apIp a)),
        gatewayAddress = copyStringToArray 16 (gatewayAddress (apIp a)), dnsServerAddress = copyStringToArray 16 (dnsServerAddress (apIp a))\<rparr>) s"

section \<open>Packets past the module's own network stack\<close>

definition api_setByPass :: "u32 \<Rightarrow> nat option \<Rightarrow> emw_api \<Rightarrow> Status \<times> emw_api" where
  "api_setByPass enable callback s =
    (let s = s\<lparr>netlinkInputCallback := (if callback \<noteq> None \<and> enable = 1 then callback else None)\<rparr>
     in command_with_status (CmdParams eWIFI_BYPASS_SET_CMD @ le32 enable) s)"

text \<open>The structure is written in front of the data, over sixteen bytes that are left as they are.\<close>

definition bypass_header :: "u32 \<Rightarrow> u8 list \<Rightarrow> u16 \<Rightarrow> u8 list" where
  "bypass_header idx useless dataLength = CmdParams eWIFI_BYPASS_OUT_CMD @ le32 idx @ useless @ le16_bytes dataLength"

definition api_output :: "u8 list option \<Rightarrow> u8 list \<Rightarrow> u16 \<Rightarrow> u32 \<Rightarrow> emw_api \<Rightarrow> Status \<times> emw_api" where
  "api_output data useless dataLength interface s =
    (case data of
       None \<Rightarrow> (eEMW_STATUS_PARAM_ERROR, s)
     | Some d \<Rightarrow>
         (if dataLength = 0 \<or> (interface \<noteq> 0 \<and> interface \<noteq> 1) then (eEMW_STATUS_PARAM_ERROR, s)
          else
            (let command_data_size = 28 + dataLength;
                 (command_data_size, dataLength) =
                   (if network_buffer_size s < command_data_size then (network_buffer_size s, network_buffer_size s - 28)
                    else (command_data_size, dataLength));
                 (success, r, s) = request (bypass_header interface useless dataLength @ d) command_data_size (le32 (- 1)) s
             in (if success \<and> from_le32 r = 0 then eEMW_STATUS_OK else eEMW_STATUS_ERROR, s))))"

section \<open>Events of the module\<close>

definition registerStatusCallback :: "nat option \<Rightarrow> nat option \<Rightarrow> EmwInterface \<Rightarrow> emw_api \<Rightarrow> Status \<times> emw_api" where
  "registerStatusCallback f arg i s =
    (if 0 < interfaces s then
       (let k = (if i = eSTATION then 0 else 1) in
        (eEMW_STATUS_OK, s\<lparr>wiFiStatusCallbacks := (wiFiStatusCallbacks s)[k := f], wiFiStatusCallbackArgs := (wiFiStatusCallbackArgs s)[k := arg]\<rparr>))
     else (eEMW_STATUS_ERROR, s))"

definition unRegisterStatusCallback :: "EmwInterface \<Rightarrow> emw_api \<Rightarrow> Status \<times> emw_api" where
  "unRegisterStatusCallback i s = registerStatusCallback None None i s"

text \<open>
  What an event does with its buffer and whom it calls. \<open>Halted\<close> is a failed \<^verbatim>\<open>AssertAlways\<close>,
  \<open>NullRead\<close> a read through a null pointer.
\<close>

datatype event_action =
    Freed
  | StatusCall nat EmwInterface u8 "nat option"
  | FotaCall nat u8
  | NetInput nat "u8 list" u32
  | Halted
  | NullRead

definition eSYS_REBOOT_EVENT :: u16 where "eSYS_REBOOT_EVENT = 0x8001"
definition eSYS_FOTA_STATUS_EVENT :: u16 where "eSYS_FOTA_STATUS_EVENT = 0x8002"
definition eWIFI_STATUS_EVENT :: u16 where "eWIFI_STATUS_EVENT = 0x8101"
definition eWIFI_BYPASS_INPUT_EVENT :: u16 where "eWIFI_BYPASS_INPUT_EVENT = 0x8102"

definition ProcessRebootEvent :: "u8 list option \<Rightarrow> event_action list" where
  "ProcessRebootEvent b = (if b \<noteq> None then [Freed] else [])"

definition ProcessFotaStatusEvent :: "emw_api \<Rightarrow> u8 list option \<Rightarrow> event_action list" where
  "ProcessFotaStatusEvent s b =
    (case b of None \<Rightarrow> [NullRead]
     | Some p \<Rightarrow> Freed # (case fotaStatusCallback s of Some f \<Rightarrow> [FotaCall f (p ! 6)] | None \<Rightarrow> []))"

definition ProcessWiFiStatusEvent :: "emw_api \<Rightarrow> u8 list option \<Rightarrow> event_action list" where
  "ProcessWiFiStatusEvent s b =
    (case b of None \<Rightarrow> [NullRead]
     | Some p \<Rightarrow>
         (let event = p ! 6; call = (\<lambda>k i. case wiFiStatusCallbacks s ! k of Some f \<Rightarrow> [StatusCall f i event (wiFiStatusCallbackArgs s ! k)] | None \<Rightarrow> [])
          in Freed # (if event \<in> set [1, 2, 3] then call 0 eSTATION
                      else if event \<in> set [4, 5] then call 1 eSOFTAP
                      else [Halted])))"

definition ProcessWiFiNetlinkInput :: "emw_api \<Rightarrow> u8 list option \<Rightarrow> event_action list" where
  "ProcessWiFiNetlinkInput s b =
    (case b of None \<Rightarrow> [NullRead]
     | Some p \<Rightarrow>
         (case netlinkInputCallback s of
            Some f \<Rightarrow> if p ! 26 \<noteq> 0 \<or> p ! 27 \<noteq> 0 then [NetInput f (drop 28 p) (from_le32 (drop 6 p))] else [Freed]
          | None \<Rightarrow> [Freed]))"

definition processEvent :: "bool \<Rightarrow> emw_api \<Rightarrow> u8 list option \<Rightarrow> u16 \<Rightarrow> event_action list" where
  "processEvent bypass_mode s b apiId =
    (if bypass_mode \<and> apiId = eWIFI_BYPASS_INPUT_EVENT then ProcessWiFiNetlinkInput s b
     else if apiId = eWIFI_STATUS_EVENT then ProcessWiFiStatusEvent s b
     else if apiId = eSYS_REBOOT_EVENT then ProcessRebootEvent b
     else if apiId = eSYS_FOTA_STATUS_EVENT then ProcessFotaStatusEvent s b
     else if b \<noteq> None then [Freed] else [])"

section \<open>Any sequence of calls\<close>

datatype api_call =
    Initialize | UnInitialize
  | Connect "u8 list" "u8 list"
  | ConnectAdvance "u8 list" "u8 list" ConnectAttributes IpAttributes
  | ConnectEAP "u8 list" "u8 list" "u8 list" EapAttributes IpAttributes
  | ConnectWPS | Disconnect | StopWPS | StopSoftAp
  | StationPowerSave bool
  | ResetModule | ResetToFactoryDefault
  | GetIPAddress EmwInterface
  | GetIP6Address u8 EmwInterface
  | GetIP6AddressState u8 EmwInterface
  | GetSoftApMacAddress
  | GetVersion "u8 list" u32
  | IsConnected
  | Scan bool "u8 list" int
  | SetTimeout u32
  | StartSoftAp SoftApSettings
  | SetByPass u32 "nat option"
  | Output "u8 list option" "u8 list" u16 u32
  | RegisterStatusCallback "nat option" "nat option" EmwInterface
  | UnRegisterStatusCallback EmwInterface

text \<open>The state after a call, \<open>None\<close> when the call stops in an endless loop.\<close>

fun call :: "api_call \<Rightarrow> emw_api \<Rightarrow> emw_api option" where
  "call Initialize s = map_option snd (api_initialize s)"
| "call UnInitialize s = Some (api_unInitialize s)"
| "call (Connect a b) s = Some (snd (api_connect a b s))"
| "call (ConnectAdvance a b c d) s = Some (snd (api_connectAdvance a b c d s))"
| "call (ConnectEAP a b c d e) s = Some (snd (api_connectEAP a b c d e s))"
| "call ConnectWPS s = Some (snd (api_connectWPS s))"
| "call Disconnect s = Some (snd (api_disconnect s))"
| "call StopWPS s = Some (snd (api_stopWPS s))"
| "call StopSoftAp s = Some (snd (api_stopSoftAp s))"
| "call (StationPowerSave b) s = Some (snd (api_stationPowerSave b s))"
| "call ResetModule s = Some (snd (api_resetModule s))"
| "call ResetToFactoryDefault s = Some (snd (api_resetToFactoryDefault s))"
| "call (GetIPAddress i) s = Some (snd (api_getIPAddress i s))"
| "call (GetIP6Address k i) s = Some (snd (api_getIP6Address k i s))"
| "call (GetIP6AddressState k i) s = Some (snd (api_getIP6AddressState k i s))"
| "call GetSoftApMacAddress s = Some (snd (api_getSoftApMacAddress s))"
| "call (GetVersion v n) s = Some (snd (api_getVersion v n s))"
| "call IsConnected s = Some (snd (api_isConnected s))"
| "call (Scan a b n) s = Some (snd (api_scan a b n s))"
| "call (SetTimeout t) s = Some (snd (api_setTimeout t s))"
| "call (StartSoftAp a) s = Some (snd (api_startSoftAp a s))"
| "call (SetByPass e f) s = Some (snd (api_setByPass e f s))"
| "call (Output d u n i) s = Some (snd (api_output d u n i s))"
| "call (RegisterStatusCallback f a i) s = Some (snd (registerStatusCallback f a i s))"
| "call (UnRegisterStatusCallback i) s = Some (snd (unRegisterStatusCallback i s))"

fun calls :: "api_call list \<Rightarrow> emw_api \<Rightarrow> emw_api option" where
  "calls [] s = Some s"
| "calls (c # cs) s = (case call c s of None \<Rightarrow> None | Some s \<Rightarrow> calls cs s)"

text \<open>What the types of the code say of the arguments, and two bounds on lengths that the code does not check.\<close>

definition ip_typed :: "IpAttributes \<Rightarrow> bool" where
  "ip_typed i \<longleftrightarrow> length (ipAddressLocal i) = 16 \<and> length (networkMask i) = 16 \<and> length (gatewayAddress i) = 16 \<and> length (dnsServerAddress i) = 16"

definition cert_typed :: "u8 list option \<Rightarrow> bool" where
  "cert_typed c \<longleftrightarrow> (case c of Some t \<Rightarrow> length t < 2 ^ 16 - 10 | None \<Rightarrow> True)"

fun call_typed :: "api_call \<Rightarrow> bool" where
  "call_typed (ConnectAdvance a b c d) \<longleftrightarrow> length (bssid c) = 6 \<and> ip_typed d"
| "call_typed (ConnectEAP a b c d e) \<longleftrightarrow> ip_typed e \<and> cert_typed (rootCa d) \<and> cert_typed (clientCertificate d) \<and> cert_typed (clientKey d)"
| "call_typed (StartSoftAp a) \<longleftrightarrow> length (ssidString a) = 33 \<and> length (passwordString a) = 65"
| "call_typed (Output d u n i) \<longleftrightarrow> length u = 16 \<and> unat n < 2 ^ 16 - 28 \<and> (\<forall>x. d = Some x \<longrightarrow> unat n \<le> length x)"
| "call_typed _ \<longleftrightarrow> True"

text \<open>The size of the structure of a command; the other two carry their length.\<close>

definition structure_size :: "u16 \<Rightarrow> nat option" where
  "structure_size a =
    (if a = eWIFI_CONNECT_CMD then Some 182 else if a = eWIFI_EAP_CONNECT_CMD then Some 213 else if a = eWIFI_SCAN_CMD then Some 39
     else if a = eWIFI_SOFTAP_START_CMD then Some 170 else if a = eWIFI_BYPASS_SET_CMD then Some 10 else if a = eWIFI_GET_IP_CMD then Some 7
     else if a = eWIFI_GET_IP6_ADDR_CMD \<or> a = eWIFI_GET_IP6_STATE_CMD then Some 8
     else if a = eWIFI_EAP_SET_CERT_CMD \<or> a = eWIFI_BYPASS_OUT_CMD then None else Some 6)"

definition from_le16 :: "u8 list \<Rightarrow> u16" where "from_le16 bs = ucast (bs ! 0) OR push_bit 8 (ucast (bs ! 1))"

definition command_typed :: "u8 list \<Rightarrow> bool" where
  "command_typed c \<longleftrightarrow> take 4 c = [0, 0, 0, 0] \<and> 6 \<le> length c \<and>
     (case structure_size (GetApiId c) of
        Some n \<Rightarrow> length c = n
      | None \<Rightarrow> (if GetApiId c = eWIFI_EAP_SET_CERT_CMD then length c = 10 + unat (from_le16 (drop 7 c))
                 else length c = 28 + unat (from_le16 (drop 26 c)))) \<and>
     (GetApiId c = eWIFI_CONNECT_CMD \<longrightarrow> c ! 38 = 0 \<and> c ! 103 = 0) \<and>
     (GetApiId c = eWIFI_EAP_CONNECT_CMD \<longrightarrow> c ! 37 = 0 \<and> c ! 69 = 0 \<and> c ! 133 = 0) \<and>
     (GetApiId c = eWIFI_SCAN_CMD \<longrightarrow> c ! 38 = 0)"

definition api_ok :: "emw_api \<Rightarrow> bool" where
  "api_ok s \<longleftrightarrow> length (firmwareRevision s) = 24 \<and> length (mac48bitsSoftAp s) = 6 \<and> length (mac48bitsStation s) = 6 \<and>
     length (ipAddress s) = 4 \<and> length (ipMask s) = 4 \<and> length (gatewayAddr s) = 4 \<and> length (dns1 s) = 4 \<and>
     length (ipv6Address s) = 3 \<and> (\<forall>a \<in> set (ipv6Address s). length a = 16) \<and> length (lastScanResults s) = 481 \<and>
     length (wiFiStatusCallbacks s) = 2 \<and> length (wiFiStatusCallbackArgs s) = 2 \<and>
     28 \<le> network_buffer_size s \<and>
     (\<forall>c \<in> set (sent s). command_typed c \<and> (length c < 2500 \<or> length c \<le> unat (network_buffer_size s)))"

subsection \<open>Bytes and structures\<close>

lemma GetApiId_CmdParams [simp]: "GetApiId (CmdParams a @ r) = a" "GetApiId (CmdParams a) = a"
  by (rule word_eq_bitsI, simp add: GetApiId_def CmdParams_def bit_positions bit_simps)+

lemma length_CmdParams [simp]: "length (CmdParams a) = 6" and take_CmdParams: "take 4 (CmdParams a @ r) = [0, 0, 0, 0]" "take 4 (CmdParams a) = [0, 0, 0, 0]"
  by (simp_all add: CmdParams_def)

lemma length_le [simp]: "length (le32 w) = 4" "length (le16_bytes v) = 2" by (simp_all add: le32_def le16_bytes_def)

lemma from_le32_le32 [simp]: "from_le32 (le32 w) = w" "from_le32 (le32 w @ r) = w"
  by (rule word_eq_bitsI, simp add: from_le32_def le32_def bit_positions bit_simps)+

lemma from_le16_le16 [simp]: "from_le16 (le16_bytes v @ r) = v"
  by (rule word_eq_bitsI, simp add: from_le16_def le16_bytes_def bit_positions bit_simps)

lemma copy_chars_text: "copy_chars n s = take n (text_in s)"
  by (induction n s rule: copy_chars.induct) (auto simp: text_in_def)

lemma copyString:
  assumes "0 < n"
  shows "length (copyStringToArray n s) = n" and "copyStringToArray n s ! (n - 1) = 0" and "text_in (copyStringToArray n s @ r) = take (n - 1) (text_in s)"
proof -
  define d where "d = take (n - 1) (text_in s)"
  have l: "length d < n" using assms by (simp add: d_def)
  have z: "0 \<notin> set d" using set_takeWhileD [of 0 "\<lambda>c. c \<noteq> 0" s] by (auto simp: d_def text_in_def dest: in_set_takeD)
  have c: "copyStringToArray n s = d @ 0 # replicate (n - length d - 1) 0"
    unfolding copyStringToArray_def copy_chars_text d_def [symmetric] Let_def
    using l by (simp add: replicate_Suc [symmetric] Suc_diff_Suc del: replicate_Suc)
  show "length (copyStringToArray n s) = n" using l unfolding c by simp
  show "copyStringToArray n s ! (n - 1) = 0" using l unfolding c by (auto simp: nth_append nth_Cons')
  show "text_in (copyStringToArray n s @ r) = take (n - 1) (text_in s)" unfolding c text_in_def [of "_ @ _"] d_def [symmetric] using z
    by (auto simp: takeWhile_tail)
qed

lemma length_fill [simp]: "length (fill_response buf p) = length buf"
  by (simp add: fill_response_def Let_def)

lemma length_ip_bytes: "ip_typed i \<Longrightarrow> length (ip_bytes i) = 64"
  by (simp add: ip_typed_def ip_bytes_def)

lemma length_connect_bytes:
  assumes "length (c_ssid p) = 33" "length (c_key p) = 65" "length (bssid (c_attr p)) = 6" "ip_typed (c_ip p)"
  shows "length (connect_bytes p) = 182"
  using assms by (simp add: connect_bytes_def length_ip_bytes)

lemma connect_bytes_typed:
  assumes "length (c_ssid p) = 33" "c_ssid p ! 32 = 0" "length (c_key p) = 65" "c_key p ! 64 = 0" "length (bssid (c_attr p)) = 6" "ip_typed (c_ip p)"
  shows "command_typed (connect_bytes p)" "length (connect_bytes p) < 2500"
proof -
  note l = length_connect_bytes [OF assms(1,3,5,6)]
  have g: "GetApiId (connect_bytes p) = eWIFI_CONNECT_CMD" by (simp add: connect_bytes_def)
  have "connect_bytes p ! 38 = 0" "connect_bytes p ! 103 = 0"
    using assms by (simp_all add: connect_bytes_def nth_append)
  then show "command_typed (connect_bytes p)" using l g
    by (simp add: command_typed_def structure_size_def) (simp add: connect_bytes_def take_CmdParams command_ids)
  show "length (connect_bytes p) < 2500" using l by simp
qed

lemma eap_connect_bytes_typed:
  assumes "length (e_ssid p) = 32" "e_ssid p ! 31 = 0" "length (e_identity p) = 32" "e_identity p ! 31 = 0" "length (e_password p) = 64" "e_password p ! 63 = 0"
    "ip_typed (e_ip p)"
  shows "command_typed (eap_connect_bytes p)" "length (eap_connect_bytes p) < 2500"
proof -
  have l: "length (eap_connect_bytes p) = 213" using assms by (simp add: eap_connect_bytes_def length_ip_bytes)
  have g: "GetApiId (eap_connect_bytes p) = eWIFI_EAP_CONNECT_CMD" by (simp add: eap_connect_bytes_def)
  have "eap_connect_bytes p ! 37 = 0" "eap_connect_bytes p ! 69 = 0" "eap_connect_bytes p ! 133 = 0"
    using assms by (simp_all add: eap_connect_bytes_def nth_append)
  then show "command_typed (eap_connect_bytes p)" using l g
    by (simp add: command_typed_def structure_size_def command_ids) (simp add: eap_connect_bytes_def take_CmdParams)
  show "length (eap_connect_bytes p) < 2500" using l by simp
qed

lemma plain_command_typed:
  assumes "structure_size a = Some (6 + length r)" and "a \<notin> {eWIFI_CONNECT_CMD, eWIFI_EAP_CONNECT_CMD, eWIFI_SCAN_CMD}"
  shows "command_typed (CmdParams a @ r)"
  using assms by (simp add: command_typed_def take_CmdParams)

subsection \<open>Every call keeps the types\<close>

lemma request_ok:
  assumes ok: "api_ok s" and c: "command_typed c" and n: "n = of_nat (length c)" "length c < 2500 \<or> length c \<le> unat (network_buffer_size s)"
  shows "api_ok (snd (snd (request c n buf s)))" and "length (fst (snd (request c n buf s))) = length buf"
proof -
  have "length c < 65536" using n(2) unat_bound [of "network_buffer_size s"] by auto
  then have "unat n = length c" using n(1) by (simp add: unat_of_nat)
  then have t: "take (unat n) c = c" by simp
  have k: "api_ok (s\<lparr>sent := sent s @ [c]\<rparr>)" "api_ok (s\<lparr>sent := sent s @ [c], answers := as\<rparr>)" for as
    using ok c n(2) by (auto simp: api_ok_def)
  show "api_ok (snd (snd (request c n buf s)))" using ok k by (auto simp: request_def Let_def t split: list.split option.split)
  show "length (fst (snd (request c n buf s))) = length buf" by (auto simp: request_def Let_def split: list.split option.split)
qed

lemma request_all_ok:
  assumes "api_ok s" and "command_typed c" and "length c < 2500"
  shows "api_ok (snd (snd (request_all c buf s)))" and "length (fst (snd (request_all c buf s))) = length buf"
  using request_ok [OF assms(1,2) refl] assms(3) by (simp_all add: request_all_def)

lemma command_with_status_ok:
  assumes "api_ok s" and "command_typed c" and "length c < 2500"
  shows "api_ok (snd (command_with_status c s))"
  using request_all_ok(1) [OF assms] by (simp add: command_with_status_def split_beta)

lemma simple_typed:
  "a \<in> {eSYS_REBOOT_CMD, eSYS_VERSION_CMD, eSYS_RESET_CMD, eWIFI_GET_MAC_CMD, eWIFI_DISCONNECT_CMD, eWIFI_SOFTAP_STOP_CMD, eWIFI_GET_LINKINFO_CMD,
     eWIFI_WPS_CONNECT_CMD, eWIFI_WPS_STOP_CMD, eWIFI_GET_SOFT_MAC_CMD, eWIFI_PS_ON_CMD, eWIFI_PS_OFF_CMD} \<Longrightarrow> command_typed (CmdParams a)"
  using plain_command_typed [of a "[]"] by (auto simp: structure_size_def command_ids)

lemma ask_typed:
  "command_typed (CmdParams eWIFI_GET_IP_CMD @ [x])" "command_typed (CmdParams eWIFI_GET_IP6_ADDR_CMD @ [x, y])"
  "command_typed (CmdParams eWIFI_GET_IP6_STATE_CMD @ [x, y])" "command_typed (CmdParams eWIFI_BYPASS_SET_CMD @ le32 w)"
  by (rule plain_command_typed; simp add: structure_size_def command_ids)+

lemma scan_typed: "command_typed (CmdParams eWIFI_SCAN_CMD @ copyStringToArray 33 t)"
  using copyString(1,2) [of 33 t]
  by (simp add: command_typed_def take_CmdParams nth_append) (simp add: structure_size_def command_ids)

lemma ip_typed_copy:
  "ip_typed \<lparr>ipAddressLocal = copyStringToArray 16 a, networkMask = copyStringToArray 16 b, gatewayAddress = copyStringToArray 16 c,
     dnsServerAddress = copyStringToArray 16 d\<rparr>"
  using copyString(1) [of 16] by (simp add: ip_typed_def)

lemma ip_typed_no [simp]: "ip_typed no_ip" by (simp add: ip_typed_def no_ip_def)

lemma copy_sizes [simp]:
  "length (copyStringToArray 33 t) = 33" "length (copyStringToArray 65 t) = 65" "length (copyStringToArray 32 t) = 32" "length (copyStringToArray 64 t) = 64"
  "length (copyStringToArray 16 t) = 16"
  "copyStringToArray 33 t ! 32 = 0" "copyStringToArray 65 t ! 64 = 0" "copyStringToArray 32 t ! 31 = 0" "copyStringToArray 64 t ! 63 = 0"
  using copyString(1,2) [of 33 t] copyString(1,2) [of 65 t] copyString(1,2) [of 32 t] copyString(1,2) [of 64 t] copyString(1) [of 16 t]
  by simp_all

definition connect_typed :: "ConnectParams \<Rightarrow> bool" where
  "connect_typed p \<longleftrightarrow> length (c_ssid p) = 33 \<and> c_ssid p ! 32 = 0 \<and> length (c_key p) = 65 \<and> c_key p ! 64 = 0 \<and>
     length (bssid (c_attr p)) = 6 \<and> ip_typed (c_ip p)"

definition eap_typed :: "EapConnectParams \<Rightarrow> bool" where
  "eap_typed p \<longleftrightarrow> length (e_ssid p) = 32 \<and> e_ssid p ! 31 = 0 \<and> length (e_identity p) = 32 \<and> e_identity p ! 31 = 0 \<and>
     length (e_password p) = 64 \<and> e_password p ! 63 = 0 \<and> ip_typed (e_ip p)"

lemma connect_send_ok: "api_ok s \<Longrightarrow> connect_typed p \<Longrightarrow> api_ok (snd (command_with_status (connect_bytes p) s))"
  using command_with_status_ok connect_bytes_typed by (simp add: connect_typed_def)

lemma eap_send_ok: "api_ok s \<Longrightarrow> eap_typed p \<Longrightarrow> api_ok (snd (command_with_status (eap_connect_bytes p) s))"
  using command_with_status_ok eap_connect_bytes_typed by (simp add: eap_typed_def)

lemma connect_ok: "api_ok s \<Longrightarrow> api_ok (snd (api_connect a b s))"
  by (simp add: api_connect_def new_connect_def Let_def connect_send_ok connect_typed_def ip_typed_copy)

lemma connectAdvance_ok: "api_ok s \<Longrightarrow> length (bssid c) = 6 \<Longrightarrow> ip_typed d \<Longrightarrow> api_ok (snd (api_connectAdvance a b c d s))"
  by (simp add: api_connectAdvance_def new_connect_def Let_def connect_send_ok connect_typed_def)

lemma setEapCert_ok:
  assumes ok: "api_ok s" and t: "length t < 2 ^ 16 - 10"
  shows "api_ok (snd (setEapCert ty t s))"
proof -
  let ?n = "length (text_in t)"
  let ?c = "CmdParams eWIFI_EAP_SET_CERT_CMD @ [ty] @ le16_bytes (of_nat ?n) @ text_in t @ [malloc_junk s]"
  have n: "?n < 65526" using t length_takeWhile_le [of "\<lambda>c. c \<noteq> 0" t] by (simp add: text_in_def)
  have l: "length ?c = 10 + ?n" by simp
  have u: "unat (of_nat ?n :: u16) = ?n" "unat (of_nat (10 + ?n) :: u16) = 10 + ?n" using n by (simp_all only: unat_of_nat) simp_all
  have d: "drop 7 ?c = le16_bytes (of_nat ?n) @ text_in t @ [malloc_junk s]" by (simp add: CmdParams_def)
  have c: "command_typed ?c" using u(1) l
    by (simp add: command_typed_def take_CmdParams structure_size_def d del: append_assoc) (simp add: command_ids)
  show ?thesis
  proof (cases "command_size_allowed (network_buffer_size s) eWIFI_EAP_SET_CERT_CMD (of_nat (10 + ?n))")
    case True
    then have "10 + ?n < 2500 \<or> 10 + ?n \<le> unat (network_buffer_size s)"
      using u(2) by (simp add: command_size_allowed_def word_less_nat_alt word_le_nat_alt split: if_splits)
    then have "length ?c < 2500 \<or> length ?c \<le> unat (network_buffer_size s)" unfolding l .
    from request_ok(1) [OF ok c _ this] show ?thesis unfolding l setEapCert_def by (simp add: Let_def split_beta)
  next
    case False
    then show ?thesis using ok by (simp add: setEapCert_def request_def Let_def)
  qed
qed

lemma eap_cert_ok:
  assumes "api_ok (snd (snd st))" and "cert_typed c"
  shows "api_ok (snd (snd (eap_cert ty c st)))"
  using assms setEapCert_ok [of "snd (snd st)" _ ty] by (cases st) (auto simp: eap_cert_def cert_typed_def split_beta Let_def split: option.split)

lemma connectEAP_ok:
  assumes ok: "api_ok s" and t: "call_typed (ConnectEAP a b c d e)"
  shows "api_ok (snd (api_connectEAP a b c d e s))"
proof -
  define r where "r = eap_cert 3 (clientKey d) (eap_cert 2 (clientCertificate d) (eap_cert 1 (rootCa d) (eEMW_STATUS_OK, 0, s)))"
  have r: "api_ok (snd (snd r))" unfolding r_def using ok t by (intro eap_cert_ok) simp_all
  define p where "p = new_eap_connect\<lparr>e_ssid := copyStringToArray 32 a, e_identity := copyStringToArray 32 b, e_password := copyStringToArray 64 c\<rparr>"
  have p: "eap_typed p" by (simp add: p_def new_eap_connect_def eap_typed_def)
  have e: "ip_typed e" using t by simp
  show ?thesis using ok r p e unfolding api_connectEAP_def r_def [symmetric] p_def [symmetric] Let_def
    by (simp add: split_beta eap_send_ok eap_typed_def)
qed

lemma output_ok:
  assumes ok: "api_ok s" and t: "call_typed (Output d u n i)"
  shows "api_ok (snd (api_output d u n i s))"
proof (cases d)
  case None
  then show ?thesis using ok by (simp add: api_output_def)
next
  case (Some x)
  have u: "length u = 16" and n: "unat n < 65508" "unat n \<le> length x" using t Some by simp_all
  define m where "m = (if network_buffer_size s < 28 + n then network_buffer_size s - 28 else n)"
  define sz where "sz = (if network_buffer_size s < 28 + n then network_buffer_size s else 28 + n)"
  have nb: "28 \<le> unat (network_buffer_size s)" using ok by (simp add: api_ok_def word_le_nat_alt)
  have n28: "unat (28 + n) = 28 + unat n" using n by (subst unat_add_small) simp_all
  have m: "unat m \<le> unat n" "unat sz = 28 + unat m" "unat sz \<le> unat (network_buffer_size s)"
    using nb n28 by (auto simp: m_def sz_def word_less_nat_alt word_le_nat_alt unat_sub_small)
  let ?c = "bypass_header i u m @ x"
  have h: "length (bypass_header i u m) = 28" using u by (simp add: bypass_header_def)
  have c: "take (unat sz) ?c = bypass_header i u m @ take (unat m) x" using m h by simp
  have g: "GetApiId ?c = eWIFI_BYPASS_OUT_CMD" "GetApiId (bypass_header i u m @ take (unat m) x) = eWIFI_BYPASS_OUT_CMD"
    by (simp_all add: bypass_header_def)
  have d26: "drop 26 (bypass_header i u m @ y) = le16_bytes m @ y" for y using u by (simp add: bypass_header_def CmdParams_def le32_def)
  have "command_typed (bypass_header i u m @ take (unat m) x)"
    using h m(1) n g(2) by (simp add: command_typed_def structure_size_def d26 command_ids) (simp add: bypass_header_def take_CmdParams)
  moreover have lc: "length (bypass_header i u m @ take (unat m) x) = unat sz" using h m n by simp
  moreover have "sz = of_nat (unat sz)" by simp
  ultimately have "api_ok (snd (snd (request (bypass_header i u m @ take (unat m) x) sz (le32 (- 1)) s)))"
    using m(3) by (intro request_ok(1) [OF ok]) (simp_all only: lc simp_thms)
  moreover have "snd (snd (request ?c sz (le32 (- 1)) s)) = snd (snd (request (bypass_header i u m @ take (unat m) x) sz (le32 (- 1)) s))"
  proof -
    have tk: "take (unat sz) (bypass_header i u m @ take (unat m) x) = bypass_header i u m @ take (unat m) x" using m h by simp
    show ?thesis unfolding request_def g c tk ..
  qed
  moreover have "(if network_buffer_size s < 28 + n then (network_buffer_size s, network_buffer_size s - 28) else (28 + n, n)) = (sz, m)"
    by (simp add: sz_def m_def)
  ultimately show ?thesis using ok Some by (simp add: api_output_def Let_def split_beta)
qed

lemma answer_ok:
  assumes "api_ok s" and "command_typed c" and "length c < 2500" and "request_all c buf s = (success, r, s')"
  shows "api_ok s'" and "length r = length buf"
  using request_all_ok [OF assms(1-3), of buf] assms(4) by simp_all

lemma unInitialize_ok: "api_ok s \<Longrightarrow> api_ok (api_unInitialize s)"
  by (simp add: api_unInitialize_def api_ok_def)

lemma initialize_ok:
  assumes ok: "api_ok s" and r: "api_initialize s = Some (status, s')"
  shows "api_ok s'"
proof -
  have v: "command_typed (CmdParams eSYS_VERSION_CMD)" "command_typed (CmdParams eWIFI_GET_MAC_CMD)" by (rule simple_typed, simp)+
  define s1 where "s1 = (if interfaces s = 0 then s\<lparr>usable := True, receiving := True, interfaces := 1\<rparr> else s\<lparr>interfaces := interfaces s + 1\<rparr>)"
  have s1: "api_ok s1" "firmwareRevision s1 = firmwareRevision s" "length (firmwareRevision s) = 24" using ok by (simp_all add: s1_def api_ok_def)
  obtain b fw s2 where q: "request_all (CmdParams eSYS_VERSION_CMD) (firmwareRevision s1) s1 = (b, fw, s2)" by (metis prod_cases3)
  have s2: "api_ok s2" "length fw = 24" using answer_ok [OF s1(1) v(1) _ q] s1 by simp_all
  define s3 where "s3 = (if b then s2\<lparr>firmwareRevision := fw\<rparr> else api_unInitialize (s2\<lparr>firmwareRevision := fw\<rparr>))"
  have "api_ok (s2\<lparr>firmwareRevision := fw\<rparr>)" using s2 by (simp add: api_ok_def)
  then have s3: "api_ok s3" using unInitialize_ok by (simp add: s3_def)
  obtain b' mac s4 where q': "request_all (CmdParams eWIFI_GET_MAC_CMD) (mac48bitsStation s3) s3 = (b', mac, s4)" by (metis prod_cases3)
  have "length (mac48bitsStation s3) = 6" using s3 by (simp add: api_ok_def)
  then have s4: "api_ok (s4\<lparr>mac48bitsStation := mac\<rparr>)" using answer_ok [OF s3 v(2) _ q'] by (simp add: api_ok_def)
  have "s' = (if b' then s4\<lparr>mac48bitsStation := mac\<rparr> else api_unInitialize (s4\<lparr>mac48bitsStation := mac\<rparr>))"
    using r q q' unfolding api_initialize_def Let_def s1_def s3_def by (auto split: if_splits)
  then show ?thesis using s4 unInitialize_ok by simp
qed

lemma register_ok: "api_ok s \<Longrightarrow> api_ok (snd (registerStatusCallback f x i s))"
  by (simp add: registerStatusCallback_def Let_def api_ok_def)

lemma simple_calls_ok:
  assumes ok: "api_ok s"
  shows "api_ok (snd (api_connectWPS s))" "api_ok (snd (api_disconnect s))" "api_ok (snd (api_stopWPS s))" "api_ok (snd (api_stopSoftAp s))"
    "api_ok (snd (api_stationPowerSave x s))" "api_ok (snd (api_resetModule s))" "api_ok (snd (api_resetToFactoryDefault s))"
proof -
  have k: "api_ok (snd (command_with_status (CmdParams a) s))" if "command_typed (CmdParams a)" for a
    using command_with_status_ok [OF ok that] by simp
  show "api_ok (snd (api_connectWPS s))" unfolding api_connectWPS_def by (rule k, rule simple_typed) simp
  show "api_ok (snd (api_disconnect s))" unfolding api_disconnect_def by (rule k, rule simple_typed) simp
  show "api_ok (snd (api_stopWPS s))" unfolding api_stopWPS_def by (rule k, rule simple_typed) simp
  show "api_ok (snd (api_stopSoftAp s))" unfolding api_stopSoftAp_def by (rule k, rule simple_typed) simp
  show "api_ok (snd (api_stationPowerSave x s))" unfolding api_stationPowerSave_def by (rule k, rule simple_typed) simp
  have q: "api_ok (snd (snd (request_all (CmdParams a) buf s)))" if "command_typed (CmdParams a)" for a buf
    using request_all_ok(1) [OF ok that] by simp
  show "api_ok (snd (api_resetModule s))" using q [OF simple_typed, of eSYS_REBOOT_CMD] by (simp add: api_resetModule_def split_beta)
  show "api_ok (snd (api_resetToFactoryDefault s))" using q [OF simple_typed, of eSYS_RESET_CMD] by (simp add: api_resetToFactoryDefault_def split_beta)
qed

lemma call_ok:
  assumes ok: "api_ok s" and t: "call_typed c" and r: "call c s = Some s'"
  shows "api_ok s'"
proof (cases c)
  case Initialize
  then show ?thesis using r initialize_ok [OF ok] by auto
next
  case (GetIPAddress i)
  obtain b x s1 where q: "request_all (CmdParams eWIFI_GET_IP_CMD @ [toIpcInterface i]) (le32 (- 1) @ replicate 64 0) s = (b, x, s1)" by (metis prod_cases3)
  have "length (CmdParams eWIFI_GET_IP_CMD @ [toIpcInterface i]) < 2500" by simp
  from answer_ok(1) [OF ok ask_typed(1) this q] have "api_ok s1" .
  then show ?thesis using r GetIPAddress q by (auto simp: api_getIPAddress_def api_ok_def address_in_def Let_def split: if_splits)
next
  case (GetIP6Address k i)
  obtain b x s1 where q: "request_all (CmdParams eWIFI_GET_IP6_ADDR_CMD @ [k, toIpcInterface i]) (le32 (- 1) @ replicate 16 0) s = (b, x, s1)"
    by (metis prod_cases3)
  have "length (CmdParams eWIFI_GET_IP6_ADDR_CMD @ [k, toIpcInterface i]) < 2500" by simp
  note a = answer_ok [OF ok ask_typed(2) this q]
  have "length (take 16 (drop 4 x)) = 16" using a(2) by simp
  then show ?thesis using r GetIP6Address q a ok
    by (auto simp: api_getIP6Address_def api_ok_def Let_def split: if_splits dest!: set_update_subset_insert [THEN subsetD])
next
  case (GetIP6AddressState k i)
  then show ?thesis using r request_all_ok(1) [OF ok ask_typed(3)] by (auto simp: api_getIP6AddressState_def split_beta)
next
  case GetSoftApMacAddress
  then show ?thesis using r request_all_ok [OF ok simple_typed [of eWIFI_GET_SOFT_MAC_CMD], of "mac48bitsSoftAp s"] ok
    by (auto simp: api_getSoftApMacAddress_def split_beta Let_def api_ok_def)
next
  case (GetVersion v n)
  then show ?thesis using r request_all_ok(1) [OF ok simple_typed [of eSYS_VERSION_CMD]] ok
    by (auto simp: api_getVersion_def split_beta Let_def split: if_splits)
next
  case IsConnected
  then show ?thesis using r request_all_ok(1) [OF ok simple_typed [of eWIFI_GET_LINKINFO_CMD], of "le32 (- 1) @ replicate 117 0"]
    by (auto simp: api_isConnected_def split_beta Let_def api_ok_def split: if_splits)
next
  case (Scan a b n)
  define s1 where "s1 = s\<lparr>lastScanResults := replicate 5 0 @ drop 5 (lastScanResults s)\<rparr>"
  have s1: "api_ok s1" "length (lastScanResults s1) = 481" using ok by (simp_all add: s1_def api_ok_def)
  obtain x y s2 where q: "request_all (CmdParams eWIFI_SCAN_CMD @ copyStringToArray 33 (if a then b else [])) (lastScanResults s1) s1 = (x, y, s2)"
    by (metis prod_cases3)
  have "length (CmdParams eWIFI_SCAN_CMD @ copyStringToArray 33 (if a then b else [])) < 2500" by simp
  from answer_ok [OF s1(1) scan_typed this q] have "api_ok (s2\<lparr>lastScanResults := y\<rparr>)" using s1(2) by (simp add: api_ok_def)
  moreover have "s' = (if a \<and> (n \<le> 0 \<or> 32 < n) then s1 else s2\<lparr>lastScanResults := y\<rparr>)"
  proof -
    have "snd (api_scan a b n s) = (if a \<and> (n \<le> 0 \<or> 32 < n) then s1 else s2\<lparr>lastScanResults := y\<rparr>)"
      unfolding api_scan_def s1_def [symmetric] Let_def q by auto
    then show ?thesis using r Scan by simp
  qed
  ultimately show ?thesis using s1(1) by simp
next
  case (StartSoftAp a)
  have i: "ip_typed \<lparr>ipAddressLocal = copyStringToArray 16 (ipAddressLocal (apIp a)), networkMask = copyStringToArray 16 (networkMask (apIp a)),
      gatewayAddress = copyStringToArray 16 (gatewayAddress (apIp a)), dnsServerAddress = copyStringToArray 16 (dnsServerAddress (apIp a))\<rparr>"
    by (rule ip_typed_copy)
  let ?r = "take 32 (ssidString a) @ take 64 (passwordString a) @ le32 (ucast (apChannel a)) @
      ip_bytes \<lparr>ipAddressLocal = copyStringToArray 16 (ipAddressLocal (apIp a)), networkMask = copyStringToArray 16 (networkMask (apIp a)),
        gatewayAddress = copyStringToArray 16 (gatewayAddress (apIp a)), dnsServerAddress = copyStringToArray 16 (dnsServerAddress (apIp a))\<rparr>"
  have l: "length ?r = 164" using t StartSoftAp length_ip_bytes [OF i] by simp
  have "command_typed (CmdParams eWIFI_SOFTAP_START_CMD @ ?r)"
    by (rule plain_command_typed) (use l in \<open>simp_all only: structure_size_def\<close>, simp_all add: command_ids)
  from command_with_status_ok [OF ok this] show ?thesis using r StartSoftAp l by (simp add: api_startSoftAp_def)
next
  case (SetByPass e f)
  define s1 where "s1 = s\<lparr>netlinkInputCallback := (if f \<noteq> None \<and> e = 1 then f else None)\<rparr>"
  have "api_ok s1" using ok by (simp add: s1_def api_ok_def)
  from command_with_status_ok [OF this ask_typed(4), of e] have "api_ok (snd (command_with_status (CmdParams eWIFI_BYPASS_SET_CMD @ le32 e) s1))" by simp
  moreover have "s' = snd (api_setByPass e f s)" using r SetByPass by simp
  moreover have "snd (api_setByPass e f s) = snd (command_with_status (CmdParams eWIFI_BYPASS_SET_CMD @ le32 e) s1)"
    by (simp add: api_setByPass_def s1_def Let_def)
  ultimately show ?thesis by simp
next
  case (Output d u n i)
  then show ?thesis using r output_ok [OF ok, of d u n i] t by auto
next
  case UnInitialize
  then show ?thesis using r unInitialize_ok [OF ok] by simp
next
  case (Connect a b)
  then show ?thesis using r connect_ok [OF ok, of a b] by simp
next
  case (ConnectAdvance a b x y)
  then show ?thesis using r t connectAdvance_ok [OF ok, of x y a b] by simp
next
  case (ConnectEAP x y z u v)
  then show ?thesis using r connectEAP_ok [OF ok, of x y z u v] t by simp
next
  case (SetTimeout x)
  then show ?thesis using r ok by (cases "0 < interfaces s") (auto simp: api_setTimeout_def api_ok_def)
next
  case (RegisterStatusCallback f x i)
  then show ?thesis using r ok register_ok [OF ok, of f x i] by simp
next
  case (UnRegisterStatusCallback i)
  then show ?thesis using r register_ok [OF ok, of None None i] by (simp add: unRegisterStatusCallback_def)
qed (use r simple_calls_ok [OF ok] in auto)

lemma calls_ok: "calls cs s = Some s' \<Longrightarrow> list_all call_typed cs \<Longrightarrow> api_ok s \<Longrightarrow> api_ok s'"
  by (induction cs arbitrary: s) (auto split: option.splits dest: call_ok)

lemma new_api_ok: "28 \<le> nbs \<Longrightarrow> api_ok (new_api nbs ans)"
  by (simp add: api_ok_def new_api_def)

section \<open>The driver and the protocol beneath\<close>

text \<open>The response that the protocol stores for the pending request is the one the call works on.\<close>

lemma fill_is_stored:
  assumes "pendingReqId s = reqId" and "pendingPtr s = Some k" and "resp s k = (buf, of_nat (length buf))" and "0 < length buf" "length buf < 65536"
    and "6 \<le> length payload"
  shows "fst (resp (fst (processResponse reqId payload s)) k) = fill_response buf (drop 6 payload)"
proof -
  have u: "unat (of_nat (length buf) :: u16) = length buf" using assms(5) by (simp add: unat_of_nat)
  then have "0 < (of_nat (length buf) :: u16)" using assms(4) by (simp add: word_less_nat_alt)
  then show ?thesis using assms u
    by (simp add: processResponse_def PACKET_MIN_SIZE_def fill_response_def Let_def)
qed

section \<open>The users of the driver\<close>

lemma fill_prefix: "n \<le> length buf \<Longrightarrow> n \<le> length p \<Longrightarrow> take n (fill_response buf p) = take n p"
  by (simp add: fill_response_def Let_def min_def)

lemma strncmp_gt_take: "strncmp_gt as bs = strncmp_gt as (take (length as) bs)"
  by (induction as bs rule: strncmp_gt.induct) simp_all

text \<open>An answer that is good as a version and as an address.\<close>

definition good_answer :: "u8 list option \<Rightarrow> bool" where
  "good_answer a \<longleftrightarrow> (case a of Some p \<Rightarrow> 7 \<le> length p \<and> \<not> strncmp_gt firmware_revision_required p | None \<Rightarrow> False)"

lemma good_firmware:
  assumes "7 \<le> length buf" and "7 \<le> length p" and "\<not> strncmp_gt firmware_revision_required p"
  shows "\<not> strncmp_gt firmware_revision_required (fill_response buf p)"
proof -
  have l: "length firmware_revision_required = 7" by (simp add: firmware_revision_required_def)
  show ?thesis using assms(3) fill_prefix [OF assms(1,2)] strncmp_gt_take [of firmware_revision_required, unfolded l] by metis
qed

text \<open>How many users there are after a sequence of starts (\<open>True\<close>) and ends, and that there are never too many for a byte.\<close>

fun users :: "bool list \<Rightarrow> nat \<Rightarrow> nat" where
  "users [] n = n"
| "users (b # bs) n = users bs (if b then n + 1 else n - 1)"

fun few_users :: "bool list \<Rightarrow> nat \<Rightarrow> bool" where
  "few_users [] n \<longleftrightarrow> n < 256"
| "few_users (b # bs) n \<longleftrightarrow> n < 256 \<and> few_users bs (if b then n + 1 else n - 1)"

fun start_stop :: "bool list \<Rightarrow> emw_api \<Rightarrow> emw_api option" where
  "start_stop [] s = Some s"
| "start_stop (b # bs) s =
     (if b then (case api_initialize s of None \<Rightarrow> None | Some (status, s) \<Rightarrow> if status = eEMW_STATUS_OK then start_stop bs s else None)
      else start_stop bs (api_unInitialize s))"

definition in_use :: "nat \<Rightarrow> emw_api \<Rightarrow> bool" where
  "in_use n s \<longleftrightarrow> unat (interfaces s) = n \<and> (usable s \<longleftrightarrow> 0 < n) \<and> (receiving s \<longleftrightarrow> 0 < n) \<and> api_ok s"

lemma request_answered:
  assumes "usable s" and "answers s = Some p # as" and "length c < 2500" "length c \<le> 28" and "28 \<le> network_buffer_size s"
  shows "request_all c buf s = (True, fill_response buf p, s\<lparr>sent := sent s @ [c], answers := as\<rparr>)"
proof -
  have u: "unat (of_nat (length c) :: u16) = length c" using assms(3) by (simp add: unat_of_nat)
  then have "(of_nat (length c) :: u16) \<le> network_buffer_size s" using assms(4,5) by (simp add: word_le_nat_alt)
  then have "command_size_allowed (network_buffer_size s) a (of_nat (length c))" for a by (simp add: command_size_allowed_def)
  then show ?thesis using assms u by (simp add: request_all_def request_def Let_def)
qed

lemma initialize_good:
  assumes u: "in_use n s" and n: "n + 1 < 256" and a: "answers s = Some p # Some q # as" and g: "good_answer (Some p)"
  shows "\<exists>s'. api_initialize s = Some (eEMW_STATUS_OK, s') \<and> in_use (n + 1) s' \<and> answers s' = as"
proof -
  define s1 where "s1 = (if interfaces s = 0 then s\<lparr>usable := True, receiving := True, interfaces := 1\<rparr> else s\<lparr>interfaces := interfaces s + 1\<rparr>)"
  have ok: "api_ok s" and ni: "unat (interfaces s) = n" using u by (simp_all add: in_use_def)
  have "unat (interfaces s + 1) = n + 1" using ni n by (subst unat_add_small) simp_all
  then have s1: "in_use (n + 1) s1" "answers s1 = Some p # Some q # as" "firmwareRevision s1 = firmwareRevision s"
    using u a by (auto simp: s1_def in_use_def api_ok_def unat_eq_zero)
  have nb: "28 \<le> network_buffer_size s1" "usable s1" "length (firmwareRevision s1) = 24" using s1(1) by (simp_all add: in_use_def api_ok_def)
  define s2 where "s2 = s1\<lparr>sent := sent s1 @ [CmdParams eSYS_VERSION_CMD], answers := Some q # as\<rparr>"
  have q1: "request_all (CmdParams eSYS_VERSION_CMD) (firmwareRevision s1) s1 = (True, fill_response (firmwareRevision s1) p, s2)"
    unfolding s2_def by (rule request_answered) (use nb s1 in simp_all)
  have fw: "\<not> strncmp_gt firmware_revision_required (fill_response (firmwareRevision s1) p)"
    by (rule good_firmware) (use nb g in \<open>simp_all add: good_answer_def\<close>)
  define s3 where "s3 = s2\<lparr>firmwareRevision := fill_response (firmwareRevision s1) p\<rparr>"
  have s3: "answers s3 = Some q # as" "usable s3" "28 \<le> network_buffer_size s3" using nb by (simp_all add: s3_def s2_def)
  define s4 where "s4 = s3\<lparr>sent := sent s3 @ [CmdParams eWIFI_GET_MAC_CMD], answers := as\<rparr>"
  have q2: "request_all (CmdParams eWIFI_GET_MAC_CMD) (mac48bitsStation s3) s3 = (True, fill_response (mac48bitsStation s3) q, s4)"
    unfolding s4_def by (rule request_answered) (use s3 in simp_all)
  let ?s = "s4\<lparr>mac48bitsStation := fill_response (mac48bitsStation s3) q\<rparr>"
  have i: "api_initialize s = Some (eEMW_STATUS_OK, ?s)"
    using q1 q2 fw unfolding api_initialize_def Let_def s1_def s3_def by (auto split: if_splits)
  moreover have "answers ?s = as" by (simp add: s4_def)
  moreover have "in_use (n + 1) ?s" using s1(1) initialize_ok [OF ok i] by (simp add: in_use_def s4_def s3_def s2_def)
  ultimately show ?thesis by blast
qed

lemma unInitialize_use: "in_use n s \<Longrightarrow> in_use (n - 1) (api_unInitialize s)"
proof -
  assume u: "in_use n s"
  then have ok: "api_ok (api_unInitialize s)" by (simp add: in_use_def unInitialize_ok)
  consider "n = 0" | "n = 1" | "1 < n" by linarith
  then show ?thesis
  proof cases
    case 1
    then have "interfaces s = 0" using u by (simp add: in_use_def unat_eq_zero)
    then show ?thesis using 1 u by (simp add: api_unInitialize_def)
  next
    case 2
    then have "unat (interfaces s) = unat (1 :: u8)" using u by (simp add: in_use_def)
    then have "interfaces s = 1" by (rule word_unat_eq_iff [THEN iffD2])
    then show ?thesis using 2 ok by (simp add: api_unInitialize_def in_use_def)
  next
    case 3
    then have i: "interfaces s \<noteq> 1" "0 < interfaces s" "1 \<le> interfaces s" using u by (auto simp: in_use_def word_less_nat_alt word_le_nat_alt)
    then have "unat (interfaces s - 1) = n - 1" using u by (simp add: unat_sub_small in_use_def)
    then show ?thesis using 3 i u ok by (simp add: api_unInitialize_def in_use_def)
  qed
qed

lemma start_stop_uses:
  assumes "in_use n s" and "few_users bs n" and "list_all good_answer (answers s)" and "2 * length bs \<le> length (answers s)"
  shows "\<exists>s'. start_stop bs s = Some s' \<and> in_use (users bs n) s'"
  using assms
proof (induction bs arbitrary: n s)
  case (Cons b bs)
  show ?case
  proof (cases b)
    case True
    obtain p q as where a: "answers s = Some p # Some q # as" and g: "good_answer (Some p)"
      using Cons.prems(3,4) by (cases "answers s"; cases "tl (answers s)") (auto simp: good_answer_def split: option.splits)
    have "n + 1 < 256" using Cons.prems(2) True by (cases bs) auto
    from initialize_good [OF Cons.prems(1) this a g] obtain s' where s': "api_initialize s = Some (eEMW_STATUS_OK, s')" "in_use (n + 1) s'" "answers s' = as"
      by blast
    have "\<exists>s2. start_stop bs s' = Some s2 \<and> in_use (users bs (n + 1)) s2"
      using Cons.IH [OF s'(2)] Cons.prems(2-4) True a s'(3) by simp
    then show ?thesis using True s' by simp
  next
    case False
    have "answers (api_unInitialize s) = answers s" by (simp add: api_unInitialize_def)
    then show ?thesis using Cons.IH [OF unInitialize_use [OF Cons.prems(1)]] Cons.prems(2-4) False by simp
  qed
qed simp

section \<open>A connection and its settings\<close>

lemma u8_high_bits: "8 \<le> n \<Longrightarrow> \<not> bit (x :: u8) n"
  by (auto dest: bit_imp_le_length)

lemma le32_from_le32: "length bs = 4 \<Longrightarrow> le32 (from_le32 bs) = bs"
proof -
  assume "length bs = 4"
  then obtain a b c d where bs: "bs = [a, b, c, d]" by (auto simp: numeral_eq_Suc length_Suc_conv)
  have "ucast (from_le32 bs) = a" "ucast (drop_bit 8 (from_le32 bs)) = b" "ucast (drop_bit 16 (from_le32 bs)) = c" "ucast (drop_bit 24 (from_le32 bs)) = d"
    by (rule word_eq_bitsI, simp add: bs from_le32_def bit_positions bit_simps u8_high_bits)+
  then show "le32 (from_le32 bs) = bs" by (simp add: le32_def bs)
qed

lemma octet_inv_plain: "0 \<notin> set (octet_inv b)"
proof (induction b rule: octet_inv.induct)
  case (1 b)
  have "48 + b mod 10 \<noteq> (0 :: u8)"
  proof
    assume "48 + b mod 10 = 0"
    then have "b mod 10 = - 48" by (simp add: add_eq_0_iff)
    moreover have "b mod 10 < 10" by (rule word_mod_less_divisor) simp
    ultimately show False by simp
  qed
  then show ?case using 1 by (subst octet_inv.simps) auto
qed

lemma dotted_plain: "0 \<notin> set (dotted a)" "length (dotted a) \<le> 15"
  using octet_inv_plain octet_string_length [of "addr_octet a 0"] octet_string_length [of "addr_octet a 1"]
    octet_string_length [of "addr_octet a 2"] octet_string_length [of "addr_octet a 3"]
  by (auto simp: dotted_def octet_string_def)

definition ascii_address :: "u8 list \<Rightarrow> u8 list" where
  "ascii_address a = copyStringToArray 16 (case NetworkToAscii4 (from_le32 a) 16 of Some t \<Rightarrow> t | None \<Rightarrow> [])"

lemma ascii_address_read:
  assumes "length a = 4" and "drop off c = ascii_address a @ r"
  shows "address_in c off = a"
proof -
  let ?a = "from_le32 a"
  have n: "NetworkToAscii4 ?a 16 = Some (dotted ?a)" by (rule NetworkToAscii4_dotted) simp
  have "text_in (dotted ?a) = dotted ?a" using dotted_plain(1) by (auto simp: text_in_def)
  then have "text_in (drop off c) = dotted ?a" using copyString(3) [of 16 "dotted ?a" r] dotted_plain(2) [of ?a] n assms(2)
    by (simp add: ascii_address_def)
  moreover have "AsciiToNetwork4 (dotted ?a) = Some ?a" using NetworkToAscii4_roundtrip [of 16 ?a] n by simp
  ultimately show ?thesis using le32_from_le32 [OF assms(1)] by (simp add: address_in_def)
qed

lemma connect_sends:
  assumes ok: "api_ok s" and u: "usable s" "182 \<le> network_buffer_size s" and l: "length (text_in ssid) \<le> 32" "length (text_in pw) \<le> 64"
  shows "\<exists>c. sent (snd (api_connect ssid pw s)) = sent s @ [c] \<and> GetApiId c = eWIFI_CONNECT_CMD \<and>
    text_in (drop 6 c) = text_in ssid \<and> text_in (drop 39 c) = text_in pw \<and> unat (from_le32 (drop 104 c)) = length (text_in pw) \<and>
    c ! 109 = (if dhcpIsEnabled s then 0 else 1) \<and>
    (\<not> dhcpIsEnabled s \<longrightarrow> address_in c 118 = ipAddress s \<and> address_in c 134 = ipMask s \<and> address_in c 150 = gatewayAddr s \<and> address_in c 166 = dns1 s)"
proof -
  define p where "p = new_connect\<lparr>c_ssid := copyStringToArray 33 ssid, c_key := copyStringToArray 65 pw, keyLength := of_nat (length (text_in pw))\<rparr>"
  define q where "q = (if \<not> dhcpIsEnabled s then p\<lparr>useIp := 1, c_ip := \<lparr>ipAddressLocal = ascii_address (ipAddress s), networkMask = ascii_address (ipMask s),
      gatewayAddress = ascii_address (gatewayAddr s), dnsServerAddress = ascii_address (dns1 s)\<rparr>\<rparr> else p)"
  have q: "connect_typed q" by (simp add: q_def p_def new_connect_def connect_typed_def ascii_address_def ip_typed_copy)
  then have len: "length (connect_bytes q) = 182" using length_connect_bytes [of q] by (simp add: connect_typed_def)
  have e: "api_connect ssid pw s = command_with_status (connect_bytes q) s"
    using l unfolding api_connect_def Let_def q_def p_def ascii_address_def by simp
  have g: "GetApiId (connect_bytes q) = eWIFI_CONNECT_CMD" by (simp add: connect_bytes_def)
  have allowed: "command_size_allowed (network_buffer_size s) a 182" for a using u(2) by (simp add: command_size_allowed_def)
  have sent: "sent (snd (api_connect ssid pw s)) = sent s @ [connect_bytes q]"
    unfolding e command_with_status_def request_all_def len request_def using u(1) allowed len by (auto simp: Let_def split: list.split option.split)
  have f: "c_ssid q = copyStringToArray 33 ssid" "c_key q = copyStringToArray 65 pw" "keyLength q = of_nat (length (text_in pw))"
    "useIp q = (if dhcpIsEnabled s then 0 else 1)" "length (bssid (c_attr q)) = 6"
    by (simp_all add: q_def p_def new_connect_def)
  have t: "text_in (drop 6 (connect_bytes q)) = text_in ssid" "text_in (drop 39 (connect_bytes q)) = text_in pw"
    using l copyString(3) [of 33 ssid] copyString(3) [of 65 pw] by (simp_all add: connect_bytes_def f)
  have k: "unat (from_le32 (drop 104 (connect_bytes q))) = length (text_in pw)"
    using l by (simp add: connect_bytes_def f unat_of_nat)
  have ui: "connect_bytes q ! 109 = (if dhcpIsEnabled s then 0 else 1)" by (simp add: connect_bytes_def f nth_append)
  have ad: "address_in (connect_bytes q) 118 = ipAddress s \<and> address_in (connect_bytes q) 134 = ipMask s \<and> address_in (connect_bytes q) 150 = gatewayAddr s \<and>
      address_in (connect_bytes q) 166 = dns1 s" if "\<not> dhcpIsEnabled s"
  proof -
    have i: "c_ip q = \<lparr>ipAddressLocal = ascii_address (ipAddress s), networkMask = ascii_address (ipMask s),
      gatewayAddress = ascii_address (gatewayAddr s), dnsServerAddress = ascii_address (dns1 s)\<rparr>" using that by (simp add: q_def)
    have al: "length (ascii_address a) = 16" for a by (simp add: ascii_address_def)
    have "drop 118 (connect_bytes q) = ascii_address (ipAddress s) @ drop 134 (connect_bytes q)"
      "drop 134 (connect_bytes q) = ascii_address (ipMask s) @ drop 150 (connect_bytes q)"
      "drop 150 (connect_bytes q) = ascii_address (gatewayAddr s) @ drop 166 (connect_bytes q)"
      "drop 166 (connect_bytes q) = ascii_address (dns1 s) @ []"
      by (simp_all add: connect_bytes_def f i ip_bytes_def al)
    then show ?thesis using ok ascii_address_read by (metis api_ok_def)
  qed
  show ?thesis using sent g t k ui ad by blast
qed

section \<open>Properties\<close>

text \<open>
  C9: Every command that is sent has the form the module expects. Whatever calls are made, with whatever answers, as long as a packet
  given to \<^verbatim>\<open>output\<close> is shorter than \<open>2^16 - 28\<close> bytes, a certificate shorter than \<open>2^16 - 10\<close>, and the fixed arrays of the
  arguments have their sizes in C: each command sent begins with its header, has just the size of the structure of its identifier, or the
  size its own length field says, ends its texts with a zero, and fits the buffers of the transport; and answers of any length leave
  every array of the driver at its size. The code checks neither length: \<open>output_length_wraps\<close> below is a packet over the bound.
\<close>
theorem api_commands_typed:
  assumes "calls cs (new_api nbs ans) = Some s" and "list_all call_typed cs" and "28 \<le> nbs"
  shows "api_ok s \<and> (\<forall>c \<in> set (sent s). command_typed c \<and> (length c < 2500 \<or> length c \<le> unat (network_buffer_size s)))"
  using calls_ok [OF assms(1,2) new_api_ok [OF assms(3)]] by (simp add: api_ok_def)

text \<open>Start, disconnect, a packet of three bytes, a scan.\<close>

definition sample_calls :: "api_call list" where
  "sample_calls = [Initialize, Disconnect, Output (Some [1, 2, 3]) (replicate 16 0) 3 0, Scan True [65, 0] 1]"

definition sample_api :: emw_api where
  "sample_api = new_api 1542 [Some [86, 50, 46, 51, 46, 52, 0], Some [2, 0, 0, 0, 0, 1], Some [0, 0, 0, 0], Some [0, 0, 0, 0], Some [0]]"

lemma sample_run: "map_option (\<lambda>s. map length (sent s)) (calls sample_calls sample_api) = Some [6, 6, 6, 31, 39]"
  by (simp add: sample_calls_def sample_api_def new_api_def api_initialize_def request_all_def request_def command_size_allowed_def CmdParams_def
    firmware_revision_required_def fill_response_def api_disconnect_def command_with_status_def le32_def from_le32_def api_output_def bypass_header_def
    le16_bytes_def api_scan_def copyStringToArray_def copy_chars_text text_in_def GetApiId_def command_ids Let_def)

lemma api_commands_typed_witness:
  "\<exists>s. calls sample_calls sample_api = Some s \<and> api_ok s \<and> length (sent s) = 5"
proof -
  obtain s where s: "calls sample_calls sample_api = Some s" "map length (sent s) = [6, 6, 6, 31, 39]" using sample_run by auto
  have t: "list_all call_typed sample_calls" by (simp add: sample_calls_def)
  have "api_ok s" using api_commands_typed [OF s(1) [unfolded sample_api_def] t] by simp
  then show ?thesis using s(1) arg_cong [OF s(2), of length] by auto
qed

text \<open>
  C21: A connection request carries what it was given. It is one command with the name of the network, the password and its length, and
  with static addresses the four of them as texts that are read back as the same addresses.
\<close>
theorem connect_carries_settings:
  assumes "api_ok s" and "usable s" and "182 \<le> network_buffer_size s" and "length (text_in ssid) \<le> 32" and "length (text_in pw) \<le> 64"
  shows "\<exists>c. sent (snd (api_connect ssid pw s)) = sent s @ [c] \<and> GetApiId c = eWIFI_CONNECT_CMD \<and>
    text_in (drop 6 c) = text_in ssid \<and> text_in (drop 39 c) = text_in pw \<and> unat (from_le32 (drop 104 c)) = length (text_in pw) \<and>
    c ! 109 = (if dhcpIsEnabled s then 0 else 1) \<and>
    (\<not> dhcpIsEnabled s \<longrightarrow> address_in c 118 = ipAddress s \<and> address_in c 134 = ipMask s \<and> address_in c 150 = gatewayAddr s \<and> address_in c 166 = dns1 s)"
  by (rule connect_sends [OF assms])

lemma connect_carries_settings_witness:
  "\<exists>c. sent (snd (api_connect [65, 66, 0] [112, 119, 0] ((new_api 1542 [])\<lparr>usable := True, dhcpIsEnabled := False, ipAddress := [192, 168, 8, 7]\<rparr>))) = [c] \<and>
     text_in (drop 6 c) = [65, 66] \<and> text_in (drop 39 c) = [112, 119] \<and> address_in c 118 = [192, 168, 8, 7]"
proof -
  let ?s = "(new_api 1542 [])\<lparr>usable := True, dhcpIsEnabled := False, ipAddress := [192, 168, 8, 7]\<rparr>"
  have "api_ok ?s" "usable ?s" "182 \<le> network_buffer_size ?s" by (simp_all add: new_api_def api_ok_def)
  from connect_carries_settings [OF this, of "[65, 66, 0]" "[112, 119, 0]"] show ?thesis
    by (auto simp: text_in_def new_api_def)
qed

text \<open>
  C19: The driver runs exactly while it has users. When the module answers every request, every start succeeds, the count is the number of
  users after any sequence of starts and ends with fewer than 256 users at a time, and the transport and the receiving thread
  are up exactly when that number is not zero.
\<close>
theorem driver_runs_while_used:
  assumes "few_users bs 0" and "list_all good_answer ans" and "2 * length bs \<le> length ans" and "28 \<le> nbs"
  shows "\<exists>s. start_stop bs (new_api nbs ans) = Some s \<and> unat (interfaces s) = users bs 0 \<and>
    (usable s \<longleftrightarrow> 0 < users bs 0) \<and> (receiving s \<longleftrightarrow> 0 < users bs 0)"
proof -
  have "in_use 0 (new_api nbs ans)" using new_api_ok [OF assms(4)] by (simp add: in_use_def) (simp add: new_api_def)
  from start_stop_uses [OF this assms(1)] assms(2,3) show ?thesis by (auto simp: new_api_def in_use_def)
qed

lemma driver_runs_while_used_witness:
  "\<exists>s. start_stop [True, True, False] (new_api 1542 (replicate 6 (Some [86, 50, 46, 51, 46, 53, 0]))) = Some s \<and> unat (interfaces s) = 1 \<and> usable s"
proof -
  have "good_answer (Some [86, 50, 46, 51, 46, 53, 0])" by (simp add: good_answer_def firmware_revision_required_def)
  then have "list_all good_answer (replicate 6 (Some [86, 50, 46, 51, 46, 53, 0]))" by (simp add: list_all_iff)
  then show ?thesis using driver_runs_while_used [of "[True, True, False]" _ 1542] by fastforce
qed

text \<open>
  C20: A failed start takes a user away. When another user has the driver and both requests of the start fail, the start reports success, and the count
  is one less than before; with one other user the driver is shut down under it.
\<close>
theorem failed_start_takes_a_user:
  assumes "usable s" and "1 \<le> interfaces s" and "interfaces s < 255" and "28 \<le> network_buffer_size s" and "answers s = None # None # as"
  shows "\<exists>s'. api_initialize s = Some (eEMW_STATUS_OK, s') \<and> interfaces s' = interfaces s - 1 \<and> (interfaces s = 1 \<longrightarrow> \<not> usable s')"
proof -
  let ?s = "s\<lparr>interfaces := interfaces s + 1\<rparr>"
  have i: "interfaces s \<noteq> 0" "interfaces s + 1 \<noteq> 1" "0 < interfaces s + 1" "0 < interfaces s"
    using assms(2,3) by (auto simp: word_less_nat_alt word_le_nat_alt unat_add_small intro: word_greater_zero_iff [THEN iffD2])
  have al: "command_size_allowed (network_buffer_size s) a 6" for a using assms(4) by (simp add: command_size_allowed_def word_le_nat_alt)
  show ?thesis using assms(1,5) i al by (simp add: api_initialize_def request_all_def request_def api_unInitialize_def Let_def)
qed

lemma failed_start_takes_a_user_witness:
  "\<exists>s'. api_initialize ((new_api 1542 [None, None])\<lparr>usable := True, interfaces := 1\<rparr>) = Some (eEMW_STATUS_OK, s') \<and> interfaces s' = 0 \<and> \<not> usable s'"
  using failed_start_takes_a_user [of "(new_api 1542 [None, None])\<lparr>usable := True, interfaces := 1\<rparr>" "[]"] by (simp add: new_api_def)

fun takes_buffer :: "event_action \<Rightarrow> bool" where
  "takes_buffer Freed = True" | "takes_buffer (NetInput f d i) = True" | "takes_buffer _ = False"

lemma netlink_takes_once: "length (filter takes_buffer (ProcessWiFiNetlinkInput s (Some p))) = 1"
  by (simp add: ProcessWiFiNetlinkInput_def Let_def split: option.split)

text \<open>
  C18: No buffer of an event leaks or is freed twice. Whatever event the module reports, with whatever contents, its buffer is freed or
  handed to the network stack exactly once; a status is reported only to the function registered for its interface, with its argument;
  and the thread stops only for a status that is not one of the five known.
\<close>
theorem event_buffer_taken_once:
  "let acts = processEvent m s (Some p) apiId in
   length (filter takes_buffer acts) = 1 \<and> NullRead \<notin> set acts \<and>
   (\<forall>f i e x. StatusCall f i e x \<in> set acts \<longrightarrow>
      wiFiStatusCallbacks s ! (if i = eSTATION then 0 else 1) = Some f \<and> wiFiStatusCallbackArgs s ! (if i = eSTATION then 0 else 1) = x \<and>
      e = p ! 6 \<and> (i = eSTATION \<longleftrightarrow> e \<in> {1, 2, 3})) \<and>
   (Halted \<in> set acts \<longrightarrow> apiId = eWIFI_STATUS_EVENT \<and> p ! 6 \<notin> {1, 2, 3, 4, 5})"
  unfolding Let_def
proof (intro conjI)
  show "length (filter takes_buffer (processEvent m s (Some p) apiId)) = 1"
    by (simp add: processEvent_def netlink_takes_once ProcessWiFiStatusEvent_def ProcessRebootEvent_def ProcessFotaStatusEvent_def Let_def split: option.split)
qed (auto simp: processEvent_def ProcessWiFiNetlinkInput_def ProcessWiFiStatusEvent_def ProcessRebootEvent_def ProcessFotaStatusEvent_def Let_def
    split: option.splits if_splits)

lemma event_buffer_taken_once_witness:
  "processEvent True ((new_api 1542 [])\<lparr>wiFiStatusCallbacks := [Some 4, None], wiFiStatusCallbackArgs := [Some 9, None]\<rparr>) (Some [0, 0, 0, 0, 1, 0x81, 3])
     eWIFI_STATUS_EVENT = [Freed, StatusCall 4 eSTATION 3 (Some 9)] \<and> Halted \<notin> set (processEvent True (new_api 1542 []) (Some [0, 0, 0, 0, 1, 0x81, 3]) eWIFI_STATUS_EVENT)"
proof -
  have "Halted \<notin> set (processEvent True (new_api 1542 []) (Some [0, 0, 0, 0, 1, 0x81, 3]) eWIFI_STATUS_EVENT)"
    using event_buffer_taken_once [of True "new_api 1542 []" "[0, 0, 0, 0, 1, 0x81, 3]" eWIFI_STATUS_EVENT] by (auto simp: Let_def)
  then show ?thesis by (simp add: processEvent_def ProcessWiFiStatusEvent_def eWIFI_STATUS_EVENT_def eWIFI_BYPASS_INPUT_EVENT_def Let_def)
qed

subsection \<open>Faults\<close>

text \<open>\<open>V2.3.10\<close> is taken for older than \<open>V2.3.4\<close>, and the driver stops.\<close>

lemma version_ten_refused: "strncmp_gt firmware_revision_required [86, 50, 46, 51, 46, 49, 48, 0]"
  by (simp add: firmware_revision_required_def)

text \<open>A length near \<open>2\<^sup>1\<^sup>6\<close> wraps: three bytes of the header are sent.\<close>

lemma output_length_wraps:
  "sent (snd (api_output (Some d) (replicate 16 0) 65511 0 ((new_api 1542 [])\<lparr>usable := True\<rparr>))) = [[0, 0, 0]]"
  by (simp add: api_output_def new_api_def request_def command_size_allowed_def bypass_header_def CmdParams_def Let_def)

text \<open>With eleven found access points, as many as the module says, the arrays of ten are overrun.\<close>

lemma scan_results_overrun: "api_getScanResults r 20 ((new_api 1542 [])\<lparr>lastScanResults := 11 # replicate 480 0\<rparr>) = None"
  by (simp add: api_getScanResults_def new_api_def Let_def)

end
