(* ===== verification/Spec2Isabelle.thy ===== *)
theory Spec2Isabelle
  imports App_Dhcp Core_Console Lib_Lock Lib_Console Rtos_List Rtos_Heap4 Lwip_Pbuf_Data Lwip_Timeouts Lwip_Chksum Rtos_Queue_Tasks Rtos_Timing
    Emw_Address6 Emw_Api
begin

text \<open>
  Wi-Fi on the B-U585I-IOT2A board: a driver for the EMW3080 module on an SPI bus, the TCP/IP stack lwIP
  above it, the kernel FreeRTOS beneath it, and demonstrations run from a console on the serial line.

  \<^bold>\<open>The parts and how they work together.\<close> An application calls a command of \<^verbatim>\<open>drivers/emw/EmwApiCore.cpp\<close>,
  which fills in a structure of \<^verbatim>\<open>EmwCoreIpc.hpp\<close> and sends it as a request of the protocol in
  \<^verbatim>\<open>EmwCoreIpc.cpp\<close>: one request is pending at a time, under a number the module echoes. The request goes
  through the packet queue of \<^verbatim>\<open>EmwCoreHci.cpp\<close> to the SPI transfers of \<^verbatim>\<open>EmwIoSpi.cpp\<close>, where a thread and the
  pin interrupts take turns. Queues and semaphores come from \<^verbatim>\<open>EmwOsInterface.hpp\<close>, either on FreeRTOS
  or polled without it. What the module receives from the air comes back as an event; its bytes become packet buffers of
  lwIP. The access point hands out addresses by \<^verbatim>\<open>applications/lwip/AppDhcpService.cpp\<close>.

  \<^bold>\<open>Which theory models what.\<close> Each theory names its source file and what a field or a branch stands for.
  \<^item> \<open>Prelude_Base\<close>: the integer types of the target and shared lemmas on lists and words. \<open>Bounded_Fifo\<close>: the locale
    of a queue that is put to and got from without waiting, with its ring lemmas; \<open>Emw_Os\<close> and \<open>Rtos_Queue\<close>
    interpret it on the queues of the code.
  \<^item> \<open>Emw_Os\<close> (\<^verbatim>\<open>EmwOsNoOSImplementation.cpp\<close>), \<open>Emw_Spi\<close> (\<^verbatim>\<open>EmwIoSpi.cpp\<close>, \<^verbatim>\<open>EmwCoreHci.cpp\<close>), \<open>Emw_Ipc\<close>
    (\<^verbatim>\<open>EmwCoreIpc.cpp\<close>), \<open>Emw_Api\<close> (\<^verbatim>\<open>EmwApiCore.cpp\<close>, \<^verbatim>\<open>EmwApiEmwBypass.cpp\<close>), \<open>Emw_Address\<close> and
    \<open>Emw_Address6\<close> (\<^verbatim>\<open>EmwAddress.cpp\<close>, IPv4 and IPv6):
    the driver from the bottom up. The packets of one layer are the byte lists of the next.
  \<^item> \<open>App_Dhcp\<close> (\<^verbatim>\<open>AppDhcpService.cpp\<close>) and \<open>Core_Console\<close> (\<^verbatim>\<open>core/src/Console.cpp\<close>): the address server and the console.
  \<^item> \<open>Lib_Lock\<close> and \<open>Lib_Console\<close> (\<^verbatim>\<open>lib/\<close>): the glue of the C library.
  \<^item> \<open>Rtos_List\<close>, \<open>Rtos_Heap4\<close>, \<open>Rtos_Queue\<close>, \<open>Rtos_Queue_Tasks\<close> (\<^verbatim>\<open>list.c\<close>, \<^verbatim>\<open>heap_4.c\<close>, \<^verbatim>\<open>queue.c\<close>): the parts of the
    kernel that the driver and the applications rely on.
  \<^item> \<open>Rtos_Tasks\<close> (\<^verbatim>\<open>tasks.c\<close>, \<^verbatim>\<open>port.c\<close>): the scheduler, on the lists of \<open>Rtos_List\<close>, one record for its variables
    and the fields of the control blocks. \<open>Rtos_Sched\<close>: its invariant, the choice of a task and the tick; \<open>Rtos_Moves\<close>: how a task moves
    between lists; \<open>Rtos_Pend\<close>: no call reads the request for a switch; \<open>Rtos_Calls\<close>: the calls, and the giving back of a mutex
    (\<^verbatim>\<open>queue.c\<close>), keep the invariant; \<open>Rtos_Machine\<close>: the reachable states; \<open>Rtos_Timing\<close>: delays and time-outs.
  \<^item> \<open>Lwip_Def\<close>, \<open>Lwip_Ip4_Addr\<close>, \<open>Lwip_Chksum\<close>, \<open>Lwip_Mem\<close>, \<open>Lwip_Pbuf\<close>, \<open>Lwip_Pbuf_Data\<close>, \<open>Lwip_Timeouts\<close>
    (\<^verbatim>\<open>def.c\<close>, \<^verbatim>\<open>ip4_addr.c\<close>, \<^verbatim>\<open>inet_chksum.c\<close>, \<^verbatim>\<open>mem.c\<close>, \<^verbatim>\<open>pbuf.c\<close>, \<^verbatim>\<open>timeouts.c\<close>): the core of lwIP.

  \<^bold>\<open>What the lemmas show.\<close>
  \<^item> The protocol: rule induction over the runs of the two threads shows that a success is always the answer
    to its own request, unless the run took a stray response, which is either the late answer of a request that has timed out
    and not yet withdrawn its number or one that carries the reserved number; and that after a stray response any two
    commands end in an unanswered success and a hang.
  \<^item> The link: what a pass transfers, and when the chip select is raised. A transfer by DMA ends at once, in time or after the wait for
    it; the driver ignores which, and after one late end each pass raises the chip select too early.
  \<^item> The commands: every command has the form of its structure for any sequence of calls and answers (an
    invariant kept by each call), the count of users, the fate of each event's buffer.
  \<^item> The address server: well-formed replies and no address given twice over every run, by an invariant of
    the table; and that a second client is never served, by the loop equation of the search.
  \<^item> The console: editing refines a text with a cursor; a session is described by functions on whole texts.
  \<^item> Heaps, kernel lists and packet buffers: a predicate says which abstract list the pointers
    describe, each operation is shown to act on that list, and loops that only end on well-formed data are shown to end there.
  \<^item> Queues: the ring is a bounded queue; over all interleavings of tasks and interrupt handlers, an invariant with ghost
    counts shows that nothing is lost and no wake-up is missed.
  \<^item> The scheduler: an invariant over the containers of all list items, kept by every call whatever the order, so that no assertion
    fails in any reachable state. The running task is the right one in every reachable state in which no switch has been overlooked;
    the two calls that can overlook one (a mutex given back out of order while a task waits, and a wait for a mutex that
    times out) are named, and a switch always repairs it. A delay, a periodic delay and a time-out last their number of ticks across the
    wrap of the clock.
  \<^item> The timers of lwIP: what is due is served in order, by the stack's own handlers, which set themselves again.
  \<^item> Checksums and addresses: the optimised routines equal a reference on all inputs; texts and addresses are printed and read back.

  \<^bold>\<open>Bounds and loops.\<close> Integers keep their width where overflow matters. A loop that may not end is a
  \<open>partial_function\<close> into \<open>option\<close>; that it ends is part of what is proved wherever a theorem speaks of its result.
  The loops with fuel are those of the console: reading a line uses one unit for a key, and each key uses up at least one byte of the input;
  the arguments and the history have ten and five places, which is their fuel; running rounds uses one unit for a
  line, which takes at least one byte. So the length of the input is enough, and the theorems are stated with it.

  \<^bold>\<open>Not modelled.\<close> The kernel's timers and event groups, stacks and registers, and interrupts inside a call of the
  scheduler (each call is one step; between suspending and resuming the scheduler they are steps of their own); TCP, UDP, IP and the other
  protocols of lwIP, its sockets and applications; the sockets, TLS and ping of the build in which the module runs the network
  stack (\<^verbatim>\<open>EmwApiEmw.cpp\<close>); the wrappers of network buffers; the board's pins, the start-up code and interrupt
  vectors, which only set registers; the vendor's HAL, which appears as inputs of the SPI model; the other demonstrations.
  Printing is left out throughout.
\<close>

end
